(* ===== verification/SGB_Prelude.thy ===== *)
theory SGB_Prelude
  imports Main "HOL-Library.Multiset"
begin

text \<open>
  Shared ground of the development: the machine \<open>int\<close> of the C code (32 bits, two's
  complement), the column values of a tuple slot, and the generic facts on lists and
  options that the components use. The columns the operator groups by are C \<open>int\<close>s; they
  are kept here as mathematical integers, with every C operation that can leave the 32-bit
  range written through \<open>i32\<close>, which folds its result back as the compiled code does.
\<close>

named_theorems c_int_defs "definitions of the C integer operations"
named_theorems c_int_range "results of the C integer operations stay in the int range"

section \<open>C int arithmetic\<close>

definition int32 :: "int \<Rightarrow> bool" where
  "int32 x \<longleftrightarrow> -2147483648 \<le> x \<and> x \<le> 2147483647"

definition i32 :: "int \<Rightarrow> int" where
  "i32 x = (x + 2147483648) mod 4294967296 - 2147483648"

definition add32 :: "int \<Rightarrow> int \<Rightarrow> int" where
  [c_int_defs]: "add32 a b = i32 (a + b)"

definition sub32 :: "int \<Rightarrow> int \<Rightarrow> int" where
  [c_int_defs]: "sub32 a b = i32 (a - b)"

definition mul32 :: "int \<Rightarrow> int \<Rightarrow> int" where
  [c_int_defs]: "mul32 a b = i32 (a * b)"

definition abs32 :: "int \<Rightarrow> int" where
  [c_int_defs]: "abs32 a = (if a < 0 then i32 (- a) else a)"

text \<open>C's remainder: the quotient is truncated towards zero, so the result has the sign
  of the dividend.\<close>

definition rem32 :: "int \<Rightarrow> int \<Rightarrow> int" where
  "rem32 a b = (if a < 0 then - ((- a) mod \<bar>b\<bar>) else a mod \<bar>b\<bar>)"

lemma i32_id [simp]: "int32 x \<Longrightarrow> i32 x = x"
  by (simp add: int32_def i32_def)

lemma int32_i32 [c_int_range, simp]: "int32 (i32 x)"
proof -
  have "0 \<le> (x + 2147483648) mod 4294967296" "(x + 2147483648) mod 4294967296 < 4294967296"
    by simp_all
  then show ?thesis by (simp add: int32_def i32_def)
qed

lemma int32_ops [c_int_range, simp]:
  "int32 (add32 a b)" "int32 (sub32 a b)" "int32 (mul32 a b)"
  by (simp_all add: c_int_defs)

lemma add32_eq: "int32 (a + b) \<Longrightarrow> add32 a b = a + b"
  by (simp add: add32_def)

lemma sub32_eq: "int32 (a - b) \<Longrightarrow> sub32 a b = a - b"
  by (simp add: sub32_def)

lemma mul32_eq: "int32 (a * b) \<Longrightarrow> mul32 a b = a * b"
  by (simp add: mul32_def)

lemma abs32_eq: "-2147483648 < a \<Longrightarrow> a \<le> 2147483647 \<Longrightarrow> abs32 a = \<bar>a\<bar>"
  by (simp add: abs32_def int32_def)

lemmas ops32_eq = add32_eq sub32_eq mul32_eq abs32_eq

lemma rem32_bounds:
  assumes "0 < b"
  shows "- b < rem32 a b \<and> rem32 a b < b"
proof (cases "a < 0")
  case True
  have "0 \<le> (- a) mod b" "(- a) mod b < b" using assms by simp_all
  with True assms show ?thesis by (simp add: rem32_def)
next
  case False
  have "0 \<le> a mod b" "a mod b < b" using assms by simp_all
  with False assms show ?thesis by (simp add: rem32_def)
qed

text \<open>A range that leaves room for the sums and differences the grouping code forms.\<close>

definition coord_ok :: "int \<Rightarrow> bool" where
  "coord_ok x \<longleftrightarrow> -536870912 \<le> x \<and> x \<le> 536870912"

lemma coord_ok_int32: "coord_ok x \<Longrightarrow> int32 x"
  by (simp add: coord_ok_def int32_def)

lemma coord_ok_ops:
  assumes "coord_ok x" "coord_ok y"
  shows "add32 x y = x + y" "sub32 x y = x - y" "abs32 (sub32 x y) = \<bar>x - y\<bar>"
  using assms by (simp_all add: coord_ok_def c_int_defs int32_def)

section \<open>Tuple slots\<close>

text \<open>
  A \<open>TupleTableSlot\<close> as the grouping code reads it: the columns of the current tuple, each
  an \<open>int4\<close> or NULL. \<open>slot_getattr\<close> (\<^verbatim>\<open>access/common/heaptuple.c\<close>) takes a column number
  that starts at 1 and returns the datum with its null flag; a NULL column, and a column
  past the last one, read as datum 0 with the flag set.
\<close>

type_synonym slot = "int option list"

definition slot_getattr :: "slot \<Rightarrow> nat \<Rightarrow> int \<times> bool" where
  "slot_getattr s attnum =
     (if 1 \<le> attnum \<and> attnum \<le> length s
      then (case s ! (attnum - 1) of None \<Rightarrow> (0, True) | Some v \<Rightarrow> (v, False))
      else (0, True))"

abbreviation slot_int :: "slot \<Rightarrow> nat \<Rightarrow> int" where
  "slot_int s i \<equiv> fst (slot_getattr s (Suc i))"

abbreviation slot_null :: "slot \<Rightarrow> nat \<Rightarrow> bool" where
  "slot_null s i \<equiv> snd (slot_getattr s (Suc i))"

definition slot_of :: "int list \<Rightarrow> slot" where
  "slot_of vs = map Some vs"

lemma slot_getattr_of [simp]:
  "i < length vs \<Longrightarrow> slot_getattr (slot_of vs) (Suc i) = (vs ! i, False)"
  by (simp add: slot_getattr_def slot_of_def)

section \<open>Lists\<close>

lemma sum_list_update_nat:
  fixes f :: "'a \<Rightarrow> nat"
  assumes "i < length xs"
  shows "sum_list (map f (xs[i := x])) + f (xs ! i) = sum_list (map f xs) + f x"
  using assms
proof (induction xs arbitrary: i)
  case Nil
  then show ?case by simp
next
  case (Cons y ys)
  then show ?case by (cases i) (simp_all add: add_ac)
qed

lemma mset_concat_update:
  assumes "i < length xs"
  shows "mset (concat (map f (xs[i := x]))) + mset (f (xs ! i))
       = mset (concat (map f xs)) + mset (f x)"
  using assms
proof (induction xs arbitrary: i)
  case Nil
  then show ?case by simp
next
  case (Cons y ys)
  then show ?case by (cases i) (simp_all add: add_ac)
qed

lemma filter_update_length:
  assumes "i < length xs" "\<not> P (xs ! i)" "P x"
  shows "length (filter P (xs[i := x])) = Suc (length (filter P xs))"
  using assms
proof (induction xs arbitrary: i)
  case Nil
  then show ?case by simp
next
  case (Cons y ys)
  then show ?case by (cases i) auto
qed

lemma filter_update_length_del:
  assumes "i < length xs" "P (xs ! i)" "\<not> P x"
  shows "Suc (length (filter P (xs[i := x]))) = length (filter P xs)"
  using assms
proof (induction xs arbitrary: i)
  case Nil
  then show ?case by simp
next
  case (Cons y ys)
  then show ?case by (cases i) auto
qed

lemma filter_update_length_same:
  assumes "i < length xs" "P x = P (xs ! i)"
  shows "length (filter P (xs[i := x])) = length (filter P xs)"
  using assms
proof (induction xs arbitrary: i)
  case Nil
  then show ?case by simp
next
  case (Cons y ys)
  then show ?case by (cases i) auto
qed

text \<open>A loop over the slots of an array that stops at the first one with a property.\<close>

fun find_index :: "('a \<Rightarrow> bool) \<Rightarrow> 'a list \<Rightarrow> nat option" where
  "find_index P [] = None"
| "find_index P (x # xs) = (if P x then Some 0 else map_option Suc (find_index P xs))"

lemma find_index_Some:
  "find_index P xs = Some i \<Longrightarrow> i < length xs \<and> P (xs ! i) \<and> (\<forall>j<i. \<not> P (xs ! j))"
proof (induction xs arbitrary: i)
  case Nil
  then show ?case by simp
next
  case (Cons x xs)
  then show ?case by (auto split: if_splits simp: less_Suc_eq_0_disj)
qed

lemma find_index_None: "find_index P xs = None \<longleftrightarrow> (\<forall>x\<in>set xs. \<not> P x)"
  by (induction xs) auto

end
