(* ===== verification/LinkListM.thy ===== *)
theory LinkListM
  imports SGB_Prelude "HOL-Library.Monad_Syntax"
begin

text \<open>
  \<^verbatim>\<open>src/backend/executor/linkListM.c\<close>: tuples in linked lists, candidate groups (\<open>tmpGroup\<close>)
  with their bounding pivots and their hash table of members, and the list of maximal
  cliques a new group is merged into.

  A chain of cells is the list of the cells from a pointer on, NULL is \<open>[]\<close>. The cells'
  data never change after they are filled, so a pointer to a cell that is only read or
  compared is the cell's value. \<open>None\<close> as a result is a NULL dereference.
\<close>

section \<open>Data\<close>

text \<open>The C field \<open>values\<close> is called \<open>vals\<close> (the name is a keyword here).\<close>

record tuple =
  numAttr :: nat
  vals :: "int list"

text \<open>\<open>hashtable\<close> is the array of \<open>hashvalueLenth\<close> inline cells, each the head of its chain;
  a cleared cell has \<open>numAttr = 0\<close>. It is \<open>None\<close> for a group built without one.\<close>

type_synonym tuple_hash = "int \<Rightarrow> tuple list"

record tmpGroup =
  tuples_headPtr :: "tuple list"
  endPtr :: "tuple option"
  pivot1 :: "int list"
  pivot2 :: "int list"
  member_len :: int
  gcenter :: "int \<times> int"
  isexisit :: bool
  hashtable :: "tuple_hash option"

definition hashvalueLenth :: int where "hashvalueLenth = 5000"
definition hashP :: int where "hashP = 5381"
definition hashA :: int where "hashA = 7399"
definition hashB :: int where "hashB = 19"

lemmas hash_consts = hashvalueLenth_def hashP_def hashA_def hashB_def

definition cleared_cell :: tuple where
  "cleared_cell = \<lparr>numAttr = 0, vals = [0, 0, 0, 0, 0]\<rparr>"

section \<open>Operations\<close>

text \<open>The new cell gets the first \<open>numatt\<close> values. The result is the chain from the given
  head on; the C function returns a pointer to its last cell.\<close>

definition new_tuple :: "int list \<Rightarrow> nat \<Rightarrow> tuple" where
  "new_tuple vs numatt = \<lparr>numAttr = numatt, vals = take numatt vs\<rparr>"

definition append_data_IntoTupleList :: "tuple list \<Rightarrow> int list \<Rightarrow> nat \<Rightarrow> tuple list" where
  "append_data_IntoTupleList tuplesHead vs numatt = tuplesHead @ [new_tuple vs numatt]"

fun contain_tuple :: "int list \<Rightarrow> tuple list \<Rightarrow> bool" where
  "contain_tuple vs [] = False"
| "contain_tuple vs (t # ts) =
     (if numAttr t = 0 then False
      else if list_all (\<lambda>att. vals t ! att = vs ! att) [0..<numAttr t] then True
      else contain_tuple vs ts)"

definition hashfunction :: "int list \<Rightarrow> nat \<Rightarrow> int" where
  "hashfunction vs numatt =
     (let value = foldl (\<lambda>value i. add32 value (rem32 (add32 (mul32 (vs ! i) hashA) hashB) hashP))
                    0 [0..<numatt];
          value = rem32 value hashvalueLenth
      in if value < 0 then i32 (- value) else value)"

definition contain_hash :: "tmpGroup \<Rightarrow> int list \<Rightarrow> nat \<Rightarrow> bool option" where
  "contain_hash g t numatt =
     map_option (\<lambda>h. contain_tuple t (h (hashfunction t numatt))) (hashtable g)"

text \<open>The bucket after a new member: an empty inline cell is filled, otherwise a cell is
  appended to the chain.\<close>

definition put_chain :: "tuple list \<Rightarrow> int list \<Rightarrow> nat \<Rightarrow> tuple list" where
  "put_chain chain t numatt =
     (if numAttr (hd chain) = 0 then new_tuple t numatt # tl chain
      else append_data_IntoTupleList chain t numatt)"

definition put_hash :: "tmpGroup \<Rightarrow> int list \<Rightarrow> nat \<Rightarrow> (bool \<times> tmpGroup) option" where
  "put_hash g t numatt =
     do {
       found \<leftarrow> contain_hash g t numatt;
       if found then Some (False, g)
       else do {
         h \<leftarrow> hashtable g;
         let i = hashfunction t numatt;
         Some (True, g\<lparr>hashtable := Some (h(i := put_chain (h i) t numatt))\<rparr>)
       }
     }"

definition constructGroup_nohash :: "nat \<Rightarrow> int \<Rightarrow> int \<Rightarrow> bool \<Rightarrow> tmpGroup" where
  "constructGroup_nohash numAtrr centerX centerY isexst =
     \<lparr>tuples_headPtr = [], endPtr = None, pivot1 = replicate numAtrr 0,
      pivot2 = replicate numAtrr 0, member_len = 0, gcenter = (centerX, centerY),
      isexisit = isexst, hashtable = None\<rparr>"

text \<open>\<open>constructGroup\<close> leaves \<open>endPtr\<close> unset; no code reads it before it is assigned, so it
  is \<open>None\<close> here.\<close>

definition constructGroup :: "nat \<Rightarrow> int \<Rightarrow> int \<Rightarrow> bool \<Rightarrow> tmpGroup" where
  "constructGroup numAtrr centerX centerY isexst =
     \<lparr>tuples_headPtr = [], endPtr = None, pivot1 = replicate numAtrr 0,
      pivot2 = replicate numAtrr 0, member_len = 0, gcenter = (centerX, centerY),
      isexisit = isexst, hashtable = Some (\<lambda>_. [cleared_cell])\<rparr>"

definition append_Group_End :: "tmpGroup list \<Rightarrow> nat \<Rightarrow> int \<Rightarrow> int \<Rightarrow> bool \<Rightarrow> tmpGroup list option" where
  "append_Group_End groups numAtrr x y isexst =
     (if groups = [] then None else Some (groups @ [constructGroup numAtrr x y isexst]))"

text \<open>One turn of the loop of \<open>updatePivotByTuple_tmpGroup\<close>: the bounds of attribute \<open>i\<close>
  after the value \<open>x\<close>.\<close>

definition update_pivot_attr :: "int \<Rightarrow> int \<Rightarrow> int \<Rightarrow> int \<Rightarrow> int \<times> int" where
  "update_pivot_attr EPS p1 p2 x =
     (if abs32 (sub32 p1 p2) \<le> EPS \<and> p1 \<noteq> 0 \<and> p2 \<noteq> 0 then (p1, p2)
      else if p1 = 0 \<and> p2 = 0 then (sub32 x EPS, add32 x EPS)
      else (if sub32 x EPS > p1 then sub32 x EPS else p1,
            if add32 x EPS < p2 then add32 x EPS else p2))"

definition updatePivotByTuple_tmpGroup :: "tmpGroup \<Rightarrow> int list \<Rightarrow> nat \<Rightarrow> int \<Rightarrow> tmpGroup" where
  "updatePivotByTuple_tmpGroup entry inputslotdata numAtt EPS =
     foldl (\<lambda>g i. let (q1, q2) = update_pivot_attr EPS (pivot1 g ! i) (pivot2 g ! i) (inputslotdata ! i)
                  in g\<lparr>pivot1 := (pivot1 g)[i := q1], pivot2 := (pivot2 g)[i := q2]\<rparr>)
       entry [0..<numAtt]"

text \<open>
  \<open>GroupBound_Checking\<close>: 0 for equal bounds, -1 when \<open>g1\<close>'s box lies in \<open>g2\<close>'s, 1 when it
  encloses it, 2 otherwise (and for any number of attributes but 1 and 2).
\<close>

definition GroupBound_Checking :: "tmpGroup \<Rightarrow> tmpGroup \<Rightarrow> int option" where
  "GroupBound_Checking g1 g2 =
     (if member_len g1 = 0 \<and> member_len g2 \<noteq> 0 then Some (-1)
      else if member_len g2 = 0 \<and> member_len g1 \<noteq> 0 then Some 1
      else if member_len g2 = 0 \<and> member_len g1 = 0 then Some 1
      else case tuples_headPtr g1 of
        [] \<Rightarrow> None
      | t # _ \<Rightarrow> Some
         (if numAttr t = 1 then
            (if pivot1 g2 ! 0 = pivot1 g1 ! 0 \<and> pivot2 g1 ! 0 = pivot2 g2 ! 0 then 0
             else if pivot1 g2 ! 0 \<le> pivot1 g1 ! 0 \<and> pivot2 g1 ! 0 \<le> pivot2 g2 ! 0 then -1
             else if pivot1 g2 ! 0 \<ge> pivot1 g1 ! 0 \<and> pivot2 g1 ! 0 \<ge> pivot2 g2 ! 0 then 1
             else 2)
          else if numAttr t = 2 then
            (if pivot1 g2 ! 0 = pivot1 g1 ! 0 \<and> pivot2 g1 ! 0 = pivot2 g2 ! 0
                \<and> pivot1 g2 ! 1 = pivot1 g1 ! 1 \<and> pivot2 g1 ! 1 = pivot2 g2 ! 1 then 0
             else if pivot1 g2 ! 0 \<le> pivot1 g1 ! 0 \<and> pivot2 g1 ! 0 \<le> pivot2 g2 ! 0
                \<and> pivot1 g2 ! 1 \<le> pivot1 g1 ! 1 \<and> pivot2 g1 ! 1 \<le> pivot2 g2 ! 1 then -1
             else if pivot1 g2 ! 0 \<ge> pivot1 g1 ! 0 \<and> pivot2 g1 ! 0 \<ge> pivot2 g2 ! 0
                \<and> pivot1 g2 ! 1 \<ge> pivot1 g1 ! 1 \<and> pivot2 g1 ! 1 \<ge> pivot2 g2 ! 1 then 1
             else 2)
          else 2))"

text \<open>
  \<open>putNewGroupsIntoMaxclique\<close>: into an empty group the new group is copied whole; into a
  group with members its tuples go one by one, those the hash table already holds skipped.
\<close>

fun copy_tuples :: "nat \<Rightarrow> tmpGroup \<Rightarrow> tuple list \<Rightarrow> tmpGroup option" where
  "copy_tuples n mc [] = Some mc"
| "copy_tuples n mc (t # ts) =
     do {
       let mc = mc\<lparr>tuples_headPtr := append_data_IntoTupleList (tuples_headPtr mc) (vals t) n\<rparr>;
       (_, mc) \<leftarrow> put_hash mc (vals t) n;
       copy_tuples n mc ts
     }"

fun merge_tuples :: "nat \<Rightarrow> int \<Rightarrow> bool \<Rightarrow> tmpGroup \<Rightarrow> tuple list \<Rightarrow> tmpGroup option" where
  "merge_tuples n eps newflag mc [] = Some mc"
| "merge_tuples n eps newflag mc (t # ts) =
     do {
       eq \<leftarrow> contain_hash mc (vals t) (numAttr t);
       if eq then merge_tuples n eps newflag mc ts
       else do {
         let mc = mc\<lparr>tuples_headPtr := append_data_IntoTupleList (tuples_headPtr mc) (vals t) n\<rparr>;
         let mc = updatePivotByTuple_tmpGroup mc (vals t) n eps;
         (_, mc) \<leftarrow> put_hash mc (vals t) n;
         let mc = mc\<lparr>member_len := add32 (member_len mc) 1, isexisit := newflag\<rparr>;
         merge_tuples n eps newflag mc ts
       }
     }"

definition putNewGroupsIntoMaxclique :: "tmpGroup \<Rightarrow> tmpGroup \<Rightarrow> int \<Rightarrow> tmpGroup option" where
  "putNewGroupsIntoMaxclique newgroup mc eps =
     (case tuples_headPtr newgroup of
        [] \<Rightarrow> None
      | t # ts \<Rightarrow>
        let n = numAttr t in
        if member_len mc \<noteq> 0
        then merge_tuples n eps (isexisit newgroup) mc (t # ts)
        else do {
          let mc = mc\<lparr>tuples_headPtr := [new_tuple (vals t) n]\<rparr>;
          (_, mc) \<leftarrow> put_hash mc (vals t) n;
          mc \<leftarrow> copy_tuples n mc ts;
          Some (mc\<lparr>pivot1 := take n (pivot1 newgroup) @ drop n (pivot1 mc),
                   pivot2 := take n (pivot2 newgroup) @ drop n (pivot2 mc),
                   member_len := member_len newgroup,
                   isexisit := isexisit newgroup\<rparr>)
        })"

text \<open>
  The loop of \<open>Judge_and_Join_GLIST\<close> over the clique list: the flag says that no clique
  enclosed the new group or was enclosed by it.
\<close>

fun judge_loop :: "tmpGroup \<Rightarrow> int \<Rightarrow> tmpGroup list \<Rightarrow> (bool \<times> tmpGroup list) option" where
  "judge_loop newgroup eps [] = Some (True, [])"
| "judge_loop newgroup eps (mc # mcs) =
     do {
       checkresult \<leftarrow> GroupBound_Checking newgroup mc;
       if checkresult = -1 then do {
         mc' \<leftarrow> putNewGroupsIntoMaxclique newgroup mc eps;
         (_, mcs') \<leftarrow> judge_loop newgroup eps mcs;
         Some (False, mc' # mcs')
       }
       else if checkresult = 0 then Some (False, mc # mcs)
       else if checkresult = 1 then do {
         mc' \<leftarrow> putNewGroupsIntoMaxclique newgroup mc eps;
         Some (False, mc' # mcs)
       }
       else do {
         (isnew, mcs') \<leftarrow> judge_loop newgroup eps mcs;
         Some (isnew, mc # mcs')
       }
     }"

definition Judge_and_Join_GLIST :: "tmpGroup \<Rightarrow> tmpGroup list \<Rightarrow> int \<Rightarrow> (bool \<times> tmpGroup list) option" where
  "Judge_and_Join_GLIST newgroup mcs eps =
     do {
       (isnew, mcs') \<leftarrow> judge_loop newgroup eps mcs;
       if isnew then (if mcs = [] then None else Some (True, mcs' @ [newgroup]))
       else Some (False, mcs')
     }"

section \<open>The hash table of a group\<close>

lemma hashfunction_bounds: "0 \<le> hashfunction vs n \<and> hashfunction vs n < 5000"
proof -
  define v where "v = foldl (\<lambda>value i. add32 value (rem32 (add32 (mul32 (vs ! i) hashA) hashB) hashP))
                    0 [0..<n]"
  have b: "- 5000 < rem32 v 5000" "rem32 v 5000 < 5000"
    using rem32_bounds [of 5000 v] by simp_all
  have "hashfunction vs n = (if rem32 v 5000 < 0 then i32 (- rem32 v 5000) else rem32 v 5000)"
    by (simp add: hashfunction_def v_def hashvalueLenth_def Let_def)
  moreover have "i32 (- rem32 v 5000) = - rem32 v 5000"
    by (rule i32_id) (use b in \<open>simp add: int32_def\<close>)
  ultimately show ?thesis using b by (cases "rem32 v 5000 < 0") simp_all
qed

text \<open>
  The table's invariant for \<open>n\<close> attributes, and the set of vectors it holds: every bucket is
  a chain of tuples of \<open>n\<close> attributes that hash to it, or a single cleared cell.
\<close>

definition bucket_wf :: "nat \<Rightarrow> int \<Rightarrow> tuple list \<Rightarrow> bool" where
  "bucket_wf n i ch \<longleftrightarrow>
     ch = [cleared_cell] \<or>
     (ch \<noteq> [] \<and> (\<forall>t\<in>set ch. numAttr t = n \<and> length (vals t) = n \<and> hashfunction (vals t) n = i))"

definition hash_wf :: "nat \<Rightarrow> tuple_hash \<Rightarrow> bool" where
  "hash_wf n h \<longleftrightarrow> (\<forall>i. bucket_wf n i (h i))"

definition hash_set :: "nat \<Rightarrow> tuple_hash \<Rightarrow> int list set" where
  "hash_set n h = {v. \<exists>i. \<exists>t\<in>set (h i). numAttr t = n \<and> vals t = v}"

lemma contain_tuple_iff:
  assumes "0 < n" "\<forall>t\<in>set ch. numAttr t = n \<and> length (vals t) = n" "length v = n"
  shows "contain_tuple v ch \<longleftrightarrow> (\<exists>t\<in>set ch. vals t = v)"
  using assms(2)
proof (induction ch)
  case Nil
  then show ?case by simp
next
  case (Cons t ts)
  have "list_all (\<lambda>att. vals t ! att = v ! att) [0..<n] \<longleftrightarrow> (\<forall>i<n. vals t ! i = v ! i)"
    by (auto simp: list_all_iff)
  also have "\<dots> \<longleftrightarrow> vals t = v"
    using Cons.prems assms(3) by (auto intro: nth_equalityI)
  finally have eq: "list_all (\<lambda>att. vals t ! att = v ! att) [0..<n] \<longleftrightarrow> vals t = v" .
  have "numAttr t = n" "contain_tuple v ts \<longleftrightarrow> (\<exists>t\<in>set ts. vals t = v)"
    using Cons by simp_all
  then have "contain_tuple v (t # ts) \<longleftrightarrow> vals t = v \<or> (\<exists>t\<in>set ts. vals t = v)"
    using assms(1) unfolding contain_tuple.simps by (simp only: eq) simp
  then show ?case by simp
qed

lemma hash_set_split:
  "hash_set n h = {u. \<exists>t\<in>set (h j). numAttr t = n \<and> vals t = u} \<union>
     {u. \<exists>i. i \<noteq> j \<and> (\<exists>t\<in>set (h i). numAttr t = n \<and> vals t = u)}"
  unfolding hash_set_def by (rule set_eqI) (simp, metis)

lemma hash_set_bucket:
  assumes "hash_wf n h" "0 < n"
  shows "v \<in> hash_set n h \<longleftrightarrow> (\<exists>t\<in>set (h (hashfunction v n)). numAttr t = n \<and> vals t = v)"
proof
  assume "v \<in> hash_set n h"
  then obtain i t where t: "t \<in> set (h i)" "numAttr t = n" "vals t = v"
    by (auto simp: hash_set_def)
  with assms have "bucket_wf n i (h i)" and "t \<noteq> cleared_cell"
    by (auto simp: hash_wf_def cleared_cell_def)
  with t have "hashfunction v n = i"
    by (auto simp: bucket_wf_def)
  with t show "\<exists>t\<in>set (h (hashfunction v n)). numAttr t = n \<and> vals t = v" by auto
qed (auto simp: hash_set_def)

lemma contain_hash_iff:
  assumes "hashtable g = Some h" "hash_wf n h" "0 < n" "length v = n"
  shows "contain_hash g v n = Some (v \<in> hash_set n h)"
proof -
  let ?ch = "h (hashfunction v n)"
  have wf: "bucket_wf n (hashfunction v n) ?ch"
    using assms(2) by (simp add: hash_wf_def)
  have "contain_tuple v ?ch \<longleftrightarrow> (\<exists>t\<in>set ?ch. numAttr t = n \<and> vals t = v)"
  proof (cases "?ch = [cleared_cell]")
    case True
    then show ?thesis using assms(3) by (simp add: cleared_cell_def)
  next
    case False
    with wf have "\<forall>t\<in>set ?ch. numAttr t = n \<and> length (vals t) = n"
      by (auto simp: bucket_wf_def)
    then show ?thesis using contain_tuple_iff [OF assms(3) _ assms(4)] by blast
  qed
  then show ?thesis
    using assms(1) by (simp add: contain_hash_def hash_set_bucket [OF assms(2,3)])
qed

lemma bucket_put:
  assumes "bucket_wf n i ch" "0 < n"
  shows "set (put_chain ch v n) = insert (new_tuple v n) {t \<in> set ch. numAttr t = n}"
    and "put_chain ch v n \<noteq> []"
proof -
  show "set (put_chain ch v n) = insert (new_tuple v n) {t \<in> set ch. numAttr t = n}"
  proof (cases "ch = [cleared_cell]")
    case True
    then show ?thesis using assms(2) by (auto simp: put_chain_def cleared_cell_def)
  next
    case False
    with assms(1) have ne: "ch \<noteq> []" and all: "\<And>t. t \<in> set ch \<Longrightarrow> numAttr t = n"
      by (auto simp: bucket_wf_def)
    then have "numAttr (hd ch) \<noteq> 0" using assms(2) by (metis hd_in_set less_numeral_extra(3))
    then show ?thesis using all by (auto simp: put_chain_def append_data_IntoTupleList_def)
  qed
  show "put_chain ch v n \<noteq> []" by (simp add: put_chain_def append_data_IntoTupleList_def)
qed

text \<open>\<open>put_hash\<close> is set insertion that reports whether the element was new.\<close>

lemma put_hash_spec:
  assumes g: "hashtable g = Some h" and wf: "hash_wf n h" and n: "0 < n" and v: "length v = n"
  shows "\<exists>h'. put_hash g v n = Some (v \<notin> hash_set n h, g\<lparr>hashtable := Some h'\<rparr>)
            \<and> hash_wf n h' \<and> hash_set n h' = insert v (hash_set n h)"
proof (cases "v \<in> hash_set n h")
  case True
  then have "put_hash g v n = Some (False, g)"
    by (simp add: put_hash_def contain_hash_iff [OF assms])
  moreover have "g = g\<lparr>hashtable := Some h\<rparr>"
    using g by simp
  ultimately show ?thesis using True wf by (metis insert_absorb)
next
  case False
  let ?i = "hashfunction v n"
  define ch' where "ch' = put_chain (h ?i) v n"
  have wfi: "bucket_wf n ?i (h ?i)" using wf by (simp add: hash_wf_def)
  have ch': "set ch' = insert (new_tuple v n) {t \<in> set (h ?i). numAttr t = n}" "ch' \<noteq> []"
    using bucket_put [OF wfi n] by (simp_all add: ch'_def)
  have new: "numAttr (new_tuple v n) = n" "vals (new_tuple v n) = v"
    using v by (simp_all add: new_tuple_def)
  have bwf: "bucket_wf n ?i ch'"
    using ch' wfi new v n by (auto simp: bucket_wf_def cleared_cell_def)
  have eq: "put_hash g v n = Some (True, g\<lparr>hashtable := Some (h(?i := ch'))\<rparr>)"
    using False g by (simp add: put_hash_def contain_hash_iff [OF assms] ch'_def Let_def)
  have "hash_wf n (h(?i := ch'))"
    using wf bwf by (simp add: hash_wf_def)
  moreover have "hash_set n (h(?i := ch')) = insert v (hash_set n h)"
  proof -
    have "hash_set n (h(?i := ch')) =
        {u. \<exists>t\<in>set ch'. numAttr t = n \<and> vals t = u} \<union>
        {u. \<exists>i. i \<noteq> ?i \<and> (\<exists>t\<in>set (h i). numAttr t = n \<and> vals t = u)}"
      by (simp add: hash_set_split [of n _ ?i] cong: conj_cong)
    also have "\<dots> = insert v (hash_set n h)"
    proof -
      have "{u. \<exists>t\<in>set ch'. numAttr t = n \<and> vals t = u}
          = insert v {u. \<exists>t\<in>set (h ?i). numAttr t = n \<and> vals t = u}"
        using new by (auto simp: ch')
      then show ?thesis by (simp add: hash_set_split [of n h ?i])
    qed
    finally show ?thesis .
  qed
  ultimately show ?thesis using False eq by auto
qed

lemma hash_wf_empty [simp]: "hash_wf n (\<lambda>_. [cleared_cell])"
  by (simp add: hash_wf_def bucket_wf_def)

lemma hash_set_empty [simp]: "0 < n \<Longrightarrow> hash_set n (\<lambda>_. [cleared_cell]) = {}"
  by (auto simp: hash_set_def cleared_cell_def)

section \<open>The invariant of a clique group and the merge\<close>

definition members :: "tmpGroup \<Rightarrow> int list set" where
  "members g = vals ` set (tuples_headPtr g)"

text \<open>The table holds exactly the vectors of the chain, each once, and the counter counts
  them.\<close>

definition clique_inv :: "nat \<Rightarrow> tmpGroup \<Rightarrow> bool" where
  "clique_inv n g \<longleftrightarrow>
     (\<exists>h. hashtable g = Some h \<and> hash_wf n h \<and> hash_set n h = members g)
     \<and> distinct (map vals (tuples_headPtr g))
     \<and> (\<forall>t\<in>set (tuples_headPtr g). numAttr t = n \<and> length (vals t) = n)
     \<and> member_len g = int (length (tuples_headPtr g))
     \<and> length (pivot1 g) = n \<and> length (pivot2 g) = n"

lemma updatePivot_frame [simp]:
  "tuples_headPtr (updatePivotByTuple_tmpGroup g v n e) = tuples_headPtr g"
  "hashtable (updatePivotByTuple_tmpGroup g v n e) = hashtable g"
  "member_len (updatePivotByTuple_tmpGroup g v n e) = member_len g"
  "isexisit (updatePivotByTuple_tmpGroup g v n e) = isexisit g"
  "endPtr (updatePivotByTuple_tmpGroup g v n e) = endPtr g"
  "length (pivot1 (updatePivotByTuple_tmpGroup g v n e)) = length (pivot1 g)"
  "length (pivot2 (updatePivotByTuple_tmpGroup g v n e)) = length (pivot2 g)"
proof -
  have "tuples_headPtr (foldl f g is) = tuples_headPtr g \<and> hashtable (foldl f g is) = hashtable g
      \<and> member_len (foldl f g is) = member_len g \<and> isexisit (foldl f g is) = isexisit g
      \<and> endPtr (foldl f g is) = endPtr g
      \<and> length (pivot1 (foldl f g is)) = length (pivot1 g)
      \<and> length (pivot2 (foldl f g is)) = length (pivot2 g)"
    if "f = (\<lambda>g i. let (q1, q2) = update_pivot_attr e (pivot1 g ! i) (pivot2 g ! i) (v ! i)
              in g\<lparr>pivot1 := (pivot1 g)[i := q1], pivot2 := (pivot2 g)[i := q2]\<rparr>)"
    for f "is"
    by (induction "is" arbitrary: g) (auto simp: that Let_def split: prod.splits)
  then show
    "tuples_headPtr (updatePivotByTuple_tmpGroup g v n e) = tuples_headPtr g"
    "hashtable (updatePivotByTuple_tmpGroup g v n e) = hashtable g"
    "member_len (updatePivotByTuple_tmpGroup g v n e) = member_len g"
    "isexisit (updatePivotByTuple_tmpGroup g v n e) = isexisit g"
    "endPtr (updatePivotByTuple_tmpGroup g v n e) = endPtr g"
    "length (pivot1 (updatePivotByTuple_tmpGroup g v n e)) = length (pivot1 g)"
    "length (pivot2 (updatePivotByTuple_tmpGroup g v n e)) = length (pivot2 g)"
    unfolding updatePivotByTuple_tmpGroup_def by blast+
qed

lemma clique_inv_empty: "0 < n \<Longrightarrow> clique_inv n (constructGroup n x y b)"
  by (auto simp: clique_inv_def constructGroup_def members_def)

lemma merge_tuples_spec:
  assumes "clique_inv n mc" "0 < n"
    and "\<forall>t\<in>set ts. numAttr t = n \<and> length (vals t) = n"
    and "length (tuples_headPtr mc) + length ts \<le> 2147483647"
  shows "\<exists>mc'. merge_tuples n eps b mc ts = Some mc' \<and> clique_inv n mc'
           \<and> members mc' = members mc \<union> vals ` set ts
           \<and> length (tuples_headPtr mc') \<le> length (tuples_headPtr mc) + length ts"
  using assms
proof (induction ts arbitrary: mc)
  case Nil
  then show ?case by simp
next
  case (Cons t ts)
  obtain h where h: "hashtable mc = Some h" "hash_wf n h" "hash_set n h = members mc"
    using Cons.prems(1) by (auto simp: clique_inv_def)
  have t: "numAttr t = n" "length (vals t) = n" using Cons.prems(3) by simp_all
  have ch: "contain_hash mc (vals t) n = Some (vals t \<in> members mc)"
    using contain_hash_iff [OF h(1,2) Cons.prems(2) t(2)] h(3) by simp
  show ?case
  proof (cases "vals t \<in> members mc")
    case True
    with ch t have "merge_tuples n eps b mc (t # ts) = merge_tuples n eps b mc ts" by simp
    moreover have "\<exists>mc'. merge_tuples n eps b mc ts = Some mc' \<and> clique_inv n mc'
        \<and> members mc' = members mc \<union> vals ` set ts
        \<and> length (tuples_headPtr mc') \<le> length (tuples_headPtr mc) + length ts"
      using Cons.prems by (intro Cons.IH) simp_all
    ultimately show ?thesis using True by auto
  next
    case False
    define m1 where "m1 = updatePivotByTuple_tmpGroup
      (mc\<lparr>tuples_headPtr := append_data_IntoTupleList (tuples_headPtr mc) (vals t) n\<rparr>) (vals t) n eps"
    have "hashtable m1 = Some h" by (simp add: m1_def h)
    from put_hash_spec [OF this h(2) Cons.prems(2) t(2)] obtain h' where
      p: "put_hash m1 (vals t) n = Some (True, m1\<lparr>hashtable := Some h'\<rparr>)"
         "hash_wf n h'" "hash_set n h' = insert (vals t) (members mc)"
      using h(3) False by auto
    define m2 where "m2 = m1\<lparr>hashtable := Some h', member_len := add32 (member_len m1) 1, isexisit := b\<rparr>"
    have step: "merge_tuples n eps b mc (t # ts) = merge_tuples n eps b m2 ts"
      using ch t False p by (simp add: m1_def m2_def)
    have tl: "tuples_headPtr m2 = tuples_headPtr mc @ [new_tuple (vals t) n]"
      by (simp add: m2_def m1_def append_data_IntoTupleList_def)
    have nt: "vals (new_tuple (vals t) n) = vals t" "numAttr (new_tuple (vals t) n) = n"
      using t by (simp_all add: new_tuple_def)
    have "member_len m1 = int (length (tuples_headPtr mc))"
      using Cons.prems(1) by (simp add: m1_def clique_inv_def)
    then have "member_len m2 = int (length (tuples_headPtr m2))"
      using Cons.prems(4) by (simp add: m2_def m1_def tl add32_eq int32_def
          append_data_IntoTupleList_def)
    moreover have "members m2 = insert (vals t) (members mc)"
      by (simp add: members_def tl nt)
    moreover have "distinct (map vals (tuples_headPtr m2))"
      using Cons.prems(1) False by (simp add: tl nt clique_inv_def members_def)
    moreover have "hashtable m2 = Some h'" "length (pivot1 m2) = n" "length (pivot2 m2) = n"
      using Cons.prems(1) by (simp_all add: m2_def m1_def clique_inv_def)
    moreover have "\<forall>t\<in>set (tuples_headPtr m2). numAttr t = n \<and> length (vals t) = n"
      using Cons.prems(1) nt t by (simp add: tl clique_inv_def)
    ultimately have "clique_inv n m2"
      using p(2,3) by (simp add: clique_inv_def)
    moreover have "length (tuples_headPtr m2) + length ts \<le> 2147483647"
      using Cons.prems(4) by (simp add: tl)
    ultimately obtain mc' where mc': "merge_tuples n eps b m2 ts = Some mc'" "clique_inv n mc'"
        "members mc' = members m2 \<union> vals ` set ts"
        "length (tuples_headPtr mc') \<le> length (tuples_headPtr m2) + length ts"
      using Cons.IH [of m2] Cons.prems(2,3) by auto
    with step tl show ?thesis by (auto simp: members_def nt)
  qed
qed

lemma copy_tuples_spec:
  assumes "hashtable mc = Some h" "hash_wf n h" "0 < n"
    and "\<forall>t\<in>set ts. numAttr t = n \<and> length (vals t) = n"
  shows "\<exists>h'. copy_tuples n mc ts =
            Some (mc\<lparr>tuples_headPtr := tuples_headPtr mc @ ts, hashtable := Some h'\<rparr>)
          \<and> hash_wf n h' \<and> hash_set n h' = hash_set n h \<union> vals ` set ts"
  using assms
proof (induction ts arbitrary: mc h)
  case Nil
  then show ?case by (intro exI [of _ h]) simp
next
  case (Cons t ts)
  have t: "numAttr t = n" "length (vals t) = n" using Cons.prems(4) by simp_all
  have nt: "new_tuple (vals t) n = t" using t by (simp add: new_tuple_def)
  define m1 where "m1 = mc\<lparr>tuples_headPtr := tuples_headPtr mc @ [t]\<rparr>"
  have "hashtable m1 = Some h" using Cons.prems(1) by (simp add: m1_def)
  from put_hash_spec [OF this Cons.prems(2,3) t(2)] obtain h1 where
    p: "put_hash m1 (vals t) n = Some (vals t \<notin> hash_set n h, m1\<lparr>hashtable := Some h1\<rparr>)"
       "hash_wf n h1" "hash_set n h1 = insert (vals t) (hash_set n h)"
    by blast
  have "\<exists>h'. copy_tuples n (m1\<lparr>hashtable := Some h1\<rparr>) ts =
      Some (m1\<lparr>hashtable := Some h1,
               tuples_headPtr := tuples_headPtr (m1\<lparr>hashtable := Some h1\<rparr>) @ ts,
               hashtable := Some h'\<rparr>)
      \<and> hash_wf n h' \<and> hash_set n h' = hash_set n h1 \<union> vals ` set ts"
    using Cons.IH [of "m1\<lparr>hashtable := Some h1\<rparr>" h1] p Cons.prems by simp
  then show ?case using p by (simp add: m1_def nt append_data_IntoTupleList_def)
qed

lemma putNewGroups_spec:
  assumes mc: "clique_inv n mc" and ng: "clique_inv n ng" and n: "0 < n"
    and ne: "tuples_headPtr ng \<noteq> []"
    and len: "length (tuples_headPtr mc) + length (tuples_headPtr ng) \<le> 2147483647"
  shows "\<exists>mc'. putNewGroupsIntoMaxclique ng mc eps = Some mc' \<and> clique_inv n mc'
           \<and> members mc' = members mc \<union> members ng"
proof -
  obtain t ts where tts: "tuples_headPtr ng = t # ts" using ne by (cases "tuples_headPtr ng") auto
  have ok: "\<forall>t\<in>set (t # ts). numAttr t = n \<and> length (vals t) = n"
    using ng tts by (simp add: clique_inv_def)
  show ?thesis
  proof (cases "member_len mc = 0")
    case False
    have "\<exists>mc'. merge_tuples n eps (isexisit ng) mc (t # ts) = Some mc' \<and> clique_inv n mc'
           \<and> members mc' = members mc \<union> vals ` set (t # ts)"
      using merge_tuples_spec [OF mc n ok] len tts by fastforce
    then show ?thesis using False ok tts
      by (auto simp: putNewGroupsIntoMaxclique_def Let_def members_def)
  next
    case True
    then have mt: "tuples_headPtr mc = []" using mc by (simp add: clique_inv_def)
    obtain h where h: "hashtable mc = Some h" "hash_wf n h" "hash_set n h = {}"
      using mc mt by (auto simp: clique_inv_def members_def)
    have nt: "new_tuple (vals t) n = t" using ok by (simp add: new_tuple_def)
    define m0 where "m0 = mc\<lparr>tuples_headPtr := [t]\<rparr>"
    have "hashtable m0 = Some h" using h by (simp add: m0_def)
    from put_hash_spec [OF this h(2) n, of "vals t"] obtain h1 where
      p: "put_hash m0 (vals t) n = Some (True, m0\<lparr>hashtable := Some h1\<rparr>)"
         "hash_wf n h1" "hash_set n h1 = {vals t}"
      using ok h(3) by auto
    from copy_tuples_spec [of "m0\<lparr>hashtable := Some h1\<rparr>" h1 n ts] obtain h2 where
      c: "copy_tuples n (m0\<lparr>hashtable := Some h1\<rparr>) ts =
           Some (m0\<lparr>tuples_headPtr := t # ts, hashtable := Some h2\<rparr>)"
         "hash_wf n h2" "hash_set n h2 = vals ` set (t # ts)"
      using p n ok by (auto simp: m0_def)
    define mc' where "mc' = m0\<lparr>tuples_headPtr := t # ts, hashtable := Some h2,
        pivot1 := pivot1 ng, pivot2 := pivot2 ng, member_len := member_len ng,
        isexisit := isexisit ng\<rparr>"
    have lens: "length (pivot1 ng) = n" "length (pivot2 ng) = n" "length (pivot1 mc) = n"
      "length (pivot2 mc) = n"
      using ng mc by (simp_all add: clique_inv_def)
    have "putNewGroupsIntoMaxclique ng mc eps = Some mc'"
      using True tts ok p c nt lens
      by (simp add: putNewGroupsIntoMaxclique_def Let_def m0_def mc'_def)
    moreover have "clique_inv n mc'"
      using ng tts c by (simp add: clique_inv_def mc'_def members_def)
    moreover have "members mc' = members mc \<union> members ng"
      by (simp add: members_def mc'_def tts mt)
    ultimately show ?thesis by blast
  qed
qed

section \<open>Joining the list of maximal cliques\<close>

definition same_bounds :: "tmpGroup \<Rightarrow> tmpGroup \<Rightarrow> bool" where
  "same_bounds g1 g2 \<longleftrightarrow> pivot1 g1 = pivot1 g2 \<and> pivot2 g1 = pivot2 g2"

definition box_within :: "tmpGroup \<Rightarrow> tmpGroup \<Rightarrow> bool" where
  "box_within g1 g2 \<longleftrightarrow>
     list_all2 (\<le>) (pivot1 g2) (pivot1 g1) \<and> list_all2 (\<le>) (pivot2 g1) (pivot2 g2)"

lemma length12:
  assumes "length xs = n" "n = 1 \<or> n = 2"
  shows "(n = 1 \<longrightarrow> xs = [xs ! 0]) \<and> (n = 2 \<longrightarrow> xs = [xs ! 0, xs ! 1])"
  using assms
  by (auto simp: length_Suc_conv numeral_2_eq_2)

lemma GroupBound_nonempty:
  assumes "clique_inv n g1" "clique_inv n g2" "members g1 \<noteq> {}" "members g2 \<noteq> {}" "n = 1 \<or> n = 2"
  shows "GroupBound_Checking g1 g2 = Some
     (if same_bounds g1 g2 then 0 else if box_within g1 g2 then -1
      else if box_within g2 g1 then 1 else 2)"
proof -
  have ml: "member_len g1 \<noteq> 0" "member_len g2 \<noteq> 0"
    using assms(1-4) by (auto simp: clique_inv_def members_def)
  obtain t ts where t: "tuples_headPtr g1 = t # ts" "numAttr t = n"
    using assms(1,3) by (cases "tuples_headPtr g1") (auto simp: clique_inv_def members_def)
  have len: "length (pivot1 g1) = n" "length (pivot2 g1) = n" "length (pivot1 g2) = n"
    "length (pivot2 g2) = n"
    using assms(1,2) by (auto simp: clique_inv_def)
  show ?thesis
  proof (cases "n = 1")
    case True
    with len obtain a b c d where "pivot1 g1 = [a]" "pivot2 g1 = [b]" "pivot1 g2 = [c]" "pivot2 g2 = [d]"
      by (auto simp: length_Suc_conv)
    then show ?thesis using ml t True
      by (auto simp: GroupBound_Checking_def same_bounds_def box_within_def)
  next
    case False
    with assms(5) have n2: "n = 2" by simp
    with len obtain a a' b b' c c' d d' where
      "pivot1 g1 = [a, a']" "pivot2 g1 = [b, b']" "pivot1 g2 = [c, c']" "pivot2 g2 = [d, d']"
      by (auto simp: length_Suc_conv numeral_2_eq_2)
    then show ?thesis using ml t n2
      by (auto simp: GroupBound_Checking_def same_bounds_def box_within_def)
  qed
qed

lemma GroupBound_not_None:
  assumes "clique_inv n g1" "clique_inv n g2"
  shows "\<exists>r. GroupBound_Checking g1 g2 = Some r"
  using assms by (cases "tuples_headPtr g1")
    (auto simp: GroupBound_Checking_def clique_inv_def)

text \<open>What the loop does to one clique: it keeps its members and may gain the new ones.\<close>

definition grown :: "nat \<Rightarrow> tmpGroup \<Rightarrow> tmpGroup \<Rightarrow> tmpGroup \<Rightarrow> bool" where
  "grown n ng mc mc' \<longleftrightarrow>
     clique_inv n mc' \<and> (members mc' = members mc \<or> members mc' = members mc \<union> members ng)"

lemma grown_refl: "clique_inv n mc \<Longrightarrow> grown n ng mc mc"
  by (simp add: grown_def)

lemma judge_loop_spec:
  assumes "\<forall>mc\<in>set mcs. clique_inv n mc \<and>
             length (tuples_headPtr mc) + length (tuples_headPtr ng) \<le> 2147483647"
    and ng: "clique_inv n ng" "members ng \<noteq> {}" and n: "n = 1 \<or> n = 2"
  shows "\<exists>isnew mcs'. judge_loop ng eps mcs = Some (isnew, mcs')
           \<and> list_all2 (grown n ng) mcs mcs'
           \<and> (isnew \<or> (\<exists>mc'\<in>set mcs'. members ng \<subseteq> members mc') \<or> (\<exists>mc\<in>set mcs. same_bounds ng mc))"
  using assms(1)
proof (induction mcs)
  case Nil
  then show ?case by (intro exI [of _ True]) simp
next
  case (Cons mc mcs)
  have mc: "clique_inv n mc"
    "length (tuples_headPtr mc) + length (tuples_headPtr ng) \<le> 2147483647"
    using Cons.prems by simp_all
  have rest: "list_all2 (grown n ng) mcs mcs"
    using Cons.prems by (auto intro!: list.rel_refl_strong grown_refl)
  have n0: "0 < n" using n by auto
  have ne: "tuples_headPtr ng \<noteq> []" using ng(2) by (auto simp: members_def)
  obtain r where r: "GroupBound_Checking ng mc = Some r"
    using GroupBound_not_None [OF ng(1) mc(1)] by blast
  obtain mc' where mc': "putNewGroupsIntoMaxclique ng mc eps = Some mc'" "clique_inv n mc'"
      "members mc' = members mc \<union> members ng"
    using putNewGroups_spec [OF mc(1) ng(1) n0 ne mc(2)] by blast
  then have gr: "grown n ng mc mc'" by (simp add: grown_def)
  obtain isnew mcs' where IH: "judge_loop ng eps mcs = Some (isnew, mcs')"
      "list_all2 (grown n ng) mcs mcs'"
      "isnew \<or> (\<exists>mc'\<in>set mcs'. members ng \<subseteq> members mc') \<or> (\<exists>mc\<in>set mcs. same_bounds ng mc)"
    using Cons by auto
  consider "r = -1" | "r = 0" | "r = 1" | "r \<noteq> -1" "r \<noteq> 0" "r \<noteq> 1" by blast
  then show ?case
  proof cases
    case 2
    have "same_bounds ng mc"
    proof (cases "members mc = {}")
      case True
      then have "GroupBound_Checking ng mc = Some 1"
        using mc(1) ng ne by (simp add: GroupBound_Checking_def clique_inv_def members_def)
      then show ?thesis using r 2 by simp
    next
      case False
      then show ?thesis
        using GroupBound_nonempty [OF ng(1) mc(1) ng(2) False n] r 2 by (auto split: if_splits)
    qed
    then show ?thesis using r 2 rest grown_refl [OF mc(1)] by auto
  qed (use r mc' gr IH rest grown_refl [OF mc(1)] in auto)
qed

text \<open>A group of one vector, for examples.\<close>

definition group_of :: "int list list \<Rightarrow> int list \<Rightarrow> int list \<Rightarrow> tmpGroup" where
  "group_of vs p1 p2 =
     (let n = length p1 in
      \<lparr>tuples_headPtr = map (\<lambda>v. new_tuple v n) vs, endPtr = None, pivot1 = p1, pivot2 = p2,
       member_len = int (length vs), gcenter = (0, 0), isexisit = True,
       hashtable = Some (\<lambda>i. case filter (\<lambda>v. hashfunction v n = i) vs of
           [] \<Rightarrow> [cleared_cell] | us \<Rightarrow> map (\<lambda>v. new_tuple v n) us)\<rparr>)"

lemma members_group_of:
  "\<forall>v\<in>set vs. length v = length p1 \<Longrightarrow> members (group_of vs p1 p2) = set vs"
  by (auto simp: group_of_def members_def Let_def new_tuple_def image_image)

lemma clique_inv_group_of:
  assumes "distinct vs" "\<forall>v\<in>set vs. length v = length p1" "length p2 = length p1" "p1 \<noteq> []"
  shows "clique_inv (length p1) (group_of vs p1 p2)"
proof -
  let ?n = "length p1"
  let ?h = "\<lambda>i. case filter (\<lambda>v. hashfunction v ?n = i) vs of
           [] \<Rightarrow> [cleared_cell] | us \<Rightarrow> map (\<lambda>v. new_tuple v ?n) us"
  have nt: "numAttr (new_tuple v ?n) = ?n" "v \<in> set vs \<Longrightarrow> vals (new_tuple v ?n) = v" for v
    using assms(2) by (simp_all add: new_tuple_def)
  have b: "?h i = [cleared_cell] \<and> (\<forall>v\<in>set vs. hashfunction v ?n \<noteq> i) \<or>
      ?h i \<noteq> [] \<and> set (?h i) = (\<lambda>v. new_tuple v ?n) ` {v \<in> set vs. hashfunction v ?n = i}" for i
    by (cases "filter (\<lambda>v. hashfunction v ?n = i) vs")
      (auto simp: filter_empty_conv simp flip: set_filter)
  have "hash_wf ?n ?h"
    unfolding hash_wf_def
  proof
    fix i show "bucket_wf ?n i (?h i)"
      using b [of i] nt assms(2) unfolding bucket_wf_def by auto
  qed
  moreover have "hash_set ?n ?h = set vs"
  proof -
    have "(\<exists>t\<in>set (?h i). numAttr t = ?n \<and> vals t = v) \<longleftrightarrow> v \<in> set vs \<and> hashfunction v ?n = i" for i v
      using b [of i] nt assms(4) by (auto simp: cleared_cell_def)
    then show ?thesis by (auto simp: hash_set_def)
  qed
  moreover have "distinct (map vals (map (\<lambda>v. new_tuple v ?n) vs))"
    using assms(1) nt by (simp add: distinct_map inj_on_def)
  ultimately show ?thesis
    using members_group_of [OF assms(2)] nt assms(2,3)
    by (auto simp: clique_inv_def group_of_def Let_def)
qed

section \<open>Properties\<close>

text \<open>Every bucket index the hash function computes, for any values and any number of
  attributes, lies inside the table of \<open>hashvalueLenth\<close> cells, also where the sum wraps.\<close>
theorem hash_index_in_table:
  "0 \<le> hashfunction vs n \<and> hashfunction vs n < hashvalueLenth"
  using hashfunction_bounds [of vs n] by (simp add: hashvalueLenth_def)

text \<open>The group hash table refines a set of vectors: \<open>put_hash\<close> never dereferences NULL,
  reports whether the vector was absent, keeps the bucket invariant and adds exactly that
  vector, so that \<open>contain_hash\<close> afterwards answers membership in the larger set.\<close>
theorem put_hash_refines_insert:
  assumes "hashtable g = Some h" "hash_wf n h" "0 < n" "length v = n" "length u = n"
  shows "\<exists>g'. put_hash g v n = Some (contain_hash g v n = Some False, g')
           \<and> (\<exists>h'. hashtable g' = Some h' \<and> hash_wf n h')
           \<and> contain_hash g' u n = Some (u = v \<or> contain_hash g u n = Some True)"
proof -
  obtain h' where p: "put_hash g v n = Some (v \<notin> hash_set n h, g\<lparr>hashtable := Some h'\<rparr>)"
      "hash_wf n h'" "hash_set n h' = insert v (hash_set n h)"
    using put_hash_spec [OF assms(1-4)] by blast
  have c: "contain_hash (g\<lparr>hashtable := Some h'\<rparr>) u n = Some (u \<in> hash_set n h')"
    using contain_hash_iff [of "g\<lparr>hashtable := Some h'\<rparr>" h' n u] p(2) assms(3,5) by simp
  have "contain_hash g v n = Some (v \<in> hash_set n h)" "contain_hash g u n = Some (u \<in> hash_set n h)"
    using contain_hash_iff [OF assms(1-4)] contain_hash_iff [OF assms(1-3,5)] by simp_all
  then show ?thesis using p c by (intro exI [of _ "g\<lparr>hashtable := Some h'\<rparr>"]) auto
qed

theorem put_hash_refines_insert_witness:
  "\<exists>g'. put_hash (constructGroup 2 0 0 False) [3, 4] 2 = Some (True, g')
     \<and> contain_hash g' [3, 4] 2 = Some True \<and> contain_hash g' [4, 3] 2 = Some False"
proof -
  let ?g = "constructGroup 2 0 0 False"
  have h: "hashtable ?g = Some (\<lambda>_. [cleared_cell])" by (simp add: constructGroup_def)
  have c: "contain_hash ?g v 2 = Some False" if "length v = 2" for v
    using contain_hash_iff [OF h hash_wf_empty] that by simp
  obtain g1 where "put_hash ?g [3, 4] 2 = Some (True, g1)" "contain_hash g1 [3, 4] 2 = Some True"
    using put_hash_refines_insert [OF h hash_wf_empty, of 2 "[3, 4]" "[3, 4]"] c by auto
  moreover obtain g2 where "put_hash ?g [3, 4] 2 = Some (True, g2)" "contain_hash g2 [4, 3] 2 = Some False"
    using put_hash_refines_insert [OF h hash_wf_empty, of 2 "[3, 4]" "[4, 3]"] c by auto
  ultimately show ?thesis by auto
qed

text \<open>C40. Joining the clique list loses no tuple, provided that no clique of the list has exactly the
  new group's bounds (then the new group is dropped, see \<open>Judge_and_Join_equal_bounds_discards\<close>):
  \<open>Judge_and_Join_GLIST\<close> returns normally, every clique keeps its members
  and its hash-table invariant, and the cliques together hold the old members and the new
  group's, nothing else.\<close>
theorem Judge_and_Join_keeps_members:
  assumes "mcs \<noteq> []" "n = 1 \<or> n = 2" "clique_inv n ng" "members ng \<noteq> {}"
    and "\<forall>mc\<in>set mcs. clique_inv n mc \<and> \<not> same_bounds ng mc \<and>
           length (tuples_headPtr mc) + length (tuples_headPtr ng) \<le> 2147483647"
  shows "\<exists>isnew mcs'. Judge_and_Join_GLIST ng mcs eps = Some (isnew, mcs')
           \<and> (\<forall>mc'\<in>set mcs'. clique_inv n mc')
           \<and> list_all2 (\<lambda>mc mc'. members mc \<subseteq> members mc') mcs (take (length mcs) mcs')
           \<and> (\<Union>mc'\<in>set mcs'. members mc') = (\<Union>mc\<in>set mcs. members mc) \<union> members ng"
proof -
  obtain isnew mcs' where j: "judge_loop ng eps mcs = Some (isnew, mcs')"
      "list_all2 (grown n ng) mcs mcs'"
      "isnew \<or> (\<exists>mc'\<in>set mcs'. members ng \<subseteq> members mc')"
    using judge_loop_spec [of mcs n ng] assms by blast
  have len: "length mcs' = length mcs" using list_all2_lengthD [OF j(2)] by simp
  have inv: "\<forall>mc'\<in>set mcs'. clique_inv n mc'"
    using j(2) by (metis grown_def in_set_conv_nth len list_all2_nthD2)
  have sub: "list_all2 (\<lambda>mc mc'. members mc \<subseteq> members mc') mcs mcs'"
    using j(2) by (rule list_all2_mono) (auto simp: grown_def)
  have old: "(\<Union>mc\<in>set mcs. members mc) \<subseteq> (\<Union>mc'\<in>set mcs'. members mc')"
    using sub by (induction rule: list_all2_induct) auto
  have new: "(\<Union>mc'\<in>set mcs'. members mc') \<subseteq> (\<Union>mc\<in>set mcs. members mc) \<union> members ng"
    using j(2) by (induction rule: list_all2_induct) (auto simp: grown_def)
  show ?thesis
  proof (cases isnew)
    case True
    then have "Judge_and_Join_GLIST ng mcs eps = Some (True, mcs' @ [ng])"
      using j(1) assms(1) by (simp add: Judge_and_Join_GLIST_def)
    then show ?thesis using inv sub old new assms(3) len by auto
  next
    case False
    then have "Judge_and_Join_GLIST ng mcs eps = Some (False, mcs')"
      using j(1) by (simp add: Judge_and_Join_GLIST_def)
    moreover have "members ng \<subseteq> (\<Union>mc'\<in>set mcs'. members mc')"
      using j(3) False by auto
    ultimately show ?thesis using inv sub old new len by auto
  qed
qed

theorem Judge_and_Join_keeps_members_witness:
  "\<exists>isnew mcs'. Judge_and_Join_GLIST (group_of [[1, 2]] [0, 1] [2, 3]) [group_of [[5, 5]] [4, 4] [6, 6]] 1
       = Some (isnew, mcs')
     \<and> (\<Union>mc'\<in>set mcs'. members mc') = {[1, 2], [5, 5]}"
proof -
  have i: "clique_inv 2 (group_of [[1, 2]] [0, 1] [2, 3])" "clique_inv 2 (group_of [[5, 5]] [4, 4] [6, 6])"
    using clique_inv_group_of [of "[[1, 2]]" "[0, 1]" "[2, 3]"]
      clique_inv_group_of [of "[[5, 5]]" "[4, 4]" "[6, 6]"] by (simp_all add: numeral_2_eq_2)
  have m: "members (group_of [[1, 2]] [0, 1] [2, 3]) = {[1, 2]}"
    "members (group_of [[5, 5]] [4, 4] [6, 6]) = {[5, 5]}"
    by (simp_all add: members_group_of)
  have b: "\<not> same_bounds (group_of [[1, 2]] [0, 1] [2, 3]) (group_of [[5, 5]] [4, 4] [6, 6])"
    by (simp add: same_bounds_def group_of_def Let_def)
  have l: "length (tuples_headPtr (group_of [[5, 5]] [4, 4] [6, 6]))
      + length (tuples_headPtr (group_of [[1, 2]] [0, 1] [2, 3])) \<le> 2147483647"
    by (simp add: group_of_def Let_def)
  show ?thesis
    using Judge_and_Join_keeps_members [of "[group_of [[5, 5]] [4, 4] [6, 6]]" 2
        "group_of [[1, 2]] [0, 1] [2, 3]" 1] i m b l
    by (auto simp: insert_commute)
qed

text \<open>Where the first clique of the list has the new group's bounds the new group is
  discarded: the list is returned as it was, whatever members the new group holds, although
  equal bounds do not mean equal members.\<close>
theorem Judge_and_Join_equal_bounds_discards:
  assumes "n = 1 \<or> n = 2" "clique_inv n ng" "clique_inv n mc" "members ng \<noteq> {}" "members mc \<noteq> {}"
    and "same_bounds ng mc"
  shows "Judge_and_Join_GLIST ng (mc # mcs) eps = Some (False, mc # mcs)"
  using GroupBound_nonempty [OF assms(2,3,4,5,1)] assms(6)
  by (simp add: Judge_and_Join_GLIST_def)

theorem Judge_and_Join_equal_bounds_discards_witness:
  "let ng = group_of [[11, 11], [12, 12], [13, 13]] [10, 10] [14, 14];
       mc = group_of [[11, 11], [13, 13]] [10, 10] [14, 14]
   in Judge_and_Join_GLIST ng [mc] 3 = Some (False, [mc]) \<and> [12, 12] \<in> members ng
      \<and> [12, 12] \<notin> members mc"
proof -
  let ?ng = "group_of [[11, 11], [12, 12], [13, 13]] [10, 10] [14, 14]"
  let ?mc = "group_of [[11, 11], [13, 13]] [10, 10] [14, 14]"
  have i: "clique_inv 2 ?ng" "clique_inv 2 ?mc"
    using clique_inv_group_of [of "[[11, 11], [12, 12], [13, 13]]" "[10, 10]" "[14, 14]"]
      clique_inv_group_of [of "[[11, 11], [13, 13]]" "[10, 10]" "[14, 14]"]
    by (simp_all add: numeral_2_eq_2)
  have m: "members ?ng = {[11, 11], [12, 12], [13, 13]}" "members ?mc = {[11, 11], [13, 13]}"
    by (simp_all add: members_group_of)
  have b: "same_bounds ?ng ?mc" by (simp add: same_bounds_def group_of_def Let_def)
  show ?thesis
    using Judge_and_Join_equal_bounds_discards [OF _ i _ _ b, of "[]" 3] m by simp
qed

text \<open>The pair of zero pivots that marks a fresh group is also a legal box: three values
  of one attribute within distance 1 of the first two shrink the box to \<open>[0, 0]\<close>, and the
  next value, however far away, restarts the box around itself instead of leaving it.\<close>
theorem updatePivot_zero_box_restarts:
  assumes "coord_ok x" "0 \<le> x"
  shows "pivot1 (foldl (\<lambda>g v. updatePivotByTuple_tmpGroup g [v] 1 1) (constructGroup 1 cx cy b) [-1, 1, x])
           = [x - 1]
       \<and> pivot2 (foldl (\<lambda>g v. updatePivotByTuple_tmpGroup g [v] 1 1) (constructGroup 1 cx cy b) [-1, 1, x])
           = [x + 1]"
proof -
  have a: "add32 x 1 = x + 1" "sub32 x 1 = x - 1"
    using assms(1) by (simp_all add: coord_ok_def c_int_defs int32_def)
  have "update_pivot_attr 1 0 0 (-1) = (-2, 0)" "update_pivot_attr 1 (-2) 0 1 = (0, 0)"
    by (simp_all add: update_pivot_attr_def c_int_defs i32_def)
  moreover have "update_pivot_attr 1 0 0 x = (x - 1, x + 1)"
    using a by (simp add: update_pivot_attr_def)
  ultimately show ?thesis
    by (simp add: updatePivotByTuple_tmpGroup_def constructGroup_def)
qed

theorem updatePivot_zero_box_restarts_witness:
  "pivot1 (foldl (\<lambda>g v. updatePivotByTuple_tmpGroup g [v] 1 1) (constructGroup 1 0 0 True) [-1, 1, 100])
     = [99]"
  using updatePivot_zero_box_restarts [of 100] by (simp add: coord_ok_def)

end
