(* ===== verification/C_Double.thy ===== *)
theory C_Double
  imports Complex_Main SGB_Prelude "HOL-Library.Log_Nat"
begin

text \<open>
  The C \<open>double\<close> arithmetic of the R-tree and the convex hull code: IEEE binary64, rounding
  to nearest, ties to even. A finite double is the real number it denotes; the sum, product
  or quotient of two doubles is the exact result rounded by \<open>fl\<close>, and \<open>dsqrt\<close> is the
  correctly rounded square root with \<open>None\<close> for NaN. Every double of this code comes from
  32-bit integers by a few products, so overflow to infinity and subnormal numbers do not
  occur and \<open>fl\<close> does not model them. The definitions compute on rational inputs.
\<close>

section \<open>Rounding\<close>

definition ilog2 :: "real \<Rightarrow> int" where
  "ilog2 q = (if 1 \<le> q then bitlen \<lfloor>q\<rfloor> - 1 else - bitlen (\<lceil>1 / q\<rceil> - 1))"

definition rne :: "real \<Rightarrow> int" where
  "rne x = (let f = \<lfloor>x\<rfloor>; r = x - of_int f in
     if r < 1 / 2 then f else if r > 1 / 2 then f + 1 else if even f then f else f + 1)"

definition ulp :: "real \<Rightarrow> real" where
  "ulp q = 2 powi (ilog2 q - 52)"

definition flp :: "real \<Rightarrow> real" where
  "flp q = of_int (rne (q / ulp q)) * ulp q"

definition fl :: "real \<Rightarrow> real" where
  "fl q = (if q = 0 then 0 else if q < 0 then - flp (- q) else flp q)"

fun isqrt :: "nat \<Rightarrow> nat" where
  "isqrt n = (if n = 0 then 0
     else let r = 2 * isqrt (n div 4) in if (r + 1) * (r + 1) \<le> n then r + 1 else r)"

declare isqrt.simps [simp del]

definition sqrt_ulp :: "real \<Rightarrow> real" where
  "sqrt_ulp q = 2 powi (ilog2 q div 2 - 52)"

definition round_sqrt :: "real \<Rightarrow> int" where
  "round_sqrt v = (let f = int (isqrt (nat \<lfloor>v\<rfloor>)); h = (of_int f + 1 / 2) * (of_int f + 1 / 2) in
     if v < h then f else if v > h then f + 1 else if even f then f else f + 1)"

definition dsqrt :: "real \<Rightarrow> real option" where
  "dsqrt q = (if q < 0 then None else if q = 0 then Some 0
     else Some (of_int (round_sqrt (q / (sqrt_ulp q * sqrt_ulp q))) * sqrt_ulp q))"

section \<open>Exponents\<close>

lemma ilog2_bounds:
  assumes "0 < q"
  shows "2 powi (ilog2 q) \<le> q \<and> q < 2 powi (ilog2 q + 1)"
proof (cases "1 \<le> q")
  case True
  define n where "n = \<lfloor>q\<rfloor>"
  have n: "1 \<le> n" "of_int n \<le> q" "q < of_int n + 1"
    using True by (auto simp: n_def le_floor_iff)
  have b: "2 ^ nat (bitlen n - 1) \<le> n" "n < 2 ^ nat (bitlen n)"
    using bitlen_bounds [of n] n(1) by simp_all
  have p: "0 < bitlen n" using b(2) n(1) by (cases "0 < bitlen n") simp_all
  have i: "ilog2 q = bitlen n - 1" using True by (simp add: ilog2_def n_def)
  have "(2::real) powi (bitlen n - 1) = of_int (2 ^ nat (bitlen n - 1))"
    using p by (simp add: power_int_def)
  also have "\<dots> \<le> of_int n" using b(1) by (simp only: of_int_le_iff)
  finally have lo: "2 powi (bitlen n - 1) \<le> q" using n(2) by linarith
  have "q < of_int n + 1" by (rule n)
  also have "\<dots> \<le> of_int (2 ^ nat (bitlen n))" using b(2)
    by (metis add1_zle_eq of_int_1 of_int_add of_int_le_iff)
  also have "\<dots> = (2::real) powi (bitlen n)" using p by (simp add: power_int_def)
  finally show ?thesis using lo i by simp
next
  case False
  define n where "n = \<lceil>1 / q\<rceil> - 1"
  have q1: "1 < 1 / q" using False assms by simp
  have n: "1 \<le> n" "of_int n < 1 / q" "1 / q \<le> of_int n + 1"
    using q1 by (auto simp: n_def less_ceiling_iff) linarith+
  have b: "2 ^ nat (bitlen n - 1) \<le> n" "n < 2 ^ nat (bitlen n)"
    using bitlen_bounds [of n] n(1) by simp_all
  have p: "0 < bitlen n" using b(2) n(1) by (cases "0 < bitlen n") simp_all
  have i: "ilog2 q = - bitlen n" using False by (simp add: ilog2_def n_def)
  have "1 / q \<le> of_int n + 1" by (rule n)
  also have "\<dots> \<le> of_int (2 ^ nat (bitlen n))" using b(2)
    by (metis add1_zle_eq of_int_1 of_int_add of_int_le_iff)
  also have "\<dots> = (2::real) powi (bitlen n)" using p by (simp add: power_int_def)
  finally have "1 / q \<le> 2 powi (bitlen n)" .
  then have lo: "2 powi (- bitlen n) \<le> q"
    using assms by (simp add: power_int_minus field_simps)
  have "(2::real) powi (bitlen n - 1) = of_int (2 ^ nat (bitlen n - 1))"
    using p by (simp add: power_int_def)
  also have "\<dots> \<le> of_int n" using b(1) by (simp only: of_int_le_iff)
  finally have "2 powi (bitlen n - 1) < 1 / q" using n(2) by linarith
  then have "q < 1 / 2 powi (bitlen n - 1)"
    using assms by (simp add: field_simps)
  also have "\<dots> = 2 powi (- bitlen n + 1)"
    by (simp add: power_int_diff power_int_add power_int_minus field_simps)
  finally show ?thesis using lo i by simp
qed

lemma powi2_mono: "a \<le> b \<Longrightarrow> (2::real) powi a \<le> 2 powi b"
  by (rule power_int_increasing) simp_all

lemma powi2_less: "(2::real) powi a < 2 powi b \<Longrightarrow> a < b"
  using powi2_mono [of b a] by linarith

lemma ilog2_unique:
  assumes "2 powi e \<le> q" "q < 2 powi (e + 1)"
  shows "ilog2 q = e"
proof -
  have q: "0 < q" using assms(1) by (meson less_le_trans zero_less_numeral zero_less_power_int)
  note b = ilog2_bounds [OF q]
  have "(2::real) powi e < 2 powi (ilog2 q + 1)" "(2::real) powi (ilog2 q) < 2 powi (e + 1)"
    using assms b by linarith+
  then have "e < ilog2 q + 1" "ilog2 q < e + 1" by (auto dest: powi2_less)
  then show ?thesis by simp
qed

lemma ilog2_mono:
  assumes "0 < q" "q \<le> r"
  shows "ilog2 q \<le> ilog2 r"
proof -
  have "(2::real) powi (ilog2 q) < 2 powi (ilog2 r + 1)"
    using ilog2_bounds [of q] ilog2_bounds [of r] assms by linarith
  then have "ilog2 q < ilog2 r + 1" by (rule powi2_less)
  then show ?thesis by simp
qed

lemma ulp_pos [simp]: "0 < ulp q" and sqrt_ulp_pos [simp]: "0 < sqrt_ulp q"
  by (simp_all add: ulp_def sqrt_ulp_def)

lemma ulp_nz [simp]: "ulp q \<noteq> 0" and sqrt_ulp_nz [simp]: "sqrt_ulp q \<noteq> 0"
  using ulp_pos [of q] sqrt_ulp_pos [of q] by linarith+

lemma ulp_nonneg [simp]: "0 \<le> ulp q" "\<bar>ulp q\<bar> = ulp q"
  and sqrt_ulp_nonneg [simp]: "0 \<le> sqrt_ulp q" "\<bar>sqrt_ulp q\<bar> = sqrt_ulp q"
  using ulp_pos [of q] sqrt_ulp_pos [of q] by linarith+

lemma powi2_scale:
  "(2::real) powi e = 4503599627370496 * 2 powi (e - 52)"
  "(2::real) powi (e + 1) = 9007199254740992 * 2 powi (e - 52)"
  by (simp_all add: power_int_diff power_int_add)

section \<open>The rounding of a result\<close>

lemma rne_near: "\<bar>of_int (rne x) - x\<bar> \<le> 1 / 2"
proof -
  have "of_int \<lfloor>x\<rfloor> \<le> x" "x < of_int \<lfloor>x\<rfloor> + 1" by linarith+
  then show ?thesis by (auto simp: rne_def Let_def; linarith)
qed

lemma rne_of_int [simp]: "rne (of_int k) = k"
  by (simp add: rne_def)

lemma rne_mono: "x \<le> y \<Longrightarrow> rne x \<le> rne y"
proof (rule ccontr)
  assume xy: "x \<le> y" and "\<not> rne x \<le> rne y"
  then have "real_of_int (rne y) + 1 \<le> of_int (rne x)" by linarith
  with xy rne_near [of x] rne_near [of y] have "x = y" by linarith
  with \<open>\<not> rne x \<le> rne y\<close> show False by simp
qed

lemma powi2_53: "(2::real) powi 53 = 9007199254740992" and powi2_52: "(2::real) powi 52 = 4503599627370496"
  by (simp_all add: power_int_def)

lemma ulp_scale:
  assumes "0 < q"
  shows "4503599627370496 \<le> q / ulp q" "q / ulp q < 9007199254740992"
proof -
  note s = powi2_scale [of "ilog2 q", folded ulp_def]
  show "4503599627370496 \<le> q / ulp q" "q / ulp q < 9007199254740992"
    using ilog2_bounds [OF assms] unfolding s
    by (simp_all add: pos_le_divide_eq pos_divide_less_eq)
qed

lemma flp_bounds:
  assumes "0 < q"
  shows "2 powi (ilog2 q) \<le> flp q" "flp q \<le> 2 powi (ilog2 q + 1)"
proof -
  have "rne (of_int 4503599627370496) \<le> rne (q / ulp q)" "rne (q / ulp q) \<le> rne (of_int 9007199254740992)"
    using ulp_scale [OF assms] by (intro rne_mono; simp)+
  then have m: "4503599627370496 \<le> rne (q / ulp q)" "rne (q / ulp q) \<le> 9007199254740992"
    unfolding rne_of_int by simp_all
  have s: "(2::real) powi (ilog2 q) = of_int 4503599627370496 * ulp q"
    "(2::real) powi (ilog2 q + 1) = of_int 9007199254740992 * ulp q"
    using powi2_scale [of "ilog2 q"] by (simp_all add: ulp_def)
  show "2 powi (ilog2 q) \<le> flp q" "flp q \<le> 2 powi (ilog2 q + 1)"
    unfolding s flp_def using m by (intro mult_right_mono; simp)+
qed

lemma flp_pos: "0 < q \<Longrightarrow> 0 < flp q"
  using flp_bounds(1) [of q] by (meson less_le_trans zero_less_numeral zero_less_power_int)

lemma flp_mono:
  assumes "0 < q" "q \<le> r"
  shows "flp q \<le> flp r"
proof (cases "ilog2 q = ilog2 r")
  case True
  then have u: "ulp q = ulp r" by (simp add: ulp_def)
  have "rne (q / ulp r) \<le> rne (r / ulp r)"
    using assms by (intro rne_mono divide_right_mono) (simp_all add: less_imp_le)
  then show ?thesis unfolding flp_def u by (intro mult_right_mono) (simp_all add: less_imp_le)
next
  case False
  with ilog2_mono [OF assms] have "ilog2 q + 1 \<le> ilog2 r" by simp
  then have "(2::real) powi (ilog2 q + 1) \<le> 2 powi (ilog2 r)" by (rule powi2_mono)
  then show ?thesis using flp_bounds [of q] flp_bounds [of r] assms by linarith
qed

lemma flp_near:
  assumes "0 < q"
  shows "\<bar>flp q - q\<bar> \<le> q / 9007199254740992"
proof -
  have "flp q - q = (of_int (rne (q / ulp q)) - q / ulp q) * ulp q"
    by (simp add: flp_def algebra_simps)
  then have "\<bar>flp q - q\<bar> = \<bar>of_int (rne (q / ulp q)) - q / ulp q\<bar> * ulp q"
    by (simp add: abs_mult)
  also have "\<dots> \<le> 1 / 2 * ulp q"
    by (rule mult_right_mono [OF rne_near]) simp
  also have "\<dots> \<le> q / 9007199254740992"
    using ulp_scale(1) [OF assms] by (simp add: pos_le_divide_eq)
  finally show ?thesis .
qed

lemma fl_0 [simp]: "fl 0 = 0"
  by (simp add: fl_def)

lemma fl_minus: "fl (- q) = - fl q"
  by (simp add: fl_def)

lemma fl_pos: "0 < q \<Longrightarrow> 0 < fl q"
  by (simp add: fl_def flp_pos)

lemma fl_nonneg: "0 \<le> q \<Longrightarrow> 0 \<le> fl q"
  using fl_pos [of q] by (cases "q = 0") auto

lemma fl_mono: "q \<le> r \<Longrightarrow> fl q \<le> fl r"
proof -
  assume a: "q \<le> r"
  consider "0 < q" | "q \<le> 0" "0 \<le> r" | "r < 0" using a by linarith
  then show ?thesis
  proof cases
    case 1
    then show ?thesis using flp_mono [OF 1 a] a by (simp add: fl_def)
  next
    case 2
    then show ?thesis using fl_nonneg [of r] fl_nonneg [of "- q"] by (simp add: fl_minus)
  next
    case 3
    then show ?thesis using flp_mono [of "- r" "- q"] a by (simp add: fl_def)
  qed
qed

lemma fl_near: "\<bar>fl q - q\<bar> \<le> \<bar>q\<bar> / 9007199254740992"
proof (cases q "0::real" rule: linorder_cases)
  case less
  have "\<bar>fl q - q\<bar> = \<bar>flp (- q) - (- q)\<bar>" using less by (simp add: fl_def)
  then show ?thesis using flp_near [of "- q"] less by simp
next
  case greater
  then show ?thesis using flp_near [of q] by (simp add: fl_def)
qed simp

text \<open>Numbers of at most 53 significant bits are not rounded.\<close>

lemma flp_exact:
  assumes "0 < q" "q / ulp q = of_int k"
  shows "flp q = q"
proof -
  have "q = of_int k * ulp q"
    using assms(2) by (simp add: divide_eq_eq)
  then show ?thesis using assms(2) by (simp add: flp_def)
qed

lemma fl_of_int:
  assumes "\<bar>n\<bar> \<le> 9007199254740992"
  shows "fl (of_int n) = of_int n"
proof -
  have pos: "flp (of_int n) = of_int n" if n: "0 < n" "n \<le> 9007199254740992" for n
  proof (cases "n = 9007199254740992")
    case True
    have "ilog2 (of_int n) = 53"
      using powi2_53 by (intro ilog2_unique) (simp_all add: True power_int_def)
    then have "real_of_int n / ulp (of_int n) = of_int 4503599627370496"
      by (simp add: True ulp_def power_int_def)
    then show ?thesis using n(1) by (intro flp_exact) simp_all
  next
    case False
    define e where "e = ilog2 (of_int n)"
    have "(2::real) powi e < 2 powi 53"
      using ilog2_bounds [of "of_int n"] n False powi2_53 by (simp add: e_def)
    then have e: "e < 53" by (rule powi2_less)
    have "real_of_int n / ulp (of_int n) = of_int n * 2 powi (52 - e)"
      by (simp add: ulp_def e_def power_int_diff field_simps)
    also have "\<dots> = of_int (n * 2 ^ nat (52 - e))"
      using e by (simp add: power_int_def)
    finally have "real_of_int n / ulp (of_int n) = of_int (n * 2 ^ nat (52 - e))" .
    then show ?thesis using n(1) by (intro flp_exact [where k = "n * 2 ^ nat (52 - e)"]) simp_all
  qed
  show ?thesis using pos [of n] pos [of "- n"] assms by (simp add: fl_def)
qed

lemma fl_idem [simp]: "fl (fl q) = fl q"
proof -
  have pos: "flp (flp q) = flp q" if q: "0 < q" for q
  proof (cases "flp q = 2 powi (ilog2 q + 1)")
    case True
    have "ilog2 (flp q) = ilog2 q + 1"
      unfolding True by (rule ilog2_unique) (simp_all add: power_int_add)
    then have "flp q / ulp (flp q) = of_int 4503599627370496"
      using powi2_52 by (simp add: ulp_def True power_int_diff power_int_add)
    then show ?thesis using flp_pos [OF q] by (rule flp_exact [rotated])
  next
    case False
    then have "flp q < 2 powi (ilog2 q + 1)" using flp_bounds(2) [OF q] by simp
    then have "ilog2 (flp q) = ilog2 q" using flp_bounds(1) [OF q] by (intro ilog2_unique)
    then have "ulp (flp q) = ulp q" by (simp add: ulp_def)
    then have "flp q / ulp (flp q) = of_int (rne (q / ulp q))"
      by (simp add: flp_def)
    then show ?thesis using flp_pos [OF q] by (rule flp_exact [rotated])
  qed
  show ?thesis using pos [of q] pos [of "- q"] flp_pos [of q] flp_pos [of "- q"]
    by (auto simp: fl_def)
qed

section \<open>The square root\<close>

lemma isqrt_spec: "isqrt n * isqrt n \<le> n \<and> n < (isqrt n + 1) * (isqrt n + 1)"
proof (induction n rule: isqrt.induct)
  case (1 n)
  show ?case
  proof (cases "n = 0")
    case True
    then show ?thesis by (simp add: isqrt.simps)
  next
    case False
    define s where "s = isqrt (n div 4)"
    have s: "s * s \<le> n div 4" "n div 4 < (s + 1) * (s + 1)"
      using "1.IH" [OF False] by (simp_all add: s_def)
    have "4 * (s * s) \<le> n" "n < 4 * ((s + 1) * (s + 1))"
      using s by (simp_all add: div_less_iff_less_mult less_eq_div_iff_mult_less_eq mult.commute)
    moreover have "isqrt n = (if (2 * s + 1) * (2 * s + 1) \<le> n then 2 * s + 1 else 2 * s)"
      using False by (simp add: isqrt.simps [of n] s_def Let_def)
    ultimately show ?thesis by (auto simp: algebra_simps)
  qed
qed

lemma round_sqrt_near:
  assumes "0 \<le> v"
  shows "\<bar>of_int (round_sqrt v) - sqrt v\<bar> \<le> 1 / 2"
proof -
  define n where "n = nat \<lfloor>v\<rfloor>"
  define f where "f = real (isqrt n)"
  have n: "real n \<le> v" "v < real n + 1" using assms by (auto simp: n_def)
  have "f * f \<le> real n" "real n + 1 \<le> (f + 1) * (f + 1)"
  proof -
    have "real (isqrt n * isqrt n) \<le> real n"
      using isqrt_spec [of n] by (simp only: of_nat_le_iff)
    then show "f * f \<le> real n" by (simp add: f_def)
    have "real (n + 1) \<le> real ((isqrt n + 1) * (isqrt n + 1))"
      using isqrt_spec [of n] unfolding of_nat_le_iff by linarith
    then show "real n + 1 \<le> (f + 1) * (f + 1)" by (simp add: f_def algebra_simps)
  qed
  then have lo: "f \<le> sqrt v" and hi: "sqrt v < f + 1"
    using n by (auto intro!: real_le_rsqrt real_less_lsqrt simp: power2_eq_square f_def)
  have "v < (f + 1 / 2) * (f + 1 / 2) \<Longrightarrow> sqrt v \<le> f + 1 / 2"
    by (rule real_le_lsqrt) (simp_all add: power2_eq_square f_def assms)
  moreover have "\<not> v < (f + 1 / 2) * (f + 1 / 2) \<Longrightarrow> f + 1 / 2 \<le> sqrt v"
    by (rule real_le_rsqrt) (simp add: power2_eq_square)
  moreover have "\<not> v > (f + 1 / 2) * (f + 1 / 2) \<Longrightarrow> sqrt v \<le> f + 1 / 2"
    by (rule real_le_lsqrt) (simp_all add: power2_eq_square f_def assms)
  moreover have "round_sqrt v = (if v < (f + 1 / 2) * (f + 1 / 2) then int (isqrt n)
      else if v > (f + 1 / 2) * (f + 1 / 2) then int (isqrt n) + 1
      else if even (int (isqrt n)) then int (isqrt n) else int (isqrt n) + 1)"
    unfolding round_sqrt_def Let_def by (simp only: f_def n_def of_int_of_nat_eq)
  ultimately show ?thesis using lo hi by (auto simp: f_def split: if_splits)
qed

lemma round_sqrt_mono:
  assumes "0 \<le> v" "v \<le> w"
  shows "round_sqrt v \<le> round_sqrt w"
proof (rule ccontr)
  assume n: "\<not> round_sqrt v \<le> round_sqrt w"
  then have "real_of_int (round_sqrt w) + 1 \<le> of_int (round_sqrt v)" by linarith
  moreover have "sqrt v \<le> sqrt w" using assms by simp
  ultimately have "sqrt v = sqrt w"
    using round_sqrt_near [of v] round_sqrt_near [of w] assms by linarith
  then have "v = w" by simp
  with n show False by simp
qed

lemma round_sqrt_square:
  assumes "0 \<le> k"
  shows "round_sqrt (of_int k * of_int k) = k"
proof -
  have "sqrt (of_int k * of_int k) = of_int k" using assms by simp
  then have "real_of_int k - 1 < of_int (round_sqrt (of_int k * of_int k))"
    "of_int (round_sqrt (of_int k * of_int k)) < real_of_int k + 1"
    using round_sqrt_near [of "of_int k * of_int k"] by (simp_all only: abs_le_iff) simp_all
  then show ?thesis by linarith
qed

definition sqrt_mant :: "real \<Rightarrow> int" where
  "sqrt_mant q = round_sqrt (q / (sqrt_ulp q * sqrt_ulp q))"

lemma dsqrt_pos: "0 < q \<Longrightarrow> dsqrt q = Some (of_int (sqrt_mant q) * sqrt_ulp q)"
  by (simp add: dsqrt_def sqrt_mant_def)

lemma sqrt_exp_bounds:
  assumes "0 < q"
  shows "2 powi (ilog2 q div 2) \<le> sqrt q" "sqrt q < 2 powi (ilog2 q div 2 + 1)"
proof -
  define e where "e = ilog2 q div 2"
  have e: "2 * e \<le> ilog2 q" "ilog2 q + 1 \<le> 2 * e + 2" by (simp_all add: e_def)
  have "(2::real) powi (2 * e) \<le> q" "q < 2 powi (2 * e + 2)"
    using powi2_mono [OF e(1)] powi2_mono [OF e(2)] ilog2_bounds [OF assms] by linarith+
  moreover have "(2::real) powi (2 * e) = (2 powi e)\<^sup>2" "(2::real) powi (2 * e + 2) = (2 powi (e + 1))\<^sup>2"
  proof -
    have s: "(2::real) powi (x + x) = (2 powi x)\<^sup>2" for x
      unfolding power2_eq_square by (rule power_int_add) simp
    show "(2::real) powi (2 * e) = (2 powi e)\<^sup>2" using s [of e] by (simp only: mult_2)
    show "(2::real) powi (2 * e + 2) = (2 powi (e + 1))\<^sup>2"
      unfolding s [symmetric] by (rule arg_cong [of _ _ "(powi) 2"]) simp
  qed
  ultimately show "2 powi (ilog2 q div 2) \<le> sqrt q" "sqrt q < 2 powi (ilog2 q div 2 + 1)"
    unfolding e_def [symmetric] by (auto intro: real_le_rsqrt real_less_lsqrt)
qed

lemma sqrt_scaled:
  "0 < q \<Longrightarrow> sqrt (q / (sqrt_ulp q * sqrt_ulp q)) = sqrt q / sqrt_ulp q"
  by (simp add: real_sqrt_divide real_sqrt_mult)

lemma sqrt_mant_near:
  assumes "0 < q"
  shows "\<bar>of_int (sqrt_mant q) * sqrt_ulp q - sqrt q\<bar> \<le> sqrt_ulp q / 2"
proof -
  have n: "\<bar>of_int (sqrt_mant q) - sqrt q / sqrt_ulp q\<bar> \<le> 1 / 2"
    using round_sqrt_near [of "q / (sqrt_ulp q * sqrt_ulp q)"] assms
    unfolding sqrt_mant_def sqrt_scaled [OF assms] by simp
  have "of_int (sqrt_mant q) * sqrt_ulp q - sqrt q
      = (of_int (sqrt_mant q) - sqrt q / sqrt_ulp q) * sqrt_ulp q"
    by (simp add: left_diff_distrib)
  then have "\<bar>of_int (sqrt_mant q) * sqrt_ulp q - sqrt q\<bar>
      = \<bar>of_int (sqrt_mant q) - sqrt q / sqrt_ulp q\<bar> * sqrt_ulp q"
    by (simp only: abs_mult sqrt_ulp_nonneg)
  also have "\<dots> \<le> 1 / 2 * sqrt_ulp q"
    by (rule mult_right_mono [OF n]) simp
  finally show ?thesis by simp
qed

lemma dsqrt_bounds:
  assumes "0 < q"
  shows "2 powi (ilog2 q div 2) \<le> of_int (sqrt_mant q) * sqrt_ulp q"
    "of_int (sqrt_mant q) * sqrt_ulp q \<le> 2 powi (ilog2 q div 2 + 1)"
proof -
  note s = powi2_scale [of "ilog2 q div 2", folded sqrt_ulp_def]
  have v: "4503599627370496 \<le> sqrt q / sqrt_ulp q" "sqrt q / sqrt_ulp q < 9007199254740992"
    using sqrt_exp_bounds [OF assms] unfolding s by (simp_all add: pos_le_divide_eq pos_divide_less_eq)
  have n: "\<bar>of_int (sqrt_mant q) - sqrt q / sqrt_ulp q\<bar> \<le> 1 / 2"
    using round_sqrt_near [of "q / (sqrt_ulp q * sqrt_ulp q)"] assms
    unfolding sqrt_mant_def sqrt_scaled [OF assms] by simp
  have "real_of_int 4503599627370495 < of_int (sqrt_mant q)"
    "real_of_int (sqrt_mant q) < of_int 9007199254740993"
    using v n unfolding of_int_numeral by linarith+
  then have "4503599627370496 \<le> sqrt_mant q" "sqrt_mant q \<le> 9007199254740992"
    unfolding of_int_less_iff by linarith+
  then have "real_of_int 4503599627370496 \<le> of_int (sqrt_mant q)"
    "real_of_int (sqrt_mant q) \<le> of_int 9007199254740992" by (simp_all only: of_int_le_iff)
  then show "2 powi (ilog2 q div 2) \<le> of_int (sqrt_mant q) * sqrt_ulp q"
    "of_int (sqrt_mant q) * sqrt_ulp q \<le> 2 powi (ilog2 q div 2 + 1)"
    unfolding s by (auto intro: mult_right_mono)
qed

lemma dsqrt_nonneg: "0 \<le> q \<Longrightarrow> \<exists>x. dsqrt q = Some x \<and> 0 \<le> x"
proof (cases "q = 0")
  case True
  then show ?thesis by (simp add: dsqrt_def)
next
  case False
  assume "0 \<le> q"
  with False have q: "0 < q" by simp
  have "(0::real) < 2 powi (ilog2 q div 2)" by simp
  then have "0 \<le> of_int (sqrt_mant q) * sqrt_ulp q" using dsqrt_bounds(1) [OF q] by linarith
  then show ?thesis using dsqrt_pos [OF q] by simp
qed

lemma dsqrt_mono:
  assumes "0 \<le> q" "q \<le> r" "dsqrt q = Some x" "dsqrt r = Some y"
  shows "x \<le> y"
proof (cases "q = 0")
  case True
  then show ?thesis using assms dsqrt_nonneg [of r] by (simp add: dsqrt_def)
next
  case False
  with assms have q: "0 < q" and r: "0 < r" by simp_all
  have x: "x = of_int (sqrt_mant q) * sqrt_ulp q" and y: "y = of_int (sqrt_mant r) * sqrt_ulp r"
    using dsqrt_pos [OF q] dsqrt_pos [OF r] assms(3,4) by simp_all
  have le: "ilog2 q div 2 \<le> ilog2 r div 2" using ilog2_mono [OF q assms(2)] by simp
  show ?thesis
  proof (cases "ilog2 q div 2 = ilog2 r div 2")
    case True
    then have u: "sqrt_ulp q = sqrt_ulp r" by (simp add: sqrt_ulp_def)
    have "sqrt_mant q \<le> sqrt_mant r"
      unfolding sqrt_mant_def u using q assms(2) by (intro round_sqrt_mono divide_right_mono) simp_all
    then show ?thesis unfolding x y u by (intro mult_right_mono) simp_all
  next
    case False
    with le have "ilog2 q div 2 + 1 \<le> ilog2 r div 2" by simp
    then have "(2::real) powi (ilog2 q div 2 + 1) \<le> 2 powi (ilog2 r div 2)" by (rule powi2_mono)
    then show ?thesis using dsqrt_bounds [OF q] dsqrt_bounds [OF r] unfolding x y by linarith
  qed
qed

text \<open>The root of a perfect square is exact.\<close>

lemma dsqrt_square:
  assumes "0 \<le> k" "k \<le> 4503599627370496"
  shows "dsqrt (of_int k * of_int k) = Some (of_int k)"
proof (cases "k = 0")
  case True
  then show ?thesis by (simp add: dsqrt_def)
next
  case False
  define q where "q = real_of_int k * of_int k"
  define e where "e = ilog2 q div 2"
  have k: "0 < k" using False assms by simp
  then have q: "0 < q" by (simp add: q_def)
  have sq: "sqrt q = of_int k" using k by (simp add: q_def)
  have "(2::real) powi e < 2 powi 53"
    using sqrt_exp_bounds(1) [OF q] assms(2) powi2_53 unfolding sq e_def by simp
  then have e: "e < 53" by (rule powi2_less)
  have "e \<noteq> 52 \<or> e = 52" by simp
  have w: "real_of_int k / sqrt_ulp q = of_int (k * 2 ^ nat (52 - e))"
  proof -
    have "real_of_int k / sqrt_ulp q = of_int k * 2 powi (52 - e)"
      by (simp add: sqrt_ulp_def e_def power_int_diff field_simps)
    then show ?thesis using e by (simp add: power_int_def)
  qed
  have "q / (sqrt_ulp q * sqrt_ulp q) = (of_int k / sqrt_ulp q) * (of_int k / sqrt_ulp q)"
    by (simp add: q_def)
  then have "sqrt_mant q = k * 2 ^ nat (52 - e)"
    unfolding w sqrt_mant_def using round_sqrt_square [of "k * 2 ^ nat (52 - e)"] k by simp
  then have "of_int (sqrt_mant q) = real_of_int k / sqrt_ulp q" using w by simp
  then show ?thesis using dsqrt_pos [OF q] by (simp add: q_def)
qed

text \<open>On integers below \<open>2 ^ 32\<close> the rounded root is strictly monotone: neighbouring roots
  are further apart than the rounding errors.\<close>

lemma dsqrt_int_near:
  assumes "0 \<le> n" "n < 4294967296" "dsqrt (of_int n) = Some x"
  shows "\<bar>x - sqrt (of_int n)\<bar> \<le> 1 / 137438953472"
proof (cases "n = 0")
  case True
  then show ?thesis using assms by (simp add: dsqrt_def)
next
  case False
  then have n: "0 < real_of_int n" using assms by simp
  have "sqrt (of_int n) < 65536" using assms by (intro real_less_lsqrt) simp_all
  then have "(2::real) powi (ilog2 (of_int n) div 2) < 2 powi 16"
    using sqrt_exp_bounds(1) [OF n] by simp
  then have "ilog2 (of_int n) div 2 < 16" by (rule powi2_less)
  then have "sqrt_ulp (of_int n) \<le> 2 powi (-37)" unfolding sqrt_ulp_def by (intro powi2_mono) simp
  then have "sqrt_ulp (of_int n) / 2 \<le> 1 / 137438953472"
    by (simp add: power_int_minus)
  then show ?thesis using sqrt_mant_near [OF n] dsqrt_pos [OF n] assms(3) by simp
qed

lemma dsqrt_int_strict_mono:
  assumes "0 \<le> m" "m < n" "n < 4294967296"
    and "dsqrt (of_int m) = Some x" "dsqrt (of_int n) = Some y"
  shows "x < y"
proof -
  define a b where "a = sqrt (of_int m)" and "b = sqrt (of_int n)"
  have ab: "0 \<le> a" "a < b" "b < 65536"
    using assms by (simp_all add: a_def b_def) (intro real_less_lsqrt; simp)
  have "1 \<le> real_of_int n - of_int m" using assms(2) by linarith
  also have "\<dots> = (b - a) * (b + a)"
    using assms by (simp add: a_def b_def algebra_simps)
  also have "\<dots> \<le> (b - a) * 131072"
    using ab by (intro mult_left_mono) simp_all
  finally have d: "1 / 131072 \<le> b - a" by simp
  have "\<bar>x - a\<bar> \<le> 1 / 137438953472" "\<bar>y - b\<bar> \<le> 1 / 137438953472"
    using dsqrt_int_near [of m x] dsqrt_int_near [of n y] assms
    unfolding a_def [symmetric] b_def [symmetric] by simp_all
  with d show ?thesis unfolding abs_le_iff by linarith
qed

text \<open>So the comparison of a rounded distance with an integer bound is exact.\<close>

lemma dsqrt_le_int_iff:
  assumes "0 \<le> n" "n < 4294967296" "0 \<le> k" "k \<le> 4503599627370496" "dsqrt (of_int n) = Some x"
  shows "x \<le> of_int k \<longleftrightarrow> n \<le> k * k"
proof
  have k: "dsqrt (of_int (k * k)) = Some (of_int k)" using dsqrt_square [OF assms(3,4)] by simp
  show "x \<le> of_int k" if "n \<le> k * k"
    by (rule dsqrt_mono [OF _ _ assms(5) k]) (use assms that in \<open>simp_all only: of_int_le_iff of_int_0_le_iff\<close>)
  show "n \<le> k * k" if "x \<le> of_int k"
  proof (rule ccontr)
    assume "\<not> n \<le> k * k"
    then have "k * k < n" by simp
    then have "of_int k < x"
      using dsqrt_int_strict_mono [OF _ _ assms(2) k assms(5)] assms(3) by simp
    with that show False by simp
  qed
qed

end
