(* ===== verification/RTreeMBR.thy ===== *)
theory RTreeMBR
  imports C_Double
begin

text \<open>
  The rectangles of the R-tree, \<^verbatim>\<open>executor/rtreeM.c\<close> and \<^verbatim>\<open>executor/rtreeM.h\<close>:
  \<open>RTREEMBR\<close> with its two dimensions, the undefined rectangle, area, volume, the volume of
  the bounding sphere that steers every choice of the tree, and the combination, overlap and
  containment tests. The loops over \<open>DIMS_NUMB = 2\<close> dimensions are written out. Coordinates
  are reals; every \<open>double\<close> operation that can round goes through \<open>fl\<close>.
\<close>

named_theorems mbr_simps "rectangle operations on explicit rectangles"

section \<open>Definitions\<close>

text \<open>\<open>bound[0..3]\<close> is xmin, ymin, xmax, ymax.\<close>

datatype RTREEMBR = MBR (xmin: real) (ymin: real) (xmax: real) (ymax: real)

definition INVALID_RECT :: "RTREEMBR \<Rightarrow> bool" where
  "INVALID_RECT r \<longleftrightarrow> xmax r < xmin r"

definition RTreeInitRect :: RTREEMBR where
  "RTreeInitRect = MBR 0 0 0 0"

definition RTreeNullRect :: RTREEMBR where
  "RTreeNullRect = MBR 1 0 (-1) 0"

definition RTreeRectArea :: "RTREEMBR \<Rightarrow> real" where
  "RTreeRectArea r = (if INVALID_RECT r then 0
     else fl (fl (xmax r - xmin r) * fl (ymax r - ymin r)))"

text \<open>The loop multiplies the extents into 1; the closing assertion rejects a negative
  product (\<open>None\<close>).\<close>

definition RTreeRectVolume :: "RTREEMBR \<Rightarrow> real option" where
  "RTreeRectVolume r = (if INVALID_RECT r then Some 0
     else let vol = fl (fl (1 * fl (xmax r - xmin r)) * fl (ymax r - ymin r))
          in if 0 \<le> vol then Some vol else None)"

text \<open>\<open>UnitSphereVolumes[DIMS_NUMB]\<close>: the literal 3.141593 as the compiler reads it.\<close>

definition UnitSphereVolume :: real where
  "UnitSphereVolume = fl (3141593 / 1000000)"

definition sum_of_squares :: "RTREEMBR \<Rightarrow> real" where
  "sum_of_squares r =
     (let h0 = fl (fl (xmax r - xmin r) / 2); h1 = fl (fl (ymax r - ymin r) / 2)
      in fl (fl (0 + fl (h0 * h0)) + fl (h1 * h1)))"

text \<open>\<open>pow(radius, 2)\<close> is a multiplication. The square root is never asked of a negative
  number (\<open>sum_of_squares_nonneg\<close>), so the NaN branch is not taken.\<close>

definition RTreeRectSphericalVolume :: "RTREEMBR \<Rightarrow> real" where
  "RTreeRectSphericalVolume r = (if INVALID_RECT r then 0
     else (case dsqrt (sum_of_squares r) of
        None \<Rightarrow> 0
      | Some radius \<Rightarrow> fl (fl (radius * radius) * UnitSphereVolume)))"

definition RTreeRectSurfaceArea :: "RTREEMBR \<Rightarrow> real" where
  "RTreeRectSurfaceArea r = (if INVALID_RECT r then 0
     else let face0 = fl (1 * fl (ymax r - ymin r)); face1 = fl (1 * fl (xmax r - xmin r))
          in fl (2 * fl (fl (0 + face0) + face1)))"

definition RTreeCombineRect :: "RTREEMBR \<Rightarrow> RTREEMBR \<Rightarrow> RTREEMBR" where
  "RTreeCombineRect rc1 rc2 =
     (if INVALID_RECT rc1 then rc2 else if INVALID_RECT rc2 then rc1
      else MBR (min (xmin rc1) (xmin rc2)) (min (ymin rc1) (ymin rc2))
               (max (xmax rc1) (xmax rc2)) (max (ymax rc1) (ymax rc2)))"

definition RTreeOverlap :: "RTREEMBR \<Rightarrow> RTREEMBR \<Rightarrow> bool" where
  "RTreeOverlap rc1 rc2 \<longleftrightarrow>
     \<not> (xmin rc1 > xmax rc2 \<or> xmin rc2 > xmax rc1) \<and>
     \<not> (ymin rc1 > ymax rc2 \<or> ymin rc2 > ymax rc1)"

definition RTreeContained :: "RTREEMBR \<Rightarrow> RTREEMBR \<Rightarrow> bool" where
  "RTreeContained r s =
     (if INVALID_RECT r then True else if INVALID_RECT s then False
      else (xmin r \<ge> xmin s \<and> xmax r \<le> xmax s) \<and> (ymin r \<ge> ymin s \<and> ymax r \<le> ymax s))"

section \<open>Rectangles as point sets\<close>

text \<open>\<open>proper\<close> rectangles have both sides the right way round; \<open>INVALID_RECT\<close> looks at the
  first side only. \<open>mbr_le\<close> is containment of the corners.\<close>

definition proper :: "RTREEMBR \<Rightarrow> bool" where
  "proper r \<longleftrightarrow> xmin r \<le> xmax r \<and> ymin r \<le> ymax r"

definition mbr_le :: "RTREEMBR \<Rightarrow> RTREEMBR \<Rightarrow> bool" where
  "mbr_le r s \<longleftrightarrow> xmin s \<le> xmin r \<and> ymin s \<le> ymin r \<and> xmax r \<le> xmax s \<and> ymax r \<le> ymax s"

definition points :: "RTREEMBR \<Rightarrow> (real \<times> real) set" where
  "points r = {(x, y). xmin r \<le> x \<and> x \<le> xmax r \<and> ymin r \<le> y \<and> y \<le> ymax r}"

lemma mbr_le_refl [simp]: "mbr_le r r"
  by (simp add: mbr_le_def)

lemma mbr_le_trans: "mbr_le r s \<Longrightarrow> mbr_le s t \<Longrightarrow> mbr_le r t"
  by (auto simp: mbr_le_def)

lemma proper_valid: "proper r \<Longrightarrow> \<not> INVALID_RECT r"
  by (simp add: proper_def INVALID_RECT_def)

lemma mbr_le_proper: "proper r \<Longrightarrow> mbr_le r s \<Longrightarrow> proper s"
  by (auto simp: proper_def mbr_le_def)

lemma Overlap_mono: "RTreeOverlap q r \<Longrightarrow> mbr_le r s \<Longrightarrow> RTreeOverlap q s"
  by (auto simp: RTreeOverlap_def mbr_le_def)

lemma Overlap_refl: "proper r \<Longrightarrow> RTreeOverlap r r"
  by (simp add: RTreeOverlap_def proper_def)

lemma Overlap_sym: "RTreeOverlap r s = RTreeOverlap s r"
  by (auto simp: RTreeOverlap_def)

lemma Contained_iff: "proper r \<Longrightarrow> RTreeContained r s \<longleftrightarrow> mbr_le r s"
  by (auto simp: RTreeContained_def mbr_le_def proper_def INVALID_RECT_def)

lemma Contained_Overlap: "proper r \<Longrightarrow> RTreeContained r s \<Longrightarrow> RTreeOverlap r s"
  by (auto simp: RTreeContained_def RTreeOverlap_def proper_def INVALID_RECT_def split: if_splits)

lemma Overlap_points:
  assumes "proper r" "proper s"
  shows "RTreeOverlap r s \<longleftrightarrow> points r \<inter> points s \<noteq> {}"
proof
  assume o: "RTreeOverlap r s"
  have "(max (xmin r) (xmin s), max (ymin r) (ymin s)) \<in> points r \<inter> points s"
    using o assms by (simp add: RTreeOverlap_def points_def proper_def)
  then show "points r \<inter> points s \<noteq> {}" by blast
next
  assume "points r \<inter> points s \<noteq> {}"
  then show "RTreeOverlap r s" by (auto simp: RTreeOverlap_def points_def)
qed

lemma Combine_le:
  assumes "proper r" "proper s"
  shows "mbr_le r (RTreeCombineRect r s)" "mbr_le s (RTreeCombineRect r s)"
  using proper_valid [OF assms(1)] proper_valid [OF assms(2)]
  by (simp_all add: RTreeCombineRect_def mbr_le_def)

lemma Combine_proper: "proper r \<Longrightarrow> proper s \<Longrightarrow> proper (RTreeCombineRect r s)"
  using Combine_le(1) mbr_le_proper by blast

lemma Combine_least:
  assumes "mbr_le r t" "mbr_le s t"
  shows "mbr_le (RTreeCombineRect r s) t"
  using assms by (auto simp: RTreeCombineRect_def mbr_le_def)

section \<open>The bounding sphere\<close>

lemma sum_of_squares_nonneg: "0 \<le> sum_of_squares r"
  by (simp add: sum_of_squares_def Let_def fl_nonneg)

lemma half_mono:
  assumes "proper r" "mbr_le r s"
  shows "0 \<le> fl (fl (xmax r - xmin r) / 2)" "fl (fl (xmax r - xmin r) / 2) \<le> fl (fl (xmax s - xmin s) / 2)"
    "0 \<le> fl (fl (ymax r - ymin r) / 2)" "fl (fl (ymax r - ymin r) / 2) \<le> fl (fl (ymax s - ymin s) / 2)"
proof -
  have x: "0 \<le> xmax r - xmin r" "xmax r - xmin r \<le> xmax s - xmin s"
    and y: "0 \<le> ymax r - ymin r" "ymax r - ymin r \<le> ymax s - ymin s"
    using assms by (simp_all add: proper_def mbr_le_def)
  show "0 \<le> fl (fl (xmax r - xmin r) / 2)" "0 \<le> fl (fl (ymax r - ymin r) / 2)"
    using x(1) y(1) by (simp_all add: fl_nonneg)
  show "fl (fl (xmax r - xmin r) / 2) \<le> fl (fl (xmax s - xmin s) / 2)"
    "fl (fl (ymax r - ymin r) / 2) \<le> fl (fl (ymax s - ymin s) / 2)"
    using fl_mono [OF x(2)] fl_mono [OF y(2)] by (simp_all add: fl_mono)
qed

lemma sum_of_squares_mono:
  assumes "proper r" "mbr_le r s"
  shows "sum_of_squares r \<le> sum_of_squares s"
proof -
  note h = half_mono [OF assms]
  note x = fl_mono [OF mult_mono [OF h(2) h(2) order_trans [OF h(1,2)] h(1)]]
  note y = fl_mono [OF mult_mono [OF h(4) h(4) order_trans [OF h(3,4)] h(3)]]
  show ?thesis
    unfolding sum_of_squares_def Let_def by (rule fl_mono [OF add_mono [OF fl_mono [OF add_left_mono [OF x]] y]])
qed

lemma UnitSphereVolume_bounds: "0 < UnitSphereVolume" "UnitSphereVolume \<le> 4"
proof -
  show "0 < UnitSphereVolume" by (simp add: UnitSphereVolume_def fl_pos)
  have "UnitSphereVolume \<le> fl (of_int 4)" unfolding UnitSphereVolume_def by (intro fl_mono) simp
  then show "UnitSphereVolume \<le> 4" using fl_of_int [of 4] by simp
qed

lemma SphericalVolume_nonneg: "0 \<le> RTreeRectSphericalVolume r"
proof -
  obtain x where "dsqrt (sum_of_squares r) = Some x" "0 \<le> x"
    using dsqrt_nonneg [OF sum_of_squares_nonneg] by blast
  then show ?thesis
    using UnitSphereVolume_bounds(1) by (simp add: RTreeRectSphericalVolume_def fl_nonneg)
qed

lemma SphericalVolume_mono:
  assumes "proper r" "mbr_le r s"
  shows "RTreeRectSphericalVolume r \<le> RTreeRectSphericalVolume s"
proof -
  have s: "proper s" using mbr_le_proper assms by blast
  obtain x where x: "dsqrt (sum_of_squares r) = Some x" "0 \<le> x"
    using dsqrt_nonneg [OF sum_of_squares_nonneg] by blast
  obtain y where y: "dsqrt (sum_of_squares s) = Some y" "0 \<le> y"
    using dsqrt_nonneg [OF sum_of_squares_nonneg] by blast
  have "x \<le> y"
    by (rule dsqrt_mono [OF sum_of_squares_nonneg sum_of_squares_mono [OF assms] x(1) y(1)])
  then have "fl (fl (x * x) * UnitSphereVolume) \<le> fl (fl (y * y) * UnitSphereVolume)"
    using x(2) UnitSphereVolume_bounds(1) by (intro fl_mono mult_right_mono mult_mono) simp_all
  then show ?thesis
    using proper_valid [OF assms(1)] proper_valid [OF s] x(1) y(1)
    by (simp add: RTreeRectSphericalVolume_def)
qed

text \<open>The result is a \<open>double\<close>, so rounding it again changes nothing.\<close>

lemma SphericalVolume_fl: "fl (RTreeRectSphericalVolume r) = RTreeRectSphericalVolume r"
  by (simp add: RTreeRectSphericalVolume_def split: option.split)

text \<open>Within coordinates of at most \<open>2 ^ 24\<close> a volume stays far below \<open>2 ^ 53\<close>, where
  subtracting 1 from it is still visible.\<close>

definition small_mbr :: "RTREEMBR \<Rightarrow> bool" where
  "small_mbr r \<longleftrightarrow> proper r \<and> mbr_le r (MBR (-16777216) (-16777216) 16777216 16777216)"

lemma big_square:
  "sum_of_squares (MBR (-16777216) (-16777216) 16777216 16777216) = 562949953421312"
proof -
  have a: "fl 33554432 = 33554432" "fl 16777216 = 16777216"
    "fl 281474976710656 = 281474976710656" "fl 562949953421312 = 562949953421312"
    using fl_of_int [of 33554432] fl_of_int [of 16777216] fl_of_int [of 281474976710656]
      fl_of_int [of 562949953421312] by simp_all
  show ?thesis by (simp add: sum_of_squares_def Let_def a)
qed

lemma SphericalVolume_small:
  assumes "small_mbr r"
  shows "RTreeRectSphericalVolume r \<le> 2251800887427072"
proof -
  let ?b = "MBR (-16777216) (-16777216) 16777216 16777216"
  have r: "proper r" "mbr_le r ?b" using assms by (simp_all add: small_mbr_def)
  obtain x where x: "dsqrt (sum_of_squares r) = Some x" "0 \<le> x"
    using dsqrt_nonneg [OF sum_of_squares_nonneg] by blast
  have "sum_of_squares r \<le> 562949953421312"
    using sum_of_squares_mono [OF r] unfolding big_square .
  then have "sum_of_squares r \<le> of_int 23726567 * of_int 23726567" by simp
  then have "x \<le> of_int 23726567"
    using dsqrt_mono [OF sum_of_squares_nonneg _ x(1) dsqrt_square [of 23726567]] by simp
  then have "x * x \<le> 23726567 * 23726567" using x(2) by (intro mult_mono) simp_all
  then have "fl (x * x) \<le> fl (of_int 562949981605489)" by (intro fl_mono) simp
  then have "fl (x * x) \<le> 562949981605489" using fl_of_int [of 562949981605489] by simp
  then have "fl (x * x) * UnitSphereVolume \<le> 562949981605489 * 4"
    using UnitSphereVolume_bounds x(2) by (intro mult_mono) (simp_all add: fl_nonneg)
  then have "fl (fl (x * x) * UnitSphereVolume) \<le> fl (of_int 2251799926421956)"
    by (intro fl_mono) simp
  also have "\<dots> = 2251799926421956" using fl_of_int [of 2251799926421956] by simp
  finally show ?thesis using x(1) by (simp add: RTreeRectSphericalVolume_def)
qed

end
