(* ===== verification/RTreeSplit.thy ===== *)
theory RTreeSplit
  imports SGB_Prelude RTreeMBR
begin

text \<open>
  The nodes of the R-tree and the splitting of a full node, \<^verbatim>\<open>executor/rtreeM.c\<close>:
  node initialisation, cover, choice of a branch, and the partition of the
  \<open>MAXCARD + 1\<close> branches of an overfull node into two groups (\<open>_RTreeGetBranches\<close>,
  \<open>_RTreePickSeeds\<close>, \<open>_RTreeMethodZero\<close>, \<open>_RTreeLoadNodes\<close>), with \<open>RTreeSplitNode\<close> and
  \<open>RTreeAddBranch\<close>. A failed assertion is \<open>None\<close>. The scratch fields of the root
  (\<open>BranchBuf\<close>, \<open>CoverSplit\<close>, \<open>Partitions\<close>) are written and read within one split and are
  local values here.
\<close>

section \<open>Nodes\<close>

text \<open>\<open>MAXCARD\<close> is \<open>(512 - 2 * 4) / 40\<close>; nothing changes \<open>NODECARD\<close> and \<open>LEAFCARD\<close> after
  their initialisation.\<close>

definition MAXCARD :: nat where
  "MAXCARD = (512 - 2 * 4) div 40"

definition NODECARD :: nat where "NODECARD = MAXCARD"
definition LEAFCARD :: nat where "LEAFCARD = MAXCARD"
definition MINNODEFILL :: nat where "MINNODEFILL = NODECARD div 2"
definition MINLEAFFILL :: nat where "MINLEAFFILL = LEAFCARD div 2"

text \<open>The \<open>child\<close> pointer of a branch: NULL, the id of a record (in a leaf, cast to a
  pointer), or a node below.\<close>

datatype 'n child = NULL | Tid nat | Sub 'n

datatype RTREENODE =
  Node (ncount: nat) (nlevel: int) (branch: "(RTREEMBR \<times> RTREENODE child) list")

type_synonym RTREEBRANCH = "RTREEMBR \<times> RTREENODE child"

definition child_of_tid :: "nat \<Rightarrow> RTREENODE child" where
  "child_of_tid tid = (if tid = 0 then NULL else Tid tid)"

definition MAXKIDS :: "RTREENODE \<Rightarrow> nat" where
  "MAXKIDS n = (if nlevel n > 0 then NODECARD else LEAFCARD)"

abbreviation used :: "RTREEBRANCH \<Rightarrow> bool" where
  "used b \<equiv> snd b \<noteq> NULL"

definition RTreeInitBranch :: RTREEBRANCH where
  "RTreeInitBranch = (RTreeInitRect, NULL)"

definition RTreeInitNode :: RTREENODE where
  "RTreeInitNode = Node 0 (-1) (replicate MAXCARD RTreeInitBranch)"

definition RTreeNewNode :: RTREENODE where
  "RTreeNewNode = RTreeInitNode"

text \<open>The cover of a node: the loop starts from the first used branch.\<close>

definition RTreeNodeCover :: "RTREENODE \<Rightarrow> RTREEMBR" where
  "RTreeNodeCover n =
     snd (fold (\<lambda>b (first_time, mbr).
        if used b then (if first_time then (False, fst b) else (False, RTreeCombineRect mbr (fst b)))
        else (first_time, mbr))
       (take (MAXKIDS n) (branch n)) (True, RTreeInitRect))"

text \<open>\<open>RTreePickBranch\<close>: least increase of the sphere, ties to the smaller sphere.\<close>

definition pick_step :: "RTREEMBR \<Rightarrow> (nat \<times> RTREEBRANCH) \<Rightarrow> (bool \<times> nat \<times> real \<times> real) \<Rightarrow>
    (bool \<times> nat \<times> real \<times> real)" where
  "pick_step mbr ib st =
     (case ib of (i, r, ch) \<Rightarrow> case st of (first_time, best, bestArea, bestIncr) \<Rightarrow>
      if ch = NULL then st
      else
        let area = RTreeRectSphericalVolume r;
            increase = fl (RTreeRectSphericalVolume (RTreeCombineRect mbr r) - area)
        in if increase < bestIncr \<or> first_time then (False, i, area, increase)
           else if increase = bestIncr \<and> area < bestArea then (False, i, area, increase)
           else st)"

definition RTreePickBranch :: "RTREEMBR \<Rightarrow> RTREENODE \<Rightarrow> nat" where
  "RTreePickBranch mbr n =
     fst (snd (fold (pick_step mbr) (enumerate 0 (take (MAXKIDS n) (branch n))) (True, 0, 0, -1)))"

section \<open>Partitions\<close>

text \<open>Group 0 is \<open>False\<close>, group 1 is \<open>True\<close>; \<open>partition\<close> holds -1 for a branch that has no
  group yet.\<close>

record RTREEPARTITION =
  partition :: "nat \<Rightarrow> int"
  total :: nat
  minfill :: nat
  taken :: "nat \<Rightarrow> bool"
  pcount :: "bool \<Rightarrow> nat"
  cover :: "bool \<Rightarrow> RTREEMBR"
  area :: "bool \<Rightarrow> real"

definition RTreeInitPart :: "nat \<Rightarrow> nat \<Rightarrow> RTREEPARTITION" where
  "RTreeInitPart maxrects mf =
     \<lparr>partition = (\<lambda>_. -1), total = maxrects, minfill = mf, taken = (\<lambda>_. False),
      pcount = (\<lambda>_. 0), cover = (\<lambda>_. RTreeNullRect), area = (\<lambda>_. 0)\<rparr>"

definition RTreeClassify :: "RTREEBRANCH list \<Rightarrow> nat \<Rightarrow> bool \<Rightarrow> RTREEPARTITION \<Rightarrow> RTREEPARTITION option" where
  "RTreeClassify buf i grp p =
     (if taken p i then None
      else
        let c = (if pcount p grp = 0 then fst (buf ! i)
                 else RTreeCombineRect (fst (buf ! i)) (cover p grp))
        in Some (p\<lparr>partition := (partition p)(i := of_bool grp),
                   taken := (taken p)(i := True),
                   cover := (cover p)(grp := c),
                   area := (area p)(grp := RTreeRectSphericalVolume c),
                   pcount := (pcount p)(grp := pcount p grp + 1)\<rparr>))"

text \<open>\<open>_RTreeGetBranches\<close>: the buffer, its cover, and the sphere of the cover.\<close>

definition RTreeGetBranches :: "RTREENODE \<Rightarrow> RTREEBRANCH \<Rightarrow> (RTREEBRANCH list \<times> real) option" where
  "RTreeGetBranches n br =
     (if list_all used (take (MAXKIDS n) (branch n))
      then
        let buf = take (MAXKIDS n) (branch n) @ [br];
            CoverSplit = fold (\<lambda>b c. RTreeCombineRect c (fst b)) (tl buf) (fst (hd buf))
        in Some (buf, RTreeRectSphericalVolume CoverSplit)
      else None)"

definition seed_waste :: "RTREEBRANCH list \<Rightarrow> nat \<Rightarrow> nat \<Rightarrow> real" where
  "seed_waste buf i j =
     fl (fl (RTreeRectSphericalVolume (RTreeCombineRect (fst (buf ! i)) (fst (buf ! j)))
             - RTreeRectSphericalVolume (fst (buf ! i)))
         - RTreeRectSphericalVolume (fst (buf ! j)))"

definition seed_step :: "RTREEBRANCH list \<Rightarrow> (nat \<times> nat) \<Rightarrow> (real \<times> nat \<times> nat) \<Rightarrow> (real \<times> nat \<times> nat)" where
  "seed_step buf ij st =
     (case ij of (i, j) \<Rightarrow> case st of (worst, seed0, seed1) \<Rightarrow>
      let waste = seed_waste buf i j
      in if waste > worst then (waste, i, j) else st)"

definition seed_pairs :: "nat \<Rightarrow> (nat \<times> nat) list" where
  "seed_pairs t = concat (map (\<lambda>i. map (\<lambda>j. (i, j)) [i + 1..<t]) [0..<t - 1])"

definition RTreePickSeeds :: "RTREEBRANCH list \<Rightarrow> real \<Rightarrow> RTREEPARTITION \<Rightarrow> RTREEPARTITION option" where
  "RTreePickSeeds buf CoverSplitArea p =
     (case fold (seed_step buf) (seed_pairs (total p)) (fl (- CoverSplitArea - 1), 0, 0) of
        (worst, seed0, seed1) \<Rightarrow>
          (case RTreeClassify buf seed0 False p of
             None \<Rightarrow> None
           | Some p1 \<Rightarrow> RTreeClassify buf seed1 True p1))"

text \<open>The inner loop of \<open>_RTreeMethodZero\<close>: the free branch most strongly drawn to one
  group. \<open>chosen\<close> and \<open>betterGroup\<close> keep their values from the previous round.\<close>

definition choose_step :: "RTREEBRANCH list \<Rightarrow> RTREEPARTITION \<Rightarrow> nat \<Rightarrow> (real \<times> nat \<times> bool) \<Rightarrow>
    (real \<times> nat \<times> bool)" where
  "choose_step buf p i st =
     (case st of (biggestDiff, chosen, betterGroup) \<Rightarrow>
      if taken p i then st
      else
        let r = fst (buf ! i);
            growth0 = fl (RTreeRectSphericalVolume (RTreeCombineRect r (cover p False)) - area p False);
            growth1 = fl (RTreeRectSphericalVolume (RTreeCombineRect r (cover p True)) - area p True);
            diff0 = fl (growth1 - growth0);
            grp = (\<not> diff0 \<ge> 0);
            diff = (if diff0 \<ge> 0 then diff0 else - diff0)
        in if diff > biggestDiff then (diff, i, grp)
           else if diff = biggestDiff \<and> pcount p grp < pcount p betterGroup
           then (biggestDiff, i, grp) else st)"

definition choose_next :: "RTREEBRANCH list \<Rightarrow> RTREEPARTITION \<Rightarrow> nat \<Rightarrow> bool \<Rightarrow> nat \<times> bool" where
  "choose_next buf p chosen betterGroup =
     snd (fold (choose_step buf p) [0..<total p] (-1, chosen, betterGroup))"

definition keep_choosing :: "RTREEPARTITION \<Rightarrow> bool" where
  "keep_choosing p \<longleftrightarrow> pcount p False + pcount p True < total p \<and>
     pcount p False < total p - minfill p \<and> pcount p True < total p - minfill p"

lemma Classify_counts:
  "RTreeClassify buf i g p = Some p' \<Longrightarrow>
     total p' = total p \<and> minfill p' = minfill p \<and> pcount p' = (pcount p)(g := Suc (pcount p g))"
  by (auto simp: RTreeClassify_def Let_def split: if_splits)

function choose_loop :: "RTREEBRANCH list \<Rightarrow> RTREEPARTITION \<Rightarrow> nat \<Rightarrow> bool \<Rightarrow> RTREEPARTITION option" where
  "choose_loop buf p chosen betterGroup =
     (if keep_choosing p
      then (case choose_next buf p chosen betterGroup of (c, g) \<Rightarrow>
              (case RTreeClassify buf c g p of
                 None \<Rightarrow> None
               | Some p' \<Rightarrow> choose_loop buf p' c g))
      else Some p)"
  by pat_completeness auto

termination
proof (relation "measure (\<lambda>(buf, p, c, g). total p - (pcount p False + pcount p True))")
  show "wf (measure (\<lambda>(buf, p, c, g). total p - (pcount p False + pcount p True)))" by simp
next
  fix buf p c g cg c' g' p'
  assume a: "keep_choosing p" "RTreeClassify buf c' g' p = Some p'"
  show "((buf, p', c', g'), (buf, p, c, g)) \<in> measure (\<lambda>(buf, p, c, g). total p - (pcount p False + pcount p True))"
    using Classify_counts [OF a(2)] a(1) by (cases g') (auto simp: keep_choosing_def)
qed

declare choose_loop.simps [simp del]

fun fill_rest :: "RTREEBRANCH list \<Rightarrow> bool \<Rightarrow> nat list \<Rightarrow> RTREEPARTITION \<Rightarrow> RTREEPARTITION option" where
  "fill_rest buf grp [] p = Some p"
| "fill_rest buf grp (i # is) p =
     (if taken p i then fill_rest buf grp is p
      else (case RTreeClassify buf i grp p of
              None \<Rightarrow> None
            | Some p' \<Rightarrow> fill_rest buf grp is p'))"

definition finish_partition :: "RTREEBRANCH list \<Rightarrow> RTREEPARTITION \<Rightarrow> RTREEPARTITION option" where
  "finish_partition buf p =
     (if pcount p False + pcount p True < total p
      then fill_rest buf (pcount p False \<ge> total p - minfill p) [0..<total p] p
      else Some p)"

definition RTreeMethodZero :: "RTREEBRANCH list \<Rightarrow> real \<Rightarrow> nat \<Rightarrow> RTREEPARTITION option" where
  "RTreeMethodZero buf CoverSplitArea mf =
     (case RTreePickSeeds buf CoverSplitArea (RTreeInitPart (length buf) mf) of
        None \<Rightarrow> None
      | Some p1 \<Rightarrow> (case choose_loop buf p1 0 False of
          None \<Rightarrow> None
        | Some p2 \<Rightarrow> (case finish_partition buf p2 of
            None \<Rightarrow> None
          | Some p \<Rightarrow>
              if pcount p False + pcount p True = total p \<and>
                 pcount p False \<ge> minfill p \<and> pcount p True \<ge> minfill p
              then Some p else None)))"

section \<open>Adding a branch\<close>

text \<open>The part of \<open>RTreeAddBranch\<close> for a node that is not full.\<close>

definition put_branch :: "RTREEBRANCH \<Rightarrow> RTREENODE \<Rightarrow> RTREENODE" where
  "put_branch br n =
     (case find_index (\<lambda>b. snd b = NULL) (take (MAXKIDS n) (branch n)) of
        None \<Rightarrow> n
      | Some i \<Rightarrow> Node (ncount n + 1) (nlevel n) ((branch n)[i := br]))"

text \<open>\<open>RTreeAddBranch\<close> with a null \<open>new_node\<close>: a full node fails the assertion.\<close>

definition RTreeAddBranch_NULL :: "RTREEBRANCH \<Rightarrow> RTREENODE \<Rightarrow> RTREENODE option" where
  "RTreeAddBranch_NULL br n = (if ncount n < MAXKIDS n then Some (put_branch br n) else None)"

fun RTreeLoadNodes :: "RTREEBRANCH list \<Rightarrow> RTREEPARTITION \<Rightarrow> nat list \<Rightarrow> RTREENODE \<Rightarrow> RTREENODE \<Rightarrow>
    (RTREENODE \<times> RTREENODE) option" where
  "RTreeLoadNodes buf p [] n q = Some (n, q)"
| "RTreeLoadNodes buf p (i # is) n q =
     (if partition p i = 0
      then (case RTreeAddBranch_NULL (buf ! i) n of
              None \<Rightarrow> None | Some n' \<Rightarrow> RTreeLoadNodes buf p is n' q)
      else if partition p i = 1
      then (case RTreeAddBranch_NULL (buf ! i) q of
              None \<Rightarrow> None | Some q' \<Rightarrow> RTreeLoadNodes buf p is n q')
      else None)"

text \<open>\<open>RTreeSplitNode\<close>: the old node and the new one.\<close>

definition RTreeSplitNode :: "RTREENODE \<Rightarrow> RTREEBRANCH \<Rightarrow> (RTREENODE \<times> RTREENODE) option" where
  "RTreeSplitNode n br =
     (case RTreeGetBranches n br of
        None \<Rightarrow> None
      | Some (buf, CoverSplitArea) \<Rightarrow>
          (case RTreeMethodZero buf CoverSplitArea (if nlevel n > 0 then MINNODEFILL else MINLEAFFILL) of
             None \<Rightarrow> None
           | Some p \<Rightarrow>
               let fresh = Node 0 (nlevel n) (branch RTreeInitNode)
               in (case RTreeLoadNodes buf p [0..<total p] fresh fresh of
                     None \<Rightarrow> None
                   | Some (n', q) \<Rightarrow>
                       if ncount n' + ncount q = total p then Some (n', q) else None)))"

text \<open>The second component is the new node when the node was split (result 1).\<close>

definition RTreeAddBranch :: "RTREEBRANCH \<Rightarrow> RTREENODE \<Rightarrow> (RTREENODE \<times> RTREENODE option) option" where
  "RTreeAddBranch br n =
     (if ncount n < MAXKIDS n then Some (put_branch br n, None)
      else map_option (\<lambda>(n', q). (n', Some q)) (RTreeSplitNode n br))"


section \<open>Shape of a node\<close>

abbreviation live :: "RTREENODE \<Rightarrow> RTREEBRANCH list" where
  "live n \<equiv> filter used (branch n)"

definition node_shape :: "RTREENODE \<Rightarrow> bool" where
  "node_shape n \<longleftrightarrow> length (branch n) = MAXCARD \<and> ncount n = length (live n)"

lemmas card_defs = MAXCARD_def NODECARD_def LEAFCARD_def MINNODEFILL_def MINLEAFFILL_def

lemma MAXKIDS_12: "MAXKIDS n = 12" and MAXCARD_12: "MAXCARD = 12"
  and MINFILL_6: "MINNODEFILL = 6" "MINLEAFFILL = 6"
  by (simp_all add: MAXKIDS_def card_defs)

lemma filter_replicate_none [simp]: "\<not> P x \<Longrightarrow> filter P (replicate k x) = []"
  by (induction k) simp_all

lemma fresh_shape: "node_shape (Node 0 l (branch RTreeInitNode))"
  and fresh_live: "live (Node 0 l (branch RTreeInitNode)) = []"
  by (simp_all add: node_shape_def RTreeInitNode_def RTreeInitBranch_def)

lemma filter_all_length: "length (filter P xs) = length xs \<longleftrightarrow> (\<forall>x\<in>set xs. P x)"
proof (induction xs)
  case (Cons x xs)
  have "length (filter P xs) \<noteq> Suc (length xs)" using length_filter_le [of P xs] by linarith
  with Cons show ?case by simp
qed simp

lemma mset_filter_update:
  assumes "i < length xs" "\<not> P (xs ! i)" "P x"
  shows "mset (filter P (xs[i := x])) = add_mset x (mset (filter P xs))"
  using assms
proof (induction xs arbitrary: i)
  case (Cons y ys)
  then show ?case by (cases i) auto
qed simp

lemma mset_filter_update_del:
  assumes "i < length xs" "P (xs ! i)" "\<not> P x"
  shows "mset (filter P xs) = add_mset (xs ! i) (mset (filter P (xs[i := x])))"
  using assms
proof (induction xs arbitrary: i)
  case (Cons y ys)
  then show ?case by (cases i) auto
qed simp

lemma put_branch_spec:
  assumes "node_shape n" "ncount n < MAXCARD" "used br"
  shows "node_shape (put_branch br n)" "mset (live (put_branch br n)) = add_mset br (mset (live n))"
    "nlevel (put_branch br n) = nlevel n" "ncount (put_branch br n) = Suc (ncount n)"
proof -
  have len: "length (branch n) = 12" "ncount n = length (live n)"
    using assms(1) by (simp_all add: node_shape_def MAXCARD_12)
  have "find_index (\<lambda>b. snd b = NULL) (branch n) \<noteq> None"
  proof
    assume "find_index (\<lambda>b. snd b = NULL) (branch n) = None"
    then have "\<forall>b\<in>set (branch n). used b" by (simp add: find_index_None)
    then have "length (live n) = length (branch n)" by (simp add: filter_all_length)
    then show False using assms(2) len by (simp add: MAXCARD_12)
  qed
  then obtain i where i: "find_index (\<lambda>b. snd b = NULL) (branch n) = Some i" by blast
  have ib: "i < length (branch n)" "\<not> used (branch n ! i)" using find_index_Some [OF i] by simp_all
  have eq: "put_branch br n = Node (ncount n + 1) (nlevel n) ((branch n)[i := br])"
    using i len(1) by (simp add: put_branch_def MAXKIDS_12)
  show m: "mset (live (put_branch br n)) = add_mset br (mset (live n))"
    unfolding eq using mset_filter_update [of i "branch n" used br] ib assms(3) by simp
  show "nlevel (put_branch br n) = nlevel n" "ncount (put_branch br n) = Suc (ncount n)"
    by (simp_all add: eq)
  have "length (live (put_branch br n)) = Suc (length (live n))" using mset_eq_length [of "live (put_branch br n)" "br # live n"] m by simp
  then show "node_shape (put_branch br n)" using len by (simp add: node_shape_def eq MAXCARD_12)
qed

section \<open>The partition\<close>

text \<open>The counts of a partition are the sizes of its groups.\<close>

definition in_group :: "RTREEPARTITION \<Rightarrow> bool \<Rightarrow> nat set" where
  "in_group p g = {i. i < total p \<and> taken p i \<and> partition p i = of_bool g}"

definition part_inv :: "RTREEPARTITION \<Rightarrow> bool" where
  "part_inv p \<longleftrightarrow> (\<forall>g. pcount p g = card (in_group p g)) \<and>
     (\<forall>i<total p. taken p i \<longrightarrow> partition p i = 0 \<or> partition p i = 1)"

definition free :: "RTREEPARTITION \<Rightarrow> nat set" where
  "free p = {i. i < total p \<and> \<not> taken p i}"

lemma finite_groups [simp]: "finite (in_group p g)" "finite (free p)"
  by (simp_all add: in_group_def free_def)

lemma part_inv_total:
  assumes "part_inv p"
  shows "pcount p False + pcount p True + card (free p) = total p"
proof -
  have "in_group p False \<union> in_group p True \<union> free p = {..<total p}"
    using assms by (auto simp: in_group_def free_def part_inv_def)
  moreover have "in_group p False \<inter> in_group p True = {}"
    "(in_group p False \<union> in_group p True) \<inter> free p = {}"
    by (auto simp: in_group_def free_def)
  ultimately show ?thesis
    using assms card_Un_disjoint [of "in_group p False" "in_group p True"]
      card_Un_disjoint [of "in_group p False \<union> in_group p True" "free p"]
    by (simp add: part_inv_def)
qed

lemma InitPart_inv: "part_inv (RTreeInitPart t m)"
  by (simp add: part_inv_def in_group_def RTreeInitPart_def)

lemma Classify_spec:
  assumes "part_inv p" "i \<in> free p"
  obtains p' where "RTreeClassify buf i g p = Some p'" "part_inv p'" "free p' = free p - {i}"
    "total p' = total p" "minfill p' = minfill p" "pcount p' = (pcount p)(g := Suc (pcount p g))"
proof -
  have i: "i < total p" "\<not> taken p i" using assms(2) by (simp_all add: free_def)
  then obtain p' where p': "RTreeClassify buf i g p = Some p'" by (simp add: RTreeClassify_def Let_def)
  have t: "total p' = total p" "taken p' = (taken p)(i := True)"
    "partition p' = (partition p)(i := of_bool g)"
    using p' i(2) by (auto simp: RTreeClassify_def Let_def)
  have "in_group p' g = insert i (in_group p g)" "i \<notin> in_group p g"
    "in_group p' (\<not> g) = in_group p (\<not> g)"
    using i by (auto simp: in_group_def t)
  then have "pcount p' h = card (in_group p' h)" for h
    using assms(1) Classify_counts [OF p'] by (cases "h = g") (auto simp: part_inv_def)
  moreover have "partition p' j = 0 \<or> partition p' j = 1" if "j < total p'" "taken p' j" for j
    using assms(1) that by (auto simp: t part_inv_def)
  ultimately have "part_inv p'" by (simp add: part_inv_def)
  moreover have "free p' = free p - {i}" by (auto simp: free_def t)
  ultimately show thesis using that p' Classify_counts [OF p'] by blast
qed

section \<open>Seeds\<close>

lemma seed_pairs_ordered: "(i, j) \<in> set (seed_pairs t) \<Longrightarrow> i < j \<and> j < t"
  by (auto simp: seed_pairs_def)

lemma seed_fold:
  assumes "\<forall>(i, j)\<in>set ps. i < j \<and> j < t"
    and "s0 < s1 \<and> s1 < t \<or> (\<exists>(i, j)\<in>set ps. seed_waste buf i j > w)"
  shows "\<exists>w' a b. fold (seed_step buf) ps (w, s0, s1) = (w', a, b) \<and> a < b \<and> b < t"
  using assms
proof (induction ps arbitrary: w s0 s1)
  case Nil
  then show ?case by simp
next
  case (Cons ij ps)
  obtain i j where ij: "ij = (i, j)" by (cases ij)
  have lt: "i < j" "j < t" "\<forall>(i, j)\<in>set ps. i < j \<and> j < t" using Cons.prems(1) ij by auto
  show ?case
  proof (cases "seed_waste buf i j > w")
    case True
    then show ?thesis using Cons.IH [OF lt(3), of i j "seed_waste buf i j"] lt(1,2)
      by (simp add: ij seed_step_def)
  next
    case False
    then have "s0 < s1 \<and> s1 < t \<or> (\<exists>(i, j)\<in>set ps. seed_waste buf i j > w)"
      using Cons.prems(2) ij by auto
    then show ?thesis using False Cons.IH [OF lt(3), of s0 s1 w] by (simp add: ij seed_step_def)
  qed
qed

lemma seeds_distinct:
  assumes "2 \<le> t" "seed_waste buf 0 1 > w"
  shows "\<exists>w' a b. fold (seed_step buf) (seed_pairs t) (w, s0, s1) = (w', a, b) \<and> a < b \<and> b < t"
proof (rule seed_fold)
  show "\<forall>(i, j)\<in>set (seed_pairs t). i < j \<and> j < t" using seed_pairs_ordered by blast
  have "(0, 1) \<in> set (seed_pairs t)" using assms(1) by (auto simp: seed_pairs_def image_iff)
  then show "s0 < s1 \<and> s1 < t \<or> (\<exists>(i, j)\<in>set (seed_pairs t). w < seed_waste buf i j)"
    using assms(2) by blast
qed

text \<open>The waste of a pair is never below minus the sphere of a cover of both, which exceeds
  the starting value of \<open>worst\<close> as long as the sphere is below \<open>2 ^ 53\<close>.\<close>

lemma seed_waste_lower:
  assumes "proper r" "proper s" "mbr_le r c" "mbr_le s c"
  shows "- RTreeRectSphericalVolume c
    \<le> fl (fl (RTreeRectSphericalVolume (RTreeCombineRect r s) - RTreeRectSphericalVolume r)
           - RTreeRectSphericalVolume s)"
proof -
  let ?V = RTreeRectSphericalVolume
  have "?V r \<le> ?V (RTreeCombineRect r s)" by (intro SphericalVolume_mono Combine_le assms)
  then have "0 \<le> fl (?V (RTreeCombineRect r s) - ?V r)" by (simp add: fl_nonneg)
  then have "fl (- ?V s) \<le> fl (fl (?V (RTreeCombineRect r s) - ?V r) - ?V s)" by (intro fl_mono) simp
  then have "- ?V s \<le> fl (fl (?V (RTreeCombineRect r s) - ?V r) - ?V s)"
    by (simp add: fl_minus SphericalVolume_fl)
  moreover have "?V s \<le> ?V c" by (intro SphericalVolume_mono assms)
  ultimately show ?thesis by linarith
qed

lemma worst_below:
  assumes "0 \<le> (v::real)" "v \<le> 4503599627370496"
  shows "fl (- v - 1) < - v"
proof -
  have "\<bar>- v - 1\<bar> / 9007199254740992 < 1" using assms by simp
  then have "\<bar>fl (- v - 1) - (- v - 1)\<bar> < 1" using fl_near [of "- v - 1"] by linarith
  then show ?thesis unfolding abs_less_iff by linarith
qed

section \<open>Rounds of the partition\<close>

lemma choose_fold:
  assumes "\<forall>i\<in>set is. i < total p"
    and "(bd = -1 \<and> (\<exists>i\<in>set is. \<not> taken p i)) \<or> ch \<in> free p"
  shows "fst (snd (fold (choose_step buf p) is (bd, ch, bg))) \<in> free p"
  using assms
proof (induction "is" arbitrary: bd ch bg)
  case Nil
  then show ?case by simp
next
  case (Cons i "is")
  obtain bd' ch' bg' where st: "choose_step buf p i (bd, ch, bg) = (bd', ch', bg')"
    by (cases "choose_step buf p i (bd, ch, bg)")
  have "(bd' = -1 \<and> (\<exists>i\<in>set is. \<not> taken p i)) \<or> ch' \<in> free p"
  proof (cases "taken p i")
    case True
    then show ?thesis using st Cons.prems by (auto simp: choose_step_def)
  next
    case False
    then have "i \<in> free p" using Cons.prems(1) by (simp add: free_def)
    then show ?thesis
      using st False Cons.prems(2) by (auto simp: choose_step_def Let_def split: if_splits)
  qed
  then show ?case using Cons.IH [of bd' ch' bg'] Cons.prems(1) st by simp
qed

lemma choose_next_free:
  assumes "free p \<noteq> {}"
  shows "fst (choose_next buf p ch bg) \<in> free p"
  unfolding choose_next_def using assms by (intro choose_fold) (auto simp: free_def)

text \<open>The result of the rounds: no assertion fails, and a group is filled up to what the
  other one needs, or all branches are placed.\<close>

lemma choose_loop_spec:
  assumes "part_inv p" "pcount p False \<le> total p - minfill p" "pcount p True \<le> total p - minfill p"
  shows "\<exists>p'. choose_loop buf p c g = Some p' \<and> part_inv p' \<and> \<not> keep_choosing p' \<and>
     total p' = total p \<and> minfill p' = minfill p \<and>
     pcount p' False \<le> total p - minfill p \<and> pcount p' True \<le> total p - minfill p"
  using assms
proof (induction buf p c g rule: choose_loop.induct)
  case (1 buf p c g)
  show ?case
  proof (cases "keep_choosing p")
    case False
    then show ?thesis using 1(2-) by (simp add: choose_loop.simps [of buf p])
  next
    case True
    obtain c' g' where cg: "choose_next buf p c g = (c', g')" by (cases "choose_next buf p c g")
    have "free p \<noteq> {}" using True part_inv_total [OF 1(2)] by (auto simp: keep_choosing_def)
    then have "c' \<in> free p" using choose_next_free [of p buf c g] cg by simp
    then obtain p' where p': "RTreeClassify buf c' g' p = Some p'" "part_inv p'"
      "total p' = total p" "minfill p' = minfill p" "pcount p' = (pcount p)(g' := Suc (pcount p g'))"
      using Classify_spec [OF 1(2)] by metis
    have "pcount p' False \<le> total p' - minfill p'" "pcount p' True \<le> total p' - minfill p'"
      using True 1(3,4) p'(3-5) by (cases g'; simp add: keep_choosing_def)+
    then show ?thesis
      using 1(1) [OF True cg [symmetric] p'(1,2)] True cg p'(1,3,4)
      by (simp add: choose_loop.simps [of buf p])
  qed
qed

lemma fill_rest_spec:
  assumes "part_inv p" "\<forall>i\<in>set is. i < total p"
  shows "\<exists>p'. fill_rest buf g is p = Some p' \<and> part_inv p' \<and> total p' = total p \<and>
     minfill p' = minfill p \<and> free p' = free p - set is \<and> pcount p' (\<not> g) = pcount p (\<not> g)"
  using assms
proof (induction "is" arbitrary: p)
  case Nil
  then show ?case by simp
next
  case (Cons i "is")
  show ?case
  proof (cases "taken p i")
    case True
    then show ?thesis using Cons.IH [of p] Cons.prems by (auto simp: free_def)
  next
    case False
    then have "i \<in> free p" using Cons.prems(2) by (simp add: free_def)
    then obtain p' where p': "RTreeClassify buf i g p = Some p'" "part_inv p'" "free p' = free p - {i}"
      "total p' = total p" "minfill p' = minfill p" "pcount p' = (pcount p)(g := Suc (pcount p g))"
      using Classify_spec [OF Cons.prems(1)] by metis
    then show ?thesis using False Cons.IH [of p'] Cons.prems(2) by auto
  qed
qed


section \<open>The partition ends with fills 6 and 7\<close>

lemma MethodZero_spec:
  assumes "length buf = MAXCARD + 1" "fl (- v - 1) < seed_waste buf 0 1"
  shows "\<exists>p. RTreeMethodZero buf v MINNODEFILL = Some p \<and> part_inv p \<and> free p = {} \<and>
     total p = MAXCARD + 1 \<and> pcount p False + pcount p True = MAXCARD + 1 \<and>
     pcount p False \<ge> MINNODEFILL \<and> pcount p True \<ge> MINNODEFILL"
proof -
  define p0 where "p0 = RTreeInitPart 13 6"
  have p0: "part_inv p0" "total p0 = 13" "minfill p0 = 6" "free p0 = {..<13}" "pcount p0 = (\<lambda>_. 0)"
    unfolding p0_def using InitPart_inv by (auto simp: RTreeInitPart_def free_def)
  obtain w a b where ab: "fold (seed_step buf) (seed_pairs 13) (fl (- v - 1), 0, 0) = (w, a, b)" "a < b" "b < 13"
    using seeds_distinct [of 13 "fl (- v - 1)" buf 0 0] assms(2) by auto
  have "a \<in> free p0" using ab p0(4) by simp
  then obtain p1 where p1: "RTreeClassify buf a False p0 = Some p1" "part_inv p1" "free p1 = free p0 - {a}"
    "total p1 = 13" "minfill p1 = 6" "pcount p1 = (pcount p0)(False := 1)"
    using Classify_spec [OF p0(1), of a buf False] p0 by (metis One_nat_def)
  have "b \<in> free p1" using ab p0(4) p1(3) by simp
  then obtain p2 where p2: "RTreeClassify buf b True p1 = Some p2" "part_inv p2"
    "total p2 = 13" "minfill p2 = 6" "pcount p2 = (pcount p1)(True := Suc (pcount p1 True))"
    using Classify_spec [OF p1(2), of b buf True] p1(4,5) by metis
  have seeds: "RTreePickSeeds buf v p0 = Some p2"
    using p1(1) p2(1) by (simp add: RTreePickSeeds_def p0 ab(1))
  have "pcount p2 False \<le> total p2 - minfill p2" "pcount p2 True \<le> total p2 - minfill p2"
    by (simp_all add: p2 p1(6) p0(5))
  then obtain p3 where p3: "choose_loop buf p2 0 False = Some p3" "part_inv p3" "\<not> keep_choosing p3"
    "total p3 = 13" "minfill p3 = 6" "pcount p3 False \<le> 7" "pcount p3 True \<le> 7"
    using choose_loop_spec [OF p2(2), of buf 0 False] p2(3,4) by auto
  note t3 = part_inv_total [OF p3(2)]
  obtain p4 where p4: "finish_partition buf p3 = Some p4" "part_inv p4" "total p4 = 13" "minfill p4 = 6"
    "free p4 = {}" "pcount p4 False \<ge> 6 \<and> pcount p4 True \<ge> 6"
  proof (cases "free p3 = {}")
    case True
    then have "pcount p3 False + pcount p3 True = 13" using t3 p3(4) by simp
    then show thesis using that [of p3] True p3 by (simp add: finish_partition_def)
  next
    case False
    then have "0 < card (free p3)" by (simp add: card_gt_0_iff)
    then have lt: "pcount p3 False + pcount p3 True < 13" using t3 p3(4) by simp
    define g where "g = (7 \<le> pcount p3 False)"
    have ix: "\<forall>i\<in>set [0..<total p3]. i < total p3" by simp
    obtain p4 where p4: "fill_rest buf g [0..<total p3] p3 = Some p4" "part_inv p4" "total p4 = total p3"
      "minfill p4 = minfill p3" "free p4 = free p3 - set [0..<total p3]" "pcount p4 (\<not> g) = pcount p3 (\<not> g)"
      using fill_rest_spec [OF p3(2) ix, of buf g] by blast
    have e: "free p4 = {}" unfolding p4(5) by (auto simp: free_def)
    note p4 = p4(1,2) p4(3,4) [unfolded p3(4,5)] p4(5,6)
    have full: "pcount p3 (\<not> g) = 7"
      using p3(3-7) lt by (cases g) (auto simp: keep_choosing_def g_def)
    have "pcount p4 False + pcount p4 True = 13" using part_inv_total [OF p4(2)] e p4(3) by simp
    then have "pcount p4 False \<ge> 6 \<and> pcount p4 True \<ge> 6" using p4(6) full by (cases g) simp_all
    moreover have "finish_partition buf p3 = Some p4"
      using lt p4(1) unfolding finish_partition_def g_def p3(4,5) by simp
    ultimately show thesis using that p4 e by blast
  qed
  have "pcount p4 False + pcount p4 True = 13" using part_inv_total [OF p4(2)] p4(3,5) by simp
  then have "RTreeMethodZero buf v 6 = Some p4"
    using p4(3,4,6) assms(1)
    by (simp add: RTreeMethodZero_def MAXCARD_12 p0_def [symmetric] seeds p3(1) p4(1))
  then show ?thesis
    using p4 \<open>pcount p4 False + pcount p4 True = 13\<close> by (simp add: MAXCARD_12 MINFILL_6)
qed

section \<open>Loading the two nodes\<close>

lemma LoadNodes_spec:
  assumes "node_shape n" "node_shape q" "\<forall>i\<in>set is. used (buf ! i) \<and> (partition p i = 0 \<or> partition p i = 1)"
    and "ncount n + length (filter (\<lambda>i. partition p i = 0) is) \<le> MAXCARD"
    and "ncount q + length (filter (\<lambda>i. partition p i = 1) is) \<le> MAXCARD"
  shows "\<exists>n' q'. RTreeLoadNodes buf p is n q = Some (n', q') \<and> node_shape n' \<and> node_shape q' \<and>
     nlevel n' = nlevel n \<and> nlevel q' = nlevel q \<and>
     ncount n' = ncount n + length (filter (\<lambda>i. partition p i = 0) is) \<and>
     ncount q' = ncount q + length (filter (\<lambda>i. partition p i = 1) is) \<and>
     mset (live n') + mset (live q') = mset (live n) + mset (live q) + mset (map ((!) buf) is)"
  using assms
proof (induction "is" arbitrary: n q)
  case Nil
  then show ?case by simp
next
  case (Cons i "is")
  have u: "used (buf ! i)" using Cons.prems(3) by simp
  show ?case
  proof (cases "partition p i = 0")
    case True
    then have c: "ncount n < MAXCARD" using Cons.prems(4) by simp
    note put = put_branch_spec [OF Cons.prems(1) c u]
    have "RTreeAddBranch_NULL (buf ! i) n = Some (put_branch (buf ! i) n)"
      using c by (simp add: RTreeAddBranch_NULL_def MAXKIDS_12 MAXCARD_12)
    then show ?thesis
      using Cons.IH [of "put_branch (buf ! i) n" q] Cons.prems put True by auto
  next
    case False
    then have one: "partition p i = 1" using Cons.prems(3) by simp
    then have c: "ncount q < MAXCARD" using Cons.prems(5) by simp
    note put = put_branch_spec [OF Cons.prems(2) c u]
    have "RTreeAddBranch_NULL (buf ! i) q = Some (put_branch (buf ! i) q)"
      using c by (simp add: RTreeAddBranch_NULL_def MAXKIDS_12 MAXCARD_12)
    then show ?thesis
      using Cons.IH [of n "put_branch (buf ! i) q"] Cons.prems put one by auto
  qed
qed

lemma in_group_length:
  assumes "part_inv p" "free p = {}"
  shows "length (filter (\<lambda>i. partition p i = of_bool g) [0..<total p]) = pcount p g"
proof -
  have "in_group p g = set (filter (\<lambda>i. partition p i = of_bool g) [0..<total p])"
    using assms(2) by (auto simp: in_group_def free_def)
  then have "card (in_group p g) = length (filter (\<lambda>i. partition p i = of_bool g) [0..<total p])"
    by (simp only: distinct_card distinct_filter distinct_upt)
  then show ?thesis using assms(1) by (simp add: part_inv_def)
qed


section \<open>Covers\<close>

abbreviation big_mbr :: RTREEMBR where
  "big_mbr \<equiv> MBR (-16777216) (-16777216) 16777216 16777216"

lemma small_proper: "small_mbr r \<Longrightarrow> proper r"
  by (simp add: small_mbr_def)

lemma small_Combine: "small_mbr r \<Longrightarrow> small_mbr s \<Longrightarrow> small_mbr (RTreeCombineRect r s)"
  by (simp add: small_mbr_def Combine_proper Combine_least)

lemma fold_cover:
  assumes "small_mbr c" "\<forall>b\<in>set bs. small_mbr (fst b)"
  defines "d \<equiv> fold (\<lambda>b c. RTreeCombineRect c (fst b)) bs c"
  shows "small_mbr d \<and> mbr_le c d \<and> (\<forall>b\<in>set bs. mbr_le (fst b) d)"
  using assms(1,2) unfolding d_def
proof (induction bs arbitrary: c)
  case Nil
  then show ?case by simp
next
  case (Cons b bs)
  let ?e = "RTreeCombineRect c (fst b)"
  let ?d = "fold (\<lambda>b c. RTreeCombineRect c (fst b)) bs ?e"
  have p: "proper c" "proper (fst b)" using Cons.prems by (simp_all add: small_proper)
  have IH: "small_mbr ?d \<and> mbr_le ?e ?d \<and> (\<forall>b\<in>set bs. mbr_le (fst b) ?d)"
    using Cons.IH [of ?e] Cons.prems by (simp add: small_Combine)
  have "mbr_le c ?d" "mbr_le (fst b) ?d" using IH Combine_le [OF p] mbr_le_trans by blast+
  then show ?case using IH by simp
qed

text \<open>What the callers keep of every node: the rectangles of the used branches are small.\<close>

definition node_small :: "RTREENODE \<Rightarrow> bool" where
  "node_small n \<longleftrightarrow> (\<forall>b\<in>set (live n). small_mbr (fst b))"

lemma GetBranches_spec:
  assumes "node_shape n" "ncount n = MAXCARD" "node_small n" "small_mbr (fst br)"
  obtains v where "RTreeGetBranches n br = Some (branch n @ [br], v)" "live n = branch n"
    "fl (- v - 1) < seed_waste (branch n @ [br]) 0 1"
proof -
  have len: "length (branch n) = 12" "length (live n) = length (branch n)"
    using assms(1,2) by (simp_all add: node_shape_def MAXCARD_12)
  from len(2) have all: "\<forall>b\<in>set (branch n). used b" by (simp only: filter_all_length)
  then have lv: "live n = branch n" by simp
  define buf where "buf = branch n @ [br]"
  define c where "c = fold (\<lambda>b c. RTreeCombineRect c (fst b)) (tl buf) (fst (hd buf))"
  have buf: "length buf = 13" by (simp add: buf_def len)
  have sm: "\<forall>b\<in>set buf. small_mbr (fst b)"
    using assms(3,4) by (simp add: buf_def node_small_def lv)
  have mem: "buf ! 0 \<in> set buf" "buf ! 1 \<in> set buf" using buf by simp_all
  have hd: "hd buf = buf ! 0" "buf ! 1 \<in> set (tl buf)"
    using buf by (cases buf; simp)+
  have "set (tl buf) \<subseteq> set buf" by (cases buf) auto
  then have cov: "small_mbr c \<and> mbr_le (fst (hd buf)) c \<and> (\<forall>b\<in>set (tl buf). mbr_le (fst b) c)"
    unfolding c_def using sm mem(1) hd(1) by (intro fold_cover) auto
  have lo: "- RTreeRectSphericalVolume c \<le> seed_waste buf 0 1"
    unfolding seed_waste_def using sm mem cov hd
    by (intro seed_waste_lower) (auto simp: small_proper)
  have "fl (- RTreeRectSphericalVolume c - 1) < - RTreeRectSphericalVolume c"
    using SphericalVolume_small [of c] cov by (intro worst_below SphericalVolume_nonneg) simp
  then have "fl (- RTreeRectSphericalVolume c - 1) < seed_waste (branch n @ [br]) 0 1"
    using lo unfolding buf_def by linarith
  moreover have "RTreeGetBranches n br = Some (branch n @ [br], RTreeRectSphericalVolume c)"
    using all len by (simp add: RTreeGetBranches_def MAXKIDS_12 list_all_iff c_def buf_def Let_def)
  ultimately show thesis using that lv by blast
qed

lemma SplitNode_spec:
  assumes "node_shape n" "ncount n = MAXCARD" "node_small n" "small_mbr (fst br)" "used br"
  shows "\<exists>n' q. RTreeSplitNode n br = Some (n', q) \<and> node_shape n' \<and> node_shape q \<and>
     nlevel n' = nlevel n \<and> nlevel q = nlevel n \<and> MINNODEFILL \<le> ncount n' \<and> MINNODEFILL \<le> ncount q \<and>
     mset (live n') + mset (live q) = add_mset br (mset (live n))"
proof -
  obtain v where v: "RTreeGetBranches n br = Some (branch n @ [br], v)" "live n = branch n"
    "fl (- v - 1) < seed_waste (branch n @ [br]) 0 1"
    using GetBranches_spec [OF assms(1-4)] .
  define buf where "buf = branch n @ [br]"
  have len: "length buf = MAXCARD + 1" using assms(1) by (simp add: buf_def node_shape_def)
  obtain p where p: "RTreeMethodZero buf v MINNODEFILL = Some p" "part_inv p" "free p = {}"
    "total p = MAXCARD + 1" "pcount p False + pcount p True = MAXCARD + 1"
    "pcount p False \<ge> MINNODEFILL" "pcount p True \<ge> MINNODEFILL"
    using MethodZero_spec [OF len] v(3) buf_def by blast
  define f where "f = Node 0 (nlevel n) (branch RTreeInitNode)"
  have f: "node_shape f" "live f = []" "ncount f = 0" "nlevel f = nlevel n"
    using fresh_shape fresh_live by (simp_all add: f_def)
  have cnt: "length (filter (\<lambda>i. partition p i = 0) [0..<total p]) = pcount p False"
    "length (filter (\<lambda>i. partition p i = 1) [0..<total p]) = pcount p True"
    using in_group_length [OF p(2,3), of False] in_group_length [OF p(2,3), of True] by simp_all
  have "\<forall>b\<in>set (live n). used b" by simp
  then have ub: "\<forall>b\<in>set buf. used b" using assms(5) unfolding buf_def v(2) by simp
  have "\<forall>i\<in>set [0..<total p]. used (buf ! i) \<and> (partition p i = 0 \<or> partition p i = 1)"
  proof
    fix i assume "i \<in> set [0..<total p]"
    then have i: "i < total p" by simp
    then have "taken p i" using p(3) by (auto simp: free_def)
    then show "used (buf ! i) \<and> (partition p i = 0 \<or> partition p i = 1)"
      using i p(2,4) ub len by (simp add: part_inv_def)
  qed
  moreover have "ncount f + pcount p False \<le> MAXCARD" "ncount f + pcount p True \<le> MAXCARD"
    using p(5-7) f(3) by (simp_all add: MAXCARD_12 MINFILL_6)
  ultimately obtain n' q where nq: "RTreeLoadNodes buf p [0..<total p] f f = Some (n', q)"
    "node_shape n'" "node_shape q" "nlevel n' = nlevel n" "nlevel q = nlevel n"
    "ncount n' = pcount p False" "ncount q = pcount p True"
    "mset (live n') + mset (live q) = mset (map ((!) buf) [0..<total p])"
    using LoadNodes_spec [OF f(1) f(1), of "[0..<total p]" buf p] f cnt by auto
  have "map ((!) buf) [0..<total p] = buf" using p(4) len by (metis map_nth)
  then have "mset (live n') + mset (live q) = add_mset br (mset (live n))"
    using nq(8) v(2) by (simp add: buf_def)
  moreover have "RTreeSplitNode n br = Some (n', q)"
    using v(1) p(1,4,5) nq(1,6,7) unfolding RTreeSplitNode_def f_def buf_def
    by (simp add: MINFILL_6)
  ultimately show ?thesis using nq p(6,7) by auto
qed

lemma AddBranch_spec:
  assumes "node_shape n" "node_small n" "small_mbr (fst br)" "used br"
  shows "\<exists>n' q. RTreeAddBranch br n = Some (n', q) \<and> node_shape n' \<and> nlevel n' = nlevel n \<and>
     (case q of
        None \<Rightarrow> ncount n' = Suc (ncount n) \<and> mset (live n') = add_mset br (mset (live n))
      | Some m \<Rightarrow> node_shape m \<and> nlevel m = nlevel n \<and> MINNODEFILL \<le> ncount n' \<and> MINNODEFILL \<le> ncount m \<and>
          mset (live n') + mset (live m) = add_mset br (mset (live n)))"
proof (cases "ncount n < MAXCARD")
  case True
  then show ?thesis using put_branch_spec [OF assms(1) _ assms(4)]
    by (simp add: RTreeAddBranch_def MAXKIDS_12 MAXCARD_12)
next
  case False
  have "ncount n \<le> MAXCARD" using assms(1) by (metis length_filter_le node_shape_def)
  with False have "ncount n = MAXCARD" by simp
  from SplitNode_spec [OF assms(1) this assms(2-4)] show ?thesis
    using False by (auto simp: RTreeAddBranch_def MAXKIDS_12 MAXCARD_12)
qed

section \<open>Covering a node and choosing a branch\<close>

lemma fold_cover_least:
  assumes "mbr_le c r" "\<forall>b\<in>set bs. mbr_le (fst b) r"
  shows "mbr_le (fold (\<lambda>b c. RTreeCombineRect c (fst b)) bs c) r"
  using assms by (induction bs arbitrary: c) (simp_all add: Combine_least)

lemma NodeCover_fold:
  assumes "node_shape n" "0 < ncount n"
  obtains b bs where "live n = b # bs"
    "RTreeNodeCover n = fold (\<lambda>b c. RTreeCombineRect c (fst b)) bs (fst b)"
proof -
  let ?f = "\<lambda>b (first_time, mbr). if used b
     then (if first_time then (False, fst b) else (False, RTreeCombineRect mbr (fst b)))
     else (first_time, mbr)"
  have skip: "fold ?f bs st = fold ?f (filter used bs) st" for bs st
    by (induction bs arbitrary: st) auto
  have later: "fold ?f bs (False, c) = (False, fold (\<lambda>b c. RTreeCombineRect c (fst b)) bs c)"
    if "\<forall>b\<in>set bs. used b" for bs c using that by (induction bs arbitrary: c) auto
  obtain b bs where l: "live n = b # bs" using assms by (cases "live n") (auto simp: node_shape_def)
  have u: "used b" "\<forall>b\<in>set bs. used b" using filter_set [of used "branch n"] unfolding l by auto
  have "length (branch n) = 12" using assms(1) by (simp add: node_shape_def MAXCARD_12)
  then have "RTreeNodeCover n = snd (fold ?f (b # bs) (True, RTreeInitRect))"
    unfolding RTreeNodeCover_def using skip [of "branch n"] by (simp add: MAXKIDS_12 l)
  then have "RTreeNodeCover n = fold (\<lambda>b c. RTreeCombineRect c (fst b)) bs (fst b)"
    using u later by simp
  with l show thesis by (rule that)
qed

lemma NodeCover_spec:
  assumes "node_shape n" "node_small n" "0 < ncount n"
  shows "small_mbr (RTreeNodeCover n)" "\<forall>b\<in>set (live n). mbr_le (fst b) (RTreeNodeCover n)"
proof -
  obtain b bs where b: "live n = b # bs"
    "RTreeNodeCover n = fold (\<lambda>b c. RTreeCombineRect c (fst b)) bs (fst b)"
    using NodeCover_fold [OF assms(1,3)] .
  show "small_mbr (RTreeNodeCover n)" "\<forall>b\<in>set (live n). mbr_le (fst b) (RTreeNodeCover n)"
    using fold_cover [of "fst b" bs] assms(2) by (simp_all add: b node_small_def)
qed

lemma NodeCover_least:
  assumes "node_shape n" "0 < ncount n" "\<forall>b\<in>set (live n). mbr_le (fst b) r"
  shows "mbr_le (RTreeNodeCover n) r"
proof -
  obtain b bs where b: "live n = b # bs"
    "RTreeNodeCover n = fold (\<lambda>b c. RTreeCombineRect c (fst b)) bs (fst b)"
    using NodeCover_fold [OF assms(1,2)] .
  show ?thesis using assms(3) unfolding b by (intro fold_cover_least) simp_all
qed

lemma pick_fold:
  assumes "\<forall>(i, b)\<in>set ibs. i < length bs \<and> b = bs ! i"
    and "(ft \<and> (\<exists>(i, b)\<in>set ibs. used b)) \<or> (\<not> ft \<and> k < length bs \<and> used (bs ! k))"
  shows "let k' = fst (snd (fold (pick_step m) ibs (ft, k, ba, bi))) in k' < length bs \<and> used (bs ! k')"
  using assms
proof (induction ibs arbitrary: ft k ba bi)
  case Nil
  then show ?case by simp
next
  case (Cons ib ibs)
  obtain i r ch where ib: "ib = (i, r, ch)" by (cases ib) auto
  obtain ft' k' ba' bi' where st: "pick_step m ib (ft, k, ba, bi) = (ft', k', ba', bi')"
    by (cases "pick_step m ib (ft, k, ba, bi)")
  have "i < length bs" "bs ! i = (r, ch)" using Cons.prems(1) ib by auto
  then have "(ft' \<and> (\<exists>(i, b)\<in>set ibs. used b)) \<or> (\<not> ft' \<and> k' < length bs \<and> used (bs ! k'))"
    using st Cons.prems(2) unfolding ib pick_step_def by (auto simp: Let_def split: if_splits)
  then show ?case using Cons.IH [of ft' k' ba' bi'] Cons.prems(1) st by simp
qed

lemma PickBranch_spec:
  assumes "node_shape n" "0 < ncount n"
  shows "RTreePickBranch m n < length (branch n) \<and> used (branch n ! RTreePickBranch m n)"
proof -
  have "length (branch n) = 12" using assms(1) by (simp add: node_shape_def MAXCARD_12)
  moreover have "live n \<noteq> []" using assms by (auto simp: node_shape_def)
  then obtain i where "i < length (branch n)" "used (branch n ! i)"
    by (auto simp: filter_empty_conv in_set_conv_nth)
  then have "\<exists>(i, b)\<in>set (enumerate 0 (branch n)). used b"
    by (auto simp: in_set_enumerate_eq intro!: bexI [of _ "(i, branch n ! i)"])
  moreover have "\<forall>(i, b)\<in>set (enumerate 0 (branch n)). i < length (branch n) \<and> b = branch n ! i"
    by (auto simp: in_set_enumerate_eq)
  ultimately show ?thesis
    using pick_fold [of "enumerate 0 (branch n)" "branch n" True 0 m 0 "-1"]
    unfolding RTreePickBranch_def Let_def MAXKIDS_12 by simp
qed

end
