(* ===== verification/RTreeInsert.thy ===== *)
theory RTreeInsert
  imports RTreeSplit
begin

text \<open>
  Insertion into the R-tree, \<^verbatim>\<open>executor/rtreeM.c\<close>: \<open>RTreeCreate\<close>, the recursive descent
  \<open>_RTreeInsertRect\<close> that propagates splits upwards, and \<open>RTreeInsert\<close> that grows a new
  root. The tree invariant is stated here, with the multiset of records a tree holds; the
  insertion keeps the invariant, adds exactly the new record and fails no assertion.
\<close>

section \<open>Operations\<close>

record RTREEROOT =
  root_node :: RTREENODE

definition RTreeCreate :: RTREEROOT where
  "RTreeCreate = \<lparr>root_node = Node (ncount RTreeNewNode) 0 (branch RTreeNewNode)\<rparr>"

lemma size_child:
  assumes "i < length (branch n)" "branch n ! i = (r, Sub c)"
  shows "size c < size n"
proof -
  obtain k l bs where n: "n = Node k l bs" by (cases n)
  have "(r, Sub c) \<in> set bs" using assms nth_mem [of i bs] by (simp add: n)
  then have "size_prod (\<lambda>_. 0) (size_child size) (r, Sub c)
      \<le> size_list (size_prod (\<lambda>_. 0) (size_child size)) bs"
    by (rule size_list_estimation') simp
  then show ?thesis by (simp add: n)
qed

text \<open>The \<open>tid\<close> argument is a pointer: a record id at level 0, a node when \<open>RTreeDelete\<close>
  puts a subtree back.\<close>

function RTreeInsertRect :: "RTREEMBR \<Rightarrow> RTREENODE child \<Rightarrow> RTREENODE \<Rightarrow> int \<Rightarrow>
    (RTREENODE \<times> RTREENODE option) option" where
  "RTreeInsertRect mbr tid n level =
     (if \<not> (0 \<le> level \<and> level \<le> nlevel n) then None
      else if nlevel n > level then
        (let i = RTreePickBranch mbr n in
         if i < length (branch n) then
           (case branch n ! i of
              (r, Sub c) \<Rightarrow>
                (case RTreeInsertRect mbr tid c level of
                   None \<Rightarrow> None
                 | Some (c', None) \<Rightarrow>
                     Some (Node (ncount n) (nlevel n)
                            ((branch n)[i := (RTreeCombineRect mbr r, Sub c')]), None)
                 | Some (c', Some n2) \<Rightarrow>
                     RTreeAddBranch (RTreeNodeCover n2, Sub n2)
                       (Node (ncount n) (nlevel n) ((branch n)[i := (RTreeNodeCover c', Sub c')])))
            | (r, _) \<Rightarrow> None)
         else None)
      else RTreeAddBranch (mbr, tid) n)"
  by pat_completeness auto

termination
  by (relation "measure (\<lambda>(m, t, n, l). size n)") (auto intro: size_child [OF _ sym])

declare RTreeInsertRect.simps [simp del]

text \<open>The result is the new root and the returned flag.\<close>

definition RTreeInsert :: "RTREEROOT \<Rightarrow> RTREEMBR \<Rightarrow> RTREENODE child \<Rightarrow> int \<Rightarrow> (RTREEROOT \<times> bool) option" where
  "RTreeInsert rt mbr tid level =
     (if \<not> (0 \<le> level \<and> level \<le> nlevel (root_node rt)) then None
      else (case RTreeInsertRect mbr tid (root_node rt) level of
        None \<Rightarrow> None
      | Some (n, None) \<Rightarrow> Some (rt\<lparr>root_node := n\<rparr>, False)
      | Some (n, Some newnode) \<Rightarrow>
          let newroot = Node (ncount RTreeNewNode) (nlevel n + 1) (branch RTreeNewNode)
          in (case RTreeAddBranch_NULL (RTreeNodeCover n, Sub n) newroot of
                None \<Rightarrow> None
              | Some nr1 \<Rightarrow> (case RTreeAddBranch_NULL (RTreeNodeCover newnode, Sub newnode) nr1 of
                  None \<Rightarrow> None
                | Some nr2 \<Rightarrow> Some (rt\<lparr>root_node := nr2\<rparr>, True)))))"

section \<open>The invariant and the contents\<close>

text \<open>
  A branch at level 0 holds a record id other than 0; above, it holds a node of the level
  below, at least half full, all of whose rectangles lie in the rectangle of the branch.
\<close>

primrec wf_branch :: "nat \<Rightarrow> RTREEBRANCH \<Rightarrow> bool" where
  "wf_branch 0 b \<longleftrightarrow> small_mbr (fst b) \<and> (case snd b of Tid t \<Rightarrow> 0 < t | _ \<Rightarrow> False)"
| "wf_branch (Suc l) b \<longleftrightarrow> small_mbr (fst b) \<and>
     (case snd b of
        Sub c \<Rightarrow> nlevel c = int l \<and> node_shape c \<and> MINNODEFILL \<le> ncount c \<and>
          (\<forall>e\<in>set (live c). mbr_le (fst e) (fst b) \<and> wf_branch l e)
      | _ \<Rightarrow> False)"

definition wf_node :: "nat \<Rightarrow> RTREENODE \<Rightarrow> bool" where
  "wf_node l n \<longleftrightarrow> nlevel n = int l \<and> node_shape n \<and> (0 < l \<longrightarrow> 0 < ncount n) \<and>
     (\<forall>e\<in>set (live n). wf_branch l e)"

definition wf_root :: "RTREEROOT \<Rightarrow> bool" where
  "wf_root rt \<longleftrightarrow> (\<exists>l. wf_node l (root_node rt) \<and> (0 < l \<longrightarrow> 2 \<le> ncount (root_node rt)))"

function child_entries :: "RTREEMBR \<Rightarrow> RTREENODE child \<Rightarrow> (RTREEMBR \<times> nat) list"
  and node_entries :: "RTREENODE \<Rightarrow> (RTREEMBR \<times> nat) list"
  and branches_entries :: "RTREEBRANCH list \<Rightarrow> (RTREEMBR \<times> nat) list" where
  "child_entries r NULL = []"
| "child_entries r (Tid t) = [(r, t)]"
| "child_entries r (Sub n) = node_entries n"
| "node_entries (Node k l bs) = branches_entries bs"
| "branches_entries [] = []"
| "branches_entries (b # bs) = child_entries (fst b) (snd b) @ branches_entries bs"
  by pat_completeness auto

termination
  by (relation "measure (case_sum (\<lambda>(r, c). size_child size c)
       (case_sum size (size_list (size_prod (\<lambda>_. 0) (size_child size)))))")
    (auto simp: size_prod_def split: prod.splits)

abbreviation entries :: "RTREEROOT \<Rightarrow> (RTREEMBR \<times> nat) multiset" where
  "entries rt \<equiv> mset (node_entries (root_node rt))"

lemma node_entries_branch: "node_entries n = branches_entries (branch n)"
  by (cases n) simp

lemma branches_entries_live: "branches_entries (filter used bs) = branches_entries bs"
  by (induction bs) auto

lemma branches_entries_mset:
  "mset (branches_entries bs) = (\<Sum>b\<in>#mset bs. mset (child_entries (fst b) (snd b)))"
  by (induction bs) auto

lemma node_entries_live:
  "mset (node_entries n) = (\<Sum>b\<in>#mset (live n). mset (child_entries (fst b) (snd b)))"
  unfolding node_entries_branch using branches_entries_live [of "branch n"] branches_entries_mset by metis

lemma node_entries_set: "set (node_entries n) = (\<Union>b\<in>set (live n). set (child_entries (fst b) (snd b)))"
proof -
  have "set_mset (mset (node_entries n)) = (\<Union>b\<in>set (live n). set (child_entries (fst b) (snd b)))"
    unfolding node_entries_live by auto
  then show ?thesis by simp
qed

lemma wf_branch_small: "wf_branch l b \<Longrightarrow> small_mbr (fst b) \<and> used b"
  by (cases l) (auto split: child.splits)

lemma wf_branch_Sub: "wf_branch (Suc l) (r, Sub c) \<longleftrightarrow>
    small_mbr r \<and> wf_node l c \<and> MINNODEFILL \<le> ncount c \<and> (\<forall>e\<in>set (live c). mbr_le (fst e) r)"
  by (auto simp: wf_node_def MINFILL_6)

lemma wf_branch_Suc: "wf_branch (Suc l) b \<Longrightarrow> \<exists>c. b = (fst b, Sub c) \<and> wf_branch (Suc l) (fst b, Sub c)"
  by (cases b) (auto split: child.splits)

lemma wf_node_small: "wf_node l n \<Longrightarrow> node_small n"
  using wf_branch_small [of l] unfolding wf_node_def node_small_def by blast

lemma wf_node_shape: "wf_node l n \<Longrightarrow> node_shape n \<and> nlevel n = int l"
  by (simp add: wf_node_def)

text \<open>A branch over a half full node, with the cover of that node as its rectangle.\<close>

lemma wf_branch_cover:
  assumes "wf_node l c" "MINNODEFILL \<le> ncount c"
  shows "wf_branch (Suc l) (RTreeNodeCover c, Sub c)"
  using assms NodeCover_spec [of c] wf_node_small [OF assms(1)]
  by (simp add: wf_branch_Sub wf_node_def MINFILL_6 del: wf_branch.simps)

section \<open>Insertion keeps the invariant\<close>

lemma AddBranch_wf:
  assumes "wf_node l n" "wf_branch l br"
  shows "\<exists>n' q. RTreeAddBranch br n = Some (n', q) \<and> wf_node l n' \<and>
     (case q of
        None \<Rightarrow> ncount n' = Suc (ncount n) \<and> mset (live n') = add_mset br (mset (live n))
      | Some m \<Rightarrow> wf_node l m \<and> MINNODEFILL \<le> ncount n' \<and> MINNODEFILL \<le> ncount m \<and>
          mset (live n') + mset (live m) = add_mset br (mset (live n)))"
proof -
  have b: "small_mbr (fst br)" "used br" using wf_branch_small [OF assms(2)] by simp_all
  obtain n' q where nq: "RTreeAddBranch br n = Some (n', q)" "node_shape n'" "nlevel n' = nlevel n"
    and c: "case q of
        None \<Rightarrow> ncount n' = Suc (ncount n) \<and> mset (live n') = add_mset br (mset (live n))
      | Some m \<Rightarrow> node_shape m \<and> nlevel m = nlevel n \<and> MINNODEFILL \<le> ncount n' \<and> MINNODEFILL \<le> ncount m \<and>
          mset (live n') + mset (live m) = add_mset br (mset (live n))"
    using AddBranch_spec [OF _ wf_node_small [OF assms(1)] b] wf_node_shape [OF assms(1)] by blast
  have old: "\<forall>e\<in>set (br # live n). wf_branch l e" "nlevel n = int l"
    using assms by (simp_all add: wf_node_def)
  show ?thesis
  proof (cases q)
    case None
    then have m: "mset (live n') = mset (br # live n)" using c by simp
    then have "set (live n') = set (br # live n)" by (rule mset_eq_setD)
    then have "wf_node l n'" using nq old c None unfolding wf_node_def by simp
    then show ?thesis using nq c None by simp
  next
    case (Some m)
    then have c: "node_shape m" "nlevel m = nlevel n" "MINNODEFILL \<le> ncount n'" "MINNODEFILL \<le> ncount m"
      "mset (live n') + mset (live m) = add_mset br (mset (live n))" using c by simp_all
    have "mset (live n' @ live m) = mset (br # live n)" using c(5) by simp
    then have "set (live n' @ live m) = set (br # live n)" by (rule mset_eq_setD)
    then have s: "set (live n') \<union> set (live m) = set (br # live n)" unfolding set_append .
    have "\<forall>e\<in>set (live n'). wf_branch l e" "\<forall>e\<in>set (live m). wf_branch l e"
      using old(1) unfolding s [symmetric] by blast+
    then have "wf_node l n'" "wf_node l m"
      using nq(2,3) c(1-4) old(2) unfolding wf_node_def MINFILL_6 by simp_all
    then show ?thesis using nq c Some by simp
  qed
qed

text \<open>Replacing the branch at a used position by another.\<close>

lemma replace_branch:
  assumes "wf_node l n" "i < length (branch n)" "used (branch n ! i)" "wf_branch l b"
  defines "n' \<equiv> Node (ncount n) (nlevel n) ((branch n)[i := b])"
  shows "wf_node l n'" "add_mset (branch n ! i) (mset (live n')) = add_mset b (mset (live n))"
    "ncount n' = ncount n"
proof -
  have u: "used b" using wf_branch_small [OF assms(4)] by simp
  obtain xs y ys where bs: "branch n = xs @ y # ys" "i = length xs" "branch n ! i = y"
    using id_take_nth_drop [OF assms(2)] assms(2) by (metis length_take min.absorb4)
  have l: "live n' = filter used xs @ b # filter used ys" "live n = filter used xs @ y # filter used ys"
    using u assms(3) bs(3) unfolding n'_def by (simp_all add: bs)
  have sh: "nlevel n = int l" "node_shape n" "0 < l \<longrightarrow> 0 < ncount n" "\<forall>e\<in>set (live n). wf_branch l e"
    using assms(1) by (simp_all add: wf_node_def)
  have "node_shape n'" using sh(2) unfolding node_shape_def l by (simp add: n'_def)
  then show "wf_node l n'"
    using sh(1,3,4) assms(4) unfolding wf_node_def l by (simp add: n'_def)
  show "add_mset (branch n ! i) (mset (live n')) = add_mset b (mset (live n))"
    unfolding l bs(3) by simp
  show "ncount n' = ncount n" by (simp add: n'_def)
qed

definition inside :: "RTREENODE \<Rightarrow> RTREEMBR \<Rightarrow> bool" where
  "inside n r \<longleftrightarrow> (\<forall>e\<in>set (live n). mbr_le (fst e) r)"

abbreviation nents :: "RTREENODE \<Rightarrow> (RTREEMBR \<times> nat) multiset" where
  "nents n \<equiv> mset (node_entries n)"

abbreviation bents :: "RTREEBRANCH \<Rightarrow> (RTREEMBR \<times> nat) multiset" where
  "bents b \<equiv> mset (child_entries (fst b) (snd b))"


lemma nents_step:
  assumes "add_mset x (mset (live n')) = add_mset y (mset (live n))" "bents y = bents x + z"
  shows "nents n' = nents n + z"
proof -
  have "bents x + nents n' = bents y + nents n"
    using arg_cong [OF assms(1), of "\<lambda>m. \<Sum>b\<in>#m. bents b"] unfolding node_entries_live by simp
  then show ?thesis unfolding assms(2) by simp
qed

lemma nents_add:
  assumes "mset (live n') = add_mset b (mset (live n))"
  shows "nents n' = nents n + bents b"
  unfolding node_entries_live assms by simp

lemma nents_split:
  assumes "mset (live n') + mset (live m) = add_mset b (mset (live n))"
  shows "nents n' + nents m = nents n + bents b"
proof -
  have "(\<Sum>b\<in>#mset (live n') + mset (live m). bents b) = (\<Sum>b\<in>#add_mset b (mset (live n)). bents b)"
    using assms by simp
  then show ?thesis unfolding node_entries_live by simp
qed

lemma inside_mset:
  assumes "mset (live n') = add_mset b (mset (live n))"
  shows "inside n' r \<longleftrightarrow> mbr_le (fst b) r \<and> inside n r"
proof -
  have "mset (live n') = mset (b # live n)" using assms by simp
  then have "set (live n') = set (b # live n)" by (rule mset_eq_setD)
  then show ?thesis unfolding inside_def by simp
qed

lemma inside_subset:
  assumes "set (live n') \<subseteq> insert b (set (live n))" "inside n r" "mbr_le (fst b) r"
  shows "inside n' r"
  using assms unfolding inside_def by blast

lemma inside_live: "inside n r \<Longrightarrow> b \<in> set (live n) \<Longrightarrow> mbr_le (fst b) r"
  unfolding inside_def by blast

lemma inside_replace:
  assumes "add_mset x (mset (live n')) = add_mset b (mset (live n))"
    "inside n r" "mbr_le (fst b) r"
  shows "inside n' r"
proof (rule inside_subset [OF _ assms(2,3)])
  have "mset (x # live n') = mset (b # live n)" using assms(1) by simp
  then have "set (x # live n') = set (b # live n)" by (rule mset_eq_setD)
  then show "set (live n') \<subseteq> insert b (set (live n))" unfolding list.set by blast
qed

lemma inside_split:
  assumes "mset (live n') + mset (live m) = add_mset b (mset (live n))" "inside n r" "mbr_le (fst b) r"
  shows "inside n' r \<and> inside m r"
proof -
  have "mset (live n' @ live m) = mset (b # live n)" using assms(1) by simp
  then have "set (live n' @ live m) = set (b # live n)" by (rule mset_eq_setD)
  then have "set (live n') \<subseteq> insert b (set (live n))" "set (live m) \<subseteq> insert b (set (live n))"
    unfolding list.set set_append by blast+
  then show ?thesis using inside_subset assms(2,3) by blast
qed

lemma NodeCover_inside: "wf_node l n \<Longrightarrow> MINNODEFILL \<le> ncount n \<Longrightarrow> inside n r \<Longrightarrow> mbr_le (RTreeNodeCover n) r"
  using NodeCover_least [of n r] by (simp add: wf_node_def inside_def MINFILL_6)

text \<open>The result of the descent, for a node and the rectangles it may grow into.\<close>

definition insert_ok :: "nat \<Rightarrow> RTREENODE \<Rightarrow> RTREEBRANCH \<Rightarrow> RTREENODE \<times> RTREENODE option \<Rightarrow> bool" where
  "insert_ok l n br res =
     (case res of
        (n', None) \<Rightarrow> wf_node l n' \<and> ncount n \<le> ncount n' \<and> nents n' = nents n + bents br \<and>
          (\<forall>r. inside n r \<and> mbr_le (fst br) r \<longrightarrow> inside n' r)
      | (n', Some m) \<Rightarrow> wf_node l n' \<and> wf_node l m \<and> MINNODEFILL \<le> ncount n' \<and> MINNODEFILL \<le> ncount m \<and>
          nents n' + nents m = nents n + bents br \<and>
          (\<forall>r. inside n r \<and> mbr_le (fst br) r \<longrightarrow> inside n' r \<and> inside m r))"

lemma AddBranch_ok:
  assumes "wf_node l n" "wf_branch l br"
  shows "\<exists>res. RTreeAddBranch br n = Some res \<and> insert_ok l n br res"
proof -
  obtain n' q where nq: "RTreeAddBranch br n = Some (n', q)" "wf_node l n'"
    and c: "case q of
        None \<Rightarrow> ncount n' = Suc (ncount n) \<and> mset (live n') = add_mset br (mset (live n))
      | Some m \<Rightarrow> wf_node l m \<and> MINNODEFILL \<le> ncount n' \<and> MINNODEFILL \<le> ncount m \<and>
          mset (live n') + mset (live m) = add_mset br (mset (live n))"
    using AddBranch_wf [OF assms] by blast
  show ?thesis
  proof (cases q)
    case None
    then show ?thesis using nq c nents_add [of n' br n] inside_mset [of n' br n]
      by (simp add: insert_ok_def)
  next
    case (Some m)
    then have m: "mset (live n') + mset (live m) = add_mset br (mset (live n))" using c by simp
    show ?thesis using nq c Some nents_split [OF m] inside_split [OF m] by (simp add: insert_ok_def)
  qed
qed

text \<open>The branch the record went into, grown or split.\<close>

lemma grown_branch_ok:
  assumes n: "wf_node (Suc l) n" and i: "i < length (branch n)" "used (branch n ! i)" and rc: "branch n ! i = (r, Sub c)"
    and sm: "small_mbr mbr" and ins: "insert_ok l c (mbr, ch) (c', None)"
  shows "insert_ok (Suc l) n (mbr, ch)
    (Node (ncount n) (nlevel n) ((branch n)[i := (RTreeCombineRect mbr r, Sub c')]), None)"
proof -
  let ?R = "RTreeCombineRect mbr r"
  have mem: "branch n ! i \<in> set (live n)" using i by simp
  then have "wf_branch (Suc l) (r, Sub c)" using n rc unfolding wf_node_def by metis
  then have c: "small_mbr r" "MINNODEFILL \<le> ncount c" "inside c r"
    by (simp_all add: wf_branch_Sub inside_def del: wf_branch.simps)
  have ok: "wf_node l c'" "ncount c \<le> ncount c'" "nents c' = nents c + bents (mbr, ch)"
    "\<And>s. inside c s \<Longrightarrow> mbr_le mbr s \<Longrightarrow> inside c' s"
    using ins unfolding insert_ok_def by simp_all
  have le: "mbr_le mbr ?R" "mbr_le r ?R" using Combine_le sm c(1) small_proper by blast+
  then have "inside c ?R" using c(3) mbr_le_trans unfolding inside_def by blast
  then have "inside c' ?R" using ok(4) le(1) by blast
  then have wbr: "wf_branch (Suc l) (?R, Sub c')"
    using ok(1,2) c(2) sm c(1) small_Combine
    by (simp add: wf_branch_Sub inside_def del: wf_branch.simps)
  note rep = replace_branch [OF n i wbr]
  have "inside (Node (ncount n) (nlevel n) ((branch n)[i := (?R, Sub c')])) s"
    if "inside n s" "mbr_le mbr s" for s
  proof -
    have "mbr_le r s" using inside_live [OF that(1) mem] rc by simp
    then have "mbr_le ?R s" using Combine_least that(2) by blast
    then show ?thesis using inside_replace [OF rep(2) that(1)] by simp
  qed
  moreover have "nents (Node (ncount n) (nlevel n) ((branch n)[i := (?R, Sub c')])) = nents n + bents (mbr, ch)"
    using nents_step [OF rep(2)] rc ok(3) by simp
  ultimately show ?thesis using rep(1) by (simp add: insert_ok_def)
qed

lemma split_branch_ok:
  assumes n: "wf_node (Suc l) n" and i: "i < length (branch n)" "used (branch n ! i)" and rc: "branch n ! i = (r, Sub c)"
    and ins: "insert_ok l c (mbr, ch) (c', Some n2)"
  shows "\<exists>res. RTreeAddBranch (RTreeNodeCover n2, Sub n2)
      (Node (ncount n) (nlevel n) ((branch n)[i := (RTreeNodeCover c', Sub c')])) = Some res \<and>
    insert_ok (Suc l) n (mbr, ch) res"
proof -
  have mem: "branch n ! i \<in> set (live n)" using i by simp
  then have "wf_branch (Suc l) (r, Sub c)" using n rc unfolding wf_node_def by metis
  then have c: "inside c r" by (simp add: wf_branch_Sub inside_def del: wf_branch.simps)
  have ok: "wf_node l c'" "wf_node l n2" "MINNODEFILL \<le> ncount c'" "MINNODEFILL \<le> ncount n2"
    "nents c' + nents n2 = nents c + bents (mbr, ch)"
    "\<And>s. inside c s \<Longrightarrow> mbr_le mbr s \<Longrightarrow> inside c' s \<and> inside n2 s"
    using ins unfolding insert_ok_def by simp_all
  note w1 = wf_branch_cover [OF ok(1,3)] and w2 = wf_branch_cover [OF ok(2,4)]
  define n1 where "n1 = Node (ncount n) (nlevel n) ((branch n)[i := (RTreeNodeCover c', Sub c')])"
  note rep = replace_branch [OF n i w1, folded n1_def]
  obtain res where res: "RTreeAddBranch (RTreeNodeCover n2, Sub n2) n1 = Some res"
    "insert_ok (Suc l) n1 (RTreeNodeCover n2, Sub n2) res"
    using AddBranch_ok [OF rep(1) w2] by blast
  have "bents (branch n ! i) + nents n1 = nents c' + nents n"
    using arg_cong [OF rep(2), of "\<lambda>m. \<Sum>b\<in>#m. bents b"] unfolding node_entries_live [of n1]
      node_entries_live [of n] by simp
  then have "nents c + nents n1 = nents c' + nents n" by (simp add: rc)
  then have "nents c + (nents n1 + nents n2) = nents c + (nents n + bents (mbr, ch))"
    using ok(5) by (metis (no_types, lifting) add.assoc add.commute)
  then have tot: "nents n1 + nents n2 = nents n + bents (mbr, ch)" by simp
  have "inside n1 s \<and> mbr_le (RTreeNodeCover n2) s" if s: "inside n s" "mbr_le mbr s" for s
  proof -
    have "mbr_le r s" using inside_live [OF s(1) mem] rc by simp
    then have "inside c s" using c mbr_le_trans unfolding inside_def by blast
    then have "inside c' s" "inside n2 s" using ok(6) s(2) by blast+
    then have "mbr_le (RTreeNodeCover c') s" "mbr_le (RTreeNodeCover n2) s"
      using NodeCover_inside ok(1-4) by blast+
    then show ?thesis using inside_replace [OF rep(2) s(1)] by simp
  qed
  then have "insert_ok (Suc l) n (mbr, ch) res"
    using res(2) tot rep(3) unfolding insert_ok_def by (auto split: prod.splits option.splits)
  then show ?thesis using res(1) unfolding n1_def by blast
qed

lemma InsertRect_ok:
  assumes "wf_node l n" "wf_branch k (mbr, ch)" "k \<le> l"
  shows "\<exists>res. RTreeInsertRect mbr ch n (int k) = Some res \<and> insert_ok l n (mbr, ch) res"
  using assms
proof (induction l arbitrary: n)
  case 0
  then have "RTreeInsertRect mbr ch n (int k) = RTreeAddBranch (mbr, ch) n"
    by (simp add: RTreeInsertRect.simps [of mbr ch n] wf_node_def)
  then show ?case using AddBranch_ok [of 0 n "(mbr, ch)"] 0 by simp
next
  case (Suc l)
  have lev: "nlevel n = int (Suc l)" using Suc.prems(1) by (simp add: wf_node_def)
  show ?case
  proof (cases "k = Suc l")
    case True
    then have "RTreeInsertRect mbr ch n (int k) = RTreeAddBranch (mbr, ch) n"
      using lev by (simp add: RTreeInsertRect.simps [of mbr ch n])
    then show ?thesis using AddBranch_ok [of "Suc l" n "(mbr, ch)"] Suc.prems True by simp
  next
    case False
    then have k: "k \<le> l" using Suc.prems(3) by simp
    define i where "i = RTreePickBranch mbr n"
    have sh: "node_shape n" "0 < ncount n" using Suc.prems(1) by (simp_all add: wf_node_def)
    then have i: "i < length (branch n)" "used (branch n ! i)"
      using PickBranch_spec [OF sh] by (simp_all add: i_def)
    then have mem: "branch n ! i \<in> set (live n)" by simp
    then have wb: "wf_branch (Suc l) (branch n ! i)" using Suc.prems(1) unfolding wf_node_def by blast
    obtain r c where rc: "branch n ! i = (r, Sub c)" using wf_branch_Suc [OF wb] by metis
    then have c: "wf_node l c" using wb by (simp add: wf_branch_Sub del: wf_branch.simps)
    obtain res where res: "RTreeInsertRect mbr ch c (int k) = Some res" "insert_ok l c (mbr, ch) res"
      using Suc.IH [OF c Suc.prems(2) k] by blast
    have sm: "small_mbr mbr" using wf_branch_small [OF Suc.prems(2)] by simp
    have unf: "RTreeInsertRect mbr ch n (int k) =
       (case res of
          (c', None) \<Rightarrow> Some (Node (ncount n) (nlevel n)
                          ((branch n)[i := (RTreeCombineRect mbr r, Sub c')]), None)
        | (c', Some n2) \<Rightarrow> RTreeAddBranch (RTreeNodeCover n2, Sub n2)
             (Node (ncount n) (nlevel n) ((branch n)[i := (RTreeNodeCover c', Sub c')])))"
      using res(1) rc i(1) k lev
      by (simp add: RTreeInsertRect.simps [of mbr ch n] i_def [symmetric] Let_def split: prod.split option.split)
    show ?thesis
    proof (cases "snd res")
      case None
      then obtain c' where r: "res = (c', None)" by (cases res) auto
      then show ?thesis using grown_branch_ok [OF Suc.prems(1) i rc sm] res(2) unfolding unf by simp
    next
      case (Some n2)
      then obtain c' where r: "res = (c', Some n2)" by (cases res) auto
      then show ?thesis using split_branch_ok [OF Suc.prems(1) i rc] res(2) unfolding unf by simp
    qed
  qed
qed


lemma put_NULL:
  assumes "wf_node l n" "ncount n < MAXCARD" "wf_branch l b"
  shows "RTreeAddBranch_NULL b n = Some (put_branch b n)" "wf_node l (put_branch b n)"
    "ncount (put_branch b n) = Suc (ncount n)" "nents (put_branch b n) = nents n + bents b"
proof -
  note u = wf_branch_small [OF assms(3)]
  have sh: "node_shape n" "nlevel n = int l" using assms(1) by (simp_all add: wf_node_def)
  note p = put_branch_spec [OF sh(1) assms(2), of b]
  show a: "RTreeAddBranch_NULL b n = Some (put_branch b n)"
    using assms(2) by (simp add: RTreeAddBranch_NULL_def MAXKIDS_12 MAXCARD_12)
  show "ncount (put_branch b n) = Suc (ncount n)" using p u by simp
  have m: "mset (live (put_branch b n)) = add_mset b (mset (live n))" using p u by simp
  then show "nents (put_branch b n) = nents n + bents b" by (rule nents_add)
  have "mset (live (put_branch b n)) = mset (b # live n)" using m by simp
  then have "set (live (put_branch b n)) = set (b # live n)" by (rule mset_eq_setD)
  then show "wf_node l (put_branch b n)"
    using p u sh assms(1,3) unfolding wf_node_def by (simp only: list.set ball_simps) simp
qed

lemma Insert_ok:
  assumes "wf_node l (root_node rt)" "wf_branch k (mbr, ch)" "k \<le> l"
  shows "\<exists>rt' s l'. RTreeInsert rt mbr ch (int k) = Some (rt', s) \<and> wf_node l' (root_node rt') \<and>
     entries rt' = entries rt + bents (mbr, ch) \<and>
     (l' = l \<and> ncount (root_node rt) \<le> ncount (root_node rt') \<or> l' = Suc l \<and> ncount (root_node rt') = 2)"
proof -
  define n where "n = root_node rt"
  have lev: "nlevel n = int l" using assms(1) by (simp add: wf_node_def n_def)
  obtain res where res: "RTreeInsertRect mbr ch n (int k) = Some res" "insert_ok l n (mbr, ch) res"
    using InsertRect_ok [OF assms] unfolding n_def by blast
  show ?thesis
  proof (cases "snd res")
    case None
    then obtain n' where "res = (n', None)" by (cases res) auto
    then show ?thesis using res lev assms(3)
      by (intro exI [of _ "rt\<lparr>root_node := n'\<rparr>"] exI [of _ False] exI [of _ l])
        (simp add: RTreeInsert_def n_def [symmetric] insert_ok_def)
  next
    case (Some m)
    then obtain n' where r: "res = (n', Some m)" by (cases res) auto
    then have ok: "wf_node l n'" "wf_node l m" "MINNODEFILL \<le> ncount n'" "MINNODEFILL \<le> ncount m"
      "nents n' + nents m = nents n + bents (mbr, ch)"
      using res(2) by (simp_all add: insert_ok_def)
    define r0 where "r0 = Node (ncount RTreeNewNode) (nlevel n' + 1) (branch RTreeNewNode)"
    have r0: "node_shape r0" "live r0 = []" "ncount r0 = 0" "nlevel r0 = int (Suc l)"
      using fresh_shape fresh_live ok(1) by (simp_all add: r0_def RTreeNewNode_def RTreeInitNode_def wf_node_def)
    let ?b1 = "(RTreeNodeCover n', Sub n')" and ?b2 = "(RTreeNodeCover m, Sub m)"
    note w1 = wf_branch_cover [OF ok(1,3)] and w2 = wf_branch_cover [OF ok(2,4)]
    have u1: "used ?b1" "used ?b2" by simp_all
    note p1 = put_branch_spec [OF r0(1) _ u1(1)]
    have c1: "ncount r0 < MAXCARD" using r0(3) by (simp add: MAXCARD_12)
    have "mset (live (put_branch ?b1 r0)) = {#?b1#}" using p1(2) [OF c1] r0(2) by simp
    then have l1: "live (put_branch ?b1 r0) = [?b1]" by (simp only: mset_single_iff)
    have wf1: "wf_node (Suc l) (put_branch ?b1 r0)"
      using p1 [OF c1] r0(4) w1 unfolding wf_node_def l1 by simp
    have add1: "RTreeAddBranch_NULL ?b1 r0 = Some (put_branch ?b1 r0)"
      using c1 by (simp add: RTreeAddBranch_NULL_def MAXKIDS_12 MAXCARD_12)
    have c2: "ncount (put_branch ?b1 r0) < MAXCARD" using p1(4) [OF c1] r0(3) by (simp add: MAXCARD_12)
    note p2 = put_NULL [OF wf1 c2 w2]
    have "nents (put_branch ?b2 (put_branch ?b1 r0)) = nents n + bents (mbr, ch)"
      using p2(4) ok(5) unfolding node_entries_live [of "put_branch ?b1 r0"] l1 by simp
    moreover have "RTreeInsert rt mbr ch (int k) =
        Some (rt\<lparr>root_node := put_branch ?b2 (put_branch ?b1 r0)\<rparr>, True)"
      using res(1) r lev assms(3) add1 p2(1)
      by (simp add: RTreeInsert_def n_def [symmetric] r0_def [symmetric] Let_def)
    moreover have "ncount (put_branch ?b2 (put_branch ?b1 r0)) = 2"
      using p2(3) p1(4) [OF c1] r0(3) by simp
    ultimately show ?thesis using p2(2)
      by (intro exI [of _ "rt\<lparr>root_node := put_branch ?b2 (put_branch ?b1 r0)\<rparr>"] exI [of _ True]
          exI [of _ "Suc l"]) (simp add: n_def)
  qed
qed

lemma Create_wf: "wf_root RTreeCreate" and Create_entries: "entries RTreeCreate = {#}"
proof -
  let ?n = "Node 0 0 (branch RTreeInitNode)"
  have r: "root_node RTreeCreate = ?n"
    by (simp add: RTreeCreate_def RTreeNewNode_def RTreeInitNode_def)
  have "wf_node 0 ?n" using fresh_shape [of 0] fresh_live [of 0] unfolding wf_node_def by simp
  then show "wf_root RTreeCreate" unfolding wf_root_def r by blast
  have "nents ?n = {#}" unfolding node_entries_live fresh_live by simp
  then show "entries RTreeCreate = {#}" unfolding r .
qed

lemma Insert_tid:
  assumes "wf_root rt" "small_mbr mbr" "0 < t"
  shows "\<exists>rt' s. RTreeInsert rt mbr (child_of_tid t) 0 = Some (rt', s) \<and> wf_root rt' \<and>
     entries rt' = add_mset (mbr, t) (entries rt)"
proof -
  obtain l where l: "wf_node l (root_node rt)" "0 < l \<longrightarrow> 2 \<le> ncount (root_node rt)"
    using assms(1) unfolding wf_root_def by blast
  have "wf_branch 0 (mbr, child_of_tid t)" using assms(2,3) by (simp add: child_of_tid_def)
  from Insert_ok [OF l(1) this] obtain rt' s l' where i: "RTreeInsert rt mbr (child_of_tid t) 0 = Some (rt', s)"
    "wf_node l' (root_node rt')" "entries rt' = entries rt + bents (mbr, child_of_tid t)"
    "l' = l \<and> ncount (root_node rt) \<le> ncount (root_node rt') \<or> l' = Suc l \<and> ncount (root_node rt') = 2"
    by auto
  have "wf_root rt'" using i(2,4) l(2) unfolding wf_root_def by (intro exI [of _ l']) auto
  then show ?thesis using i(1,3) assms(3) by (simp add: child_of_tid_def)
qed

section \<open>Properties\<close>

text \<open>C19. Inserting a rectangle whose coordinates are at most \<open>2 ^ 24\<close> in size fails none of
  the assertions of \<open>rtreeM.c\<close>, keeps the tree well formed and adds exactly that record.\<close>

theorem RTreeInsert_adds_record:
  assumes "wf_root rt" "small_mbr mbr" "0 < t"
  shows "\<exists>rt' s. RTreeInsert rt mbr (child_of_tid t) 0 = Some (rt', s) \<and> wf_root rt' \<and>
     entries rt' = add_mset (mbr, t) (entries rt)"
  by (rule Insert_tid [OF assms])

lemma RTreeInsert_adds_record_witness:
  "\<exists>rt' s. RTreeInsert RTreeCreate (MBR 1 2 3 4) (child_of_tid 7) 0 = Some (rt', s) \<and> wf_root rt' \<and>
     entries rt' = add_mset (MBR 1 2 3 4, 7) (entries RTreeCreate)"
  by (rule RTreeInsert_adds_record [OF Create_wf]) (simp_all add: small_mbr_def proper_def mbr_le_def)

text \<open>A full node splits without a failed assertion into two nodes of at least
  \<open>MINNODEFILL\<close> branches each, which together hold the old branches and the new one.\<close>

theorem RTreeSplitNode_balanced:
  assumes "node_shape n" "ncount n = MAXCARD" "node_small n" "small_mbr (fst br)" "used br"
  shows "\<exists>n' q. RTreeSplitNode n br = Some (n', q) \<and> node_shape n' \<and> node_shape q \<and>
     MINNODEFILL \<le> ncount n' \<and> MINNODEFILL \<le> ncount q \<and>
     mset (live n') + mset (live q) = add_mset br (mset (live n))"
  using SplitNode_spec [OF assms] by blast

lemma RTreeSplitNode_balanced_witness:
  "\<exists>n' q. RTreeSplitNode (Node 12 0 (replicate 12 (MBR 1 1 2 2, Tid 1))) (MBR 1 1 2 2, Tid 2) = Some (n', q) \<and>
     node_shape n' \<and> node_shape q \<and> MINNODEFILL \<le> ncount n' \<and> MINNODEFILL \<le> ncount q \<and>
     mset (live n') + mset (live q) =
       add_mset (MBR 1 1 2 2, Tid 2) (mset (live (Node 12 0 (replicate 12 (MBR 1 1 2 2, Tid 1)))))"
  by (rule RTreeSplitNode_balanced)
    (simp_all add: node_shape_def node_small_def small_mbr_def proper_def mbr_le_def MAXCARD_12)

end
