(* ===== verification/RTreeSearch.thy ===== *)
theory RTreeSearch
  imports RTreeInsert "HOL-Library.Sublist"
begin

text \<open>
  The two searches of the R-tree, \<^verbatim>\<open>executor/rtreeM.c\<close>, with the callback
  \<open>MySearchCallback\<close> and the result arrays \<open>containArray\<close> and \<open>overlapArray\<close> it fills.
  \<open>RTreeSearch\<close> is proved to report, in the order of the tree, exactly the records a filter
  of all records gives; with \<open>overlapisrandom\<close> it may stop after more than three.
  \<open>RTreeSearch_Contain\<close> is sound, but returns after the first child that overlaps.
\<close>

section \<open>The result arrays\<close>

record search_globals =
  containArray :: "nat \<Rightarrow> int"
  overlapArray :: "nat \<Rightarrow> int"
  index_contain :: nat
  index_overlap :: nat
  iscontain_M :: bool

definition sizeofgroup :: nat where
  "sizeofgroup = 2000000"

text \<open>The parameter \<open>id\<close> of the callback is an \<open>int\<close>, into which the pointer-sized id of the
  record is cut. The arrays have \<open>sizeofgroup\<close> cells and the index is not checked: after a write
  past the end nothing can be said of the globals, which are then \<open>None\<close>. The result 1 (keep
  going) is \<open>True\<close>.\<close>

definition MySearchCallback :: "nat \<Rightarrow> search_globals option \<Rightarrow> bool \<times> search_globals option" where
  "MySearchCallback tid og =
     (True,
      case og of
        None \<Rightarrow> None
      | Some g \<Rightarrow>
          let id = i32 (int tid)
          in if iscontain_M g
             then if index_contain g < sizeofgroup
                  then Some (g\<lparr>containArray := (containArray g)(index_contain g := id),
                               index_contain := index_contain g + 1\<rparr>)
                  else None
             else if index_overlap g < sizeofgroup
                  then Some (g\<lparr>overlapArray := (overlapArray g)(index_overlap g := id),
                               index_overlap := index_overlap g + 1\<rparr>)
                  else None)"

text \<open>What the handlers get from a search: the number of hits and the globals, \<open>None\<close> when the
  search failed or wrote past an array.\<close>

definition search_result :: "(nat \<times> search_globals option) option \<Rightarrow> (nat \<times> search_globals) option" where
  "search_result r = (case r of Some (n, Some g) \<Rightarrow> Some (n, g) | _ \<Rightarrow> None)"

lemma search_result_Some [simp]: "search_result (Some (n, Some g)) = Some (n, g)"
  by (simp add: search_result_def)

text \<open>\<open>memset(a, 0, n)\<close> on the first \<open>n\<close> cells.\<close>

definition memset0 :: "nat \<Rightarrow> (nat \<Rightarrow> int) \<Rightarrow> nat \<Rightarrow> int" where
  "memset0 n a = (\<lambda>i. if i < n then 0 else a i)"

definition initilListBegin :: "search_globals \<Rightarrow> search_globals" where
  "initilListBegin g =
     g\<lparr>index_contain := 0, index_overlap := 0,
       containArray := memset0 sizeofgroup (containArray g),
       overlapArray := memset0 sizeofgroup (overlapArray g)\<rparr>"

definition initilList :: "search_globals \<Rightarrow> search_globals" where
  "initilList g =
     g\<lparr>containArray := (if index_contain g > 0 then memset0 (index_contain g) (containArray g) else containArray g),
       overlapArray := (if index_overlap g > 0 then memset0 (index_overlap g) (overlapArray g) else overlapArray g),
       index_contain := 0, index_overlap := 0\<rparr>"

section \<open>The searches\<close>

text \<open>\<open>None\<close> is a failed assertion on the level, or a child pointer of the wrong kind (a
  record id followed as a node). The callback returns whether to go on.\<close>

fun search_leaf :: "(nat \<Rightarrow> 's \<Rightarrow> bool \<times> 's) \<Rightarrow> RTREEMBR \<Rightarrow> bool \<Rightarrow> RTREEBRANCH list \<Rightarrow> nat \<Rightarrow> 's \<Rightarrow>
    (nat \<times> 's) option" where
  "search_leaf cb mbr iscontain [] hitCount s = Some (hitCount, s)"
| "search_leaf cb mbr iscontain ((r, child) # bs) hitCount s =
     (if child \<noteq> NULL \<and>
         (if iscontain then RTreeOverlap mbr r \<and> RTreeContained mbr r
          else RTreeOverlap mbr r \<and> \<not> RTreeContained mbr r)
      then (case child of
              Tid t \<Rightarrow> (case cb t s of (go, s') \<Rightarrow>
                 if go then search_leaf cb mbr iscontain bs (hitCount + 1) s'
                 else Some (hitCount + 1, s'))
            | _ \<Rightarrow> None)
      else search_leaf cb mbr iscontain bs hitCount s)"

function RTreeSearchRect :: "(nat \<Rightarrow> 's \<Rightarrow> bool \<times> 's) \<Rightarrow> RTREEMBR \<Rightarrow> bool \<Rightarrow> bool \<Rightarrow> RTREENODE \<Rightarrow> 's \<Rightarrow>
    (nat \<times> 's) option"
  and search_inner :: "(nat \<Rightarrow> 's \<Rightarrow> bool \<times> 's) \<Rightarrow> RTREEMBR \<Rightarrow> bool \<Rightarrow> bool \<Rightarrow> RTREEBRANCH list \<Rightarrow> nat \<Rightarrow> 's \<Rightarrow>
    (nat \<times> 's) option" where
  "RTreeSearchRect cb mbr iscontain ovrandom (Node k level bs) s =
     (if level < 0 then None
      else if level > 0 then search_inner cb mbr iscontain ovrandom bs 0 s
      else search_leaf cb mbr iscontain bs 0 s)"
| "search_inner cb mbr iscontain ovrandom [] hitCount s = Some (hitCount, s)"
| "search_inner cb mbr iscontain ovrandom ((r, child) # bs) hitCount s =
     (if child \<noteq> NULL \<and> RTreeOverlap mbr r
      then (case child of
              Sub n \<Rightarrow>
                (case RTreeSearchRect cb mbr iscontain ovrandom n s of
                   None \<Rightarrow> None
                 | Some (h, s') \<Rightarrow>
                     if ovrandom \<and> hitCount + h > 3 then Some (hitCount + h, s')
                     else search_inner cb mbr iscontain ovrandom bs (hitCount + h) s')
            | _ \<Rightarrow> None)
      else search_inner cb mbr iscontain ovrandom bs hitCount s)"
  by pat_completeness auto

termination
  by (relation "measure (case_sum (\<lambda>(cb, m, c, v, n, s). size n)
       (\<lambda>(cb, m, c, v, bs, h, s). size_list (size_prod (\<lambda>_. 0) (size_child size)) bs))") auto

fun contain_leaf :: "(nat \<Rightarrow> 's \<Rightarrow> bool \<times> 's) \<Rightarrow> RTREEMBR \<Rightarrow> RTREEBRANCH list \<Rightarrow> nat \<Rightarrow> 's \<Rightarrow>
    (nat \<times> 's) option" where
  "contain_leaf cb mbr [] hitCount s = Some (hitCount, s)"
| "contain_leaf cb mbr ((r, child) # bs) hitCount s =
     (if child \<noteq> NULL \<and> RTreeContained r mbr
      then (case child of
              Tid t \<Rightarrow> (case cb t s of (go, s') \<Rightarrow>
                 if go then contain_leaf cb mbr bs (hitCount + 1) s'
                 else Some (hitCount + 1, s'))
            | _ \<Rightarrow> None)
      else contain_leaf cb mbr bs hitCount s)"

text \<open>The loop over the children of an inner node returns from within its first pass.\<close>

function RTreeSearchRect_contain :: "(nat \<Rightarrow> 's \<Rightarrow> bool \<times> 's) \<Rightarrow> RTREEMBR \<Rightarrow> RTREENODE \<Rightarrow> 's \<Rightarrow>
    (nat \<times> 's) option"
  and contain_inner :: "(nat \<Rightarrow> 's \<Rightarrow> bool \<times> 's) \<Rightarrow> RTREEMBR \<Rightarrow> RTREEBRANCH list \<Rightarrow> nat \<Rightarrow> 's \<Rightarrow>
    (nat \<times> 's) option" where
  "RTreeSearchRect_contain cb mbr (Node k level bs) s =
     (if level < 0 then None
      else if level > 0 then contain_inner cb mbr bs 0 s
      else contain_leaf cb mbr bs 0 s)"
| "contain_inner cb mbr [] hitCount s = Some (hitCount, s)"
| "contain_inner cb mbr ((r, child) # bs) hitCount s =
     (if child \<noteq> NULL \<and> RTreeOverlap mbr r
      then (case child of
              Sub n \<Rightarrow> map_option (\<lambda>(h, s'). (hitCount + h, s')) (RTreeSearchRect_contain cb mbr n s)
            | _ \<Rightarrow> None)
      else contain_inner cb mbr bs hitCount s)"
  by pat_completeness auto

termination
  by (relation "measure (case_sum (\<lambda>(cb, m, n, s). size n)
       (\<lambda>(cb, m, bs, h, s). size_list (size_prod (\<lambda>_. 0) (size_child size)) bs))") auto

definition RTreeSearch :: "RTREEROOT \<Rightarrow> (nat \<Rightarrow> 's \<Rightarrow> bool \<times> 's) \<Rightarrow> RTREEMBR \<Rightarrow> bool \<Rightarrow> bool \<Rightarrow> 's \<Rightarrow>
    (nat \<times> 's) option" where
  "RTreeSearch rt cb mbr iscontain overlapisrandom s =
     RTreeSearchRect cb mbr iscontain overlapisrandom (root_node rt) s"

definition RTreeSearch_Contain :: "RTREEROOT \<Rightarrow> (nat \<Rightarrow> 's \<Rightarrow> bool \<times> 's) \<Rightarrow> RTREEMBR \<Rightarrow> 's \<Rightarrow>
    (nat \<times> 's) option" where
  "RTreeSearch_Contain rt cb mbr s = RTreeSearchRect_contain cb mbr (root_node rt) s"

section \<open>Search is a filter of the records\<close>

definition wanted :: "RTREEMBR \<Rightarrow> bool \<Rightarrow> RTREEMBR \<Rightarrow> bool" where
  "wanted mbr iscontain r \<longleftrightarrow> RTreeOverlap mbr r \<and> (RTreeContained mbr r = iscontain)"

definition answers :: "RTREEMBR \<Rightarrow> bool \<Rightarrow> (RTREEMBR \<times> nat) list \<Rightarrow> nat list" where
  "answers mbr iscontain es = map snd (filter (\<lambda>e. wanted mbr iscontain (fst e)) es)"

lemma answers_simps [simp]:
  "answers m c [] = []"
  "answers m c (e # es) = (if wanted m c (fst e) then snd e # answers m c es else answers m c es)"
  "answers m c (es @ fs) = answers m c es @ answers m c fs"
  by (simp_all add: answers_def)

text \<open>A callback that never asks to stop, with its effect \<open>f\<close>.\<close>

definition always_on :: "(nat \<Rightarrow> 's \<Rightarrow> bool \<times> 's) \<Rightarrow> (nat \<Rightarrow> 's \<Rightarrow> 's) \<Rightarrow> bool" where
  "always_on cb f \<longleftrightarrow> (\<forall>t s. cb t s = (True, f t s))"

lemma entries_inside:
  assumes "wf_branch l b" "e \<in> set (child_entries (fst b) (snd b))"
  shows "mbr_le (fst e) (fst b)"
  using assms
proof (induction l arbitrary: b)
  case 0
  then show ?case by (auto split: child.splits)
next
  case (Suc l)
  obtain r c where b: "b = (r, Sub c)" using wf_branch_Suc [OF Suc.prems(1)] by metis
  have "e \<in> set (node_entries c)" using Suc.prems(2) by (simp add: b)
  then obtain x where x: "x \<in> set (live c)" "e \<in> set (child_entries (fst x) (snd x))"
    unfolding node_entries_set by blast
  have "wf_node l c \<and> (\<forall>e\<in>set (live c). mbr_le (fst e) r)"
    using Suc.prems(1) unfolding b wf_branch_Sub by blast
  then have "mbr_le (fst x) r \<and> wf_branch l x" using x(1) unfolding wf_node_def by blast
  then show ?case using Suc.IH x(2) mbr_le_trans b by fastforce
qed

lemma leaf_filter:
  assumes "always_on cb f" "\<forall>b\<in>set (filter used bs). wf_branch 0 b"
  shows "search_leaf cb m c bs h s =
     Some (h + length (answers m c (branches_entries bs)), fold f (answers m c (branches_entries bs)) s)"
  using assms(2)
proof (induction bs arbitrary: h s)
  case Nil
  then show ?case by simp
next
  case (Cons b bs)
  obtain r ch where b: "b = (r, ch)" by (cases b)
  have "\<forall>b\<in>set (filter used bs). wf_branch 0 b" using Cons.prems by (simp split: if_splits)
  then have IH: "search_leaf cb m c bs k u =
       Some (k + length (answers m c (branches_entries bs)), fold f (answers m c (branches_entries bs)) u)" for k u
    by (rule Cons.IH)
  show ?case
  proof (cases ch)
    case NULL
    then show ?thesis using IH by (simp add: b)
  next
    case (Tid t)
    have cb: "cb t s = (True, f t s)" using assms(1) by (simp add: always_on_def)
    have w: "(if c then RTreeOverlap m r \<and> RTreeContained m r
        else RTreeOverlap m r \<and> \<not> RTreeContained m r) = wanted m c r"
      by (cases c) (simp_all add: wanted_def)
    show ?thesis by (simp add: b Tid cb IH w)
  next
    case (Sub n)
    then show ?thesis using Cons.prems by (simp add: b)
  qed
qed

text \<open>The hits reported are an initial part of all answers, and a proper one only when the
  search may stop early and has more than three.\<close>

definition stops_late :: "bool \<Rightarrow> nat \<Rightarrow> nat list \<Rightarrow> nat list \<Rightarrow> bool" where
  "stops_late ov h hits all \<longleftrightarrow> prefix hits all \<and> (hits = all \<or> ov \<and> h + length hits > 3)"

lemma inner_filter:
  assumes "\<forall>b\<in>set (filter used bs). wf_branch (Suc l) b"
    and node: "\<And>n s. wf_node l n \<Longrightarrow> \<exists>hits. RTreeSearchRect cb m c ov n s = Some (length hits, fold f hits s) \<and>
        stops_late ov 0 hits (answers m c (node_entries n))"
  shows "\<exists>hits. search_inner cb m c ov bs h s = Some (h + length hits, fold f hits s) \<and>
     stops_late ov h hits (answers m c (branches_entries bs))"
  using assms(1)
proof (induction bs arbitrary: h s)
  case Nil
  then show ?case by (auto simp: stops_late_def)
next
  case (Cons b bs)
  obtain r ch where b: "b = (r, ch)" by (cases b)
  have wfs: "\<forall>b\<in>set (filter used bs). wf_branch (Suc l) b" using Cons.prems by (simp split: if_splits)
  show ?case
  proof (cases "ch = NULL")
    case True
    then show ?thesis using Cons.IH [OF wfs] by (simp add: b)
  next
    case False
    then have wb: "wf_branch (Suc l) (r, ch)" using Cons.prems by (simp add: b)
    then obtain n where n: "ch = Sub n" using wf_branch_Suc by blast
    then have wn: "wf_node l n" using wb by (simp add: wf_branch_Sub del: wf_branch.simps)
    show ?thesis
    proof (cases "RTreeOverlap m r")
      case False
      have "\<not> wanted m c (fst e)" if "e \<in> set (node_entries n)" for e
        using entries_inside [OF wb, of e] that False Overlap_mono n unfolding wanted_def by auto
      then have "answers m c (node_entries n) = []" by (auto simp: answers_def filter_empty_conv)
      then show ?thesis using Cons.IH [OF wfs] False by (simp add: b n)
    next
      case True
      obtain hs where hs: "RTreeSearchRect cb m c ov n s = Some (length hs, fold f hs s)"
        "stops_late ov 0 hs (answers m c (node_entries n))"
        using node [OF wn] by blast
      obtain gs where gs: "search_inner cb m c ov bs (h + length hs) (fold f hs s)
          = Some (h + length hs + length gs, fold f gs (fold f hs s))"
        "stops_late ov (h + length hs) gs (answers m c (branches_entries bs))"
        using Cons.IH [OF wfs] by blast
      show ?thesis
      proof (cases "ov \<and> h + length hs > 3")
        case stop: True
        have "stops_late ov h hs (answers m c (branches_entries (b # bs)))"
          using hs(2) stop by (auto simp: stops_late_def b n)
        then show ?thesis using hs(1) stop True by (auto simp: b n)
      next
        case go: False
        then have "hs = answers m c (node_entries n)" using hs(2) by (auto simp: stops_late_def)
        then have "stops_late ov h (hs @ gs) (answers m c (branches_entries (b # bs)))"
          using gs(2) by (auto simp: stops_late_def b n)
        moreover have "search_inner cb m c ov (b # bs) h s = Some (h + length (hs @ gs), fold f (hs @ gs) s)"
          using hs(1) gs(1) go True by (auto simp: b n add.assoc)
        ultimately show ?thesis by blast
      qed
    qed
  qed
qed

lemma SearchRect_filter:
  assumes "always_on cb f" "wf_node l n"
  shows "\<exists>hits. RTreeSearchRect cb m c ov n s = Some (length hits, fold f hits s) \<and>
     stops_late ov 0 hits (answers m c (node_entries n))"
  using assms(2)
proof (induction l arbitrary: n s)
  case 0
  obtain k lev bs where n: "n = Node k lev bs" by (cases n)
  then have "lev = 0" "\<forall>b\<in>set (filter used bs). wf_branch 0 b" using 0 unfolding wf_node_def by auto
  then show ?case using leaf_filter [OF assms(1), of bs m c 0 s] by (auto simp: n stops_late_def)
next
  case (Suc l)
  obtain k lev bs where n: "n = Node k lev bs" by (cases n)
  then have "lev = int (Suc l)" "\<forall>b\<in>set (filter used bs). wf_branch (Suc l) b"
    using Suc.prems unfolding wf_node_def by auto
  then show ?case using inner_filter [of bs l cb m c ov f 0 s] Suc.IH by (auto simp: n)
qed


section \<open>The arrays after a search\<close>

abbreviation record_hit :: "nat \<Rightarrow> search_globals option \<Rightarrow> search_globals option" where
  "record_hit t g \<equiv> snd (MySearchCallback t g)"

lemma callback_always_on: "always_on MySearchCallback record_hit"
  by (simp add: always_on_def MySearchCallback_def)

definition contain_ids :: "search_globals \<Rightarrow> int list" where
  "contain_ids g = map (containArray g) [0..<index_contain g]"

definition overlap_ids :: "search_globals \<Rightarrow> int list" where
  "overlap_ids g = map (overlapArray g) [0..<index_overlap g]"

text \<open>The hits are all in the array when there is room for them and their ids fit into an \<open>int\<close>.\<close>

lemma fold_record_contain:
  assumes "iscontain_M g" "index_contain g + length hits \<le> sizeofgroup" "\<forall>h\<in>set hits. h < 2147483648"
  obtains g' where "fold record_hit hits (Some g) = Some g'" "contain_ids g' = contain_ids g @ map int hits"
    "overlap_ids g' = overlap_ids g" "index_contain g' = index_contain g + length hits"
    "index_overlap g' = index_overlap g" "iscontain_M g'"
  using assms
proof (induction hits arbitrary: g thesis)
  case Nil
  then show ?case by simp
next
  case (Cons h hits)
  define g1 where "g1 = g\<lparr>containArray := (containArray g)(index_contain g := int h), index_contain := index_contain g + 1\<rparr>"
  have room: "index_contain g < sizeofgroup" using Cons.prems(3) by simp
  have "int32 (int h)" using Cons.prems(4) by (simp add: int32_def)
  then have hit: "record_hit h (Some g) = Some g1"
    using Cons.prems(2) room by (simp add: MySearchCallback_def Let_def g1_def)
  have g1: "iscontain_M g1" "index_contain g1 + length hits \<le> sizeofgroup" "\<forall>h\<in>set hits. h < 2147483648"
    using Cons.prems(2-4) by (simp_all add: g1_def)
  obtain g' where g': "fold record_hit hits (Some g1) = Some g'" "contain_ids g' = contain_ids g1 @ map int hits"
    "overlap_ids g' = overlap_ids g1" "index_contain g' = index_contain g1 + length hits"
    "index_overlap g' = index_overlap g1" "iscontain_M g'"
    by (rule Cons.IH [OF _ g1])
  show ?case
    by (rule Cons.prems(1) [of g']) (use g' hit in \<open>simp_all add: g1_def contain_ids_def overlap_ids_def\<close>)
qed

lemma fold_record_overlap:
  assumes "\<not> iscontain_M g" "index_overlap g + length hits \<le> sizeofgroup" "\<forall>h\<in>set hits. h < 2147483648"
  obtains g' where "fold record_hit hits (Some g) = Some g'" "overlap_ids g' = overlap_ids g @ map int hits"
    "contain_ids g' = contain_ids g" "index_overlap g' = index_overlap g + length hits"
    "index_contain g' = index_contain g" "\<not> iscontain_M g'"
  using assms
proof (induction hits arbitrary: g thesis)
  case Nil
  then show ?case by simp
next
  case (Cons h hits)
  define g1 where "g1 = g\<lparr>overlapArray := (overlapArray g)(index_overlap g := int h), index_overlap := index_overlap g + 1\<rparr>"
  have room: "index_overlap g < sizeofgroup" using Cons.prems(3) by simp
  have "int32 (int h)" using Cons.prems(4) by (simp add: int32_def)
  then have hit: "record_hit h (Some g) = Some g1"
    using Cons.prems(2) room by (simp add: MySearchCallback_def Let_def g1_def)
  have g1: "\<not> iscontain_M g1" "index_overlap g1 + length hits \<le> sizeofgroup" "\<forall>h\<in>set hits. h < 2147483648"
    using Cons.prems(2-4) by (simp_all add: g1_def)
  obtain g' where g': "fold record_hit hits (Some g1) = Some g'" "overlap_ids g' = overlap_ids g1 @ map int hits"
    "contain_ids g' = contain_ids g1" "index_overlap g' = index_overlap g1 + length hits"
    "index_contain g' = index_contain g1" "\<not> iscontain_M g'"
    by (rule Cons.IH [OF _ g1])
  show ?case
    by (rule Cons.prems(1) [of g']) (use g' hit in \<open>simp_all add: g1_def contain_ids_def overlap_ids_def\<close>)
qed

text \<open>Past the end, the globals are lost.\<close>

lemma fold_record_lost: "fold record_hit hits None = None"
  by (induction hits) (simp_all add: MySearchCallback_def)

lemma fold_record_full:
  "iscontain_M g \<Longrightarrow> sizeofgroup < index_contain g + length hits \<Longrightarrow> index_contain g \<le> sizeofgroup \<Longrightarrow>
     fold record_hit hits (Some g) = None"
proof (induction hits arbitrary: g)
  case (Cons h hits)
  show ?case
  proof (cases "index_contain g < sizeofgroup")
    case True
    have "fold record_hit hits (Some (g\<lparr>containArray := (containArray g)(index_contain g := i32 (int h)),
        index_contain := index_contain g + 1\<rparr>)) = None"
      by (rule Cons.IH) (use Cons.prems True in simp_all)
    then show ?thesis using Cons.prems(1) True by (simp add: MySearchCallback_def Let_def)
  next
    case False
    then have "record_hit h (Some g) = None" using Cons.prems(1) by (simp add: MySearchCallback_def Let_def)
    then show ?thesis by (simp only: fold_simps fold_record_lost)
  qed
qed simp

lemma initilList_empty:
  "contain_ids (initilList g) = []" "overlap_ids (initilList g) = []"
  "iscontain_M (initilList g) = iscontain_M g"
  by (simp_all add: initilList_def contain_ids_def overlap_ids_def)

text \<open>The search of the SGB handlers: the arrays are reset, \<open>iscontain_M\<close> is set, and the
  tree is searched for the rectangles that contain the query.\<close>

definition contain_search :: "RTREEROOT \<Rightarrow> RTREEMBR \<Rightarrow> bool \<Rightarrow> search_globals \<Rightarrow> (nat \<times> search_globals) option" where
  "contain_search rt m ov g =
     search_result (RTreeSearch rt MySearchCallback m True ov (Some ((initilList g)\<lparr>iscontain_M := True\<rparr>)))"

text \<open>The records of a tree fit into the arrays, and their ids into an \<open>int\<close>.\<close>

definition ids_fit :: "RTREEROOT \<Rightarrow> bool" where
  "ids_fit rt \<longleftrightarrow> length (node_entries (root_node rt)) \<le> sizeofgroup \<and>
     (\<forall>e\<in>set (node_entries (root_node rt)). snd e < 2147483648)"

lemma answers_fit:
  assumes "ids_fit rt"
  shows "length (answers m c (node_entries (root_node rt))) \<le> sizeofgroup"
    "\<forall>h\<in>set (answers m c (node_entries (root_node rt))). h < 2147483648"
proof -
  let ?es = "node_entries (root_node rt)"
  have "length (answers m c ?es) \<le> length ?es" unfolding answers_def length_map by (rule length_filter_le)
  then show "length (answers m c ?es) \<le> sizeofgroup" using assms by (simp add: ids_fit_def)
  show "\<forall>h\<in>set (answers m c ?es). h < 2147483648" using assms by (auto simp: ids_fit_def answers_def)
qed

lemma prefix_fit:
  assumes "ids_fit rt" "prefix hits (answers m c (node_entries (root_node rt)))"
  shows "length hits \<le> sizeofgroup" "\<forall>h\<in>set hits. h < 2147483648"
  using answers_fit [OF assms(1), of m c] prefix_length_le [OF assms(2)] set_mono_prefix [OF assms(2)] by auto

lemma contain_search_hits:
  assumes "wf_root rt" "ids_fit rt"
  obtains hits g' where "contain_search rt m ov g = Some (length hits, g')"
    "contain_ids g' = map int hits" "overlap_ids g' = []" "index_contain g' = length hits"
    "stops_late ov 0 hits (answers m True (node_entries (root_node rt)))"
proof -
  let ?g = "(initilList g)\<lparr>iscontain_M := True\<rparr>"
  obtain l where "wf_node l (root_node rt)" using assms(1) unfolding wf_root_def by blast
  then obtain hits where h: "RTreeSearchRect MySearchCallback m True ov (root_node rt) (Some ?g)
      = Some (length hits, fold record_hit hits (Some ?g))"
    "stops_late ov 0 hits (answers m True (node_entries (root_node rt)))"
    using SearchRect_filter [OF callback_always_on] by blast
  have "prefix hits (answers m True (node_entries (root_node rt)))" using h(2) by (simp add: stops_late_def)
  note fit = prefix_fit [OF assms(2) this]
  have start: "iscontain_M ?g" "index_contain ?g + length hits \<le> sizeofgroup" "contain_ids ?g = []" "overlap_ids ?g = []"
    "index_contain ?g = 0"
    using fit(1) by (simp_all add: initilList_def contain_ids_def overlap_ids_def)
  obtain g' where g': "fold record_hit hits (Some ?g) = Some g'" "contain_ids g' = contain_ids ?g @ map int hits"
    "overlap_ids g' = overlap_ids ?g" "index_contain g' = index_contain ?g + length hits"
    by (rule fold_record_contain [OF start(1,2) fit(2)])
  show thesis
    by (rule that [OF _ _ _ _ h(2)]) (use h(1) g' start(3-5) in \<open>simp_all add: contain_search_def RTreeSearch_def\<close>)
qed

section \<open>Search_Contain\<close>

definition enclosed :: "RTREEMBR \<Rightarrow> (RTREEMBR \<times> nat) list \<Rightarrow> nat list" where
  "enclosed mbr es = map snd (filter (\<lambda>e. RTreeContained (fst e) mbr) es)"

lemma enclosed_simps [simp]:
  "enclosed m [] = []"
  "enclosed m (e # es) = (if RTreeContained (fst e) m then snd e # enclosed m es else enclosed m es)"
  "enclosed m (es @ fs) = enclosed m es @ enclosed m fs"
  by (simp_all add: enclosed_def)

lemma contain_leaf_filter:
  assumes "always_on cb f" "\<forall>b\<in>set (filter used bs). wf_branch 0 b"
  shows "contain_leaf cb m bs h s =
     Some (h + length (enclosed m (branches_entries bs)), fold f (enclosed m (branches_entries bs)) s)"
  using assms(2)
proof (induction bs arbitrary: h s)
  case Nil
  then show ?case by simp
next
  case (Cons b bs)
  obtain r ch where b: "b = (r, ch)" by (cases b)
  have "\<forall>b\<in>set (filter used bs). wf_branch 0 b" using Cons.prems by (simp split: if_splits)
  then have IH: "contain_leaf cb m bs k u =
       Some (k + length (enclosed m (branches_entries bs)), fold f (enclosed m (branches_entries bs)) u)" for k u
    by (rule Cons.IH)
  show ?case
  proof (cases ch)
    case NULL
    then show ?thesis using IH by (simp add: b)
  next
    case (Tid t)
    have "cb t s = (True, f t s)" using assms(1) by (simp add: always_on_def)
    then show ?thesis by (simp add: b Tid IH)
  next
    case (Sub n)
    then show ?thesis using Cons.prems by (simp add: b)
  qed
qed

lemma leaf_entries_length:
  "\<forall>b\<in>set (filter used bs). wf_branch 0 b \<Longrightarrow> length (branches_entries bs) \<le> length bs"
proof (induction bs)
  case (Cons b bs)
  obtain r ch where b: "b = (r, ch)" by (cases b)
  have "\<forall>b\<in>set (filter used bs). wf_branch 0 b" using Cons.prems by simp
  then have "length (branches_entries bs) \<le> length bs" by (rule Cons.IH)
  then show ?case using Cons.prems by (cases ch) (simp_all add: b)
qed simp

lemma enclosed_length: "length (enclosed m es) \<le> length es"
  by (simp add: enclosed_def)

lemma contain_inner_sound:
  assumes "\<forall>b\<in>set (filter used bs). wf_branch (Suc l) b"
    and node: "\<And>n s. wf_node l n \<Longrightarrow> \<exists>hits. RTreeSearchRect_contain cb m n s = Some (length hits, fold f hits s) \<and>
        subseq hits (enclosed m (node_entries n)) \<and> length hits \<le> MAXCARD"
  shows "\<exists>hits. contain_inner cb m bs h s = Some (h + length hits, fold f hits s) \<and>
     subseq hits (enclosed m (branches_entries bs)) \<and> length hits \<le> MAXCARD"
  using assms(1)
proof (induction bs)
  case Nil
  then show ?case by auto
next
  case (Cons b bs)
  obtain r ch where b: "b = (r, ch)" by (cases b)
  have "\<forall>b\<in>set (filter used bs). wf_branch (Suc l) b" using Cons.prems by (simp split: if_splits)
  then obtain gs where gs: "contain_inner cb m bs h s = Some (h + length gs, fold f gs s)"
    "subseq gs (enclosed m (branches_entries bs))" "length gs \<le> MAXCARD" using Cons.IH by blast
  then have late: "subseq gs (enclosed m (branches_entries (b # bs)))"
    by (simp add: list_emb_append2)
  show ?case
  proof (cases "ch \<noteq> NULL \<and> RTreeOverlap m r")
    case False
    then have "contain_inner cb m (b # bs) h s = Some (h + length gs, fold f gs s)"
      using gs(1) by (auto simp: b)
    then show ?thesis using late gs(3) by blast
  next
    case True
    then have wb: "wf_branch (Suc l) (r, ch)" using Cons.prems by (simp add: b)
    then obtain n where n: "ch = Sub n" using wf_branch_Suc by blast
    then have "wf_node l n" using wb by (simp add: wf_branch_Sub del: wf_branch.simps)
    then obtain hs where hs: "RTreeSearchRect_contain cb m n s = Some (length hs, fold f hs s)"
      "subseq hs (enclosed m (node_entries n))" "length hs \<le> MAXCARD" using node by blast
    have "contain_inner cb m (b # bs) h s = Some (h + length hs, fold f hs s)"
      using True hs(1) by (simp add: b n)
    moreover have "subseq hs (enclosed m (branches_entries (b # bs)))"
      using hs(2) by (simp add: b n list_emb_prefix)
    ultimately show ?thesis using hs(3) by blast
  qed
qed

lemma contain_node_sound:
  assumes "always_on cb f" "wf_node l n"
  shows "\<exists>hits. RTreeSearchRect_contain cb m n s = Some (length hits, fold f hits s) \<and>
     subseq hits (enclosed m (node_entries n)) \<and> length hits \<le> MAXCARD \<and>
     (l = 0 \<longrightarrow> hits = enclosed m (node_entries n))"
  using assms(2)
proof (induction l arbitrary: n s)
  case 0
  obtain k lev bs where n: "n = Node k lev bs" by (cases n)
  then have "lev = 0" "\<forall>b\<in>set (filter used bs). wf_branch 0 b" using 0 unfolding wf_node_def by auto
  moreover have "length bs = MAXCARD" using 0 by (simp add: n wf_node_def node_shape_def)
  ultimately have "length (enclosed m (branches_entries bs)) \<le> MAXCARD"
    using leaf_entries_length [of bs] enclosed_length [of m "branches_entries bs"] by linarith
  then show ?case using contain_leaf_filter [OF assms(1), of bs m 0 s] \<open>lev = 0\<close> \<open>\<forall>b\<in>set (filter used bs). wf_branch 0 b\<close>
    by (auto simp: n)
next
  case (Suc l)
  obtain k lev bs where n: "n = Node k lev bs" by (cases n)
  have lev: "lev = int (Suc l)" and bs: "\<forall>b\<in>set (filter used bs). wf_branch (Suc l) b"
    using Suc.prems unfolding n wf_node_def by auto
  have "\<exists>hits. RTreeSearchRect_contain cb m n' s' = Some (length hits, fold f hits s') \<and>
      subseq hits (enclosed m (node_entries n')) \<and> length hits \<le> MAXCARD" if "wf_node l n'" for n' s'
    using Suc.IH [OF that] by blast
  from contain_inner_sound [OF bs this, of 0 s] show ?case using lev by (simp add: n)
qed

section \<open>Properties\<close>

text \<open>A tree of two leaves, six records each.\<close>

definition two_leaves :: RTREEROOT where
  "two_leaves =
     \<lparr>root_node = Node 2 1
        ([(MBR 0 0 0 0, Sub (Node 6 0 (replicate 6 (MBR 0 0 0 0, Tid 1) @ replicate 6 RTreeInitBranch))),
          (MBR 3 3 3 3, Sub (Node 6 0 (replicate 6 (MBR 3 3 3 3, Tid 2) @ replicate 6 RTreeInitBranch)))]
         @ replicate 10 RTreeInitBranch)\<rparr>"

lemma two_leaves_wf: "wf_root two_leaves"
proof -
  have "wf_node 1 (root_node two_leaves)"
    by (simp add: two_leaves_def wf_node_def node_shape_def RTreeInitBranch_def small_mbr_def
        proper_def mbr_le_def MAXCARD_12 MINFILL_6 numeral_nat)
  then show ?thesis unfolding wf_root_def
    by (intro exI [of _ 1]) (simp add: two_leaves_def)
qed

lemma two_leaves_entries:
  "node_entries (root_node two_leaves) = replicate 6 (MBR 0 0 0 0, 1) @ replicate 6 (MBR 3 3 3 3, 2)"
  by (simp add: two_leaves_def RTreeInitBranch_def numeral_nat)

lemma two_leaves_fit: "ids_fit two_leaves"
  by (simp add: ids_fit_def two_leaves_entries sizeofgroup_def)

text \<open>C31. In a well formed tree, with ids that fit into an \<open>int\<close>, the search for the rectangles
  containing the query reports, in \<open>containArray\<close>, exactly the ids of the records whose rectangle
  contains it, as long as these are not more than the 2,000,000 cells of the array. With more it
  writes past the end of the array.\<close>

theorem RTreeSearch_finds_containing:
  fixes rt :: RTREEROOT and m :: RTREEMBR and g :: search_globals
  assumes "wf_root rt" "\<forall>e\<in>set (node_entries (root_node rt)). snd e < 2147483648"
  defines "found \<equiv> answers m True (node_entries (root_node rt))"
  shows "if length found \<le> sizeofgroup
     then \<exists>g'. contain_search rt m False g = Some (index_contain g', g') \<and> contain_ids g' = map int found
     else contain_search rt m False g = None"
proof -
  let ?g = "(initilList g)\<lparr>iscontain_M := True\<rparr>"
  have g0: "iscontain_M ?g" "index_contain ?g = 0" "contain_ids ?g = []"
    by (simp_all add: initilList_def contain_ids_def)
  obtain l where "wf_node l (root_node rt)" using assms(1) unfolding wf_root_def by blast
  then have run: "contain_search rt m False g = search_result (Some (length found, fold record_hit found (Some ?g)))"
    using SearchRect_filter [OF callback_always_on, of l "root_node rt" m True False "Some ?g"]
    by (auto simp: contain_search_def RTreeSearch_def stops_late_def found_def)
  have ids: "\<forall>h\<in>set found. h < 2147483648" using assms(2) by (auto simp: found_def answers_def)
  show ?thesis
  proof (cases "length found \<le> sizeofgroup")
    case True
    obtain g' where g': "fold record_hit found (Some ?g) = Some g'" "contain_ids g' = contain_ids ?g @ map int found"
      "index_contain g' = index_contain ?g + length found"
      by (rule fold_record_contain [OF g0(1) _ ids]) (use True g0(2) in auto)
    then show ?thesis using run True g0 by auto
  next
    case False
    have "fold record_hit found (Some ?g) = None"
      by (rule fold_record_full) (use False g0 in simp_all)
    then show ?thesis using run False by (simp add: search_result_def)
  qed
qed

lemma RTreeSearch_finds_containing_witness:
  "\<exists>g'. contain_search two_leaves (MBR 3 3 3 3) False
      \<lparr>containArray = (\<lambda>_. 5), overlapArray = (\<lambda>_. 0), index_contain = 1, index_overlap = 0, iscontain_M = False\<rparr>
      = Some (index_contain g', g') \<and> contain_ids g' = [2, 2, 2, 2, 2, 2]"
proof -
  have ans: "answers (MBR 3 3 3 3) True (node_entries (root_node two_leaves)) = [2, 2, 2, 2, 2, 2]"
    by (simp add: two_leaves_entries answers_def wanted_def RTreeOverlap_def RTreeContained_def INVALID_RECT_def numeral_nat)
  show ?thesis
    using RTreeSearch_finds_containing [OF two_leaves_wf, of "MBR 3 3 3 3"] unfolding ans
    by (simp add: two_leaves_entries sizeofgroup_def)
qed

text \<open>With \<open>overlapisrandom\<close> the search may return early, but the ids it reports are an
  initial part of the full answer, and all of it unless more than three were found. In
  particular a tuple that fits some rectangle is always given one.\<close>

theorem RTreeSearch_random_prefix:
  assumes "wf_root rt" "ids_fit rt"
  shows "\<exists>hits g'. contain_search rt m True g = Some (length hits, g') \<and> contain_ids g' = map int hits \<and>
     prefix hits (answers m True (node_entries (root_node rt))) \<and>
     (length hits \<le> 3 \<longrightarrow> hits = answers m True (node_entries (root_node rt)))"
proof -
  obtain hits g' where h: "contain_search rt m True g = Some (length hits, g')"
    "contain_ids g' = map int hits" "stops_late True 0 hits (answers m True (node_entries (root_node rt)))"
    using contain_search_hits [OF assms] by metis
  then show ?thesis by (intro exI [of _ hits] exI [of _ g']) (auto simp: stops_late_def)
qed

lemma RTreeSearch_random_prefix_witness:
  "\<exists>hits g'. contain_search two_leaves (MBR 1 1 1 1) True
      \<lparr>containArray = (\<lambda>_. 5), overlapArray = (\<lambda>_. 0), index_contain = 1, index_overlap = 0, iscontain_M = False\<rparr>
      = Some (length hits, g') \<and> contain_ids g' = map int hits \<and>
     prefix hits (answers (MBR 1 1 1 1) True (node_entries (root_node two_leaves))) \<and>
     (length hits \<le> 3 \<longrightarrow> hits = answers (MBR 1 1 1 1) True (node_entries (root_node two_leaves)))"
  by (rule RTreeSearch_random_prefix [OF two_leaves_wf two_leaves_fit])

text \<open>\<open>RTreeSearch_Contain\<close> reports only records inside the query rectangle, and all of
  them while the tree is a single leaf. It never reports more than the twelve records of one
  leaf, so the result array has room for them.\<close>

theorem RTreeSearch_Contain_sound:
  assumes "wf_root rt"
  shows "\<exists>hits. RTreeSearch_Contain rt MySearchCallback m og = Some (length hits, fold record_hit hits og) \<and>
     subseq hits (enclosed m (node_entries (root_node rt))) \<and> length hits \<le> MAXCARD \<and>
     (nlevel (root_node rt) = 0 \<longrightarrow> hits = enclosed m (node_entries (root_node rt)))"
proof -
  obtain l where l: "wf_node l (root_node rt)" using assms unfolding wf_root_def by blast
  then have "nlevel (root_node rt) = int l" by (simp add: wf_node_def)
  then show ?thesis using contain_node_sound [OF callback_always_on l, of m og]
    by (auto simp: RTreeSearch_Contain_def)
qed

lemma RTreeSearch_Contain_sound_witness:
  "\<exists>hits. RTreeSearch_Contain two_leaves MySearchCallback (MBR 0 0 5 5) None
      = Some (length hits, fold record_hit hits None) \<and>
     subseq hits (enclosed (MBR 0 0 5 5) (node_entries (root_node two_leaves))) \<and> length hits \<le> MAXCARD \<and>
     (nlevel (root_node two_leaves) = 0 \<longrightarrow> hits = enclosed (MBR 0 0 5 5) (node_entries (root_node two_leaves)))"
  by (rule RTreeSearch_Contain_sound [OF two_leaves_wf])

text \<open>Above one leaf \<open>RTreeSearch_Contain\<close> is incomplete: in a well formed tree of two
  leaves, with all twelve records inside the query, only those of the first leaf come back,
  since the loop over the children returns within its first pass.\<close>

theorem RTreeSearch_Contain_misses:
  "wf_root two_leaves \<and>
   length (enclosed (MBR (-1) (-1) 4 4) (node_entries (root_node two_leaves))) = 12 \<and>
   map_option fst (RTreeSearch_Contain two_leaves MySearchCallback (MBR (-1) (-1) 4 4) g) = Some 6"
proof -
  have "length (enclosed (MBR (-1) (-1) 4 4) (node_entries (root_node two_leaves))) = 12"
    by (simp add: two_leaves_entries RTreeContained_def INVALID_RECT_def numeral_nat)
  moreover have "map_option fst (RTreeSearch_Contain two_leaves MySearchCallback (MBR (-1) (-1) 4 4) g) = Some 6"
    by (simp add: two_leaves_def RTreeInitBranch_def RTreeContained_def INVALID_RECT_def
        RTreeSearch_Contain_def RTreeOverlap_def MySearchCallback_def numeral_nat)
  ultimately show ?thesis using two_leaves_wf by blast
qed

end
