(* ===== verification/RTreeDelete.thy ===== *)
theory RTreeDelete
  imports RTreeSearch
begin

text \<open>
  Deletion from the R-tree, \<^verbatim>\<open>executor/rtreeM.c\<close>: the descent \<open>_RTreeDeleteRect\<close>, which
  disconnects the record and collects nodes that became less than half full, their
  reinsertion branch by branch at their own level, and the removal of a redundant root.
  Deletion removes exactly one record with the given id and keeps the tree well formed. The
  file closes with the interface of a spatial index and its instance, the R-tree.
\<close>

section \<open>Operations\<close>

definition RTreeDisconnectBranch :: "RTREENODE \<Rightarrow> nat \<Rightarrow> RTREENODE option" where
  "RTreeDisconnectBranch n i =
     (if i < MAXKIDS n \<and> i < length (branch n) \<and> used (branch n ! i)
      then Some (Node (ncount n - 1) (nlevel n) ((branch n)[i := RTreeInitBranch]))
      else None)"

text \<open>
  The outer option is an assertion or a wrong kind of pointer, the inner one \<open>None\<close> when the
  record was not found (result 1). The list holds the nodes to reinsert, the latest first.
\<close>

function RTreeDeleteRect :: "RTREEMBR \<Rightarrow> nat \<Rightarrow> RTREENODE \<Rightarrow> RTREENODE list \<Rightarrow>
    (RTREENODE \<times> RTREENODE list) option option"
  and delete_loop :: "RTREEMBR \<Rightarrow> nat \<Rightarrow> RTREENODE \<Rightarrow> RTREENODE list \<Rightarrow> nat \<Rightarrow> RTREEBRANCH list \<Rightarrow>
    (RTREENODE \<times> RTREENODE list) option option" where
  "RTreeDeleteRect mbr tid (Node k level bs) ee =
     (if level < 0 then None
      else if level > 0 then delete_loop mbr tid (Node k level bs) ee 0 bs
      else (case find_index (\<lambda>b. used b \<and> snd b = child_of_tid tid) bs of
              None \<Rightarrow> Some None
            | Some i \<Rightarrow> map_option (\<lambda>n. Some (n, ee)) (RTreeDisconnectBranch (Node k level bs) i)))"
| "delete_loop mbr tid n ee i [] = Some None"
| "delete_loop mbr tid n ee i ((r, child) # rest) =
     (if child \<noteq> NULL \<and> RTreeOverlap mbr r
      then (case child of
              Sub c \<Rightarrow>
                (case RTreeDeleteRect mbr tid c ee of
                   None \<Rightarrow> None
                 | Some None \<Rightarrow> delete_loop mbr tid n ee (i + 1) rest
                 | Some (Some (c', ee')) \<Rightarrow>
                     if ncount c' \<ge> MINNODEFILL
                     then Some (Some (Node (ncount n) (nlevel n)
                            ((branch n)[i := (RTreeNodeCover c', Sub c')]), ee'))
                     else map_option (\<lambda>n'. Some (n', c' # ee')) (RTreeDisconnectBranch n i))
            | _ \<Rightarrow> None)
      else delete_loop mbr tid n ee (i + 1) rest)"
  by pat_completeness auto

termination
  by (relation "measure (case_sum (\<lambda>(m, t, n, ee). size n)
       (\<lambda>(m, t, n, ee, i, bs). size_list (size_prod (\<lambda>_. 0) (size_child size)) bs))") auto

fun reinsert_branches :: "RTREEROOT \<Rightarrow> int \<Rightarrow> RTREEBRANCH list \<Rightarrow> RTREEROOT option" where
  "reinsert_branches rt level [] = Some rt"
| "reinsert_branches rt level (b # bs) =
     (if used b
      then (case RTreeInsert rt (fst b) (snd b) level of
              None \<Rightarrow> None
            | Some (rt', _) \<Rightarrow> reinsert_branches rt' level bs)
      else reinsert_branches rt level bs)"

fun reinsert_nodes :: "RTREEROOT \<Rightarrow> RTREENODE list \<Rightarrow> RTREEROOT option" where
  "reinsert_nodes rt [] = Some rt"
| "reinsert_nodes rt (e # es) =
     (case reinsert_branches rt (nlevel e) (take (MAXKIDS e) (branch e)) of
        None \<Rightarrow> None
      | Some rt' \<Rightarrow> reinsert_nodes rt' es)"

definition drop_redundant_root :: "RTREEROOT \<Rightarrow> RTREEROOT option" where
  "drop_redundant_root rt =
     (if ncount (root_node rt) = 1 \<and> nlevel (root_node rt) > 0
      then (case find used (take NODECARD (branch (root_node rt))) of
              Some (r, Sub c) \<Rightarrow> Some (rt\<lparr>root_node := c\<rparr>)
            | _ \<Rightarrow> None)
      else Some rt)"

text \<open>The flag is the returned 1 (record not found).\<close>

definition RTreeDelete :: "RTREEROOT \<Rightarrow> RTREEMBR \<Rightarrow> nat \<Rightarrow> (RTREEROOT \<times> bool) option" where
  "RTreeDelete rt mbr tid =
     (case RTreeDeleteRect mbr tid (root_node rt) [] of
        None \<Rightarrow> None
      | Some None \<Rightarrow> Some (rt, True)
      | Some (Some (n, reInsertList)) \<Rightarrow>
          (case reinsert_nodes (rt\<lparr>root_node := n\<rparr>) reInsertList of
             None \<Rightarrow> None
           | Some rt1 \<Rightarrow> map_option (\<lambda>rt2. (rt2, False)) (drop_redundant_root rt1)))"

section \<open>The descent\<close>

text \<open>A node during deletion: an inner node may have become empty.\<close>

definition pre_node :: "nat \<Rightarrow> RTREENODE \<Rightarrow> bool" where
  "pre_node l n \<longleftrightarrow> nlevel n = int l \<and> node_shape n \<and> (\<forall>e\<in>set (live n). wf_branch l e)"

lemma wf_node_pre: "wf_node l n \<longleftrightarrow> pre_node l n \<and> (0 < l \<longrightarrow> 0 < ncount n)"
  by (auto simp: wf_node_def pre_node_def)

lemma Disconnect_spec:
  assumes "pre_node l n" "i < length (branch n)" "used (branch n ! i)"
  obtains n' where "RTreeDisconnectBranch n i = Some n'" "pre_node l n'" "Suc (ncount n') = ncount n"
    "mset (live n) = add_mset (branch n ! i) (mset (live n'))"
proof -
  have sh: "node_shape n" "nlevel n = int l" "\<forall>e\<in>set (live n). wf_branch l e"
    using assms(1) unfolding pre_node_def by blast+
  define n' where "n' = Node (ncount n - 1) (nlevel n) ((branch n)[i := RTreeInitBranch])"
  have "length (branch n) = 12" using sh(1) by (simp add: node_shape_def MAXCARD_12)
  then have d: "RTreeDisconnectBranch n i = Some n'"
    using assms(2,3) by (simp add: RTreeDisconnectBranch_def n'_def MAXKIDS_12)
  have nu: "\<not> used RTreeInitBranch" by (simp add: RTreeInitBranch_def)
  have m: "mset (live n) = add_mset (branch n ! i) (mset (live n'))"
    unfolding n'_def RTREENODE.sel by (rule mset_filter_update_del [OF assms(2,3) nu])
  then have "mset (live n) = mset ((branch n ! i) # live n')" by simp
  then have s: "set (live n) = set ((branch n ! i) # live n')" "length (live n) = Suc (length (live n'))"
    using mset_eq_setD mset_eq_length by (blast, fastforce)
  then have c: "Suc (ncount n') = ncount n" using sh(1) by (simp add: n'_def node_shape_def)
  have "node_shape n'" using sh(1) s(2) unfolding node_shape_def by (simp add: n'_def)
  moreover have "\<forall>e\<in>set (live n'). wf_branch l e" using sh(3) s(1) by (metis list.set_intros(2))
  ultimately have "pre_node l n'" using sh(2) unfolding pre_node_def by (simp add: n'_def)
  then show thesis using that d c m by blast
qed

text \<open>The nodes put aside for reinsertion come from below the level of the descent.\<close>

definition aside :: "nat \<Rightarrow> RTREENODE list \<Rightarrow> bool" where
  "aside l es \<longleftrightarrow> (\<forall>x\<in>set es. \<exists>k<l. pre_node k x)"

abbreviation sum_nents :: "RTREENODE list \<Rightarrow> (RTREEMBR \<times> nat) multiset" where
  "sum_nents es \<equiv> sum_list (map (\<lambda>x. nents x) es)"

definition delete_ok :: "nat \<Rightarrow> RTREEMBR \<Rightarrow> nat \<Rightarrow> RTREENODE \<Rightarrow> RTREENODE list \<Rightarrow>
    (RTREENODE \<times> RTREENODE list) option \<Rightarrow> bool" where
  "delete_ok l m t n ee res =
     (case res of
        None \<Rightarrow> \<forall>e\<in>set (node_entries n). snd e = t \<longrightarrow> \<not> RTreeOverlap m (fst e)
      | Some (n', ee') \<Rightarrow> \<exists>new r. ee' = new @ ee \<and> aside l new \<and> pre_node l n' \<and> ncount n \<le> Suc (ncount n') \<and>
          nents n = add_mset (r, t) (nents n' + sum_nents new) \<and> (\<forall>s. inside n s \<longrightarrow> inside n' s))"

lemma delete_leaf_ok:
  assumes "pre_node 0 n" "0 < t"
  shows "\<exists>res. RTreeDeleteRect m t n ee = Some res \<and> delete_ok 0 m t n ee res"
proof -
  obtain k lev bs where n: "n = Node k lev bs" by (cases n)
  have lev: "lev = 0" using assms(1) by (simp add: pre_node_def n)
  let ?P = "\<lambda>b. used b \<and> snd b = child_of_tid t"
  have ct: "child_of_tid t = Tid t" using assms(2) by (simp add: child_of_tid_def)
  have wfb: "\<forall>e\<in>set (filter used bs). wf_branch 0 e" using assms(1) unfolding pre_node_def n RTREENODE.sel by blast
  show ?thesis
  proof (cases "find_index ?P bs")
    case None
    then have no: "\<forall>b\<in>set bs. \<not> ?P b" by (simp only: find_index_None)
    have "snd e \<noteq> t" if en: "e \<in> set (node_entries n)" for e
    proof -
      obtain b where b: "b \<in> set (filter used bs)" "e \<in> set (child_entries (fst b) (snd b))"
        using en unfolding node_entries_set n RTREENODE.sel by blast
      then have "wf_branch 0 b" using wfb by blast
      then obtain t' where t': "snd b = Tid t'" by (auto split: child.splits)
      have "\<not> ?P b" using no b(1) unfolding set_filter by blast
      then show ?thesis using b(2) t' ct by auto
    qed
    then show ?thesis using None lev by (auto simp: n delete_ok_def)
  next
    case (Some i)
    then have i: "i < length bs" "used (bs ! i)" "snd (bs ! i) = Tid t"
      using find_index_Some [OF Some] ct by simp_all
    obtain n' where d: "RTreeDisconnectBranch n i = Some n'" "pre_node 0 n'" "Suc (ncount n') = ncount n"
      "mset (live n) = add_mset (bs ! i) (mset (live n'))"
      using Disconnect_spec [OF assms(1), of i] i n by auto
    have "nents n = nents n' + bents (bs ! i)" by (rule nents_add [OF d(4)])
    then have e: "nents n = add_mset (fst (bs ! i), t) (nents n')" using i(3) by simp
    have "inside n' s" if "inside n s" for s using that inside_mset [OF d(4)] by blast
    then have "delete_ok 0 m t n ee (Some (n', ee))"
      using d(2,3) e unfolding delete_ok_def by (auto simp: aside_def)
    then show ?thesis using Some d(1) lev by (simp add: n)
  qed
qed

text \<open>The branch the record was taken from: its node stays when it is full enough, and is set aside otherwise.\<close>

lemma delete_full_ok:
  assumes n: "pre_node (Suc l) n" and i: "i < length (branch n)" "branch n ! i = (r, Sub c)"
    and c: "MINNODEFILL \<le> ncount c" "inside c r" and full: "MINNODEFILL \<le> ncount c'"
    and del: "delete_ok l m t c ee (Some (c', ee'))"
  shows "delete_ok (Suc l) m t n ee
    (Some (Node (ncount n) (nlevel n) ((branch n)[i := (RTreeNodeCover c', Sub c')]), ee'))"
proof -
  obtain new q where ok: "ee' = new @ ee" "aside l new" "pre_node l c'" "ncount c \<le> Suc (ncount c')"
    "nents c = add_mset (q, t) (nents c' + sum_nents new)" "\<forall>s. inside c s \<longrightarrow> inside c' s"
    using del unfolding delete_ok_def by auto
  have u: "used (branch n ! i)" and mem: "branch n ! i \<in> set (live n)" using i nth_mem [OF i(1)] by simp_all
  have as: "aside (Suc l) new" using ok(2) less_SucI unfolding aside_def by blast
  have pos: "0 < ncount c'" using ok(4) c(1) by (simp add: MINFILL_6)
  have wc': "wf_node l c'" using ok(3) pos unfolding wf_node_pre by simp
  define n' where "n' = Node (ncount n) (nlevel n) ((branch n)[i := (RTreeNodeCover c', Sub c')])"
  have "length (live n) = ncount n" using n by (simp add: pre_node_def node_shape_def)
  moreover have "live n \<noteq> []" using mem by (metis empty_iff list.set(1))
  ultimately have wn: "wf_node (Suc l) n" using n unfolding wf_node_pre by (metis length_greater_0_conv)
  note rep = replace_branch [OF wn i(1) u wf_branch_cover [OF wc' full], folded n'_def]
  have "bents (branch n ! i) + nents n' = nents c' + nents n"
    using arg_cong [OF rep(2), of "\<lambda>m. \<Sum>b\<in>#m. bents b"]
    unfolding node_entries_live [of n'] node_entries_live [of n] by simp
  then have "nents c + nents n' = nents c' + nents n" unfolding i(2) by simp
  then have "nents c' + nents n = nents c' + add_mset (q, t) (nents n' + sum_nents new)"
    unfolding ok(5) by (simp add: ac_simps)
  then have e: "nents n = add_mset (q, t) (nents n' + sum_nents new)" by (rule add_left_imp_eq)
  have "inside n' s" if s: "inside n s" for s
  proof -
    have "mbr_le r s" using inside_live [OF s mem] i(2) by simp
    then have "inside c s" using c(2) mbr_le_trans unfolding inside_def by blast
    then have "mbr_le (RTreeNodeCover c') s" using NodeCover_inside [OF wc' full] ok(6) by blast
    then show ?thesis using inside_replace [OF rep(2) s] by simp
  qed
  then show ?thesis
    using ok(1) as rep(1,3) e unfolding delete_ok_def wf_node_pre n'_def by auto
qed

lemma delete_thin_ok:
  assumes n: "pre_node (Suc l) n" and i: "i < length (branch n)" "branch n ! i = (r, Sub c)"
    and del: "delete_ok l m t c ee (Some (c', ee'))"
  shows "\<exists>n'. RTreeDisconnectBranch n i = Some n' \<and> delete_ok (Suc l) m t n ee (Some (n', c' # ee'))"
proof -
  obtain new q where ok: "ee' = new @ ee" "aside l new" "pre_node l c'"
    "nents c = add_mset (q, t) (nents c' + sum_nents new)"
    using del unfolding delete_ok_def by auto
  have u: "used (branch n ! i)" using i(2) by simp
  obtain n' where d: "RTreeDisconnectBranch n i = Some n'" "pre_node (Suc l) n'"
    "Suc (ncount n') = ncount n" "mset (live n) = add_mset (r, Sub c) (mset (live n'))"
    using Disconnect_spec [OF n i(1) u] i(2) by metis
  have "nents n = nents n' + nents c" using nents_add [OF d(4)] by simp
  then have e: "nents n = add_mset (q, t) (nents n' + sum_nents (c' # new))"
    unfolding ok(4) by (simp add: ac_simps)
  have "aside (Suc l) new" using ok(2) less_SucI unfolding aside_def by blast
  then have "aside (Suc l) (c' # new)" using ok(3) by (auto simp: aside_def)
  moreover have "inside n' s" if "inside n s" for s using that inside_mset [OF d(4)] by blast
  ultimately have "delete_ok (Suc l) m t n ee (Some (n', c' # ee'))"
    using d(2,3) e ok(1) unfolding delete_ok_def
    by (simp only: option.case prod.case) (intro exI [of _ "c' # new"] exI [of _ q], simp)
  with d(1) show ?thesis by blast
qed

lemma delete_loop_ok:
  assumes "pre_node (Suc l) n" "branch n = pre @ rest"
    and node: "\<And>c. wf_node l c \<Longrightarrow> \<exists>res. RTreeDeleteRect m t c ee = Some res \<and> delete_ok l m t c ee res"
    and "\<forall>e\<in>set (branches_entries pre). snd e = t \<longrightarrow> \<not> RTreeOverlap m (fst e)"
  shows "\<exists>res. delete_loop m t n ee (length pre) rest = Some res \<and> delete_ok (Suc l) m t n ee res"
  using assms(2,4)
proof (induction rest arbitrary: pre)
  case Nil
  then show ?case by (auto simp: delete_ok_def node_entries_branch)
next
  case (Cons b rest)
  obtain r ch where b: "b = (r, ch)" by (cases b)
  have nth: "length pre < length (branch n)" "branch n ! length pre = (r, ch)"
    using Cons.prems(1) b by simp_all
  have app: "branches_entries (xs @ ys) = branches_entries xs @ branches_entries ys" for xs ys
    by (induction xs) simp_all
  have skip: "\<exists>res. delete_loop m t n ee (length pre + 1) rest = Some res \<and> delete_ok (Suc l) m t n ee res"
    if "\<forall>e\<in>set (child_entries r ch). snd e = t \<longrightarrow> \<not> RTreeOverlap m (fst e)"
    using Cons.IH [of "pre @ [b]"] Cons.prems that by (auto simp: app b)
  show ?case
  proof (cases "ch = NULL")
    case True
    then show ?thesis using skip by (simp add: b)
  next
    case False
    then have mem: "branch n ! length pre \<in> set (live n)" using nth nth_mem [OF nth(1)] by simp
    then have wb: "wf_branch (Suc l) (r, ch)" using assms(1) nth(2) unfolding pre_node_def by metis
    then obtain c where c: "ch = Sub c" using wf_branch_Suc by blast
    have wc: "wf_node l c" "MINNODEFILL \<le> ncount c" "inside c r" "small_mbr r"
      using wb by (simp_all add: c wf_branch_Sub inside_def del: wf_branch.simps)
    show ?thesis
    proof (cases "RTreeOverlap m r")
      case False
      have "\<not> RTreeOverlap m (fst e)" if "e \<in> set (child_entries r ch)" for e
        using entries_inside [OF wb, of e] that False Overlap_mono by auto
      then show ?thesis using skip False by (simp add: b)
    next
      case True
      obtain res where res: "RTreeDeleteRect m t c ee = Some res" "delete_ok l m t c ee res"
        using node [OF wc(1)] by blast
      show ?thesis
      proof (cases res)
        case None
        then have "\<forall>e\<in>set (child_entries r ch). snd e = t \<longrightarrow> \<not> RTreeOverlap m (fst e)"
          using res(2) by (simp add: delete_ok_def c)
        then show ?thesis using skip True res(1) None by (simp add: b c)
      next
        case (Some p)
        then obtain c' ee' where p: "res = Some (c', ee')" by (cases p) auto
        note del = res(2) [unfolded p]
        have nth': "branch n ! length pre = (r, Sub c)" using nth(2) c by simp
        show ?thesis
        proof (cases "MINNODEFILL \<le> ncount c'")
          case full: True
          show ?thesis
            using delete_full_ok [OF assms(1) nth(1) nth' wc(2,3) full del] True res(1) full by (simp add: b c p)
        next
          case thin: False
          show ?thesis
            using delete_thin_ok [OF assms(1) nth(1) nth' del] True res(1) thin by (auto simp: b c p)
        qed
      qed
    qed
  qed
qed

lemma DeleteRect_ok:
  assumes "pre_node l n" "0 < t"
  shows "\<exists>res. RTreeDeleteRect m t n ee = Some res \<and> delete_ok l m t n ee res"
  using assms(1)
proof (induction l arbitrary: n)
  case 0
  then show ?case using delete_leaf_ok assms(2) by blast
next
  case (Suc l)
  obtain k lev bs where n: "n = Node k lev bs" by (cases n)
  have "lev = int (Suc l)" using Suc.prems by (simp add: pre_node_def n)
  moreover have "\<exists>res. RTreeDeleteRect m t c ee = Some res \<and> delete_ok l m t c ee res" if "wf_node l c" for c
    using Suc.IH that unfolding wf_node_pre by blast
  ultimately show ?case using delete_loop_ok [of l n "[]" bs m t ee] Suc.prems by (simp add: n)
qed


section \<open>Reinsertion and the root\<close>

text \<open>What reinsertion keeps: a well formed root node of at least the level \<open>l\<close>.\<close>

definition root_ok :: "nat \<Rightarrow> nat \<Rightarrow> RTREEROOT \<Rightarrow> bool" where
  "root_ok l c rt \<longleftrightarrow> (\<exists>l'\<ge>l. wf_node l' (root_node rt)) \<and> c \<le> ncount (root_node rt)"

lemma root_ok_insert:
  assumes "root_ok l c rt" "c \<le> 2" "wf_branch k b" "k \<le> l"
  shows "\<exists>rt' s. RTreeInsert rt (fst b) (snd b) (int k) = Some (rt', s) \<and> root_ok l c rt' \<and>
     entries rt' = entries rt + bents b"
proof -
  obtain l' where l': "l \<le> l'" "wf_node l' (root_node rt)" "c \<le> ncount (root_node rt)"
    using assms(1) unfolding root_ok_def by blast
  have b: "wf_branch k (fst b, snd b)" "k \<le> l'" using assms(3,4) l'(1) by simp_all
  obtain rt' s l'' where i: "RTreeInsert rt (fst b) (snd b) (int k) = Some (rt', s)"
    "wf_node l'' (root_node rt')" "entries rt' = entries rt + bents (fst b, snd b)"
    "l'' = l' \<and> ncount (root_node rt) \<le> ncount (root_node rt') \<or> l'' = Suc l' \<and> ncount (root_node rt') = 2"
    using Insert_ok [OF l'(2) b] by blast
  have "l \<le> l''" "c \<le> ncount (root_node rt')" using i(4) l'(1,3) assms(2) by auto
  then have "root_ok l c rt'" using i(2) unfolding root_ok_def by blast
  then show ?thesis using i(1,3) by simp
qed

lemma reinsert_branches_ok:
  assumes "root_ok l c rt" "c \<le> 2" "k \<le> l" "\<forall>b\<in>set (filter used bs). wf_branch k b"
  shows "\<exists>rt'. reinsert_branches rt (int k) bs = Some rt' \<and> root_ok l c rt' \<and>
     entries rt' = entries rt + mset (branches_entries bs)"
  using assms(1,4)
proof (induction bs arbitrary: rt)
  case Nil
  then show ?case by simp
next
  case (Cons b bs)
  have rest: "\<forall>b\<in>set (filter used bs). wf_branch k b" using Cons.prems(2) by (simp split: if_splits)
  show ?case
  proof (cases "used b")
    case False
    then show ?thesis using Cons.IH [OF Cons.prems(1) rest] by simp
  next
    case True
    then have "wf_branch k b" using Cons.prems(2) by simp
    then obtain rt1 s where i: "RTreeInsert rt (fst b) (snd b) (int k) = Some (rt1, s)" "root_ok l c rt1"
      "entries rt1 = entries rt + bents b"
      using root_ok_insert [OF Cons.prems(1) assms(2) _ assms(3)] by blast
    obtain rt' where "reinsert_branches rt1 (int k) bs = Some rt'" "root_ok l c rt'"
      "entries rt' = entries rt1 + mset (branches_entries bs)"
      using Cons.IH [OF i(2) rest] by blast
    then show ?thesis using True i by (simp add: ac_simps)
  qed
qed

lemma reinsert_nodes_ok:
  assumes "root_ok l c rt" "c \<le> 2" "aside l es"
  shows "\<exists>rt'. reinsert_nodes rt es = Some rt' \<and> root_ok l c rt' \<and> entries rt' = entries rt + sum_nents es"
  using assms(1,3)
proof (induction es arbitrary: rt)
  case Nil
  then show ?case by simp
next
  case (Cons e es)
  obtain k where k: "k < l" "pre_node k e" "aside l es" using Cons.prems(2) by (auto simp: aside_def)
  have e: "nlevel e = int k" "length (branch e) = 12" "\<forall>b\<in>set (live e). wf_branch k b"
    using k(2) unfolding pre_node_def node_shape_def MAXCARD_12 by blast+
  obtain rt1 where r: "reinsert_branches rt (int k) (branch e) = Some rt1" "root_ok l c rt1"
    "entries rt1 = entries rt + mset (branches_entries (branch e))"
    using reinsert_branches_ok [OF Cons.prems(1) assms(2) _ e(3)] k(1) by auto
  show ?case using Cons.IH [OF r(2) k(3)] r(1,3) e(1,2)
    by (auto simp: MAXKIDS_12 node_entries_branch ac_simps)
qed

lemma drop_root_ok:
  assumes "wf_node l (root_node rt)"
  shows "\<exists>rt'. drop_redundant_root rt = Some rt' \<and> wf_root rt' \<and> entries rt' = entries rt"
proof (cases "ncount (root_node rt) = 1 \<and> nlevel (root_node rt) > 0")
  case False
  then have "0 < l \<longrightarrow> 2 \<le> ncount (root_node rt)" using assms by (auto simp: wf_node_def)
  then have "wf_root rt" using assms unfolding wf_root_def by blast
  then show ?thesis using False by (auto simp: drop_redundant_root_def)
next
  case True
  define n where "n = root_node rt"
  have n: "nlevel n = int l" "length (branch n) = 12" "ncount n = length (live n)"
    "\<forall>b\<in>set (live n). wf_branch l b"
    using assms unfolding n_def wf_node_def node_shape_def MAXCARD_12 by blast+
  obtain l0 where l: "l = Suc l0" using True n(1) n_def by (cases l) auto
  have "length (live n) = Suc 0" using True n(3) n_def by simp
  then obtain b where b: "live n = [b]" unfolding length_Suc_conv length_0_conv by blast
  then have "wf_branch (Suc l0) b" using n(4) l by simp
  then obtain r c where c: "b = (r, Sub c)" "wf_branch (Suc l0) (r, Sub c)" using wf_branch_Suc by metis
  then have wc: "wf_node l0 c" "6 \<le> ncount c" by (simp_all add: wf_branch_Sub MINFILL_6 del: wf_branch.simps)
  have "find used bs = Some b" if "filter used bs = [b]" for bs :: "RTREEBRANCH list"
    using that by (induction bs) (auto split: if_splits)
  then have "find used (branch n) = Some (r, Sub c)" using b c(1) by simp
  then have d: "drop_redundant_root rt = Some (rt\<lparr>root_node := c\<rparr>)"
    using True n(2) n_def by (simp add: drop_redundant_root_def card_defs)
  have "nents n = nents c" unfolding node_entries_live [of n] b by (simp add: c)
  moreover have "wf_root (rt\<lparr>root_node := c\<rparr>)" using wc unfolding wf_root_def by auto
  ultimately show ?thesis using d by (simp add: n_def)
qed

text \<open>The result of a deletion.\<close>

lemma Delete_ok:
  assumes "wf_root rt" "0 < t"
  shows "\<exists>rt' nf. RTreeDelete rt m t = Some (rt', nf) \<and> wf_root rt' \<and>
     (if nf then rt' = rt \<and> (\<forall>e\<in>#entries rt. snd e = t \<longrightarrow> \<not> RTreeOverlap m (fst e))
      else \<exists>r. entries rt = add_mset (r, t) (entries rt'))"
proof -
  obtain l where l: "wf_node l (root_node rt)" "0 < l \<longrightarrow> 2 \<le> ncount (root_node rt)"
    using assms(1) unfolding wf_root_def by blast
  then have pre: "pre_node l (root_node rt)" by (simp only: wf_node_pre)
  obtain res where res: "RTreeDeleteRect m t (root_node rt) [] = Some res"
    "delete_ok l m t (root_node rt) [] res"
    using DeleteRect_ok [OF pre assms(2)] by blast
  show ?thesis
  proof (cases res)
    case None
    then show ?thesis using res assms(1)
      by (intro exI [of _ rt] exI [of _ True]) (simp add: RTreeDelete_def delete_ok_def)
  next
    case (Some p)
    then obtain n es where p: "res = Some (n, es)" by (cases p) auto
    obtain r where ok: "aside l es" "pre_node l n" "ncount (root_node rt) \<le> Suc (ncount n)"
      "nents (root_node rt) = add_mset (r, t) (nents n + sum_nents es)"
      using res(2) unfolding p delete_ok_def by auto
    define c :: nat where "c = (if 0 < l then 1 else 0)"
    have "c \<le> ncount n" using ok(3) l(2) by (auto simp: c_def)
    moreover have "wf_node l n" using ok(2,3) l(2) unfolding wf_node_pre by auto
    ultimately have rok: "root_ok l c (rt\<lparr>root_node := n\<rparr>)" unfolding root_ok_def by auto
    have "c \<le> 2" by (simp add: c_def)
    then obtain rt1 where r1: "reinsert_nodes (rt\<lparr>root_node := n\<rparr>) es = Some rt1" "root_ok l c rt1"
      "entries rt1 = nents n + sum_nents es"
      using reinsert_nodes_ok [OF rok _ ok(1)] by auto
    then obtain l' where "wf_node l' (root_node rt1)" unfolding root_ok_def by blast
    then obtain rt2 where r2: "drop_redundant_root rt1 = Some rt2" "wf_root rt2" "entries rt2 = entries rt1"
      using drop_root_ok by blast
    have "entries rt = add_mset (r, t) (entries rt2)" using ok(4) r1(3) r2(3) by simp
    moreover have "RTreeDelete rt m t = Some (rt2, False)"
      using res(1) r1(1) r2(1) by (simp add: RTreeDelete_def p)
    ultimately show ?thesis using r2(2) by auto
  qed
qed

lemma Delete_present:
  assumes "wf_root rt" "0 < t" "(r, t) \<in># entries rt" "RTreeOverlap m r"
    "\<forall>e\<in>#entries rt. snd e = t \<longrightarrow> fst e = r"
  shows "\<exists>rt'. RTreeDelete rt m t = Some (rt', False) \<and> wf_root rt' \<and>
     entries rt' = entries rt - {#(r, t)#}"
proof -
  obtain rt' nf where d: "RTreeDelete rt m t = Some (rt', nf)" "wf_root rt'"
    "if nf then rt' = rt \<and> (\<forall>e\<in>#entries rt. snd e = t \<longrightarrow> \<not> RTreeOverlap m (fst e))
      else \<exists>r. entries rt = add_mset (r, t) (entries rt')"
    using Delete_ok [OF assms(1,2)] by blast
  have nf: "\<not> nf" using d(3) assms(3,4) by fastforce
  then obtain r' where e: "entries rt = add_mset (r', t) (entries rt')" using d(3) by auto
  then have "r' = r" using assms(5) by (metis fst_conv snd_conv union_single_eq_member)
  then show ?thesis using d(1,2) nf e by simp
qed


section \<open>Properties\<close>

text \<open>C20. \<open>RTreeDelete\<close>, given the rectangle and the id of a record, removes exactly that
  record, rebalances and keeps the tree well formed, without a failed assertion.\<close>

theorem RTreeDelete_removes_record:
  assumes "wf_root rt" "0 < t" "(r, t) \<in># entries rt" "RTreeOverlap m r"
    "\<forall>e\<in>#entries rt. snd e = t \<longrightarrow> fst e = r"
  shows "\<exists>rt'. RTreeDelete rt m t = Some (rt', False) \<and> wf_root rt' \<and>
     entries rt' = entries rt - {#(r, t)#}"
  by (rule Delete_present [OF assms])

definition one_record :: RTREEROOT where
  "one_record = \<lparr>root_node = Node 1 0 ((MBR 1 2 3 4, Tid 7) # replicate 11 RTreeInitBranch)\<rparr>"

lemma one_record_wf: "wf_root one_record"
proof -
  have "wf_node 0 (root_node one_record)"
    by (simp add: one_record_def wf_node_def node_shape_def RTreeInitBranch_def small_mbr_def
        proper_def mbr_le_def MAXCARD_12)
  then show ?thesis unfolding wf_root_def by blast
qed

lemma branches_entries_empty: "branches_entries (replicate k RTreeInitBranch) = []"
  by (induction k) (simp_all add: RTreeInitBranch_def)

lemma one_record_entries: "entries one_record = {#(MBR 1 2 3 4, 7)#}"
  by (simp add: one_record_def branches_entries_empty)

lemma RTreeDelete_removes_record_witness:
  "\<exists>rt'. RTreeDelete one_record (MBR 1 2 3 4) 7 = Some (rt', False) \<and> wf_root rt' \<and>
     entries rt' = entries one_record - {#(MBR 1 2 3 4, 7)#}"
  by (rule RTreeDelete_removes_record [OF one_record_wf])
    (simp_all add: one_record_entries RTreeOverlap_def)

text \<open>A record that was inserted under a fresh id is found and removed again by its rectangle:
  the tree may have split and merged on the way, but holds the old records.\<close>

theorem RTree_insert_delete:
  assumes "wf_root rt" "small_mbr mbr" "0 < t" "\<forall>e\<in>#entries rt. snd e \<noteq> t"
  shows "\<exists>rt1 s rt2. RTreeInsert rt mbr (child_of_tid t) 0 = Some (rt1, s) \<and>
     RTreeDelete rt1 mbr t = Some (rt2, False) \<and> wf_root rt2 \<and> entries rt2 = entries rt"
proof -
  obtain rt1 s where 1: "RTreeInsert rt mbr (child_of_tid t) 0 = Some (rt1, s)" "wf_root rt1"
    "entries rt1 = add_mset (mbr, t) (entries rt)"
    using Insert_tid [OF assms(1-3)] by blast
  have "RTreeOverlap mbr mbr" using assms(2) by (simp add: small_mbr_def proper_def RTreeOverlap_def)
  then obtain rt2 where "RTreeDelete rt1 mbr t = Some (rt2, False)" "wf_root rt2"
    "entries rt2 = entries rt1 - {#(mbr, t)#}"
    using Delete_present [OF 1(2) assms(3), of mbr mbr] 1(3) assms(4) by auto
  then show ?thesis using 1 by auto
qed

lemma RTree_insert_delete_witness:
  "\<exists>rt1 s rt2. RTreeInsert one_record (MBR 1 2 8 9) (child_of_tid 8) 0 = Some (rt1, s) \<and>
     RTreeDelete rt1 (MBR 1 2 8 9) 8 = Some (rt2, False) \<and> wf_root rt2 \<and> entries rt2 = entries one_record"
  by (rule RTree_insert_delete [OF one_record_wf])
    (simp_all add: small_mbr_def proper_def mbr_le_def one_record_entries)

text \<open>Deleting an id that has no record reports the failure (the code returns 1) and leaves the
  tree as it is, whatever rectangle is given.\<close>

theorem RTreeDelete_absent:
  assumes "wf_root rt" "0 < t" "\<forall>e\<in>#entries rt. snd e \<noteq> t"
  shows "RTreeDelete rt m t = Some (rt, True)"
proof -
  obtain rt' nf where d: "RTreeDelete rt m t = Some (rt', nf)"
    "if nf then rt' = rt \<and> (\<forall>e\<in>#entries rt. snd e = t \<longrightarrow> \<not> RTreeOverlap m (fst e))
      else \<exists>r. entries rt = add_mset (r, t) (entries rt')"
    using Delete_ok [OF assms(1,2)] by blast
  have "entries rt \<noteq> add_mset (r, t) (entries rt')" for r using assms(3) by fastforce
  then show ?thesis using d by (cases nf) simp_all
qed

lemma RTreeDelete_absent_witness: "RTreeDelete one_record (MBR 1 2 3 4) 8 = Some (one_record, True)"
  by (rule RTreeDelete_absent [OF one_record_wf]) (simp_all add: one_record_entries)

section \<open>The interface of the index\<close>

text \<open>
  What the grouping operators use of the tree: a bag of keyed records with insertion, deletion
  by key and id, and a query. The clients number their records \<open>1, 2, ...\<close> and move a record
  by deleting it under its old key and inserting it under the new one.
\<close>

locale spatial_index =
  fixes inv :: "'t \<Rightarrow> bool"
    and contents :: "'t \<Rightarrow> ('k \<times> nat) multiset"
    and ok :: "'k \<Rightarrow> bool"
    and insert :: "'t \<Rightarrow> 'k \<Rightarrow> nat \<Rightarrow> 't option"
    and delete :: "'t \<Rightarrow> 'k \<Rightarrow> nat \<Rightarrow> 't option"
  assumes insert_law: "inv t \<Longrightarrow> ok k \<Longrightarrow> 0 < i \<Longrightarrow>
      \<exists>t'. insert t k i = Some t' \<and> inv t' \<and> contents t' = add_mset (k, i) (contents t)"
    and delete_law: "inv t \<Longrightarrow> ok k \<Longrightarrow> 0 < i \<Longrightarrow> (k, i) \<in># contents t \<Longrightarrow>
      \<forall>e\<in>#contents t. snd e = i \<longrightarrow> fst e = k \<Longrightarrow>
      \<exists>t'. delete t k i = Some t' \<and> inv t' \<and> contents t' = contents t - {#(k, i)#}"
begin

definition keyed :: "'t \<Rightarrow> (nat \<Rightarrow> 'k) \<Rightarrow> nat \<Rightarrow> bool" where
  "keyed t f n \<longleftrightarrow> inv t \<and> contents t = image_mset (\<lambda>i. (f i, i)) (mset_set {1..n})"

lemma keyed_cong:
  assumes "keyed t f n" "\<And>i. 1 \<le> i \<Longrightarrow> i \<le> n \<Longrightarrow> g i = f i"
  shows "keyed t g n"
proof -
  have "image_mset (\<lambda>i. (g i, i)) (mset_set {1..n}) = image_mset (\<lambda>i. (f i, i)) (mset_set {1..n})"
    using assms(2) by (intro image_mset_cong) auto
  then show ?thesis using assms(1) by (simp add: keyed_def)
qed

lemma keyed_append:
  assumes "keyed t f n" "ok (f (Suc n))"
  shows "\<exists>t'. insert t (f (Suc n)) (Suc n) = Some t' \<and> keyed t' f (Suc n)"
proof -
  have "{1..Suc n} = Set.insert (Suc n) {1..n}" by auto
  then have "mset_set {1..Suc n} = add_mset (Suc n) (mset_set {1..n})" by simp
  then show ?thesis using insert_law [of t "f (Suc n)" "Suc n"] assms by (auto simp: keyed_def)
qed

lemma keyed_move:
  assumes "keyed t f n" "1 \<le> i" "i \<le> n" "ok (f i)" "ok k"
  shows "\<exists>t1 t2. delete t (f i) i = Some t1 \<and> insert t1 k i = Some t2 \<and> keyed t2 (f(i := k)) n"
proof -
  have t: "inv t" "contents t = image_mset (\<lambda>i. (f i, i)) (mset_set {1..n})"
    using assms(1) by (simp_all add: keyed_def)
  have pos: "0 < i" using assms(2) by simp
  have i: "i \<in> {1..n}" using assms(2,3) by simp
  then have split: "mset_set {1..n} = add_mset i (mset_set ({1..n} - {i}))"
    by (simp add: mset_set.remove)
  have "(f i, i) \<in># contents t" using i by (simp add: t(2))
  moreover have "\<forall>e\<in>#contents t. snd e = i \<longrightarrow> fst e = f i" by (auto simp: t(2))
  ultimately obtain t1 where t1: "delete t (f i) i = Some t1" "inv t1" "contents t1 = contents t - {#(f i, i)#}"
    using delete_law [OF t(1) assms(4) pos] by blast
  then have c1: "contents t1 = image_mset (\<lambda>i. (f i, i)) (mset_set ({1..n} - {i}))"
    unfolding t(2) split by simp
  also have "\<dots> = image_mset (\<lambda>j. ((f(i := k)) j, j)) (mset_set ({1..n} - {i}))"
    by (intro image_mset_cong) auto
  finally have c1: "contents t1 = image_mset (\<lambda>j. ((f(i := k)) j, j)) (mset_set ({1..n} - {i}))" .
  obtain t2 where t2: "insert t1 k i = Some t2" "inv t2" "contents t2 = add_mset (k, i) (contents t1)"
    using insert_law [OF t1(2) assms(5) pos] by blast
  have "contents t2 = image_mset (\<lambda>j. ((f(i := k)) j, j)) (mset_set {1..n})"
    unfolding t2(3) c1 split by simp
  then show ?thesis using t1(1) t2(1,2) by (auto simp: keyed_def)
qed

text \<open>The records of a set of numbers only, while others are taken out.\<close>

definition holds :: "'t \<Rightarrow> (nat \<Rightarrow> 'k) \<Rightarrow> nat set \<Rightarrow> bool" where
  "holds t f S \<longleftrightarrow> finite S \<and> 0 \<notin> S \<and> inv t \<and> contents t = image_mset (\<lambda>i. (f i, i)) (mset_set S)"

lemma holds_keyed: "holds t f {1..n} \<longleftrightarrow> keyed t f n"
  by (simp add: holds_def keyed_def)

lemma holds_cong:
  assumes "holds t f S" "\<And>i. i \<in> S \<Longrightarrow> g i = f i"
  shows "holds t g S"
proof -
  have "finite S" using assms(1) by (simp add: holds_def)
  then have "image_mset (\<lambda>i. (g i, i)) (mset_set S) = image_mset (\<lambda>i. (f i, i)) (mset_set S)"
    using assms(2) by (intro image_mset_cong) auto
  then show ?thesis using assms(1) by (simp add: holds_def)
qed

lemma holds_add:
  assumes "holds t f S" "i \<notin> S" "0 < i" "ok (f i)"
  shows "\<exists>t'. insert t (f i) i = Some t' \<and> holds t' f (Set.insert i S)"
  using insert_law [of t "f i" i] assms by (auto simp: holds_def)

lemma holds_del:
  assumes "holds t f S" "i \<in> S" "ok (f i)"
  shows "\<exists>t'. delete t (f i) i = Some t' \<and> holds t' f (S - {i})"
proof -
  have t: "inv t" "finite S" "0 < i" "contents t = image_mset (\<lambda>i. (f i, i)) (mset_set S)"
    using assms(1,2) by (auto simp: holds_def intro: gr0I)
  have "(f i, i) \<in># contents t" "\<forall>e\<in>#contents t. snd e = i \<longrightarrow> fst e = f i" using assms(2) t(2) by (auto simp: t(4))
  then obtain t' where t': "delete t (f i) i = Some t'" "inv t'" "contents t' = contents t - {#(f i, i)#}"
    using delete_law [OF t(1) assms(3) t(3)] by blast
  have "mset_set S = add_mset i (mset_set (S - {i}))" using t(2) assms(2) by (rule mset_set.remove)
  then have "contents t' = image_mset (\<lambda>i. (f i, i)) (mset_set (S - {i}))" using t'(3) t(4) by simp
  then show ?thesis using t'(1,2) assms(1) by (auto simp: holds_def)
qed

lemma keyed_members: "keyed t f n \<Longrightarrow> e \<in># contents t \<longleftrightarrow> 1 \<le> snd e \<and> snd e \<le> n \<and> fst e = f (snd e)"
  by (cases e) (auto simp: keyed_def)

end

definition index_insert :: "RTREEROOT \<Rightarrow> RTREEMBR \<Rightarrow> nat \<Rightarrow> RTREEROOT option" where
  "index_insert rt k i = map_option fst (RTreeInsert rt k (child_of_tid i) 0)"

definition index_delete :: "RTREEROOT \<Rightarrow> RTREEMBR \<Rightarrow> nat \<Rightarrow> RTREEROOT option" where
  "index_delete rt k i = map_option fst (RTreeDelete rt k i)"

interpretation rti: spatial_index wf_root "\<lambda>rt. entries rt" small_mbr index_insert index_delete
proof unfold_locales
  fix t k and i :: nat
  assume "wf_root t" "small_mbr k" "0 < i"
  from Insert_tid [OF this]
  show "\<exists>t'. index_insert t k i = Some t' \<and> wf_root t' \<and> entries t' = add_mset (k, i) (entries t)"
    by (auto simp: index_insert_def)
next
  fix t k and i :: nat
  assume a: "wf_root t" "small_mbr k" "0 < i" "(k, i) \<in># entries t"
    "\<forall>e\<in>#entries t. snd e = i \<longrightarrow> fst e = k"
  have "RTreeOverlap k k" using a(2) by (simp add: Overlap_refl small_proper)
  from Delete_present [OF a(1,3,4) this a(5)]
  show "\<exists>t'. index_delete t k i = Some t' \<and> wf_root t' \<and> entries t' = entries t - {#(k, i)#}"
    by (auto simp: index_delete_def)
qed

text \<open>The answers to a query over a numbered collection of rectangles.\<close>

lemma holds_answers:
  assumes "rti.holds rt f S"
  shows "set (answers m c (node_entries (root_node rt))) = {i \<in> S. wanted m c (f i)}"
    "distinct (answers m c (node_entries (root_node rt)))"
proof -
  have e: "entries rt = image_mset (\<lambda>i. (f i, i)) (mset_set S)" and fin0: "finite S"
    using assms by (simp_all add: rti.holds_def)
  have "mset (answers m c (node_entries (root_node rt)))
      = image_mset snd (filter_mset (\<lambda>e. wanted m c (fst e)) (entries rt))"
    by (simp add: answers_def)
  also have "\<dots> = filter_mset (\<lambda>i. wanted m c (f i)) (mset_set S)"
    unfolding e by (simp add: filter_mset_image_mset image_mset.compositionality comp_def)
  also have "\<dots> = mset_set {i \<in> S. wanted m c (f i)}" by (rule filter_mset_mset_set [OF fin0])
  finally have eq: "mset (answers m c (node_entries (root_node rt))) = mset_set {i \<in> S. wanted m c (f i)}" .
  have fin: "finite {i \<in> S. wanted m c (f i)}" using fin0 by simp
  have "set (answers m c (node_entries (root_node rt))) = set_mset (mset_set {i \<in> S. wanted m c (f i)})"
    unfolding eq [symmetric] by simp
  then show st: "set (answers m c (node_entries (root_node rt))) = {i \<in> S. wanted m c (f i)}"
    by (simp add: fin)
  have "length (answers m c (node_entries (root_node rt))) = card {i \<in> S. wanted m c (f i)}"
    using arg_cong [OF eq, of size] by simp
  then show "distinct (answers m c (node_entries (root_node rt)))"
    using st by (intro card_distinct) simp
qed

text \<open>A tree with at most as many records as the result arrays have cells.\<close>

lemma holds_fit:
  assumes "rti.holds rt f S" "S \<subseteq> {..sizeofgroup}"
  shows "ids_fit rt"
proof -
  have e: "entries rt = image_mset (\<lambda>i. (f i, i)) (mset_set S)" and S: "finite S" "0 \<notin> S"
    using assms(1) by (simp_all add: rti.holds_def)
  have "S \<subseteq> {1..sizeofgroup}" using assms(2) S(2) by (auto simp: Suc_le_eq intro: gr0I)
  then have "card S \<le> card {1..sizeofgroup}" by (intro card_mono) simp_all
  then have card: "card S \<le> sizeofgroup" by simp
  have "length (node_entries (root_node rt)) = size (entries rt)" by simp
  also have "\<dots> = card S" unfolding e by simp
  finally have len: "length (node_entries (root_node rt)) \<le> sizeofgroup" using card by simp
  have "set (node_entries (root_node rt)) = (\<lambda>i. (f i, i)) ` S"
    using arg_cong [OF e, of set_mset] S(1) by simp
  then have "snd x \<in> S" if "x \<in> set (node_entries (root_node rt))" for x using that by auto
  then have "\<forall>x\<in>set (node_entries (root_node rt)). snd x \<le> sizeofgroup" using assms(2) by auto
  moreover have "sizeofgroup < 2147483648" by (simp add: sizeofgroup_def)
  ultimately have "\<forall>x\<in>set (node_entries (root_node rt)). snd x < 2147483648" by (meson le_less_trans)
  then show ?thesis using len by (simp add: ids_fit_def)
qed

lemma keyed_fit: "rti.keyed rt f n \<Longrightarrow> n \<le> sizeofgroup \<Longrightarrow> ids_fit rt"
  by (rule holds_fit [OF rti.holds_keyed [THEN iffD2]]) auto

lemma keyed_answers:
  assumes "rti.keyed rt f n"
  shows "set (answers m c (node_entries (root_node rt))) = {i. 1 \<le> i \<and> i \<le> n \<and> wanted m c (f i)}"
    "distinct (answers m c (node_entries (root_node rt)))"
proof -
  have "rti.holds rt f {1..n}" using assms by (rule rti.holds_keyed [THEN iffD2])
  note h = holds_answers [OF this, of m c]
  show "set (answers m c (node_entries (root_node rt))) = {i. 1 \<le> i \<and> i \<le> n \<and> wanted m c (f i)}"
    unfolding h(1) by auto
  show "distinct (answers m c (node_entries (root_node rt)))" by (rule h(2))
qed

end
