(* ===== verification/SGBHelper.thy ===== *)
theory SGBHelper
  imports LinkListM RTreeDelete
begin

text \<open>
  \<^verbatim>\<open>executor/nodeAggHelperSGBAll.c\<close>: the bounding boxes of the groups (\<open>pivot1Slot\<close> and
  \<open>pivot2Slot\<close> hold the lower and upper corner), the test that admits a tuple to a box and
  clips the box, the distance tests, and the translation of slots and pivots to the
  rectangles of the R-tree. Memory contexts and printing are left out.
\<close>

section \<open>Boxes\<close>

definition updateInputSlotbyEPS :: "int list \<Rightarrow> int list \<Rightarrow> nat \<Rightarrow> int \<Rightarrow> int list \<times> int list" where
  "updateInputSlotbyEPS p1 p2 numAttributes EPS =
     (if numAttributes = 1
      then (p1[0 := sub32 (p1 ! 0) EPS], p2[0 := add32 (p2 ! 0) EPS])
      else if numAttributes = 2
      then (p1[0 := sub32 (p1 ! 0) EPS, 1 := sub32 (p1 ! 1) EPS],
            p2[0 := add32 (p2 ! 0) EPS, 1 := add32 (p2 ! 1) EPS])
      else (p1, p2))"

text \<open>One attribute of \<open>judgeJoinGroup\<close>: whether the value is within the bounds, whether the
  tuple's own box still meets them, and the new bounds.\<close>

definition judge_attr :: "int \<Rightarrow> int \<Rightarrow> int \<Rightarrow> int \<Rightarrow> bool \<times> bool \<times> int \<times> int" where
  "judge_attr EPS x1 x2 x3 =
     (if x3 < x1 \<or> x3 > x2
      then (False, \<not> (add32 x3 EPS < x1 \<or> sub32 x3 EPS > x2), x1, x2)
      else if abs32 (sub32 x1 x2) \<le> EPS then (True, True, x1, x2)
      else (True, True,
            (if sub32 x3 EPS > x1 then sub32 x3 EPS else x1),
            (if add32 x3 EPS < x2 then add32 x3 EPS else x2)))"

text \<open>The state of the loop: join, overlap, left and right corner (both 0 at first).
  Attributes from the third on are fetched but not looked at.\<close>

record judge_state =
  jjoin :: bool
  joverlap :: bool
  leftc :: "int list"
  rightc :: "int list"

fun judge_attrs :: "int list \<Rightarrow> int list \<Rightarrow> slot \<Rightarrow> int \<Rightarrow> nat list \<Rightarrow> judge_state \<Rightarrow> bool \<times> judge_state" where
  "judge_attrs p1 p2 s EPS [] st = (True, st)"
| "judge_attrs p1 p2 s EPS (i # is) st =
     (if slot_null s i then (False, st)
      else if i < 2 then
        (case judge_attr EPS (p1 ! i) (p2 ! i) (slot_int s i) of
           (inb, ov, l, r) \<Rightarrow>
             judge_attrs p1 p2 s EPS is
               (st\<lparr>jjoin := jjoin st \<and> inb, joverlap := joverlap st \<and> ov,
                   leftc := (leftc st)[i := l], rightc := (rightc st)[i := r]\<rparr>))
      else judge_attrs p1 p2 s EPS is st)"

text \<open>The result, the overlap flag and the two pivots. A NULL attribute returns false at
  once.\<close>

definition judgeJoinGroup :: "nat \<Rightarrow> int list \<Rightarrow> int list \<Rightarrow> slot \<Rightarrow> int \<Rightarrow>
    bool \<times> bool \<times> int list \<times> int list" where
  "judgeJoinGroup numAttributes p1 p2 s EPS =
     (case judge_attrs p1 p2 s EPS [0..<numAttributes]
        \<lparr>jjoin = True, joverlap = True, leftc = [0, 0], rightc = [0, 0]\<rparr> of
        (False, st) \<Rightarrow> (False, joverlap st, p1, p2)
      | (True, st) \<Rightarrow>
          if jjoin st
          then if numAttributes = 1
               then (True, joverlap st, p1[0 := leftc st ! 0], p2[0 := rightc st ! 0])
               else if numAttributes = 2
               then (True, joverlap st, p1[0 := leftc st ! 0, 1 := leftc st ! 1],
                     p2[0 := rightc st ! 0, 1 := rightc st ! 1])
               else (True, joverlap st, p1, p2)
          else (False, joverlap st, p1, p2))"

section \<open>Distances\<close>

text \<open>The metric codes: 1 is L1, 2 is L2, 3 is L-infinity. The loops accumulate \<open>d1\<close> and
  \<open>max_D\<close>; \<open>sqrt\<close> works on \<open>(double) d1\<close>, and a negative \<open>d1\<close> (after an overflow) gives NaN,
  which fails the comparison.\<close>

definition bound_step :: "int \<Rightarrow> int \<Rightarrow> int \<Rightarrow> int \<times> int \<Rightarrow> int \<times> int" where
  "bound_step metric x_input x_slot d =
     (case d of (d1, max_D) \<Rightarrow>
      if metric = 1 then (add32 (abs32 (sub32 x_input x_slot)) d1, max_D)
      else if metric = 2
      then (add32 d1 (mul32 (sub32 x_input x_slot) (sub32 x_input x_slot)), max_D)
      else if metric = 3
      then let d1 = abs32 (sub32 x_input x_slot) in (d1, if d1 \<ge> max_D then d1 else max_D)
      else (d1, max_D))"

definition bound_verdict :: "int \<Rightarrow> int \<Rightarrow> int \<times> int \<Rightarrow> bool" where
  "bound_verdict metric EPS d =
     (case d of (d1, max_D) \<Rightarrow>
      if metric = 3 then max_D \<le> EPS
      else if metric = 2
      then (case dsqrt (of_int d1) of None \<Rightarrow> False | Some r \<Rightarrow> r \<le> of_int EPS)
      else if metric = 1 then d1 \<le> EPS
      else True)"

definition InsideBound :: "slot \<Rightarrow> slot \<Rightarrow> int \<Rightarrow> int \<Rightarrow> nat \<Rightarrow> bool" where
  "InsideBound s inputslot EPS metric numAttributes =
     bound_verdict metric EPS
       (fold (\<lambda>i. bound_step metric (slot_int inputslot i) (slot_int s i)) [0..<numAttributes] (0, 0))"

definition InsideBound_tuple :: "tuple \<Rightarrow> slot \<Rightarrow> int \<Rightarrow> int \<Rightarrow> nat \<Rightarrow> bool" where
  "InsideBound_tuple t inputslot EPS metric numAttributes =
     bound_verdict metric EPS
       (fold (\<lambda>i. bound_step metric (slot_int inputslot i) (vals t ! i)) [0..<numAttributes] (0, 0))"

section \<open>Slots, arrays and rectangles\<close>

text \<open>The copy loops stop at the first NULL.\<close>

fun copyinputslottoDes :: "slot \<Rightarrow> nat list \<Rightarrow> int list \<Rightarrow> int list" where
  "copyinputslottoDes s [] des = des"
| "copyinputslottoDes s (i # is) des =
     (if slot_null s i then des else copyinputslottoDes s is (des[i := slot_int s i]))"

definition copyfromTupleTableToArray :: "int list \<Rightarrow> int list \<Rightarrow> slot \<Rightarrow> nat \<Rightarrow> int list \<times> int list" where
  "copyfromTupleTableToArray des des2 s numAttributes =
     (copyinputslottoDes s [0..<numAttributes] des, copyinputslottoDes s [0..<numAttributes] des2)"

text \<open>\<open>RTREEMBR\<close> has four bounds: a shorter initialiser leaves 0 in the rest, a longer one is
  cut off. Without any attribute, or with more than three, the result is uninitialised.\<close>

definition mbr_init :: "int list \<Rightarrow> RTREEMBR" where
  "mbr_init is = (let b = (\<lambda>i. real_of_int (if i < length is then is ! i else 0))
     in MBR (b 0) (b 1) (b 2) (b 3))"

definition getMBRinputSlot :: "slot \<Rightarrow> nat \<Rightarrow> RTREEMBR option" where
  "getMBRinputSlot s attr =
     (let x = slot_int s 0; y = slot_int s 1; z = slot_int s 2
      in if attr = 1 then Some (mbr_init [x, x])
         else if attr = 2 then Some (mbr_init [x, y, x, y])
         else if attr = 3 then Some (mbr_init [x, y, z, x, y, z])
         else None)"

definition getMBRinputSlotBigger :: "slot \<Rightarrow> nat \<Rightarrow> int \<Rightarrow> RTREEMBR option" where
  "getMBRinputSlotBigger s attr EPS =
     (let x = slot_int s 0; y = slot_int s 1; z = slot_int s 2
      in if attr = 1 then Some (mbr_init [sub32 x EPS, add32 x EPS])
         else if attr = 2 then Some (mbr_init [sub32 x EPS, sub32 y EPS, add32 x EPS, add32 y EPS])
         else if attr = 3
         then Some (mbr_init [sub32 x EPS, sub32 y EPS, sub32 z EPS, add32 x EPS, add32 y EPS, add32 z EPS])
         else None)"

text \<open>\<open>getMBRHashEntry\<close> reads the pivots of the entry.\<close>

definition getMBRHashEntry :: "int list \<Rightarrow> int list \<Rightarrow> nat \<Rightarrow> RTREEMBR option" where
  "getMBRHashEntry p1 p2 att =
     (if att = 2 then Some (mbr_init [p1 ! 0, p1 ! 1, p2 ! 0, p2 ! 1])
      else if att = 1 then Some (mbr_init [p1 ! 0, p2 ! 0])
      else None)"

text \<open>
  \<open>heap_modify_tuple\<close> (\<^verbatim>\<open>access/common/heaptuple.c\<close>) reads its three arrays for every column of
  the tuple; arrays shorter than the tuple are read past their end (\<open>None\<close>).
\<close>

definition heap_modify_tuple :: "slot \<Rightarrow> int list \<Rightarrow> bool list \<Rightarrow> bool list \<Rightarrow> slot option" where
  "heap_modify_tuple s replValues replIsnull doReplace =
     (if length s \<le> length doReplace \<and> length s \<le> length replValues \<and> length s \<le> length replIsnull
      then Some (map (\<lambda>i. if doReplace ! i then (if replIsnull ! i then None else Some (replValues ! i))
                          else s ! i) [0..<length s])
      else None)"

text \<open>\<open>puttuple_TupleTableSlot\<close>: the input slot's tuple with the first columns replaced.\<close>

definition puttuple_TupleTableSlot :: "tuple \<Rightarrow> slot \<Rightarrow> nat \<Rightarrow> slot option" where
  "puttuple_TupleTableSlot t inputslot numAttributes =
     heap_modify_tuple inputslot (map (\<lambda>i. vals t ! i) [0..<numAttributes])
       (replicate numAttributes False) (replicate numAttributes True)"

definition tuplestorestate_puttuple :: "tuple \<Rightarrow> slot list option \<Rightarrow> slot \<Rightarrow> nat \<Rightarrow>
    (slot list option \<times> slot) option" where
  "tuplestorestate_puttuple t tuplestore inputslot numAttributes =
     map_option (\<lambda>aggslot. (map_option (\<lambda>ts. ts @ [aggslot]) tuplestore, aggslot))
       (puttuple_TupleTableSlot t inputslot numAttributes)"

definition getTableSlot :: "int list \<Rightarrow> nat \<Rightarrow> slot \<Rightarrow> slot option" where
  "getTableSlot inputsdata numAttributes inputslot =
     (let zeros = replicate numAttributes (0::int); no = replicate numAttributes False
      in if numAttributes = 1
         then heap_modify_tuple inputslot (zeros[0 := inputsdata ! 0]) no (no[0 := True])
         else if numAttributes = 2
         then heap_modify_tuple inputslot (zeros[0 := inputsdata ! 0, 1 := inputsdata ! 1]) no
                (no[0 := True, 1 := True])
         else heap_modify_tuple inputslot zeros no no)"

section \<open>Groups as tuple lists\<close>

text \<open>
  The operations of the \<open>NEW-GROUP\<close> semantics on a \<open>tmpGroup\<close>, whose \<open>tuples_headPtr\<close> is the
  chain of its tuples. \<open>tmpGroup_puttupleslot\<close> appends the input; its array holds two values.
  The call for a first tuple makes the returned cell, the last of the chain, the head.
\<close>

definition tmpGroup_puttupleslot :: "tmpGroup \<Rightarrow> slot \<Rightarrow> nat \<Rightarrow> bool \<Rightarrow> tmpGroup" where
  "tmpGroup_puttupleslot g s numAttributes isfirst =
     (let v = map (\<lambda>i. slot_int s i) [0..<numAttributes];
          chain = append_data_IntoTupleList (tuples_headPtr g) v numAttributes
      in g\<lparr>tuples_headPtr := (if isfirst \<or> endPtr g = None then [last chain] else chain),
           endPtr := Some (last chain), member_len := member_len g + 1\<rparr>)"

text \<open>
  The scan that takes the tuples near the input out of a group. \<open>moved\<close> are the tuples taken
  out, in order, \<open>keep\<close> those passed so far. With one member left the scan sets \<open>entryNULL\<close>
  and stops. After the first tuple of the chain was removed, the new first tuple is passed
  without a test: the loop steps to its successor.
\<close>

record scan_state =
  keep :: "tuple list"
  moved :: "tuple list"
  slen :: int
  entryNULL :: bool
  iisempty :: bool

fun scan_group :: "(tuple \<Rightarrow> bool) \<Rightarrow> bool \<Rightarrow> tuple list \<Rightarrow> scan_state \<Rightarrow> scan_state" where
  "scan_group near firsttuple [] st = st"
| "scan_group near firsttuple (t # ts) st =
     (if near t then
        (if slen st = 1
         then st\<lparr>iisempty := False, entryNULL := True, keep := keep st @ t # ts\<rparr>
         else
           let st' = st\<lparr>iisempty := False, moved := moved st @ [t], slen := slen st - 1\<rparr>
           in if firsttuple
              then (case ts of
                      [] \<Rightarrow> st'
                    | u # us \<Rightarrow> scan_group near False us (st'\<lparr>keep := keep st' @ [u]\<rparr>))
              else scan_group near False ts st')
      else scan_group near False ts (st\<lparr>keep := keep st @ [t]\<rparr>))"

text \<open>The scan of \<open>findIntersection_putIntoMemoList_noreturn\<close> passes the tuple after every
  removed one.\<close>

fun scan_group_noreturn :: "(tuple \<Rightarrow> bool) \<Rightarrow> tuple list \<Rightarrow> scan_state \<Rightarrow> scan_state" where
  "scan_group_noreturn near [] st = st"
| "scan_group_noreturn near (t # ts) st =
     (if near t then
        (if slen st = 1
         then st\<lparr>iisempty := False, entryNULL := True, keep := keep st @ t # ts\<rparr>
         else
           let st' = st\<lparr>iisempty := False, moved := moved st @ [t], slen := slen st - 1\<rparr>
           in (case ts of
                 [] \<Rightarrow> st'
               | u # us \<Rightarrow> scan_group_noreturn near us (st'\<lparr>keep := keep st' @ [u]\<rparr>)))
      else scan_group_noreturn near ts (st\<lparr>keep := keep st @ [t]\<rparr>))"


section \<open>Boxes are exact\<close>

text \<open>
  The grouping semantics of the boxes: the box of a group, per coordinate, is the set of the
  values within \<open>EPS\<close> of the value of every member. The bounds on the values keep every
  sum and difference the code forms inside \<open>int\<close>, and every corner within the range the
  R-tree theorems ask for.
\<close>

definition pt_ok :: "int \<Rightarrow> bool" where
  "pt_ok x \<longleftrightarrow> \<bar>x\<bar> \<le> 8388608"

definition box_eps :: "int \<Rightarrow> bool" where
  "box_eps e \<longleftrightarrow> 0 \<le> e \<and> e \<le> 8388608"

text \<open>The distances of a node that can run: for \<open>WITHIN 0\<close> the node has no \<open>hasharray\<close>.\<close>

definition eps_ok :: "int \<Rightarrow> bool" where
  "eps_ok e \<longleftrightarrow> 0 < e \<and> box_eps e"

lemma eps_box: "eps_ok e \<Longrightarrow> box_eps e"
  by (simp add: eps_ok_def)

lemma eps_ok_iff: "eps_ok e \<longleftrightarrow> 0 < e \<and> e \<le> 8388608"
  by (auto simp: eps_ok_def box_eps_def)

definition cbox :: "int \<Rightarrow> int \<Rightarrow> int \<Rightarrow> int set \<Rightarrow> bool" where
  "cbox EPS l r ms \<longleftrightarrow> ms \<noteq> {} \<and> (\<forall>m\<in>ms. pt_ok m) \<and> (\<forall>m\<in>ms. \<forall>k\<in>ms. \<bar>m - k\<bar> \<le> EPS) \<and>
     (\<forall>x. l \<le> x \<and> x \<le> r \<longleftrightarrow> (\<forall>m\<in>ms. \<bar>x - m\<bar> \<le> EPS))"

lemma cbox_member: "cbox EPS l r ms \<Longrightarrow> m \<in> ms \<Longrightarrow> l \<le> m \<and> m \<le> r"
  unfolding cbox_def by blast

lemma cbox_bounds:
  assumes "cbox EPS l r ms" "box_eps EPS"
  shows "l \<le> r" "\<bar>l\<bar> \<le> 16777216" "\<bar>r\<bar> \<le> 16777216"
proof -
  obtain m where m: "m \<in> ms" "pt_ok m" using assms(1) unfolding cbox_def by blast
  then have lr: "l \<le> m" "m \<le> r" using cbox_member [OF assms(1)] by blast+
  then show "l \<le> r" by simp
  have "\<bar>l - m\<bar> \<le> EPS" "\<bar>r - m\<bar> \<le> EPS"
    using assms(1) lr m(1) unfolding cbox_def by (meson order_refl order_trans)+
  then show "\<bar>l\<bar> \<le> 16777216" "\<bar>r\<bar> \<le> 16777216"
    using m(2) assms(2) unfolding pt_ok_def box_eps_def by linarith+
qed

lemma cbox_single:
  assumes "pt_ok x" "box_eps EPS"
  shows "cbox EPS (sub32 x EPS) (add32 x EPS) {x}"
proof -
  have "sub32 x EPS = x - EPS" "add32 x EPS = x + EPS"
    using assms by (simp_all add: pt_ok_def box_eps_def c_int_defs int32_def abs_le_iff)
  then show ?thesis using assms by (auto simp: cbox_def box_eps_def abs_le_iff)
qed

lemma judge_attr_exact:
  assumes "cbox EPS l r ms" "box_eps EPS" "pt_ok x" "judge_attr EPS l r x = (inb, ov, l', r')"
  shows "inb \<longleftrightarrow> (\<forall>m\<in>ms. \<bar>x - m\<bar> \<le> EPS)" "inb \<Longrightarrow> cbox EPS l' r' (insert x ms)"
    "\<not> inb \<Longrightarrow> l' = l \<and> r' = r"
    "ov \<longleftrightarrow> x - EPS \<le> r \<and> l \<le> x + EPS"
proof -
  note b = cbox_bounds [OF assms(1,2)]
  have i: "sub32 x EPS = x - EPS" "add32 x EPS = x + EPS" "abs32 (sub32 l r) = r - l"
    using assms(2,3) b by (simp_all add: pt_ok_def box_eps_def c_int_defs int32_def abs_le_iff)
  have ex: "l \<le> y \<and> y \<le> r \<longleftrightarrow> (\<forall>m\<in>ms. \<bar>y - m\<bar> \<le> EPS)" for y
    using assms(1) unfolding cbox_def by blast
  have eps: "0 \<le> EPS" using assms(2) by (simp add: box_eps_def)
  have res: "inb \<longleftrightarrow> l \<le> x \<and> x \<le> r"
    "inb \<Longrightarrow> (if r - l \<le> EPS then l' = l \<and> r' = r else l' = max l (x - EPS) \<and> r' = min r (x + EPS))"
    "\<not> inb \<Longrightarrow> l' = l \<and> r' = r"
    using assms(4) unfolding judge_attr_def i by (auto split: if_splits)
  show "inb \<longleftrightarrow> (\<forall>m\<in>ms. \<bar>x - m\<bar> \<le> EPS)" using res(1) ex by simp
  show "\<not> inb \<Longrightarrow> l' = l \<and> r' = r" by (rule res(3))
  show "ov \<longleftrightarrow> x - EPS \<le> r \<and> l \<le> x + EPS"
    using assms(4) eps b(1) unfolding judge_attr_def i by (auto split: if_splits)
  show "cbox EPS l' r' (insert x ms)" if inb
  proof -
    have x: "l \<le> x" "x \<le> r" using res(1) that by simp_all
    have "l' \<le> y \<and> y \<le> r' \<longleftrightarrow> (l \<le> y \<and> y \<le> r) \<and> \<bar>y - x\<bar> \<le> EPS" for y
      using res(2) [OF that] x by (auto split: if_splits)
    moreover have "\<forall>m\<in>ms. \<bar>x - m\<bar> \<le> EPS" using ex [of x] x by simp
    ultimately show ?thesis using assms(1,3) eps unfolding cbox_def ex
      by (auto simp: abs_minus_commute)
  qed
qed

lemma upd2 [simp]:
  assumes "2 \<le> length (p :: int list)"
  shows "p[0 := a] ! 0 = a" "p[Suc 0 := b] ! Suc 0 = b"
proof -
  have "0 < length p" "Suc 0 < length p" using assms by linarith+
  then show "p[0 := a] ! 0 = a" "p[Suc 0 := b] ! Suc 0 = b" by simp_all
qed

text \<open>The boxes of two attributes.\<close>

definition box2 :: "int \<Rightarrow> int list \<Rightarrow> int list \<Rightarrow> (int \<times> int) set \<Rightarrow> bool" where
  "box2 EPS p1 p2 ms \<longleftrightarrow> 2 \<le> length p1 \<and> 2 \<le> length p2 \<and>
     cbox EPS (p1 ! 0) (p2 ! 0) (fst ` ms) \<and> cbox EPS (p1 ! 1) (p2 ! 1) (snd ` ms)"

definition near2 :: "int \<Rightarrow> int \<times> int \<Rightarrow> int \<times> int \<Rightarrow> bool" where
  "near2 EPS p q \<longleftrightarrow> \<bar>fst p - fst q\<bar> \<le> EPS \<and> \<bar>snd p - snd q\<bar> \<le> EPS"

definition slot2 :: "slot \<Rightarrow> int \<Rightarrow> int \<Rightarrow> bool" where
  "slot2 s x y \<longleftrightarrow> 2 \<le> length s \<and> s ! 0 = Some x \<and> s ! 1 = Some y"

lemma slot2_get [simp]:
  assumes "slot2 s x y"
  shows "slot_getattr s (Suc 0) = (x, False)" "slot_getattr s (Suc (Suc 0)) = (y, False)"
  using assms by (simp_all add: slot2_def slot_getattr_def)

lemma upt2: "[0..<2] = [0, Suc 0]"
  by (simp add: upt_rec)

lemma judgeJoinGroup_2:
  assumes "slot2 s x y" "judge_attr EPS (p1 ! 0) (p2 ! 0) x = (ix, ox, lx, rx)"
    "judge_attr EPS (p1 ! 1) (p2 ! 1) y = (iy, oy, ly, ry)"
  shows "judgeJoinGroup 2 p1 p2 s EPS =
     (ix \<and> iy, ox \<and> oy,
      (if ix \<and> iy then p1[0 := lx, 1 := ly] else p1), (if ix \<and> iy then p2[0 := rx, 1 := ry] else p2))"
  using assms by (simp add: judgeJoinGroup_def upt2)

lemma judge_box2:
  assumes "box2 EPS p1 p2 ms" "box_eps EPS" "slot2 s x y" "pt_ok x" "pt_ok y"
  obtains j ov q1 q2 where "judgeJoinGroup 2 p1 p2 s EPS = (j, ov, q1, q2)"
    "j \<longleftrightarrow> (\<forall>m\<in>ms. near2 EPS (x, y) m)" "j \<Longrightarrow> box2 EPS q1 q2 (insert (x, y) ms)"
    "\<not> j \<Longrightarrow> q1 = p1 \<and> q2 = p2" "length q1 = length p1" "length q2 = length p2"
proof -
  have c: "cbox EPS (p1 ! 0) (p2 ! 0) (fst ` ms)" "cbox EPS (p1 ! 1) (p2 ! 1) (snd ` ms)"
    "2 \<le> length p1" "2 \<le> length p2" using assms(1) by (simp_all add: box2_def)
  obtain ix ox lx rx where jx: "judge_attr EPS (p1 ! 0) (p2 ! 0) x = (ix, ox, lx, rx)"
    by (metis prod_cases4)
  obtain iy oy ly ry where jy: "judge_attr EPS (p1 ! 1) (p2 ! 1) y = (iy, oy, ly, ry)"
    by (metis prod_cases4)
  note X = judge_attr_exact [OF c(1) assms(2,4) jx] and Y = judge_attr_exact [OF c(2) assms(2,5) jy]
  let ?j = "ix \<and> iy"
  show thesis
  proof (rule that [OF judgeJoinGroup_2 [OF assms(3) jx jy]])
    show "?j \<longleftrightarrow> (\<forall>m\<in>ms. near2 EPS (x, y) m)" using X(1) Y(1) by (auto simp: near2_def)
    show "box2 EPS (if ?j then p1[0 := lx, 1 := ly] else p1) (if ?j then p2[0 := rx, 1 := ry] else p2)
        (insert (x, y) ms)" if ?j
      using X(2) Y(2) that c(3,4) unfolding box2_def One_nat_def by simp
  qed auto
qed

lemma box2_near:
  assumes "box2 EPS p1 p2 ms" "m \<in> ms" "k \<in> ms"
  shows "near2 EPS m k"
  using assms unfolding box2_def cbox_def near2_def by simp

text \<open>The rectangle of a box: proper, small, and containing exactly the admissible points.\<close>

lemma box2_mbr:
  assumes "box2 EPS p1 p2 ms" "box_eps EPS"
  obtains r where "getMBRHashEntry p1 p2 2 = Some r" "small_mbr r"
    "\<And>x y. mbr_le (MBR (of_int x) (of_int y) (of_int x) (of_int y)) r \<longleftrightarrow> (\<forall>m\<in>ms. near2 EPS (x, y) m)"
proof -
  let ?r = "MBR (of_int (p1 ! 0)) (of_int (p1 ! 1)) (of_int (p2 ! 0)) (of_int (p2 ! 1))"
  have c: "cbox EPS (p1 ! 0) (p2 ! 0) (fst ` ms)" "cbox EPS (p1 ! 1) (p2 ! 1) (snd ` ms)"
    using assms(1) by (simp_all add: box2_def)
  note B = cbox_bounds [OF c(1) assms(2)] cbox_bounds [OF c(2) assms(2)]
  have "getMBRHashEntry p1 p2 2 = Some ?r"
    by (simp add: getMBRHashEntry_def mbr_init_def Let_def nth_Cons')
  moreover have "small_mbr ?r"
    using B by (simp add: small_mbr_def proper_def mbr_le_def abs_le_iff)
  moreover have "mbr_le (MBR (of_int x) (of_int y) (of_int x) (of_int y)) ?r \<longleftrightarrow>
      (\<forall>m\<in>ms. near2 EPS (x, y) m)" for x y
  proof -
    have "mbr_le (MBR (of_int x) (of_int y) (of_int x) (of_int y)) ?r \<longleftrightarrow>
        (p1 ! 0 \<le> x \<and> x \<le> p2 ! 0) \<and> (p1 ! 1 \<le> y \<and> y \<le> p2 ! 1)"
      by (auto simp: mbr_le_def)
    also have "\<dots> \<longleftrightarrow> (\<forall>m\<in>fst ` ms. \<bar>x - m\<bar> \<le> EPS) \<and> (\<forall>m\<in>snd ` ms. \<bar>y - m\<bar> \<le> EPS)"
      using c unfolding cbox_def by blast
    finally show ?thesis by (auto simp: near2_def)
  qed
  ultimately show thesis using that by blast
qed

lemma new_box2:
  assumes "slot2 s x y" "pt_ok x" "pt_ok y" "box_eps EPS" "2 \<le> length p1" "2 \<le> length p2"
    "copyfromTupleTableToArray p1 p2 s 2 = (a1, a2)" "updateInputSlotbyEPS a1 a2 2 EPS = (b1, b2)"
  shows "box2 EPS b1 b2 {(x, y)}" "length b1 = length p1" "length b2 = length p2"
proof -
  have a: "a1 = p1[0 := x, Suc 0 := y]" "a2 = p2[0 := x, Suc 0 := y]"
    using assms(1,7) by (simp_all add: copyfromTupleTableToArray_def upt2)
  have b: "b1 = a1[0 := sub32 (a1 ! 0) EPS, 1 := sub32 (a1 ! 1) EPS]"
    "b2 = a2[0 := add32 (a2 ! 0) EPS, 1 := add32 (a2 ! 1) EPS]"
    using assms(8) by (simp_all add: updateInputSlotbyEPS_def)
  show "length b1 = length p1" "length b2 = length p2" by (simp_all add: a b)
  show "box2 EPS b1 b2 {(x, y)}"
    using assms(5,6) cbox_single [OF assms(2,4)] cbox_single [OF assms(3,4)]
    unfolding a b box2_def One_nat_def by simp
qed


section \<open>The distance tests\<close>

text \<open>The point of a slot, and the numbers the loops leave for two attributes.\<close>

lemma InsideBound_fold:
  assumes "slot2 s a b" "slot2 t x y"
  shows "InsideBound s t EPS metric 2 =
     bound_verdict metric EPS (bound_step metric y b (bound_step metric x a (0, 0)))"
  using assms by (simp add: InsideBound_def upt2)

definition dist_ok :: "int \<Rightarrow> int \<Rightarrow> bool" where
  "dist_ok x a \<longleftrightarrow> \<bar>x - a\<bar> \<le> 32767"

lemma bound_L2:
  assumes "dist_ok x a" "dist_ok y b" "0 \<le> EPS" "int32 EPS"
  shows "bound_verdict 2 EPS (bound_step 2 y b (bound_step 2 x a (0, 0))) \<longleftrightarrow>
     (x - a) * (x - a) + (y - b) * (y - b) \<le> EPS * EPS"
proof -
  let ?dx = "x - a" and ?dy = "y - b"
  let ?d = "?dx * ?dx + ?dy * ?dy"
  have sq: "?dx * ?dx \<le> 32767 * 32767" "?dy * ?dy \<le> 32767 * 32767" "0 \<le> ?dx * ?dx" "0 \<le> ?dy * ?dy"
    using assms(1,2) abs_mult_less abs_le_square_iff [of ?dx 32767] abs_le_square_iff [of ?dy 32767]
    by (simp_all add: dist_ok_def power2_eq_square)
  have d: "0 \<le> ?d" "?d \<le> 2147352578" using sq by linarith+
  have i: "int32 (x - a)" "int32 (y - b)" "int32 (?dx * ?dx)" "int32 (?dy * ?dy)" "int32 ?d"
    using assms(1,2) sq d unfolding int32_def dist_ok_def abs_le_iff by linarith+
  have "bound_step 2 y b (bound_step 2 x a (0, 0)) = (?d, 0)"
    using i by (simp add: bound_step_def c_int_defs)
  moreover obtain r where r: "dsqrt (of_int ?d) = Some r" using dsqrt_nonneg [of "of_int ?d"] d(1) by auto
  have "r \<le> of_int EPS \<longleftrightarrow> ?d \<le> EPS * EPS"
    by (rule dsqrt_le_int_iff [OF d(1) _ assms(3) _ r]) (use d assms(4) in \<open>simp_all add: int32_def\<close>)
  ultimately show ?thesis using r by (simp add: bound_verdict_def)
qed

lemma bound_L1_Linf:
  assumes "pt_ok x" "pt_ok a" "pt_ok y" "pt_ok b"
  shows "bound_verdict 1 EPS (bound_step 1 y b (bound_step 1 x a (0, 0))) \<longleftrightarrow> \<bar>x - a\<bar> + \<bar>y - b\<bar> \<le> EPS"
    "bound_verdict 3 EPS (bound_step 3 y b (bound_step 3 x a (0, 0))) \<longleftrightarrow> max \<bar>x - a\<bar> \<bar>y - b\<bar> \<le> EPS"
proof -
  have co: "coord_ok x" "coord_ok a" "coord_ok y" "coord_ok b"
    using assms by (simp_all add: pt_ok_def coord_ok_def abs_le_iff)
  note i = coord_ok_ops(3) [OF co(1,2)] coord_ok_ops(3) [OF co(3,4)]
  have "\<bar>x - a\<bar> \<le> 16777216" "\<bar>y - b\<bar> \<le> 16777216"
    using assms unfolding pt_ok_def by linarith+
  then have "int32 \<bar>x - a\<bar>" "int32 (\<bar>y - b\<bar> + \<bar>x - a\<bar>)" by (simp_all add: int32_def)
  then show "bound_verdict 1 EPS (bound_step 1 y b (bound_step 1 x a (0, 0))) \<longleftrightarrow> \<bar>x - a\<bar> + \<bar>y - b\<bar> \<le> EPS"
    by (simp add: bound_step_def bound_verdict_def i add32_def add.commute)
  show "bound_verdict 3 EPS (bound_step 3 y b (bound_step 3 x a (0, 0))) \<longleftrightarrow> max \<bar>x - a\<bar> \<bar>y - b\<bar> \<le> EPS"
    by (auto simp: bound_step_def bound_verdict_def i Let_def)
qed

section \<open>Scans conserve tuples\<close>

lemma scan_group_conserves:
  "mset (keep (scan_group near b ts st)) + mset (moved (scan_group near b ts st))
     = mset (keep st) + mset (moved st) + mset ts"
proof (induction near b ts st rule: scan_group.induct)
  case (2 near b t ts st)
  then show ?case by (cases ts) (auto simp: Let_def)
qed simp

text \<open>After the first tuple the scan is a plain loop.\<close>

definition take_out :: "tuple \<Rightarrow> scan_state \<Rightarrow> scan_state" where
  "take_out t st = st\<lparr>iisempty := False, moved := moved st @ [t], slen := slen st - 1\<rparr>"

lemma scan_group_step:
  "near t \<Longrightarrow> slen st \<noteq> 1 \<Longrightarrow> scan_group near False (t # ts) st = scan_group near False ts (take_out t st)"
  "\<not> near t \<Longrightarrow> scan_group near b (t # ts) st = scan_group near False ts (st\<lparr>keep := keep st @ [t]\<rparr>)"
  "near t \<Longrightarrow> slen st \<noteq> 1 \<Longrightarrow> scan_group near True (t # u # us) st
     = scan_group near False us ((take_out t st)\<lparr>keep := keep st @ [u]\<rparr>)"
  "near t \<Longrightarrow> slen st \<noteq> 1 \<Longrightarrow> scan_group near True [t] st = take_out t st"
  "near t \<Longrightarrow> slen st = 1 \<Longrightarrow> scan_group near b (t # ts) st
     = st\<lparr>iisempty := False, entryNULL := True, keep := keep st @ t # ts\<rparr>"
  by (simp_all add: take_out_def Let_def)

lemma take_out_simps [simp]:
  "keep (take_out t st) = keep st" "moved (take_out t st) = moved st @ [t]"
  by (simp_all add: take_out_def)

lemma scan_False_near:
  "set (moved (scan_group near False ts st)) \<subseteq> set (moved st) \<union> {t. near t}"
  "set (keep st) \<subseteq> set (keep (scan_group near False ts st))"
proof (induction ts arbitrary: st)
  case (Cons t ts)
  {
    case 1
    show ?case using Cons.IH(1) [of "take_out t st"] Cons.IH(1) [of "st\<lparr>keep := keep st @ [t]\<rparr>"]
      by (cases "near t"; cases "slen st = 1") (auto simp: scan_group_step simp del: scan_group.simps)
  next
    case 2
    show ?case using Cons.IH(2) [of "take_out t st"] Cons.IH(2) [of "st\<lparr>keep := keep st @ [t]\<rparr>"]
      by (cases "near t"; cases "slen st = 1") (auto simp: scan_group_step simp del: scan_group.simps)
  }
qed auto

lemma scan_group_moved_near:
  "set (moved (scan_group near True (t # ts) st)) \<subseteq> set (moved st) \<union> {t. near t}"
proof (cases "near t \<and> slen st \<noteq> 1")
  case True
  then show ?thesis
  proof (cases ts)
    case (Cons u us)
    then show ?thesis using True scan_False_near(1) [of near us "(take_out t st)\<lparr>keep := keep st @ [u]\<rparr>"]
      by (auto simp: scan_group_step simp del: scan_group.simps)
  qed (auto simp: scan_group_step simp del: scan_group.simps)
next
  case False
  then show ?thesis using scan_False_near(1) [of near ts "st\<lparr>keep := keep st @ [t]\<rparr>"]
    by (cases "near t") (auto simp: scan_group_step simp del: scan_group.simps)
qed

lemma scan_group_complete:
  "\<not> entryNULL (scan_group near False ts st) \<Longrightarrow>
     keep (scan_group near False ts st) = keep st @ filter (\<lambda>t. \<not> near t) ts"
proof (induction ts arbitrary: st)
  case (Cons t ts)
  show ?case
  proof (cases "near t \<and> slen st = 1")
    case False
    define st' where "st' = (if near t then st\<lparr>iisempty := False, moved := moved st @ [t], slen := slen st - 1\<rparr>
      else st\<lparr>keep := keep st @ [t]\<rparr>)"
    have "scan_group near False (t # ts) st = scan_group near False ts st'"
      using False by (auto simp: st'_def Let_def)
    then show ?thesis using Cons.IH [of st'] Cons.prems by (auto simp: st'_def)
  next
    case True
    then show ?thesis using Cons.prems by simp
  qed
qed simp

section \<open>Points\<close>

text \<open>The degenerate rectangle of a point, and the slots of tuples with two admissible
  coordinates.\<close>

definition pmbr :: "int \<times> int \<Rightarrow> RTREEMBR" where
  "pmbr p = MBR (of_int (fst p)) (of_int (snd p)) (of_int (fst p)) (of_int (snd p))"

definition slot_point :: "slot \<Rightarrow> int \<times> int \<Rightarrow> bool" where
  "slot_point s p \<longleftrightarrow> slot2 s (fst p) (snd p) \<and> pt_ok (fst p) \<and> pt_ok (snd p)"

lemma pmbr_small: "pt_ok (fst p) \<Longrightarrow> pt_ok (snd p) \<Longrightarrow> small_mbr (pmbr p)"
  by (simp add: pmbr_def small_mbr_def proper_def mbr_le_def pt_ok_def abs_le_iff)

lemma slot_point_mbr:
  assumes "slot_point s p"
  shows "getMBRinputSlot s 2 = Some (pmbr p)"
proof -
  have "slot2 s (fst p) (snd p)" using assms by (simp add: slot_point_def)
  from slot2_get [OF this] show ?thesis
    by (simp add: getMBRinputSlot_def mbr_init_def pmbr_def Let_def)
qed

section \<open>Properties\<close>

text \<open>C27. \<open>judgeJoinGroup\<close> admits a tuple to a group exactly when it is within \<open>EPS\<close> of every
  member in every coordinate, and then clips the box so that this stays true with the new
  member; otherwise the box is unchanged.\<close>

theorem judgeJoinGroup_exact:
  assumes "box2 EPS p1 p2 ms" "box_eps EPS" "slot2 s x y" "pt_ok x" "pt_ok y"
  shows "case judgeJoinGroup 2 p1 p2 s EPS of (join, ov, q1, q2) \<Rightarrow>
     (join \<longleftrightarrow> (\<forall>m\<in>ms. near2 EPS (x, y) m)) \<and>
     (if join then box2 EPS q1 q2 (insert (x, y) ms) else q1 = p1 \<and> q2 = p2)"
  by (rule judge_box2 [OF assms]) auto

lemma judgeJoinGroup_exact_witness:
  "case judgeJoinGroup 2 [-3, -2] [7, 8] (slot_of [4, 1]) 5 of (join, ov, q1, q2) \<Rightarrow>
     (join \<longleftrightarrow> (\<forall>m\<in>{(2, 3)}. near2 5 (4, 1) m)) \<and>
     (if join then box2 5 q1 q2 (insert (4, 1) {(2, 3)}) else q1 = [-3, -2] \<and> q2 = [7, 8])"
proof (rule judgeJoinGroup_exact)
  show "box2 5 [-3, -2] [7, 8] {(2, 3)}"
    unfolding box2_def cbox_def pt_ok_def by (simp add: abs_le_iff) auto
qed (simp_all add: box_eps_def slot2_def slot_of_def pt_ok_def)

text \<open>The metric name LONE notwithstanding, the box test is an L-infinity test: a second
  tuple at distance \<open>EPS\<close> in both coordinates, L1 distance \<open>2 * EPS\<close>, is admitted to the group
  of the first.\<close>

theorem judgeJoinGroup_not_L1:
  assumes "box_eps EPS" "pt_ok x" "pt_ok y" "pt_ok (x + EPS)" "pt_ok (y + EPS)"
  shows "case copyfromTupleTableToArray [0, 0, 0, 0, 0] [0, 0, 0, 0, 0] (slot_of [x, y]) 2 of (a1, a2) \<Rightarrow>
     case updateInputSlotbyEPS a1 a2 2 EPS of (p1, p2) \<Rightarrow>
       fst (judgeJoinGroup 2 p1 p2 (slot_of [x + EPS, y + EPS]) EPS)"
proof -
  obtain a1 a2 where a: "copyfromTupleTableToArray [0, 0, 0, 0, 0] [0, 0, 0, 0, 0] (slot_of [x, y]) 2 = (a1, a2)"
    by fastforce
  obtain p1 p2 where p: "updateInputSlotbyEPS a1 a2 2 EPS = (p1, p2)" by fastforce
  have s: "slot2 (slot_of [x, y]) x y" "slot2 (slot_of [x + EPS, y + EPS]) (x + EPS) (y + EPS)"
    by (simp_all add: slot2_def slot_of_def)
  have "box2 EPS p1 p2 {(x, y)}" using new_box2(1) [OF s(1) assms(2,3,1) _ _ a p] by simp
  then have "fst (judgeJoinGroup 2 p1 p2 (slot_of [x + EPS, y + EPS]) EPS)"
    by (rule judge_box2 [OF _ assms(1) s(2) assms(4,5)]) (use assms(1) in \<open>auto simp: near2_def box_eps_def\<close>)
  then show ?thesis by (simp add: a p)
qed

lemma judgeJoinGroup_not_L1_witness:
  "case copyfromTupleTableToArray [0, 0, 0, 0, 0] [0, 0, 0, 0, 0] (slot_of [1, 1]) 2 of (a1, a2) \<Rightarrow>
     case updateInputSlotbyEPS a1 a2 2 5 of (p1, p2) \<Rightarrow>
       fst (judgeJoinGroup 2 p1 p2 (slot_of [1 + 5, 1 + 5]) 5)"
  by (rule judgeJoinGroup_not_L1) (simp_all add: box_eps_def pt_ok_def)

text \<open>With coordinates less than \<open>2 ^ 15\<close> apart, \<open>InsideBound\<close> in metric 2 compares the
  Euclidean distance with \<open>EPS\<close> exactly: the rounding of \<open>sqrt\<close> never shows.\<close>

theorem InsideBound_L2_exact:
  assumes "slot2 s a b" "slot2 t x y" "dist_ok x a" "dist_ok y b" "0 \<le> EPS" "int32 EPS"
  shows "InsideBound s t EPS 2 2 \<longleftrightarrow> (x - a) * (x - a) + (y - b) * (y - b) \<le> EPS * EPS"
  unfolding InsideBound_fold [OF assms(1,2)] by (rule bound_L2 [OF assms(3-6)])

lemma InsideBound_L2_exact_witness:
  "InsideBound (slot_of [0, 0]) (slot_of [3, 4]) 5 2 2 \<longleftrightarrow>
     (3 - 0) * (3 - 0) + (4 - 0) * (4 - 0) \<le> (5::int) * 5"
  by (rule InsideBound_L2_exact) (simp_all add: slot2_def slot_of_def dist_ok_def int32_def)

text \<open>Beyond that range the sum of squares wraps around: a tuple \<open>2 ^ 16\<close> away counts as
  within distance 1.\<close>

theorem InsideBound_L2_wraps:
  "InsideBound (slot_of [0, 0]) (slot_of [65536, 0]) 1 2 2"
proof -
  have "slot2 (slot_of [0, 0]) 0 0" "slot2 (slot_of [65536, 0]) 65536 0" by (simp_all add: slot2_def slot_of_def)
  from InsideBound_fold [OF this, of 1 2] show ?thesis
    by (simp add: bound_step_def bound_verdict_def c_int_defs i32_def dsqrt_def)
qed

text \<open>The scan of \<open>findIntersection_putIntoMemoList\<close> neither loses nor duplicates a tuple
  of the group, takes out only tuples near the input, and, unless the first tuple was taken
  out or the group would become empty, all of them.\<close>

theorem scan_group_partitions:
  assumes "scan_group near True (t # ts) \<lparr>keep = [], moved = [], slen = n, entryNULL = False, iisempty = True\<rparr> = st"
  shows "mset (keep st) + mset (moved st) = mset (t # ts) \<and> (\<forall>u\<in>set (moved st). near u) \<and>
     (\<not> near t \<longrightarrow> \<not> entryNULL st \<longrightarrow> keep st = filter (\<lambda>u. \<not> near u) (t # ts))"
proof -
  let ?s = "\<lparr>keep = [], moved = [], slen = n, entryNULL = False, iisempty = True\<rparr>"
  have "mset (keep st) + mset (moved st) = mset (t # ts)"
    using scan_group_conserves [of near True "t # ts" ?s] assms by simp
  moreover have "\<forall>u\<in>set (moved st). near u"
    using scan_group_moved_near [of near t ts ?s] assms by auto
  moreover have "keep st = filter (\<lambda>u. \<not> near u) (t # ts)" if "\<not> near t" "\<not> entryNULL st"
    using scan_group_complete [of near ts "?s\<lparr>keep := [t]\<rparr>"] assms that by simp
  ultimately show ?thesis by blast
qed

lemma scan_group_partitions_witness:
  "let t1 = \<lparr>numAttr = 2, vals = [1, 1]\<rparr>; t2 = \<lparr>numAttr = 2, vals = [9, 9]\<rparr>;
      near = (\<lambda>t. vals t ! 0 = 9);
      st = scan_group near True [t1, t2] \<lparr>keep = [], moved = [], slen = 2, entryNULL = False, iisempty = True\<rparr>
   in mset (keep st) + mset (moved st) = mset [t1, t2] \<and> (\<forall>u\<in>set (moved st). near u) \<and>
     (\<not> near t1 \<longrightarrow> \<not> entryNULL st \<longrightarrow> keep st = filter (\<lambda>u. \<not> near u) [t1, t2])"
  unfolding Let_def by (rule scan_group_partitions [OF refl])

text \<open>When the first tuple of the chain is taken out the next one is passed without a test:
  of two near tuples at the head the second stays in the group.\<close>

theorem scan_group_skips:
  assumes "near t" "near u" "n > 2"
  shows "u \<in> set (keep (scan_group near True (t # u # ts)
     \<lparr>keep = [], moved = [], slen = n, entryNULL = False, iisempty = True\<rparr>))"
proof -
  let ?s = "\<lparr>keep = [], moved = [], slen = n, entryNULL = False, iisempty = True\<rparr>"
  have "scan_group near True (t # u # ts) ?s
      = scan_group near False ts ((take_out t ?s)\<lparr>keep := keep ?s @ [u]\<rparr>)"
    by (rule scan_group_step(3)) (use assms in simp_all)
  then show ?thesis using scan_False_near(2) [of "(take_out t ?s)\<lparr>keep := keep ?s @ [u]\<rparr>" near ts]
    by (auto simp del: scan_group.simps)
qed

lemma scan_group_skips_witness:
  "let t = \<lparr>numAttr = 1, vals = [1]\<rparr>; u = \<lparr>numAttr = 1, vals = [2]\<rparr> in
   u \<in> set (keep (scan_group (\<lambda>_. True) True [t, u, t]
     \<lparr>keep = [], moved = [], slen = 3, entryNULL = False, iisempty = True\<rparr>))"
  unfolding Let_def by (rule scan_group_skips) simp_all

text \<open>The slot helpers hand \<open>heap_modify_tuple\<close> arrays of \<open>numAttributes\<close> cells, while it
  reads one per column: with any column beyond the grouping attributes (an argument of an
  aggregate, say) it reads past them.\<close>

theorem slot_helpers_read_past:
  assumes "numAttributes < length s"
  shows "puttuple_TupleTableSlot t s numAttributes = None \<and> getTableSlot is numAttributes s = None"
  using assms by (auto simp: puttuple_TupleTableSlot_def getTableSlot_def heap_modify_tuple_def Let_def)

lemma slot_helpers_read_past_witness:
  "puttuple_TupleTableSlot \<lparr>numAttr = 2, vals = [1, 2]\<rparr> (slot_of [1, 2, 3]) 2 = None \<and>
   getTableSlot [1, 2] 2 (slot_of [1, 2, 3]) = None"
  by (rule slot_helpers_read_past) (simp add: slot_of_def)

end
