(* ===== verification/ConvexHullM.thy ===== *)
theory ConvexHullM
  imports LinkListM C_Double
begin

text \<open>
  \<^verbatim>\<open>executor/convexhullM.c\<close>: the convex hull of a group under the L2 metric, against which a
  new tuple is tested. A hull of two or more points is a ring of cells linked by \<open>next\<close>; it
  is kept here as the list of its tuples from \<open>convexheader\<close> on, so that \<open>next\<close> of the last
  is the first. A hull of one point has \<open>next\<close> NULL. \<open>numofconvex\<close> is kept beside the ring
  as in the code. All points have two attributes. Doubles that can be NaN are options.
\<close>

section \<open>Operations\<close>

record convexhull =
  convexheader :: "tuple list"
  numofconvex :: nat

definition crossproduct :: "tuple \<Rightarrow> tuple \<Rightarrow> tuple \<Rightarrow> int" where
  "crossproduct pt a b =
     sub32 (mul32 (sub32 (vals a ! 0) (vals pt ! 0)) (sub32 (vals b ! 1) (vals pt ! 1)))
           (mul32 (sub32 (vals a ! 1) (vals pt ! 1)) (sub32 (vals b ! 0) (vals pt ! 0)))"

text \<open>The sum of squares is an \<open>int\<close> before it becomes a double.\<close>

definition L2distance :: "tuple \<Rightarrow> tuple \<Rightarrow> real option" where
  "L2distance pt q =
     dsqrt (of_int (add32 (mul32 (sub32 (vals pt ! 0) (vals q ! 0)) (sub32 (vals pt ! 0) (vals q ! 0)))
                          (mul32 (sub32 (vals pt ! 1) (vals q ! 1)) (sub32 (vals pt ! 1) (vals q ! 1)))))"

definition isTangentPoint :: "tuple \<Rightarrow> tuple \<Rightarrow> tuple \<Rightarrow> tuple \<Rightarrow> bool" where
  "isTangentPoint pt prevous current nextone =
     (let product1 = crossproduct pt prevous current; product2 = crossproduct pt nextone current;
          multiple = (if (product2 > 0 \<and> product1 > 0) \<or> (product2 < 0 \<and> product1 < 0) then 1 else (-1::int))
      in if product1 = 0 \<or> product2 = 0
         then (if product1 = 0 \<and> product2 = 0 then False else True)
         else if multiple > 0 then True else False)"

text \<open>
  \<open>getDegree\<close>, with the C library's \<open>acos\<close> as a parameter (\<open>None\<close> is NaN). Both coordinates of
  the second vector are read from \<open>values[0]\<close>, as in the code. \<open>M_PI\<close> is the double nearest
  to pi. Subtractions of \<open>int\<close>s are done in \<open>int\<close>; a zero divisor is excluded by the test.
\<close>

definition M_PI :: real where
  "M_PI = 884279719003555 / 281474976710656"

definition getDegree :: "(real \<Rightarrow> real option) \<Rightarrow> tuple \<Rightarrow> tuple \<Rightarrow> tuple \<Rightarrow> real option" where
  "getDegree acos pt prevous current =
     (let ma_x = real_of_int (sub32 (vals prevous ! 0) (vals pt ! 0));
          ma_y = real_of_int (sub32 (vals prevous ! 1) (vals pt ! 1));
          mb_x = real_of_int (sub32 (vals current ! 0) (vals pt ! 0));
          mb_y = real_of_int (sub32 (vals current ! 0) (vals pt ! 0));
          v1 = fl (fl (ma_x * mb_x) + fl (ma_y * mb_y))
      in case (dsqrt (fl (fl (ma_x * ma_x) + fl (ma_y * ma_y))), dsqrt (fl (fl (mb_x * mb_x) + fl (mb_y * mb_y)))) of
           (Some ma_val, Some mb_val) \<Rightarrow>
             if fl (ma_val * mb_val) = 0 then Some 180
             else (case acos (fl (v1 / fl (ma_val * mb_val))) of
                     None \<Rightarrow> None
                   | Some x \<Rightarrow> Some (fl (fl (x * 180) / M_PI)))
         | _ \<Rightarrow> None)"

text \<open>The cast of a double to \<open>int\<close> truncates; NaN gives the smallest \<open>int\<close>.\<close>

definition c_trunc :: "real option \<Rightarrow> int" where
  "c_trunc d = (case d of None \<Rightarrow> -2147483648 | Some x \<Rightarrow> if x < 0 then - \<lfloor>- x\<rfloor> else \<lfloor>x\<rfloor>)"

definition isConvexPoint :: "(real \<Rightarrow> real option) \<Rightarrow> tuple \<Rightarrow> tuple \<Rightarrow> tuple \<Rightarrow> tuple \<Rightarrow> bool" where
  "isConvexPoint acos pt prevous current nextone =
     (let ocn = getDegree acos current pt nextone;
          pco = getDegree acos current prevous pt;
          pcn = getDegree acos current prevous nextone
      in case ocn of
           None \<Rightarrow> False
         | Some a \<Rightarrow>
             if a = 0 then fl (a + of_int (c_trunc pco)) > of_int (c_trunc pcn)
             else (case (pco, pcn) of
                     (Some b, Some c) \<Rightarrow> fl (a + b) > c
                   | _ \<Rightarrow> False))"

text \<open>
  \<open>insideConvexAndInsideBound\<close>. The loop visits every vertex once, from the second one on.
  \<open>Inl\<close> is a return from within the loop, \<open>Inr\<close> the counts, \<open>longest\<close> and \<open>overlap\<close> so far.
  A NaN distance fails every comparison.
\<close>

type_synonym hull_state = "nat \<times> nat \<times> real \<times> bool"

definition hull_step :: "int \<Rightarrow> tuple \<Rightarrow> tuple \<Rightarrow> tuple \<Rightarrow> hull_state \<Rightarrow> int + hull_state" where
  "hull_step eps newpoint current nxt st =
     (case st of (count1, count2, longest, overlap) \<Rightarrow>
      let d = L2distance newpoint current;
          longer = (case d of None \<Rightarrow> False | Some x \<Rightarrow> x > longest);
          overlap' = (overlap \<or> (longer \<and> longest \<le> of_int eps));
          longest' = (if longer then the d else longest);
          v = crossproduct newpoint current nxt
      in if d = Some 0 then Inl 0
         else if longer \<and> longest' > of_int eps \<and> overlap' then Inl 3
         else Inr (if v > 0 then (count1 + 1, count2, longest', overlap')
                   else if v < 0 then (count1, count2 + 1, longest', overlap')
                   else (count1, count2, longest', overlap')))"

fun hull_loop :: "int \<Rightarrow> tuple \<Rightarrow> (tuple \<times> tuple) list \<Rightarrow> hull_state \<Rightarrow> int + hull_state" where
  "hull_loop eps newpoint [] st = Inr st"
| "hull_loop eps newpoint ((current, nxt) # cs) st =
     (case hull_step eps newpoint current nxt st of
        Inl r \<Rightarrow> Inl r
      | Inr st' \<Rightarrow> hull_loop eps newpoint cs st')"

definition ring_pairs :: "tuple list \<Rightarrow> (tuple \<times> tuple) list" where
  "ring_pairs rs = zip (rotate 1 rs) (rotate 2 rs)"

definition insideConvexAndInsideBound :: "convexhull option \<Rightarrow> tuple \<Rightarrow> int \<Rightarrow> int" where
  "insideConvexAndInsideBound convex newpoint eps =
     (case convex of
        None \<Rightarrow> 2
      | Some c \<Rightarrow>
          if numofconvex c = 0 then 1
          else if numofconvex c = 1
          then (case L2distance (hd (convexheader c)) newpoint of
                  None \<Rightarrow> 2 | Some d \<Rightarrow> if d \<le> of_int eps then 1 else 2)
          else (case hull_loop eps newpoint (ring_pairs (convexheader c)) (0, 0, 0, False) of
                  Inl r \<Rightarrow> r
                | Inr (count1, count2, longest, overlap) \<Rightarrow>
                    if 0 = count1 \<or> 0 = count2
                    then (if numofconvex c = 2 then 1 else 0)
                    else if longest < of_int eps then 1
                    else if overlap then 3 else 2))"

text \<open>
  \<open>delete_from_to_connect\<close>, with positions of the ring for the cells \<open>begin\<close> and \<open>end\<close>: the
  cells strictly between are dropped and the new one is linked there. A dropped header is
  replaced by \<open>begin\<close>. Returned are the number of dropped cells and the ring.
\<close>

definition delete_from_to_connect :: "tuple list \<Rightarrow> nat \<Rightarrow> nat \<Rightarrow> tuple \<Rightarrow> nat \<times> tuple list" where
  "delete_from_to_connect rs b e newtuple =
     (let k = length rs; rot = rotate b rs; e' = (e + k - b) mod k; h' = (k - b) mod k;
          ring = hd rot # newtuple # drop e' rot
      in (e' - 1, if h' = 0 \<or> h' < e' then ring else rotate (2 + (h' - e')) ring))"

text \<open>The search for the two tangent points: \<open>numofconvex + 1\<close> steps around the ring from
  the second cell on.\<close>

record tangent_state =
  tangleOne :: "nat option"
  tangleTwo :: "nat option"
  shouldchange :: bool

definition tangent_step :: "(real \<Rightarrow> real option) \<Rightarrow> tuple \<Rightarrow> tuple list \<Rightarrow> nat \<Rightarrow> tangent_state \<Rightarrow> tangent_state" where
  "tangent_step acos newpoint rs i st =
     (let k = length rs; pr = rs ! (i mod k); c = (i + 1) mod k; nx = rs ! ((i + 2) mod k)
      in if isTangentPoint newpoint pr (rs ! c) nx
         then (case tangleOne st of
                 None \<Rightarrow> st\<lparr>tangleOne := Some c\<rparr>
               | Some t \<Rightarrow> if c \<noteq> t then st\<lparr>tangleTwo := Some c\<rparr> else st)
         else if tangleOne st \<noteq> None \<and> tangleTwo st = None
         then (if isConvexPoint acos newpoint pr (rs ! c) nx then st\<lparr>shouldchange := True\<rparr> else st)
         else st)"

definition unionConvex :: "(real \<Rightarrow> real option) \<Rightarrow> convexhull \<Rightarrow> tuple \<Rightarrow> convexhull" where
  "unionConvex acos convex newpoint =
     (if numofconvex convex = 0 then \<lparr>convexheader = [newpoint], numofconvex = 1\<rparr>
      else if numofconvex convex = 1 \<or> numofconvex convex = 2
      then \<lparr>convexheader = convexheader convex @ [newpoint], numofconvex = numofconvex convex + 1\<rparr>
      else
        let st = fold (tangent_step acos newpoint (convexheader convex)) [0..<numofconvex convex + 1]
               \<lparr>tangleOne = None, tangleTwo = None, shouldchange = False\<rparr>
        in case (tangleOne st, tangleTwo st) of
             (Some t1, Some t2) \<Rightarrow>
               let (b, e) = (if shouldchange st then (t2, t1) else (t1, t2));
                   (lostnumber, rs) = delete_from_to_connect (convexheader convex) b e newpoint
               in \<lparr>convexheader = rs, numofconvex = numofconvex convex - lostnumber + 1\<rparr>
           | _ \<Rightarrow> convex)"

section \<open>Distances to the vertices\<close>

definition hull_ok :: "convexhull \<Rightarrow> bool" where
  "hull_ok c \<longleftrightarrow> numofconvex c = length (convexheader c)"

definition sqdist :: "tuple \<Rightarrow> tuple \<Rightarrow> int" where
  "sqdist p q = (vals p ! 0 - vals q ! 0) * (vals p ! 0 - vals q ! 0)
     + (vals p ! 1 - vals q ! 1) * (vals p ! 1 - vals q ! 1)"

definition close_enough :: "tuple \<Rightarrow> tuple \<Rightarrow> bool" where
  "close_enough p q \<longleftrightarrow> \<bar>vals p ! 0 - vals q ! 0\<bar> \<le> 32767 \<and> \<bar>vals p ! 1 - vals q ! 1\<bar> \<le> 32767"

lemma sqdist_bounds:
  assumes "close_enough p q"
  shows "0 \<le> sqdist p q" "sqdist p q \<le> 2147352578" "L2distance p q = dsqrt (of_int (sqdist p q))"
proof -
  let ?dx = "vals p ! 0 - vals q ! 0" and ?dy = "vals p ! 1 - vals q ! 1"
  have sq: "?dx * ?dx \<le> 32767 * 32767" "?dy * ?dy \<le> 32767 * 32767" "0 \<le> ?dx * ?dx" "0 \<le> ?dy * ?dy"
    using assms abs_le_square_iff [of ?dx 32767] abs_le_square_iff [of ?dy 32767]
    by (simp_all add: close_enough_def power2_eq_square)
  then show "0 \<le> sqdist p q" "sqdist p q \<le> 2147352578" unfolding sqdist_def by linarith+
  have "int32 ?dx" "int32 ?dy" "int32 (?dx * ?dx)" "int32 (?dy * ?dy)" "int32 (?dx * ?dx + ?dy * ?dy)"
    using assms sq unfolding int32_def close_enough_def abs_le_iff by linarith+
  then show "L2distance p q = dsqrt (of_int (sqdist p q))"
    by (simp add: L2distance_def c_int_defs sqdist_def)
qed

lemma L2distance_le:
  assumes "close_enough p q" "0 \<le> eps" "int32 eps"
  shows "\<exists>d. L2distance p q = Some d \<and> 0 \<le> d \<and> (d \<le> of_int eps \<longleftrightarrow> sqdist p q \<le> eps * eps) \<and>
     (d = 0 \<longleftrightarrow> sqdist p q = 0)"
proof -
  note b = sqdist_bounds [OF assms(1)]
  obtain d where d: "dsqrt (of_int (sqdist p q)) = Some d" "0 \<le> d"
    using dsqrt_nonneg [of "of_int (sqdist p q)"] b(1) by auto
  have "d \<le> of_int eps \<longleftrightarrow> sqdist p q \<le> eps * eps"
    by (rule dsqrt_le_int_iff [OF b(1) _ assms(2) _ d(1)]) (use b assms(3) in \<open>simp_all add: int32_def\<close>)
  moreover have "d \<le> of_int 0 \<longleftrightarrow> sqdist p q \<le> 0 * 0"
    by (rule dsqrt_le_int_iff [OF b(1) _ _ _ d(1)]) (use b in simp_all)
  then have "d = 0 \<longleftrightarrow> sqdist p q = 0" using d(2) b(1) by auto
  ultimately show ?thesis using d b(3) by simp
qed

lemma hull_loop_spec:
  assumes "\<forall>(c, n)\<in>set cs. close_enough p c" "0 \<le> eps" "int32 eps" "longest \<le> of_int eps" "0 \<le> longest"
  shows "case hull_loop eps p cs (c1, c2, longest, ov) of
      Inl r \<Rightarrow> r = 0 \<and> (\<exists>(c, n)\<in>set cs. sqdist p c = 0) \<or> r = 3 \<and> (\<exists>(c, n)\<in>set cs. sqdist p c > eps * eps)
    | Inr (k1, k2, l, ov') \<Rightarrow> (\<forall>(c, n)\<in>set cs. 0 < sqdist p c \<and> sqdist p c \<le> eps * eps) \<and>
        l \<le> of_int eps \<and> longest \<le> l \<and> (cs \<noteq> [] \<longrightarrow> 0 < l) \<and> (longest = 0 \<and> cs \<noteq> [] \<or> ov \<longrightarrow> ov')"
  using assms(1,4,5)
proof (induction cs arbitrary: c1 c2 longest ov)
  case Nil
  then show ?case by simp
next
  case (Cons x cs)
  obtain c n where x: "x = (c, n)" by (cases x)
  have "close_enough p c" using Cons.prems(1) x by simp
  from L2distance_le [OF this assms(2,3)] obtain d where d: "L2distance p c = Some d" "0 \<le> d"
    "d \<le> of_int eps \<longleftrightarrow> sqdist p c \<le> eps * eps" "d = 0 \<longleftrightarrow> sqdist p c = 0" by blast
  have nonneg: "0 \<le> sqdist p c" by (simp add: sqdist_def)
  consider "d = 0" | "d \<noteq> 0" "d > of_int eps" | "d \<noteq> 0" "d \<le> of_int eps" by linarith
  then show ?case
  proof cases
    case 1
    then show ?thesis using d by (simp add: x hull_step_def)
  next
    case 2
    then have "hull_step eps p c n (c1, c2, longest, ov) = Inl 3"
      using d Cons.prems(2) by (simp add: hull_step_def)
    then show ?thesis using 2 d(3) by (auto simp: x)
  next
    case 3
    define l where "l = (if d > longest then d else longest)"
    have l: "l \<le> of_int eps" "0 < l" "longest \<le> l" using 3 d(2) Cons.prems(2,3) by (auto simp: l_def)
    define v where "v = crossproduct p c n"
    define k1 k2 where "k1 = (if v > 0 then c1 + 1 else c1)" and "k2 = (if v < 0 then c2 + 1 else c2)"
    define ov' where "ov' = (ov \<or> d > longest)"
    have "hull_step eps p c n (c1, c2, longest, ov) = Inr (k1, k2, l, ov')"
      using 3 Cons.prems(2) by (cases "d > longest")
        (simp_all add: hull_step_def Let_def d(1) l_def k1_def k2_def ov'_def v_def)
    moreover have "ov \<or> longest = 0 \<longrightarrow> ov'" using 3 d(2) by (auto simp: ov'_def)
    ultimately have st: "hull_step eps p c n (c1, c2, longest, ov) = Inr (k1, k2, l, ov')"
      "ov \<or> longest = 0 \<longrightarrow> ov'" by simp_all
    have IH: "case hull_loop eps p cs (k1, k2, l, ov') of
        Inl r \<Rightarrow> r = 0 \<and> (\<exists>(c, n)\<in>set cs. sqdist p c = 0) \<or> r = 3 \<and> (\<exists>(c, n)\<in>set cs. sqdist p c > eps * eps)
      | Inr (k1, k2, m, o2) \<Rightarrow> (\<forall>(c, n)\<in>set cs. 0 < sqdist p c \<and> sqdist p c \<le> eps * eps) \<and>
          m \<le> of_int eps \<and> l \<le> m \<and> (cs \<noteq> [] \<longrightarrow> 0 < m) \<and> (l = 0 \<and> cs \<noteq> [] \<or> ov' \<longrightarrow> o2)"
      using Cons.IH [where longest = l and ?c1.0 = k1 and ?c2.0 = k2 and ov = ov'] Cons.prems(1) l by simp
    have "0 < sqdist p c" "sqdist p c \<le> eps * eps" using 3 d(3,4) nonneg by simp_all
    then show ?thesis using IH st l unfolding x
      by (cases "hull_loop eps p cs (k1, k2, l, ov')") (auto split: prod.splits)
  qed
qed

lemma ring_pairs_fst: "fst ` set (ring_pairs rs) = set rs"
proof -
  have "map fst (ring_pairs rs) = rotate 1 rs" by (simp add: ring_pairs_def)
  then have "set (map fst (ring_pairs rs)) = set rs" by simp
  then show ?thesis by simp
qed

lemma ring_pairs_ball: "(\<forall>(c, n)\<in>set (ring_pairs rs). P c) \<longleftrightarrow> (\<forall>c\<in>set rs. P c)"
  unfolding ring_pairs_fst [symmetric] by auto

lemma ring_pairs_bex: "(\<exists>(c, n)\<in>set (ring_pairs rs). P c) \<longleftrightarrow> (\<exists>c\<in>set rs. P c)"
  using ring_pairs_ball [of rs "\<lambda>c. \<not> P c"] by auto


section \<open>The ring after a union\<close>

lemma delete_from_to_ok:
  assumes "b < length rs" "e < length rs" "b \<noteq> e" "delete_from_to_connect rs b e p = (lost, ring)"
  shows "lost < length rs" "length ring = length rs - lost + 1" "set ring \<subseteq> insert p (set rs)" "p \<in> set ring"
proof -
  define k where "k = length rs"
  define rot where "rot = rotate b rs"
  define e' where "e' = (e + k - b) mod k"
  have k: "0 < k" "length rot = k" "rot \<noteq> []" using assms(1) by (auto simp: k_def rot_def)
  have e': "0 < e'" "e' < k"
  proof -
    show "e' < k" using k(1) by (simp add: e'_def)
    have "(e + k - b) mod k \<noteq> 0"
      using assms(1-3) unfolding k_def by (cases "b \<le> e") (auto simp: mod_if)
    then show "0 < e'" by (simp add: e'_def)
  qed
  define r0 where "r0 = hd rot # p # drop e' rot"
  have r: "lost = e' - 1" "length ring = length r0" "set ring = set r0"
    using assms(4) unfolding delete_from_to_connect_def Let_def k_def [symmetric] rot_def [symmetric]
      e'_def [symmetric] r0_def [symmetric] by (auto split: if_splits)
  show "lost < length rs" "length ring = length rs - lost + 1"
    using r e' k by (simp_all add: r0_def k_def [symmetric])
  have "hd rot \<in> set rs" using k(3) hd_in_set [of rot] by (simp add: rot_def)
  moreover have "set (drop e' rot) \<subseteq> set rs" using set_drop_subset [of e' rot] by (simp add: rot_def)
  ultimately show "set ring \<subseteq> insert p (set rs)" "p \<in> set ring" by (auto simp: r r0_def)
qed

definition tangents_ok :: "nat \<Rightarrow> tangent_state \<Rightarrow> bool" where
  "tangents_ok k st \<longleftrightarrow> (\<forall>a. tangleOne st = Some a \<longrightarrow> a < k) \<and>
     (\<forall>b. tangleTwo st = Some b \<longrightarrow> b < k \<and> (\<exists>a. tangleOne st = Some a \<and> a \<noteq> b))"

lemma tangent_step_cases:
  fixes rs i
  defines "c \<equiv> (i + 1) mod length rs"
  shows "tangent_step acos p rs i st = st \<or> tangent_step acos p rs i st = st\<lparr>shouldchange := True\<rparr> \<or>
    (tangleOne st = None \<and> tangent_step acos p rs i st = st\<lparr>tangleOne := Some c\<rparr>) \<or>
    (\<exists>t. tangleOne st = Some t \<and> t \<noteq> c \<and> tangent_step acos p rs i st = st\<lparr>tangleTwo := Some c\<rparr>)"
  unfolding tangent_step_def Let_def c_def [symmetric] by (cases "tangleOne st") simp_all

lemma tangent_step_ok:
  assumes "0 < length rs" "tangents_ok (length rs) st"
  shows "tangents_ok (length rs) (tangent_step acos p rs i st)"
proof -
  have c: "(i + 1) mod length rs < length rs" using assms(1) by simp
  from tangent_step_cases [of acos p rs i st] show ?thesis
  proof (elim disjE exE conjE)
    fix t assume "tangleOne st = Some t" "t \<noteq> (i + 1) mod length rs"
      "tangent_step acos p rs i st = st\<lparr>tangleTwo := Some ((i + 1) mod length rs)\<rparr>"
    then show ?thesis using assms(2) c unfolding tangents_ok_def by simp
  next
    assume "tangleOne st = None" "tangent_step acos p rs i st = st\<lparr>tangleOne := Some ((i + 1) mod length rs)\<rparr>"
    then show ?thesis using assms(2) c unfolding tangents_ok_def by simp
  qed (use assms(2) in \<open>simp_all add: tangents_ok_def\<close>)
qed

lemma tangent_fold:
  assumes "0 < length rs" "tangents_ok (length rs) st"
  shows "tangents_ok (length rs) (fold (tangent_step acos p rs) is st)"
  using assms(2) by (induction "is" arbitrary: st) (simp_all add: tangent_step_ok [OF assms(1)])

lemma unionConvex_ok:
  assumes "hull_ok c"
  shows "hull_ok (unionConvex acos c p)"
    "set (convexheader (unionConvex acos c p)) \<subseteq> insert p (set (convexheader c))"
proof -
  have "hull_ok (unionConvex acos c p) \<and>
    set (convexheader (unionConvex acos c p)) \<subseteq> insert p (set (convexheader c))"
  proof (cases "numofconvex c \<le> 2")
    case True
    then have "numofconvex c = 0 \<or> numofconvex c = 1 \<or> numofconvex c = 2" by linarith
    then show ?thesis using assms by (auto simp: unionConvex_def hull_ok_def)
  next
    case False
    define rs where "rs = convexheader c"
    define st where "st = fold (tangent_step acos p rs) [0..<numofconvex c + 1]
      \<lparr>tangleOne = None, tangleTwo = None, shouldchange = False\<rparr>"
    have len: "numofconvex c = length rs" "0 < length rs" using assms False unfolding hull_ok_def rs_def by linarith+
    have t: "tangents_ok (length rs) st"
      unfolding st_def by (rule tangent_fold [OF len(2)]) (simp add: tangents_ok_def)
    have u: "unionConvex acos c p = (case (tangleOne st, tangleTwo st) of
             (Some t1, Some t2) \<Rightarrow>
               let (b, e) = (if shouldchange st then (t2, t1) else (t1, t2));
                   (lostnumber, rs) = delete_from_to_connect rs b e p
               in \<lparr>convexheader = rs, numofconvex = numofconvex c - lostnumber + 1\<rparr>
           | _ \<Rightarrow> c)"
      unfolding unionConvex_def Let_def st_def rs_def using False by simp
    show ?thesis
    proof (cases "tangleTwo st")
      case None
      then show ?thesis using assms by (auto simp: u split: option.split)
    next
      case (Some t2)
      then obtain t1 where t1: "tangleOne st = Some t1" "t1 \<noteq> t2" "t1 < length rs" "t2 < length rs"
        using t unfolding tangents_ok_def by auto
      define b e where "b = (if shouldchange st then t2 else t1)" and "e = (if shouldchange st then t1 else t2)"
      have be: "b < length rs" "e < length rs" "b \<noteq> e" using t1 by (auto simp: b_def e_def)
      obtain lost ring where d: "delete_from_to_connect rs b e p = (lost, ring)" by fastforce
      have "unionConvex acos c p = \<lparr>convexheader = ring, numofconvex = numofconvex c - lost + 1\<rparr>"
        using d t1(1) Some unfolding u b_def e_def by (cases "shouldchange st") simp_all
      then show ?thesis using delete_from_to_ok [OF be d] len by (simp add: hull_ok_def rs_def [symmetric])
    qed
  qed
  then show "hull_ok (unionConvex acos c p)"
    "set (convexheader (unionConvex acos c p)) \<subseteq> insert p (set (convexheader c))" by simp_all
qed

section \<open>Properties\<close>

text \<open>A new tuple is admitted by the hull test (verdict 0 or 1) only when it coincides with
  a vertex or lies within \<open>eps\<close> of all of them; a verdict other than 0, 1 and 3 is not given
  for a hull of two or more points.\<close>

theorem insideConvex_accepts_near:
  assumes "hull_ok c" "2 \<le> numofconvex c" "\<forall>v\<in>set (convexheader c). close_enough p v" "0 \<le> eps" "int32 eps"
  shows "insideConvexAndInsideBound (Some c) p eps \<in> {0, 1, 3} \<and>
     (insideConvexAndInsideBound (Some c) p eps \<le> 1 \<longrightarrow>
        (\<exists>v\<in>set (convexheader c). sqdist p v = 0) \<or> (\<forall>v\<in>set (convexheader c). sqdist p v \<le> eps * eps))"
proof -
  define rs where "rs = convexheader c"
  have ne: "ring_pairs rs \<noteq> []" using assms(1,2) ring_pairs_fst [of rs] by (auto simp: hull_ok_def rs_def)
  have close: "\<forall>(c, n)\<in>set (ring_pairs rs). close_enough p c" using assms(3) by (simp only: ring_pairs_ball rs_def)
  have eps: "(0::real) \<le> of_int eps" using assms(4) by simp
  have num: "numofconvex c \<noteq> 0" "numofconvex c \<noteq> 1" using assms(2) by simp_all
  note spec = hull_loop_spec [where longest = 0 and ?c1.0 = 0 and ?c2.0 = 0 and ov = False, OF close assms(4,5) eps, simplified]
  show ?thesis
  proof (cases "hull_loop eps p (ring_pairs rs) (0, 0, 0, False)")
    case (Inl r)
    then have "r = 0 \<and> (\<exists>(c, n)\<in>set (ring_pairs rs). sqdist p c = 0) \<or> r = 3" using spec by auto
    then have "r = 0 \<and> (\<exists>c\<in>set rs. sqdist p c = 0) \<or> r = 3" unfolding ring_pairs_bex .
    then show ?thesis using Inl num by (auto simp: insideConvexAndInsideBound_def rs_def)
  next
    case (Inr st)
    obtain k1 k2 l ov where st: "st = (k1, k2, l, ov)" by (metis prod_cases4)
    have "(\<forall>(c, n)\<in>set (ring_pairs rs). 0 < sqdist p c \<and> sqdist p c \<le> eps * eps) \<and> ov"
      using spec ne unfolding Inr st by auto
    then have all: "\<forall>c\<in>set rs. 0 < sqdist p c \<and> sqdist p c \<le> eps * eps" "ov" unfolding ring_pairs_ball by blast+
    then have "insideConvexAndInsideBound (Some c) p eps \<in> {0, 1, 3}"
      using num Inr st unfolding insideConvexAndInsideBound_def rs_def by auto
    then show ?thesis using all(1) by (auto simp: rs_def)
  qed
qed

definition pt2 :: "int \<Rightarrow> int \<Rightarrow> tuple" where
  "pt2 x y = \<lparr>numAttr = 2, vals = [x, y]\<rparr>"

lemma insideConvex_accepts_near_witness:
  "let c = \<lparr>convexheader = [pt2 0 0, pt2 0 3], numofconvex = 2\<rparr> in
   insideConvexAndInsideBound (Some c) (pt2 4 3) 9 \<in> {0, 1, 3} \<and>
     (insideConvexAndInsideBound (Some c) (pt2 4 3) 9 \<le> 1 \<longrightarrow>
        (\<exists>v\<in>set (convexheader c). sqdist (pt2 4 3) v = 0) \<or> (\<forall>v\<in>set (convexheader c). sqdist (pt2 4 3) v \<le> 9 * 9))"
  unfolding Let_def by (rule insideConvex_accepts_near)
    (simp_all add: hull_ok_def close_enough_def pt2_def int32_def)

text \<open>At distance exactly \<open>eps\<close> the test depends on the number of vertices: a hull of one
  point admits the tuple, a hull of two does not, although both points are within \<open>eps\<close>.\<close>

theorem insideConvex_boundary:
  "insideConvexAndInsideBound (Some \<lparr>convexheader = [pt2 0 0], numofconvex = 1\<rparr>) (pt2 4 3) 5 = 1 \<and>
   insideConvexAndInsideBound (Some \<lparr>convexheader = [pt2 0 0, pt2 0 3], numofconvex = 2\<rparr>) (pt2 4 3) 5 = 3"
proof -
  have d: "L2distance (pt2 0 0) (pt2 4 3) = Some 5" "L2distance (pt2 4 3) (pt2 0 0) = Some 5"
    "L2distance (pt2 4 3) (pt2 0 3) = Some 4"
    using dsqrt_square [of 5] dsqrt_square [of 4]
    by (simp_all add: L2distance_def pt2_def c_int_defs int32_def i32_def)
  have c: "crossproduct (pt2 4 3) (pt2 0 3) (pt2 0 0) = 12" "crossproduct (pt2 4 3) (pt2 0 0) (pt2 0 3) = -12"
    by (simp_all add: crossproduct_def pt2_def c_int_defs i32_def)
  have r: "ring_pairs [pt2 0 0, pt2 0 3] = [(pt2 0 3, pt2 0 0), (pt2 0 0, pt2 0 3)]"
    by (simp add: ring_pairs_def rotate1_def numeral_2_eq_2 rotate_def)
  show ?thesis
    by (simp add: insideConvexAndInsideBound_def d r hull_step_def c Let_def)
qed

text \<open>\<open>unionConvex\<close> keeps \<open>numofconvex\<close> equal to the number of cells in the ring, and puts
  no point into it but the new one.\<close>

theorem unionConvex_consistent:
  assumes "hull_ok c"
  shows "hull_ok (unionConvex acos c p) \<and>
     set (convexheader (unionConvex acos c p)) \<subseteq> insert p (set (convexheader c))"
  using unionConvex_ok [OF assms] by blast

lemma unionConvex_consistent_witness:
  "let c = \<lparr>convexheader = [pt2 0 0, pt2 0 3, pt2 3 0], numofconvex = 3\<rparr> in
   hull_ok (unionConvex (\<lambda>_. None) c (pt2 4 4)) \<and>
     set (convexheader (unionConvex (\<lambda>_. None) c (pt2 4 4))) \<subseteq> insert (pt2 4 4) (set (convexheader c))"
  unfolding Let_def by (rule unionConvex_consistent) (simp add: hull_ok_def)

text \<open>\<open>getDegree\<close> does not look at the second coordinate of its last argument: the angle to
  two different points above each other is the same.\<close>

theorem getDegree_ignores_y:
  "getDegree acos pt prevous (pt2 x y1) = getDegree acos pt prevous (pt2 x y2)"
  by (simp add: getDegree_def pt2_def)

end
