(* ===== verification/DisjointSetM.thy ===== *)
theory DisjointSetM
  imports LinkListM
begin

text \<open>
  The disjoint sets of the SGB-Any operator, \<^verbatim>\<open>executor/disjointSetM.c\<close>. The array
  \<open>m_nodes\<close> is a function of the index; the pointers between its elements are indices, NULL
  is \<open>None\<close>. The two loops of \<open>FindSet\<close> follow parent pointers and are partial functions
  (\<open>None\<close> when they do not end, or would dereference NULL); both are proved to end while the
  parent pointers are well founded. Beside its parent every element is chained into the child
  list of its root, which only the final traversal uses.
\<close>

section \<open>State and operations\<close>

record element =
  rank :: nat
  index :: nat
  visited :: nat
  data :: "tuple option"
  parent :: "nat option"
  childListHead :: "nat option"
  childListEnd :: "nat option"
  nextChild :: "nat option"

type_synonym nodes = "nat \<Rightarrow> element"

record DisJointSets =
  m_nodes :: nodes
  num_sets :: int
  num_elements :: nat
  capacity :: nat

text \<open>The state of a new SGB-Any node (\<open>ExecInitAgg\<close>); the elements are uninitialised memory.\<close>

definition init_dsjset :: "nodes \<Rightarrow> DisJointSets" where
  "init_dsjset junk = \<lparr>m_nodes = junk, num_sets = 0, num_elements = 0, capacity = 3000000\<rparr>"

text \<open>\<open>InsertElement\<close> with the result \<open>true\<close> or \<open>false\<close>; its tuple is never NULL here.\<close>

definition InsertElement :: "tuple \<Rightarrow> nat \<Rightarrow> DisJointSets \<Rightarrow> DisJointSets \<times> bool" where
  "InsertElement p i d =
     (if i > capacity d then (d, False)
      else (d\<lparr>m_nodes := (m_nodes d)(i := \<lparr>rank = 0, index = i, visited = 0, data = Some p, parent = None,
                childListHead = None, childListEnd = None, nextChild = None\<rparr>),
              num_elements := num_elements d + 1, num_sets := num_sets d + 1\<rparr>, True))"

text \<open>Appending \<open>c\<close> to the child list of \<open>r\<close>: the block that occurs in \<open>FindSet\<close> and three
  times in \<open>unionSet\<close>.\<close>

definition append_child :: "nat \<Rightarrow> nat \<Rightarrow> nodes \<Rightarrow> nodes" where
  "append_child r c m =
     (case childListEnd (m r) of
        None \<Rightarrow> m(r := (m r)\<lparr>childListHead := Some c, childListEnd := Some c\<rparr>)
      | Some e \<Rightarrow>
          let m1 = m(e := (m e)\<lparr>nextChild := Some c\<rparr>)
          in m1(r := (m1 r)\<lparr>childListEnd := Some c\<rparr>))"

definition set_parent :: "nat \<Rightarrow> nat \<Rightarrow> nodes \<Rightarrow> nodes" where
  "set_parent c p m = m(c := (m c)\<lparr>parent := Some p\<rparr>)"

partial_function (option) find_root :: "nodes \<Rightarrow> nat \<Rightarrow> nat option" where
  "find_root m i = (case parent (m i) of None \<Rightarrow> Some i | Some p \<Rightarrow> find_root m p)"

partial_function (option) compress :: "nodes \<Rightarrow> nat \<Rightarrow> nat \<Rightarrow> nodes option" where
  "compress m r c =
     (if c \<noteq> r \<and> parent (m c) \<noteq> Some r
      then (case parent (m c) of
              None \<Rightarrow> None
            | Some nxt \<Rightarrow> compress (append_child r c (set_parent c r m)) r nxt)
      else Some m)"

text \<open>\<open>FindSet\<close> returns the index of the root; out of range it prints a message and returns 0.\<close>

definition FindSet :: "nat \<Rightarrow> DisJointSets \<Rightarrow> (nat \<times> DisJointSets) option" where
  "FindSet i d =
     (if i > num_elements d then Some (0, d)
      else (case find_root (m_nodes d) i of
        None \<Rightarrow> None
      | Some r \<Rightarrow> (case compress (m_nodes d) r i of
          None \<Rightarrow> None
        | Some m \<Rightarrow> Some (index (m r), d\<lparr>m_nodes := m\<rparr>))))"

definition unionSet :: "nat \<Rightarrow> nat \<Rightarrow> DisJointSets \<Rightarrow> int \<times> DisJointSets" where
  "unionSet s1 s2 d =
     (if s1 > num_elements d \<or> s2 > num_elements d then (0, d)
      else if s1 = s2 then (-1, d)
      else
        let m = m_nodes d; r1 = rank (m s1); r2 = rank (m s2)
        in if r1 > r2
           then let m1 = append_child s1 s2 (set_parent s2 s1 m);
                    m2 = m1(s1 := (m1 s1)\<lparr>rank := r1 + r2\<rparr>)
                in (int (index (m2 s1)), d\<lparr>m_nodes := m2, num_sets := num_sets d - 1\<rparr>)
           else if r1 < r2
           then let m1 = append_child s2 s1 (set_parent s1 s2 m);
                    m2 = m1(s2 := (m1 s2)\<lparr>rank := r1 + r2\<rparr>)
                in (int (index (m2 s2)), d\<lparr>m_nodes := m2, num_sets := num_sets d - 1\<rparr>)
           else let m1 = append_child s1 s2 (set_parent s2 s1 m);
                    m2 = m1(s1 := (m1 s1)\<lparr>rank := rank (m1 s1) + 1\<rparr>)
                in (int (index (m2 s1)), d\<lparr>m_nodes := m2, num_sets := num_sets d - 1\<rparr>))"

section \<open>Well founded parents\<close>

text \<open>\<open>h\<close> bounds the number of steps to the root.\<close>

definition depth_ok :: "(nat \<Rightarrow> nat) \<Rightarrow> nodes \<Rightarrow> nat \<Rightarrow> bool" where
  "depth_ok h m n \<longleftrightarrow> (\<forall>i<n. \<forall>p. parent (m i) = Some p \<longrightarrow> p < n \<and> h p < h i)"

definition ds_ok :: "nodes \<Rightarrow> nat \<Rightarrow> bool" where
  "ds_ok m n \<longleftrightarrow> (\<exists>h. depth_ok h m n)"

definition roots :: "nodes \<Rightarrow> nat \<Rightarrow> nat set" where
  "roots m n = {i. i < n \<and> parent (m i) = None}"

definition ds_inv :: "DisJointSets \<Rightarrow> bool" where
  "ds_inv d \<longleftrightarrow> ds_ok (m_nodes d) (num_elements d) \<and>
     (\<forall>i<num_elements d. index (m_nodes d i) = i) \<and>
     num_sets d = int (card (roots (m_nodes d) (num_elements d)))"

text \<open>The set of an element, named by its root.\<close>

definition rep :: "nodes \<Rightarrow> nat \<Rightarrow> nat" where
  "rep m i = the (find_root m i)"

lemma parent_append [simp]: "parent (append_child r c m i) = parent (m i)"
  and index_append [simp]: "index (append_child r c m i) = index (m i)"
  and data_append [simp]: "data (append_child r c m i) = data (m i)"
  and visited_append [simp]: "visited (append_child r c m i) = visited (m i)"
  and rank_append [simp]: "rank (append_child r c m i) = rank (m i)"
  by (auto simp: append_child_def Let_def split: option.split)

lemma set_parent_simps [simp]:
  "parent (set_parent c p m i) = (if i = c then Some p else parent (m i))"
  "index (set_parent c p m i) = index (m i)" "data (set_parent c p m i) = data (m i)"
  "visited (set_parent c p m i) = visited (m i)" "rank (set_parent c p m i) = rank (m i)"
  by (simp_all add: set_parent_def)

lemma ds_induct [consumes 2, case_names root child]:
  assumes "ds_ok m n" "i < n"
    and "\<And>i. i < n \<Longrightarrow> parent (m i) = None \<Longrightarrow> P i"
    and "\<And>i p. i < n \<Longrightarrow> parent (m i) = Some p \<Longrightarrow> p < n \<Longrightarrow> P p \<Longrightarrow> P i"
  shows "P i"
proof -
  obtain h where h: "depth_ok h m n" using assms(1) unfolding ds_ok_def by blast
  show ?thesis using assms(2)
  proof (induction "h i" arbitrary: i rule: less_induct)
    case less
    then show ?case using assms(3) [of i] assms(4) [of i] h
      by (cases "parent (m i)") (auto simp: depth_ok_def)
  qed
qed

text \<open>With well founded parents the walk ends in a root.\<close>

lemma find_root_total:
  assumes "ds_ok m n" "i < n"
  shows "\<exists>r. find_root m i = Some r \<and> r < n \<and> parent (m r) = None"
  using assms
proof (induction rule: ds_induct)
  case (root i)
  then show ?case by (simp add: find_root.simps [of m i])
next
  case (child i p)
  then show ?case by (simp add: find_root.simps [of m i])
qed

lemma rep_spec:
  assumes "ds_ok m n" "i < n"
  shows "find_root m i = Some (rep m i)" "rep m i < n" "parent (m (rep m i)) = None"
  using find_root_total [OF assms] by (auto simp: rep_def)

lemma rep_root [simp]: "parent (m i) = None \<Longrightarrow> rep m i = i"
  by (simp add: rep_def find_root.simps [of m i])

lemma rep_parent: "parent (m i) = Some p \<Longrightarrow> rep m i = rep m p"
  by (simp add: rep_def find_root.simps [of m i])

lemma depth_rep:
  assumes "depth_ok h m n" "i < n"
  shows "h (rep m i) \<le> h i" "rep m i \<noteq> i \<Longrightarrow> h (rep m i) < h i"
proof -
  have ok: "ds_ok m n" using assms(1) by (auto simp: ds_ok_def)
  have "h (rep m i) \<le> h i \<and> (rep m i \<noteq> i \<longrightarrow> h (rep m i) < h i)"
    using ok assms(2)
  proof (induction rule: ds_induct)
    case (root i)
    then show ?case by simp
  next
    case (child i p)
    then have "h p < h i" using assms(1) by (auto simp: depth_ok_def)
    then show ?case using child rep_parent [of m i p] by simp
  qed
  then show "h (rep m i) \<le> h i" "rep m i \<noteq> i \<Longrightarrow> h (rep m i) < h i" by auto
qed

text \<open>Only the parents matter.\<close>

lemma ds_cong:
  assumes "\<And>i. parent (m' i) = parent (m i)"
  shows "depth_ok h m' n = depth_ok h m n" "roots m' n = roots m n" "ds_ok m' n = ds_ok m n"
  using assms by (simp_all add: depth_ok_def roots_def ds_ok_def)

lemma rep_cong:
  assumes "ds_ok m n" "i < n" "\<And>i. parent (m' i) = parent (m i)"
  shows "rep m' i = rep m i"
  using assms(1,2)
proof (induction rule: ds_induct)
  case (root i)
  then show ?case using assms(3) by simp
next
  case (child i p)
  then show ?case using rep_parent [of m i p] rep_parent [of m' i p] assms(3) by simp
qed

section \<open>Child chains\<close>

text \<open>The pointers of the child chains stay inside a set.\<close>

definition chain_ptrs :: "element \<Rightarrow> nat set" where
  "chain_ptrs e = set_option (childListHead e) \<union> set_option (childListEnd e) \<union> set_option (nextChild e)"

definition chained :: "nodes \<Rightarrow> nat \<Rightarrow> bool" where
  "chained m n \<longleftrightarrow> (\<forall>i<n. \<forall>c\<in>chain_ptrs (m i). c < n \<and> rep m c = rep m i)"

lemma chain_append:
  "chain_ptrs (append_child r c m i) \<subseteq>
     (if i = r \<or> childListEnd (m r) = Some i then insert c (chain_ptrs (m i)) else chain_ptrs (m i))"
  by (auto simp: append_child_def chain_ptrs_def Let_def split: option.splits if_splits)

lemma chain_set_parent [simp]: "chain_ptrs (set_parent c p m i) = chain_ptrs (m i)"
  by (simp add: chain_ptrs_def set_parent_def)

lemma chained_append:
  assumes "chained m n" "r < n" "c < n" "\<And>i j. i < n \<Longrightarrow> j < n \<Longrightarrow> rep m i = rep m j \<Longrightarrow> rep m' i = rep m' j"
    "rep m' r = rep m' c" "\<And>i. chain_ptrs (m' i) = chain_ptrs (append_child r c (set_parent c r m) i)"
  shows "chained m' n"
  unfolding chained_def
proof (intro allI impI ballI)
  fix i x assume i: "i < n" and x: "x \<in> chain_ptrs (m' i)"
  define m0 where "m0 = set_parent c r m"
  have ends: "childListEnd (m0 r) = childListEnd (m r)" by (simp add: m0_def set_parent_def)
  have old: "y < n \<and> rep m' y = rep m' j" if "y \<in> chain_ptrs (m j)" "j < n" for y j
    using assms(1,4) that unfolding chained_def by metis
  consider "x \<in> chain_ptrs (m i)" | "x = c" "i = r \<or> childListEnd (m r) = Some i"
    using x chain_append [of r c m0 i] unfolding assms(6) m0_def [symmetric] ends
    by (auto simp: m0_def split: if_splits)
  then show "x < n \<and> rep m' x = rep m' i"
  proof cases
    case 1
    then show ?thesis using old i by blast
  next
    case 2
    have "rep m' i = rep m' r"
    proof (cases "i = r")
      case False
      then have "i \<in> chain_ptrs (m r)" using 2 by (simp add: chain_ptrs_def)
      then show ?thesis using old assms(2) by blast
    qed simp
    then show ?thesis using 2 assms(3,5) by simp
  qed
qed

section \<open>Path compression keeps the sets\<close>

lemma reparent_root:
  assumes "depth_ok h m n" "c < n" "parent (m c) \<noteq> None"
    and m': "\<And>i. parent (m' i) = (if i = c then Some (rep m c) else parent (m i))"
  shows "depth_ok h m' n" "i < n \<Longrightarrow> rep m' i = rep m i" "roots m' n = roots m n"
proof -
  have ok: "ds_ok m n" using assms(1) by (auto simp: ds_ok_def)
  note r = rep_spec [OF ok assms(2)]
  have ne: "rep m c \<noteq> c" using r(3) assms(3) by auto
  then have lt: "h (rep m c) < h c" using depth_rep(2) [OF assms(1,2)] by simp
  show d: "depth_ok h m' n" using assms(1) lt r(2) unfolding depth_ok_def m' by auto
  show "roots m' n = roots m n" using assms(3) by (auto simp: roots_def m')
  show "rep m' i = rep m i" if "i < n" using ok that
  proof (induction rule: ds_induct)
    case (root i)
    then have "parent (m' i) = None" using assms(3) by (auto simp: m')
    then show ?case using root by simp
  next
    case (child i p)
    show ?case
    proof (cases "i = c")
      case True
      have "parent (m' (rep m c)) = None" using r(3) ne by (simp add: m')
      then show ?thesis using True rep_parent [of m' c "rep m c"] by (simp add: m')
    next
      case False
      then show ?thesis using child rep_parent [of m i p] rep_parent [of m' i p] by (simp add: m')
    qed
  qed
qed

text \<open>What \<open>FindSet\<close> may change: parents towards the same root, and the child chains.\<close>

definition same_sets :: "nodes \<Rightarrow> nodes \<Rightarrow> nat \<Rightarrow> bool" where
  "same_sets m' m n \<longleftrightarrow> ds_ok m' n \<and> (\<forall>i<n. rep m' i = rep m i) \<and> roots m' n = roots m n \<and>
     (\<forall>i. index (m' i) = index (m i) \<and> data (m' i) = data (m i) \<and> visited (m' i) = visited (m i)) \<and>
     (chained m n \<longrightarrow> chained m' n)"

lemma compress_ok:
  assumes "depth_ok h m n" "c < n"
  shows "\<exists>m'. compress m (rep m c) c = Some m' \<and> same_sets m' m n"
  using assms
proof (induction "h c" arbitrary: m c rule: less_induct)
  case less
  have ok: "ds_ok m n" using less.prems(1) by (auto simp: ds_ok_def)
  define r where "r = rep m c"
  show ?case
  proof (cases "c \<noteq> r \<and> parent (m c) \<noteq> Some r")
    case False
    then have "compress m r c = Some m" by (subst compress.simps) auto
    then show ?thesis using ok by (auto simp: same_sets_def r_def)
  next
    case True
    then obtain q where q: "parent (m c) = Some q" using rep_root [of m c] by (cases "parent (m c)") (auto simp: r_def)
    have lt: "q < n" "h q < h c" using less.prems q by (auto simp: depth_ok_def)
    define m1 where "m1 = append_child r c (set_parent c r m)"
    have par: "parent (m1 i) = (if i = c then Some (rep m c) else parent (m i))" for i
      by (simp add: m1_def r_def)
    have pn: "parent (m c) \<noteq> None" using q by simp
    note rp = reparent_root [OF less.prems pn par]
    have rq: "rep m1 q = r" using rp(2) [OF lt(1)] rep_parent [of m c q, OF q] by (simp add: r_def)
    obtain m' where m': "compress m1 r q = Some m'" "same_sets m' m1 n"
      using less.hyps [OF lt(2) rp(1) lt(1)] unfolding rq by blast
    have "compress m r c = Some m'"
      using True q m'(1) by (subst compress.simps) (simp add: m1_def)
    moreover have "chained m1 n" if "chained m n"
    proof (rule chained_append [OF that _ less.prems(2)])
      show "r < n" using rep_spec(2) [OF ok less.prems(2)] by (simp add: r_def)
      show "rep m1 i = rep m1 j" if "i < n" "j < n" "rep m i = rep m j" for i j
        using rp(2) that by simp
      show "rep m1 r = rep m1 c"
        using rp(2) [OF less.prems(2)] rp(2) [OF \<open>r < n\<close>] rep_spec(3) [OF ok less.prems(2)] by (simp add: r_def)
    qed (simp add: m1_def)
    then have "same_sets m' m n" using m'(2) rp(2,3) by (auto simp: same_sets_def m1_def)
    ultimately show ?thesis by (auto simp: r_def)
  qed
qed

lemma FindSet_ok:
  assumes "ds_inv d" "i < num_elements d"
  shows "\<exists>m'. FindSet i d = Some (rep (m_nodes d) i, d\<lparr>m_nodes := m'\<rparr>) \<and>
     same_sets m' (m_nodes d) (num_elements d) \<and> ds_inv (d\<lparr>m_nodes := m'\<rparr>)"
proof -
  obtain h where h: "depth_ok h (m_nodes d) (num_elements d)"
    using assms(1) by (auto simp: ds_inv_def ds_ok_def)
  obtain m' where m': "compress (m_nodes d) (rep (m_nodes d) i) i = Some m'"
    "same_sets m' (m_nodes d) (num_elements d)"
    using compress_ok [OF h assms(2)] by blast
  have ok: "ds_ok (m_nodes d) (num_elements d)" using assms(1) by (simp add: ds_inv_def)
  note r = rep_spec [OF ok assms(2)]
  have "FindSet i d = Some (rep (m_nodes d) i, d\<lparr>m_nodes := m'\<rparr>)"
    using assms m' r(1,2) by (simp add: FindSet_def ds_inv_def same_sets_def)
  then show ?thesis using m'(2) assms(1) by (intro exI [of _ m']) (simp add: ds_inv_def same_sets_def)
qed

section \<open>Union\<close>

lemma link_roots:
  assumes "ds_ok m n" "a < n" "b < n" "a \<noteq> b" "parent (m a) = None" "parent (m b) = None"
    and m': "\<And>i. parent (m' i) = (if i = b then Some a else parent (m i))"
  shows "ds_ok m' n" "i < n \<Longrightarrow> rep m' i = (if rep m i = b then a else rep m i)"
    "roots m' n = roots m n - {b}"
proof -
  obtain h where h: "depth_ok h m n" using assms(1) by (auto simp: ds_ok_def)
  define h' where "h' i = h i + (if rep m i = b then h a + 1 else 0)" for i
  have "p < n \<and> h' p < h' i" if i: "i < n" "parent (m' i) = Some p" for i p
  proof (cases "i = b")
    case True
    then show ?thesis using i assms by (simp add: m' h'_def)
  next
    case False
    then have p: "parent (m i) = Some p" using i(2) by (simp add: m')
    then have "rep m i = rep m p" by (rule rep_parent)
    then show ?thesis using h i(1) p by (auto simp: depth_ok_def h'_def)
  qed
  then show "ds_ok m' n" unfolding ds_ok_def depth_ok_def by blast
  show "roots m' n = roots m n - {b}" by (auto simp: roots_def m' split: if_splits)
  show "rep m' i = (if rep m i = b then a else rep m i)" if "i < n" using assms(1) that
  proof (induction rule: ds_induct)
    case (root i)
    have "rep m' a = a" using assms(4,5) by (simp add: m')
    then show ?case using root rep_parent [of m' i a] by (cases "i = b") (simp_all add: m')
  next
    case (child i p)
    then have "i \<noteq> b" using assms(6) by auto
    then have "parent (m' i) = Some p" using child(2) by (simp add: m')
    then show ?case using child rep_parent [of m i p] rep_parent [of m' i p] by simp
  qed
qed

text \<open>The union of two sets named by their roots: both now have the returned root.\<close>

lemma unionSet_ok:
  assumes "ds_inv d" "a < num_elements d" "b < num_elements d" "a \<noteq> b"
    "parent (m_nodes d a) = None" "parent (m_nodes d b) = None"
  shows "\<exists>w d'. unionSet a b d = (int w, d') \<and> ds_inv d' \<and> (w = a \<or> w = b) \<and>
     num_elements d' = num_elements d \<and> capacity d' = capacity d \<and> parent (m_nodes d' w) = None \<and>
     (\<forall>i<num_elements d. rep (m_nodes d') i =
        (if rep (m_nodes d) i \<in> {a, b} then w else rep (m_nodes d) i)) \<and>
     (\<forall>i. data (m_nodes d' i) = data (m_nodes d i) \<and> visited (m_nodes d' i) = visited (m_nodes d i)) \<and>
     (chained (m_nodes d) (num_elements d) \<longrightarrow> chained (m_nodes d') (num_elements d))"
proof -
  define m where "m = m_nodes d"
  define n where "n = num_elements d"
  define w l where "w = (if rank (m a) < rank (m b) then b else a)"
    and "l = (if rank (m a) < rank (m b) then a else b)"
  have wl: "{w, l} = {a, b}" "w \<noteq> l" "w < n" "l < n" "parent (m w) = None" "parent (m l) = None"
    using assms by (auto simp: w_def l_def m_def n_def)
  define m1 where "m1 = append_child w l (set_parent l w m)"
  define k where "k = (if rank (m a) = rank (m b) then rank (m1 w) + 1 else rank (m a) + rank (m b))"
  define m2 where "m2 = m1(w := (m1 w)\<lparr>rank := k\<rparr>)"
  have u: "unionSet a b d = (int (index (m2 w)), d\<lparr>m_nodes := m2, num_sets := num_sets d - 1\<rparr>)"
    using assms(2-4) unfolding unionSet_def Let_def m2_def k_def m1_def
    by (auto simp: w_def l_def m_def)
  have par: "parent (m2 i) = (if i = l then Some w else parent (m i))" for i
    by (simp add: m2_def m1_def)
  have oth: "index (m2 i) = index (m i)" "data (m2 i) = data (m i)" "visited (m2 i) = visited (m i)" for i
    by (simp_all add: m2_def m1_def)
  have inv: "ds_ok m n" "\<forall>i<n. index (m i) = i" "num_sets d = int (card (roots m n))"
    using assms(1) by (simp_all add: ds_inv_def m_def n_def)
  note lk = link_roots [OF inv(1) wl(3,4,2,5,6) par]
  have "l \<in> roots m n" using wl by (simp add: roots_def)
  moreover have "finite (roots m n)" by (simp add: roots_def)
  ultimately have "int (card (roots m2 n)) = num_sets d - 1"
    unfolding lk(3) inv(3) by (simp add: card_Diff_singleton) (metis card_gt_0_iff empty_iff of_nat_diff
      One_nat_def Suc_leI of_nat_1)
  then have "ds_inv (d\<lparr>m_nodes := m2, num_sets := num_sets d - 1\<rparr>)"
    using lk(1) inv(2) oth by (simp add: ds_inv_def n_def [symmetric])
  moreover have rp: "rep m2 i = (if rep m i \<in> {a, b} then w else rep m i)" if "i < n" for i
    using lk(2) [OF that] unfolding wl(1) [symmetric] by simp
  moreover have "chained m2 n" if "chained m n"
  proof (rule chained_append [OF that wl(3,4)])
    show "rep m2 i = rep m2 j" if "i < n" "j < n" "rep m i = rep m j" for i j
      using lk(2) that by simp
    show "rep m2 w = rep m2 l" using lk(2) wl by simp
  qed (simp add: m2_def m1_def chain_ptrs_def)
  moreover have "parent (m2 w) = None" using wl(2,5) by (simp add: par)
  ultimately show ?thesis using u oth inv(2) wl(3)
    by (intro exI [of _ w] exI [of _ "d\<lparr>m_nodes := m2, num_sets := num_sets d - 1\<rparr>"])
      (auto simp: n_def m_def w_def)
qed


section \<open>New elements\<close>

lemma InsertElement_ok:
  assumes "ds_inv d" "num_elements d \<le> capacity d"
  defines "n \<equiv> num_elements d"
  shows "\<exists>d'. InsertElement p n d = (d', True) \<and> ds_inv d' \<and> num_elements d' = Suc n \<and>
     capacity d' = capacity d \<and> rep (m_nodes d') n = n \<and> data (m_nodes d' n) = Some p \<and>
     visited (m_nodes d' n) = 0 \<and>
     (\<forall>i<n. rep (m_nodes d') i = rep (m_nodes d) i \<and> data (m_nodes d' i) = data (m_nodes d i) \<and>
        visited (m_nodes d' i) = visited (m_nodes d i)) \<and>
     (chained (m_nodes d) n \<longrightarrow> chained (m_nodes d') (Suc n))"
proof -
  define d' where "d' = fst (InsertElement p n d)"
  define m m' where "m = m_nodes d" and "m' = m_nodes d'"
  have e: "InsertElement p n d = (d', True)" "num_elements d' = Suc n" "capacity d' = capacity d"
    "num_sets d' = num_sets d + 1" "parent (m' n) = None" "data (m' n) = Some p" "visited (m' n) = 0"
    "index (m' n) = n" "\<And>i. i \<noteq> n \<Longrightarrow> m' i = m i"
    using assms(2) by (simp_all add: d'_def InsertElement_def m'_def m_def n_def)
  have inv: "ds_ok m n" "\<forall>i<n. index (m i) = i" "num_sets d = int (card (roots m n))"
    using assms(1) by (simp_all add: ds_inv_def m_def n_def)
  obtain h where h: "depth_ok h m n" using inv(1) by (auto simp: ds_ok_def)
  have "p < Suc n \<and> h p < h i" if "i < Suc n" "parent (m' i) = Some p" for i p
  proof -
    have "i \<noteq> n" using that(2) e(5) by auto
    then show ?thesis using that h e(9) unfolding depth_ok_def by (metis less_Suc_eq)
  qed
  then have ok: "ds_ok m' (Suc n)" unfolding ds_ok_def depth_ok_def by blast
  have "roots m' (Suc n) = insert n (roots m n)"
    using e(5,9) by (auto simp: roots_def less_Suc_eq)
  then have "card (roots m' (Suc n)) = Suc (card (roots m n))" by (simp add: roots_def)
  then have "ds_inv d'" using ok e(2,4,8,9) inv(2,3) unfolding ds_inv_def m'_def [symmetric]
    by (auto simp: less_Suc_eq)
  moreover have rp: "rep m' i = rep m i" if "i < n" for i using inv(1) that
  proof (induction rule: ds_induct)
    case (root i)
    then show ?case using e(9) [of i] by simp
  next
    case (child i q)
    then show ?case using e(9) [of i] rep_parent [of m i q] rep_parent [of m' i q] by simp
  qed
  moreover have "chained m' (Suc n)" if "chained m n"
  proof -
    have "chain_ptrs (m' n) = {}"
      using assms(2) by (simp add: m'_def d'_def InsertElement_def n_def chain_ptrs_def)
    then show ?thesis using that e(9) rp unfolding chained_def by (auto simp: less_Suc_eq)
  qed
  ultimately show ?thesis using e unfolding m'_def [symmetric] m_def [symmetric]
    by (intro exI [of _ d']) (auto simp: m'_def m_def)
qed

section \<open>The interface\<close>

text \<open>
  What SGB-Any uses of the disjoint sets, and the effect of its merging loop: starting from
  the set of the new element, each neighbour's set is found and united with the set at hand.
\<close>

locale union_find =
  fixes inv :: "'s \<Rightarrow> bool"
    and size_of :: "'s \<Rightarrow> nat"
    and rep_of :: "'s \<Rightarrow> nat \<Rightarrow> nat"
    and find :: "nat \<Rightarrow> 's \<Rightarrow> (nat \<times> 's) option"
    and unite :: "nat \<Rightarrow> nat \<Rightarrow> 's \<Rightarrow> int \<times> 's"
  assumes rep_law: "inv d \<Longrightarrow> i < size_of d \<Longrightarrow> rep_of d i < size_of d \<and> rep_of d (rep_of d i) = rep_of d i"
    and find_law: "inv d \<Longrightarrow> i < size_of d \<Longrightarrow> \<exists>d'. find i d = Some (rep_of d i, d') \<and> inv d' \<and>
      size_of d' = size_of d \<and> (\<forall>j<size_of d. rep_of d' j = rep_of d j)"
    and unite_law: "inv d \<Longrightarrow> a < size_of d \<Longrightarrow> b < size_of d \<Longrightarrow> a \<noteq> b \<Longrightarrow>
      rep_of d a = a \<Longrightarrow> rep_of d b = b \<Longrightarrow>
      \<exists>w d'. unite a b d = (int w, d') \<and> inv d' \<and> size_of d' = size_of d \<and> (w = a \<or> w = b) \<and>
        (\<forall>i<size_of d. rep_of d' i = (if rep_of d i \<in> {a, b} then w else rep_of d i))"
begin

fun join_all :: "nat list \<Rightarrow> int \<Rightarrow> 's \<Rightarrow> (int \<times> 's) option" where
  "join_all [] s d = Some (s, d)"
| "join_all (j # js) s d =
     (case find j d of
        None \<Rightarrow> None
      | Some (r, d') \<Rightarrow>
          if int r \<noteq> s then (case unite r (nat s) d' of (w, d'') \<Rightarrow> join_all js w d'')
          else join_all js s d')"

lemma united_reps:
  assumes "i < n" "\<forall>j\<in>set js. j < n" "\<And>i. i < n \<Longrightarrow> q i = (if p i \<in> {r, s} then u else p i)" "u = r \<or> u = s"
    "\<And>i. i < n \<Longrightarrow> q' i = (if q i \<in> insert u (q ` set js) then w else q i)"
  shows "q' i = (if p i \<in> insert s (insert r (p ` set js)) then w else p i)"
proof (cases "p i \<in> {r, s}")
  case True
  then show ?thesis using assms(1,3,5) by auto
next
  case False
  then have e: "q i = p i" "q i \<noteq> u" using assms(1,3,4) by auto
  have "q i \<in> q ` set js \<longleftrightarrow> p i \<in> p ` set js"
  proof
    assume "q i \<in> q ` set js"
    then obtain x where x: "x \<in> set js" "q i = q x" by blast
    then have "q x = p x" using assms(2,3) e(2) by (auto split: if_splits)
    then show "p i \<in> p ` set js" using x e(1) by auto
  next
    assume "p i \<in> p ` set js"
    then obtain x where x: "x \<in> set js" "p i = p x" by blast
    then have "q x = p x" using assms(2,3) False by auto
    then show "q i \<in> q ` set js" using x e(1) by (metis image_eqI)
  qed
  then show ?thesis using assms(5) [OF assms(1)] e False by auto
qed

lemma join_all_ok:
  assumes "inv d" "s < size_of d" "rep_of d s = s" "\<forall>j\<in>set js. j < size_of d"
  shows "\<exists>w d'. join_all js (int s) d = Some (int w, d') \<and> inv d' \<and> size_of d' = size_of d \<and>
     w < size_of d \<and> rep_of d' w = w \<and> w \<in> insert s (rep_of d ` set js) \<and>
     (\<forall>i<size_of d. rep_of d' i = (if rep_of d i \<in> insert s (rep_of d ` set js) then w else rep_of d i))"
  using assms
proof (induction js arbitrary: s d)
  case Nil
  then show ?case by auto
next
  case (Cons j js)
  have j: "j < size_of d" using Cons.prems(4) by simp
  obtain d1 where d1: "find j d = Some (rep_of d j, d1)" "inv d1" "size_of d1 = size_of d"
    "\<forall>i<size_of d. rep_of d1 i = rep_of d i"
    using find_law [OF Cons.prems(1) j] by blast
  define r where "r = rep_of d j"
  have r: "r < size_of d" "rep_of d1 r = r" "rep_of d1 s = s"
    using rep_law [OF Cons.prems(1) j] d1(4) Cons.prems(2,3) by (simp_all add: r_def)
  have im: "rep_of d1 ` set js = rep_of d ` set js"
    using Cons.prems(4) d1(4) by (intro image_cong) simp_all
  show ?case
  proof (cases "r = s")
    case True
    obtain w d' where "join_all js (int s) d1 = Some (int w, d')" "inv d'" "size_of d' = size_of d"
      "w < size_of d" "rep_of d' w = w" "w \<in> insert s (rep_of d1 ` set js)"
      "\<forall>i<size_of d. rep_of d' i = (if rep_of d1 i \<in> insert s (rep_of d1 ` set js) then w else rep_of d1 i)"
      using Cons.IH [OF d1(2), of s] d1(3) Cons.prems(2,4) r(3) by auto
    then show ?thesis using d1(1,4) True unfolding im by (simp add: r_def [symmetric])
  next
    case False
    then obtain w1 d2 where d2: "unite r s d1 = (int w1, d2)" "inv d2" "size_of d2 = size_of d"
      "w1 = r \<or> w1 = s" "\<forall>i<size_of d. rep_of d2 i = (if rep_of d1 i \<in> {r, s} then w1 else rep_of d1 i)"
      using unite_law [OF d1(2), of r s] d1(3) r Cons.prems(2) by auto
    have w1: "w1 < size_of d" "rep_of d2 w1 = w1" using d2(4,5) r Cons.prems(2) by auto
    obtain w d' where w: "join_all js (int w1) d2 = Some (int w, d')" "inv d'" "size_of d' = size_of d"
      "w < size_of d" "rep_of d' w = w" "w \<in> insert w1 (rep_of d2 ` set js)"
      "\<forall>i<size_of d. rep_of d' i = (if rep_of d2 i \<in> insert w1 (rep_of d2 ` set js) then w else rep_of d2 i)"
      using Cons.IH [OF d2(2), of w1] d2(3) w1 Cons.prems(4) by auto
    have "rep_of d2 i = (if rep_of d i \<in> {r, s} then w1 else rep_of d i)" if "i < size_of d" for i
      using d2(5) d1(4) that by simp
    then have "rep_of d' i = (if rep_of d i \<in> insert s (rep_of d ` set (j # js)) then w else rep_of d i)"
      if "i < size_of d" for i
      using united_reps [of i "size_of d" js "rep_of d2" "rep_of d" r s w1 "rep_of d'" w] that w(7) d2(4) Cons.prems(4)
      by (simp add: r_def)
    moreover have "w \<in> insert s (rep_of d ` set (j # js))"
    proof (cases "w = w1")
      case False
      then obtain x where x: "x \<in> set js" "w = rep_of d2 x" using w(6) by auto
      then have "w = rep_of d x" using d2(5) d1(4) Cons.prems(4) False by (auto split: if_splits)
      then show ?thesis using x(1) by auto
    qed (use d2(4) in \<open>auto simp: r_def\<close>)
    ultimately show ?thesis using w(1-5) d1(1) d2(1) False by (auto simp: r_def [symmetric])
  qed
qed

end

text \<open>The disjoint sets with room for their elements.\<close>

definition ds_state :: "DisJointSets \<Rightarrow> bool" where
  "ds_state d \<longleftrightarrow> ds_inv d \<and> chained (m_nodes d) (num_elements d) \<and> num_elements d \<le> capacity d"

interpretation uf: union_find ds_state num_elements "\<lambda>d. rep (m_nodes d)" FindSet unionSet
proof unfold_locales
  fix d i
  assume a: "ds_state d" "i < num_elements d"
  then have "ds_ok (m_nodes d) (num_elements d)" by (simp add: ds_state_def ds_inv_def)
  from rep_spec [OF this a(2)]
  show "rep (m_nodes d) i < num_elements d \<and> rep (m_nodes d) (rep (m_nodes d) i) = rep (m_nodes d) i" by simp
next
  fix d i
  assume a: "ds_state d" "i < num_elements d"
  then have "ds_inv d" by (simp add: ds_state_def)
  from FindSet_ok [OF this a(2)] obtain m' where
    "FindSet i d = Some (rep (m_nodes d) i, d\<lparr>m_nodes := m'\<rparr>)"
    "same_sets m' (m_nodes d) (num_elements d)" "ds_inv (d\<lparr>m_nodes := m'\<rparr>)" by blast
  then show "\<exists>d'. FindSet i d = Some (rep (m_nodes d) i, d') \<and> ds_state d' \<and>
      num_elements d' = num_elements d \<and> (\<forall>j<num_elements d. rep (m_nodes d') j = rep (m_nodes d) j)"
    using a by (intro exI [of _ "d\<lparr>m_nodes := m'\<rparr>"]) (simp add: ds_state_def same_sets_def)
next
  fix d a b
  assume a: "ds_state d" "a < num_elements d" "b < num_elements d" "a \<noteq> b"
    "rep (m_nodes d) a = a" "rep (m_nodes d) b = b"
  then have i: "ds_inv d" "ds_ok (m_nodes d) (num_elements d)" by (simp_all add: ds_state_def ds_inv_def)
  have "parent (m_nodes d a) = None" "parent (m_nodes d b) = None"
    using rep_spec(3) [OF i(2) a(2)] rep_spec(3) [OF i(2) a(3)] a(5,6) by simp_all
  from unionSet_ok [OF i(1) a(2-4) this]
  show "\<exists>w d'. unionSet a b d = (int w, d') \<and> ds_state d' \<and> num_elements d' = num_elements d \<and>
      (w = a \<or> w = b) \<and> (\<forall>i<num_elements d. rep (m_nodes d') i =
        (if rep (m_nodes d) i \<in> {a, b} then w else rep (m_nodes d) i))"
    using a(1) by (auto simp: ds_state_def)
qed


section \<open>Properties\<close>

text \<open>C28. \<open>FindSet\<close> ends and returns the root of the element's set; its path compression
  leaves every element in its set, with the same root.\<close>

theorem FindSet_keeps_partition:
  assumes "ds_inv d" "i < num_elements d"
  shows "\<exists>d'. FindSet i d = Some (rep (m_nodes d) i, d') \<and> ds_inv d' \<and> num_elements d' = num_elements d \<and>
     (\<forall>j<num_elements d. rep (m_nodes d') j = rep (m_nodes d) j)"
proof -
  obtain m' where "FindSet i d = Some (rep (m_nodes d) i, d\<lparr>m_nodes := m'\<rparr>)"
    "same_sets m' (m_nodes d) (num_elements d)" "ds_inv (d\<lparr>m_nodes := m'\<rparr>)"
    using FindSet_ok [OF assms] by blast
  then show ?thesis by (intro exI [of _ "d\<lparr>m_nodes := m'\<rparr>"]) (simp add: same_sets_def)
qed

lemma init_inv: "ds_inv (init_dsjset junk)"
  by (simp add: ds_inv_def init_dsjset_def ds_ok_def depth_ok_def roots_def)

definition blank_element :: element where
  "blank_element = \<lparr>rank = 0, index = 0, visited = 0, data = None, parent = None, childListHead = None,
     childListEnd = None, nextChild = None\<rparr>"

definition two_tuple :: "int \<Rightarrow> int \<Rightarrow> tuple" where
  "two_tuple x y = \<lparr>numAttr = 2, vals = [x, y]\<rparr>"

definition two_elements :: DisJointSets where
  "two_elements = fst (InsertElement (two_tuple 5 6) 1
     (fst (InsertElement (two_tuple 1 2) 0 (init_dsjset (\<lambda>_. blank_element)))))"

lemma two_elements_inv:
  "ds_inv two_elements" "num_elements two_elements = 2"
  "rep (m_nodes two_elements) 0 = 0" "rep (m_nodes two_elements) 1 = 1"
proof -
  define d0 where "d0 = init_dsjset (\<lambda>_. blank_element)"
  define d1 where "d1 = fst (InsertElement (two_tuple 1 2) 0 d0)"
  have d0: "ds_inv d0" "num_elements d0 = 0" "num_elements d0 \<le> capacity d0"
    using init_inv by (simp_all add: d0_def) (simp_all add: init_dsjset_def)
  have d1: "ds_inv d1" "num_elements d1 = 1" "num_elements d1 \<le> capacity d1" "rep (m_nodes d1) 0 = 0"
    using InsertElement_ok [OF d0(1,3), of "two_tuple 1 2"] unfolding d0(2) d1_def
    by (auto simp: d0_def init_dsjset_def)
  have t: "two_elements = fst (InsertElement (two_tuple 5 6) 1 d1)"
    by (simp add: two_elements_def d1_def d0_def)
  show "ds_inv two_elements" "num_elements two_elements = 2"
    "rep (m_nodes two_elements) 0 = 0" "rep (m_nodes two_elements) 1 = 1"
    using InsertElement_ok [OF d1(1,3), of "two_tuple 5 6"] d1(4) unfolding d1(2) t by auto
qed

lemma FindSet_keeps_partition_witness:
  "\<exists>d'. FindSet 1 two_elements = Some (rep (m_nodes two_elements) 1, d') \<and> ds_inv d' \<and>
     num_elements d' = num_elements two_elements \<and>
     (\<forall>j<num_elements two_elements. rep (m_nodes d') j = rep (m_nodes two_elements) j)"
  by (rule FindSet_keeps_partition [OF two_elements_inv(1)]) (simp add: two_elements_inv(2))

text \<open>C29. \<open>unionSet\<close> of two different roots makes one set of the two and leaves all others;
  the count of sets stays the number of roots.\<close>

theorem unionSet_merges:
  assumes "ds_inv d" "a < num_elements d" "b < num_elements d" "a \<noteq> b"
    "rep (m_nodes d) a = a" "rep (m_nodes d) b = b"
  shows "\<exists>w d'. unionSet a b d = (int w, d') \<and> ds_inv d' \<and> num_sets d' = num_sets d - 1 \<and>
     (\<forall>i<num_elements d. \<forall>j<num_elements d. rep (m_nodes d') i = rep (m_nodes d') j \<longleftrightarrow>
        rep (m_nodes d) i = rep (m_nodes d) j \<or> {rep (m_nodes d) i, rep (m_nodes d) j} = {a, b})"
proof -
  have ok: "ds_ok (m_nodes d) (num_elements d)" using assms(1) by (simp add: ds_inv_def)
  have p: "parent (m_nodes d a) = None" "parent (m_nodes d b) = None"
    using rep_spec(3) [OF ok assms(2)] rep_spec(3) [OF ok assms(3)] assms(5,6) by simp_all
  obtain w d' where w: "unionSet a b d = (int w, d')" "ds_inv d'" "w = a \<or> w = b"
    "\<forall>i<num_elements d. rep (m_nodes d') i = (if rep (m_nodes d) i \<in> {a, b} then w else rep (m_nodes d) i)"
    using unionSet_ok [OF assms(1-4) p] by blast
  have "num_sets d' = num_sets d - 1"
    using w(1) assms(2-4) by (auto simp: unionSet_def Let_def split: if_splits)
  then show ?thesis using w by (intro exI [of _ w] exI [of _ d']) (auto simp: doubleton_eq_iff)
qed

lemma unionSet_merges_witness:
  "\<exists>w d'. unionSet 0 1 two_elements = (int w, d') \<and> ds_inv d' \<and> num_sets d' = num_sets two_elements - 1 \<and>
     (\<forall>i<num_elements two_elements. \<forall>j<num_elements two_elements.
        rep (m_nodes d') i = rep (m_nodes d') j \<longleftrightarrow>
        rep (m_nodes two_elements) i = rep (m_nodes two_elements) j \<or>
        {rep (m_nodes two_elements) i, rep (m_nodes two_elements) j} = {0, 1})"
  by (rule unionSet_merges [OF two_elements_inv(1)])
    (simp_all add: two_elements_inv two_elements_inv(4) [unfolded One_nat_def])

end
