(* ===== verification/AggState.thy ===== *)
theory AggState
  imports SGBHelper ConvexHullM DisjointSetM
begin

text \<open>
  The state of the hashed aggregation, \<^verbatim>\<open>include/nodes/execnodes.h\<close>, and the lookups in its
  hash table, \<^verbatim>\<open>executor/nodeAgg.c\<close>. An entry of the table is reached by its key, the
  grouping columns of a tuple; a pointer to an entry is that key. The transition state of the
  aggregate functions is of any type \<open>'a\<close>, with the parameters \<open>init\<close>
  (\<open>initialize_aggregates\<close>) and \<open>advance\<close> (\<open>advance_aggregates\<close> on the tuple of
  \<open>ecxt_scantuple\<close>). The grouping columns are the first \<open>numCols\<close> columns, as the grouping
  code assumes throughout. \<open>ExecInitAgg_state\<close> is what a new node has allocated.
\<close>

section \<open>State\<close>

text \<open>\<open>entry->tuplestorestate\<close> is NULL, a tuple store, or a \<open>tmpGroup\<close> (overlap 2).\<close>

datatype store = NoStore | Tuples "slot list" | Group tmpGroup

record 'a AggHashEntry =
  flagEnabled :: nat
  tuplestorestate :: store
  tupleInmemolist :: "slot list option"
  convex_ptr :: "convexhull option"
  pivot1Slot :: "int list"
  pivot2Slot :: "int list"
  ismodified :: bool
  pergroup :: 'a

record AggHashTuple_M =
  hentry :: "slot option"
  inputslots :: "int list"
  hpivot1 :: "int list"
  hpivot2 :: "int list"
  hnumAttr :: nat

datatype AggStrategy = AGG_PLAIN | AGG_SORTED | AGG_HASHED

text \<open>The order of the values in C.\<close>

primrec strategy_value :: "AggStrategy \<Rightarrow> nat" where
  "strategy_value AGG_PLAIN = 0"
| "strategy_value AGG_SORTED = 1"
| "strategy_value AGG_HASHED = 2"

instantiation AggStrategy :: linorder
begin

definition less_eq_AggStrategy :: "AggStrategy \<Rightarrow> AggStrategy \<Rightarrow> bool" where
  "less_eq_AggStrategy s t \<longleftrightarrow> strategy_value s \<le> strategy_value t"

definition less_AggStrategy :: "AggStrategy \<Rightarrow> AggStrategy \<Rightarrow> bool" where
  "less_AggStrategy s t \<longleftrightarrow> strategy_value s < strategy_value t"

instance
proof
  fix s t :: AggStrategy
  assume "s \<le> t" "t \<le> s"
  then show "s = t" by (cases s; cases t) (simp_all add: less_eq_AggStrategy_def)
qed (auto simp: less_eq_AggStrategy_def less_AggStrategy_def)

end

lemma not_hashed: "s \<noteq> AGG_HASHED \<longleftrightarrow> s \<le> AGG_SORTED"
  by (cases s) (simp_all add: less_eq_AggStrategy_def)

record Agg_plan =
  aggstrategy :: AggStrategy
  numCols :: nat
  max_group_diam :: int
  max_elem_sep :: int
  distanceall :: int
  distanceany :: int
  metric :: int
  overlap :: int

text \<open>The pointers \<open>hasharray\<close>, \<open>rtreeroot\<close> and \<open>dsjset\<close> are NULL in a node that does not allocate
  them: \<open>hasharray_cells\<close> is the number of cells behind \<open>hasharray\<close>, 0 for NULL, and \<open>rtree_set\<close> and
  \<open>dsjset_set\<close> say that the tree and the sets exist.
  \<open>rand_seq\<close> is what \<open>rand\<close> will return, \<open>fresh_mem\<close> the content of newly allocated memory.
  \<open>buffer_slot\<close> is the tuple of the slot \<open>aggstate->pivot1Slot\<close>, \<open>stray_entry\<close> the word
  \<open>hasharray[-1].entry\<close> in front of the array, which \<open>NEW-GROUP\<close> writes.\<close>

record 'a AggState =
  hashtable :: "slot \<Rightarrow> 'a AggHashEntry option"
  hasharray :: "nat \<Rightarrow> AggHashTuple_M"
  hasharray_cells :: nat
  indexhasharray :: nat
  rtree_set :: bool
  rtreeroot :: RTREEROOT
  globals :: search_globals
  dsjset_set :: bool
  dsjset :: DisJointSets
  numbertuples :: nat
  rand_seq :: "nat \<Rightarrow> int"
  fresh_mem :: "int list"
  overlaptuplestorestate1 :: "slot list option"
  buffer_slot :: slot
  stray_entry :: "slot option"

definition rand :: "'a AggState \<Rightarrow> int \<times> 'a AggState" where
  "rand st = (rand_seq st 0, st\<lparr>rand_seq := (\<lambda>i. rand_seq st (Suc i))\<rparr>)"

section \<open>Lookups\<close>

text \<open>A new entry of the hash table is zeroed by \<open>LookupTupleHashEntry\<close>; \<open>init\<close> stands for the
  untouched \<open>pergroup\<close> as well, which is not read before it is initialised.\<close>

definition zero_entry :: "'a \<Rightarrow> 'a AggHashEntry" where
  "zero_entry init =
     \<lparr>flagEnabled = 0, tuplestorestate = NoStore, tupleInmemolist = None, convex_ptr = None,
      pivot1Slot = [0, 0, 0, 0, 0], pivot2Slot = [0, 0, 0, 0, 0], ismodified = False, pergroup = init\<rparr>"

definition hash_key :: "Agg_plan \<Rightarrow> slot \<Rightarrow> slot" where
  "hash_key node s = take (numCols node) s"

definition new_entry :: "Agg_plan \<Rightarrow> 'a \<Rightarrow> int \<Rightarrow> int \<Rightarrow> 'a AggHashEntry" where
  "new_entry node init rx ry =
     (zero_entry init)
       \<lparr>convex_ptr := Some \<lparr>convexheader = [], numofconvex = 0\<rparr>,
        tuplestorestate := (if overlap node = 2 then Group (constructGroup (numCols node) rx ry False)
                            else Tuples []),
        tupleInmemolist := (if overlap node = 2 then Some [] else None)\<rparr>"

text \<open>A new entry is also written into \<open>hasharray[indexhasharray]\<close>, unchecked: \<open>None\<close> is a write
  through NULL or past the last cell.\<close>

definition hash_room :: "'a AggState \<Rightarrow> bool" where
  "hash_room st \<longleftrightarrow> indexhasharray st < hasharray_cells st"

definition lookup_hash_entry :: "Agg_plan \<Rightarrow> 'a \<Rightarrow> 'a AggState \<Rightarrow> slot \<Rightarrow> (slot \<times> 'a AggState) option" where
  "lookup_hash_entry node init st s =
     (let key = hash_key node s in
      case hashtable st key of
        Some e \<Rightarrow> Some (key, st)
      | None \<Rightarrow>
          let (e, st1) = (if overlap node = 2
                then (case rand st of (rx, st1) \<Rightarrow> case rand st1 of (ry, st2) \<Rightarrow>
                        (new_entry node init (rem32 rx 10000) (rem32 ry 10000), st2))
                else (new_entry node init 0 0, st));
              cell = \<lparr>hentry = Some key,
                      inputslots = copyinputslottoDes s [0..<numCols node] [0, 0, 0, 0, 0],
                      hpivot1 = [0, 0, 0, 0, 0], hpivot2 = [0, 0, 0, 0, 0], hnumAttr = numCols node\<rparr>
          in if hash_room st
             then Some (key, st1\<lparr>hashtable := (hashtable st1)(key \<mapsto> e),
                                 hasharray := (hasharray st1)(indexhasharray st1 := cell)\<rparr>)
             else None)"

text \<open>\<open>lookup_hash_entry_group\<close> looks up, creating a zeroed entry, and says whether it was
  new.\<close>

definition lookup_hash_entry_group :: "Agg_plan \<Rightarrow> 'a \<Rightarrow> 'a AggState \<Rightarrow> slot \<Rightarrow> bool \<times> 'a AggState" where
  "lookup_hash_entry_group node init st s =
     (let key = hash_key node s in
      case hashtable st key of
        Some e \<Rightarrow> (False, st)
      | None \<Rightarrow> (True, st\<lparr>hashtable := (hashtable st)(key \<mapsto> zero_entry init)\<rparr>))"

text \<open>Writing through a pointer to an entry.\<close>

definition update_entry :: "slot \<Rightarrow> ('a AggHashEntry \<Rightarrow> 'a AggHashEntry) \<Rightarrow> 'a AggState \<Rightarrow> 'a AggState" where
  "update_entry key f st = st\<lparr>hashtable := (hashtable st)(key := map_option f (hashtable st key))\<rparr>"

definition puttupleslot :: "slot \<Rightarrow> store \<Rightarrow> store" where
  "puttupleslot s ts = (case ts of Tuples xs \<Rightarrow> Tuples (xs @ [s]) | _ \<Rightarrow> ts)"

text \<open>The copy of the input tuple for the distance tests, in newly allocated memory.\<close>

definition input_tuple :: "Agg_plan \<Rightarrow> 'a AggState \<Rightarrow> slot \<Rightarrow> tuple" where
  "input_tuple node st s = \<lparr>numAttr = 2, vals = copyinputslottoDes s [0..<numCols node] (fresh_mem st)\<rparr>"

text \<open>The random key values of a new group: two columns at most are replaced, the first by
  \<open>rand() % a + numbertuples\<close> (with one column \<open>+ rand() % b1\<close>), the second by
  \<open>rand() % b2\<close>.\<close>

definition random_key_values :: "int \<Rightarrow> int \<Rightarrow> int \<Rightarrow> Agg_plan \<Rightarrow> 'a AggState \<Rightarrow> int list \<times> bool list \<times> 'a AggState" where
  "random_key_values a b1 b2 node st =
     (let n = numCols node; zeros = replicate n (0::int); no = replicate n False;
          num = int (numbertuples st)
      in if n = 1
         then (case rand st of (r1, st1) \<Rightarrow> case rand st1 of (r2, st2) \<Rightarrow>
                 (zeros[0 := add32 (add32 (rem32 r1 a) num) (rem32 r2 b1)], no[0 := True], st2))
         else if n = 2
         then (case rand st of (r1, st1) \<Rightarrow> case rand st1 of (r2, st2) \<Rightarrow>
                 (zeros[0 := add32 (rem32 r1 a) num, 1 := rem32 r2 b2], no[0 := True, 1 := True], st2))
         else (zeros, no, st))"

section \<open>The rows\<close>

text \<open>\<open>agg_retrieve_hash_table\<close>, called until it returns NULL: a row for every entry of the
  table, except those with flag 0 under NEW-GROUP. A row is the representative tuple (of which
  the key is modelled) and the finalised aggregates; the HAVING clause is \<open>having\<close>.\<close>

fun agg_retrieve_hash_table :: "Agg_plan \<Rightarrow> ('a \<Rightarrow> 'r) \<Rightarrow> (slot \<Rightarrow> 'r \<Rightarrow> bool) \<Rightarrow> slot list \<Rightarrow> 'a AggState \<Rightarrow>
    (slot \<times> 'r) list option" where
  "agg_retrieve_hash_table node final having [] st = Some []"
| "agg_retrieve_hash_table node final having (k # ks) st =
     (case hashtable st k of
        None \<Rightarrow> None
      | Some e \<Rightarrow>
          if flagEnabled e = 0 \<and> overlap node = 2 then agg_retrieve_hash_table node final having ks st
          else map_option (\<lambda>rows. if having k (final (pergroup e)) then (k, final (pergroup e)) # rows else rows)
                 (agg_retrieve_hash_table node final having ks st))"

section \<open>A start state\<close>

text \<open>What \<open>ExecInitAgg\<close> allocates, \<^verbatim>\<open>nodeAgg.c\<close>: \<open>hasharray\<close> only when \<open>distanceall\<close> is not 0, the
  disjoint sets only when \<open>distanceany\<close> is not 0, the R-tree and the result arrays in both cases.
  What was not allocated keeps whatever \<open>st\<close> holds, unread. The second overlap
  store, which no live code reads, is left out.\<close>

definition no_cell :: AggHashTuple_M where
  "no_cell = \<lparr>hentry = None, inputslots = [0, 0, 0, 0, 0], hpivot1 = [0, 0, 0, 0, 0], hpivot2 = [0, 0, 0, 0, 0], hnumAttr = 0\<rparr>"

definition ExecInitAgg_state :: "Agg_plan \<Rightarrow> nodes \<Rightarrow> 'a AggState \<Rightarrow> 'a AggState" where
  "ExecInitAgg_state node junk st =
     (let st0 = st\<lparr>hashtable := (\<lambda>_. None), indexhasharray := 0, hasharray_cells := 0, rtree_set := False,
                   dsjset_set := False\<rparr>;
          st1 = (if distanceall node \<noteq> 0
                 then st0\<lparr>rtree_set := True, rtreeroot := RTreeCreate, hasharray := (\<lambda>_. no_cell),
                          hasharray_cells := sizeofgroup, globals := initilListBegin (globals st0)\<rparr>
                 else st0);
          st2 = (if overlap node = 2
                 then st1\<lparr>overlaptuplestorestate1 := Some [], numbertuples := 0\<rparr>
                 else st1)
      in if distanceany node \<noteq> 0
         then st2\<lparr>rtree_set := True, rtreeroot := RTreeCreate, dsjset_set := True, dsjset := init_dsjset junk,
                  indexhasharray := 0, globals := initilListBegin (globals st2)\<rparr>
         else st2)"

lemma ExecInitAgg_state_simps:
  "hashtable (ExecInitAgg_state node junk st) = (\<lambda>_. None)"
  "indexhasharray (ExecInitAgg_state node junk st) = 0"
  "hasharray_cells (ExecInitAgg_state node junk st) = (if distanceall node \<noteq> 0 then sizeofgroup else 0)"
  "rtree_set (ExecInitAgg_state node junk st) \<longleftrightarrow> distanceall node \<noteq> 0 \<or> distanceany node \<noteq> 0"
  "distanceall node \<noteq> 0 \<or> distanceany node \<noteq> 0 \<Longrightarrow> rtreeroot (ExecInitAgg_state node junk st) = RTreeCreate"
  "dsjset_set (ExecInitAgg_state node junk st) \<longleftrightarrow> distanceany node \<noteq> 0"
  "distanceany node \<noteq> 0 \<Longrightarrow> dsjset (ExecInitAgg_state node junk st) = init_dsjset junk"
  "overlap node = 2 \<Longrightarrow> overlaptuplestorestate1 (ExecInitAgg_state node junk st) = Some [] \<and>
     numbertuples (ExecInitAgg_state node junk st) = 0"
  "fresh_mem (ExecInitAgg_state node junk st) = fresh_mem st"
  by (simp_all add: ExecInitAgg_state_def Let_def)

text \<open>The state of a node with both distances set, with \<open>rand\<close> a counter.\<close>

definition demo_state :: "'a AggState" where
  "demo_state = \<lparr>hashtable = (\<lambda>_. None),
     hasharray = (\<lambda>_. \<lparr>hentry = None, inputslots = [], hpivot1 = [], hpivot2 = [], hnumAttr = 0\<rparr>),
     hasharray_cells = sizeofgroup, indexhasharray = 0, rtree_set = True, rtreeroot = RTreeCreate,
     globals = \<lparr>containArray = (\<lambda>_. 0), overlapArray = (\<lambda>_. 0), index_contain = 0, index_overlap = 0, iscontain_M = False\<rparr>,
     dsjset_set = True, dsjset = init_dsjset (\<lambda>_. blank_element), numbertuples = 0, rand_seq = int, fresh_mem = [0, 0],
     overlaptuplestorestate1 = Some [], buffer_slot = [], stray_entry = None\<rparr>"

lemma demo_room: "hash_room demo_state"
  by (simp add: hash_room_def demo_state_def sizeofgroup_def)

definition demo_plan :: "int \<Rightarrow> int \<Rightarrow> Agg_plan" where
  "demo_plan metr ov = \<lparr>aggstrategy = AGG_HASHED, numCols = 2, max_group_diam = -1, max_elem_sep = -1, distanceall = 10, distanceany = 10, metric = metr, overlap = ov\<rparr>"

end
