(* ===== verification/SGBAll.thy ===== *)
theory SGBAll
  imports AggState
begin

text \<open>
  The SGB-All operator with the overlap semantics ANY (\<open>overlap = 1\<close>, a tuple that fits
  several groups joins one of them) and ELIMINATE (\<open>overlap = 3\<close>, it is dropped),
  \<^verbatim>\<open>executor/nodeAgg.c\<close>: \<open>agg_fill_hash_table_overlap_random_l1\<close>, \<open>_random_l2\<close>,
  \<open>_eliminated_l1\<close> and \<open>_eliminated_l2\<close>. Proved: the handlers of metric 1 refine one step of an
  abstract grouping of points, in which every group is a clique of the \<open>EPS\<close> neighbourhood.
\<close>

section \<open>Entries\<close>

text \<open>The entry of a hit: the pointer in \<open>hasharray\<close>, or, when that is NULL, a lookup of the
  cell's values in the hash table. The key is \<open>None\<close> when that lookup made a new entry. Reading
  outside \<open>hasharray\<close> fails.\<close>

definition contain_entry :: "Agg_plan \<Rightarrow> 'a \<Rightarrow> slot \<Rightarrow> nat \<Rightarrow> 'a AggState \<Rightarrow>
    (slot option \<times> 'a AggState) option" where
  "contain_entry node init inputslot hashID st =
     (let cell = hasharray st (hashID - 1) in
      if hasharray_cells st \<le> hashID - 1 then None
      else case hentry cell of
        Some key \<Rightarrow> Some (Some key, st)
      | None \<Rightarrow>
          (case getTableSlot (inputslots cell) (numCols node) inputslot of
             None \<Rightarrow> None
           | Some modifiedSlot \<Rightarrow>
               (case lookup_hash_entry_group node init st modifiedSlot of (isnew, st1) \<Rightarrow>
                if isnew then Some (None, st1)
                else map_option (\<lambda>(key, st2). (Some key, st2)) (lookup_hash_entry node init st1 modifiedSlot))))"

text \<open>\<open>memcpy\<close> of the first \<open>n\<close> cells.\<close>

definition copy_cells :: "nat \<Rightarrow> int list \<Rightarrow> int list \<Rightarrow> int list" where
  "copy_cells n src dst = take n src @ drop n dst"

text \<open>The new box of a group: its rectangle is deleted from the tree under the old pivots and
  inserted under the new ones.\<close>

definition rebox_entry :: "Agg_plan \<Rightarrow> nat \<Rightarrow> slot \<Rightarrow> int list \<Rightarrow> int list \<Rightarrow> 'a AggState \<Rightarrow> 'a AggState option" where
  "rebox_entry node hashID key tmp_pivot1 tmp_pivot2 st =
     (let n = numCols node in
      case hashtable st key of
        None \<Rightarrow> None
      | Some e \<Rightarrow>
          (case getMBRHashEntry (pivot1Slot e) (pivot2Slot e) n of
             None \<Rightarrow> None
           | Some deleteMBR \<Rightarrow>
               (case RTreeDelete (rtreeroot st) deleteMBR hashID of
                  None \<Rightarrow> None
                | Some (rt1, _) \<Rightarrow>
                    let e' = e\<lparr>pivot1Slot := copy_cells n tmp_pivot1 (pivot1Slot e),
                               pivot2Slot := copy_cells n tmp_pivot2 (pivot2Slot e)\<rparr>
                    in (case getMBRHashEntry (pivot1Slot e') (pivot2Slot e') n of
                          None \<Rightarrow> None
                        | Some newMBR \<Rightarrow>
                            (case RTreeInsert rt1 newMBR (child_of_tid hashID) 0 of
                               None \<Rightarrow> None
                             | Some (rt2, _) \<Rightarrow>
                                 Some (update_entry key (\<lambda>_. e')
                                   (st\<lparr>rtreeroot := rt2,
                                       hasharray := (hasharray st)(hashID - 1 :=
                                         (hasharray st (hashID - 1))\<lparr>hentry := Some key\<rparr>)\<rparr>)))))))"

text \<open>A tuple joins a group: the tuple store and the aggregates.\<close>

definition absorb_tuple :: "(slot \<Rightarrow> 'a \<Rightarrow> 'a) \<Rightarrow> slot \<Rightarrow> slot \<Rightarrow> 'a AggState \<Rightarrow> 'a AggState" where
  "absorb_tuple advance s key st =
     update_entry key (\<lambda>e. e\<lparr>tuplestorestate := puttupleslot s (tuplestorestate e),
                             pergroup := advance s (pergroup e)\<rparr>) st"

text \<open>A new group for the tuple: the last block of every handler. \<open>keyslot\<close> is the slot looked
  up, \<open>put_hull\<close> what the handler does to the convex hull of the entry. An entry that is in use
  ends the handler: the tuple is put nowhere.\<close>

definition start_group :: "Agg_plan \<Rightarrow> 'a \<Rightarrow> (slot \<Rightarrow> 'a \<Rightarrow> 'a) \<Rightarrow> (convexhull \<Rightarrow> convexhull) \<Rightarrow> slot \<Rightarrow> slot \<Rightarrow>
    'a AggState \<Rightarrow> 'a AggState option" where
  "start_group node init advance put_hull s keyslot st =
     (let n = numCols node in
      case lookup_hash_entry node init st keyslot of
        None \<Rightarrow> None
      | Some (key, st1) \<Rightarrow>
      case hashtable st1 key of
        None \<Rightarrow> None
      | Some e \<Rightarrow>
          if flagEnabled e \<noteq> 0 then Some st1
          else
            (case copyfromTupleTableToArray (pivot1Slot e) (pivot2Slot e) s n of (p1, p2) \<Rightarrow>
             case updateInputSlotbyEPS p1 p2 n (distanceall node) of (b1, b2) \<Rightarrow>
             case getMBRHashEntry b1 b2 n of
               None \<Rightarrow> None
             | Some insertMBR \<Rightarrow>
                 (case RTreeInsert (rtreeroot st1) insertMBR (child_of_tid (indexhasharray st1 + 1)) 0 of
                    None \<Rightarrow> None
                  | Some (rt', _) \<Rightarrow>
                      Some (update_entry key
                        (\<lambda>e. e\<lparr>flagEnabled := 1, tuplestorestate := puttupleslot s (tuplestorestate e),
                               convex_ptr := map_option put_hull (convex_ptr e),
                               pivot1Slot := b1, pivot2Slot := b2, pergroup := advance s init\<rparr>)
                        (st1\<lparr>rtreeroot := rt', indexhasharray := indexhasharray st1 + 1\<rparr>)))))"

section \<open>Metric 1\<close>

text \<open>The loops of the two handlers over the hits. A group that fits ends the loop of ANY; the
  loop of ELIMINATE goes on until three groups have been found and keeps the first.\<close>

fun random_l1_loop :: "Agg_plan \<Rightarrow> 'a \<Rightarrow> (slot \<Rightarrow> 'a \<Rightarrow> 'a) \<Rightarrow> slot \<Rightarrow> int list \<Rightarrow> 'a AggState \<Rightarrow>
    (bool \<times> 'a AggState) option" where
  "random_l1_loop node init advance s [] st = Some (False, st)"
| "random_l1_loop node init advance s (c # cs) st =
     (case contain_entry node init s (nat c) st of
        None \<Rightarrow> None
      | Some (None, st1) \<Rightarrow> random_l1_loop node init advance s cs st1
      | Some (Some key, st1) \<Rightarrow>
          (case hashtable st1 key of
             None \<Rightarrow> None
           | Some e \<Rightarrow>
               (case judgeJoinGroup (numCols node) (pivot1Slot e) (pivot2Slot e) s (distanceall node) of
                  (joins, ov, q1, q2) \<Rightarrow>
                    if joins
                    then map_option (\<lambda>st2. (True, absorb_tuple advance s key st2))
                           (rebox_entry node (nat c) key q1 q2 st1)
                    else random_l1_loop node init advance s cs st1)))"

definition agg_fill_hash_table_overlap_random_l1 :: "Agg_plan \<Rightarrow> 'a \<Rightarrow> (slot \<Rightarrow> 'a \<Rightarrow> 'a) \<Rightarrow> 'a AggState \<Rightarrow> slot \<Rightarrow>
    'a AggState option" where
  "agg_fill_hash_table_overlap_random_l1 node init advance st s =
     (case getMBRinputSlot s (numCols node) of
        None \<Rightarrow> None
      | Some searchMBR \<Rightarrow>
          (case contain_search (rtreeroot st) searchMBR True (globals st) of
             None \<Rightarrow> None
           | Some (nhits, g) \<Rightarrow>
               (case (if nhits > 0 then random_l1_loop node init advance s (contain_ids g) (st\<lparr>globals := g\<rparr>)
                      else Some (False, st\<lparr>globals := g\<rparr>)) of
                  None \<Rightarrow> None
                | Some (True, st1) \<Rightarrow> Some st1
                | Some (False, st1) \<Rightarrow> start_group node init advance (\<lambda>c. c) s s st1)))"

fun eliminated_l1_loop :: "Agg_plan \<Rightarrow> 'a \<Rightarrow> slot \<Rightarrow> int list \<Rightarrow> nat \<Rightarrow> slot option \<Rightarrow> 'a AggState \<Rightarrow>
    (nat \<times> slot option \<times> 'a AggState) option" where
  "eliminated_l1_loop node init s [] numcontain tmp_entry st = Some (numcontain, tmp_entry, st)"
| "eliminated_l1_loop node init s (c # cs) numcontain tmp_entry st =
     (if numcontain > 2 then Some (numcontain, tmp_entry, st)
      else (case contain_entry node init s (nat c) st of
        None \<Rightarrow> None
      | Some (None, st1) \<Rightarrow> eliminated_l1_loop node init s cs numcontain tmp_entry st1
      | Some (Some key, st1) \<Rightarrow>
          (case hashtable st1 key of
             None \<Rightarrow> None
           | Some e \<Rightarrow>
               (case judgeJoinGroup (numCols node) (pivot1Slot e) (pivot2Slot e) s (distanceall node) of
                  (joins, ov, q1, q2) \<Rightarrow>
                    if joins
                    then (case rebox_entry node (nat c) key q1 q2 st1 of
                            None \<Rightarrow> None
                          | Some st2 \<Rightarrow> eliminated_l1_loop node init s cs (numcontain + 1)
                              (if numcontain = 0 then Some key else tmp_entry) st2)
                    else eliminated_l1_loop node init s cs numcontain tmp_entry st1))))"

definition agg_fill_hash_table_overlap_eliminated_l1 :: "Agg_plan \<Rightarrow> 'a \<Rightarrow> (slot \<Rightarrow> 'a \<Rightarrow> 'a) \<Rightarrow> 'a AggState \<Rightarrow> slot \<Rightarrow>
    'a AggState option" where
  "agg_fill_hash_table_overlap_eliminated_l1 node init advance st s =
     (case getMBRinputSlot s (numCols node) of
        None \<Rightarrow> None
      | Some searchMBR \<Rightarrow>
          (case contain_search (rtreeroot st) searchMBR False (globals st) of
             None \<Rightarrow> None
           | Some (nhits, g) \<Rightarrow>
               (case (if nhits > 0 then eliminated_l1_loop node init s (contain_ids g) 0 None (st\<lparr>globals := g\<rparr>)
                      else Some (0, None, st\<lparr>globals := g\<rparr>)) of
                  None \<Rightarrow> None
                | Some (numcontain, tmp_entry, st1) \<Rightarrow>
                    if numcontain = 1
                    then map_option (\<lambda>key. absorb_tuple advance s key st1) tmp_entry
                    else if numcontain = 0 then start_group node init advance (\<lambda>c. c) s s st1
                    else Some st1)))"

section \<open>Metric 2\<close>

text \<open>The hull test of a hit that passed the box test: the verdict, and the hull with the
  tuple.\<close>

fun random_l2_loop :: "(real \<Rightarrow> real option) \<Rightarrow> Agg_plan \<Rightarrow> 'a \<Rightarrow> (slot \<Rightarrow> 'a \<Rightarrow> 'a) \<Rightarrow> slot \<Rightarrow> int list \<Rightarrow> 'a AggState \<Rightarrow>
    (bool \<times> 'a AggState) option" where
  "random_l2_loop acos node init advance s [] st = Some (False, st)"
| "random_l2_loop acos node init advance s (c # cs) st =
     (case contain_entry node init s (nat c) st of
        None \<Rightarrow> None
      | Some (None, st1) \<Rightarrow> random_l2_loop acos node init advance s cs st1
      | Some (Some key, st1) \<Rightarrow>
          (case hashtable st1 key of
             None \<Rightarrow> None
           | Some e \<Rightarrow>
               (case judgeJoinGroup (numCols node) (pivot1Slot e) (pivot2Slot e) s (distanceall node) of
                  (joins, ov, q1, q2) \<Rightarrow>
                    if joins
                    then
                      let p = input_tuple node st1 s;
                          judgeresult = insideConvexAndInsideBound (convex_ptr e) p (distanceall node);
                          st2 = (if judgeresult = 1
                                 then update_entry key (\<lambda>e. e\<lparr>convex_ptr := map_option (\<lambda>h. unionConvex acos h p) (convex_ptr e)\<rparr>) st1
                                 else st1)
                      in if judgeresult \<le> 1
                         then map_option (\<lambda>st3. (True, absorb_tuple advance s key st3))
                                (rebox_entry node (nat c) key q1 q2 st2)
                         else random_l2_loop acos node init advance s cs st2
                    else random_l2_loop acos node init advance s cs st1)))"

definition agg_fill_hash_table_overlap_random_l2 :: "(real \<Rightarrow> real option) \<Rightarrow> Agg_plan \<Rightarrow> 'a \<Rightarrow> (slot \<Rightarrow> 'a \<Rightarrow> 'a) \<Rightarrow>
    'a AggState \<Rightarrow> slot \<Rightarrow> 'a AggState option" where
  "agg_fill_hash_table_overlap_random_l2 acos node init advance st s =
     (case getMBRinputSlot s (numCols node) of
        None \<Rightarrow> None
      | Some searchMBR \<Rightarrow>
          (case contain_search (rtreeroot st) searchMBR True (globals st) of
             None \<Rightarrow> None
           | Some (nhits, g) \<Rightarrow>
               (case (if nhits > 0 then random_l2_loop acos node init advance s (contain_ids g) (st\<lparr>globals := g\<rparr>)
                      else Some (False, st\<lparr>globals := g\<rparr>)) of
                  None \<Rightarrow> None
                | Some (True, st1) \<Rightarrow> Some st1
                | Some (False, st1) \<Rightarrow>
                    start_group node init advance (\<lambda>h. unionConvex acos h (input_tuple node st1 s)) s s st1)))"

fun eliminated_l2_loop :: "Agg_plan \<Rightarrow> 'a \<Rightarrow> slot \<Rightarrow> int list \<Rightarrow> nat \<Rightarrow> slot option \<Rightarrow> 'a AggState \<Rightarrow>
    (nat \<times> slot option \<times> 'a AggState) option" where
  "eliminated_l2_loop node init s [] numcontain tmp_entry st = Some (numcontain, tmp_entry, st)"
| "eliminated_l2_loop node init s (c # cs) numcontain tmp_entry st =
     (if numcontain > 2 then Some (numcontain, tmp_entry, st)
      else (case contain_entry node init s (nat c) st of
        None \<Rightarrow> None
      | Some (None, st1) \<Rightarrow> eliminated_l2_loop node init s cs numcontain tmp_entry st1
      | Some (Some key, st1) \<Rightarrow>
          (case hashtable st1 key of
             None \<Rightarrow> None
           | Some e \<Rightarrow>
               (case judgeJoinGroup (numCols node) (pivot1Slot e) (pivot2Slot e) s (distanceall node) of
                  (joins, ov, q1, q2) \<Rightarrow>
                    if joins \<and> insideConvexAndInsideBound (convex_ptr e) (input_tuple node st1 s) (distanceall node) \<le> 1
                    then (case rebox_entry node (nat c) key q1 q2 st1 of
                            None \<Rightarrow> None
                          | Some st2 \<Rightarrow> eliminated_l2_loop node init s cs (numcontain + 1)
                              (if numcontain = 0 then Some key else tmp_entry) st2)
                    else eliminated_l2_loop node init s cs numcontain tmp_entry st1))))"

text \<open>The key of a new group of \<open>eliminated_l2\<close> is random.\<close>

definition l2_key_values :: "Agg_plan \<Rightarrow> 'a AggState \<Rightarrow> int list \<times> bool list \<times> 'a AggState" where
  "l2_key_values = random_key_values 50000000 20000000 10000"

definition agg_fill_hash_table_overlap_eliminated_l2 :: "(real \<Rightarrow> real option) \<Rightarrow> Agg_plan \<Rightarrow> 'a \<Rightarrow> (slot \<Rightarrow> 'a \<Rightarrow> 'a) \<Rightarrow>
    'a AggState \<Rightarrow> slot \<Rightarrow> 'a AggState option" where
  "agg_fill_hash_table_overlap_eliminated_l2 acos node init advance st s =
     (case getMBRinputSlot s (numCols node) of
        None \<Rightarrow> None
      | Some searchMBR \<Rightarrow>
          (case contain_search (rtreeroot st) searchMBR False (globals st) of
             None \<Rightarrow> None
           | Some (nhits, g) \<Rightarrow>
               (case (if nhits > 0 then eliminated_l2_loop node init s (contain_ids g) 0 None (st\<lparr>globals := g\<rparr>)
                      else Some (0, None, st\<lparr>globals := g\<rparr>)) of
                  None \<Rightarrow> None
                | Some (numcontain, tmp_entry, st1) \<Rightarrow>
                    let p = input_tuple node st1 s in
                    if numcontain = 1
                    then map_option (\<lambda>key. absorb_tuple advance s key
                           (update_entry key (\<lambda>e.
                              if insideConvexAndInsideBound (convex_ptr e) p (distanceall node) = 1
                              then e\<lparr>convex_ptr := map_option (\<lambda>h. unionConvex acos h p) (convex_ptr e)\<rparr>
                              else e) st1)) tmp_entry
                    else if numcontain = 0
                    then (case l2_key_values node st1 of (vs, rs, st2) \<Rightarrow>
                          case heap_modify_tuple s vs (replicate (numCols node) False) rs of
                            None \<Rightarrow> None
                          | Some modifiedSlot \<Rightarrow>
                              start_group node init advance (\<lambda>h. unionConvex acos h p) s modifiedSlot st2)
                    else Some st1)))"

section \<open>The groups of a state\<close>

text \<open>
  A group is the list of its tuples with the set of points its box is made of: the box admits
  the points within \<open>EPS\<close> of all of these. In ANY they are the members; in ELIMINATE also the
  dropped points that fitted the group.
\<close>

type_synonym sgroup = "slot list \<times> (int \<times> int) set"

definition point_of :: "slot \<Rightarrow> int \<times> int" where
  "point_of s = (the (s ! 0), the (s ! 1))"

abbreviation slot_ok :: "slot \<Rightarrow> bool" where
  "slot_ok s \<equiv> slot_point s (point_of s)"

definition admits :: "int \<Rightarrow> sgroup \<Rightarrow> int \<times> int \<Rightarrow> bool" where
  "admits EPS g p \<longleftrightarrow> (\<forall>m\<in>snd g. near2 EPS p m)"

definition all_plan :: "Agg_plan \<Rightarrow> bool" where
  "all_plan node \<longleftrightarrow> numCols node = 2 \<and> eps_ok (distanceall node) \<and> overlap node \<noteq> 2"

definition group_entry :: "Agg_plan \<Rightarrow> 'a \<Rightarrow> (slot \<Rightarrow> 'a \<Rightarrow> 'a) \<Rightarrow> sgroup \<Rightarrow> 'a AggHashEntry \<Rightarrow> bool" where
  "group_entry node init advance g e \<longleftrightarrow> flagEnabled e = 1 \<and> length (pivot1Slot e) = 5 \<and> length (pivot2Slot e) = 5 \<and>
     box2 (distanceall node) (pivot1Slot e) (pivot2Slot e) (snd g) \<and>
     tuplestorestate e = Tuples (fst g) \<and> pergroup e = fold advance (fst g) init \<and> fst g \<noteq> [] \<and>
     (\<forall>s\<in>set (fst g). slot_ok s \<and> point_of s \<in> snd g)"

definition boxmbr :: "int list \<Rightarrow> int list \<Rightarrow> RTREEMBR" where
  "boxmbr p1 p2 = the (getMBRHashEntry p1 p2 2)"

definition entry_mbr :: "'a AggState \<Rightarrow> slot \<Rightarrow> RTREEMBR" where
  "entry_mbr st key = boxmbr (pivot1Slot (the (hashtable st key))) (pivot2Slot (the (hashtable st key)))"

text \<open>\<open>keys\<close> are the hash keys of the groups, in the order of \<open>hasharray\<close>, whose cells they fit
  into.\<close>

definition all_inv :: "Agg_plan \<Rightarrow> 'a \<Rightarrow> (slot \<Rightarrow> 'a \<Rightarrow> 'a) \<Rightarrow> slot list \<Rightarrow> sgroup list \<Rightarrow> 'a AggState \<Rightarrow> bool" where
  "all_inv node init advance keys gs st \<longleftrightarrow> length keys = length gs \<and> indexhasharray st = length gs \<and>
     rtree_set st \<and> hasharray_cells st = sizeofgroup \<and> length gs \<le> sizeofgroup \<and> distinct keys \<and> dom (hashtable st) = set keys \<and>
     (\<forall>i<length gs. hentry (hasharray st i) = Some (keys ! i) \<and>
        (\<exists>e. hashtable st (keys ! i) = Some e \<and> group_entry node init advance (gs ! i) e)) \<and>
     rti.keyed (rtreeroot st) (\<lambda>k. entry_mbr st (keys ! (k - 1))) (length gs)"

lemma box2_boxmbr:
  assumes "box2 EPS p1 p2 ms" "box_eps EPS"
  shows "getMBRHashEntry p1 p2 2 = Some (boxmbr p1 p2)" "small_mbr (boxmbr p1 p2)"
    "mbr_le (pmbr p) (boxmbr p1 p2) \<longleftrightarrow> (\<forall>m\<in>ms. near2 EPS p m)"
proof -
  obtain r where r: "getMBRHashEntry p1 p2 2 = Some r" "small_mbr r"
    "\<And>x y. mbr_le (MBR (of_int x) (of_int y) (of_int x) (of_int y)) r \<longleftrightarrow> (\<forall>m\<in>ms. near2 EPS (x, y) m)"
    using box2_mbr [OF assms] by blast
  then show "getMBRHashEntry p1 p2 2 = Some (boxmbr p1 p2)" "small_mbr (boxmbr p1 p2)"
    "mbr_le (pmbr p) (boxmbr p1 p2) \<longleftrightarrow> (\<forall>m\<in>ms. near2 EPS p m)"
    using r(3) [of "fst p" "snd p"] by (simp_all add: boxmbr_def pmbr_def)
qed

lemma copy_cells_box:
  assumes "box2 EPS q1 q2 ms" "length q1 = 5" "length q2 = 5" "length p1 = 5" "length p2 = 5"
  shows "box2 EPS (copy_cells 2 q1 p1) (copy_cells 2 q2 p2) ms"
    "length (copy_cells 2 q1 p1) = 5" "length (copy_cells 2 q2 p2) = 5"
  using assms by (simp_all add: box2_def copy_cells_def nth_append)

text \<open>The search over the boxes finds the groups that admit the point.\<close>

lemma all_search:
  assumes "all_inv node init advance keys gs st" "all_plan node" "slot_ok s"
  obtains hits g where "contain_search (rtreeroot st) (pmbr (point_of s)) ov (globals st) = Some (length hits, g)"
    "contain_ids g = map int hits" "distinct hits"
    "set hits \<subseteq> {i. 1 \<le> i \<and> i \<le> length gs \<and> admits (distanceall node) (gs ! (i - 1)) (point_of s)}"
    "\<not> ov \<or> length hits \<le> 3 \<longrightarrow>
       set hits = {i. 1 \<le> i \<and> i \<le> length gs \<and> admits (distanceall node) (gs ! (i - 1)) (point_of s)}"
proof -
  let ?f = "\<lambda>k. entry_mbr st (keys ! (k - 1))" and ?p = "point_of s"
  have k: "rti.keyed (rtreeroot st) ?f (length gs)" using assms(1) by (simp add: all_inv_def)
  have "wf_root (rtreeroot st)" using k by (simp add: rti.keyed_def)
  moreover have "ids_fit (rtreeroot st)" using keyed_fit [OF k] assms(1) by (simp add: all_inv_def)
  ultimately obtain hits g where h:
    "contain_search (rtreeroot st) (pmbr ?p) ov (globals st) = Some (length hits, g)" "contain_ids g = map int hits"
    "stops_late ov 0 hits (answers (pmbr ?p) True (node_entries (root_node (rtreeroot st))))"
    by (rule contain_search_hits)
  let ?A = "answers (pmbr ?p) True (node_entries (root_node (rtreeroot st)))"
  have "wanted (pmbr ?p) True (?f i) \<longleftrightarrow> admits (distanceall node) (gs ! (i - 1)) ?p"
    if i: "1 \<le> i" "i \<le> length gs" for i
  proof -
    have "i - 1 < length gs" using i by linarith
    then obtain e where e: "hashtable st (keys ! (i - 1)) = Some e" "group_entry node init advance (gs ! (i - 1)) e"
      using assms(1) unfolding all_inv_def by blast
    then have b: "box2 (distanceall node) (pivot1Slot e) (pivot2Slot e) (snd (gs ! (i - 1)))"
      by (simp add: group_entry_def)
    have eps: "box_eps (distanceall node)" using assms(2) by (simp add: all_plan_def eps_box)
    have "proper (pmbr ?p)" by (simp add: pmbr_def proper_def)
    then have "wanted (pmbr ?p) True (?f i) \<longleftrightarrow> mbr_le (pmbr ?p) (?f i)"
      using Contained_iff Contained_Overlap unfolding wanted_def by auto
    also have "\<dots> \<longleftrightarrow> admits (distanceall node) (gs ! (i - 1)) ?p"
      using box2_boxmbr(3) [OF b eps] e(1) by (simp add: entry_mbr_def admits_def)
    finally show ?thesis .
  qed
  then have A: "set ?A = {i. 1 \<le> i \<and> i \<le> length gs \<and> admits (distanceall node) (gs ! (i - 1)) ?p}"
    using keyed_answers(1) [OF k] by blast
  have pre: "prefix hits ?A" using h(3) by (simp add: stops_late_def)
  show thesis
  proof (rule that [OF h(1,2)])
    have "distinct ?A" by (rule keyed_answers(2) [OF k])
    then show "distinct hits" using pre unfolding prefix_def by (metis distinct_append)
    show "set hits \<subseteq> {i. 1 \<le> i \<and> i \<le> length gs \<and> admits (distanceall node) (gs ! (i - 1)) ?p}"
      using set_mono_prefix [OF pre] A by blast
    show "\<not> ov \<or> length hits \<le> 3 \<longrightarrow>
       set hits = {i. 1 \<le> i \<and> i \<le> length gs \<and> admits (distanceall node) (gs ! (i - 1)) ?p}"
    proof
      assume "\<not> ov \<or> length hits \<le> 3"
      then have "hits = ?A" using h(3) unfolding stops_late_def by linarith
      then show "set hits = {i. 1 \<le> i \<and> i \<le> length gs \<and> admits (distanceall node) (gs ! (i - 1)) ?p}"
        using A by metis
    qed
  qed
qed

lemma all_inv_cong:
  assumes "hashtable st' = hashtable st" "hasharray st' = hasharray st" "indexhasharray st' = indexhasharray st"
    "rtreeroot st' = rtreeroot st" "hasharray_cells st' = hasharray_cells st" "rtree_set st' = rtree_set st"
  shows "all_inv node init advance keys gs st' = all_inv node init advance keys gs st"
  unfolding all_inv_def entry_mbr_def assms ..

section \<open>The blocks of the handlers\<close>

lemma contain_entry_known:
  assumes "all_inv node init advance keys gs st" "i < length gs"
  shows "contain_entry node init s (Suc i) st = Some (Some (keys ! i), st)"
  using assms by (simp add: contain_entry_def all_inv_def Let_def)

text \<open>The invariant after one entry has changed, and after a new one.\<close>

lemma all_inv_replace:
  assumes inv: "all_inv node init advance keys gs st" and i: "i < length gs" and g: "group_entry node init advance g e"
    and k: "rti.keyed (rtreeroot st') ((\<lambda>k. entry_mbr st (keys ! (k - 1)))(Suc i := boxmbr (pivot1Slot e) (pivot2Slot e))) (length gs)"
    and ht: "hashtable st' = (hashtable st)(keys ! i \<mapsto> e)"
    and same: "hasharray st' = hasharray st" "indexhasharray st' = indexhasharray st" "hasharray_cells st' = hasharray_cells st" "rtree_set st' = rtree_set st"
  shows "all_inv node init advance keys (gs[i := g]) st'"
  unfolding all_inv_def
proof (intro conjI allI impI)
  have A: "length keys = length gs" "indexhasharray st = length gs" "distinct keys" "dom (hashtable st) = set keys"
    using inv by (simp_all add: all_inv_def)
  show "length keys = length (gs[i := g])" "distinct keys" "indexhasharray st' = length (gs[i := g])"
    using A same by simp_all
  show "rtree_set st'" "hasharray_cells st' = sizeofgroup" "length (gs[i := g]) \<le> sizeofgroup" using inv same by (simp_all add: all_inv_def)
  show "dom (hashtable st') = set keys" using A i unfolding ht by auto
  have ne: "keys ! j \<noteq> keys ! i" if "j < length gs" "j \<noteq> i" for j
    using A(1,3) i that by (simp add: nth_eq_iff_index_eq)
  fix j assume j: "j < length (gs[i := g])"
  show "hentry (hasharray st' j) = Some (keys ! j)" using inv j same by (simp add: all_inv_def)
  show "\<exists>e. hashtable st' (keys ! j) = Some e \<and> group_entry node init advance (gs[i := g] ! j) e"
    using inv g i j ne [of j] by (cases "j = i") (simp_all add: ht all_inv_def)
next
  have len: "length keys = length gs" "distinct keys" using inv by (simp_all add: all_inv_def)
  have "rti.keyed (rtreeroot st') (\<lambda>k. entry_mbr st' (keys ! (k - 1))) (length gs)"
  proof (rule rti.keyed_cong [OF k])
    fix j assume j: "1 \<le> j" "j \<le> length gs"
    have "keys ! (j - 1) \<noteq> keys ! i" if "j \<noteq> Suc i"
    proof -
      have "j - 1 \<noteq> i" "j - 1 < length gs" using j that by linarith+
      then show ?thesis using len i by (simp add: nth_eq_iff_index_eq)
    qed
    then show "entry_mbr st' (keys ! (j - 1)) =
        ((\<lambda>k. entry_mbr st (keys ! (k - 1)))(Suc i := boxmbr (pivot1Slot e) (pivot2Slot e))) j"
      by (simp add: entry_mbr_def ht)
  qed
  then show "rti.keyed (rtreeroot st') (\<lambda>k. entry_mbr st' (keys ! (k - 1))) (length (gs[i := g]))" by simp
qed

lemma all_inv_append:
  assumes inv: "all_inv node init advance keys gs st" and fresh: "key \<notin> set keys" and g: "group_entry node init advance g e"
    and k: "rti.keyed (rtreeroot st') (\<lambda>k. if k = Suc (length gs) then boxmbr (pivot1Slot e) (pivot2Slot e)
      else entry_mbr st (keys ! (k - 1))) (Suc (length gs))"
    and ht: "hashtable st' = (hashtable st)(key \<mapsto> e)"
    and ha: "hasharray st' = (hasharray st)(length gs := cell)" "hentry cell = Some key" "indexhasharray st' = Suc (length gs)"
      "hasharray_cells st' = hasharray_cells st" "rtree_set st' = rtree_set st" and room: "length gs < sizeofgroup"
  shows "all_inv node init advance (keys @ [key]) (gs @ [g]) st'"
  unfolding all_inv_def
proof (intro conjI allI impI)
  have A: "length keys = length gs" "distinct keys" "dom (hashtable st) = set keys" using inv by (simp_all add: all_inv_def)
  show "length (keys @ [key]) = length (gs @ [g])" "indexhasharray st' = length (gs @ [g])"
    using A(1) ha(3) by simp_all
  show "rtree_set st'" "hasharray_cells st' = sizeofgroup" "length (gs @ [g]) \<le> sizeofgroup"
    using inv ha(4,5) room by (simp_all add: all_inv_def)
  show "distinct (keys @ [key])" "dom (hashtable st') = set (keys @ [key])" using A fresh by (auto simp: ht)
  have ne: "keys ! i \<noteq> key" if "i < length gs" for i using fresh that A(1) nth_mem [of i keys] by metis
  fix i assume "i < length (gs @ [g])"
  then have i: "i = length gs \<or> i < length gs" by auto
  show "hentry (hasharray st' i) = Some ((keys @ [key]) ! i)"
    using i A(1) inv ha(2) by (auto simp: ha(1) nth_append all_inv_def)
  show "\<exists>e. hashtable st' ((keys @ [key]) ! i) = Some e \<and> group_entry node init advance ((gs @ [g]) ! i) e"
    using i g A(1) inv ne [of i] by (auto simp: ht nth_append all_inv_def)
next
  have A: "length keys = length gs" using inv by (simp add: all_inv_def)
  have "rti.keyed (rtreeroot st') (\<lambda>k. entry_mbr st' ((keys @ [key]) ! (k - 1))) (Suc (length gs))"
  proof (rule rti.keyed_cong [OF k])
    fix j assume j: "1 \<le> j" "j \<le> Suc (length gs)"
    have "j - 1 < length gs \<and> keys ! (j - 1) \<noteq> key" if "j \<noteq> Suc (length gs)"
    proof -
      have "j - 1 < length gs" using j that by linarith
      then show ?thesis using fresh A nth_mem [of "j - 1" keys] by metis
    qed
    then show "entry_mbr st' ((keys @ [key]) ! (j - 1)) =
        (if j = Suc (length gs) then boxmbr (pivot1Slot e) (pivot2Slot e) else entry_mbr st (keys ! (j - 1)))"
      using A by (auto simp: entry_mbr_def ht nth_append)
  qed
  then show "rti.keyed (rtreeroot st') (\<lambda>k. entry_mbr st' ((keys @ [key]) ! (k - 1))) (length (gs @ [g]))" by simp
qed

lemma rebox_ok:
  assumes inv: "all_inv node init advance keys gs st" and plan: "all_plan node" and i: "i < length gs"
    and q: "box2 (distanceall node) q1 q2 R" "length q1 = 5" "length q2 = 5" "snd (gs ! i) \<subseteq> R"
  obtains st' where "rebox_entry node (Suc i) (keys ! i) q1 q2 st = Some st'"
    "all_inv node init advance keys (gs[i := (fst (gs ! i), R)]) st'"
    "hasharray st' = hasharray st" "fresh_mem st' = fresh_mem st" "rand_seq st' = rand_seq st"
    "numbertuples st' = numbertuples st"
    "\<And>k. convex_ptr (the (hashtable st' k)) = convex_ptr (the (hashtable st k))"
proof -
  have n2: "numCols node = 2" and eps: "box_eps (distanceall node)" using plan by (simp_all add: all_plan_def eps_box)
  obtain e where e: "hashtable st (keys ! i) = Some e" "group_entry node init advance (gs ! i) e"
    "hentry (hasharray st i) = Some (keys ! i)"
    using inv i unfolding all_inv_def by blast
  have b: "box2 (distanceall node) (pivot1Slot e) (pivot2Slot e) (snd (gs ! i))"
    "length (pivot1Slot e) = 5" "length (pivot2Slot e) = 5" using e(2) by (simp_all add: group_entry_def)
  define f where "f = (\<lambda>k. entry_mbr st (keys ! (k - 1)))"
  define c1 c2 where "c1 = copy_cells 2 q1 (pivot1Slot e)" and "c2 = copy_cells 2 q2 (pivot2Slot e)"
  note c = copy_cells_box [OF q(1-3) b(2,3), folded c1_def c2_def]
  define e' where "e' = e\<lparr>pivot1Slot := c1, pivot2Slot := c2\<rparr>"
  have fi: "f (Suc i) = boxmbr (pivot1Slot e) (pivot2Slot e)" by (simp add: f_def entry_mbr_def e(1))
  have keyed: "rti.keyed (rtreeroot st) f (length gs)" using inv by (simp add: all_inv_def f_def)
  have "small_mbr (f (Suc i))" "small_mbr (boxmbr c1 c2)"
    unfolding fi using box2_boxmbr(2) [OF b(1) eps] box2_boxmbr(2) [OF c(1) eps] by blast+
  from rti.keyed_move [OF keyed _ _ this] i obtain rt1 rt2 where t: "index_delete (rtreeroot st) (f (Suc i)) (Suc i) = Some rt1"
    "index_insert rt1 (boxmbr c1 c2) (Suc i) = Some rt2" "rti.keyed rt2 (f(Suc i := boxmbr c1 c2)) (length gs)" by auto
  obtain x y where t': "RTreeDelete (rtreeroot st) (f (Suc i)) (Suc i) = Some (rt1, x)"
    "RTreeInsert rt1 (boxmbr c1 c2) (child_of_tid (Suc i)) 0 = Some (rt2, y)"
    using t(1,2) by (auto simp: index_delete_def index_insert_def)
  define st' where "st' = update_entry (keys ! i) (\<lambda>_. e') (st\<lparr>rtreeroot := rt2\<rparr>)"
  have run: "rebox_entry node (Suc i) (keys ! i) q1 q2 st = Some st'"
    using e(1,3) t' box2_boxmbr(1) [OF b(1) eps] box2_boxmbr(1) [OF c(1) eps]
    unfolding rebox_entry_def n2 st'_def e'_def c1_def c2_def fi
    by (simp add: Let_def update_entry_def fun_upd_idem)
  have ht: "hashtable st' = (hashtable st)(keys ! i \<mapsto> e')"
    by (simp add: st'_def update_entry_def e(1))
  have g': "group_entry node init advance (fst (gs ! i), R) e'"
    using e(2) c q(4) by (auto simp: group_entry_def e'_def)
  have inv': "all_inv node init advance keys (gs[i := (fst (gs ! i), R)]) st'"
    by (rule all_inv_replace [OF inv i g' _ ht]) (use t(3) in \<open>simp_all add: st'_def update_entry_def f_def e'_def\<close>)
  show thesis
  proof (rule that [OF run inv'])
    show "hasharray st' = hasharray st" "fresh_mem st' = fresh_mem st" "rand_seq st' = rand_seq st"
      "numbertuples st' = numbertuples st" by (simp_all add: st'_def update_entry_def)
    show "convex_ptr (the (hashtable st' k)) = convex_ptr (the (hashtable st k))" for k
      by (simp add: ht e(1) e'_def)
  qed
qed

text \<open>Changing an entry in a way that keeps its box and key.\<close>

lemma update_ok:
  assumes inv: "all_inv node init advance keys gs st" and i: "i < length gs"
    and f: "\<And>e. hashtable st (keys ! i) = Some e \<Longrightarrow> group_entry node init advance (gs ! i) e \<Longrightarrow>
      group_entry node init advance g (f e) \<and> pivot1Slot (f e) = pivot1Slot e \<and> pivot2Slot (f e) = pivot2Slot e"
  shows "all_inv node init advance keys (gs[i := g]) (update_entry (keys ! i) f st)"
proof -
  define st' where "st' = update_entry (keys ! i) f st"
  obtain e where e: "hashtable st (keys ! i) = Some e" "group_entry node init advance (gs ! i) e"
    using inv i unfolding all_inv_def by blast
  have ht: "hashtable st' = (hashtable st)(keys ! i \<mapsto> f e)" by (simp add: st'_def update_entry_def e(1))
  have same: "hasharray st' = hasharray st" "indexhasharray st' = indexhasharray st" "rtreeroot st' = rtreeroot st"
    "hasharray_cells st' = hasharray_cells st" "rtree_set st' = rtree_set st"
    by (simp_all add: st'_def update_entry_def)
  have mbr: "entry_mbr st' k = entry_mbr st k" for k
    using f [OF e] e(1) by (simp add: entry_mbr_def ht)
  have A: "length keys = length gs" "distinct keys" "dom (hashtable st) = set keys"
    using inv by (simp_all add: all_inv_def)
  have "\<exists>e. hashtable st' (keys ! j) = Some e \<and> group_entry node init advance (gs[i := g] ! j) e" if j: "j < length gs" for j
  proof (cases "j = i")
    case True
    then show ?thesis using f [OF e] i by (simp add: ht)
  next
    case False
    then have "keys ! j \<noteq> keys ! i" using A i j by (simp add: nth_eq_iff_index_eq)
    then show ?thesis using inv False j by (simp add: ht all_inv_def)
  qed
  moreover have "dom (hashtable st') = set keys" using A i unfolding ht by auto
  ultimately show ?thesis using inv unfolding st'_def [symmetric] all_inv_def same mbr by simp
qed

lemma absorb_ok:
  assumes "all_inv node init advance keys gs st" "i < length gs" "slot_ok s" "point_of s \<in> snd (gs ! i)"
  shows "all_inv node init advance keys (gs[i := (fst (gs ! i) @ [s], snd (gs ! i))]) (absorb_tuple advance s (keys ! i) st)"
  unfolding absorb_tuple_def
  by (rule update_ok [OF assms(1,2)]) (use assms(3,4) in \<open>simp add: group_entry_def puttupleslot_def\<close>)

lemma start_ok:
  assumes inv: "all_inv node init advance keys gs st" and plan: "all_plan node" and s: "slot_ok s"
    and fresh: "hash_key node keyslot \<notin> set keys" and room: "length gs < sizeofgroup"
  obtains st' where "start_group node init advance put_hull s keyslot st = Some st'"
    "all_inv node init advance (keys @ [hash_key node keyslot]) (gs @ [([s], {point_of s})]) st'"
    "fresh_mem st' = fresh_mem st"
    "\<And>k. k \<noteq> hash_key node keyslot \<Longrightarrow> hashtable st' k = hashtable st k"
    "convex_ptr (the (hashtable st' (hash_key node keyslot))) = Some (put_hull \<lparr>convexheader = [], numofconvex = 0\<rparr>)"
proof -
  have n2: "numCols node = 2" and eps: "box_eps (distanceall node)" and ov: "overlap node \<noteq> 2"
    using plan by (simp_all add: all_plan_def eps_box)
  define key n where "key = hash_key node keyslot" and "n = length gs"
  have A: "length keys = n" "indexhasharray st = n" "distinct keys" "dom (hashtable st) = set keys"
    "\<And>i. i < n \<Longrightarrow> hentry (hasharray st i) = Some (keys ! i)"
    "\<And>i. i < n \<Longrightarrow> \<exists>e. hashtable st (keys ! i) = Some e \<and> group_entry node init advance (gs ! i) e"
    "rti.keyed (rtreeroot st) (\<lambda>k. entry_mbr st (keys ! (k - 1))) n"
    using inv by (simp_all add: all_inv_def n_def)
  have hr: "hash_room st" using inv room by (simp add: all_inv_def hash_room_def)
  have none: "hashtable st key = None" using fresh A(4) by (auto simp: key_def)
  define cell where "cell = \<lparr>hentry = Some key,
      inputslots = copyinputslottoDes keyslot [0..<numCols node] [0, 0, 0, 0, 0],
      hpivot1 = [0, 0, 0, 0, 0], hpivot2 = [0, 0, 0, 0, 0], hnumAttr = numCols node\<rparr>"
  define e0 where "e0 = new_entry node init 0 0"
  define st1 where "st1 = st\<lparr>hashtable := (hashtable st)(key \<mapsto> e0), hasharray := (hasharray st)(n := cell)\<rparr>"
  have look: "lookup_hash_entry node init st keyslot = Some (key, st1)"
    using none ov hr by (simp add: lookup_hash_entry_def key_def Let_def st1_def e0_def cell_def A(2))
  have e0: "flagEnabled e0 = 0" "tuplestorestate e0 = Tuples []"
    "convex_ptr e0 = Some \<lparr>convexheader = [], numofconvex = 0\<rparr>"
    "pivot1Slot e0 = [0, 0, 0, 0, 0]" "pivot2Slot e0 = [0, 0, 0, 0, 0]"
    using ov by (simp_all add: e0_def new_entry_def zero_entry_def)
  obtain p1 p2 where cp: "copyfromTupleTableToArray [0, 0, 0, 0, 0] [0, 0, 0, 0, 0] s 2 = (p1, p2)" by fastforce
  obtain b1 b2 where up: "updateInputSlotbyEPS p1 p2 2 (distanceall node) = (b1, b2)" by fastforce
  have sp: "slot2 s (fst (point_of s)) (snd (point_of s))" "pt_ok (fst (point_of s))" "pt_ok (snd (point_of s))"
    using s by (simp_all add: slot_point_def)
  have b: "box2 (distanceall node) b1 b2 {point_of s}" "length b1 = 5" "length b2 = 5"
    using new_box2 [OF sp eps _ _ cp up] by simp_all
  note B = box2_boxmbr [OF b(1) eps]
  define f where "f = (\<lambda>k. if k = Suc n then boxmbr b1 b2 else entry_mbr st (keys ! (k - 1)))"
  have "rti.keyed (rtreeroot st) f n" by (rule rti.keyed_cong [OF A(7)]) (simp add: f_def)
  from rti.keyed_append [OF this] obtain rt' where t: "index_insert (rtreeroot st) (boxmbr b1 b2) (Suc n) = Some rt'"
    "rti.keyed rt' f (Suc n)" using B(2) by (auto simp: f_def)
  then obtain x where t': "RTreeInsert (rtreeroot st) (boxmbr b1 b2) (child_of_tid (n + 1)) 0 = Some (rt', x)"
    by (auto simp: index_insert_def)
  define e1 where "e1 = e0\<lparr>flagEnabled := 1, tuplestorestate := puttupleslot s (tuplestorestate e0),
      convex_ptr := map_option put_hull (convex_ptr e0), pivot1Slot := b1, pivot2Slot := b2, pergroup := advance s init\<rparr>"
  define st' where "st' = st1\<lparr>rtreeroot := rt', indexhasharray := n + 1, hashtable := (hashtable st)(key \<mapsto> e1)\<rparr>"
  have run: "start_group node init advance put_hull s keyslot st = Some st'"
    using look e0 cp up B(1) t' A(2)
    by (simp add: start_group_def n2 st1_def st'_def update_entry_def e1_def)
  have g1: "group_entry node init advance ([s], {point_of s}) e1"
    using b s by (simp add: group_entry_def e1_def e0 puttupleslot_def)
  have ht: "hashtable st' = (hashtable st)(key \<mapsto> e1)" and ha: "hasharray st' = (hasharray st)(n := cell)"
    by (simp_all add: st'_def st1_def)
  have inv': "all_inv node init advance (keys @ [key]) (gs @ [([s], {point_of s})]) st'"
    by (rule all_inv_append [OF inv fresh [folded key_def] g1 _ ht ha [unfolded n_def]])
       (use t(2) room in \<open>simp_all add: st'_def st1_def cell_def n_def f_def [abs_def] e1_def cong: if_cong\<close>)
  show thesis
  proof (rule that [OF run inv' [unfolded key_def]])
    show "fresh_mem st' = fresh_mem st" by (simp add: st'_def st1_def)
    show "hashtable st' k = hashtable st k" if "k \<noteq> hash_key node keyslot" for k
      using that by (simp add: ht key_def)
    show "convex_ptr (the (hashtable st' (hash_key node keyslot))) = Some (put_hull \<lparr>convexheader = [], numofconvex = 0\<rparr>)"
      by (simp add: ht key_def e1_def e0)
  qed
qed

text \<open>With all cells in use, a new group is written past the end of \<open>hasharray\<close>.\<close>

lemma start_full:
  assumes "all_inv node init advance keys gs st" "hash_key node keyslot \<notin> set keys" "sizeofgroup \<le> length gs"
  shows "start_group node init advance put_hull s keyslot st = None"
proof -
  have "hashtable st (hash_key node keyslot) = None" using assms(1,2) by (auto simp: all_inv_def)
  moreover have "\<not> hash_room st" using assms(1,3) by (simp add: all_inv_def hash_room_def)
  ultimately show ?thesis by (simp add: start_group_def lookup_hash_entry_def Let_def split: prod.split)
qed

section \<open>The abstract grouping\<close>

text \<open>One tuple under ANY: it joins some group that admits it, or, when none does, starts one.\<close>

definition joined :: "slot \<Rightarrow> sgroup \<Rightarrow> sgroup" where
  "joined s g = (fst g @ [s], insert (point_of s) (snd g))"

definition alone :: "slot \<Rightarrow> sgroup" where
  "alone s = ([s], {point_of s})"

definition narrow :: "int \<times> int \<Rightarrow> nat set \<Rightarrow> sgroup list \<Rightarrow> sgroup list" where
  "narrow p J gs = map (\<lambda>i. if i \<in> J then (fst (gs ! i), insert p (snd (gs ! i))) else gs ! i) [0..<length gs]"

inductive all_any :: "int \<Rightarrow> sgroup list \<Rightarrow> slot \<Rightarrow> sgroup list \<Rightarrow> bool" for EPS where
  any_join: "i < length gs \<Longrightarrow> admits EPS (gs ! i) (point_of s) \<Longrightarrow>
    all_any EPS gs s (gs[i := joined s (gs ! i)])"
| any_new: "\<forall>g\<in>set gs. \<not> admits EPS g (point_of s) \<Longrightarrow> all_any EPS gs s (gs @ [alone s])"

text \<open>Under ELIMINATE a tuple that fits several groups is dropped, but narrows some of them.\<close>

inductive all_elim :: "int \<Rightarrow> sgroup list \<Rightarrow> slot \<Rightarrow> sgroup list \<Rightarrow> bool" for EPS where
  elim_join: "i < length gs \<Longrightarrow> admits EPS (gs ! i) (point_of s) \<Longrightarrow>
    \<forall>j<length gs. admits EPS (gs ! j) (point_of s) \<longrightarrow> j = i \<Longrightarrow>
    all_elim EPS gs s (gs[i := joined s (gs ! i)])"
| elim_new: "\<forall>g\<in>set gs. \<not> admits EPS g (point_of s) \<Longrightarrow> all_elim EPS gs s (gs @ [alone s])"
| elim_drop: "J \<subseteq> {j. j < length gs \<and> admits EPS (gs ! j) (point_of s)} \<Longrightarrow> 2 \<le> card J \<Longrightarrow> card J \<le> 3 \<Longrightarrow>
    all_elim EPS gs s (narrow (point_of s) J gs)"

lemma all_any_length: "all_any EPS gs s gs' \<Longrightarrow> length gs' \<le> Suc (length gs)"
  by (induction rule: all_any.induct) (simp_all (no_asm))

text \<open>Reading a whole input with steps from \<open>g0\<close>.\<close>

inductive reads :: "('g \<Rightarrow> slot \<Rightarrow> 'g \<Rightarrow> bool) \<Rightarrow> 'g \<Rightarrow> slot list \<Rightarrow> 'g \<Rightarrow> bool" for step g0 where
  reads_nil: "reads step g0 [] g0"
| reads_snoc: "reads step g0 ss g \<Longrightarrow> step g s g' \<Longrightarrow> reads step g0 (ss @ [s]) g'"

inductive_simps reads_Nil_iff: "reads step g0 [] g"
inductive_cases reads_snocE: "reads step g0 (ss @ [s]) g"

definition gkey :: "sgroup \<Rightarrow> slot" where
  "gkey g = take 2 (hd (fst g))"

definition entry_of :: "Agg_plan \<Rightarrow> 'a \<Rightarrow> (slot \<Rightarrow> 'a \<Rightarrow> 'a) \<Rightarrow> sgroup list \<Rightarrow> 'a AggState \<Rightarrow> bool" where
  "entry_of node init advance gs st = all_inv node init advance (map gkey gs) gs st"

lemma narrow_simps [simp]:
  "length (narrow p J gs) = length gs" "narrow p {} gs = gs"
  "i < length gs \<Longrightarrow> narrow p J gs ! i = (if i \<in> J then (fst (gs ! i), insert p (snd (gs ! i))) else gs ! i)"
  by (simp_all add: narrow_def map_nth)

lemma all_elim_length: "all_elim EPS gs s gs' \<Longrightarrow> length gs' \<le> Suc (length gs)"
  by (induction rule: all_elim.induct) (simp_all (no_asm))

lemma narrow_insert:
  assumes "i < length gs" "i \<notin> J"
  shows "(narrow p J gs)[i := (fst (gs ! i), insert p (snd (gs ! i)))] = narrow p (insert i J) gs"
  by (rule nth_equalityI) (use assms in \<open>auto simp: nth_list_update\<close>)

lemma inv_group:
  assumes "all_inv node init advance keys gs st" "i < length gs"
  shows "\<exists>e. hashtable st (keys ! i) = Some e \<and> group_entry node init advance (gs ! i) e"
  using assms unfolding all_inv_def by blast

text \<open>A group admits the points it is made of.\<close>

lemma admits_member:
  assumes "group_entry node init advance g e" "p \<in> snd g"
  shows "admits (distanceall node) g p"
  using assms box2_near unfolding group_entry_def admits_def by blast

lemma judge_hit:
  assumes "group_entry node init advance g e" "all_plan node" "slot_ok s" "admits (distanceall node) g (point_of s)"
  obtains ov q1 q2 where
    "judgeJoinGroup (numCols node) (pivot1Slot e) (pivot2Slot e) s (distanceall node) = (True, ov, q1, q2)"
    "box2 (distanceall node) q1 q2 (insert (point_of s) (snd g))" "length q1 = 5" "length q2 = 5"
proof -
  have e: "box2 (distanceall node) (pivot1Slot e) (pivot2Slot e) (snd g)" "length (pivot1Slot e) = 5"
    "length (pivot2Slot e) = 5" using assms(1) by (simp_all add: group_entry_def)
  have n: "numCols node = 2" "box_eps (distanceall node)" using assms(2) by (simp_all add: all_plan_def eps_box)
  have s: "slot2 s (fst (point_of s)) (snd (point_of s))" "pt_ok (fst (point_of s))" "pt_ok (snd (point_of s))"
    using assms(3) by (simp_all add: slot_point_def)
  have all: "\<forall>m\<in>snd g. near2 (distanceall node) (fst (point_of s), snd (point_of s)) m"
    using assms(4) by (simp add: admits_def)
  show thesis
    by (rule judge_box2 [OF e(1) n(2) s]) (use that all e(2,3) n(1) in auto)
qed

text \<open>Slots with the same key are at the same point, so a tuple that no group admits has a key
  that is not in use.\<close>

lemma key_point:
  assumes "take 2 s = take 2 t"
  shows "point_of s = point_of t"
proof -
  have "take 2 x ! 0 = x ! 0" "take 2 x ! 1 = x ! 1" for x :: slot by simp_all
  then show ?thesis using assms unfolding point_of_def by metis
qed

lemma fresh_key:
  assumes "entry_of node init advance gs st" "all_plan node" "slot_ok s"
    "\<forall>g\<in>set gs. \<not> admits (distanceall node) g (point_of s)"
  shows "hash_key node s \<notin> set (map gkey gs)"
proof
  assume "hash_key node s \<in> set (map gkey gs)"
  then obtain i where i: "i < length gs" "take 2 s = gkey (gs ! i)"
    using assms(2) by (auto simp: hash_key_def all_plan_def in_set_conv_nth)
  obtain e where e: "group_entry node init advance (gs ! i) e"
    using inv_group [OF assms(1) [unfolded entry_of_def] i(1)] by blast
  then have "hd (fst (gs ! i)) \<in> set (fst (gs ! i))" by (simp add: group_entry_def)
  then have "slot_ok (hd (fst (gs ! i)))" "point_of (hd (fst (gs ! i))) \<in> snd (gs ! i)"
    using e by (simp_all add: group_entry_def)
  then have "point_of s \<in> snd (gs ! i)" using key_point [OF i(2) [unfolded gkey_def]] by simp
  then have "admits (distanceall node) (gs ! i) (point_of s)" by (rule admits_member [OF e])
  then show False using assms(4) nth_mem [OF i(1)] by blast
qed

lemma gkey_joined: "fst g \<noteq> [] \<Longrightarrow> gkey (joined s g) = gkey g"
  by (simp add: gkey_def joined_def)

section \<open>The handlers of metric 1 refine the abstract steps\<close>

lemma all_inv_globals: "all_inv node init advance keys gs (st\<lparr>globals := g\<rparr>) = all_inv node init advance keys gs st"
  by (rule all_inv_cong) simp_all

lemma entry_of_update:
  assumes "all_inv node init advance (map gkey gs) (gs[i := joined s (gs ! i)]) st" "i < length gs" "fst (gs ! i) \<noteq> []"
  shows "entry_of node init advance (gs[i := joined s (gs ! i)]) st"
proof -
  have "map gkey (gs[i := joined s (gs ! i)]) = map gkey gs"
    using gkey_joined [OF assms(3)] assms(2) by (simp add: map_update list_update_same_conv)
  then show ?thesis using assms(1) by (simp add: entry_of_def)
qed

lemma entry_nonempty:
  assumes "all_inv node init advance keys gs st" "i < length gs"
  shows "fst (gs ! i) \<noteq> []"
  using inv_group [OF assms] by (auto simp: group_entry_def)

lemma absorb_joined:
  assumes "all_inv node init advance keys (gs[i := (fst (gs ! i), insert (point_of s) (snd (gs ! i)))]) st"
    "i < length gs" "slot_ok s"
  shows "all_inv node init advance keys (gs[i := joined s (gs ! i)]) (absorb_tuple advance s (keys ! i) st)"
  using absorb_ok [where i = i, OF assms(1) _ assms(3)] assms(2) by (simp add: joined_def)

lemma start_alone:
  assumes inv: "entry_of node init advance gs st" and plan: "all_plan node" and s: "slot_ok s"
    and fresh: "hash_key node s \<notin> set (map gkey gs)" and room: "length gs < sizeofgroup"
  obtains st' where "start_group node init advance put_hull s s st = Some st'" "entry_of node init advance (gs @ [alone s]) st'"
proof -
  obtain st' where st': "start_group node init advance put_hull s s st = Some st'"
    "all_inv node init advance (map gkey gs @ [hash_key node s]) (gs @ [([s], {point_of s})]) st'"
    by (rule start_ok [OF inv [unfolded entry_of_def] plan s fresh room])
  have "map gkey gs @ [hash_key node s] = map gkey (gs @ [alone s])"
    using plan by (simp add: gkey_def alone_def hash_key_def all_plan_def)
  then have "entry_of node init advance (gs @ [alone s]) st'" using st'(2) by (simp add: entry_of_def alone_def)
  with st'(1) show thesis by (rule that)
qed

text \<open>A new group, or none when all cells are in use.\<close>

lemma start_cases:
  assumes inv: "entry_of node init advance gs st" and plan: "all_plan node" and s: "slot_ok s"
    and fresh: "hash_key node s \<notin> set (map gkey gs)"
  obtains "start_group node init advance put_hull s s st = None" "sizeofgroup \<le> length gs"
  | st' where "start_group node init advance put_hull s s st = Some st'" "entry_of node init advance (gs @ [alone s]) st'"
proof (cases "length gs < sizeofgroup")
  case True
  show thesis by (rule start_alone [OF inv plan s fresh True]) (rule that(2))
next
  case False
  then show thesis using that(1) start_full [OF inv [unfolded entry_of_def] fresh] by simp
qed

lemma random_l1_step:
  assumes inv: "entry_of node init advance gs st" and plan: "all_plan node" and s: "slot_ok s"
  shows "case agg_fill_hash_table_overlap_random_l1 node init advance st s of
      None \<Rightarrow> sizeofgroup \<le> length gs
    | Some st' \<Rightarrow> \<exists>gs'. entry_of node init advance gs' st' \<and> all_any (distanceall node) gs s gs'"
proof -
  let ?p = "point_of s" and ?keys = "map gkey gs"
  have n2: "numCols node = 2" using plan by (simp add: all_plan_def)
  have m: "getMBRinputSlot s (numCols node) = Some (pmbr ?p)" using slot_point_mbr [OF s] n2 by simp
  obtain hits g where h: "contain_search (rtreeroot st) (pmbr ?p) True (globals st) = Some (length hits, g)"
    "contain_ids g = map int hits" "distinct hits"
    "set hits \<subseteq> {i. 1 \<le> i \<and> i \<le> length gs \<and> admits (distanceall node) (gs ! (i - 1)) ?p}"
    "\<not> True \<or> length hits \<le> 3 \<longrightarrow>
       set hits = {i. 1 \<le> i \<and> i \<le> length gs \<and> admits (distanceall node) (gs ! (i - 1)) ?p}"
    by (rule all_search [OF inv [unfolded entry_of_def] plan s])
  define st0 where "st0 = st\<lparr>globals := g\<rparr>"
  have inv0: "all_inv node init advance ?keys gs st0"
    using inv by (simp add: st0_def entry_of_def all_inv_globals)
  show ?thesis
  proof (cases hits)
    case Nil
    have none: "\<forall>g\<in>set gs. \<not> admits (distanceall node) g ?p"
    proof
      fix g assume "g \<in> set gs"
      then obtain i where "i < length gs" "g = gs ! i" by (auto simp: in_set_conv_nth)
      then show "\<not> admits (distanceall node) g ?p" using h(5) Nil by (auto dest: spec [of _ "Suc i"])
    qed
    have run: "agg_fill_hash_table_overlap_random_l1 node init advance st s = start_group node init advance (\<lambda>c. c) s s st0"
      using m h(1) Nil by (simp add: agg_fill_hash_table_overlap_random_l1_def st0_def)
    show ?thesis
      by (rule start_cases [OF inv0 [folded entry_of_def] plan s fresh_key [OF inv plan s none], of "\<lambda>c. c"])
        (use run any_new [OF none] in auto)
  next
    case (Cons c cs)
    define i where "i = c - 1"
    have i: "c = Suc i" "i < length gs" "admits (distanceall node) (gs ! i) ?p" using h(4) Cons by (auto simp: i_def)
    obtain e where e: "hashtable st0 (?keys ! i) = Some e" "group_entry node init advance (gs ! i) e"
      using inv_group [OF inv0 i(2)] by blast
    obtain ov q1 q2 where q:
      "judgeJoinGroup (numCols node) (pivot1Slot e) (pivot2Slot e) s (distanceall node) = (True, ov, q1, q2)"
      "box2 (distanceall node) q1 q2 (insert ?p (snd (gs ! i)))" "length q1 = 5" "length q2 = 5"
      by (rule judge_hit [OF e(2) plan s i(3)])
    obtain st1 where st1: "rebox_entry node (Suc i) (?keys ! i) q1 q2 st0 = Some st1"
      "all_inv node init advance ?keys (gs[i := (fst (gs ! i), insert ?p (snd (gs ! i)))]) st1"
      by (rule rebox_ok [OF inv0 plan i(2) q(2-4) subset_insertI])
    define st2 where "st2 = absorb_tuple advance s (?keys ! i) st1"
    have "all_inv node init advance ?keys (gs[i := joined s (gs ! i)]) st2"
      unfolding st2_def by (rule absorb_joined [OF st1(2) i(2) s])
    then have "entry_of node init advance (gs[i := joined s (gs ! i)]) st2"
      by (rule entry_of_update [OF _ i(2) entry_nonempty [OF inv0 i(2)]])
    moreover have "random_l1_loop node init advance s (contain_ids g) st0 = Some (True, st2)"
      unfolding h(2) Cons list.map random_l1_loop.simps nat_int i(1) contain_entry_known [OF inv0 i(2)]
      using e(1) q(1) st1(1) by (simp add: st2_def)
    then have "agg_fill_hash_table_overlap_random_l1 node init advance st s = Some st2"
      using m h(1) Cons by (simp add: agg_fill_hash_table_overlap_random_l1_def st0_def)
    ultimately show ?thesis using any_join [OF i(2,3)] by auto
  qed
qed

lemma elim_loop:
  assumes "all_plan node" "slot_ok s" "J \<subseteq> {..<length gs}"
    "all_inv node init advance keys (narrow (point_of s) J gs) st" "distinct hs"
    "\<forall>h\<in>set hs. 1 \<le> h \<and> h \<le> length gs \<and> h - 1 \<notin> J \<and> admits (distanceall node) (gs ! (h - 1)) (point_of s)"
  shows "\<exists>J' st' tmp'. eliminated_l1_loop node init s (map int hs) (card J) tmp st = Some (card J', tmp', st') \<and>
     all_inv node init advance keys (narrow (point_of s) J' gs) st' \<and>
     J \<subseteq> J' \<and> J' \<subseteq> J \<union> (\<lambda>h. h - 1) ` set hs \<and> (card J' \<le> 2 \<longrightarrow> J' = J \<union> (\<lambda>h. h - 1) ` set hs) \<and>
     (card J \<le> 3 \<longrightarrow> card J' \<le> 3) \<and>
     tmp' = (if J = {} \<and> hs \<noteq> [] then Some (keys ! (hd hs - 1)) else tmp)"
  using assms(3-)
proof (induction hs arbitrary: J st tmp)
  case Nil
  then show ?case by (intro exI [of _ J] exI [of _ st] exI [of _ tmp]) simp
next
  case (Cons h hs)
  have fin: "finite J" using Cons.prems(1) by (rule finite_subset) simp
  show ?case
  proof (cases "card J > 2")
    case True
    then have "J \<noteq> {}" by auto
    then show ?thesis using Cons.prems(2) True
      by (intro exI [of _ J] exI [of _ st] exI [of _ tmp]) auto
  next
    case False
    define i where "i = h - 1"
    let ?p = "point_of s" and ?gs = "narrow (point_of s) J gs"
    have i: "h = Suc i" "i < length gs" "i \<notin> J" "admits (distanceall node) (gs ! i) ?p"
      using Cons.prems(4) by (auto simp: i_def)
    have il: "i < length ?gs" and gi: "?gs ! i = gs ! i" using i by simp_all
    obtain e where e: "hashtable st (keys ! i) = Some e" "group_entry node init advance (gs ! i) e"
      using inv_group [OF Cons.prems(2) il] unfolding gi by blast
    obtain ov q1 q2 where q:
      "judgeJoinGroup (numCols node) (pivot1Slot e) (pivot2Slot e) s (distanceall node) = (True, ov, q1, q2)"
      "box2 (distanceall node) q1 q2 (insert ?p (snd (gs ! i)))" "length q1 = 5" "length q2 = 5"
      by (rule judge_hit [OF e(2) assms(1,2) i(4)])
    have sub: "snd (?gs ! i) \<subseteq> insert ?p (snd (gs ! i))" unfolding gi by blast
    obtain st1 where st1: "rebox_entry node (Suc i) (keys ! i) q1 q2 st = Some st1"
      "all_inv node init advance keys (?gs[i := (fst (?gs ! i), insert ?p (snd (gs ! i)))]) st1"
      by (rule rebox_ok [OF Cons.prems(2) assms(1) il q(2-4) sub])
    have st1': "all_inv node init advance keys (narrow ?p (insert i J) gs) st1"
      using st1(2) narrow_insert [OF i(2,3)] unfolding gi by metis
    have card: "card (insert i J) = card J + 1" using fin i(3) by simp
    define tmp1 where "tmp1 = (if card J = 0 then Some (keys ! i) else tmp)"
    have run: "eliminated_l1_loop node init s (map int (h # hs)) (card J) tmp st
        = eliminated_l1_loop node init s (map int hs) (card (insert i J)) tmp1 st1"
      unfolding list.map eliminated_l1_loop.simps nat_int i(1) contain_entry_known [OF Cons.prems(2) il]
      using e(1) q(1) st1(1) False by (simp add: card tmp1_def)
    have J1: "insert i J \<subseteq> {..<length gs}" using Cons.prems(1) i(2) by simp
    have hs1: "\<forall>h\<in>set hs. 1 \<le> h \<and> h \<le> length gs \<and> h - 1 \<notin> insert i J \<and>
        admits (distanceall node) (gs ! (h - 1)) ?p"
    proof
      fix k assume k: "k \<in> set hs"
      then have "k \<noteq> h" using Cons.prems(3) by auto
      moreover have "1 \<le> k" "k \<le> length gs" "k - 1 \<notin> J" "admits (distanceall node) (gs ! (k - 1)) ?p"
        using Cons.prems(4) k by auto
      ultimately show "1 \<le> k \<and> k \<le> length gs \<and> k - 1 \<notin> insert i J \<and> admits (distanceall node) (gs ! (k - 1)) ?p"
        using i(1) by auto
    qed
    have dist: "distinct hs" using Cons.prems(3) by simp
    obtain J' st' tmp' where r: "eliminated_l1_loop node init s (map int hs) (card (insert i J)) tmp1 st1 = Some (card J', tmp', st')"
      "all_inv node init advance keys (narrow ?p J' gs) st'" "insert i J \<subseteq> J'"
      "J' \<subseteq> insert i J \<union> (\<lambda>h. h - 1) ` set hs" "card J' \<le> 2 \<longrightarrow> J' = insert i J \<union> (\<lambda>h. h - 1) ` set hs"
      "card (insert i J) \<le> 3 \<longrightarrow> card J' \<le> 3"
      "tmp' = (if insert i J = {} \<and> hs \<noteq> [] then Some (keys ! (hd hs - 1)) else tmp1)"
      using Cons.IH [OF J1 st1' dist hs1, of tmp1] by blast
    have t: "tmp' = (if J = {} \<and> h # hs \<noteq> [] then Some (keys ! (hd (h # hs) - 1)) else tmp)"
      using r(7) fin by (simp add: tmp1_def i(1))
    have c: "card J' \<le> 3" using r(6) card False by simp
    show ?thesis
      by (intro exI [of _ J'] exI [of _ st'] exI [of _ tmp'] conjI t r(2) impI c)
        (use run r(1,3-5) i(1) in auto)
  qed
qed

text \<open>The candidates of a tuple and the loop over them: a set \<open>J\<close> of groups is narrowed, all that admit the tuple
  if they are at most two.\<close>

lemma eliminated_l1_hits:
  assumes inv: "entry_of node init advance gs st" and plan: "all_plan node" and s: "slot_ok s"
    and A: "A = {j. j < length gs \<and> admits (distanceall node) (gs ! j) (point_of s)}"
  obtains J st1 tmp where
    "agg_fill_hash_table_overlap_eliminated_l1 node init advance st s =
      (if card J = 1 then map_option (\<lambda>key. absorb_tuple advance s key st1) tmp
       else if card J = 0 then start_group node init advance (\<lambda>c. c) s s st1 else Some st1)"
    "all_inv node init advance (map gkey gs) (narrow (point_of s) J gs) st1" "J \<subseteq> A" "card J \<le> 2 \<longrightarrow> J = A" "card J \<le> 3"
    "\<forall>i. J = {i} \<longrightarrow> tmp = Some (map gkey gs ! i)"
proof -
  let ?p = "point_of s" and ?keys = "map gkey gs"
  have m: "getMBRinputSlot s (numCols node) = Some (pmbr ?p)"
    using slot_point_mbr [OF s] plan by (simp add: all_plan_def)
  obtain hits g where h: "contain_search (rtreeroot st) (pmbr ?p) False (globals st) = Some (length hits, g)"
    "contain_ids g = map int hits" "distinct hits"
    "set hits \<subseteq> {i. 1 \<le> i \<and> i \<le> length gs \<and> admits (distanceall node) (gs ! (i - 1)) ?p}"
    "\<not> False \<or> length hits \<le> 3 \<longrightarrow>
       set hits = {i. 1 \<le> i \<and> i \<le> length gs \<and> admits (distanceall node) (gs ! (i - 1)) ?p}"
    by (rule all_search [OF inv [unfolded entry_of_def] plan s])
  define st0 where "st0 = st\<lparr>globals := g\<rparr>"
  have hA: "(\<lambda>h. h - 1) ` set hits = A"
  proof
    show "(\<lambda>h. h - 1) ` set hits \<subseteq> A" using h(5) by (auto simp: A)
    show "A \<subseteq> (\<lambda>h. h - 1) ` set hits"
    proof
      fix j assume "j \<in> A"
      then have "Suc j \<in> set hits" using h(5) by (auto simp: A)
      then show "j \<in> (\<lambda>h. h - 1) ` set hits" by force
    qed
  qed
  have inv0: "all_inv node init advance ?keys (narrow ?p {} gs) st0"
    using inv by (simp add: st0_def entry_of_def all_inv_globals)
  have "\<forall>h\<in>set hits. 1 \<le> h \<and> h \<le> length gs \<and> h - 1 \<notin> {} \<and> admits (distanceall node) (gs ! (h - 1)) ?p"
    using h(5) by auto
  from elim_loop [OF plan s _ inv0 h(3) this, of None] obtain J st1 tmp where L:
    "eliminated_l1_loop node init s (map int hits) 0 None st0 = Some (card J, tmp, st1)"
    "all_inv node init advance ?keys (narrow ?p J gs) st1" "J \<subseteq> A" "card J \<le> 2 \<longrightarrow> J = A" "card J \<le> 3"
    "tmp = (if hits \<noteq> [] then Some (?keys ! (hd hits - 1)) else None)"
    unfolding hA by auto
  have run: "(if length hits > 0 then eliminated_l1_loop node init s (contain_ids g) 0 None st0 else Some (0, None, st0))
      = Some (card J, tmp, st1)"
    using L(1) h(2) by (cases hits) auto
  have key: "tmp = Some (?keys ! i)" if "J = {i}" for i
  proof -
    have img: "(\<lambda>h. h - 1) ` set hits = {i}" using hA L(4) that by simp
    then have ne: "hits \<noteq> []" by (metis empty_not_insert image_empty list.set(1))
    have "hd hits - 1 \<in> {i}" using hd_in_set [OF ne] unfolding img [symmetric] by (rule imageI)
    then show ?thesis using L(6) ne by simp
  qed
  show thesis
    by (rule that [OF _ L(2-5) allI [OF impI [OF key]]])
       (simp_all only: agg_fill_hash_table_overlap_eliminated_l1_def m h(1) option.case prod.case run [unfolded st0_def])
qed

lemma eliminated_l1_step:
  assumes inv: "entry_of node init advance gs st" and plan: "all_plan node" and s: "slot_ok s"
  shows "case agg_fill_hash_table_overlap_eliminated_l1 node init advance st s of
      None \<Rightarrow> sizeofgroup \<le> length gs
    | Some st' \<Rightarrow> \<exists>gs'. entry_of node init advance gs' st' \<and> all_elim (distanceall node) gs s gs'"
proof -
  let ?p = "point_of s" and ?keys = "map gkey gs"
  define A where "A = {j. j < length gs \<and> admits (distanceall node) (gs ! j) ?p}"
  obtain J st1 tmp where L: "agg_fill_hash_table_overlap_eliminated_l1 node init advance st s =
      (if card J = 1 then map_option (\<lambda>key. absorb_tuple advance s key st1) tmp
       else if card J = 0 then start_group node init advance (\<lambda>c. c) s s st1 else Some st1)"
    "all_inv node init advance ?keys (narrow ?p J gs) st1" "J \<subseteq> A" "card J \<le> 2 \<longrightarrow> J = A" "card J \<le> 3"
    "\<forall>i. J = {i} \<longrightarrow> tmp = Some (?keys ! i)"
    by (rule eliminated_l1_hits [OF inv plan s A_def])
  consider (none) "card J = 0" | (one) "card J = 1" | (more) "2 \<le> card J" by linarith
  then show ?thesis
  proof cases
    case none
    have "finite A" by (simp add: A_def)
    then have "J = {}" using L(3) none finite_subset by fastforce
    then have A: "A = {}" using L(4) none by simp
    then have no: "\<forall>g\<in>set gs. \<not> admits (distanceall node) g ?p"
      unfolding A_def by (metis (mono_tags, lifting) empty_Collect_eq in_set_conv_nth)
    have inv1: "all_inv node init advance ?keys gs st1" using L(2) \<open>J = {}\<close> by simp
    show ?thesis
      by (rule start_cases [OF inv1 [folded entry_of_def] plan s fresh_key [OF inv plan s no], of "\<lambda>c. c"])
        (use L(1) none elim_new [OF no] in auto)
  next
    case one
    then obtain i where J: "J = {i}" by (auto simp: card_1_singleton_iff)
    then have "A = {i}" using L(4) by simp
    then have i: "i < length gs" "admits (distanceall node) (gs ! i) ?p"
      "\<forall>j<length gs. admits (distanceall node) (gs ! j) ?p \<longrightarrow> j = i" by (auto simp: A_def)
    have inv1: "all_inv node init advance ?keys (gs[i := (fst (gs ! i), insert ?p (snd (gs ! i)))]) st1"
      using L(2) J narrow_insert [OF i(1), of "{}" ?p] by simp
    have "fst (gs ! i) \<noteq> []" by (rule entry_nonempty [OF inv [unfolded entry_of_def] i(1)])
    from entry_of_update [OF absorb_joined [OF inv1 i(1) s] i(1) this]
    have "entry_of node init advance (gs[i := joined s (gs ! i)]) (absorb_tuple advance s (?keys ! i) st1)" .
    moreover have "agg_fill_hash_table_overlap_eliminated_l1 node init advance st s = Some (absorb_tuple advance s (?keys ! i) st1)"
      using L(1,6) J one by simp
    ultimately show ?thesis using elim_join [OF i] by auto
  next
    case more
    have "map gkey (narrow ?p J gs) = ?keys" by (rule nth_equalityI) (simp_all add: gkey_def)
    then have "entry_of node init advance (narrow ?p J gs) st1" using L(2) by (simp add: entry_of_def)
    moreover have "agg_fill_hash_table_overlap_eliminated_l1 node init advance st s = Some st1"
      using L(1) more by simp
    ultimately show ?thesis using elim_drop [OF L(3) [unfolded A_def] more L(5)] by auto
  qed
qed

end
