(* ===== verification/SGBIntersect.thy ===== *)
theory SGBIntersect
  imports SGBHelper
begin

text \<open>
  The scans of the \<open>NEW-GROUP\<close> semantics over a candidate group, \<^verbatim>\<open>executor/nodeAggHelperSGBAll.c\<close>
  (\<open>findIntersection_putIntoMemoList\<close>, \<open>_Convex\<close>, \<open>_noreturn\<close>, \<open>changeToTmpGroup\<close>), with the
  overlap store and the buffer slot they write, and \<open>judgeJoinGroup_Any\<close>
  (\<^verbatim>\<open>executor/nodeAgghelperSGBAny.c\<close>).
\<close>

section \<open>Definitions\<close>

text \<open>The group after a scan. Of \<open>endPtr\<close> the code only uses whether it is NULL; it is the last
  cell here.\<close>

definition scan_start :: "tmpGroup \<Rightarrow> scan_state" where
  "scan_start g = \<lparr>keep = [], moved = [], slen = member_len g, entryNULL = False, iisempty = True\<rparr>"

definition scanned :: "tmpGroup \<Rightarrow> scan_state \<Rightarrow> tmpGroup" where
  "scanned g sc = g\<lparr>tuples_headPtr := keep sc, member_len := slen sc,
     endPtr := (if keep sc = [] then None else Some (last (keep sc)))\<rparr>"

text \<open>What a scan leaves behind: the candidate of the input and the tuples near it, the group,
  the overlap store, the buffer slot and the two flags.\<close>

record scan_result =
  sr_tmp :: tmpGroup
  sr_group :: tmpGroup
  sr_memo :: "slot list option"
  sr_global :: "slot list option"
  sr_buffer :: slot
  sr_iisempty :: bool
  sr_entryNULL :: bool

text \<open>The tuples taken out are put into the overlap store in turn, through the buffer slot, and
  clip the box of the candidate.\<close>

fun move_tuples :: "slot \<Rightarrow> nat \<Rightarrow> int \<Rightarrow> tuple list \<Rightarrow> tmpGroup \<Rightarrow> slot list option \<Rightarrow> slot \<Rightarrow>
    (tmpGroup \<times> slot list option \<times> slot) option" where
  "move_tuples inputslot n eps [] tmp gl buf = Some (tmp, gl, buf)"
| "move_tuples inputslot n eps (t # ts) tmp gl buf =
     (case puttuple_TupleTableSlot t inputslot n of
        None \<Rightarrow> None
      | Some b \<Rightarrow>
          move_tuples inputslot n eps ts
            ((updatePivotByTuple_tmpGroup tmp (vals t) n eps)\<lparr>member_len := member_len tmp + 1\<rparr>)
            (map_option (\<lambda>g. g @ [b]) gl) b)"

text \<open>The values of the input, with zeros after the first NULL.\<close>

definition input_values :: "slot \<Rightarrow> nat \<Rightarrow> int list" where
  "input_values s n = copyinputslottoDes s [0..<n] [0, 0, 0, 0, 0]"

definition findIntersection_putIntoMemoList :: "slot \<Rightarrow> tmpGroup \<Rightarrow> slot list option \<Rightarrow> slot list option \<Rightarrow> slot \<Rightarrow>
    int \<Rightarrow> int \<Rightarrow> nat \<Rightarrow> int \<Rightarrow> int \<Rightarrow> scan_result option" where
  "findIntersection_putIntoMemoList inputslot g memo gl buf eps metric n rx ry =
     (let sc = scan_group (\<lambda>t. InsideBound_tuple t inputslot eps metric n) True (tuples_headPtr g) (scan_start g);
          r = (\<lambda>tmp gl' buf'. \<lparr>sr_tmp = tmp, sr_group = scanned g sc, sr_memo = memo, sr_global = gl',
                 sr_buffer = buf', sr_iisempty = iisempty sc, sr_entryNULL = entryNULL sc\<rparr>)
      in case move_tuples inputslot n eps (moved sc) (constructGroup_nohash n rx ry False) gl buf of
           None \<Rightarrow> None
         | Some (tmp, gl', buf') \<Rightarrow>
             if member_len tmp = 0 then Some (r tmp gl' buf')
             else Some (r ((updatePivotByTuple_tmpGroup tmp (input_values inputslot n) n eps)
                            \<lparr>member_len := member_len tmp + 1\<rparr>) gl' buf'))"

text \<open>The variant for metric 2 also collects the tuples in the candidate and in the memo list of
  the entry.\<close>

fun move_tuples_convex :: "slot \<Rightarrow> nat \<Rightarrow> int \<Rightarrow> tuple list \<Rightarrow> tmpGroup \<Rightarrow> slot list option \<Rightarrow> slot list option \<Rightarrow> slot \<Rightarrow>
    (tmpGroup \<times> slot list option \<times> slot list option \<times> slot) option" where
  "move_tuples_convex inputslot n eps [] tmp memo gl buf = Some (tmp, memo, gl, buf)"
| "move_tuples_convex inputslot n eps (t # ts) tmp memo gl buf =
     (let tmp1 = tmp\<lparr>tuples_headPtr := append_data_IntoTupleList (tuples_headPtr tmp) (vals t) n\<rparr>
      in case tuplestorestate_puttuple t memo inputslot n of
           None \<Rightarrow> None
         | Some (memo', b) \<Rightarrow>
             move_tuples_convex inputslot n eps ts
               ((updatePivotByTuple_tmpGroup tmp1 (vals t) n eps)\<lparr>member_len := member_len tmp + 1\<rparr>)
               memo' (map_option (\<lambda>g. g @ [b]) gl) b)"

definition findIntersection_putIntoMemoList_Convex :: "slot \<Rightarrow> tmpGroup \<Rightarrow> slot list option \<Rightarrow> slot list option \<Rightarrow> slot \<Rightarrow>
    int \<Rightarrow> int \<Rightarrow> nat \<Rightarrow> int \<Rightarrow> int \<Rightarrow> scan_result option" where
  "findIntersection_putIntoMemoList_Convex inputslot g memo gl buf eps metric n rx ry =
     (let sc = scan_group (\<lambda>t. InsideBound_tuple t inputslot eps metric n) True (tuples_headPtr g) (scan_start g);
          r = (\<lambda>tmp memo' gl' buf'. \<lparr>sr_tmp = tmp, sr_group = scanned g sc, sr_memo = memo', sr_global = gl',
                 sr_buffer = buf', sr_iisempty = iisempty sc, sr_entryNULL = entryNULL sc\<rparr>)
      in case move_tuples_convex inputslot n eps (moved sc) (constructGroup_nohash n rx ry False) memo gl buf of
           None \<Rightarrow> None
         | Some (tmp, memo', gl', buf') \<Rightarrow>
             if member_len tmp = 0 then Some (r tmp memo' gl' buf')
             else let v = input_values inputslot n;
                      tmp1 = tmp\<lparr>tuples_headPtr := append_data_IntoTupleList (tuples_headPtr tmp) v n\<rparr>
                  in Some (r ((updatePivotByTuple_tmpGroup tmp1 v n eps)\<lparr>member_len := member_len tmp + 1\<rparr>)
                            memo' gl' buf'))"

text \<open>The scan without a candidate does not fill the buffer slot: for every tuple it takes out,
  the old content of the buffer goes to the overlap store.\<close>

definition findIntersection_putIntoMemoList_noreturn :: "slot \<Rightarrow> tmpGroup \<Rightarrow> slot list option \<Rightarrow> slot \<Rightarrow>
    int \<Rightarrow> int \<Rightarrow> nat \<Rightarrow> tmpGroup \<times> slot list option \<times> bool \<times> bool" where
  "findIntersection_putIntoMemoList_noreturn inputslot g gl buf eps metric n =
     (let sc = scan_group_noreturn (\<lambda>t. InsideBound_tuple t inputslot eps metric n) (tuples_headPtr g) (scan_start g)
      in (scanned g sc, map_option (\<lambda>ts. ts @ map (\<lambda>_. buf) (moved sc)) gl, iisempty sc, entryNULL sc))"

text \<open>A tuple store read back into a group. The loop stops copying at a NULL, with the values of
  the row before in the array.\<close>

fun read_store :: "nat \<Rightarrow> int \<Rightarrow> slot list \<Rightarrow> int list \<Rightarrow> tmpGroup \<Rightarrow> tmpGroup option" where
  "read_store n eps [] arr g = Some g"
| "read_store n eps (s # ss) arr g =
     (let v = copyinputslottoDes s [0..<n] arr;
          g1 = g\<lparr>tuples_headPtr := append_data_IntoTupleList (tuples_headPtr g) v n\<rparr>
      in case put_hash g1 v n of
           None \<Rightarrow> None
         | Some (_, g2) \<Rightarrow>
             read_store n eps ss v
               ((updatePivotByTuple_tmpGroup g2 v n eps)\<lparr>member_len := member_len g2 + 1\<rparr>))"

definition changeToTmpGroup :: "slot list \<Rightarrow> nat \<Rightarrow> int \<Rightarrow> int list \<Rightarrow> int \<Rightarrow> int \<Rightarrow> tmpGroup option" where
  "changeToTmpGroup tuplestorestate n eps arr xc1 yc1 =
     read_store n eps tuplestorestate arr (constructGroup n xc1 yc1 True)"

text \<open>\<open>judgeJoinGroup_Any\<close> reads the store of the entry up to the first tuple in range.\<close>

fun judgeJoinGroup_Any :: "nat \<Rightarrow> slot \<Rightarrow> int \<Rightarrow> int \<Rightarrow> slot list \<Rightarrow> bool" where
  "judgeJoinGroup_Any n inputTuple eps metric [] = False"
| "judgeJoinGroup_Any n inputTuple eps metric (tmpslot # ss) =
     (if InsideBound tmpslot inputTuple eps metric n then True
      else judgeJoinGroup_Any n inputTuple eps metric ss)"

end
