(* ===== verification/SGBNewGroup.thy ===== *)
theory SGBNewGroup
  imports SGBAll SGBIntersect
begin

text \<open>
  The SGB-All operator with the overlap semantics NEW-GROUP (\<open>overlap = 2\<close>),
  \<^verbatim>\<open>executor/nodeAgg.c\<close>: the handlers \<open>agg_fill_hash_table_overlap_newgroup_l1\<close> and \<open>_l2\<close>, and
  after the input \<open>sgb_newgroup_helper\<close> with \<open>sgb_newgroup_aggfunction\<close>. The tuples of an entry
  are a \<open>tmpGroup\<close>. A tuple that fits several groups, and the members near a tuple that only
  overlaps a group, go to the overlap store; the calls that would group that store again are
  commented out in \<open>sgb_newgroup_helper\<close>.
\<close>

section \<open>Blocks\<close>

definition put_overlap1 :: "slot \<Rightarrow> 'a AggState \<Rightarrow> 'a AggState" where
  "put_overlap1 s st = st\<lparr>overlaptuplestorestate1 := map_option (\<lambda>ts. ts @ [s]) (overlaptuplestorestate1 st)\<rparr>"

text \<open>The cell is one that was read before, or that of the newest entry.\<close>

definition set_cell_entry :: "nat \<Rightarrow> slot \<Rightarrow> 'a AggState \<Rightarrow> 'a AggState" where
  "set_cell_entry hashID key st =
     st\<lparr>hasharray := (hasharray st)(hashID - 1 := (hasharray st (hashID - 1))\<lparr>hentry := Some key\<rparr>)\<rparr>"

text \<open>A tuple fits a group: the rectangle leaves the tree, and the entry gets the clipped box
  until the end of the handler puts it back.\<close>

definition unbox_entry :: "Agg_plan \<Rightarrow> nat \<Rightarrow> slot \<Rightarrow> int list \<Rightarrow> int list \<Rightarrow> 'a AggState \<Rightarrow> 'a AggState option" where
  "unbox_entry node hashID key tmp_pivot1 tmp_pivot2 st =
     (let n = numCols node in
      case hashtable st key of
        None \<Rightarrow> None
      | Some e \<Rightarrow>
          (case getMBRHashEntry (pivot1Slot e) (pivot2Slot e) n of
             None \<Rightarrow> None
           | Some deleteMBR \<Rightarrow>
               (case RTreeDelete (rtreeroot st) deleteMBR hashID of
                  None \<Rightarrow> None
                | Some (rt, _) \<Rightarrow>
                    Some (update_entry key
                      (\<lambda>e. e\<lparr>pivot1Slot := copy_cells n tmp_pivot1 (pivot1Slot e),
                             pivot2Slot := copy_cells n tmp_pivot2 (pivot2Slot e), ismodified := True\<rparr>)
                      (st\<lparr>rtreeroot := rt\<rparr>)))))"

text \<open>A tuple is put into the group of an entry; without a group nothing happens.\<close>

definition put_member :: "Agg_plan \<Rightarrow> slot \<Rightarrow> bool \<Rightarrow> store \<Rightarrow> store" where
  "put_member node s isfirst ts =
     (case ts of Group g \<Rightarrow> Group (tmpGroup_puttupleslot g s (numCols node) isfirst) | _ \<Rightarrow> ts)"

text \<open>A new group for the input under a random key: \<open>newbox\<close> gives its box. The flag tells
  whether the handler returned because the key is in use.\<close>

definition found_group :: "Agg_plan \<Rightarrow> 'a \<Rightarrow> (convexhull \<Rightarrow> convexhull) \<Rightarrow> (int list \<Rightarrow> int list \<Rightarrow> int list \<times> int list) \<Rightarrow>
    slot \<Rightarrow> slot \<Rightarrow> 'a AggState \<Rightarrow> (bool \<times> slot \<times> 'a AggState) option" where
  "found_group node init put_hull newbox s keyslot st =
     (case lookup_hash_entry node init st keyslot of
        None \<Rightarrow> None
      | Some (key, st1) \<Rightarrow>
      case hashtable st1 key of
        None \<Rightarrow> None
      | Some e \<Rightarrow>
          if flagEnabled e \<noteq> 0 then Some (False, key, st1)
          else
            (case newbox (pivot1Slot e) (pivot2Slot e) of (b1, b2) \<Rightarrow>
             case getMBRHashEntry b1 b2 (numCols node) of
               None \<Rightarrow> None
             | Some insertMBR \<Rightarrow>
                 (case RTreeInsert (rtreeroot st1) insertMBR (child_of_tid (indexhasharray st1 + 1)) 0 of
                    None \<Rightarrow> None
                  | Some (rt, _) \<Rightarrow>
                      Some (True, key, update_entry key
                        (\<lambda>e. e\<lparr>flagEnabled := 1, tuplestorestate := put_member node s True (tuplestorestate e),
                               convex_ptr := map_option put_hull (convex_ptr e),
                               pivot1Slot := b1, pivot2Slot := b2\<rparr>)
                        (st1\<lparr>rtreeroot := rt, indexhasharray := indexhasharray st1 + 1\<rparr>)))))"

text \<open>The box of a lone tuple, and the box of the candidate \<open>ptr\<close>.\<close>

definition own_box :: "Agg_plan \<Rightarrow> slot \<Rightarrow> int list \<Rightarrow> int list \<Rightarrow> int list \<times> int list" where
  "own_box node s p1 p2 =
     (case copyfromTupleTableToArray p1 p2 s (numCols node) of (a1, a2) \<Rightarrow>
        updateInputSlotbyEPS a1 a2 (numCols node) (distanceall node))"

definition candidate_box :: "Agg_plan \<Rightarrow> tmpGroup \<Rightarrow> int list \<Rightarrow> int list \<Rightarrow> int list \<times> int list" where
  "candidate_box node ptr p1 p2 =
     (copy_cells (numCols node) (pivot1 ptr) p1, copy_cells (numCols node) (pivot2 ptr) p2)"

text \<open>The key of a new group, put into a copy of the input.\<close>

definition random_slot :: "int \<Rightarrow> int \<Rightarrow> int \<Rightarrow> Agg_plan \<Rightarrow> slot \<Rightarrow> 'a AggState \<Rightarrow> (slot \<times> 'a AggState) option" where
  "random_slot a b1 b2 node s st =
     (case random_key_values a b1 b2 node st of (vs, rs, st1) \<Rightarrow>
        map_option (\<lambda>m. (m, st1)) (heap_modify_tuple s vs (replicate (numCols node) False) rs))"

text \<open>The scan of a group the input overlaps, for the first such group with a candidate, for the
  others without. A group whose last tuple is near the input is given up: flag 3, and its
  \<open>tmpGroup\<close> is freed.\<close>

definition end_group :: "bool \<Rightarrow> 'a AggHashEntry \<Rightarrow> 'a AggHashEntry" where
  "end_group isnull e = (if isnull then e\<lparr>flagEnabled := 3, tuplestorestate := NoStore\<rparr> else e)"

definition first_overlap :: "bool \<Rightarrow> Agg_plan \<Rightarrow> int \<Rightarrow> slot \<Rightarrow> nat \<Rightarrow> slot \<Rightarrow> 'a AggState \<Rightarrow>
    (tmpGroup \<times> 'a AggState) option" where
  "first_overlap convex node metr s hashID key st =
     (case hashtable st key of
        None \<Rightarrow> None
      | Some e \<Rightarrow>
          (case tuplestorestate e of
             Group g \<Rightarrow>
               (case rand st of (r1, st1) \<Rightarrow> case rand st1 of (r2, st2) \<Rightarrow>
                case (if convex then findIntersection_putIntoMemoList_Convex else findIntersection_putIntoMemoList)
                    s g (tupleInmemolist e) (overlaptuplestorestate1 st2) (buffer_slot st2)
                    (distanceall node) metr (numCols node) (rem32 r1 10000) (rem32 r2 10000) of
                  None \<Rightarrow> None
                | Some r \<Rightarrow>
                    Some (sr_tmp r, set_cell_entry hashID key (update_entry key
                      (\<lambda>e. end_group (sr_entryNULL r)
                        (e\<lparr>tuplestorestate := Group (sr_group r), tupleInmemolist := sr_memo r\<rparr>))
                      (st2\<lparr>overlaptuplestorestate1 := sr_global r, buffer_slot := sr_buffer r\<rparr>))))
           | _ \<Rightarrow> None))"

definition next_overlap :: "Agg_plan \<Rightarrow> int \<Rightarrow> slot \<Rightarrow> nat \<Rightarrow> slot \<Rightarrow> 'a AggState \<Rightarrow> (bool \<times> 'a AggState) option" where
  "next_overlap node metr s hashID key st =
     (case hashtable st key of
        None \<Rightarrow> None
      | Some e \<Rightarrow>
          (case tuplestorestate e of
             Group g \<Rightarrow>
               (case findIntersection_putIntoMemoList_noreturn s g (overlaptuplestorestate1 st) (buffer_slot st)
                   (distanceall node) metr (numCols node) of
                  (g', gl, isempty, isnull) \<Rightarrow>
                    Some (isempty, set_cell_entry hashID key (update_entry key
                      (\<lambda>e. end_group isnull (e\<lparr>tuplestorestate := Group g'\<rparr>))
                      (st\<lparr>overlaptuplestorestate1 := gl\<rparr>))))
           | _ \<Rightarrow> None))"

section \<open>Metric 1\<close>

text \<open>The groups the tuple fits. \<open>updateEntry\<close> is set by the first turn only; \<open>None\<close> is the
  uninitialised pointer.\<close>

fun newgroup_l1_hits :: "Agg_plan \<Rightarrow> 'a \<Rightarrow> slot \<Rightarrow> int list \<Rightarrow> nat \<Rightarrow> nat \<Rightarrow> slot option \<Rightarrow> 'a AggState \<Rightarrow>
    (nat \<times> slot option \<times> 'a AggState) option" where
  "newgroup_l1_hits node init s [] i numcontain updateEntry st = Some (numcontain, updateEntry, st)"
| "newgroup_l1_hits node init s (c # cs) i numcontain updateEntry st =
     (case contain_entry node init s (nat c) st of
        None \<Rightarrow> None
      | Some (None, st1) \<Rightarrow> newgroup_l1_hits node init s cs (i + 1) numcontain updateEntry st1
      | Some (Some key, st1) \<Rightarrow>
          (case hashtable st1 key of
             None \<Rightarrow> None
           | Some e \<Rightarrow>
               (case judgeJoinGroup (numCols node) (pivot1Slot e) (pivot2Slot e) s (distanceall node) of
                  (joins, ov, q1, q2) \<Rightarrow>
                    if joins
                    then (case unbox_entry node (nat c) key q1 q2 st1 of
                            None \<Rightarrow> None
                          | Some st2 \<Rightarrow>
                              newgroup_l1_hits node init s cs (i + 1) (numcontain + 1)
                                (if i = 0 then Some key else updateEntry)
                                (set_cell_entry (nat c) key (if i = 1 then put_overlap1 s st2 else st2)))
                    else newgroup_l1_hits node init s cs (i + 1) numcontain updateEntry st1)))"

text \<open>The groups the tuple overlaps.\<close>

fun newgroup_l1_overlaps :: "Agg_plan \<Rightarrow> 'a \<Rightarrow> slot \<Rightarrow> int list \<Rightarrow> nat \<Rightarrow> nat \<Rightarrow> bool \<Rightarrow> tmpGroup option \<Rightarrow>
    'a AggState \<Rightarrow> (nat \<times> tmpGroup option \<times> 'a AggState) option" where
  "newgroup_l1_overlaps node init s [] i tmpindex putdoor maxclique st = Some (tmpindex, maxclique, st)"
| "newgroup_l1_overlaps node init s (c # cs) i tmpindex putdoor maxclique st =
     (case contain_entry node init s (nat c) st of
        None \<Rightarrow> None
      | Some (None, st1) \<Rightarrow> newgroup_l1_overlaps node init s cs (i + 1) tmpindex putdoor maxclique st1
      | Some (Some key, st1) \<Rightarrow>
          (case hashtable st1 key of
             None \<Rightarrow> None
           | Some e \<Rightarrow>
               if flagEnabled e = 0 \<or> flagEnabled e = 3
               then newgroup_l1_overlaps node init s cs (i + 1) tmpindex putdoor maxclique st1
               else if tmpindex < 1
               then (case first_overlap False node (metric node) s (nat c) key st1 of
                       None \<Rightarrow> None
                     | Some (tmp, st2) \<Rightarrow>
                         if member_len tmp \<le> 0
                         then newgroup_l1_overlaps node init s cs (i + 1) tmpindex putdoor None st2
                         else newgroup_l1_overlaps node init s cs (i + 1) (tmpindex + 1) putdoor (Some tmp) st2)
               else
                 let door = (i = 1 \<and> putdoor); st2 = (if door then put_overlap1 s st1 else st1)
                 in (case next_overlap node (metric node) s (nat c) key st2 of
                       None \<Rightarrow> None
                     | Some (isempty, st3) \<Rightarrow>
                         newgroup_l1_overlaps node init s cs (i + 1) (if isempty then tmpindex else tmpindex + 1)
                           (putdoor \<and> \<not> door) maxclique st3)))"

text \<open>The rectangles of the groups the tuple fits go back into the tree.\<close>

fun newgroup_reinsert :: "Agg_plan \<Rightarrow> 'a \<Rightarrow> slot \<Rightarrow> int list \<Rightarrow> 'a AggState \<Rightarrow> 'a AggState option" where
  "newgroup_reinsert node init s [] st = Some st"
| "newgroup_reinsert node init s (c # cs) st =
     (case (if hasharray_cells st \<le> nat c - 1 then None
            else case hentry (hasharray st (nat c - 1)) of
              Some key \<Rightarrow> Some (key, st)
            | None \<Rightarrow> Option.bind (getTableSlot (inputslots (hasharray st (nat c - 1))) (numCols node) s)
                (lookup_hash_entry node init st)) of
        None \<Rightarrow> None
      | Some (key, st1) \<Rightarrow>
          (case hashtable st1 key of
             None \<Rightarrow> None
           | Some e \<Rightarrow>
               if ismodified e
               then (case getMBRHashEntry (pivot1Slot e) (pivot2Slot e) (numCols node) of
                       None \<Rightarrow> None
                     | Some newMBR \<Rightarrow>
                         (case RTreeInsert (rtreeroot st1) newMBR (child_of_tid (nat c)) 0 of
                            None \<Rightarrow> None
                          | Some (rt, _) \<Rightarrow>
                              newgroup_reinsert node init s cs
                                (update_entry key (\<lambda>e. e\<lparr>ismodified := False\<rparr>) (st1\<lparr>rtreeroot := rt\<rparr>))))
               else newgroup_reinsert node init s cs st1))"

text \<open>The tuple joins the one group it fits. The code then writes \<open>hasharray[tmpHashID-1].entry\<close>,
  with \<open>tmpHashID\<close> still 0.\<close>

definition join_update :: "Agg_plan \<Rightarrow> slot \<Rightarrow> slot option \<Rightarrow> 'a AggState \<Rightarrow> 'a AggState option" where
  "join_update node s updateEntry st =
     (case updateEntry of
        None \<Rightarrow> None
      | Some key \<Rightarrow>
          (case hashtable st key of
             None \<Rightarrow> None
           | Some e \<Rightarrow>
               if flagEnabled e = 1
               then Some ((update_entry key
                 (\<lambda>e. e\<lparr>tuplestorestate := put_member node s False (tuplestorestate e)\<rparr>) st)\<lparr>stray_entry := Some key\<rparr>)
               else Some st))"

text \<open>The three cases after the two loops; in all others the tuple is in no group.\<close>

definition newgroup_l1_settle :: "Agg_plan \<Rightarrow> 'a \<Rightarrow> slot \<Rightarrow> nat \<Rightarrow> slot option \<Rightarrow> nat \<Rightarrow> tmpGroup option \<Rightarrow>
    'a AggState \<Rightarrow> 'a AggState option" where
  "newgroup_l1_settle node init s numcontain updateEntry tmpindex maxclique st =
     (if numcontain = 0 \<and> tmpindex = 0
      then (case random_slot 50000000 20000000 1000000 node s st of
              None \<Rightarrow> None
            | Some (modifiedSlot, st1) \<Rightarrow>
                map_option (\<lambda>(b, k, st2). st2)
                  (found_group node init (\<lambda>h. h) (own_box node s) s modifiedSlot st1))
      else if tmpindex = 0 \<and> numcontain = 1 then join_update node s updateEntry st
      else if tmpindex = 1 \<and> numcontain = 0
      then (case maxclique of
              None \<Rightarrow> Some st
            | Some ptr \<Rightarrow>
                if isexisit ptr then Some st
                else (case random_slot 50000000 1000000 1000000 node s st of
                        None \<Rightarrow> None
                      | Some (modifiedSlot, st1) \<Rightarrow>
                          if member_len ptr > 0
                          then map_option (\<lambda>(b, k, st2). if b then set_cell_entry (indexhasharray st2) k st2 else st2)
                                 (found_group node init (\<lambda>h. h) (candidate_box node ptr) s modifiedSlot st1)
                          else Some st1))
      else Some st)"

definition agg_fill_hash_table_overlap_newgroup_l1 :: "Agg_plan \<Rightarrow> 'a \<Rightarrow> 'a AggState \<Rightarrow> slot \<Rightarrow> 'a AggState option" where
  "agg_fill_hash_table_overlap_newgroup_l1 node init st s =
     (case getMBRinputSlot s (numCols node) of
        None \<Rightarrow> None
      | Some searchMBR \<Rightarrow>
      (case contain_search (rtreeroot st) searchMBR False (globals st) of
         None \<Rightarrow> None
       | Some (nhits, g1) \<Rightarrow>
      (case (if nhits > 0 then newgroup_l1_hits node init s (contain_ids g1) 0 0 None (st\<lparr>globals := g1\<rparr>)
             else Some (0, None, st\<lparr>globals := g1\<rparr>)) of
         None \<Rightarrow> None
       | Some (numcontain, updateEntry, st1) \<Rightarrow>
      (case getMBRinputSlotBigger s (numCols node) (distanceall node) of
         None \<Rightarrow> None
       | Some searchMBR2 \<Rightarrow>
      (case search_result (RTreeSearch (rtreeroot st1) MySearchCallback searchMBR2 False False
               (Some ((globals st1)\<lparr>iscontain_M := False\<rparr>))) of
         None \<Rightarrow> None
       | Some (nhits2, g2) \<Rightarrow>
      (case (if nhits2 > 0 then newgroup_l1_overlaps node init s (overlap_ids g2) 0 0 True None (st1\<lparr>globals := g2\<rparr>)
             else Some (0, None, st1\<lparr>globals := g2\<rparr>)) of
         None \<Rightarrow> None
       | Some (tmpindex, maxclique, st2) \<Rightarrow>
      (case newgroup_l1_settle node init s numcontain updateEntry tmpindex maxclique st2 of
         None \<Rightarrow> None
       | Some st3 \<Rightarrow>
           if numcontain > 0 then newgroup_reinsert node init s (contain_ids (globals st3)) st3
           else Some st3)))))))"

section \<open>Metric 2\<close>

text \<open>The verdict of the hull of an entry; without a header it is 2. A \<open>NULL\<close> hull is read
  (\<open>None\<close>).\<close>

definition header_verdict :: "convexhull option \<Rightarrow> tuple \<Rightarrow> int \<Rightarrow> int option" where
  "header_verdict convex p eps =
     (case convex of
        None \<Rightarrow> None
      | Some h \<Rightarrow> Some (if convexheader h \<noteq> [] then insideConvexAndInsideBound convex p eps else 2))"

fun newgroup_l2_hits :: "(real \<Rightarrow> real option) \<Rightarrow> Agg_plan \<Rightarrow> 'a \<Rightarrow> slot \<Rightarrow> int list \<Rightarrow> nat \<Rightarrow> nat \<Rightarrow> slot option \<Rightarrow>
    'a AggState \<Rightarrow> (nat \<times> slot option \<times> 'a AggState) option" where
  "newgroup_l2_hits acos node init s [] i numcontain updateEntry st = Some (numcontain, updateEntry, st)"
| "newgroup_l2_hits acos node init s (c # cs) i numcontain updateEntry st =
     (case contain_entry node init s (nat c) st of
        None \<Rightarrow> None
      | Some (None, st1) \<Rightarrow> newgroup_l2_hits acos node init s cs (i + 1) numcontain updateEntry st1
      | Some (Some key, st1) \<Rightarrow>
          (case hashtable st1 key of
             None \<Rightarrow> None
           | Some e \<Rightarrow>
               (case judgeJoinGroup (numCols node) (pivot1Slot e) (pivot2Slot e) s (distanceall node) of
                  (joins, ov, q1, q2) \<Rightarrow>
                    if joins
                    then
                      let p = input_tuple node st1 s in
                      (case header_verdict (convex_ptr e) p (distanceall node) of
                         None \<Rightarrow> None
                       | Some judgeresult \<Rightarrow>
                           let st2 = (if judgeresult = 1 \<and> numcontain \<le> 1
                                      then update_entry key (\<lambda>e. e\<lparr>convex_ptr := map_option (\<lambda>h. unionConvex acos h p) (convex_ptr e)\<rparr>) st1
                                      else st1)
                           in if judgeresult \<le> 1
                              then (case unbox_entry node (nat c) key q1 q2 st2 of
                                      None \<Rightarrow> None
                                    | Some st3 \<Rightarrow>
                                        newgroup_l2_hits acos node init s cs (i + 1) (numcontain + 1)
                                          (if i = 0 then Some key else updateEntry)
                                          (set_cell_entry (nat c) key (if i = 1 then put_overlap1 s st3 else st3)))
                              else newgroup_l2_hits acos node init s cs (i + 1) numcontain updateEntry st2)
                    else newgroup_l2_hits acos node init s cs (i + 1) numcontain updateEntry st1)))"

fun newgroup_l2_overlaps :: "Agg_plan \<Rightarrow> 'a \<Rightarrow> slot \<Rightarrow> int list \<Rightarrow> nat \<Rightarrow> bool \<Rightarrow> tmpGroup option \<Rightarrow>
    'a AggState \<Rightarrow> (nat \<times> tmpGroup option \<times> 'a AggState) option" where
  "newgroup_l2_overlaps node init s [] tmpindex putdoor maxclique st = Some (tmpindex, maxclique, st)"
| "newgroup_l2_overlaps node init s (c # cs) tmpindex putdoor maxclique st =
     (case contain_entry node init s (nat c) st of
        None \<Rightarrow> None
      | Some (None, st1) \<Rightarrow> newgroup_l2_overlaps node init s cs tmpindex putdoor maxclique st1
      | Some (Some key, st1) \<Rightarrow>
          (case hashtable st1 key of
             None \<Rightarrow> None
           | Some e \<Rightarrow>
               if flagEnabled e = 0 \<or> flagEnabled e = 3
               then newgroup_l2_overlaps node init s cs tmpindex putdoor maxclique st1
               else
                 (case header_verdict (convex_ptr e) (input_tuple node st1 s) (distanceall node) of
                    None \<Rightarrow> None
                  | Some judgeresult \<Rightarrow>
                      if judgeresult \<noteq> 3
                      then newgroup_l2_overlaps node init s cs tmpindex putdoor maxclique st1
                      else if tmpindex < 1
                      then (case first_overlap True node 2 s (nat c) key st1 of
                              None \<Rightarrow> None
                            | Some (tmp, st2) \<Rightarrow>
                                if member_len tmp \<le> 0
                                then newgroup_l2_overlaps node init s cs tmpindex putdoor None st2
                                else newgroup_l2_overlaps node init s cs (tmpindex + 1) putdoor (Some tmp) st2)
                      else
                        let door = (tmpindex = 1 \<and> putdoor); st2 = (if door then put_overlap1 s st1 else st1)
                        in (case next_overlap node 2 s (nat c) key st2 of
                              None \<Rightarrow> None
                            | Some (isempty, st3) \<Rightarrow>
                                newgroup_l2_overlaps node init s cs (if isempty then tmpindex else tmpindex + 1)
                                  (putdoor \<and> \<not> door) maxclique st3))))"

text \<open>The hull of a new group from the candidate: the first \<open>member_len\<close> tuples of it.\<close>

definition hull_tuple :: "Agg_plan \<Rightarrow> 'a AggState \<Rightarrow> tuple \<Rightarrow> tuple" where
  "hull_tuple node st t = \<lparr>numAttr = 2, vals = copy_cells (numCols node) (vals t) (fresh_mem st)\<rparr>"

definition candidate_hull :: "(real \<Rightarrow> real option) \<Rightarrow> Agg_plan \<Rightarrow> 'a AggState \<Rightarrow> tmpGroup \<Rightarrow> convexhull \<Rightarrow> convexhull" where
  "candidate_hull acos node st ptr h =
     fold (\<lambda>t h. let p = hull_tuple node st t in
             if insideConvexAndInsideBound (Some h) p (distanceall node) = 1 then unionConvex acos h p else h)
       (take (nat (member_len ptr)) (tuples_headPtr ptr)) h"

definition newgroup_l2_settle :: "(real \<Rightarrow> real option) \<Rightarrow> Agg_plan \<Rightarrow> 'a \<Rightarrow> slot \<Rightarrow> nat \<Rightarrow> slot option \<Rightarrow> nat \<Rightarrow>
    tmpGroup option \<Rightarrow> 'a AggState \<Rightarrow> 'a AggState option" where
  "newgroup_l2_settle acos node init s numcontain updateEntry tmpindex maxclique st =
     (if numcontain = 0 \<and> tmpindex = 0
      then (case random_slot (if numCols node = 1 then 50000000 else 5000000) 20000000 100000 node s st of
              None \<Rightarrow> None
            | Some (modifiedSlot, st1) \<Rightarrow>
                map_option (\<lambda>(b, k, st2). st2)
                  (found_group node init (\<lambda>h. unionConvex acos h (input_tuple node st1 s)) (own_box node s)
                     s modifiedSlot st1))
      else if tmpindex = 0 \<and> numcontain = 1 then join_update node s updateEntry st
      else if tmpindex = 1 \<and> numcontain = 0
      then (case maxclique of
              None \<Rightarrow> Some st
            | Some ptr \<Rightarrow>
                if isexisit ptr then Some st
                else (case random_slot 50000000 1000000 10000 node s st of
                        None \<Rightarrow> None
                      | Some (modifiedSlot, st1) \<Rightarrow>
                          if member_len ptr > 0
                          then map_option (\<lambda>(b, k, st2). if b then set_cell_entry (indexhasharray st2) k st2 else st2)
                                 (found_group node init (candidate_hull acos node st1 ptr) (candidate_box node ptr)
                                    s modifiedSlot st1)
                          else Some st1))
      else Some st)"

definition agg_fill_hash_table_overlap_newgroup_l2 :: "(real \<Rightarrow> real option) \<Rightarrow> Agg_plan \<Rightarrow> 'a \<Rightarrow> 'a AggState \<Rightarrow>
    slot \<Rightarrow> 'a AggState option" where
  "agg_fill_hash_table_overlap_newgroup_l2 acos node init st s =
     (case getMBRinputSlot s (numCols node) of
        None \<Rightarrow> None
      | Some searchMBR \<Rightarrow>
      (case contain_search (rtreeroot st) searchMBR False (globals st) of
         None \<Rightarrow> None
       | Some (nhits, g1) \<Rightarrow>
      (case (if nhits > 0 then newgroup_l2_hits acos node init s (contain_ids g1) 0 0 None (st\<lparr>globals := g1\<rparr>)
             else Some (0, None, st\<lparr>globals := g1\<rparr>)) of
         None \<Rightarrow> None
       | Some (numcontain, updateEntry, st1) \<Rightarrow>
      (case getMBRinputSlotBigger s (numCols node) (distanceall node) of
         None \<Rightarrow> None
       | Some searchMBR2 \<Rightarrow>
      (case search_result (RTreeSearch (rtreeroot st1) MySearchCallback searchMBR2 False False
               (Some ((globals st1)\<lparr>iscontain_M := False\<rparr>))) of
         None \<Rightarrow> None
       | Some (nhits2, g2) \<Rightarrow>
      (case (if nhits2 > 0 then newgroup_l2_overlaps node init s (overlap_ids g2) 0 True None (st1\<lparr>globals := g2\<rparr>)
             else Some (0, None, st1\<lparr>globals := g2\<rparr>)) of
         None \<Rightarrow> None
       | Some (tmpindex, maxclique, st2) \<Rightarrow>
      (case newgroup_l2_settle acos node init s numcontain updateEntry tmpindex maxclique st2 of
         None \<Rightarrow> None
       | Some st3 \<Rightarrow>
           if numcontain > 0 then newgroup_reinsert node init s (contain_ids (globals st3)) st3
           else Some st3)))))))"

section \<open>After the input\<close>

text \<open>The aggregates of a group of overlap 2: each tuple is put into a copy of the tuple in the
  buffer slot. Flag 2 marks a finished group, and flag 3 becomes 0, which is left out of the
  result.\<close>

fun advance_members :: "Agg_plan \<Rightarrow> (slot \<Rightarrow> 'a \<Rightarrow> 'a) \<Rightarrow> slot \<Rightarrow> tuple list \<Rightarrow> 'a \<Rightarrow> 'a option" where
  "advance_members node advance buf [] x = Some x"
| "advance_members node advance buf (t # ts) x =
     (case puttuple_TupleTableSlot t buf (numCols node) of
        None \<Rightarrow> None
      | Some m \<Rightarrow> advance_members node advance buf ts (advance m x))"

definition finish_entry :: "Agg_plan \<Rightarrow> 'a \<Rightarrow> (slot \<Rightarrow> 'a \<Rightarrow> 'a) \<Rightarrow> slot \<Rightarrow> 'a AggHashEntry \<Rightarrow> 'a AggHashEntry option" where
  "finish_entry node init advance buf e =
     (if flagEnabled e = 1
      then (case tuplestorestate e of
              Group g \<Rightarrow>
                map_option (\<lambda>x. e\<lparr>pergroup := x, flagEnabled := 2, tuplestorestate := NoStore\<rparr>)
                  (advance_members node advance buf (tuples_headPtr g)
                     (if tuples_headPtr g = [] then pergroup e else init))
            | _ \<Rightarrow> None)
      else Some (if flagEnabled e = 3 then e\<lparr>flagEnabled := 0\<rparr> else e))"

text \<open>The walk over the hash table visits the keys in the order the table gives.\<close>

fun sgb_newgroup_aggfunction :: "Agg_plan \<Rightarrow> 'a \<Rightarrow> (slot \<Rightarrow> 'a \<Rightarrow> 'a) \<Rightarrow> slot list \<Rightarrow> 'a AggState \<Rightarrow> 'a AggState option" where
  "sgb_newgroup_aggfunction node init advance [] st = Some st"
| "sgb_newgroup_aggfunction node init advance (k # ks) st =
     (case hashtable st k of
        None \<Rightarrow> None
      | Some e \<Rightarrow>
          (case finish_entry node init advance (buffer_slot st) e of
             None \<Rightarrow> None
           | Some e' \<Rightarrow> sgb_newgroup_aggfunction node init advance ks (update_entry k (\<lambda>_. e') st)))"

text \<open>\<open>sgb_newgroup_helper\<close>. \<open>scan\<close> gives the order of the walks over the hash table. With the
  calls of the iterations commented out, reading the overlap store has no effect but to end at
  its end: \<open>storeplace\<close> is 1 in the second round, which runs the aggregates once more and stops.\<close>

definition sgb_newgroup_helper :: "((slot \<Rightarrow> 'a AggHashEntry option) \<Rightarrow> slot list) \<Rightarrow> Agg_plan \<Rightarrow> 'a \<Rightarrow>
    (slot \<Rightarrow> 'a \<Rightarrow> 'a) \<Rightarrow> 'a AggState \<Rightarrow> 'a AggState option" where
  "sgb_newgroup_helper scan node init advance st =
     (case sgb_newgroup_aggfunction node init advance (scan (hashtable st)) st of
        None \<Rightarrow> None
      | Some st1 \<Rightarrow>
          if overlaptuplestorestate1 st1 = None then Some st1
          else sgb_newgroup_aggfunction node init advance (scan (hashtable st1)) st1)"

end
