(* ===== verification/SGBAny.thy ===== *)
theory SGBAny
  imports AggState
begin

text \<open>
  The SGB-Any operator, \<^verbatim>\<open>executor/nodeAgg.c\<close>: \<open>agg_fill_hash_table_SGBANY\<close> enters a tuple
  into the R-tree and joins its disjoint set with those of its neighbours,
  \<open>agg_fill_hash_table_SGBTOANY\<close> does so for the whole input, and \<open>IterateSets\<close> with
  \<open>DFS_oneSet\<close> turns every set into a group. Proved: the sets are the connected components of
  the neighbourhood graph as long as the tree is one leaf when searched, and never join
  unconnected tuples; the traversal stays inside one set and visits a tuple once, but it
  follows child chains that path compression has cut, and can miss tuples.
\<close>

section \<open>One tuple\<close>

text \<open>The metric test of a candidate; \<open>None\<close> dereferences a NULL \<open>data\<close>.\<close>

definition any_candidate :: "int \<Rightarrow> int \<Rightarrow> tuple \<Rightarrow> nodes \<Rightarrow> nat \<Rightarrow> bool option" where
  "any_candidate distanceMetric EPS p1 m j =
     (if distanceMetric = 2
      then (case data (m j) of
              None \<Rightarrow> None
            | Some q \<Rightarrow> Some (\<not> c_trunc (L2distance p1 q) > EPS))
      else Some True)"

fun any_join :: "int \<Rightarrow> int \<Rightarrow> tuple \<Rightarrow> int list \<Rightarrow> int \<Rightarrow> DisJointSets \<Rightarrow> (int \<times> DisJointSets) option" where
  "any_join distanceMetric EPS p1 [] newsetID d = Some (newsetID, d)"
| "any_join distanceMetric EPS p1 (c # cs) newsetID d =
     (let j = nat (c - 1) in
      case any_candidate distanceMetric EPS p1 (m_nodes d) j of
        None \<Rightarrow> None
      | Some False \<Rightarrow> any_join distanceMetric EPS p1 cs newsetID d
      | Some True \<Rightarrow>
          (case FindSet j d of
             None \<Rightarrow> None
           | Some (setID1, d1) \<Rightarrow>
               if int setID1 \<noteq> newsetID
               then (case unionSet setID1 (nat newsetID) d1 of
                       (w, d2) \<Rightarrow> any_join distanceMetric EPS p1 cs w d2)
               else any_join distanceMetric EPS p1 cs newsetID d1))"

definition any_metric :: "Agg_plan \<Rightarrow> int" where
  "any_metric node = (if metric node = -1 then 2 else metric node)"

text \<open>The tree and the sets are only there when the node allocated them.\<close>

definition agg_fill_hash_table_SGBANY :: "Agg_plan \<Rightarrow> 'a AggState \<Rightarrow> slot \<Rightarrow> 'a AggState option" where
  "agg_fill_hash_table_SGBANY node st s =
     (let EPS = distanceany node; n = numCols node in
      case getMBRinputSlotBigger s n EPS of
        None \<Rightarrow> None
      | Some searchMBR2 \<Rightarrow>
          if \<not> rtree_set st \<or> \<not> dsjset_set st then None
          else
          (case search_result (RTreeSearch_Contain (rtreeroot st) MySearchCallback searchMBR2
                  (Some ((initilList (globals st))\<lparr>iscontain_M := True\<rparr>))) of
             None \<Rightarrow> None
           | Some (nhits, g) \<Rightarrow>
               let tupleid = indexhasharray st; p1 = input_tuple node st s;
                   d1 = fst (InsertElement p1 tupleid (dsjset st))
               in (case (if nhits > 0 then any_join (any_metric node) EPS p1 (contain_ids g) (int tupleid) d1
                         else Some (int tupleid, d1)) of
                     None \<Rightarrow> None
                   | Some (_, d2) \<Rightarrow>
                       (case getMBRinputSlot s n of
                          None \<Rightarrow> None
                        | Some insertMBR \<Rightarrow>
                            (case RTreeInsert (rtreeroot st) insertMBR (child_of_tid (tupleid + 1)) 0 of
                               None \<Rightarrow> None
                             | Some (rt', _) \<Rightarrow>
                                 Some (st\<lparr>globals := g, dsjset := d2, rtreeroot := rt',
                                          indexhasharray := tupleid + 1\<rparr>))))))"

fun any_input :: "Agg_plan \<Rightarrow> 'a AggState \<Rightarrow> slot list \<Rightarrow> 'a AggState option" where
  "any_input node st [] = Some st"
| "any_input node st (s # ss) =
     (case agg_fill_hash_table_SGBANY node st s of
        None \<Rightarrow> None
      | Some st' \<Rightarrow> any_input node (st'\<lparr>numbertuples := numbertuples st' + 1\<rparr>) ss)"

section \<open>The groups\<close>

text \<open>
  \<open>DFS_oneSet\<close> on an element and its loop over the child chain, which ends at NULL or at the
  first child that was visited. The aggregate transitions happen in the order of the visits,
  on the tuple of the element; they are returned as the list of the visited tuples. Fuel
  bounds the depth of the calls, \<open>None\<close> is running out of it or a NULL \<open>data\<close>.
\<close>

fun DFS_oneSet :: "nat \<Rightarrow> nat \<Rightarrow> nodes \<Rightarrow> (tuple list \<times> nodes) option"
  and dfs_children :: "nat \<Rightarrow> nat option \<Rightarrow> nodes \<Rightarrow> (tuple list \<times> nodes) option" where
  "DFS_oneSet 0 i m = None"
| "DFS_oneSet (Suc k) i m =
     (if visited (m i) = 0
      then (case data (m i) of
              None \<Rightarrow> None
            | Some t \<Rightarrow>
                (case dfs_children k (childListHead (m i)) (m(i := (m i)\<lparr>visited := 1\<rparr>)) of
                   None \<Rightarrow> None
                 | Some (ts, m') \<Rightarrow> Some (t # ts, m')))
      else Some ([], m))"
| "dfs_children 0 b m = None"
| "dfs_children (Suc k) b m =
     (case b of
        None \<Rightarrow> Some ([], m)
      | Some c \<Rightarrow>
          if visited (m c) \<noteq> 1
          then (case DFS_oneSet k c m of
                  None \<Rightarrow> None
                | Some (ts, m') \<Rightarrow>
                    (case dfs_children k (nextChild (m' c)) m' of
                       None \<Rightarrow> None
                     | Some (us, m'') \<Rightarrow> Some (ts @ us, m'')))
          else Some ([], m))"

text \<open>The key of a new group: random numbers in the grouping columns.\<close>

definition any_key_values :: "Agg_plan \<Rightarrow> 'a AggState \<Rightarrow> int list \<times> bool list \<times> 'a AggState" where
  "any_key_values node st =
     (let n = numCols node; zeros = replicate n (0::int); no = replicate n False in
      if n = 1
      then (case rand st of (r1, st1) \<Rightarrow> case rand st1 of (r2, st2) \<Rightarrow>
              (zeros[0 := add32 (rem32 r1 70000000) (rem32 r2 20000000)], no[0 := True], st2))
      else if n = 2
      then (case rand st of (r1, st1) \<Rightarrow> case rand st1 of (r2, st2) \<Rightarrow>
              (zeros[0 := rem32 r1 50000000, 1 := rem32 r2 10000], no[0 := True, 1 := True], st2))
      else (zeros, no, st))"

text \<open>The aggregates of a group: the first tuple initialises them, and each is advanced on the
  input slot's tuple with the element's values.\<close>

fun advance_all :: "Agg_plan \<Rightarrow> (slot \<Rightarrow> 'a \<Rightarrow> 'a) \<Rightarrow> slot \<Rightarrow> tuple list \<Rightarrow> 'a \<Rightarrow> 'a option" where
  "advance_all node advance inputslot [] x = Some x"
| "advance_all node advance inputslot (t # ts) x =
     (case puttuple_TupleTableSlot t inputslot (numCols node) of
        None \<Rightarrow> None
      | Some s \<Rightarrow> advance_all node advance inputslot ts (advance s x))"

text \<open>\<open>IterateSets\<close> from element \<open>i\<close> on, \<open>k\<close> elements to go: it returns altogether when the
  random key of a new group is already in use.\<close>

fun IterateSets :: "Agg_plan \<Rightarrow> 'a \<Rightarrow> (slot \<Rightarrow> 'a \<Rightarrow> 'a) \<Rightarrow> slot \<Rightarrow> nat \<Rightarrow> nat \<Rightarrow> 'a AggState \<Rightarrow>
    'a AggState option" where
  "IterateSets node init advance inputslot 0 i st = Some st"
| "IterateSets node init advance inputslot (Suc k) i st =
     (if parent (m_nodes (dsjset st) i) = None
      then (case any_key_values node st of (vs, rs, st1) \<Rightarrow>
         case heap_modify_tuple inputslot vs (replicate (numCols node) False) rs of
           None \<Rightarrow> None
         | Some modifiedSlot \<Rightarrow>
             (case lookup_hash_entry node init st1 modifiedSlot of
                None \<Rightarrow> None
              | Some (key, st2) \<Rightarrow>
              case hashtable st2 key of
                None \<Rightarrow> None
              | Some e \<Rightarrow>
                  if flagEnabled e \<noteq> 0 then Some st2
                  else (case DFS_oneSet (2 * num_elements (dsjset st2) + 2) i (m_nodes (dsjset st2)) of
                          None \<Rightarrow> None
                        | Some (ts, m') \<Rightarrow>
                            (case advance_all node advance inputslot ts (if ts = [] then pergroup e else init) of
                               None \<Rightarrow> None
                             | Some x \<Rightarrow>
                                 IterateSets node init advance inputslot k (i + 1)
                                   ((update_entry key (\<lambda>e. e\<lparr>flagEnabled := 1, pergroup := x\<rparr>) st2)
                                      \<lparr>dsjset := (dsjset st2)\<lparr>m_nodes := m'\<rparr>\<rparr>)))))
      else IterateSets node init advance inputslot k (i + 1) st)"

definition agg_fill_hash_table_SGBTOANY :: "Agg_plan \<Rightarrow> 'a \<Rightarrow> (slot \<Rightarrow> 'a \<Rightarrow> 'a) \<Rightarrow> 'a AggState \<Rightarrow> slot list \<Rightarrow>
    'a AggState option" where
  "agg_fill_hash_table_SGBTOANY node init advance st input =
     (case any_input node st input of
        None \<Rightarrow> None
      | Some st' \<Rightarrow> IterateSets node init advance (if input = [] then [] else hd input)
                      (num_elements (dsjset st')) 0 st')"

section \<open>Equivalence closures\<close>

definition eqc :: "(nat \<times> nat) set \<Rightarrow> (nat \<times> nat) set" where
  "eqc E = (E \<union> E\<inverse>)\<^sup>*"

lemma eqc_refl [simp]: "(i, i) \<in> eqc E"
  by (simp add: eqc_def)

lemma eqc_sym: "(i, j) \<in> eqc E \<Longrightarrow> (j, i) \<in> eqc E"
  unfolding eqc_def by (metis converse_iff converse_Un converse_converse rtrancl_converseI sup_commute)

lemma eqc_trans: "(i, j) \<in> eqc E \<Longrightarrow> (j, k) \<in> eqc E \<Longrightarrow> (i, k) \<in> eqc E"
  unfolding eqc_def by (rule rtrancl_trans)

lemma eqc_edge: "(i, j) \<in> E \<Longrightarrow> (i, j) \<in> eqc E"
  unfolding eqc_def by blast

lemma eqc_mono: "E \<subseteq> F \<Longrightarrow> eqc E \<subseteq> eqc F"
  unfolding eqc_def by (intro rtrancl_mono) auto

lemma eqc_isolated:
  assumes "(i, j) \<in> eqc E" "\<forall>(a, b)\<in>E. a \<noteq> j \<and> b \<noteq> j"
  shows "i = j"
  using assms(1) unfolding eqc_def
proof (cases rule: rtrancl.cases)
  case (rtrancl_into_rtrancl b)
  then show ?thesis using assms(2) by auto
qed simp

text \<open>Adding a point \<open>n\<close> with edges to the points \<open>js\<close>: the classes of these merge.\<close>

definition touched :: "(nat \<times> nat) set \<Rightarrow> nat \<Rightarrow> nat set \<Rightarrow> nat set" where
  "touched E n js = insert n {i. \<exists>k\<in>js. (i, k) \<in> eqc E}"

lemma eqc_star:
  assumes "\<forall>(a, b)\<in>E. a \<noteq> n \<and> b \<noteq> n" "n \<notin> js"
  shows "(i, j) \<in> eqc (E \<union> {n} \<times> js) \<longleftrightarrow> (i, j) \<in> eqc E \<or> (i \<in> touched E n js \<and> j \<in> touched E n js)"
proof
  let ?F = "E \<union> {n} \<times> js" and ?T = "touched E n js"
  have sub: "eqc E \<subseteq> eqc ?F" by (intro eqc_mono) simp
  have to_n: "(x, n) \<in> eqc ?F" if xT: "x \<in> ?T" for x
  proof (cases "x = n")
    case False
    then obtain k where "k \<in> js" "(x, k) \<in> eqc E" using xT unfolding touched_def by blast
    moreover have "(k, n) \<in> eqc ?F" using \<open>k \<in> js\<close> by (intro eqc_sym [OF eqc_edge]) simp
    ultimately show ?thesis using sub eqc_trans by blast
  qed simp
  show "(i, j) \<in> eqc ?F" if "(i, j) \<in> eqc E \<or> (i \<in> ?T \<and> j \<in> ?T)"
    using that sub to_n eqc_sym eqc_trans by blast
  show "(i, j) \<in> eqc E \<or> (i \<in> ?T \<and> j \<in> ?T)" if "(i, j) \<in> eqc ?F"
    using that unfolding eqc_def [of ?F]
  proof (induction rule: rtrancl_induct)
    case base
    then show ?case by simp
  next
    case (step y z)
    have in_T: "x \<in> ?T" if "(x, k) \<in> eqc E" "k \<in> ?T" for x k
    proof (cases "k = n")
      case True
      then show ?thesis using eqc_isolated [of x n E] that(1) assms(1) by (auto simp: touched_def)
    next
      case False
      then show ?thesis using that eqc_trans unfolding touched_def by blast
    qed
    have js: "js \<subseteq> ?T" "n \<in> ?T" by (auto simp: touched_def intro: eqc_refl)
    from step(2) consider "(y, z) \<in> eqc E" | "y \<in> ?T" "z \<in> ?T"
      using js eqc_edge [of y z E] eqc_sym [OF eqc_edge [of z y E]] by blast
    then show ?case using step(3) in_T eqc_sym eqc_trans by cases blast+
  qed
qed


section \<open>Disjoint set operations keep the tuples\<close>

lemma FindSet_data:
  assumes "ds_state d" "i < num_elements d" "FindSet i d = Some (r, d')"
  shows "data (m_nodes d' j) = data (m_nodes d j)" "visited (m_nodes d' j) = visited (m_nodes d j)"
    "capacity d' = capacity d"
proof -
  have "ds_inv d" using assms(1) by (simp add: ds_state_def)
  from FindSet_ok [OF this assms(2)] obtain m' where
    "FindSet i d = Some (rep (m_nodes d) i, d\<lparr>m_nodes := m'\<rparr>)" "same_sets m' (m_nodes d) (num_elements d)"
    by blast
  then show "data (m_nodes d' j) = data (m_nodes d j)" "visited (m_nodes d' j) = visited (m_nodes d j)"
    "capacity d' = capacity d"
    using assms(3) by (auto simp: same_sets_def)
qed

lemma unionSet_data:
  assumes "unionSet a b d = (w, d')"
  shows "data (m_nodes d' j) = data (m_nodes d j)" "visited (m_nodes d' j) = visited (m_nodes d j)"
    "capacity d' = capacity d"
proof -
  have "d' = snd (unionSet a b d)" using assms by simp
  then show "data (m_nodes d' j) = data (m_nodes d j)" "visited (m_nodes d' j) = visited (m_nodes d j)"
    "capacity d' = capacity d"
    by (simp_all add: unionSet_def Let_def)
qed

lemma any_candidate_cong: "data (m' j) = data (m j) \<Longrightarrow> any_candidate metr EPS p1 m' j = any_candidate metr EPS p1 m j"
  by (simp add: any_candidate_def)

text \<open>The merging loop of the code is the one of the interface on the neighbours that pass the
  metric test.\<close>

lemma any_join_filter:
  assumes "ds_state d" "\<forall>j\<in>set js. j < num_elements d \<and> pass j = any_candidate metr EPS p1 (m_nodes d) j"
    "\<forall>j\<in>set js. pass j \<noteq> None" "s < num_elements d" "rep (m_nodes d) s = s"
  shows "any_join metr EPS p1 (map (\<lambda>j. int (Suc j)) js) (int s) d
     = uf.join_all (filter (\<lambda>j. pass j = Some True) js) (int s) d \<and>
     (\<forall>w d'. uf.join_all (filter (\<lambda>j. pass j = Some True) js) (int s) d = Some (w, d') \<longrightarrow>
        capacity d' = capacity d \<and> (\<forall>j. data (m_nodes d' j) = data (m_nodes d j) \<and>
        visited (m_nodes d' j) = visited (m_nodes d j)))"
  using assms
proof (induction js arbitrary: s d)
  case Nil
  then show ?case by simp
next
  case (Cons j js)
  have j: "j < num_elements d" "any_candidate metr EPS p1 (m_nodes d) j = pass j" "pass j \<noteq> None"
    using Cons.prems(2,3) by auto
  show ?case
  proof (cases "pass j = Some True")
    case False
    then have f: "pass j = Some False" using j(3) by auto
    show ?thesis using Cons.IH [OF Cons.prems(1) _ _ Cons.prems(4,5)] Cons.prems(2,3) j f by simp
  next
    case True
    obtain d1 where d1: "FindSet j d = Some (rep (m_nodes d) j, d1)" "ds_state d1"
      "num_elements d1 = num_elements d" "\<forall>i<num_elements d. rep (m_nodes d1) i = rep (m_nodes d) i"
      using uf.find_law [OF Cons.prems(1) j(1)] by blast
    note dat = FindSet_data [OF Cons.prems(1) j(1) d1(1)]
    have c1: "any_candidate metr EPS p1 (m_nodes d1) i = any_candidate metr EPS p1 (m_nodes d) i" for i
      by (rule any_candidate_cong [OF dat(1)])
    define r where "r = rep (m_nodes d) j"
    have rs: "r < num_elements d" "rep (m_nodes d1) r = r" "rep (m_nodes d1) s = s"
      using uf.rep_law [OF Cons.prems(1) j(1)] d1(4) Cons.prems(4,5) by (simp_all add: r_def)
    show ?thesis
    proof (cases "r = s")
      case eq: True
      have "\<forall>j\<in>set js. j < num_elements d1 \<and> pass j = any_candidate metr EPS p1 (m_nodes d1) j"
        using Cons.prems(2) d1(3) c1 by simp
      from Cons.IH [OF d1(2) this _ _ rs(3)] Cons.prems(3,4)
      show ?thesis using d1(1,3) j(2) True eq dat by (simp add: r_def [symmetric])
    next
      case ne: False
      obtain w1 d2 where d2: "unionSet r s d1 = (int w1, d2)" "ds_state d2" "num_elements d2 = num_elements d"
        "w1 = r \<or> w1 = s" "\<forall>i<num_elements d. rep (m_nodes d2) i =
           (if rep (m_nodes d1) i \<in> {r, s} then w1 else rep (m_nodes d1) i)"
        using uf.unite_law [OF d1(2), of r s] d1(3) rs Cons.prems(4) ne by auto
      have w1: "w1 < num_elements d" "rep (m_nodes d2) w1 = w1" using d2(4,5) rs Cons.prems(4) by auto
      note dat2 = unionSet_data [OF d2(1)]
      have "any_candidate metr EPS p1 (m_nodes d2) i = any_candidate metr EPS p1 (m_nodes d) i" for i
        using any_candidate_cong [of "m_nodes d2" i "m_nodes d1"] dat2(1) [of i] c1 [of i] by simp
      then have "\<forall>j\<in>set js. j < num_elements d2 \<and> pass j = any_candidate metr EPS p1 (m_nodes d2) j"
        using Cons.prems(2) d2(3) by simp
      from Cons.IH [OF d2(2) this _ _ w1(2)] Cons.prems(3) w1(1) d2(3)
      show ?thesis using d1(1,3) d2(1) j(2) True ne dat dat2 by (simp add: r_def [symmetric])
    qed
  qed
qed

section \<open>The tree while it is one leaf\<close>

lemma leaf_size:
  assumes "wf_node 0 n"
  shows "length (node_entries n) = ncount n"
proof -
  have l: "length (branches_entries bs) = length bs" if "\<forall>b\<in>set bs. wf_branch 0 b" for bs :: "RTREEBRANCH list"
    using that by (induction bs) (auto split: child.splits)
  have "\<forall>b\<in>set (live n). wf_branch 0 b" "ncount n = length (live n)"
    using assms unfolding wf_node_def node_shape_def by blast+
  then show ?thesis using l [of "live n"] node_entries_branch [of n] branches_entries_live [of "branch n"]
    by metis
qed

lemma Insert_leaf:
  assumes "wf_root rt" "nlevel (root_node rt) = 0" "size (entries rt) < 12"
    "RTreeInsert rt mbr ch 0 = Some (rt', f)"
  shows "nlevel (root_node rt') = 0"
proof -
  obtain l where l: "wf_node l (root_node rt)" using assms(1) unfolding wf_root_def by blast
  then have "l = 0" using assms(2) by (simp add: wf_node_def)
  then have "ncount (root_node rt) < 12" using assms(3) leaf_size [of "root_node rt"] l by simp
  then have "RTreeInsertRect mbr ch (root_node rt) 0 = Some (put_branch (mbr, ch) (root_node rt), None)"
    using assms(2) by (simp add: RTreeInsertRect.simps [of mbr ch "root_node rt"] RTreeAddBranch_def MAXKIDS_12)
  then show ?thesis using assms(2,4)
    by (auto simp: RTreeInsert_def put_branch_def split: option.splits)
qed

lemma keyed_enclosed:
  assumes "rti.keyed rt f n"
  shows "set (enclosed m (node_entries (root_node rt))) = {i. 1 \<le> i \<and> i \<le> n \<and> RTreeContained (f i) m}"
proof -
  have "set (enclosed m (node_entries (root_node rt)))
      = {i. \<exists>r. (r, i) \<in># entries rt \<and> RTreeContained r m}"
    by (force simp: enclosed_def)
  then show ?thesis using rti.keyed_members [OF assms] by auto
qed

section \<open>Neighbours\<close>

text \<open>Two points are adjacent when each is in the other's square; in metric 2 also the
  truncated distance has to be at most \<open>EPS\<close>, which is a distance below \<open>EPS + 1\<close>.\<close>

definition any_adjacent :: "int \<Rightarrow> int \<Rightarrow> int \<times> int \<Rightarrow> int \<times> int \<Rightarrow> bool" where
  "any_adjacent metr EPS p q \<longleftrightarrow>
     (if metr = 2
      then (fst p - fst q) * (fst p - fst q) + (snd p - snd q) * (snd p - snd q) < (EPS + 1) * (EPS + 1)
      else near2 EPS p q)"

definition any_edges :: "int \<Rightarrow> int \<Rightarrow> (int \<times> int) list \<Rightarrow> (nat \<times> nat) set" where
  "any_edges metr EPS ps = {(i, j). j < i \<and> i < length ps \<and> any_adjacent metr EPS (ps ! i) (ps ! j)}"

lemma any_edges_append:
  "any_edges metr EPS (ps @ [p]) = any_edges metr EPS ps \<union>
     {length ps} \<times> {j. j < length ps \<and> any_adjacent metr EPS p (ps ! j)}"
  by (auto simp: any_edges_def nth_append less_Suc_eq)

lemma trunc_distance:
  assumes "close_enough p q" "0 \<le> EPS" "EPS \<le> 32767"
  shows "c_trunc (L2distance p q) \<le> EPS \<longleftrightarrow> sqdist p q < (EPS + 1) * (EPS + 1)"
proof -
  note b = sqdist_bounds [OF assms(1)]
  obtain x where x: "dsqrt (of_int (sqdist p q)) = Some x" "0 \<le> x"
    using dsqrt_nonneg [of "of_int (sqdist p q)"] b(1) by auto
  define k where "k = EPS + 1"
  have k: "0 \<le> k" "k \<le> 32768" using assms(2,3) by (simp_all add: k_def)
  then have kk: "k * k < 4294967296" using mult_mono [of k 32768 k 32768] by simp
  have sq: "dsqrt (of_int (k * k)) = Some (of_int k)" using dsqrt_square [of k] k by simp
  have "c_trunc (L2distance p q) \<le> EPS \<longleftrightarrow> x < of_int k"
    using x b(3) by (simp add: c_trunc_def k_def) linarith
  also have "\<dots> \<longleftrightarrow> sqdist p q < k * k"
  proof
    show "x < of_int k" if "sqdist p q < k * k"
      by (rule dsqrt_int_strict_mono [OF b(1) that kk x(1) sq])
    show "sqdist p q < k * k" if "x < of_int k"
    proof (rule ccontr)
      assume "\<not> sqdist p q < k * k"
      then have "real_of_int (k * k) \<le> of_int (sqdist p q)" by (simp only: of_int_le_iff not_less)
      then have "of_int k \<le> x" using dsqrt_mono [OF _ _ sq x(1)] by simp
      then show False using that by simp
    qed
  qed
  finally show ?thesis by (simp add: k_def)
qed

lemma square_in_box:
  fixes a b k :: int
  assumes "a * a + b * b < (k + 1) * (k + 1)" "0 \<le> k"
  shows "\<bar>a\<bar> \<le> k" "\<bar>b\<bar> \<le> k"
proof -
  have "\<bar>c\<bar> \<le> k" if "c * c < (k + 1) * (k + 1)" for c :: int
  proof (rule ccontr)
    assume "\<not> \<bar>c\<bar> \<le> k"
    then have "(k + 1) * (k + 1) \<le> \<bar>c\<bar> * \<bar>c\<bar>" using assms(2) by (intro mult_mono) auto
    then show False using that by simp
  qed
  moreover have "a * a < (k + 1) * (k + 1)" "b * b < (k + 1) * (k + 1)"
    using assms(1) zero_le_square [of a] zero_le_square [of b] by linarith+
  ultimately show "\<bar>a\<bar> \<le> k" "\<bar>b\<bar> \<le> k" by blast+
qed

text \<open>The two tests of the code, box and candidate, together are adjacency.\<close>

lemma candidate_adjacent:
  assumes "near2 EPS (x, y) (a, b)" "0 \<le> EPS" "EPS \<le> 32767" "data (m j) = Some q"
    "vals p ! 0 = x" "vals p ! 1 = y" "vals q ! 0 = a" "vals q ! 1 = b"
  shows "any_candidate metr EPS p m j = Some (any_adjacent metr EPS (x, y) (a, b))"
proof (cases "metr = 2")
  case True
  have "close_enough p q" using assms(1,3,5-) by (auto simp: near2_def close_enough_def)
  from trunc_distance [OF this assms(2,3)] show ?thesis
    using True assms(4-) by (simp add: any_candidate_def any_adjacent_def sqdist_def not_less)
next
  case False
  then show ?thesis using assms(1) by (simp add: any_candidate_def any_adjacent_def)
qed

lemma adjacent_near: "any_adjacent metr EPS p q \<Longrightarrow> 0 \<le> EPS \<Longrightarrow> near2 EPS p q"
  using square_in_box [of "fst p - fst q" "snd p - snd q" EPS]
  by (auto simp: any_adjacent_def near2_def split: if_splits)

section \<open>One step of the operator\<close>

definition any_plan :: "Agg_plan \<Rightarrow> bool" where
  "any_plan node \<longleftrightarrow> numCols node = 2 \<and> 0 < distanceany node \<and> distanceany node \<le> 32767"

text \<open>The element of a point that has been entered.\<close>

definition holds_point :: "element \<Rightarrow> int \<times> int \<Rightarrow> bool" where
  "holds_point e p \<longleftrightarrow> visited e = 0 \<and>
     (\<exists>t. data e = Some t \<and> vals t ! 0 = fst p \<and> vals t ! 1 = snd p)"

definition any_inv :: "(int \<times> int) list \<Rightarrow> 'a AggState \<Rightarrow> bool" where
  "any_inv ps st \<longleftrightarrow> rtree_set st \<and> dsjset_set st \<and> capacity (dsjset st) \<le> 3000000 \<and> ds_state (dsjset st) \<and> num_elements (dsjset st) = length ps \<and>
     indexhasharray st = length ps \<and> 2 \<le> length (fresh_mem st) \<and>
     (\<forall>i<length ps. holds_point (m_nodes (dsjset st) i) (ps ! i)) \<and>
     rti.keyed (rtreeroot st) (\<lambda>k. pmbr (ps ! (k - 1))) (length ps) \<and>
     (\<forall>p\<in>set ps. pt_ok (fst p) \<and> pt_ok (snd p)) \<and>
     (length ps \<le> 12 \<longrightarrow> nlevel (root_node (rtreeroot st)) = 0)"

definition any_rep :: "'a AggState \<Rightarrow> nat \<Rightarrow> nat" where
  "any_rep st = rep (m_nodes (dsjset st))"

lemma input_mbrs:
  assumes "slot_point s p" "any_plan node"
  shows "getMBRinputSlot s (numCols node) = Some (pmbr p)"
    "getMBRinputSlotBigger s (numCols node) (distanceany node) =
       Some (MBR (of_int (fst p - distanceany node)) (of_int (snd p - distanceany node))
                 (of_int (fst p + distanceany node)) (of_int (snd p + distanceany node)))"
proof -
  have g: "slot2 s (fst p) (snd p)" using assms(1) by (simp add: slot_point_def)
  show "getMBRinputSlot s (numCols node) = Some (pmbr p)"
    using slot2_get [OF g] assms(2)
    by (simp add: getMBRinputSlot_def mbr_init_def pmbr_def Let_def any_plan_def)
  have "sub32 x e = x - e" "add32 x e = x + e" if "pt_ok x" "0 \<le> e" "e \<le> 32767" for x e
    using that by (simp_all add: pt_ok_def c_int_defs int32_def abs_le_iff)
  then show "getMBRinputSlotBigger s (numCols node) (distanceany node) =
       Some (MBR (of_int (fst p - distanceany node)) (of_int (snd p - distanceany node))
                 (of_int (fst p + distanceany node)) (of_int (snd p + distanceany node)))"
    using slot2_get [OF g] assms unfolding any_plan_def slot_point_def
    by (simp add: getMBRinputSlotBigger_def mbr_init_def Let_def)
qed

lemma pmbr_contained:
  "RTreeContained (pmbr q) (MBR (of_int (fst p - e)) (of_int (snd p - e)) (of_int (fst p + e)) (of_int (snd p + e)))
     \<longleftrightarrow> near2 e p q"
proof -
  have "proper (pmbr q)" by (simp add: pmbr_def proper_def)
  from Contained_iff [OF this]
  have "RTreeContained (pmbr q) (MBR (of_int (fst p - e)) (of_int (snd p - e)) (of_int (fst p + e)) (of_int (snd p + e)))
      \<longleftrightarrow> mbr_le (pmbr q) (MBR (of_int (fst p - e)) (of_int (snd p - e)) (of_int (fst p + e)) (of_int (snd p + e)))" .
  also have "\<dots> \<longleftrightarrow> fst p - e \<le> fst q \<and> snd p - e \<le> snd q \<and> fst q \<le> fst p + e \<and> snd q \<le> snd p + e"
    unfolding pmbr_def mbr_le_def RTREEMBR.sel of_int_le_iff by auto
  also have "\<dots> \<longleftrightarrow> near2 e p q" by (auto simp: near2_def abs_le_iff)
  finally show ?thesis .
qed

lemma input_tuple_vals:
  assumes "slot_point s p" "any_plan node" "2 \<le> length (fresh_mem st)"
  shows "vals (input_tuple node st s) ! 0 = fst p" "vals (input_tuple node st s) ! 1 = snd p"
proof -
  have g: "slot2 s (fst p) (snd p)" using assms(1) by (simp add: slot_point_def)
  have v: "vals (input_tuple node st s) = (fresh_mem st)[0 := fst p, 1 := snd p]"
    using slot2_get [OF g] assms(2) by (simp add: input_tuple_def any_plan_def upt2)
  have "0 < length (fresh_mem st)" "1 < length (fresh_mem st)" using assms(3) by linarith+
  then show "vals (input_tuple node st s) ! 0 = fst p" "vals (input_tuple node st s) ! 1 = snd p"
    unfolding v by simp_all
qed

text \<open>The search before the insertion: the ids found are those of neighbours, and of all of
  them while the tree is a leaf.\<close>

lemma any_search:
  assumes "any_inv ps st" "slot_point s p" "any_plan node"
  defines "g0 \<equiv> (initilList (globals st))\<lparr>iscontain_M := True\<rparr>"
    and "B \<equiv> MBR (of_int (fst p - distanceany node)) (of_int (snd p - distanceany node))
                 (of_int (fst p + distanceany node)) (of_int (snd p + distanceany node))"
  obtains js g where "search_result (RTreeSearch_Contain (rtreeroot st) MySearchCallback B (Some g0)) = Some (length js, g)"
    "contain_ids g = map (\<lambda>j. int (Suc j)) js" "\<forall>j\<in>set js. j < length ps \<and> near2 (distanceany node) p (ps ! j)"
    "length ps \<le> 12 \<longrightarrow> {j. j < length ps \<and> near2 (distanceany node) p (ps ! j)} \<subseteq> set js"
proof -
  have inv: "rti.keyed (rtreeroot st) (\<lambda>k. pmbr (ps ! (k - 1))) (length ps)"
    "length ps \<le> 12 \<Longrightarrow> nlevel (root_node (rtreeroot st)) = 0"
    using assms(1) by (simp_all add: any_inv_def)
  have "wf_root (rtreeroot st)" using inv(1) by (simp add: rti.keyed_def)
  then obtain l where l: "wf_node l (root_node (rtreeroot st))" unfolding wf_root_def by blast
  obtain hits where h: "RTreeSearchRect_contain MySearchCallback B (root_node (rtreeroot st)) (Some g0)
      = Some (length hits, fold record_hit hits (Some g0))"
    "subseq hits (enclosed B (node_entries (root_node (rtreeroot st))))" "length hits \<le> MAXCARD"
    "l = 0 \<Longrightarrow> hits = enclosed B (node_entries (root_node (rtreeroot st)))"
    using contain_node_sound [OF callback_always_on l, of B "Some g0"] by blast
  have en: "set (enclosed B (node_entries (root_node (rtreeroot st))))
      = {i. 1 \<le> i \<and> i \<le> length ps \<and> near2 (distanceany node) p (ps ! (i - 1))}"
    unfolding keyed_enclosed [OF inv(1)] B_def pmbr_contained ..
  have "set hits \<subseteq> set (enclosed B (node_entries (root_node (rtreeroot st))))"
    using h(2) by (auto dest: list_emb_set)
  then have hs: "\<forall>i\<in>set hits. 1 \<le> i \<and> i \<le> length ps \<and> near2 (distanceany node) p (ps ! (i - 1))"
    unfolding en by blast
  define js where "js = map (\<lambda>i. i - 1) hits"
  have "length ps \<le> 3000000" using assms(1) by (auto simp: any_inv_def ds_state_def)
  then have ids: "\<forall>i\<in>set hits. i < 2147483648" using hs by fastforce
  have g0: "iscontain_M g0" "index_contain g0 + length hits \<le> sizeofgroup" "contain_ids g0 = []"
    using h(3) by (simp_all add: g0_def initilList_def contain_ids_def sizeofgroup_def MAXCARD_12)
  obtain g where g: "fold record_hit hits (Some g0) = Some g" "contain_ids g = contain_ids g0 @ map int hits"
    by (rule fold_record_contain [OF g0(1,2) ids])
  have hits: "hits = map Suc js" unfolding js_def using hs by (induction hits) auto
  show thesis
  proof (rule that)
    have "length hits = length js" by (simp add: js_def)
    then show "search_result (RTreeSearch_Contain (rtreeroot st) MySearchCallback B (Some g0)) = Some (length js, g)"
      using h(1) g(1) by (simp add: RTreeSearch_Contain_def)
    show "contain_ids g = map (\<lambda>j. int (Suc j)) js" using g(2) g0(3) by (simp add: hits comp_def)
    show "\<forall>j\<in>set js. j < length ps \<and> near2 (distanceany node) p (ps ! j)"
      using hs unfolding js_def by auto
    have "{j. j < length ps \<and> near2 (distanceany node) p (ps ! j)} \<subseteq> set js" if "length ps \<le> 12"
    proof -
    have "l = 0" using inv(2) l that by (simp add: wf_node_def)
    then have all: "set hits = {i. 1 \<le> i \<and> i \<le> length ps \<and> near2 (distanceany node) p (ps ! (i - 1))}"
      using h(4) en by simp
    show ?thesis
    proof
      fix j assume "j \<in> {j. j < length ps \<and> near2 (distanceany node) p (ps ! j)}"
      then have "Suc j \<in> set hits" unfolding all by simp
      then show "j \<in> set js" unfolding hits by auto
    qed
    qed
    then show "length ps \<le> 12 \<longrightarrow> {j. j < length ps \<and> near2 (distanceany node) p (ps ! j)} \<subseteq> set js" by blast
  qed
qed

lemma any_join_step:
  assumes "ds_state d1" "s < num_elements d1" "rep (m_nodes d1) s = s"
    "\<forall>j\<in>set js. j < num_elements d1 \<and> any_candidate metr EPS p1 (m_nodes d1) j = Some (adj j)"
  obtains w d' where "any_join metr EPS p1 (map (\<lambda>j. int (Suc j)) js) (int s) d1 = Some (w, d')"
    "ds_state d'" "num_elements d' = num_elements d1" "capacity d' = capacity d1"
    "\<And>j. data (m_nodes d' j) = data (m_nodes d1 j)" "\<And>j. visited (m_nodes d' j) = visited (m_nodes d1 j)"
    "\<And>i j. i < num_elements d1 \<Longrightarrow> j < num_elements d1 \<Longrightarrow>
       rep (m_nodes d') i = rep (m_nodes d') j \<longleftrightarrow> rep (m_nodes d1) i = rep (m_nodes d1) j \<or>
       {rep (m_nodes d1) i, rep (m_nodes d1) j} \<subseteq> insert s (rep (m_nodes d1) ` {j \<in> set js. adj j})"
proof -
  have a: "\<forall>j\<in>set js. j < num_elements d1 \<and> Some (adj j) = any_candidate metr EPS p1 (m_nodes d1) j"
    using assms(4) by simp
  define ks where "ks = filter adj js"
  have ks: "filter (\<lambda>j. Some (adj j) = Some True) js = ks" by (simp add: ks_def)
  note j = any_join_filter [OF assms(1) a _ assms(2,3), unfolded ks, simplified]
  have "\<forall>k\<in>set ks. k < num_elements d1" using a by (simp add: ks_def)
  from uf.join_all_ok [OF assms(1-3) this] obtain w d' where w: "uf.join_all ks (int s) d1 = Some (int w, d')"
    "ds_state d'" "num_elements d' = num_elements d1"
    "w \<in> insert s (rep (m_nodes d1) ` set ks)"
    "\<forall>i<num_elements d1. rep (m_nodes d') i =
       (if rep (m_nodes d1) i \<in> insert s (rep (m_nodes d1) ` set ks) then w else rep (m_nodes d1) i)"
    by blast
  have "set ks = {j \<in> set js. adj j}" unfolding ks_def by auto
  define T where "T = insert s (rep (m_nodes d1) ` {j \<in> set js. adj j})"
  have wT: "w \<in> T" "\<forall>i<num_elements d1. rep (m_nodes d') i = (if rep (m_nodes d1) i \<in> T then w else rep (m_nodes d1) i)"
    using w(4,5) unfolding T_def \<open>set ks = {j \<in> set js. adj j}\<close> by blast+
  show thesis
  proof (rule that)
    show "any_join metr EPS p1 (map (\<lambda>j. int (Suc j)) js) (int s) d1 = Some (int w, d')"
      using j w(1) by simp
    show "ds_state d'" "num_elements d' = num_elements d1" by fact+
    show "capacity d' = capacity d1" "\<And>j. data (m_nodes d' j) = data (m_nodes d1 j)"
      "\<And>j. visited (m_nodes d' j) = visited (m_nodes d1 j)" using j w(1) by simp_all
    show "rep (m_nodes d') i = rep (m_nodes d') j \<longleftrightarrow> rep (m_nodes d1) i = rep (m_nodes d1) j \<or>
       {rep (m_nodes d1) i, rep (m_nodes d1) j} \<subseteq> insert s (rep (m_nodes d1) ` {j \<in> set js. adj j})"
      if "i < num_elements d1" "j < num_elements d1" for i j
      using that wT unfolding T_def [symmetric] by auto
  qed
qed

text \<open>The new relation of the classes, in terms of the edges.\<close>

lemma classes_star:
  assumes "\<And>i j. i < n \<Longrightarrow> j < n \<Longrightarrow> r i = r j \<longleftrightarrow> (i, j) \<in> eqc E" "\<forall>(a, b)\<in>E. a < n \<and> b < n"
    "\<And>i. i < n \<Longrightarrow> r i < n" "r n = n" "js \<subseteq> {..<n}"
    "\<And>i j. i < Suc n \<Longrightarrow> j < Suc n \<Longrightarrow>
       r' i = r' j \<longleftrightarrow> r i = r j \<or> {r i, r j} \<subseteq> insert n (r ` js)"
    "i < Suc n" "j < Suc n"
  shows "r' i = r' j \<longleftrightarrow> (i, j) \<in> eqc (E \<union> {n} \<times> js)"
proof -
  have iso: "\<forall>(a, b)\<in>E. a \<noteq> n \<and> b \<noteq> n" "n \<notin> js" using assms(2,5) by auto
  have cls: "r i = r j \<longleftrightarrow> (i, j) \<in> eqc E" if ij: "i < Suc n" "j < Suc n" for i j
  proof -
    consider "i < n" "j < n" | "i = n" "j = n" | "i = n" "j < n" | "i < n" "j = n"
      using ij by linarith
    then show ?thesis
    proof cases
      case 3
      then have "r i \<noteq> r j" using assms(3) [of j] assms(4) by auto
      moreover have "(i, j) \<notin> eqc E" using eqc_isolated [of j i E] eqc_sym iso 3 by blast
      ultimately show ?thesis by blast
    next
      case 4
      then have "r i \<noteq> r j" using assms(3) [of i] assms(4) by auto
      moreover have "(i, j) \<notin> eqc E" using eqc_isolated [of i j E] iso 4 by blast
      ultimately show ?thesis by blast
    qed (use assms(1) in simp_all)
  qed
  have tch: "r i \<in> insert n (r ` js) \<longleftrightarrow> i \<in> touched E n js" if i: "i < Suc n" for i
  proof (cases "i = n")
    case True
    then show ?thesis using assms(4) by (simp add: touched_def)
  next
    case False
    then have "r i \<noteq> n" using assms(3) [of i] i by simp
    then have "r i \<in> insert n (r ` js) \<longleftrightarrow> (\<exists>k\<in>js. r i = r k)" by auto
    also have "\<dots> \<longleftrightarrow> (\<exists>k\<in>js. (i, k) \<in> eqc E)"
    proof (intro bex_cong refl)
      fix k assume "k \<in> js"
      then have "k < Suc n" using assms(5) by auto
      then show "r i = r k \<longleftrightarrow> (i, k) \<in> eqc E" by (rule cls [OF i])
    qed
    finally show ?thesis using False by (simp add: touched_def)
  qed
  show ?thesis unfolding eqc_star [OF iso] assms(6) [OF assms(7,8)]
    using cls [OF assms(7,8)] tch [OF assms(7)] tch [OF assms(8)] by simp
qed

text \<open>The sets of the first \<open>n\<close> elements are the connected components of the edges \<open>E\<close>.\<close>

definition classes :: "'a AggState \<Rightarrow> nat \<Rightarrow> (nat \<times> nat) set \<Rightarrow> bool" where
  "classes st n E \<longleftrightarrow> (\<forall>(a, b)\<in>E. a < n \<and> b < n) \<and>
     (\<forall>i<n. \<forall>j<n. any_rep st i = any_rep st j \<longleftrightarrow> (i, j) \<in> eqc E)"

text \<open>A tuple goes into the tree and into the sets.\<close>

lemma any_tree_add:
  assumes "rti.keyed t (\<lambda>k. pmbr (ps ! (k - 1))) (length ps)" "pt_ok (fst p)" "pt_ok (snd p)"
    "length ps \<le> 12 \<longrightarrow> nlevel (root_node t) = 0"
  obtains rt f where "RTreeInsert t (pmbr p) (child_of_tid (length ps + 1)) 0 = Some (rt, f)"
    "rti.keyed rt (\<lambda>k. pmbr ((ps @ [p]) ! (k - 1))) (Suc (length ps))"
    "Suc (length ps) \<le> 12 \<longrightarrow> nlevel (root_node rt) = 0"
proof -
  have "rti.keyed t (\<lambda>k. pmbr ((ps @ [p]) ! (k - 1))) (length ps)"
  proof (rule rti.keyed_cong [OF assms(1)])
    fix i assume "1 \<le> i" "i \<le> length ps"
    then have "i - 1 < length ps" by linarith
    then show "pmbr ((ps @ [p]) ! (i - 1)) = pmbr (ps ! (i - 1))" by (simp only: nth_append if_True)
  qed
  from rti.keyed_append [OF this] obtain rt where R: "index_insert t (pmbr p) (Suc (length ps)) = Some rt"
    "rti.keyed rt (\<lambda>k. pmbr ((ps @ [p]) ! (k - 1))) (Suc (length ps))"
    using pmbr_small [OF assms(2,3)] by (auto simp: nth_append)
  then obtain f where RI: "RTreeInsert t (pmbr p) (child_of_tid (length ps + 1)) 0 = Some (rt, f)"
    by (auto simp: index_insert_def)
  have "wf_root t" "size (entries t) = length ps" using assms(1) by (simp_all add: rti.keyed_def)
  then have "Suc (length ps) \<le> 12 \<longrightarrow> nlevel (root_node rt) = 0"
    using Insert_leaf [of t, OF _ _ _ RI] assms(4) by simp
  with RI R(2) show thesis by (rule that)
qed

lemma any_sets_add:
  assumes "ds_state d" "num_elements d = length ps" "length ps < capacity d" "\<forall>i<length ps. holds_point (m_nodes d i) (ps ! i)"
    "0 \<le> e" "e \<le> 32767" "vals p1 ! 0 = fst p" "vals p1 ! 1 = snd p" "\<forall>j\<in>set js0. j < length ps \<and> near2 e p (ps ! j)"
    and js_def: "js = {j \<in> set js0. any_adjacent metr e p (ps ! j)}"
  obtains d1 w d2 where "InsertElement p1 (length ps) d = (d1, True)"
    "any_join metr e p1 (map (\<lambda>j. int (Suc j)) js0) (int (length ps)) d1 = Some (w, d2)"
    "ds_state d2" "num_elements d2 = Suc (length ps)" "capacity d2 = capacity d"
    "\<forall>i<Suc (length ps). holds_point (m_nodes d2 i) ((ps @ [p]) ! i)"
    "\<And>E i j. \<forall>(a, b)\<in>E. a < length ps \<and> b < length ps \<Longrightarrow>
       \<forall>i<length ps. \<forall>j<length ps. rep (m_nodes d) i = rep (m_nodes d) j \<longleftrightarrow> (i, j) \<in> eqc E \<Longrightarrow>
       i < Suc (length ps) \<Longrightarrow> j < Suc (length ps) \<Longrightarrow>
       rep (m_nodes d2) i = rep (m_nodes d2) j \<longleftrightarrow> (i, j) \<in> eqc (E \<union> {length ps} \<times> js)"
proof -
  define n where "n = length ps"
  have dinv: "ds_inv d" "num_elements d \<le> capacity d" "chained (m_nodes d) n"
    using assms(1,2) by (simp_all add: ds_state_def n_def)
  obtain d1 where I: "InsertElement p1 n d = (d1, True)" "ds_inv d1" "num_elements d1 = Suc n"
    "capacity d1 = capacity d" "rep (m_nodes d1) n = n" "data (m_nodes d1 n) = Some p1"
    "visited (m_nodes d1 n) = 0" "\<forall>i<n. rep (m_nodes d1) i = rep (m_nodes d) i \<and>
      data (m_nodes d1 i) = data (m_nodes d i) \<and> visited (m_nodes d1 i) = visited (m_nodes d i)"
    "chained (m_nodes d1) (Suc n)"
    using InsertElement_ok [OF dinv(1,2), of p1] dinv(3) unfolding assms(2) n_def by blast
  have ds1: "ds_state d1" using I(2-4,9) assms(3) by (simp add: ds_state_def n_def)
  have cand: "\<forall>j\<in>set js0. j < num_elements d1 \<and>
      any_candidate metr e p1 (m_nodes d1) j = Some (any_adjacent metr e p (ps ! j))"
  proof
    fix j assume "j \<in> set js0"
    then have jn: "j < n" "near2 e p (ps ! j)" using assms(9) unfolding n_def by blast+
    obtain t where t: "data (m_nodes d1 j) = Some t" "vals t ! 0 = fst (ps ! j)" "vals t ! 1 = snd (ps ! j)"
      using assms(4) jn(1) I(8) unfolding holds_point_def n_def by auto
    have "near2 e (fst p, snd p) (fst (ps ! j), snd (ps ! j))" using jn(2) by simp
    from candidate_adjacent [where m = "m_nodes d1" and j = j, OF this assms(5,6) t(1) assms(7,8) t(2,3), of metr] jn
    show "j < num_elements d1 \<and> any_candidate metr e p1 (m_nodes d1) j = Some (any_adjacent metr e p (ps ! j))"
      using I(3) by simp
  qed
  obtain w d2 where J: "any_join metr e p1 (map (\<lambda>j. int (Suc j)) js0) (int n) d1 = Some (w, d2)"
    "ds_state d2" "num_elements d2 = Suc n" "capacity d2 = capacity d"
    "\<And>j. data (m_nodes d2 j) = data (m_nodes d1 j)" "\<And>j. visited (m_nodes d2 j) = visited (m_nodes d1 j)"
    "\<And>i j. i < Suc n \<Longrightarrow> j < Suc n \<Longrightarrow> rep (m_nodes d2) i = rep (m_nodes d2) j \<longleftrightarrow>
       rep (m_nodes d1) i = rep (m_nodes d1) j \<or> {rep (m_nodes d1) i, rep (m_nodes d1) j} \<subseteq> insert n (rep (m_nodes d1) ` js)"
    using any_join_step [OF ds1 _ I(5) cand] unfolding I(3,4) js_def by blast
  have pts: "\<forall>i<Suc n. holds_point (m_nodes d2 i) ((ps @ [p]) ! i)"
    using J(5,6) I(6-8) assms(4,7,8) by (auto simp: holds_point_def nth_append n_def less_Suc_eq)
  have r: "rep (m_nodes d1) i < n" if "i < n" for i
    using uf.rep_law [OF assms(1), of i] assms(2) I(8) that by (simp add: n_def)
  have js: "js \<subseteq> {..<n}" using assms(9) by (auto simp: js_def n_def)
  show thesis
    by (rule that [folded n_def, OF I(1) J(1-4) pts])
       (rule classes_star [where r = "rep (m_nodes d1)" and n = n, OF _ _ r I(5) js J(7)]; use I(8) in simp)
qed

text \<open>The operator on one tuple.\<close>

lemma any_step:
  assumes "any_inv ps st" "slot_point s p" "any_plan node" "length ps < capacity (dsjset st)"
  obtains st' js where "agg_fill_hash_table_SGBANY node st s = Some st'" "any_inv (ps @ [p]) st'"
    "capacity (dsjset st') = capacity (dsjset st)" "fresh_mem st' = fresh_mem st"
    "js \<subseteq> {j. j < length ps \<and> any_adjacent (any_metric node) (distanceany node) p (ps ! j)}"
    "length ps \<le> 12 \<longrightarrow> js = {j. j < length ps \<and> any_adjacent (any_metric node) (distanceany node) p (ps ! j)}"
    "\<forall>E. classes st (length ps) E \<longrightarrow> classes st' (Suc (length ps)) (E \<union> {length ps} \<times> js)"
proof -
  define n e where "n = length ps" and "e = distanceany node"
  define p1 where "p1 = input_tuple node st s"
  have inv: "ds_state (dsjset st)" "num_elements (dsjset st) = n" "indexhasharray st = n" "2 \<le> length (fresh_mem st)"
    "\<forall>i<n. holds_point (m_nodes (dsjset st) i) (ps ! i)" "rti.keyed (rtreeroot st) (\<lambda>k. pmbr (ps ! (k - 1))) n"
    "\<forall>p\<in>set ps. pt_ok (fst p) \<and> pt_ok (snd p)" "n \<le> 12 \<longrightarrow> nlevel (root_node (rtreeroot st)) = 0"
    "rtree_set st" "dsjset_set st" "capacity (dsjset st) \<le> 3000000"
    using assms(1) by (simp_all add: any_inv_def n_def)
  have ep: "0 \<le> e" "e \<le> 32767" using assms(3) by (simp_all add: any_plan_def e_def)
  have pok: "pt_ok (fst p)" "pt_ok (snd p)" using assms(2) by (simp_all add: slot_point_def)
  define B where "B = MBR (of_int (fst p - e)) (of_int (snd p - e)) (of_int (fst p + e)) (of_int (snd p + e))"
  define g0 where "g0 = (initilList (globals st))\<lparr>iscontain_M := True\<rparr>"
  obtain js0 g where S: "search_result (RTreeSearch_Contain (rtreeroot st) MySearchCallback B (Some g0)) = Some (length js0, g)"
    "contain_ids g = map (\<lambda>j. int (Suc j)) js0" "\<forall>j\<in>set js0. j < n \<and> near2 e p (ps ! j)"
    "n \<le> 12 \<longrightarrow> {j. j < n \<and> near2 e p (ps ! j)} \<subseteq> set js0"
    by (rule any_search [OF assms(1-3), folded e_def n_def, folded B_def g0_def])
  have pv: "vals p1 ! 0 = fst p" "vals p1 ! 1 = snd p"
    using input_tuple_vals [OF assms(2,3) inv(4)] by (simp_all add: p1_def)
  define js where "js = {j \<in> set js0. any_adjacent (any_metric node) e p (ps ! j)}"
  obtain d1 w d2 where D: "InsertElement p1 n (dsjset st) = (d1, True)"
    "any_join (any_metric node) e p1 (map (\<lambda>j. int (Suc j)) js0) (int n) d1 = Some (w, d2)"
    "ds_state d2" "num_elements d2 = Suc n" "capacity d2 = capacity (dsjset st)"
    "\<forall>i<Suc n. holds_point (m_nodes d2 i) ((ps @ [p]) ! i)"
    "\<And>E i j. \<forall>(a, b)\<in>E. a < n \<and> b < n \<Longrightarrow>
       \<forall>i<n. \<forall>j<n. rep (m_nodes (dsjset st)) i = rep (m_nodes (dsjset st)) j \<longleftrightarrow> (i, j) \<in> eqc E \<Longrightarrow>
       i < Suc n \<Longrightarrow> j < Suc n \<Longrightarrow> rep (m_nodes d2) i = rep (m_nodes d2) j \<longleftrightarrow> (i, j) \<in> eqc (E \<union> {n} \<times> js)"
    by (rule any_sets_add [of "dsjset st" ps e p1 p js0 js "any_metric node", folded n_def])
       (use inv(1,2,5) assms(4) ep pv S(3) js_def in \<open>simp_all add: n_def\<close>)
  obtain rt f where R: "RTreeInsert (rtreeroot st) (pmbr p) (child_of_tid (n + 1)) 0 = Some (rt, f)"
    "rti.keyed rt (\<lambda>k. pmbr ((ps @ [p]) ! (k - 1))) (Suc n)" "Suc n \<le> 12 \<longrightarrow> nlevel (root_node rt) = 0"
    using any_tree_add [OF inv(6) [unfolded n_def] pok inv(8) [unfolded n_def]] unfolding n_def by blast
  define st' where "st' = st\<lparr>globals := g, dsjset := d2, rtreeroot := rt, indexhasharray := n + 1\<rparr>"
  have "any_join (any_metric node) e p1 (contain_ids g) (int n) d1 = Some (int n, d1)" if "js0 = []"
    using S(2) that by simp
  then have run: "agg_fill_hash_table_SGBANY node st s = Some st'"
    using S(1,2) D(1,2) R(1) input_mbrs [OF assms(2,3)] inv(3,9,10)
    unfolding agg_fill_hash_table_SGBANY_def st'_def g0_def B_def e_def p1_def
    by (auto simp: Let_def)
  have inv': "any_inv (ps @ [p]) st'"
    using D(3-6) R(2,3) inv(4,7,9-11) pok unfolding any_inv_def st'_def by (simp add: n_def)
  have near: "js = {j. j < n \<and> any_adjacent (any_metric node) e p (ps ! j)}" if "n \<le> 12"
    using S(3) mp [OF S(4) that] adjacent_near [OF _ ep(1)] unfolding js_def by blast
  show thesis
    by (rule that [OF run inv', folded n_def e_def, of js])
       (use D(5,7) S(3) near in \<open>auto simp: st'_def js_def classes_def any_rep_def less_Suc_eq\<close>)
qed

section \<open>The whole input\<close>

text \<open>The state of a new SGB-Any node, as \<open>ExecInitAgg\<close> leaves it when \<open>distanceany\<close> is not 0.\<close>

definition any_start :: "'a AggState \<Rightarrow> bool" where
  "any_start st \<longleftrightarrow> dsjset_set st \<and> rtree_set st \<and> (\<exists>junk. dsjset st = init_dsjset junk) \<and> rtreeroot st = RTreeCreate \<and>
     indexhasharray st = 0 \<and> 2 \<le> length (fresh_mem st)"

lemma init_any_start:
  "distanceany node \<noteq> 0 \<Longrightarrow> 2 \<le> length (fresh_mem st) \<Longrightarrow> any_start (ExecInitAgg_state node junk st)"
  unfolding any_start_def by (auto simp: ExecInitAgg_state_simps)

lemma any_start_inv:
  assumes "any_start st"
  shows "any_inv [] st" "classes st 0 {}" "capacity (dsjset st) = 3000000"
proof -
  obtain junk where j: "dsjset st = init_dsjset junk" "rtreeroot st = RTreeCreate"
    "indexhasharray st = 0" "2 \<le> length (fresh_mem st)" "dsjset_set st" "rtree_set st"
    using assms unfolding any_start_def by blast
  have "ds_state (init_dsjset junk)"
    using init_inv [of junk] unfolding ds_state_def by (simp add: init_dsjset_def chained_def)
  moreover have "rti.keyed RTreeCreate (\<lambda>k. pmbr ([] ! (k - 1))) 0"
    using Create_wf Create_entries by (simp add: rti.keyed_def)
  moreover have "nlevel (root_node RTreeCreate) = 0" by (simp add: RTreeCreate_def)
  ultimately show "any_inv [] st" using j unfolding any_inv_def by (simp add: init_dsjset_def)
  show "classes st 0 {}" by (simp add: classes_def)
  show "capacity (dsjset st) = 3000000" using j(1) by (simp add: init_dsjset_def)
qed

lemma any_inv_numbertuples:
  "any_inv ps (st\<lparr>numbertuples := k\<rparr>) = any_inv ps st"
  "classes (st\<lparr>numbertuples := k\<rparr>) n E = classes st n E"
  by (simp_all add: any_inv_def classes_def any_rep_def)

lemma any_run:
  assumes "any_plan node" "list_all2 slot_point ss qs" "any_inv ps st"
    "length ps + length ss \<le> capacity (dsjset st)"
    "classes st (length ps) E" "E \<subseteq> any_edges (any_metric node) (distanceany node) ps"
    "length ps \<le> 13 \<longrightarrow> E = any_edges (any_metric node) (distanceany node) ps"
  shows "\<exists>st' F. any_input node st ss = Some st' \<and> any_inv (ps @ qs) st' \<and>
     classes st' (length (ps @ qs)) F \<and> F \<subseteq> any_edges (any_metric node) (distanceany node) (ps @ qs) \<and>
     (length (ps @ qs) \<le> 13 \<longrightarrow> F = any_edges (any_metric node) (distanceany node) (ps @ qs))"
  using assms(2-)
proof (induction ss qs arbitrary: ps st E rule: list_all2_induct)
  case Nil
  then show ?case by auto
next
  case (Cons s ss p qs)
  have lt: "length ps < capacity (dsjset st)" using Cons.prems(2) by simp
  let ?A = "any_edges (any_metric node) (distanceany node)"
  obtain st1 js where S: "agg_fill_hash_table_SGBANY node st s = Some st1" "any_inv (ps @ [p]) st1"
    "capacity (dsjset st1) = capacity (dsjset st)"
    "js \<subseteq> {j. j < length ps \<and> any_adjacent (any_metric node) (distanceany node) p (ps ! j)}"
    "length ps \<le> 12 \<longrightarrow> js = {j. j < length ps \<and> any_adjacent (any_metric node) (distanceany node) p (ps ! j)}"
    "\<forall>E. classes st (length ps) E \<longrightarrow> classes st1 (Suc (length ps)) (E \<union> {length ps} \<times> js)"
    by (rule any_step [OF Cons.prems(1) Cons.hyps(1) assms(1) lt])
  define F where "F = E \<union> {length ps} \<times> js"
  define st2 where "st2 = st1\<lparr>numbertuples := numbertuples st1 + 1\<rparr>"
  have "F \<subseteq> ?A (ps @ [p])" using S(4) Cons.prems(4) unfolding F_def any_edges_append by blast
  moreover have "length (ps @ [p]) \<le> 13 \<longrightarrow> F = ?A (ps @ [p])"
    using S(5) Cons.prems(5) unfolding F_def any_edges_append by simp
  moreover have "classes st2 (length (ps @ [p])) F"
    using S(6) Cons.prems(3) by (simp add: st2_def any_inv_numbertuples F_def)
  moreover have "any_inv (ps @ [p]) st2" using S(2) by (simp add: st2_def any_inv_numbertuples)
  moreover have "length (ps @ [p]) + length ss \<le> capacity (dsjset st2)"
    using S(3) Cons.prems(2) by (simp add: st2_def)
  ultimately have "\<exists>st' F'. any_input node st2 ss = Some st' \<and> any_inv ((ps @ [p]) @ qs) st' \<and>
     classes st' (length ((ps @ [p]) @ qs)) F' \<and> F' \<subseteq> ?A ((ps @ [p]) @ qs) \<and>
     (length ((ps @ [p]) @ qs) \<le> 13 \<longrightarrow> F' = ?A ((ps @ [p]) @ qs))"
    by (intro Cons.IH)
  moreover have "any_input node st (s # ss) = any_input node st2 ss" using S(1) by (simp add: st2_def)
  ultimately show ?case by simp
qed

text \<open>Without the disjoint sets the first tuple is inserted through a NULL pointer.\<close>

lemma any_zero_distance:
  assumes "distanceany node = 0" "ss \<noteq> []"
  shows "any_input node (ExecInitAgg_state node junk st) ss = None"
proof -
  obtain s ss' where ss: "ss = s # ss'" using assms(2) by (cases ss) auto
  have "agg_fill_hash_table_SGBANY node (ExecInitAgg_state node junk st) s = None"
    using assms(1) by (simp add: agg_fill_hash_table_SGBANY_def Let_def ExecInitAgg_state_simps split: option.split)
  then show ?thesis by (simp add: ss)
qed

section \<open>The traversal\<close>

text \<open>What the traversal does: it marks a set \<open>V\<close> of unvisited elements.\<close>

definition mark :: "nat set \<Rightarrow> nodes \<Rightarrow> nodes" where
  "mark V m = (\<lambda>i. if i \<in> V then (m i)\<lparr>visited := 1\<rparr> else m i)"

definition dfs_ready :: "nodes \<Rightarrow> nat \<Rightarrow> bool" where
  "dfs_ready m n \<longleftrightarrow> ds_ok m n \<and> chained m n \<and> (\<forall>i<n. data (m i) \<noteq> None \<and> visited (m i) \<le> 1)"

definition unvisited :: "nodes \<Rightarrow> nat \<Rightarrow> nat set" where
  "unvisited m n = {i. i < n \<and> visited (m i) = 0}"

lemma mark_simps [simp]:
  "parent (mark V m i) = parent (m i)" "data (mark V m i) = data (m i)"
  "chain_ptrs (mark V m i) = chain_ptrs (m i)" "nextChild (mark V m i) = nextChild (m i)"
  "visited (mark V m i) = (if i \<in> V then 1 else visited (m i))"
  by (simp_all add: mark_def chain_ptrs_def)

lemma mark_mark: "mark W (mark V m) = mark (V \<union> W) m"
  by (auto simp: mark_def)

lemma mark_one: "mark {i} m = m(i := (m i)\<lparr>visited := 1\<rparr>)" and mark_none: "mark {} m = m"
  by (auto simp: mark_def)

lemma mark_ready:
  assumes "dfs_ready m n"
  shows "dfs_ready (mark V m) n" "i < n \<Longrightarrow> rep (mark V m) i = rep m i"
    "unvisited (mark V m) n = unvisited m n - V"
proof -
  have ok: "ds_ok m n" using assms by (simp add: dfs_ready_def)
  have r: "rep (mark V m) i = rep m i" if "i < n" for i
    by (rule rep_cong [OF ok that]) simp
  then show "i < n \<Longrightarrow> rep (mark V m) i = rep m i" by blast
  have "ds_ok (mark V m) n" using ds_cong(3) [of "mark V m" m n] ok by simp
  moreover have "chained (mark V m) n" using assms r unfolding dfs_ready_def chained_def by auto
  ultimately show "dfs_ready (mark V m) n" using assms by (auto simp: dfs_ready_def)
  show "unvisited (mark V m) n = unvisited m n - V" by (auto simp: unvisited_def)
qed

definition dfs_result :: "nodes \<Rightarrow> nat \<Rightarrow> nat \<Rightarrow> (tuple list \<times> nodes) option \<Rightarrow> nat set \<Rightarrow> bool" where
  "dfs_result m n r res V \<longleftrightarrow> V \<subseteq> unvisited m n \<and> (\<forall>i\<in>V. rep m i = r) \<and>
     (\<exists>ts. res = Some (ts, mark V m) \<and> mset ts = image_mset (\<lambda>i. the (data (m i))) (mset_set V))"

lemma dfs_result_none: "dfs_result m n r (Some ([], m)) {}"
  by (simp add: dfs_result_def mark_none)

lemma unvisited_fin [simp]: "finite (unvisited m n)"
  by (simp add: unvisited_def)

text \<open>Doing one traversal after another.\<close>

lemma dfs_result_append:
  assumes "dfs_ready m n" "dfs_result m n r (Some (ts, m')) V" "dfs_result m' n r (Some (us, m'')) W"
  shows "dfs_result m n r (Some (ts @ us, m'')) (V \<union> W)" "m' = mark V m"
    "unvisited m' n = unvisited m n - V"
proof -
  have V: "V \<subseteq> unvisited m n" "\<forall>i\<in>V. rep m i = r" "m' = mark V m"
    "mset ts = image_mset (\<lambda>i. the (data (m i))) (mset_set V)"
    using assms(2) by (auto simp: dfs_result_def)
  note M = mark_ready [where V = V, OF assms(1)]
  have W0: "W \<subseteq> unvisited m n - V" "\<forall>i\<in>W. rep m' i = r" "m'' = mark W m'"
    "mset us = image_mset (\<lambda>i. the (data (m i))) (mset_set W)"
    using assms(3) unfolding dfs_result_def V(3) M(3) by auto
  have "\<forall>i\<in>W. i < n" using W0(1) unfolding unvisited_def by blast
  then have "\<forall>i\<in>W. rep m i = r" using W0(2) M(2) unfolding V(3) by metis
  note W = W0(1) this W0(3,4)
  have "finite V" "finite W" using V(1) W(1) by (meson finite_subset unvisited_fin finite_Diff)+
  moreover have "V \<inter> W = {}" using W(1) by blast
  ultimately have "mset_set (V \<union> W) = mset_set V + mset_set W" by (simp add: mset_set_Union)
  then show "dfs_result m n r (Some (ts @ us, m'')) (V \<union> W)"
    using V W by (auto simp: dfs_result_def mark_mark)
  show "m' = mark V m" "unvisited m' n = unvisited m n - V" using V(3) M(3) by simp_all
qed

lemma DFS_ok:
  assumes "dfs_ready m n"
  shows "i < n \<Longrightarrow> 2 * card (unvisited m n) + 1 \<le> k \<Longrightarrow>
      \<exists>V. dfs_result m n (rep m i) (DFS_oneSet k i m) V \<and> (visited (m i) = 0 \<longrightarrow> i \<in> V)"
    and "\<forall>c\<in>set_option b. c < n \<and> rep m c = r \<Longrightarrow> 2 * card (unvisited m n) + 2 \<le> k \<Longrightarrow>
      \<exists>V. dfs_result m n r (dfs_children k b m) V"
  using assms
proof (induction k arbitrary: m i b r)
  case 0
  { case 1 then show ?case by simp }
  { case 2 then show ?case by simp }
next
  case (Suc k)
  have vis: "visited (m j) = 0 \<or> visited (m j) = 1" if "dfs_ready m n" "j < n" for m j
    using that unfolding dfs_ready_def by (metis le_less less_one)
  { case 1
    show ?case
    proof (cases "visited (m i) = 0")
      case False
      then show ?thesis using dfs_result_none by (intro exI [of _ "{}"]) simp
    next
      case True
      obtain t where t: "data (m i) = Some t" using 1 unfolding dfs_ready_def by auto
      define m1 where "m1 = mark {i} m"
      note M = mark_ready [where V = "{i}", OF 1(3), folded m1_def]
      have iu: "i \<in> unvisited m n" using True 1(1) by (simp add: unvisited_def)
      have card: "card (unvisited m n) = Suc (card (unvisited m1 n))"
        unfolding M(3) by (rule card.remove [OF unvisited_fin iu])
      have "\<forall>c\<in>set_option (childListHead (m i)). c < n \<and> rep m1 c = rep m i"
      proof
        fix c assume "c \<in> set_option (childListHead (m i))"
        then have "c \<in> chain_ptrs (m i)" by (simp add: chain_ptrs_def)
        then have c: "c < n" "rep m c = rep m i" using 1(1,3) unfolding dfs_ready_def chained_def by blast+
        then show "c < n \<and> rep m1 c = rep m i" using M(2) [OF c(1)] by simp
      qed
      moreover have "2 * card (unvisited m1 n) + 2 \<le> k" using 1(2) card by linarith
      ultimately obtain V where V: "dfs_result m1 n (rep m i) (dfs_children k (childListHead (m i)) m1) V"
        using Suc.IH(2) [OF _ _ M(1)] by blast
      then obtain ts where ts: "dfs_children k (childListHead (m i)) m1 = Some (ts, mark V m1)"
        unfolding dfs_result_def by blast
      have "dfs_result m n (rep m i) (Some ([t], m1)) {i}"
        using iu t by (simp add: dfs_result_def m1_def)
      from dfs_result_append(1) [OF 1(3) this V [unfolded ts]]
      have "dfs_result m n (rep m i) (DFS_oneSet (Suc k) i m) ({i} \<union> V)"
        using True t ts by (simp add: m1_def mark_one)
      then show ?thesis by blast
    qed
  }
  { case 2
    show ?case
    proof (cases b)
      case None
      then show ?thesis using dfs_result_none by (intro exI [of _ "{}"]) simp
    next
      case (Some c)
      have c: "c < n" "rep m c = r" using 2(1) Some by simp_all
      show ?thesis
      proof (cases "visited (m c) = 1")
        case True
        then show ?thesis using Some dfs_result_none by (intro exI [of _ "{}"]) simp
      next
        case False
        then have v: "visited (m c) = 0" using vis [OF 2(3) c(1)] by simp
        have "2 * card (unvisited m n) + 1 \<le> k" using 2(2) by linarith
        from Suc.IH(1) [OF c(1) this 2(3)]
        obtain V where V: "dfs_result m n r (DFS_oneSet k c m) V" "c \<in> V" unfolding c(2) using v by blast
        then obtain ts where ts: "DFS_oneSet k c m = Some (ts, mark V m)" unfolding dfs_result_def by blast
        note M = mark_ready [where V = V, OF 2(3)]
        have Vu: "V \<subseteq> unvisited m n" using V(1) by (simp add: dfs_result_def)
        then have "card (unvisited (mark V m) n) < card (unvisited m n)"
          unfolding M(3) using V(2) by (intro psubset_card_mono) auto
        then have fuel: "2 * card (unvisited (mark V m) n) + 2 \<le> k" using 2(2) by linarith
        have "\<forall>x\<in>set_option (nextChild (mark V m c)). x < n \<and> rep (mark V m) x = r"
        proof
          fix x assume "x \<in> set_option (nextChild (mark V m c))"
          then have "x \<in> chain_ptrs (m c)" by (simp add: chain_ptrs_def)
          then have x: "x < n" "rep m x = rep m c" using 2(3) c(1) unfolding dfs_ready_def chained_def by blast+
          then show "x < n \<and> rep (mark V m) x = r" using M(2) [OF x(1)] c(2) by simp
        qed
        from Suc.IH(2) [OF this fuel M(1)]
        obtain W where W: "dfs_result (mark V m) n r (dfs_children k (nextChild (mark V m c)) (mark V m)) W"
          by blast
        then obtain us where us: "dfs_children k (nextChild (mark V m c)) (mark V m) = Some (us, mark W (mark V m))"
          unfolding dfs_result_def by blast
        from dfs_result_append(1) [OF 2(3) V(1) [unfolded ts] W [unfolded us]]
        have "dfs_result m n r (dfs_children (Suc k) b m) (V \<union> W)"
          using ts us Some False by simp
        then show ?thesis by blast
      qed
    qed
  }
qed

text \<open>The reached states are ready for the traversal.\<close>

lemma any_inv_ready:
  assumes "any_inv ps st"
  shows "dfs_ready (m_nodes (dsjset st)) (length ps)"
  using assms by (auto simp: any_inv_def ds_state_def ds_inv_def dfs_ready_def holds_point_def)

text \<open>Rules for running the loops of \<open>FindSet\<close> on a concrete array.\<close>

lemma find_root_stop: "parent (m i) = None \<Longrightarrow> find_root m i = Some i"
  by (subst find_root.simps) simp

lemma find_root_up: "parent (m i) = Some p \<Longrightarrow> find_root m i = find_root m p"
  by (subst find_root.simps) simp

lemma compress_stop: "c = r \<or> parent (m c) = Some r \<Longrightarrow> compress m r c = Some m"
  by (subst compress.simps) auto

lemma compress_up:
  "c \<noteq> r \<Longrightarrow> parent (m c) \<noteq> Some r \<Longrightarrow> parent (m c) = Some nxt \<Longrightarrow>
     compress m r c = compress (append_child r c (set_parent c r m)) r nxt"
  by (subst compress.simps) auto

lemmas run_sets = find_root_stop find_root_up compress_stop compress_up FindSet_def unionSet_def
  append_child_def set_parent_def InsertElement_def init_dsjset_def any_candidate_def Let_def

section \<open>Properties\<close>

text \<open>C7. SGB-Any with a distance above 0 reads any input of at most 3,000,000 points without a failed assertion or a loop, and never
  puts two points into one set that are not connected by steps between adjacent points. Up to
  thirteen points (the searches see a tree of one leaf) the sets are exactly the connected
  components. Adjacent means: within \<open>EPS\<close> in both coordinates, or, in metric 2, at a
  Euclidean distance below \<open>EPS + 1\<close>, since the code truncates the distance.\<close>

theorem SGBANY_components:
  assumes "any_plan node" "any_start st" "list_all2 slot_point ss ps" "length ss \<le> 3000000"
  shows "\<exists>st'. any_input node st ss = Some st' \<and> num_elements (dsjset st') = length ss \<and>
     (\<forall>i<length ss. \<forall>j<length ss. any_rep st' i = any_rep st' j \<longrightarrow>
        (i, j) \<in> eqc (any_edges (any_metric node) (distanceany node) ps)) \<and>
     (length ss \<le> 13 \<longrightarrow> (\<forall>i<length ss. \<forall>j<length ss. any_rep st' i = any_rep st' j \<longleftrightarrow>
        (i, j) \<in> eqc (any_edges (any_metric node) (distanceany node) ps)))"
proof -
  let ?A = "any_edges (any_metric node) (distanceany node)"
  have len: "length ps = length ss" using list_all2_lengthD [OF assms(3)] by simp
  have "{} = ?A []" by (simp add: any_edges_def)
  then obtain st' F where r: "any_input node st ss = Some st'" "any_inv ps st'"
    "classes st' (length ss) F" "F \<subseteq> ?A ps" "length ss \<le> 13 \<longrightarrow> F = ?A ps"
    using any_run [OF assms(1,3) any_start_inv(1) [OF assms(2)], of "{}"] any_start_inv(2,3) [OF assms(2)] assms(4) len
    by auto
  have c: "any_rep st' i = any_rep st' j \<longleftrightarrow> (i, j) \<in> eqc F" if "i < length ss" "j < length ss" for i j
    using r(3) that by (simp add: classes_def)
  show ?thesis
  proof (intro exI [of _ st'] conjI)
    show "num_elements (dsjset st') = length ss" using r(2) len by (simp add: any_inv_def)
    show "\<forall>i<length ss. \<forall>j<length ss. any_rep st' i = any_rep st' j \<longrightarrow> (i, j) \<in> eqc (?A ps)"
      using c eqc_mono [OF r(4)] by blast
    show "length ss \<le> 13 \<longrightarrow> (\<forall>i<length ss. \<forall>j<length ss. any_rep st' i = any_rep st' j \<longleftrightarrow> (i, j) \<in> eqc (?A ps))"
      using c r(5) by simp
  qed (rule r(1))
qed

lemma SGBANY_components_witness:
  "let node = demo_plan 2 (-1); ss = [slot_of [1, 2], slot_of [7, 9]]; ps = [(1, 2), (7, 9)] in
   \<exists>st'. any_input node (demo_state :: unit AggState) ss = Some st' \<and> num_elements (dsjset st') = length ss \<and>
     (\<forall>i<length ss. \<forall>j<length ss. any_rep st' i = any_rep st' j \<longrightarrow>
        (i, j) \<in> eqc (any_edges (any_metric node) (distanceany node) ps)) \<and>
     (length ss \<le> 13 \<longrightarrow> (\<forall>i<length ss. \<forall>j<length ss. any_rep st' i = any_rep st' j \<longleftrightarrow>
        (i, j) \<in> eqc (any_edges (any_metric node) (distanceany node) ps)))"
  unfolding Let_def
proof (rule SGBANY_components)
  show "any_start (demo_state :: unit AggState)" by (auto simp: any_start_def demo_state_def)
qed (simp_all add: any_plan_def demo_plan_def slot_point_def slot2_def slot_of_def pt_ok_def)

text \<open>C30. The traversal of a set always ends within \<open>2 n + 2\<close> nested calls, marks only elements
  of the set it starts in, and hands each marked element's tuple to the aggregates once.\<close>

theorem DFS_stays_in_set:
  assumes "dfs_ready m n" "i < n"
  shows "\<exists>V ts. DFS_oneSet (2 * n + 2) i m = Some (ts, mark V m) \<and> V \<subseteq> unvisited m n \<and>
     (\<forall>j\<in>V. rep m j = rep m i) \<and> mset ts = image_mset (\<lambda>i. the (data (m i))) (mset_set V) \<and>
     (visited (m i) = 0 \<longrightarrow> i \<in> V)"
proof -
  have "card (unvisited m n) \<le> card {..<n}" by (rule card_mono) (auto simp: unvisited_def)
  then have "2 * card (unvisited m n) + 1 \<le> 2 * n + 2" by simp
  with DFS_ok(1) [OF assms] obtain V where
    V: "dfs_result m n (rep m i) (DFS_oneSet (2 * n + 2) i m) V" "visited (m i) = 0 \<longrightarrow> i \<in> V"
    by blast
  then obtain ts where ts: "DFS_oneSet (2 * n + 2) i m = Some (ts, mark V m)"
    "mset ts = image_mset (\<lambda>i. the (data (m i))) (mset_set V)" by (auto simp: dfs_result_def)
  show ?thesis
    by (intro exI [of _ V] exI [of _ ts] conjI ts V(2)) (use V(1) in \<open>auto simp: dfs_result_def\<close>)
qed

lemma DFS_stays_in_set_witness:
  "\<exists>V ts. DFS_oneSet (2 * 2 + 2) 1 (m_nodes two_elements) = Some (ts, mark V (m_nodes two_elements)) \<and>
     V \<subseteq> unvisited (m_nodes two_elements) 2 \<and>
     (\<forall>j\<in>V. rep (m_nodes two_elements) j = rep (m_nodes two_elements) 1) \<and>
     mset ts = image_mset (\<lambda>i. the (data (m_nodes two_elements i))) (mset_set V) \<and>
     (visited (m_nodes two_elements 1) = 0 \<longrightarrow> 1 \<in> V)"
proof (rule DFS_stays_in_set)
  have "chain_ptrs (m_nodes two_elements i) = {}" if "i < 2" for i
    using that by (auto simp: two_elements_def InsertElement_def init_dsjset_def chain_ptrs_def less_2_cases_iff)
  then have "chained (m_nodes two_elements) 2" by (simp add: chained_def)
  moreover have "ds_ok (m_nodes two_elements) 2" using two_elements_inv(1,2) by (simp add: ds_inv_def)
  moreover have "data (m_nodes two_elements i) \<noteq> None \<and> visited (m_nodes two_elements i) \<le> 1" if "i < 2" for i
    using that by (auto simp: two_elements_def InsertElement_def init_dsjset_def less_2_cases_iff)
  ultimately show "dfs_ready (m_nodes two_elements) 2" unfolding dfs_ready_def by blast
qed simp

text \<open>The disjoint sets after tuples that are entered in turn, each with the ids its search
  reports (metric 1, \<open>EPS\<close> 10).\<close>

fun enter_all :: "(int \<times> int \<times> int list) list \<Rightarrow> nat \<Rightarrow> DisJointSets \<Rightarrow> DisJointSets option" where
  "enter_all [] i d = Some d"
| "enter_all ((x, y, ids) # r) i d =
     (case any_join 1 10 (two_tuple x y) ids (int i) (fst (InsertElement (two_tuple x y) i d)) of
        None \<Rightarrow> None
      | Some (w, d') \<Rightarrow> enter_all r (Suc i) d')"

text \<open>The traversal can miss tuples: path compression and union link an element into a
  second child list with the same \<open>nextChild\<close> field, which cuts the list it was in. Of six
  points with \<open>EPS = 10\<close>, all in one set with root 1, the traversal from the root reaches
  five; (6, 9) is in no group.\<close>

theorem DFS_misses_tuple:
  "map_option (\<lambda>d. (map (rep (m_nodes d)) [0..<6], map_option (\<lambda>r. map vals (fst r)) (DFS_oneSet 14 1 (m_nodes d))))
     (enter_all [(0, 0, []), (12, 0, []), (-2, 0, [1]), (20, 0, [2]), (6, 9, [1, 2, 3]), (6, -9, [1, 2, 3])]
        0 (init_dsjset (\<lambda>_. blank_element)))
   = Some ([1, 1, 1, 1, 1, 1], Some [[12, 0], [20, 0], [0, 0], [-2, 0], [6, -9]])"
proof -
  have "[0..<6::nat] = [0, 1, 2, 3, 4, 5]" by (simp add: upt_rec)
  moreover have "(14::nat) = Suc (Suc (Suc (Suc (Suc (Suc (Suc (Suc (Suc (Suc (Suc (Suc (Suc (Suc 0)))))))))))))" by simp
  ultimately show ?thesis
    by (simp only: list.map) (simp add: run_sets blank_element_def two_tuple_def rep_def)
qed

end
