(* ===== verification/SGBAllL2.thy ===== *)
theory SGBAllL2
  imports SGBAll
begin

text \<open>
  The handlers of metric 2 under ANY and ELIMINATE, \<open>agg_fill_hash_table_overlap_random_l2\<close> and
  \<open>_eliminated_l2\<close>: whatever the hull tests say, a tuple only joins a group whose box admits it,
  and the state stays consistent. The parameter \<open>acos\<close> only enters the hulls.
\<close>

section \<open>The abstract steps\<close>

text \<open>ANY: a tuple no hull accepts starts a group, or is lost when its key is in use.\<close>

inductive l2_any :: "int \<Rightarrow> sgroup list \<Rightarrow> slot \<Rightarrow> sgroup list \<Rightarrow> bool" for EPS where
  l2_join: "i < length gs \<Longrightarrow> admits EPS (gs ! i) (point_of s) \<Longrightarrow>
    l2_any EPS gs s (gs[i := joined s (gs ! i)])"
| l2_new: "take 2 s \<notin> set (map gkey gs) \<Longrightarrow> l2_any EPS gs s (gs @ [alone s])"
| l2_lost: "take 2 s \<in> set (map gkey gs) \<Longrightarrow> l2_any EPS gs s gs"

text \<open>ELIMINATE: the keys are random, so a state has keys of its own.\<close>

type_synonym keyed_groups = "slot list \<times> sgroup list"

inductive l2_elim :: "int \<Rightarrow> keyed_groups \<Rightarrow> slot \<Rightarrow> keyed_groups \<Rightarrow> bool" for EPS where
  l2e_join: "i < length gs \<Longrightarrow> admits EPS (gs ! i) (point_of s) \<Longrightarrow>
    l2_elim EPS (keys, gs) s (keys, gs[i := joined s (gs ! i)])"
| l2e_new: "key \<notin> set keys \<Longrightarrow> l2_elim EPS (keys, gs) s (keys @ [key], gs @ [alone s])"
| l2e_lost: "keys \<noteq> [] \<Longrightarrow> l2_elim EPS (keys, gs) s (keys, gs)"
| l2e_drop: "J \<subseteq> {j. j < length gs \<and> admits EPS (gs ! j) (point_of s)} \<Longrightarrow> 2 \<le> card J \<Longrightarrow> card J \<le> 3 \<Longrightarrow>
    l2_elim EPS (keys, gs) s (keys, narrow (point_of s) J gs)"

lemma l2_any_length: "l2_any EPS gs s gs' \<Longrightarrow> length gs' \<le> Suc (length gs)"
  by (induction rule: l2_any.induct) (simp_all (no_asm))

lemma l2_elim_length: "l2_elim EPS kgs s kgs' \<Longrightarrow> length (snd kgs') \<le> Suc (length (snd kgs))"
  by (induction rule: l2_elim.induct) (simp_all (no_asm))

section \<open>Hulls and boxes\<close>

text \<open>The hulls are no part of the invariant.\<close>

lemma hull_update_ok:
  assumes "all_inv node init advance keys gs st" "i < length gs"
  shows "all_inv node init advance keys gs (update_entry (keys ! i) (\<lambda>e. e\<lparr>convex_ptr := h e\<rparr>) st)"
proof -
  have "all_inv node init advance keys (gs[i := gs ! i]) (update_entry (keys ! i) (\<lambda>e. e\<lparr>convex_ptr := h e\<rparr>) st)"
    by (rule update_ok [OF assms]) (simp add: group_entry_def)
  then show ?thesis by simp
qed

lemma hull_update_cond:
  assumes "all_inv node init advance keys gs st" "i < length gs"
  shows "all_inv node init advance keys gs
    (update_entry (keys ! i) (\<lambda>e. if P e then e\<lparr>convex_ptr := h e\<rparr> else e) st)"
proof -
  have "all_inv node init advance keys (gs[i := gs ! i])
      (update_entry (keys ! i) (\<lambda>e. if P e then e\<lparr>convex_ptr := h e\<rparr> else e) st)"
    by (rule update_ok [OF assms]) (simp add: group_entry_def)
  then show ?thesis by simp
qed

lemma start_used:
  assumes inv: "all_inv node init advance keys gs st" and used: "hash_key node keyslot \<in> set keys"
  shows "start_group node init advance put_hull s keyslot st = Some st"
proof -
  obtain i where i: "i < length gs" "hash_key node keyslot = keys ! i"
    using used inv by (auto simp: all_inv_def in_set_conv_nth)
  obtain e where e: "hashtable st (keys ! i) = Some e" "group_entry node init advance (gs ! i) e"
    using inv_group [OF inv i(1)] by blast
  have "flagEnabled e \<noteq> 0" using e(2) by (simp add: group_entry_def)
  then show ?thesis using e(1) i(2)
    by (simp add: start_group_def lookup_hash_entry_def)
qed

definition hits_ok :: "int \<Rightarrow> sgroup list \<Rightarrow> int \<times> int \<Rightarrow> nat list \<Rightarrow> bool" where
  "hits_ok EPS gs p hs \<longleftrightarrow> (\<forall>h\<in>set hs. 1 \<le> h \<and> h \<le> length gs \<and> admits EPS (gs ! (h - 1)) p)"

lemma random_l2_run:
  assumes plan: "all_plan node" and s: "slot_ok s"
  shows "all_inv node init advance keys gs st \<Longrightarrow> hits_ok (distanceall node) gs (point_of s) hs \<Longrightarrow>
    \<exists>b st'. random_l2_loop acos node init advance s (map int hs) st = Some (b, st') \<and>
     (if b then \<exists>i<length gs. admits (distanceall node) (gs ! i) (point_of s) \<and>
              all_inv node init advance keys (gs[i := joined s (gs ! i)]) st'
      else all_inv node init advance keys gs st')"
proof (induction hs arbitrary: st)
  case Nil
  then show ?case by auto
next
  case (Cons h hs)
  define i where "i = h - 1"
  let ?p = "point_of s"
  have i: "h = Suc i" "i < length gs" "admits (distanceall node) (gs ! i) ?p"
    using Cons.prems(2) by (auto simp: i_def hits_ok_def)
  have hs: "hits_ok (distanceall node) gs ?p hs" using Cons.prems(2) by (simp add: hits_ok_def)
  obtain e where e: "hashtable st (keys ! i) = Some e" "group_entry node init advance (gs ! i) e"
    using inv_group [OF Cons.prems(1) i(2)] by blast
  obtain ov q1 q2 where q:
    "judgeJoinGroup (numCols node) (pivot1Slot e) (pivot2Slot e) s (distanceall node) = (True, ov, q1, q2)"
    "box2 (distanceall node) q1 q2 (insert ?p (snd (gs ! i)))" "length q1 = 5" "length q2 = 5"
    by (rule judge_hit [OF e(2) plan s i(3)])
  define t where "t = input_tuple node st s"
  define v where "v = insideConvexAndInsideBound (convex_ptr e) t (distanceall node)"
  define st2 where "st2 = (if v = 1
    then update_entry (keys ! i) (\<lambda>e. e\<lparr>convex_ptr := map_option (\<lambda>h. unionConvex acos h t) (convex_ptr e)\<rparr>) st
    else st)"
  have inv2: "all_inv node init advance keys gs st2"
    using hull_update_ok [OF Cons.prems(1) i(2)] Cons.prems(1) by (simp add: st2_def)
  have unfolded: "random_l2_loop acos node init advance s (map int (h # hs)) st =
      (if v \<le> 1 then map_option (\<lambda>st3. (True, absorb_tuple advance s (keys ! i) st3))
                      (rebox_entry node (Suc i) (keys ! i) q1 q2 st2)
       else random_l2_loop acos node init advance s (map int hs) st2)"
    unfolding list.map random_l2_loop.simps nat_int i(1) contain_entry_known [OF Cons.prems(1) i(2)]
    by (simp add: e(1) q(1) t_def [symmetric] v_def [symmetric] st2_def Let_def)
  show ?case
  proof (cases "v \<le> 1")
    case True
    obtain st1 where st1: "rebox_entry node (Suc i) (keys ! i) q1 q2 st2 = Some st1"
      "all_inv node init advance keys (gs[i := (fst (gs ! i), insert ?p (snd (gs ! i)))]) st1"
      by (rule rebox_ok [OF inv2 plan i(2) q(2-4) subset_insertI])
    have "all_inv node init advance keys (gs[i := joined s (gs ! i)]) (absorb_tuple advance s (keys ! i) st1)"
      by (rule absorb_joined [OF st1(2) i(2) s])
    then show ?thesis using unfolded True st1(1) i(2,3) by auto
  next
    case False
    then show ?thesis using unfolded Cons.IH [OF inv2 hs] by simp
  qed
qed

lemma random_l2_step:
  assumes inv: "entry_of node init advance gs st" and plan: "all_plan node" and s: "slot_ok s"
  shows "case agg_fill_hash_table_overlap_random_l2 acos node init advance st s of
      None \<Rightarrow> sizeofgroup \<le> length gs
    | Some st' \<Rightarrow> \<exists>gs'. entry_of node init advance gs' st' \<and> l2_any (distanceall node) gs s gs'"
proof -
  let ?p = "point_of s" and ?keys = "map gkey gs"
  have n2: "numCols node = 2" using plan by (simp add: all_plan_def)
  have m: "getMBRinputSlot s (numCols node) = Some (pmbr ?p)" using slot_point_mbr [OF s] n2 by simp
  obtain hits g where h: "contain_search (rtreeroot st) (pmbr ?p) True (globals st) = Some (length hits, g)"
    "contain_ids g = map int hits"
    "set hits \<subseteq> {i. 1 \<le> i \<and> i \<le> length gs \<and> admits (distanceall node) (gs ! (i - 1)) ?p}"
    by (rule all_search [OF inv [unfolded entry_of_def] plan s])
  define st0 where "st0 = st\<lparr>globals := g\<rparr>"
  have inv0: "all_inv node init advance ?keys gs st0"
    using inv by (simp add: st0_def entry_of_def all_inv_globals)
  have hok: "hits_ok (distanceall node) gs ?p hits" using h(3) by (auto simp: hits_ok_def)
  obtain b st1 where r: "random_l2_loop acos node init advance s (map int hits) st0 = Some (b, st1)"
    "if b then \<exists>i<length gs. admits (distanceall node) (gs ! i) ?p \<and>
              all_inv node init advance ?keys (gs[i := joined s (gs ! i)]) st1
      else all_inv node init advance ?keys gs st1"
    using random_l2_run [OF plan s inv0 hok] by blast
  have run: "(if length hits > 0 then random_l2_loop acos node init advance s (contain_ids g) st0
      else Some (False, st0)) = Some (b, st1)"
    using r(1) h(2) by (cases hits) auto
  define put_hull where "put_hull = (\<lambda>h. unionConvex acos h (input_tuple node st1 s))"
  have hand: "agg_fill_hash_table_overlap_random_l2 acos node init advance st s =
      (if b then Some st1 else start_group node init advance put_hull s s st1)"
    by (simp only: agg_fill_hash_table_overlap_random_l2_def m h(1) option.case prod.case run [unfolded st0_def])
      (simp add: put_hull_def split: bool.split)
  show ?thesis
  proof (cases b)
    case True
    then obtain i where i: "i < length gs" "admits (distanceall node) (gs ! i) ?p"
      "all_inv node init advance ?keys (gs[i := joined s (gs ! i)]) st1" using r(2) by auto
    have "entry_of node init advance (gs[i := joined s (gs ! i)]) st1"
      by (rule entry_of_update [OF i(3,1) entry_nonempty [OF inv0 i(1)]])
    then show ?thesis using hand True l2_join [OF i(1,2)] by auto
  next
    case False
    then have inv1: "all_inv node init advance ?keys gs st1" using r(2) by simp
    have key: "hash_key node s = take 2 s" using n2 by (simp add: hash_key_def)
    show ?thesis
    proof (cases "take 2 s \<in> set ?keys")
      case True
      then have "start_group node init advance put_hull s s st1 = Some st1"
        using start_used [OF inv1] key by simp
      moreover have "entry_of node init advance gs st1" using inv1 by (simp add: entry_of_def)
      ultimately show ?thesis using hand False l2_lost [OF True] by auto
    next
      case new: False
      have fresh: "hash_key node s \<notin> set ?keys" using new key by simp
      show ?thesis
        by (rule start_cases [OF inv1 [folded entry_of_def] plan s fresh, of put_hull])
          (use hand False l2_new [OF new] in auto)
    qed
  qed
qed

section \<open>ELIMINATE\<close>

text \<open>The loop narrows the boxes of a set \<open>J\<close> of admitting groups, of which the first is kept.\<close>

lemma elim_l2_loop:
  assumes "all_plan node" "slot_ok s" "J \<subseteq> {..<length gs}"
    "all_inv node init advance keys (narrow (point_of s) J gs) st" "distinct hs"
    "\<forall>h\<in>set hs. 1 \<le> h \<and> h \<le> length gs \<and> h - 1 \<notin> J \<and> admits (distanceall node) (gs ! (h - 1)) (point_of s)"
    "card J \<le> 3" "card J = 0 \<and> tmp = None \<or> (\<exists>i\<in>J. tmp = Some (keys ! i))"
  shows "\<exists>J' st' tmp'. eliminated_l2_loop node init s (map int hs) (card J) tmp st = Some (card J', tmp', st') \<and>
     all_inv node init advance keys (narrow (point_of s) J' gs) st' \<and>
     J' \<subseteq> J \<union> (\<lambda>h. h - 1) ` set hs \<and> card J' \<le> 3 \<and>
     (card J' = 0 \<and> tmp' = None \<or> (\<exists>i\<in>J'. tmp' = Some (keys ! i)))"
  using assms(3-)
proof (induction hs arbitrary: J st tmp)
  case Nil
  then show ?case by (intro exI [of _ J] exI [of _ st] exI [of _ tmp]) simp
next
  case (Cons h hs)
  have fin: "finite J" using Cons.prems(1) by (rule finite_subset) simp
  show ?case
  proof (cases "card J > 2")
    case True
    then show ?thesis using Cons.prems(2,5,6)
      by (intro exI [of _ J] exI [of _ st] exI [of _ tmp]) auto
  next
    case False
    define i where "i = h - 1"
    let ?p = "point_of s" and ?gs = "narrow (point_of s) J gs"
    have i: "h = Suc i" "i < length gs" "i \<notin> J" "admits (distanceall node) (gs ! i) ?p"
      using Cons.prems(4) by (auto simp: i_def)
    have il: "i < length ?gs" and gi: "?gs ! i = gs ! i" using i by simp_all
    obtain e where e: "hashtable st (keys ! i) = Some e" "group_entry node init advance (gs ! i) e"
      using inv_group [OF Cons.prems(2) il] unfolding gi by blast
    obtain ov q1 q2 where q:
      "judgeJoinGroup (numCols node) (pivot1Slot e) (pivot2Slot e) s (distanceall node) = (True, ov, q1, q2)"
      "box2 (distanceall node) q1 q2 (insert ?p (snd (gs ! i)))" "length q1 = 5" "length q2 = 5"
      by (rule judge_hit [OF e(2) assms(1,2) i(4)])
    define ok where "ok = (insideConvexAndInsideBound (convex_ptr e) (input_tuple node st s) (distanceall node) \<le> 1)"
    have dist: "distinct hs" using Cons.prems(3) by simp
    show ?thesis
    proof (cases ok)
      case no: False
      have run: "eliminated_l2_loop node init s (map int (h # hs)) (card J) tmp st
          = eliminated_l2_loop node init s (map int hs) (card J) tmp st"
        unfolding list.map eliminated_l2_loop.simps nat_int i(1) contain_entry_known [OF Cons.prems(2) il]
        using e(1) q(1) False no by (simp add: ok_def)
      have hs1: "\<forall>h\<in>set hs. 1 \<le> h \<and> h \<le> length gs \<and> h - 1 \<notin> J \<and> admits (distanceall node) (gs ! (h - 1)) ?p"
        using Cons.prems(4) by simp
      obtain J' st' tmp' where r: "eliminated_l2_loop node init s (map int hs) (card J) tmp st = Some (card J', tmp', st')"
        "all_inv node init advance keys (narrow ?p J' gs) st'" "J' \<subseteq> J \<union> (\<lambda>h. h - 1) ` set hs" "card J' \<le> 3"
        "card J' = 0 \<and> tmp' = None \<or> (\<exists>i\<in>J'. tmp' = Some (keys ! i))"
        using Cons.IH [OF Cons.prems(1,2) dist hs1 Cons.prems(5,6)] by blast
      show ?thesis
        by (intro exI [of _ J'] exI [of _ st'] exI [of _ tmp'] conjI r(2,4,5)) (use run r(1,3) in auto)
    next
      case yes: True
      have sub: "snd (?gs ! i) \<subseteq> insert ?p (snd (gs ! i))" unfolding gi by blast
      obtain st1 where st1: "rebox_entry node (Suc i) (keys ! i) q1 q2 st = Some st1"
        "all_inv node init advance keys (?gs[i := (fst (?gs ! i), insert ?p (snd (gs ! i)))]) st1"
        by (rule rebox_ok [OF Cons.prems(2) assms(1) il q(2-4) sub])
      have st1': "all_inv node init advance keys (narrow ?p (insert i J) gs) st1"
        using st1(2) narrow_insert [OF i(2,3)] unfolding gi by metis
      have card: "card (insert i J) = card J + 1" using fin i(3) by simp
      define tmp1 where "tmp1 = (if card J = 0 then Some (keys ! i) else tmp)"
      have run: "eliminated_l2_loop node init s (map int (h # hs)) (card J) tmp st
          = eliminated_l2_loop node init s (map int hs) (card (insert i J)) tmp1 st1"
        unfolding list.map eliminated_l2_loop.simps nat_int i(1) contain_entry_known [OF Cons.prems(2) il]
        using e(1) q(1) st1(1) False yes by (simp add: card tmp1_def ok_def)
      have J1: "insert i J \<subseteq> {..<length gs}" using Cons.prems(1) i(2) by simp
      have hs1: "\<forall>h\<in>set hs. 1 \<le> h \<and> h \<le> length gs \<and> h - 1 \<notin> insert i J \<and>
          admits (distanceall node) (gs ! (h - 1)) ?p"
      proof
        fix k assume k: "k \<in> set hs"
        then have "k \<noteq> h" using Cons.prems(3) by auto
        moreover have "1 \<le> k" "k \<le> length gs" "k - 1 \<notin> J" "admits (distanceall node) (gs ! (k - 1)) ?p"
          using Cons.prems(4) k by auto
        ultimately show "1 \<le> k \<and> k \<le> length gs \<and> k - 1 \<notin> insert i J \<and> admits (distanceall node) (gs ! (k - 1)) ?p"
          using i(1) by auto
      qed
      have c1: "card (insert i J) \<le> 3" using card False by simp
      have t1: "card (insert i J) = 0 \<and> tmp1 = None \<or> (\<exists>i\<in>insert i J. tmp1 = Some (keys ! i))"
        using Cons.prems(6) by (auto simp: tmp1_def)
      obtain J' st' tmp' where r: "eliminated_l2_loop node init s (map int hs) (card (insert i J)) tmp1 st1 = Some (card J', tmp', st')"
        "all_inv node init advance keys (narrow ?p J' gs) st'" "J' \<subseteq> insert i J \<union> (\<lambda>h. h - 1) ` set hs" "card J' \<le> 3"
        "card J' = 0 \<and> tmp' = None \<or> (\<exists>i\<in>J'. tmp' = Some (keys ! i))"
        using Cons.IH [OF J1 st1' dist hs1 c1 t1] by blast
      show ?thesis
        by (intro exI [of _ J'] exI [of _ st'] exI [of _ tmp'] conjI r(2,4,5)) (use run r(1,3) i(1) in auto)
    qed
  qed
qed

text \<open>The state under ELIMINATE and metric 2, where the keys of the groups are random.\<close>

definition keyed_entry :: "Agg_plan \<Rightarrow> 'a \<Rightarrow> (slot \<Rightarrow> 'a \<Rightarrow> 'a) \<Rightarrow> keyed_groups \<Rightarrow> 'a AggState \<Rightarrow> bool" where
  "keyed_entry node init advance kgs st \<longleftrightarrow> all_inv node init advance (fst kgs) (snd kgs) st"

lemma rand_inv:
  "all_inv node init advance keys gs (st\<lparr>rand_seq := r\<rparr>) = all_inv node init advance keys gs st"
  by (rule all_inv_cong) simp_all

lemma random_keys_inv:
  assumes "random_key_values a b1 b2 node st = (vs, rs, st')"
  shows "all_inv node init advance keys gs st' = all_inv node init advance keys gs st"
    "length vs = numCols node" "length rs = numCols node"
  using assms by (auto simp: random_key_values_def Let_def rand_def rand_inv split: if_splits)

lemma modify_point:
  assumes "slot_ok s" "length s = 2" "length vs = 2" "length rs = 2"
  obtains m where "heap_modify_tuple s vs (replicate 2 False) rs = Some m"
  using assms by (simp add: heap_modify_tuple_def)

text \<open>The candidates of a tuple and the loop over them, and the group that a tuple without candidates starts.\<close>

lemma eliminated_l2_hits:
  assumes inv: "all_inv node init advance keys gs st" and plan: "all_plan node" and s: "slot_ok s"
  obtains J st1 tmp where
    "agg_fill_hash_table_overlap_eliminated_l2 acos node init advance st s =
      (let p = input_tuple node st1 s in
       if card J = 1
       then map_option (\<lambda>key. absorb_tuple advance s key
              (update_entry key (\<lambda>e. if insideConvexAndInsideBound (convex_ptr e) p (distanceall node) = 1
                then e\<lparr>convex_ptr := map_option (\<lambda>h. unionConvex acos h p) (convex_ptr e)\<rparr> else e) st1)) tmp
       else if card J = 0
       then (case l2_key_values node st1 of (vs, rs, st2) \<Rightarrow>
              case heap_modify_tuple s vs (replicate (numCols node) False) rs of
                None \<Rightarrow> None
              | Some ms \<Rightarrow> start_group node init advance (\<lambda>h. unionConvex acos h p) s ms st2)
       else Some st1)"
    "all_inv node init advance keys (narrow (point_of s) J gs) st1"
    "J \<subseteq> {j. j < length gs \<and> admits (distanceall node) (gs ! j) (point_of s)}" "card J \<le> 3"
    "card J = 0 \<and> tmp = None \<or> (\<exists>i\<in>J. tmp = Some (keys ! i))"
proof -
  let ?p = "point_of s"
  have m: "getMBRinputSlot s (numCols node) = Some (pmbr ?p)"
    using slot_point_mbr [OF s] plan by (simp add: all_plan_def)
  obtain hits g where h: "contain_search (rtreeroot st) (pmbr ?p) False (globals st) = Some (length hits, g)"
    "contain_ids g = map int hits" "distinct hits"
    "set hits \<subseteq> {i. 1 \<le> i \<and> i \<le> length gs \<and> admits (distanceall node) (gs ! (i - 1)) ?p}"
    by (rule all_search [OF inv plan s])
  define st0 where "st0 = st\<lparr>globals := g\<rparr>"
  have inv0: "all_inv node init advance keys (narrow ?p {} gs) st0"
    using inv by (simp add: st0_def all_inv_globals)
  have hok: "\<forall>h\<in>set hits. 1 \<le> h \<and> h \<le> length gs \<and> h - 1 \<notin> {} \<and> admits (distanceall node) (gs ! (h - 1)) ?p"
    using h(4) by auto
  obtain J st1 tmp where L: "eliminated_l2_loop node init s (map int hits) 0 None st0 = Some (card J, tmp, st1)"
    "all_inv node init advance keys (narrow ?p J gs) st1" "J \<subseteq> (\<lambda>h. h - 1) ` set hits" "card J \<le> 3"
    "card J = 0 \<and> tmp = None \<or> (\<exists>i\<in>J. tmp = Some (keys ! i))"
    using elim_l2_loop [OF plan s _ inv0 h(3) hok, of None] by auto
  have Jadm: "J \<subseteq> {j. j < length gs \<and> admits (distanceall node) (gs ! j) ?p}"
  proof
    fix j assume "j \<in> J"
    then obtain k where k: "k \<in> set hits" "j = k - 1" using L(3) by blast
    then have "1 \<le> k" "k \<le> length gs" "admits (distanceall node) (gs ! (k - 1)) ?p" using h(4) by auto
    then show "j \<in> {j. j < length gs \<and> admits (distanceall node) (gs ! j) ?p}" using k(2) by auto
  qed
  have run: "(if length hits > 0 then eliminated_l2_loop node init s (contain_ids g) 0 None st0 else Some (0, None, st0))
      = Some (card J, tmp, st1)"
    using L(1) h(2) by (cases hits) auto
  note hand = agg_fill_hash_table_overlap_eliminated_l2_def [of acos node init advance st s,
      unfolded m h(1) option.case prod.case, folded st0_def, unfolded run option.case prod.case]
  show thesis by (rule that [OF hand L(2) Jadm L(4,5)])
qed

lemma eliminated_l2_start:
  assumes inv: "all_inv node init advance keys gs st" and plan: "all_plan node" and s: "slot_ok s" and len: "length s = 2"
    and v: "l2_key_values node st = (vs, rs, st2)"
  shows "case (case heap_modify_tuple s vs (replicate (numCols node) False) rs of
        None \<Rightarrow> None | Some ms \<Rightarrow> start_group node init advance put_hull s ms st2) of
      None \<Rightarrow> sizeofgroup \<le> length gs
    | Some st' \<Rightarrow> \<exists>kgs'. keyed_entry node init advance kgs' st' \<and> l2_elim (distanceall node) (keys, gs) s kgs'"
proof -
  have n2: "numCols node = 2" using plan by (simp add: all_plan_def)
  note v' = random_keys_inv [OF v [unfolded l2_key_values_def]]
  have inv2: "all_inv node init advance keys gs st2" using inv v'(1) by simp
  obtain ms where ms: "heap_modify_tuple s vs (replicate (numCols node) False) rs = Some ms"
    using modify_point [OF s len, of vs rs] v'(2,3) n2 by auto
  show ?thesis
  proof (cases "hash_key node ms \<in> set keys")
    case True
    then have "keys \<noteq> []" by auto
    then show ?thesis using ms start_used [OF inv2 True] inv2 l2e_lost [of keys "distanceall node" gs s]
      by (auto simp: keyed_entry_def)
  next
    case fresh: False
    show ?thesis
    proof (cases "length gs < sizeofgroup")
      case True
      obtain st' where "start_group node init advance put_hull s ms st2 = Some st'"
        "all_inv node init advance (keys @ [hash_key node ms]) (gs @ [([s], {point_of s})]) st'"
        by (rule start_ok [OF inv2 plan s fresh True])
      then show ?thesis using ms l2e_new [OF fresh, of "distanceall node" gs s]
        by (auto simp: keyed_entry_def alone_def)
    next
      case False
      then show ?thesis using ms start_full [OF inv2 fresh] by simp
    qed
  qed
qed

lemma eliminated_l2_step:
  assumes inv: "keyed_entry node init advance kgs st" and plan: "all_plan node"
    and s: "slot_ok s" and len: "length s = 2"
  shows "case agg_fill_hash_table_overlap_eliminated_l2 acos node init advance st s of
      None \<Rightarrow> sizeofgroup \<le> length (snd kgs)
    | Some st' \<Rightarrow> \<exists>kgs'. keyed_entry node init advance kgs' st' \<and> l2_elim (distanceall node) kgs s kgs'"
proof -
  obtain keys gs where kgs: "kgs = (keys, gs)" by fastforce
  have inv: "all_inv node init advance keys gs st" using assms(1) by (simp add: keyed_entry_def kgs)
  let ?p = "point_of s"
  obtain J st1 tmp where hand: "agg_fill_hash_table_overlap_eliminated_l2 acos node init advance st s =
      (let p = input_tuple node st1 s in
       if card J = 1
       then map_option (\<lambda>key. absorb_tuple advance s key
              (update_entry key (\<lambda>e. if insideConvexAndInsideBound (convex_ptr e) p (distanceall node) = 1
                then e\<lparr>convex_ptr := map_option (\<lambda>h. unionConvex acos h p) (convex_ptr e)\<rparr> else e) st1)) tmp
       else if card J = 0
       then (case l2_key_values node st1 of (vs, rs, st2) \<Rightarrow>
              case heap_modify_tuple s vs (replicate (numCols node) False) rs of
                None \<Rightarrow> None
              | Some ms \<Rightarrow> start_group node init advance (\<lambda>h. unionConvex acos h p) s ms st2)
       else Some st1)"
    and L: "all_inv node init advance keys (narrow ?p J gs) st1" "J \<subseteq> {j. j < length gs \<and> admits (distanceall node) (gs ! j) ?p}"
      "card J \<le> 3" "card J = 0 \<and> tmp = None \<or> (\<exists>i\<in>J. tmp = Some (keys ! i))"
    by (rule eliminated_l2_hits [OF inv plan s])
  have finJ: "finite J" using L(2) by (rule finite_subset) simp
  define p where "p = input_tuple node st1 s"
  consider (none) "card J = 0" | (one) "card J = 1" | (more) "2 \<le> card J" by linarith
  then show ?thesis
  proof cases
    case none
    then have inv1: "all_inv node init advance keys gs st1" using finJ L(1) by simp
    obtain vs rs st2 where v: "l2_key_values node st1 = (vs, rs, st2)" by (cases "l2_key_values node st1") auto
    show ?thesis
      using eliminated_l2_start [OF inv1 plan s len v, of "\<lambda>h. unionConvex acos h (input_tuple node st1 s)"] hand none v
      unfolding kgs snd_conv by simp
  next
    case one
    then obtain i where J: "J = {i}" by (auto simp: card_1_singleton_iff)
    have i: "i < length gs" "admits (distanceall node) (gs ! i) ?p" using L(2) J by auto
    have tmp: "tmp = Some (keys ! i)" using L(4) one J by auto
    have "narrow ?p {i} gs = gs[i := (fst (gs ! i), insert ?p (snd (gs ! i)))]"
      using narrow_insert [OF i(1), of "{}" ?p] by simp
    then have inv1: "all_inv node init advance keys (gs[i := (fst (gs ! i), insert ?p (snd (gs ! i)))]) st1"
      using L(1) J by simp
    define st2 where "st2 = update_entry (keys ! i) (\<lambda>e.
        if insideConvexAndInsideBound (convex_ptr e) p (distanceall node) = 1
        then e\<lparr>convex_ptr := map_option (\<lambda>h. unionConvex acos h p) (convex_ptr e)\<rparr> else e) st1"
    have "all_inv node init advance keys (gs[i := (fst (gs ! i), insert ?p (snd (gs ! i)))]) st2"
      unfolding st2_def by (rule hull_update_cond [OF inv1]) (simp add: i(1))
    from absorb_joined [OF this i(1) s]
    have "keyed_entry node init advance (keys, gs[i := joined s (gs ! i)]) (absorb_tuple advance s (keys ! i) st2)"
      by (simp add: keyed_entry_def)
    moreover have "agg_fill_hash_table_overlap_eliminated_l2 acos node init advance st s =
        Some (absorb_tuple advance s (keys ! i) st2)"
      unfolding hand by (simp add: one tmp st2_def p_def Let_def cong: if_cong)
    ultimately show ?thesis using l2e_join [OF i] kgs by auto
  next
    case more
    then have "agg_fill_hash_table_overlap_eliminated_l2 acos node init advance st s = Some st1"
      unfolding hand by (simp add: Let_def)
    then show ?thesis using L(1) l2e_drop [OF L(2) more L(3)] kgs by (auto simp: keyed_entry_def)
  qed
qed

end
