(* ===== verification/SGBToAll.thy ===== *)
theory SGBToAll
  imports SGBNewGroup SGBAny SGBAllL2
begin

text \<open>
  The SGB-All operator as a whole, \<^verbatim>\<open>executor/nodeAgg.c\<close>: the dispatch of
  \<open>agg_fill_hash_table_SGBTOAll\<close> over metric and overlap semantics with its input loop, and the rows
  that \<open>agg_retrieve_hash_table\<close> returns. Proved: for every input that fits into the
  cells of \<open>hasharray\<close> the groups of ANY are a partition of it into cliques of the \<open>EPS\<close> neighbourhood, and the rows the operator returns are the aggregates
  of these groups; the groups of ELIMINATE are disjoint cliques, and what is left out fits
  several groups. With the distance 0 there is no \<open>hasharray\<close>, and points that need more groups than it
  has cells are written past its end.
\<close>

section \<open>The operator\<close>

text \<open>One turn of the input loop. A metric or overlap value without a branch is ignored. Every
  handler begins with a search of the tree: \<open>None\<close> when the node has none.\<close>

definition sgb_all_tuple :: "(real \<Rightarrow> real option) \<Rightarrow> Agg_plan \<Rightarrow> 'a \<Rightarrow> (slot \<Rightarrow> 'a \<Rightarrow> 'a) \<Rightarrow> 'a AggState \<Rightarrow> slot \<Rightarrow>
    'a AggState option" where
  "sgb_all_tuple acos node init advance st s =
     (if \<not> rtree_set st \<and> overlap node \<in> {1, 2, 3} then None
      else if metric node = 1 \<or> numCols node = 1
      then if overlap node = 1 then agg_fill_hash_table_overlap_random_l1 node init advance st s
           else if overlap node = 2 then agg_fill_hash_table_overlap_newgroup_l1 node init st s
           else if overlap node = 3 then agg_fill_hash_table_overlap_eliminated_l1 node init advance st s
           else Some st
      else if (metric node = 2 \<or> metric node = -1) \<and> numCols node \<ge> 2
      then if overlap node = 1 then agg_fill_hash_table_overlap_random_l2 acos node init advance st s
           else if overlap node = 2 then agg_fill_hash_table_overlap_newgroup_l2 acos node init st s
           else if overlap node = 3 then agg_fill_hash_table_overlap_eliminated_l2 acos node init advance st s
           else Some st
      else Some st)"

fun read_input :: "('s \<Rightarrow> slot \<Rightarrow> 's option) \<Rightarrow> ('s \<Rightarrow> 's) \<Rightarrow> 's \<Rightarrow> slot list \<Rightarrow> 's option" where
  "read_input handle tally st [] = Some st"
| "read_input handle tally st (s # ss) =
     (case handle st s of None \<Rightarrow> None | Some st1 \<Rightarrow> read_input handle tally (tally st1) ss)"

definition count_tuple :: "'a AggState \<Rightarrow> 'a AggState" where
  "count_tuple st = st\<lparr>numbertuples := numbertuples st + 1\<rparr>"

definition sgb_all_input :: "(real \<Rightarrow> real option) \<Rightarrow> Agg_plan \<Rightarrow> 'a \<Rightarrow> (slot \<Rightarrow> 'a \<Rightarrow> 'a) \<Rightarrow> 'a AggState \<Rightarrow> slot list \<Rightarrow>
    'a AggState option" where
  "sgb_all_input acos node init advance = read_input (sgb_all_tuple acos node init advance) count_tuple"

text \<open>The first tuple is copied into the buffer slot. The groups of NEW-GROUP are aggregated only
  after more than two tuples.\<close>

definition agg_fill_hash_table_SGBTOAll :: "((slot \<Rightarrow> 'a AggHashEntry option) \<Rightarrow> slot list) \<Rightarrow> (real \<Rightarrow> real option) \<Rightarrow>
    Agg_plan \<Rightarrow> 'a \<Rightarrow> (slot \<Rightarrow> 'a \<Rightarrow> 'a) \<Rightarrow> 'a AggState \<Rightarrow> slot list \<Rightarrow> 'a AggState option" where
  "agg_fill_hash_table_SGBTOAll scan acos node init advance st ss =
     (case sgb_all_input acos node init advance
         (case ss of [] \<Rightarrow> st | s # _ \<Rightarrow> st\<lparr>buffer_slot := s\<rparr>) ss of
        None \<Rightarrow> None
      | Some st1 \<Rightarrow>
          if overlap node = 2 \<and> numbertuples st1 > 2
          then sgb_newgroup_helper scan node init advance st1
          else Some st1)"

section \<open>Reading an input\<close>

text \<open>A handler that refines an abstract step, or fails because all cells are in use, keeps doing
  so over a whole input. \<open>used\<close> counts the cells of a state, at most one more with every tuple, so
  an input of at most \<open>limit\<close> tuples is read to its end.\<close>

locale refined_reader =
  fixes handle :: "'s \<Rightarrow> slot \<Rightarrow> 's option" and tally :: "'s \<Rightarrow> 's" and inv :: "'g \<Rightarrow> 's \<Rightarrow> bool"
    and abs_step :: "'g \<Rightarrow> slot \<Rightarrow> 'g \<Rightarrow> bool" and ok :: "slot \<Rightarrow> bool" and used :: "'g \<Rightarrow> nat" and limit :: nat
  assumes step: "inv g st \<Longrightarrow> ok s \<Longrightarrow>
      case handle st s of None \<Rightarrow> limit \<le> used g | Some st' \<Rightarrow> \<exists>g'. inv g' st' \<and> abs_step g s g'"
    and grows: "abs_step g s g' \<Longrightarrow> used g' \<le> Suc (used g)"
    and counted: "inv g st \<Longrightarrow> inv g (tally st)"
begin

lemma runs_from:
  "inv g st \<Longrightarrow> reads abs_step g0 before g \<Longrightarrow> list_all ok ss \<Longrightarrow>
     case read_input handle tally st ss of
       None \<Rightarrow> limit < used g + length ss
     | Some st' \<Rightarrow> \<exists>g'. inv g' st' \<and> reads abs_step g0 (before @ ss) g'"
proof (induction ss arbitrary: st g before)
  case Nil
  then show ?case by auto
next
  case (Cons s ss)
  have ok: "ok s" and ss: "list_all ok ss" using Cons.prems(3) by simp_all
  show ?case
  proof (cases "handle st s")
    case None
    then show ?thesis using step [OF Cons.prems(1) ok] by simp
  next
    case (Some st1)
    then obtain g1 where 1: "inv g1 st1" "abs_step g s g1" using step [OF Cons.prems(1) ok] by auto
    have "used g1 + length ss \<le> used g + length (s # ss)" using grows [OF 1(2)] by simp
    then show ?thesis
      using Cons.IH [OF counted [OF 1(1)] reads_snoc [OF Cons.prems(2) 1(2)] ss] Some
      by (auto split: option.splits)
  qed
qed

lemma runs_to:
  assumes "inv g st" "list_all ok ss" "read_input handle tally st ss = Some st'"
  obtains g' where "inv g' st'" "reads abs_step g ss g'"
  using runs_from [OF assms(1) reads_nil assms(2)] assms(3) by auto

lemma runs:
  assumes "inv g st" "list_all ok ss" "used g + length ss \<le> limit"
  obtains st' g' where "read_input handle tally st ss = Some st'" "inv g' st'" "reads abs_step g ss g'"
  using runs_from [OF assms(1) reads_nil assms(2)] assms(3) by (auto split: option.splits)

end

definition any_l1_inv :: "Agg_plan \<Rightarrow> 'a \<Rightarrow> (slot \<Rightarrow> 'a \<Rightarrow> 'a) \<Rightarrow> sgroup list \<Rightarrow> 'a AggState \<Rightarrow> bool" where
  "any_l1_inv node init advance gs st \<longleftrightarrow> all_plan node \<and> metric node = 1 \<and> overlap node = 1 \<and>
     entry_of node init advance gs st"

definition elim_l1_inv :: "Agg_plan \<Rightarrow> 'a \<Rightarrow> (slot \<Rightarrow> 'a \<Rightarrow> 'a) \<Rightarrow> sgroup list \<Rightarrow> 'a AggState \<Rightarrow> bool" where
  "elim_l1_inv node init advance gs st \<longleftrightarrow> all_plan node \<and> metric node = 1 \<and> overlap node = 3 \<and>
     entry_of node init advance gs st"

lemma entry_of_tree: "entry_of node init advance gs st \<Longrightarrow> rtree_set st"
  by (simp add: entry_of_def all_inv_def)

lemma entry_of_count: "entry_of node init advance gs (count_tuple st) = entry_of node init advance gs st"
  unfolding entry_of_def count_tuple_def by (rule all_inv_cong) simp_all

interpretation any_l1: refined_reader "sgb_all_tuple acos node init advance" count_tuple
    "any_l1_inv node init advance" "all_any (distanceall node)" "\<lambda>s. slot_ok s" length sizeofgroup
  for acos node init advance
proof unfold_locales
  fix gs st s
  assume a: "any_l1_inv node init advance gs st" "slot_ok s"
  then have "sgb_all_tuple acos node init advance st s = agg_fill_hash_table_overlap_random_l1 node init advance st s"
    using entry_of_tree [of node init advance gs st] by (simp add: any_l1_inv_def sgb_all_tuple_def)
  then show "case sgb_all_tuple acos node init advance st s of None \<Rightarrow> sizeofgroup \<le> length gs
      | Some st' \<Rightarrow> \<exists>g'. any_l1_inv node init advance g' st' \<and> all_any (distanceall node) gs s g'"
    using random_l1_step [of node init advance gs st s] a
    by (auto simp: any_l1_inv_def split: option.splits)
qed (simp_all add: any_l1_inv_def entry_of_count all_any_length)

interpretation elim_l1: refined_reader "sgb_all_tuple acos node init advance" count_tuple
    "elim_l1_inv node init advance" "all_elim (distanceall node)" "\<lambda>s. slot_ok s" length sizeofgroup
  for acos node init advance
proof unfold_locales
  fix gs st s
  assume a: "elim_l1_inv node init advance gs st" "slot_ok s"
  then have "sgb_all_tuple acos node init advance st s = agg_fill_hash_table_overlap_eliminated_l1 node init advance st s"
    using entry_of_tree [of node init advance gs st] by (simp add: elim_l1_inv_def sgb_all_tuple_def)
  then show "case sgb_all_tuple acos node init advance st s of None \<Rightarrow> sizeofgroup \<le> length gs
      | Some st' \<Rightarrow> \<exists>g'. elim_l1_inv node init advance g' st' \<and> all_elim (distanceall node) gs s g'"
    using eliminated_l1_step [of node init advance gs st s] a
    by (auto simp: elim_l1_inv_def split: option.splits)
qed (simp_all add: elim_l1_inv_def entry_of_count all_elim_length)

definition any_l2_inv :: "Agg_plan \<Rightarrow> 'a \<Rightarrow> (slot \<Rightarrow> 'a \<Rightarrow> 'a) \<Rightarrow> sgroup list \<Rightarrow> 'a AggState \<Rightarrow> bool" where
  "any_l2_inv node init advance gs st \<longleftrightarrow> all_plan node \<and> metric node \<in> {2, -1} \<and> overlap node = 1 \<and>
     entry_of node init advance gs st"

definition elim_l2_inv :: "Agg_plan \<Rightarrow> 'a \<Rightarrow> (slot \<Rightarrow> 'a \<Rightarrow> 'a) \<Rightarrow> keyed_groups \<Rightarrow> 'a AggState \<Rightarrow> bool" where
  "elim_l2_inv node init advance kgs st \<longleftrightarrow> all_plan node \<and> metric node \<in> {2, -1} \<and> overlap node = 3 \<and>
     keyed_entry node init advance kgs st"

interpretation any_l2: refined_reader "sgb_all_tuple acos node init advance" count_tuple
    "any_l2_inv node init advance" "l2_any (distanceall node)" "\<lambda>s. slot_ok s" length sizeofgroup
  for acos node init advance
proof unfold_locales
  fix gs st s
  assume a: "any_l2_inv node init advance gs st" "slot_ok s"
  then have "sgb_all_tuple acos node init advance st s = agg_fill_hash_table_overlap_random_l2 acos node init advance st s"
    by (auto simp: any_l2_inv_def sgb_all_tuple_def all_plan_def entry_of_tree)
  then show "case sgb_all_tuple acos node init advance st s of None \<Rightarrow> sizeofgroup \<le> length gs
      | Some st' \<Rightarrow> \<exists>g'. any_l2_inv node init advance g' st' \<and> l2_any (distanceall node) gs s g'"
    using a random_l2_step [of node init advance gs st s acos] by (auto simp: any_l2_inv_def split: option.splits)
qed (simp_all add: any_l2_inv_def entry_of_count l2_any_length)

interpretation elim_l2: refined_reader "sgb_all_tuple acos node init advance" count_tuple
    "elim_l2_inv node init advance" "l2_elim (distanceall node)" "\<lambda>s. slot_ok s \<and> length s = 2"
    "\<lambda>kgs. length (snd kgs)" sizeofgroup
  for acos node init advance
proof unfold_locales
  fix gs st s
  assume a: "elim_l2_inv node init advance gs st" "slot_ok s \<and> length s = 2"
  then have "sgb_all_tuple acos node init advance st s = agg_fill_hash_table_overlap_eliminated_l2 acos node init advance st s"
    by (auto simp: elim_l2_inv_def sgb_all_tuple_def all_plan_def keyed_entry_def all_inv_def)
  then show "case sgb_all_tuple acos node init advance st s of None \<Rightarrow> sizeofgroup \<le> length (snd gs)
      | Some st' \<Rightarrow> \<exists>g'. elim_l2_inv node init advance g' st' \<and> l2_elim (distanceall node) gs s g'"
    using a eliminated_l2_step [of node init advance gs st s acos] by (auto simp: elim_l2_inv_def split: option.splits)
next
  show "l2_elim (distanceall node) g s g' \<Longrightarrow> length (snd g') \<le> Suc (length (snd g))" for g s g'
    by (rule l2_elim_length)
next
  show "elim_l2_inv node init advance g st \<Longrightarrow> elim_l2_inv node init advance g (count_tuple st)" for g st
    using all_inv_cong [of "count_tuple st" st node init advance] by (simp add: elim_l2_inv_def keyed_entry_def count_tuple_def)
qed

text \<open>The state of a new SGB-All node, as \<open>ExecInitAgg\<close> leaves it when \<open>distanceall\<close> is not 0.\<close>

definition all_start :: "'a AggState \<Rightarrow> bool" where
  "all_start st \<longleftrightarrow> hashtable st = (\<lambda>_. None) \<and> indexhasharray st = 0 \<and> hasharray_cells st = sizeofgroup \<and>
     rtree_set st \<and> rtreeroot st = RTreeCreate"

lemma init_all_start: "distanceall node \<noteq> 0 \<Longrightarrow> all_start (ExecInitAgg_state node junk st)"
  by (simp add: all_start_def ExecInitAgg_state_simps)

lemma all_start_inv:
  assumes "all_start st"
  shows "all_inv node init advance [] [] st"
  using assms Create_wf Create_entries by (simp add: all_inv_def all_start_def rti.keyed_def)

section \<open>The abstract groups\<close>

lemma near2_sym: "near2 EPS p m = near2 EPS m p"
  by (simp add: near2_def abs_minus_commute)

lemma near2_refl: "0 \<le> EPS \<Longrightarrow> near2 EPS p p"
  by (simp add: near2_def)

definition clique :: "int \<Rightarrow> (int \<times> int) set \<Rightarrow> bool" where
  "clique EPS A \<longleftrightarrow> (\<forall>p\<in>A. \<forall>q\<in>A. near2 EPS p q)"

lemma clique_insert:
  assumes "clique EPS A" "\<forall>m\<in>A. near2 EPS p m" "0 \<le> EPS"
  shows "clique EPS (insert p A)"
  using assms near2_sym near2_refl unfolding clique_def by blast

lemma mset_concat_snoc:
  "i < length xss \<Longrightarrow> mset (concat (xss[i := xss ! i @ [x]])) = add_mset x (mset (concat xss))"
proof (induction xss arbitrary: i)
  case (Cons a xss)
  then show ?case by (cases i) auto
qed simp

text \<open>Groups in the order of their first tuples: each first tuple was out of range of a member
  of every earlier group.\<close>

definition separated :: "int \<Rightarrow> sgroup list \<Rightarrow> bool" where
  "separated EPS gs \<longleftrightarrow> (\<forall>j<length gs. \<forall>i<j. \<not> admits EPS (gs ! i) (point_of (hd (fst (gs ! j)))))"

lemma separated_new:
  assumes "separated EPS gs" "\<forall>g\<in>set gs. \<not> admits EPS g (point_of s)"
  shows "separated EPS (gs @ [alone s])"
  unfolding separated_def
proof (intro allI impI)
  fix j i assume j: "j < length (gs @ [alone s])" "i < j"
  show "\<not> admits EPS ((gs @ [alone s]) ! i) (point_of (hd (fst ((gs @ [alone s]) ! j))))"
  proof (cases "j = length gs")
    case True
    then show ?thesis using assms(2) j(2) by (simp add: nth_append alone_def)
  next
    case False
    then show ?thesis using assms(1) j by (simp add: separated_def nth_append)
  qed
qed

lemma separated_grow:
  assumes "separated EPS gs" "length gs' = length gs"
    "\<And>i. i < length gs \<Longrightarrow> snd (gs ! i) \<subseteq> snd (gs' ! i) \<and> hd (fst (gs' ! i)) = hd (fst (gs ! i))"
  shows "separated EPS gs'"
  unfolding separated_def
proof (intro allI impI)
  fix j i assume j: "j < length gs'" "i < j"
  then have "\<not> admits EPS (gs ! i) (point_of (hd (fst (gs' ! j))))"
    using assms unfolding separated_def by simp
  moreover have "snd (gs ! i) \<subseteq> snd (gs' ! i)" using assms(2,3) j by simp
  ultimately show "\<not> admits EPS (gs' ! i) (point_of (hd (fst (gs' ! j))))" unfolding admits_def by blast
qed

definition group_good :: "int \<Rightarrow> sgroup \<Rightarrow> bool" where
  "group_good EPS g \<longleftrightarrow> fst g \<noteq> [] \<and> point_of ` set (fst g) \<subseteq> snd g \<and> clique EPS (snd g)"

lemma good_steps:
  assumes "group_good EPS g" "0 \<le> EPS" "admits EPS g (point_of s)"
  shows "group_good EPS (joined s g)" "group_good EPS (fst g, insert (point_of s) (snd g))"
  using assms clique_insert [of EPS "snd g" "point_of s"] by (auto simp: group_good_def joined_def admits_def)

lemma good_alone: "0 \<le> EPS \<Longrightarrow> group_good EPS (alone s)"
  by (simp add: group_good_def alone_def clique_def near2_refl)

lemma all_any_good:
  assumes "reads (all_any EPS) [] ss gs" "0 \<le> EPS"
  shows "mset (concat (map fst gs)) = mset ss" "\<forall>g\<in>set gs. group_good EPS g \<and> snd g = point_of ` set (fst g)"
    "separated EPS gs"
  using assms
proof (induction rule: reads.induct)
  case reads_nil
  {
    case 1 show ?case by simp
  next
    case 2 show ?case by simp
  next
    case 3 show ?case by (simp add: separated_def)
  }
next
  case (reads_snoc ss gs s gs')
  note IH = reads_snoc.IH
  {
    case 1
    show ?case using reads_snoc.hyps(2)
    proof cases
      case (any_join i)
      have "map fst gs' = (map fst gs)[i := map fst gs ! i @ [s]]"
        using any_join by (simp add: map_update joined_def)
      then show ?thesis using mset_concat_snoc [of i "map fst gs" s] any_join(2) IH(1) 1 by simp
    next
      case any_new
      then show ?thesis using IH(1) 1 by (simp add: alone_def)
    qed
  next
    case 2
    show ?case using reads_snoc.hyps(2)
    proof cases
      case (any_join i)
      then have "gs ! i \<in> set gs" by simp
      then have "group_good EPS (joined s (gs ! i)) \<and> snd (joined s (gs ! i)) = point_of ` set (fst (joined s (gs ! i)))"
        using IH(2) [OF 2] good_steps(1) [OF _ 2 any_join(3)] by (simp add: joined_def)
      then show ?thesis using IH(2) [OF 2] any_join(1) set_update_subset_insert [of gs i "joined s (gs ! i)"] by blast
    next
      case any_new
      then show ?thesis using IH(2) [OF 2] good_alone [OF 2, of s] by (auto simp: alone_def)
    qed
  next
    case 3
    show ?case using reads_snoc.hyps(2)
    proof cases
      case (any_join i)
      have ne: "fst (gs ! i) \<noteq> []" using IH(2) [OF 3] any_join(2) by (simp add: group_good_def)
      show ?thesis unfolding any_join(1)
        by (rule separated_grow [OF IH(3) [OF 3]])
          (use ne any_join(2) in \<open>auto simp: nth_list_update joined_def\<close>)
    next
      case any_new
      then show ?thesis using separated_new [OF IH(3) [OF 3]] by simp
    qed
  }
qed

lemma narrow_fst: "map fst (narrow p J gs) = map fst gs"
  by (rule nth_equalityI) simp_all

lemma narrow_in:
  assumes "g \<in> set (narrow p J gs)" "J \<subseteq> {j. j < length gs \<and> admits EPS (gs ! j) p}"
  obtains h where "h \<in> set gs" "g = h \<or> admits EPS h p \<and> g = (fst h, insert p (snd h))"
proof -
  obtain i where i: "i < length gs" "g = narrow p J gs ! i" using assms(1) by (auto simp: in_set_conv_nth)
  then have "g = gs ! i \<or> admits EPS (gs ! i) p \<and> g = (fst (gs ! i), insert p (snd (gs ! i)))"
    using assms(2) by auto
  then show thesis using that nth_mem [OF i(1)] by blast
qed

text \<open>A dropped tuple stays in range of two groups.\<close>

definition twice :: "sgroup list \<Rightarrow> slot \<Rightarrow> bool" where
  "twice gs s \<longleftrightarrow> (\<exists>i j. i < j \<and> j < length gs \<and> point_of s \<in> snd (gs ! i) \<and> point_of s \<in> snd (gs ! j))"

lemma twice_grow:
  assumes "twice gs s" "length gs \<le> length gs'" "\<And>i. i < length gs \<Longrightarrow> snd (gs ! i) \<subseteq> snd (gs' ! i)"
  shows "twice gs' s"
proof -
  obtain i j where ij: "i < j" "j < length gs" "point_of s \<in> snd (gs ! i)" "point_of s \<in> snd (gs ! j)"
    using assms(1) unfolding twice_def by blast
  then have "point_of s \<in> snd (gs' ! i)" "point_of s \<in> snd (gs' ! j)"
    using assms(3) [of i] assms(3) [of j] by auto
  then show ?thesis unfolding twice_def
    by (intro exI [of _ i] exI [of _ j]) (use ij assms(2) in auto)
qed

lemma twice_narrow:
  assumes "J \<subseteq> {..<length gs}" "2 \<le> card J"
  shows "twice (narrow (point_of s) J gs) s"
proof -
  have fin: "finite J" using assms(1) by (rule finite_subset) simp
  then have "card J \<le> Suc 0 \<longleftrightarrow> (\<forall>a\<in>J. \<forall>b\<in>J. a = b)" by (rule card_le_Suc0_iff_eq)
  then have "\<not> (\<forall>a\<in>J. \<forall>b\<in>J. a = b)" using assms(2) by linarith
  then obtain a b where "a \<in> J" "b \<in> J" "a \<noteq> b" by blast
  then consider "a < b" | "b < a" by linarith
  then have "\<exists>i j. i \<in> J \<and> j \<in> J \<and> i < j" using \<open>a \<in> J\<close> \<open>b \<in> J\<close> by cases blast+
  then obtain i j where ij: "i \<in> J" "j \<in> J" "i < j" by blast
  then show ?thesis using assms(1) unfolding twice_def
    by (intro exI [of _ i] exI [of _ j]) auto
qed

lemma all_elim_good:
  assumes "reads (all_elim EPS) [] ss gs" "0 \<le> EPS"
  shows "(\<forall>g\<in>set gs. group_good EPS g) \<and> separated EPS gs \<and>
     (\<exists>dropped. mset (concat (map fst gs)) + mset dropped = mset ss \<and> (\<forall>d\<in>set dropped. twice gs d))"
  using assms
proof (induction rule: reads.induct)
  case reads_nil
  then show ?case by (simp add: separated_def)
next
  case (reads_snoc ss gs s gs')
  from reads_snoc.IH [OF reads_snoc.prems] obtain dropped where
    IH: "\<forall>g\<in>set gs. group_good EPS g" "separated EPS gs"
    "mset (concat (map fst gs)) + mset dropped = mset ss" "\<forall>d\<in>set dropped. twice gs d" by blast
  show ?case using reads_snoc.hyps(2)
  proof cases
    case (elim_join i)
    have good: "group_good EPS (gs ! i)" using IH(1) elim_join(2) by simp
    then have ne: "fst (gs ! i) \<noteq> []" by (simp add: group_good_def)
    have "map fst gs' = (map fst gs)[i := map fst gs ! i @ [s]]"
      using elim_join(1,2) by (simp add: map_update joined_def)
    then have 1: "mset (concat (map fst gs')) + mset dropped = mset (ss @ [s])"
      using mset_concat_snoc [of i "map fst gs" s] elim_join(2) IH(3) by simp
    have 2: "\<forall>g\<in>set gs'. group_good EPS g"
      using IH(1) good_steps(1) [OF good reads_snoc.prems elim_join(3)] elim_join(1)
        set_update_subset_insert [of gs i "joined s (gs ! i)"] by blast
    have grow: "snd (gs ! k) \<subseteq> snd (gs' ! k) \<and> hd (fst (gs' ! k)) = hd (fst (gs ! k))" if "k < length gs" for k
      using that ne elim_join(1,2) by (auto simp: nth_list_update joined_def)
    have len: "length gs' = length gs" using elim_join(1) by simp
    have 3: "separated EPS gs'" by (rule separated_grow [OF IH(2) len grow])
    have "\<forall>d\<in>set dropped. twice gs' d" using IH(4) twice_grow [of gs _ gs'] grow len by auto
    then show ?thesis using 1 2 3 by blast
  next
    case elim_new
    have "\<forall>d\<in>set dropped. twice gs' d"
      using IH(4) twice_grow [of gs _ gs'] elim_new(1) by (auto simp: nth_append)
    moreover have "mset (concat (map fst gs')) + mset dropped = mset (ss @ [s])"
      using IH(3) elim_new(1) by (simp add: alone_def)
    moreover have "\<forall>g\<in>set gs'. group_good EPS g"
      using IH(1) good_alone [OF reads_snoc.prems] elim_new(1) by auto
    ultimately show ?thesis using separated_new [OF IH(2)] elim_new by blast
  next
    case (elim_drop J)
    have J: "J \<subseteq> {..<length gs}" using elim_drop(2) by auto
    have grow: "snd (gs ! k) \<subseteq> snd (gs' ! k) \<and> hd (fst (gs' ! k)) = hd (fst (gs ! k))" if "k < length gs" for k
      using that elim_drop(1) by auto
    have len: "length gs' = length gs" using elim_drop(1) by simp
    have "\<forall>g\<in>set gs'. group_good EPS g"
    proof
      fix g assume "g \<in> set gs'"
      then obtain h where h: "h \<in> set gs" "g = h \<or> admits EPS h (point_of s) \<and> g = (fst h, insert (point_of s) (snd h))"
        using narrow_in [OF _ elim_drop(2)] unfolding elim_drop(1) by blast
      then show "group_good EPS g" using IH(1) good_steps(2) [OF _ reads_snoc.prems] by blast
    qed
    moreover have "separated EPS gs'" by (rule separated_grow [OF IH(2) len grow])
    moreover have "\<forall>d\<in>set (s # dropped). twice gs' d"
      using IH(4) twice_grow [of gs _ gs'] grow len twice_narrow [OF J elim_drop(3)] elim_drop(1) by auto
    moreover have "mset (concat (map fst gs')) + mset (s # dropped) = mset (ss @ [s])"
      using IH(3) narrow_fst [of "point_of s" J gs] elim_drop(1) by simp
    ultimately show ?thesis by blast
  qed
qed

lemma l2_any_good:
  assumes "reads (l2_any EPS) [] ss gs" "0 \<le> EPS"
  shows "(\<forall>g\<in>set gs. group_good EPS g) \<and>
     (\<exists>lost. mset (concat (map fst gs)) + mset lost = mset ss \<and> (\<forall>l\<in>set lost. take 2 l \<in> set (map gkey gs)))"
  using assms
proof (induction rule: reads.induct)
  case reads_nil
  then show ?case by simp
next
  case (reads_snoc ss gs s gs')
  from reads_snoc.IH [OF reads_snoc.prems] obtain lost where IH: "\<forall>g\<in>set gs. group_good EPS g"
    "mset (concat (map fst gs)) + mset lost = mset ss" "\<forall>l\<in>set lost. take 2 l \<in> set (map gkey gs)" by blast
  show ?case using reads_snoc.hyps(2)
  proof cases
    case (l2_join i)
    have good: "group_good EPS (gs ! i)" using IH(1) l2_join(2) by simp
    then have ne: "fst (gs ! i) \<noteq> []" by (simp add: group_good_def)
    have "map fst gs' = (map fst gs)[i := map fst gs ! i @ [s]]"
      using l2_join(1,2) by (simp add: map_update joined_def)
    then have 1: "mset (concat (map fst gs')) + mset lost = mset (ss @ [s])"
      using mset_concat_snoc [of i "map fst gs" s] l2_join(2) IH(2) by simp
    have 2: "\<forall>g\<in>set gs'. group_good EPS g"
      using IH(1) good_steps(1) [OF good reads_snoc.prems l2_join(3)] l2_join(1)
        set_update_subset_insert [of gs i "joined s (gs ! i)"] by blast
    have "map gkey gs' = map gkey gs"
      using gkey_joined [OF ne] l2_join(1,2) by (simp add: map_update list_update_same_conv)
    then show ?thesis using 1 2 IH(3) by metis
  next
    case l2_new
    have "mset (concat (map fst gs')) + mset lost = mset (ss @ [s])" using IH(2) l2_new(1) by (simp add: alone_def)
    moreover have "\<forall>l\<in>set lost. take 2 l \<in> set (map gkey gs')" using IH(3) l2_new(1) by auto
    moreover have "\<forall>g\<in>set gs'. group_good EPS g" using IH(1) good_alone [OF reads_snoc.prems] l2_new(1) by auto
    ultimately show ?thesis by blast
  next
    case l2_lost
    have "mset (concat (map fst gs')) + mset (s # lost) = mset (ss @ [s])" using IH(2) l2_lost(1) by simp
    moreover have "\<forall>l\<in>set (s # lost). take 2 l \<in> set (map gkey gs')" using IH(3) l2_lost by simp
    ultimately show ?thesis using IH(1) l2_lost(1) by blast
  qed
qed

lemma l2_elim_good:
  assumes "reads (l2_elim EPS) ([], []) ss kgs" "0 \<le> EPS"
  shows "(\<forall>g\<in>set (snd kgs). group_good EPS g) \<and> (\<exists>left_out. mset (concat (map fst (snd kgs))) + mset left_out = mset ss)"
  using assms
proof (induction rule: reads.induct)
  case reads_nil
  then show ?case by simp
next
  case (reads_snoc ss kgs s kgs')
  from reads_snoc.IH [OF reads_snoc.prems] obtain out where IH: "\<forall>g\<in>set (snd kgs). group_good EPS g"
    "mset (concat (map fst (snd kgs))) + mset out = mset ss" by blast
  show ?case using reads_snoc.hyps(2)
  proof cases
    case (l2e_join i gs keys)
    have good: "group_good EPS (gs ! i)" using IH(1) l2e_join(1,3) by simp
    have "map fst (snd kgs') = (map fst gs)[i := map fst gs ! i @ [s]]"
      using l2e_join(2,3) by (simp add: map_update joined_def)
    then have 1: "mset (concat (map fst (snd kgs'))) + mset out = mset (ss @ [s])"
      using mset_concat_snoc [of i "map fst gs" s] l2e_join(1,3) IH(2) by simp
    have "\<forall>g\<in>set (snd kgs'). group_good EPS g"
      using IH(1) good_steps(1) [OF good reads_snoc.prems l2e_join(4)] l2e_join(1,2)
        set_update_subset_insert [of gs i "joined s (gs ! i)"] by auto
    then show ?thesis using 1 by blast
  next
    case (l2e_new key keys gs)
    have "mset (concat (map fst (snd kgs'))) + mset out = mset (ss @ [s])" using IH(2) l2e_new by (simp add: alone_def)
    moreover have "\<forall>g\<in>set (snd kgs'). group_good EPS g" using IH(1) good_alone [OF reads_snoc.prems] l2e_new by auto
    ultimately show ?thesis by blast
  next
    case (l2e_lost keys gs)
    have "mset (concat (map fst (snd kgs'))) + mset (s # out) = mset (ss @ [s])" using IH(2) l2e_lost by simp
    then show ?thesis using IH(1) l2e_lost(1,2) by (metis snd_conv)
  next
    case (l2e_drop J gs keys)
    have "\<forall>g\<in>set (snd kgs'). group_good EPS g"
    proof
      fix g assume "g \<in> set (snd kgs')"
      then obtain h where "h \<in> set gs" "g = h \<or> admits EPS h (point_of s) \<and> g = (fst h, insert (point_of s) (snd h))"
        using narrow_in [OF _ l2e_drop(3)] unfolding l2e_drop(2) snd_conv by blast
      then show "group_good EPS g" using IH(1) good_steps(2) [OF _ reads_snoc.prems] l2e_drop(1) by auto
    qed
    moreover have "mset (concat (map fst (snd kgs'))) + mset (s # out) = mset (ss @ [s])"
      using IH(2) narrow_fst [of "point_of s" J gs] l2e_drop(1,2) by simp
    ultimately show ?thesis by blast
  qed
qed

lemma all_elim_new_only:
  assumes "all_elim EPS gs s gs'" "\<forall>g\<in>set gs. \<not> admits EPS g (point_of s)"
  shows "gs' = gs @ [alone s]"
  using assms(1)
proof cases
  case (elim_drop J)
  have "{j. j < length gs \<and> admits EPS (gs ! j) (point_of s)} = {}" using assms(2) by simp
  then have "J = {}" using elim_drop(2) by (simp only:) blast
  then show ?thesis using elim_drop(3) by simp
next
  case (elim_join i)
  then show ?thesis using assms(2) nth_mem [OF elim_join(2)] by blast
qed

lemma all_elim_both:
  assumes "all_elim EPS [g, h] s gs'" "admits EPS g (point_of s)" "admits EPS h (point_of s)"
  shows "gs' = [(fst g, insert (point_of s) (snd g)), (fst h, insert (point_of s) (snd h))]"
  using assms(1)
proof cases
  case (elim_join i)
  have "0 = i" "1 = i" using elim_join(4) assms(2,3) by auto
  then show ?thesis by simp
next
  case elim_new
  then show ?thesis using assms(2) by simp
next
  case (elim_drop J)
  have sub: "J \<subseteq> {0, 1}" using elim_drop(2) by auto
  have "card {0, 1::nat} \<le> card J" using elim_drop(3) by simp
  then have "J = {0, 1}" by (intro card_seteq sub) simp_all
  then show ?thesis using elim_drop(1) by (simp add: narrow_def)
qed

section \<open>Stored groups and rows\<close>

definition group_key :: "slot list \<Rightarrow> slot" where
  "group_key g = take 2 (hd g)"

definition stores_groups :: "'a \<Rightarrow> (slot \<Rightarrow> 'a \<Rightarrow> 'a) \<Rightarrow> slot list list \<Rightarrow> 'a AggState \<Rightarrow> bool" where
  "stores_groups init advance gs st \<longleftrightarrow> distinct (map group_key gs) \<and> dom (hashtable st) = group_key ` set gs \<and>
     (\<forall>g\<in>set gs. g \<noteq> [] \<and> (\<exists>e. hashtable st (group_key g) = Some e \<and> flagEnabled e = 1 \<and>
        tuplestorestate e = Tuples g \<and> pergroup e = fold advance g init))"

lemma entry_stores:
  assumes "entry_of node init advance gs st"
  shows "stores_groups init advance (map fst gs) st"
proof -
  have inv: "all_inv node init advance (map gkey gs) gs st" using assms by (simp add: entry_of_def)
  have key: "map group_key (map fst gs) = map gkey gs" by (simp add: group_key_def gkey_def)
  have ent: "\<exists>e. hashtable st (gkey (gs ! i)) = Some e \<and> group_entry node init advance (gs ! i) e" if "i < length gs" for i
    using inv_group [OF inv that] that by simp
  have "g \<noteq> [] \<and> (\<exists>e. hashtable st (group_key g) = Some e \<and> flagEnabled e = 1 \<and>
        tuplestorestate e = Tuples g \<and> pergroup e = fold advance g init)" if "g \<in> set (map fst gs)" for g
  proof -
    have "\<exists>i<length gs. fst (gs ! i) = g" using that by (simp only: in_set_conv_nth length_map) auto
    then obtain i where i: "i < length gs" "g = fst (gs ! i)" by blast
    then show ?thesis using ent [OF i(1)] by (auto simp: group_entry_def group_key_def gkey_def)
  qed
  moreover have "distinct (map group_key (map fst gs))" using inv unfolding key by (simp add: all_inv_def)
  moreover have "dom (hashtable st) = set (map group_key (map fst gs))" using inv unfolding key by (simp add: all_inv_def)
  ultimately show ?thesis unfolding stores_groups_def by (simp add: image_image)
qed

lemma retrieve_rows:
  assumes "overlap node \<noteq> 2" "\<forall>k\<in>set ks. hashtable st k \<noteq> None"
  shows "agg_retrieve_hash_table node final having ks st =
    Some (filter (\<lambda>(k, r). having k r) (map (\<lambda>k. (k, final (pergroup (the (hashtable st k))))) ks))"
  using assms(2) by (induction ks) (auto simp: assms(1))

lemma rows_of_groups:
  assumes "stores_groups init advance gs st" "overlap node \<noteq> 2" "distinct ks" "set ks = dom (hashtable st)"
  obtains rows where "agg_retrieve_hash_table node final having ks st = Some rows"
    "mset rows = filter_mset (\<lambda>(k, r). having k r)
       (image_mset (\<lambda>g. (group_key g, final (fold advance g init))) (mset gs))"
proof -
  let ?row = "\<lambda>k. (k, final (pergroup (the (hashtable st k))))"
  have "set ks = set (map group_key gs)" "distinct (map group_key gs)"
    using assms(1,4) by (simp_all add: stores_groups_def)
  then have ks: "mset ks = mset (map group_key gs)" using assms(3) set_eq_iff_mset_eq_distinct by blast
  have "mset (map ?row ks) = image_mset ?row (mset ks)" by simp
  also have "\<dots> = image_mset (\<lambda>g. ?row (group_key g)) (mset gs)" unfolding ks by (simp add: image_mset.compositionality comp_def)
  also have "\<dots> = image_mset (\<lambda>g. (group_key g, final (fold advance g init))) (mset gs)"
    by (rule image_mset_cong) (use assms(1) in \<open>auto simp: stores_groups_def\<close>)
  finally have m: "mset (map ?row ks) = image_mset (\<lambda>g. (group_key g, final (fold advance g init))) (mset gs)" .
  have "\<forall>k\<in>set ks. hashtable st k \<noteq> None" using assms(4) by auto
  show thesis
    by (rule that [OF retrieve_rows [OF assms(2) \<open>\<forall>k\<in>set ks. hashtable st k \<noteq> None\<close>]]) (simp only: mset_filter m)
qed

lemma fill_no_newgroup:
  "overlap node \<noteq> 2 \<Longrightarrow> agg_fill_hash_table_SGBTOAll scan acos node init advance st ss =
     sgb_all_input acos node init advance (case ss of [] \<Rightarrow> st | s # _ \<Rightarrow> st\<lparr>buffer_slot := s\<rparr>) ss"
  by (cases ss) (simp_all add: agg_fill_hash_table_SGBTOAll_def split: option.split)

lemma start_buffered: "all_start st \<Longrightarrow> all_start (case ss of [] \<Rightarrow> st | s # _ \<Rightarrow> st\<lparr>buffer_slot := s\<rparr>)"
  by (cases ss) (simp_all add: all_start_def)

lemma any_l1_to:
  assumes "all_plan node" "metric node = 1" "overlap node = 1" "all_start st" "list_all (\<lambda>s. slot_ok s) ss"
    "agg_fill_hash_table_SGBTOAll scan acos node init advance st ss = Some st'"
  obtains gs where "entry_of node init advance gs st'" "reads (all_any (distanceall node)) [] ss gs"
proof -
  have "any_l1_inv node init advance [] (case ss of [] \<Rightarrow> st | s # _ \<Rightarrow> st\<lparr>buffer_slot := s\<rparr>)"
    using assms(1-3) all_start_inv [OF start_buffered [OF assms(4)]] by (simp add: any_l1_inv_def entry_of_def)
  moreover have "read_input (sgb_all_tuple acos node init advance) count_tuple
      (case ss of [] \<Rightarrow> st | s # _ \<Rightarrow> st\<lparr>buffer_slot := s\<rparr>) ss = Some st'"
    using assms(3,6) by (simp add: fill_no_newgroup sgb_all_input_def)
  ultimately obtain gs where "any_l1_inv node init advance gs st'" "reads (all_any (distanceall node)) [] ss gs"
    by (rule any_l1.runs_to [OF _ assms(5)])
  then show thesis using that [of gs] by (simp add: any_l1_inv_def)
qed

lemma any_l1_runs:
  assumes "all_plan node" "metric node = 1" "overlap node = 1" "all_start st" "list_all (\<lambda>s. slot_ok s) ss"
    "length ss \<le> sizeofgroup"
  obtains st' gs where "agg_fill_hash_table_SGBTOAll scan acos node init advance st ss = Some st'"
    "entry_of node init advance gs st'" "reads (all_any (distanceall node)) [] ss gs"
proof -
  have "any_l1_inv node init advance [] (case ss of [] \<Rightarrow> st | s # _ \<Rightarrow> st\<lparr>buffer_slot := s\<rparr>)"
    using assms(1-3) all_start_inv [OF start_buffered [OF assms(4)]] by (simp add: any_l1_inv_def entry_of_def)
  from any_l1.runs [OF this assms(5)] assms(6) obtain st' gs where r:
    "read_input (sgb_all_tuple acos node init advance) count_tuple (case ss of [] \<Rightarrow> st | s # _ \<Rightarrow> st\<lparr>buffer_slot := s\<rparr>) ss = Some st'"
    "any_l1_inv node init advance gs st'" "reads (all_any (distanceall node)) [] ss gs" by auto
  show thesis
  proof (rule that)
    show "agg_fill_hash_table_SGBTOAll scan acos node init advance st ss = Some st'"
      using r(1) assms(3) by (simp add: fill_no_newgroup sgb_all_input_def)
    show "entry_of node init advance gs st'" using r(2) by (simp add: any_l1_inv_def)
  qed (rule r(3))
qed

lemma elim_l1_runs:
  assumes "all_plan node" "metric node = 1" "overlap node = 3" "all_start st" "list_all (\<lambda>s. slot_ok s) ss"
    "length ss \<le> sizeofgroup"
  obtains st' gs where "agg_fill_hash_table_SGBTOAll scan acos node init advance st ss = Some st'"
    "entry_of node init advance gs st'" "reads (all_elim (distanceall node)) [] ss gs"
proof -
  have "elim_l1_inv node init advance [] (case ss of [] \<Rightarrow> st | s # _ \<Rightarrow> st\<lparr>buffer_slot := s\<rparr>)"
    using assms(1-3) all_start_inv [OF start_buffered [OF assms(4)]] by (simp add: elim_l1_inv_def entry_of_def)
  from elim_l1.runs [OF this assms(5)] assms(6) obtain st' gs where r:
    "read_input (sgb_all_tuple acos node init advance) count_tuple (case ss of [] \<Rightarrow> st | s # _ \<Rightarrow> st\<lparr>buffer_slot := s\<rparr>) ss = Some st'"
    "elim_l1_inv node init advance gs st'" "reads (all_elim (distanceall node)) [] ss gs" by auto
  show thesis
  proof (rule that)
    show "agg_fill_hash_table_SGBTOAll scan acos node init advance st ss = Some st'"
      using r(1) assms(3) by (simp add: fill_no_newgroup sgb_all_input_def)
    show "entry_of node init advance gs st'" using r(2) by (simp add: elim_l1_inv_def)
  qed (rule r(3))
qed

lemma plan_eps: "all_plan node \<Longrightarrow> 0 \<le> distanceall node"
  by (simp add: all_plan_def eps_ok_iff)

lemma plan_start: "all_plan node \<Longrightarrow> all_start (ExecInitAgg_state node junk st)"
  by (rule init_all_start) (simp add: all_plan_def eps_ok_iff)

lemma good_clique: "group_good EPS g \<Longrightarrow> clique EPS (point_of ` set (fst g))"
  unfolding group_good_def clique_def by blast

section \<open>Properties\<close>

text \<open>C1. SGB-All with ANY and metric 1 reads an input of points without a failed assertion and
  partitions it: every tuple is in exactly one group, two tuples of a group are within \<open>EPS\<close>
  of each other in both coordinates, and a group was only started for a tuple out of range of
  some member of every earlier group. The entries of the hash table hold the groups, with the
  aggregates advanced over exactly their tuples. (The distance
  is above 0, the input has at most 2,000,000 tuples, the cells of \<open>hasharray\<close>, and the state is the one
  that \<open>ExecInitAgg\<close> sets up.)\<close>

theorem SGBTOAll_any_partition:
  assumes "all_plan node" "metric node = 1" "overlap node = 1" "list_all (\<lambda>s. slot_ok s) ss" "length ss \<le> sizeofgroup"
  shows "\<exists>st' gs. agg_fill_hash_table_SGBTOAll scan acos node init advance (ExecInitAgg_state node junk st) ss = Some st' \<and>
     stores_groups init advance gs st' \<and> mset (concat gs) = mset ss \<and>
     (\<forall>g\<in>set gs. clique (distanceall node) (point_of ` set g)) \<and>
     (\<forall>j<length gs. \<forall>i<j. \<exists>t\<in>set (gs ! i). \<not> near2 (distanceall node) (point_of (hd (gs ! j))) (point_of t))"
proof -
  obtain st' gs where r: "agg_fill_hash_table_SGBTOAll scan acos node init advance (ExecInitAgg_state node junk st) ss = Some st'"
    "entry_of node init advance gs st'" "reads (all_any (distanceall node)) [] ss gs"
    by (rule any_l1_runs [OF assms(1-3) plan_start [OF assms(1)] assms(4,5)])
  note good = all_any_good [OF r(3) plan_eps [OF assms(1)]]
  have "\<forall>j<length (map fst gs). \<forall>i<j. \<exists>t\<in>set (map fst gs ! i).
      \<not> near2 (distanceall node) (point_of (hd (map fst gs ! j))) (point_of t)"
    using good(2,3) by (auto simp: separated_def admits_def)
  moreover have "\<forall>g\<in>set (map fst gs). clique (distanceall node) (point_of ` set g)"
    using good(2) good_clique by auto
  ultimately show ?thesis using r(1) entry_stores [OF r(2)] good(1) by blast
qed

lemma SGBTOAll_any_partition_witness:
  "let node = demo_plan 1 1; ss = [slot_of [0, 0], slot_of [12, 0], slot_of [6, 3]] in
   \<exists>st' gs. agg_fill_hash_table_SGBTOAll (\<lambda>_. []) (\<lambda>_. None) node 0 (\<lambda>_ n. n + 1) 
       (ExecInitAgg_state node (\<lambda>_. blank_element) (demo_state :: nat AggState)) ss = Some st' \<and>
     stores_groups 0 (\<lambda>_ n. n + 1) gs st' \<and> mset (concat gs) = mset ss \<and>
     (\<forall>g\<in>set gs. clique (distanceall node) (point_of ` set g)) \<and>
     (\<forall>j<length gs. \<forall>i<j. \<exists>t\<in>set (gs ! i). \<not> near2 (distanceall node) (point_of (hd (gs ! j))) (point_of t))"
  unfolding Let_def
  by (rule SGBTOAll_any_partition)
    (simp_all add: all_plan_def eps_ok_iff demo_plan_def sizeofgroup_def slot_point_def slot2_def
      slot_of_def pt_ok_def point_of_def)

text \<open>The rows SGB-All with ANY and metric 1 returns, for any order in which the hash table is
  walked, are the finalised aggregates of the groups of such a partition, less those the HAVING
  clause rejects.\<close>

theorem SGBTOAll_any_rows:
  assumes "all_plan node" "metric node = 1" "overlap node = 1" "list_all (\<lambda>s. slot_ok s) ss" "length ss \<le> sizeofgroup"
  shows "\<exists>st' gs. agg_fill_hash_table_SGBTOAll scan acos node init advance (ExecInitAgg_state node junk st) ss = Some st' \<and>
     mset (concat gs) = mset ss \<and> (\<forall>g\<in>set gs. clique (distanceall node) (point_of ` set g)) \<and>
     (\<forall>ks. distinct ks \<and> set ks = dom (hashtable st') \<longrightarrow>
        (\<exists>rows. agg_retrieve_hash_table node final having ks st' = Some rows \<and>
           mset rows = filter_mset (\<lambda>(k, r). having k r)
             (image_mset (\<lambda>g. (group_key g, final (fold advance g init))) (mset gs))))"
proof -
  obtain st' gs where r: "agg_fill_hash_table_SGBTOAll scan acos node init advance (ExecInitAgg_state node junk st) ss = Some st'"
    "entry_of node init advance gs st'" "reads (all_any (distanceall node)) [] ss gs"
    by (rule any_l1_runs [OF assms(1-3) plan_start [OF assms(1)] assms(4,5)])
  note good = all_any_good [OF r(3) plan_eps [OF assms(1)]]
  have ov: "overlap node \<noteq> 2" using assms(3) by simp
  have "\<exists>rows. agg_retrieve_hash_table node final having ks st' = Some rows \<and>
      mset rows = filter_mset (\<lambda>(k, r). having k r)
        (image_mset (\<lambda>g. (group_key g, final (fold advance g init))) (mset (map fst gs)))"
    if "distinct ks" "set ks = dom (hashtable st')" for ks
    by (rule rows_of_groups [where having = having and final = final, OF entry_stores [OF r(2)] ov that]) blast
  moreover have "\<forall>g\<in>set (map fst gs). clique (distanceall node) (point_of ` set g)"
    using good(2) good_clique by auto
  ultimately show ?thesis using r(1) good(1) by blast
qed

lemma SGBTOAll_any_rows_witness:
  "let node = demo_plan 1 1; ss = [slot_of [0, 0], slot_of [12, 0], slot_of [6, 3]] in
   \<exists>st' gs. agg_fill_hash_table_SGBTOAll (\<lambda>_. []) (\<lambda>_. None) node 0 (\<lambda>_ n. n + 1) 
       (ExecInitAgg_state node (\<lambda>_. blank_element) (demo_state :: nat AggState)) ss = Some st' \<and>
     mset (concat gs) = mset ss \<and> (\<forall>g\<in>set gs. clique (distanceall node) (point_of ` set g)) \<and>
     (\<forall>ks. distinct ks \<and> set ks = dom (hashtable st') \<longrightarrow>
        (\<exists>rows. agg_retrieve_hash_table node (\<lambda>n. n) (\<lambda>_ n. n > 1) ks st' = Some rows \<and>
           mset rows = filter_mset (\<lambda>(k, r). r > 1)
             (image_mset (\<lambda>g. (group_key g, fold (\<lambda>_ n. n + 1) g 0)) (mset gs))))"
  unfolding Let_def
  by (rule SGBTOAll_any_rows)
    (simp_all add: all_plan_def eps_ok_iff demo_plan_def sizeofgroup_def slot_point_def slot2_def
      slot_of_def pt_ok_def point_of_def)

text \<open>C4. SGB-All with ELIMINATE and metric 1: every tuple is in exactly one group or dropped, the
  groups are cliques as in ANY, and every dropped tuple is within \<open>EPS\<close> of all members of two
  different groups. (The distance
  is above 0, the input has at most 2,000,000 tuples, the cells of \<open>hasharray\<close>, and the state is the one
  that \<open>ExecInitAgg\<close> sets up.)\<close>

theorem SGBTOAll_eliminate:
  assumes "all_plan node" "metric node = 1" "overlap node = 3" "list_all (\<lambda>s. slot_ok s) ss" "length ss \<le> sizeofgroup"
  shows "\<exists>st' gs dropped. agg_fill_hash_table_SGBTOAll scan acos node init advance (ExecInitAgg_state node junk st) ss = Some st' \<and>
     stores_groups init advance gs st' \<and> mset (concat gs) + mset dropped = mset ss \<and>
     (\<forall>g\<in>set gs. clique (distanceall node) (point_of ` set g)) \<and>
     (\<forall>d\<in>set dropped. \<exists>i j. i < j \<and> j < length gs \<and>
        (\<forall>t\<in>set (gs ! i) \<union> set (gs ! j). near2 (distanceall node) (point_of d) (point_of t)))"
proof -
  obtain st' gs where r: "agg_fill_hash_table_SGBTOAll scan acos node init advance (ExecInitAgg_state node junk st) ss = Some st'"
    "entry_of node init advance gs st'" "reads (all_elim (distanceall node)) [] ss gs"
    by (rule elim_l1_runs [OF assms(1-3) plan_start [OF assms(1)] assms(4,5)])
  from all_elim_good [OF r(3) plan_eps [OF assms(1)]] obtain dropped where
    good: "\<forall>g\<in>set gs. group_good (distanceall node) g"
    "mset (concat (map fst gs)) + mset dropped = mset ss" "\<forall>d\<in>set dropped. twice gs d" by blast
  have near: "near2 (distanceall node) (point_of d) (point_of t)"
    if "i < length gs" "point_of d \<in> snd (gs ! i)" "t \<in> set (fst (gs ! i))" for d t i
    using good(1) that nth_mem [OF that(1)] unfolding group_good_def clique_def by blast
  have drop: "\<exists>i j. i < j \<and> j < length (map fst gs) \<and>
        (\<forall>t\<in>set (map fst gs ! i) \<union> set (map fst gs ! j). near2 (distanceall node) (point_of d) (point_of t))"
    if d: "d \<in> set dropped" for d
  proof -
    obtain i j where ij: "i < j" "j < length gs" "point_of d \<in> snd (gs ! i)" "point_of d \<in> snd (gs ! j)"
      using good(3) d unfolding twice_def by blast
    then show ?thesis using near [of i d] near [of j d]
      by (intro exI [of _ i] exI [of _ j]) auto
  qed
  moreover have "\<forall>g\<in>set (map fst gs). clique (distanceall node) (point_of ` set g)"
    using good(1) good_clique by auto
  ultimately show ?thesis using r(1) entry_stores [OF r(2)] good(2) by blast
qed

lemma SGBTOAll_eliminate_witness:
  "let node = demo_plan 1 3; ss = [slot_of [0, 0], slot_of [12, 0], slot_of [6, 3]] in
   \<exists>st' gs dropped. agg_fill_hash_table_SGBTOAll (\<lambda>_. []) (\<lambda>_. None) node 0 (\<lambda>_ n. n + 1) 
       (ExecInitAgg_state node (\<lambda>_. blank_element) (demo_state :: nat AggState)) ss = Some st' \<and>
     stores_groups 0 (\<lambda>_ n. n + 1) gs st' \<and> mset (concat gs) + mset dropped = mset ss \<and>
     (\<forall>g\<in>set gs. clique (distanceall node) (point_of ` set g)) \<and>
     (\<forall>d\<in>set dropped. \<exists>i j. i < j \<and> j < length gs \<and>
        (\<forall>t\<in>set (gs ! i) \<union> set (gs ! j). near2 (distanceall node) (point_of d) (point_of t)))"
  unfolding Let_def
  by (rule SGBTOAll_eliminate)
    (simp_all add: all_plan_def eps_ok_iff demo_plan_def sizeofgroup_def slot_point_def slot2_def
      slot_of_def pt_ok_def point_of_def)

text \<open>A tuple ELIMINATE drops still narrows the boxes of the groups it fits: with \<open>EPS = 10\<close> the
  points (0, 0), (15, 0), (8, 0) leave two groups, and (-9, 0), which is in range of all
  members of the first, is not added to it but starts a third.\<close>

theorem SGBTOAll_eliminate_narrows:
  "\<exists>st'. agg_fill_hash_table_SGBTOAll scan acos (demo_plan 1 3) [] (\<lambda>s x. x @ [s]) demo_state
       [slot_of [0, 0], slot_of [15, 0], slot_of [8, 0], slot_of [-9, 0]] = Some st' \<and>
     stores_groups [] (\<lambda>s x. x @ [s]) [[slot_of [0, 0]], [slot_of [15, 0]], [slot_of [-9, 0]]] st'"
proof -
  let ?ss = "[slot_of [0, 0], slot_of [15, 0], slot_of [8, 0], slot_of [-9, 0]]"
  have pre: "all_plan (demo_plan 1 3)" "metric (demo_plan 1 3) = 1" "overlap (demo_plan 1 3) = 3"
    "all_start demo_state" "list_all (\<lambda>s. slot_ok s) ?ss" "length ?ss \<le> sizeofgroup" "distanceall (demo_plan 1 3) = 10"
    by (simp_all add: all_plan_def eps_ok_iff demo_plan_def all_start_def demo_state_def slot_point_def slot2_def
      slot_of_def pt_ok_def point_of_def sizeofgroup_def)
  obtain st' gs where r: "agg_fill_hash_table_SGBTOAll scan acos (demo_plan 1 3) [] (\<lambda>s x. x @ [s]) demo_state ?ss = Some st'"
    "entry_of (demo_plan 1 3) [] (\<lambda>s x. x @ [s]) gs st'" "reads (all_elim (distanceall (demo_plan 1 3))) [] ?ss gs"
    by (rule elim_l1_runs [OF pre(1-6)])
  have snoc: "?ss = ((([] @ [slot_of [0, 0]]) @ [slot_of [15, 0]]) @ [slot_of [8, 0]]) @ [slot_of [-9, 0]]" by simp
  obtain g1 g2 g3 where s: "all_elim 10 [] (slot_of [0, 0]) g1" "all_elim 10 g1 (slot_of [15, 0]) g2"
    "all_elim 10 g2 (slot_of [8, 0]) g3" "all_elim 10 g3 (slot_of [-9, 0]) gs"
    using r(3) unfolding snoc pre(7) by (blast elim: reads_snocE dest: reads_Nil_iff [THEN iffD1])
  note pt = point_of_def slot_of_def admits_def near2_def alone_def
  have 1: "g1 = [alone (slot_of [0, 0])]" using all_elim_new_only [OF s(1)] by simp
  have "\<forall>g\<in>set g1. \<not> admits 10 g (point_of (slot_of [15, 0]))" by (simp add: 1 pt)
  with 1 have 2: "g2 = [alone (slot_of [0, 0]), alone (slot_of [15, 0])]" using all_elim_new_only [OF s(2)] by simp
  have 3: "g3 = [([slot_of [0, 0]], {(8, 0), (0, 0)}), ([slot_of [15, 0]], {(8, 0), (15, 0)})]"
    using all_elim_both [OF s(3) [unfolded 2]] by (simp add: pt)
  have "\<forall>g\<in>set g3. \<not> admits 10 g (point_of (slot_of [-9, 0]))" by (simp add: 3 pt)
  with 3 have "map fst gs = [[slot_of [0, 0]], [slot_of [15, 0]], [slot_of [-9, 0]]]"
    using all_elim_new_only [OF s(4)] by (simp add: alone_def)
  then show ?thesis using r(1) entry_stores [OF r(2)] by metis
qed

text \<open>C32. SGB-All with ANY and metric 2: whatever the hulls look like, no assertion fails, no tuple
  is in two groups, every group is a clique of the coordinate-wise \<open>EPS\<close> neighbourhood (which
  contains the Euclidean one), and the only tuples that can be lost lie exactly at the first
  point of a group. (The distance
  is above 0, the input has at most 2,000,000 tuples, the cells of \<open>hasharray\<close>, and the state is the one
  that \<open>ExecInitAgg\<close> sets up.)\<close>

theorem SGBTOAll_any_l2:
  assumes "all_plan node" "metric node = 2 \<or> metric node = -1" "overlap node = 1" "length ss \<le> sizeofgroup"
    "list_all (\<lambda>s. slot_ok s) ss"
  shows "\<exists>st' gs lost. agg_fill_hash_table_SGBTOAll scan acos node init advance (ExecInitAgg_state node junk st) ss = Some st' \<and>
     stores_groups init advance gs st' \<and> mset (concat gs) + mset lost = mset ss \<and>
     (\<forall>g\<in>set gs. clique (distanceall node) (point_of ` set g)) \<and>
     (\<forall>l\<in>set lost. \<exists>g\<in>set gs. point_of l = point_of (hd g))"
proof -
  let ?st = "ExecInitAgg_state node junk st"
  have "any_l2_inv node init advance [] (case ss of [] \<Rightarrow> ?st | s # _ \<Rightarrow> ?st\<lparr>buffer_slot := s\<rparr>)"
    using assms(1-3) all_start_inv [OF start_buffered [OF plan_start [OF assms(1), of junk st]]] by (auto simp: any_l2_inv_def entry_of_def)
  from any_l2.runs [OF this assms(5)] assms(4) obtain st' gs where r:
    "read_input (sgb_all_tuple acos node init advance) count_tuple (case ss of [] \<Rightarrow> ?st | s # _ \<Rightarrow> ?st\<lparr>buffer_slot := s\<rparr>) ss = Some st'"
    "any_l2_inv node init advance gs st'" "reads (l2_any (distanceall node)) [] ss gs" by auto
  have run: "agg_fill_hash_table_SGBTOAll scan acos node init advance ?st ss = Some st'"
    using r(1) assms(3) by (simp add: fill_no_newgroup sgb_all_input_def)
  have ent: "entry_of node init advance gs st'" using r(2) by (simp add: any_l2_inv_def)
  from l2_any_good [OF r(3) plan_eps [OF assms(1)]] obtain lost where
    good: "\<forall>g\<in>set gs. group_good (distanceall node) g" "mset (concat (map fst gs)) + mset lost = mset ss"
    "\<forall>l\<in>set lost. take 2 l \<in> set (map gkey gs)" by blast
  have "\<forall>g\<in>set (map fst gs). clique (distanceall node) (point_of ` set g)" using good(1) good_clique by auto
  moreover have "\<exists>g\<in>set (map fst gs). point_of l = point_of (hd g)" if l: "l \<in> set lost" for l
  proof -
    obtain g where "g \<in> set gs" "take 2 l = gkey g" using good(3) l by auto
    then show ?thesis using key_point [of l "hd (fst g)"] by (auto simp: gkey_def)
  qed
  ultimately show ?thesis using run entry_stores [OF ent] good(2) by blast
qed

lemma SGBTOAll_any_l2_witness:
  "let node = demo_plan 2 1; ss = [slot_of [0, 0], slot_of [12, 0], slot_of [6, 3]] in
   \<exists>st' gs lost. agg_fill_hash_table_SGBTOAll (\<lambda>_. []) (\<lambda>_. None) node 0 (\<lambda>_ n. n + 1) 
       (ExecInitAgg_state node (\<lambda>_. blank_element) (demo_state :: nat AggState)) ss = Some st' \<and>
     stores_groups 0 (\<lambda>_ n. n + 1) gs st' \<and> mset (concat gs) + mset lost = mset ss \<and>
     (\<forall>g\<in>set gs. clique (distanceall node) (point_of ` set g)) \<and>
     (\<forall>l\<in>set lost. \<exists>g\<in>set gs. point_of l = point_of (hd g))"
  unfolding Let_def
  by (rule SGBTOAll_any_l2)
    (simp_all add: all_plan_def eps_ok_iff demo_plan_def sizeofgroup_def slot_point_def slot2_def
      slot_of_def pt_ok_def point_of_def)

text \<open>SGB-All with ELIMINATE and metric 2, on tuples of two columns: no assertion fails, no
  tuple is in two groups, and every group, under its random key, is a clique of the
  coordinate-wise \<open>EPS\<close> neighbourhood with its aggregates over exactly its tuples.\<close>

theorem SGBTOAll_eliminate_l2:
  assumes "all_plan node" "metric node = 2 \<or> metric node = -1" "overlap node = 3" "length ss \<le> sizeofgroup"
    "list_all (\<lambda>s. slot_ok s \<and> length s = 2) ss"
  shows "\<exists>st' keys gs left_out. agg_fill_hash_table_SGBTOAll scan acos node init advance (ExecInitAgg_state node junk st) ss = Some st' \<and>
     mset (concat gs) + mset left_out = mset ss \<and> distinct keys \<and> dom (hashtable st') = set keys \<and>
     list_all2 (\<lambda>k g. \<exists>e. hashtable st' k = Some e \<and> tuplestorestate e = Tuples g \<and>
       pergroup e = fold advance g init) keys gs \<and>
     (\<forall>g\<in>set gs. clique (distanceall node) (point_of ` set g))"
proof -
  let ?st = "ExecInitAgg_state node junk st"
  have "elim_l2_inv node init advance ([], []) (case ss of [] \<Rightarrow> ?st | s # _ \<Rightarrow> ?st\<lparr>buffer_slot := s\<rparr>)"
    using assms(1-3) all_start_inv [OF start_buffered [OF plan_start [OF assms(1), of junk st]]] by (auto simp: elim_l2_inv_def keyed_entry_def)
  then obtain st' kgs where r:
    "read_input (sgb_all_tuple acos node init advance) count_tuple (case ss of [] \<Rightarrow> ?st | s # _ \<Rightarrow> ?st\<lparr>buffer_slot := s\<rparr>) ss = Some st'"
    "elim_l2_inv node init advance kgs st'" "reads (l2_elim (distanceall node)) ([], []) ss kgs"
    by (rule elim_l2.runs [OF _ assms(5)]) (simp add: assms(4))
  obtain keys gs where kgs: "kgs = (keys, gs)" by fastforce
  have run: "agg_fill_hash_table_SGBTOAll scan acos node init advance ?st ss = Some st'"
    using r(1) assms(3) by (simp add: fill_no_newgroup sgb_all_input_def)
  have inv: "all_inv node init advance keys gs st'" using r(2) by (simp add: elim_l2_inv_def keyed_entry_def kgs)
  from l2_elim_good [OF r(3) plan_eps [OF assms(1)]] obtain left_out where
    good: "\<forall>g\<in>set gs. group_good (distanceall node) g" "mset (concat (map fst gs)) + mset left_out = mset ss"
    by (auto simp: kgs)
  have len: "length keys = length gs" using inv by (simp add: all_inv_def)
  have "list_all2 (\<lambda>k g. \<exists>e. hashtable st' k = Some e \<and> tuplestorestate e = Tuples g \<and>
       pergroup e = fold advance g init) keys (map fst gs)"
    unfolding list_all2_conv_all_nth using len inv_group [OF inv] by (auto simp: group_entry_def)
  moreover have "\<forall>g\<in>set (map fst gs). clique (distanceall node) (point_of ` set g)" using good(1) good_clique by auto
  moreover have "distinct keys" "dom (hashtable st') = set keys" using inv by (simp_all add: all_inv_def)
  ultimately show ?thesis using run good(2) by blast
qed

lemma SGBTOAll_eliminate_l2_witness:
  "let node = demo_plan 2 3; ss = [slot_of [0, 0], slot_of [12, 0], slot_of [6, 3]] in
   \<exists>st' keys gs left_out. agg_fill_hash_table_SGBTOAll (\<lambda>_. []) (\<lambda>_. None) node 0 (\<lambda>_ n. n + 1) 
       (ExecInitAgg_state node (\<lambda>_. blank_element) (demo_state :: nat AggState)) ss = Some st' \<and>
     mset (concat gs) + mset left_out = mset ss \<and> distinct keys \<and> dom (hashtable st') = set keys \<and>
     list_all2 (\<lambda>k g. \<exists>e. hashtable st' k = Some e \<and> tuplestorestate e = Tuples g \<and>
       pergroup e = fold (\<lambda>_ n. n + 1) g 0) keys gs \<and>
     (\<forall>g\<in>set gs. clique (distanceall node) (point_of ` set g))"
  unfolding Let_def
  by (rule SGBTOAll_eliminate_l2)
    (simp_all add: all_plan_def eps_ok_iff demo_plan_def sizeofgroup_def slot_point_def slot2_def
      slot_of_def pt_ok_def point_of_def)

lemma fresh_search:
  obtains g' where "contain_search RTreeCreate m ov g = Some (0, g')"
proof -
  have "rti.keyed RTreeCreate (\<lambda>_. MBR 0 0 0 0) 0" using Create_wf Create_entries by (simp add: rti.keyed_def)
  then obtain hits g' where h: "contain_search RTreeCreate m ov g = Some (length hits, g')"
    "stops_late ov 0 hits (answers m True (node_entries (root_node RTreeCreate)))"
    using contain_search_hits [OF Create_wf keyed_fit] by (metis zero_le)
  have "node_entries (root_node RTreeCreate) = []" using Create_entries by simp
  then have "hits = []" using h(2) by (simp add: stops_late_def answers_def)
  then show thesis using that h(1) by simp
qed

text \<open>\<open>WITHIN 0\<close> is accepted and dispatched, but a node with \<open>distanceall\<close> 0 has no \<open>hasharray\<close>: the
  first tuple is written through the NULL pointer, under ANY and ELIMINATE and in both metrics.\<close>

theorem SGBTOAll_zero_distance:
  assumes "distanceall node = 0" "numCols node = 2" "metric node \<in> {1, 2, -1}" "overlap node \<in> {1, 3}" "slot_ok s"
  shows "agg_fill_hash_table_SGBTOAll scan acos node init advance (ExecInitAgg_state node junk st) (s # ss) = None"
proof -
  define st0 where "st0 = (ExecInitAgg_state node junk st)\<lparr>buffer_slot := s\<rparr>"
  have m: "getMBRinputSlot s 2 = Some (pmbr (point_of s))" using slot_point_mbr [OF assms(5)] .
  have h0: "hashtable st0 = (\<lambda>_. None)" "hasharray_cells st0 = 0"
    using assms(1) by (simp_all add: st0_def ExecInitAgg_state_simps)
  have start: "start_group node init advance h s k u = None"
    if "hasharray_cells u = 0" "hashtable u = (\<lambda>_. None)" for h k and u :: "'a AggState"
    using that by (simp add: start_group_def lookup_hash_entry_def hash_room_def Let_def split: prod.split)
  have key: "(case l2_key_values node (st0\<lparr>globals := g\<rparr>) of (vs, rs, st2) \<Rightarrow>
      case heap_modify_tuple s vs (replicate 2 False) rs of
        None \<Rightarrow> None | Some ms \<Rightarrow> start_group node init advance h s ms st2) = None" for h g
    using h0 assms(2) by (simp add: l2_key_values_def random_key_values_def Let_def rand_def start split: option.split)
  have "sgb_all_tuple acos node init advance st0 s = None"
  proof (cases "distanceany node = 0")
    case True
    then have "\<not> rtree_set st0" using assms(1) by (simp add: st0_def ExecInitAgg_state_simps)
    then show ?thesis using assms(4) by (auto simp: sgb_all_tuple_def)
  next
    case False
    then have tree: "rtreeroot st0 = RTreeCreate" "rtree_set st0"
      by (simp_all add: st0_def ExecInitAgg_state_simps)
    obtain g where g: "contain_search RTreeCreate (pmbr (point_of s)) True (globals st0) = Some (0, g)"
      by (rule fresh_search)
    obtain g' where g': "contain_search RTreeCreate (pmbr (point_of s)) False (globals st0) = Some (0, g')"
      by (rule fresh_search)
    note hands = agg_fill_hash_table_overlap_random_l1_def agg_fill_hash_table_overlap_random_l2_def
      agg_fill_hash_table_overlap_eliminated_l1_def agg_fill_hash_table_overlap_eliminated_l2_def
    show ?thesis
      using assms(2-4) key h0 by (auto simp: sgb_all_tuple_def hands tree m g g' start Let_def)
  qed
  then show ?thesis by (simp add: agg_fill_hash_table_SGBTOAll_def sgb_all_input_def st0_def)
qed

lemma SGBTOAll_zero_distance_witness:
  "agg_fill_hash_table_SGBTOAll (\<lambda>_. []) (\<lambda>_. None) ((demo_plan 1 1)\<lparr>distanceall := 0\<rparr>) 0 (\<lambda>_ n. n + 1)
     (ExecInitAgg_state ((demo_plan 1 1)\<lparr>distanceall := 0\<rparr>) (\<lambda>_. blank_element) (demo_state :: nat AggState)) [slot_of [0, 0]] = None"
  by (rule SGBTOAll_zero_distance)
    (simp_all add: demo_plan_def slot_point_def slot2_def slot_of_def pt_ok_def point_of_def)

text \<open>The 2,000,000 cells are not checked either: more points than cells, pairwise out of range, need
  a group each, and the first one too many is written past the end of \<open>hasharray\<close>.\<close>

lemma clique_of_far:
  assumes "distinct g" "clique EPS (point_of ` set g)"
    "\<forall>s\<in>set g. \<forall>t\<in>set g. s \<noteq> t \<longrightarrow> \<not> near2 EPS (point_of s) (point_of t)"
  shows "length g \<le> 1"
proof -
  have "s = t" if "s \<in> set g" "t \<in> set g" for s t using that assms(2,3) unfolding clique_def by blast
  then have "card (set g) \<le> 1" by (simp add: card_le_Suc0_iff_eq)
  then show ?thesis using distinct_card [OF assms(1)] by simp
qed

theorem SGBTOAll_cells_exceeded:
  assumes "all_plan node" "metric node = 1" "overlap node = 1" "list_all (\<lambda>s. slot_ok s) ss" "sizeofgroup < length ss" "distinct ss"
    and far: "\<forall>s\<in>set ss. \<forall>t\<in>set ss. s \<noteq> t \<longrightarrow> \<not> near2 (distanceall node) (point_of s) (point_of t)"
  shows "agg_fill_hash_table_SGBTOAll scan acos node init advance (ExecInitAgg_state node junk st) ss = None"
proof (rule ccontr)
  assume "agg_fill_hash_table_SGBTOAll scan acos node init advance (ExecInitAgg_state node junk st) ss \<noteq> None"
  then obtain st' where run: "agg_fill_hash_table_SGBTOAll scan acos node init advance (ExecInitAgg_state node junk st) ss = Some st'"
    by auto
  obtain gs where gs: "entry_of node init advance gs st'" "reads (all_any (distanceall node)) [] ss gs"
    by (rule any_l1_to [OF assms(1-3) plan_start [OF assms(1)] assms(4) run])
  note good = all_any_good [OF gs(2) plan_eps [OF assms(1)]]
  have m: "mset (concat (map fst gs)) = mset ss" using good(1) .
  then have set: "set (concat (map fst gs)) = set ss" by (rule mset_eq_setD)
  have d: "distinct (concat (map fst gs))" using m assms(6) by (metis distinct_count_atmost_1 mset_eq_setD)
  have one: "length (fst g) \<le> 1" if "g \<in> set gs" for g
  proof (rule clique_of_far)
    have sub: "set (fst g) \<subseteq> set ss" using that set by auto
    show "distinct (fst g)" using d that by (auto simp: distinct_concat_iff)
    show "clique (distanceall node) (point_of ` set (fst g))" using good(2) good_clique that by blast
    show "\<forall>s\<in>set (fst g). \<forall>t\<in>set (fst g). s \<noteq> t \<longrightarrow> \<not> near2 (distanceall node) (point_of s) (point_of t)"
      using far sub by blast
  qed
  have "length ss = length (concat (map fst gs))" using mset_eq_length [OF m] by simp
  also have "\<dots> = sum_list (map (\<lambda>g. length (fst g)) gs)" by (simp add: length_concat comp_def)
  also have "\<dots> \<le> sum_list (map (\<lambda>g. 1) gs)" by (rule sum_list_mono) (use one in auto)
  also have "\<dots> = length gs" by (simp add: sum_list_triv)
  also have "\<dots> \<le> sizeofgroup" using gs(1) by (simp add: entry_of_def all_inv_def)
  finally show False using assms(5) by simp
qed

lemma SGBTOAll_cells_exceeded_witness:
  "agg_fill_hash_table_SGBTOAll (\<lambda>_. []) (\<lambda>_. None) ((demo_plan 1 1)\<lparr>distanceall := 1\<rparr>) 0 (\<lambda>_ n. n + 1)
     (ExecInitAgg_state ((demo_plan 1 1)\<lparr>distanceall := 1\<rparr>) (\<lambda>_. blank_element) (demo_state :: nat AggState))
     (map (\<lambda>i. slot_of [2 * int i, 0]) [0..<Suc sizeofgroup]) = None"
proof (rule SGBTOAll_cells_exceeded)
  have small: "int i \<le> 2000000" if "i < Suc sizeofgroup" for i using that by (simp add: sizeofgroup_def)
  show "list_all (\<lambda>s. slot_ok s) (map (\<lambda>i. slot_of [2 * int i, 0]) [0..<Suc sizeofgroup])"
    using small by (fastforce simp: list_all_iff slot_point_def slot2_def slot_of_def pt_ok_def point_of_def simp del: upt_Suc)
  show "distinct (map (\<lambda>i. slot_of [2 * int i, 0]) [0..<Suc sizeofgroup])"
    by (simp add: distinct_map inj_on_def slot_of_def del: upt_Suc)
  show "\<forall>s\<in>set (map (\<lambda>i. slot_of [2 * int i, 0]) [0..<Suc sizeofgroup]). \<forall>t\<in>set (map (\<lambda>i. slot_of [2 * int i, 0]) [0..<Suc sizeofgroup]).
      s \<noteq> t \<longrightarrow> \<not> near2 (distanceall ((demo_plan 1 1)\<lparr>distanceall := 1\<rparr>)) (point_of s) (point_of t)"
    by (auto simp: near2_def point_of_def slot_of_def simp del: upt_Suc)
qed (simp_all add: demo_plan_def all_plan_def eps_ok_iff)

text \<open>The grammar accepts \<open>ON_OVERLAP DUPLICATE\<close> (4), but the operator has no branch for it:
  under any overlap value other than 1, 2 and 3 every tuple is ignored and the result has no
  row.\<close>

theorem SGBTOAll_duplicate_ignored:
  assumes "overlap node \<notin> {1, 2, 3}" "all_start st"
  shows "\<exists>st'. agg_fill_hash_table_SGBTOAll scan acos node init advance st ss = Some st' \<and>
     dom (hashtable st') = {} \<and> agg_retrieve_hash_table node final having [] st' = Some []"
proof -
  have skip: "sgb_all_tuple acos node init advance st s = Some st" for st s
    using assms(1) by (simp add: sgb_all_tuple_def)
  have "\<exists>st'. read_input (sgb_all_tuple acos node init advance) count_tuple st ss = Some st' \<and>
      hashtable st' = hashtable st" for st
  proof (induction ss arbitrary: st)
    case (Cons s ss)
    from Cons.IH [of "count_tuple st"] show ?case by (simp add: skip count_tuple_def)
  qed simp
  from this [of "case ss of [] \<Rightarrow> st | s # _ \<Rightarrow> st\<lparr>buffer_slot := s\<rparr>"] obtain st' where
    "read_input (sgb_all_tuple acos node init advance) count_tuple (case ss of [] \<Rightarrow> st | s # _ \<Rightarrow> st\<lparr>buffer_slot := s\<rparr>) ss = Some st'"
    "hashtable st' = (\<lambda>_. None)"
    using start_buffered [OF assms(2), of ss] unfolding all_start_def by metis
  then show ?thesis using assms(1) by (simp add: fill_no_newgroup sgb_all_input_def)
qed

lemma SGBTOAll_duplicate_ignored_witness:
  "\<exists>st'. agg_fill_hash_table_SGBTOAll (\<lambda>_. []) (\<lambda>_. None) (demo_plan 1 4) 0 (\<lambda>_ n. n + 1) (demo_state :: nat AggState)
       [slot_of [0, 0]] = Some st' \<and>
     dom (hashtable st') = {} \<and> agg_retrieve_hash_table (demo_plan 1 4) (\<lambda>n. n) (\<lambda>_ _. True) [] st' = Some []"
  by (rule SGBTOAll_duplicate_ignored) (simp_all add: demo_plan_def all_start_def demo_state_def)

end
