(* ===== verification/SGBNewGroupInv.thy ===== *)
theory SGBNewGroupInv
  imports SGBNewGroup
begin

text \<open>
  The invariant of the NEW-GROUP semantics in metric 1. Members move out of groups without
  their boxes growing back, and a new group may start with the box of a candidate, so a box is
  only bounded: it contains every member and stays within \<open>EPS\<close> of each. While a handler runs,
  the rectangles of the groups the tuple fits are out of the tree.
\<close>

section \<open>Bounded boxes\<close>

definition sbox :: "int \<Rightarrow> int \<Rightarrow> int \<Rightarrow> int set \<Rightarrow> bool" where
  "sbox EPS l r ms \<longleftrightarrow> \<bar>l\<bar> \<le> 16777216 \<and> \<bar>r\<bar> \<le> 16777216 \<and> l \<le> r \<and>
     (\<forall>m\<in>ms. l \<le> m \<and> m \<le> r \<and> r - EPS \<le> m \<and> m \<le> l + EPS)"

definition sbox2 :: "int \<Rightarrow> int list \<Rightarrow> int list \<Rightarrow> (int \<times> int) set \<Rightarrow> bool" where
  "sbox2 EPS p1 p2 ms \<longleftrightarrow> length p1 = 5 \<and> length p2 = 5 \<and>
     sbox EPS (p1 ! 0) (p2 ! 0) (fst ` ms) \<and> sbox EPS (p1 ! 1) (p2 ! 1) (snd ` ms)"

lemma sbox_mono: "sbox EPS l r ms \<Longrightarrow> ks \<subseteq> ms \<Longrightarrow> sbox EPS l r ks"
  unfolding sbox_def by blast

lemma sbox2_mono: "sbox2 EPS p1 p2 ms \<Longrightarrow> ks \<subseteq> ms \<Longrightarrow> sbox2 EPS p1 p2 ks"
  unfolding sbox2_def by (meson image_mono sbox_mono)

lemma sbox2_clique:
  assumes "sbox2 EPS p1 p2 ms" "p \<in> ms" "q \<in> ms"
  shows "near2 EPS p q"
proof -
  have "\<bar>x - y\<bar> \<le> EPS" if "sbox EPS l r xs" "x \<in> xs" "y \<in> xs" for l r xs and x y :: int
  proof -
    have "l \<le> x" "x \<le> l + EPS" "l \<le> y" "y \<le> l + EPS" using that unfolding sbox_def by blast+
    then show ?thesis by linarith
  qed
  then show ?thesis using assms unfolding sbox2_def near2_def by blast
qed

lemma judge_sbox:
  assumes "sbox EPS l r ms" "box_eps EPS" "pt_ok x" "judge_attr EPS l r x = (inb, ov, l', r')"
  shows "inb \<longleftrightarrow> l \<le> x \<and> x \<le> r" "inb \<Longrightarrow> sbox EPS l' r' (insert x ms)" "\<not> inb \<Longrightarrow> l' = l \<and> r' = r"
proof -
  have b: "\<bar>l\<bar> \<le> 16777216" "\<bar>r\<bar> \<le> 16777216" "l \<le> r" using assms(1) by (simp_all add: sbox_def)
  have i: "sub32 x EPS = x - EPS" "add32 x EPS = x + EPS" "abs32 (sub32 l r) = r - l"
    using assms(2,3) b by (simp_all add: pt_ok_def box_eps_def c_int_defs int32_def abs_le_iff)
  have res: "inb \<longleftrightarrow> l \<le> x \<and> x \<le> r"
    "inb \<Longrightarrow> (if r - l \<le> EPS then l' = l \<and> r' = r else l' = max l (x - EPS) \<and> r' = min r (x + EPS))"
    "\<not> inb \<Longrightarrow> l' = l \<and> r' = r"
    using assms(4) unfolding judge_attr_def i by (auto split: if_splits)
  show "inb \<longleftrightarrow> l \<le> x \<and> x \<le> r" "\<not> inb \<Longrightarrow> l' = l \<and> r' = r" by (rule res(1), rule res(3))
  have eps: "0 \<le> EPS" using assms(2) by (simp add: box_eps_def)
  show "sbox EPS l' r' (insert x ms)" if inb
  proof (cases "r - l \<le> EPS")
    case True
    then have "l' = l" "r' = r" "l \<le> x" "x \<le> r" using res(1,2) that by simp_all
    then show ?thesis using assms(1) True unfolding sbox_def by auto
  next
    case False
    then have lr: "l' = max l (x - EPS)" "r' = min r (x + EPS)" "l \<le> x" "x \<le> r" using res(1,2) that by simp_all
    have "l' \<le> m \<and> m \<le> r' \<and> r' - EPS \<le> m \<and> m \<le> l' + EPS" if "m \<in> insert x ms" for m
    proof (cases "m = x")
      case True
      then show ?thesis using lr eps by auto
    next
      case False
      then have "l \<le> m" "m \<le> r" "r - EPS \<le> m" "m \<le> l + EPS" using that assms(1) unfolding sbox_def by blast+
      then show ?thesis using lr eps by auto
    qed
    moreover have "\<bar>l'\<bar> \<le> 16777216" "\<bar>r'\<bar> \<le> 16777216" "l' \<le> r'" using b lr eps by auto
    ultimately show ?thesis unfolding sbox_def by blast
  qed
qed

lemma sbox2_mbr:
  assumes "sbox2 EPS p1 p2 ms"
  shows "getMBRHashEntry p1 p2 2 = Some (boxmbr p1 p2)" "small_mbr (boxmbr p1 p2)"
    "mbr_le (pmbr p) (boxmbr p1 p2) \<longleftrightarrow> p1 ! 0 \<le> fst p \<and> fst p \<le> p2 ! 0 \<and> p1 ! 1 \<le> snd p \<and> snd p \<le> p2 ! 1"
proof -
  have b: "\<bar>p1 ! 0\<bar> \<le> 16777216" "\<bar>p2 ! 0\<bar> \<le> 16777216" "p1 ! 0 \<le> p2 ! 0"
    "\<bar>p1 ! 1\<bar> \<le> 16777216" "\<bar>p2 ! 1\<bar> \<le> 16777216" "p1 ! 1 \<le> p2 ! 1"
    using assms by (simp_all add: sbox2_def sbox_def)
  show g: "getMBRHashEntry p1 p2 2 = Some (boxmbr p1 p2)" by (simp add: getMBRHashEntry_def boxmbr_def)
  have m: "boxmbr p1 p2 = MBR (of_int (p1 ! 0)) (of_int (p1 ! 1)) (of_int (p2 ! 0)) (of_int (p2 ! 1))"
    by (simp add: boxmbr_def getMBRHashEntry_def mbr_init_def Let_def nth_Cons')
  show "small_mbr (boxmbr p1 p2)"
    using b unfolding m by (simp add: small_mbr_def proper_def mbr_le_def abs_le_iff)
  show "mbr_le (pmbr p) (boxmbr p1 p2) \<longleftrightarrow> p1 ! 0 \<le> fst p \<and> fst p \<le> p2 ! 0 \<and> p1 ! 1 \<le> snd p \<and> snd p \<le> p2 ! 1"
    unfolding m by (auto simp: mbr_le_def pmbr_def)
qed

lemma judge_sbox2:
  assumes "sbox2 EPS p1 p2 ms" "box_eps EPS" "slot_ok s"
    "mbr_le (pmbr (point_of s)) (boxmbr p1 p2)"
  obtains ov q1 q2 where "judgeJoinGroup 2 p1 p2 s EPS = (True, ov, q1, q2)"
    "sbox2 EPS q1 q2 (insert (point_of s) ms)"
proof -
  have s: "slot2 s (fst (point_of s)) (snd (point_of s))" "pt_ok (fst (point_of s))" "pt_ok (snd (point_of s))"
    using assms(3) by (simp_all add: slot_point_def)
  have c: "sbox EPS (p1 ! 0) (p2 ! 0) (fst ` ms)" "sbox EPS (p1 ! 1) (p2 ! 1) (snd ` ms)"
    "length p1 = 5" "length p2 = 5" using assms(1) by (simp_all add: sbox2_def)
  obtain ix ox lx rx where jx: "judge_attr EPS (p1 ! 0) (p2 ! 0) (fst (point_of s)) = (ix, ox, lx, rx)"
    by (metis prod_cases4)
  obtain iy oy ly ry where jy: "judge_attr EPS (p1 ! 1) (p2 ! 1) (snd (point_of s)) = (iy, oy, ly, ry)"
    by (metis prod_cases4)
  note X = judge_sbox [OF c(1) assms(2) s(2) jx] and Y = judge_sbox [OF c(2) assms(2) s(3) jy]
  have i: ix iy using X(1) Y(1) assms(4) sbox2_mbr(3) [OF assms(1), of "point_of s"] by simp_all
  have "sbox2 EPS (p1[0 := lx, 1 := ly]) (p2[0 := rx, 1 := ry]) (insert (point_of s) ms)"
    using X(2) [OF i(1)] Y(2) [OF i(2)] c(3,4) unfolding sbox2_def One_nat_def by simp
  then show thesis using that judgeJoinGroup_2 [OF s(1) jx jy] i by simp
qed

lemma box2_sbox2:
  assumes "box2 EPS p1 p2 ms" "box_eps EPS" "length p1 = 5" "length p2 = 5"
  shows "sbox2 EPS p1 p2 ms"
proof -
  have "sbox EPS l r xs" if c: "cbox EPS l r xs" for l r xs
  proof -
    note b = cbox_bounds [OF c assms(2)]
    have "l \<le> m \<and> m \<le> r \<and> r - EPS \<le> m \<and> m \<le> l + EPS" if m: "m \<in> xs" for m
    proof -
      have "\<bar>l - m\<bar> \<le> EPS" "\<bar>r - m\<bar> \<le> EPS" using c m b(1) unfolding cbox_def by (meson order_refl)+
      then show ?thesis using cbox_member [OF c m] by linarith
    qed
    then show ?thesis using b by (simp add: sbox_def)
  qed
  then show ?thesis using assms by (simp add: sbox2_def box2_def)
qed

text \<open>The box of a candidate: near the input per coordinate, every clipped box contains it, and
  the last step, with the input itself, keeps it within \<open>EPS\<close>.\<close>

lemma pivot_keeps:
  assumes "box_eps EPS" "pt_ok x" "pt_ok s" "\<bar>x - s\<bar> \<le> EPS" "\<bar>l\<bar> \<le> 16777216" "\<bar>r\<bar> \<le> 16777216"
    "l = 0 \<and> r = 0 \<or> l \<le> s \<and> s \<le> r" "update_pivot_attr EPS l r x = (l', r')"
  shows "\<bar>l'\<bar> \<le> 16777216" "\<bar>r'\<bar> \<le> 16777216" "l' \<le> s" "s \<le> r'" "x = s \<Longrightarrow> sbox EPS l' r' {s}"
proof -
  have i: "sub32 x EPS = x - EPS" "add32 x EPS = x + EPS"
    using assms(1,2) by (simp_all add: pt_ok_def box_eps_def c_int_defs int32_def abs_le_iff)
  have lr: "-33554432 \<le> l - r" "l - r \<le> 33554432" using assms(5,6) by linarith+
  then have "sub32 l r = l - r" by (intro sub32_eq) (simp add: int32_def)
  then have d: "abs32 (sub32 l r) = \<bar>l - r\<bar>" using lr by (simp add: abs32_eq)
  have e: "0 \<le> EPS" "EPS \<le> 8388608" "\<bar>x\<bar> \<le> 8388608" using assms(1,2) by (simp_all add: box_eps_def pt_ok_def)
  note u = assms(8) [unfolded update_pivot_attr_def i d]
  consider (keep) "l \<noteq> 0" "\<bar>l - r\<bar> \<le> EPS" "l' = l" "r' = r"
    | (fresh) "l' = x - EPS" "r' = x + EPS"
    | (clip) "\<not> (l = 0 \<and> r = 0)" "l' = max l (x - EPS)" "r' = min r (x + EPS)"
  proof (cases "\<bar>l - r\<bar> \<le> EPS \<and> l \<noteq> 0 \<and> r \<noteq> 0")
    case True
    then have "l' = l" "r' = r" using u unfolding if_P [OF True] by simp_all
    then show thesis using keep True by blast
  next
    case nk: False
    show thesis
    proof (cases "l = 0 \<and> r = 0")
      case True
      then have "l' = x - EPS" "r' = x + EPS" using u unfolding if_not_P [OF nk] if_P [OF True] by simp_all
      then show thesis by (rule fresh)
    next
      case False
      have "l' = (if x - EPS > l then x - EPS else l)" "r' = (if x + EPS < r then x + EPS else r)"
        using u unfolding if_not_P [OF nk] if_not_P [OF False] by simp_all
      then have "l' = max l (x - EPS)" "r' = min r (x + EPS)" by simp_all
      then show thesis by (rule clip [OF False])
    qed
  qed
  then have "\<bar>l'\<bar> \<le> 16777216 \<and> \<bar>r'\<bar> \<le> 16777216 \<and> l' \<le> s \<and> s \<le> r' \<and> (x = s \<longrightarrow> r' - EPS \<le> s \<and> s \<le> l' + EPS)"
  proof cases
    case keep
    then have "l \<le> s" "s \<le> r" using assms(7) by auto
    then show ?thesis using keep assms(5,6) by simp
  next
    case fresh
    then show ?thesis using assms(4) e by (auto simp: abs_le_iff)
  next
    case clip
    then have "l \<le> s" "s \<le> r" using assms(7) by auto
    then show ?thesis using clip assms(4-6) e by (auto simp: abs_le_iff max_def min_def)
  qed
  then show "\<bar>l'\<bar> \<le> 16777216" "\<bar>r'\<bar> \<le> 16777216" "l' \<le> s" "s \<le> r'" "x = s \<Longrightarrow> sbox EPS l' r' {s}"
    by (simp_all add: sbox_def)
qed

section \<open>Candidates\<close>

definition tpoint :: "tuple \<Rightarrow> int \<times> int" where
  "tpoint t = (vals t ! 0, vals t ! 1)"

definition tuple_ok :: "tuple \<Rightarrow> bool" where
  "tuple_ok t \<longleftrightarrow> pt_ok (fst (tpoint t)) \<and> pt_ok (snd (tpoint t))"

definition near_tuple :: "int \<Rightarrow> slot \<Rightarrow> tuple \<Rightarrow> bool" where
  "near_tuple EPS s t \<longleftrightarrow> InsideBound_tuple t s EPS 1 2"

lemma near_tuple_L1:
  assumes "slot_ok s" "tuple_ok t"
  shows "near_tuple EPS s t \<longleftrightarrow>
     \<bar>fst (tpoint t) - fst (point_of s)\<bar> + \<bar>snd (tpoint t) - snd (point_of s)\<bar> \<le> EPS"
proof -
  have s: "slot2 s (fst (point_of s)) (snd (point_of s))" "pt_ok (fst (point_of s))" "pt_ok (snd (point_of s))"
    using assms(1) by (simp_all add: slot_point_def)
  have t: "pt_ok (vals t ! 0)" "pt_ok (vals t ! 1)" using assms(2) by (simp_all add: tuple_ok_def tpoint_def)
  have "near_tuple EPS s t \<longleftrightarrow> bound_verdict 1 EPS
      (bound_step 1 (snd (point_of s)) (vals t ! 1) (bound_step 1 (fst (point_of s)) (vals t ! 0) (0, 0)))"
    using slot2_get [OF s(1)] by (simp add: near_tuple_def InsideBound_tuple_def upt2)
  also have "\<dots> \<longleftrightarrow> \<bar>fst (point_of s) - vals t ! 0\<bar> + \<bar>snd (point_of s) - vals t ! 1\<bar> \<le> EPS"
    by (rule bound_L1_Linf(1) [OF s(2) t(1) s(3) t(2)])
  finally show ?thesis by (simp add: tpoint_def abs_minus_commute)
qed

text \<open>The pivots of a candidate: fresh, or a box around the input.\<close>

definition cand_box :: "int \<times> int \<Rightarrow> tmpGroup \<Rightarrow> bool" where
  "cand_box p g \<longleftrightarrow> length (pivot1 g) = 2 \<and> length (pivot2 g) = 2 \<and>
     (\<forall>i<2. \<bar>pivot1 g ! i\<bar> \<le> 16777216 \<and> \<bar>pivot2 g ! i\<bar> \<le> 16777216 \<and>
        (pivot1 g ! i = 0 \<and> pivot2 g ! i = 0 \<or>
         pivot1 g ! i \<le> (if i = 0 then fst p else snd p) \<and> (if i = 0 then fst p else snd p) \<le> pivot2 g ! i))"

lemma pivot_update_2:
  assumes "length (pivot1 g) = 2" "length (pivot2 g) = 2"
    "update_pivot_attr EPS (pivot1 g ! 0) (pivot2 g ! 0) (v ! 0) = (l0, r0)"
    "update_pivot_attr EPS (pivot1 g ! 1) (pivot2 g ! 1) (v ! 1) = (l1, r1)"
  shows "pivot1 (updatePivotByTuple_tmpGroup g v 2 EPS) = [l0, l1]"
    "pivot2 (updatePivotByTuple_tmpGroup g v 2 EPS) = [r0, r1]"
proof -
  obtain a b where a: "pivot1 g = [a, b]" using assms(1) by (auto simp: length_Suc_conv numeral_2_eq_2)
  obtain c d where c: "pivot2 g = [c, d]" using assms(2) by (auto simp: length_Suc_conv numeral_2_eq_2)
  show "pivot1 (updatePivotByTuple_tmpGroup g v 2 EPS) = [l0, l1]"
    "pivot2 (updatePivotByTuple_tmpGroup g v 2 EPS) = [r0, r1]"
    using assms(3,4) by (simp_all add: updatePivotByTuple_tmpGroup_def upt2 a c)
qed

lemma cand_box_step:
  assumes "cand_box p g" "box_eps EPS" "pt_ok (fst p)" "pt_ok (snd p)"
    "pt_ok (v ! 0)" "pt_ok (v ! 1)" "\<bar>v ! 0 - fst p\<bar> \<le> EPS" "\<bar>v ! 1 - snd p\<bar> \<le> EPS"
  shows "cand_box p (updatePivotByTuple_tmpGroup g v 2 EPS)"
    "(v ! 0, v ! 1) = p \<Longrightarrow> p1 = [a, b, c0, c1, c2] \<Longrightarrow> p2 = [a', b', c3, c4, c5] \<Longrightarrow>
       sbox2 EPS (copy_cells 2 (pivot1 (updatePivotByTuple_tmpGroup g v 2 EPS)) p1)
         (copy_cells 2 (pivot2 (updatePivotByTuple_tmpGroup g v 2 EPS)) p2) {p}"
proof -
  obtain l0 r0 where u0: "update_pivot_attr EPS (pivot1 g ! 0) (pivot2 g ! 0) (v ! 0) = (l0, r0)" by fastforce
  obtain l1 r1 where u1: "update_pivot_attr EPS (pivot1 g ! 1) (pivot2 g ! 1) (v ! 1) = (l1, r1)" by fastforce
  have len: "length (pivot1 g) = 2" "length (pivot2 g) = 2" using assms(1) by (simp_all add: cand_box_def)
  have g: "\<bar>pivot1 g ! 0\<bar> \<le> 16777216" "\<bar>pivot2 g ! 0\<bar> \<le> 16777216"
    "pivot1 g ! 0 = 0 \<and> pivot2 g ! 0 = 0 \<or> pivot1 g ! 0 \<le> fst p \<and> fst p \<le> pivot2 g ! 0"
    "\<bar>pivot1 g ! 1\<bar> \<le> 16777216" "\<bar>pivot2 g ! 1\<bar> \<le> 16777216"
    "pivot1 g ! 1 = 0 \<and> pivot2 g ! 1 = 0 \<or> pivot1 g ! 1 \<le> snd p \<and> snd p \<le> pivot2 g ! 1"
    using assms(1) unfolding cand_box_def by (auto dest: spec [of _ 0] spec [of _ 1])
  note k0 = pivot_keeps [OF assms(2,5,3,7) g(1-3) u0] and k1 = pivot_keeps [OF assms(2,6,4,8) g(4-6) u1]
  note pv = pivot_update_2 [OF len u0 u1]
  show "cand_box p (updatePivotByTuple_tmpGroup g v 2 EPS)"
    unfolding cand_box_def pv using k0(1-4) k1(1-4) by (auto simp: less_2_cases_iff)
  show "sbox2 EPS (copy_cells 2 (pivot1 (updatePivotByTuple_tmpGroup g v 2 EPS)) p1)
         (copy_cells 2 (pivot2 (updatePivotByTuple_tmpGroup g v 2 EPS)) p2) {p}"
    if "(v ! 0, v ! 1) = p" "p1 = [a, b, c0, c1, c2]" "p2 = [a', b', c3, c4, c5]"
    using that k0(5) k1(5) unfolding pv by (auto simp: sbox2_def copy_cells_def)
qed

definition cand_ok :: "int \<Rightarrow> int \<times> int \<Rightarrow> tmpGroup \<Rightarrow> bool" where
  "cand_ok EPS p g \<longleftrightarrow> \<not> isexisit g \<and> (\<forall>p1 p2. length p1 = 5 \<longrightarrow> length p2 = 5 \<longrightarrow>
     sbox2 EPS (copy_cells 2 (pivot1 g) p1) (copy_cells 2 (pivot2 g) p2) {p})"

lemma list5: "length xs = 5 \<Longrightarrow> \<exists>a b c d e. xs = [a, b, c, d, e]"
  by (auto simp: length_Suc_conv numeral_eq_Suc)

lemma puttuple_2:
  assumes "length s = 2"
  shows "puttuple_TupleTableSlot t s 2 = Some (slot_of [vals t ! 0, vals t ! 1])"
  using assms by (simp add: puttuple_TupleTableSlot_def heap_modify_tuple_def slot_of_def upt2)

lemma move_tuples_ok:
  assumes "box_eps EPS" "pt_ok (fst p)" "pt_ok (snd p)" "length s = 2" "cand_box p tmp" "\<not> isexisit tmp"
    "\<forall>t\<in>set ts. tuple_ok t \<and> \<bar>fst (tpoint t) - fst p\<bar> \<le> EPS \<and> \<bar>snd (tpoint t) - snd p\<bar> \<le> EPS"
    "length buf = 2"
  shows "\<exists>tmp' gl' buf'. move_tuples s 2 EPS ts tmp gl buf = Some (tmp', gl', buf') \<and> cand_box p tmp' \<and>
     \<not> isexisit tmp' \<and> member_len tmp' = member_len tmp + int (length ts) \<and> length buf' = 2"
  using assms(5-)
proof (induction ts arbitrary: tmp gl buf)
  case (Cons t ts)
  let ?tmp = "(updatePivotByTuple_tmpGroup tmp (vals t) 2 EPS)\<lparr>member_len := member_len tmp + 1\<rparr>"
  have t: "pt_ok (vals t ! 0)" "pt_ok (vals t ! 1)" "\<bar>vals t ! 0 - fst p\<bar> \<le> EPS" "\<bar>vals t ! 1 - snd p\<bar> \<le> EPS"
    using Cons.prems(3) by (simp_all add: tuple_ok_def tpoint_def)
  have c: "cand_box p ?tmp" using cand_box_step(1) [OF Cons.prems(1) assms(1-3) t] by (simp add: cand_box_def)
  have e: "\<not> isexisit ?tmp" using Cons.prems(2) by simp
  have "length (slot_of [vals t ! 0, vals t ! 1]) = 2" by (simp add: slot_of_def)
  from Cons.IH [OF c e _ this, of "map_option (\<lambda>g. g @ [slot_of [vals t ! 0, vals t ! 1]]) gl"] Cons.prems(3)
  show ?case by (simp add: puttuple_2 [OF assms(4)] add.assoc)
qed auto

section \<open>Scans\<close>

lemma scan_group_counts:
  "slen (scan_group near b ts st) + int (length (moved (scan_group near b ts st))) = slen st + int (length (moved st))"
  "1 \<le> slen st \<Longrightarrow> 1 \<le> slen (scan_group near b ts st)"
proof (induction near b ts st rule: scan_group.induct)
  case (2 near b t ts st)
  {
    case 1
    show ?case using 2 by (cases ts) (auto simp: Let_def)
  next
    case 2
    show ?case using "2.IH" 2 by (cases ts) (auto simp: Let_def)
  }
qed auto

lemma scan_noreturn_counts:
  "slen (scan_group_noreturn near ts st) + int (length (moved (scan_group_noreturn near ts st)))
     = slen st + int (length (moved st))"
  "1 \<le> slen st \<Longrightarrow> 1 \<le> slen (scan_group_noreturn near ts st)"
  "mset (keep (scan_group_noreturn near ts st)) + mset (moved (scan_group_noreturn near ts st))
     = mset (keep st) + mset (moved st) + mset ts"
proof (induction near ts st rule: scan_group_noreturn.induct)
  case (2 near t ts st)
  {
    case 1
    show ?case using 2 by (cases ts) (auto simp: Let_def)
  next
    case 2
    show ?case using "2.IH" 2 by (cases ts) (auto simp: Let_def)
  next
    case 3
    show ?case using "2.IH" by (cases ts) (auto simp: Let_def)
  }
qed auto

section \<open>The invariant\<close>

text \<open>A group is its points, or \<open>None\<close> when it was given up (flag 3).\<close>

type_synonym ngroup = "(int \<times> int) list option"

definition members :: "ngroup \<Rightarrow> (int \<times> int) list" where
  "members a = (case a of None \<Rightarrow> [] | Some ps \<Rightarrow> ps)"

definition live_store :: "(int \<times> int) list \<Rightarrow> store \<Rightarrow> bool" where
  "live_store ps ts \<longleftrightarrow> ps \<noteq> [] \<and> (\<exists>g. ts = Group g \<and> map tpoint (tuples_headPtr g) = ps \<and>
     (\<forall>t\<in>set (tuples_headPtr g). tuple_ok t) \<and> member_len g = int (length ps) \<and> endPtr g \<noteq> None)"

definition ng_entry :: "Agg_plan \<Rightarrow> (int \<times> int) set \<Rightarrow> ngroup \<Rightarrow> 'a AggHashEntry \<Rightarrow> bool" where
  "ng_entry node X a e \<longleftrightarrow> sbox2 (distanceall node) (pivot1Slot e) (pivot2Slot e) (X \<union> set (members a)) \<and>
     (case a of None \<Rightarrow> flagEnabled e = 3 | Some ps \<Rightarrow> flagEnabled e = 1 \<and> live_store ps (tuplestorestate e))"

text \<open>\<open>D\<close> are the groups taken out of the tree for the input at \<open>p\<close>.\<close>

definition taken :: "int \<times> int \<Rightarrow> nat set \<Rightarrow> nat \<Rightarrow> (int \<times> int) set" where
  "taken p D i = (if i \<in> D then {p} else {})"

definition ng_inv :: "Agg_plan \<Rightarrow> int \<times> int \<Rightarrow> nat set \<Rightarrow> slot list \<Rightarrow> ngroup list \<Rightarrow> 'a AggState \<Rightarrow> bool" where
  "ng_inv node p D keys gs st \<longleftrightarrow> length keys = length gs \<and> indexhasharray st = length gs \<and>
     rtree_set st \<and> hasharray_cells st = sizeofgroup \<and> length gs \<le> sizeofgroup \<and> distinct keys \<and> dom (hashtable st) = set keys \<and> D \<subseteq> {..<length gs} \<and> length (buffer_slot st) = 2 \<and>
     (\<forall>i<length gs. hentry (hasharray st i) = Some (keys ! i) \<and>
        (\<exists>e. hashtable st (keys ! i) = Some e \<and> ismodified e = (i \<in> D) \<and> ng_entry node (taken p D i) (gs ! i) e)) \<and>
     rti.holds (rtreeroot st) (\<lambda>k. entry_mbr st (keys ! (k - 1))) ({1..length gs} - Suc ` D)"

definition ng_plan :: "Agg_plan \<Rightarrow> bool" where
  "ng_plan node \<longleftrightarrow> numCols node = 2 \<and> eps_ok (distanceall node) \<and> metric node = 1 \<and> overlap node = 2"

lemma ng_inv_cong:
  assumes "hashtable st' = hashtable st" "hasharray st' = hasharray st" "indexhasharray st' = indexhasharray st"
    "rtreeroot st' = rtreeroot st" "length (buffer_slot st') = length (buffer_slot st)"
    "hasharray_cells st' = hasharray_cells st" "rtree_set st' = rtree_set st"
  shows "ng_inv node p D keys gs st' = ng_inv node p D keys gs st"
  unfolding ng_inv_def entry_mbr_def assms ..

lemma ng_inv_globals: "ng_inv node p D keys gs (st\<lparr>globals := g\<rparr>) = ng_inv node p D keys gs st"
  by (rule ng_inv_cong) simp_all

lemma ng_group:
  assumes "ng_inv node p D keys gs st" "i < length gs"
  obtains e where "hashtable st (keys ! i) = Some e" "ismodified e = (i \<in> D)" "ng_entry node (taken p D i) (gs ! i) e"
    "hentry (hasharray st i) = Some (keys ! i)"
  using assms unfolding ng_inv_def by blast

lemma ng_contain_entry:
  assumes "ng_inv node p D keys gs st" "i < length gs"
  shows "contain_entry node init s (Suc i) st = Some (Some (keys ! i), st)"
  using assms by (simp add: contain_entry_def ng_inv_def Let_def)

lemma ng_set_cell:
  assumes "ng_inv node p D keys gs st" "i < length gs"
  shows "ng_inv node p D keys gs (set_cell_entry (Suc i) (keys ! i) st)"
  using assms unfolding ng_inv_def set_cell_entry_def entry_mbr_def by simp

lemma ng_put_overlap: "ng_inv node p D keys gs (put_overlap1 s st) = ng_inv node p D keys gs st"
  by (rule ng_inv_cong) (simp_all add: put_overlap1_def)

text \<open>Changing an entry without its box.\<close>

lemma ng_update:
  assumes inv: "ng_inv node p D keys gs st" and i: "i < length gs"
    and f: "\<And>e. hashtable st (keys ! i) = Some e \<Longrightarrow> ng_entry node (taken p D i) (gs ! i) e \<Longrightarrow>
      ng_entry node (taken p D i) g (f e) \<and> pivot1Slot (f e) = pivot1Slot e \<and> pivot2Slot (f e) = pivot2Slot e \<and>
      ismodified (f e) = ismodified e"
  shows "ng_inv node p D keys (gs[i := g]) (update_entry (keys ! i) f st)"
proof -
  define st' where "st' = update_entry (keys ! i) f st"
  obtain e where e: "hashtable st (keys ! i) = Some e" "ismodified e = (i \<in> D)" "ng_entry node (taken p D i) (gs ! i) e"
    by (rule ng_group [OF inv i])
  have ht: "hashtable st' = (hashtable st)(keys ! i \<mapsto> f e)" by (simp add: st'_def update_entry_def e(1))
  have same: "hasharray st' = hasharray st" "indexhasharray st' = indexhasharray st" "rtreeroot st' = rtreeroot st"
    "buffer_slot st' = buffer_slot st" "hasharray_cells st' = hasharray_cells st" "rtree_set st' = rtree_set st" by (simp_all add: st'_def update_entry_def)
  have mbr: "entry_mbr st' k = entry_mbr st k" for k
    using f [OF e(1,3)] e(1) by (simp add: entry_mbr_def ht)
  have A: "length keys = length gs" "distinct keys" "dom (hashtable st) = set keys"
    using inv by (simp_all add: ng_inv_def)
  have "\<exists>e. hashtable st' (keys ! j) = Some e \<and> ismodified e = (j \<in> D) \<and> ng_entry node (taken p D j) (gs[i := g] ! j) e"
    if j: "j < length gs" for j
  proof (cases "j = i")
    case True
    then show ?thesis using f [OF e(1,3)] e(2) i by (simp add: ht)
  next
    case False
    then have "keys ! j \<noteq> keys ! i" using A i j by (simp add: nth_eq_iff_index_eq)
    then show ?thesis using inv False j by (simp add: ht ng_inv_def)
  qed
  moreover have "dom (hashtable st') = set keys" using A i unfolding ht by auto
  ultimately show ?thesis using inv unfolding st'_def [symmetric] ng_inv_def same mbr by simp
qed

lemma copy_cells_sbox:
  assumes "sbox2 EPS q1 q2 ms" "length p1 = 5" "length p2 = 5"
  shows "sbox2 EPS (copy_cells 2 q1 p1) (copy_cells 2 q2 p2) ms"
  using assms by (simp add: sbox2_def copy_cells_def nth_append)

lemma ng_unbox:
  assumes inv: "ng_inv node p D keys gs st" and plan: "ng_plan node" and i: "i < length gs" "i \<notin> D"
    and q: "sbox2 (distanceall node) q1 q2 (insert p (set (members (gs ! i))))"
  obtains st' where "unbox_entry node (Suc i) (keys ! i) q1 q2 st = Some st'"
    "ng_inv node p (insert i D) keys gs st'" "globals st' = globals st"
    "\<And>j. j < length gs \<Longrightarrow> j \<noteq> i \<Longrightarrow> entry_mbr st' (keys ! j) = entry_mbr st (keys ! j)"
proof -
  have n2: "numCols node = 2" using plan by (simp add: ng_plan_def)
  obtain e where e: "hashtable st (keys ! i) = Some e" "ng_entry node (taken p D i) (gs ! i) e"
    by (rule ng_group [OF inv i(1)])
  have box: "sbox2 (distanceall node) (pivot1Slot e) (pivot2Slot e) (set (members (gs ! i)))"
    using e(2) i(2) by (simp add: ng_entry_def taken_def)
  then have len: "length (pivot1Slot e) = 5" "length (pivot2Slot e) = 5" by (simp_all add: sbox2_def)
  note B = sbox2_mbr [OF box]
  define f where "f = (\<lambda>k. entry_mbr st (keys ! (k - 1)))"
  have fi: "f (Suc i) = boxmbr (pivot1Slot e) (pivot2Slot e)" by (simp add: f_def entry_mbr_def e(1))
  have holds: "rti.holds (rtreeroot st) f ({1..length gs} - Suc ` D)" using inv by (simp add: ng_inv_def f_def)
  have "Suc i \<in> {1..length gs} - Suc ` D" using i by auto
  from rti.holds_del [OF holds this] B(2) obtain rt where rt: "index_delete (rtreeroot st) (f (Suc i)) (Suc i) = Some rt"
    "rti.holds rt f ({1..length gs} - Suc ` D - {Suc i})" by (auto simp: fi)
  obtain x where del: "RTreeDelete (rtreeroot st) (boxmbr (pivot1Slot e) (pivot2Slot e)) (Suc i) = Some (rt, x)"
    using rt(1) by (auto simp: index_delete_def fi)
  define e' where "e' = e\<lparr>pivot1Slot := copy_cells 2 q1 (pivot1Slot e), pivot2Slot := copy_cells 2 q2 (pivot2Slot e), ismodified := True\<rparr>"
  define st' where "st' = st\<lparr>rtreeroot := rt, hashtable := (hashtable st)(keys ! i \<mapsto> e')\<rparr>"
  have run: "unbox_entry node (Suc i) (keys ! i) q1 q2 st = Some st'"
    using e(1) B(1) del by (simp add: unbox_entry_def n2 st'_def e'_def update_entry_def)
  have A: "length keys = length gs" "distinct keys" "dom (hashtable st) = set keys"
    using inv by (simp_all add: ng_inv_def)
  have ne: "keys ! j \<noteq> keys ! i" if "j \<noteq> i" "j < length gs" for j
    using that A i(1) by (simp add: nth_eq_iff_index_eq)
  have ent: "\<exists>e. hashtable st' (keys ! j) = Some e \<and> ismodified e = (j \<in> insert i D) \<and>
      ng_entry node (taken p (insert i D) j) (gs ! j) e" if j: "j < length gs" for j
  proof (cases "j = i")
    case True
    have "sbox2 (distanceall node) (pivot1Slot e') (pivot2Slot e') (insert p (set (members (gs ! i))))"
      using copy_cells_sbox [OF q len] by (simp add: e'_def)
    then have "ng_entry node {p} (gs ! i) e'"
      using e(2) by (cases "gs ! i") (simp_all add: ng_entry_def e'_def)
    then show ?thesis using True by (simp add: st'_def e'_def taken_def)
  next
    case False
    then show ?thesis using inv j ne [OF False j] by (simp add: st'_def ng_inv_def taken_def)
  qed
  have same: "hasharray st' = hasharray st" "indexhasharray st' = indexhasharray st" "rtreeroot st' = rt"
    "buffer_slot st' = buffer_slot st" "hasharray_cells st' = hasharray_cells st" "rtree_set st' = rtree_set st" by (simp_all add: st'_def)
  have "{1..length gs} - Suc ` D - {Suc i} = {1..length gs} - Suc ` insert i D" by auto
  moreover have "rti.holds rt (\<lambda>k. entry_mbr st' (keys ! (k - 1))) ({1..length gs} - Suc ` D - {Suc i})"
  proof (rule rti.holds_cong [OF rt(2)])
    fix k assume "k \<in> {1..length gs} - Suc ` D - {Suc i}"
    then have "k - 1 \<noteq> i" "k - 1 < length gs" by auto
    then show "entry_mbr st' (keys ! (k - 1)) = f k" using ne by (simp add: f_def entry_mbr_def st'_def)
  qed
  ultimately have tree: "rti.holds rt (\<lambda>k. entry_mbr st' (keys ! (k - 1))) ({1..length gs} - Suc ` insert i D)" by simp
  have "dom (hashtable st') = set keys" using A i(1) by (auto simp: st'_def)
  then have "ng_inv node p (insert i D) keys gs st'"
    using inv ent tree i(1) unfolding ng_inv_def same by simp
  then show thesis using ne by (intro that [OF run]) (simp_all add: st'_def entry_mbr_def)
qed

text \<open>Putting a group back.\<close>

lemma ng_put_back:
  assumes inv: "ng_inv node p D keys gs st" and i: "i < length gs" "i \<in> D"
    and e: "hashtable st (keys ! i) = Some e"
  obtains rt x where "RTreeInsert (rtreeroot st) (boxmbr (pivot1Slot e) (pivot2Slot e)) (child_of_tid (Suc i)) 0 = Some (rt, x)"
    "getMBRHashEntry (pivot1Slot e) (pivot2Slot e) 2 = Some (boxmbr (pivot1Slot e) (pivot2Slot e))"
    "ismodified e"
    "ng_inv node p (D - {i}) keys gs (update_entry (keys ! i) (\<lambda>e. e\<lparr>ismodified := False\<rparr>) (st\<lparr>rtreeroot := rt\<rparr>))"
proof -
  have ent: "ismodified e = (i \<in> D)" "ng_entry node (taken p D i) (gs ! i) e"
    using ng_group [OF inv i(1)] e by auto
  have box: "sbox2 (distanceall node) (pivot1Slot e) (pivot2Slot e) (taken p D i \<union> set (members (gs ! i)))"
    using ent(2) by (simp add: ng_entry_def)
  note B = sbox2_mbr [OF box]
  define f where "f = (\<lambda>k. entry_mbr st (keys ! (k - 1)))"
  have fi: "f (Suc i) = boxmbr (pivot1Slot e) (pivot2Slot e)" by (simp add: f_def entry_mbr_def e)
  have holds: "rti.holds (rtreeroot st) f ({1..length gs} - Suc ` D)" using inv by (simp add: ng_inv_def f_def)
  have "Suc i \<notin> {1..length gs} - Suc ` D" using i(2) by simp
  from rti.holds_add [OF holds this] B(2) obtain rt where rt: "index_insert (rtreeroot st) (f (Suc i)) (Suc i) = Some rt"
    "rti.holds rt f (insert (Suc i) ({1..length gs} - Suc ` D))" by (auto simp: fi)
  obtain x where ins: "RTreeInsert (rtreeroot st) (boxmbr (pivot1Slot e) (pivot2Slot e)) (child_of_tid (Suc i)) 0 = Some (rt, x)"
    using rt(1) by (auto simp: index_insert_def fi)
  define st' where "st' = update_entry (keys ! i) (\<lambda>e. e\<lparr>ismodified := False\<rparr>) (st\<lparr>rtreeroot := rt\<rparr>)"
  have ht: "hashtable st' = (hashtable st)(keys ! i \<mapsto> e\<lparr>ismodified := False\<rparr>)"
    by (simp add: st'_def update_entry_def e)
  have A: "length keys = length gs" "distinct keys" "dom (hashtable st) = set keys" "D \<subseteq> {..<length gs}"
    using inv by (simp_all add: ng_inv_def)
  have ne: "keys ! j \<noteq> keys ! i" if "j \<noteq> i" "j < length gs" for j
    using that A i(1) by (simp add: nth_eq_iff_index_eq)
  have less: "ng_entry node (taken p (D - {i}) i) (gs ! i) (e\<lparr>ismodified := False\<rparr>)"
    using ent(2) sbox2_mono [OF box] by (auto simp: ng_entry_def taken_def split: option.splits)
  have entries: "\<exists>e. hashtable st' (keys ! j) = Some e \<and> ismodified e = (j \<in> D - {i}) \<and>
      ng_entry node (taken p (D - {i}) j) (gs ! j) e" if j: "j < length gs" for j
  proof (cases "j = i")
    case True
    then show ?thesis using less by (simp add: ht)
  next
    case False
    then show ?thesis using inv j ne [OF False j] by (simp add: ht ng_inv_def taken_def)
  qed
  have mbr: "entry_mbr st' k = entry_mbr st k" for k by (simp add: entry_mbr_def ht e)
  have "insert (Suc i) ({1..length gs} - Suc ` D) = {1..length gs} - Suc ` (D - {i})" using i by auto
  then have tree: "rti.holds rt (\<lambda>k. entry_mbr st' (keys ! (k - 1))) ({1..length gs} - Suc ` (D - {i}))"
    using rt(2) unfolding f_def mbr by simp
  have same: "hasharray st' = hasharray st" "indexhasharray st' = indexhasharray st" "rtreeroot st' = rt"
    "buffer_slot st' = buffer_slot st" "hasharray_cells st' = hasharray_cells st" "rtree_set st' = rtree_set st" by (simp_all add: st'_def update_entry_def)
  have dom: "dom (hashtable st') = set keys" using A i(1) by (auto simp: ht)
  have sub: "D - {i} \<subseteq> {..<length gs}" using A(4) by blast
  have "ng_inv node p (D - {i}) keys gs st'"
    using inv entries tree dom sub unfolding ng_inv_def same by simp
  then show thesis using that [OF ins B(1)] ent(1) i(2) by (simp add: st'_def)
qed

lemma newgroup_reinsert_ok:
  assumes "ng_plan node"
  shows "ng_inv node p D keys gs st \<Longrightarrow> D = (\<lambda>h. h - 1) ` set hs \<Longrightarrow> \<forall>h\<in>set hs. 1 \<le> h \<and> h \<le> length gs \<Longrightarrow> distinct hs \<Longrightarrow>
    \<exists>st'. newgroup_reinsert node init s (map int hs) st = Some st' \<and> ng_inv node p {} keys gs st'"
proof (induction hs arbitrary: D st)
  case Nil
  then show ?case by simp
next
  case (Cons h hs)
  have n2: "numCols node = 2" using assms by (simp add: ng_plan_def)
  define i where "i = h - 1"
  have i: "h = Suc i" "i < length gs" "i \<in> D" using Cons.prems(2,3) by (auto simp: i_def)
  obtain e where e: "hashtable st (keys ! i) = Some e" "hentry (hasharray st i) = Some (keys ! i)"
    by (rule ng_group [OF Cons.prems(1) i(2)])
  obtain rt x where r: "RTreeInsert (rtreeroot st) (boxmbr (pivot1Slot e) (pivot2Slot e)) (child_of_tid (Suc i)) 0 = Some (rt, x)"
    "getMBRHashEntry (pivot1Slot e) (pivot2Slot e) 2 = Some (boxmbr (pivot1Slot e) (pivot2Slot e))" "ismodified e"
    "ng_inv node p (D - {i}) keys gs (update_entry (keys ! i) (\<lambda>e. e\<lparr>ismodified := False\<rparr>) (st\<lparr>rtreeroot := rt\<rparr>))"
    by (rule ng_put_back [OF Cons.prems(1) i(2,3) e(1)])
  have cells: "\<not> hasharray_cells st \<le> i" using Cons.prems(1) i(2) by (simp add: ng_inv_def)
  have run: "newgroup_reinsert node init s (map int (h # hs)) st = newgroup_reinsert node init s (map int hs)
      (update_entry (keys ! i) (\<lambda>e. e\<lparr>ismodified := False\<rparr>) (st\<lparr>rtreeroot := rt\<rparr>))"
    unfolding list.map newgroup_reinsert.simps nat_int i(1) diff_Suc_1 using e r(1-3) cells by (simp add: n2)
  have "i \<notin> (\<lambda>h. h - 1) ` set hs"
  proof
    assume "i \<in> (\<lambda>h. h - 1) ` set hs"
    then obtain k where k: "k \<in> set hs" "i = k - 1" by blast
    then have "k = h" using Cons.prems(3) i(1) by (metis Suc_diff_1 list.set_intros(2) not_one_le_zero zero_less_iff_neq_zero One_nat_def Suc_pred)
    then show False using Cons.prems(4) k(1) by simp
  qed
  then have D: "D - {i} = (\<lambda>h. h - 1) ` set hs" using Cons.prems(2) i(1) by auto
  show ?case unfolding run by (rule Cons.IH [OF r(4) D]) (use Cons.prems(3,4) in auto)
qed

section \<open>Overlapped groups\<close>

lemma scanned_live:
  assumes "live_store ps (Group g)" "mset (keep sc) + mset (moved sc) = mset (tuples_headPtr g)"
    "slen sc + int (length (moved sc)) = member_len g" "1 \<le> slen sc"
  shows "live_store (map tpoint (keep sc)) (Group (scanned g sc))" "mset (map tpoint (keep sc)) \<subseteq># mset ps"
    "set (keep sc) \<subseteq> set (tuples_headPtr g)" "set (moved sc) \<subseteq> set (tuples_headPtr g)"
proof -
  have g: "map tpoint (tuples_headPtr g) = ps" "\<forall>t\<in>set (tuples_headPtr g). tuple_ok t" "member_len g = int (length ps)"
    using assms(1) by (auto simp: live_store_def)
  have "length (keep sc) + length (moved sc) = length (tuples_headPtr g)"
    using arg_cong [OF assms(2), of size] by simp
  then have len: "slen sc = int (length (keep sc))" using assms(3) g(1,3) by (metis add_right_cancel length_map of_nat_add)
  then have ne: "keep sc \<noteq> []" using assms(4) by auto
  have sub: "mset (keep sc) \<subseteq># mset (tuples_headPtr g)" unfolding assms(2) [symmetric] by simp
  then show keep: "set (keep sc) \<subseteq> set (tuples_headPtr g)" by (metis set_mset_mono set_mset_mset)
  have "mset (moved sc) \<subseteq># mset (tuples_headPtr g)" unfolding assms(2) [symmetric] by simp
  then show "set (moved sc) \<subseteq> set (tuples_headPtr g)" by (metis set_mset_mono set_mset_mset)
  show "mset (map tpoint (keep sc)) \<subseteq># mset ps"
    using image_mset_subseteq_mono [OF sub, of tpoint] by (simp add: g(1) [symmetric])
  show "live_store (map tpoint (keep sc)) (Group (scanned g sc))"
    using ne len keep g(2) by (auto simp: live_store_def scanned_def)
qed

lemma end_entry:
  assumes "ng_entry node X (Some ps) e" "live_store qs ts" "mset qs \<subseteq># mset ps"
  shows "ng_entry node X (if b then None else Some qs) (end_group b (e\<lparr>tuplestorestate := ts, tupleInmemolist := ml\<rparr>))"
    "ng_entry node X (if b then None else Some qs) (end_group b (e\<lparr>tuplestorestate := ts\<rparr>))"
proof -
  have sub: "set qs \<subseteq> set ps" using assms(3) by (metis set_mset_mono set_mset_mset)
  have "sbox2 (distanceall node) (pivot1Slot e) (pivot2Slot e) (X \<union> set (members (if b then None else Some qs)))"
    by (rule sbox2_mono [of _ _ _ "X \<union> set ps"]) (use assms(1) sub in \<open>auto simp: ng_entry_def members_def\<close>)
  then show "ng_entry node X (if b then None else Some qs) (end_group b (e\<lparr>tuplestorestate := ts, tupleInmemolist := ml\<rparr>))"
    "ng_entry node X (if b then None else Some qs) (end_group b (e\<lparr>tuplestorestate := ts\<rparr>))"
    using assms(1,2) by (cases b; simp add: ng_entry_def end_group_def)+
qed

lemma fresh_cand: "cand_box p (constructGroup_nohash 2 rx ry False)" "\<not> isexisit (constructGroup_nohash 2 rx ry False)"
  "member_len (constructGroup_nohash 2 rx ry False) = 0"
  by (auto simp: cand_box_def constructGroup_nohash_def less_2_cases_iff)

lemma cand_final:
  assumes "cand_box p tmp" "box_eps EPS" "pt_ok (fst p)" "pt_ok (snd p)" "(v ! 0, v ! 1) = p" "\<not> isexisit tmp"
  shows "cand_ok EPS p ((updatePivotByTuple_tmpGroup tmp v 2 EPS)\<lparr>member_len := k\<rparr>)"
  unfolding cand_ok_def
proof (intro conjI allI impI)
  fix p1 p2 :: "int list"
  assume "length p1 = 5" "length p2 = 5"
  then obtain a b c d e a' b' c' d' e' where l: "p1 = [a, b, c, d, e]" "p2 = [a', b', c', d', e']"
    using list5 by meson
  have v: "v ! 0 = fst p" "v ! 1 = snd p" using assms(5) by auto
  have "sbox2 EPS (copy_cells 2 (pivot1 (updatePivotByTuple_tmpGroup tmp v 2 EPS)) p1)
      (copy_cells 2 (pivot2 (updatePivotByTuple_tmpGroup tmp v 2 EPS)) p2) {p}"
    by (rule cand_box_step(2) [OF assms(1-4) _ _ _ _ assms(5) l])
      (use assms(2-4) in \<open>simp_all add: v [unfolded One_nat_def] box_eps_def\<close>)
  then show "sbox2 EPS (copy_cells 2 (pivot1 ((updatePivotByTuple_tmpGroup tmp v 2 EPS)\<lparr>member_len := k\<rparr>)) p1)
      (copy_cells 2 (pivot2 ((updatePivotByTuple_tmpGroup tmp v 2 EPS)\<lparr>member_len := k\<rparr>)) p2) {p}" by simp
qed (use assms(6) in simp)

lemma input_values_2:
  assumes "slot_ok s"
  shows "(input_values s 2 ! 0, input_values s 2 ! 1) = point_of s"
proof -
  have "slot2 s (fst (point_of s)) (snd (point_of s))" using assms by (simp add: slot_point_def)
  from slot2_get [OF this] show ?thesis by (simp add: input_values_def upt2 prod_eq_iff)
qed

lemma first_overlap_ok:
  assumes inv: "ng_inv node (point_of s) D keys gs st" and plan: "ng_plan node" and i: "i < length gs"
    and live: "gs ! i = Some ps" and s: "slot_ok s" "length s = 2"
  obtains tmp st' a where "first_overlap False node (metric node) s (Suc i) (keys ! i) st = Some (tmp, st')"
    "ng_inv node (point_of s) D keys (gs[i := a]) st'" "mset (members a) \<subseteq># mset ps"
    "0 < member_len tmp \<longrightarrow> cand_ok (distanceall node) (point_of s) tmp" "globals st' = globals st"
proof -
  let ?EPS = "distanceall node"
  have n: "numCols node = 2" "metric node = 1" "box_eps ?EPS" using plan by (simp_all add: ng_plan_def eps_box)
  have p: "pt_ok (fst (point_of s))" "pt_ok (snd (point_of s))" using s by (simp_all add: slot_point_def)
  obtain e where e: "hashtable st (keys ! i) = Some e" "ng_entry node (taken (point_of s) D i) (gs ! i) e"
    by (rule ng_group [OF inv i])
  have "live_store ps (tuplestorestate e)" using e(2) live by (simp add: ng_entry_def)
  then obtain g where g: "tuplestorestate e = Group g" "live_store ps (Group g)" "ps \<noteq> []"
    "map tpoint (tuples_headPtr g) = ps" "member_len g = int (length ps)"
    "\<forall>t\<in>set (tuples_headPtr g). tuple_ok t" unfolding live_store_def by auto
  define sc where "sc = scan_group (near_tuple ?EPS s) True (tuples_headPtr g) (scan_start g)"
  have near: "(\<lambda>t. InsideBound_tuple t s ?EPS 1 2) = near_tuple ?EPS s" by (simp add: near_tuple_def fun_eq_iff)
  have st0: "keep (scan_start g) = []" "moved (scan_start g) = []" "slen (scan_start g) = member_len g"
    by (simp_all add: scan_start_def)
  have cons: "mset (keep sc) + mset (moved sc) = mset (tuples_headPtr g)"
    using scan_group_conserves [of "near_tuple ?EPS s" True "tuples_headPtr g" "scan_start g"] by (simp add: sc_def st0)
  have cnt: "slen sc + int (length (moved sc)) = member_len g" "1 \<le> slen sc"
    using scan_group_counts [where st = "scan_start g" and ts = "tuples_headPtr g"] g(3,5)
    by (simp_all add: sc_def st0 Suc_le_eq)
  note L = scanned_live [OF g(2) cons cnt]
  have ne: "tuples_headPtr g \<noteq> []" using g(3,4) by auto
  then have "set (moved sc) \<subseteq> {t. near_tuple ?EPS s t}"
    using scan_group_moved_near [of "near_tuple ?EPS s" "hd (tuples_headPtr g)" "tl (tuples_headPtr g)" "scan_start g"]
    by (simp add: sc_def st0)
  then have mv: "\<forall>t\<in>set (moved sc). tuple_ok t \<and> \<bar>fst (tpoint t) - fst (point_of s)\<bar> \<le> ?EPS \<and>
      \<bar>snd (tpoint t) - snd (point_of s)\<bar> \<le> ?EPS"
    using L(4) g(6) near_tuple_L1 [OF s(1)] by fastforce
  obtain r1 sta where ra: "rand st = (r1, sta)" by fastforce
  obtain r2 stb where rb: "rand sta = (r2, stb)" by fastforce
  have same: "hashtable stb = hashtable st" "buffer_slot stb = buffer_slot st" "globals stb = globals st"
    "hasharray stb = hasharray st" "indexhasharray stb = indexhasharray st" "rtreeroot stb = rtreeroot st"
    "hasharray_cells stb = hasharray_cells st" "rtree_set stb = rtree_set st"
    using ra rb by (auto simp: rand_def)
  have buf: "length (buffer_slot st) = 2" using inv by (simp add: ng_inv_def)
  from move_tuples_ok [OF n(3) p s(2) fresh_cand(1,2) mv buf] obtain tmp gl buf' where
    m: "move_tuples s 2 ?EPS (moved sc) (constructGroup_nohash 2 (rem32 r1 10000) (rem32 r2 10000) False)
          (overlaptuplestorestate1 stb) (buffer_slot stb) = Some (tmp, gl, buf')"
    "cand_box (point_of s) tmp" "\<not> isexisit tmp" "length buf' = 2"
    unfolding same(2) by blast
  define r where "r = (\<lambda>t. \<lparr>sr_tmp = t, sr_group = scanned g sc, sr_memo = tupleInmemolist e, sr_global = gl,
      sr_buffer = buf', sr_iisempty = iisempty sc, sr_entryNULL = entryNULL sc\<rparr>)"
  define tmp' where "tmp' = (if member_len tmp = 0 then tmp
      else (updatePivotByTuple_tmpGroup tmp (input_values s 2) 2 ?EPS)\<lparr>member_len := member_len tmp + 1\<rparr>)"
  have find: "findIntersection_putIntoMemoList s g (tupleInmemolist e) (overlaptuplestorestate1 stb) (buffer_slot stb)
      ?EPS 1 2 (rem32 r1 10000) (rem32 r2 10000) = Some (r tmp')"
    using m(1) by (simp add: findIntersection_putIntoMemoList_def near sc_def [symmetric] r_def tmp'_def Let_def)
  define st1 where "st1 = stb\<lparr>overlaptuplestorestate1 := gl, buffer_slot := buf'\<rparr>"
  define st2 where "st2 = update_entry (keys ! i)
      (\<lambda>e. end_group (entryNULL sc) (e\<lparr>tuplestorestate := Group (scanned g sc), tupleInmemolist := tupleInmemolist e\<rparr>)) st1"
  have inv1: "ng_inv node (point_of s) D keys gs st1"
    using inv ng_inv_cong [of st1 st] buf m(4) same by (simp add: st1_def)
  let ?a = "if entryNULL sc then None else Some (map tpoint (keep sc))"
  have inv2: "ng_inv node (point_of s) D keys (gs[i := ?a]) st2"
    unfolding st2_def
  proof (rule ng_update [OF inv1 i])
    fix e' assume "ng_entry node (taken (point_of s) D i) (gs ! i) e'"
    then show "ng_entry node (taken (point_of s) D i) ?a
        (end_group (entryNULL sc) (e'\<lparr>tuplestorestate := Group (scanned g sc), tupleInmemolist := tupleInmemolist e'\<rparr>)) \<and>
      pivot1Slot (end_group (entryNULL sc) (e'\<lparr>tuplestorestate := Group (scanned g sc), tupleInmemolist := tupleInmemolist e'\<rparr>)) = pivot1Slot e' \<and>
      pivot2Slot (end_group (entryNULL sc) (e'\<lparr>tuplestorestate := Group (scanned g sc), tupleInmemolist := tupleInmemolist e'\<rparr>)) = pivot2Slot e' \<and>
      ismodified (end_group (entryNULL sc) (e'\<lparr>tuplestorestate := Group (scanned g sc), tupleInmemolist := tupleInmemolist e'\<rparr>)) = ismodified e'"
      by (intro conjI end_entry(1) [OF _ L(1,2)]) (simp_all add: live end_group_def)
  qed
  have ht1: "hashtable st1 (keys ! i) = Some e" by (simp add: st1_def same e(1))
  have upd: "update_entry (keys ! i) (\<lambda>e'. end_group (entryNULL sc) (e'\<lparr>tuplestorestate := Group (scanned g sc), tupleInmemolist := tupleInmemolist e\<rparr>)) st1 = st2"
    using ht1 by (simp add: st2_def update_entry_def)
  have run: "first_overlap False node (metric node) s (Suc i) (keys ! i) st =
      Some (tmp', set_cell_entry (Suc i) (keys ! i) st2)"
    using e(1) g(1) ra rb find upd by (simp add: first_overlap_def n(1,2) r_def st1_def)
  show thesis
  proof (rule that [OF run])
    show "ng_inv node (point_of s) D keys (gs[i := ?a]) (set_cell_entry (Suc i) (keys ! i) st2)"
      by (rule ng_set_cell [OF inv2]) (simp add: i)
    show "mset (members ?a) \<subseteq># mset ps" using L(2) by (simp add: members_def)
    show "0 < member_len tmp' \<longrightarrow> cand_ok ?EPS (point_of s) tmp'"
      using cand_final [OF m(2) n(3) p input_values_2 [OF s(1)] m(3)] by (simp add: tmp'_def)
    show "globals (set_cell_entry (Suc i) (keys ! i) st2) = globals st"
      by (simp add: set_cell_entry_def st2_def update_entry_def st1_def same)
  qed
qed

lemma next_overlap_ok:
  assumes inv: "ng_inv node (point_of s) D keys gs st" and plan: "ng_plan node" and i: "i < length gs"
    and live: "gs ! i = Some ps"
  obtains b st' a where "next_overlap node (metric node) s (Suc i) (keys ! i) st = Some (b, st')"
    "ng_inv node (point_of s) D keys (gs[i := a]) st'" "mset (members a) \<subseteq># mset ps" "globals st' = globals st"
proof -
  let ?EPS = "distanceall node"
  have n: "numCols node = 2" "metric node = 1" using plan by (simp_all add: ng_plan_def)
  obtain e where e: "hashtable st (keys ! i) = Some e" "ng_entry node (taken (point_of s) D i) (gs ! i) e"
    by (rule ng_group [OF inv i])
  have "live_store ps (tuplestorestate e)" using e(2) live by (simp add: ng_entry_def)
  then obtain g where g: "tuplestorestate e = Group g" "live_store ps (Group g)" "ps \<noteq> []"
    "member_len g = int (length ps)" unfolding live_store_def by auto
  define sc where "sc = scan_group_noreturn (\<lambda>t. InsideBound_tuple t s ?EPS 1 2) (tuples_headPtr g) (scan_start g)"
  have st0: "keep (scan_start g) = []" "moved (scan_start g) = []" "slen (scan_start g) = member_len g"
    by (simp_all add: scan_start_def)
  have cons: "mset (keep sc) + mset (moved sc) = mset (tuples_headPtr g)"
    and cnt: "slen sc + int (length (moved sc)) = member_len g" "1 \<le> slen sc"
    using scan_noreturn_counts [where st = "scan_start g" and ts = "tuples_headPtr g"] g(3,4)
    by (simp_all add: sc_def st0 Suc_le_eq)
  note L = scanned_live [OF g(2) cons cnt]
  define gl where "gl = map_option (\<lambda>ts. ts @ map (\<lambda>_. buffer_slot st) (moved sc)) (overlaptuplestorestate1 st)"
  have find: "findIntersection_putIntoMemoList_noreturn s g (overlaptuplestorestate1 st) (buffer_slot st) ?EPS 1 2
      = (scanned g sc, gl, iisempty sc, entryNULL sc)"
    by (simp add: findIntersection_putIntoMemoList_noreturn_def sc_def [symmetric] gl_def Let_def)
  define st1 where "st1 = st\<lparr>overlaptuplestorestate1 := gl\<rparr>"
  define st2 where "st2 = update_entry (keys ! i)
      (\<lambda>e. end_group (entryNULL sc) (e\<lparr>tuplestorestate := Group (scanned g sc)\<rparr>)) st1"
  have inv1: "ng_inv node (point_of s) D keys gs st1"
    using inv ng_inv_cong [of st1 st] by (simp add: st1_def)
  let ?a = "if entryNULL sc then None else Some (map tpoint (keep sc))"
  have inv2: "ng_inv node (point_of s) D keys (gs[i := ?a]) st2"
    unfolding st2_def
  proof (rule ng_update [OF inv1 i])
    fix e' assume "ng_entry node (taken (point_of s) D i) (gs ! i) e'"
    then show "ng_entry node (taken (point_of s) D i) ?a
        (end_group (entryNULL sc) (e'\<lparr>tuplestorestate := Group (scanned g sc)\<rparr>)) \<and>
      pivot1Slot (end_group (entryNULL sc) (e'\<lparr>tuplestorestate := Group (scanned g sc)\<rparr>)) = pivot1Slot e' \<and>
      pivot2Slot (end_group (entryNULL sc) (e'\<lparr>tuplestorestate := Group (scanned g sc)\<rparr>)) = pivot2Slot e' \<and>
      ismodified (end_group (entryNULL sc) (e'\<lparr>tuplestorestate := Group (scanned g sc)\<rparr>)) = ismodified e'"
      by (intro conjI end_entry(2) [OF _ L(1,2)]) (simp_all add: live end_group_def)
  qed
  have run: "next_overlap node (metric node) s (Suc i) (keys ! i) st =
      Some (iisempty sc, set_cell_entry (Suc i) (keys ! i) st2)"
    using e(1) g(1) find by (simp add: next_overlap_def n st1_def st2_def)
  show thesis
  proof (rule that [OF run])
    show "ng_inv node (point_of s) D keys (gs[i := ?a]) (set_cell_entry (Suc i) (keys ! i) st2)"
      by (rule ng_set_cell [OF inv2]) (simp add: i)
    show "mset (members ?a) \<subseteq># mset ps" using L(2) by (simp add: members_def)
    show "globals (set_cell_entry (Suc i) (keys ! i) st2) = globals st"
      by (simp add: set_cell_entry_def st2_def update_entry_def st1_def)
  qed
qed

section \<open>The loops\<close>

definition total :: "ngroup list \<Rightarrow> (int \<times> int) multiset" where
  "total gs = mset (concat (map members gs))"

lemma total_update:
  assumes "i < length gs" "mset (members a) \<subseteq># mset (members (gs ! i)) + X"
  shows "total (gs[i := a]) \<subseteq># total gs + X"
proof -
  have "total (gs[i := a]) + mset (members (gs ! i)) = total gs + mset (members a)"
    unfolding total_def by (rule mset_concat_update [OF assms(1)])
  then have "total (gs[i := a]) + mset (members (gs ! i)) \<subseteq># total gs + X + mset (members (gs ! i))"
    using assms(2) by (simp add: add.assoc add.commute)
  then show ?thesis by simp
qed

lemma newgroup_l1_hits_ok:
  assumes "ng_plan node" "slot_ok s"
  shows "ng_inv node (point_of s) D keys gs st \<Longrightarrow> distinct hs \<Longrightarrow>
    \<forall>h\<in>set hs. 1 \<le> h \<and> h \<le> length gs \<and> h - 1 \<notin> D \<and> mbr_le (pmbr (point_of s)) (entry_mbr st (keys ! (h - 1))) \<Longrightarrow>
    \<exists>st'. newgroup_l1_hits node init s (map int hs) k nc upd st = Some (nc + length hs,
        (if k = 0 \<and> hs \<noteq> [] then Some (keys ! (hd hs - 1)) else upd), st') \<and>
      ng_inv node (point_of s) (D \<union> (\<lambda>h. h - 1) ` set hs) keys gs st' \<and> globals st' = globals st"
proof (induction hs arbitrary: D st k nc upd)
  case Nil
  then show ?case by simp
next
  case (Cons h hs)
  let ?p = "point_of s"
  have n: "numCols node = 2" "box_eps (distanceall node)" using assms(1) by (simp_all add: ng_plan_def eps_box)
  define i where "i = h - 1"
  have i: "h = Suc i" "i < length gs" "i \<notin> D" "mbr_le (pmbr ?p) (entry_mbr st (keys ! i))"
    using Cons.prems(3) by (auto simp: i_def)
  obtain e where e: "hashtable st (keys ! i) = Some e" "ng_entry node (taken ?p D i) (gs ! i) e"
    by (rule ng_group [OF Cons.prems(1) i(2)])
  have box: "sbox2 (distanceall node) (pivot1Slot e) (pivot2Slot e) (set (members (gs ! i)))"
    using e(2) i(3) by (simp add: ng_entry_def taken_def)
  have in_box: "mbr_le (pmbr ?p) (boxmbr (pivot1Slot e) (pivot2Slot e))" using i(4) e(1) by (simp add: entry_mbr_def)
  obtain ov q1 q2 where q: "judgeJoinGroup 2 (pivot1Slot e) (pivot2Slot e) s (distanceall node) = (True, ov, q1, q2)"
    "sbox2 (distanceall node) q1 q2 (insert ?p (set (members (gs ! i))))"
    by (rule judge_sbox2 [OF box n(2) assms(2) in_box])
  obtain st1 where st1: "unbox_entry node (Suc i) (keys ! i) q1 q2 st = Some st1"
    "ng_inv node ?p (insert i D) keys gs st1" "globals st1 = globals st"
    "\<And>j. j < length gs \<Longrightarrow> j \<noteq> i \<Longrightarrow> entry_mbr st1 (keys ! j) = entry_mbr st (keys ! j)"
    using ng_unbox [OF Cons.prems(1) assms(1) i(2,3) q(2)] by blast
  define st2 where "st2 = set_cell_entry (Suc i) (keys ! i) (if k = 1 then put_overlap1 s st1 else st1)"
  have "ng_inv node ?p (insert i D) keys gs (if k = 1 then put_overlap1 s st1 else st1)"
    using st1(2) by (simp add: ng_put_overlap)
  from ng_set_cell [OF this i(2)] have inv2: "ng_inv node ?p (insert i D) keys gs st2" by (simp add: st2_def)
  have st2: "globals st2 = globals st" "entry_mbr st2 = entry_mbr st1"
    by (simp_all add: st2_def set_cell_entry_def put_overlap1_def st1(3) entry_mbr_def fun_eq_iff)
  have run: "newgroup_l1_hits node init s (map int (h # hs)) k nc upd st = newgroup_l1_hits node init s (map int hs)
      (k + 1) (nc + 1) (if k = 0 then Some (keys ! i) else upd) st2"
    unfolding list.map newgroup_l1_hits.simps nat_int i(1) ng_contain_entry [OF Cons.prems(1) i(2)]
    using e(1) q(1) st1(1) by (simp add: n(1) st2_def)
  have hs: "\<forall>h\<in>set hs. 1 \<le> h \<and> h \<le> length gs \<and> h - 1 \<notin> insert i D \<and>
      mbr_le (pmbr ?p) (entry_mbr st2 (keys ! (h - 1)))"
  proof
    fix j assume j: "j \<in> set hs"
    then have "j \<noteq> h" using Cons.prems(2) by auto
    moreover have b: "1 \<le> j" "j \<le> length gs" "j - 1 \<notin> D" "mbr_le (pmbr ?p) (entry_mbr st (keys ! (j - 1)))"
      using Cons.prems(3) j by auto
    ultimately have ne: "j - 1 \<noteq> i" using i(1) by auto
    have lt: "j - 1 < length gs" using b(1,2) by linarith
    show "1 \<le> j \<and> j \<le> length gs \<and> j - 1 \<notin> insert i D \<and> mbr_le (pmbr ?p) (entry_mbr st2 (keys ! (j - 1)))"
      using b ne st1(4) [OF lt ne] by (simp add: st2(2))
  qed
  have dist: "distinct hs" using Cons.prems(2) by simp
  obtain st' where r: "newgroup_l1_hits node init s (map int hs) (k + 1) (nc + 1) (if k = 0 then Some (keys ! i) else upd) st2
      = Some (nc + 1 + length hs, (if k + 1 = 0 \<and> hs \<noteq> [] then Some (keys ! (hd hs - 1)) else if k = 0 then Some (keys ! i) else upd), st')"
    "ng_inv node ?p (insert i D \<union> (\<lambda>h. h - 1) ` set hs) keys gs st'" "globals st' = globals st2"
    using Cons.IH [OF inv2 dist hs] by blast
  have "insert i D \<union> (\<lambda>h. h - 1) ` set hs = D \<union> (\<lambda>h. h - 1) ` set (h # hs)" using i(1) by auto
  then show ?case using run r st2(1) i(1) by auto
qed

definition cand_set :: "Agg_plan \<Rightarrow> slot \<Rightarrow> nat \<Rightarrow> tmpGroup option \<Rightarrow> bool" where
  "cand_set node s t c \<longleftrightarrow> (1 \<le> t \<longrightarrow> (\<exists>g. c = Some g \<and> cand_ok (distanceall node) (point_of s) g \<and> 0 < member_len g))"

lemma newgroup_l1_overlaps_ok:
  assumes "ng_plan node" "slot_ok s" "length s = 2"
  shows "ng_inv node (point_of s) D keys gs st \<Longrightarrow> \<forall>h\<in>set hs. 1 \<le> h \<and> h \<le> length gs \<Longrightarrow> cand_set node s t c \<Longrightarrow>
    \<exists>t' c' st' gs'. newgroup_l1_overlaps node init s (map int hs) k t door c st = Some (t', c', st') \<and>
      ng_inv node (point_of s) D keys gs' st' \<and> total gs' \<subseteq># total gs \<and> globals st' = globals st \<and>
      cand_set node s t' c'"
proof (induction hs arbitrary: gs st k t door c)
  case Nil
  then show ?case by auto
next
  case (Cons h hs)
  define i where "i = h - 1"
  have i: "h = Suc i" "i < length gs" using Cons.prems(2) by (auto simp: i_def)
  have hs: "\<forall>h\<in>set hs. 1 \<le> h \<and> h \<le> length gs" using Cons.prems(2) by simp
  obtain e where e: "hashtable st (keys ! i) = Some e" "ng_entry node (taken (point_of s) D i) (gs ! i) e"
    by (rule ng_group [OF Cons.prems(1) i(2)])
  note unf = list.map newgroup_l1_overlaps.simps nat_int i(1) ng_contain_entry [OF Cons.prems(1) i(2)]
  show ?case
  proof (cases "gs ! i")
    case None
    then have "flagEnabled e = 3" using e(2) by (simp add: ng_entry_def)
    then have "newgroup_l1_overlaps node init s (map int (h # hs)) k t door c st
        = newgroup_l1_overlaps node init s (map int hs) (k + 1) t door c st"
      unfolding unf using e(1) by simp
    then show ?thesis using Cons.IH [OF Cons.prems(1) hs Cons.prems(3)] by simp
  next
    case (Some ps)
    then have flag: "flagEnabled e = 1" using e(2) by (simp add: ng_entry_def)
    have mem: "members (gs ! i) = ps" using Some by (simp add: members_def)
    have finish: "\<exists>t' c' st' gs'. newgroup_l1_overlaps node init s (map int hs) (k + 1) t1 d1 c1 st1 = Some (t', c', st') \<and>
        ng_inv node (point_of s) D keys gs' st' \<and> total gs' \<subseteq># total gs \<and> globals st' = globals st \<and> cand_set node s t' c'"
      if inv1: "ng_inv node (point_of s) D keys (gs[i := a]) st1" and sub: "mset (members a) \<subseteq># mset ps"
        and g: "globals st1 = globals st" and c1: "cand_set node s t1 c1" for a t1 c1 st1 d1
    proof -
      have "total (gs[i := a]) \<subseteq># total gs + {#}" by (rule total_update [OF i(2)]) (simp add: mem sub)
      then have tot: "total (gs[i := a]) \<subseteq># total gs" by simp
      have "\<forall>h\<in>set hs. 1 \<le> h \<and> h \<le> length (gs[i := a])" using hs by simp
      from Cons.IH [OF inv1 this c1, of "k + 1" d1] show ?thesis using tot g by (metis subset_mset.order_trans)
    qed
    show ?thesis
    proof (cases "t < 1")
      case True
      obtain tmp st1 a where f: "first_overlap False node (metric node) s (Suc i) (keys ! i) st = Some (tmp, st1)"
        "ng_inv node (point_of s) D keys (gs[i := a]) st1" "mset (members a) \<subseteq># mset ps"
        "0 < member_len tmp \<longrightarrow> cand_ok (distanceall node) (point_of s) tmp" "globals st1 = globals st"
        by (rule first_overlap_ok [OF Cons.prems(1) assms(1) i(2) Some assms(2,3)])
      have run: "newgroup_l1_overlaps node init s (map int (h # hs)) k t door c st =
          (if member_len tmp \<le> 0 then newgroup_l1_overlaps node init s (map int hs) (k + 1) t door None st1
           else newgroup_l1_overlaps node init s (map int hs) (k + 1) (t + 1) door (Some tmp) st1)"
        unfolding unf using e(1) flag True f(1) by simp
      have "cand_set node s t None" "0 < member_len tmp \<Longrightarrow> cand_set node s (t + 1) (Some tmp)"
        using True f(4) by (simp_all add: cand_set_def)
      then show ?thesis unfolding run using finish [OF f(2,3,5)] by (cases "member_len tmp \<le> 0") auto
    next
      case False
      define d where "d = (k = 1 \<and> door)"
      define st0 where "st0 = (if d then put_overlap1 s st else st)"
      have inv0: "ng_inv node (point_of s) D keys gs st0" using Cons.prems(1) by (simp add: st0_def ng_put_overlap)
      obtain b st1 a where f: "next_overlap node (metric node) s (Suc i) (keys ! i) st0 = Some (b, st1)"
        "ng_inv node (point_of s) D keys (gs[i := a]) st1" "mset (members a) \<subseteq># mset ps" "globals st1 = globals st0"
        by (rule next_overlap_ok [OF inv0 assms(1) i(2) Some])
      have g: "globals st1 = globals st" using f(4) by (simp add: st0_def put_overlap1_def)
      have run: "newgroup_l1_overlaps node init s (map int (h # hs)) k t door c st =
          newgroup_l1_overlaps node init s (map int hs) (k + 1) (if b then t else t + 1) (door \<and> \<not> d) c st1"
        unfolding unf using e(1) flag False f(1) by (simp add: Let_def d_def st0_def)
      have "cand_set node s (if b then t else t + 1) c" using Cons.prems(3) False by (auto simp: cand_set_def)
      then show ?thesis unfolding run by (rule finish [OF f(2,3) g])
    qed
  qed
qed

section \<open>New groups and joins\<close>

lemma found_used:
  assumes inv: "ng_inv node p {} keys gs st" and used: "hash_key node m \<in> set keys"
  shows "found_group node init put_hull newbox s m st = Some (False, hash_key node m, st)"
proof -
  obtain i where i: "i < length gs" "hash_key node m = keys ! i"
    using used inv by (auto simp: ng_inv_def in_set_conv_nth)
  obtain e where e: "hashtable st (keys ! i) = Some e" "ng_entry node (taken p {} i) (gs ! i) e"
    by (rule ng_group [OF inv i(1)])
  have "flagEnabled e \<noteq> 0" using e(2) by (cases "gs ! i") (simp_all add: ng_entry_def)
  then show ?thesis using e(1) i(2) by (simp add: found_group_def lookup_hash_entry_def)
qed

lemma first_member:
  assumes "slot_ok s" "numCols node = 2"
  shows "live_store [point_of s] (put_member node s True (Group (constructGroup 2 rx ry False)))"
proof -
  have sp: "slot2 s (fst (point_of s)) (snd (point_of s))" "pt_ok (fst (point_of s))" "pt_ok (snd (point_of s))"
    using assms(1) by (simp_all add: slot_point_def)
  from slot2_get [OF sp(1)] sp(2,3) show ?thesis
    by (simp add: live_store_def put_member_def tmpGroup_puttupleslot_def assms(2) upt2 Let_def
        append_data_IntoTupleList_def new_tuple_def constructGroup_def tpoint_def tuple_ok_def)
qed

text \<open>The invariant after a new group.\<close>

lemma ng_inv_append:
  assumes inv: "ng_inv node p {} keys gs st" and fresh: "key \<notin> set keys"
    and g: "ng_entry node (taken p {} (length gs)) g e" "\<not> ismodified e"
    and k: "rti.holds (rtreeroot st') (\<lambda>k. if k = Suc (length gs) then boxmbr (pivot1Slot e) (pivot2Slot e)
      else entry_mbr st (keys ! (k - 1))) (insert (Suc (length gs)) {1..length gs})"
    and ht: "hashtable st' = (hashtable st)(key \<mapsto> e)" and buf: "buffer_slot st' = buffer_slot st"
    and ha: "hasharray st' = (hasharray st)(length gs := cell)" "hentry cell = Some key" "indexhasharray st' = Suc (length gs)"
      "hasharray_cells st' = hasharray_cells st" "rtree_set st' = rtree_set st" and room: "length gs < sizeofgroup"
  shows "ng_inv node p {} (keys @ [key]) (gs @ [g]) st'"
  unfolding ng_inv_def
proof (intro conjI allI impI)
  have A: "length keys = length gs" "distinct keys" "dom (hashtable st) = set keys" "length (buffer_slot st) = 2"
    using inv by (simp_all add: ng_inv_def)
  show "length (keys @ [key]) = length (gs @ [g])" "indexhasharray st' = length (gs @ [g])"
    using A(1) ha(3) by simp_all
  show "distinct (keys @ [key])" "dom (hashtable st') = set (keys @ [key])" using A(2,3) fresh by (auto simp: ht)
  show "{} \<subseteq> {..<length (gs @ [g])}" by simp
  show "rtree_set st'" "hasharray_cells st' = sizeofgroup" "length (gs @ [g]) \<le> sizeofgroup"
    using inv ha(4,5) room by (simp_all add: ng_inv_def)
  show "length (buffer_slot st') = 2" using A(4) by (simp add: buf)
  have ne: "keys ! i \<noteq> key" if "i < length gs" for i using fresh that A(1) nth_mem [of i keys] by metis
  fix i assume "i < length (gs @ [g])"
  then have i: "i = length gs \<or> i < length gs" by auto
  show "hentry (hasharray st' i) = Some ((keys @ [key]) ! i)"
    using i A(1) inv ha(2) by (auto simp: ha(1) nth_append ng_inv_def)
  show "\<exists>e. hashtable st' ((keys @ [key]) ! i) = Some e \<and> ismodified e = (i \<in> {}) \<and>
      ng_entry node (taken p {} i) ((gs @ [g]) ! i) e"
    using i g A(1) inv ne [of i] by (auto simp: ht nth_append ng_inv_def)
next
  have A: "length keys = length gs" using inv by (simp add: ng_inv_def)
  have "rti.holds (rtreeroot st') (\<lambda>k. entry_mbr st' ((keys @ [key]) ! (k - 1))) (insert (Suc (length gs)) {1..length gs})"
  proof (rule rti.holds_cong [OF k])
    fix j assume j: "j \<in> insert (Suc (length gs)) {1..length gs}"
    have "j - 1 < length gs \<and> keys ! (j - 1) \<noteq> key" if "j \<noteq> Suc (length gs)"
    proof -
      have "j - 1 < length gs" using j that by auto
      then show ?thesis using fresh A nth_mem [of "j - 1" keys] by metis
    qed
    then show "entry_mbr st' ((keys @ [key]) ! (j - 1)) =
        (if j = Suc (length gs) then boxmbr (pivot1Slot e) (pivot2Slot e) else entry_mbr st (keys ! (j - 1)))"
      using A by (auto simp: entry_mbr_def ht nth_append)
  qed
  moreover have "insert (Suc (length gs)) {1..length gs} = {1..length (gs @ [g])} - Suc ` {}" by auto
  ultimately show "rti.holds (rtreeroot st') (\<lambda>k. entry_mbr st' ((keys @ [key]) ! (k - 1))) ({1..length (gs @ [g])} - Suc ` {})"
    by simp
qed

lemma found_fresh:
  assumes inv: "ng_inv node (point_of s) {} keys gs st" and plan: "ng_plan node" and s: "slot_ok s"
    and fresh: "hash_key node m \<notin> set keys" and room: "length gs < sizeofgroup"
    and nb: "newbox [0, 0, 0, 0, 0] [0, 0, 0, 0, 0] = (b1, b2)" "sbox2 (distanceall node) b1 b2 {point_of s}"
  obtains st' where "found_group node init put_hull newbox s m st = Some (True, hash_key node m, st')"
    "ng_inv node (point_of s) {} (keys @ [hash_key node m]) (gs @ [Some [point_of s]]) st'" "globals st' = globals st"
    "indexhasharray st' = Suc (length gs)"
proof -
  have n2: "numCols node = 2" and ov: "overlap node = 2" using plan by (simp_all add: ng_plan_def)
  define key n where "key = hash_key node m" and "n = length gs"
  have A: "length keys = n" "indexhasharray st = n" "distinct keys" "dom (hashtable st) = set keys"
    "length (buffer_slot st) = 2" "\<And>i. i < n \<Longrightarrow> hentry (hasharray st i) = Some (keys ! i)"
    "\<And>i. i < n \<Longrightarrow> \<exists>e. hashtable st (keys ! i) = Some e \<and> ismodified e = (i \<in> {}) \<and> ng_entry node (taken (point_of s) {} i) (gs ! i) e"
    "rti.holds (rtreeroot st) (\<lambda>k. entry_mbr st (keys ! (k - 1))) {1..n}"
    using inv by (simp_all add: ng_inv_def n_def)
  have none: "hashtable st key = None" using fresh A(4) by (auto simp: key_def)
  obtain rx sta where ra: "rand st = (rx, sta)" by fastforce
  obtain ry stb where rb: "rand sta = (ry, stb)" by fastforce
  have same: "hashtable stb = hashtable st" "buffer_slot stb = buffer_slot st" "globals stb = globals st"
    "hasharray stb = hasharray st" "indexhasharray stb = n" "rtreeroot stb = rtreeroot st"
    "hasharray_cells stb = hasharray_cells st" "rtree_set stb = rtree_set st"
    using ra rb A(2) by (auto simp: rand_def)
  define e0 where "e0 = new_entry node init (rem32 rx 10000) (rem32 ry 10000)"
  define cell where "cell = \<lparr>hentry = Some key,
      inputslots = copyinputslottoDes m [0..<numCols node] [0, 0, 0, 0, 0],
      hpivot1 = [0, 0, 0, 0, 0], hpivot2 = [0, 0, 0, 0, 0], hnumAttr = numCols node\<rparr>"
  define st1 where "st1 = stb\<lparr>hashtable := (hashtable st)(key \<mapsto> e0), hasharray := (hasharray st)(n := cell)\<rparr>"
  have hr: "hash_room st" using inv room by (simp add: ng_inv_def hash_room_def)
  have look: "lookup_hash_entry node init st m = Some (key, st1)"
    using none ov ra rb hr by (simp add: lookup_hash_entry_def key_def Let_def st1_def e0_def cell_def A(2) same)
  have e0: "flagEnabled e0 = 0" "tuplestorestate e0 = Group (constructGroup 2 (rem32 rx 10000) (rem32 ry 10000) False)"
    "pivot1Slot e0 = [0, 0, 0, 0, 0]" "pivot2Slot e0 = [0, 0, 0, 0, 0]" "\<not> ismodified e0"
    using ov n2 by (simp_all add: e0_def new_entry_def zero_entry_def)
  note B = sbox2_mbr [OF nb(2)]
  define f where "f = (\<lambda>k. if k = Suc n then boxmbr b1 b2 else entry_mbr st (keys ! (k - 1)))"
  have "rti.holds (rtreeroot st) f {1..n}" by (rule rti.holds_cong [OF A(8)]) (simp add: f_def)
  from rti.holds_add [OF this, of "Suc n"] obtain rt where t: "index_insert (rtreeroot st) (boxmbr b1 b2) (Suc n) = Some rt"
    "rti.holds rt f (insert (Suc n) {1..n})" using B(2) by (auto simp: f_def)
  then obtain x where t': "RTreeInsert (rtreeroot st) (boxmbr b1 b2) (child_of_tid (n + 1)) 0 = Some (rt, x)"
    by (auto simp: index_insert_def)
  define e1 where "e1 = e0\<lparr>flagEnabled := 1, tuplestorestate := put_member node s True (tuplestorestate e0),
      convex_ptr := map_option put_hull (convex_ptr e0), pivot1Slot := b1, pivot2Slot := b2\<rparr>"
  define st' where "st' = st1\<lparr>rtreeroot := rt, indexhasharray := n + 1, hashtable := (hashtable st)(key \<mapsto> e1)\<rparr>"
  have run: "found_group node init put_hull newbox s m st = Some (True, key, st')"
    using look e0(1,3,4) nb(1) B(1) t'
    by (simp add: found_group_def n2 st1_def st'_def update_entry_def e1_def same)
  have g1: "ng_entry node (taken (point_of s) {} n) (Some [point_of s]) e1"
    using nb(2) first_member [OF s n2] by (simp add: ng_entry_def e1_def e0 members_def taken_def)
  have ht: "hashtable st' = (hashtable st)(key \<mapsto> e1)" and ha: "hasharray st' = (hasharray st)(n := cell)"
    and buf: "buffer_slot st' = buffer_slot st"
    by (simp_all add: st'_def st1_def same)
  have inv': "ng_inv node (point_of s) {} (keys @ [key]) (gs @ [Some [point_of s]]) st'"
    by (rule ng_inv_append [OF inv fresh [folded key_def] g1 [unfolded n_def] _ _ ht buf ha [unfolded n_def]])
       (use t(2) e0(5) room in \<open>simp_all add: st'_def st1_def same cell_def n_def f_def [abs_def] e1_def cong: if_cong\<close>)
  show thesis
    by (rule that [OF run [unfolded key_def] inv' [unfolded key_def]]) (simp_all add: st'_def st1_def same n_def)
qed

lemma random_slot_ok:
  assumes inv: "ng_inv node p D keys gs st" and "numCols node = 2" "length s = 2"
  obtains m st1 where "random_slot a b1 b2 node s st = Some (m, st1)" "ng_inv node p D keys gs st1"
    "globals st1 = globals st"
proof -
  obtain r1 sta where ra: "rand st = (r1, sta)" by fastforce
  obtain r2 stb where rb: "rand sta = (r2, stb)" by fastforce
  have same: "hashtable stb = hashtable st" "buffer_slot stb = buffer_slot st" "globals stb = globals st"
    "hasharray stb = hasharray st" "indexhasharray stb = indexhasharray st" "rtreeroot stb = rtreeroot st"
    "hasharray_cells stb = hasharray_cells st" "rtree_set stb = rtree_set st"
    using ra rb by (auto simp: rand_def)
  have "ng_inv node p D keys gs stb" using inv ng_inv_cong [of stb st] same by simp
  then show thesis using that same(3) ra rb assms(2,3)
    by (simp add: random_slot_def random_key_values_def Let_def heap_modify_tuple_def)
qed

lemma own_box_ok:
  assumes "slot_ok s" "ng_plan node"
  obtains b1 b2 where "own_box node s [0, 0, 0, 0, 0] [0, 0, 0, 0, 0] = (b1, b2)"
    "sbox2 (distanceall node) b1 b2 {point_of s}"
proof -
  have n: "numCols node = 2" "box_eps (distanceall node)" using assms(2) by (simp_all add: ng_plan_def eps_box)
  obtain p1 p2 where cp: "copyfromTupleTableToArray [0, 0, 0, 0, 0] [0, 0, 0, 0, 0] s 2 = (p1, p2)" by fastforce
  obtain b1 b2 where up: "updateInputSlotbyEPS p1 p2 2 (distanceall node) = (b1, b2)" by fastforce
  have sp: "slot2 s (fst (point_of s)) (snd (point_of s))" "pt_ok (fst (point_of s))" "pt_ok (snd (point_of s))"
    using assms(1) by (simp_all add: slot_point_def)
  have "box2 (distanceall node) b1 b2 {point_of s}" "length b1 = 5" "length b2 = 5"
    using new_box2 [OF sp n(2) _ _ cp up] by simp_all
  then show thesis using that box2_sbox2 n(2) cp up by (simp add: own_box_def n(1))
qed

lemma join_update_ok:
  assumes inv: "ng_inv node (point_of s) D keys gs st" and plan: "ng_plan node" and i: "i < length gs" "i \<in> D"
    and s: "slot_ok s"
  obtains st' a where "join_update node s (Some (keys ! i)) st = Some st'"
    "ng_inv node (point_of s) D keys (gs[i := a]) st'" "globals st' = globals st"
    "mset (members a) \<subseteq># mset (members (gs ! i)) + {#point_of s#}"
proof -
  have n2: "numCols node = 2" using plan by (simp add: ng_plan_def)
  obtain e where e: "hashtable st (keys ! i) = Some e" "ng_entry node (taken (point_of s) D i) (gs ! i) e"
    by (rule ng_group [OF inv i(1)])
  show thesis
  proof (cases "gs ! i")
    case None
    then have "flagEnabled e = 3" using e(2) by (simp add: ng_entry_def)
    then have "join_update node s (Some (keys ! i)) st = Some st" using e(1) by (simp add: join_update_def)
    then show thesis using that [of st "gs ! i"] inv by simp
  next
    case (Some ps)
    have flag: "flagEnabled e = 1" using e(2) Some by (simp add: ng_entry_def)
    define st1 where "st1 = update_entry (keys ! i)
        (\<lambda>e. e\<lparr>tuplestorestate := put_member node s False (tuplestorestate e)\<rparr>) st"
    have sp: "slot2 s (fst (point_of s)) (snd (point_of s))" "pt_ok (fst (point_of s))" "pt_ok (snd (point_of s))"
      using s by (simp_all add: slot_point_def)
    have put: "live_store (ps @ [point_of s]) (put_member node s False ts)" if "live_store ps ts" for ts
    proof -
      obtain g where g: "ts = Group g" "map tpoint (tuples_headPtr g) = ps" "\<forall>t\<in>set (tuples_headPtr g). tuple_ok t"
        "member_len g = int (length ps)" "endPtr g \<noteq> None" using \<open>live_store ps ts\<close> unfolding live_store_def by auto
      from slot2_get [OF sp(1)] sp(2,3) g show ?thesis
        by (auto simp: live_store_def put_member_def tmpGroup_puttupleslot_def n2 upt2 Let_def
          append_data_IntoTupleList_def new_tuple_def tpoint_def tuple_ok_def)
    qed
    have inv1: "ng_inv node (point_of s) D keys (gs[i := Some (ps @ [point_of s])]) st1"
      unfolding st1_def
    proof (rule ng_update [OF inv i(1)])
      fix e' assume e': "ng_entry node (taken (point_of s) D i) (gs ! i) e'"
      have "taken (point_of s) D i \<union> set (members (Some (ps @ [point_of s])))
          = taken (point_of s) D i \<union> set (members (gs ! i))"
        using i(2) Some by (simp add: taken_def members_def)
      then show "ng_entry node (taken (point_of s) D i) (Some (ps @ [point_of s]))
            (e'\<lparr>tuplestorestate := put_member node s False (tuplestorestate e')\<rparr>) \<and>
          pivot1Slot (e'\<lparr>tuplestorestate := put_member node s False (tuplestorestate e')\<rparr>) = pivot1Slot e' \<and>
          pivot2Slot (e'\<lparr>tuplestorestate := put_member node s False (tuplestorestate e')\<rparr>) = pivot2Slot e' \<and>
          ismodified (e'\<lparr>tuplestorestate := put_member node s False (tuplestorestate e')\<rparr>) = ismodified e'"
        using e' put Some by (simp add: ng_entry_def)
    qed
    have "ng_inv node (point_of s) D keys (gs[i := Some (ps @ [point_of s])]) (st1\<lparr>stray_entry := Some (keys ! i)\<rparr>)"
      using inv1 by (simp add: ng_inv_cong [of "st1\<lparr>stray_entry := Some (keys ! i)\<rparr>" st1])
    moreover have "join_update node s (Some (keys ! i)) st = Some (st1\<lparr>stray_entry := Some (keys ! i)\<rparr>)"
      using e(1) flag by (simp add: join_update_def st1_def)
    ultimately show thesis using that Some by (simp add: members_def st1_def update_entry_def)
  qed
qed

section \<open>The handler\<close>

lemma total_snoc: "total (gs @ [Some [p]]) = total gs + {#p#}"
  by (simp add: total_def members_def)

definition settled :: "Agg_plan \<Rightarrow> slot \<Rightarrow> nat set \<Rightarrow> ngroup list \<Rightarrow> bool \<Rightarrow> 'a AggState \<Rightarrow> 'a AggState \<Rightarrow> bool" where
  "settled node s D gs grows st st' \<longleftrightarrow> (\<exists>keys' gs'. ng_inv node (point_of s) D keys' gs' st' \<and> length gs \<le> length gs' \<and>
     length gs' \<le> Suc (length gs) \<and> total gs' \<subseteq># total gs + {#point_of s#} \<and> globals st' = globals st \<and>
     (grows \<longrightarrow> length gs < length gs'))"

lemma settledI:
  "ng_inv node (point_of s) D keys' gs' st' \<Longrightarrow> length gs \<le> length gs' \<Longrightarrow> length gs' \<le> Suc (length gs) \<Longrightarrow>
     total gs' \<subseteq># total gs + {#point_of s#} \<Longrightarrow> globals st' = globals st \<Longrightarrow>
     (grows \<longrightarrow> length gs < length gs') \<Longrightarrow> settled node s D gs grows st st'"
  unfolding settled_def by blast

lemma settled_same: "ng_inv node (point_of s) D keys gs st' \<Longrightarrow> globals st' = globals st \<Longrightarrow> settled node s D gs False st st'"
  unfolding settled_def by (intro exI [of _ keys] exI [of _ gs]) simp

lemma newgroup_l1_settle_ok:
  assumes inv: "ng_inv node (point_of s) D keys gs st" and plan: "ng_plan node" and s: "slot_ok s" "length s = 2"
    and nc: "nc = card D" "1 \<le> nc \<longrightarrow> (\<exists>i\<in>D. upd = Some (keys ! i))" and c: "cand_set node s t c"
    and room: "length gs < sizeofgroup"
  shows "\<exists>st'. newgroup_l1_settle node init s nc upd t c st = Some st' \<and>
     settled node s D gs (nc = 0 \<and> t = 0 \<and> keys = []) st st'"
proof -
  have finD: "finite D" and subD: "D \<subseteq> {..<length gs}" using inv finite_subset by (auto simp: ng_inv_def)
  have n2: "numCols node = 2" using plan by (simp add: ng_plan_def)
  consider (new) "nc = 0" "t = 0" | (join) "t = 0" "nc = 1" | (cand) "t = 1" "nc = 0"
    | (out) "\<not> (nc = 0 \<and> t = 0)" "\<not> (t = 0 \<and> nc = 1)" "\<not> (t = 1 \<and> nc = 0)" by linarith
  then show ?thesis
  proof cases
    case new
    have D: "D = {}" using new nc(1) finD by simp
    obtain m st1 where m: "random_slot 50000000 20000000 1000000 node s st = Some (m, st1)"
      "ng_inv node (point_of s) D keys gs st1" "globals st1 = globals st"
      by (rule random_slot_ok [OF inv n2 s(2)])
    obtain b1 b2 where b: "own_box node s [0, 0, 0, 0, 0] [0, 0, 0, 0, 0] = (b1, b2)"
      "sbox2 (distanceall node) b1 b2 {point_of s}" by (rule own_box_ok [OF s(1) plan])
    have inv1: "ng_inv node (point_of s) {} keys gs st1" using m(2) D by simp
    have run: "newgroup_l1_settle node init s nc upd t c st =
        map_option (\<lambda>(b, k, st2). st2) (found_group node init (\<lambda>h. h) (own_box node s) s m st1)"
      using new m(1) by (simp add: newgroup_l1_settle_def)
    show ?thesis
    proof (cases "hash_key node m \<in> set keys")
      case True
      have "newgroup_l1_settle node init s nc upd t c st = Some st1"
        using run found_used [OF inv1 True] by simp
      moreover have "keys \<noteq> []" using True by auto
      ultimately show ?thesis using settled_same [OF m(2,3)] by simp
    next
      case False
      obtain st' where r: "found_group node init (\<lambda>h. h) (own_box node s) s m st1 = Some (True, hash_key node m, st')"
        "ng_inv node (point_of s) {} (keys @ [hash_key node m]) (gs @ [Some [point_of s]]) st'" "globals st' = globals st1"
        by (rule found_fresh [where newbox = "own_box node s", OF inv1 plan s(1) False room b])
      have "settled node s {} gs (nc = 0 \<and> t = 0 \<and> keys = []) st st'"
        by (rule settledI [OF r(2)]) (simp_all add: total_snoc r(3) m(3))
      then show ?thesis using run r(1) D by simp
    qed
  next
    case join
    then obtain i where i: "i \<in> D" "upd = Some (keys ! i)" using nc(2) by auto
    then have il: "i < length gs" using subD by auto
    obtain st' a where r: "join_update node s (Some (keys ! i)) st = Some st'"
      "ng_inv node (point_of s) D keys (gs[i := a]) st'" "globals st' = globals st"
      "mset (members a) \<subseteq># mset (members (gs ! i)) + {#point_of s#}"
      by (rule join_update_ok [OF inv plan il i(1) s(1)])
    have "newgroup_l1_settle node init s nc upd t c st = Some st'"
      using join i(2) r(1) by (simp add: newgroup_l1_settle_def)
    moreover have "settled node s D gs (nc = 0 \<and> t = 0 \<and> keys = []) st st'"
      by (rule settledI [OF r(2) _ _ total_update [OF il r(4)] r(3)]) (simp_all add: join)
    ultimately show ?thesis by blast
  next
    case cand
    then have D: "D = {}" using nc(1) finD by simp
    obtain g where g: "c = Some g" "cand_ok (distanceall node) (point_of s) g" "0 < member_len g"
      using c cand by (auto simp: cand_set_def)
    obtain m st1 where m: "random_slot 50000000 1000000 1000000 node s st = Some (m, st1)"
      "ng_inv node (point_of s) D keys gs st1" "globals st1 = globals st"
      by (rule random_slot_ok [OF inv n2 s(2)])
    have b: "candidate_box node g [0, 0, 0, 0, 0] [0, 0, 0, 0, 0] =
        (copy_cells 2 (pivot1 g) [0, 0, 0, 0, 0], copy_cells 2 (pivot2 g) [0, 0, 0, 0, 0])"
      "sbox2 (distanceall node) (copy_cells 2 (pivot1 g) [0, 0, 0, 0, 0]) (copy_cells 2 (pivot2 g) [0, 0, 0, 0, 0]) {point_of s}"
      using g(2) by (simp_all add: candidate_box_def n2 cand_ok_def)
    have inv1: "ng_inv node (point_of s) {} keys gs st1" using m(2) D by simp
    have run: "newgroup_l1_settle node init s nc upd t c st =
        map_option (\<lambda>(b, k, st2). if b then set_cell_entry (indexhasharray st2) k st2 else st2)
          (found_group node init (\<lambda>h. h) (candidate_box node g) s m st1)"
      using cand m(1) g by (simp add: newgroup_l1_settle_def cand_ok_def)
    show ?thesis
    proof (cases "hash_key node m \<in> set keys")
      case True
      have "newgroup_l1_settle node init s nc upd t c st = Some st1"
        using run found_used [OF inv1 True] by simp
      moreover have "keys \<noteq> []" using True by auto
      ultimately show ?thesis using settled_same [OF m(2,3)] by simp
    next
      case False
      obtain st' where r: "found_group node init (\<lambda>h. h) (candidate_box node g) s m st1 = Some (True, hash_key node m, st')"
        "ng_inv node (point_of s) {} (keys @ [hash_key node m]) (gs @ [Some [point_of s]]) st'" "globals st' = globals st1"
        "indexhasharray st' = Suc (length gs)"
        by (rule found_fresh [where newbox = "candidate_box node g", OF inv1 plan s(1) False room b])
      have len: "length keys = length gs" using inv by (simp add: ng_inv_def)
      define st2 where "st2 = set_cell_entry (Suc (length gs)) (hash_key node m) st'"
      have "ng_inv node (point_of s) {} (keys @ [hash_key node m]) (gs @ [Some [point_of s]]) st2"
        using ng_set_cell [OF r(2), of "length gs"] by (simp add: st2_def len [symmetric])
      then have "settled node s {} gs (nc = 0 \<and> t = 0 \<and> keys = []) st st2"
        by (rule settledI) (simp_all add: total_snoc r(3) m(3) st2_def set_cell_entry_def)
      then show ?thesis using run r(1,4) D by (simp add: st2_def)
    qed
  next
    case out
    then have "newgroup_l1_settle node init s nc upd t c st = Some st" by (auto simp: newgroup_l1_settle_def)
    moreover have eq: "(nc = 0 \<and> t = 0 \<and> keys = []) = False" using out by blast
    ultimately show ?thesis unfolding eq using settled_same [OF inv refl] by simp
  qed
qed

lemma point_search:
  assumes "rti.holds rt f S" "S \<subseteq> {..sizeofgroup}"
  obtains hits g' where "contain_search rt (pmbr p) False g = Some (length hits, g')" "contain_ids g' = map int hits"
    "overlap_ids g' = []" "distinct hits" "set hits = {i \<in> S. mbr_le (pmbr p) (f i)}"
proof -
  have "wf_root rt" using assms by (simp add: rti.holds_def)
  from contain_search_hits [OF this holds_fit [OF assms]] obtain hits g' where h: "contain_search rt (pmbr p) False g = Some (length hits, g')"
    "contain_ids g' = map int hits" "overlap_ids g' = []"
    "stops_late False 0 hits (answers (pmbr p) True (node_entries (root_node rt)))" by metis
  then have hits: "hits = answers (pmbr p) True (node_entries (root_node rt))" by (simp add: stops_late_def)
  have "proper (pmbr p)" by (simp add: pmbr_def proper_def)
  then have w: "wanted (pmbr p) True r \<longleftrightarrow> mbr_le (pmbr p) r" for r
    using Contained_iff Contained_Overlap unfolding wanted_def by auto
  show thesis using that [OF h(1-3)] holds_answers [OF assms(1), of "pmbr p" True] by (simp add: hits w)
qed

lemma overlap_search:
  assumes "rti.holds rt f S" "S \<subseteq> {..sizeofgroup}" "overlap_ids g = []"
  obtains hits g' where
    "search_result (RTreeSearch rt MySearchCallback m False False (Some (g\<lparr>iscontain_M := False\<rparr>))) = Some (length hits, g')"
    "overlap_ids g' = map int hits" "contain_ids g' = contain_ids g" "set hits \<subseteq> S"
proof -
  let ?g = "g\<lparr>iscontain_M := False\<rparr>"
  define hits where "hits = answers m False (node_entries (root_node rt))"
  have "wf_root rt" using assms by (simp add: rti.holds_def)
  then obtain l where "wf_node l (root_node rt)" unfolding wf_root_def by blast
  then have h: "RTreeSearchRect MySearchCallback m False False (root_node rt) (Some ?g)
      = Some (length hits, fold record_hit hits (Some ?g))"
    using SearchRect_filter [OF callback_always_on, of l "root_node rt" m False False "Some ?g"]
    by (auto simp: stops_late_def hits_def)
  have g: "\<not> iscontain_M ?g" "index_overlap ?g + length hits \<le> sizeofgroup" "overlap_ids ?g = []" "contain_ids ?g = contain_ids g"
    using answers_fit(1) [OF holds_fit [OF assms(1,2)], of m False] assms(3)
    by (simp_all add: overlap_ids_def contain_ids_def hits_def)
  obtain g' where g': "fold record_hit hits (Some ?g) = Some g'" "overlap_ids g' = overlap_ids ?g @ map int hits"
    "contain_ids g' = contain_ids ?g"
    by (rule fold_record_overlap [OF g(1,2)])
      (use answers_fit(2) [OF holds_fit [OF assms(1,2)], of m False] in \<open>auto simp: hits_def\<close>)
  show thesis
    by (rule that [of hits g'])
      (use h g' g(3,4) holds_answers(1) [OF assms(1), of m False] in \<open>auto simp: RTreeSearch_def hits_def\<close>)
qed

lemma slot_bigger_mbr:
  assumes "numCols node = 2"
  shows "\<exists>m. getMBRinputSlotBigger s (numCols node) EPS = Some m"
  using assms by (simp add: getMBRinputSlotBigger_def Let_def)

lemma newgroup_l1_step:
  assumes inv: "ng_inv node q {} keys gs st" and plan: "ng_plan node" and s: "slot_ok s" "length s = 2"
    and room: "length gs < sizeofgroup"
  shows "\<exists>st' keys' gs'. agg_fill_hash_table_overlap_newgroup_l1 node init st s = Some st' \<and>
     ng_inv node (point_of s) {} keys' gs' st' \<and> total gs' \<subseteq># total gs + {#point_of s#} \<and>
     length gs \<le> length gs' \<and> length gs' \<le> Suc (length gs) \<and> gs' \<noteq> []"
proof -
  let ?p = "point_of s"
  have n2: "numCols node = 2" using plan by (simp add: ng_plan_def)
  have inv: "ng_inv node ?p {} keys gs st" using assms(1) by (simp add: ng_inv_def taken_def)
  have m: "getMBRinputSlot s (numCols node) = Some (pmbr ?p)" using slot_point_mbr [OF s(1)] n2 by simp
  have holds: "rti.holds (rtreeroot st) (\<lambda>k. entry_mbr st (keys ! (k - 1))) {1..length gs}"
    using inv by (simp add: ng_inv_def)
  obtain hits g1 where h: "contain_search (rtreeroot st) (pmbr ?p) False (globals st) = Some (length hits, g1)"
    "contain_ids g1 = map int hits" "overlap_ids g1 = []" "distinct hits"
    "set hits = {i \<in> {1..length gs}. mbr_le (pmbr ?p) (entry_mbr st (keys ! (i - 1)))}"
    by (rule point_search [OF holds]) (use room in auto)
  define st0 where "st0 = st\<lparr>globals := g1\<rparr>"
  have inv0: "ng_inv node ?p {} keys gs st0" using inv by (simp add: st0_def ng_inv_globals)
  have "entry_mbr st0 = entry_mbr st" by (simp add: st0_def entry_mbr_def fun_eq_iff)
  then have hok: "\<forall>h\<in>set hits. 1 \<le> h \<and> h \<le> length gs \<and> h - 1 \<notin> {} \<and> mbr_le (pmbr ?p) (entry_mbr st0 (keys ! (h - 1)))"
    using h(5) by simp
  define D where "D = (\<lambda>h. h - 1) ` set hits"
  define upd where "upd = (if hits \<noteq> [] then Some (keys ! (hd hits - 1)) else None)"
  obtain st1 where r1: "newgroup_l1_hits node init s (map int hits) 0 0 None st0 = Some (length hits, upd, st1)"
    "ng_inv node ?p D keys gs st1" "globals st1 = g1"
    using newgroup_l1_hits_ok [OF plan s(1) inv0 h(4) hok, of init 0 0 None] by (auto simp: D_def upd_def st0_def)
  have run1: "(if length hits > 0 then newgroup_l1_hits node init s (contain_ids g1) 0 0 None st0 else Some (0, None, st0))
      = Some (length hits, upd, st1)"
    using r1(1) h(2) by (cases hits) auto
  obtain m2 where m2: "getMBRinputSlotBigger s (numCols node) (distanceall node) = Some m2"
    using slot_bigger_mbr [OF n2] by blast
  have holds1: "rti.holds (rtreeroot st1) (\<lambda>k. entry_mbr st1 (keys ! (k - 1))) ({1..length gs} - Suc ` D)"
    using r1(2) by (simp add: ng_inv_def)
  obtain hits2 g2 where h2: "search_result (RTreeSearch (rtreeroot st1) MySearchCallback m2 False False
      (Some (g1\<lparr>iscontain_M := False\<rparr>))) = Some (length hits2, g2)"
    "overlap_ids g2 = map int hits2" "contain_ids g2 = contain_ids g1" "set hits2 \<subseteq> {1..length gs} - Suc ` D"
    by (rule overlap_search [OF holds1 _ h(3)]) (use room in auto)
  define st1' where "st1' = st1\<lparr>globals := g2\<rparr>"
  have inv1': "ng_inv node ?p D keys gs st1'" using r1(2) by (simp add: st1'_def ng_inv_globals)
  have h2ok: "\<forall>h\<in>set hits2. 1 \<le> h \<and> h \<le> length gs" using h2(4) by auto
  have c0: "cand_set node s 0 None" by (simp add: cand_set_def)
  obtain t c st2 gs2 where r2: "newgroup_l1_overlaps node init s (map int hits2) 0 0 True None st1' = Some (t, c, st2)"
    "ng_inv node ?p D keys gs2 st2" "total gs2 \<subseteq># total gs" "globals st2 = g2" "cand_set node s t c"
    using newgroup_l1_overlaps_ok [OF plan s inv1' h2ok c0, of init 0 True] by (auto simp: st1'_def)
  have run2: "(if length hits2 > 0 then newgroup_l1_overlaps node init s (overlap_ids g2) 0 0 True None st1' else Some (0, None, st1'))
      = Some (t, c, st2)"
    using r2(1) h2(2) by (cases hits2) auto
  have len: "length gs = length gs2"
    using r1(2) r2(2) by (simp add: ng_inv_def)
  have inj: "inj_on (\<lambda>h. h - 1) (set hits)"
  proof (rule inj_onI)
    fix x y assume "x \<in> set hits" "y \<in> set hits" "x - 1 = y - 1"
    moreover have "1 \<le> x" "1 \<le> y" using calculation(1,2) h(5) by auto
    ultimately show "x = y" by linarith
  qed
  have card: "length hits = card D" using card_image [OF inj] distinct_card [OF h(4)] by (simp add: D_def)
  have "\<exists>i\<in>D. upd = Some (keys ! i)" if "1 \<le> length hits"
    using that hd_in_set [of hits] by (cases hits) (auto simp: upd_def D_def)
  then have upd: "1 \<le> length hits \<longrightarrow> (\<exists>i\<in>D. upd = Some (keys ! i))" by blast
  obtain st3 where r3: "newgroup_l1_settle node init s (length hits) upd t c st2 = Some st3" "settled node s D gs2 (length hits = 0 \<and> t = 0 \<and> keys = []) st2 st3"
    using newgroup_l1_settle_ok [OF r2(2) plan s card upd r2(5)] room len by auto
  obtain keys3 gs3 where i3: "ng_inv node ?p D keys3 gs3 st3" "length gs2 \<le> length gs3"
    "total gs3 \<subseteq># total gs2 + {#?p#}" "globals st3 = g2"
    "length hits = 0 \<and> t = 0 \<and> keys = [] \<longrightarrow> length gs2 < length gs3" "length gs3 \<le> Suc (length gs2)"
    using r3(2) r2(4) unfolding settled_def by blast
  have tot: "total gs3 \<subseteq># total gs + {#?p#}"
    using i3(3) r2(3) by (meson subset_mset.add_right_mono subset_mset.order_trans)
  have hand: "agg_fill_hash_table_overlap_newgroup_l1 node init st s =
      (if length hits > 0 then newgroup_reinsert node init s (contain_ids (globals st3)) st3 else Some st3)"
    by (simp only: agg_fill_hash_table_overlap_newgroup_l1_def m h(1) option.case prod.case run1 [unfolded st0_def]
      m2 r1(3) h2(1) run2 [unfolded st1'_def] r3(1))
  have lens: "length gs \<le> length gs3 \<and> length gs3 \<le> Suc (length gs) \<and> gs3 \<noteq> []"
  proof (cases gs)
    case Nil
    then have e: "hits = []" "hits2 = []" "keys = []" using h(5) h2(4) inv by (auto simp: ng_inv_def)
    then have "t = 0" using r2(1) by simp
    then show ?thesis using i3(5,6) e len by auto
  next
    case Cons
    then show ?thesis using i3(2,6) len by auto
  qed
  have ids: "contain_ids (globals st3) = map int hits" using i3(4) h2(3) h(2) by simp
  show ?thesis
  proof (cases hits)
    case Nil
    then have "D = {}" by (simp add: D_def)
    then show ?thesis using hand Nil i3(1) tot lens by auto
  next
    case (Cons x xs)
    have b: "\<forall>h\<in>set hits. 1 \<le> h \<and> h \<le> length gs3" using hok len i3(2) by auto
    obtain st' where "newgroup_reinsert node init s (map int hits) st3 = Some st'" "ng_inv node ?p {} keys3 gs3 st'"
      using newgroup_reinsert_ok [OF plan i3(1) D_def b h(4)] by blast
    then show ?thesis using hand Cons ids tot lens by auto
  qed
qed

section \<open>The tuple counter\<close>

text \<open>No handler changes the number of tuples read.\<close>

lemma rand_count: "rand st = (r, st') \<Longrightarrow> numbertuples st' = numbertuples st"
  by (auto simp: rand_def)

lemma lookup_count:
  "lookup_hash_entry node init st s = Some (k, st') \<Longrightarrow> numbertuples st' = numbertuples st"
  "lookup_hash_entry_group node init st s = (b, st') \<Longrightarrow> numbertuples st' = numbertuples st"
  by (auto simp: lookup_hash_entry_def lookup_hash_entry_group_def Let_def rand_def split: option.splits if_splits)

lemma contain_entry_count:
  "contain_entry node init s h st = Some (k, st') \<Longrightarrow> numbertuples st' = numbertuples st"
  by (auto simp: contain_entry_def Let_def dest!: lookup_count split: option.splits prod.splits if_splits)

lemma update_count [simp]:
  "numbertuples (update_entry k f st) = numbertuples st" "numbertuples (set_cell_entry h k st) = numbertuples st"
  "numbertuples (put_overlap1 s st) = numbertuples st"
  by (simp_all add: update_entry_def set_cell_entry_def put_overlap1_def)

lemma block_count:
  "unbox_entry node h k q1 q2 st = Some st' \<Longrightarrow> numbertuples st' = numbertuples st"
  "next_overlap node metr s h k st = Some (b, st') \<Longrightarrow> numbertuples st' = numbertuples st"
  "join_update node s u st = Some st' \<Longrightarrow> numbertuples st' = numbertuples st"
  by (auto simp: unbox_entry_def next_overlap_def join_update_def Let_def
      split: option.splits prod.splits if_splits store.splits)

lemma first_overlap_count:
  "first_overlap cv node metr s h k st = Some (tmp, st') \<Longrightarrow> numbertuples st' = numbertuples st"
  by (auto simp: first_overlap_def dest!: rand_count split: option.splits prod.splits store.splits)

lemma found_group_count:
  "found_group node init ph nb s m st = Some (b, k, st') \<Longrightarrow> numbertuples st' = numbertuples st"
  by (auto simp: found_group_def dest!: lookup_count split: option.splits prod.splits if_splits)

lemma random_slot_count:
  "random_slot a b1 b2 node s st = Some (m, st') \<Longrightarrow> numbertuples st' = numbertuples st"
  by (auto simp: random_slot_def random_key_values_def Let_def dest!: rand_count split: prod.splits if_splits)

lemma hits_count:
  "newgroup_l1_hits node init s cs k nc u st = Some (nc', u', st') \<Longrightarrow> numbertuples st' = numbertuples st"
proof (induction cs arbitrary: k nc u st)
  case (Cons c cs)
  show ?case using Cons.prems
    by (auto dest!: Cons.IH contain_entry_count block_count(1) split: option.splits prod.splits if_splits)
qed simp

lemma overlaps_count:
  "newgroup_l1_overlaps node init s cs k t d c st = Some (t', c', st') \<Longrightarrow> numbertuples st' = numbertuples st"
proof (induction cs arbitrary: k t d c st)
  case (Cons h cs)
  show ?case using Cons.prems
    by (auto simp: Let_def dest!: Cons.IH contain_entry_count block_count(2) first_overlap_count
        split: option.splits prod.splits if_splits)
qed simp

lemma settle_count:
  "newgroup_l1_settle node init s nc u t c st = Some st' \<Longrightarrow> numbertuples st' = numbertuples st"
  by (auto simp: newgroup_l1_settle_def dest!: block_count(3) random_slot_count found_group_count
      split: option.splits prod.splits if_splits)

lemma reinsert_count:
  "newgroup_reinsert node init s cs st = Some st' \<Longrightarrow> numbertuples st' = numbertuples st"
proof (induction cs arbitrary: st)
  case (Cons h cs)
  show ?case using Cons.prems
    by (auto simp: bind_eq_Some_conv dest!: Cons.IH lookup_count split: option.splits prod.splits if_splits)
qed simp

lemma newgroup_l1_count:
  "agg_fill_hash_table_overlap_newgroup_l1 node init st s = Some st' \<Longrightarrow> numbertuples st' = numbertuples st"
  unfolding agg_fill_hash_table_overlap_newgroup_l1_def
  by (auto dest!: hits_count overlaps_count settle_count reinsert_count split: option.splits prod.splits if_splits)

section \<open>Transition states\<close>

text \<open>The handlers do not touch the transition states of the aggregates.\<close>

definition untouched :: "'a \<Rightarrow> 'a AggState \<Rightarrow> bool" where
  "untouched init st \<longleftrightarrow> (\<forall>k e. hashtable st k = Some e \<longrightarrow> pergroup e = init)"

lemma untouched_rand: "rand st = (r, st') \<Longrightarrow> untouched init st \<Longrightarrow> untouched init st'"
  by (auto simp: rand_def untouched_def)

lemma untouched_frame [simp]:
  "untouched init (st\<lparr>globals := g\<rparr>) = untouched init st" "untouched init (st\<lparr>rtreeroot := t\<rparr>) = untouched init st"
  "untouched init (st\<lparr>overlaptuplestorestate1 := gl, buffer_slot := b\<rparr>) = untouched init st"
  "untouched init (st\<lparr>overlaptuplestorestate1 := gl\<rparr>) = untouched init st"
  "untouched init (st\<lparr>stray_entry := k\<rparr>) = untouched init st"
  "untouched init (st\<lparr>rtreeroot := t, indexhasharray := n\<rparr>) = untouched init st"
  "untouched init (set_cell_entry h key st) = untouched init st" "untouched init (put_overlap1 s st) = untouched init st"
  by (simp_all add: untouched_def set_cell_entry_def put_overlap1_def)

lemma untouched_update [simp]:
  "untouched init st \<Longrightarrow> \<forall>e. pergroup (f e) = pergroup e \<Longrightarrow> untouched init (update_entry k f st)"
  by (auto simp: untouched_def update_entry_def split: if_splits)

lemma untouched_lookup:
  "lookup_hash_entry node init st s = Some (k, st') \<Longrightarrow> untouched init st \<Longrightarrow> untouched init st'"
  "lookup_hash_entry_group node init st s = (b, st') \<Longrightarrow> untouched init st \<Longrightarrow> untouched init st'"
  by (auto simp: lookup_hash_entry_def lookup_hash_entry_group_def Let_def rand_def untouched_def new_entry_def
      zero_entry_def split: option.splits if_splits)

lemma untouched_contain:
  "contain_entry node init s h st = Some (k, st') \<Longrightarrow> untouched init st \<Longrightarrow> untouched init st'"
  by (auto simp: contain_entry_def Let_def dest: untouched_lookup split: option.splits prod.splits if_splits)

lemma end_group_pergroup [simp]: "pergroup (end_group b e) = pergroup e"
  by (simp add: end_group_def)

lemma untouched_block:
  "unbox_entry node h k q1 q2 st = Some st' \<Longrightarrow> untouched init st \<Longrightarrow> untouched init st'"
  "next_overlap node metr s h k st = Some (b, st') \<Longrightarrow> untouched init st \<Longrightarrow> untouched init st'"
  "join_update node s u st = Some st' \<Longrightarrow> untouched init st \<Longrightarrow> untouched init st'"
  by (auto simp: unbox_entry_def next_overlap_def join_update_def Let_def
      split: option.splits prod.splits if_splits store.splits)

lemma untouched_first:
  "first_overlap cv node metr s h k st = Some (tmp, st') \<Longrightarrow> untouched init st \<Longrightarrow> untouched init st'"
  by (auto simp: first_overlap_def dest!: untouched_rand split: option.splits prod.splits store.splits)

lemma untouched_found:
  "found_group node init ph nb s m st = Some (b, k, st') \<Longrightarrow> untouched init st \<Longrightarrow> untouched init st'"
  by (auto simp: found_group_def dest!: untouched_lookup(1) split: option.splits prod.splits if_splits)

lemma untouched_random:
  "random_slot a b1 b2 node s st = Some (m, st') \<Longrightarrow> untouched init st \<Longrightarrow> untouched init st'"
  by (auto simp: random_slot_def random_key_values_def Let_def dest!: untouched_rand split: prod.splits if_splits)

lemma untouched_hits:
  "newgroup_l1_hits node init s cs k nc u st = Some (nc', u', st') \<Longrightarrow> untouched init st \<Longrightarrow> untouched init st'"
proof (induction cs arbitrary: k nc u st)
  case (Cons c cs)
  show ?case using Cons.prems
    by (auto dest!: Cons.IH untouched_contain untouched_block(1) split: option.splits prod.splits if_splits)
qed simp

lemma untouched_overlaps:
  "newgroup_l1_overlaps node init s cs k t d c st = Some (t', c', st') \<Longrightarrow> untouched init st \<Longrightarrow> untouched init st'"
proof (induction cs arbitrary: k t d c st)
  case (Cons h cs)
  show ?case using Cons.prems
    by (auto simp: Let_def dest!: Cons.IH untouched_contain untouched_block(2) untouched_first
        split: option.splits prod.splits if_splits)
qed simp

lemma untouched_settle:
  "newgroup_l1_settle node init s nc u t c st = Some st' \<Longrightarrow> untouched init st \<Longrightarrow> untouched init st'"
  by (auto simp: newgroup_l1_settle_def dest!: untouched_block(3) untouched_random untouched_found
      split: option.splits prod.splits if_splits)

lemma untouched_reinsert:
  "newgroup_reinsert node init s cs st = Some st' \<Longrightarrow> untouched init st \<Longrightarrow> untouched init st'"
proof (induction cs arbitrary: st)
  case (Cons h cs)
  show ?case using Cons.prems
    by (auto simp: bind_eq_Some_conv dest!: Cons.IH untouched_lookup(1) split: option.splits prod.splits if_splits)
qed simp

lemma untouched_newgroup_l1:
  "agg_fill_hash_table_overlap_newgroup_l1 node init st s = Some st' \<Longrightarrow> untouched init st \<Longrightarrow> untouched init st'"
  unfolding agg_fill_hash_table_overlap_newgroup_l1_def
  by (auto dest!: untouched_hits untouched_overlaps untouched_settle untouched_reinsert
      split: option.splits prod.splits if_splits)

end
