(* ===== verification/SGBNewGroupRun.thy ===== *)
theory SGBNewGroupRun
  imports SGBToAll SGBNewGroupInv "HOL-Library.List_Lexorder" "HOL-Library.Option_ord"
begin

text \<open>
  The SGB-All operator with overlap NEW-GROUP and metric 1 on a whole input: the handler of
  \<open>SGBNewGroup\<close> behind the input loop of \<open>SGBToAll\<close>, then \<open>sgb_newgroup_helper\<close> and the
  retrieval. Proved: the groups are disjoint cliques of the input with the aggregates of exactly
  their points, and inputs of one or two tuples get rows whose aggregates never saw a tuple.
\<close>

section \<open>The input\<close>

text \<open>The abstract state is the points read so far: the groups use each at most once, so the cells
  of \<open>hasharray\<close> are enough for the first 2,000,000 points.\<close>

definition budget_step :: "(int \<times> int) multiset \<Rightarrow> slot \<Rightarrow> (int \<times> int) multiset \<Rightarrow> bool" where
  "budget_step B s B' \<longleftrightarrow> B' = add_mset (point_of s) B"

definition budget_inv :: "Agg_plan \<Rightarrow> 'a \<Rightarrow> (int \<times> int) multiset \<Rightarrow> 'a AggState \<Rightarrow> bool" where
  "budget_inv node init B st \<longleftrightarrow> size B \<le> sizeofgroup \<longrightarrow> ng_plan node \<and> untouched init st \<and>
     (\<exists>keys gs. ng_inv node (0, 0) {} keys gs st \<and> total gs \<subseteq># B \<and> length gs \<le> size B \<and> (B \<noteq> {#} \<longrightarrow> gs \<noteq> []))"

lemma ng_inv_point: "ng_inv node p {} keys gs st = ng_inv node q {} keys gs st"
  by (simp add: ng_inv_def taken_def)

interpretation newgroup_l1: refined_reader "sgb_all_tuple acos node init advance" count_tuple
    "budget_inv node init" budget_step "\<lambda>s. slot_ok s \<and> length s = 2" size sizeofgroup
  for acos node init advance
proof unfold_locales
  fix B st s
  assume a: "budget_inv node init B st" "slot_ok s \<and> length s = 2"
  show "case sgb_all_tuple acos node init advance st s of None \<Rightarrow> sizeofgroup \<le> size B
      | Some st' \<Rightarrow> \<exists>B'. budget_inv node init B' st' \<and> budget_step B s B'"
  proof (cases "size B < sizeofgroup")
    case False
    then show ?thesis by (simp add: budget_inv_def budget_step_def split: option.split)
  next
    case True
    then obtain keys gs where i: "ng_inv node (0, 0) {} keys gs st" "total gs \<subseteq># B" "ng_plan node" "untouched init st"
      "length gs \<le> size B" using a(1) unfolding budget_inv_def by auto
    have "length gs < sizeofgroup" using i(5) True by simp
    from newgroup_l1_step [OF i(1,3) _ _ this, of s init] a(2) obtain st' keys' gs' where
      r: "agg_fill_hash_table_overlap_newgroup_l1 node init st s = Some st'" "ng_inv node (point_of s) {} keys' gs' st'"
      "total gs' \<subseteq># total gs + {#point_of s#}" "length gs' \<le> Suc (length gs)" "gs' \<noteq> []" by blast
    have "total gs' \<subseteq># add_mset (point_of s) B"
      using subset_mset.order_trans [OF r(3) subset_mset.add_right_mono [OF i(2)]] by simp
    moreover have "length gs' \<le> size (add_mset (point_of s) B)" using r(4) i(5) by simp
    ultimately have "budget_inv node init (add_mset (point_of s) B) st'"
      using i(3) r(2,5) untouched_newgroup_l1 [OF r(1) i(4)] ng_inv_point [of node "point_of s" keys' gs' st' "(0, 0)"]
      unfolding budget_inv_def by blast
    moreover have "sgb_all_tuple acos node init advance st s = Some st'"
      using r(1) i(1,3) by (simp add: sgb_all_tuple_def ng_plan_def ng_inv_def)
    ultimately show ?thesis by (simp add: budget_step_def)
  qed
next
  fix B s B' assume "budget_step B s B'"
  then show "size B' \<le> Suc (size B)" by (simp add: budget_step_def)
next
  fix B st assume a: "budget_inv node init B st"
  have "ng_inv node (0, 0) {} keys gs (count_tuple st) = ng_inv node (0, 0) {} keys gs st" for keys gs
    by (rule ng_inv_cong) (simp_all add: count_tuple_def)
  moreover have "untouched init (count_tuple st) = untouched init st" by (simp add: untouched_def count_tuple_def)
  ultimately show "budget_inv node init B (count_tuple st)" using a by (simp add: budget_inv_def)
qed

lemma budget_read: "reads budget_step {#} ss B \<Longrightarrow> B = mset (map point_of ss)"
  by (induction rule: reads.induct) (simp_all add: budget_step_def)

lemma read_input_count:
  assumes "\<And>st s st'. handle st s = Some st' \<Longrightarrow> numbertuples st' = numbertuples st"
  shows "read_input handle count_tuple st ss = Some st' \<Longrightarrow> numbertuples st' = numbertuples st + length ss"
proof (induction ss arbitrary: st)
  case (Cons s ss)
  from Cons.prems obtain st1 where 1: "handle st s = Some st1" "read_input handle count_tuple (count_tuple st1) ss = Some st'"
    by (auto split: option.splits)
  show ?case using Cons.IH [OF 1(2)] assms [OF 1(1)] by (simp add: count_tuple_def)
qed simp

lemma newgroup_input:
  assumes "ng_plan node" "all_start st" "list_all (\<lambda>s. slot_ok s \<and> length s = 2) ss" "ss \<noteq> []"
    "length ss \<le> sizeofgroup"
  obtains st1 keys gs where
    "sgb_all_input acos node init advance (case ss of [] \<Rightarrow> st | s # _ \<Rightarrow> st\<lparr>buffer_slot := s\<rparr>) ss = Some st1"
    "ng_inv node (0, 0) {} keys gs st1" "total gs \<subseteq># mset (map point_of ss)" "gs \<noteq> []" "untouched init st1"
    "numbertuples st1 = numbertuples st + length ss"
proof -
  define st0 where "st0 = (case ss of [] \<Rightarrow> st | s # _ \<Rightarrow> st\<lparr>buffer_slot := s\<rparr>)"
  have s0: "all_start st0" "length (buffer_slot st0) = 2" "numbertuples st0 = numbertuples st"
    using start_buffered [OF assms(2), of ss] assms(3,4) by (cases ss; simp add: st0_def)+
  have h0: "hashtable st0 = (\<lambda>_. None)" using s0(1) by (simp add: all_start_def)
  have "rti.holds RTreeCreate f {}" for f
    by (simp add: rti.holds_def Create_wf Create_entries)
  then have "ng_inv node (0, 0) {} [] [] st0" using s0(1,2) by (simp add: ng_inv_def all_start_def)
  moreover have "untouched init st0" by (simp add: untouched_def h0)
  moreover have "total [] \<subseteq># {#}" by (simp add: total_def)
  ultimately have "budget_inv node init {#} st0"
    using assms(1) by (auto simp: budget_inv_def intro!: exI [of _ "[]"])
  moreover have "size ({#} :: (int \<times> int) multiset) + length ss \<le> sizeofgroup" using assms(5) by simp
  ultimately obtain st1 B where
    r: "read_input (sgb_all_tuple acos node init advance) count_tuple st0 ss = Some st1"
    "budget_inv node init B st1" "reads budget_step {#} ss B"
    using newgroup_l1.runs [OF _ assms(3)] by metis
  have B: "B = mset (map point_of ss)" by (rule budget_read [OF r(3)])
  have one: "numbertuples st' = numbertuples st" if "sgb_all_tuple acos node init advance st s = Some st'" for st s st'
    using that assms(1) newgroup_l1_count [of node init st s st'] by (simp add: sgb_all_tuple_def ng_plan_def split: if_splits)
  have "numbertuples st1 = numbertuples st0 + length ss"
    by (rule read_input_count [OF one r(1)])
  moreover have "size B \<le> sizeofgroup" "B \<noteq> {#}" using B assms(4,5) by simp_all
  ultimately show thesis
    using that [of st1] r(1,2) B s0(3) unfolding budget_inv_def sgb_all_input_def st0_def by auto
qed

section \<open>The aggregates\<close>

definition point_slot :: "int \<times> int \<Rightarrow> slot" where
  "point_slot p = slot_of [fst p, snd p]"

lemma advance_members_fold:
  assumes "numCols node = 2" "length buf = 2"
  shows "advance_members node advance buf ts x = Some (fold advance (map (\<lambda>t. point_slot (tpoint t)) ts) x)"
  using assms puttuple_2 [OF assms(2)] by (induction ts arbitrary: x) (simp_all add: point_slot_def tpoint_def)

definition finished :: "Agg_plan \<Rightarrow> 'a \<Rightarrow> (slot \<Rightarrow> 'a \<Rightarrow> 'a) \<Rightarrow> ngroup \<Rightarrow> 'a AggHashEntry \<Rightarrow> bool" where
  "finished node init advance a e \<longleftrightarrow> (case a of None \<Rightarrow> flagEnabled e = 0
     | Some ps \<Rightarrow> ps \<noteq> [] \<and> flagEnabled e = 2 \<and> clique (distanceall node) (set ps) \<and>
         pergroup e = fold advance (map point_slot ps) init)"

lemma finish_entry_ok:
  assumes "ng_entry node X a e" "numCols node = 2" "length buf = 2"
  obtains e' where "finish_entry node init advance buf e = Some e'" "finished node init advance a e'"
proof (cases a)
  case None
  then show thesis using that assms(1) by (simp add: ng_entry_def finish_entry_def finished_def)
next
  case (Some ps)
  then obtain g where g: "tuplestorestate e = Group g" "map tpoint (tuples_headPtr g) = ps" "ps \<noteq> []" "flagEnabled e = 1"
    using assms(1) by (auto simp: ng_entry_def live_store_def)
  have "clique (distanceall node) (X \<union> set ps)"
    using assms(1) sbox2_clique [of "distanceall node" "pivot1Slot e" "pivot2Slot e" "X \<union> set ps"]
    by (simp add: ng_entry_def Some members_def clique_def)
  then have "clique (distanceall node) (set ps)" by (simp add: clique_def)
  moreover have "map (\<lambda>t. point_slot (tpoint t)) (tuples_headPtr g) = map point_slot ps"
    unfolding g(2) [symmetric] by simp
  moreover have "tuples_headPtr g \<noteq> []" using g(2,3) by auto
  ultimately show thesis
    by (intro that [of "e\<lparr>pergroup := fold advance (map point_slot ps) init, flagEnabled := 2, tuplestorestate := NoStore\<rparr>"])
      (simp_all add: finish_entry_def finished_def Some g(1,3,4) advance_members_fold [OF assms(2,3)])
qed

text \<open>The walk changes the entries one by one.\<close>

lemma aggfunction_walk:
  assumes "distinct ks" "set ks \<subseteq> dom (hashtable st)" "dom (hashtable st) = set keys" "length keys = length gs" "distinct keys"
    "\<And>i e. i < length gs \<Longrightarrow> keys ! i \<in> set ks \<Longrightarrow> hashtable st (keys ! i) = Some e \<Longrightarrow>
       \<exists>e'. finish_entry node init advance (buffer_slot st) e = Some e' \<and> Q (gs ! i) e'"
  obtains st' where "sgb_newgroup_aggfunction node init advance ks st = Some st'" "dom (hashtable st') = set keys"
    "\<And>k. k \<notin> set ks \<Longrightarrow> hashtable st' k = hashtable st k"
    "\<And>i. i < length gs \<Longrightarrow> keys ! i \<in> set ks \<Longrightarrow> \<exists>e. hashtable st' (keys ! i) = Some e \<and> Q (gs ! i) e"
    "buffer_slot st' = buffer_slot st" "overlaptuplestorestate1 st' = overlaptuplestorestate1 st"
  using assms
proof (induction ks arbitrary: st thesis)
  case Nil
  show ?case using Nil.prems(1) [of st] Nil.prems(4) by simp
next
  case (Cons k ks)
  obtain i where i: "i < length gs" "keys ! i = k" using Cons.prems(3-5) by (auto simp: in_set_conv_nth)
  obtain e where e: "hashtable st k = Some e" using Cons.prems(3) by auto
  obtain e' where e': "finish_entry node init advance (buffer_slot st) e = Some e'" "Q (gs ! i) e'"
    using Cons.prems(7) [OF i(1), of e] i(2) e by auto
  define st1 where "st1 = update_entry k (\<lambda>_. e') st"
  have h1: "hashtable st1 = (hashtable st)(k \<mapsto> e')" "buffer_slot st1 = buffer_slot st"
    "overlaptuplestorestate1 st1 = overlaptuplestorestate1 st"
    using e by (simp_all add: st1_def update_entry_def)
  have d1: "dom (hashtable st1) = set keys" using Cons.prems(4) e h1 by auto
  have p: "distinct ks" "set ks \<subseteq> dom (hashtable st1)" using Cons.prems(2,3) h1 by auto
  have q: "\<exists>e'. finish_entry node init advance (buffer_slot st1) f = Some e' \<and> Q (gs ! j) e'"
    if "j < length gs" "keys ! j \<in> set ks" "hashtable st1 (keys ! j) = Some f" for j f
  proof -
    have "keys ! j \<noteq> k" using Cons.prems(2) that(2) by auto
    then have "hashtable st (keys ! j) = Some f" using that(3) h1(1) by simp
    then show ?thesis using Cons.prems(7) [OF that(1)] that(2) h1(2) by simp
  qed
  obtain st' where r: "sgb_newgroup_aggfunction node init advance ks st1 = Some st'" "dom (hashtable st') = set keys"
    "\<And>x. x \<notin> set ks \<Longrightarrow> hashtable st' x = hashtable st1 x"
    "\<And>i. i < length gs \<Longrightarrow> keys ! i \<in> set ks \<Longrightarrow> \<exists>e. hashtable st' (keys ! i) = Some e \<and> Q (gs ! i) e"
    "buffer_slot st' = buffer_slot st1" "overlaptuplestorestate1 st' = overlaptuplestorestate1 st1"
    using Cons.IH [OF _ p d1 Cons.prems(5,6) q] by blast
  have k: "hashtable st' k = Some e'" using r(3) [of k] Cons.prems(2) h1 by simp
  show ?case
  proof (rule Cons.prems(1))
    show "sgb_newgroup_aggfunction node init advance (k # ks) st = Some st'"
      using e e'(1) r(1) by (simp add: st1_def)
    show "hashtable st' x = hashtable st x" if "x \<notin> set (k # ks)" for x using that r(3) [of x] h1 by simp
    show "\<exists>e. hashtable st' (keys ! j) = Some e \<and> Q (gs ! j) e" if j: "j < length gs" "keys ! j \<in> set (k # ks)" for j
    proof (cases "keys ! j = k")
      case True
      then have "j = i" using i j(1) Cons.prems(5,6) by (metis nth_eq_iff_index_eq)
      then show ?thesis using k e'(2) i(2) by simp
    qed (use r(4) [OF j(1)] j(2) in auto)
  qed (use r h1 in simp_all)
qed

text \<open>The second round finds only flags 2 and 0.\<close>

definition scan_ok :: "((slot \<Rightarrow> 'a AggHashEntry option) \<Rightarrow> slot list) \<Rightarrow> bool" where
  "scan_ok scan \<longleftrightarrow> (\<forall>h. finite (dom h) \<longrightarrow> distinct (scan h) \<and> set (scan h) = dom h)"

lemma finish_finished: "finished node init advance a e \<Longrightarrow> finish_entry node init advance buf e = Some e"
  by (cases a) (simp_all add: finished_def finish_entry_def)

lemma newgroup_helper_ok:
  assumes inv: "ng_inv node q {} keys gs st" and n2: "numCols node = 2" and scan: "scan_ok scan"
  obtains st' where "sgb_newgroup_helper scan node init advance st = Some st'" "dom (hashtable st') = set keys"
    "\<forall>i<length gs. \<exists>e. hashtable st' (keys ! i) = Some e \<and> finished node init advance (gs ! i) e"
proof -
  have k: "length keys = length gs" "distinct keys" "dom (hashtable st) = set keys" "length (buffer_slot st) = 2"
    using inv by (simp_all add: ng_inv_def)
  have s1: "distinct (scan (hashtable st))" "set (scan (hashtable st)) = set keys"
    using scan k(3) by (simp_all add: scan_ok_def)
  have q: "\<exists>e'. finish_entry node init advance (buffer_slot st) e = Some e' \<and> finished node init advance (gs ! i) e'"
    if l: "i < length gs" "hashtable st (keys ! i) = Some e" for i e
  proof -
    obtain f where "hashtable st (keys ! i) = Some f" "ng_entry node (taken q {} i) (gs ! i) f"
      by (rule ng_group [OF inv l(1)])
    with l(2) have "ng_entry node (taken q {} i) (gs ! i) e" by simp
    from finish_entry_ok [OF this n2 k(4)] show ?thesis by blast
  qed
  obtain st1 where r: "sgb_newgroup_aggfunction node init advance (scan (hashtable st)) st = Some st1" "dom (hashtable st1) = set keys"
    "\<And>i. i < length gs \<Longrightarrow> keys ! i \<in> set (scan (hashtable st)) \<Longrightarrow>
       \<exists>e. hashtable st1 (keys ! i) = Some e \<and> finished node init advance (gs ! i) e"
    by (rule aggfunction_walk [where Q = "finished node init advance" and node = node and init = init and advance = advance,
          OF s1(1) eq_refl k(3,1,2) q]) (simp_all add: s1(2) k(3))
  have fin: "\<exists>e. hashtable st1 (keys ! i) = Some e \<and> finished node init advance (gs ! i) e" if "i < length gs" for i
    using r(3) [OF that] s1(2) k(1) that by simp
  have s2: "distinct (scan (hashtable st1))" "set (scan (hashtable st1)) = set keys"
    using scan r(2) by (simp_all add: scan_ok_def)
  have q2: "\<exists>e'. finish_entry node init advance (buffer_slot st1) e = Some e' \<and> finished node init advance (gs ! i) e'"
    if "i < length gs" "hashtable st1 (keys ! i) = Some e" for i e
    using fin [OF that(1)] that(2) finish_finished by fastforce
  obtain st2 where r2: "sgb_newgroup_aggfunction node init advance (scan (hashtable st1)) st1 = Some st2" "dom (hashtable st2) = set keys"
    "\<And>i. i < length gs \<Longrightarrow> keys ! i \<in> set (scan (hashtable st1)) \<Longrightarrow>
       \<exists>e. hashtable st2 (keys ! i) = Some e \<and> finished node init advance (gs ! i) e"
    by (rule aggfunction_walk [where Q = "finished node init advance" and node = node and init = init and advance = advance,
          OF s2(1) eq_refl r(2) k(1,2) q2]) (simp_all add: s2(2) r(2))
  have fin2: "\<exists>e. hashtable st2 (keys ! i) = Some e \<and> finished node init advance (gs ! i) e" if "i < length gs" for i
    using r2(3) [OF that] s2(2) k(1) that by simp
  show thesis
  proof (cases "overlaptuplestorestate1 st1 = None")
    case True
    show thesis
      by (rule that [of st1]) (simp_all add: sgb_newgroup_helper_def r(1,2) fin True)
  next
    case False
    show thesis
      by (rule that [of st2]) (simp_all add: sgb_newgroup_helper_def r(1) r2(1,2) fin2 False del: not_None_eq)
  qed
qed

section \<open>Properties\<close>

lemma ng_start:
  assumes "ng_plan node"
  shows "all_start (ExecInitAgg_state node junk st)" "numbertuples (ExecInitAgg_state node junk st) = 0"
  using assms init_all_start [of node junk st] by (auto simp: ng_plan_def eps_ok_iff ExecInitAgg_state_simps)

lemma newgroup_finished:
  assumes "ng_plan node" "all_start st" "numbertuples st = 0" "list_all (\<lambda>s. slot_ok s \<and> length s = 2) ss"
    "2 < length ss" "scan_ok scan" "length ss \<le> sizeofgroup"
  obtains st' keys gs where "agg_fill_hash_table_SGBTOAll scan acos node init advance st ss = Some st'"
    "distinct keys" "dom (hashtable st') = set keys" "total gs \<subseteq># mset (map point_of ss)"
    "list_all2 (\<lambda>k a. \<exists>e. hashtable st' k = Some e \<and> finished node init advance a e) keys gs"
proof -
  have "ss \<noteq> []" using assms(5) by auto
  from newgroup_input [OF assms(1,2,4) this assms(7), of acos init advance] obtain st1 keys gs where
    r: "sgb_all_input acos node init advance (case ss of [] \<Rightarrow> st | s # _ \<Rightarrow> st\<lparr>buffer_slot := s\<rparr>) ss = Some st1"
    "ng_inv node (0, 0) {} keys gs st1" "total gs \<subseteq># mset (map point_of ss)"
    "numbertuples st1 = numbertuples st + length ss" by metis
  have p: "numCols node = 2" "overlap node = 2" using assms(1) by (simp_all add: ng_plan_def)
  obtain st' where h: "sgb_newgroup_helper scan node init advance st1 = Some st'" "dom (hashtable st') = set keys"
    "\<forall>i<length gs. \<exists>e. hashtable st' (keys ! i) = Some e \<and> finished node init advance (gs ! i) e"
    by (rule newgroup_helper_ok [where node = node and init = init and advance = advance, OF r(2) p(1) assms(6)])
  have k: "distinct keys" "length keys = length gs" using r(2) by (simp_all add: ng_inv_def)
  have "agg_fill_hash_table_SGBTOAll scan acos node init advance st ss = Some st'"
    by (simp only: agg_fill_hash_table_SGBTOAll_def r(1,4) h(1) option.case p(2) assms(3)) (simp add: assms(5))
  then show thesis by (rule that [OF _ k(1) h(2) r(3)]) (simp add: list_all2_conv_all_nth k(2) h(3))
qed


definition sorted_scan :: "(slot \<Rightarrow> 'a AggHashEntry option) \<Rightarrow> slot list" where
  "sorted_scan h = sorted_list_of_set (dom h)"

lemma sorted_scan_ok: "scan_ok sorted_scan"
  by (simp add: scan_ok_def sorted_scan_def)


lemma retrieve_newgroup:
  assumes "overlap node = 2"
  shows "\<forall>k\<in>set ks. hashtable st k \<noteq> None \<Longrightarrow> agg_retrieve_hash_table node final (\<lambda>_ _. True) ks st =
    Some (map (\<lambda>k. (k, final (pergroup (the (hashtable st k))))) (filter (\<lambda>k. flagEnabled (the (hashtable st k)) \<noteq> 0) ks))"
  by (induction ks) (auto simp: assms)

definition live_groups :: "ngroup list \<Rightarrow> (int \<times> int) list list" where
  "live_groups gs = map the (filter (\<lambda>a. a \<noteq> None) gs)"

lemma concat_live: "concat (live_groups gs) = concat (map members gs)"
  by (induction gs) (auto simp: live_groups_def members_def)

lemma finished_rows:
  "list_all2 (\<lambda>k a. \<exists>e. h k = Some e \<and> finished node init advance a e) keys gs \<Longrightarrow>
     map (\<lambda>k. pergroup (the (h k))) (filter (\<lambda>k. flagEnabled (the (h k)) \<noteq> 0) keys) =
       map (\<lambda>ps. fold advance (map point_slot ps) init) (live_groups gs) \<and>
     (\<forall>ps\<in>set (live_groups gs). ps \<noteq> [] \<and> clique (distanceall node) (set ps))"
  by (induction rule: list_all2_induct) (auto simp: live_groups_def finished_def split: option.splits)

text \<open>The rows of NEW-GROUP and metric 1 on more than two and at most 2,000,000 tuples: one per surviving group, with
  the final value of the aggregates over its points; the groups share no tuple and are
  cliques.\<close>

theorem SGBTOAll_newgroup_rows:
  assumes "ng_plan node" "list_all (\<lambda>s. slot_ok s \<and> length s = 2) ss" "2 < length ss" "length ss \<le> sizeofgroup"
    "scan_ok scan"
  shows "\<exists>st' rows groups. agg_fill_hash_table_SGBTOAll scan acos node init advance (ExecInitAgg_state node junk st) ss = Some st' \<and>
     agg_retrieve_hash_table node final (\<lambda>_ _. True) (scan (hashtable st')) st' = Some rows \<and>
     mset (map snd rows) = mset (map (\<lambda>ps. final (fold advance (map point_slot ps) init)) groups) \<and>
     mset (concat groups) \<subseteq># mset (map point_of ss) \<and>
     (\<forall>ps\<in>set groups. ps \<noteq> [] \<and> clique (distanceall node) (set ps))"
proof -
  obtain st' keys gs where r: "agg_fill_hash_table_SGBTOAll scan acos node init advance (ExecInitAgg_state node junk st) ss = Some st'"
    "distinct keys" "dom (hashtable st') = set keys" "total gs \<subseteq># mset (map point_of ss)"
    "list_all2 (\<lambda>k a. \<exists>e. hashtable st' k = Some e \<and> finished node init advance a e) keys gs"
    by (rule newgroup_finished [OF assms(1) ng_start [OF assms(1)] assms(2,3,5,4)])
  define row where "row = (\<lambda>k. pergroup (the (hashtable st' k)))"
  define live where "live = (\<lambda>k. flagEnabled (the (hashtable st' k)) \<noteq> 0)"
  let ?ks = "scan (hashtable st')"
  have ks: "distinct ?ks" "set ?ks = set keys" using assms(5) r(3) by (simp_all add: scan_ok_def)
  then have m: "mset ?ks = mset keys" using r(2) set_eq_iff_mset_eq_distinct by blast
  have ov: "overlap node = 2" using assms(1) by (simp add: ng_plan_def)
  have "\<forall>k\<in>set ?ks. hashtable st' k \<noteq> None" using ks(2) r(3) by auto
  from retrieve_newgroup [OF ov this] have
    ret: "agg_retrieve_hash_table node final (\<lambda>_ _. True) ?ks st' = Some (map (\<lambda>k. (k, final (row k))) (filter live ?ks))"
    by (simp only: row_def live_def)
  have "mset (map snd (map (\<lambda>k. (k, final (row k))) (filter live ?ks))) = image_mset (\<lambda>k. final (row k)) (filter_mset live (mset keys))"
    by (simp add: m image_mset.compositionality comp_def)
  also have "\<dots> = mset (map final (map row (filter live keys)))" by (simp add: image_mset.compositionality comp_def)
  also have "map row (filter live keys) = map (\<lambda>ps. fold advance (map point_slot ps) init) (live_groups gs)"
    using finished_rows [OF r(5)] by (simp only: row_def live_def)
  finally have "mset (map snd (map (\<lambda>k. (k, final (row k))) (filter live ?ks))) =
      mset (map (\<lambda>ps. final (fold advance (map point_slot ps) init)) (live_groups gs))" by (simp add: comp_def image_mset.compositionality)
  moreover have "mset (concat (live_groups gs)) \<subseteq># mset (map point_of ss)" using r(4) by (simp only: total_def concat_live)
  ultimately show ?thesis using r(1) ret finished_rows [OF r(5)] by blast
qed

lemma SGBTOAll_newgroup_rows_witness:
  "let node = demo_plan 1 2; ss = [slot_of [0, 0], slot_of [12, 0], slot_of [6, 3]] in
   \<exists>st' rows groups. agg_fill_hash_table_SGBTOAll sorted_scan (\<lambda>_. None) node 0 (\<lambda>_ n. n + 1) (ExecInitAgg_state node (\<lambda>_. blank_element) (demo_state :: nat AggState)) ss = Some st' \<and>
     agg_retrieve_hash_table node (\<lambda>n. n) (\<lambda>_ _. True) (sorted_scan (hashtable st')) st' = Some rows \<and>
     mset (map snd rows) = mset (map (\<lambda>ps. fold (\<lambda>_ n. n + 1) (map point_slot ps) 0) groups) \<and>
     mset (concat groups) \<subseteq># mset (map point_of ss) \<and>
     (\<forall>ps\<in>set groups. ps \<noteq> [] \<and> clique (distanceall node) (set ps))"
  unfolding Let_def
  by (rule SGBTOAll_newgroup_rows [OF _ _ _ _ sorted_scan_ok])
    (simp_all add: ng_plan_def eps_ok_iff demo_plan_def sizeofgroup_def slot_point_def slot2_def
      slot_of_def pt_ok_def point_of_def)

text \<open>NEW-GROUP aggregates only after more than two tuples: on an input of one or two tuples
  there are rows, but every aggregate in them is the final value of a transition state that
  no tuple was advanced into.\<close>

theorem SGBTOAll_newgroup_few:
  assumes "ng_plan node" "list_all (\<lambda>s. slot_ok s \<and> length s = 2) ss" "ss \<noteq> []" "length ss \<le> 2" "scan_ok scan"
  shows "\<exists>st' rows. agg_fill_hash_table_SGBTOAll scan acos node init advance (ExecInitAgg_state node junk st) ss = Some st' \<and>
     agg_retrieve_hash_table node final (\<lambda>_ _. True) (scan (hashtable st')) st' = Some rows \<and>
     rows \<noteq> [] \<and> (\<forall>row\<in>set rows. snd row = final init)"
proof -
  let ?st0 = "ExecInitAgg_state node junk st"
  have small: "length ss \<le> sizeofgroup" using assms(4) by (simp add: sizeofgroup_def)
  from newgroup_input [OF assms(1) ng_start(1) [OF assms(1)] assms(2,3) small, of acos init advance] obtain st1 keys gs where
    r: "sgb_all_input acos node init advance (case ss of [] \<Rightarrow> ?st0 | s # _ \<Rightarrow> ?st0\<lparr>buffer_slot := s\<rparr>) ss = Some st1"
    "ng_inv node (0, 0) {} keys gs st1" "gs \<noteq> []" "untouched init st1"
    "numbertuples st1 = numbertuples ?st0 + length ss" by metis
  have ov: "overlap node = 2" using assms(1) by (simp add: ng_plan_def)
  have fill: "agg_fill_hash_table_SGBTOAll scan acos node init advance ?st0 ss = Some st1"
    using r(1,5) ng_start(2) [OF assms(1), of junk st] assms(4) ov by (simp add: agg_fill_hash_table_SGBTOAll_def)
  let ?ks = "scan (hashtable st1)"
  have d: "dom (hashtable st1) = set keys" "length keys = length gs" using r(2) by (simp_all add: ng_inv_def)
  then have ks: "set ?ks = dom (hashtable st1)" using assms(5) by (simp add: scan_ok_def)
  then have "\<forall>k\<in>set ?ks. hashtable st1 k \<noteq> None" by auto
  note ret = retrieve_newgroup [OF ov this, of final]
  have i: "0 < length gs" using r(3) by simp
  obtain e where e: "hashtable st1 (keys ! 0) = Some e" "ng_entry node (taken (0, 0) {} 0) (gs ! 0) e"
    by (rule ng_group [OF r(2) i])
  then have "flagEnabled e \<noteq> 0" by (auto simp: ng_entry_def split: option.splits)
  then have "keys ! 0 \<in> set (filter (\<lambda>k. flagEnabled (the (hashtable st1 k)) \<noteq> 0) ?ks)"
    using e(1) ks by auto
  then have "filter (\<lambda>k. flagEnabled (the (hashtable st1 k)) \<noteq> 0) ?ks \<noteq> []" by (metis empty_iff set_empty)
  moreover have "pergroup (the (hashtable st1 k)) = init" if "k \<in> set ?ks" for k
    using that ks r(4) by (auto simp: untouched_def)
  ultimately show ?thesis using fill ret by auto
qed

lemma SGBTOAll_newgroup_few_witness:
  "\<exists>st' rows. agg_fill_hash_table_SGBTOAll sorted_scan (\<lambda>_. None) (demo_plan 1 2) 0 (\<lambda>_ n. n + 1) (ExecInitAgg_state (demo_plan 1 2) (\<lambda>_. blank_element) (demo_state :: nat AggState))
       [slot_of [0, 0], slot_of [1, 1]] = Some st' \<and>
     agg_retrieve_hash_table (demo_plan 1 2) (\<lambda>n. n) (\<lambda>_ _. True) (sorted_scan (hashtable st')) st' = Some rows \<and>
     rows \<noteq> [] \<and> (\<forall>row\<in>set rows. snd row = 0)"
  by (rule SGBTOAll_newgroup_few [OF _ _ _ _ sorted_scan_ok])
    (simp_all add: ng_plan_def eps_ok_iff demo_plan_def sizeofgroup_def slot_point_def slot2_def
      slot_of_def pt_ok_def point_of_def)

end
