(* ===== verification/AroundMatch.thy ===== *)
theory AroundMatch
  imports SGB_Prelude "HOL-Library.Monad_Syntax"
begin

text \<open>
  The tests that assign a tuple to the group of a centre, \<^verbatim>\<open>executor/execGrouping.c\<close>
  (\<open>execTuplesMatchAround\<close>, \<open>execTuplesMatchAroundHash\<close>, \<open>execTuplesMatchAroundHash_MaxR\<close>).
  The comparison and subtraction are those of the type of the grouping column, \<open>int4\<close> here
  (\<^verbatim>\<open>utils/adt/int.c\<close>); the subtraction raises an error on overflow, which is \<open>None\<close>. The
  second pivot is absent (\<open>None\<close>) when \<open>tts_shouldFree\<close> of its slot is false.
\<close>

section \<open>Operators\<close>

definition int4lt :: "int \<Rightarrow> int \<Rightarrow> bool" where
  "int4lt arg1 arg2 \<longleftrightarrow> arg1 < arg2"

definition SAMESIGN :: "int \<Rightarrow> int \<Rightarrow> bool" where
  "SAMESIGN a b \<longleftrightarrow> (a < 0) = (b < 0)"

definition int4mi :: "int \<Rightarrow> int \<Rightarrow> int option" where
  "int4mi arg1 arg2 =
     (let result = sub32 arg1 arg2
      in if \<not> SAMESIGN arg1 arg2 \<and> \<not> SAMESIGN result arg1 then None else Some result)"

text \<open>The overflow test is exact.\<close>

lemma int4mi_exact:
  assumes "int32 a" "int32 b"
  shows "int4mi a b = (if int32 (a - b) then Some (a - b) else None)"
proof (cases "int32 (a - b)")
  case True
  then have "sub32 a b = a - b" by (rule sub32_eq)
  then show ?thesis using True by (auto simp: int4mi_def SAMESIGN_def Let_def)
next
  case False
  then consider "a - b < - 2147483648" | "2147483647 < a - b" by (auto simp: int32_def)
  then show ?thesis
  proof cases
    case 1
    have "(a - b + 2147483648) mod 4294967296 = (a - b + 2147483648 + 4294967296) mod 4294967296"
      by (simp only: mod_add_self2)
    also have "\<dots> = a - b + 2147483648 + 4294967296"
      by (rule mod_pos_pos_trivial) (use 1 assms in \<open>auto simp: int32_def\<close>)
    finally have "sub32 a b = a - b + 4294967296" by (simp add: sub32_def i32_def)
    then show ?thesis using assms 1 False by (auto simp: int4mi_def SAMESIGN_def Let_def int32_def)
  next
    case 2
    have "(a - b + 2147483648) mod 4294967296 = (a - b - 2147483648 + 4294967296) mod 4294967296"
      by (rule arg_cong [where f = "\<lambda>x. x mod 4294967296"]) simp
    also have "\<dots> = (a - b - 2147483648) mod 4294967296" by (simp only: mod_add_self2)
    also have "\<dots> = a - b - 2147483648"
      by (rule mod_pos_pos_trivial) (use 2 assms in \<open>auto simp: int32_def\<close>)
    finally have "sub32 a b = a - b - 4294967296" by (simp add: sub32_def i32_def)
    then show ?thesis using assms 2 False by (auto simp: int4mi_def SAMESIGN_def Let_def int32_def)
  qed
qed

section \<open>Tests\<close>

definition execTuplesMatchAroundHash :: "slot \<Rightarrow> slot option \<Rightarrow> slot \<Rightarrow> nat \<Rightarrow> bool option" where
  "execTuplesMatchAroundHash pivot1Slot pivot2Slot currentSlot aroundOuterAtt =
     (case pivot2Slot of
        None \<Rightarrow> Some True
      | Some q \<Rightarrow>
          (case slot_getattr pivot1Slot 1 of (attrPivot1, isNull1) \<Rightarrow>
           case slot_getattr q 1 of (attrPivot2, isNull2) \<Rightarrow>
           case slot_getattr currentSlot aroundOuterAtt of (attrCurrent, isNull3) \<Rightarrow>
             if isNull1 \<and> isNull2 \<and> isNull3 then Some True
             else if isNull1 \<or> isNull2 \<or> isNull3 then Some False
             else if \<not> int4lt attrPivot1 attrCurrent then Some True
             else do { x \<leftarrow> int4mi attrCurrent attrPivot1;
                       y \<leftarrow> int4mi attrPivot2 attrCurrent;
                       Some (int4lt x y) }))"

text \<open>The sorted operator compares several columns: column \<open>matchColIdx[i]\<close> of the tuple with
  column \<open>i + 1\<close> of the pivots. \<open>cols\<close> are the pairs still to do.\<close>

fun match_around_cols :: "slot \<Rightarrow> slot \<Rightarrow> slot \<Rightarrow> nat \<Rightarrow> (nat \<times> nat) list \<Rightarrow> bool option" where
  "match_around_cols p q s numCols [] = Some True"
| "match_around_cols p q s numCols ((att, attPivots) # cols) =
     (case slot_getattr p attPivots of (attrPivot1, isNull1) \<Rightarrow>
      case slot_getattr q attPivots of (attrPivot2, isNull2) \<Rightarrow>
      case slot_getattr s att of (attrCurrent, isNull3) \<Rightarrow>
        if isNull1 \<and> isNull2 \<and> isNull3 then match_around_cols p q s numCols cols
        else if isNull1 \<or> isNull2 \<or> isNull3 then Some False
        else if numCols > 1 \<and> attrPivot1 = attrPivot2 then match_around_cols p q s numCols cols
        else if \<not> int4lt attrPivot1 attrCurrent then match_around_cols p q s numCols cols
        else do { x \<leftarrow> int4mi attrCurrent attrPivot1;
                  y \<leftarrow> int4mi attrPivot2 attrCurrent;
                  if int4lt x y then match_around_cols p q s numCols cols else Some False })"

definition execTuplesMatchAround :: "slot \<Rightarrow> slot option \<Rightarrow> slot \<Rightarrow> nat \<Rightarrow> nat list \<Rightarrow> bool option" where
  "execTuplesMatchAround pivot1Slot pivot2Slot currentSlot numCols matchColIdx =
     (case pivot2Slot of
        None \<Rightarrow> Some True
      | Some q \<Rightarrow> match_around_cols pivot1Slot q currentSlot numCols
                    (map (\<lambda>i. (matchColIdx ! i, i + 1)) [0..<numCols]))"

text \<open>The result with the flags \<open>ignore\<close> and \<open>stop\<close>, which keep their values when a NULL is
  met.\<close>

definition execTuplesMatchAroundHash_MaxR :: "slot \<Rightarrow> slot option \<Rightarrow> slot \<Rightarrow> nat \<Rightarrow> int \<Rightarrow> bool \<times> bool \<Rightarrow>
    (bool \<times> bool \<times> bool) option" where
  "execTuplesMatchAroundHash_MaxR pivot1Slot pivot2Slot currentSlot aroundOuterAtt maxRadius flags =
     (case slot_getattr pivot1Slot 1 of (attrPivot1, isNull1) \<Rightarrow>
      case slot_getattr currentSlot aroundOuterAtt of (attrCurrent, isNull3) \<Rightarrow>
      case pivot2Slot of
        None \<Rightarrow>
          if isNull1 \<and> isNull3 then Some (True, flags)
          else if isNull1 \<or> isNull3 then Some (False, flags)
          else do {
            l \<leftarrow> int4mi attrPivot1 maxRadius;
            if int4lt attrCurrent l then Some (False, True, False)
            else do {
              x \<leftarrow> int4mi attrCurrent maxRadius;
              if int4lt x attrPivot1 then Some (True, False, False) else Some (False, True, True) } }
      | Some q \<Rightarrow>
          (case slot_getattr q 1 of (attrPivot2, isNull2) \<Rightarrow>
             if isNull1 \<and> isNull2 \<and> isNull3 then Some (True, flags)
             else if isNull1 \<or> isNull2 \<or> isNull3 then Some (False, flags)
             else do {
               d \<leftarrow> int4mi attrPivot2 attrPivot1;
               d' \<leftarrow> int4mi d maxRadius;
               if int4lt d' maxRadius
               then do {
                 l \<leftarrow> int4mi attrPivot1 maxRadius;
                 if int4lt attrCurrent l then Some (False, True, False)
                 else if int4lt attrCurrent attrPivot1 then Some (True, False, False)
                 else do {
                   x \<leftarrow> int4mi attrCurrent attrPivot1;
                   y \<leftarrow> int4mi attrPivot2 attrCurrent;
                   Some (int4lt x y, False, False) } }
               else do {
                 l \<leftarrow> int4mi attrPivot1 maxRadius;
                 if int4lt attrCurrent l then Some (False, True, False)
                 else do {
                   x \<leftarrow> int4mi attrCurrent attrPivot1;
                   if int4lt x maxRadius then Some (True, False, False) else Some (False, False, False) } } }))"

section \<open>Values without overflow\<close>

definition av_ok :: "int \<Rightarrow> bool" where
  "av_ok v \<longleftrightarrow> \<bar>v\<bar> \<le> 536870912"

text \<open>The first column of a slot is the value \<open>v\<close>.\<close>

definition at_value :: "slot \<Rightarrow> int \<Rightarrow> bool" where
  "at_value s v \<longleftrightarrow> slot_getattr s 1 = (v, False) \<and> av_ok v"

lemma int4mi_small: "\<bar>a\<bar> \<le> 1073741824 \<Longrightarrow> \<bar>b\<bar> \<le> 1073741823 \<Longrightarrow> int4mi a b = Some (a - b)"
  by (subst int4mi_exact) (auto simp: int32_def)

lemma int4mi_ok: "av_ok a \<Longrightarrow> av_ok b \<Longrightarrow> int4mi a b = Some (a - b)"
  by (rule int4mi_small) (simp_all add: av_ok_def)

text \<open>The half-way test: up to the middle between the centres, which belongs to the right one.\<close>

definition closer :: "int \<Rightarrow> int \<Rightarrow> int \<Rightarrow> bool" where
  "closer c d v \<longleftrightarrow> v \<le> c \<or> v - c < d - v"

lemma match_hash:
  assumes "at_value p c" "at_value q d" "at_value s v"
  shows "execTuplesMatchAroundHash p (Some q) s 1 = Some (closer c d v)"
  using assms by (auto simp: execTuplesMatchAroundHash_def at_value_def int4lt_def int4mi_ok closer_def)

lemma match_hash_last: "execTuplesMatchAroundHash p None s att = Some True"
  by (simp add: execTuplesMatchAroundHash_def)

lemma match_sorted:
  assumes "at_value p c" "at_value q d" "at_value s v"
  shows "execTuplesMatchAround p (Some q) s 1 [1] = Some (closer c d v)"
  using assms by (auto simp: execTuplesMatchAround_def at_value_def int4lt_def int4mi_ok closer_def)

lemma match_sorted_last: "execTuplesMatchAround p None s n cols = Some True"
  by (simp add: execTuplesMatchAround_def)

lemma match_MaxR_last:
  assumes "at_value p c" "at_value s v" "0 \<le> r" "r \<le> 536870912"
  shows "execTuplesMatchAroundHash_MaxR p None s 1 r fl =
     Some (if v < c - r then (False, True, False) else if v < c + r then (True, False, False) else (False, True, True))"
  using assms by (auto simp: execTuplesMatchAroundHash_MaxR_def at_value_def int4lt_def int4mi_ok av_ok_def)

lemma match_MaxR:
  assumes "at_value p c" "at_value q d" "at_value s v" "0 \<le> r" "r \<le> 536870912" "c < d"
  shows "execTuplesMatchAroundHash_MaxR p (Some q) s 1 r fl =
     Some (if v < c - r then (False, True, False) else (v < c + r \<and> closer c d v, False, False))"
proof -
  have ok: "av_ok c" "av_ok d" "av_ok v" "av_ok r" "slot_getattr p 1 = (c, False)" "slot_getattr q 1 = (d, False)"
    "slot_getattr s 1 = (v, False)"
    using assms by (simp_all add: at_value_def av_ok_def)
  have d: "int4mi (d - c) r = Some (d - c - r)"
    by (rule int4mi_small) (use ok(1,2,4) in \<open>auto simp: av_ok_def\<close>)
  note run = execTuplesMatchAroundHash_MaxR_def ok(5-7) [unfolded One_nat_def] int4mi_ok [OF ok(2,1)] d int4mi_ok [OF ok(1,4)]
    int4mi_ok [OF ok(3,1)] int4mi_ok [OF ok(2,3)] int4lt_def
  show ?thesis
  proof (cases "d - c - r < r")
    case True
    then show ?thesis using assms(4,6) by (auto simp: run closer_def)
  next
    case False
    then show ?thesis using assms(4,6) by (auto simp: run closer_def)
  qed
qed

end
