(* ===== verification/SGBAround.thy ===== *)
theory SGBAround
  imports AroundMatch AggState
begin

text \<open>
  The one-dimensional similarity operators, \<^verbatim>\<open>executor/nodeAgg.c\<close>: grouping around centres
  (\<open>agg_fill_hash_table_around\<close>, with a maximal radius \<open>_MaxR\<close>, with a maximal separation
  \<open>_MaxS\<close>, and for sorted input \<open>agg_retrieve_direct_around\<close>), unsupervised grouping
  (\<open>agg_fill_hash_table_unsupervised\<close>), and the standard \<open>agg_fill_hash_table\<close> and
  \<open>agg_retrieve_direct\<close>. The outer and the inner plan are the lists of the tuples they return;
  the grouping columns are the first ones, the column that uses \<open>AROUND\<close> the very first. An
  error raised by an operator is \<open>None\<close>.
\<close>

section \<open>Blocks\<close>

text \<open>The modified tuple: the value of the centre in the first column.\<close>

definition centre_slot :: "slot \<Rightarrow> int \<Rightarrow> slot option" where
  "centre_slot s c =
     (let n = length s
      in heap_modify_tuple s ((replicate n 0)[0 := c]) (replicate n False) ((replicate n False)[0 := True]))"

text \<open>A tuple goes to the entry of a modified tuple, which is the pointer returned.\<close>

definition tally_tuple :: "Agg_plan \<Rightarrow> 'a \<Rightarrow> (slot \<Rightarrow> 'a \<Rightarrow> 'a) \<Rightarrow> slot \<Rightarrow> slot \<Rightarrow> 'a AggState \<Rightarrow>
    (slot \<times> 'a AggState) option" where
  "tally_tuple node init advance s modifiedSlot st =
     do { (key, st1) \<leftarrow> lookup_hash_entry node init st modifiedSlot;
          Some (key, update_entry key (\<lambda>e. e\<lparr>pergroup := advance s (pergroup e)\<rparr>) st1) }"

definition tally_centre :: "Agg_plan \<Rightarrow> 'a \<Rightarrow> (slot \<Rightarrow> 'a \<Rightarrow> 'a) \<Rightarrow> slot \<Rightarrow> int \<Rightarrow> 'a AggState \<Rightarrow> (slot \<times> 'a AggState) option" where
  "tally_centre node init advance s c st =
     do { m \<leftarrow> centre_slot s c; tally_tuple node init advance s m st }"

text \<open>The two pivots and what is left of the inner plan; \<open>None\<close> is an empty inner plan.\<close>

type_synonym pivots = "slot \<times> slot option \<times> slot list"

fun load_pivots :: "slot list \<Rightarrow> pivots option" where
  "load_pivots [] = None"
| "load_pivots [p] = Some (p, None, [])"
| "load_pivots (p # q # rest) = Some (p, Some q, rest)"

definition pivot_value :: "pivots \<Rightarrow> int" where
  "pivot_value pv = slot_int (fst pv) 0"

text \<open>The loop that moves the pivots on until they match: the second pivot \<open>p\<close> becomes the
  first.\<close>

fun find_pivots :: "(slot \<Rightarrow> slot option \<Rightarrow> bool option) \<Rightarrow> slot \<Rightarrow> slot list \<Rightarrow> pivots option" where
  "find_pivots m p [] = Some (p, None, [])"
| "find_pivots m p (q # rest) =
     do { b \<leftarrow> m p (Some q); if b then Some (p, Some q, rest) else find_pivots m q rest }"

definition settle_pivots :: "(slot \<Rightarrow> slot option \<Rightarrow> bool option) \<Rightarrow> pivots \<Rightarrow> pivots option" where
  "settle_pivots m pv =
     (case pv of (p1, p2, rest) \<Rightarrow>
        do { b \<leftarrow> m p1 p2;
             if b then Some pv
             else (case p2 of None \<Rightarrow> None | Some q \<Rightarrow> find_pivots m q rest) })"

section \<open>Standard grouping\<close>

fun agg_fill_hash_table :: "Agg_plan \<Rightarrow> 'a \<Rightarrow> (slot \<Rightarrow> 'a \<Rightarrow> 'a) \<Rightarrow> 'a AggState \<Rightarrow> slot list \<Rightarrow>
    'a AggState option" where
  "agg_fill_hash_table node init advance st [] = Some st"
| "agg_fill_hash_table node init advance st (s # ss) =
     do { r \<leftarrow> tally_tuple node init advance s s st; agg_fill_hash_table node init advance (snd r) ss }"

text \<open>\<open>execTuplesMatch\<close>, from the last column to the first: \<open>n\<close> columns are to do.\<close>

primrec execTuplesMatch :: "slot \<Rightarrow> slot \<Rightarrow> nat \<Rightarrow> nat list \<Rightarrow> bool" where
  "execTuplesMatch s1 s2 0 matchColIdx = True"
| "execTuplesMatch s1 s2 (Suc n) matchColIdx =
     (case slot_getattr s1 (matchColIdx ! n) of (attr1, isNull1) \<Rightarrow>
      case slot_getattr s2 (matchColIdx ! n) of (attr2, isNull2) \<Rightarrow>
        if isNull1 \<noteq> isNull2 then False
        else if isNull1 then execTuplesMatch s1 s2 n matchColIdx
        else if attr1 \<noteq> attr2 then False
        else execTuplesMatch s1 s2 n matchColIdx)"

text \<open>The rows of \<open>agg_retrieve_direct\<close>, called until it returns NULL. A row is the first tuple
  of the group (none for a plain aggregate of no input) and the finalised aggregates; \<open>x\<close> is the
  transition state of the group of \<open>firstSlot\<close>.\<close>

definition direct_row :: "('a \<Rightarrow> 'r) \<Rightarrow> (slot option \<Rightarrow> 'r \<Rightarrow> bool) \<Rightarrow> slot option \<Rightarrow> 'a \<Rightarrow> (slot option \<times> 'r) list" where
  "direct_row final having firstSlot x = (if having firstSlot (final x) then [(firstSlot, final x)] else [])"

fun direct_groups :: "Agg_plan \<Rightarrow> nat list \<Rightarrow> 'a \<Rightarrow> (slot \<Rightarrow> 'a \<Rightarrow> 'a) \<Rightarrow> ('a \<Rightarrow> 'r) \<Rightarrow> (slot option \<Rightarrow> 'r \<Rightarrow> bool) \<Rightarrow> slot \<Rightarrow> 'a \<Rightarrow>
    slot list \<Rightarrow> (slot option \<times> 'r) list" where
  "direct_groups node grpColIdx init advance final having firstSlot x [] = direct_row final having (Some firstSlot) x"
| "direct_groups node grpColIdx init advance final having firstSlot x (s # ss) =
     (if aggstrategy node = AGG_SORTED \<and> \<not> execTuplesMatch firstSlot s (numCols node) grpColIdx
      then direct_row final having (Some firstSlot) x @
           direct_groups node grpColIdx init advance final having s (advance s init) ss
      else direct_groups node grpColIdx init advance final having firstSlot (advance s x) ss)"

definition agg_retrieve_direct :: "Agg_plan \<Rightarrow> nat list \<Rightarrow> 'a \<Rightarrow> (slot \<Rightarrow> 'a \<Rightarrow> 'a) \<Rightarrow> ('a \<Rightarrow> 'r) \<Rightarrow> (slot option \<Rightarrow> 'r \<Rightarrow> bool) \<Rightarrow>
    slot list \<Rightarrow> (slot option \<times> 'r) list" where
  "agg_retrieve_direct node grpColIdx init advance final having outer =
     (case outer of
        [] \<Rightarrow> if aggstrategy node \<noteq> AGG_PLAIN then [] else direct_row final having None init
      | s # ss \<Rightarrow> direct_groups node grpColIdx init advance final having s (advance s init) ss)"

section \<open>Around\<close>

fun around_loop :: "Agg_plan \<Rightarrow> 'a \<Rightarrow> (slot \<Rightarrow> 'a \<Rightarrow> 'a) \<Rightarrow> pivots \<Rightarrow> 'a AggState \<Rightarrow> slot list \<Rightarrow> 'a AggState option" where
  "around_loop node init advance pv st [] = Some st"
| "around_loop node init advance pv st (s # ss) =
     do { pv1 \<leftarrow> settle_pivots (\<lambda>p q. execTuplesMatchAroundHash p q s 1) pv;
          r \<leftarrow> tally_centre node init advance s (pivot_value pv1) st;
          around_loop node init advance pv1 (snd r) ss }"

definition agg_fill_hash_table_around :: "Agg_plan \<Rightarrow> 'a \<Rightarrow> (slot \<Rightarrow> 'a \<Rightarrow> 'a) \<Rightarrow> 'a AggState \<Rightarrow> slot list \<Rightarrow> slot list \<Rightarrow>
    'a AggState option" where
  "agg_fill_hash_table_around node init advance st inner outer =
     (case load_pivots inner of None \<Rightarrow> Some st | Some pv \<Rightarrow> around_loop node init advance pv st outer)"

text \<open>With a maximal radius. The flags \<open>ignore\<close> and \<open>stop\<close> live as long as the call; their first
  values are uninitialised.\<close>

definition maxRadiusInt :: "Agg_plan \<Rightarrow> int" where
  "maxRadiusInt node = (let d = max_group_diam node in if d < 0 then - ((- d) div 2) else d div 2)"

fun maxr_find :: "(slot \<Rightarrow> slot option \<Rightarrow> bool \<times> bool \<Rightarrow> (bool \<times> bool \<times> bool) option) \<Rightarrow> slot \<Rightarrow> slot list \<Rightarrow> bool \<times> bool \<Rightarrow>
    (pivots \<times> bool \<times> bool) option" where
  "maxr_find m p [] flags = do { (res, ign, stop) \<leftarrow> m p None flags; Some ((p, None, []), ign, stop) }"
| "maxr_find m p (q # rest) flags =
     do { (res, ign, stop) \<leftarrow> m p (Some q) flags;
          if stop then Some ((p, Some q, rest), ign, stop)
          else if (\<not> res \<and> ign) \<or> (res \<and> \<not> ign) then Some ((p, Some q, rest), ign, stop)
          else maxr_find m q rest (ign, stop) }"

definition maxr_settle :: "(slot \<Rightarrow> slot option \<Rightarrow> bool \<times> bool \<Rightarrow> (bool \<times> bool \<times> bool) option) \<Rightarrow> pivots \<Rightarrow> bool \<times> bool \<Rightarrow>
    (pivots \<times> bool \<times> bool) option" where
  "maxr_settle m pv flags =
     (case pv of (p1, p2, rest) \<Rightarrow>
        do { (res, ign, stop) \<leftarrow> m p1 p2 flags;
             case p2 of
               Some q \<Rightarrow> if \<not> res \<and> \<not> ign then maxr_find m q rest (ign, stop) else Some (pv, ign, stop)
             | None \<Rightarrow> Some (pv, ign, stop) })"

fun maxr_loop :: "Agg_plan \<Rightarrow> 'a \<Rightarrow> (slot \<Rightarrow> 'a \<Rightarrow> 'a) \<Rightarrow> pivots \<Rightarrow> bool \<times> bool \<Rightarrow> 'a AggState \<Rightarrow> slot list \<Rightarrow>
    'a AggState option" where
  "maxr_loop node init advance pv flags st [] = Some st"
| "maxr_loop node init advance pv flags st (s # ss) =
     do { (pv1, ign, stop) \<leftarrow> maxr_settle (\<lambda>p q. execTuplesMatchAroundHash_MaxR p q s 1 (maxRadiusInt node)) pv flags;
          if stop then Some st
          else if ign then maxr_loop node init advance pv1 (ign, stop) st ss
          else do { r \<leftarrow> tally_centre node init advance s (pivot_value pv1) st;
                    maxr_loop node init advance pv1 (ign, stop) (snd r) ss } }"

definition agg_fill_hash_table_around_MaxR :: "Agg_plan \<Rightarrow> 'a \<Rightarrow> (slot \<Rightarrow> 'a \<Rightarrow> 'a) \<Rightarrow> bool \<times> bool \<Rightarrow> 'a AggState \<Rightarrow>
    slot list \<Rightarrow> slot list \<Rightarrow> 'a AggState option" where
  "agg_fill_hash_table_around_MaxR node init advance uninit st inner outer =
     (case load_pivots inner of None \<Rightarrow> Some st | Some pv \<Rightarrow> maxr_loop node init advance pv uninit st outer)"

section \<open>Around with a maximal separation\<close>

text \<open>The walks over the hash table that end a chain: its entries (flag 1) are accepted (flag 2)
  or cleared.\<close>

definition enable_chain :: "'a AggState \<Rightarrow> 'a AggState" where
  "enable_chain st = st\<lparr>hashtable := (\<lambda>k. map_option
     (\<lambda>e. if flagEnabled e = 1 then e\<lparr>flagEnabled := 2\<rparr> else e) (hashtable st k))\<rparr>"

definition reset_chain :: "'a \<Rightarrow> 'a AggState \<Rightarrow> 'a AggState" where
  "reset_chain init st = st\<lparr>hashtable := (\<lambda>k. map_option
     (\<lambda>e. if flagEnabled e = 1 then e\<lparr>pergroup := init, flagEnabled := 0\<rparr> else e) (hashtable st k))\<rparr>"

record 'a maxs_state =
  ms_pivots :: pivots
  ms_agg :: "'a AggState"
  basePosition :: int
  ignoreUntilNextGroup :: bool
  curChainConnectedWithCenter :: bool
  firstTuple :: bool

definition connected_with :: "int \<Rightarrow> int \<Rightarrow> int \<Rightarrow> bool option" where
  "connected_with maxSeparation attrPivot1 attrCurrent =
     (if int4lt attrCurrent attrPivot1
      then do { d \<leftarrow> int4mi attrPivot1 attrCurrent; Some (\<not> int4lt maxSeparation d) }
      else do { d \<leftarrow> int4mi attrCurrent attrPivot1; Some (\<not> int4lt maxSeparation d) })"

text \<open>The current tuple is processed: tallied, its position saved, its entry flagged.\<close>

definition maxs_process :: "Agg_plan \<Rightarrow> 'a \<Rightarrow> (slot \<Rightarrow> 'a \<Rightarrow> 'a) \<Rightarrow> slot \<Rightarrow> 'a maxs_state \<Rightarrow> 'a maxs_state option" where
  "maxs_process node init advance s x =
     do { (key, st) \<leftarrow> tally_centre node init advance s (pivot_value (ms_pivots x)) (ms_agg x);
          Some (x\<lparr>ms_agg := update_entry key (\<lambda>e. e\<lparr>flagEnabled := 1\<rparr>) st, basePosition := slot_int s 0\<rparr>) }"

definition maxs_step :: "Agg_plan \<Rightarrow> 'a \<Rightarrow> (slot \<Rightarrow> 'a \<Rightarrow> 'a) \<Rightarrow> 'a maxs_state \<Rightarrow> slot \<Rightarrow> 'a maxs_state option" where
  "maxs_step node init advance x s =
     (case ms_pivots x of (p1, p2, rest) \<Rightarrow>
      do {
        let m = (\<lambda>p q. execTuplesMatchAroundHash p q s 1);
        let attrCurrent = slot_int s 0;
        testMatch \<leftarrow> m p1 p2;
        if \<not> testMatch then do {
          let x1 = (if curChainConnectedWithCenter x then x\<lparr>ms_agg := enable_chain (ms_agg x)\<rparr> else x);
          pv \<leftarrow> (case p2 of None \<Rightarrow> None | Some q \<Rightarrow> find_pivots m q rest);
          x2 \<leftarrow> maxs_process node init advance s (x1\<lparr>ms_pivots := pv\<rparr>);
          c \<leftarrow> connected_with (max_elem_sep node) (pivot_value pv) attrCurrent;
          Some (x2\<lparr>ignoreUntilNextGroup := False, curChainConnectedWithCenter := c\<rparr>) }
        else if firstTuple x then do {
          x1 \<leftarrow> maxs_process node init advance s x;
          c \<leftarrow> connected_with (max_elem_sep node) (pivot_value (ms_pivots x)) attrCurrent;
          Some (x1\<lparr>curChainConnectedWithCenter := c, firstTuple := False\<rparr>) }
        else if ignoreUntilNextGroup x then Some x
        else do {
          c \<leftarrow> connected_with (max_elem_sep node) (pivot_value (ms_pivots x)) attrCurrent;
          gap \<leftarrow> int4mi attrCurrent (basePosition x);
          if int4lt (max_elem_sep node) gap then
            (if c then
               (if curChainConnectedWithCenter x then maxs_process node init advance s x
                else do {
                  x1 \<leftarrow> maxs_process node init advance s (x\<lparr>ms_agg := reset_chain init (ms_agg x)\<rparr>);
                  Some (x1\<lparr>curChainConnectedWithCenter := True\<rparr>) })
             else
               (if curChainConnectedWithCenter x
                then Some (x\<lparr>ms_agg := enable_chain (ms_agg x), curChainConnectedWithCenter := False,
                             ignoreUntilNextGroup := True\<rparr>)
                else Some (x\<lparr>ms_agg := reset_chain init (ms_agg x)\<rparr>)))
          else do {
            x1 \<leftarrow> maxs_process node init advance s x;
            Some (if c then x1\<lparr>curChainConnectedWithCenter := True\<rparr> else x1) } } })"

fun maxs_loop :: "Agg_plan \<Rightarrow> 'a \<Rightarrow> (slot \<Rightarrow> 'a \<Rightarrow> 'a) \<Rightarrow> 'a maxs_state \<Rightarrow> slot list \<Rightarrow> 'a AggState option" where
  "maxs_loop node init advance x [] =
     Some (if curChainConnectedWithCenter x then enable_chain (ms_agg x) else ms_agg x)"
| "maxs_loop node init advance x (s # ss) =
     do { x1 \<leftarrow> maxs_step node init advance x s; maxs_loop node init advance x1 ss }"

definition agg_fill_hash_table_around_MaxS :: "Agg_plan \<Rightarrow> 'a \<Rightarrow> (slot \<Rightarrow> 'a \<Rightarrow> 'a) \<Rightarrow> 'a AggState \<Rightarrow> slot list \<Rightarrow>
    slot list \<Rightarrow> 'a AggState option" where
  "agg_fill_hash_table_around_MaxS node init advance st inner outer =
     (case load_pivots inner of
        None \<Rightarrow> Some st
      | Some pv \<Rightarrow> maxs_loop node init advance
          \<lparr>ms_pivots = pv, ms_agg = st, basePosition = 0, ignoreUntilNextGroup = False,
           curChainConnectedWithCenter = False, firstTuple = True\<rparr> outer)"

fun agg_retrieve_hash_table_around_MaxS :: "('a \<Rightarrow> 'r) \<Rightarrow> (slot \<Rightarrow> 'r \<Rightarrow> bool) \<Rightarrow> slot list \<Rightarrow> 'a AggState \<Rightarrow>
    (slot \<times> 'r) list option" where
  "agg_retrieve_hash_table_around_MaxS final having [] st = Some []"
| "agg_retrieve_hash_table_around_MaxS final having (k # ks) st =
     (case hashtable st k of
        None \<Rightarrow> None
      | Some e \<Rightarrow>
          if flagEnabled e \<noteq> 2 then agg_retrieve_hash_table_around_MaxS final having ks st
          else map_option (\<lambda>rows. if having k (final (pergroup e)) then (k, final (pergroup e)) # rows else rows)
                 (agg_retrieve_hash_table_around_MaxS final having ks st))"

section \<open>Unsupervised\<close>

definition cut_found :: "Agg_plan \<Rightarrow> int \<Rightarrow> int \<Rightarrow> int \<Rightarrow> bool option" where
  "cut_found node attrCurrent first base =
     (if max_group_diam node \<noteq> -1 \<and> max_elem_sep node \<noteq> -1
      then do { d \<leftarrow> int4mi attrCurrent first;
                if int4lt (max_group_diam node) d then Some True
                else do { g \<leftarrow> int4mi attrCurrent base; Some (int4lt (max_elem_sep node) g) } }
      else if max_group_diam node \<noteq> -1
      then do { d \<leftarrow> int4mi attrCurrent first; Some (int4lt (max_group_diam node) d) }
      else do { g \<leftarrow> int4mi attrCurrent base; Some (int4lt (max_elem_sep node) g) })"

text \<open>After the first tuple: \<open>g\<close> is the first element of the current group, \<open>b\<close> the last element
  seen.\<close>

fun unsup_loop :: "Agg_plan \<Rightarrow> 'a \<Rightarrow> (slot \<Rightarrow> 'a \<Rightarrow> 'a) \<Rightarrow> int \<Rightarrow> int \<Rightarrow> 'a AggState \<Rightarrow> slot list \<Rightarrow> 'a AggState option" where
  "unsup_loop node init advance g b st [] = Some st"
| "unsup_loop node init advance g b st (s # ss) =
     do { let attrCurrent = slot_int s 0;
          c \<leftarrow> cut_found node attrCurrent g b;
          let g' = (if c then attrCurrent else g);
          r \<leftarrow> tally_centre node init advance s g' st;
          unsup_loop node init advance g' attrCurrent (snd r) ss }"

fun agg_fill_hash_table_unsupervised :: "Agg_plan \<Rightarrow> 'a \<Rightarrow> (slot \<Rightarrow> 'a \<Rightarrow> 'a) \<Rightarrow> 'a AggState \<Rightarrow> slot list \<Rightarrow>
    'a AggState option" where
  "agg_fill_hash_table_unsupervised node init advance st [] = Some st"
| "agg_fill_hash_table_unsupervised node init advance st (s # ss) =
     do { let attrCurrent = slot_int s 0;
          r \<leftarrow> tally_centre node init advance s attrCurrent st;
          unsup_loop node init advance attrCurrent attrCurrent (snd r) ss }"

section \<open>Around on sorted input\<close>

text \<open>The rows of \<open>agg_retrieve_direct_around\<close> (strategy \<open>AGG_SORTED\<close>), called until it returns
  NULL. The first tuple is advanced without a test against the pivots.\<close>

fun direct_around_groups :: "Agg_plan \<Rightarrow> nat list \<Rightarrow> 'a \<Rightarrow> (slot \<Rightarrow> 'a \<Rightarrow> 'a) \<Rightarrow> ('a \<Rightarrow> 'r) \<Rightarrow> (slot option \<Rightarrow> 'r \<Rightarrow> bool) \<Rightarrow>
    pivots \<Rightarrow> slot \<Rightarrow> 'a \<Rightarrow> slot list \<Rightarrow> (slot option \<times> 'r) list option" where
  "direct_around_groups node grpColIdx init advance final having pv firstSlot x [] =
     Some (direct_row final having (Some firstSlot) x)"
| "direct_around_groups node grpColIdx init advance final having pv firstSlot x (s # ss) =
     (if aggstrategy node \<noteq> AGG_SORTED
      then direct_around_groups node grpColIdx init advance final having pv firstSlot (advance s x) ss
      else do {
        let m = (\<lambda>p q. execTuplesMatchAround p q s (numCols node) grpColIdx);
        b \<leftarrow> m (fst pv) (fst (snd pv));
        if b then direct_around_groups node grpColIdx init advance final having pv firstSlot (advance s x) ss
        else do {
          pv' \<leftarrow> (case fst (snd pv) of None \<Rightarrow> None | Some q \<Rightarrow> find_pivots m q (snd (snd pv)));
          rows \<leftarrow> direct_around_groups node grpColIdx init advance final having pv' s (advance s init) ss;
          Some (direct_row final having (Some firstSlot) x @ rows) } })"

definition agg_retrieve_direct_around :: "Agg_plan \<Rightarrow> nat list \<Rightarrow> 'a \<Rightarrow> (slot \<Rightarrow> 'a \<Rightarrow> 'a) \<Rightarrow> ('a \<Rightarrow> 'r) \<Rightarrow>
    (slot option \<Rightarrow> 'r \<Rightarrow> bool) \<Rightarrow> slot list \<Rightarrow> slot list \<Rightarrow> (slot option \<times> 'r) list option" where
  "agg_retrieve_direct_around node grpColIdx init advance final having inner outer =
     (case outer of
        [] \<Rightarrow> Some (if aggstrategy node \<noteq> AGG_PLAIN then [] else direct_row final having None init)
      | s # ss \<Rightarrow>
          (case load_pivots inner of
             None \<Rightarrow> Some (if aggstrategy node \<noteq> AGG_PLAIN then []
                          else direct_groups node grpColIdx init advance final having s (advance s init) ss)
           | Some pv \<Rightarrow> direct_around_groups node grpColIdx init advance final having pv s (advance s init) ss))"

end
