(* ===== verification/AroundRun.thy ===== *)
theory AroundRun
  imports SGBAround
begin

text \<open>
  What the one-dimensional operators compute. A table of groups is a contract
  (\<open>group_table\<close>): putting a tuple under a key advances the group of that key and no other. The
  hash table of the executor keeps it while \<open>hasharray\<close> has a cell for a new entry, so a
  table filled from nothing holds, for every key, the aggregate of the tuples put there, in their
  order.
\<close>

section \<open>Tables of groups\<close>

text \<open>The tuples put under a key.\<close>

definition group_of :: "('m \<Rightarrow> 'k) \<Rightarrow> ('m \<times> 't) list \<Rightarrow> 'k \<Rightarrow> 't list" where
  "group_of key xs k = map snd (filter (\<lambda>x. key (fst x) = k) xs)"

lemma group_of_simps [simp]:
  "group_of key [] k = []"
  "group_of key (x # xs) k = (if key (fst x) = k then snd x # group_of key xs k else group_of key xs k)"
  "group_of key (xs @ ys) k = group_of key xs k @ group_of key ys k"
  by (simp_all add: group_of_def)

lemma group_of_zip_map: "group_of key (map (\<lambda>t. (m t, t)) ts) k = filter (\<lambda>t. key (m t) = k) ts"
  by (induction ts) simp_all

locale group_table =
  fixes put :: "'m \<Rightarrow> 't \<Rightarrow> 's \<Rightarrow> 's"
    and read :: "'s \<Rightarrow> 'k \<Rightarrow> 'a option"
    and key :: "'m \<Rightarrow> 'k"
    and start :: 'a
    and step :: "'t \<Rightarrow> 'a \<Rightarrow> 'a"
    and room :: "'s \<Rightarrow> bool"
  assumes read_put: "room s \<Longrightarrow> read (put m t s) k =
      (if k = key m then Some (step t (case read s k of None \<Rightarrow> start | Some x \<Rightarrow> x)) else read s k)"
    and room_put: "room s \<Longrightarrow> room (put m t s)"
begin

lemma room_puts: "room s \<Longrightarrow> room (fold (\<lambda>(m, t). put m t) xs s)"
  by (induction xs arbitrary: s) (auto simp: room_put)

lemma read_puts_from:
  "room s \<Longrightarrow> read (fold (\<lambda>(m, t). put m t) xs s) k =
     (if group_of key xs k = [] then read s k
      else Some (fold step (group_of key xs k) (case read s k of None \<Rightarrow> start | Some x \<Rightarrow> x)))"
  by (induction xs arbitrary: s) (auto simp: read_put room_put)

lemma read_puts:
  assumes "room s" "\<And>k. read s k = None"
  shows "read (fold (\<lambda>(m, t). put m t) xs s) k =
     (if group_of key xs k = [] then None else Some (fold step (group_of key xs k) start))"
  by (simp add: read_puts_from assms)

lemma reads_iff:
  assumes "room s" "\<And>k. read s k = None"
  shows "read (fold (\<lambda>(m, t). put m t) xs s) k \<noteq> None \<longleftrightarrow> k \<in> (\<lambda>x. key (fst x)) ` set xs"
  by (auto simp: read_puts assms group_of_def filter_empty_conv)

end

text \<open>The hash table of the executor, while \<open>hasharray\<close> has the cell that a new entry is written to: the
  one-dimensional operators never advance \<open>indexhasharray\<close>, so one cell is enough.\<close>

definition put_group :: "Agg_plan \<Rightarrow> 'a \<Rightarrow> (slot \<Rightarrow> 'a \<Rightarrow> 'a) \<Rightarrow> slot \<Rightarrow> slot \<Rightarrow> 'a AggState \<Rightarrow> 'a AggState" where
  "put_group node init advance m s st = snd (the (tally_tuple node init advance s m st))"

definition row_of :: "'a AggState \<Rightarrow> slot \<Rightarrow> 'a option" where
  "row_of st k = map_option pergroup (hashtable st k)"

lemma pergroup_new [simp]: "pergroup (new_entry node init rx ry) = init" "flagEnabled (new_entry node init rx ry) = 0"
  by (simp_all add: new_entry_def zero_entry_def)

lemma lookup_row:
  assumes "lookup_hash_entry node init st m = Some (key, st1)"
  shows "key = hash_key node m" "row_of st1 k = (if k = hash_key node m \<and> row_of st k = None then Some init else row_of st k)"
    "hashtable st1 (hash_key node m) \<noteq> None"
    "k \<noteq> hash_key node m \<Longrightarrow> hashtable st1 k = hashtable st k"
    "hashtable st (hash_key node m) = Some e \<Longrightarrow> hashtable st1 (hash_key node m) = Some e"
    "hash_room st1 = hash_room st"
  using assms
  by (auto simp: lookup_hash_entry_def Let_def row_of_def rand_def hash_room_def
      split: option.splits if_splits prod.splits)

lemma lookup_room:
  assumes "hash_room st"
  obtains key st1 where "lookup_hash_entry node init st m = Some (key, st1)"
proof -
  have "lookup_hash_entry node init st m \<noteq> None"
    using assms by (simp add: lookup_hash_entry_def Let_def split: option.split prod.split)
  then show thesis using that by auto
qed

lemma row_of_update: "row_of (update_entry key f st) k =
    (if k = key then map_option (\<lambda>e. pergroup (f e)) (hashtable st k) else row_of st k)"
  by (simp add: row_of_def update_entry_def option.map_comp comp_def)

lemma put_group_ok:
  assumes "hash_room st"
  shows "tally_tuple node init advance s m st = Some (hash_key node m, put_group node init advance m s st)"
    "hash_room (put_group node init advance m s st)"
    "row_of (put_group node init advance m s st) k =
       (if k = hash_key node m then Some (advance s (case row_of st k of None \<Rightarrow> init | Some x \<Rightarrow> x)) else row_of st k)"
proof -
  obtain key st1 where l: "lookup_hash_entry node init st m = Some (key, st1)" using lookup_room [OF assms] .
  have p: "put_group node init advance m s st =
      update_entry (hash_key node m) (\<lambda>e. e\<lparr>pergroup := advance s (pergroup e)\<rparr>) st1"
    by (simp add: put_group_def tally_tuple_def l lookup_row(1) [OF l])
  show "tally_tuple node init advance s m st = Some (hash_key node m, put_group node init advance m s st)"
    by (simp add: p) (simp add: tally_tuple_def l lookup_row(1) [OF l])
  show "hash_room (put_group node init advance m s st)"
    using lookup_row(6) [OF l] assms by (simp add: p update_entry_def hash_room_def)
  have "row_of (put_group node init advance m s st) k =
      (if k = hash_key node m then map_option (advance s) (row_of st1 k) else row_of st1 k)"
    by (simp add: p update_entry_def row_of_def option.map_comp comp_def)
  then show "row_of (put_group node init advance m s st) k =
       (if k = hash_key node m then Some (advance s (case row_of st k of None \<Rightarrow> init | Some x \<Rightarrow> x)) else row_of st k)"
    unfolding lookup_row(2) [OF l] by (auto split: option.splits)
qed

lemmas put_group_row = put_group_ok(3)

interpretation hash: group_table "put_group node init advance" row_of "hash_key node" init advance hash_room
  for node :: Agg_plan and init :: 'a and advance :: "slot \<Rightarrow> 'a \<Rightarrow> 'a"
  by unfold_locales (rule put_group_row, assumption, rule put_group_ok(2))

definition empty_table :: "'a AggState \<Rightarrow> bool" where
  "empty_table st \<longleftrightarrow> hashtable st = (\<lambda>_. None) \<and> hash_room st"

lemma empty_row: "empty_table st \<Longrightarrow> row_of st k = None"
  by (simp add: empty_table_def row_of_def)

lemma empty_room: "empty_table st \<Longrightarrow> hash_room st"
  by (simp add: empty_table_def)

lemma init_empty_table: "distanceall node \<noteq> 0 \<Longrightarrow> empty_table (ExecInitAgg_state node junk st)"
  by (simp add: empty_table_def hash_room_def ExecInitAgg_state_simps sizeofgroup_def)

text \<open>The table holds exactly the groups of the pairs \<open>xs\<close> of a modified tuple and a tuple.\<close>

definition holds_groups :: "Agg_plan \<Rightarrow> 'a \<Rightarrow> (slot \<Rightarrow> 'a \<Rightarrow> 'a) \<Rightarrow> (slot \<times> slot) list \<Rightarrow> 'a AggState \<Rightarrow> bool" where
  "holds_groups node init advance xs st \<longleftrightarrow> (\<forall>k. row_of st k =
     (let g = group_of (hash_key node) xs k in if g = [] then None else Some (fold advance g init)))"

lemma puts_hold:
  assumes "empty_table st"
  shows "holds_groups node init advance xs (fold (\<lambda>(m, s). put_group node init advance m s) xs st)"
  unfolding holds_groups_def Let_def by (intro allI hash.read_puts empty_row empty_room assms)

section \<open>Standard grouping\<close>

lemma agg_fill_hash_table_puts:
  "hash_room st \<Longrightarrow> agg_fill_hash_table node init advance st ss =
     Some (fold (\<lambda>(m, s). put_group node init advance m s) (map (\<lambda>s. (s, s)) ss) st)"
  by (induction ss arbitrary: st) (simp_all add: put_group_ok)

lemma agg_fill_hash_table_groups:
  assumes "empty_table st"
  obtains st' where "agg_fill_hash_table node init advance st ss = Some st'" "hash_room st'"
    "holds_groups node init advance (map (\<lambda>s. (s, s)) ss) st'"
  using that agg_fill_hash_table_puts [OF empty_room [OF assms]] hash.room_puts [OF empty_room [OF assms]] puts_hold [OF assms] .

section \<open>Closest centres\<close>

text \<open>The closest centre; half way between two centres the right one.\<close>

definition closest :: "int list \<Rightarrow> int \<Rightarrow> int \<Rightarrow> bool" where
  "closest cs v c \<longleftrightarrow> c \<in> set cs \<and> (\<forall>d\<in>set cs. \<bar>v - c\<bar> < \<bar>v - d\<bar> \<or> (\<bar>v - c\<bar> = \<bar>v - d\<bar> \<and> d \<le> c))"

lemma closest_unique: "closest cs v c \<Longrightarrow> closest cs v d \<Longrightarrow> c = d"
  unfolding closest_def by (elim conjE, drule (1) bspec, drule (1) bspec) linarith

text \<open>The centres that are left once the pivots match the value \<open>v\<close>.\<close>

fun settle :: "int list \<Rightarrow> int \<Rightarrow> int list" where
  "settle (c # d # cs) v = (if closer c d v then c # d # cs else settle (d # cs) v)"
| "settle cs v = cs"

lemma settle_nonempty [simp]: "settle cs v = [] \<longleftrightarrow> cs = []"
  by (induction cs v rule: settle.induct) simp_all

lemma settle_low: "cs \<noteq> [] \<Longrightarrow> u \<le> hd cs \<Longrightarrow> settle cs u = cs"
  by (cases "(cs, u)" rule: settle.cases) (auto simp: closer_def)

lemma settle_twice:
  assumes "sorted_wrt (<) cs" "v \<le> v'"
  shows "settle (settle cs v) v' = settle cs v'"
  using assms
proof (induction cs v rule: settle.induct)
  case (1 c d cs v)
  then show ?case by (auto simp: closer_def)
qed simp_all

lemma settle_sorted: "sorted_wrt (<) cs \<Longrightarrow> sorted_wrt (<) (settle cs v)"
  by (induction cs v rule: settle.induct) simp_all

lemma settle_closest:
  assumes "sorted_wrt (<) cs" "cs \<noteq> []"
  shows "closest cs v (hd (settle cs v))"
  using assms
proof (induction cs v rule: settle.induct)
  case (1 c d cs v)
  show ?case
  proof (cases "closer c d v")
    case True
    have "\<bar>v - c\<bar> < \<bar>v - b\<bar>" if "b \<in> set (d # cs)" for b
    proof -
      have "c < d" "d \<le> b" using that 1(2) by auto
      then show ?thesis using True by (auto simp: closer_def)
    qed
    then show ?thesis using True by (auto simp: closest_def)
  next
    case False
    then have IH: "closest (d # cs) v (hd (settle (d # cs) v))" using 1 by simp
    let ?h = "hd (settle (d # cs) v)"
    have le: "\<bar>v - ?h\<bar> \<le> \<bar>v - d\<bar>" "?h \<in> set (d # cs)" using IH by (force simp: closest_def)+
    moreover have "\<bar>v - d\<bar> \<le> \<bar>v - c\<bar>" using False 1(2) by (auto simp: closer_def)
    ultimately have "\<bar>v - ?h\<bar> < \<bar>v - c\<bar> \<or> (\<bar>v - ?h\<bar> = \<bar>v - c\<bar> \<and> c \<le> ?h)" using 1(2) by auto
    then show ?thesis using IH False by (auto simp: closest_def)
  qed
qed (simp_all add: closest_def)

lemma closest_iff_settle:
  "sorted_wrt (<) cs \<Longrightarrow> cs \<noteq> [] \<Longrightarrow> closest cs v c \<longleftrightarrow> c = hd (settle cs v)"
  using closest_unique settle_closest by metis

section \<open>Pivots\<close>

text \<open>The centres still ahead: the pivots and the rest of the inner plan.\<close>

definition ahead :: "pivots \<Rightarrow> slot list" where
  "ahead pv = (case pv of (p, None, rest) \<Rightarrow> [p] | (p, Some q, rest) \<Rightarrow> p # q # rest)"

definition pivots_ok :: "pivots \<Rightarrow> int list \<Rightarrow> bool" where
  "pivots_ok pv cs \<longleftrightarrow> list_all2 at_value (ahead pv) cs \<and> (fst (snd pv) = None \<longrightarrow> snd (snd pv) = [])"

fun_cases load_pivots_SomeE: "load_pivots inner = Some pv"

lemma load_pivots_ahead: "load_pivots inner = Some pv \<Longrightarrow> ahead pv = inner \<and> (fst (snd pv) = None \<longrightarrow> snd (snd pv) = [])"
  by (erule load_pivots_SomeE) (auto simp: ahead_def)

lemma load_pivots_ok:
  assumes "list_all2 at_value inner cs" "cs \<noteq> []"
  obtains pv where "load_pivots inner = Some pv" "pivots_ok pv cs"
proof -
  have "inner \<noteq> []" using assms by auto
  then obtain pv where "load_pivots inner = Some pv" by (cases inner rule: load_pivots.cases) auto
  then show thesis using that load_pivots_ahead assms(1) by (auto simp: pivots_ok_def)
qed

lemma pivot_value_ok: "pivots_ok pv cs \<Longrightarrow> cs \<noteq> [] \<and> pivot_value pv = hd cs"
  by (cases pv; cases "fst (snd pv)"; cases cs) (auto simp: pivots_ok_def ahead_def pivot_value_def at_value_def)

text \<open>A test of the pivots that decides by the half-way rule.\<close>

definition halfway_test :: "(slot \<Rightarrow> slot option \<Rightarrow> bool option) \<Rightarrow> int \<Rightarrow> bool" where
  "halfway_test m v \<longleftrightarrow> (\<forall>p. m p None = Some True) \<and>
     (\<forall>p q c d. at_value p c \<longrightarrow> at_value q d \<longrightarrow> m p (Some q) = Some (closer c d v))"

lemma find_pivots_ok:
  assumes "halfway_test m v" "list_all2 at_value (p # rest) cs"
  shows "\<exists>pv. find_pivots m p rest = Some pv \<and> pivots_ok pv (settle cs v)"
  using assms(2)
proof (induction rest arbitrary: p cs)
  case Nil
  then show ?case by (auto simp: pivots_ok_def ahead_def list_all2_Cons1)
next
  case (Cons q rest)
  then obtain c d ds where cs: "cs = c # d # ds" "at_value p c" "at_value q d" "list_all2 at_value rest ds"
    by (auto simp: list_all2_Cons1)
  then have m: "m p (Some q) = Some (closer c d v)" using assms(1) by (simp add: halfway_test_def)
  show ?case
  proof (cases "closer c d v")
    case True
    then show ?thesis using cs m by (simp add: pivots_ok_def ahead_def)
  next
    case False
    then show ?thesis using Cons.IH [of q "d # ds"] cs m by simp
  qed
qed

lemma settle_pivots_ok:
  assumes "halfway_test m v" "pivots_ok pv cs"
  shows "\<exists>pv'. settle_pivots m pv = Some pv' \<and> pivots_ok pv' (settle cs v)"
proof -
  obtain p q rest where pv: "pv = (p, q, rest)" by (cases pv) auto
  show ?thesis
  proof (cases q)
    case None
    then obtain c where "cs = [c]" using assms(2) by (auto simp: pv pivots_ok_def ahead_def list_all2_Cons1)
    then show ?thesis using assms None by (auto simp: settle_pivots_def pv halfway_test_def)
  next
    case (Some q')
    then obtain c d ds where cs: "cs = c # d # ds" "at_value p c" "at_value q' d" "list_all2 at_value rest ds"
      using assms(2) by (auto simp: pv pivots_ok_def ahead_def list_all2_Cons1)
    then have m: "m p (Some q') = Some (closer c d v)" using assms(1) by (simp add: halfway_test_def)
    show ?thesis
    proof (cases "closer c d v")
      case True
      then show ?thesis using assms(2) m cs(1) by (simp add: settle_pivots_def pv Some)
    next
      case False
      then show ?thesis using find_pivots_ok [OF assms(1), of q' rest "d # ds"] m cs
        by (simp add: settle_pivots_def pv Some)
    qed
  qed
qed

lemma hash_test: "at_value s v \<Longrightarrow> halfway_test (\<lambda>p q. execTuplesMatchAroundHash p q s 1) v"
  unfolding halfway_test_def by (metis match_hash match_hash_last)

lemma sorted_test: "at_value s v \<Longrightarrow> halfway_test (\<lambda>p q. execTuplesMatchAround p q s 1 [1]) v"
  unfolding halfway_test_def by (metis match_sorted match_sorted_last)

section \<open>Around\<close>

text \<open>The input of the operators: tuples that are at the values \<open>vs\<close>, sorted.\<close>

definition sorted_input :: "slot list \<Rightarrow> int list \<Rightarrow> bool" where
  "sorted_input ss vs \<longleftrightarrow> list_all2 at_value ss vs \<and> sorted vs"

definition centres :: "slot list \<Rightarrow> int list \<Rightarrow> bool" where
  "centres inner cs \<longleftrightarrow> list_all2 at_value inner cs \<and> sorted_wrt (<) cs \<and> cs \<noteq> []"

definition at_centre :: "int \<Rightarrow> slot \<Rightarrow> slot" where
  "at_centre c s = s[0 := Some c]"

lemma nth_first_update: "i < length xs \<Longrightarrow> xs[0 := x] ! i = (if i = 0 then x else xs ! i)"
  by (cases i) simp_all

lemma centre_slot_some: "centre_slot s c = Some (at_centre c s)"
proof -
  let ?n = "length s"
  have "map (\<lambda>i. if (replicate ?n False)[0 := True] ! i
      then if replicate ?n False ! i then None else Some ((replicate ?n 0)[0 := c] ! i) else s ! i) [0..<?n] = at_centre c s"
    (is "?l = _")
  proof (rule nth_equalityI)
    fix i assume "i < length ?l"
    then have "i < ?n" by simp
    then show "?l ! i = at_centre c s ! i" by (cases i) (simp_all add: at_centre_def)
  qed (simp add: at_centre_def)
  then show ?thesis by (simp add: centre_slot_def heap_modify_tuple_def Let_def)
qed

lemma tally_centre_some:
  "tally_centre node init advance s c st = tally_tuple node init advance s (at_centre c s) st"
  by (simp add: tally_centre_def centre_slot_some)

lemma tally_centre_put:
  "hash_room st \<Longrightarrow> tally_centre node init advance s c st =
     Some (hash_key node (at_centre c s), put_group node init advance (at_centre c s) s st)"
  by (simp add: tally_centre_some put_group_ok(1))

lemma slot_int_at: "at_value s v \<Longrightarrow> slot_int s 0 = v"
  by (simp add: at_value_def)

lemma sorted_input_values: "sorted_input ss vs \<Longrightarrow> map (\<lambda>s. slot_int s 0) ss = vs"
  by (auto simp: sorted_input_def list_all2_conv_all_nth slot_int_at intro!: nth_equalityI)

lemma around_loop_puts:
  assumes "pivots_ok pv (settle cs u)" "sorted_wrt (<) cs" "cs \<noteq> []" "sorted_input ss vs" "\<forall>v\<in>set vs. u \<le> v" "hash_room st"
  shows "around_loop node init advance pv st ss = Some (fold (\<lambda>(m, s). put_group node init advance m s)
           (map (\<lambda>s. (at_centre (hd (settle cs (slot_int s 0))) s, s)) ss) st)"
  using assms
proof (induction ss arbitrary: pv u vs st)
  case Nil
  then show ?case by simp
next
  case (Cons s ss)
  then obtain v vs' where vs: "vs = v # vs'" "at_value s v" "sorted_input ss vs'" "\<forall>w\<in>set vs'. v \<le> w" "u \<le> v"
    by (auto simp: sorted_input_def list_all2_Cons1)
  obtain pv' where pv': "settle_pivots (\<lambda>p q. execTuplesMatchAroundHash p q s 1) pv = Some pv'"
    "pivots_ok pv' (settle (settle cs u) v)"
    using settle_pivots_ok [OF hash_test [OF vs(2)] Cons.prems(1)] by blast
  have ok: "pivots_ok pv' (settle cs v)" using pv'(2) settle_twice [OF Cons.prems(2) vs(5)] by simp
  show ?case
    using Cons.IH [OF ok Cons.prems(2,3) vs(3,4) put_group_ok(2) [OF Cons.prems(6)]] pv'(1) pivot_value_ok [OF ok]
      slot_int_at [OF vs(2)]
    by (simp add: tally_centre_put Cons.prems(6))
qed

text \<open>C21. Grouping around centres (\<open>agg_fill_hash_table_around\<close>) on sorted input returns without an
  error, and the table has a group for a centre and the values of the other grouping columns
  exactly when some tuple has these and is closest to that centre; its aggregates are those of
  exactly these tuples, in their order. Half way between two centres the right one is taken.\<close>

theorem agg_fill_hash_table_around_closest:
  assumes "empty_table st" "centres inner cs" "sorted_input ss vs"
  shows "\<exists>st'. agg_fill_hash_table_around node init advance st inner ss = Some st' \<and>
    (\<forall>k. row_of st' k =
       (let g = filter (\<lambda>s. \<exists>c. closest cs (slot_int s 0) c \<and> hash_key node (at_centre c s) = k) ss
        in if g = [] then None else Some (fold advance g init)))"
proof -
  let ?m = "\<lambda>s. at_centre (hd (settle cs (slot_int s 0))) s"
  have cs: "sorted_wrt (<) cs" "cs \<noteq> []" "list_all2 at_value inner cs" using assms(2) by (simp_all add: centres_def)
  obtain pv where pv: "load_pivots inner = Some pv" "pivots_ok pv cs" using load_pivots_ok [OF cs(3,2)] .
  obtain u where u: "settle cs u = cs" "\<forall>v\<in>set vs. u \<le> v"
  proof
    show "settle cs (min (hd cs) (Min (insert 0 (set vs)))) = cs"
      by (rule settle_low [OF cs(2)]) simp
    show "\<forall>v\<in>set vs. min (hd cs) (Min (insert 0 (set vs))) \<le> v" by (auto simp: min.coboundedI2)
  qed
  have ok: "pivots_ok pv (settle cs u)" using pv(2) u(1) by simp
  have run: "agg_fill_hash_table_around node init advance st inner ss =
      Some (fold (\<lambda>(m, s). put_group node init advance m s) (map (\<lambda>s. (?m s, s)) ss) st)"
    by (simp add: agg_fill_hash_table_around_def pv(1) around_loop_puts [OF ok cs(1,2) assms(3) u(2) empty_room [OF assms(1)]])
  have "(\<lambda>s. \<exists>c. closest cs (slot_int s 0) c \<and> hash_key node (at_centre c s) = k) = (\<lambda>s. hash_key node (?m s) = k)" for k
    by (rule ext) (simp add: closest_iff_settle [OF cs(1,2)])
  then show ?thesis
    using puts_hold [OF assms(1), of node init advance "map (\<lambda>s. (?m s, s)) ss"]
    by (simp add: run holds_groups_def group_of_zip_map)
qed

lemmas demo_input_defs = demo_plan_def demo_state_def empty_table_def hash_room_def sizeofgroup_def centres_def sorted_input_def at_value_def slot_of_def
  slot_getattr_def av_ok_def

lemma agg_fill_hash_table_around_closest_witness:
  "let node = (demo_plan 2 (-1))\<lparr>numCols := 1\<rparr>; inner = [slot_of [0], slot_of [10]];
       ss = [slot_of [1], slot_of [4], slot_of [5], slot_of [12]] in
   \<exists>st'. agg_fill_hash_table_around node (0::nat) (\<lambda>_ n. n + 1) demo_state inner ss = Some st' \<and>
    (\<forall>k. row_of st' k =
       (let g = filter (\<lambda>s. \<exists>c. closest [0, 10] (slot_int s 0) c \<and> hash_key node (at_centre c s) = k) ss
        in if g = [] then None else Some (fold (\<lambda>_ n. n + 1) g 0)))"
  unfolding Let_def [of "(demo_plan 2 (-1))\<lparr>numCols := 1\<rparr>"] Let_def [of "[slot_of [0], slot_of [10]]"]
    Let_def [of "[slot_of [1], slot_of [4], slot_of [5], slot_of [12]]"]
  by (rule agg_fill_hash_table_around_closest [where vs = "[1, 4, 5, 12]"]) (simp_all add: demo_input_defs)

section \<open>Runs\<close>

text \<open>The rows of a sorted operator: a row ends where the value of \<open>f\<close> changes.\<close>

fun scan_runs :: "('t \<Rightarrow> 'a \<Rightarrow> 'b list) \<Rightarrow> ('t \<Rightarrow> 'a \<Rightarrow> 'a) \<Rightarrow> 'a \<Rightarrow> ('t \<Rightarrow> 'k) \<Rightarrow> 't \<Rightarrow> 'a \<Rightarrow> 't list \<Rightarrow> 'b list" where
  "scan_runs row advance init f first x [] = row first x"
| "scan_runs row advance init f first x (s # ss) =
     (if f s = f first then scan_runs row advance init f first (advance s x) ss
      else row first x @ scan_runs row advance init f s (advance s init) ss)"

function runs_by :: "('t \<Rightarrow> 'k) \<Rightarrow> 't list \<Rightarrow> 't list list" where
  "runs_by f [] = []"
| "runs_by f (s # ss) =
     (s # takeWhile (\<lambda>t. f t = f s) ss) # runs_by f (dropWhile (\<lambda>t. f t = f s) ss)"
  by pat_completeness auto
termination
  by (relation "measure (\<lambda>(f, ss). length ss)") (auto simp: le_imp_less_Suc length_dropWhile_le)

lemma concat_runs [simp]: "concat (runs_by f ss) = ss"
  by (induction f ss rule: runs_by.induct) simp_all

lemma runs_nonempty: "g \<in> set (runs_by f ss) \<Longrightarrow> g \<noteq> [] \<and> (\<forall>s\<in>set g. f s = f (hd g))"
proof (induction f ss rule: runs_by.induct)
  case (2 f s ss)
  from 2(2) consider "g = s # takeWhile (\<lambda>t. f t = f s) ss" | "g \<in> set (runs_by f (dropWhile (\<lambda>t. f t = f s) ss))"
    unfolding runs_by.simps set_simps by blast
  then show ?case
  proof cases
    case 1
    show ?thesis unfolding 1 list.sel set_simps by (blast dest: set_takeWhileD)
  qed (rule 2(1))
qed simp

lemma runs_values: "f ` set ss = (\<lambda>g. f (hd g)) ` set (runs_by f ss)"
proof -
  have one: "f ` set g = {f (hd g)}" if "g \<in> set (runs_by f ss)" for g
  proof -
    have g: "g \<noteq> []" "\<forall>s\<in>set g. f s = f (hd g)" using runs_nonempty [OF that] by blast+
    have "f ` set g = (\<lambda>_. f (hd g)) ` set g" by (rule image_cong [OF refl]) (rule bspec [OF g(2)])
    then show ?thesis using g(1) by (simp add: image_constant_conv)
  qed
  have "f ` set ss = (\<Union>g\<in>set (runs_by f ss). f ` set g)" by (metis concat_runs image_UN set_concat)
  then show ?thesis using one by auto
qed

lemma scan_runs_from:
  "scan_runs row advance init f first x ss =
     row first (fold advance (takeWhile (\<lambda>t. f t = f first) ss) x) @
     concat (map (\<lambda>g. row (hd g) (fold advance g init)) (runs_by f (dropWhile (\<lambda>t. f t = f first) ss)))"
  by (induction ss arbitrary: first x) simp_all

lemma scan_runs_rows:
  "scan_runs row advance init f s (advance s init) ss =
     concat (map (\<lambda>g. row (hd g) (fold advance g init)) (runs_by f (s # ss)))"
  by (simp add: scan_runs_from)

text \<open>A value that has ended does not come back.\<close>

fun clustered :: "('t \<Rightarrow> 'k) \<Rightarrow> 't list \<Rightarrow> bool" where
  "clustered f [] = True"
| "clustered f (s # ss) \<longleftrightarrow> clustered f ss \<and> (ss = [] \<or> f (hd ss) = f s \<or> f s \<notin> f ` set ss)"

lemma clustered_dropWhile: "clustered f ss \<Longrightarrow> clustered f (dropWhile P ss)"
  by (induction ss) auto

lemma clustered_ended:
  "clustered f (s # ss) \<Longrightarrow> t \<in> set (dropWhile (\<lambda>t. f t = f s) ss) \<Longrightarrow> f t \<noteq> f s"
proof (induction ss arbitrary: s)
  case (Cons a ss)
  show ?case
  proof (cases "f a = f s")
    case True
    then show ?thesis using Cons.IH [of a] Cons.prems by auto
  next
    case False
    then show ?thesis using Cons.prems by (auto simp: image_iff)
  qed
qed simp

lemma clustered_runs:
  assumes "clustered f ss" "g \<in> set (runs_by f ss)"
  shows "filter (\<lambda>s. f s = f (hd g)) ss = g"
  using assms
proof (induction f ss rule: runs_by.induct)
  case (2 f s ss)
  let ?d = "dropWhile (\<lambda>t. f t = f s) ss" and ?t = "takeWhile (\<lambda>t. f t = f s) ss"
  have split: "filter P ss = filter P ?t @ filter P ?d" for P by (metis filter_append takeWhile_dropWhile_id)
  have ended: "f t \<noteq> f s" if "t \<in> set ?d" for t using clustered_ended [OF 2(2) that] .
  show ?case
  proof (cases "g \<in> set (runs_by f ?d)")
    case True
    have "clustered f ?d" using 2(2) by (simp add: clustered_dropWhile)
    then have g: "filter (\<lambda>s. f s = f (hd g)) ?d = g" using True by (rule 2(1))
    have "hd g \<in> set ?d" using runs_nonempty [OF True] True by (metis UN_I concat_runs hd_in_set set_concat)
    then have ne: "f (hd g) \<noteq> f s" using ended by blast
    then have "filter (\<lambda>s. f s = f (hd g)) ?t = []"
      unfolding filter_empty_conv by (metis set_takeWhileD)
    then show ?thesis using g ne by (simp add: split)
  next
    case False
    then have g: "g = s # ?t" using 2(3) by simp
    have "filter (\<lambda>t. f t = f s) ?t = ?t"
      unfolding filter_id_conv by (blast dest: set_takeWhileD)
    moreover have "filter (\<lambda>t. f t = f s) ?d = []" unfolding filter_empty_conv using ended by blast
    ultimately show ?thesis by (simp add: g split)
  qed
qed simp

lemma clustered_distinct: "clustered f ss \<Longrightarrow> distinct (map (\<lambda>g. f (hd g)) (runs_by f ss))"
proof (induction f ss rule: runs_by.induct)
  case (2 f s ss)
  have "f s \<noteq> f (hd g)" if "g \<in> set (runs_by f (dropWhile (\<lambda>t. f t = f s) ss))" for g
  proof -
    have "hd g \<in> set (dropWhile (\<lambda>t. f t = f s) ss)"
      using runs_nonempty [OF that] that by (metis UN_I concat_runs hd_in_set set_concat)
    then show ?thesis using clustered_ended [OF 2(2)] by metis
  qed
  then show ?case using 2 clustered_dropWhile by auto
qed simp

lemma sorted_clustered: "sorted (map f ss) \<Longrightarrow> clustered (f :: 't \<Rightarrow> int) ss"
  by (induction ss) (force simp: neq_Nil_conv)+

lemma sorted_runs: "sorted (map f ss) \<Longrightarrow> sorted_wrt (<) (map (\<lambda>g. f (hd g)) (runs_by (f :: 't \<Rightarrow> int) ss))"
proof -
  assume srt: "sorted (map f ss)"
  have "sorted (map (\<lambda>g. f (hd g)) (runs_by f ss))"
    using srt
  proof (induction f ss rule: runs_by.induct)
    case (2 f s ss)
    let ?d = "dropWhile (\<lambda>t. f t = f s) ss"
    have "f s \<le> f (hd g)" if "g \<in> set (runs_by f ?d)" for g
    proof -
      have "hd g \<in> set ?d" using runs_nonempty [OF that] that by (metis UN_I concat_runs hd_in_set set_concat)
      then show ?thesis using 2(2) set_dropWhileD [of "hd g" "\<lambda>t. f t = f s" ss] by simp
    qed
    moreover have "sorted (map f ?d)" 
      using 2(2) sorted_dropWhile [of "map f ss" "\<lambda>y. y = f s"] by (simp add: dropWhile_map comp_def)
    ultimately show ?case using 2(1) by simp
  qed simp
  then show ?thesis
    using clustered_distinct [OF sorted_clustered [OF srt]] strict_sorted_iff by blast
qed

end
