(* ===== verification/AroundSorted.thy ===== *)
theory AroundSorted
  imports AroundRun
begin

text \<open>
  The operators on sorted input, \<open>agg_retrieve_direct\<close> and \<open>agg_retrieve_direct_around\<close>: their
  rows are those of the runs of the input (\<open>runs_by\<close>), by the grouping columns and by the closest
  centre. Standard grouping gives the same rows sorted and hashed.
\<close>

section \<open>Standard grouping\<close>

definition leading :: "nat \<Rightarrow> slot list \<Rightarrow> bool" where
  "leading n ss \<longleftrightarrow> (\<forall>s\<in>set ss. n \<le> length s)"

text \<open>The first \<open>n\<close> columns, as \<open>grpColIdx\<close> counts them.\<close>

definition key_columns :: "nat \<Rightarrow> nat list" where
  "key_columns n = map Suc [0..<n]"

lemma key_columns_nth [simp]: "i < n \<Longrightarrow> key_columns n ! i = Suc i"
  by (simp add: key_columns_def)

lemma slot_getattr_eq:
  "i < length s \<Longrightarrow> i < length t \<Longrightarrow>
     slot_getattr s (Suc i) = slot_getattr t (Suc i) \<longleftrightarrow> s ! i = t ! i"
  by (auto simp: slot_getattr_def split: option.splits)

lemma execTuplesMatch_take:
  assumes "n \<le> length s" "n \<le> length t" "n \<le> m"
  shows "execTuplesMatch s t n (key_columns m) \<longleftrightarrow> take n s = take n t"
  using assms
proof (induction n)
  case (Suc n)
  have "execTuplesMatch s t (Suc n) (key_columns m) \<longleftrightarrow> slot_getattr s (Suc n) = slot_getattr t (Suc n) \<and> take n s = take n t"
    using Suc by (auto simp: slot_getattr_def split: prod.splits option.splits)
  also have "\<dots> \<longleftrightarrow> take (Suc n) s = take (Suc n) t"
    using Suc.prems by (auto simp: slot_getattr_eq take_Suc_conv_app_nth)
  finally show ?case .
qed simp

lemma direct_groups_scan:
  assumes "aggstrategy node = AGG_SORTED" "leading (numCols node) (f # ss)"
  shows "direct_groups node (key_columns (numCols node)) init advance final having f x ss =
    scan_runs (\<lambda>s. direct_row final having (Some s)) advance init (hash_key node) f x ss"
  using assms(2)
proof (induction ss arbitrary: f x)
  case (Cons s ss)
  have "execTuplesMatch f s (numCols node) (key_columns (numCols node)) \<longleftrightarrow> hash_key node s = hash_key node f"
    using Cons.prems by (auto simp: execTuplesMatch_take leading_def hash_key_def)
  then show ?case using Cons assms(1) by (simp add: leading_def)
qed simp

lemma agg_retrieve_direct_runs:
  assumes "aggstrategy node = AGG_SORTED" "leading (numCols node) ss"
  shows "agg_retrieve_direct node (key_columns (numCols node)) init advance final having ss =
    concat (map (\<lambda>g. direct_row final having (Some (hd g)) (fold advance g init)) (runs_by (hash_key node) ss))"
proof (cases ss)
  case (Cons s ss')
  then show ?thesis
    using assms(2)
    by (simp add: agg_retrieve_direct_def direct_groups_scan [OF assms(1)] scan_runs_rows del: runs_by.simps)
qed (simp add: agg_retrieve_direct_def assms(1))

text \<open>The plain aggregate has one row, also of no input.\<close>

lemma direct_groups_plain:
  "aggstrategy node \<noteq> AGG_SORTED \<Longrightarrow>
   direct_groups node cols init advance final having f x ss = direct_row final having (Some f) (fold advance ss x)"
  by (induction ss arbitrary: x) simp_all

lemma agg_retrieve_direct_plain:
  assumes "aggstrategy node = AGG_PLAIN"
  shows "agg_retrieve_direct node cols init advance final having ss =
    direct_row final having (if ss = [] then None else Some (hd ss)) (fold advance ss init)"
  using assms by (cases ss) (simp_all add: agg_retrieve_direct_def direct_groups_plain)

section \<open>Around\<close>

lemma find_pivots_settle:
  assumes "fst (snd pv) = Some q" "m (fst pv) (Some q) = Some False"
  shows "find_pivots m q (snd (snd pv)) = settle_pivots m pv"
  using assms by (cases pv) (simp add: settle_pivots_def)

lemma settle_hd_mono:
  assumes "sorted_wrt (<) cs" "cs \<noteq> []" "v \<le> v'"
  shows "hd (settle cs v) \<le> hd (settle cs v')"
proof -
  have "hd xs \<le> hd (settle xs w)" if "sorted_wrt (<) xs" "xs \<noteq> []" for xs w
    using that by (induction xs w rule: settle.induct) auto
  from this [of "settle cs v" v'] show ?thesis
    using settle_sorted [OF assms(1)] assms(2) settle_twice [OF assms(1,3)] by simp
qed

text \<open>The pivots settle for the tuple \<open>s\<close>: they stay exactly when the closest centre is the same.\<close>

lemma around_step:
  assumes "pivots_ok pv (settle cs u)" "sorted_wrt (<) cs" "cs \<noteq> []" "u \<le> v" "at_value s v"
  defines "m \<equiv> \<lambda>p q. execTuplesMatchAround p q s 1 [1]"
  shows "\<exists>b. m (fst pv) (fst (snd pv)) = Some b \<and> (b \<longleftrightarrow> hd (settle cs v) = hd (settle cs u)) \<and>
      (b \<longrightarrow> settle cs v = settle cs u) \<and>
      (\<not> b \<longrightarrow> (\<exists>q pv'. fst (snd pv) = Some q \<and> find_pivots m q (snd (snd pv)) = Some pv' \<and> pivots_ok pv' (settle cs v)))"
proof -
  have test: "halfway_test m v" unfolding m_def by (rule sorted_test [OF assms(5)])
  have tw: "settle (settle cs u) v = settle cs v" by (rule settle_twice [OF assms(2,4)])
  obtain pv' where pv': "settle_pivots m pv = Some pv'" "pivots_ok pv' (settle cs v)"
    using settle_pivots_ok [OF test assms(1)] tw by auto
  have srt: "sorted_wrt (<) (settle cs u)" using settle_sorted [OF assms(2)] .
  obtain p q rest where pv: "pv = (p, q, rest)" by (cases pv) auto
  show ?thesis
  proof (cases q)
    case None
    then obtain c where "settle cs u = [c]" using assms(1) by (auto simp: pv pivots_ok_def ahead_def list_all2_Cons1)
    then have "settle cs v = [c]" using tw by simp
    then show ?thesis using test \<open>settle cs u = [c]\<close> by (auto simp: pv None halfway_test_def)
  next
    case (Some q')
    then obtain c d ds where cs: "settle cs u = c # d # ds" "at_value p c" "at_value q' d"
      using assms(1) by (auto simp: pv pivots_ok_def ahead_def list_all2_Cons1)
    then have m: "m p (Some q') = Some (closer c d v)" using test by (simp add: halfway_test_def)
    show ?thesis
    proof (cases "closer c d v")
      case True
      then have "settle cs v = settle cs u" using tw cs(1) by simp
      then show ?thesis using m True by (auto simp: pv Some)
    next
      case False
      then have st: "settle cs v = settle (d # ds) v" using tw cs(1) by simp
      have "hd (settle cs v) \<noteq> c"
      proof -
        have "hd (settle cs v) \<in> set (d # ds)"
          using settle_closest [of "d # ds" v] srt cs(1) st by (auto simp: closest_def)
        then show ?thesis using srt cs(1) by auto
      qed
      moreover have "find_pivots m q' rest = Some pv'"
        using find_pivots_settle [of pv q' m] pv'(1) m False by (simp add: pv Some)
      ultimately show ?thesis using m False pv'(2) cs(1) by (cases pv') (auto simp: pv Some)
    qed
  qed
qed

lemma direct_around_scan:
  assumes "numCols node = 1" "sorted_wrt (<) cs" "cs \<noteq> []" "aggstrategy node = AGG_SORTED" "pivots_ok pv (settle cs u)"
    "sorted_input ss vs" "\<forall>v\<in>set vs. u \<le> v" "hd (settle cs (slot_int f 0)) = hd (settle cs u)"
  shows "direct_around_groups node [1] init advance final having pv f x ss =
    Some (scan_runs (\<lambda>s. direct_row final having (Some s)) advance init (\<lambda>s. hd (settle cs (slot_int s 0))) f x ss)"
  using assms(5-8)
proof (induction ss arbitrary: pv u vs f x)
  case (Cons s ss)
  obtain v vs' where vs: "vs = v # vs'" "at_value s v" "sorted_input ss vs'" "\<forall>w\<in>set vs'. v \<le> w" "u \<le> v"
    using Cons.prems(2,3) by (auto simp: sorted_input_def list_all2_Cons1)
  obtain b where b: "execTuplesMatchAround (fst pv) (fst (snd pv)) s 1 [1] = Some b"
    "b \<longleftrightarrow> hd (settle cs v) = hd (settle cs u)" "b \<longrightarrow> settle cs v = settle cs u"
    "\<not> b \<longrightarrow> (\<exists>q pv'. fst (snd pv) = Some q \<and>
       find_pivots (\<lambda>p q. execTuplesMatchAround p q s 1 [1]) q (snd (snd pv)) = Some pv' \<and> pivots_ok pv' (settle cs v))"
    using around_step [OF Cons.prems(1) assms(2,3) vs(5,2)] by blast
  have s: "slot_int s 0 = v" by (rule slot_int_at [OF vs(2)])
  note rule = b(1) [unfolded One_nat_def] assms(1,4) s
  show ?case
  proof (cases b)
    case True
    then have "pivots_ok pv (settle cs v)" "hd (settle cs (slot_int f 0)) = hd (settle cs v)"
      using Cons.prems(1,4) b(3) by simp_all
    from Cons.IH [OF this(1) vs(3,4) this(2)] show ?thesis
      using True b(2) Cons.prems(4) by (simp add: rule)
  next
    case False
    then obtain q pv' where q: "fst (snd pv) = Some q" "pivots_ok pv' (settle cs v)"
      "find_pivots (\<lambda>p q. execTuplesMatchAround p q s 1 [1]) q (snd (snd pv)) = Some pv'" using b(4) by blast
    have "hd (settle cs (slot_int s 0)) = hd (settle cs v)" by (simp add: s)
    note rows = Cons.IH [OF q(2) vs(3,4) this]
    have "execTuplesMatchAround (fst pv) (Some q) s 1 [1] = Some False" using b(1) q(1) False by simp
    then show ?thesis
      using False b(2) Cons.prems(4) by (simp add: assms(1,4) s q(1) q(3) [unfolded One_nat_def] rows [unfolded One_nat_def])
  qed
qed simp

text \<open>C25. Grouping around centres on sorted input (\<open>agg_retrieve_direct_around\<close>) cuts the input
  into consecutive groups and returns one row for each that passes \<open>HAVING\<close>: its first tuple and
  the aggregates of its tuples. All tuples of a group are closest to the same centre, and the
  groups belong to increasing centres - provided that the first tuple is closest to the first
  centre, which the operator takes for granted.\<close>

theorem agg_retrieve_direct_around_groups:
  assumes "numCols node = 1" "centres inner cs" "sorted_input ss vs" "ss \<noteq> []" "closest cs (hd vs) (hd cs)"
    "aggstrategy node = AGG_SORTED"
  shows "\<exists>gs ds. concat gs = ss \<and> length ds = length gs \<and> sorted_wrt (<) ds \<and>
    (\<forall>i<length gs. gs ! i \<noteq> [] \<and> (\<forall>s\<in>set (gs ! i). closest cs (slot_int s 0) (ds ! i))) \<and>
    agg_retrieve_direct_around node [1] init advance final having inner ss =
      Some (concat (map (\<lambda>g. direct_row final having (Some (hd g)) (fold advance g init)) gs))"
proof -
  let ?f = "\<lambda>s. hd (settle cs (slot_int s 0))"
  have cs: "sorted_wrt (<) cs" "cs \<noteq> []" "list_all2 at_value inner cs" using assms(2) by (simp_all add: centres_def)
  obtain pv where pv: "load_pivots inner = Some pv" "pivots_ok pv cs" using load_pivots_ok [OF cs(3,2)] .
  obtain s ss' v vs' where ss: "ss = s # ss'" "vs = v # vs'" "at_value s v" "sorted_input ss' vs'" "\<forall>w\<in>set vs'. v \<le> w"
    using assms(3,4) by (cases ss; cases vs) (auto simp: sorted_input_def)
  let ?u = "min (hd cs) v"
  have u: "settle cs ?u = cs" by (rule settle_low [OF cs(2)]) simp
  have f: "?f s = hd (settle cs ?u)"
    using assms(5) closest_iff_settle [OF cs(1,2)] slot_int_at [OF ss(3)] ss(2) u by simp
  have "direct_around_groups node [1] init advance final having pv s (advance s init) ss' =
      Some (scan_runs (\<lambda>s. direct_row final having (Some s)) advance init ?f s (advance s init) ss')"
    by (rule direct_around_scan [OF assms(1) cs(1,2) assms(6) _ ss(4) _ f]) (use pv(2) u ss(5) in auto)
  then have run: "agg_retrieve_direct_around node [1] init advance final having inner ss =
      Some (concat (map (\<lambda>g. direct_row final having (Some (hd g)) (fold advance g init)) (runs_by ?f ss)))"
    by (simp add: agg_retrieve_direct_around_def pv(1) ss(1) scan_runs_rows del: runs_by.simps)
  have "map (\<lambda>s. slot_int s 0) ss = vs" by (rule sorted_input_values [OF assms(3)])
  then have "map ?f ss = map (\<lambda>v. hd (settle cs v)) vs" by (auto simp: map_eq_conv)
  moreover have "sorted (map (\<lambda>v. hd (settle cs v)) vs)"
  proof -
    have "sorted vs" using assms(3) by (simp add: sorted_input_def)
    then show ?thesis by (induction vs) (simp_all add: settle_hd_mono [OF cs(1,2)])
  qed
  ultimately have "sorted (map ?f ss)" by simp
  then have runs: "sorted_wrt (<) (map (\<lambda>g. ?f (hd g)) (runs_by ?f ss))" by (rule sorted_runs)
  have grp: "gs ! i \<noteq> [] \<and> (\<forall>s\<in>set (gs ! i). closest cs (slot_int s 0) (map (\<lambda>g. ?f (hd g)) gs ! i))"
    if "gs = runs_by ?f ss" "i < length gs" for gs i
  proof -
    have "gs ! i \<noteq> [] \<and> (\<forall>s\<in>set (gs ! i). ?f s = ?f (hd (gs ! i)))"
      by (rule runs_nonempty [of _ ?f ss]) (simp add: that(1) [symmetric] that(2))
    then show ?thesis unfolding closest_iff_settle [OF cs(1,2)] using that(2) by (metis nth_map)
  qed
  show ?thesis
    by (rule exI [of _ "runs_by ?f ss"], rule exI [of _ "map (\<lambda>g. ?f (hd g)) (runs_by ?f ss)"])
      (use run runs grp in simp)
qed

lemma agg_retrieve_direct_around_groups_witness:
  "let node = (demo_plan 2 (-1))\<lparr>numCols := 1, aggstrategy := AGG_SORTED\<rparr>;
       inner = [slot_of [0], slot_of [10]]; ss = [slot_of [1], slot_of [4], slot_of [5], slot_of [12]] in
   \<exists>gs ds. concat gs = ss \<and> length ds = length gs \<and> sorted_wrt (<) ds \<and>
    (\<forall>i<length gs. gs ! i \<noteq> [] \<and> (\<forall>s\<in>set (gs ! i). closest [0, 10] (slot_int s 0) (ds ! i))) \<and>
    agg_retrieve_direct_around node [1] 0 (\<lambda>_ n. n + 1) (\<lambda>n. n) (\<lambda>_ _. True) inner ss =
      Some (concat (map (\<lambda>g. direct_row (\<lambda>n. n) (\<lambda>_ _. True) (Some (hd g)) (fold (\<lambda>_ n. n + 1) g (0::nat))) gs))"
  unfolding Let_def
  by (rule agg_retrieve_direct_around_groups [where vs = "[1, 4, 5, 12]"])
    (simp_all add: demo_plan_def centres_def sorted_input_def at_value_def slot_of_def slot_getattr_def av_ok_def closest_def)

text \<open>The first tuple is never compared with the pivots: two tuples at 90 and 95 with the centres 0
  and 100 are both closest to 100, but get a row each.\<close>

lemma agg_retrieve_direct_around_splits:
  "closest [0, 100] 90 100" "closest [0, 100] 95 100"
  "agg_retrieve_direct_around ((demo_plan 2 (-1))\<lparr>numCols := 1, aggstrategy := AGG_SORTED\<rparr>) [1] 0 (\<lambda>_ n. n + 1) (\<lambda>n. n)
     (\<lambda>_ _. True) [slot_of [0], slot_of [100]] [slot_of [90], slot_of [95]] =
     Some [(Some (slot_of [90]), 1), (Some (slot_of [95]), 1::nat)]"
  by (simp_all add: closest_def agg_retrieve_direct_around_def demo_plan_def direct_row_def execTuplesMatchAround_def
      slot_of_def slot_getattr_def int4lt_def int4mi_def SAMESIGN_def sub32_def i32_def)

section \<open>Sorted and hashed\<close>

text \<open>The rows of the retrieval from the hash table, for any order \<open>ks\<close> of its entries.\<close>

definition group_rows :: "('a \<Rightarrow> 'r) \<Rightarrow> (slot \<Rightarrow> 'r \<Rightarrow> bool) \<Rightarrow> (slot \<Rightarrow> 'a option) \<Rightarrow> slot list \<Rightarrow> (slot \<times> 'r) list" where
  "group_rows final having row ks =
     filter (\<lambda>(k, r). having k r) (map (\<lambda>k. (k, final (the (row k)))) ks)"

lemma retrieve_group_rows:
  assumes "overlap node \<noteq> 2" "\<forall>k\<in>set ks. row_of st k \<noteq> None"
  shows "agg_retrieve_hash_table node final having ks st = Some (group_rows final having (row_of st) ks)"
  using assms(2)
proof (induction ks)
  case (Cons k ks)
  then obtain e where "hashtable st k = Some e" by (auto simp: row_of_def)
  then show ?case using Cons assms(1) by (simp add: group_rows_def row_of_def)
qed (simp add: group_rows_def)

lemma group_rows_runs:
  assumes "\<forall>g\<in>set gs. row (hash_key node (hd g)) = Some (fold advance g init)"
    "\<forall>s r. having' (Some s) r = having (hash_key node s) r"
  shows "group_rows final having row (map (\<lambda>g. hash_key node (hd g)) gs) =
      map (\<lambda>(s, r). (hash_key node (the s), r))
        (concat (map (\<lambda>g. direct_row final having' (Some (hd g)) (fold advance g init)) gs))"
  using assms(1) by (induction gs) (simp_all add: group_rows_def direct_row_def assms(2))

lemma standard_rows:
  assumes "empty_table st" "overlap node \<noteq> 2" "distinct ks" "agg_fill_hash_table node init advance st ss = Some st'"
    "set ks = dom (row_of st')" "leading (numCols node) ss"
    "clustered (hash_key node) ss" "\<forall>s r. having' (Some s) r = having (hash_key node s) r"
  shows "\<exists>rows. agg_retrieve_hash_table node final having ks st' = Some rows \<and>
    mset rows = mset (map (\<lambda>(s, r). (hash_key node (the s), r))
      (agg_retrieve_direct (node\<lparr>aggstrategy := AGG_SORTED\<rparr>) (key_columns (numCols node)) init advance final having' ss))"
proof -
  let ?gs = "runs_by (hash_key node) ss"
    and ?k = "\<lambda>g. hash_key node (hd g)"
  have row: "row_of st' k = (let g = filter (\<lambda>s. hash_key node s = k) ss in if g = [] then None else Some (fold advance g init))" for k
    by (rule agg_fill_hash_table_groups [OF assms(1), of node init advance ss])
      (simp add: assms(4) holds_groups_def group_of_zip_map)
  have grp: "row_of st' (?k g) = Some (fold advance g init)" if "g \<in> set ?gs" for g
    using runs_nonempty [OF that, THEN conjunct1] by (simp add: row clustered_runs [OF assms(7) that])
  have "set ks = hash_key node ` set ss"
    unfolding assms(5) by (auto simp: dom_def row filter_empty_conv Let_def split: if_splits)
  also have "\<dots> = ?k ` set ?gs" by (rule runs_values)
  finally have ks: "mset ks = mset (map ?k ?gs)"
    using set_eq_iff_mset_eq_distinct [OF assms(3) clustered_distinct [OF assms(7)]] by (simp del: mset_map)
  have "mset (group_rows final having (row_of st') ks) = mset (group_rows final having (row_of st') (map ?k ?gs))"
    by (simp add: group_rows_def ks del: map_map mset_map add: mset_map [where xs = ks] mset_map [where xs = "map ?k ?gs"])
  also have "group_rows final having (row_of st') (map ?k ?gs) =
      map (\<lambda>(s, r). (hash_key node (the s), r))
        (concat (map (\<lambda>g. direct_row final having' (Some (hd g)) (fold advance g init)) ?gs))"
    by (rule group_rows_runs) (use grp assms(8) in auto)
  also have "concat (map (\<lambda>g. direct_row final having' (Some (hd g)) (fold advance g init)) ?gs) =
      agg_retrieve_direct (node\<lparr>aggstrategy := AGG_SORTED\<rparr>) (key_columns (numCols node)) init advance final having' ss"
  proof -
    have "hash_key (node\<lparr>aggstrategy := AGG_SORTED\<rparr>) = hash_key node" by (rule ext) (simp add: hash_key_def)
    then show ?thesis
      using agg_retrieve_direct_runs [of "node\<lparr>aggstrategy := AGG_SORTED\<rparr>" ss init advance final having'] assms(6) by simp
  qed
  finally show ?thesis
    using retrieve_group_rows [of node ks st' final having] assms(2,5) by (auto simp: domIff)
qed

end
