(* ===== verification/AroundLimits.thy ===== *)
theory AroundLimits
  imports AroundRun "HOL-Library.Sublist"
begin

text \<open>
  Grouping around centres with a maximal radius (\<open>agg_fill_hash_table_around_MaxR\<close>), unsupervised
  grouping (\<open>agg_fill_hash_table_unsupervised\<close>), and grouping with a maximal separation
  (\<open>agg_fill_hash_table_around_MaxS\<close>), on sorted input.
\<close>

section \<open>Maximal radius\<close>

text \<open>The centres that are left once the search ends, and the test of the first of them.\<close>

fun rsettle :: "int \<Rightarrow> int list \<Rightarrow> int \<Rightarrow> int list" where
  "rsettle r (c # d # cs) v =
     (if v < c - r \<or> (v < c + r \<and> closer c d v) then c # d # cs else rsettle r (d # cs) v)"
| "rsettle r cs v = cs"

definition rhit :: "int \<Rightarrow> int list \<Rightarrow> int \<Rightarrow> bool" where
  "rhit r cs v \<longleftrightarrow> hd cs - r \<le> v \<and> v < hd cs + r"

lemma rsettle_nonempty [simp]: "rsettle r cs v = [] \<longleftrightarrow> cs = []"
  by (induction r cs v rule: rsettle.induct) simp_all

lemma rsettle_low: "cs \<noteq> [] \<Longrightarrow> u < hd cs - r \<Longrightarrow> rsettle r cs u = cs"
  by (cases "(r, cs, u)" rule: rsettle.cases) auto

lemma rsettle_twice:
  assumes "sorted_wrt (<) cs" "v \<le> v'" "0 \<le> r"
  shows "rsettle r (rsettle r cs v) v' = rsettle r cs v'"
  using assms
proof (induction r cs v rule: rsettle.induct)
  case (1 r c d cs v)
  then show ?case by (auto simp: closer_def)
qed simp_all

lemma rsettle_far:
  assumes "sorted_wrt (<) cs" "cs \<noteq> []" "v < hd cs - r" "0 \<le> r"
  shows "settle cs v = cs"
  by (rule settle_low) (use assms in auto)

text \<open>The search takes a tuple exactly when its closest centre is within the radius - the upper
  end excluded - and then for that centre.\<close>

lemma rsettle_hit:
  assumes "sorted_wrt (<) cs" "cs \<noteq> []" "0 \<le> r"
  shows "rhit r (rsettle r cs v) v \<longleftrightarrow> rhit r (settle cs v) v"
    and "rhit r (rsettle r cs v) v \<Longrightarrow> rsettle r cs v = settle cs v"
proof -
  have "rhit r (rsettle r cs v) v = rhit r (settle cs v) v \<and> (rhit r (rsettle r cs v) v \<longrightarrow> rsettle r cs v = settle cs v)"
    using assms
  proof (induction r cs v rule: rsettle.induct)
    case (1 r c d cs v)
    consider "v < c - r" | "c - r \<le> v" "v < c + r" "closer c d v" | "c - r \<le> v" "\<not> closer c d v"
      | "c + r \<le> v" "closer c d v" by linarith
    then show ?case
    proof cases
      case 1
      then have "settle (c # d # cs) v = c # d # cs" using \<open>0 \<le> r\<close> by (intro settle_low) auto
      then show ?thesis using 1 by simp
    next
      case 2
      then show ?thesis by simp
    next
      case 3
      then have no: "\<not> (v < c - r \<or> v < c + r \<and> closer c d v)" by simp
      have "rsettle r (c # d # cs) v = rsettle r (d # cs) v" "settle (c # d # cs) v = settle (d # cs) v"
        using no 3(2) by simp_all
      moreover have "sorted_wrt (<) (d # cs)" using 1(2) by simp
      ultimately show ?thesis using 1(1) [OF no _ _ 1(4)] by (metis list.distinct(1))
    next
      case 4
      have "c < d" "0 \<le> r" using 1(2,4) by simp_all
      then have "v < d - r" using 4 unfolding closer_def by linarith
      then have "rsettle r (d # cs) v = d # cs" by (intro rsettle_low) auto
      then show ?thesis using 4 \<open>v < d - r\<close> \<open>0 \<le> r\<close> by (simp add: rhit_def)
    qed
  qed simp_all
  then show "rhit r (rsettle r cs v) v \<longleftrightarrow> rhit r (settle cs v) v"
    and "rhit r (rsettle r cs v) v \<Longrightarrow> rsettle r cs v = settle cs v" by blast+
qed

text \<open>Beyond the last centre the operator stops: no later tuple is taken.\<close>

lemma no_hit_beyond:
  assumes "sorted_wrt (<) cs" "cs \<noteq> []" "\<forall>c\<in>set cs. c + r \<le> v" "v \<le> v'"
  shows "\<not> rhit r (settle cs v') v'"
proof -
  have "hd (settle cs v') \<in> set cs" using settle_closest [OF assms(1,2)] by (simp add: closest_def)
  then show ?thesis using assms(3,4) by (fastforce simp: rhit_def)
qed

lemma stopped_no_hit:
  assumes "sorted_wrt (<) cs" "cs \<noteq> []" "0 \<le> r" "tl (rsettle r cs v) = []" "hd (rsettle r cs v) + r \<le> v" "v \<le> v'"
  shows "\<not> rhit r (settle cs v') v'"
proof -
  have "\<forall>c\<in>set cs. c \<le> hd (rsettle r cs v)"
    using assms(1,2,4) by (induction r cs v rule: rsettle.induct) (fastforce split: if_splits)+
  then have "\<forall>c\<in>set cs. c + r \<le> v" using assms(5) by fastforce
  then show ?thesis by (rule no_hit_beyond [OF assms(1,2) _ assms(6)])
qed

text \<open>A test that decides by radius and half-way rule and sets the flags.\<close>

definition radius_test :: "int \<Rightarrow> (slot \<Rightarrow> slot option \<Rightarrow> bool \<times> bool \<Rightarrow> (bool \<times> bool \<times> bool) option) \<Rightarrow> int \<Rightarrow> bool" where
  "radius_test r m v \<longleftrightarrow>
     (\<forall>p c flags. at_value p c \<longrightarrow> m p None flags =
        Some (if v < c - r then (False, True, False) else if v < c + r then (True, False, False) else (False, True, True))) \<and>
     (\<forall>p q c d flags. at_value p c \<longrightarrow> at_value q d \<longrightarrow> c < d \<longrightarrow> m p (Some q) flags =
        Some (if v < c - r then (False, True, False) else (v < c + r \<and> closer c d v, False, False)))"

lemma radius_test_last:
  assumes "radius_test r m v" "at_value p c"
  shows "m p None flags =
     Some (if v < c - r then (False, True, False) else if v < c + r then (True, False, False) else (False, True, True))"
  using assms unfolding radius_test_def by blast

lemma radius_test_two:
  assumes "radius_test r m v" "at_value p c" "at_value q d" "c < d"
  shows "m p (Some q) flags =
     Some (if v < c - r then (False, True, False) else (v < c + r \<and> closer c d v, False, False))"
  using assms unfolding radius_test_def by blast

text \<open>The outcome of a search: pivots, ignore, stop.\<close>

definition radius_result :: "int \<Rightarrow> int list \<Rightarrow> int \<Rightarrow> pivots \<times> bool \<times> bool \<Rightarrow> bool" where
  "radius_result r cs v res \<longleftrightarrow> pivots_ok (fst res) cs \<and> (fst (snd res) \<longleftrightarrow> \<not> rhit r cs v) \<and>
     (snd (snd res) \<longrightarrow> tl cs = [] \<and> hd cs + r \<le> v)"

lemma maxr_find_ok:
  assumes "radius_test r m v" "list_all2 at_value (p # rest) cs" "sorted_wrt (<) cs" "0 \<le> r"
  shows "\<exists>res. maxr_find m p rest flags = Some res \<and> radius_result r (rsettle r cs v) v res"
  using assms(2,3)
proof (induction rest arbitrary: p cs flags)
  case Nil
  then obtain c where "cs = [c]" "at_value p c" by (auto simp: list_all2_Cons1)
  then show ?case by (auto simp: radius_test_last [OF assms(1)] radius_result_def rhit_def pivots_ok_def ahead_def)
next
  case (Cons q rest)
  then obtain c d ds where cs: "cs = c # d # ds" "at_value p c" "at_value q d" "list_all2 at_value rest ds"
    by (auto simp: list_all2_Cons1)
  then have m: "m p (Some q) flags =
      Some (if v < c - r then (False, True, False) else (v < c + r \<and> closer c d v, False, False))"
    using Cons.prems(2) by (simp add: radius_test_two [OF assms(1)])
  show ?case
  proof (cases "v < c - r \<or> (v < c + r \<and> closer c d v)")
    case True
    then show ?thesis using cs m assms(4) by (auto simp: radius_result_def pivots_ok_def ahead_def rhit_def)
  next
    case False
    then show ?thesis using Cons.IH [of q "d # ds"] cs m Cons.prems(2) by auto
  qed
qed

lemma maxr_settle_ok:
  assumes "radius_test r m v" "pivots_ok pv cs" "sorted_wrt (<) cs" "0 \<le> r"
  shows "\<exists>res. maxr_settle m pv flags = Some res \<and> radius_result r (rsettle r cs v) v res"
proof -
  obtain p q rest where pv: "pv = (p, q, rest)" by (cases pv) auto
  show ?thesis
  proof (cases q)
    case None
    then obtain c where c: "cs = [c]" "at_value p c" using assms(2) by (auto simp: pv pivots_ok_def ahead_def list_all2_Cons1)
    then show ?thesis using assms(2) None
      by (auto simp: maxr_settle_def pv radius_test_last [OF assms(1)] radius_result_def rhit_def)
  next
    case (Some q')
    then obtain c d ds where cs: "cs = c # d # ds" "at_value p c" "at_value q' d" "list_all2 at_value rest ds"
      using assms(2) by (auto simp: pv pivots_ok_def ahead_def list_all2_Cons1)
    then have m: "m p (Some q') flags =
        Some (if v < c - r then (False, True, False) else (v < c + r \<and> closer c d v, False, False))"
      using assms(3) by (simp add: radius_test_two [OF assms(1)])
    show ?thesis
    proof (cases "v < c - r \<or> (v < c + r \<and> closer c d v)")
      case True
      then show ?thesis using assms(2,4) m cs(1) by (auto simp: maxr_settle_def pv Some radius_result_def rhit_def)
    next
      case False
      then show ?thesis using maxr_find_ok [OF assms(1), of q' rest "d # ds"] m cs assms(3,4)
        by (auto simp: maxr_settle_def pv Some)
    qed
  qed
qed

lemma maxr_test:
  assumes "at_value s v" "0 \<le> r" "r \<le> 536870912"
  shows "radius_test r (\<lambda>p q. execTuplesMatchAroundHash_MaxR p q s 1 r) v"
  unfolding radius_test_def
  by (intro conjI allI impI) (erule match_MaxR_last [OF _ assms], erule (1) match_MaxR [OF _ _ assms])

lemma maxr_loop_puts:
  assumes "pivots_ok pv (rsettle r cs u)" "sorted_wrt (<) cs" "cs \<noteq> []" "sorted_input ss vs" "\<forall>v\<in>set vs. u \<le> v"
    "r = maxRadiusInt node" "0 \<le> r" "r \<le> 536870912" "hash_room st"
  shows "maxr_loop node init advance pv flags st ss = Some (fold (\<lambda>(m, s). put_group node init advance m s)
     (map (\<lambda>s. (at_centre (hd (settle cs (slot_int s 0))) s, s))
        (filter (\<lambda>s. rhit r (settle cs (slot_int s 0)) (slot_int s 0)) ss)) st)"
  using assms(1,4,5,9)
proof (induction ss arbitrary: pv flags u vs st)
  case (Cons s ss)
  obtain v vs' where vs: "vs = v # vs'" "at_value s v" "sorted_input ss vs'" "\<forall>w\<in>set vs'. v \<le> w" "u \<le> v"
    using Cons.prems by (auto simp: sorted_input_def list_all2_Cons1)
  let ?m = "\<lambda>p q. execTuplesMatchAroundHash_MaxR p q s 1 r"
  have tw: "rsettle r (rsettle r cs u) v = rsettle r cs v" by (rule rsettle_twice [OF assms(2) vs(5) assms(7)])
  have srt: "sorted_wrt (<) (rsettle r cs w)" for w
    using assms(2) by (induction r cs w rule: rsettle.induct) simp_all
  obtain pv1 ign stop where res: "maxr_settle ?m pv flags = Some (pv1, ign, stop)"
    "radius_result r (rsettle r cs v) v (pv1, ign, stop)"
    using maxr_settle_ok [OF maxr_test [OF vs(2) assms(7,8)] Cons.prems(1) srt assms(7)] tw by (metis surj_pair)
  have ok: "pivots_ok pv1 (rsettle r cs v)" and ign: "ign \<longleftrightarrow> \<not> rhit r (settle cs v) v"
    and stop: "stop \<Longrightarrow> tl (rsettle r cs v) = [] \<and> hd (rsettle r cs v) + r \<le> v"
    using res(2) rsettle_hit(1) [OF assms(2,3,7)] by (auto simp: radius_result_def)
  have sv: "slot_int s 0 = v" by (rule slot_int_at [OF vs(2)])
  note IH = Cons.IH [OF ok vs(3,4) Cons.prems(4)] Cons.IH [OF ok vs(3,4) put_group_ok(2) [OF Cons.prems(4)]]
  note run = res(1) [unfolded assms(6) One_nat_def]
  show ?case
  proof (cases stop)
    case True
    have far: "\<not> rhit r (settle cs w) w" if "v \<le> w" for w
      by (rule stopped_no_hit [OF assms(2,3,7) _ _ that]) (use stop True in auto)
    have "v \<le> slot_int t 0" if "t \<in> set ss" for t
      using sorted_input_values [OF vs(3)] that vs(4) by auto
    then have "filter (\<lambda>s. rhit r (settle cs (slot_int s 0)) (slot_int s 0)) (s # ss) = []"
      using far sv by (auto simp: filter_empty_conv)
    then show ?thesis using True by (simp add: run)
  next
    case False
    have "pivot_value pv1 = hd (settle cs v)" if "\<not> ign"
      using pivot_value_ok [OF ok] rsettle_hit [OF assms(2,3,7)] ign that by auto
    then show ?thesis
      using False IH ign sv by (cases ign) (simp_all add: run tally_centre_put Cons.prems(4))
  qed
qed simp

text \<open>C22. Grouping around centres with a maximal diameter (\<open>agg_fill_hash_table_around_MaxR\<close>), on
  sorted input, returns without an error for every uninitialised value of its flags. A tuple is
  aggregated exactly when its closest centre \<open>c\<close> is within the radius \<open>r\<close> - half the diameter, from
  \<open>c - r\<close> up to but excluding \<open>c + r\<close> - and then in the group of that centre; all others are
  dropped.\<close>

theorem agg_fill_hash_table_around_MaxR_closest:
  assumes "empty_table st" "centres inner cs" "sorted_input ss vs" "0 \<le> max_group_diam node" "max_group_diam node \<le> 1073741824"
  defines "r \<equiv> max_group_diam node div 2"
  shows "\<exists>st'. agg_fill_hash_table_around_MaxR node init advance uninit st inner ss = Some st' \<and>
    (\<forall>k. row_of st' k =
       (let g = filter (\<lambda>s. \<exists>c. closest cs (slot_int s 0) c \<and> c - r \<le> slot_int s 0 \<and> slot_int s 0 < c + r \<and>
                               hash_key node (at_centre c s) = k) ss
        in if g = [] then None else Some (fold advance g init)))"
proof -
  let ?m = "\<lambda>s. at_centre (hd (settle cs (slot_int s 0))) s"
    and ?h = "\<lambda>s. rhit r (settle cs (slot_int s 0)) (slot_int s 0)"
  have cs: "sorted_wrt (<) cs" "cs \<noteq> []" "list_all2 at_value inner cs" using assms(2) by (simp_all add: centres_def)
  have r: "r = maxRadiusInt node" "0 \<le> r" "r \<le> 536870912"
    using assms(4,5) by (simp_all add: r_def maxRadiusInt_def Let_def)
  obtain pv where pv: "load_pivots inner = Some pv" "pivots_ok pv cs" using load_pivots_ok [OF cs(3,2)] .
  let ?u = "min (hd cs - r - 1) (Min (insert 0 (set vs)))"
  have "rsettle r cs ?u = cs" by (rule rsettle_low [OF cs(2)]) simp
  then have ok: "pivots_ok pv (rsettle r cs ?u)" using pv(2) by simp
  have u: "\<forall>v\<in>set vs. ?u \<le> v" by (auto simp: min.coboundedI2)
  have run: "agg_fill_hash_table_around_MaxR node init advance uninit st inner ss =
      Some (fold (\<lambda>(m, s). put_group node init advance m s) (map (\<lambda>s. (?m s, s)) (filter ?h ss)) st)"
    by (simp add: agg_fill_hash_table_around_MaxR_def pv(1) maxr_loop_puts [OF ok cs(1,2) assms(3) u r empty_room [OF assms(1)]])
  have "(\<lambda>s. \<exists>c. closest cs (slot_int s 0) c \<and> c - r \<le> slot_int s 0 \<and> slot_int s 0 < c + r \<and> hash_key node (at_centre c s) = k) =
      (\<lambda>s. ?h s \<and> hash_key node (?m s) = k)" for k
    by (rule ext) (simp add: closest_iff_settle [OF cs(1,2)] rhit_def conj_assoc)
  then show ?thesis
    using puts_hold [OF assms(1), of node init advance "map (\<lambda>s. (?m s, s)) (filter ?h ss)"]
    by (simp add: run holds_groups_def group_of_zip_map)
qed

lemma agg_fill_hash_table_around_MaxR_closest_witness:
  "let node = (demo_plan 2 (-1))\<lparr>numCols := 1, max_group_diam := 6\<rparr>; inner = [slot_of [0], slot_of [10]]; ss = [slot_of [1], slot_of [4], slot_of [5], slot_of [12]] in
   \<exists>st'. agg_fill_hash_table_around_MaxR node (0::nat) (\<lambda>_ n. n + 1) (True, True) demo_state inner ss = Some st' \<and>
    (\<forall>k. row_of st' k =
       (let g = filter (\<lambda>s. \<exists>c. closest [0, 10] (slot_int s 0) c \<and> c - max_group_diam node div 2 \<le> slot_int s 0 \<and>
                               slot_int s 0 < c + max_group_diam node div 2 \<and> hash_key node (at_centre c s) = k) ss
        in if g = [] then None else Some (fold (\<lambda>_ n. n + 1) g 0)))"
  unfolding Let_def [of "(demo_plan 2 (-1))\<lparr>numCols := 1, max_group_diam := 6\<rparr>"] Let_def [of "[slot_of [0], slot_of [10]]"] Let_def [of "[slot_of [1], slot_of [4], slot_of [5], slot_of [12]]"]
  by (rule agg_fill_hash_table_around_MaxR_closest [where vs = "[1, 4, 5, 12]"]) (simp_all add: demo_input_defs)

section \<open>Unsupervised\<close>

definition cut_at :: "Agg_plan \<Rightarrow> int \<Rightarrow> int \<Rightarrow> int \<Rightarrow> bool" where
  "cut_at node v g b \<longleftrightarrow>
     (if max_group_diam node \<noteq> -1 \<and> max_elem_sep node \<noteq> -1
      then max_group_diam node < v - g \<or> max_elem_sep node < v - b
      else if max_group_diam node \<noteq> -1 then max_group_diam node < v - g
      else max_elem_sep node < v - b)"

lemma cut_found_eq: "av_ok v \<Longrightarrow> av_ok g \<Longrightarrow> av_ok b \<Longrightarrow> cut_found node v g b = Some (cut_at node v g b)"
  by (simp add: cut_found_def cut_at_def int4mi_ok int4lt_def)

text \<open>The first elements of the groups of the values after \<open>b\<close>, in the group of \<open>g\<close>.\<close>

fun leaders :: "Agg_plan \<Rightarrow> int \<Rightarrow> int \<Rightarrow> int list \<Rightarrow> int list" where
  "leaders node g b [] = []"
| "leaders node g b (v # vs) = (let g' = (if cut_at node v g b then v else g) in g' # leaders node g' v vs)"

definition all_leaders :: "Agg_plan \<Rightarrow> int list \<Rightarrow> int list" where
  "all_leaders node vs = (case vs of [] \<Rightarrow> [] | v # vs' \<Rightarrow> v # leaders node v v vs')"

lemma length_leaders [simp]: "length (leaders node g b vs) = length vs"
  by (induction vs arbitrary: g b) (simp_all add: Let_def)

lemma length_all_leaders [simp]: "length (all_leaders node vs) = length vs"
  by (simp add: all_leaders_def split: list.split)

lemma leaders_step:
  "i < length vs \<Longrightarrow> leaders node g b vs ! i =
     (if cut_at node (vs ! i) ((g # leaders node g b vs) ! i) ((b # vs) ! i) then vs ! i else (g # leaders node g b vs) ! i)"
proof (induction vs arbitrary: g b i)
  case (Cons v vs)
  then show ?case by (cases i) (auto simp: Let_def)
qed simp

lemma all_leaders_first: "vs \<noteq> [] \<Longrightarrow> all_leaders node vs ! 0 = vs ! 0"
  by (cases vs) (simp_all add: all_leaders_def)

lemma all_leaders_step:
  assumes "Suc i < length vs"
  shows "all_leaders node vs ! Suc i =
    (if cut_at node (vs ! Suc i) (all_leaders node vs ! i) (vs ! i) then vs ! Suc i else all_leaders node vs ! i)"
proof (cases vs)
  case (Cons v vs')
  then show ?thesis using assms leaders_step [of i vs' node v v] by (simp add: all_leaders_def)
qed (use assms in simp)

lemma leader_le:
  assumes "sorted vs" "i < length vs"
  shows "all_leaders node vs ! i \<le> vs ! i"
  using assms(2)
proof (induction i)
  case 0
  then have "vs \<noteq> []" by auto
  then show ?case by (simp add: all_leaders_first)
next
  case (Suc i)
  then have "vs ! i \<le> vs ! Suc i" using assms(1) by (simp add: sorted_iff_nth_mono)
  then show ?case using Suc by (simp add: all_leaders_step)
qed

lemma leader_mono:
  assumes "sorted vs" "i \<le> j" "j < length vs"
  shows "all_leaders node vs ! i \<le> all_leaders node vs ! j"
  using assms(2,3)
proof (induction j rule: dec_induct)
  case (step j)
  have "all_leaders node vs ! j \<le> vs ! Suc j"
    using leader_le [OF assms(1), of j node] sorted_nth_mono [OF assms(1), of j "Suc j"] step by simp
  then show ?case using step by (simp add: all_leaders_step)
qed simp

lemma unsup_loop_puts:
  assumes "list_all2 at_value ss vs" "av_ok g" "av_ok b" "hash_room st"
  shows "unsup_loop node init advance g b st ss = Some (fold (\<lambda>(m, s). put_group node init advance m s)
     (map2 (\<lambda>s l. (at_centre l s, s)) ss (leaders node g b vs)) st)"
  using assms
proof (induction ss arbitrary: vs g b st)
  case (Cons s ss)
  then obtain v vs' where vs: "vs = v # vs'" "at_value s v" "list_all2 at_value ss vs'" by (auto simp: list_all2_Cons1)
  have v: "slot_int s 0 = v" "av_ok v" using vs(2) by (simp_all add: at_value_def)
  let ?g = "if cut_at node v g b then v else g"
  have "av_ok ?g" using v Cons.prems by simp
  from Cons.IH [OF vs(3) this v(2) put_group_ok(2) [OF Cons.prems(4)]] show ?case
    using v Cons.prems vs(1) by (simp add: cut_found_eq tally_centre_put Let_def)
qed simp

text \<open>The tuples of a key when tuple \<open>i\<close> is put under the leader \<open>ls ! i\<close>.\<close>

definition led_group :: "Agg_plan \<Rightarrow> slot list \<Rightarrow> int list \<Rightarrow> slot \<Rightarrow> slot list" where
  "led_group node ss ls k = map fst (filter (\<lambda>(s, l). hash_key node (at_centre l s) = k) (zip ss ls))"

lemma group_of_led: "group_of (hash_key node) (map2 (\<lambda>s l. (at_centre l s, s)) ss ls) k = led_group node ss ls k"
  by (induction ss ls rule: list_induct2') (simp_all add: led_group_def)

lemma unsupervised_led:
  assumes "empty_table st" "list_all2 at_value ss vs"
  shows "\<exists>st'. agg_fill_hash_table_unsupervised node init advance st ss = Some st' \<and>
    (\<forall>k. row_of st' k = (let g = led_group node ss (all_leaders node vs) k in
       if g = [] then None else Some (fold advance g init)))"
proof -
  have "agg_fill_hash_table_unsupervised node init advance st ss = Some (fold (\<lambda>(m, s). put_group node init advance m s)
      (map2 (\<lambda>s l. (at_centre l s, s)) ss (all_leaders node vs)) st)"
  proof (cases ss)
    case Nil
    then show ?thesis by simp
  next
    case (Cons s ss')
    then obtain v vs' where vs: "vs = v # vs'" "at_value s v" "list_all2 at_value ss' vs'"
      using assms(2) by (auto simp: list_all2_Cons1)
    have v: "slot_int s 0 = v" "av_ok v" using vs(2) by (simp_all add: at_value_def)
    show ?thesis
      using unsup_loop_puts [OF vs(3) v(2) v(2) put_group_ok(2) [OF empty_room [OF assms(1)]]] v
      by (simp add: Cons vs(1) all_leaders_def tally_centre_put empty_room [OF assms(1)])
  qed
  then show ?thesis
    using puts_hold [OF assms(1), of node init advance "map2 (\<lambda>s l. (at_centre l s, s)) ss (all_leaders node vs)"]
    by (simp add: holds_groups_def group_of_led)
qed

text \<open>C23. Unsupervised grouping with a maximal separation (\<open>agg_fill_hash_table_unsupervised\<close>) on
  sorted input returns without an error. Every tuple is put under a first element, and two tuples
  have the same first element exactly when no two neighbours between them are further apart than
  the separation. The table holds the aggregates of these groups, split by the other grouping
  columns.\<close>

theorem agg_fill_hash_table_unsupervised_separation:
  assumes "empty_table st" "sorted_input ss vs" "max_group_diam node = -1" "0 \<le> max_elem_sep node"
  shows "\<exists>st' ls. agg_fill_hash_table_unsupervised node init advance st ss = Some st' \<and> length ls = length ss \<and>
    (\<forall>j<length ss. \<forall>i\<le>j. ls ! i = ls ! j \<longleftrightarrow> (\<forall>m. i \<le> m \<and> m < j \<longrightarrow> vs ! Suc m - vs ! m \<le> max_elem_sep node)) \<and>
    (\<forall>k. row_of st' k = (let g = led_group node ss ls k in if g = [] then None else Some (fold advance g init)))"
proof -
  let ?ls = "all_leaders node vs"
  have in_ok: "list_all2 at_value ss vs" "sorted vs" using assms(2) by (simp_all add: sorted_input_def)
  have len: "length vs = length ss" using list_all2_lengthD [OF in_ok(1)] by simp
  have nxt: "?ls ! Suc m = (if max_elem_sep node < vs ! Suc m - vs ! m then vs ! Suc m else ?ls ! m)"
    if "Suc m < length vs" for m
    using all_leaders_step [OF that, of node] assms(3) by (simp add: cut_at_def)
  have iff: "?ls ! i = ?ls ! j \<longleftrightarrow> (\<forall>m. i \<le> m \<and> m < j \<longrightarrow> vs ! Suc m - vs ! m \<le> max_elem_sep node)"
    if "j < length vs" "i \<le> j" for i j
    using that(2,1)
  proof (induction j rule: dec_induct)
    case (step j)
    have le: "?ls ! i \<le> ?ls ! j" "?ls ! j \<le> vs ! j"
      using leader_mono [OF in_ok(2), of i j node] leader_le [OF in_ok(2), of j node] step by simp_all
    have all: "(\<forall>m. i \<le> m \<and> m < Suc j \<longrightarrow> vs ! Suc m - vs ! m \<le> max_elem_sep node) \<longleftrightarrow>
        (\<forall>m. i \<le> m \<and> m < j \<longrightarrow> vs ! Suc m - vs ! m \<le> max_elem_sep node) \<and> vs ! Suc j - vs ! j \<le> max_elem_sep node"
      using step(1) less_Suc_eq by auto
    show ?case
    proof (cases "max_elem_sep node < vs ! Suc j - vs ! j")
      case True
      then have "?ls ! i < ?ls ! Suc j" using le assms(4) nxt [OF step(4)] by simp
      then show ?thesis unfolding all using True by auto
    next
      case False
      then show ?thesis unfolding all using step nxt [OF step(4)] by simp
    qed
  qed auto
  obtain st' where "agg_fill_hash_table_unsupervised node init advance st ss = Some st'"
    "\<forall>k. row_of st' k = (let g = led_group node ss ?ls k in if g = [] then None else Some (fold advance g init))"
    using unsupervised_led [OF assms(1) in_ok(1)] by blast
  then show ?thesis using iff len by (intro exI [of _ st'] exI [of _ ?ls]) simp
qed

lemma agg_fill_hash_table_unsupervised_separation_witness:
  "let node = (demo_plan 2 (-1))\<lparr>numCols := 1, max_elem_sep := 3\<rparr>; ss = [slot_of [1], slot_of [4], slot_of [5], slot_of [12]] in
   \<exists>st' ls. agg_fill_hash_table_unsupervised node (0::nat) (\<lambda>_ n. n + 1) demo_state ss = Some st' \<and> length ls = length ss \<and>
    (\<forall>j<length ss. \<forall>i\<le>j. ls ! i = ls ! j \<longleftrightarrow>
       (\<forall>m. i \<le> m \<and> m < j \<longrightarrow> [1, 4, 5, 12::int] ! Suc m - [1, 4, 5, 12] ! m \<le> max_elem_sep node)) \<and>
    (\<forall>k. row_of st' k = (let g = led_group node ss ls k in if g = [] then None else Some (fold (\<lambda>_ n. n + 1) g 0)))"
  unfolding Let_def [of "(demo_plan 2 (-1))\<lparr>numCols := 1, max_elem_sep := 3\<rparr>"] Let_def [of "[slot_of [1], slot_of [4], slot_of [5], slot_of [12]]"]
  by (rule agg_fill_hash_table_unsupervised_separation [where vs = "[1, 4, 5, 12]"]) (simp_all add: demo_input_defs)

text \<open>C24. Unsupervised grouping with a maximal diameter, with or without a maximal separation, on
  sorted input returns without an error. A tuple lies at or above its first element, by at most the
  diameter; a tuple starts a new group exactly when it would break the diameter or the separation
  of the group before it. The table holds the aggregates of these groups.\<close>

theorem agg_fill_hash_table_unsupervised_diameter:
  assumes "empty_table st" "sorted_input ss vs" "0 \<le> max_group_diam node" "-1 \<le> max_elem_sep node"
  shows "\<exists>st' ls. agg_fill_hash_table_unsupervised node init advance st ss = Some st' \<and> length ls = length ss \<and>
    (\<forall>i<length ss. ls ! i \<le> vs ! i \<and> vs ! i - ls ! i \<le> max_group_diam node) \<and>
    (\<forall>i. Suc i < length ss \<longrightarrow> ls ! Suc i =
       (if max_group_diam node < vs ! Suc i - ls ! i \<or> (max_elem_sep node \<noteq> -1 \<and> max_elem_sep node < vs ! Suc i - vs ! i)
        then vs ! Suc i else ls ! i)) \<and>
    (\<forall>k. row_of st' k = (let g = led_group node ss ls k in if g = [] then None else Some (fold advance g init)))"
proof -
  let ?ls = "all_leaders node vs"
  have in_ok: "list_all2 at_value ss vs" "sorted vs" using assms(2) by (simp_all add: sorted_input_def)
  have len: "length vs = length ss" using list_all2_lengthD [OF in_ok(1)] by simp
  have nxt: "?ls ! Suc i = (if max_group_diam node < vs ! Suc i - ?ls ! i \<or>
        (max_elem_sep node \<noteq> -1 \<and> max_elem_sep node < vs ! Suc i - vs ! i) then vs ! Suc i else ?ls ! i)"
    if "Suc i < length ss" for i
    using all_leaders_step [of i vs node] that len assms(3) by (simp add: cut_at_def)
  have span: "vs ! i - ?ls ! i \<le> max_group_diam node" if "i < length ss" for i
  proof (cases i)
    case 0
    then have "vs \<noteq> []" using that len by auto
    then show ?thesis using 0 assms(3) by (simp add: all_leaders_first)
  next
    case (Suc j)
    then show ?thesis using nxt [of j] that assms(3) by (auto split: if_splits)
  qed
  have le: "\<forall>i<length ss. ?ls ! i \<le> vs ! i \<and> vs ! i - ?ls ! i \<le> max_group_diam node"
    using span leader_le [OF in_ok(2)] len by simp
  obtain st' where "agg_fill_hash_table_unsupervised node init advance st ss = Some st'"
    "\<forall>k. row_of st' k = (let g = led_group node ss ?ls k in if g = [] then None else Some (fold advance g init))"
    using unsupervised_led [OF assms(1) in_ok(1)] by blast
  then show ?thesis using nxt le len by (intro exI [of _ st'] exI [of _ ?ls]) simp
qed

lemma agg_fill_hash_table_unsupervised_diameter_witness:
  "let node = (demo_plan 2 (-1))\<lparr>numCols := 1, max_group_diam := 6\<rparr>; ss = [slot_of [1], slot_of [4], slot_of [5], slot_of [12]] in
   \<exists>st' ls. agg_fill_hash_table_unsupervised node (0::nat) (\<lambda>_ n. n + 1) demo_state ss = Some st' \<and> length ls = length ss \<and>
    (\<forall>i<length ss. ls ! i \<le> [1, 4, 5, 12] ! i \<and> [1, 4, 5, 12] ! i - ls ! i \<le> max_group_diam node) \<and>
    (\<forall>i. Suc i < length ss \<longrightarrow> ls ! Suc i =
       (if max_group_diam node < [1, 4, 5, 12] ! Suc i - ls ! i \<or>
           (max_elem_sep node \<noteq> -1 \<and> max_elem_sep node < [1, 4, 5, 12] ! Suc i - [1, 4, 5, 12] ! i)
        then [1, 4, 5, 12] ! Suc i else ls ! i)) \<and>
    (\<forall>k. row_of st' k = (let g = led_group node ss ls k in if g = [] then None else Some (fold (\<lambda>_ n. n + 1) g 0)))"
  unfolding Let_def [of "(demo_plan 2 (-1))\<lparr>numCols := 1, max_group_diam := 6\<rparr>"] Let_def [of "[slot_of [1], slot_of [4], slot_of [5], slot_of [12]]"]
  by (rule agg_fill_hash_table_unsupervised_diameter [where vs = "[1, 4, 5, 12]"]) (simp_all add: demo_input_defs)

section \<open>Maximal separation\<close>

text \<open>Every entry of the table holds the aggregates of some of the tuples that are closest to its
  centre.\<close>

definition around_group :: "Agg_plan \<Rightarrow> int list \<Rightarrow> slot list \<Rightarrow> slot \<Rightarrow> slot list" where
  "around_group node cs ss k = filter (\<lambda>s. \<exists>c. closest cs (slot_int s 0) c \<and> hash_key node (at_centre c s) = k) ss"

definition holds_some :: "Agg_plan \<Rightarrow> 'a \<Rightarrow> (slot \<Rightarrow> 'a \<Rightarrow> 'a) \<Rightarrow> int list \<Rightarrow> slot list \<Rightarrow> 'a AggState \<Rightarrow> bool" where
  "holds_some node init advance cs ss st \<longleftrightarrow> hash_room st \<and>
     (\<forall>k x. row_of st k = Some x \<longrightarrow> (\<exists>g. subseq g (around_group node cs ss k) \<and> x = fold advance g init))"

lemma holds_some_skip: "holds_some node init advance cs ss st \<Longrightarrow> holds_some node init advance cs (ss @ [s]) st"
proof -
  have "subseq g (around_group node cs (ss @ [s]) k)" if "subseq g (around_group node cs ss k)" for g k
    unfolding around_group_def filter_append
    by (rule subseq_rev_drop_many) (use that in \<open>simp add: around_group_def\<close>)
  then show "holds_some node init advance cs ss st \<Longrightarrow> ?thesis" unfolding holds_some_def by blast
qed

lemma room_of_flag [simp]: "hash_room (update_entry key f st) = hash_room st" "hash_room (enable_chain st) = hash_room st"
  "hash_room (reset_chain init st) = hash_room st"
  by (simp_all add: hash_room_def update_entry_def enable_chain_def reset_chain_def)

lemma row_of_flag [simp]: "row_of (update_entry key (\<lambda>e. e\<lparr>flagEnabled := f\<rparr>) st) k = row_of st k"
  by (simp add: row_of_def update_entry_def option.map_comp comp_def)

lemma row_of_enable [simp]: "row_of (enable_chain st) k = row_of st k"
  by (simp add: row_of_def enable_chain_def option.map_comp comp_def if_distrib cong: if_cong)

lemma row_of_reset: "row_of (reset_chain init st) k = Some x \<Longrightarrow> x = init \<or> row_of st k = Some x"
  by (auto simp: row_of_def reset_chain_def split: if_splits)

lemma holds_some_reset: "holds_some node init advance cs ss st \<Longrightarrow> holds_some node init advance cs ss (reset_chain init st)"
  unfolding holds_some_def room_of_flag by (metis row_of_reset fold_simps(1) id_apply list_emb_Nil)

lemma holds_some_flag [simp]:
  "holds_some node init advance cs ss (update_entry key (\<lambda>e. e\<lparr>flagEnabled := f\<rparr>) st) = holds_some node init advance cs ss st"
  "holds_some node init advance cs ss (enable_chain st) = holds_some node init advance cs ss st"
  by (simp_all add: holds_some_def)

lemma holds_some_put:
  assumes "holds_some node init advance cs ss st" "closest cs (slot_int s 0) c"
  shows "holds_some node init advance cs (ss @ [s]) (put_group node init advance (at_centre c s) s st)"
  unfolding holds_some_def
proof (intro conjI allI impI)
  have room: "hash_room st" using assms(1) by (simp add: holds_some_def)
  show "hash_room (put_group node init advance (at_centre c s) s st)" by (rule put_group_ok(2) [OF room])
  note row = put_group_row [OF room]
  fix k x assume x: "row_of (put_group node init advance (at_centre c s) s st) k = Some x"
  show "\<exists>g. subseq g (around_group node cs (ss @ [s]) k) \<and> x = fold advance g init"
  proof (cases "k = hash_key node (at_centre c s)")
    case True
    then have grp: "around_group node cs (ss @ [s]) k = around_group node cs ss k @ [s]"
      using assms(2) by (auto simp: around_group_def)
    show ?thesis
    proof (cases "row_of st k")
      case None
      then have "x = fold advance [s] init" using x True by (simp add: row)
      moreover have "subseq [s] (around_group node cs ss k @ [s])" by (simp add: subseq_singleton_left)
      ultimately show ?thesis unfolding grp by blast
    next
      case (Some y)
      then obtain g where "subseq g (around_group node cs ss k)" "y = fold advance g init"
        using assms(1) by (auto simp: holds_some_def)
      then have "subseq (g @ [s]) (around_group node cs ss k @ [s])" "x = fold advance (g @ [s]) init"
        using x True Some by (simp_all add: row)
      then show ?thesis unfolding grp by blast
    qed
  next
    case False
    then have "row_of st k = Some x" using x by (simp add: row)
    then show ?thesis using holds_some_skip [OF assms(1), of s] by (simp add: holds_some_def)
  qed
qed

text \<open>The state between two tuples, after the tuples \<open>seen\<close> up to the value \<open>u\<close>.\<close>

definition maxs_inv :: "Agg_plan \<Rightarrow> 'a \<Rightarrow> (slot \<Rightarrow> 'a \<Rightarrow> 'a) \<Rightarrow> int list \<Rightarrow> int \<Rightarrow> slot list \<Rightarrow> 'a maxs_state \<Rightarrow> bool" where
  "maxs_inv node init advance cs u seen x \<longleftrightarrow> pivots_ok (ms_pivots x) (settle cs u) \<and> av_ok (basePosition x) \<and>
     holds_some node init advance cs seen (ms_agg x)"

lemma connected_ok: "av_ok c \<Longrightarrow> av_ok v \<Longrightarrow> \<exists>b. connected_with sep c v = Some b"
  by (simp add: connected_with_def int4mi_ok)

lemma maxs_process_ok:
  assumes "sorted_wrt (<) cs" "cs \<noteq> []" "at_value s v" "pivots_ok (ms_pivots x) (settle cs v)"
    "holds_some node init advance cs seen (ms_agg x)"
  shows "\<exists>st. maxs_process node init advance s x = Some (x\<lparr>ms_agg := st, basePosition := v\<rparr>) \<and>
    holds_some node init advance cs (seen @ [s]) st"
proof -
  have v: "slot_int s 0 = v" by (rule slot_int_at [OF assms(3)])
  have room: "hash_room (ms_agg x)" using assms(5) by (simp add: holds_some_def)
  let ?st1 = "put_group node init advance (at_centre (pivot_value (ms_pivots x)) s) s (ms_agg x)"
  have "closest cs (slot_int s 0) (pivot_value (ms_pivots x))"
    using settle_closest [OF assms(1,2)] pivot_value_ok [OF assms(4)] v by simp
  from holds_some_put [OF assms(5) this] have "holds_some node init advance cs (seen @ [s]) ?st1" .
  then show ?thesis
    by (intro exI [of _ "update_entry (hash_key node (at_centre (pivot_value (ms_pivots x)) s)) (\<lambda>e. e\<lparr>flagEnabled := 1\<rparr>) ?st1"])
      (simp add: maxs_process_def tally_centre_put room v)
qed

lemma maxs_step_ok:
  assumes "sorted_wrt (<) cs" "cs \<noteq> []" "maxs_inv node init advance cs u seen x" "at_value s v" "u \<le> v"
    "list_all2 at_value inner cs"
  shows "\<exists>x'. maxs_step node init advance x s = Some x' \<and> maxs_inv node init advance cs v (seen @ [s]) x'"
proof -
  obtain p q rest where pv: "ms_pivots x = (p, q, rest)" by (cases "ms_pivots x") auto
  let ?m = "\<lambda>p q. execTuplesMatchAroundHash p q s 1"
  have inv: "pivots_ok (p, q, rest) (settle cs u)" "av_ok (basePosition x)" "holds_some node init advance cs seen (ms_agg x)"
    using assms(3) by (simp_all add: maxs_inv_def pv)
  have v: "slot_int s 0 = v" "av_ok v" using assms(4) by (simp_all add: at_value_def)
  have tw: "settle (settle cs u) v = settle cs v" by (rule settle_twice [OF assms(1,5)])
  obtain pv' where pv': "settle_pivots ?m (p, q, rest) = Some pv'" "pivots_ok pv' (settle cs v)"
    using settle_pivots_ok [OF hash_test [OF assms(4)] inv(1)] tw by auto
  obtain b where b: "?m p q = Some b" using pv'(1) by (auto simp: settle_pivots_def bind_eq_Some_conv)
  have ok: "av_ok (pivot_value pw)" if "pivots_ok pw (settle cs v)" for pw
  proof -
    have "pivot_value pw \<in> set cs" using pivot_value_ok [OF that] settle_closest [OF assms(1,2)] by (simp add: closest_def)
    then show ?thesis using assms(6) by (auto simp: list_all2_conv_all_nth in_set_conv_nth at_value_def)
  qed
  have process: "\<exists>st. maxs_process node init advance s y = Some (y\<lparr>ms_agg := st, basePosition := v\<rparr>) \<and>
      holds_some node init advance cs (seen @ [s]) st"
    if "ms_pivots y = pw" "pivots_ok pw (settle cs v)" "holds_some node init advance cs seen (ms_agg y)" for y pw
    using maxs_process_ok [OF assms(1,2,4) _ that(3)] that(1,2) by simp
  show ?thesis
  proof (cases b)
    case False
    then obtain q' where q: "q = Some q'" "find_pivots ?m q' rest = Some pv'"
      using pv'(1) b by (auto simp: settle_pivots_def split: option.splits)
    obtain c where c: "connected_with (max_elem_sep node) (pivot_value pv') v = Some c"
      using connected_ok [OF ok [OF pv'(2)] v(2)] by blast
    let ?y = "(if curChainConnectedWithCenter x then x\<lparr>ms_agg := enable_chain (ms_agg x)\<rparr> else x)\<lparr>ms_pivots := pv'\<rparr>"
    have y: "ms_pivots ?y = pv'" "holds_some node init advance cs seen (ms_agg ?y)" using inv(3) by simp_all
    obtain st where "maxs_process node init advance s ?y = Some (?y\<lparr>ms_agg := st, basePosition := v\<rparr>)"
      "holds_some node init advance cs (seen @ [s]) st"
      using process [OF y(1) pv'(2) y(2)] by blast
    then show ?thesis
      using b False q c pv'(2) v by (simp add: maxs_step_def pv maxs_inv_def Let_def)
  next
    case True
    then have pv2: "pivots_ok (p, q, rest) (settle cs v)" using pv' b by (simp add: settle_pivots_def)
    obtain c where c: "connected_with (max_elem_sep node) (pivot_value (p, q, rest)) v = Some c"
      using connected_ok [OF ok [OF pv2] v(2)] by blast
    have gap: "int4mi v (basePosition x) = Some (v - basePosition x)" using int4mi_ok v(2) inv(2) by blast
    obtain st where st: "maxs_process node init advance s x = Some (x\<lparr>ms_agg := st, basePosition := v\<rparr>)"
      "holds_some node init advance cs (seen @ [s]) st"
      using process [of x "(p, q, rest)"] pv pv2 inv(3) by auto
    let ?z = "x\<lparr>ms_agg := reset_chain init (ms_agg x)\<rparr>"
    obtain st' where st': "maxs_process node init advance s ?z = Some (?z\<lparr>ms_agg := st', basePosition := v\<rparr>)"
      "holds_some node init advance cs (seen @ [s]) st'"
      using process [of ?z "(p, q, rest)"] pv pv2 holds_some_reset [OF inv(3)] by auto
    note skip = holds_some_skip [OF inv(3)] holds_some_skip [OF holds_some_reset [OF inv(3)]]
    show ?thesis
      using b True c gap st st' skip inv(2) v pv2
      by (simp add: maxs_step_def pv maxs_inv_def Let_def)
  qed
qed

lemma maxs_loop_ok:
  assumes "sorted_wrt (<) cs" "cs \<noteq> []" "list_all2 at_value inner cs"
    "maxs_inv node init advance cs u seen x" "sorted_input ss vs" "\<forall>v\<in>set vs. u \<le> v"
  shows "\<exists>st'. maxs_loop node init advance x ss = Some st' \<and> holds_some node init advance cs (seen @ ss) st'"
  using assms(4-6)
proof (induction ss arbitrary: x u seen vs)
  case Nil
  then show ?case by (simp add: maxs_inv_def)
next
  case (Cons s ss)
  obtain v vs' where vs: "at_value s v" "sorted_input ss vs'" "\<forall>w\<in>set vs'. v \<le> w" "u \<le> v"
    using Cons.prems by (auto simp: sorted_input_def list_all2_Cons1)
  obtain x' where x': "maxs_step node init advance x s = Some x'" "maxs_inv node init advance cs v (seen @ [s]) x'"
    using maxs_step_ok [OF assms(1,2) Cons.prems(1) vs(1,4) assms(3)] by blast
  show ?case using Cons.IH [OF x'(2) vs(2,3)] x'(1) by simp
qed

lemma maxs_rows:
  assumes "set ks \<subseteq> dom (hashtable st)"
  shows "\<exists>rows. agg_retrieve_hash_table_around_MaxS final having ks st = Some rows \<and>
    (\<forall>(k, r)\<in>set rows. having k r \<and> (\<exists>x. row_of st k = Some x \<and> r = final x))"
  using assms
proof (induction ks)
  case (Cons k ks)
  then obtain e rows where e: "hashtable st k = Some e"
    and rows: "agg_retrieve_hash_table_around_MaxS final having ks st = Some rows"
      "\<forall>(k, r)\<in>set rows. having k r \<and> (\<exists>x. row_of st k = Some x \<and> r = final x)" by auto
  show ?case using e rows by (auto simp: row_of_def)
qed simp

text \<open>C26. Grouping around centres with a maximal separation (\<open>agg_fill_hash_table_around_MaxS\<close> and
  \<open>agg_retrieve_hash_table_around_MaxS\<close>) on sorted input returns without an error, and a row for a
  centre aggregates only tuples that are closest to that centre and have the other grouping columns
  of the row, in their order and each at most once: no tuple counts for a wrong centre.\<close>

theorem agg_fill_hash_table_around_MaxS_sound:
  assumes "empty_table st" "centres inner cs" "sorted_input ss vs"
  shows "\<exists>st'. agg_fill_hash_table_around_MaxS node init advance st inner ss = Some st' \<and>
    (\<forall>ks. set ks \<subseteq> dom (hashtable st') \<longrightarrow>
       (\<exists>rows. agg_retrieve_hash_table_around_MaxS final having ks st' = Some rows \<and>
          (\<forall>(k, r)\<in>set rows. having k r \<and>
             (\<exists>g. subseq g (around_group node cs ss k) \<and> r = final (fold advance g init)))))"
proof -
  have cs: "sorted_wrt (<) cs" "cs \<noteq> []" "list_all2 at_value inner cs" using assms(2) by (simp_all add: centres_def)
  obtain pv where pv: "load_pivots inner = Some pv" "pivots_ok pv cs" using load_pivots_ok [OF cs(3,2)] .
  let ?u = "min (hd cs) (Min (insert 0 (set vs)))"
  let ?x = "\<lparr>ms_pivots = pv, ms_agg = st, basePosition = 0, ignoreUntilNextGroup = False,
           curChainConnectedWithCenter = False, firstTuple = True\<rparr>"
  have "settle cs ?u = cs" by (rule settle_low [OF cs(2)]) simp
  moreover have "holds_some node init advance cs [] st" by (simp add: holds_some_def empty_row [OF assms(1)] empty_room [OF assms(1)])
  ultimately have inv: "maxs_inv node init advance cs ?u [] ?x" using pv(2) by (simp add: maxs_inv_def av_ok_def)
  have u: "\<forall>v\<in>set vs. ?u \<le> v" by (auto simp: min.coboundedI2)
  obtain st' where st': "maxs_loop node init advance ?x ss = Some st'" "holds_some node init advance cs ss st'"
    using maxs_loop_ok [OF cs inv assms(3) u] by auto
  have sound: "\<exists>rows. agg_retrieve_hash_table_around_MaxS final having ks st' = Some rows \<and>
      (\<forall>(k, r)\<in>set rows. having k r \<and> (\<exists>g. subseq g (around_group node cs ss k) \<and> r = final (fold advance g init)))"
    if ks: "set ks \<subseteq> dom (hashtable st')" for ks
    using maxs_rows [OF ks, of final having] st'(2) unfolding holds_some_def by (fastforce split: prod.splits)
  show ?thesis
    by (rule exI [of _ st'], intro conjI) (use st'(1) pv(1) sound in \<open>auto simp: agg_fill_hash_table_around_MaxS_def\<close>)
qed

lemma agg_fill_hash_table_around_MaxS_sound_witness:
  "let node = (demo_plan 2 (-1))\<lparr>numCols := 1, max_elem_sep := 3\<rparr>; inner = [slot_of [0], slot_of [10]]; ss = [slot_of [1], slot_of [4], slot_of [5], slot_of [12]] in
   \<exists>st'. agg_fill_hash_table_around_MaxS node (0::nat) (\<lambda>_ n. n + 1) demo_state inner ss = Some st' \<and>
    (\<forall>ks. set ks \<subseteq> dom (hashtable st') \<longrightarrow>
       (\<exists>rows. agg_retrieve_hash_table_around_MaxS (\<lambda>n. n) (\<lambda>_ _. True) ks st' = Some rows \<and>
          (\<forall>(k, r)\<in>set rows. True \<and>
             (\<exists>g. subseq g (around_group node [0, 10] ss k) \<and> r = fold (\<lambda>_ n. n + 1) g 0))))"
  unfolding Let_def [of "(demo_plan 2 (-1))\<lparr>numCols := 1, max_elem_sep := 3\<rparr>"] Let_def [of "[slot_of [0], slot_of [10]]"] Let_def [of "[slot_of [1], slot_of [4], slot_of [5], slot_of [12]]"]
  by (rule agg_fill_hash_table_around_MaxS_sound [where vs = "[1, 4, 5, 12]"]) (simp_all add: demo_input_defs)

text \<open>It does lose and keep the wrong chains. With separation 5 and the centres 0 and 100 the tuple
  at 20 is connected to neither, but its group is returned once the chain of 100 is accepted; with
  the centre 0 the tuple at -9 is lost, although it is connected to 0 through -4.\<close>

definition maxs_demo :: "int list \<Rightarrow> int list \<Rightarrow> slot list \<Rightarrow> (slot \<times> nat) list option" where
  "maxs_demo cs vs ks =
     (case agg_fill_hash_table_around_MaxS ((demo_plan 2 (-1))\<lparr>numCols := 1, max_elem_sep := 5\<rparr>) 0 (\<lambda>_ n. n + 1) demo_state
        (map (\<lambda>c. slot_of [c]) cs) (map (\<lambda>v. slot_of [v]) vs) of
        None \<Rightarrow> None
      | Some st \<Rightarrow> agg_retrieve_hash_table_around_MaxS (\<lambda>n. n) (\<lambda>_ _. True) ks st)"

lemmas run_maxs = maxs_demo_def agg_fill_hash_table_around_MaxS_def maxs_step_def maxs_process_def tally_centre_some
  tally_tuple_def lookup_hash_entry_def at_centre_def hash_key_def update_entry_def connected_with_def int4lt_def
  int4mi_def SAMESIGN_def sub32_def i32_def execTuplesMatchAroundHash_def slot_getattr_def slot_of_def demo_plan_def
  demo_state_def hash_room_def sizeofgroup_def new_entry_def zero_entry_def pivot_value_def enable_chain_def reset_chain_def

lemma maxs_demo_stale: "maxs_demo [0, 100] [20, 100] [slot_of [0], slot_of [100]] = Some [(slot_of [0], 1), (slot_of [100], 1)]"
  by (simp add: run_maxs Let_def)

lemma maxs_demo_lost: "maxs_demo [0] [-20, -9, -4] [slot_of [0]] = Some [(slot_of [0], 1)]"
  by (simp add: run_maxs Let_def)

end
