(* ===== verification/NodeAggExec.thy ===== *)
theory NodeAggExec
  imports SGBAnyRows AroundSorted AroundLimits
begin

text \<open>
  \<open>ExecAgg\<close> (\<^verbatim>\<open>executor/nodeAgg.c\<close>), called until it returns NULL: the choice of the operator
  by the fields of the plan node, and the rows of the whole aggregation. \<open>righttree\<close> are the rows
  of the inner plan (the centres), absent without \<open>AROUND\<close>; \<open>outer\<close> are the rows of the outer
  plan. \<open>None\<close> is an error raised on the way.
\<close>

section \<open>Operators\<close>

definition hash_rows :: "((slot \<Rightarrow> 'a AggHashEntry option) \<Rightarrow> slot list) \<Rightarrow> Agg_plan \<Rightarrow> ('a \<Rightarrow> 'r) \<Rightarrow>
    (slot option \<Rightarrow> 'r \<Rightarrow> bool) \<Rightarrow> 'a AggState \<Rightarrow> (slot option \<times> 'r) list option" where
  "hash_rows scan node final having st =
     map_option (map (\<lambda>(k, r). (Some k, r)))
       (agg_retrieve_hash_table node final (\<lambda>k. having (Some k)) (scan (hashtable st)) st)"

definition hash_rows_MaxS :: "((slot \<Rightarrow> 'a AggHashEntry option) \<Rightarrow> slot list) \<Rightarrow> ('a \<Rightarrow> 'r) \<Rightarrow>
    (slot option \<Rightarrow> 'r \<Rightarrow> bool) \<Rightarrow> 'a AggState \<Rightarrow> (slot option \<times> 'r) list option" where
  "hash_rows_MaxS scan final having st =
     map_option (map (\<lambda>(k, r). (Some k, r)))
       (agg_retrieve_hash_table_around_MaxS final (\<lambda>k. having (Some k)) (scan (hashtable st)) st)"

text \<open>What is fixed while a query runs: the order of the hash scans, \<open>acos\<close>, the columns of the
  grouping key, the uninitialised flags of \<open>MaxR\<close>, the aggregates and \<open>HAVING\<close>.\<close>

record ('a, 'r) agg_env =
  env_scan :: "(slot \<Rightarrow> 'a AggHashEntry option) \<Rightarrow> slot list"
  env_acos :: "real \<Rightarrow> real option"
  grpColIdx :: "nat list"
  uninit_flags :: "bool \<times> bool"
  agg_init :: 'a
  agg_advance :: "slot \<Rightarrow> 'a \<Rightarrow> 'a"
  agg_final :: "'a \<Rightarrow> 'r"
  agg_having :: "slot option \<Rightarrow> 'r \<Rightarrow> bool"

definition exec_hashed_plain :: "('a, 'r) agg_env \<Rightarrow> Agg_plan \<Rightarrow> 'a AggState \<Rightarrow> slot list \<Rightarrow> (slot option \<times> 'r) list option" where
  "exec_hashed_plain env node st outer =
     (let init = agg_init env; advance = agg_advance env;
          rows = hash_rows (env_scan env) node (agg_final env) (agg_having env)
      in if max_group_diam node \<noteq> -1 \<or> max_elem_sep node \<noteq> -1
         then Option.bind (agg_fill_hash_table_unsupervised node init advance st outer) rows
         else if distanceall node \<noteq> -1
         then Option.bind (agg_fill_hash_table_SGBTOAll (env_scan env) (env_acos env) node init advance st outer) rows
         else if distanceany node \<noteq> -1
         then Option.bind (agg_fill_hash_table_SGBTOANY node init advance st outer) rows
         else Option.bind (agg_fill_hash_table node init advance st outer) rows)"

definition exec_hashed_around :: "('a, 'r) agg_env \<Rightarrow> Agg_plan \<Rightarrow> 'a AggState \<Rightarrow> slot list \<Rightarrow> slot list \<Rightarrow>
    (slot option \<times> 'r) list option" where
  "exec_hashed_around env node st inner outer =
     (let init = agg_init env; advance = agg_advance env;
          rows = hash_rows (env_scan env) node (agg_final env) (agg_having env)
      in if max_group_diam node \<noteq> -1 \<and> max_elem_sep node \<noteq> -1 then None
         else if max_group_diam node \<noteq> -1
         then Option.bind (agg_fill_hash_table_around_MaxR node init advance (uninit_flags env) st inner outer) rows
         else if max_elem_sep node \<noteq> -1
         then Option.bind (agg_fill_hash_table_around_MaxS node init advance st inner outer)
                (hash_rows_MaxS (env_scan env) (agg_final env) (agg_having env))
         else Option.bind (agg_fill_hash_table_around node init advance st inner outer) rows)"

definition ExecAgg :: "('a, 'r) agg_env \<Rightarrow> Agg_plan \<Rightarrow> 'a AggState \<Rightarrow> slot list option \<Rightarrow> slot list \<Rightarrow>
    (slot option \<times> 'r) list option" where
  "ExecAgg env node st righttree outer =
     (if aggstrategy node = AGG_HASHED
      then (case righttree of
              None \<Rightarrow> exec_hashed_plain env node st outer
            | Some inner \<Rightarrow> exec_hashed_around env node st inner outer)
      else if distanceall node \<noteq> -1
      then Some (agg_retrieve_direct node (grpColIdx env) (agg_init env) (agg_advance env) (agg_final env) (agg_having env) outer)
      else (case righttree of
              None \<Rightarrow> Some (agg_retrieve_direct node (grpColIdx env) (agg_init env) (agg_advance env) (agg_final env)
                        (agg_having env) outer)
            | Some inner \<Rightarrow> agg_retrieve_direct_around node (grpColIdx env) (agg_init env) (agg_advance env) (agg_final env)
                        (agg_having env) inner outer))"

section \<open>Sorted and hashed aggregation\<close>

lemma dom_row: "dom (row_of st) = dom (hashtable st)"
  by (simp add: row_of_def dom_def)

lemma finite_hashtable:
  assumes "hash_room st" "finite (dom (hashtable st))"
  shows "finite (dom (hashtable (put_group node init advance m s st)))"
proof -
  have "dom (hashtable (put_group node init advance m s st)) \<subseteq> insert (hash_key node m) (dom (hashtable st))"
    unfolding dom_row [symmetric] by (auto simp: dom_def put_group_row [OF assms(1)])
  then show ?thesis using assms(2) finite_subset by blast
qed

lemma finite_puts:
  "hash_room st \<Longrightarrow> finite (dom (hashtable st)) \<Longrightarrow>
     finite (dom (hashtable (fold (\<lambda>(m, s). put_group node init advance m s) xs st)))"
  by (induction xs arbitrary: st) (auto intro: finite_hashtable put_group_ok(2))

text \<open>A standard grouping: no similarity clause.\<close>

definition standard_plan :: "Agg_plan \<Rightarrow> bool" where
  "standard_plan node \<longleftrightarrow> max_group_diam node = -1 \<and> max_elem_sep node = -1 \<and> distanceall node = -1 \<and>
     distanceany node = -1 \<and> overlap node \<noteq> 2"

text \<open>C10. Standard grouping gives the same rows hashed and sorted. On an input in which equal keys
  stand together - every sorted input - the rows of the hashed \<open>ExecAgg\<close>, for any order of the
  scan of the hash table, are up to their order the rows of the sorted one, each named by its key.
  \<open>HAVING\<close> may use the grouping columns and the aggregates.\<close>

theorem ExecAgg_hashed_sorted:
  assumes "standard_plan node" "aggstrategy node = AGG_HASHED" "empty_table st" "scan_ok (env_scan env)"
    "grpColIdx env = key_columns (numCols node)" "leading (numCols node) ss" "clustered (hash_key node) ss"
    "\<forall>s r. agg_having env (Some s) r = agg_having env (Some (hash_key node s)) r"
  shows "\<exists>hashed srt. ExecAgg env node st None ss = Some hashed \<and>
    ExecAgg env (node\<lparr>aggstrategy := AGG_SORTED\<rparr>) st None ss = Some srt \<and>
    mset hashed = mset (map (\<lambda>(s, r). (map_option (hash_key node) s, r)) srt)"
proof -
  let ?st = "fold (\<lambda>(m, s). put_group node (agg_init env) (agg_advance env) m s) (map (\<lambda>s. (s, s)) ss) st"
  have fill: "agg_fill_hash_table node (agg_init env) (agg_advance env) st ss = Some ?st"
    by (rule agg_fill_hash_table_puts [OF empty_room [OF assms(3)]])
  let ?srt = "agg_retrieve_direct (node\<lparr>aggstrategy := AGG_SORTED\<rparr>) (key_columns (numCols node)) (agg_init env)
     (agg_advance env) (agg_final env) (agg_having env) ss"
  have "finite (dom (hashtable ?st))"
    by (rule finite_puts) (use assms(3) in \<open>simp_all add: empty_table_def\<close>)
  then have scan: "distinct (env_scan env (hashtable ?st))" "set (env_scan env (hashtable ?st)) = dom (hashtable ?st)"
    using assms(4) by (simp_all add: scan_ok_def)
  obtain rows where rows: "agg_retrieve_hash_table node (agg_final env) (\<lambda>k. agg_having env (Some k))
      (env_scan env (hashtable ?st)) ?st = Some rows"
    "mset rows = mset (map (\<lambda>(s, r). (hash_key node (the s), r)) ?srt)"
    using standard_rows [OF assms(3) _ scan(1) fill _ assms(6,7), of "agg_having env"
        "\<lambda>k. agg_having env (Some k)" "agg_final env"] scan(2) assms(1,8) by (auto simp: standard_plan_def dom_row)
  have some: "\<forall>(s, r)\<in>set ?srt. \<exists>t. s = Some t"
    by (subst agg_retrieve_direct_runs [of "node\<lparr>aggstrategy := AGG_SORTED\<rparr>", simplified, OF assms(6)])
      (auto simp: direct_row_def split: if_splits)
  have "mset (map (\<lambda>(k, r). (Some k, r)) rows) = image_mset (\<lambda>(k, r). (Some k, r)) (mset rows)" by simp
  also have "\<dots> = mset (map (\<lambda>(k, r). (Some k, r)) (map (\<lambda>(s, r). (hash_key node (the s), r)) ?srt))"
    by (simp only: mset_map rows(2))
  also have "\<dots> = mset (map (\<lambda>(s, r). (map_option (hash_key node) s, r)) ?srt)"
    by (rule arg_cong [where f = mset]) (use some in \<open>auto intro!: map_cong simp: comp_def\<close>)
  finally show ?thesis
    using assms(1,2,5) rows(1) fill by (simp add: ExecAgg_def exec_hashed_plain_def hash_rows_def standard_plan_def Let_def)
qed

definition demo_env :: "nat list \<Rightarrow> (nat, nat) agg_env" where
  "demo_env cols = \<lparr>env_scan = sorted_scan, env_acos = (\<lambda>_. None), grpColIdx = cols, uninit_flags = (False, False),
     agg_init = 0, agg_advance = (\<lambda>_ n. n + 1), agg_final = (\<lambda>n. n), agg_having = (\<lambda>_ _. True)\<rparr>"

lemma ExecAgg_hashed_sorted_witness:
  "let node = (demo_plan 2 (-1))\<lparr>distanceall := -1, distanceany := -1\<rparr>;
       ss = [slot_of [1, 2], slot_of [1, 2], slot_of [3, 4]] in
   \<exists>hashed srt. ExecAgg (demo_env (key_columns 2)) node demo_state None ss = Some hashed \<and>
    ExecAgg (demo_env (key_columns 2)) (node\<lparr>aggstrategy := AGG_SORTED\<rparr>) demo_state None ss = Some srt \<and>
    mset hashed = mset (map (\<lambda>(s, r). (map_option (hash_key node) s, r)) srt)"
  unfolding Let_def
  by (rule ExecAgg_hashed_sorted)
    (simp_all add: demo_env_def standard_plan_def demo_plan_def empty_table_def hash_room_def sizeofgroup_def demo_state_def sorted_scan_ok leading_def
      slot_of_def hash_key_def)

section \<open>Limits and distances that do not reach an operator\<close>

text \<open>\<open>AROUND\<close> with both a maximal diameter and a maximal separation is refused: the hashed
  \<open>ExecAgg\<close> raises an error for every input, also without any tuple.\<close>

theorem ExecAgg_around_both_refused:
  assumes "aggstrategy node = AGG_HASHED" "max_group_diam node \<noteq> -1" "max_elem_sep node \<noteq> -1"
  shows "ExecAgg env node st (Some inner) ss = None"
  using assms by (simp add: ExecAgg_def exec_hashed_around_def Let_def)

lemma ExecAgg_around_both_refused_witness:
  "ExecAgg (demo_env [1, 2]) ((demo_plan 2 (-1))\<lparr>max_group_diam := 4, max_elem_sep := 2\<rparr>) demo_state
     (Some [slot_of [0]]) [] = None"
  by (rule ExecAgg_around_both_refused) (simp_all add: demo_plan_def)

text \<open>On sorted input the limits of \<open>AROUND\<close> are ignored, and a distance turns off \<open>AROUND\<close>.\<close>

lemma direct_around_groups_cong:
  assumes "aggstrategy node' = aggstrategy node" "numCols node' = numCols node"
  shows "direct_around_groups node' cols init advance final having pv f x ss =
    direct_around_groups node cols init advance final having pv f x ss"
proof (induction ss arbitrary: pv f x)
  case (Cons s ss)
  show ?case unfolding direct_around_groups.simps Cons.IH assms by simp
qed simp

lemma direct_groups_cong:
  assumes "aggstrategy node' = aggstrategy node" "numCols node' = numCols node"
  shows "direct_groups node' cols init advance final having f x ss = direct_groups node cols init advance final having f x ss"
  by (induction ss arbitrary: f x) (simp_all add: assms)

text \<open>Up to \<open>AGG_SORTED\<close> only the strategy and the columns of the node count, and whether it has a
  distance.\<close>

lemma ExecAgg_direct_cong:
  assumes "aggstrategy node' = aggstrategy node" "numCols node' = numCols node"
    "distanceall node' = distanceall node" "aggstrategy node \<le> AGG_SORTED"
  shows "ExecAgg env node' st right ss = ExecAgg env node st right ss"
  using assms not_hashed [of "aggstrategy node"]
  by (simp add: ExecAgg_def agg_retrieve_direct_def agg_retrieve_direct_around_def direct_around_groups_cong [OF assms(1,2)]
      direct_groups_cong [OF assms(1,2)] split: option.split list.split)

lemma ExecAgg_sorted_ignores_limits:
  assumes "aggstrategy node = AGG_SORTED"
  shows "ExecAgg env (node\<lparr>max_group_diam := d, max_elem_sep := e\<rparr>) st right ss = ExecAgg env node st right ss"
  by (rule ExecAgg_direct_cong) (simp_all add: assms)

lemma ExecAgg_sorted_distance:
  assumes "aggstrategy node \<noteq> AGG_HASHED" "distanceall node \<noteq> -1"
  shows "ExecAgg env node st right ss = ExecAgg env node st None ss"
  using assms by (simp add: ExecAgg_def)

text \<open>Input that is not sorted, or has NULLs: with the centres 0 and 10 a descending input puts the
  tuple at 1 under 10, and a NULL, sorted last, counts for the last centre.\<close>

lemmas run_around = agg_fill_hash_table_around_def settle_pivots_def execTuplesMatchAroundHash_def tally_centre_some
  tally_tuple_def lookup_hash_entry_def at_centre_def hash_key_def update_entry_def new_entry_def zero_entry_def
  pivot_value_def int4lt_def int4mi_def SAMESIGN_def sub32_def i32_def slot_getattr_def slot_of_def demo_plan_def
  demo_state_def hash_room_def sizeofgroup_def row_of_def

definition around_demo :: "slot list \<Rightarrow> int list \<Rightarrow> nat option list" where
  "around_demo ss ks =
     (case agg_fill_hash_table_around ((demo_plan 2 (-1))\<lparr>numCols := 1\<rparr>) (0::nat) (\<lambda>_ n. n + 1) demo_state
        [slot_of [0], slot_of [10]] ss of
        None \<Rightarrow> []
      | Some st \<Rightarrow> map (\<lambda>k. row_of st (slot_of [k])) ks)"

lemma around_demo_descending: "around_demo [slot_of [12], slot_of [1]] [0, 10] = [None, Some 2]"
  by (simp add: around_demo_def run_around Let_def)

lemma around_demo_null: "around_demo [slot_of [1], [None]] [0, 10] = [Some 1, Some 1]"
  by (simp add: around_demo_def run_around Let_def)

end
