(* ===== verification/SGBPlanner.thy ===== *)
theory SGBPlanner
  imports NodeAggExec
begin

text \<open>
  How a query reaches the operators: the flags and the grouping clauses that the analysis builds
  (\<open>transformGroupClause\<close>, \<^verbatim>\<open>parser/parse_clause.c\<close>), the grouping part of
  \<open>grouping_planner\<close> (\<^verbatim>\<open>optimizer/plan/planner.c\<close>) with the node constructors of
  \<^verbatim>\<open>optimizer/plan/createplan.c\<close>, and the copies of these nodes (\<^verbatim>\<open>nodes/copyfuncs.c\<close>).
  A target entry is its reference; paths, costs and target lists are left out, and what the
  planner decides from them is a parameter.
\<close>

section \<open>Analysis\<close>

text \<open>The similarity part of a \<open>SelectStmt\<close>, as the grammar fills it: -1 is an absent clause.\<close>

record 'n SelectStmt =
  aroundSelectStmt :: "'n option"
  sgb_MaxGroupDiam :: int
  sgb_MaxElemSep :: int
  sgb_distanceAll :: int
  sgb_hasOverlap :: int
  sgb_distanceAny :: int
  sgb_metric :: int

record Query =
  hasAroundSGB :: bool
  hasUnsupervisedSGB :: bool
  hasDistAll :: bool
  hasDistAny :: bool

text \<open>\<open>makeNode\<close> returns zeroed memory.\<close>

definition new_query :: Query where
  "new_query = \<lparr>hasAroundSGB = False, hasUnsupervisedSGB = False, hasDistAll = False, hasDistAny = False\<rparr>"

definition set_sgb_flags :: "'n SelectStmt \<Rightarrow> Query \<Rightarrow> Query" where
  "set_sgb_flags stmt qry =
     (if aroundSelectStmt stmt \<noteq> None
      then qry\<lparr>hasAroundSGB := True, hasUnsupervisedSGB := False, hasDistAll := False\<rparr>
      else if sgb_distanceAll stmt \<noteq> -1
      then qry\<lparr>hasDistAll := True, hasAroundSGB := False, hasUnsupervisedSGB := False\<rparr>
      else if sgb_distanceAny stmt \<noteq> -1
      then qry\<lparr>hasDistAny := True, hasAroundSGB := False, hasUnsupervisedSGB := False\<rparr>
      else qry\<lparr>hasAroundSGB := False, hasDistAll := False,
               hasUnsupervisedSGB := (sgb_MaxGroupDiam stmt \<noteq> -1 \<or> sgb_MaxElemSep stmt \<noteq> -1)\<rparr>)"

record ('q, 'o) GroupClause =
  tleSortGroupRef :: nat
  sortop :: 'o
  aroundRefPointsSubquery :: "'q option"
  gc_max_group_diam :: int
  gc_max_elem_sep :: int
  gc_distanceall :: int
  overlapValue :: int
  distanceanyValue :: int
  metricValue :: int

definition make_group_clause :: "nat \<Rightarrow> 'o \<Rightarrow> 'q option \<Rightarrow> 'n SelectStmt \<Rightarrow> ('q, 'o) GroupClause" where
  "make_group_clause tle op aroundQuery stmt =
     \<lparr>tleSortGroupRef = tle, sortop = op, aroundRefPointsSubquery = aroundQuery,
      gc_max_group_diam = sgb_MaxGroupDiam stmt, gc_max_elem_sep = sgb_MaxElemSep stmt,
      gc_distanceall = sgb_distanceAll stmt, overlapValue = sgb_hasOverlap stmt,
      distanceanyValue = sgb_distanceAny stmt, metricValue = sgb_metric stmt\<rparr>"

text \<open>A clause is appended; \<open>index = 1\<close> is an empty result so far. The analysis of the subselect
  (\<open>parse_sub_analyze\<close> and the checks of its result) is \<open>analyze\<close>, \<open>None\<close> an error.\<close>

definition append_group_clause :: "('n \<Rightarrow> 'q option) \<Rightarrow> 'n SelectStmt \<Rightarrow> Query \<Rightarrow> nat \<Rightarrow> 'o \<Rightarrow>
    ('q, 'o) GroupClause list \<Rightarrow> ('q, 'o) GroupClause list option" where
  "append_group_clause analyze stmt qry tle op result =
     (if result = [] \<and> hasAroundSGB qry
      then (case aroundSelectStmt stmt of
              None \<Rightarrow> None
            | Some n \<Rightarrow> map_option (\<lambda>q. result @ [make_group_clause tle op (Some q) stmt]) (analyze n))
      else Some (result @ [make_group_clause tle op None stmt]))"

text \<open>Part 1: the longest prefix of \<open>ORDER BY\<close> that is in the list of items, with its sort
  operators. Returns the clauses and the items that are left.\<close>

fun order_by_prefix :: "('n \<Rightarrow> 'q option) \<Rightarrow> 'n SelectStmt \<Rightarrow> Query \<Rightarrow> (nat \<times> 'o) list \<Rightarrow> nat list \<Rightarrow>
    ('q, 'o) GroupClause list \<Rightarrow> (('q, 'o) GroupClause list \<times> nat list) option" where
  "order_by_prefix analyze stmt qry [] tle_list result = Some (result, tle_list)"
| "order_by_prefix analyze stmt qry ((sc, op) # sortClause) tle_list result =
     (if sc \<in> set tle_list
      then do { result' \<leftarrow> append_group_clause analyze stmt qry sc op result;
                order_by_prefix analyze stmt qry sortClause (remove1 sc tle_list) result' }
      else Some (result, tle_list))"

text \<open>Part 2: the other items, without duplicates.\<close>

fun remaining_items :: "('n \<Rightarrow> 'q option) \<Rightarrow> (nat \<Rightarrow> 'o) \<Rightarrow> 'n SelectStmt \<Rightarrow> Query \<Rightarrow> nat list \<Rightarrow>
    ('q, 'o) GroupClause list \<Rightarrow> ('q, 'o) GroupClause list option" where
  "remaining_items analyze ordering_oper stmt qry [] result = Some result"
| "remaining_items analyze ordering_oper stmt qry (tle # tles) result =
     (if tle \<in> tleSortGroupRef ` set result
      then remaining_items analyze ordering_oper stmt qry tles result
      else do { result' \<leftarrow> append_group_clause analyze stmt qry tle (ordering_oper tle) result;
                remaining_items analyze ordering_oper stmt qry tles result' })"

definition transformGroupClause :: "('n \<Rightarrow> 'q option) \<Rightarrow> (nat \<Rightarrow> 'o) \<Rightarrow> 'n SelectStmt \<Rightarrow> nat list \<Rightarrow> (nat \<times> 'o) list \<Rightarrow>
    (Query \<times> ('q, 'o) GroupClause list) option" where
  "transformGroupClause analyze ordering_oper stmt grouplist sortClause =
     (let qry = set_sgb_flags stmt new_query
      in do { (result, tles) \<leftarrow> order_by_prefix analyze stmt qry sortClause grouplist [];
              result' \<leftarrow> remaining_items analyze ordering_oper stmt qry tles result;
              Some (qry, result') })"

section \<open>Nodes\<close>

text \<open>Fields that a constructor does not set are zero.\<close>

definition make_agg :: "AggStrategy \<Rightarrow> nat \<Rightarrow> Agg_plan" where
  "make_agg strategy numGroupCols =
     \<lparr>aggstrategy = strategy, numCols = numGroupCols, max_group_diam = -1, max_elem_sep = -1,
      distanceall = -1, distanceany = -1, metric = 0, overlap = 0\<rparr>"

definition make_agg_SGB_DIST :: "AggStrategy \<Rightarrow> nat \<Rightarrow> int \<Rightarrow> int \<Rightarrow> int \<Rightarrow> int \<Rightarrow> Agg_plan" where
  "make_agg_SGB_DIST strategy numGroupCols distAll ovl distAny metr =
     \<lparr>aggstrategy = strategy, numCols = numGroupCols, max_group_diam = -1, max_elem_sep = -1,
      distanceall = distAll, distanceany = distAny, metric = metr, overlap = ovl\<rparr>"

definition make_agg_SGB :: "AggStrategy \<Rightarrow> nat \<Rightarrow> int \<Rightarrow> int \<Rightarrow> Agg_plan" where
  "make_agg_SGB strategy numGroupCols diam sep =
     \<lparr>aggstrategy = strategy, numCols = numGroupCols, max_group_diam = diam, max_elem_sep = sep,
      distanceall = -1, distanceany = 0, metric = 0, overlap = 0\<rparr>"

text \<open>A copied node: the fields that \<^verbatim>\<open>copyfuncs.c\<close> does not copy are zero.\<close>

definition copyAgg :: "Agg_plan \<Rightarrow> Agg_plan" where
  "copyAgg from = from\<lparr>distanceany := 0, metric := 0, overlap := 0\<rparr>"

definition copyGroupClause :: "('q, 'o) GroupClause \<Rightarrow> ('q, 'o) GroupClause" where
  "copyGroupClause from = from\<lparr>overlapValue := 0, distanceanyValue := 0, metricValue := 0\<rparr>"

definition copySelectStmt :: "'n SelectStmt \<Rightarrow> 'n SelectStmt" where
  "copySelectStmt from = from\<lparr>sgb_distanceAll := 0, sgb_hasOverlap := 0, sgb_distanceAny := 0, sgb_metric := 0\<rparr>"

section \<open>Planning\<close>

text \<open>The parameters of the first grouping clause. Without a grouping clause \<open>AROUND\<close> dereferences
  a null subquery: \<open>None\<close>.\<close>

record 'q sgb_params =
  subquery_around :: "'q option"
  par_max_group_diam :: int
  par_max_elem_sep :: int
  par_distanceall :: int
  par_overlap :: int
  par_distanceany :: int
  par_metric :: int

definition no_params :: "'q sgb_params" where
  "no_params = \<lparr>subquery_around = None, par_max_group_diam = -1, par_max_elem_sep = -1, par_distanceall = -1,
     par_overlap = -1, par_distanceany = -1, par_metric = -1\<rparr>"

definition sgb_parameters :: "Query \<Rightarrow> ('q, 'o) GroupClause list \<Rightarrow> 'q sgb_params option" where
  "sgb_parameters parse groupClause =
     (if hasAroundSGB parse
      then (case groupClause of
              gc # _ \<Rightarrow> (case aroundRefPointsSubquery gc of
                          None \<Rightarrow> None
                        | Some q \<Rightarrow> Some (no_params\<lparr>subquery_around := Some q, par_max_group_diam := gc_max_group_diam gc,
                                                    par_max_elem_sep := gc_max_elem_sep gc\<rparr>))
            | [] \<Rightarrow> None)
      else Some (case groupClause of
          [] \<Rightarrow> no_params
        | gc # _ \<Rightarrow>
            if hasUnsupervisedSGB parse
            then no_params\<lparr>par_max_group_diam := gc_max_group_diam gc, par_max_elem_sep := gc_max_elem_sep gc\<rparr>
            else if hasDistAll parse
            then no_params\<lparr>par_distanceall := gc_distanceall gc, par_overlap := overlapValue gc, par_metric := metricValue gc\<rparr>
            else if hasDistAny parse
            then no_params\<lparr>par_distanceany := distanceanyValue gc, par_metric := metricValue gc\<rparr>
            else no_params))"

text \<open>What the planner knows besides: the setting \<open>enable_hashagg\<close>, the answer of
  \<open>choose_hashed_grouping\<close>, whether the input is sorted on the first or on all grouping columns,
  and whether the query has aggregates and \<open>HAVING\<close>.\<close>

record planner_env =
  enable_hashagg :: bool
  choose_hashed_grouping :: bool
  sgb_pathkeys_contained :: bool
  pathkeys_contained :: bool
  hasAggs :: bool
  hasHavingQual :: bool

definition use_hashed_grouping :: "planner_env \<Rightarrow> Query \<Rightarrow> ('q, 'o) GroupClause list \<Rightarrow> bool" where
  "use_hashed_grouping env parse groupClause =
     (if groupClause = [] then False
      else if hasAroundSGB parse \<or> hasUnsupervisedSGB parse then enable_hashagg env
      else if hasDistAll parse \<or> hasDistAny parse then False
      else choose_hashed_grouping env)"

datatype sort_step = No_sort | Sort_first_group_col | Sort_group_cols

text \<open>The grouping node with the inner plan of the centres, planned from the subquery. A \<open>Group\<close>
  node has no aggregates.\<close>

datatype 'q group_node =
    Agg_node Agg_plan "'q option"
  | Group_node nat int int "'q option"
  | Result_node
  | No_node

definition plan_grouping :: "planner_env \<Rightarrow> Query \<Rightarrow> ('q, 'o) GroupClause list \<Rightarrow> 'q sgb_params \<Rightarrow> sort_step \<times> 'q group_node" where
  "plan_grouping env parse groupClause par =
     (let n = length groupClause
      in if use_hashed_grouping env parse groupClause
         then if hasAroundSGB parse \<or> hasUnsupervisedSGB parse
              then (if sgb_pathkeys_contained env then No_sort else Sort_first_group_col,
                    Agg_node (make_agg_SGB AGG_HASHED n (par_max_group_diam par) (par_max_elem_sep par)) (subquery_around par))
              else (No_sort, Agg_node (make_agg AGG_HASHED n) None)
         else if hasAggs env
         then let sort = (if groupClause \<noteq> [] \<and> \<not> pathkeys_contained env \<and> \<not> hasDistAll parse then Sort_group_cols else No_sort);
                  strategy = (if groupClause \<noteq> [] then AGG_SORTED else AGG_PLAIN)
              in (sort,
                  if hasAroundSGB parse
                  then Agg_node (make_agg_SGB strategy n (par_max_group_diam par) (par_max_elem_sep par)) (subquery_around par)
                  else if hasDistAll parse \<or> hasDistAny parse
                  then Agg_node (make_agg_SGB_DIST AGG_HASHED n (par_distanceall par) (par_overlap par)
                         (par_distanceany par) (par_metric par)) None
                  else Agg_node (make_agg strategy n) None)
         else if groupClause \<noteq> []
         then (if pathkeys_contained env then No_sort else Sort_group_cols,
               if hasAroundSGB parse
               then Group_node n (par_max_group_diam par) (par_max_elem_sep par) (subquery_around par)
               else Group_node n (-1) (-1) None)
         else (No_sort, if hasHavingQual env then Result_node else No_node))"

definition plan_query :: "('n \<Rightarrow> 'q option) \<Rightarrow> (nat \<Rightarrow> 'o) \<Rightarrow> planner_env \<Rightarrow> 'n SelectStmt \<Rightarrow> nat list \<Rightarrow> (nat \<times> 'o) list \<Rightarrow>
    (sort_step \<times> 'q group_node) option" where
  "plan_query analyze ordering_oper env stmt grouplist sortClause =
     do { (qry, clauses) \<leftarrow> transformGroupClause analyze ordering_oper stmt grouplist sortClause;
          par \<leftarrow> sgb_parameters qry clauses;
          Some (plan_grouping env qry clauses par) }"

section \<open>Grouping clauses\<close>

definition clause_subquery :: "('n \<Rightarrow> 'q option) \<Rightarrow> 'n SelectStmt \<Rightarrow> nat \<Rightarrow> 'q option" where
  "clause_subquery analyze stmt i = (if i = 0 then Option.bind (aroundSelectStmt stmt) analyze else None)"

text \<open>The clauses of the items (an entry and its sort operator), numbered.\<close>

definition clauses_of :: "('n \<Rightarrow> 'q option) \<Rightarrow> 'n SelectStmt \<Rightarrow> (nat \<times> 'o) list \<Rightarrow> ('q, 'o) GroupClause list" where
  "clauses_of analyze stmt items =
     map (\<lambda>(i, tle, op). make_group_clause tle op (clause_subquery analyze stmt i) stmt) (enumerate 0 items)"

lemma clauses_of_Nil [simp]: "clauses_of analyze stmt [] = []"
  by (simp add: clauses_of_def)

lemma clauses_of_snoc: "clauses_of analyze stmt (items @ [(tle, op)]) =
    clauses_of analyze stmt items @ [make_group_clause tle op (clause_subquery analyze stmt (length items)) stmt]"
  by (simp add: clauses_of_def enumerate_append_eq)

lemma length_clauses_of [simp]: "length (clauses_of analyze stmt items) = length items"
  by (simp add: clauses_of_def)

lemma clauses_of_empty [simp]: "clauses_of analyze stmt items = [] \<longleftrightarrow> items = []"
  by (simp add: clauses_of_def enumerate_eq_zip)

lemma refs_clauses_of [simp]: "map tleSortGroupRef (clauses_of analyze stmt items) = map fst items"
  by (rule nth_equalityI) (simp_all add: clauses_of_def nth_enumerate_eq make_group_clause_def split: prod.split)

lemma set_refs_clauses_of [simp]: "tleSortGroupRef ` set (clauses_of analyze stmt items) = fst ` set items"
  using refs_clauses_of [of analyze stmt items] by (metis list.set_map)

text \<open>The analysis of the subselect succeeds.\<close>

definition analyzable :: "('n \<Rightarrow> 'q option) \<Rightarrow> 'n SelectStmt \<Rightarrow> bool" where
  "analyzable analyze stmt \<longleftrightarrow> (case aroundSelectStmt stmt of None \<Rightarrow> True | Some n \<Rightarrow> analyze n \<noteq> None)"

lemma flags_around [simp]: "hasAroundSGB (set_sgb_flags stmt new_query) \<longleftrightarrow> aroundSelectStmt stmt \<noteq> None"
  by (simp add: set_sgb_flags_def new_query_def)

lemma append_clause:
  assumes "analyzable analyze stmt"
  shows "append_group_clause analyze stmt (set_sgb_flags stmt new_query) tle op (clauses_of analyze stmt items) =
    Some (clauses_of analyze stmt (items @ [(tle, op)]))"
  using assms
  by (auto simp: append_group_clause_def clauses_of_snoc clause_subquery_def analyzable_def split: option.splits)

lemma order_by_prefix_ok:
  assumes "analyzable analyze stmt" "distinct (map fst sortClause)"
  shows "\<exists>k tles'. order_by_prefix analyze stmt (set_sgb_flags stmt new_query) sortClause tles (clauses_of analyze stmt items) =
      Some (clauses_of analyze stmt (items @ take k sortClause), tles') \<and>
    fst ` set (take k sortClause) \<union> set tles' = set tles"
  using assms(2)
proof (induction sortClause arbitrary: tles items)
  case Nil
  show ?case by (intro exI [of _ 0] exI [of _ tles]) simp
next
  case (Cons x sortClause)
  obtain sc op where x: "x = (sc, op)" by fastforce
  show ?case
  proof (cases "sc \<in> set tles")
    case True
    obtain k tles' where k: "order_by_prefix analyze stmt (set_sgb_flags stmt new_query) sortClause (remove1 sc tles)
          (clauses_of analyze stmt (items @ [(sc, op)])) =
        Some (clauses_of analyze stmt ((items @ [(sc, op)]) @ take k sortClause), tles')"
      "fst ` set (take k sortClause) \<union> set tles' = set (remove1 sc tles)"
      using Cons.IH [of "remove1 sc tles" "items @ [(sc, op)]"] Cons.prems by auto
    have "insert sc (set (remove1 sc tles)) = set tles"
      using True set_remove1_subset [of sc tles] in_set_remove1 [of _ sc tles] by blast
    then show ?thesis
      using True k by (intro exI [of _ "Suc k"] exI [of _ tles']) (simp add: x append_clause [OF assms(1)])
  next
    case False
    then show ?thesis by (intro exI [of _ 0] exI [of _ tles]) (simp add: x)
  qed
qed

lemma remaining_items_ok:
  assumes "analyzable analyze stmt" "distinct (map fst items)"
  shows "\<exists>rest. remaining_items analyze oper stmt (set_sgb_flags stmt new_query) tles (clauses_of analyze stmt items) =
      Some (clauses_of analyze stmt (items @ map (\<lambda>t. (t, oper t)) rest)) \<and>
    distinct (map fst items @ rest) \<and> fst ` set items \<union> set rest = fst ` set items \<union> set tles"
  using assms(2)
proof (induction tles arbitrary: items)
  case Nil
  then show ?case by (intro exI [of _ "[]"]) simp
next
  case (Cons t tles)
  show ?case
  proof (cases "t \<in> fst ` set items")
    case True
    then show ?thesis using Cons.IH [OF Cons.prems] by (auto simp: insert_absorb)
  next
    case False
    then have "distinct (map fst (items @ [(t, oper t)]))" using Cons.prems by (auto simp: image_iff)
    from Cons.IH [OF this] obtain rest where
      "remaining_items analyze oper stmt (set_sgb_flags stmt new_query) tles (clauses_of analyze stmt (items @ [(t, oper t)])) =
         Some (clauses_of analyze stmt ((items @ [(t, oper t)]) @ map (\<lambda>t. (t, oper t)) rest))"
      "distinct (map fst (items @ [(t, oper t)]) @ rest)"
      "fst ` set (items @ [(t, oper t)]) \<union> set rest = fst ` set (items @ [(t, oper t)]) \<union> set tles" by blast
    then show ?thesis
      using False by (intro exI [of _ "t # rest"]) (auto simp: append_clause [OF assms(1)])
  qed
qed

lemma transform_items:
  assumes "analyzable analyze stmt" "distinct (map fst sortClause)"
  shows "\<exists>k rest. transformGroupClause analyze oper stmt grouplist sortClause =
      Some (set_sgb_flags stmt new_query, clauses_of analyze stmt (take k sortClause @ map (\<lambda>t. (t, oper t)) rest)) \<and>
    distinct (map fst (take k sortClause) @ rest) \<and> set (map fst (take k sortClause) @ rest) = set grouplist"
proof -
  obtain k tles where k: "order_by_prefix analyze stmt (set_sgb_flags stmt new_query) sortClause grouplist (clauses_of analyze stmt []) =
      Some (clauses_of analyze stmt (take k sortClause), tles)"
    "fst ` set (take k sortClause) \<union> set tles = set grouplist"
    using order_by_prefix_ok [OF assms, of grouplist "[]"] by auto
  have "distinct (map fst (take k sortClause))" using assms(2) by (simp add: take_map [symmetric])
  then obtain rest where r: "remaining_items analyze oper stmt (set_sgb_flags stmt new_query) tles
      (clauses_of analyze stmt (take k sortClause)) =
      Some (clauses_of analyze stmt (take k sortClause @ map (\<lambda>t. (t, oper t)) rest))"
    "distinct (map fst (take k sortClause) @ rest)"
    "fst ` set (take k sortClause) \<union> set rest = fst ` set (take k sortClause) \<union> set tles"
    using remaining_items_ok [OF assms(1)] by blast
  show ?thesis using k r by (intro exI [of _ k] exI [of _ rest]) (simp add: transformGroupClause_def)
qed

lemma transform_length:
  assumes "analyzable analyze stmt" "distinct (map fst sortClause)"
  shows "\<exists>items. transformGroupClause analyze oper stmt grouplist sortClause =
      Some (set_sgb_flags stmt new_query, clauses_of analyze stmt items) \<and> length items = card (set grouplist)"
proof -
  obtain k rest where kr: "transformGroupClause analyze oper stmt grouplist sortClause =
      Some (set_sgb_flags stmt new_query, clauses_of analyze stmt (take k sortClause @ map (\<lambda>t. (t, oper t)) rest))"
    "distinct (map fst (take k sortClause) @ rest)" "set (map fst (take k sortClause) @ rest) = set grouplist"
    using transform_items [OF assms] by blast
  have "card (set grouplist) = length (map fst (take k sortClause) @ rest)"
    using distinct_card [OF kr(2)] kr(3) by simp
  then show ?thesis using kr(1) by (intro exI [of _ "take k sortClause @ map (\<lambda>t. (t, oper t)) rest"]) simp
qed

text \<open>The analysis builds one grouping clause for every item of \<open>GROUP BY\<close>, without duplicates:
  first a prefix of \<open>ORDER BY\<close> with its sort operators, then the other items with the ordering
  operator of their type. Every clause carries all similarity parameters of the statement; the
  subselect of \<open>AROUND\<close> is in the first clause and in no other. It fails only when the analysis of
  that subselect does.\<close>

theorem transformGroupClause_clauses:
  assumes "analyzable analyze stmt" "distinct (map fst sortClause)"
  shows "\<exists>k rest. transformGroupClause analyze oper stmt grouplist sortClause =
      Some (set_sgb_flags stmt new_query,
        map (\<lambda>(i, tle, op). make_group_clause tle op (if i = 0 then Option.bind (aroundSelectStmt stmt) analyze else None) stmt)
          (enumerate 0 (take k sortClause @ map (\<lambda>t. (t, oper t)) rest))) \<and>
    distinct (map fst (take k sortClause) @ rest) \<and> set (map fst (take k sortClause) @ rest) = set grouplist"
  using transform_items [OF assms, of oper grouplist] unfolding clauses_of_def clause_subquery_def by simp

definition demo_stmt :: "unit SelectStmt" where
  "demo_stmt = \<lparr>aroundSelectStmt = None, sgb_MaxGroupDiam = -1, sgb_MaxElemSep = -1, sgb_distanceAll = 3,
     sgb_hasOverlap = 1, sgb_distanceAny = -1, sgb_metric = 2\<rparr>"

lemma transformGroupClause_clauses_witness:
  "\<exists>k rest. transformGroupClause (\<lambda>n. Some n) (\<lambda>_. True) (demo_stmt\<lparr>aroundSelectStmt := Some ()\<rparr>) [5, 7, 5] [(7, False)] =
      Some (set_sgb_flags (demo_stmt\<lparr>aroundSelectStmt := Some ()\<rparr>) new_query,
        map (\<lambda>(i, tle, op). make_group_clause tle op (if i = 0 then Option.bind (aroundSelectStmt (demo_stmt\<lparr>aroundSelectStmt := Some ()\<rparr>)) (\<lambda>n. Some n) else None)
             (demo_stmt\<lparr>aroundSelectStmt := Some ()\<rparr>))
          (enumerate 0 (take k [(7, False)] @ map (\<lambda>t. (t, True)) rest))) \<and>
    distinct (map fst (take k [(7, False)]) @ rest) \<and> set (map fst (take k [(7, False)]) @ rest) = set [5, 7, 5]"
  by (rule transformGroupClause_clauses [where sortClause = "[(7, False)]"]) (simp_all add: analyzable_def)

section \<open>From the statement to the operator\<close>

lemma clauses_of_head:
  "items \<noteq> [] \<Longrightarrow> \<exists>tle op cs. clauses_of analyze stmt items =
     make_group_clause tle op (Option.bind (aroundSelectStmt stmt) analyze) stmt # cs"
  by (cases items) (auto simp: clauses_of_def clause_subquery_def)

lemma planned:
  assumes "analyzable analyze stmt" "distinct (map fst sortClause)" "grouplist \<noteq> []"
  shows "\<exists>tle op cs. transformGroupClause analyze oper stmt grouplist sortClause =
      Some (set_sgb_flags stmt new_query, make_group_clause tle op (Option.bind (aroundSelectStmt stmt) analyze) stmt # cs) \<and>
    Suc (length cs) = card (set grouplist)"
proof -
  obtain items where i: "transformGroupClause analyze oper stmt grouplist sortClause =
      Some (set_sgb_flags stmt new_query, clauses_of analyze stmt items)" "length items = card (set grouplist)"
    using transform_length [OF assms(1,2)] by blast
  have "items \<noteq> []" using i(2) assms(3) by auto
  then obtain tle op cs where c: "clauses_of analyze stmt items =
     make_group_clause tle op (Option.bind (aroundSelectStmt stmt) analyze) stmt # cs" using clauses_of_head by blast
  then have "Suc (length cs) = length items" using length_clauses_of [of analyze stmt items] by simp
  then show ?thesis using i c by auto
qed

lemmas plan_defs = plan_query_def sgb_parameters_def no_params_def make_group_clause_def plan_grouping_def
  use_hashed_grouping_def set_sgb_flags_def new_query_def Let_def

text \<open>C11. A query with \<open>GROUP BY\<close>, aggregates and \<open>DISTANCE-ALL\<close> (or, without it,
  \<open>DISTANCE-ANY\<close>), and without \<open>AROUND\<close>, is planned as a hashed aggregation with one column for
  every item of \<open>GROUP BY\<close> and the distance, the metric and the overlap clause of the statement,
  whatever the settings of the planner, and \<open>ExecAgg\<close> runs it with the operator SGB-All (SGB-Any).
  The limits of a group are dropped.\<close>

theorem plan_query_distance:
  assumes "aroundSelectStmt stmt = None" "distinct (map fst sortClause)" "grouplist \<noteq> []" "hasAggs env"
    "sgb_distanceAll stmt \<noteq> -1 \<or> sgb_distanceAny stmt \<noteq> -1"
  shows "\<exists>sort node. plan_query analyze oper env stmt grouplist sortClause = Some (sort, Agg_node node None) \<and>
      numCols node = card (set grouplist) \<and> metric node = sgb_metric stmt \<and>
      (if sgb_distanceAll stmt \<noteq> -1
       then distanceall node = sgb_distanceAll stmt \<and> overlap node = sgb_hasOverlap stmt \<and>
         ExecAgg aenv node st None ss =
           Option.bind (agg_fill_hash_table_SGBTOAll (env_scan aenv) (env_acos aenv) node (agg_init aenv) (agg_advance aenv) st ss)
             (hash_rows (env_scan aenv) node (agg_final aenv) (agg_having aenv))
       else distanceany node = sgb_distanceAny stmt \<and>
         ExecAgg aenv node st None ss =
           Option.bind (agg_fill_hash_table_SGBTOANY node (agg_init aenv) (agg_advance aenv) st ss)
             (hash_rows (env_scan aenv) node (agg_final aenv) (agg_having aenv)))"
proof -
  have "analyzable analyze stmt" using assms(1) by (simp add: analyzable_def)
  then obtain tle op cs where c: "transformGroupClause analyze oper stmt grouplist sortClause =
      Some (set_sgb_flags stmt new_query, make_group_clause tle op (Option.bind (aroundSelectStmt stmt) analyze) stmt # cs)"
    "Suc (length cs) = card (set grouplist)" using planned [OF _ assms(2,3)] by blast
  show ?thesis
  proof (cases "sgb_distanceAll stmt = -1")
    case True
    then show ?thesis using assms(1,4,5) c by (simp add: plan_defs make_agg_SGB_DIST_def ExecAgg_def exec_hashed_plain_def)
  next
    case False
    then show ?thesis using assms(1,4) c by (simp add: plan_defs make_agg_SGB_DIST_def ExecAgg_def exec_hashed_plain_def)
  qed
qed

definition demo_planner :: planner_env where
  "demo_planner = \<lparr>enable_hashagg = True, choose_hashed_grouping = True, sgb_pathkeys_contained = False,
     pathkeys_contained = False, hasAggs = True, hasHavingQual = False\<rparr>"

lemma plan_query_distance_witness:
  "\<exists>sort node. plan_query (\<lambda>n. Some n) (\<lambda>_. True) demo_planner demo_stmt [5, 7] [] = Some (sort, Agg_node node None) \<and>
      numCols node = card (set [5, 7::nat]) \<and> metric node = sgb_metric demo_stmt \<and>
      (if sgb_distanceAll demo_stmt \<noteq> -1
       then distanceall node = sgb_distanceAll demo_stmt \<and> overlap node = sgb_hasOverlap demo_stmt \<and>
         ExecAgg (demo_env [1, 2]) node demo_state None [] =
           Option.bind (agg_fill_hash_table_SGBTOAll (env_scan (demo_env [1, 2])) (env_acos (demo_env [1, 2])) node
               (agg_init (demo_env [1, 2])) (agg_advance (demo_env [1, 2])) demo_state [])
             (hash_rows (env_scan (demo_env [1, 2])) node (agg_final (demo_env [1, 2])) (agg_having (demo_env [1, 2])))
       else distanceany node = sgb_distanceAny demo_stmt \<and>
         ExecAgg (demo_env [1, 2]) node demo_state None [] =
           Option.bind (agg_fill_hash_table_SGBTOANY node (agg_init (demo_env [1, 2])) (agg_advance (demo_env [1, 2])) demo_state [])
             (hash_rows (env_scan (demo_env [1, 2])) node (agg_final (demo_env [1, 2])) (agg_having (demo_env [1, 2]))))"
  by (rule plan_query_distance) (simp_all add: demo_stmt_def demo_planner_def)

text \<open>With \<open>enable_hashagg\<close>, a query with \<open>GROUP BY\<close> and \<open>AROUND\<close>, or with limits and no
  distance, is planned as a hashed aggregation over an input that is sorted on the first grouping
  column, with the plan of the centres as the inner plan and the limits of the statement. \<open>ExecAgg\<close>
  runs it with an operator of \<open>AROUND\<close>, or with unsupervised grouping. The distances of the
  statement are dropped, and aggregates are not needed.\<close>

theorem plan_query_around:
  assumes "analyzable analyze stmt" "distinct (map fst sortClause)" "grouplist \<noteq> []" "enable_hashagg env"
    "aroundSelectStmt stmt \<noteq> None \<or> (sgb_distanceAll stmt = -1 \<and> sgb_distanceAny stmt = -1 \<and>
       (sgb_MaxGroupDiam stmt \<noteq> -1 \<or> sgb_MaxElemSep stmt \<noteq> -1))"
  shows "\<exists>sort node. plan_query analyze oper env stmt grouplist sortClause =
        Some (sort, Agg_node node (Option.bind (aroundSelectStmt stmt) analyze)) \<and>
      (sort = Sort_first_group_col \<or> sgb_pathkeys_contained env) \<and> numCols node = card (set grouplist) \<and>
      max_group_diam node = sgb_MaxGroupDiam stmt \<and> max_elem_sep node = sgb_MaxElemSep stmt \<and>
      (if aroundSelectStmt stmt \<noteq> None
       then \<forall>inner. ExecAgg aenv node st (Some inner) ss = exec_hashed_around aenv node st inner ss
       else ExecAgg aenv node st None ss =
         Option.bind (agg_fill_hash_table_unsupervised node (agg_init aenv) (agg_advance aenv) st ss)
           (hash_rows (env_scan aenv) node (agg_final aenv) (agg_having aenv)))"
proof -
  obtain tle op cs where c: "transformGroupClause analyze oper stmt grouplist sortClause =
      Some (set_sgb_flags stmt new_query, make_group_clause tle op (Option.bind (aroundSelectStmt stmt) analyze) stmt # cs)"
    "Suc (length cs) = card (set grouplist)" using planned [OF assms(1-3)] by blast
  show ?thesis
  proof (cases "aroundSelectStmt stmt")
    case None
    then show ?thesis
      using assms(4,5) c by (simp add: plan_defs make_agg_SGB_def ExecAgg_def exec_hashed_plain_def)
  next
    case (Some n)
    then obtain q where "analyze n = Some q" using assms(1) by (auto simp: analyzable_def)
    then show ?thesis using assms(4) c Some by (simp add: plan_defs make_agg_SGB_def ExecAgg_def)
  qed
qed

lemma plan_query_around_witness:
  "let stmt = demo_stmt\<lparr>sgb_distanceAll := -1, sgb_MaxElemSep := 4\<rparr> in
   \<exists>sort node. plan_query (\<lambda>n. Some n) (\<lambda>_. True) demo_planner stmt [5] [] =
        Some (sort, Agg_node node (Option.bind (aroundSelectStmt stmt) (\<lambda>n. Some n))) \<and>
      (sort = Sort_first_group_col \<or> sgb_pathkeys_contained demo_planner) \<and> numCols node = card (set [5::nat]) \<and>
      max_group_diam node = sgb_MaxGroupDiam stmt \<and> max_elem_sep node = sgb_MaxElemSep stmt \<and>
      (if aroundSelectStmt stmt \<noteq> None
       then \<forall>inner. ExecAgg (demo_env [1]) node demo_state (Some inner) [] = exec_hashed_around (demo_env [1]) node demo_state inner []
       else ExecAgg (demo_env [1]) node demo_state None [] =
         Option.bind (agg_fill_hash_table_unsupervised node (agg_init (demo_env [1])) (agg_advance (demo_env [1])) demo_state [])
           (hash_rows (env_scan (demo_env [1])) node (agg_final (demo_env [1])) (agg_having (demo_env [1]))))"
  unfolding Let_def
  by (rule plan_query_around) (simp_all add: demo_stmt_def demo_planner_def analyzable_def)

section \<open>Queries whose clauses are dropped\<close>

text \<open>Without aggregates a distance is planned as the standard \<open>Group\<close> node.\<close>

lemma plan_group_node:
  assumes "aroundSelectStmt stmt = None" "distinct (map fst sortClause)" "grouplist \<noteq> []" "\<not> hasAggs env"
    "sgb_distanceAll stmt \<noteq> -1 \<or> sgb_distanceAny stmt \<noteq> -1"
  shows "plan_query analyze oper env stmt grouplist sortClause =
    Some (if pathkeys_contained env then No_sort else Sort_group_cols, Group_node (card (set grouplist)) (-1) (-1) None)"
proof -
  have "analyzable analyze stmt" using assms(1) by (simp add: analyzable_def)
  then obtain tle op cs where "transformGroupClause analyze oper stmt grouplist sortClause =
      Some (set_sgb_flags stmt new_query, make_group_clause tle op (Option.bind (aroundSelectStmt stmt) analyze) stmt # cs)"
    "Suc (length cs) = card (set grouplist)" using planned [OF _ assms(2,3)] by blast
  then show ?thesis using assms(1,4,5) by (simp add: plan_defs)
qed

text \<open>\<open>AROUND\<close> without \<open>GROUP BY\<close> follows a null subquery.\<close>

lemma plan_query_around_no_group:
  "aroundSelectStmt stmt \<noteq> None \<Longrightarrow> plan_query analyze oper env stmt [] [] = None"
  by (simp add: plan_defs transformGroupClause_def)

text \<open>With hashed aggregation switched off, \<open>AROUND\<close> without aggregates is a \<open>Group\<close> node as well; its
  limits and its subselect are there, but no code of the node looks at them.\<close>

lemma plan_around_group_node:
  assumes "analyzable analyze stmt" "distinct (map fst sortClause)" "grouplist \<noteq> []" "\<not> hasAggs env" "\<not> enable_hashagg env"
    "aroundSelectStmt stmt \<noteq> None"
  shows "\<exists>sort. plan_query analyze oper env stmt grouplist sortClause =
    Some (sort, Group_node (card (set grouplist)) (sgb_MaxGroupDiam stmt) (sgb_MaxElemSep stmt)
            (Option.bind (aroundSelectStmt stmt) analyze))"
proof -
  obtain tle op cs where c: "transformGroupClause analyze oper stmt grouplist sortClause =
      Some (set_sgb_flags stmt new_query, make_group_clause tle op (Option.bind (aroundSelectStmt stmt) analyze) stmt # cs)"
    "Suc (length cs) = card (set grouplist)" using planned [OF assms(1-3)] by blast
  obtain n q where "aroundSelectStmt stmt = Some n" "analyze n = Some q"
    using assms(1,6) by (auto simp: analyzable_def)
  then show ?thesis using assms(4,5) c by (simp add: plan_defs)
qed

section \<open>Copied nodes\<close>

text \<open>A copied plan of a standard hashed aggregation - a prepared statement or a cursor - is run
  as SGB-Any with distance 0, since the copy does not keep \<open>distanceany\<close>.\<close>

theorem copyAgg_standard_runs_SGB_Any:
  "ExecAgg env (copyAgg (make_agg AGG_HASHED n)) st None ss =
     Option.bind (agg_fill_hash_table_SGBTOANY (copyAgg (make_agg AGG_HASHED n)) (agg_init env) (agg_advance env) st ss)
       (hash_rows (env_scan env) (copyAgg (make_agg AGG_HASHED n)) (agg_final env) (agg_having env))"
  by (simp add: ExecAgg_def exec_hashed_plain_def copyAgg_def make_agg_def Let_def)

text \<open>With distance 0 \<open>ExecInitAgg\<close> allocates no disjoint sets, and the first tuple is inserted
  through the NULL pointer.\<close>

theorem copyAgg_standard_fails:
  assumes "ss \<noteq> []"
  shows "ExecAgg env (copyAgg (make_agg AGG_HASHED n)) (ExecInitAgg_state (copyAgg (make_agg AGG_HASHED n)) junk st) None ss = None"
proof -
  have "distanceany (copyAgg (make_agg AGG_HASHED n)) = 0" by (simp add: copyAgg_def)
  from any_zero_distance [OF this assms, of junk st] show ?thesis
    by (simp only: copyAgg_standard_runs_SGB_Any agg_fill_hash_table_SGBTOANY_def option.case Option.bind.simps(1))
qed

lemma copyAgg_standard_fails_witness:
  "ExecAgg (demo_env [1, 2]) (copyAgg (make_agg AGG_HASHED 2))
     (ExecInitAgg_state (copyAgg (make_agg AGG_HASHED 2)) (\<lambda>_. blank_element) demo_state) None [slot_of [1, 2]] = None"
  by (rule copyAgg_standard_fails) simp

text \<open>A copied sorted or plain aggregation runs as the original.\<close>

lemma copyAgg_direct: "aggstrategy node \<le> AGG_SORTED \<Longrightarrow> ExecAgg env (copyAgg node) st right ss = ExecAgg env node st right ss"
  by (rule ExecAgg_direct_cong) (simp_all add: copyAgg_def)

lemma copyAgg_standard_distance: "distanceany (copyAgg node) = 0" "distanceall (copyAgg node) = distanceall node"
  by (simp_all add: copyAgg_def)

text \<open>The operator has no branch for the overlap value 0.\<close>

lemma ExecAgg_no_overlap:
  assumes "overlap node \<notin> {1, 2, 3}" "distanceall node \<noteq> -1" "aggstrategy node = AGG_HASHED"
    "max_group_diam node = -1" "max_elem_sep node = -1" "all_start st" "scan_ok (env_scan env)"
  shows "ExecAgg env node st None ss = Some []"
proof -
  obtain st' where st': "agg_fill_hash_table_SGBTOAll (env_scan env) (env_acos env) node (agg_init env) (agg_advance env) st ss = Some st'"
    "dom (hashtable st') = {}"
    using SGBTOAll_duplicate_ignored [OF assms(1,6)] by blast
  have "set (env_scan env (hashtable st')) = {}" using assms(7) st'(2) by (simp add: scan_ok_def)
  then show ?thesis using assms st' by (simp add: ExecAgg_def exec_hashed_plain_def hash_rows_def Let_def)
qed

text \<open>A copied plan of \<open>DISTANCE-ALL\<close> returns no row, for any input, distance and overlap
  clause: the copy has the overlap value 0, for which the operator has no branch.\<close>

theorem copyAgg_distance_all_empty:
  assumes "distAll \<noteq> -1" "all_start st" "scan_ok (env_scan env)"
  shows "ExecAgg env (copyAgg (make_agg_SGB_DIST AGG_HASHED n distAll ovl distAny metr)) st None ss = Some []"
  using assms by (intro ExecAgg_no_overlap) (simp_all add: copyAgg_def make_agg_SGB_DIST_def)

lemma copyAgg_distance_all_empty_witness:
  "ExecAgg (demo_env [1, 2]) (copyAgg (make_agg_SGB_DIST AGG_HASHED 2 10 1 (-1) 2)) demo_state None [slot_of [1, 2]] = Some []"
  by (rule copyAgg_distance_all_empty) (simp_all add: all_start_def demo_state_def demo_env_def sorted_scan_ok)

text \<open>The same for the clauses of a copied query.\<close>

lemma copyGroupClause_distance_all:
  assumes "hasDistAll qry" "\<not> hasAroundSGB qry" "\<not> hasUnsupervisedSGB qry"
  shows "sgb_parameters qry (map copyGroupClause (gc # gcs)) =
    Some (no_params\<lparr>par_distanceall := gc_distanceall gc, par_overlap := 0, par_metric := 0\<rparr>)"
  using assms by (simp add: sgb_parameters_def copyGroupClause_def)

end
