(* ===== verification/QueryRun.thy ===== *)
theory QueryRun
  imports SGBPlanner
begin

text \<open>
  Whole queries: from the clauses of the statement through planning to the rows that \<open>ExecAgg\<close>
  returns.
\<close>

lemma plan_distance_all:
  assumes "aroundSelectStmt stmt = None" "distinct (map fst sortClause)" "grouplist \<noteq> []" "hasAggs env" "sgb_distanceAll stmt \<noteq> -1"
  shows "plan_query analyze oper env stmt grouplist sortClause =
    Some (No_sort, Agg_node (make_agg_SGB_DIST AGG_HASHED (card (set grouplist)) (sgb_distanceAll stmt) (sgb_hasOverlap stmt) (-1)
      (sgb_metric stmt)) None)"
proof -
  have "analyzable analyze stmt" using assms(1) by (simp add: analyzable_def)
  then obtain tle op cs where "transformGroupClause analyze oper stmt grouplist sortClause =
      Some (set_sgb_flags stmt new_query, make_group_clause tle op (Option.bind (aroundSelectStmt stmt) analyze) stmt # cs)"
    "Suc (length cs) = card (set grouplist)" using planned [OF _ assms(2,3)] by blast
  then show ?thesis using assms(1,4,5) by (simp add: plan_defs)
qed

lemma exec_distance_all:
  assumes "aggstrategy node = AGG_HASHED" "max_group_diam node = -1" "max_elem_sep node = -1" "distanceall node \<noteq> -1"
    "agg_fill_hash_table_SGBTOAll (env_scan aenv) (env_acos aenv) node (agg_init aenv) (agg_advance aenv) st ss = Some st'"
    "agg_retrieve_hash_table node (agg_final aenv) (\<lambda>k. agg_having aenv (Some k)) (env_scan aenv (hashtable st')) st' = Some rows"
  shows "ExecAgg aenv node st None ss = Some (map (\<lambda>(k, r). (Some k, r)) rows)"
  using assms by (simp add: ExecAgg_def exec_hashed_plain_def hash_rows_def)

lemma distance_all_any_rows:
  assumes "aroundSelectStmt stmt = None" "distinct (map fst sortClause)" "card (set grouplist) = 2" "hasAggs env"
    "eps_ok (sgb_distanceAll stmt)" "sgb_metric stmt = 1" "sgb_hasOverlap stmt = 1"
    "list_all (\<lambda>s. slot_ok s) ss" "length ss \<le> sizeofgroup" "scan_ok (env_scan aenv)"
  shows "\<exists>sort node rows gs. plan_query analyze oper env stmt grouplist sortClause = Some (sort, Agg_node node None) \<and>
    ExecAgg aenv node (ExecInitAgg_state node junk st) None ss = Some rows \<and> mset (concat gs) = mset ss \<and>
    (\<forall>g\<in>set gs. clique (sgb_distanceAll stmt) (point_of ` set g)) \<and>
    mset rows = filter_mset (\<lambda>(k, r). agg_having aenv k r)
      (image_mset (\<lambda>g. (Some (group_key g), agg_final aenv (fold (agg_advance aenv) g (agg_init aenv)))) (mset gs))"
proof -
  let ?node = "make_agg_SGB_DIST AGG_HASHED 2 (sgb_distanceAll stmt) (sgb_hasOverlap stmt) (-1) (sgb_metric stmt)"
  have ne: "grouplist \<noteq> []" "sgb_distanceAll stmt \<noteq> -1" using assms(3,5) by (auto simp: eps_ok_iff)
  have plan: "plan_query analyze oper env stmt grouplist sortClause = Some (No_sort, Agg_node ?node None)"
    using plan_distance_all [OF assms(1,2) ne(1) assms(4) ne(2), of analyze oper] assms(3) by simp
  have node: "all_plan ?node" "metric ?node = 1" "overlap ?node = 1" "overlap ?node \<noteq> 2" "distanceall ?node = sgb_distanceAll stmt"
    "aggstrategy ?node = AGG_HASHED" "max_group_diam ?node = -1" "max_elem_sep ?node = -1" "distanceall ?node \<noteq> -1"
    using assms(5-7) ne(2) by (simp_all add: make_agg_SGB_DIST_def all_plan_def)
  obtain st' gs where r: "agg_fill_hash_table_SGBTOAll (env_scan aenv) (env_acos aenv) ?node (agg_init aenv) (agg_advance aenv)
      (ExecInitAgg_state ?node junk st) ss = Some st'"
    "entry_of ?node (agg_init aenv) (agg_advance aenv) gs st'" "reads (all_any (distanceall ?node)) [] ss gs"
    by (rule any_l1_runs [OF node(1-3) plan_start [OF node(1), of junk st] assms(8,9)])
  note stores = entry_stores [OF r(2)]
  note good = all_any_good [OF r(3) plan_eps [OF node(1)]]
  have "finite (dom (hashtable st'))" using stores by (simp add: stores_groups_def)
  then have scan: "distinct (env_scan aenv (hashtable st'))" "set (env_scan aenv (hashtable st')) = dom (hashtable st')"
    using assms(10) by (simp_all add: scan_ok_def)
  obtain rows where rows: "agg_retrieve_hash_table ?node (agg_final aenv) (\<lambda>k. agg_having aenv (Some k)) (env_scan aenv (hashtable st')) st' = Some rows"
    "mset rows = filter_mset (\<lambda>(k, r). agg_having aenv (Some k) r)
       (image_mset (\<lambda>g. (group_key g, agg_final aenv (fold (agg_advance aenv) g (agg_init aenv)))) (mset (map fst gs)))"
    by (rule rows_of_groups [where having = "\<lambda>k. agg_having aenv (Some k)" and final = "agg_final aenv", OF stores node(4) scan])
  have "mset (map (\<lambda>(k, r). (Some k, r)) rows) = filter_mset (\<lambda>(k, r). agg_having aenv k r)
      (image_mset (\<lambda>g. (Some (group_key g), agg_final aenv (fold (agg_advance aenv) g (agg_init aenv)))) (mset (map fst gs)))"
    unfolding mset_map [where xs = rows] rows(2)
    by (simp add: filter_mset_image_mset multiset.map_comp comp_def case_prod_unfold)
  then show ?thesis
    using plan exec_distance_all [OF node(6-9) r(1) rows(1)] good(1,2) node(5) good_clique
    by (intro exI [of _ No_sort] exI [of _ ?node] exI [of _ "map (\<lambda>(k, r). (Some k, r)) rows"] exI [of _ "map fst gs"]) auto
qed

text \<open>The query \<open>GROUP BY x, y DISTANCE-ALL WITHIN e METRIC LONE ON_OVERLAP ANY\<close> with aggregates,
  run as planned, returns without an error for every input of at most 2,000,000 points in range,
  on the node that \<open>ExecInitAgg\<close> sets up; \<open>e\<close> is above 0. Its rows come from
  a partition of the input into groups whose points are pairwise within \<open>e\<close>: one row for every
  group that passes \<open>HAVING\<close>, with its key and the finalised aggregates of exactly its tuples.\<close>

theorem query_distance_all_any:
  assumes "aroundSelectStmt stmt = None" "distinct (map fst sortClause)" "card (set grouplist) = 2" "hasAggs env"
    "eps_ok (sgb_distanceAll stmt)" "sgb_metric stmt = 1" "sgb_hasOverlap stmt = 1"
    "list_all (\<lambda>s. slot_ok s) ss" "length ss \<le> sizeofgroup" "scan_ok (env_scan aenv)"
  shows "\<exists>sort node rows gs. plan_query analyze oper env stmt grouplist sortClause = Some (sort, Agg_node node None) \<and>
    ExecAgg aenv node (ExecInitAgg_state node junk st) None ss = Some rows \<and> mset (concat gs) = mset ss \<and>
    (\<forall>g\<in>set gs. clique (sgb_distanceAll stmt) (point_of ` set g)) \<and>
    mset rows = filter_mset (\<lambda>(k, r). agg_having aenv k r)
      (image_mset (\<lambda>g. (Some (group_key g), agg_final aenv (fold (agg_advance aenv) g (agg_init aenv)))) (mset gs))"
  by (rule distance_all_any_rows [OF assms])

lemma query_distance_all_any_witness:
  "let stmt = demo_stmt\<lparr>sgb_metric := 1\<rparr>; ss = [slot_of [0, 0], slot_of [12, 0], slot_of [2, 3]] in
   \<exists>sort node rows gs. plan_query (\<lambda>n. Some n) (\<lambda>_. True) demo_planner stmt [5, 7] [] = Some (sort, Agg_node node None) \<and>
    ExecAgg (demo_env [1, 2]) node (ExecInitAgg_state node (\<lambda>_. blank_element) demo_state) None ss = Some rows \<and> mset (concat gs) = mset ss \<and>
    (\<forall>g\<in>set gs. clique (sgb_distanceAll stmt) (point_of ` set g)) \<and>
    mset rows = filter_mset (\<lambda>(k, r). agg_having (demo_env [1, 2]) k r)
      (image_mset (\<lambda>g. (Some (group_key g), agg_final (demo_env [1, 2]) (fold (agg_advance (demo_env [1, 2])) g
         (agg_init (demo_env [1, 2]))))) (mset gs))"
  unfolding Let_def
  by (rule query_distance_all_any)
    (simp_all add: demo_stmt_def demo_planner_def demo_env_def eps_ok_iff sorted_scan_ok sizeofgroup_def
      slot_point_def slot2_def slot_of_def pt_ok_def point_of_def)

end
