(* ===== verification/AggEval.thy ===== *)
theory AggEval
  imports SGB_Prelude
begin

text \<open>
  Evaluation of the aggregate functions, \<^verbatim>\<open>executor/nodeAgg.c\<close>: the working state of one
  aggregate in one group, its initialisation, the step for an input tuple, the sorted processing
  for DISTINCT, and the final value. A \<open>Datum\<close> with its null flag is an \<open>option\<close>; an error
  that ends the query is \<open>Inl\<close>. Memory contexts and copies of datums leave no trace: values are
  immutable here.
\<close>

section \<open>Errors\<close>

datatype pg_error =
    Numeric_value_out_of_range
  | Undefined_read
  | Assertion_failed
  | Cache_lookup_failed
  | Permission_denied
  | Invalid_function_definition
  | Feature_not_supported
  | Internal_error

definition bindE :: "'e + 'a \<Rightarrow> ('a \<Rightarrow> 'e + 'b) \<Rightarrow> 'e + 'b" where
  "bindE r f = (case r of Inl e \<Rightarrow> Inl e | Inr x \<Rightarrow> f x)"

lemma bindE_simps [simp]: "bindE (Inl e) f = Inl e" "bindE (Inr x) f = f x"
  by (simp_all add: bindE_def)

lemma bindE_Inr_iff: "bindE r f = Inr y \<longleftrightarrow> (\<exists>x. r = Inr x \<and> f x = Inr y)"
  by (cases r) simp_all

lemma bindE_assoc: "bindE (bindE r f) g = bindE r (\<lambda>x. bindE (f x) g)"
  by (cases r) simp_all

fun mapE :: "('a \<Rightarrow> 'e + 'b) \<Rightarrow> 'a list \<Rightarrow> 'e + 'b list" where
  "mapE f [] = Inr []"
| "mapE f (x # xs) = bindE (f x) (\<lambda>y. bindE (mapE f xs) (\<lambda>ys. Inr (y # ys)))"

lemma mapE_Inr: "mapE f xs = Inr ys \<longleftrightarrow> list_all2 (\<lambda>x y. f x = Inr y) xs ys"
  by (induction xs arbitrary: ys) (auto simp: bindE_Inr_iff list_all2_Cons1)

lemma mapE_cong_Inr: "(\<And>x. x \<in> set xs \<Longrightarrow> f x = Inr (g x)) \<Longrightarrow> mapE f xs = Inr (map g xs)"
  by (induction xs) simp_all

fun foldE :: "('a \<Rightarrow> 'b \<Rightarrow> 'e + 'b) \<Rightarrow> 'a list \<Rightarrow> 'b \<Rightarrow> 'e + 'b" where
  "foldE f [] y = Inr y"
| "foldE f (x # xs) y = bindE (f x y) (foldE f xs)"

lemma foldE_append: "foldE f (xs @ ys) z = bindE (foldE f xs z) (foldE f ys)"
  by (induction xs arbitrary: z) (auto simp: bindE_assoc bindE_def split: sum.split)

lemma foldE_fold:
  assumes "\<And>x y. x \<in> set xs \<Longrightarrow> P y \<Longrightarrow> f x y = Inr (g x y) \<and> P (g x y)" "P y"
  shows "foldE f xs y = Inr (fold g xs y) \<and> P (fold g xs y)"
  using assms by (induction xs arbitrary: y) auto

section \<open>Aggregates\<close>

text \<open>\<open>FmgrInfo\<close>, the looked up function: its strictness and the function itself, from the
  arguments to the result.\<close>

record 'd FmgrInfo =
  fn_strict :: bool
  fn_call :: "'d option list \<Rightarrow> pg_error + 'd option"

text \<open>\<open>AggStatePerAggData\<close>. The arguments are evaluated on the input tuple by \<open>ExecEvalExpr\<close>. The
  final function is \<open>None\<close> when its oid is invalid. For DISTINCT there are the equality operator
  of the input type and what \<open>tuplesort_performsort\<close> makes of the values put into the sort
  object.\<close>

record 'd AggStatePerAgg =
  aggargs :: "(slot \<Rightarrow> pg_error + 'd option) list"
  aggdistinct :: bool
  transfn :: "'d FmgrInfo"
  finalfn :: "'d FmgrInfo option"
  initValue :: "'d option"
  equalfn :: "'d \<Rightarrow> 'd \<Rightarrow> bool"
  performsort :: "'d list \<Rightarrow> 'd list"

text \<open>\<open>AggStatePerGroupData\<close>, and the values in the sort object of a DISTINCT aggregate. The sort
  object is a field of \<open>AggStatePerAggData\<close> in C; as only one group is open when DISTINCT is
  allowed, started by \<open>initialize_aggregates\<close> and ended with the group, it is kept with the group
  here.\<close>

record 'd AggStatePerGroup =
  transValue :: "'d option"
  noTransValue :: bool
  sortstate :: "'d list"

definition initialize_aggregate :: "'d AggStatePerAgg \<Rightarrow> 'd AggStatePerGroup" where
  "initialize_aggregate pa = \<lparr>transValue = initValue pa, noTransValue = (initValue pa = None), sortstate = []\<rparr>"

definition initialize_aggregates :: "'d AggStatePerAgg list \<Rightarrow> 'd AggStatePerGroup list" where
  "initialize_aggregates peragg = map initialize_aggregate peragg"

text \<open>\<open>vs\<close> are the arguments 1 and up. A strict function without an argument and without a
  transition value would read \<open>arg[1]\<close> uninitialised; \<open>ExecInitAgg\<close> excludes it.\<close>

definition advance_transition_function ::
    "'d AggStatePerAgg \<Rightarrow> 'd AggStatePerGroup \<Rightarrow> 'd option list \<Rightarrow> pg_error + 'd AggStatePerGroup" where
  "advance_transition_function pa pg vs =
     (if fn_strict (transfn pa) \<and> None \<in> set vs then Inr pg
      else if fn_strict (transfn pa) \<and> noTransValue pg then
        (case vs of [] \<Rightarrow> Inl Undefined_read
         | v # _ \<Rightarrow> Inr (pg\<lparr>transValue := v, noTransValue := False\<rparr>))
      else if fn_strict (transfn pa) \<and> transValue pg = None then Inr pg
      else bindE (fn_call (transfn pa) (transValue pg # vs)) (\<lambda>newVal. Inr (pg\<lparr>transValue := newVal\<rparr>)))"

definition advance_aggregate :: "slot \<Rightarrow> 'd AggStatePerAgg \<times> 'd AggStatePerGroup \<Rightarrow> pg_error + 'd AggStatePerGroup" where
  "advance_aggregate s = (\<lambda>(pa, pg).
     bindE (mapE (\<lambda>a. a s) (aggargs pa)) (\<lambda>vs.
       if aggdistinct pa then
         (case vs of [] \<Rightarrow> Inl Undefined_read
          | None # _ \<Rightarrow> Inr pg
          | Some v # _ \<Rightarrow> Inr (pg\<lparr>sortstate := sortstate pg @ [v]\<rparr>))
       else advance_transition_function pa pg vs))"

definition advance_aggregates ::
    "'d AggStatePerAgg list \<Rightarrow> slot \<Rightarrow> 'd AggStatePerGroup list \<Rightarrow> pg_error + 'd AggStatePerGroup list" where
  "advance_aggregates peragg s pergroup = mapE (advance_aggregate s) (zip peragg pergroup)"

text \<open>The loop over the sorted values; the sort object holds no nulls.\<close>

fun distinct_values :: "'d AggStatePerAgg \<Rightarrow> 'd option \<Rightarrow> 'd list \<Rightarrow> 'd AggStatePerGroup \<Rightarrow> pg_error + 'd AggStatePerGroup" where
  "distinct_values pa oldVal [] pg = Inr pg"
| "distinct_values pa oldVal (newVal # vs) pg =
     (if (case oldVal of None \<Rightarrow> False | Some old \<Rightarrow> equalfn pa old newVal)
      then distinct_values pa oldVal vs pg
      else bindE (advance_transition_function pa pg [Some newVal]) (distinct_values pa (Some newVal) vs))"

definition process_sorted_aggregate :: "'d AggStatePerAgg \<Rightarrow> 'd AggStatePerGroup \<Rightarrow> pg_error + 'd AggStatePerGroup" where
  "process_sorted_aggregate pa pg =
     bindE (distinct_values pa None (performsort pa (sortstate pg)) pg) (\<lambda>pg'. Inr (pg'\<lparr>sortstate := []\<rparr>))"

definition finalize_aggregate :: "'d AggStatePerAgg \<Rightarrow> 'd AggStatePerGroup \<Rightarrow> pg_error + 'd option" where
  "finalize_aggregate pa pg =
     (case finalfn pa of
        None \<Rightarrow> Inr (transValue pg)
      | Some fn \<Rightarrow> if fn_strict fn \<and> transValue pg = None then Inr None else fn_call fn [transValue pg])"

text \<open>The final values of a group, as \<open>agg_retrieve_direct\<close> and \<open>agg_retrieve_hash_table\<close> compute
  them; DISTINCT does not occur in a hash table (\<open>Assert(!aggref->aggdistinct)\<close>).\<close>

definition finalize_direct :: "'d AggStatePerAgg list \<Rightarrow> 'd AggStatePerGroup list \<Rightarrow> pg_error + 'd option list" where
  "finalize_direct peragg pergroup =
     mapE (\<lambda>(pa, pg). if aggdistinct pa then bindE (process_sorted_aggregate pa pg) (finalize_aggregate pa)
                      else finalize_aggregate pa pg) (zip peragg pergroup)"

definition finalize_hashed :: "'d AggStatePerAgg list \<Rightarrow> 'd AggStatePerGroup list \<Rightarrow> pg_error + 'd option list" where
  "finalize_hashed peragg pergroup =
     mapE (\<lambda>(pa, pg). if aggdistinct pa then Inl Assertion_failed else finalize_aggregate pa pg) (zip peragg pergroup)"

text \<open>The three parameters of the operators: an error that was raised stays.\<close>

definition run_init :: "'d AggStatePerAgg list \<Rightarrow> pg_error + 'd AggStatePerGroup list" where
  "run_init peragg = Inr (initialize_aggregates peragg)"

definition run_advance ::
    "'d AggStatePerAgg list \<Rightarrow> slot \<Rightarrow> pg_error + 'd AggStatePerGroup list \<Rightarrow> pg_error + 'd AggStatePerGroup list" where
  "run_advance peragg s r = bindE r (advance_aggregates peragg s)"

end
