(* ===== verification/AggBuiltin.thy ===== *)
theory AggBuiltin
  imports AggEval
begin

text \<open>
  The aggregate functions over \<open>int4\<close> columns and \<open>count\<close>: their transition and final functions
  (\<^verbatim>\<open>utils/adt/int8.c\<close>, \<^verbatim>\<open>utils/adt/int.c\<close>, \<^verbatim>\<open>utils/adt/numeric.c\<close>), their rows in
  \<^verbatim>\<open>include/catalog/pg_aggregate.h\<close>, and what they compute. The contract of an aggregate is the
  locale \<open>aggregate\<close>: on the inputs it accepts it computes a function of the tuples of the group,
  and their order does not matter.
\<close>

section \<open>64-bit arithmetic\<close>

definition int64 :: "int \<Rightarrow> bool" where
  "int64 x \<longleftrightarrow> -9223372036854775808 \<le> x \<and> x \<le> 9223372036854775807"

definition i64 :: "int \<Rightarrow> int" where
  "i64 x = (x + 9223372036854775808) mod 18446744073709551616 - 9223372036854775808"

definition add64 :: "int \<Rightarrow> int \<Rightarrow> int" where
  "add64 a b = i64 (a + b)"

lemma i64_id: "int64 x \<Longrightarrow> i64 x = x"
  by (simp add: int64_def i64_def)

lemma add64_eq: "int64 (a + b) \<Longrightarrow> add64 a b = a + b"
  by (simp add: add64_def i64_id)

lemma add64_mod: "add64 a b mod 18446744073709551616 = (a + b) mod 18446744073709551616"
  by (simp add: add64_def i64_def mod_diff_left_eq)

section \<open>Functions\<close>

text \<open>\<open>Int8TransType\<close> is the array of the count and the sum of \<open>avg\<close>. The function manager
  passes each function values of its declared types.\<close>

datatype 'n datum = Int4 int | Int8 int | Int8TransType int int | Numeric 'n

definition int4_datum :: "int \<times> bool \<Rightarrow> 'n datum option" where
  "int4_datum = (\<lambda>(v, isnull). if isnull then None else Some (Int4 v))"

definition int8inc :: "'n datum option list \<Rightarrow> pg_error + 'n datum option" where
  "int8inc vs =
     (case vs of Some (Int8 arg) # _ \<Rightarrow>
        let result = add64 arg 1
        in if result < 0 \<and> arg > 0 then Inl Numeric_value_out_of_range else Inr (Some (Int8 result))
      | _ \<Rightarrow> Inl Internal_error)"

definition int8inc_any :: "'n datum option list \<Rightarrow> pg_error + 'n datum option" where
  "int8inc_any vs = int8inc vs"

fun int4larger :: "'n datum option list \<Rightarrow> pg_error + 'n datum option" where
  "int4larger [Some (Int4 arg1), Some (Int4 arg2)] = Inr (Some (Int4 (if arg1 > arg2 then arg1 else arg2)))"
| "int4larger _ = Inl Internal_error"

fun int4smaller :: "'n datum option list \<Rightarrow> pg_error + 'n datum option" where
  "int4smaller [Some (Int4 arg1), Some (Int4 arg2)] = Inr (Some (Int4 (if arg1 < arg2 then arg1 else arg2)))"
| "int4smaller _ = Inl Internal_error"

fun int4_sum :: "'n datum option list \<Rightarrow> pg_error + 'n datum option" where
  "int4_sum [None, None] = Inr None"
| "int4_sum [None, Some (Int4 v)] = Inr (Some (Int8 v))"
| "int4_sum [Some (Int8 oldsum), None] = Inr (Some (Int8 oldsum))"
| "int4_sum [Some (Int8 oldsum), Some (Int4 v)] = Inr (Some (Int8 (add64 oldsum v)))"
| "int4_sum _ = Inl Internal_error"

fun int4_avg_accum :: "'n datum option list \<Rightarrow> pg_error + 'n datum option" where
  "int4_avg_accum [Some (Int8TransType n s), Some (Int4 newval)] = Inr (Some (Int8TransType (add64 n 1) (add64 s newval)))"
| "int4_avg_accum _ = Inl Internal_error"

text \<open>\<open>int8_numeric\<close> and \<open>numeric_div\<close> are parameters.\<close>

fun int8_avg :: "(int \<Rightarrow> 'n) \<Rightarrow> ('n \<Rightarrow> 'n \<Rightarrow> 'n) \<Rightarrow> 'n datum option list \<Rightarrow> pg_error + 'n datum option" where
  "int8_avg int8_numeric numeric_div [Some (Int8TransType n s)] =
     (if n = 0 then Inr None else Inr (Some (Numeric (numeric_div (int8_numeric s) (int8_numeric n)))))"
| "int8_avg int8_numeric numeric_div _ = Inl Internal_error"

section \<open>Aggregates\<close>

text \<open>An argument that is a column of the input tuple.\<close>

definition column :: "nat \<Rightarrow> slot \<Rightarrow> pg_error + 'n datum option" where
  "column att s = Inr (int4_datum (slot_getattr s att))"

definition plain_agg :: "(slot \<Rightarrow> pg_error + 'd option) list \<Rightarrow> bool \<Rightarrow>
    ('d option list \<Rightarrow> pg_error + 'd option) \<Rightarrow> 'd option \<Rightarrow> 'd AggStatePerAgg" where
  "plain_agg as strict fn z =
     \<lparr>aggargs = as, aggdistinct = False, transfn = \<lparr>fn_strict = strict, fn_call = fn\<rparr>, finalfn = None,
      initValue = z, equalfn = (\<lambda>_ _. False), performsort = (\<lambda>vs. vs)\<rparr>"

definition count_star :: "'n datum AggStatePerAgg" where
  "count_star = plain_agg [] True int8inc (Some (Int8 0))"

definition count_any :: "nat \<Rightarrow> 'n datum AggStatePerAgg" where
  "count_any att = plain_agg [column att] True int8inc_any (Some (Int8 0))"

definition max_int4 :: "nat \<Rightarrow> 'n datum AggStatePerAgg" where
  "max_int4 att = plain_agg [column att] True int4larger None"

definition min_int4 :: "nat \<Rightarrow> 'n datum AggStatePerAgg" where
  "min_int4 att = plain_agg [column att] True int4smaller None"

definition sum_int4 :: "nat \<Rightarrow> 'n datum AggStatePerAgg" where
  "sum_int4 att = plain_agg [column att] False int4_sum None"

definition avg_int4 :: "(int \<Rightarrow> 'n) \<Rightarrow> ('n \<Rightarrow> 'n \<Rightarrow> 'n) \<Rightarrow> nat \<Rightarrow> 'n datum AggStatePerAgg" where
  "avg_int4 int8_numeric numeric_div att =
     (plain_agg [column att] True int4_avg_accum (Some (Int8TransType 0 0)))
       \<lparr>finalfn := Some \<lparr>fn_strict = True, fn_call = int8_avg int8_numeric numeric_div\<rparr>\<rparr>"

section \<open>The contract of an aggregate\<close>

abbreviation advance_all_tuples ::
    "'d AggStatePerAgg \<Rightarrow> slot list \<Rightarrow> 'd AggStatePerGroup \<Rightarrow> pg_error + 'd AggStatePerGroup" where
  "advance_all_tuples pa \<equiv> foldE (\<lambda>s pg. advance_aggregate s (pa, pg))"

definition run_aggregate :: "'d AggStatePerAgg \<Rightarrow> slot list \<Rightarrow> pg_error + 'd option" where
  "run_aggregate pa ss = bindE (advance_all_tuples pa ss (initialize_aggregate pa)) (finalize_aggregate pa)"

locale aggregate =
  fixes pa :: "'d AggStatePerAgg"
    and accepts :: "slot list \<Rightarrow> bool"
    and result :: "slot list \<Rightarrow> 'd option"
  assumes not_distinct: "\<not> aggdistinct pa"
    and computes: "accepts ss \<Longrightarrow> run_aggregate pa ss = Inr (result ss)"
    and unordered: "mset ss = mset ts \<Longrightarrow> result ss = result ts"
    and accepts_part: "accepts ss \<Longrightarrow> mset ts \<subseteq># mset ss \<Longrightarrow> accepts ts"
begin

lemma computes_any_order:
  "accepts ss \<Longrightarrow> mset ts = mset ss \<Longrightarrow> run_aggregate pa ts = Inr (result ss)"
  using computes [of ts] unordered [of ts ss] accepts_part [of ss ts] by simp

lemma computes_parts:
  "accepts (concat gs) \<Longrightarrow> g \<in> set gs \<Longrightarrow> run_aggregate pa g = Inr (result g)"
  by (rule computes, erule accepts_part) (auto dest: split_list)

end

section \<open>Columns of int4\<close>

text \<open>The values of a column that are not NULL.\<close>

definition column_values :: "nat \<Rightarrow> slot list \<Rightarrow> int list" where
  "column_values att ss = map (\<lambda>s. fst (slot_getattr s att)) (filter (\<lambda>s. \<not> snd (slot_getattr s att)) ss)"

lemma column_values_simps [simp]:
  "column_values att [] = []"
  "column_values att (s # ss) =
     (if snd (slot_getattr s att) then column_values att ss else fst (slot_getattr s att) # column_values att ss)"
  by (simp_all add: column_values_def)

lemma column_values_mset: "mset ss = mset ts \<Longrightarrow> mset (column_values att ss) = mset (column_values att ts)"
  by (simp add: column_values_def mset_map mset_filter)

lemma column_values_part: "mset ts \<subseteq># mset ss \<Longrightarrow> set (column_values att ts) \<subseteq> set (column_values att ss)"
  by (auto simp: column_values_def dest!: set_mset_mono)

lemma length_column_values: "length (column_values att ss) \<le> length ss"
  by (simp add: column_values_def)

lemma mset_part_length: "mset ts \<subseteq># mset ss \<Longrightarrow> length ts \<le> length ss"
  by (metis size_mset size_mset_mono)

lemma column_none: "snd (slot_getattr s att) \<Longrightarrow> column att s = Inr None"
  by (simp add: column_def int4_datum_def case_prod_unfold)

lemma column_some: "\<not> snd (slot_getattr s att) \<Longrightarrow> column att s = Inr (Some (Int4 (fst (slot_getattr s att))))"
  by (simp add: column_def int4_datum_def case_prod_unfold)

lemmas plain_defs = plain_agg_def advance_aggregate_def advance_transition_function_def
lemmas column_simps = column_none column_some

text \<open>A strict transition function on one column.\<close>

definition strict_column :: "'n datum AggStatePerAgg \<Rightarrow> nat \<Rightarrow> bool" where
  "strict_column pa att \<longleftrightarrow> aggargs pa = [column att] \<and> \<not> aggdistinct pa \<and> fn_strict (transfn pa)"

lemma strict_step:
  assumes "strict_column pa att"
  shows "snd (slot_getattr s att) \<Longrightarrow> advance_aggregate s (pa, pg) = Inr pg"
    "\<not> snd (slot_getattr s att) \<Longrightarrow> advance_aggregate s (pa, \<lparr>transValue = None, noTransValue = True, sortstate = []\<rparr>) =
      Inr \<lparr>transValue = Some (Int4 (fst (slot_getattr s att))), noTransValue = False, sortstate = []\<rparr>"
    "\<not> snd (slot_getattr s att) \<Longrightarrow> fn_call (transfn pa) [Some z, Some (Int4 (fst (slot_getattr s att)))] = Inr (Some z') \<Longrightarrow>
      advance_aggregate s (pa, \<lparr>transValue = Some z, noTransValue = False, sortstate = []\<rparr>) =
      Inr \<lparr>transValue = Some z', noTransValue = False, sortstate = []\<rparr>"
  using assms by (simp_all add: strict_column_def advance_aggregate_def advance_transition_function_def column_simps)

text \<open>With an initial value it runs over the values that are not NULL.\<close>

lemma strict_with_initial:
  assumes "strict_column pa att"
    and step: "\<And>z v. P z \<Longrightarrow> v \<in> set (column_values att ss) \<Longrightarrow>
      fn_call (transfn pa) [Some (emb z), Some (Int4 v)] = Inr (Some (emb (f v z))) \<and> P (f v z)"
    and "P z"
  shows "advance_all_tuples pa ss \<lparr>transValue = Some (emb z), noTransValue = False, sortstate = []\<rparr> =
    Inr \<lparr>transValue = Some (emb (fold f (column_values att ss) z)), noTransValue = False, sortstate = []\<rparr>"
  using assms(2,3)
proof (induction ss arbitrary: z)
  case (Cons s ss)
  show ?case
  proof (cases "snd (slot_getattr s att)")
    case True
    then show ?thesis using Cons.IH [of z] Cons.prems by (simp add: strict_step [OF assms(1)])
  next
    case False
    then have "fn_call (transfn pa) [Some (emb z), Some (Int4 (fst (slot_getattr s att)))] = Inr (Some (emb (f (fst (slot_getattr s att)) z)))"
      "P (f (fst (slot_getattr s att)) z)" using Cons.prems by simp_all
    then show ?thesis using Cons.IH [of "f (fst (slot_getattr s att)) z"] Cons.prems(1) False
      by (simp add: strict_step [OF assms(1)])
  qed
qed simp

text \<open>Without one the first value becomes the transition value.\<close>

lemma strict_without_initial:
  assumes "strict_column pa att"
    and step: "\<And>z v. fn_call (transfn pa) [Some (Int4 z), Some (Int4 v)] = Inr (Some (Int4 (f v z)))"
  shows "advance_all_tuples pa ss \<lparr>transValue = None, noTransValue = True, sortstate = []\<rparr> =
    Inr (case column_values att ss of
           [] \<Rightarrow> \<lparr>transValue = None, noTransValue = True, sortstate = []\<rparr>
         | v # vs \<Rightarrow> \<lparr>transValue = Some (Int4 (fold f vs v)), noTransValue = False, sortstate = []\<rparr>)"
proof (induction ss)
  case (Cons s ss)
  show ?case
  proof (cases "snd (slot_getattr s att)")
    case True
    then show ?thesis using Cons.IH by (simp add: strict_step [OF assms(1)])
  next
    case False
    then show ?thesis
      using strict_with_initial [of pa att "\<lambda>_. True" ss Int4 f "fst (slot_getattr s att)"] assms
      by (simp add: strict_step [OF assms(1)])
  qed
qed simp

section \<open>What the functions compute\<close>

lemma fold_count: "fold (\<lambda>_ n. n + 1) vs (n::int) = n + int (length vs)"
  by (induction vs arbitrary: n) simp_all

lemma i64_add: "i64 (i64 a + b) = i64 (a + b)"
proof -
  have "(i64 a + b + 9223372036854775808) mod 18446744073709551616
      = ((a + 9223372036854775808) mod 18446744073709551616 + b) mod 18446744073709551616"
    by (simp add: i64_def)
  also have "\<dots> = (a + b + 9223372036854775808) mod 18446744073709551616"
    by (simp add: mod_add_left_eq) (simp add: algebra_simps)
  finally show ?thesis by (simp add: i64_def)
qed

lemma fold_add64: "fold (\<lambda>v s. add64 s v) vs (i64 s) = i64 (s + sum_list vs)"
  by (induction vs arbitrary: s) (simp_all add: add64_def i64_add add.assoc)

lemma fold_max: "fold (\<lambda>v m. if m > v then m else v) vs (x::int) = Max (set (x # vs))"
proof -
  have "(\<lambda>v m. if m > v then m else v) = (max :: int \<Rightarrow> int \<Rightarrow> int)" by (intro ext) (simp add: max_def)
  then show ?thesis by (simp only: Max.set_eq_fold)
qed

lemma fold_min: "fold (\<lambda>v m. if m < v then m else v) vs (x::int) = Min (set (x # vs))"
proof -
  have "(\<lambda>v m. if m < v then m else v) = (min :: int \<Rightarrow> int \<Rightarrow> int)" by (intro ext) (simp add: min_def)
  then show ?thesis by (simp only: Min.set_eq_fold)
qed

lemma int8inc_ok:
  assumes "0 \<le> n" "n < 9223372036854775807"
  shows "int8inc (Some (Int8 n) # vs) = Inr (Some (Int8 (n + 1)))"
  using assms by (simp add: int8inc_def add64_eq int64_def)

text \<open>The counter stops with an error rather than wrap around.\<close>

lemma int8inc_overflow: "int8inc (Some (Int8 9223372036854775807) # vs) = Inl Numeric_value_out_of_range"
  by (simp add: int8inc_def add64_def i64_def)

lemma count_star_runs:
  "0 \<le> n \<Longrightarrow> n + int (length ss) < 9223372036854775808 \<Longrightarrow>
   advance_all_tuples count_star ss \<lparr>transValue = Some (Int8 n), noTransValue = False, sortstate = []\<rparr> =
     Inr \<lparr>transValue = Some (Int8 (n + int (length ss))), noTransValue = False, sortstate = []\<rparr>"
  by (induction ss arbitrary: n) (simp_all add: count_star_def plain_defs int8inc_ok)

lemma count_any_strict: "strict_column (count_any att) att" "fn_call (transfn (count_any att)) = int8inc_any"
  by (simp_all add: strict_column_def count_any_def plain_agg_def)

lemma count_any_runs:
  "0 \<le> n \<Longrightarrow> n + int (length (column_values att ss)) < 9223372036854775808 \<Longrightarrow>
   advance_all_tuples (count_any att) ss \<lparr>transValue = Some (Int8 n), noTransValue = False, sortstate = []\<rparr> =
     Inr \<lparr>transValue = Some (Int8 (n + int (length (column_values att ss)))), noTransValue = False, sortstate = []\<rparr>"
proof (induction ss arbitrary: n)
  case (Cons s ss)
  then show ?case
    by (cases "snd (slot_getattr s att)")
      (simp_all add: strict_step [OF count_any_strict(1)] count_any_strict(2) int8inc_any_def int8inc_ok add.assoc)
qed simp

definition counts :: "slot list \<Rightarrow> bool" where
  "counts ss \<longleftrightarrow> int (length ss) < 9223372036854775808"

lemma counts_part: "counts ss \<Longrightarrow> mset ts \<subseteq># mset ss \<Longrightarrow> counts ts"
  by (auto simp: counts_def dest: mset_part_length)

definition some_values :: "(int list \<Rightarrow> 'd) \<Rightarrow> nat \<Rightarrow> slot list \<Rightarrow> 'd option" where
  "some_values f att ss = (case column_values att ss of [] \<Rightarrow> None | v # vs \<Rightarrow> Some (f (v # vs)))"

lemma some_values_unordered:
  assumes "\<And>vs ws. mset vs = mset ws \<Longrightarrow> f vs = f ws" "mset ss = mset ts"
  shows "some_values f att ss = some_values f att ts"
  using assms(1) [OF column_values_mset [OF assms(2), of att]] column_values_mset [OF assms(2), of att]
  by (auto simp: some_values_def split: list.split)

lemma some_values_Max:
  "mset ss = mset ts \<Longrightarrow> some_values (\<lambda>vs. Int4 (Max (set vs))) att ss = some_values (\<lambda>vs. Int4 (Max (set vs))) att ts"
  by (rule some_values_unordered) (metis mset_eq_setD)

lemma some_values_Min:
  "mset ss = mset ts \<Longrightarrow> some_values (\<lambda>vs. Int4 (Min (set vs))) att ss = some_values (\<lambda>vs. Int4 (Min (set vs))) att ts"
  by (rule some_values_unordered) (metis mset_eq_setD)

text \<open>The whole run over a group, for the two kinds of strict functions and without a final
  function.\<close>

lemma run_aggregateI:
  "advance_all_tuples pa ss (initialize_aggregate pa) = Inr pg \<Longrightarrow> finalize_aggregate pa pg = r \<Longrightarrow> run_aggregate pa ss = r"
  by (simp add: run_aggregate_def)

lemma initialize_plain:
  "initialize_aggregate (plain_agg as st fn z) = \<lparr>transValue = z, noTransValue = (z = None), sortstate = []\<rparr>"
  by (simp add: initialize_aggregate_def plain_agg_def)

lemma finalize_plain: "finalize_aggregate (plain_agg as st fn z) pg = Inr (transValue pg)"
  by (simp add: finalize_aggregate_def plain_agg_def)

lemma run_without_initial:
  assumes "strict_column pa att" "initValue pa = None" "finalfn pa = None"
    "\<And>z v. fn_call (transfn pa) [Some (Int4 z), Some (Int4 v)] = Inr (Some (Int4 (f v z)))"
    "\<And>v vs. r (v # vs) = Int4 (fold f vs v)"
  shows "run_aggregate pa ss = Inr (some_values r att ss)"
  using strict_without_initial [of pa att f, OF assms(1,4), of ss] assms(2,3,5)
  by (cases "column_values att ss")
    (auto intro!: run_aggregateI simp: initialize_aggregate_def finalize_aggregate_def some_values_def)

interpretation count_star: aggregate count_star counts "\<lambda>ss. Some (Int8 (int (length ss)))"
proof
  fix ss assume "counts ss"
  then show "run_aggregate count_star ss = Inr (Some (Int8 (int (length ss))))"
    by (intro run_aggregateI [where pg = "\<lparr>transValue = Some (Int8 (int (length ss))), noTransValue = False, sortstate = []\<rparr>"])
      (use count_star_runs [of 0 ss] in \<open>simp_all add: counts_def count_star_def initialize_plain finalize_plain\<close>)
qed (auto simp: count_star_def plain_agg_def counts_part dest: mset_eq_length)

interpretation count_any: aggregate "count_any att" counts "\<lambda>ss. Some (Int8 (int (length (column_values att ss))))" for att
proof
  fix ss assume "counts ss"
  then have len: "int (length (column_values att ss)) < 9223372036854775808"
    using length_column_values [of att ss] unfolding counts_def by linarith
  show "run_aggregate (count_any att) ss = Inr (Some (Int8 (int (length (column_values att ss)))))"
    by (rule run_aggregateI [where pg = "\<lparr>transValue = Some (Int8 (int (length (column_values att ss)))), noTransValue = False, sortstate = []\<rparr>"])
      (use count_any_runs [of 0 att ss] len in \<open>simp_all add: count_any_def initialize_plain finalize_plain\<close>)
qed (auto simp: count_any_def plain_agg_def counts_part dest: column_values_mset mset_eq_length)

interpretation max_int4: aggregate "max_int4 att" "\<lambda>_. True" "some_values (\<lambda>vs. Int4 (Max (set vs))) att" for att
proof
  fix ss
  show "run_aggregate (max_int4 att) ss = Inr (some_values (\<lambda>vs. Int4 (Max (set vs))) att ss)"
    by (rule run_without_initial [where f = "\<lambda>v m. if m > v then m else v"])
      (simp_all add: fold_max max_int4_def plain_agg_def strict_column_def)
qed (auto simp: max_int4_def plain_agg_def intro: some_values_Max)

interpretation min_int4: aggregate "min_int4 att" "\<lambda>_. True" "some_values (\<lambda>vs. Int4 (Min (set vs))) att" for att
proof
  fix ss
  show "run_aggregate (min_int4 att) ss = Inr (some_values (\<lambda>vs. Int4 (Min (set vs))) att ss)"
    by (rule run_without_initial [where f = "\<lambda>v m. if m < v then m else v"])
      (simp_all add: fold_min min_int4_def plain_agg_def strict_column_def)
qed (auto simp: min_int4_def plain_agg_def intro: some_values_Min)

lemma sum_step:
  "advance_aggregate s (sum_int4 att, pg) =
     bindE (int4_sum [transValue pg, int4_datum (slot_getattr s att)]) (\<lambda>v. Inr (pg\<lparr>transValue := v\<rparr>))"
  by (simp add: sum_int4_def plain_defs column_def)

lemma int4_datum_simps [simp]:
  "snd p \<Longrightarrow> int4_datum p = None"
  "\<not> snd p \<Longrightarrow> int4_datum p = Some (Int4 (fst p))"
  by (simp_all add: int4_datum_def case_prod_unfold)

lemma sum_runs:
  "advance_all_tuples (sum_int4 att) ss \<lparr>transValue = Some (Int8 (i64 z)), noTransValue = b, sortstate = []\<rparr> =
     Inr \<lparr>transValue = Some (Int8 (i64 (z + sum_list (column_values att ss)))), noTransValue = b, sortstate = []\<rparr>"
proof (induction ss arbitrary: z)
  case (Cons s ss)
  then show ?case
    by (cases "snd (slot_getattr s att)") (simp_all add: sum_step add64_def i64_add add.assoc)
qed simp

lemma sum_runs_from:
  "i64 z = z \<Longrightarrow> advance_all_tuples (sum_int4 att) ss \<lparr>transValue = Some (Int8 z), noTransValue = b, sortstate = []\<rparr> =
     Inr \<lparr>transValue = Some (Int8 (i64 (z + sum_list (column_values att ss)))), noTransValue = b, sortstate = []\<rparr>"
  using sum_runs [of att ss z b] by simp

lemma sum_starts:
  assumes "\<forall>v\<in>set (column_values att ss). int32 v"
  shows "advance_all_tuples (sum_int4 att) ss \<lparr>transValue = None, noTransValue = True, sortstate = []\<rparr> =
    Inr \<lparr>transValue = some_values (\<lambda>vs. Int8 (i64 (sum_list vs))) att ss, noTransValue = True, sortstate = []\<rparr>"
  using assms
proof (induction ss)
  case (Cons s ss)
  show ?case
  proof (cases "snd (slot_getattr s att)")
    case True
    then show ?thesis using Cons by (simp add: sum_step some_values_def)
  next
    case False
    let ?v = "fst (slot_getattr s att)"
    have "i64 ?v = ?v" using Cons.prems False by (intro i64_id) (simp add: int32_def int64_def)
    then show ?thesis using False by (simp add: sum_step some_values_def sum_runs_from [unfolded sum_step])
  qed
qed (simp add: some_values_def)

text \<open>The sum is exact up to the wrap-around of 64 bits, which is not tested.\<close>

interpretation sum_int4: aggregate "sum_int4 att" "\<lambda>ss. \<forall>v\<in>set (column_values att ss). int32 v"
  "some_values (\<lambda>vs. Int8 (i64 (sum_list vs))) att" for att
proof
  fix ss assume "\<forall>v\<in>set (column_values att ss). int32 v"
  then show "run_aggregate (sum_int4 att) ss = Inr (some_values (\<lambda>vs. Int8 (i64 (sum_list vs))) att ss)"
    by (intro run_aggregateI [OF trans [OF _ sum_starts]])
      (simp_all add: sum_int4_def initialize_plain finalize_plain)
next
  fix ss ts :: "slot list"
  assume "mset ss = mset ts"
  then show "some_values (\<lambda>vs. Int8 (i64 (sum_list vs))) att ss = some_values (\<lambda>vs. Int8 (i64 (sum_list vs))) att ts"
    by (rule some_values_unordered [rotated]) (metis sum_mset_sum_list)
qed (auto simp: sum_int4_def plain_agg_def dest: column_values_part)

lemma fold_avg:
  "fold (\<lambda>v (n, s). (add64 n 1, add64 s v)) vs (i64 n, i64 s) = (i64 (n + int (length vs)), i64 (s + sum_list vs))"
proof (induction vs arbitrary: n s)
  case (Cons v vs)
  then show ?case using Cons.IH [of "n + 1" "s + v"] by (simp add: add64_def i64_add add.assoc)
qed simp

lemma avg_strict: "strict_column (avg_int4 int8_numeric numeric_div att) att"
  "fn_call (transfn (avg_int4 int8_numeric numeric_div att)) = int4_avg_accum"
  by (simp_all add: strict_column_def avg_int4_def plain_agg_def)

lemma avg_runs:
  "advance_all_tuples (avg_int4 int8_numeric numeric_div att) ss
     \<lparr>transValue = Some (Int8TransType 0 0), noTransValue = False, sortstate = []\<rparr> =
   Inr \<lparr>transValue = Some (Int8TransType (i64 (int (length (column_values att ss)))) (i64 (sum_list (column_values att ss)))),
        noTransValue = False, sortstate = []\<rparr>"
  using strict_with_initial [of "avg_int4 int8_numeric numeric_div att" att "\<lambda>_. True" ss "\<lambda>(n, s). Int8TransType n s"
      "\<lambda>v (n, s). (add64 n 1, add64 s v)" "(0, 0)", OF avg_strict(1)]
    fold_avg [of "column_values att ss" 0 0]
  by (auto simp: avg_strict(2) i64_id int64_def)

lemma avg_int4_start:
  "initialize_aggregate (avg_int4 int8_numeric numeric_div att) = \<lparr>transValue = Some (Int8TransType 0 0), noTransValue = False, sortstate = []\<rparr>"
  by (simp add: initialize_aggregate_def avg_int4_def plain_agg_def)

interpretation avg_int4: aggregate "avg_int4 int8_numeric numeric_div att" counts
  "some_values (\<lambda>vs. Numeric (numeric_div (int8_numeric (i64 (sum_list vs))) (int8_numeric (int (length vs))))) att"
  for int8_numeric numeric_div att
proof
  fix ss assume "counts ss"
  then have len: "i64 (int (length (column_values att ss))) = int (length (column_values att ss))"
    using length_column_values [of att ss] by (intro i64_id) (simp add: counts_def int64_def)
  show "run_aggregate (avg_int4 int8_numeric numeric_div att) ss =
    Inr (some_values (\<lambda>vs. Numeric (numeric_div (int8_numeric (i64 (sum_list vs))) (int8_numeric (int (length vs))))) att ss)"
    by (rule run_aggregateI, unfold avg_int4_start, rule avg_runs)
      (auto simp: len finalize_aggregate_def avg_int4_def plain_agg_def some_values_def split: list.split)
next
  fix ss ts :: "slot list"
  assume "mset ss = mset ts"
  then show "some_values (\<lambda>vs. Numeric (numeric_div (int8_numeric (i64 (sum_list vs))) (int8_numeric (int (length vs))))) att ss =
      some_values (\<lambda>vs. Numeric (numeric_div (int8_numeric (i64 (sum_list vs))) (int8_numeric (int (length vs))))) att ts"
    by (rule some_values_unordered [rotated]) (metis sum_mset_sum_list size_mset)
qed (auto simp: avg_int4_def plain_agg_def counts_part)

end
