(* ===== verification/AggDistinct.thy ===== *)
theory AggDistinct
  imports AggBuiltin
begin

text \<open>
  DISTINCT aggregates, and several aggregates side by side: \<open>process_sorted_aggregate\<close> passes
  every value once to the transition function, and the aggregates of a group do not influence
  each other.
\<close>

section \<open>DISTINCT\<close>

lemma bindE_cong: "(\<And>x. f x = g x) \<Longrightarrow> bindE r f = bindE r g"
  by (cases r) simp_all

lemma foldE_remdups_head:
  "foldE f (remdups_adj (v # vs)) y = bindE (f v y) (foldE f (tl (remdups_adj (v # vs))))"
proof -
  have "remdups_adj (v # vs) = v # tl (remdups_adj (v # vs))"
    by (cases vs) (auto simp: remdups_adj_Cons split: list.split)
  then show ?thesis by (metis foldE.simps(2))
qed

lemma distinct_values_after:
  assumes "equalfn pa = (\<lambda>x y. x = y)"
  shows "distinct_values pa (Some x) vs pg =
    foldE (\<lambda>v pg. advance_transition_function pa pg [Some v]) (tl (remdups_adj (x # vs))) pg"
proof (induction vs arbitrary: x pg)
  case (Cons v vs)
  show ?case
    using Cons.IH assms by (cases "x = v") (auto simp: foldE_remdups_head intro: bindE_cong)
qed simp

lemma distinct_values_fold:
  "equalfn pa = (\<lambda>x y. x = y) \<Longrightarrow> distinct_values pa None vs pg =
    foldE (\<lambda>v pg. advance_transition_function pa pg [Some v]) (remdups_adj vs) pg"
  by (cases vs) (auto simp: foldE_remdups_head distinct_values_after intro: bindE_cong)

lemma sorted_remdups_adj_distinct: "sorted xs \<Longrightarrow> distinct (remdups_adj xs)"
  by (induction xs rule: remdups_adj.induct) auto

definition distinct_on :: "nat \<Rightarrow> ('n datum list \<Rightarrow> 'n datum list) \<Rightarrow> 'n datum AggStatePerAgg \<Rightarrow> 'n datum AggStatePerAgg" where
  "distinct_on att srt pa = pa\<lparr>aggargs := [column att], aggdistinct := True, equalfn := (\<lambda>x y. x = y), performsort := srt\<rparr>"

lemma distinct_collects:
  "advance_all_tuples (distinct_on att srt pa) ss pg = Inr (pg\<lparr>sortstate := sortstate pg @ map Int4 (column_values att ss)\<rparr>)"
proof (induction ss arbitrary: pg)
  case (Cons s ss)
  then show ?case
    by (cases "snd (slot_getattr s att)") (simp_all add: advance_aggregate_def distinct_on_def column_simps)
qed simp

definition run_direct :: "'d AggStatePerAgg \<Rightarrow> slot list \<Rightarrow> pg_error + 'd option" where
  "run_direct pa ss = bindE (advance_all_tuples pa ss (initialize_aggregate pa)) (\<lambda>pg.
     if aggdistinct pa then bindE (process_sorted_aggregate pa pg) (finalize_aggregate pa) else finalize_aggregate pa pg)"

text \<open>The transition function runs over the different values in ascending order.\<close>

lemma remdups_adj_sort: "remdups_adj (sort xs) = sorted_list_of_set (set xs)"
  by (rule sorted_distinct_set_unique) (simp_all add: sorted_remdups_adj sorted_remdups_adj_distinct)

lemma remdups_adj_Int4: "remdups_adj (map Int4 vs) = map Int4 (remdups_adj vs)"
  by (rule remdups_adj_map_injective) (simp add: inj_def)

lemma run_distinct:
  assumes "\<And>vs. srt (map Int4 vs) = map Int4 (sort vs)"
  shows "run_direct (distinct_on att srt pa) ss =
    bindE (foldE (\<lambda>v pg. advance_transition_function (distinct_on att srt pa) pg [Some (Int4 v)])
             (sorted_list_of_set (set (column_values att ss)))
             \<lparr>transValue = initValue pa, noTransValue = (initValue pa = None), sortstate = map Int4 (column_values att ss)\<rparr>)
      (\<lambda>pg. finalize_aggregate pa (pg\<lparr>sortstate := []\<rparr>))"
proof -
  let ?pa = "distinct_on att srt pa"
  have init: "initialize_aggregate ?pa = \<lparr>transValue = initValue pa, noTransValue = (initValue pa = None), sortstate = []\<rparr>"
    by (simp add: initialize_aggregate_def distinct_on_def)
  have sorted: "performsort ?pa (map Int4 vs) = map Int4 (sort vs)" for vs using assms by (simp add: distinct_on_def)
  have eq: "equalfn ?pa = (\<lambda>x y. x = y)" by (simp add: distinct_on_def)
  have fin: "finalize_aggregate ?pa = finalize_aggregate pa"
    by (intro ext) (simp add: finalize_aggregate_def distinct_on_def)
  have fold: "foldE (\<lambda>v pg. advance_transition_function ?pa pg [Some v]) (map Int4 vs) pg =
      foldE (\<lambda>v pg. advance_transition_function ?pa pg [Some (Int4 v)]) vs pg" for vs pg
    by (induction vs arbitrary: pg) (auto intro: bindE_cong)
  show ?thesis
    by (simp add: run_direct_def distinct_collects init process_sorted_aggregate_def sorted distinct_values_fold [OF eq]
        remdups_adj_Int4 remdups_adj_sort fold fin bindE_assoc) (simp add: distinct_on_def)
qed

section \<open>count(DISTINCT x)\<close>

definition count_distinct :: "nat \<Rightarrow> ('n datum list \<Rightarrow> 'n datum list) \<Rightarrow> 'n datum AggStatePerAgg" where
  "count_distinct att srt = distinct_on att srt (count_any att)"

lemma count_values:
  "0 \<le> n \<Longrightarrow> n + int (length vs) < 9223372036854775808 \<Longrightarrow>
   foldE (\<lambda>v pg. advance_transition_function (count_distinct att srt) pg [Some (Int4 v)]) vs
     \<lparr>transValue = Some (Int8 n), noTransValue = False, sortstate = ds\<rparr> =
   Inr \<lparr>transValue = Some (Int8 (n + int (length vs))), noTransValue = False, sortstate = ds\<rparr>"
  by (induction vs arbitrary: n)
    (simp_all add: count_distinct_def distinct_on_def count_any_def plain_agg_def advance_transition_function_def int8inc_any_def int8inc_ok)

text \<open>C39. \<open>count(DISTINCT x)\<close> counts the different values of a group: NULLs never reach the sort object,
  and the loop over the sorted values passes over repeated ones.\<close>

theorem count_distinct_counts:
  assumes "\<And>vs. srt (map Int4 vs) = map Int4 (sort vs)" "counts ss"
  shows "run_direct (count_distinct att srt) ss = Inr (Some (Int8 (int (card (set (column_values att ss))))))"
proof -
  have "int (card (set (column_values att ss))) < 9223372036854775808"
    using card_length [of "column_values att ss"] length_column_values [of att ss] assms(2) unfolding counts_def by linarith
  then show ?thesis
    using run_distinct [of srt att "count_any att" ss, OF assms(1)]
      count_values [of 0 "sorted_list_of_set (set (column_values att ss))" att srt "map Int4 (column_values att ss)"]
    by (simp add: count_distinct_def) (simp add: count_any_def plain_agg_def finalize_aggregate_def)
qed

definition demo_sort :: "'n datum list \<Rightarrow> 'n datum list" where
  "demo_sort ds = map Int4 (sort (map (\<lambda>d. case d of Int4 v \<Rightarrow> v | _ \<Rightarrow> 0) ds))"

lemma count_distinct_counts_witness:
  "run_direct (count_distinct 1 demo_sort) [[Some 3], [Some 5], [None], [Some 3]] =
     Inr (Some (Int8 (int (card (set (column_values 1 [[Some 3], [Some 5], [None], [Some 3]]))))))"
  by (rule count_distinct_counts) (simp_all add: demo_sort_def comp_def counts_def)

section \<open>Several aggregates\<close>

lemma foldE_advance_aggregates:
  assumes "length pgs = length peragg" "length qs = length peragg"
    "\<And>i. i < length peragg \<Longrightarrow> advance_all_tuples (peragg ! i) ss (pgs ! i) = Inr (qs ! i)"
  shows "foldE (advance_aggregates peragg) ss pgs = Inr qs"
  using assms
proof (induction ss arbitrary: pgs)
  case Nil
  then show ?case by (simp add: list_eq_iff_nth_eq)
next
  case (Cons s ss)
  have "\<exists>m. advance_aggregate s (peragg ! i, pgs ! i) = Inr m \<and> advance_all_tuples (peragg ! i) ss m = Inr (qs ! i)"
    if "i < length peragg" for i
    using Cons.prems(3) [OF that] by (auto simp: bindE_Inr_iff)
  then obtain m where m: "\<And>i. i < length peragg \<Longrightarrow> advance_aggregate s (peragg ! i, pgs ! i) = Inr (m i)"
    "\<And>i. i < length peragg \<Longrightarrow> advance_all_tuples (peragg ! i) ss (m i) = Inr (qs ! i)"
    by metis
  have "advance_aggregates peragg s pgs = Inr (map m [0..<length peragg])"
    using m(1) Cons.prems(1) by (simp add: advance_aggregates_def mapE_Inr list_all2_conv_all_nth)
  then show ?case using Cons.IH [of "map m [0..<length peragg]"] m(2) Cons.prems(2) by simp
qed

lemma run_advance_simps [simp]:
  "run_advance peragg s (Inl e) = Inl e"
  "run_advance peragg s (Inr pgs) = advance_aggregates peragg s pgs"
  by (simp_all add: run_advance_def)

lemma fold_run_advance: "fold (run_advance peragg) ss (Inr pgs) = foldE (advance_aggregates peragg) ss pgs"
proof (induction ss arbitrary: pgs)
  case (Cons s ss)
  have err: "fold (run_advance peragg) ss (Inl e) = Inl e" for e
    by (induction ss) simp_all
  show ?case
    using Cons err by (cases "advance_aggregates peragg s pgs") simp_all
qed simp

text \<open>The aggregates of a group in a hash table are those of each aggregate on its own.\<close>

lemma run_aggregates:
  assumes "list_all2 (\<lambda>pa r. \<not> aggdistinct pa \<and> run_aggregate pa ss = Inr r) peragg rs"
  shows "bindE (fold (run_advance peragg) ss (run_init peragg)) (finalize_hashed peragg) = Inr rs"
proof -
  have len: "length rs = length peragg" using assms by (simp add: list_all2_lengthD)
  have "\<exists>q. advance_all_tuples (peragg ! i) ss (initialize_aggregate (peragg ! i)) = Inr q \<and>
      finalize_aggregate (peragg ! i) q = Inr (rs ! i)" if "i < length peragg" for i
    using assms that by (auto simp: list_all2_conv_all_nth run_aggregate_def bindE_Inr_iff)
  then obtain q where q: "\<And>i. i < length peragg \<Longrightarrow> advance_all_tuples (peragg ! i) ss (initialize_aggregate (peragg ! i)) = Inr (q i)"
    "\<And>i. i < length peragg \<Longrightarrow> finalize_aggregate (peragg ! i) (q i) = Inr (rs ! i)" by metis
  have "foldE (advance_aggregates peragg) ss (initialize_aggregates peragg) = Inr (map q [0..<length peragg])"
    by (rule foldE_advance_aggregates) (simp_all add: initialize_aggregates_def q(1))
  moreover have "finalize_hashed peragg (map q [0..<length peragg]) = Inr rs"
    using q(2) assms len by (simp add: finalize_hashed_def mapE_Inr list_all2_conv_all_nth)
  ultimately show ?thesis by (simp add: run_init_def fold_run_advance)
qed

end
