(* ===== verification/AggInit.thy ===== *)
theory AggInit
  imports AggDistinct
begin

text \<open>
  The set-up of the aggregates of a node: the loop of \<open>ExecInitAgg\<close> over the aggregate references
  of the target list and \<open>HAVING\<close>, and the columns an entry of the hash table keeps
  (\<open>find_unaggregated_cols\<close>, \<open>build_hash_table\<close>), \<^verbatim>\<open>executor/nodeAgg.c\<close>. The system catalogs, the
  function manager and the expression evaluator are parameters.
\<close>

section \<open>Aggregate references\<close>

record 'e Aggref =
  aggfnoid :: nat
  agg_args :: "'e list"
  agglevelsup :: nat
  is_distinct :: bool

text \<open>\<open>FormData_pg_aggregate\<close>; an invalid oid is 0, the initial value is a text or NULL.\<close>

record Form_pg_aggregate =
  aggtransfn :: nat
  aggfinalfn :: nat
  aggtranstype :: nat
  agginitval :: "string option"

text \<open>What the catalogs answer: the aggregate and the owner of a function, whether a user may call
  a function, the function itself, the type and the evaluation of an expression, the type of a
  polymorphic transition state, whether a type is binary-compatible with another, the value of a
  text, the equality and the sort of a type, and whether a reference contains volatile functions.\<close>

record ('d, 'e) catalog =
  pg_aggregate :: "nat \<Rightarrow> Form_pg_aggregate option"
  proowner :: "nat \<Rightarrow> nat option"
  pg_proc_aclcheck :: "nat \<Rightarrow> nat \<Rightarrow> bool"
  fmgr_info :: "nat \<Rightarrow> 'd FmgrInfo"
  exprType :: "'e \<Rightarrow> nat"
  ExecEvalExpr :: "'e \<Rightarrow> slot \<Rightarrow> pg_error + 'd option"
  enforce_generic_type :: "nat \<Rightarrow> nat list \<Rightarrow> nat \<Rightarrow> pg_error + nat"
  IsBinaryCoercible :: "nat \<Rightarrow> nat \<Rightarrow> bool"
  OidInputFunctionCall :: "nat \<Rightarrow> string \<Rightarrow> pg_error + 'd"
  equality_oper :: "nat \<Rightarrow> 'd \<Rightarrow> 'd \<Rightarrow> bool"
  tuplesort_by :: "nat \<Rightarrow> 'd list \<Rightarrow> 'd list"
  contain_volatile :: "'e Aggref \<Rightarrow> bool"

abbreviation ANYARRAYOID :: nat where "ANYARRAYOID \<equiv> 2277"
abbreviation ANYELEMENTOID :: nat where "ANYELEMENTOID \<equiv> 2283"

definition check :: "bool \<Rightarrow> pg_error \<Rightarrow> pg_error + unit" where
  "check b e = (if b then Inr () else Inl e)"

lemma bindE_check [simp]: "bindE (check b e) f = (if b then f () else Inl e)"
  by (simp add: check_def)

definition found :: "'a option \<Rightarrow> pg_error \<Rightarrow> pg_error + 'a" where
  "found r e = (case r of None \<Rightarrow> Inl e | Some x \<Rightarrow> Inr x)"

lemma found_Inr [simp]: "found r e = Inr x \<longleftrightarrow> r = Some x"
  by (simp add: found_def split: option.split)

definition resolve_transtype :: "('d, 'e) catalog \<Rightarrow> nat \<Rightarrow> nat list \<Rightarrow> nat \<Rightarrow> pg_error + nat" where
  "resolve_transtype cat fnoid inputTypes t =
     (if t = ANYARRAYOID \<or> t = ANYELEMENTOID then enforce_generic_type cat fnoid inputTypes t else Inr t)"

definition GetAggInitVal :: "('d, 'e) catalog \<Rightarrow> string \<Rightarrow> nat \<Rightarrow> pg_error + 'd" where
  "GetAggInitVal cat textInitVal transtype = OidInputFunctionCall cat transtype textInitVal"

definition initial_value :: "('d, 'e) catalog \<Rightarrow> string option \<Rightarrow> nat \<Rightarrow> pg_error + 'd option" where
  "initial_value cat textInitVal transtype =
     (case textInitVal of None \<Rightarrow> Inr None
      | Some txt \<Rightarrow> bindE (GetAggInitVal cat txt transtype) (\<lambda>v. Inr (Some v)))"

text \<open>The new \<open>AggStatePerAgg\<close> of a reference, with the checks in the order of the code.\<close>

definition new_peragg :: "('d, 'e) catalog \<Rightarrow> nat \<Rightarrow> bool \<Rightarrow> 'e Aggref \<Rightarrow> pg_error + 'd AggStatePerAgg" where
  "new_peragg cat user hashed aggref =
     (let numArguments = length (agg_args aggref); inputTypes = map (exprType cat) (agg_args aggref) in
      bindE (found (pg_aggregate cat (aggfnoid aggref)) Cache_lookup_failed) (\<lambda>aggform.
      bindE (check (pg_proc_aclcheck cat (aggfnoid aggref) user) Permission_denied) (\<lambda>_.
      bindE (found (proowner cat (aggfnoid aggref)) Cache_lookup_failed) (\<lambda>aggOwner.
      bindE (check (pg_proc_aclcheck cat (aggtransfn aggform) aggOwner) Permission_denied) (\<lambda>_.
      bindE (check (aggfinalfn aggform = 0 \<or> pg_proc_aclcheck cat (aggfinalfn aggform) aggOwner) Permission_denied) (\<lambda>_.
      bindE (resolve_transtype cat (aggfnoid aggref) inputTypes (aggtranstype aggform)) (\<lambda>transtype.
      bindE (initial_value cat (agginitval aggform) transtype) (\<lambda>z.
      bindE (check (\<not> (fn_strict (fmgr_info cat (aggtransfn aggform)) \<and> z = None \<and>
                        (numArguments < 1 \<or> \<not> IsBinaryCoercible cat (inputTypes ! 0) transtype)))
               Invalid_function_definition) (\<lambda>_.
      bindE (check (is_distinct aggref \<longrightarrow> \<not> hashed) Assertion_failed) (\<lambda>_.
      bindE (check (is_distinct aggref \<longrightarrow> numArguments = 1) Feature_not_supported) (\<lambda>_.
        Inr \<lparr>aggargs = map (ExecEvalExpr cat) (agg_args aggref), aggdistinct = is_distinct aggref,
             transfn = fmgr_info cat (aggtransfn aggform),
             finalfn = (if aggfinalfn aggform = 0 then None else Some (fmgr_info cat (aggfinalfn aggform))),
             initValue = z,
             equalfn = (if is_distinct aggref then equality_oper cat (inputTypes ! 0) else (\<lambda>_ _. False)),
             performsort = (if is_distinct aggref then tuplesort_by cat (inputTypes ! 0) else (\<lambda>vs. vs))\<rparr>)))))))))))"

text \<open>The loop. \<open>pas\<close> are the references with an entry of their own so far; the second result are
  the \<open>aggno\<close>s of the references. \<open>numaggs\<close> becomes the number of entries.\<close>

fun init_aggs :: "('d, 'e) catalog \<Rightarrow> nat \<Rightarrow> bool \<Rightarrow> 'e Aggref list \<Rightarrow> ('e Aggref \<times> 'd AggStatePerAgg) list \<Rightarrow>
    pg_error + ('e Aggref \<times> 'd AggStatePerAgg) list \<times> nat list" where
  "init_aggs cat user hashed [] pas = Inr (pas, [])"
| "init_aggs cat user hashed (aggref # refs) pas =
     bindE (check (agglevelsup aggref = 0) Assertion_failed) (\<lambda>_.
       case find_index (\<lambda>(prev, _). aggref = prev \<and> \<not> contain_volatile cat aggref) pas of
         Some i \<Rightarrow> bindE (init_aggs cat user hashed refs pas) (\<lambda>(pas', nos). Inr (pas', i # nos))
       | None \<Rightarrow> bindE (new_peragg cat user hashed aggref) (\<lambda>pa.
                   bindE (init_aggs cat user hashed refs (pas @ [(aggref, pa)])) (\<lambda>(pas', nos).
                     Inr (pas', length pas # nos))))"

definition ExecInitAgg_aggs :: "('d, 'e) catalog \<Rightarrow> nat \<Rightarrow> bool \<Rightarrow> 'e Aggref list \<Rightarrow>
    pg_error + 'd AggStatePerAgg list \<times> nat list" where
  "ExecInitAgg_aggs cat user hashed aggs =
     bindE (init_aggs cat user hashed aggs []) (\<lambda>(pas, nos). Inr (map snd pas, nos))"

section \<open>Columns of an entry\<close>

text \<open>Expressions as far as \<open>find_unaggregated_cols_walker\<close> tells them apart: variables,
  aggregates, and other nodes, into which \<open>expression_tree_walker\<close> descends.\<close>

datatype tree = Var nat | Aggregate "tree list" | Expr "tree list"

fun find_unaggregated_cols_walker :: "tree \<Rightarrow> nat set \<Rightarrow> nat set" where
  "find_unaggregated_cols_walker (Var varattno) colnos = insert varattno colnos"
| "find_unaggregated_cols_walker (Aggregate ts) colnos = colnos"
| "find_unaggregated_cols_walker (Expr ts) colnos = fold find_unaggregated_cols_walker ts colnos"

definition find_unaggregated_cols :: "tree list \<Rightarrow> tree list \<Rightarrow> nat set" where
  "find_unaggregated_cols targetlist qual =
     find_unaggregated_cols_walker (Expr qual) (find_unaggregated_cols_walker (Expr targetlist) {})"

text \<open>\<open>bms_first_member\<close> takes the smallest member out, \<open>lcons_int\<close> puts it in front. The fuel is
  the number of members.\<close>

fun collist :: "nat \<Rightarrow> nat set \<Rightarrow> nat list \<Rightarrow> nat list" where
  "collist 0 colnos acc = acc"
| "collist (Suc n) colnos acc =
     (if colnos = {} then acc else collist n (colnos - {Min colnos}) (Min colnos # acc))"

definition hash_needed :: "tree list \<Rightarrow> tree list \<Rightarrow> nat list \<Rightarrow> nat list" where
  "hash_needed targetlist qual grpColIdx =
     (let colnos = fold insert grpColIdx (find_unaggregated_cols targetlist qual)
      in collist (card colnos) colnos [])"

section \<open>Lemmas\<close>

lemma new_peragg_shape:
  assumes "new_peragg cat user hashed r = Inr pa"
  shows "aggargs pa = map (ExecEvalExpr cat) (agg_args r)" "aggdistinct pa = is_distinct r"
    "aggdistinct pa \<longrightarrow> \<not> hashed \<and> length (aggargs pa) = 1"
    "fn_strict (transfn pa) \<and> initValue pa = None \<longrightarrow> aggargs pa \<noteq> []"
  using assms by (auto simp: new_peragg_def Let_def bindE_Inr_iff split: if_splits)

lemma not_distinct_filter:
  assumes "a < length xs" "b < length xs" "a \<noteq> b" "f (xs ! a) = f (xs ! b)" "P (f (xs ! a))"
  shows "\<not> distinct (filter P (map f xs))"
proof
  assume d: "distinct (filter P (map f xs))"
  have "a < b \<or> b < a" using assms(3) by auto
  then obtain i j where ij: "i < j" "j < length xs" "f (xs ! i) = f (xs ! j)" "P (f (xs ! i))"
    using assms by metis
  have "xs = take j xs @ xs ! j # drop (Suc j) xs" using ij(2) by (rule id_take_nth_drop)
  then have "distinct (filter P (map f (take j xs @ xs ! j # drop (Suc j) xs)))" using d by simp
  moreover have "xs ! i \<in> set (take j xs)" using ij(1,2) by (metis in_set_conv_nth length_take min.absorb2 nth_take order_less_imp_le)
  then have "f (xs ! j) \<in> f ` set (take j xs)" using ij(3) by (metis imageI)
  ultimately show False using ij(3,4) by auto
qed

text \<open>What the loop establishes, from the references it has already seen.\<close>

definition own_entry :: "('d, 'e) catalog \<Rightarrow> nat \<Rightarrow> bool \<Rightarrow> ('e Aggref \<times> 'd AggStatePerAgg) list \<Rightarrow> bool" where
  "own_entry cat user hashed pas \<longleftrightarrow> (\<forall>(r, pa)\<in>set pas. new_peragg cat user hashed r = Inr pa) \<and>
     distinct (filter (\<lambda>r. \<not> contain_volatile cat r) (map fst pas))"

lemma init_aggs_ok:
  assumes "init_aggs cat user hashed refs pas = Inr (pas', nos)" "own_entry cat user hashed pas"
  shows "own_entry cat user hashed pas' \<and> (\<exists>new. pas' = pas @ new \<and> length new \<le> length refs) \<and>
    list_all2 (\<lambda>r n. n < length pas' \<and> fst (pas' ! n) = r) refs nos \<and>
    {length pas..<length pas'} \<subseteq> set nos"
  using assms
proof (induction refs arbitrary: pas pas' nos)
  case (Cons r refs)
  show ?case
  proof (cases "find_index (\<lambda>(prev, _). r = prev \<and> \<not> contain_volatile cat r) pas")
    case (Some i)
    then have i: "i < length pas" "fst (pas ! i) = r"
      using find_index_Some [OF Some] by (auto simp: case_prod_unfold)
    obtain nos' where n: "init_aggs cat user hashed refs pas = Inr (pas', nos')" "nos = i # nos'"
      using Cons.prems(1) Some by (auto simp: bindE_Inr_iff split: if_splits)
    note IH = Cons.IH [OF n(1) Cons.prems(2)]
    then obtain new where "pas' = pas @ new" "length new \<le> length refs" by blast
    then show ?thesis using IH i n(2) by (auto simp: nth_append)
  next
    case None
    then obtain pa nos' where n: "new_peragg cat user hashed r = Inr pa"
      "init_aggs cat user hashed refs (pas @ [(r, pa)]) = Inr (pas', nos')" "nos = length pas # nos'"
      using Cons.prems(1) by (auto simp: bindE_Inr_iff split: if_splits)
    have "\<forall>p\<in>set pas. fst p = r \<longrightarrow> contain_volatile cat r"
      using None by (auto simp: find_index_None)
    then have "own_entry cat user hashed (pas @ [(r, pa)])"
      using Cons.prems(2) n(1) by (auto simp: own_entry_def)
    note IH = Cons.IH [OF n(2) this]
    then obtain new where new: "pas' = (pas @ [(r, pa)]) @ new" "length new \<le> length refs" by blast
    have "{length pas..<length pas'} = insert (length pas) {length (pas @ [(r, pa)])..<length pas'}"
      using new(1) by auto
    then show ?thesis using IH n(3) new by (auto simp: nth_append)
  qed
qed (auto simp: own_entry_def)

text \<open>A volatile reference has an entry of its own.\<close>

lemma init_aggs_volatile:
  assumes "init_aggs cat user hashed refs pas = Inr (pas', nos)"
  shows "sorted_wrt (\<lambda>(r, n) (r', n'). contain_volatile cat r \<and> contain_volatile cat r' \<longrightarrow> n \<noteq> n') (zip refs nos) \<and>
    (\<forall>(r, n)\<in>set (zip refs nos). contain_volatile cat r \<longrightarrow> length pas \<le> n)"
  using assms
proof (induction refs arbitrary: pas nos)
  case (Cons r refs)
  show ?case
  proof (cases "find_index (\<lambda>(prev, _). r = prev \<and> \<not> contain_volatile cat r) pas")
    case (Some i)
    then have "\<not> contain_volatile cat r" using find_index_Some [OF Some] by (auto simp: case_prod_unfold)
    moreover obtain nos' where "init_aggs cat user hashed refs pas = Inr (pas', nos')" "nos = i # nos'"
      using Cons.prems Some by (auto simp: bindE_Inr_iff split: if_splits)
    ultimately show ?thesis using Cons.IH by auto
  next
    case None
    then obtain pa nos' where "init_aggs cat user hashed refs (pas @ [(r, pa)]) = Inr (pas', nos')" "nos = length pas # nos'"
      using Cons.prems by (auto simp: bindE_Inr_iff split: if_splits)
    then show ?thesis using Cons.IH [of "pas @ [(r, pa)]" nos'] by fastforce
  qed
qed simp

text \<open>The variables outside of aggregates.\<close>

fun plain_vars :: "tree \<Rightarrow> nat set" where
  "plain_vars (Var n) = {n}"
| "plain_vars (Aggregate ts) = {}"
| "plain_vars (Expr ts) = (\<Union>t\<in>set ts. plain_vars t)"

lemma finite_plain_vars [simp]: "finite (plain_vars t)"
  by (induction t) auto

lemma walker_plain_vars: "find_unaggregated_cols_walker t A = plain_vars t \<union> A"
proof (induction t A rule: find_unaggregated_cols_walker.induct)
  case (3 ts A)
  have "fold find_unaggregated_cols_walker us B = (\<Union>t\<in>set us. plain_vars t) \<union> B" if "set us \<subseteq> set ts" for us B
    using that 3 by (induction us arbitrary: B) auto
  then show ?case by simp
qed simp_all

lemma collist_sorted:
  assumes "finite A" "n = card A"
  shows "collist n A acc = rev (sorted_list_of_set A) @ acc"
  using assms
proof (induction n arbitrary: A acc)
  case (Suc n)
  then have "A \<noteq> {}" by auto
  moreover have "n = card (A - {Min A})" using Suc.prems \<open>A \<noteq> {}\<close> by simp
  moreover have "sorted_list_of_set A = Min A # sorted_list_of_set (A - {Min A})"
    using Suc.prems(1) \<open>A \<noteq> {}\<close> by (rule sorted_list_of_set_nonempty)
  ultimately show ?case using Suc.IH [of "A - {Min A}"] Suc.prems(1) by simp
qed simp

lemma hash_needed_list:
  "hash_needed tlist q cols = rev (sorted_list_of_set (set cols \<union> (\<Union>t\<in>set tlist \<union> set q. plain_vars t)))"
proof -
  have "fold insert cols A = set cols \<union> A" for A :: "nat set"
    by (induction cols arbitrary: A) auto
  then have "fold insert cols (find_unaggregated_cols tlist q) = set cols \<union> (\<Union>t\<in>set tlist \<union> set q. plain_vars t)"
    by (simp only: find_unaggregated_cols_def walker_plain_vars plain_vars.simps) auto
  then show ?thesis by (simp add: hash_needed_def collist_sorted)
qed

section \<open>The built-in aggregates\<close>

text \<open>Rows of \<^verbatim>\<open>include/catalog/pg_aggregate.h\<close>: the oids of the transition and the final function,
  the type of the state, and the text of its initial value.\<close>

definition pg_aggregate_rows :: "nat \<Rightarrow> Form_pg_aggregate option" where
  "pg_aggregate_rows = map_of
     [(2101, \<lparr>aggtransfn = 1963, aggfinalfn = 1964, aggtranstype = 1016, agginitval = Some ''{0,0}''\<rparr>),
      (2108, \<lparr>aggtransfn = 1841, aggfinalfn = 0, aggtranstype = 20, agginitval = None\<rparr>),
      (2116, \<lparr>aggtransfn = 768, aggfinalfn = 0, aggtranstype = 23, agginitval = None\<rparr>),
      (2132, \<lparr>aggtransfn = 769, aggfinalfn = 0, aggtranstype = 23, agginitval = None\<rparr>),
      (2147, \<lparr>aggtransfn = 2804, aggfinalfn = 0, aggtranstype = 20, agginitval = Some ''0''\<rparr>),
      (2803, \<lparr>aggtransfn = 1219, aggfinalfn = 0, aggtranstype = 20, agginitval = Some ''0''\<rparr>)]"

text \<open>Their functions, with the strictness of \<^verbatim>\<open>include/catalog/pg_proc.h\<close>.\<close>

definition pg_proc_rows :: "(int \<Rightarrow> 'n) \<Rightarrow> ('n \<Rightarrow> 'n \<Rightarrow> 'n) \<Rightarrow> nat \<Rightarrow> 'n datum FmgrInfo option" where
  "pg_proc_rows int8_numeric numeric_div = map_of
     [(768, \<lparr>fn_strict = True, fn_call = int4larger\<rparr>),
      (769, \<lparr>fn_strict = True, fn_call = int4smaller\<rparr>),
      (1219, \<lparr>fn_strict = True, fn_call = int8inc\<rparr>),
      (2804, \<lparr>fn_strict = True, fn_call = int8inc_any\<rparr>),
      (1841, \<lparr>fn_strict = False, fn_call = int4_sum\<rparr>),
      (1963, \<lparr>fn_strict = True, fn_call = int4_avg_accum\<rparr>),
      (1964, \<lparr>fn_strict = True, fn_call = int8_avg int8_numeric numeric_div\<rparr>)]"

text \<open>A catalog with these rows, for arguments that are columns of type \<open>int4\<close>, and a user who may
  call everything.\<close>

definition builtin_catalog :: "(int \<Rightarrow> 'n) \<Rightarrow> ('n \<Rightarrow> 'n \<Rightarrow> 'n) \<Rightarrow> ('n datum, nat) catalog \<Rightarrow> bool" where
  "builtin_catalog int8_numeric numeric_div cat \<longleftrightarrow>
     (\<forall>oid row. pg_aggregate_rows oid = Some row \<longrightarrow> pg_aggregate cat oid = Some row \<and> proowner cat oid \<noteq> None) \<and>
     (\<forall>oid fn. pg_proc_rows int8_numeric numeric_div oid = Some fn \<longrightarrow> fmgr_info cat oid = fn) \<and>
     (\<forall>oid user. pg_proc_aclcheck cat oid user) \<and> (\<forall>att. exprType cat att = 23) \<and>
     ExecEvalExpr cat = column \<and> IsBinaryCoercible cat 23 23 \<and>
     OidInputFunctionCall cat 20 ''0'' = Inr (Int8 0) \<and>
     OidInputFunctionCall cat 1016 ''{0,0}'' = Inr (Int8TransType 0 0)"

abbreviation agg_ref :: "nat \<Rightarrow> nat list \<Rightarrow> nat Aggref" where
  "agg_ref oid atts \<equiv> \<lparr>aggfnoid = oid, agg_args = atts, agglevelsup = 0, is_distinct = False\<rparr>"

lemma builtin_row:
  assumes "builtin_catalog conv num_div cat" "pg_aggregate_rows oid = Some row"
  shows "pg_aggregate cat oid = Some row" "\<exists>owner. proowner cat oid = Some owner"
  using assms by (auto simp: builtin_catalog_def)

lemma builtin_fn:
  "builtin_catalog conv num_div cat \<Longrightarrow> pg_proc_rows conv num_div oid = Some fn \<Longrightarrow> fmgr_info cat oid = fn"
  by (auto simp: builtin_catalog_def)

text \<open>The set-up makes the aggregates of \<open>AggBuiltin\<close> of them.\<close>

lemma new_peragg_builtin:
  assumes "builtin_catalog conv num_div cat"
  shows "new_peragg cat user hashed (agg_ref 2803 []) = Inr count_star"
    "new_peragg cat user hashed (agg_ref 2147 [att]) = Inr (count_any att)"
    "new_peragg cat user hashed (agg_ref 2116 [att]) = Inr (max_int4 att)"
    "new_peragg cat user hashed (agg_ref 2132 [att]) = Inr (min_int4 att)"
    "new_peragg cat user hashed (agg_ref 2108 [att]) = Inr (sum_int4 att)"
    "new_peragg cat user hashed (agg_ref 2101 [att]) = Inr (avg_int4 conv num_div att)"
proof -
  have acl: "pg_proc_aclcheck cat oid usr" "exprType cat att = 23" "ExecEvalExpr cat = column" "IsBinaryCoercible cat 23 23"
    "OidInputFunctionCall cat 20 ''0'' = Inr (Int8 0)" "OidInputFunctionCall cat 1016 ''{0,0}'' = Inr (Int8TransType 0 0)"
    for oid usr att using assms by (simp_all add: builtin_catalog_def)
  note defs = new_peragg_def found_def resolve_transtype_def initial_value_def GetAggInitVal_def plain_agg_def acl
  show "new_peragg cat user hashed (agg_ref 2803 []) = Inr count_star"
    using builtin_row [OF assms, of 2803] builtin_fn [OF assms, of 1219]
    by (auto simp: defs count_star_def pg_aggregate_rows_def pg_proc_rows_def)
  show "new_peragg cat user hashed (agg_ref 2147 [att]) = Inr (count_any att)"
    using builtin_row [OF assms, of 2147] builtin_fn [OF assms, of 2804]
    by (auto simp: defs count_any_def pg_aggregate_rows_def pg_proc_rows_def)
  show "new_peragg cat user hashed (agg_ref 2116 [att]) = Inr (max_int4 att)"
    using builtin_row [OF assms, of 2116] builtin_fn [OF assms, of 768]
    by (auto simp: defs max_int4_def pg_aggregate_rows_def pg_proc_rows_def)
  show "new_peragg cat user hashed (agg_ref 2132 [att]) = Inr (min_int4 att)"
    using builtin_row [OF assms, of 2132] builtin_fn [OF assms, of 769]
    by (auto simp: defs min_int4_def pg_aggregate_rows_def pg_proc_rows_def)
  show "new_peragg cat user hashed (agg_ref 2108 [att]) = Inr (sum_int4 att)"
    using builtin_row [OF assms, of 2108] builtin_fn [OF assms, of 1841]
    by (auto simp: defs sum_int4_def pg_aggregate_rows_def pg_proc_rows_def)
  show "new_peragg cat user hashed (agg_ref 2101 [att]) = Inr (avg_int4 conv num_div att)"
    using builtin_row [OF assms, of 2101] builtin_fn [OF assms, of 1963] builtin_fn [OF assms, of 1964]
    by (auto simp: defs avg_int4_def pg_aggregate_rows_def pg_proc_rows_def)
qed

section \<open>Properties\<close>

text \<open>A catalog for evaluations: the built-in rows, \<open>int4\<close> columns as arguments, and no numeric
  division.\<close>

definition demo_catalog :: "(unit datum, nat) catalog" where
  "demo_catalog =
     \<lparr>pg_aggregate = pg_aggregate_rows, proowner = (\<lambda>_. Some 10), pg_proc_aclcheck = (\<lambda>_ _. True),
      fmgr_info = (\<lambda>oid. the (pg_proc_rows (\<lambda>_. ()) (\<lambda>_ _. ()) oid)), exprType = (\<lambda>_. 23), ExecEvalExpr = column,
      enforce_generic_type = (\<lambda>_ _ t. Inr t), IsBinaryCoercible = (\<lambda>s t. s = t),
      OidInputFunctionCall = (\<lambda>t _. Inr (if t = 1016 then Int8TransType 0 0 else Int8 0)),
      equality_oper = (\<lambda>_ x y. x = y), tuplesort_by = (\<lambda>_ vs. vs), contain_volatile = (\<lambda>_. False)\<rparr>"

lemma demo_builtin: "builtin_catalog (\<lambda>_. ()) (\<lambda>_ _. ()) demo_catalog"
  by (auto simp: builtin_catalog_def demo_catalog_def)

lemma demo_volatile: "contain_volatile demo_catalog r = False"
  by (simp add: demo_catalog_def)

lemma ExecInitAgg_entries:
  assumes "ExecInitAgg_aggs cat user hashed aggs = Inr (peragg, nos)"
  shows "length nos = length aggs \<and> set nos = {..<length peragg} \<and> length peragg \<le> length aggs \<and>
    (\<forall>j<length aggs. new_peragg cat user hashed (aggs ! j) = Inr (peragg ! (nos ! j))) \<and>
    (\<forall>i<length aggs. \<forall>j<length aggs. i \<noteq> j \<longrightarrow>
       (nos ! i = nos ! j \<longleftrightarrow> aggs ! i = aggs ! j \<and> \<not> contain_volatile cat (aggs ! i)))"
proof -
  obtain pas where pas: "init_aggs cat user hashed aggs [] = Inr (pas, nos)" "peragg = map snd pas"
    using assms by (auto simp: ExecInitAgg_aggs_def bindE_Inr_iff)
  have ok: "own_entry cat user hashed pas" "length pas \<le> length aggs"
    "list_all2 (\<lambda>r n. n < length pas \<and> fst (pas ! n) = r) aggs nos" "{0..<length pas} \<subseteq> set nos"
    using init_aggs_ok [OF pas(1)] by (auto simp: own_entry_def)
  have len: "length nos = length aggs" using ok(3) by (simp add: list_all2_lengthD)
  have at: "nos ! j < length pas" "fst (pas ! (nos ! j)) = aggs ! j" if "j < length aggs" for j
    using ok(3) that by (simp_all add: list_all2_conv_all_nth)
  have "set nos \<subseteq> {..<length pas}" using at len by (auto simp: in_set_conv_nth)
  moreover have "new_peragg cat user hashed (aggs ! j) = Inr (peragg ! (nos ! j))" if "j < length aggs" for j
  proof -
    have "case pas ! (nos ! j) of (r, pa) \<Rightarrow> new_peragg cat user hashed r = Inr pa"
      using ok(1) at(1) [OF that] unfolding own_entry_def by (meson nth_mem)
    then show ?thesis using at [OF that] by (cases "pas ! (nos ! j)") (simp add: pas(2))
  qed
  moreover have "nos ! i = nos ! j"
    if "i < length aggs" "j < length aggs" "aggs ! i = aggs ! j" "\<not> contain_volatile cat (aggs ! i)" for i j
  proof (rule ccontr)
    assume "nos ! i \<noteq> nos ! j"
    then have "\<not> distinct (filter (\<lambda>r. \<not> contain_volatile cat r) (map fst pas))"
      using at [OF that(1)] at [OF that(2)] that(3,4) by (intro not_distinct_filter [of "nos ! i" _ "nos ! j"]) simp_all
    then show False using ok(1) by (simp add: own_entry_def)
  qed
  moreover have "aggs ! i = aggs ! j" if "i < length aggs" "j < length aggs" "nos ! i = nos ! j" for i j
    using at(2) [OF that(1)] at(2) [OF that(2)] that(3) by simp
  moreover have "nos ! i \<noteq> nos ! j"
    if "i < length aggs" "j < length aggs" "i \<noteq> j" "aggs ! i = aggs ! j" "contain_volatile cat (aggs ! i)" for i j
  proof -
    have "sorted_wrt (\<lambda>(r, n) (r', n'). contain_volatile cat r \<and> contain_volatile cat r' \<longrightarrow> n \<noteq> n') (zip aggs nos)"
      using init_aggs_volatile [OF pas(1)] by blast
    then show ?thesis
      using sorted_wrt_nth_less [of _ "zip aggs nos" i j] sorted_wrt_nth_less [of _ "zip aggs nos" j i] that len
      by (cases "i < j") fastforce+
  qed
  moreover have "set nos = {..<length peragg}"
    using \<open>set nos \<subseteq> {..<length pas}\<close> ok(4) pas(2) by (auto simp: atLeast0LessThan)
  moreover have "length peragg \<le> length aggs" using ok(2) pas(2) by simp
  ultimately show ?thesis using len by metis
qed

text \<open>C16. \<open>ExecInitAgg\<close> gives every aggregate reference the number of an entry that was set up for
  this very reference, every entry belongs to a reference, and two references share an entry
  exactly when they are equal and have no volatile functions.\<close>

theorem ExecInitAgg_shares:
  assumes "ExecInitAgg_aggs cat user hashed aggs = Inr (peragg, nos)"
  shows "length nos = length aggs \<and> set nos = {..<length peragg} \<and> length peragg \<le> length aggs \<and>
    (\<forall>j<length aggs. new_peragg cat user hashed (aggs ! j) = Inr (peragg ! (nos ! j))) \<and>
    (\<forall>i<length aggs. \<forall>j<length aggs. i \<noteq> j \<longrightarrow>
       (nos ! i = nos ! j \<longleftrightarrow> aggs ! i = aggs ! j \<and> \<not> contain_volatile cat (aggs ! i)))"
  by (rule ExecInitAgg_entries [OF assms])

lemma ExecInitAgg_shares_witness:
  "let aggs = [agg_ref 2803 [], agg_ref 2116 [1], agg_ref 2803 []]; peragg = [count_star, max_int4 1]; nos = [0, 1, 0] in
    length nos = length aggs \<and> set nos = {..<length peragg} \<and> length peragg \<le> length aggs \<and>
    (\<forall>j<length aggs. new_peragg demo_catalog 10 True (aggs ! j) = Inr (peragg ! (nos ! j))) \<and>
    (\<forall>i<length aggs. \<forall>j<length aggs. i \<noteq> j \<longrightarrow>
       (nos ! i = nos ! j \<longleftrightarrow> aggs ! i = aggs ! j \<and> \<not> contain_volatile demo_catalog (aggs ! i)))"
  unfolding Let_def
  by (rule ExecInitAgg_shares)
    (simp add: ExecInitAgg_aggs_def new_peragg_builtin [OF demo_builtin] demo_volatile)

definition sound_entry :: "('d, 'e) catalog \<Rightarrow> 'd AggStatePerAgg \<Rightarrow> bool" where
  "sound_entry cat pa \<longleftrightarrow> (fn_strict (transfn pa) \<and> initValue pa = None \<longrightarrow> aggargs pa \<noteq> []) \<and> \<not> aggdistinct pa \<and>
     transfn pa \<in> range (fmgr_info cat) \<and> (\<forall>fn. finalfn pa = Some fn \<longrightarrow> fn \<in> range (fmgr_info cat)) \<and>
     set (aggargs pa) \<subseteq> range (ExecEvalExpr cat)"

lemma prepared:
  assumes "ExecInitAgg_aggs cat user True aggs = Inr (peragg, nos)"
  shows "\<forall>pa\<in>set peragg. sound_entry cat pa"
proof
  fix pa assume "pa \<in> set peragg"
  then obtain pas r where pas: "init_aggs cat user True aggs [] = Inr (pas, nos)" "(r, pa) \<in> set pas"
    using assms by (auto simp: ExecInitAgg_aggs_def bindE_Inr_iff)
  then have new: "new_peragg cat user True r = Inr pa"
    using init_aggs_ok [OF pas(1)] by (auto simp: own_entry_def)
  then have "transfn pa \<in> range (fmgr_info cat)" "\<forall>fn. finalfn pa = Some fn \<longrightarrow> fn \<in> range (fmgr_info cat)"
    by (auto simp: new_peragg_def Let_def bindE_Inr_iff split: if_splits)
  then show "sound_entry cat pa" using new_peragg_shape [OF new] by (auto simp: sound_entry_def)
qed

definition no_bug :: "pg_error + 'a \<Rightarrow> bool" where
  "no_bug r \<longleftrightarrow> r \<noteq> Inl Undefined_read \<and> r \<noteq> Inl Assertion_failed"

lemma no_bug_simps [simp]: "no_bug (Inr x)" "no_bug (Inl e) \<longleftrightarrow> e \<noteq> Undefined_read \<and> e \<noteq> Assertion_failed"
  by (auto simp: no_bug_def)

lemma no_bug_bind: "no_bug r \<Longrightarrow> (\<And>x. r = Inr x \<Longrightarrow> no_bug (f x)) \<Longrightarrow> no_bug (bindE r f)"
  by (cases r) auto

lemma no_bug_mapE: "(\<And>x. x \<in> set xs \<Longrightarrow> no_bug (f x)) \<Longrightarrow> no_bug (mapE f xs)"
  by (induction xs) (auto intro!: no_bug_bind)

definition started :: "'d AggStatePerAgg \<Rightarrow> 'd AggStatePerGroup \<Rightarrow> bool" where
  "started pa pg \<longleftrightarrow> (noTransValue pg \<longrightarrow> initValue pa = None)"

lemma transition_safe:
  assumes "fn_strict (transfn pa) \<Longrightarrow> noTransValue pg \<Longrightarrow> vs \<noteq> []" "\<And>vs. no_bug (fn_call (transfn pa) vs)"
  shows "no_bug (advance_transition_function pa pg vs)"
  using assms by (auto simp: advance_transition_function_def intro!: no_bug_bind split: list.split)

lemma advance_safe:
  assumes "sound_entry cat pa" "started pa pg" "\<forall>f vs. no_bug (fn_call (fmgr_info cat f) vs)"
    "\<forall>e s. no_bug (ExecEvalExpr cat e s)"
  shows "no_bug (advance_aggregate s (pa, pg))"
    "advance_aggregate s (pa, pg) = Inr pg' \<Longrightarrow> started pa pg'"
proof -
  have args: "no_bug (mapE (\<lambda>a. a s) (aggargs pa))"
    using assms(1,4) by (intro no_bug_mapE) (auto simp: sound_entry_def)
  have call: "no_bug (fn_call (transfn pa) vs)" for vs using assms(1,3) by (auto simp: sound_entry_def)
  have len: "length vs = length (aggargs pa)" if "mapE (\<lambda>a. a s) (aggargs pa) = Inr vs" for vs
    using that by (metis list_all2_lengthD mapE_Inr)
  have "no_bug (advance_transition_function pa pg vs)" if "mapE (\<lambda>a. a s) (aggargs pa) = Inr vs" for vs
    by (rule transition_safe) (use assms(1,2) call len [OF that] in \<open>auto simp: sound_entry_def started_def\<close>)
  then show "no_bug (advance_aggregate s (pa, pg))"
    using assms(1) args by (auto simp: advance_aggregate_def sound_entry_def intro: no_bug_bind)
  show "started pa pg'" if "advance_aggregate s (pa, pg) = Inr pg'"
    using that assms(1,2)
    by (auto simp: advance_aggregate_def advance_transition_function_def sound_entry_def started_def bindE_Inr_iff
        split: if_splits list.splits)
qed

lemma run_safe:
  assumes "\<forall>pa\<in>set peragg. sound_entry cat pa" "\<forall>f vs. no_bug (fn_call (fmgr_info cat f) vs)"
    "\<forall>e s. no_bug (ExecEvalExpr cat e s)"
  shows "no_bug (bindE (fold (run_advance peragg) ss (run_init peragg)) (finalize_hashed peragg))"
proof -
  have "no_bug (foldE (advance_aggregates peragg) ss pgs)"
    if "list_all2 started peragg pgs" for pgs
    using that
  proof (induction ss arbitrary: pgs)
    case (Cons s ss)
    have adv: "p \<in> set (zip peragg pgs) \<Longrightarrow> sound_entry cat (fst p) \<and> started (fst p) (snd p)" for p
      using assms(1) Cons.prems by (cases p) (auto simp: list_all2_iff dest: set_zip_leftD)
    have "no_bug (advance_aggregates peragg s pgs)"
      unfolding advance_aggregates_def
    proof (rule no_bug_mapE)
      fix p assume "p \<in> set (zip peragg pgs)"
      then show "no_bug (advance_aggregate s p)"
        using adv advance_safe(1) [OF _ _ assms(2,3), of "fst p" "snd p" s] by simp
    qed
    moreover have "list_all2 started peragg qs" if "advance_aggregates peragg s pgs = Inr qs" for qs
    proof -
      have "list_all2 (\<lambda>p q. advance_aggregate s p = Inr q) (zip peragg pgs) qs"
        using that by (simp add: advance_aggregates_def mapE_Inr)
      then have "started (peragg ! i) (qs ! i)" if "i < length peragg" for i
        using that Cons.prems adv [of "(peragg ! i, pgs ! i)"] advance_safe(2) [OF _ _ assms(2,3), of "peragg ! i" "pgs ! i" s "qs ! i"]
        by (auto simp: list_all2_conv_all_nth set_zip)
      moreover have "length qs = length peragg"
        using \<open>list_all2 _ _ qs\<close> Cons.prems by (auto simp: list_all2_conv_all_nth)
      ultimately show ?thesis by (simp add: list_all2_conv_all_nth)
    qed
    ultimately show ?case using Cons.IH by (auto intro: no_bug_bind)
  qed simp
  moreover have "list_all2 started peragg (initialize_aggregates peragg)"
    by (simp add: initialize_aggregates_def list_all2_conv_all_nth started_def initialize_aggregate_def)
  moreover have "no_bug (finalize_hashed peragg pgs)" for pgs
    unfolding finalize_hashed_def
  proof (rule no_bug_mapE)
    fix p assume p: "p \<in> set (zip peragg pgs)"
    obtain pa pg where "p = (pa, pg)" by (cases p)
    with p have "p = (pa, pg)" "sound_entry cat pa" using assms(1) by (auto dest: set_zip_leftD)
    then show "no_bug (case p of (pa, pg) \<Rightarrow> if aggdistinct pa then Inl Assertion_failed else finalize_aggregate pa pg)"
      using assms(2) by (auto simp: finalize_aggregate_def sound_entry_def split: option.split)
  qed
  ultimately show ?thesis by (auto simp: run_init_def fold_run_advance intro: no_bug_bind)
qed

lemma int8inc_no_bug: "no_bug (int8inc vs)"
  by (auto simp: int8inc_def Let_def split: list.split option.split datum.split)

lemma int4larger_no_bug: "no_bug (int4larger vs)"
  by (cases vs rule: int4larger.cases) simp_all

text \<open>C17. Aggregates that were set up never read an argument they do not have, and in a hash table
  never meet DISTINCT: unless a called function or expression does so itself, no input makes them
  do.\<close>

theorem ExecInitAgg_safe:
  assumes "ExecInitAgg_aggs cat user True aggs = Inr (peragg, nos)"
    "\<forall>f vs. no_bug (fn_call (fmgr_info cat f) vs)"
    "\<forall>e s. no_bug (ExecEvalExpr cat e s)"
  shows "no_bug (bindE (fold (run_advance peragg) ss (run_init peragg)) (finalize_hashed peragg))"
proof -
  have "\<forall>pa\<in>set peragg. sound_entry cat pa" by (rule prepared [OF assms(1)])
  then show ?thesis by (rule run_safe [OF _ assms(2,3)])
qed

lemma ExecInitAgg_safe_witness:
  "no_bug (bindE (fold (run_advance [count_star, max_int4 1 :: unit datum AggStatePerAgg]) [[Some 3], [None]]
     (run_init [count_star, max_int4 1])) (finalize_hashed [count_star, max_int4 1]))"
proof (rule ExecInitAgg_safe [where cat = "demo_catalog\<lparr>fmgr_info := (\<lambda>oid. if oid = 768 then \<lparr>fn_strict = True, fn_call = int4larger\<rparr>
      else \<lparr>fn_strict = True, fn_call = int8inc\<rparr>)\<rparr>"])
  show "ExecInitAgg_aggs (demo_catalog\<lparr>fmgr_info := (\<lambda>oid. if oid = 768 then \<lparr>fn_strict = True, fn_call = int4larger\<rparr>
      else \<lparr>fn_strict = True, fn_call = int8inc\<rparr>)\<rparr>) 10 True [agg_ref 2803 [], agg_ref 2116 [1]] =
    Inr ([count_star, max_int4 1], [0, 1])"
    by (simp add: ExecInitAgg_aggs_def new_peragg_def demo_catalog_def pg_aggregate_rows_def found_def resolve_transtype_def
        initial_value_def GetAggInitVal_def count_star_def max_int4_def plain_agg_def Let_def)
qed (auto simp: demo_catalog_def column_def int8inc_no_bug int4larger_no_bug)

text \<open>The columns an entry of the hash table keeps are the grouping columns and the variables
  outside of aggregates, in decreasing order, so that the first one is the last attribute to be
  read from a tuple.\<close>

theorem hash_needed_columns:
  "set (hash_needed tlist q cols) = set cols \<union> (\<Union>t\<in>set tlist \<union> set q. plain_vars t) \<and>
   sorted_wrt (>) (hash_needed tlist q cols) \<and>
   (cols \<noteq> [] \<longrightarrow> hash_needed tlist q cols \<noteq> [] \<and> (\<forall>c\<in>set cols. c \<le> hd (hash_needed tlist q cols)))"
proof -
  let ?A = "set cols \<union> (\<Union>t\<in>set tlist \<union> set q. plain_vars t)" and ?h = "hash_needed tlist q cols"
  have fin: "finite ?A" by auto
  have set: "set ?h = ?A" using fin by (simp add: hash_needed_list)
  have sorted: "sorted_wrt (>) ?h" using fin by (simp add: hash_needed_list sorted_wrt_rev)
  have "c \<le> hd ?h" if "c \<in> set cols" for c
  proof -
    have "c \<in> set ?h" using set that by simp
    then show ?thesis using sorted by (cases ?h) auto
  qed
  moreover have "cols \<noteq> [] \<longrightarrow> ?h \<noteq> []" using set by auto
  ultimately show ?thesis using set sorted by blast
qed

end
