(* ===== verification/AggQuery.thy ===== *)
theory AggQuery
  imports QueryRun AggInit
begin

text \<open>
  Whole queries with the built-in aggregates: from the statement and the system catalog to rows
  with their values.
\<close>

section \<open>Built-in aggregates\<close>

text \<open>What a reference to a built-in aggregate should return for a group, and on which inputs.\<close>

definition builtin_ref :: "nat Aggref \<Rightarrow> bool" where
  "builtin_ref r \<longleftrightarrow> agglevelsup r = 0 \<and> \<not> is_distinct r \<and>
     (aggfnoid r = 2803 \<and> agg_args r = [] \<or> aggfnoid r \<in> {2147, 2116, 2132, 2108, 2101} \<and> length (agg_args r) = 1)"

definition builtin_accepts :: "nat Aggref \<Rightarrow> slot list \<Rightarrow> bool" where
  "builtin_accepts r ss \<longleftrightarrow>
     (if aggfnoid r \<in> {2803, 2147, 2101} then counts ss
      else if aggfnoid r = 2108 then \<forall>v\<in>set (column_values (hd (agg_args r)) ss). int32 v else True)"

definition builtin_result :: "(int \<Rightarrow> 'n) \<Rightarrow> ('n \<Rightarrow> 'n \<Rightarrow> 'n) \<Rightarrow> nat Aggref \<Rightarrow> slot list \<Rightarrow> 'n datum option" where
  "builtin_result int8_numeric numeric_div r ss =
     (let att = hd (agg_args r) in
      if aggfnoid r = 2803 then Some (Int8 (int (length ss)))
      else if aggfnoid r = 2147 then Some (Int8 (int (length (column_values att ss))))
      else if aggfnoid r = 2116 then some_values (\<lambda>vs. Int4 (Max (set vs))) att ss
      else if aggfnoid r = 2132 then some_values (\<lambda>vs. Int4 (Min (set vs))) att ss
      else if aggfnoid r = 2108 then some_values (\<lambda>vs. Int8 (i64 (sum_list vs))) att ss
      else some_values (\<lambda>vs. Numeric (numeric_div (int8_numeric (i64 (sum_list vs))) (int8_numeric (int (length vs))))) att ss)"

lemma builtin_cases:
  assumes "builtin_ref r"
  obtains "r = agg_ref 2803 []" | att where "r = agg_ref 2147 [att]" | att where "r = agg_ref 2116 [att]"
    | att where "r = agg_ref 2132 [att]" | att where "r = agg_ref 2108 [att]" | att where "r = agg_ref 2101 [att]"
proof -
  obtain oid as where r: "r = agg_ref oid as"
    using assms by (cases r) (auto simp: builtin_ref_def)
  show thesis using assms that unfolding r by (auto simp: builtin_ref_def length_Suc_conv)
qed

lemma builtin_aggregate:
  assumes "builtin_catalog conv num_div cat" "builtin_ref r"
  shows "\<exists>pa. new_peragg cat user hashed r = Inr pa \<and> aggregate pa (builtin_accepts r) (builtin_result conv num_div r)"
  using assms(2)
proof (cases rule: builtin_cases)
  case 1
  then show ?thesis using new_peragg_builtin(1) [OF assms(1)] count_star.aggregate_axioms
    by (auto simp: builtin_accepts_def [abs_def] builtin_result_def [abs_def])
next
  case (2 att)
  then show ?thesis using new_peragg_builtin(2) [OF assms(1)] count_any.aggregate_axioms
    by (auto simp: builtin_accepts_def [abs_def] builtin_result_def [abs_def])
next
  case (3 att)
  then show ?thesis using new_peragg_builtin(3) [OF assms(1)] max_int4.aggregate_axioms
    by (auto simp: builtin_accepts_def [abs_def] builtin_result_def [abs_def])
next
  case (4 att)
  then show ?thesis using new_peragg_builtin(4) [OF assms(1)] min_int4.aggregate_axioms
    by (auto simp: builtin_accepts_def [abs_def] builtin_result_def [abs_def])
next
  case (5 att)
  then show ?thesis using new_peragg_builtin(5) [OF assms(1)] sum_int4.aggregate_axioms
    by (auto simp: builtin_accepts_def [abs_def] builtin_result_def [abs_def])
next
  case (6 att)
  then show ?thesis using new_peragg_builtin(6) [OF assms(1)] avg_int4.aggregate_axioms
    by (auto simp: builtin_accepts_def [abs_def] builtin_result_def [abs_def])
qed

section \<open>Set-up of the node\<close>

text \<open>The values a row shows for the aggregate references of the target list: \<open>ExecEvalAggref\<close> reads
  \<open>ecxt_aggvalues\<close> at the \<open>aggno\<close> of the reference.\<close>

definition aggvalues :: "nat list \<Rightarrow> pg_error + 'd list \<Rightarrow> pg_error + 'd list" where
  "aggvalues nos r = bindE r (\<lambda>vs. Inr (map (\<lambda>n. vs ! n) nos))"

definition sets_up :: "('d, 'e) catalog \<Rightarrow> nat \<Rightarrow> 'e Aggref list \<Rightarrow>
    (pg_error + 'd AggStatePerGroup list, pg_error + 'd option list) agg_env \<Rightarrow> bool" where
  "sets_up cat user aggs aenv =
     (case ExecInitAgg_aggs cat user True aggs of
        Inl _ \<Rightarrow> False
      | Inr (peragg, nos) \<Rightarrow> agg_init aenv = run_init peragg \<and> agg_advance aenv = run_advance peragg \<and>
          agg_final aenv = (\<lambda>r. aggvalues nos (bindE r (finalize_hashed peragg))))"

lemma aggregate_values:
  assumes "builtin_catalog conv num_div cat" "sets_up cat user aggs aenv"
    "\<forall>r\<in>set aggs. builtin_ref r \<and> builtin_accepts r g"
  shows "agg_final aenv (fold (agg_advance aenv) g (agg_init aenv)) = Inr (map (\<lambda>r. builtin_result conv num_div r g) aggs)"
proof -
  obtain peragg nos where init: "ExecInitAgg_aggs cat user True aggs = Inr (peragg, nos)" "agg_init aenv = run_init peragg"
    "agg_advance aenv = run_advance peragg" "agg_final aenv = (\<lambda>r. aggvalues nos (bindE r (finalize_hashed peragg)))"
    using assms(2) by (auto simp: sets_up_def split: sum.splits)
  have shares: "length nos = length aggs" "set nos = {..<length peragg}"
    "\<And>j. j < length aggs \<Longrightarrow> new_peragg cat user True (aggs ! j) = Inr (peragg ! (nos ! j))"
    using ExecInitAgg_entries [OF init(1)] by (blast, blast, blast)
  have val: "\<not> aggdistinct (peragg ! (nos ! j)) \<and>
      run_aggregate (peragg ! (nos ! j)) g = Inr (builtin_result conv num_div (aggs ! j) g)" if "j < length aggs" for j
  proof -
    have r: "builtin_ref (aggs ! j)" "builtin_accepts (aggs ! j) g" using assms(3) that by simp_all
    obtain pa where pa: "new_peragg cat user True (aggs ! j) = Inr pa"
      "aggregate pa (builtin_accepts (aggs ! j)) (builtin_result conv num_div (aggs ! j))"
      using builtin_aggregate [OF assms(1) r(1), where user = user and hashed = True] by blast
    then have "pa = peragg ! (nos ! j)" using shares(3) [OF that] by simp
    then show ?thesis
      using aggregate.not_distinct [OF pa(2)] aggregate.computes [OF pa(2) r(2)] by simp
  qed
  define rs where "rs = map (\<lambda>i. SOME v. run_aggregate (peragg ! i) g = Inr v) [0..<length peragg]"
  have "\<not> aggdistinct (peragg ! i) \<and> run_aggregate (peragg ! i) g = Inr (rs ! i)" if "i < length peragg" for i
  proof -
    have "i \<in> set nos" using shares(2) that by simp
    then obtain j where "j < length aggs" "nos ! j = i" using shares(1) by (auto simp: in_set_conv_nth)
    then have "\<not> aggdistinct (peragg ! i)" "\<exists>v. run_aggregate (peragg ! i) g = Inr v" using val by auto
    then show ?thesis using that by (auto simp: rs_def intro: someI_ex)
  qed
  then have "list_all2 (\<lambda>pa r. \<not> aggdistinct pa \<and> run_aggregate pa g = Inr r) peragg rs"
    by (simp add: list_all2_conv_all_nth rs_def)
  then have "bindE (fold (run_advance peragg) g (run_init peragg)) (finalize_hashed peragg) = Inr rs" by (rule run_aggregates)
  moreover have "rs ! (nos ! j) = builtin_result conv num_div (aggs ! j) g" if "j < length aggs" for j
  proof -
    have "nos ! j < length peragg" using shares(1,2) that by (metis lessThan_iff nth_mem)
    then show ?thesis using val [OF that] by (simp add: rs_def)
  qed
  ultimately show ?thesis
    using shares(1) by (simp add: init(2-4) aggvalues_def list_eq_iff_nth_eq)
qed

lemma builtin_accepts_part:
  "builtin_accepts r ss \<Longrightarrow> mset g \<subseteq># mset ss \<Longrightarrow> builtin_accepts r g"
  using column_values_part by (fastforce simp: builtin_accepts_def counts_part split: if_splits)

section \<open>Properties\<close>

text \<open>C2. A query \<open>SELECT\<close> of built-in aggregates over \<open>GROUP BY x, y DISTANCE-ALL WITHIN e METRIC
  LONE ON_OVERLAP ANY\<close>, set up from the catalog, planned and run, returns without an error for every
  input of at most 2,000,000 points in range (the cells of \<open>hasharray\<close>), on the node that
  \<open>ExecInitAgg\<close> sets up; \<open>e\<close> is above 0 (with 0 there is no \<open>hasharray\<close>). Its rows come from a partition of the input into groups whose points
  are pairwise within \<open>e\<close>; a row has the key of its group and, for every aggregate reference,
  the count, maximum, minimum, sum or average of the tuples of this group.\<close>

theorem query_distance_all_aggregates:
  assumes "aroundSelectStmt stmt = None" "distinct (map fst sortClause)" "card (set grouplist) = 2" "hasAggs env"
    "eps_ok (sgb_distanceAll stmt)" "sgb_metric stmt = 1" "sgb_hasOverlap stmt = 1"
    "list_all (\<lambda>s. slot_ok s) ss" "length ss \<le> sizeofgroup" "scan_ok (env_scan aenv)"
    "builtin_catalog conv num_div cat" "sets_up cat user aggs aenv"
    "\<forall>r\<in>set aggs. builtin_ref r \<and> builtin_accepts r ss"
  shows "\<exists>sort node rows gs. plan_query analyze oper env stmt grouplist sortClause = Some (sort, Agg_node node None) \<and>
    ExecAgg aenv node (ExecInitAgg_state node junk st) None ss = Some rows \<and> mset (concat gs) = mset ss \<and>
    (\<forall>g\<in>set gs. clique (sgb_distanceAll stmt) (point_of ` set g)) \<and>
    mset rows = filter_mset (\<lambda>(k, r). agg_having aenv k r)
      (image_mset (\<lambda>g. (Some (group_key g), Inr (map (\<lambda>r. builtin_result conv num_div r g) aggs))) (mset gs))"
proof -
  obtain sort node rows gs where q: "plan_query analyze oper env stmt grouplist sortClause = Some (sort, Agg_node node None)"
    "ExecAgg aenv node (ExecInitAgg_state node junk st) None ss = Some rows" "mset (concat gs) = mset ss"
    "\<forall>g\<in>set gs. clique (sgb_distanceAll stmt) (point_of ` set g)"
    "mset rows = filter_mset (\<lambda>(k, r). agg_having aenv k r)
      (image_mset (\<lambda>g. (Some (group_key g), agg_final aenv (fold (agg_advance aenv) g (agg_init aenv)))) (mset gs))"
    using distance_all_any_rows [OF assms(1-10), of analyze oper junk st] by blast
  have "agg_final aenv (fold (agg_advance aenv) g (agg_init aenv)) = Inr (map (\<lambda>r. builtin_result conv num_div r g) aggs)"
    if "g \<in> set gs" for g
  proof (rule aggregate_values [OF assms(11,12)])
    have "mset g \<subseteq># mset ss" using that unfolding q(3) [symmetric] by (auto dest: split_list)
    then show "\<forall>r\<in>set aggs. builtin_ref r \<and> builtin_accepts r g" using assms(13) builtin_accepts_part by blast
  qed
  then have "image_mset (\<lambda>g. (Some (group_key g), agg_final aenv (fold (agg_advance aenv) g (agg_init aenv)))) (mset gs) =
      image_mset (\<lambda>g. (Some (group_key g), Inr (map (\<lambda>r. builtin_result conv num_div r g) aggs))) (mset gs)"
    by (intro image_mset_cong) simp
  then have "mset rows = filter_mset (\<lambda>(k, r). agg_having aenv k r)
      (image_mset (\<lambda>g. (Some (group_key g), Inr (map (\<lambda>r. builtin_result conv num_div r g) aggs))) (mset gs))"
    using q(5) by (simp only:)
  then show ?thesis using q(1-4) by blast
qed

definition demo_aggs :: "nat Aggref list" where
  "demo_aggs = [agg_ref 2803 [], agg_ref 2116 [1], agg_ref 2803 []]"

definition demo_agg_env :: "(pg_error + unit datum AggStatePerGroup list, pg_error + unit datum option list) agg_env" where
  "demo_agg_env = \<lparr>env_scan = sorted_scan, env_acos = (\<lambda>_. None), grpColIdx = [1, 2], uninit_flags = (False, False),
     agg_init = run_init [count_star, max_int4 1], agg_advance = run_advance [count_star, max_int4 1],
     agg_final = (\<lambda>r. aggvalues [0, 1, 0] (bindE r (finalize_hashed [count_star, max_int4 1]))), agg_having = (\<lambda>_ _. True)\<rparr>"

lemma demo_sets_up: "sets_up demo_catalog 10 demo_aggs demo_agg_env"
proof -
  have "ExecInitAgg_aggs demo_catalog 10 True demo_aggs = Inr ([count_star, max_int4 1], [0, 1, 0])"
    by (simp add: demo_aggs_def ExecInitAgg_aggs_def new_peragg_builtin [OF demo_builtin] demo_volatile)
  then show ?thesis by (simp add: sets_up_def demo_agg_env_def)
qed

lemma demo_agg_scan: "scan_ok (env_scan demo_agg_env)"
  by (simp add: demo_agg_env_def sorted_scan_ok)

lemma query_distance_all_aggregates_witness:
  "let stmt = demo_stmt\<lparr>sgb_metric := 1\<rparr>; ss = [slot_of [0, 0], slot_of [12, 0], slot_of [2, 3]] in
   \<exists>sort node rows gs. plan_query (\<lambda>n. Some n) (\<lambda>_. True) demo_planner stmt [5, 7] [] = Some (sort, Agg_node node None) \<and>
    ExecAgg demo_agg_env node (ExecInitAgg_state node (\<lambda>_. blank_element) demo_state) None ss = Some rows \<and> mset (concat gs) = mset ss \<and>
    (\<forall>g\<in>set gs. clique (sgb_distanceAll stmt) (point_of ` set g)) \<and>
    mset rows = filter_mset (\<lambda>(k, r). agg_having demo_agg_env k r)
      (image_mset (\<lambda>g. (Some (group_key g), Inr (map (\<lambda>r. builtin_result (\<lambda>_. ()) (\<lambda>_ _. ()) r g) demo_aggs))) (mset gs))"
  unfolding Let_def
  by (rule query_distance_all_aggregates [where cat = demo_catalog and user = 10])
    (simp_all add: demo_stmt_def demo_planner_def demo_agg_scan eps_ok_iff sizeofgroup_def
      slot_point_def slot2_def slot_of_def pt_ok_def point_of_def demo_builtin demo_sets_up [unfolded demo_aggs_def, simplified] demo_aggs_def builtin_ref_def
      builtin_accepts_def counts_def)

end
