(* ===== verification/AggStream.thy ===== *)
theory AggStream
  imports NodeAggExec
begin

text \<open>
  The hashed aggregation as the executor drives it (\<^verbatim>\<open>executor/nodeAgg.c\<close>): every call of \<open>ExecAgg\<close>
  returns one row, the first one fills the hash table, and \<open>ExecReScanAgg\<close> may come between any
  two calls. The calls until NULL return the rows of \<open>NodeAggExec.ExecAgg\<close>. A rescan over the same
  input repeats them; a rescan over changed input is right for standard grouping, but the
  R-tree and the sets of the similarity operators survive it.
\<close>

section \<open>Node\<close>

record 'a HashNode =
  agg_done :: bool
  table_filled :: bool
  core :: "'a AggState"
  hashiter :: "slot list"

definition fresh_node :: "'a AggState \<Rightarrow> 'a HashNode" where
  "fresh_node st = \<lparr>agg_done = False, table_filled = False, core = st, hashiter = []\<rparr>"

text \<open>The operator that fills the table.\<close>

definition fill_table :: "('a, 'r) agg_env \<Rightarrow> Agg_plan \<Rightarrow> slot list option \<Rightarrow> 'a AggState \<Rightarrow> slot list \<Rightarrow> 'a AggState option" where
  "fill_table env node righttree st outer =
     (let init = agg_init env; advance = agg_advance env in
      case righttree of
        None \<Rightarrow>
          if max_group_diam node \<noteq> -1 \<or> max_elem_sep node \<noteq> -1 then agg_fill_hash_table_unsupervised node init advance st outer
          else if distanceall node \<noteq> -1
          then agg_fill_hash_table_SGBTOAll (env_scan env) (env_acos env) node init advance st outer
          else if distanceany node \<noteq> -1 then agg_fill_hash_table_SGBTOANY node init advance st outer
          else agg_fill_hash_table node init advance st outer
      | Some inner \<Rightarrow>
          if max_group_diam node \<noteq> -1 \<and> max_elem_sep node \<noteq> -1 then None
          else if max_group_diam node \<noteq> -1
          then agg_fill_hash_table_around_MaxR node init advance (uninit_flags env) st inner outer
          else if max_elem_sep node \<noteq> -1 then agg_fill_hash_table_around_MaxS node init advance st inner outer
          else agg_fill_hash_table_around node init advance st inner outer)"

text \<open>The entries that \<open>agg_retrieve_hash_table\<close> and \<open>agg_retrieve_hash_table_around_MaxS\<close> pass
  over.\<close>

definition skips :: "Agg_plan \<Rightarrow> slot list option \<Rightarrow> 'a AggHashEntry \<Rightarrow> bool" where
  "skips node righttree e =
     (if righttree \<noteq> None \<and> max_elem_sep node \<noteq> -1 then flagEnabled e \<noteq> 2
      else flagEnabled e = 0 \<and> overlap node = 2)"

text \<open>One call of the retrieval: the next row, if there is one, and the rest of the scan.\<close>

fun next_row :: "('a AggHashEntry \<Rightarrow> bool) \<Rightarrow> ('a \<Rightarrow> 'r) \<Rightarrow> (slot \<Rightarrow> 'r \<Rightarrow> bool) \<Rightarrow> slot list \<Rightarrow>
    (slot \<Rightarrow> 'a AggHashEntry option) \<Rightarrow> ((slot \<times> 'r) option \<times> slot list) option" where
  "next_row skip final having [] h = Some (None, [])"
| "next_row skip final having (k # ks) h =
     (case h k of
        None \<Rightarrow> None
      | Some e \<Rightarrow>
          if skip e then next_row skip final having ks h
          else if having k (final (pergroup e)) then Some (Some (k, final (pergroup e)), ks)
          else next_row skip final having ks h)"

definition filled_node :: "('a, 'r) agg_env \<Rightarrow> Agg_plan \<Rightarrow> slot list option \<Rightarrow> slot list \<Rightarrow> 'a HashNode \<Rightarrow> 'a HashNode option" where
  "filled_node env node righttree outer x =
     (if table_filled x then Some x
      else map_option (\<lambda>st. x\<lparr>table_filled := True, core := st, hashiter := env_scan env (hashtable st)\<rparr>)
             (fill_table env node righttree (core x) outer))"

definition ExecAgg_row :: "('a, 'r) agg_env \<Rightarrow> Agg_plan \<Rightarrow> slot list option \<Rightarrow> slot list \<Rightarrow> 'a HashNode \<Rightarrow>
    ((slot \<times> 'r) option \<times> 'a HashNode) option" where
  "ExecAgg_row env node righttree outer x =
     (if agg_done x then Some (None, x)
      else case filled_node env node righttree outer x of
        None \<Rightarrow> None
      | Some y \<Rightarrow>
          (case next_row (skips node righttree) (agg_final env) (\<lambda>k. agg_having env (Some k)) (hashiter y) (hashtable (core y)) of
             None \<Rightarrow> None
           | Some (None, ks) \<Rightarrow> Some (None, y\<lparr>agg_done := True, hashiter := ks\<rparr>)
           | Some (Some r, ks) \<Rightarrow> Some (Some r, y\<lparr>hashiter := ks\<rparr>)))"

text \<open>\<open>ExecReScanAgg\<close>; \<open>chgParam\<close> says that parameters of the outer plan have changed. The reset
  of the memory frees the entries, and the hash table is built anew, empty; nothing else of the
  state is touched.\<close>

definition ExecReScanAgg :: "('a, 'r) agg_env \<Rightarrow> bool \<Rightarrow> 'a HashNode \<Rightarrow> 'a HashNode" where
  "ExecReScanAgg env chgParam x =
     (if \<not> table_filled x then x\<lparr>agg_done := False\<rparr>
      else if \<not> chgParam then x\<lparr>agg_done := False, hashiter := env_scan env (hashtable (core x))\<rparr>
      else x\<lparr>agg_done := False, table_filled := False, core := (core x)\<lparr>hashtable := (\<lambda>_. None)\<rparr>\<rparr>)"

text \<open>The calls until NULL, and any sequence of calls and rescans over the same input.\<close>

inductive fetches :: "('a, 'r) agg_env \<Rightarrow> Agg_plan \<Rightarrow> slot list option \<Rightarrow> slot list \<Rightarrow>
    'a HashNode \<Rightarrow> (slot \<times> 'r) list \<Rightarrow> 'a HashNode \<Rightarrow> bool"
  for env :: "('a, 'r) agg_env" and node righttree outer where
  fetch_end: "ExecAgg_row env node righttree outer x = Some (None, y) \<Longrightarrow> fetches env node righttree outer x [] y"
| fetch_row: "ExecAgg_row env node righttree outer x = Some (Some r, x') \<Longrightarrow> fetches env node righttree outer x' rows y \<Longrightarrow>
    fetches env node righttree outer x (r # rows) y"

inductive used :: "('a, 'r) agg_env \<Rightarrow> Agg_plan \<Rightarrow> slot list option \<Rightarrow> slot list \<Rightarrow> 'a HashNode \<Rightarrow> 'a HashNode \<Rightarrow> bool"
  for env :: "('a, 'r) agg_env" and node righttree outer x where
  unused: "used env node righttree outer x x"
| called: "used env node righttree outer x y \<Longrightarrow> ExecAgg_row env node righttree outer y = Some (r, z) \<Longrightarrow>
    used env node righttree outer x z"
| rescanned: "used env node righttree outer x y \<Longrightarrow> used env node righttree outer x (ExecReScanAgg env False y)"

inductive_cases fetches_NilE: "fetches env node righttree outer x [] y"
inductive_cases fetches_ConsE: "fetches env node righttree outer x (r # rows) y"

section \<open>Rows\<close>

text \<open>All rows of a scan.\<close>

fun all_rows :: "('a AggHashEntry \<Rightarrow> bool) \<Rightarrow> ('a \<Rightarrow> 'r) \<Rightarrow> (slot \<Rightarrow> 'r \<Rightarrow> bool) \<Rightarrow> slot list \<Rightarrow>
    (slot \<Rightarrow> 'a AggHashEntry option) \<Rightarrow> (slot \<times> 'r) list option" where
  "all_rows skip final having [] h = Some []"
| "all_rows skip final having (k # ks) h =
     (case h k of
        None \<Rightarrow> None
      | Some e \<Rightarrow>
          if skip e then all_rows skip final having ks h
          else map_option (\<lambda>rows. if having k (final (pergroup e)) then (k, final (pergroup e)) # rows else rows)
                 (all_rows skip final having ks h))"

lemma retrieve_all_rows:
  "agg_retrieve_hash_table node final having ks st =
     all_rows (\<lambda>e. flagEnabled e = 0 \<and> overlap node = 2) final having ks (hashtable st)"
  "agg_retrieve_hash_table_around_MaxS final having ks st = all_rows (\<lambda>e. flagEnabled e \<noteq> 2) final having ks (hashtable st)"
  by (induction ks) (simp_all split: option.split)

definition node_rows :: "('a, 'r) agg_env \<Rightarrow> Agg_plan \<Rightarrow> slot list option \<Rightarrow> 'a AggState \<Rightarrow> (slot \<times> 'r) list option" where
  "node_rows env node righttree st =
     all_rows (skips node righttree) (agg_final env) (\<lambda>k. agg_having env (Some k)) (env_scan env (hashtable st)) (hashtable st)"

lemma ExecAgg_rows:
  assumes "aggstrategy node = AGG_HASHED"
  shows "ExecAgg env node st righttree outer =
    Option.bind (fill_table env node righttree st outer) (\<lambda>st'. map_option (map (\<lambda>(k, r). (Some k, r))) (node_rows env node righttree st'))"
proof -
  have skip: "skips node None = (\<lambda>e. flagEnabled e = 0 \<and> overlap node = 2)"
    "max_elem_sep node \<noteq> -1 \<Longrightarrow> skips node (Some inner) = (\<lambda>e. flagEnabled e \<noteq> 2)"
    "max_elem_sep node = -1 \<Longrightarrow> skips node (Some inner) = (\<lambda>e. flagEnabled e = 0 \<and> overlap node = 2)" for inner
    by (auto simp: skips_def fun_eq_iff)
  have rows: "hash_rows (env_scan env) node (agg_final env) (agg_having env) =
      (\<lambda>st'. map_option (map (\<lambda>(k, r). (Some k, r))) (all_rows (\<lambda>e. flagEnabled e = 0 \<and> overlap node = 2) (agg_final env)
         (\<lambda>k. agg_having env (Some k)) (env_scan env (hashtable st')) (hashtable st')))"
    "hash_rows_MaxS (env_scan env) (agg_final env) (agg_having env) =
      (\<lambda>st'. map_option (map (\<lambda>(k, r). (Some k, r))) (all_rows (\<lambda>e. flagEnabled e \<noteq> 2) (agg_final env)
         (\<lambda>k. agg_having env (Some k)) (env_scan env (hashtable st')) (hashtable st')))"
    by (simp_all add: hash_rows_def hash_rows_MaxS_def retrieve_all_rows fun_eq_iff)
  show ?thesis
  proof (cases righttree)
    case None
    then show ?thesis using assms
      by (simp add: ExecAgg_def exec_hashed_plain_def fill_table_def node_rows_def rows skip(1) Let_def)
  next
    case (Some inner)
    show ?thesis
    proof (cases "max_elem_sep node = -1")
      case True
      then show ?thesis using assms Some
        by (simp add: ExecAgg_def exec_hashed_around_def fill_table_def node_rows_def rows skip(3) Let_def)
    next
      case False
      then show ?thesis using assms Some
        by (simp add: ExecAgg_def exec_hashed_around_def fill_table_def node_rows_def rows skip(2) Let_def)
    qed
  qed
qed

section \<open>Calls until NULL\<close>

lemma fetches_same_row:
  assumes "ExecAgg_row env node righttree outer x = ExecAgg_row env node righttree outer x'" "fetches env node righttree outer x' rows y"
  shows "fetches env node righttree outer x rows y"
  using assms(2)
proof (cases rule: fetches.cases)
  case fetch_end
  then show ?thesis using assms(1) by (simp add: fetches.fetch_end)
next
  case (fetch_row r x'' rows')
  then show ?thesis using assms(1) by (auto intro: fetches.fetch_row)
qed

lemma fetches_scan:
  assumes "table_filled x" "\<not> agg_done x"
    "all_rows (skips node righttree) (agg_final env) (\<lambda>k. agg_having env (Some k)) (hashiter x) (hashtable (core x)) = Some rows"
  shows "\<exists>y. fetches env node righttree outer x rows y \<and> agg_done y \<and> table_filled y \<and> core y = core x"
  using assms
proof (induction "hashiter x" arbitrary: x rows)
  case Nil
  then have "ExecAgg_row env node righttree outer x = Some (None, x\<lparr>agg_done := True, hashiter := []\<rparr>)" "rows = []"
    by (simp_all add: ExecAgg_row_def filled_node_def flip: Nil(1))
  then show ?case using Nil.prems(1) by (auto intro: fetch_end)
next
  case (Cons k ks)
  let ?x = "x\<lparr>hashiter := ks\<rparr>"
  have it: "hashiter x = k # ks" using Cons.hyps(2) by simp
  obtain e where e: "hashtable (core x) k = Some e" using Cons.prems(3) it by (auto split: option.splits)
  have IH: "all_rows (skips node righttree) (agg_final env) (\<lambda>k. agg_having env (Some k)) ks (hashtable (core x)) = Some rs \<Longrightarrow>
      \<exists>y. fetches env node righttree outer ?x rs y \<and> agg_done y \<and> table_filled y \<and> core y = core x" for rs
    using Cons.hyps(1) [of ?x rs] Cons.prems(1,2) by simp
  show ?case
  proof (cases "\<not> skips node righttree e \<and> agg_having env (Some k) (agg_final env (pergroup e))")
    case True
    then obtain rs where rs: "rows = (k, agg_final env (pergroup e)) # rs"
      "all_rows (skips node righttree) (agg_final env) (\<lambda>k. agg_having env (Some k)) ks (hashtable (core x)) = Some rs"
      using Cons.prems(3) it e by auto
    have "ExecAgg_row env node righttree outer x = Some (Some (k, agg_final env (pergroup e)), ?x)"
      using True e it Cons.prems(1,2) by (simp add: ExecAgg_row_def filled_node_def)
    then show ?thesis using IH [OF rs(2)] rs(1) by (auto intro: fetch_row)
  next
    case False
    have "ExecAgg_row env node righttree outer x = ExecAgg_row env node righttree outer ?x"
      using False e it Cons.prems(1,2) by (auto simp: ExecAgg_row_def filled_node_def split: option.split)
    moreover have "all_rows (skips node righttree) (agg_final env) (\<lambda>k. agg_having env (Some k)) ks (hashtable (core x)) = Some rows"
      using Cons.prems(3) it e False by (auto split: if_splits)
    ultimately show ?thesis using IH fetches_same_row by blast
  qed
qed

lemma fetches_filled:
  assumes "\<not> agg_done x" "\<not> table_filled x" "fill_table env node righttree (core x) outer = Some st"
    "node_rows env node righttree st = Some rows"
  shows "\<exists>y. fetches env node righttree outer x rows y \<and> agg_done y \<and> table_filled y \<and> core y = st"
proof -
  let ?x = "x\<lparr>table_filled := True, core := st, hashiter := env_scan env (hashtable st)\<rparr>"
  have "ExecAgg_row env node righttree outer x = ExecAgg_row env node righttree outer ?x"
    using assms(1-3) by (simp add: ExecAgg_row_def filled_node_def)
  moreover have "\<exists>y. fetches env node righttree outer ?x rows y \<and> agg_done y \<and> table_filled y \<and> core y = core ?x"
    by (rule fetches_scan) (use assms(1,4) in \<open>simp_all add: node_rows_def\<close>)
  ultimately show ?thesis using fetches_same_row by fastforce
qed

lemma fetches_unique:
  "fetches env node righttree outer x rows y \<Longrightarrow> fetches env node righttree outer x rows' y' \<Longrightarrow> rows' = rows \<and> y' = y"
proof (induction arbitrary: rows' rule: fetches.induct)
  case (fetch_end x y)
  from fetch_end.prems show ?case by (cases rule: fetches.cases) (use fetch_end.hyps in auto)
next
  case (fetch_row x r x' rows y)
  show ?case
    using fetch_row.prems fetch_row.hyps(1) fetch_row.IH by (cases rule: fetches.cases) auto
qed

section \<open>Rescans\<close>

lemma used_core:
  assumes "used env node righttree outer (fresh_node st) y" "fill_table env node righttree st outer = Some st'"
  shows "table_filled y \<and> core y = st' \<or> \<not> table_filled y \<and> \<not> agg_done y \<and> core y = st"
  using assms(1)
proof (induction rule: used.induct)
  case unused
  then show ?case by (simp add: fresh_node_def)
next
  case (called y r z)
  then show ?case using assms(2)
    by (auto simp: ExecAgg_row_def filled_node_def split: if_splits option.splits)
next
  case (rescanned y)
  then show ?case by (auto simp: ExecReScanAgg_def)
qed

lemma used_filled:
  assumes "used env node righttree outer (fresh_node st) y" "table_filled y"
  obtains st' where "fill_table env node righttree st outer = Some st'"
proof -
  have "(table_filled y \<longrightarrow> fill_table env node righttree st outer \<noteq> None) \<and> (\<not> table_filled y \<longrightarrow> core y = st)"
    using assms(1)
  proof (induction rule: used.induct)
    case (called y r z)
    then show ?case by (auto simp: ExecAgg_row_def filled_node_def split: if_splits option.splits)
  qed (auto simp: fresh_node_def ExecReScanAgg_def)
  then show thesis using assms(2) that by auto
qed

lemma ExecAgg_parts:
  assumes "aggstrategy node = AGG_HASHED" "ExecAgg env node st righttree outer = Some rows"
  obtains st' rows' where "fill_table env node righttree st outer = Some st'" "node_rows env node righttree st' = Some rows'"
    "rows = map (\<lambda>(k, r). (Some k, r)) rows'"
  using assms(2) unfolding ExecAgg_rows [OF assms(1)] by (auto simp: bind_eq_Some_conv)

text \<open>C12. The calls of a hashed \<open>ExecAgg\<close> end: they return the rows of the whole aggregation one
  after the other, then NULL, and from then on NULL.\<close>

theorem ExecAgg_calls_end:
  assumes "aggstrategy node = AGG_HASHED" "ExecAgg env node st righttree outer = Some rows"
  shows "\<exists>rows' y. fetches env node righttree outer (fresh_node st) rows' y \<and> rows = map (\<lambda>(k, r). (Some k, r)) rows' \<and>
    ExecAgg_row env node righttree outer y = Some (None, y)"
proof -
  obtain st' rows' where r: "fill_table env node righttree st outer = Some st'" "node_rows env node righttree st' = Some rows'"
    "rows = map (\<lambda>(k, r). (Some k, r)) rows'" by (rule ExecAgg_parts [OF assms])
  have "\<exists>y. fetches env node righttree outer (fresh_node st) rows' y \<and> agg_done y \<and> table_filled y \<and> core y = st'"
    by (rule fetches_filled [OF _ _ _ r(2)]) (simp_all add: fresh_node_def r(1))
  then show ?thesis using r(3) by (auto simp: ExecAgg_row_def)
qed

text \<open>A node for evaluations: two columns, standard grouping, one tuple.\<close>

abbreviation demo_standard :: Agg_plan where
  "demo_standard \<equiv> (demo_plan 2 (-1))\<lparr>distanceall := -1, distanceany := -1\<rparr>"

lemma demo_standard_rows:
  "ExecAgg (demo_env [1, 2]) demo_standard demo_state None [slot_of [i, j]] = Some [(Some (slot_of [i, j]), 1)]"
  by (simp add: ExecAgg_def exec_hashed_plain_def hash_rows_def demo_env_def demo_plan_def tally_tuple_def lookup_hash_entry_def
      update_entry_def hash_room_def sizeofgroup_def demo_state_def new_entry_def zero_entry_def hash_key_def slot_of_def sorted_scan_def Let_def)

lemma ExecAgg_calls_end_witness:
  "\<exists>rows' y. fetches (demo_env [1, 2]) demo_standard None [slot_of [3, 4]] (fresh_node demo_state) rows' y \<and>
    [(Some (slot_of [3, 4]), 1)] = map (\<lambda>(k, r). (Some k, r)) rows' \<and>
    ExecAgg_row (demo_env [1, 2]) demo_standard None [slot_of [3, 4]] y = Some (None, y)"
  by (rule ExecAgg_calls_end [OF _ demo_standard_rows]) (simp add: demo_plan_def)

text \<open>C13. However the node was used before, a rescan without changed parameters makes it return all
  rows again.\<close>

theorem ExecReScanAgg_repeats:
  assumes "aggstrategy node = AGG_HASHED" "ExecAgg env node st righttree outer = Some rows"
    "used env node righttree outer (fresh_node st) y"
  shows "\<exists>rows' z. fetches env node righttree outer (ExecReScanAgg env False y) rows' z \<and> rows = map (\<lambda>(k, r). (Some k, r)) rows'"
proof -
  obtain st' rows' where r: "fill_table env node righttree st outer = Some st'" "node_rows env node righttree st' = Some rows'"
    "rows = map (\<lambda>(k, r). (Some k, r)) rows'" by (rule ExecAgg_parts [OF assms(1,2)])
  let ?y = "ExecReScanAgg env False y"
  have "\<exists>z. fetches env node righttree outer ?y rows' z"
  proof (cases "table_filled y")
    case True
    then have "core y = st'" using used_core [OF assms(3) r(1)] by blast
    then have "\<exists>z. fetches env node righttree outer ?y rows' z \<and> agg_done z \<and> table_filled z \<and> core z = core ?y"
      by (intro fetches_scan) (use True r(2) in \<open>simp_all add: ExecReScanAgg_def node_rows_def\<close>)
    then show ?thesis by blast
  next
    case False
    then have "core y = st" using used_core [OF assms(3) r(1)] by blast
    then have "\<exists>z. fetches env node righttree outer ?y rows' z \<and> agg_done z \<and> table_filled z \<and> core z = st'"
      by (intro fetches_filled [OF _ _ _ r(2)]) (use False r(1) in \<open>simp_all add: ExecReScanAgg_def\<close>)
    then show ?thesis by blast
  qed
  then show ?thesis using r(3) by blast
qed

lemma ExecReScanAgg_repeats_witness:
  "\<exists>rows' z. fetches (demo_env [1, 2]) demo_standard None [slot_of [3, 4]]
      (ExecReScanAgg (demo_env [1, 2]) False (ExecReScanAgg (demo_env [1, 2]) False (fresh_node demo_state))) rows' z \<and>
    [(Some (slot_of [3, 4]), 1)] = map (\<lambda>(k, r). (Some k, r)) rows'"
  by (rule ExecReScanAgg_repeats [OF _ demo_standard_rows rescanned [OF unused]]) (simp add: demo_plan_def)

text \<open>Standard grouping reads nothing of the state but the hash table, and whether \<open>hasharray\<close> has
  the cell that it writes.\<close>

lemma tally_hashtable:
  assumes "overlap node \<noteq> 2" "hashtable st = hashtable st2" "hash_room st" "hash_room st2"
  shows "hashtable (put_group node init advance m s st) = hashtable (put_group node init advance m s st2)"
  using assms by (auto simp: put_group_def tally_tuple_def lookup_hash_entry_def update_entry_def Let_def split: option.split)

lemma puts_hashtable:
  assumes "overlap node \<noteq> 2" "hashtable st = hashtable st2" "hash_room st" "hash_room st2"
  shows "hashtable (fold (\<lambda>(m, s). put_group node init advance m s) xs st) =
    hashtable (fold (\<lambda>(m, s). put_group node init advance m s) xs st2)"
  using assms(2-4)
proof (induction xs arbitrary: st st2)
  case (Cons x xs)
  show ?case
    by (cases x) (simp, rule Cons.IH, rule tally_hashtable [OF assms(1) Cons.prems],
      rule put_group_ok(2) [OF Cons.prems(2)], rule put_group_ok(2) [OF Cons.prems(3)])
qed simp

text \<open>A rescan with changed parameters is right for standard grouping: however the node was
  used before, it then returns the rows of the new input.\<close>

theorem ExecReScanAgg_standard:
  assumes "standard_plan node" "aggstrategy node = AGG_HASHED" "empty_table st"
    "used env node None ss (fresh_node st) y" "ExecAgg env node st None new = Some rows"
  shows "\<exists>rows' z. fetches env node None new (ExecReScanAgg env True y) rows' z \<and> rows = map (\<lambda>(k, r). (Some k, r)) rows'"
proof -
  define fill where "fill = (\<lambda>st. fold (\<lambda>(m, s). put_group node (agg_init env) (agg_advance env) m s) (map (\<lambda>s. (s, s)) new) st)"
  have run: "fill_table env node None u ss' = agg_fill_hash_table node (agg_init env) (agg_advance env) u ss'" for u ss'
    using assms(1) by (simp add: fill_table_def standard_plan_def)
  have filled: "fill_table env node None u new = Some (fill u)" if "hash_room u" for u
    unfolding run fill_def by (rule agg_fill_hash_table_puts [OF that])
  have room: "hash_room st" by (rule empty_room [OF assms(3)])
  obtain rows' where r: "node_rows env node None (fill st) = Some rows'" "rows = map (\<lambda>(k, r). (Some k, r)) rows'"
    using ExecAgg_parts [OF assms(2,5)] filled [OF room] by (metis option.inject)
  obtain st' where st': "fill_table env node None st ss = Some st'" "hash_room st'"
    unfolding run by (rule agg_fill_hash_table_groups [OF assms(3)])
  let ?y = "ExecReScanAgg env True y"
  note core = used_core [OF assms(4) st'(1)]
  have y: "hashtable (core ?y) = hashtable st" "hash_room (core ?y)"
    using core assms(3) room st'(2) by (auto simp: ExecReScanAgg_def empty_table_def hash_room_def)
  have "hashtable (fill (core ?y)) = hashtable (fill st)"
    unfolding fill_def using assms(1) by (intro puts_hashtable y room) (simp add: standard_plan_def)
  then have "node_rows env node None (fill (core ?y)) = Some rows'" using r(1) by (simp add: node_rows_def)
  moreover have "\<not> agg_done ?y" "\<not> table_filled ?y" by (simp_all add: ExecReScanAgg_def)
  ultimately show ?thesis using fetches_filled [OF _ _ filled [OF y(2)]] r(2) by blast
qed

lemma ExecReScanAgg_standard_witness:
  "\<exists>rows' z. fetches (demo_env [1, 2]) demo_standard None [slot_of [3, 4]]
      (ExecReScanAgg (demo_env [1, 2]) True (ExecReScanAgg (demo_env [1, 2]) False (fresh_node demo_state))) rows' z \<and>
    [(Some (slot_of [3, 4]), 1)] = map (\<lambda>(k, r). (Some k, r)) rows'"
  by (rule ExecReScanAgg_standard [where ss = "[slot_of [1, 2]]", OF _ _ _ rescanned [OF unused] demo_standard_rows])
    (simp_all add: demo_plan_def standard_plan_def empty_table_def hash_room_def sizeofgroup_def demo_state_def)

lemma freed_entry_read:
  assumes "entry_of node init advance gs st'" "reads (all_any (distanceall node)) [] ss gs" "all_plan node" "slot_ok t" "t \<in> set ss"
  shows "agg_fill_hash_table_overlap_random_l1 node init advance (st'\<lparr>hashtable := (\<lambda>_. None), buffer_slot := b\<rparr>) t = None"
proof -
  note inv = assms(1) [unfolded entry_of_def]
  have m: "getMBRinputSlot t (numCols node) = Some (pmbr (point_of t))"
    using slot_point_mbr [OF assms(4)] assms(3) by (simp add: all_plan_def)
  obtain hits g where h: "contain_search (rtreeroot st') (pmbr (point_of t)) True (globals st') = Some (length hits, g)"
    "contain_ids g = map int hits"
    "set hits \<subseteq> {i. 1 \<le> i \<and> i \<le> length gs \<and> admits (distanceall node) (gs ! (i - 1)) (point_of t)}"
    "\<not> True \<or> length hits \<le> 3 \<longrightarrow> set hits = {i. 1 \<le> i \<and> i \<le> length gs \<and> admits (distanceall node) (gs ! (i - 1)) (point_of t)}"
    by (rule all_search [OF inv assms(3,4)])
  have "t \<in> set (concat (map fst gs))"
    using all_any_good(1) [OF assms(2) plan_eps [OF assms(3)]] assms(5) by (metis mset_eq_setD)
  then obtain p where p: "p \<in> set gs" "t \<in> set (fst p)" by auto
  obtain i where i0: "i < length gs" "gs ! i = p" using p(1) unfolding in_set_conv_nth by blast
  have i: "i < length gs" "t \<in> set (fst (gs ! i))" using i0 p(2) by simp_all
  obtain e where e: "group_entry node init advance (gs ! i) e" using inv_group [OF inv i(1)] by blast
  then have adm: "admits (distanceall node) (gs ! i) (point_of t)"
    using admits_member [OF e, of "point_of t"] i(2) by (auto simp: group_entry_def)
  have "hits \<noteq> []"
  proof
    assume "hits = []"
    then have "set hits = {i. 1 \<le> i \<and> i \<le> length gs \<and> admits (distanceall node) (gs ! (i - 1)) (point_of t)}"
      using h(4) by simp
    moreover have "Suc i \<in> {i. 1 \<le> i \<and> i \<le> length gs \<and> admits (distanceall node) (gs ! (i - 1)) (point_of t)}"
      using adm i(1) by simp
    ultimately show False using \<open>hits = []\<close> by (metis empty_iff list.set(1))
  qed
  then obtain c cs where c: "hits = c # cs" by (cases hits) auto
  then have "1 \<le> c" "c \<le> length gs" using h(3) by auto
  then have "hentry (hasharray st' (c - 1)) = Some (map gkey gs ! (c - 1))" "c - 1 < hasharray_cells st'"
    using inv by (auto simp: all_inv_def)
  then show ?thesis
    using m h(1,2) c by (simp add: agg_fill_hash_table_overlap_random_l1_def contain_entry_def Let_def)
qed

text \<open>C36. A rescan with changed parameters breaks SGB-All: the R-tree still holds the groups whose
  entries were freed. With ANY and metric 1, the next call fails for every new input whose first
  tuple the earlier input had as well.\<close>

theorem ExecReScanAgg_distance_all_fails:
  assumes "all_plan node" "metric node = 1" "overlap node = 1" "max_group_diam node = -1" "max_elem_sep node = -1"
    "all_start st" "list_all (\<lambda>s. slot_ok s) ss" "used env node None ss (fresh_node st) y" "table_filled y" "t \<in> set ss"
  shows "ExecAgg_row env node None (t # ts) (ExecReScanAgg env True y) = None"
proof -
  have fill: "fill_table env node None st' outer =
      agg_fill_hash_table_SGBTOAll (env_scan env) (env_acos env) node (agg_init env) (agg_advance env) st' outer" for st' outer
    using assms(1,4,5) by (simp add: fill_table_def all_plan_def eps_ok_iff)
  obtain st' where run: "fill_table env node None st ss = Some st'" by (rule used_filled [OF assms(8,9)])
  obtain gs where r: "entry_of node (agg_init env) (agg_advance env) gs st'" "reads (all_any (distanceall node)) [] ss gs"
    by (rule any_l1_to [OF assms(1-3,6,7) run [unfolded fill]])
  have core: "core y = st'" using used_core [OF assms(8) run] assms(9) by simp
  let ?st = "st'\<lparr>hashtable := (\<lambda>_. None), buffer_slot := t\<rparr>"
  have "agg_fill_hash_table_overlap_random_l1 node (agg_init env) (agg_advance env) ?st t = None"
    by (rule freed_entry_read [OF r assms(1) _ assms(10)]) (use assms(7,10) in \<open>simp_all add: list_all_iff\<close>)
  then have "fill_table env node None (core (ExecReScanAgg env True y)) (t # ts) = None"
    using assms(2,3,9) core
    by (simp add: fill fill_no_newgroup ExecReScanAgg_def sgb_all_input_def sgb_all_tuple_def)
  then show ?thesis using assms(9) by (simp add: ExecAgg_row_def filled_node_def) (simp add: ExecReScanAgg_def)
qed

text \<open>The state after all rows were fetched.\<close>

lemma fetches_used:
  "fetches env node righttree outer x rows y \<Longrightarrow> used env node righttree outer x0 x \<Longrightarrow> used env node righttree outer x0 y"
  by (induction rule: fetches.induct) (auto intro: called)

lemma skips_plain: "overlap node \<noteq> 2 \<Longrightarrow> skips node None = (\<lambda>e. False)"
  by (simp add: skips_def fun_eq_iff)

lemma distance_all_fetched:
  assumes "all_plan node" "metric node = 1" "overlap node = 1" "max_group_diam node = -1" "max_elem_sep node = -1"
    "all_start st" "list_all (\<lambda>s. slot_ok s) ss" "scan_ok (env_scan env)" "length ss \<le> sizeofgroup"
  shows "\<exists>y. used env node None ss (fresh_node st) y \<and> table_filled y"
proof -
  obtain st' gs where r: "agg_fill_hash_table_SGBTOAll (env_scan env) (env_acos env) node (agg_init env) (agg_advance env) st ss = Some st'"
    "entry_of node (agg_init env) (agg_advance env) gs st'"
    by (rule any_l1_runs [OF assms(1-3,6,7,9)])
  have "finite (dom (hashtable st'))" using entry_stores [OF r(2)] by (simp add: stores_groups_def)
  then have "\<forall>k\<in>set (env_scan env (hashtable st')). hashtable st' k \<noteq> None"
    using assms(8) by (auto simp: scan_ok_def dom_def)
  then obtain rows where "node_rows env node None st' = Some rows"
    using retrieve_rows [of node "env_scan env (hashtable st')" st' "agg_final env" "\<lambda>k. agg_having env (Some k)"] assms(3)
    by (auto simp: node_rows_def retrieve_all_rows skips_plain)
  then have "\<exists>y. fetches env node None ss (fresh_node st) rows y \<and> agg_done y \<and> table_filled y \<and> core y = st'"
    by (intro fetches_filled) (use r(1) assms(1,4,5) in \<open>simp_all add: fresh_node_def fill_table_def all_plan_def eps_ok_iff\<close>)
  then show ?thesis using fetches_used [OF _ unused] by blast
qed

lemma ExecReScanAgg_distance_all_fails_witness:
  "\<exists>y. table_filled y \<and>
    ExecAgg_row (demo_env [1, 2]) (demo_plan 1 1) None [slot_of [5, 5]] (ExecReScanAgg (demo_env [1, 2]) True y) = None"
proof -
  have start: "all_plan (demo_plan 1 1)" "all_start (demo_state :: nat AggState)" "list_all (\<lambda>s. slot_ok s) [slot_of [5, 5]]"
    "scan_ok (env_scan (demo_env [1, 2]))" "length [slot_of [5, 5]] \<le> sizeofgroup"
    by (simp_all add: sizeofgroup_def all_plan_def eps_ok_iff demo_plan_def all_start_def demo_state_def slot_point_def slot2_def slot_of_def
        pt_ok_def point_of_def demo_env_def sorted_scan_ok)
  obtain y where "used (demo_env [1, 2]) (demo_plan 1 1) None [slot_of [5, 5]] (fresh_node (demo_state :: nat AggState)) y" "table_filled y"
    using distance_all_fetched [OF start(1) _ _ _ _ start(2-5)] by (auto simp: demo_plan_def)
  then show ?thesis
    using ExecReScanAgg_distance_all_fails [OF start(1) _ _ _ _ start(2,3), of "demo_env [1, 2]" y "slot_of [5, 5]" "[]"]
    by (auto simp: demo_plan_def)
qed

end
