(* ===== verification/RowCalls.thy ===== *)
theory RowCalls
  imports Main
begin

text \<open>
  Nodes that return one row for each call, as the executor calls them: \<open>calls\<close> runs a node until it returns
  NULL. The contract of such a node is the locale \<open>row_source\<close>: every state has the rows that are still to
  come. A \<open>row_node\<close> can be called again after NULL, and in a \<open>rescanned_node\<close> a rescan brings back all rows.
\<close>

text \<open>A call returns a row or NULL and the next state; \<open>None\<close> is an error.\<close>

inductive calls :: "('s \<Rightarrow> ('r option \<times> 's) option) \<Rightarrow> 's \<Rightarrow> 'r list \<Rightarrow> 's \<Rightarrow> bool"
  for step :: "'s \<Rightarrow> ('r option \<times> 's) option" where
  call_end: "step x = Some (None, y) \<Longrightarrow> calls step x [] y"
| call_row: "step x = Some (Some r, x') \<Longrightarrow> calls step x' rows y \<Longrightarrow> calls step x (r # rows) y"

inductive_simps calls_Nil [simp]: "calls step x [] y"
inductive_simps calls_Cons [simp]: "calls step x (r # rows) y"

text \<open>\<open>rest\<close> are the rows to come.\<close>

locale row_source =
  fixes step :: "'s \<Rightarrow> ('r option \<times> 's) option" and rest :: "'s \<Rightarrow> 'r list option"
  assumes step_end: "step x = Some (None, y) \<Longrightarrow> rest x = Some []"
    and step_row: "step x = Some (Some r, y) \<Longrightarrow> rest x = map_option (Cons r) (rest y)"
    and step_error: "step x = None \<Longrightarrow> rest x = None"
begin

lemma calls_rest: "calls step x rows y \<Longrightarrow> rest x = Some rows"
  by (induction rule: calls.induct) (auto simp: step_end step_row)

lemma rest_called: "rest x = Some rows \<Longrightarrow> \<exists>y. calls step x rows y"
proof (induction rows arbitrary: x)
  case Nil
  then obtain o' y where y: "step x = Some (o', y)" using step_error [of x] by (cases "step x") auto
  then have "o' = None" using step_row [of x] Nil by (cases o'; cases "rest y") auto
  then show ?case using y by auto
next
  case (Cons r rows)
  then obtain o' y where y: "step x = Some (o', y)" using step_error [of x] by (cases "step x") auto
  then have "o' = Some r \<and> rest y = Some rows"
    using step_end [of x] step_row [of x] Cons.prems by (cases o'; cases "rest y") auto
  then show ?case using Cons.IH y by (metis call_row)
qed

end

text \<open>After NULL the node returns NULL again.\<close>

locale row_node = row_source +
  assumes step_stays: "step x = Some (None, y) \<Longrightarrow> step y = Some (None, y)"
begin

lemma calls_stay: "calls step x rows y \<Longrightarrow> step y = Some (None, y)"
  by (induction rule: calls.induct) (auto simp: step_stays)

lemma rest_ends: "rest x = Some rows \<Longrightarrow> \<exists>y. calls step x rows y \<and> step y = Some (None, y)"
  using rest_called calls_stay by blast

end

locale rescanned_node = row_node +
  fixes rescan :: "'i \<Rightarrow> 'a \<Rightarrow> 'a" and all_rows :: "'i \<Rightarrow> 'b list"
  assumes rescan_rows: "rest (rescan i x) = Some (all_rows i)"
begin

lemma rescan_repeats: "\<exists>y. calls step (rescan i x) (all_rows i) y \<and> step y = Some (None, y)"
  by (rule rest_ends) (rule rescan_rows)

end

end
