(* ===== verification/RowNodes.thy ===== *)
theory RowNodes
  imports SGBPlanner RowCalls
begin

text \<open>
  Nodes that return one row for each call and read their input as they go: \<open>Group\<close>
  (\<^verbatim>\<open>executor/nodeGroup.c\<close>), sorted or plain aggregation and sorted \<open>AROUND\<close> (\<open>agg_retrieve_direct\<close>,
  \<open>agg_retrieve_direct_around\<close>, \<^verbatim>\<open>executor/nodeAgg.c\<close>), with their rescans. They are
  instances of \<open>row_node\<close>, the first two of \<open>rescanned_node\<close>. The rows that the other plans have still to return are part of the state.
\<close>

section \<open>Group\<close>

record GroupState =
  grp_done :: bool
  firsttuple :: "slot option"
  grp_outer :: "slot list"

text \<open>The two loops: past the tuples of the group of \<open>first\<close>, to the first group that passes
  \<open>HAVING\<close>. The state keeps the first tuple of the last group.\<close>

fun group_loop :: "nat \<Rightarrow> nat list \<Rightarrow> (slot \<Rightarrow> bool) \<Rightarrow> slot \<Rightarrow> slot list \<Rightarrow> slot option \<times> GroupState" where
  "group_loop n cols qual first [] = (None, \<lparr>grp_done = True, firsttuple = Some first, grp_outer = []\<rparr>)"
| "group_loop n cols qual first (s # ss) =
     (if execTuplesMatch first s n cols then group_loop n cols qual first ss
      else if qual s then (Some s, \<lparr>grp_done = False, firsttuple = Some s, grp_outer = ss\<rparr>)
      else group_loop n cols qual s ss)"

definition ExecGroup :: "nat \<Rightarrow> nat list \<Rightarrow> (slot \<Rightarrow> bool) \<Rightarrow> GroupState \<Rightarrow> slot option \<times> GroupState" where
  "ExecGroup n cols qual x =
     (if grp_done x then (None, x)
      else case firsttuple x of
        Some first \<Rightarrow> group_loop n cols qual first (grp_outer x)
      | None \<Rightarrow>
          (case grp_outer x of
             [] \<Rightarrow> (None, x\<lparr>grp_done := True\<rparr>)
           | s # ss \<Rightarrow> if qual s then (Some s, x\<lparr>firsttuple := Some s, grp_outer := ss\<rparr>)
                      else group_loop n cols qual s ss))"

definition ExecReScanGroup :: "slot list \<Rightarrow> GroupState \<Rightarrow> GroupState" where
  "ExecReScanGroup input x = x\<lparr>grp_done := False, firsttuple := None, grp_outer := input\<rparr>"

definition ExecInitGroup :: "slot list \<Rightarrow> GroupState" where
  "ExecInitGroup input = \<lparr>grp_done = False, firsttuple = None, grp_outer = input\<rparr>"

text \<open>The rows to come.\<close>

fun later_groups :: "nat \<Rightarrow> nat list \<Rightarrow> (slot \<Rightarrow> bool) \<Rightarrow> slot \<Rightarrow> slot list \<Rightarrow> slot list" where
  "later_groups n cols qual first [] = []"
| "later_groups n cols qual first (s # ss) =
     (if execTuplesMatch first s n cols then later_groups n cols qual first ss
      else (if qual s then [s] else []) @ later_groups n cols qual s ss)"

definition all_groups :: "nat \<Rightarrow> nat list \<Rightarrow> (slot \<Rightarrow> bool) \<Rightarrow> slot list \<Rightarrow> slot list" where
  "all_groups n cols qual input =
     (case input of [] \<Rightarrow> [] | s # ss \<Rightarrow> (if qual s then [s] else []) @ later_groups n cols qual s ss)"

definition group_rest :: "nat \<Rightarrow> nat list \<Rightarrow> (slot \<Rightarrow> bool) \<Rightarrow> GroupState \<Rightarrow> slot list" where
  "group_rest n cols qual x =
     (if grp_done x then []
      else case firsttuple x of
        Some first \<Rightarrow> later_groups n cols qual first (grp_outer x)
      | None \<Rightarrow> all_groups n cols qual (grp_outer x))"

lemma group_loop_rest:
  "group_loop n cols qual first ss = (None, y) \<Longrightarrow> later_groups n cols qual first ss = [] \<and> grp_done y"
  "group_loop n cols qual first ss = (Some r, y) \<Longrightarrow>
     later_groups n cols qual first ss = r # group_rest n cols qual y"
  by (induction ss arbitrary: first) (auto simp: group_rest_def split: if_splits)

interpretation group_node: rescanned_node "\<lambda>x. Some (ExecGroup n cols qual x)" "\<lambda>x. Some (group_rest n cols qual x)"
    ExecReScanGroup "all_groups n cols qual"
  for n :: nat and cols :: "nat list" and qual :: "slot \<Rightarrow> bool"
proof unfold_locales
  show "Some (group_rest n cols qual x) = Some []" "Some (ExecGroup n cols qual y) = Some (None, y)"
    if "Some (ExecGroup n cols qual x) = Some (None, y)" for x y
    using that by (auto simp: ExecGroup_def group_rest_def all_groups_def dest: group_loop_rest(1)
        split: if_splits option.splits list.splits)
  show "Some (group_rest n cols qual x) = map_option (Cons r) (Some (group_rest n cols qual y))"
    if "Some (ExecGroup n cols qual x) = Some (Some r, y)" for x y r
    using that by (auto simp: ExecGroup_def all_groups_def dest: group_loop_rest(2)
        split: if_splits option.splits list.splits) (auto simp: group_rest_def all_groups_def dest: group_loop_rest(2))
  show "Some (group_rest n cols qual (ExecReScanGroup i x)) = Some (all_groups n cols qual i)" for i x
    by (simp add: group_rest_def ExecReScanGroup_def)
qed simp

text \<open>On its grouping columns the node returns the first tuple of every run of equal keys that passes
  \<open>HAVING\<close>.\<close>

lemma later_groups_runs:
  assumes "leading n (first # ss)"
  shows "later_groups n (key_columns n) qual first ss =
    filter qual (map hd (runs_by (take n) (dropWhile (\<lambda>t. take n t = take n first) ss)))"
  using assms
proof (induction ss arbitrary: first)
  case (Cons s ss)
  have "execTuplesMatch first s n (key_columns n) \<longleftrightarrow> take n s = take n first"
    using Cons.prems by (auto simp: execTuplesMatch_take leading_def)
  then show ?case using Cons by (simp add: leading_def)
qed simp

lemma all_groups_runs:
  "leading n ss \<Longrightarrow> all_groups n (key_columns n) qual ss = filter qual (map hd (runs_by (take n) ss))"
  by (cases ss) (simp_all add: all_groups_def later_groups_runs)

text \<open>\<open>Group\<close> returns one row for each group: from any state, after a rescan, the calls return the
  first tuples of the runs of equal keys that pass \<open>HAVING\<close>, in the order of the input, then NULL for
  ever.\<close>

theorem ExecGroup_rows:
  assumes "leading n ss"
  shows "\<exists>y. calls (\<lambda>x. Some (ExecGroup n (key_columns n) qual x)) (ExecReScanGroup ss x) (filter qual (map hd (runs_by (take n) ss))) y \<and>
    ExecGroup n (key_columns n) qual y = (None, y)"
  using group_node.rescan_repeats [of n "key_columns n" qual ss x] by (simp add: all_groups_runs [OF assms])

lemma ExecGroup_rows_witness:
  "\<exists>y. calls (\<lambda>x. Some (ExecGroup 1 (key_columns 1) (\<lambda>s. s \<noteq> slot_of [7, 3]) x))
      (ExecReScanGroup [slot_of [5, 1], slot_of [5, 2], slot_of [7, 3], slot_of [8, 4]] (ExecInitGroup []))
      (filter (\<lambda>s. s \<noteq> slot_of [7, 3]) (map hd (runs_by (take 1) [slot_of [5, 1], slot_of [5, 2], slot_of [7, 3], slot_of [8, 4]]))) y \<and>
    ExecGroup 1 (key_columns 1) (\<lambda>s. s \<noteq> slot_of [7, 3]) y = (None, y)"
  by (rule ExecGroup_rows) (simp add: leading_def slot_of_def)

section \<open>Sorted and plain aggregation\<close>

record DirectNode =
  direct_done :: bool
  grp_firstTuple :: "slot option"
  direct_outer :: "slot list"

text \<open>From the first tuple of a group to the next row: \<open>x\<close> is the working state of the aggregates.\<close>

fun direct_scan :: "('a, 'r) agg_env \<Rightarrow> Agg_plan \<Rightarrow> slot \<Rightarrow> 'a \<Rightarrow> slot list \<Rightarrow> (slot option \<times> 'r) option \<times> DirectNode" where
  "direct_scan env node firstSlot x [] =
     (if agg_having env (Some firstSlot) (agg_final env x) then Some (Some firstSlot, agg_final env x) else None,
      \<lparr>direct_done = True, grp_firstTuple = None, direct_outer = []\<rparr>)"
| "direct_scan env node firstSlot x (s # ss) =
     (if aggstrategy node = AGG_SORTED \<and> \<not> execTuplesMatch firstSlot s (numCols node) (grpColIdx env)
      then if agg_having env (Some firstSlot) (agg_final env x)
           then (Some (Some firstSlot, agg_final env x), \<lparr>direct_done = False, grp_firstTuple = Some s, direct_outer = ss\<rparr>)
           else direct_scan env node s (agg_advance env s (agg_init env)) ss
      else direct_scan env node firstSlot (agg_advance env s x) ss)"

definition agg_retrieve_direct_row :: "('a, 'r) agg_env \<Rightarrow> Agg_plan \<Rightarrow> DirectNode \<Rightarrow> (slot option \<times> 'r) option \<times> DirectNode" where
  "agg_retrieve_direct_row env node x =
     (if direct_done x then (None, x)
      else case grp_firstTuple x of
        Some f \<Rightarrow> direct_scan env node f (agg_advance env f (agg_init env)) (direct_outer x)
      | None \<Rightarrow>
          (case direct_outer x of
             s # ss \<Rightarrow> direct_scan env node s (agg_advance env s (agg_init env)) ss
           | [] \<Rightarrow> (if aggstrategy node = AGG_PLAIN \<and> agg_having env None (agg_final env (agg_init env))
                   then Some (None, agg_final env (agg_init env)) else None,
                   x\<lparr>direct_done := True\<rparr>)))"

text \<open>\<open>ExecReScanAgg\<close> of these strategies.\<close>

definition rescan_direct :: "slot list \<Rightarrow> DirectNode \<Rightarrow> DirectNode" where
  "rescan_direct input x = x\<lparr>direct_done := False, grp_firstTuple := None, direct_outer := input\<rparr>"

definition direct_rows :: "('a, 'r) agg_env \<Rightarrow> Agg_plan \<Rightarrow> slot list \<Rightarrow> (slot option \<times> 'r) list" where
  "direct_rows env node input =
     agg_retrieve_direct node (grpColIdx env) (agg_init env) (agg_advance env) (agg_final env) (agg_having env) input"

definition direct_rest :: "('a, 'r) agg_env \<Rightarrow> Agg_plan \<Rightarrow> DirectNode \<Rightarrow> (slot option \<times> 'r) list" where
  "direct_rest env node x =
     (if direct_done x then []
      else case grp_firstTuple x of
        Some f \<Rightarrow> direct_groups node (grpColIdx env) (agg_init env) (agg_advance env) (agg_final env) (agg_having env) f
                   (agg_advance env f (agg_init env)) (direct_outer x)
      | None \<Rightarrow> direct_rows env node (direct_outer x))"

lemma direct_scan_rest:
  "direct_scan env node f a ss = (None, y) \<Longrightarrow>
     direct_groups node (grpColIdx env) (agg_init env) (agg_advance env) (agg_final env) (agg_having env) f a ss = [] \<and> direct_done y"
  "direct_scan env node f a ss = (Some r, y) \<Longrightarrow>
     direct_groups node (grpColIdx env) (agg_init env) (agg_advance env) (agg_final env) (agg_having env) f a ss =
     r # direct_rest env node y"
  by (induction ss arbitrary: f a) (auto simp: direct_rest_def direct_row_def split: if_splits)

interpretation direct_node: rescanned_node "\<lambda>x. Some (agg_retrieve_direct_row env node x)" "\<lambda>x. Some (direct_rest env node x)"
    rescan_direct "direct_rows env node"
  for env :: "('a, 'r) agg_env" and node :: Agg_plan
proof unfold_locales
  note defs = agg_retrieve_direct_row_def direct_rest_def direct_rows_def agg_retrieve_direct_def direct_row_def
  show "Some (direct_rest env node x) = Some []" "Some (agg_retrieve_direct_row env node y) = Some (None, y)"
    if "Some (agg_retrieve_direct_row env node x) = Some (None, y)" for x y
    using that by (auto simp: defs dest: direct_scan_rest(1) split: if_splits option.splits list.splits)
  show "Some (direct_rest env node x) = map_option (Cons r) (Some (direct_rest env node y))"
    if "Some (agg_retrieve_direct_row env node x) = Some (Some r, y)" for x y r
    using that by (auto simp: agg_retrieve_direct_row_def dest: direct_scan_rest(2) split: if_splits option.splits list.splits)
      (auto simp: direct_rest_def direct_rows_def agg_retrieve_direct_def direct_row_def dest: direct_scan_rest(2))
  show "Some (direct_rest env node (rescan_direct i x)) = Some (direct_rows env node i)" for i x
    by (simp add: direct_rest_def rescan_direct_def)
qed simp

text \<open>C14. The calls of a sorted or plain aggregation return the rows of the whole aggregation, whatever
  was fetched before the rescan: no group is lost or returned twice.\<close>

theorem direct_node_rows:
  assumes "aggstrategy node \<noteq> AGG_HASHED" "ExecAgg env node st None ss = Some rows"
  shows "\<exists>y. calls (\<lambda>x. Some (agg_retrieve_direct_row env node x)) (rescan_direct ss x) rows y \<and> agg_retrieve_direct_row env node y = (None, y)"
proof -
  have "rows = direct_rows env node ss" using assms by (auto simp: ExecAgg_def direct_rows_def split: if_splits)
  then show ?thesis using direct_node.rescan_repeats [of env node ss x] by simp
qed

lemma direct_node_rows_witness:
  "\<exists>y. calls (\<lambda>x. Some (agg_retrieve_direct_row (demo_env [1]) (make_agg AGG_SORTED 1) x))
      (rescan_direct [slot_of [5], slot_of [5], slot_of [7]] \<lparr>direct_done = False, grp_firstTuple = Some (slot_of [4]), direct_outer = []\<rparr>)
      [(Some (slot_of [5]), 2), (Some (slot_of [7]), 1)] y \<and>
    agg_retrieve_direct_row (demo_env [1]) (make_agg AGG_SORTED 1) y = (None, y)"
  by (rule direct_node_rows [where st = demo_state])
     (simp_all add: make_agg_def ExecAgg_def agg_retrieve_direct_def direct_row_def demo_env_def slot_of_def slot_getattr_def)

section \<open>Sorted aggregation around centres\<close>

text \<open>The centres that were not read yet are the rows of the inner plan; they are read once, at the
  first call, into the pivots.\<close>

record AroundNode =
  around_done :: bool
  around_first :: "slot option"
  around_outer :: "slot list"
  around_inner :: "slot list"
  around_pivots :: "pivots option"

fun around_scan :: "('a, 'r) agg_env \<Rightarrow> Agg_plan \<Rightarrow> slot list \<Rightarrow> pivots \<Rightarrow> slot \<Rightarrow> 'a \<Rightarrow> slot list \<Rightarrow>
    ((slot option \<times> 'r) option \<times> AroundNode) option" where
  "around_scan env node inner pv firstSlot x [] =
     Some (if agg_having env (Some firstSlot) (agg_final env x) then Some (Some firstSlot, agg_final env x) else None,
           \<lparr>around_done = True, around_first = None, around_outer = [], around_inner = inner, around_pivots = Some pv\<rparr>)"
| "around_scan env node inner pv firstSlot x (s # ss) =
     do { let m = (\<lambda>p q. execTuplesMatchAround p q s (numCols node) (grpColIdx env));
          b \<leftarrow> m (fst pv) (fst (snd pv));
          if b then around_scan env node inner pv firstSlot (agg_advance env s x) ss
          else do {
            pv' \<leftarrow> (case fst (snd pv) of None \<Rightarrow> None | Some q \<Rightarrow> find_pivots m q (snd (snd pv)));
            if agg_having env (Some firstSlot) (agg_final env x)
            then Some (Some (Some firstSlot, agg_final env x),
                       \<lparr>around_done = False, around_first = Some s, around_outer = ss, around_inner = inner, around_pivots = Some pv'\<rparr>)
            else around_scan env node inner pv' s (agg_advance env s (agg_init env)) ss } }"

text \<open>A call with \<open>AGG_SORTED\<close>, which \<open>AROUND\<close> always has.\<close>

definition agg_retrieve_direct_around_row :: "('a, 'r) agg_env \<Rightarrow> Agg_plan \<Rightarrow> AroundNode \<Rightarrow>
    ((slot option \<times> 'r) option \<times> AroundNode) option" where
  "agg_retrieve_direct_around_row env node x =
     (if around_done x then Some (None, x)
      else case (case around_first x of Some f \<Rightarrow> f # around_outer x | None \<Rightarrow> around_outer x) of
        [] \<Rightarrow> Some (None, x\<lparr>around_done := True\<rparr>)
      | f # ss \<Rightarrow>
          (case (case around_pivots x of Some pv \<Rightarrow> Some pv | None \<Rightarrow> load_pivots (around_inner x)) of
             None \<Rightarrow> Some (None, x\<lparr>around_done := True, around_first := Some f, around_outer := ss\<rparr>)
           | Some pv \<Rightarrow> around_scan env node (around_inner x) pv f (agg_advance env f (agg_init env)) ss))"

definition fresh_around :: "slot list \<Rightarrow> slot list \<Rightarrow> AroundNode" where
  "fresh_around inner outer =
     \<lparr>around_done = False, around_first = None, around_outer = outer, around_inner = inner, around_pivots = None\<rparr>"

text \<open>\<open>ExecReScanAgg\<close> does not touch the pivots; the inner plan may be rescanned.\<close>

definition rescan_around :: "slot list \<Rightarrow> slot list \<Rightarrow> AroundNode \<Rightarrow> AroundNode" where
  "rescan_around inner input x =
     x\<lparr>around_done := False, around_first := None, around_outer := input, around_inner := inner\<rparr>"

definition around_rest :: "('a, 'r) agg_env \<Rightarrow> Agg_plan \<Rightarrow> AroundNode \<Rightarrow> (slot option \<times> 'r) list option" where
  "around_rest env node x =
     (if around_done x then Some []
      else case (case around_first x of Some f \<Rightarrow> f # around_outer x | None \<Rightarrow> around_outer x) of
        [] \<Rightarrow> Some []
      | f # ss \<Rightarrow>
          (case (case around_pivots x of Some pv \<Rightarrow> Some pv | None \<Rightarrow> load_pivots (around_inner x)) of
             None \<Rightarrow> Some []
           | Some pv \<Rightarrow> direct_around_groups node (grpColIdx env) (agg_init env) (agg_advance env) (agg_final env) (agg_having env)
                        pv f (agg_advance env f (agg_init env)) ss))"

abbreviation sorted_node :: "Agg_plan \<Rightarrow> Agg_plan" where
  "sorted_node node \<equiv> node\<lparr>aggstrategy := AGG_SORTED\<rparr>"

lemma around_scan_rest:
  "direct_around_groups (sorted_node node) (grpColIdx env) (agg_init env) (agg_advance env) (agg_final env) (agg_having env) pv f a ss =
    (case around_scan env node inner pv f a ss of
       None \<Rightarrow> None
     | Some (None, y) \<Rightarrow> if around_done y then Some [] else None
     | Some (Some r, y) \<Rightarrow> map_option (Cons r) (around_rest env (sorted_node node) y))"
proof (induction ss arbitrary: pv f a)
  case Nil
  then show ?case by (simp add: direct_row_def around_rest_def)
next
  case (Cons s ss)
  let ?m = "\<lambda>p q. execTuplesMatchAround p q s (numCols node) (grpColIdx env)"
  consider "?m (fst pv) (fst (snd pv)) = None" | "?m (fst pv) (fst (snd pv)) = Some True"
    | "?m (fst pv) (fst (snd pv)) = Some False" by (cases "?m (fst pv) (fst (snd pv))") auto
  then show ?case
  proof cases
    case 3
    show ?thesis
    proof (cases "case fst (snd pv) of None \<Rightarrow> None | Some q \<Rightarrow> find_pivots ?m q (snd (snd pv))")
      case None
      then show ?thesis using 3 by (simp add: Let_def)
    next
      case (Some pv')
      show ?thesis
      proof (cases "agg_having env (Some f) (agg_final env a)")
        case True
        then show ?thesis using 3 Some
          by (simp add: Let_def direct_row_def around_rest_def bind_map_option comp_def Option.map_conv_bind_option)
      next
        case False
        then show ?thesis using 3 Some Cons.IH [of pv' s "agg_advance env s (agg_init env)"]
          by (simp add: Let_def direct_row_def Option.map_conv_bind_option)
      qed
    qed
  qed (use Cons.IH in \<open>simp_all add: Let_def\<close>)
qed

lemma around_scan_done: "around_scan env node inner pv f a ss = Some (None, y) \<Longrightarrow> around_done y"
proof (induction ss arbitrary: pv f a)
  case (Cons s ss)
  from Cons.prems show ?case
    by (auto simp: Let_def bind_eq_Some_conv split: if_splits dest: Cons.IH)
qed (auto split: if_splits)

interpretation around_node: row_node "agg_retrieve_direct_around_row env node" "around_rest env (sorted_node node)"
  for env :: "('a, 'r) agg_env" and node :: Agg_plan
proof unfold_locales
  show "around_rest env (sorted_node node) x = Some []"
    if "agg_retrieve_direct_around_row env node x = Some (None, y)" for x y
    using that unfolding around_rest_def [of env "sorted_node node" x] agg_retrieve_direct_around_row_def
    by (auto simp: around_scan_rest [where inner = "around_inner x"] dest: around_scan_done
        split: if_splits option.splits list.splits)
  show "agg_retrieve_direct_around_row env node y = Some (None, y)"
    if "agg_retrieve_direct_around_row env node x = Some (None, y)" for x y
  proof -
    have "around_done y"
      using that unfolding agg_retrieve_direct_around_row_def
      by (auto dest: around_scan_done split: if_splits option.splits list.splits)
    then show ?thesis by (simp add: agg_retrieve_direct_around_row_def)
  qed
  show "around_rest env (sorted_node node) x = map_option (Cons r) (around_rest env (sorted_node node) y)"
    if "agg_retrieve_direct_around_row env node x = Some (Some r, y)" for x y r
    using that unfolding around_rest_def [of env "sorted_node node" x] agg_retrieve_direct_around_row_def
    by (auto simp: around_scan_rest [where inner = "around_inner x"] split: if_splits option.splits list.splits)
  show "around_rest env (sorted_node node) x = None"
    if "agg_retrieve_direct_around_row env node x = None" for x
    using that unfolding around_rest_def [of env "sorted_node node" x] agg_retrieve_direct_around_row_def
    by (auto simp: around_scan_rest [where inner = "around_inner x"] split: if_splits option.splits list.splits)
qed

text \<open>C15. The calls of a sorted \<open>AROUND\<close> return the rows of the whole aggregation, then NULL.\<close>

theorem around_node_rows:
  assumes "aggstrategy node = AGG_SORTED" "distanceall node = -1" "ExecAgg env node st (Some inner) ss = Some rows"
  shows "\<exists>y. calls (agg_retrieve_direct_around_row env node) (fresh_around inner ss) rows y \<and>
    agg_retrieve_direct_around_row env node y = Some (None, y)"
proof (rule around_node.rest_ends)
  have "sorted_node node = node" using assms(1) by simp
  then show "around_rest env (sorted_node node) (fresh_around inner ss) = Some rows"
    using assms unfolding \<open>sorted_node node = node\<close> by (auto simp: ExecAgg_def around_rest_def fresh_around_def agg_retrieve_direct_around_def split: list.splits option.splits)
qed

lemma around_node_rows_witness:
  "\<exists>y. calls (agg_retrieve_direct_around_row (demo_env [1]) (make_agg AGG_SORTED 1))
      (fresh_around [slot_of [0], slot_of [10]] [slot_of [1], slot_of [9]]) [(Some (slot_of [1]), 1), (Some (slot_of [9]), 1)] y \<and>
    agg_retrieve_direct_around_row (demo_env [1]) (make_agg AGG_SORTED 1) y = Some (None, y)"
  by (rule around_node_rows [where st = demo_state])
     (simp_all add: make_agg_def ExecAgg_def agg_retrieve_direct_around_def direct_row_def demo_env_def slot_of_def slot_getattr_def
      execTuplesMatchAround_def int4mi_def int4lt_def SAMESIGN_def c_int_defs i32_def Let_def)

text \<open>Without a second pivot every tuple belongs to the group.\<close>

lemma around_scan_last_pivot:
  "around_scan env node inner (p, None, cs) f a ss =
     Some (if agg_having env (Some f) (agg_final env (fold (agg_advance env) ss a))
           then Some (Some f, agg_final env (fold (agg_advance env) ss a)) else None,
           \<lparr>around_done = True, around_first = None, around_outer = [], around_inner = inner, around_pivots = Some (p, None, cs)\<rparr>)"
  by (induction ss arbitrary: a) (simp_all add: execTuplesMatchAround_def)

text \<open>A rescan breaks sorted \<open>AROUND\<close>: the pivots stay where the last scan left them. Once the last
  centre was reached, a rescan puts all tuples of any input into one group, whatever the centres.\<close>

theorem rescan_around_one_group:
  assumes "around_pivots x = Some (p, None, cs)" "ss \<noteq> []"
    "agg_having env (Some (hd ss)) (agg_final env (fold (agg_advance env) ss (agg_init env)))"
  shows "\<exists>y. calls (agg_retrieve_direct_around_row env node) (rescan_around inner ss x)
    [(Some (hd ss), agg_final env (fold (agg_advance env) ss (agg_init env)))] y"
proof -
  obtain f ss' where ss: "ss = f # ss'" using assms(2) by (cases ss) auto
  let ?y = "\<lparr>around_done = True, around_first = None, around_outer = [], around_inner = inner, around_pivots = Some (p, None, cs)\<rparr>"
  have "agg_retrieve_direct_around_row env node (rescan_around inner ss x) =
      Some (Some (Some (hd ss), agg_final env (fold (agg_advance env) ss (agg_init env))), ?y)"
    using assms(1,3) by (simp add: agg_retrieve_direct_around_row_def rescan_around_def around_scan_last_pivot ss)
  moreover have "agg_retrieve_direct_around_row env node ?y = Some (None, ?y)"
    by (simp add: agg_retrieve_direct_around_row_def)
  ultimately show ?thesis by auto
qed

text \<open>Two centres, a tuple at each: the first scan has two groups, a rescan of the same tuples has one.\<close>

abbreviation left_demo :: AroundNode where
  "left_demo \<equiv> \<lparr>around_done = True, around_first = None, around_outer = [], around_inner = [],
     around_pivots = Some (slot_of [10], None, [])\<rparr>"

lemma left_demo_reached:
  "calls (agg_retrieve_direct_around_row (demo_env [1]) (make_agg AGG_SORTED 1))
     (fresh_around [slot_of [0], slot_of [10]] [slot_of [1], slot_of [9]]) [(Some (slot_of [1]), 1), (Some (slot_of [9]), 1)]
     (left_demo\<lparr>around_inner := [slot_of [0], slot_of [10]]\<rparr>)"
  by (simp add: agg_retrieve_direct_around_row_def fresh_around_def demo_env_def make_agg_def slot_of_def slot_getattr_def
      execTuplesMatchAround_def int4mi_def int4lt_def SAMESIGN_def c_int_defs i32_def Let_def)

lemma rescan_around_one_group_witness:
  "\<exists>y. calls (agg_retrieve_direct_around_row (demo_env [1]) (make_agg AGG_SORTED 1))
      (rescan_around [slot_of [0], slot_of [10]] [slot_of [1], slot_of [9]] left_demo)
      [(Some (hd [slot_of [1], slot_of [9]]), agg_final (demo_env [1]) (fold (agg_advance (demo_env [1])) [slot_of [1], slot_of [9]]
          (agg_init (demo_env [1]))))] y"
  by (rule rescan_around_one_group [where p = "slot_of [10]" and cs = "[]"]) (simp_all add: demo_env_def)

section \<open>Queries without aggregates\<close>

lemma filter_keys: "\<forall>s\<in>set xs. q s = h (f s) \<Longrightarrow> set (map f (filter q xs)) = {k \<in> f ` set xs. h k}"
  by auto

text \<open>Without aggregates a distance has no effect: a query with \<open>DISTANCE-ALL\<close> or \<open>DISTANCE-ANY\<close> is
  planned as a \<open>Group\<close> node, whose calls return one row for each different key that passes \<open>HAVING\<close>,
  whatever the distance and however close the points are.\<close>

theorem query_distance_without_aggregates:
  assumes "aroundSelectStmt stmt = None" "distinct (map fst sortClause)" "grouplist \<noteq> []" "\<not> hasAggs env"
    "sgb_distanceAll stmt \<noteq> -1 \<or> sgb_distanceAny stmt \<noteq> -1"
    "leading (card (set grouplist)) ss" "clustered (take (card (set grouplist))) ss"
    "\<forall>s\<in>set ss. qual s = having (take (card (set grouplist)) s)"
  shows "\<exists>sort n rows y. plan_query analyze oper env stmt grouplist sortClause = Some (sort, Group_node n (-1) (-1) None) \<and>
    calls (\<lambda>x. Some (ExecGroup n (key_columns n) qual x)) (ExecInitGroup ss) rows y \<and>
    distinct (map (take n) rows) \<and> set (map (take n) rows) = {k \<in> take n ` set ss. having k}"
proof -
  let ?n = "card (set grouplist)"
  have plan: "\<exists>sort. plan_query analyze oper env stmt grouplist sortClause = Some (sort, Group_node ?n (-1) (-1) None)"
    using plan_group_node [OF assms(1-5)] by blast
  let ?rows = "filter qual (map hd (runs_by (take ?n) ss))"
  have run: "\<exists>y. calls (\<lambda>x. Some (ExecGroup ?n (key_columns ?n) qual x)) (ExecInitGroup ss) ?rows y"
    using group_node.rescan_repeats [of ?n "key_columns ?n" qual ss "ExecInitGroup []"] all_groups_runs [OF assms(6), of qual]
    by (auto simp: ExecReScanGroup_def ExecInitGroup_def)
  have dist: "distinct (map (take ?n) (map hd (runs_by (take ?n) ss)))"
    using clustered_distinct [OF assms(7)] by (simp add: comp_def)
  have keys: "take ?n ` set (map hd (runs_by (take ?n) ss)) = take ?n ` set ss"
    using runs_values [of "take ?n" ss] by (simp add: image_image)
  have "hd g \<in> set ss" if "g \<in> set (runs_by (take ?n) ss)" for g
    using runs_nonempty [OF that] that by (metis UN_I concat_runs hd_in_set set_concat)
  then have q: "\<forall>s\<in>set (map hd (runs_by (take ?n) ss)). qual s = having (take ?n s)" using assms(8) by auto
  then have "set (map (take ?n) ?rows) = {k \<in> take ?n ` set (map hd (runs_by (take ?n) ss)). having k}"
    by (rule filter_keys)
  moreover have "distinct (map (take ?n) ?rows)" using dist by (rule distinct_map_filter)
  ultimately show ?thesis using plan run unfolding keys by blast
qed

lemma query_distance_without_aggregates_witness:
  "\<exists>sort n rows y. plan_query (\<lambda>n. Some n) (\<lambda>_. True) (demo_planner\<lparr>hasAggs := False\<rparr>) demo_stmt [5, 7] [] =
      Some (sort, Group_node n (-1) (-1) None) \<and>
    calls (\<lambda>x. Some (ExecGroup n (key_columns n) (\<lambda>_. True) x)) (ExecInitGroup [slot_of [1, 2], slot_of [1, 2], slot_of [1, 3]]) rows y \<and>
    distinct (map (take n) rows) \<and>
    set (map (take n) rows) = {k \<in> take n ` set [slot_of [1, 2], slot_of [1, 2], slot_of [1, 3]]. True}"
  by (rule query_distance_without_aggregates)
     (simp_all add: demo_stmt_def leading_def slot_of_def eval_nat_numeral)

end
