(* ===== verification/MergeJoin.thy ===== *)
theory MergeJoin
  imports AggEval AroundMatch RowCalls
begin

text \<open>
  The merge join with its similarity predicates, \<^verbatim>\<open>executor/nodeMergejoin.c\<close>: equality, \<open>WITHIN\<close>
  (epsilon join, type 1) and \<open>AROUND\<close> (type 2). The state machine of \<open>ExecMergeJoin\<close> is the function
  \<open>MJ_step\<close>, one clause of the \<open>switch\<close> each; \<open>ExecMergeJoin\<close> runs it to the next row or NULL, and its
  termination is proved for every state. A \<open>Datum\<close> is an integer (types passed by value), with its
  null flag an \<open>option\<close>. The rows that the outer and the inner plan have still to return are lists in the
  state, the marked position of the inner plan is one more. A joined row is the pair of its slots, \<open>None\<close> for
  the tuple of NULLs of an outer join; projection is left out. An empty slot is \<open>None\<close>.
\<close>

section \<open>Clauses\<close>

datatype MergeFunctionKind = MERGEFUNC_LT | MERGEFUNC_CMP

record MergeJoinClause =
  lexpr :: "slot \<Rightarrow> pg_error + int option"
  rexpr :: "slot \<Rightarrow> pg_error + int option"
  ldatum :: "int option"
  rdatum :: "int option"
  mergestrict :: bool
  cmpstrategy :: MergeFunctionKind
  eqfinfo :: "int FmgrInfo"
  cmpfinfo :: "int FmgrInfo"
  minusfinfo :: "int FmgrInfo"
  rnextdatum :: "int option"

datatype JoinType =
    JOIN_INNER | JOIN_LEFT | JOIN_FULL | JOIN_RIGHT | JOIN_IN
  | JOIN_REVERSE_IN | JOIN_UNIQUE_OUTER | JOIN_UNIQUE_INNER

datatype MJState =
    INITIALIZE_OUTER | INITIALIZE_INNER | JOINTUPLES | NEXTOUTER | TESTOUTER | NEXTINNER
  | SKIP_TEST | SKIPOUTER_ADVANCE | SKIPINNER_ADVANCE | ENDOUTER | ENDINNER

type_synonym joined = "slot option \<times> slot option"
type_synonym join_qual = "(slot option \<Rightarrow> slot option \<Rightarrow> pg_error + bool) option"

text \<open>What does not change while the node runs. A qualification \<open>NIL\<close> is \<open>None\<close>. At its end the inner plan
  returns an empty slot (\<open>Sort\<close>, index scans) or a NULL pointer (\<open>Material\<close>).\<close>

record MergeJoinNode =
  jointype :: JoinType
  mj_SimjoinType :: int
  epsilon :: int
  mj_FillOuter :: bool
  mj_FillInner :: bool
  joinqual :: join_qual
  otherqual :: join_qual
  null_at_end :: bool

record MergeJoinState =
  mj_Clauses :: "MergeJoinClause list"
  mj_JoinState :: MJState
  mj_MatchedOuter :: bool
  mj_MatchedInner :: bool
  mj_OuterTupleSlot :: "slot option"
  mj_InnerTupleSlot :: "slot option"
  mj_MarkedTupleSlot :: "slot option"
  mj_PreviousInnerTupleSlot :: "slot option"
  mj_InnerCopyTupleSlot :: "slot option"
  mj_FirstMarkedSlot :: "slot option"
  mj_outer :: "slot list"
  mj_inner :: "slot list"
  mj_mark :: "slot list"

section \<open>Values of the join expressions\<close>

text \<open>No attribute can be read from an empty slot. The result is whether the tuple can match at all.\<close>

definition MJEvalOuterValues :: "MergeJoinState \<Rightarrow> pg_error + bool \<times> MergeJoinState" where
  "MJEvalOuterValues st =
     (case mj_OuterTupleSlot st of
        None \<Rightarrow> Inl Internal_error
      | Some s \<Rightarrow>
          bindE (mapE (\<lambda>c. bindE (lexpr c s) (\<lambda>d. Inr (c\<lparr>ldatum := d\<rparr>))) (mj_Clauses st)) (\<lambda>cs.
          Inr (\<forall>c\<in>set cs. \<not> (ldatum c = None \<and> mergestrict c), st\<lparr>mj_Clauses := cs\<rparr>)))"

definition MJEvalInnerValues :: "slot option \<Rightarrow> MergeJoinState \<Rightarrow> pg_error + bool \<times> MergeJoinState" where
  "MJEvalInnerValues innerslot st =
     (case innerslot of
        None \<Rightarrow> Inl Internal_error
      | Some s \<Rightarrow>
          bindE (mapE (\<lambda>c. bindE (rexpr c s) (\<lambda>d. Inr (c\<lparr>rdatum := d\<rparr>))) (mj_Clauses st)) (\<lambda>cs.
          Inr (\<forall>c\<in>set cs. \<not> (rdatum c = None \<and> mergestrict c), st\<lparr>mj_Clauses := cs\<rparr>)))"

definition MJEvalNextInnerValues :: "slot option \<Rightarrow> MergeJoinState \<Rightarrow> pg_error + bool \<times> MergeJoinState" where
  "MJEvalNextInnerValues nextinnerslot st =
     (case nextinnerslot of
        None \<Rightarrow> Inl Internal_error
      | Some s \<Rightarrow>
          bindE (mapE (\<lambda>c. bindE (rexpr c s) (\<lambda>d. Inr (c\<lparr>rnextdatum := d\<rparr>))) (mj_Clauses st)) (\<lambda>cs.
          Inr (\<forall>c\<in>set cs. \<not> (rnextdatum c = None \<and> mergestrict c), st\<lparr>mj_Clauses := cs\<rparr>)))"

section \<open>Comparison\<close>

text \<open>What a clause says: go on with the next one, go on and remember a NULL, or the result.\<close>

datatype verdict = Similar | Null_result | Differs int

definition call2 :: "int FmgrInfo \<Rightarrow> int \<Rightarrow> int \<Rightarrow> pg_error + int option" where
  "call2 f a b = fn_call f [Some a, Some b]"

text \<open>The calls of the similarity joins, for which NULL is an error.\<close>

definition call2_strict :: "int FmgrInfo \<Rightarrow> int \<Rightarrow> int \<Rightarrow> pg_error + int" where
  "call2_strict f a b = bindE (call2 f a b) (\<lambda>r. case r of None \<Rightarrow> Inl Internal_error | Some d \<Rightarrow> Inr d)"

definition DatumGetBool :: "int \<Rightarrow> bool" where
  "DatumGetBool d \<longleftrightarrow> d \<noteq> 0"

definition less_or_greater :: "MergeJoinClause \<Rightarrow> int \<Rightarrow> int \<Rightarrow> pg_error + verdict" where
  "less_or_greater c l r =
     bindE (call2 (cmpfinfo c) l r) (\<lambda>fresult. Inr (case fresult of
       None \<Rightarrow> Null_result
     | Some d \<Rightarrow> Differs (if DatumGetBool d then -1 else 1)))"

definition compare_equality :: "MergeJoinClause \<Rightarrow> int \<Rightarrow> int \<Rightarrow> pg_error + verdict" where
  "compare_equality c l r =
     bindE (call2 (eqfinfo c) l r) (\<lambda>fresult. case fresult of
       None \<Rightarrow> Inr Null_result
     | Some d \<Rightarrow> if DatumGetBool d then Inr Similar else less_or_greater c l r)"

definition compare_epsilon :: "int \<Rightarrow> MergeJoinClause \<Rightarrow> int \<Rightarrow> int \<Rightarrow> pg_error + verdict" where
  "compare_epsilon eps c l r =
     bindE (call2_strict (minusfinfo c) l r) (\<lambda>d1.
     bindE (call2_strict (minusfinfo c) r l) (\<lambda>d2.
     bindE (call2_strict (cmpfinfo c) eps d1) (\<lambda>b1.
     bindE (call2_strict (cmpfinfo c) eps d2) (\<lambda>b2.
       if \<not> (DatumGetBool b1 \<or> DatumGetBool b2) then Inr Similar else less_or_greater c l r))))"

text \<open>The null flag of the next inner value is not looked at: a NULL is compared as the datum 0.\<close>

definition compare_around :: "MergeJoinClause \<Rightarrow> int \<Rightarrow> int \<Rightarrow> pg_error + verdict" where
  "compare_around c l r =
     (let n = (case rnextdatum c of None \<Rightarrow> 0 | Some d \<Rightarrow> d) in
      bindE (call2_strict (cmpfinfo c) r l) (\<lambda>b.
      if \<not> DatumGetBool b then Inr Similar
      else bindE (call2_strict (cmpfinfo c) n l) (\<lambda>b.
      if DatumGetBool b then Inr (Differs 1)
      else bindE (call2_strict (minusfinfo c) l r) (\<lambda>d1.
           bindE (call2_strict (minusfinfo c) n l) (\<lambda>d2.
           bindE (call2_strict (cmpfinfo c) d1 d2) (\<lambda>b.
           Inr (if DatumGetBool b then Similar else Differs 1)))))))"

definition compare_btree :: "MergeJoinClause \<Rightarrow> int \<Rightarrow> int \<Rightarrow> pg_error + verdict" where
  "compare_btree c l r =
     bindE (call2 (cmpfinfo c) l r) (\<lambda>fresult. Inr (case fresult of
       None \<Rightarrow> Null_result
     | Some d \<Rightarrow> if d = 0 then Similar else if d < 0 then Differs (-1) else Differs 1))"

definition compare_values :: "MergeJoinNode \<Rightarrow> MergeJoinClause \<Rightarrow> int \<Rightarrow> int \<Rightarrow> pg_error + verdict" where
  "compare_values node c l r =
     (if cmpstrategy c = MERGEFUNC_LT
      then if mj_SimjoinType node = 0 then compare_equality c l r
           else if mj_SimjoinType node = 1 then compare_epsilon (epsilon node) c l r
           else if mj_SimjoinType node = 2 then compare_around c l r
           else Inr Similar
      else compare_btree c l r)"

text \<open>The loop over the clauses, with the flag \<open>nulleqnull\<close>.\<close>

fun compare_clauses :: "MergeJoinNode \<Rightarrow> MergeJoinClause list \<Rightarrow> bool \<Rightarrow> pg_error + int \<times> bool" where
  "compare_clauses node [] nulleqnull = Inr (0, nulleqnull)"
| "compare_clauses node (c # cs) nulleqnull =
     (case ldatum c of
        None \<Rightarrow>
          (case rdatum c of
             None \<Rightarrow>
               if fn_strict (eqfinfo c) then compare_clauses node cs True
               else bindE (fn_call (eqfinfo c) [None, None]) (\<lambda>fresult. case fresult of
                      None \<Rightarrow> compare_clauses node cs True
                    | Some d \<Rightarrow> if DatumGetBool d then compare_clauses node cs nulleqnull else compare_clauses node cs True)
           | Some r \<Rightarrow> Inr (1, nulleqnull))
      | Some l \<Rightarrow>
          (case rdatum c of
             None \<Rightarrow> Inr (-1, nulleqnull)
           | Some r \<Rightarrow>
               bindE (compare_values node c l r) (\<lambda>v. case v of
                 Similar \<Rightarrow> compare_clauses node cs nulleqnull
               | Null_result \<Rightarrow> compare_clauses node cs True
               | Differs d \<Rightarrow> Inr (d, nulleqnull))))"

definition MJCompare :: "MergeJoinNode \<Rightarrow> MergeJoinState \<Rightarrow> pg_error + int" where
  "MJCompare node st =
     bindE (compare_clauses node (mj_Clauses st) False) (\<lambda>(result, nulleqnull).
     Inr (if nulleqnull \<and> result = 0 then 1 else result))"

fun same_inner_clauses :: "MergeJoinClause list \<Rightarrow> pg_error + int" where
  "same_inner_clauses [] = Inr 0"
| "same_inner_clauses (c # cs) =
     (case rdatum c of
        None \<Rightarrow> if rnextdatum c = None then same_inner_clauses cs else Inr 1
      | Some r \<Rightarrow>
          (case rnextdatum c of
             None \<Rightarrow> Inr 1
           | Some n \<Rightarrow>
               bindE (call2 (eqfinfo c) r n) (\<lambda>fresult. case fresult of
                 None \<Rightarrow> same_inner_clauses cs
               | Some d \<Rightarrow> if DatumGetBool d then same_inner_clauses cs else Inr 1)))"

definition MJCompare_InnerAndNextInner :: "MergeJoinState \<Rightarrow> pg_error + int" where
  "MJCompare_InnerAndNextInner st = same_inner_clauses (mj_Clauses st)"

section \<open>The subplans and the slots\<close>

text \<open>\<open>ExecProcNode\<close> of the two subplans. A restore brings the inner plan to where it was at the mark: it
  returns the same rows again.\<close>

definition next_outer :: "MergeJoinState \<Rightarrow> MergeJoinState" where
  "next_outer st =
     (case mj_outer st of
        [] \<Rightarrow> st\<lparr>mj_OuterTupleSlot := None\<rparr>
      | s # ss \<Rightarrow> st\<lparr>mj_OuterTupleSlot := Some s, mj_outer := ss\<rparr>)"

definition next_inner :: "MergeJoinState \<Rightarrow> MergeJoinState" where
  "next_inner st =
     (case mj_inner st of
        [] \<Rightarrow> st\<lparr>mj_InnerTupleSlot := None\<rparr>
      | s # ss \<Rightarrow> st\<lparr>mj_InnerTupleSlot := Some s, mj_inner := ss\<rparr>)"

definition ExecMarkPos :: "MergeJoinState \<Rightarrow> MergeJoinState" where
  "ExecMarkPos st = st\<lparr>mj_mark := mj_inner st\<rparr>"

definition ExecRestrPos :: "MergeJoinState \<Rightarrow> MergeJoinState" where
  "ExecRestrPos st = st\<lparr>mj_inner := mj_mark st\<rparr>"

text \<open>\<open>ExecCopySlot\<close> copies a tuple. An empty slot holds none, and the slot of the inner plan is NULL
  after its end when the plan returns NULL there.\<close>

definition slot_tuple :: "slot option \<Rightarrow> pg_error + slot" where
  "slot_tuple src = (case src of None \<Rightarrow> Inl Undefined_read | Some s \<Rightarrow> Inr s)"

definition copy_to_inner :: "MergeJoinNode \<Rightarrow> slot option \<Rightarrow> MergeJoinState \<Rightarrow> pg_error + MergeJoinState" where
  "copy_to_inner node src st =
     (if mj_InnerTupleSlot st = None \<and> null_at_end node then Inl Undefined_read
      else bindE (slot_tuple src) (\<lambda>s. Inr (st\<lparr>mj_InnerTupleSlot := Some s\<rparr>)))"

section \<open>Qualifications and fill tuples\<close>

definition ExecQual :: "join_qual \<Rightarrow> slot option \<Rightarrow> slot option \<Rightarrow> pg_error + bool" where
  "ExecQual q outer inner = (case q of None \<Rightarrow> Inr True | Some f \<Rightarrow> f outer inner)"

definition MJFillOuter :: "MergeJoinNode \<Rightarrow> MergeJoinState \<Rightarrow> pg_error + joined option" where
  "MJFillOuter node st =
     bindE (ExecQual (otherqual node) (mj_OuterTupleSlot st) None) (\<lambda>b.
     Inr (if b then Some (mj_OuterTupleSlot st, None) else None))"

definition MJFillInner :: "MergeJoinNode \<Rightarrow> MergeJoinState \<Rightarrow> pg_error + joined option" where
  "MJFillInner node st =
     bindE (ExecQual (otherqual node) None (mj_InnerTupleSlot st)) (\<lambda>b.
     Inr (if b then Some (None, mj_InnerTupleSlot st) else None))"

section \<open>The state machine\<close>

text \<open>One turn of the loop goes on with the next state or returns, a row or NULL.\<close>

datatype outcome = Continue | Return "joined option"

type_synonym step_result = "pg_error + outcome \<times> MergeJoinState"

definition go :: "MJState \<Rightarrow> MergeJoinState \<Rightarrow> step_result" where
  "go s st = Inr (Continue, st\<lparr>mj_JoinState := s\<rparr>)"

definition return_null :: "MergeJoinState \<Rightarrow> step_result" where
  "return_null st = Inr (Return None, st)"

text \<open>A fill tuple is returned at once, a later call then goes on in the same state. The flags stop it from
  being returned again.\<close>

definition or_return :: "pg_error + joined option \<Rightarrow> MergeJoinState \<Rightarrow> step_result \<Rightarrow> step_result" where
  "or_return fill st rest = bindE fill (\<lambda>r. case r of Some row \<Rightarrow> Inr (Return (Some row), st) | None \<Rightarrow> rest)"

definition fill_outer :: "MergeJoinNode \<Rightarrow> (MergeJoinState \<Rightarrow> step_result) \<Rightarrow> MergeJoinState \<Rightarrow> step_result" where
  "fill_outer node k st =
     (if mj_FillOuter node \<and> \<not> mj_MatchedOuter st
      then let st' = st\<lparr>mj_MatchedOuter := True\<rparr> in or_return (MJFillOuter node st') st' (k st')
      else k st)"

definition fill_inner :: "MergeJoinNode \<Rightarrow> (MergeJoinState \<Rightarrow> step_result) \<Rightarrow> MergeJoinState \<Rightarrow> step_result" where
  "fill_inner node k st =
     (if mj_FillInner node \<and> \<not> mj_MatchedInner st
      then let st' = st\<lparr>mj_MatchedInner := True\<rparr> in or_return (MJFillInner node st') st' (k st')
      else k st)"

definition MJ_initialize_outer :: "MergeJoinNode \<Rightarrow> MergeJoinState \<Rightarrow> step_result" where
  "MJ_initialize_outer node st =
     (let st = next_outer st in
      if mj_OuterTupleSlot st = None
      then if mj_FillInner node then go ENDOUTER (st\<lparr>mj_MatchedInner := True\<rparr>) else return_null st
      else bindE (MJEvalOuterValues st) (\<lambda>(canmatch, st).
        if canmatch then go INITIALIZE_INNER st
        else if mj_FillOuter node then or_return (MJFillOuter node st) st (go INITIALIZE_OUTER st)
        else go INITIALIZE_OUTER st))"

definition MJ_initialize_inner :: "MergeJoinNode \<Rightarrow> MergeJoinState \<Rightarrow> step_result" where
  "MJ_initialize_inner node st =
     (let st = next_inner st in
      if mj_InnerTupleSlot st = None
      then if mj_FillOuter node then go ENDINNER (st\<lparr>mj_MatchedOuter := False\<rparr>) else return_null st
      else bindE (MJEvalInnerValues (mj_InnerTupleSlot st) st) (\<lambda>(canmatch, st).
        if canmatch
        then if mj_SimjoinType node = 2
             then let st = next_inner (st\<lparr>mj_InnerCopyTupleSlot := mj_InnerTupleSlot st\<rparr>) in
                  if mj_InnerTupleSlot st = None then go SKIP_TEST st
                  else bindE (MJEvalNextInnerValues (mj_InnerTupleSlot st) st) (\<lambda>(_, st). go SKIP_TEST st)
             else go SKIP_TEST st
        else if mj_FillInner node then or_return (MJFillInner node st) st (go INITIALIZE_INNER st)
        else go INITIALIZE_INNER st))"

definition MJ_jointuples :: "MergeJoinNode \<Rightarrow> MergeJoinState \<Rightarrow> step_result" where
  "MJ_jointuples node st =
     (let st = st\<lparr>mj_JoinState := NEXTINNER\<rparr>;
          outer = mj_OuterTupleSlot st;
          inner = (if mj_SimjoinType node = 2 then mj_InnerCopyTupleSlot st else mj_InnerTupleSlot st) in
      bindE (if jointype node = JOIN_IN \<and> mj_MatchedOuter st then Inr False else ExecQual (joinqual node) outer inner) (\<lambda>b.
      if b
      then let st = st\<lparr>mj_MatchedOuter := True, mj_MatchedInner := True\<rparr> in
           bindE (ExecQual (otherqual node) outer inner) (\<lambda>b.
           Inr (if b then Return (Some (outer, inner)) else Continue, st))
      else Inr (Continue, st)))"

definition shift_inner :: "MergeJoinNode \<Rightarrow> MergeJoinState \<Rightarrow> pg_error + MergeJoinState" where
  "shift_inner node st =
     (if mj_SimjoinType node = 1
      then bindE (slot_tuple (mj_InnerTupleSlot st)) (\<lambda>s. Inr (st\<lparr>mj_PreviousInnerTupleSlot := Some s\<rparr>))
      else if mj_SimjoinType node = 2
      then if mj_InnerTupleSlot st \<noteq> None
           then bindE (slot_tuple (mj_InnerCopyTupleSlot st)) (\<lambda>s.
                Inr (st\<lparr>mj_PreviousInnerTupleSlot := Some s, mj_InnerCopyTupleSlot := mj_InnerTupleSlot st\<rparr>))
           else Inr (st\<lparr>mj_InnerCopyTupleSlot := None\<rparr>)
      else Inr st)"

definition advance_inner :: "MergeJoinNode \<Rightarrow> MergeJoinState \<Rightarrow> step_result" where
  "advance_inner node st =
     bindE (shift_inner node st) (\<lambda>st.
     if mj_SimjoinType node = 2
     then if mj_InnerTupleSlot st = None then go NEXTOUTER st
          else let st = (next_inner st)\<lparr>mj_MatchedInner := False\<rparr> in
               bindE (MJEvalInnerValues (mj_PreviousInnerTupleSlot st) st) (\<lambda>(_, st).
               bindE (MJEvalNextInnerValues (mj_InnerCopyTupleSlot st) st) (\<lambda>(_, st).
               bindE (MJCompare_InnerAndNextInner st) (\<lambda>r. go (if r = 0 then JOINTUPLES else NEXTOUTER) st)))
     else let st = (next_inner st)\<lparr>mj_MatchedInner := False\<rparr> in
          if mj_InnerTupleSlot st = None then go NEXTOUTER st
          else bindE (MJEvalInnerValues (mj_InnerTupleSlot st) st) (\<lambda>(canmatch, st).
               if \<not> canmatch then go NEXTOUTER st
               else bindE (MJCompare node st) (\<lambda>r. go (if r = 0 then JOINTUPLES else NEXTOUTER) st)))"

definition MJ_nextinner :: "MergeJoinNode \<Rightarrow> MergeJoinState \<Rightarrow> step_result" where
  "MJ_nextinner node = fill_inner node (advance_inner node)"

text \<open>The end of \<open>NEXTOUTER\<close> and \<open>SKIPOUTER_ADVANCE\<close>.\<close>

definition advance_outer :: "MergeJoinNode \<Rightarrow> MJState \<Rightarrow> MJState \<Rightarrow> MergeJoinState \<Rightarrow> step_result" where
  "advance_outer node found stay st =
     (let st = (next_outer st)\<lparr>mj_MatchedOuter := False\<rparr> in
      if mj_OuterTupleSlot st = None
      then if mj_FillInner node \<and> mj_InnerTupleSlot st \<noteq> None then go ENDOUTER st else return_null st
      else bindE (MJEvalOuterValues st) (\<lambda>(canmatch, st). go (if canmatch then found else stay) st))"

definition MJ_nextouter :: "MergeJoinNode \<Rightarrow> MergeJoinState \<Rightarrow> step_result" where
  "MJ_nextouter node = fill_outer node (advance_outer node TESTOUTER NEXTOUTER)"

definition MJ_skipouter_advance :: "MergeJoinNode \<Rightarrow> MergeJoinState \<Rightarrow> step_result" where
  "MJ_skipouter_advance node = fill_outer node (advance_outer node SKIP_TEST SKIPOUTER_ADVANCE)"

text \<open>\<open>TESTOUTER\<close>: the comparison of the new outer tuple with the marked tuple (equality), the last
  tuple of the group before (epsilon join), or that tuple and the one after it (\<open>AROUND\<close>). For no other type a
  result is set.\<close>

definition test_outer :: "MergeJoinNode \<Rightarrow> MergeJoinState \<Rightarrow> pg_error + int \<times> MergeJoinState" where
  "test_outer node st =
     (if mj_SimjoinType node = 0
      then bindE (MJEvalInnerValues (mj_MarkedTupleSlot st) st) (\<lambda>(_, st).
           bindE (MJCompare node st) (\<lambda>r. Inr (r, st)))
      else if mj_SimjoinType node = 1
      then bindE (MJEvalInnerValues (mj_PreviousInnerTupleSlot st) st) (\<lambda>(_, st).
           bindE (MJCompare node st) (\<lambda>r. Inr (r, st)))
      else if mj_SimjoinType node = 2
      then if mj_InnerCopyTupleSlot st = None then Inr (0, st)
           else bindE (MJEvalNextInnerValues (mj_InnerCopyTupleSlot st) st) (\<lambda>(_, st).
                bindE (MJEvalInnerValues (mj_PreviousInnerTupleSlot st) st) (\<lambda>(_, st).
                bindE (MJCompare node st) (\<lambda>r. Inr (r, st))))
      else Inl Undefined_read)"

text \<open>In an \<open>AROUND\<close> join the group of the marked inner tuples starts with the slot \<open>mj_FirstMarkedSlot\<close>.\<close>

definition restore_outer :: "MergeJoinNode \<Rightarrow> MergeJoinState \<Rightarrow> step_result" where
  "restore_outer node st =
     (if mj_SimjoinType node = 0
      then go JOINTUPLES ((ExecRestrPos st)\<lparr>mj_InnerTupleSlot := mj_MarkedTupleSlot st\<rparr>)
      else if mj_SimjoinType node = 1
      then bindE (MJEvalInnerValues (mj_MarkedTupleSlot st) st) (\<lambda>(_, st).
           go SKIP_TEST ((ExecRestrPos st)\<lparr>mj_InnerTupleSlot := mj_MarkedTupleSlot st\<rparr>))
      else bindE (slot_tuple (mj_FirstMarkedSlot st)) (\<lambda>s.
           bindE (MJEvalInnerValues (Some s) ((ExecRestrPos st)\<lparr>mj_InnerCopyTupleSlot := Some s\<rparr>)) (\<lambda>(_, st).
           if mj_MarkedTupleSlot st = None then go JOINTUPLES st
           else bindE (copy_to_inner node (mj_MarkedTupleSlot st) st) (\<lambda>st.
                bindE (MJEvalNextInnerValues (mj_InnerTupleSlot st) st) (\<lambda>(_, st). go JOINTUPLES st)))))"

definition leave_marked :: "MergeJoinNode \<Rightarrow> MergeJoinState \<Rightarrow> step_result" where
  "leave_marked node st =
     (let inner = (if mj_SimjoinType node = 2 then mj_InnerCopyTupleSlot st else mj_InnerTupleSlot st) in
      if inner = None then if mj_FillOuter node then go ENDINNER st else return_null st
      else bindE (MJEvalInnerValues inner st) (\<lambda>(canmatch, st).
        if \<not> canmatch then go SKIPINNER_ADVANCE st
        else if mj_SimjoinType node = 2 \<and> mj_InnerTupleSlot st \<noteq> None
        then bindE (MJEvalNextInnerValues (mj_InnerTupleSlot st) st) (\<lambda>(_, st). go SKIP_TEST st)
        else go SKIP_TEST st))"

definition MJ_testouter :: "MergeJoinNode \<Rightarrow> MergeJoinState \<Rightarrow> step_result" where
  "MJ_testouter node st =
     bindE (test_outer node st) (\<lambda>(r, st). if r = 0 then restore_outer node st else leave_marked node st)"

text \<open>\<open>SKIP_TEST\<close> of an \<open>AROUND\<close> join: the loop to the end of a run of equal inner tuples, the inner rows to
  come given apart.\<close>

fun skip_equal_inner :: "MergeJoinState \<Rightarrow> slot list \<Rightarrow> pg_error + MergeJoinState" where
  "skip_equal_inner st [] =
     bindE (slot_tuple (mj_InnerTupleSlot st)) (\<lambda>s.
     bindE (MJEvalInnerValues (Some s) (st\<lparr>mj_InnerCopyTupleSlot := Some s\<rparr>)) (\<lambda>(_, st).
     Inr (st\<lparr>mj_InnerTupleSlot := None, mj_inner := []\<rparr>)))"
| "skip_equal_inner st (n # ns) =
     bindE (slot_tuple (mj_InnerTupleSlot st)) (\<lambda>s.
     bindE (MJEvalInnerValues (Some s) (st\<lparr>mj_InnerCopyTupleSlot := Some s\<rparr>)) (\<lambda>(_, st).
     bindE (MJEvalNextInnerValues (Some n) (st\<lparr>mj_InnerTupleSlot := Some n, mj_inner := ns\<rparr>)) (\<lambda>(_, st).
     bindE (MJCompare_InnerAndNextInner st) (\<lambda>r. if r = 0 then skip_equal_inner st ns else Inr st))))"

definition back_to_first :: "MergeJoinNode \<Rightarrow> MergeJoinState \<Rightarrow> step_result" where
  "back_to_first node st =
     bindE (slot_tuple (mj_FirstMarkedSlot st)) (\<lambda>s.
     bindE (MJEvalInnerValues (Some s) ((ExecRestrPos st)\<lparr>mj_InnerCopyTupleSlot := Some s\<rparr>)) (\<lambda>(_, st).
     bindE (copy_to_inner node (mj_MarkedTupleSlot st) st) (\<lambda>st.
     bindE (MJEvalNextInnerValues (mj_InnerTupleSlot st) st) (\<lambda>(_, st). go JOINTUPLES st))))"

definition skip_test_around :: "MergeJoinNode \<Rightarrow> MergeJoinState \<Rightarrow> step_result" where
  "skip_test_around node st =
     (if mj_InnerTupleSlot st = None
      then bindE (slot_tuple (mj_InnerCopyTupleSlot st)) (\<lambda>s.
           go JOINTUPLES ((ExecMarkPos (st\<lparr>mj_FirstMarkedSlot := Some s\<rparr>))\<lparr>mj_MarkedTupleSlot := None\<rparr>))
      else
        bindE (MJCompare node st) (\<lambda>compareResult.
        bindE (MJCompare_InnerAndNextInner st) (\<lambda>compareResult2.
        if compareResult2 \<noteq> 0 \<and> compareResult \<noteq> 0 then go SKIPINNER_ADVANCE st
        else bindE (slot_tuple (mj_InnerCopyTupleSlot st)) (\<lambda>s.
          let st = (ExecMarkPos (st\<lparr>mj_FirstMarkedSlot := Some s\<rparr>))\<lparr>mj_MarkedTupleSlot := mj_InnerTupleSlot st\<rparr> in
          if compareResult2 = 0 \<and> compareResult > 0
          then bindE (skip_equal_inner st (mj_inner st)) (\<lambda>st.
               if mj_InnerTupleSlot st = None then back_to_first node st
               else bindE (MJCompare node st) (\<lambda>r.
                    if r \<noteq> 0 then back_to_first node st else go SKIPINNER_ADVANCE st))
          else go JOINTUPLES st))))"

definition MJ_skip_test :: "MergeJoinNode \<Rightarrow> MergeJoinState \<Rightarrow> step_result" where
  "MJ_skip_test node st =
     (if mj_SimjoinType node = 2 then skip_test_around node st
      else bindE (MJCompare node st) (\<lambda>r.
        if r = 0
        then bindE (slot_tuple (mj_InnerTupleSlot st)) (\<lambda>s.
             go JOINTUPLES ((ExecMarkPos st)\<lparr>mj_MarkedTupleSlot := Some s\<rparr>))
        else go (if r < 0 then SKIPOUTER_ADVANCE else SKIPINNER_ADVANCE) st))"

definition skip_inner :: "MergeJoinNode \<Rightarrow> MergeJoinState \<Rightarrow> step_result" where
  "skip_inner node st =
     bindE (if mj_SimjoinType node = 2
            then bindE (slot_tuple (mj_InnerTupleSlot st)) (\<lambda>s.
                 bindE (MJEvalInnerValues (Some s) (st\<lparr>mj_InnerCopyTupleSlot := Some s\<rparr>)) (\<lambda>(_, st). Inr st))
            else Inr st) (\<lambda>st.
     let st = (next_inner st)\<lparr>mj_MatchedInner := False\<rparr> in
     if mj_InnerTupleSlot st = None
     then if mj_SimjoinType node = 2 then go SKIP_TEST st
          else if mj_FillOuter node \<and> mj_OuterTupleSlot st \<noteq> None then go ENDINNER st
          else return_null st
     else if mj_SimjoinType node = 2
     then bindE (MJEvalNextInnerValues (mj_InnerTupleSlot st) st) (\<lambda>(_, st). go SKIP_TEST st)
     else bindE (MJEvalInnerValues (mj_InnerTupleSlot st) st) (\<lambda>(canmatch, st).
          go (if canmatch then SKIP_TEST else SKIPINNER_ADVANCE) st))"

definition MJ_skipinner_advance :: "MergeJoinNode \<Rightarrow> MergeJoinState \<Rightarrow> step_result" where
  "MJ_skipinner_advance node = fill_inner node (skip_inner node)"

text \<open>The fill tuples after the end of one side. Without its flag a matched tuple is not filled.\<close>

definition MJ_endouter :: "MergeJoinNode \<Rightarrow> MergeJoinState \<Rightarrow> step_result" where
  "MJ_endouter node st =
     (let rest = (\<lambda>st. let st = (next_inner st)\<lparr>mj_MatchedInner := False\<rparr> in
                  if mj_InnerTupleSlot st = None then return_null st else go ENDOUTER st);
          st' = st\<lparr>mj_MatchedInner := True\<rparr> in
      if mj_MatchedInner st then rest st else or_return (MJFillInner node st') st' (rest st'))"

definition MJ_endinner :: "MergeJoinNode \<Rightarrow> MergeJoinState \<Rightarrow> step_result" where
  "MJ_endinner node st =
     (let rest = (\<lambda>st. let st = (next_outer st)\<lparr>mj_MatchedOuter := False\<rparr> in
                  if mj_OuterTupleSlot st = None then return_null st else go ENDINNER st);
          st' = st\<lparr>mj_MatchedOuter := True\<rparr> in
      if mj_MatchedOuter st then rest st else or_return (MJFillOuter node st') st' (rest st'))"

fun MJ_step :: "MergeJoinNode \<Rightarrow> MergeJoinState \<Rightarrow> step_result" where
  "MJ_step node st =
     (case mj_JoinState st of
        INITIALIZE_OUTER \<Rightarrow> MJ_initialize_outer node st
      | INITIALIZE_INNER \<Rightarrow> MJ_initialize_inner node st
      | JOINTUPLES \<Rightarrow> MJ_jointuples node st
      | NEXTINNER \<Rightarrow> MJ_nextinner node st
      | NEXTOUTER \<Rightarrow> MJ_nextouter node st
      | TESTOUTER \<Rightarrow> MJ_testouter node st
      | SKIP_TEST \<Rightarrow> MJ_skip_test node st
      | SKIPOUTER_ADVANCE \<Rightarrow> MJ_skipouter_advance node st
      | SKIPINNER_ADVANCE \<Rightarrow> MJ_skipinner_advance node st
      | ENDOUTER \<Rightarrow> MJ_endouter node st
      | ENDINNER \<Rightarrow> MJ_endinner node st)"

declare MJ_step.simps [simp del]

lemma MJ_step_state:
  "mj_JoinState st = INITIALIZE_OUTER \<Longrightarrow> MJ_step node st = MJ_initialize_outer node st"
  "mj_JoinState st = INITIALIZE_INNER \<Longrightarrow> MJ_step node st = MJ_initialize_inner node st"
  "mj_JoinState st = JOINTUPLES \<Longrightarrow> MJ_step node st = MJ_jointuples node st"
  "mj_JoinState st = NEXTINNER \<Longrightarrow> MJ_step node st = MJ_nextinner node st"
  "mj_JoinState st = NEXTOUTER \<Longrightarrow> MJ_step node st = MJ_nextouter node st"
  "mj_JoinState st = TESTOUTER \<Longrightarrow> MJ_step node st = MJ_testouter node st"
  "mj_JoinState st = SKIP_TEST \<Longrightarrow> MJ_step node st = MJ_skip_test node st"
  "mj_JoinState st = SKIPOUTER_ADVANCE \<Longrightarrow> MJ_step node st = MJ_skipouter_advance node st"
  "mj_JoinState st = SKIPINNER_ADVANCE \<Longrightarrow> MJ_step node st = MJ_skipinner_advance node st"
  "mj_JoinState st = ENDOUTER \<Longrightarrow> MJ_step node st = MJ_endouter node st"
  "mj_JoinState st = ENDINNER \<Longrightarrow> MJ_step node st = MJ_endinner node st"
  by (simp_all add: MJ_step.simps)

section \<open>Every call returns\<close>

text \<open>The measure of a state: the outer rows to come; whether the inner plan can still be set back; the inner
  rows to come with the current one; the place in the cycle; the fill tuples not yet returned.\<close>

fun mj_rank :: "MJState \<Rightarrow> nat" where
  "mj_rank SKIP_TEST = 6"
| "mj_rank JOINTUPLES = 5"
| "mj_rank NEXTINNER = 4"
| "mj_rank NEXTOUTER = 3"
| "mj_rank SKIPINNER_ADVANCE = 2"
| "mj_rank SKIPOUTER_ADVANCE = 2"
| "mj_rank INITIALIZE_OUTER = 1"
| "mj_rank INITIALIZE_INNER = 1"
| "mj_rank _ = 0"

definition inner_to_come :: "MergeJoinState \<Rightarrow> nat" where
  "inner_to_come st = 2 * length (mj_inner st) + (if mj_InnerTupleSlot st = None then 0 else 1)"

definition fills_to_come :: "MergeJoinState \<Rightarrow> nat" where
  "fills_to_come st = (if mj_MatchedOuter st then 0 else 1) + (if mj_MatchedInner st then 0 else 1)"

definition mj_order :: "(MergeJoinState \<times> MergeJoinState) set" where
  "mj_order = measures [\<lambda>st. length (mj_outer st), \<lambda>st. if mj_JoinState st = TESTOUTER then 1 else 0,
     inner_to_come, \<lambda>st. mj_rank (mj_JoinState st), fills_to_come]"

lemma wf_mj_order [simp]: "wf mj_order"
  by (simp add: mj_order_def)

text \<open>Every turn that does not return NULL makes progress.\<close>

definition progress :: "MergeJoinState \<Rightarrow> step_result \<Rightarrow> bool" where
  "progress st r \<longleftrightarrow> (\<forall>out st'. r = Inr (out, st') \<and> out \<noteq> Return None \<longrightarrow> (st', st) \<in> mj_order)"

named_theorems progress_simps "progress of the parts of a step"

lemma progress_Inl [progress_simps]: "progress st (Inl e)"
  by (simp add: progress_def)

lemma progress_null [progress_simps]: "progress st (return_null st')"
  by (simp add: progress_def return_null_def)

lemma progress_go [progress_simps]: "progress st (go s st') \<longleftrightarrow> (st'\<lparr>mj_JoinState := s\<rparr>, st) \<in> mj_order"
  by (simp add: progress_def go_def)

lemma progress_Inr [progress_simps]: "progress st (Inr (out, st')) \<longleftrightarrow> out = Return None \<or> (st', st) \<in> mj_order"
  by (auto simp: progress_def)

lemma progress_if [progress_simps]: "progress st (if b then x else y) \<longleftrightarrow> (if b then progress st x else progress st y)"
  by simp

lemma progress_bindE: "(\<And>x. r = Inr x \<Longrightarrow> progress st (f x)) \<Longrightarrow> progress st (bindE r f)"
  by (cases r) (simp_all add: progress_simps)

lemma progress_or_return: "progress st rest \<Longrightarrow> (st', st) \<in> mj_order \<Longrightarrow> progress st (or_return fill st' rest)"
  unfolding or_return_def by (rule progress_bindE) (simp split: option.split add: progress_simps)

text \<open>The evaluations change the datums only.\<close>

lemma MJEval_state:
  "MJEvalOuterValues st = Inr (b, st') \<Longrightarrow> \<exists>cs. st' = st\<lparr>mj_Clauses := cs\<rparr>"
  "MJEvalInnerValues s st = Inr (b, st') \<Longrightarrow> \<exists>cs. st' = st\<lparr>mj_Clauses := cs\<rparr>"
  "MJEvalNextInnerValues s st = Inr (b, st') \<Longrightarrow> \<exists>cs. st' = st\<lparr>mj_Clauses := cs\<rparr>"
  by (auto simp: MJEvalOuterValues_def MJEvalInnerValues_def MJEvalNextInnerValues_def bindE_Inr_iff split: option.splits)

lemma progress_eval:
  "(\<And>b cs. progress st (f (b, st'\<lparr>mj_Clauses := cs\<rparr>))) \<Longrightarrow> progress st (bindE (MJEvalOuterValues st') f)"
  "(\<And>b cs. progress st (f (b, st'\<lparr>mj_Clauses := cs\<rparr>))) \<Longrightarrow> progress st (bindE (MJEvalInnerValues s st') f)"
  "(\<And>b cs. progress st (f (b, st'\<lparr>mj_Clauses := cs\<rparr>))) \<Longrightarrow> progress st (bindE (MJEvalNextInnerValues s st') f)"
  by (auto intro!: progress_bindE dest!: MJEval_state)

lemmas progress_intros = progress_eval progress_or_return

lemma next_outer_simps [simp]:
  "mj_outer (next_outer st) = tl (mj_outer st)" "mj_OuterTupleSlot (next_outer st) = None \<longleftrightarrow> mj_outer st = []"
  "mj_inner (next_outer st) = mj_inner st" "mj_InnerTupleSlot (next_outer st) = mj_InnerTupleSlot st"
  "mj_JoinState (next_outer st) = mj_JoinState st" "mj_MatchedOuter (next_outer st) = mj_MatchedOuter st"
  "mj_MatchedInner (next_outer st) = mj_MatchedInner st"
  by (simp_all add: next_outer_def split: list.split)

lemma next_inner_simps [simp]:
  "mj_inner (next_inner st) = tl (mj_inner st)" "mj_InnerTupleSlot (next_inner st) = None \<longleftrightarrow> mj_inner st = []"
  "mj_outer (next_inner st) = mj_outer st" "mj_OuterTupleSlot (next_inner st) = mj_OuterTupleSlot st"
  "mj_JoinState (next_inner st) = mj_JoinState st" "mj_MatchedOuter (next_inner st) = mj_MatchedOuter st"
  "mj_MatchedInner (next_inner st) = mj_MatchedInner st"
  by (simp_all add: next_inner_def split: list.split)

lemmas progress_defs = progress_simps mj_order_def inner_to_come_def fills_to_come_def Let_def neq_Nil_conv

lemma progress_initialize_outer:
  "mj_JoinState st = INITIALIZE_OUTER \<Longrightarrow> progress st (MJ_initialize_outer node st)"
  by (auto simp: MJ_initialize_outer_def progress_defs intro!: progress_intros)

lemma progress_initialize_inner:
  "mj_JoinState st = INITIALIZE_INNER \<Longrightarrow> progress st (MJ_initialize_inner node st)"
  by (auto simp: MJ_initialize_inner_def progress_defs intro!: progress_intros)

lemma progress_jointuples: "mj_JoinState st = JOINTUPLES \<Longrightarrow> progress st (MJ_jointuples node st)"
  by (auto simp: MJ_jointuples_def progress_defs intro!: progress_bindE)

lemma progress_advance_outer:
  "mj_JoinState st \<in> {NEXTOUTER, SKIPOUTER_ADVANCE} \<Longrightarrow> mj_JoinState st' = mj_JoinState st \<Longrightarrow> mj_outer st' = mj_outer st \<Longrightarrow>
   mj_inner st' = mj_inner st \<Longrightarrow> mj_InnerTupleSlot st' = mj_InnerTupleSlot st \<Longrightarrow> progress st (advance_outer node s1 s2 st')"
  by (auto simp: advance_outer_def progress_defs intro!: progress_intros)

lemma progress_nextouter: "mj_JoinState st = NEXTOUTER \<Longrightarrow> progress st (MJ_nextouter node st)"
  by (auto simp: MJ_nextouter_def fill_outer_def progress_defs intro!: progress_intros progress_advance_outer)

lemma progress_skipouter: "mj_JoinState st = SKIPOUTER_ADVANCE \<Longrightarrow> progress st (MJ_skipouter_advance node st)"
  by (auto simp: MJ_skipouter_advance_def fill_outer_def progress_defs intro!: progress_intros progress_advance_outer)

lemma progress_endouter: "mj_JoinState st = ENDOUTER \<Longrightarrow> progress st (MJ_endouter node st)"
  by (auto simp: MJ_endouter_def progress_defs intro!: progress_intros)

lemma progress_endinner: "mj_JoinState st = ENDINNER \<Longrightarrow> progress st (MJ_endinner node st)"
  by (auto simp: MJ_endinner_def progress_defs intro!: progress_intros)

lemma progress_compare:
  "(\<And>r. progress st (f r)) \<Longrightarrow> progress st (bindE (MJCompare node st') f)"
  "(\<And>r. progress st (f r)) \<Longrightarrow> progress st (bindE (MJCompare_InnerAndNextInner st') f)"
  "(\<And>s. src = Some s \<Longrightarrow> progress st (h s)) \<Longrightarrow> progress st (bindE (slot_tuple src) h)"
  by (auto simp: slot_tuple_def progress_simps split: option.split intro!: progress_bindE)

text \<open>\<open>same_rows\<close>: the rows to come are the same.\<close>

definition same_rows :: "MergeJoinState \<Rightarrow> MergeJoinState \<Rightarrow> bool" where
  "same_rows st st' \<longleftrightarrow> mj_outer st' = mj_outer st \<and> mj_JoinState st' = mj_JoinState st \<and>
     mj_inner st' = mj_inner st \<and> (mj_InnerTupleSlot st' = None \<longleftrightarrow> mj_InnerTupleSlot st = None)"

lemma shift_inner_same: "shift_inner node st = Inr st' \<Longrightarrow> same_rows st st'"
  by (auto simp: shift_inner_def bindE_Inr_iff same_rows_def split: if_splits)

lemma progress_advance_inner:
  assumes "mj_JoinState st = NEXTINNER" "same_rows st st'"
  shows "progress st (advance_inner node st')"
  unfolding advance_inner_def
  by (rule progress_bindE, drule shift_inner_same)
     (use assms in \<open>auto simp: progress_defs same_rows_def intro!: progress_eval progress_compare\<close>)

lemma progress_nextinner: "mj_JoinState st = NEXTINNER \<Longrightarrow> progress st (MJ_nextinner node st)"
  by (auto simp: MJ_nextinner_def fill_inner_def Let_def mj_order_def inner_to_come_def fills_to_come_def same_rows_def
      intro!: progress_or_return progress_advance_inner)

lemma progress_skip_inner:
  "mj_JoinState st = SKIPINNER_ADVANCE \<Longrightarrow> same_rows st st' \<Longrightarrow> progress st (skip_inner node st')"
  unfolding skip_inner_def
  by (auto simp: slot_tuple_def bindE_assoc same_rows_def progress_defs split: option.splits
      intro!: progress_eval progress_compare)

lemma progress_skipinner: "mj_JoinState st = SKIPINNER_ADVANCE \<Longrightarrow> progress st (MJ_skipinner_advance node st)"
  by (auto simp: MJ_skipinner_advance_def fill_inner_def Let_def mj_order_def inner_to_come_def fills_to_come_def same_rows_def
      intro!: progress_or_return progress_skip_inner)

lemma test_outer_state: 
  assumes "test_outer node st = Inr (r, st')"
  shows "\<exists>cs. st' = st\<lparr>mj_Clauses := cs\<rparr>"
proof (cases "mj_SimjoinType node = 2 \<and> mj_InnerCopyTupleSlot st = None")
  case True
  then have "st' = st\<lparr>mj_Clauses := mj_Clauses st\<rparr>" using assms by (simp add: test_outer_def)
  then show ?thesis ..
next
  case False
  then show ?thesis using assms
    by (auto simp: test_outer_def bindE_Inr_iff split: if_splits dest!: MJEval_state)
qed

lemma progress_copy:
  "(\<And>s. progress st (f (st'\<lparr>mj_InnerTupleSlot := Some s\<rparr>))) \<Longrightarrow> progress st (bindE (copy_to_inner node src st') f)"
  by (rule progress_bindE) (auto simp: copy_to_inner_def bindE_Inr_iff split: if_splits)

lemma progress_testouter: "mj_JoinState st = TESTOUTER \<Longrightarrow> progress st (MJ_testouter node st)"
  unfolding MJ_testouter_def
  by (rule progress_bindE)
     (auto dest!: test_outer_state simp: restore_outer_def leave_marked_def ExecRestrPos_def progress_defs
       intro!: progress_eval progress_compare progress_copy)

lemma skip_equal_inner_state:
  "skip_equal_inner st ns = Inr st' \<Longrightarrow> mj_outer st' = mj_outer st \<and> mj_JoinState st' = mj_JoinState st \<and>
     mj_mark st' = mj_mark st \<and> 2 * length (mj_inner st') + (if mj_InnerTupleSlot st' = None then 0 else 1) < Suc (2 * length ns)"
proof (induction ns arbitrary: st)
  case Nil
  then show ?case by (auto simp: bindE_Inr_iff dest!: MJEval_state)
next
  case (Cons n ns)
  from Cons.prems obtain s b1 st1 b2 st2 where
    "MJEvalInnerValues (Some s) (st\<lparr>mj_InnerCopyTupleSlot := Some s\<rparr>) = Inr (b1, st1)"
    "MJEvalNextInnerValues (Some n) (st1\<lparr>mj_InnerTupleSlot := Some n, mj_inner := ns\<rparr>) = Inr (b2, st2)"
    and r: "skip_equal_inner st2 ns = Inr st' \<or> st' = st2"
    by (auto simp: bindE_Inr_iff split: if_splits; blast)
  then have "mj_outer st2 = mj_outer st" "mj_JoinState st2 = mj_JoinState st" "mj_mark st2 = mj_mark st"
    "mj_inner st2 = ns" "mj_InnerTupleSlot st2 = Some n"
    by (auto dest!: MJEval_state)
  then show ?case using r Cons.IH [of st2] by (auto split: if_splits)
qed

lemma progress_back:
  "mj_JoinState st = SKIP_TEST \<Longrightarrow> mj_InnerTupleSlot st \<noteq> None \<Longrightarrow> mj_outer st' = mj_outer st \<Longrightarrow> mj_mark st' = mj_inner st \<Longrightarrow>
   progress st (back_to_first node st')"
  unfolding back_to_first_def
  by (auto simp: ExecRestrPos_def progress_defs intro!: progress_eval progress_compare progress_copy)

lemma progress_skip_test: "mj_JoinState st = SKIP_TEST \<Longrightarrow> progress st (MJ_skip_test node st)"
  unfolding MJ_skip_test_def skip_test_around_def Let_def
  by (auto simp: ExecMarkPos_def progress_simps intro!: progress_compare progress_bindE progress_back dest!: skip_equal_inner_state)
     (auto simp: mj_order_def inner_to_come_def slot_tuple_def split: option.splits)

theorem MJ_step_progress: "progress st (MJ_step node st)"
  by (cases "mj_JoinState st")
     (simp_all add: MJ_step_state progress_initialize_outer progress_initialize_inner progress_jointuples progress_nextouter
      progress_testouter progress_nextinner progress_skip_test progress_skipouter progress_skipinner progress_endouter progress_endinner)

section \<open>Calls\<close>

text \<open>The loop of \<open>ExecMergeJoin\<close>: it returns for every state.\<close>

function ExecMergeJoin :: "MergeJoinNode \<Rightarrow> MergeJoinState \<Rightarrow> pg_error + joined option \<times> MergeJoinState" where
  "ExecMergeJoin node st =
     (case MJ_step node st of
        Inl e \<Rightarrow> Inl e
      | Inr (Continue, st') \<Rightarrow> ExecMergeJoin node st'
      | Inr (Return r, st') \<Rightarrow> Inr (r, st'))"
  by auto
termination
  by (relation "inv_image mj_order snd") (use MJ_step_progress in \<open>auto simp: progress_def\<close>)

declare ExecMergeJoin.simps [simp del]

definition call_join :: "MergeJoinNode \<Rightarrow> MergeJoinState \<Rightarrow> (joined option \<times> MergeJoinState) option" where
  "call_join node st = (case ExecMergeJoin node st of Inl e \<Rightarrow> None | Inr x \<Rightarrow> Some x)"

text \<open>\<open>ExecReScanMergeJoin\<close>: the subplans start again, with the rows of that scan. The slots of the similarity
  joins and the datums of the clauses are not cleared.\<close>

definition ExecReScanMergeJoin :: "slot list \<Rightarrow> slot list \<Rightarrow> MergeJoinState \<Rightarrow> MergeJoinState" where
  "ExecReScanMergeJoin outer inner st =
     st\<lparr>mj_MarkedTupleSlot := None, mj_JoinState := INITIALIZE_OUTER, mj_MatchedOuter := False, mj_MatchedInner := False,
        mj_OuterTupleSlot := None, mj_InnerTupleSlot := None, mj_outer := outer, mj_inner := inner\<rparr>"

text \<open>The rows to come.\<close>

function mj_rows :: "MergeJoinNode \<Rightarrow> MergeJoinState \<Rightarrow> pg_error + joined list" where
  "mj_rows node st =
     (case MJ_step node st of
        Inl e \<Rightarrow> Inl e
      | Inr (Continue, st') \<Rightarrow> mj_rows node st'
      | Inr (Return None, st') \<Rightarrow> Inr []
      | Inr (Return (Some r), st') \<Rightarrow> bindE (mj_rows node st') (\<lambda>rs. Inr (r # rs)))"
  by auto
termination
  by (relation "inv_image mj_order snd") (use MJ_step_progress in \<open>auto simp: progress_def\<close>)

declare mj_rows.simps [simp del]

lemma mj_rows_call:
  "mj_rows node st = bindE (ExecMergeJoin node st) (\<lambda>(r, st'). case r of
     None \<Rightarrow> Inr [] | Some r \<Rightarrow> bindE (mj_rows node st') (\<lambda>rs. Inr (r # rs)))"
proof (induction node st rule: ExecMergeJoin.induct)
  case (1 node st)
  then show ?case
    by (subst mj_rows.simps, subst ExecMergeJoin.simps) (auto split: sum.split outcome.split option.split prod.split)
qed

interpretation merge_join: row_source "call_join node" "\<lambda>st. case mj_rows node st of Inl e \<Rightarrow> None | Inr rows \<Rightarrow> Some rows"
  for node :: MergeJoinNode
  by unfold_locales (simp_all add: mj_rows_call [of node] call_join_def bindE_def split: sum.splits)

text \<open>C37. From every state, reachable or not, the calls of a merge join end after finitely many rows, unless one of
  them raises an error.\<close>

theorem ExecMergeJoin_calls_end:
  "(\<exists>e. mj_rows node st = Inl e) \<or> (\<exists>rows y. mj_rows node st = Inr rows \<and> calls (call_join node) st rows y)"
  using merge_join.rest_called [of node st] by (cases "mj_rows node st") auto

lemma mj_rows_called: "mj_rows node st = Inr rows \<Longrightarrow> \<exists>y. calls (call_join node) st rows y"
  using merge_join.rest_called [of node st] by simp

text \<open>Symbolic runs.\<close>

lemma mj_rows_continue: "MJ_step node st = Inr (Continue, st') \<Longrightarrow> mj_rows node st = mj_rows node st'"
  by (simp add: mj_rows.simps)

lemma mj_rows_return: "MJ_step node st = Inr (Return (Some r), st') \<Longrightarrow> mj_rows node st = bindE (mj_rows node st') (\<lambda>rs. Inr (r # rs))"
  by (simp add: mj_rows.simps)

lemma mj_rows_null: "MJ_step node st = Inr (Return None, st') \<Longrightarrow> mj_rows node st = Inr []"
  by (simp add: mj_rows.simps)

text \<open>A relation \<open>R\<close> between states and the rows to come is right when every step keeps it.\<close>

definition keeps :: "(MergeJoinState \<Rightarrow> joined list \<Rightarrow> bool) \<Rightarrow> joined list \<Rightarrow> step_result \<Rightarrow> bool" where
  "keeps R rows res =
     (case res of
        Inl e \<Rightarrow> False
      | Inr (Continue, st) \<Rightarrow> R st rows
      | Inr (Return None, st) \<Rightarrow> rows = []
      | Inr (Return (Some r), st) \<Rightarrow> (\<exists>rs. rows = r # rs \<and> R st rs))"

lemma keeps_simps [simp]:
  "keeps R rows (go s st) \<longleftrightarrow> R (st\<lparr>mj_JoinState := s\<rparr>) rows"
  "keeps R rows (return_null st) \<longleftrightarrow> rows = []"
  "keeps R rows (Inr (Continue, st)) \<longleftrightarrow> R st rows"
  "keeps R rows (Inr (Return (Some r), st)) \<longleftrightarrow> (\<exists>rs. rows = r # rs \<and> R st rs)"
  by (simp_all add: keeps_def go_def return_null_def)

lemma mj_rows_simulation:
  assumes keep: "\<And>st rows. R st rows \<Longrightarrow> keeps R rows (MJ_step node st)" and "R st rows"
  shows "mj_rows node st = Inr rows"
  using \<open>R st rows\<close>
proof (induction st arbitrary: rows rule: wf_induct_rule [OF wf_mj_order])
  case (1 st)
  from keep [OF 1(2)] obtain out st' where step: "MJ_step node st = Inr (out, st')"
    by (cases "MJ_step node st") (auto simp: keeps_def)
  have less: "(st', st) \<in> mj_order" if "out \<noteq> Return None"
    using MJ_step_progress [of st node] step that by (simp add: progress_def)
  show ?case
  proof (cases out)
    case Continue
    then show ?thesis using keep [OF 1(2)] 1(1) less step by (simp add: mj_rows_continue)
  next
    case (Return r)
    then show ?thesis
      using keep [OF 1(2)] 1(1) less step by (cases r) (auto simp: mj_rows_null mj_rows_return keeps_def)
  qed
qed

end
