(* ===== verification/NearJoin.thy ===== *)
theory NearJoin
  imports MergeJoin
begin

text \<open>
  Equality and epsilon joins compute what a nested loop computes.
\<close>

section \<open>Operators of \<open>int4\<close>\<close>

fun int4_call :: "(int \<Rightarrow> int \<Rightarrow> pg_error + int) \<Rightarrow> int option list \<Rightarrow> pg_error + int option" where
  "int4_call f [Some a, Some b] = bindE (f a b) (\<lambda>d. Inr (Some d))"
| "int4_call f _ = Inl Undefined_read"

definition int4_fmgr :: "(int \<Rightarrow> int \<Rightarrow> pg_error + int) \<Rightarrow> int FmgrInfo" where
  "int4_fmgr f = \<lparr>fn_strict = True, fn_call = int4_call f\<rparr>"

definition int4eq :: "int \<Rightarrow> int \<Rightarrow> bool" where
  "int4eq arg1 arg2 \<longleftrightarrow> arg1 = arg2"

definition btint4cmp :: "int \<Rightarrow> int \<Rightarrow> int" where
  "btint4cmp a b = (if a > b then 1 else if a = b then 0 else -1)"

definition bool_datum :: "bool \<Rightarrow> pg_error + int" where
  "bool_datum b = Inr (if b then 1 else 0)"

text \<open>A clause on two \<open>int4\<close> expressions. Only a similarity join looks up the subtraction; without it the function
  pointer is zero.\<close>

definition null_finfo :: "int FmgrInfo" where
  "null_finfo = \<lparr>fn_strict = False, fn_call = \<lambda>_. Inl Undefined_read\<rparr>"

definition int4_clause :: "MergeFunctionKind \<Rightarrow> (slot \<Rightarrow> int option) \<Rightarrow> (slot \<Rightarrow> int option) \<Rightarrow>
    int option \<Rightarrow> int option \<Rightarrow> int option \<Rightarrow> MergeJoinClause" where
  "int4_clause kind lk rk l r n =
     \<lparr>lexpr = \<lambda>s. Inr (lk s), rexpr = \<lambda>s. Inr (rk s), ldatum = l, rdatum = r, mergestrict = True, cmpstrategy = kind,
      eqfinfo = int4_fmgr (\<lambda>a b. bool_datum (int4eq a b)),
      cmpfinfo = int4_fmgr (\<lambda>a b. if kind = MERGEFUNC_CMP then Inr (btint4cmp a b) else bool_datum (int4lt a b)),
      minusfinfo = (if kind = MERGEFUNC_CMP then null_finfo
        else int4_fmgr (\<lambda>a b. case int4mi a b of None \<Rightarrow> Inl Numeric_value_out_of_range | Some d \<Rightarrow> Inr d)),
      rnextdatum = n\<rparr>"

section \<open>The nested loop\<close>

definition holds :: "join_qual \<Rightarrow> slot option \<Rightarrow> slot option \<Rightarrow> bool" where
  "holds q outer inner \<longleftrightarrow> ExecQual q outer inner = Inr True"

definition total_qual :: "join_qual \<Rightarrow> bool" where
  "total_qual q \<longleftrightarrow> (\<forall>outer inner. \<exists>b. ExecQual q outer inner = Inr b)"

text \<open>The rows of one outer tuple, from the inner tuples it matches: \<open>IN\<close> stops after the first one, an outer
  join fills a tuple without any.\<close>

fun join_group :: "MergeJoinNode \<Rightarrow> slot \<Rightarrow> bool \<Rightarrow> slot list \<Rightarrow> joined list" where
  "join_group node s matched [] =
     (if mj_FillOuter node \<and> \<not> matched \<and> holds (otherqual node) (Some s) None then [(Some s, None)] else [])"
| "join_group node s matched (i # is) =
     (if \<not> (jointype node = JOIN_IN \<and> matched) \<and> holds (joinqual node) (Some s) (Some i)
      then (if holds (otherqual node) (Some s) (Some i) then [(Some s, Some i)] else []) @ join_group node s True is
      else join_group node s matched is)"

definition nested_loop :: "MergeJoinNode \<Rightarrow> (slot \<Rightarrow> slot \<Rightarrow> bool) \<Rightarrow> slot list \<Rightarrow> slot list \<Rightarrow> joined list" where
  "nested_loop node match outer inner = concat (map (\<lambda>s. join_group node s False (filter (match s) inner)) outer)"

definition near :: "int \<Rightarrow> int option \<Rightarrow> int option \<Rightarrow> bool" where
  "near w l r = (case l of None \<Rightarrow> False | Some a \<Rightarrow> (case r of None \<Rightarrow> False | Some b \<Rightarrow> \<bar>a - b\<bar> \<le> w))"

lemma near_iff: "near w l r \<longleftrightarrow> (\<exists>a b. l = Some a \<and> r = Some b \<and> \<bar>a - b\<bar> \<le> w)"
  by (auto simp: near_def split: option.split)

lemma near_zero: "near 0 l r \<longleftrightarrow> l \<noteq> None \<and> l = r"
  by (auto simp: near_iff)

text \<open>NULLs sort after all values.\<close>

fun key_le :: "int option \<Rightarrow> int option \<Rightarrow> bool" where
  "key_le (Some a) (Some b) = (a \<le> b)"
| "key_le None (Some b) = False"
| "key_le x None = True"

lemma near_simps [simp]: "near w None r = False" "near w l None = False" "near w (Some a) (Some b) \<longleftrightarrow> \<bar>a - b\<bar> \<le> w"
  by (auto simp: near_def split: option.split)

lemma nested_loop_simps [simp]:
  "nested_loop node match [] inner = []"
  "nested_loop node match (s # ss) inner = join_group node s False (filter (match s) inner) @ nested_loop node match ss inner"
  by (simp_all add: nested_loop_def)

lemma nested_loop_cong:
  "(\<And>s. s \<in> set outer \<Longrightarrow> filter (match s) inner = filter (match s) inner') \<Longrightarrow> nested_loop node match outer inner = nested_loop node match outer inner'"
  by (simp add: nested_loop_def cong: map_cong)

lemma nested_loop_empty: "\<not> mj_FillOuter node \<Longrightarrow> nested_loop node match os [] = []"
  by (induction os) simp_all

lemma map_concat_filter: "map f (filter p xs) = concat (map (\<lambda>x. if p x then [f x] else []) xs)"
  by (induction xs) simp_all

text \<open>Without qualifications an inner join has all pairs that match.\<close>

lemma join_group_pairs:
  "jointype node = JOIN_INNER \<Longrightarrow> \<not> mj_FillOuter node \<Longrightarrow> joinqual node = None \<Longrightarrow> otherqual node = None \<Longrightarrow>
   join_group node s matched ts = map (\<lambda>t. (Some s, Some t)) ts"
  by (induction ts arbitrary: matched) (simp_all add: holds_def ExecQual_def)

lemma nested_loop_pairs:
  "jointype node = JOIN_INNER \<Longrightarrow> \<not> mj_FillOuter node \<Longrightarrow> joinqual node = None \<Longrightarrow> otherqual node = None \<Longrightarrow>
   nested_loop node match outer inner = [(Some s, Some t). s \<leftarrow> outer, t \<leftarrow> inner, match s t]"
  by (induction outer) (simp_all add: join_group_pairs map_concat_filter)

lemma holds_total: "total_qual q \<Longrightarrow> ExecQual q x y = Inr (holds q x y)"
  unfolding total_qual_def holds_def by (metis (full_types) sum.inject(2))

text \<open>The parts of the machine that return rows, for any relation \<open>R\<close> that the steps keep.\<close>

lemma keeps_fill_outer:
  assumes "total_qual (otherqual node)" "mj_OuterTupleSlot st = Some s" "R (st\<lparr>mj_MatchedOuter := True\<rparr>) rows"
    "keeps R rows (k st)" "keeps R rows (k (st\<lparr>mj_MatchedOuter := True\<rparr>))"
  shows "keeps R (join_group node s (mj_MatchedOuter st) [] @ rows) (fill_outer node k st)"
  using assms by (simp add: fill_outer_def or_return_def MJFillOuter_def holds_total Let_def)

lemma keeps_jointuples:
  assumes "total_qual (joinqual node)" "total_qual (otherqual node)" "mj_OuterTupleSlot st = Some s"
    "(if mj_SimjoinType node = 2 then mj_InnerCopyTupleSlot st else mj_InnerTupleSlot st) = Some t"
    and R: "\<And>mo mi. R (st\<lparr>mj_JoinState := NEXTINNER, mj_MatchedOuter := mo, mj_MatchedInner := mi\<rparr>) (join_group node s mo ts @ rows)"
  shows "keeps R (join_group node s (mj_MatchedOuter st) (t # ts) @ rows) (MJ_jointuples node st)"
proof -
  have same: "st\<lparr>mj_JoinState := NEXTINNER\<rparr> =
      st\<lparr>mj_JoinState := NEXTINNER, mj_MatchedOuter := mj_MatchedOuter st, mj_MatchedInner := mj_MatchedInner st\<rparr>"
    by (cases st) simp
  have "R (st\<lparr>mj_JoinState := NEXTINNER\<rparr>) (join_group node s (mj_MatchedOuter st) ts @ rows)"
    by (subst same) (rule R)
  then show ?thesis using assms(1-4) R [of True True] by (auto simp: MJ_jointuples_def holds_total Let_def)
qed

lemma keeps_endinner:
  assumes "total_qual (otherqual node)" "mj_FillOuter node" "mj_OuterTupleSlot st = Some s" "R (st\<lparr>mj_MatchedOuter := True\<rparr>) rows"
    and advance: "\<And>b. keeps R rows (let st = (next_outer (st\<lparr>mj_MatchedOuter := b\<rparr>))\<lparr>mj_MatchedOuter := False\<rparr> in
      if mj_OuterTupleSlot st = None then return_null st else go ENDINNER st)"
  shows "keeps R (join_group node s (mj_MatchedOuter st) [] @ rows) (MJ_endinner node st)"
proof -
  have same: "st\<lparr>mj_MatchedOuter := mj_MatchedOuter st\<rparr> = st" by (cases st) simp
  show ?thesis
    using advance [of "mj_MatchedOuter st"] advance [of True] assms(1-4)
    by (auto simp: MJ_endinner_def or_return_def MJFillOuter_def holds_total same Let_def)
qed

text \<open>What the join needs of its input: both sides sorted, and operators that work on the values.\<close>

definition sorted_by :: "(slot \<Rightarrow> int option) \<Rightarrow> slot list \<Rightarrow> bool" where
  "sorted_by k = sorted_wrt (\<lambda>s t. key_le (k s) (k t))"

definition computable :: "(int \<Rightarrow> int \<Rightarrow> bool) \<Rightarrow> (slot \<Rightarrow> int option) \<Rightarrow> (slot \<Rightarrow> int option) \<Rightarrow> slot list \<Rightarrow> slot list \<Rightarrow> bool" where
  "computable fit lk rk outer inner \<longleftrightarrow> (\<forall>s\<in>set outer. \<forall>t\<in>set inner. \<forall>a b. lk s = Some a \<longrightarrow> rk t = Some b \<longrightarrow> fit a b)"

lemma computable_mono:
  "computable fit lk rk outer inner \<Longrightarrow> set outer' \<subseteq> set outer \<Longrightarrow> set inner' \<subseteq> set inner \<Longrightarrow> computable fit lk rk outer' inner'"
  unfolding computable_def by blast

lemma sorted_by_simps [simp]:
  "sorted_by k []" "sorted_by k (s # ss) \<longleftrightarrow> (\<forall>t\<in>set ss. key_le (k s) (k t)) \<and> sorted_by k ss"
  "sorted_by k (xs @ ys) \<longleftrightarrow> sorted_by k xs \<and> sorted_by k ys \<and> (\<forall>x\<in>set xs. \<forall>y\<in>set ys. key_le (k x) (k y))"
  by (simp_all add: sorted_by_def sorted_wrt_append)

section \<open>The contract of a merge clause\<close>

text \<open>A clause evaluates its expressions on a tuple of each side; \<open>lk\<close> and \<open>rk\<close> are their values.\<close>

locale merge_clause =
  fixes clause :: "int option \<Rightarrow> int option \<Rightarrow> int option \<Rightarrow> MergeJoinClause" and lk rk :: "slot \<Rightarrow> int option"
  assumes expr: "lexpr (clause l r n) s = Inr (lk s)" "rexpr (clause l r n) s = Inr (rk s)"
    and datum: "ldatum (clause l r n) = l" "rdatum (clause l r n) = r" "rnextdatum (clause l r n) = n"
    and update: "(clause l r n)\<lparr>ldatum := x\<rparr> = clause x r n" "(clause l r n)\<lparr>rdatum := x\<rparr> = clause l x n"
      "(clause l r n)\<lparr>rnextdatum := x\<rparr> = clause l r x"
    and strict: "mergestrict (clause l r n)"
begin

lemma eval_outer:
  "mj_Clauses st = [clause l r n] \<Longrightarrow> mj_OuterTupleSlot st = Some s \<Longrightarrow>
   MJEvalOuterValues st = Inr (lk s \<noteq> None, st\<lparr>mj_Clauses := [clause (lk s) r n]\<rparr>)"
  by (simp add: MJEvalOuterValues_def expr datum update strict)

lemma eval_inner:
  "mj_Clauses st = [clause l r n] \<Longrightarrow> MJEvalInnerValues (Some s) st = Inr (rk s \<noteq> None, st\<lparr>mj_Clauses := [clause l (rk s) n]\<rparr>)"
  by (simp add: MJEvalInnerValues_def expr datum update strict)

lemma eval_next_inner:
  "mj_Clauses st = [clause l r n] \<Longrightarrow>
   MJEvalNextInnerValues (Some s) st = Inr (rk s \<noteq> None, st\<lparr>mj_Clauses := [clause l r (rk s)]\<rparr>)"
  by (simp add: MJEvalNextInnerValues_def expr datum update strict)

end

text \<open>A clause of an equality (type 0) or epsilon join (type 1) finds out whether two values are within \<open>w\<close>.\<close>

locale near_clause = merge_clause +
  fixes simtype eps w :: int and fit :: "int \<Rightarrow> int \<Rightarrow> bool"
  assumes simtype: "simtype = 0 \<and> w = 0 \<or> simtype = 1"
    and compare: "mj_SimjoinType node = simtype \<Longrightarrow> epsilon node = eps \<Longrightarrow> fit a b \<Longrightarrow>
      compare_values node (clause l r n) a b = Inr (if \<bar>a - b\<bar> \<le> w then Similar else Differs (if a < b then -1 else 1))"
begin

lemma compare_state:
  assumes "mj_SimjoinType node = simtype" "epsilon node = eps" "mj_Clauses st = [clause (Some a) (Some b) n]" "fit a b"
  shows "MJCompare node st = Inr (if \<bar>a - b\<bar> \<le> w then 0 else if a < b then -1 else 1)"
  using assms by (simp add: MJCompare_def compare datum)

text \<open>The values a pair of tuples gives.\<close>

definition fine :: "slot list \<Rightarrow> slot list \<Rightarrow> bool" where
  "fine os is \<longleftrightarrow> sorted_by lk os \<and> sorted_by rk is \<and> computable fit lk rk os is"

abbreviation loop :: "MergeJoinNode \<Rightarrow> slot list \<Rightarrow> slot list \<Rightarrow> joined list" where
  "loop node os is \<equiv> nested_loop node (\<lambda>s t. near w (lk s) (rk t)) os is"

abbreviation matches :: "slot \<Rightarrow> slot list \<Rightarrow> slot list" where
  "matches s is \<equiv> filter (\<lambda>t. near w (lk s) (rk t)) is"

text \<open>The states of the machine with the rows to come. After a group (\<open>past\<close>) the inner tuples of the group,
  \<open>pre\<close> and the last one, are near to a value that no outer tuple to come is less than.\<close>

definition past :: "slot list \<Rightarrow> slot list \<Rightarrow> bool" where
  "past os grp \<longleftrightarrow> (\<exists>a. (\<forall>s\<in>set os. key_le (Some a) (lk s)) \<and> (\<forall>t\<in>set grp. near w (Some a) (rk t)))"

definition slot_list :: "slot option \<Rightarrow> slot list" where
  "slot_list s = (case s of None \<Rightarrow> [] | Some x \<Rightarrow> [x])"

inductive near_state :: "MergeJoinNode \<Rightarrow> MergeJoinState \<Rightarrow> joined list \<Rightarrow> bool" for node where
  init_outer: "mj_JoinState st = INITIALIZE_OUTER \<Longrightarrow> mj_Clauses st = [clause l r n] \<Longrightarrow> \<not> mj_MatchedOuter st \<Longrightarrow>
    fine (mj_outer st) (mj_inner st) \<Longrightarrow> near_state node st (loop node (mj_outer st) (mj_inner st))"
| init_inner: "mj_JoinState st = INITIALIZE_INNER \<Longrightarrow> mj_OuterTupleSlot st = Some s \<Longrightarrow> lk s = Some a \<Longrightarrow>
    mj_Clauses st = [clause (Some a) r n] \<Longrightarrow> \<not> mj_MatchedOuter st \<Longrightarrow> fine (s # mj_outer st) (mj_inner st) \<Longrightarrow>
    near_state node st (loop node (s # mj_outer st) (mj_inner st))"
| skip_test: "mj_JoinState st = SKIP_TEST \<Longrightarrow> mj_OuterTupleSlot st = Some s \<Longrightarrow> lk s = Some a \<Longrightarrow>
    mj_InnerTupleSlot st = Some t \<Longrightarrow> rk t = Some b \<Longrightarrow> mj_Clauses st = [clause (Some a) (Some b) n] \<Longrightarrow>
    \<not> mj_MatchedOuter st \<Longrightarrow> fine (s # mj_outer st) (t # mj_inner st) \<Longrightarrow>
    near_state node st (loop node (s # mj_outer st) (t # mj_inner st))"
| skip_outer: "mj_JoinState st = SKIPOUTER_ADVANCE \<Longrightarrow> mj_OuterTupleSlot st = Some s \<Longrightarrow>
    mj_InnerTupleSlot st = Some t \<Longrightarrow> rk t = Some b \<Longrightarrow> mj_Clauses st = [clause l (Some b) n] \<Longrightarrow>
    fine (mj_outer st) (t # mj_inner st) \<Longrightarrow>
    near_state node st (join_group node s (mj_MatchedOuter st) [] @ loop node (mj_outer st) (t # mj_inner st))"
| skip_inner: "mj_JoinState st = SKIPINNER_ADVANCE \<Longrightarrow> mj_OuterTupleSlot st = Some s \<Longrightarrow> lk s = Some a \<Longrightarrow>
    mj_Clauses st = [clause (Some a) r n] \<Longrightarrow> \<not> mj_MatchedOuter st \<Longrightarrow> fine (s # mj_outer st) (mj_inner st) \<Longrightarrow>
    near_state node st (loop node (s # mj_outer st) (mj_inner st))"
| join_tuples: "mj_JoinState st = JOINTUPLES \<Longrightarrow> mj_OuterTupleSlot st = Some s \<Longrightarrow> lk s = Some a \<Longrightarrow>
    mj_InnerTupleSlot st = Some t \<Longrightarrow> mj_MarkedTupleSlot st = Some m \<Longrightarrow> m # mj_mark st = pre @ t # mj_inner st \<Longrightarrow>
    \<forall>x\<in>set (pre @ [t]). near w (Some a) (rk x) \<Longrightarrow> mj_Clauses st = [clause (Some a) r n] \<Longrightarrow>
    fine (s # mj_outer st) (m # mj_mark st) \<Longrightarrow>
    near_state node st (join_group node s (mj_MatchedOuter st) (t # matches s (mj_inner st)) @ loop node (mj_outer st) (m # mj_mark st))"
| next_inner: "mj_JoinState st = NEXTINNER \<Longrightarrow> mj_OuterTupleSlot st = Some s \<Longrightarrow> lk s = Some a \<Longrightarrow>
    mj_InnerTupleSlot st = Some t \<Longrightarrow> mj_MarkedTupleSlot st = Some m \<Longrightarrow> m # mj_mark st = pre @ t # mj_inner st \<Longrightarrow>
    \<forall>x\<in>set (pre @ [t]). near w (Some a) (rk x) \<Longrightarrow> mj_Clauses st = [clause (Some a) r n] \<Longrightarrow>
    fine (s # mj_outer st) (m # mj_mark st) \<Longrightarrow>
    near_state node st (join_group node s (mj_MatchedOuter st) (matches s (mj_inner st)) @ loop node (mj_outer st) (m # mj_mark st))"
| next_outer: "mj_JoinState st = NEXTOUTER \<Longrightarrow> mj_OuterTupleSlot st = Some s \<Longrightarrow> mj_MarkedTupleSlot st = Some m \<Longrightarrow>
    m # mj_mark st = pre @ [p] @ slot_list (mj_InnerTupleSlot st) @ mj_inner st \<Longrightarrow> past (mj_outer st) (pre @ [p]) \<Longrightarrow>
    simtype = 1 \<longrightarrow> mj_PreviousInnerTupleSlot st = Some p \<Longrightarrow> mj_InnerTupleSlot st = None \<longrightarrow> mj_inner st = [] \<Longrightarrow>
    mj_Clauses st = [clause l r n] \<Longrightarrow> fine (mj_outer st) (m # mj_mark st) \<Longrightarrow>
    near_state node st (join_group node s (mj_MatchedOuter st) [] @ loop node (mj_outer st) (m # mj_mark st))"
| test_outer: "mj_JoinState st = TESTOUTER \<Longrightarrow> mj_OuterTupleSlot st = Some s \<Longrightarrow> lk s = Some a \<Longrightarrow> mj_MarkedTupleSlot st = Some m \<Longrightarrow>
    m # mj_mark st = pre @ [p] @ slot_list (mj_InnerTupleSlot st) @ mj_inner st \<Longrightarrow> past (s # mj_outer st) (pre @ [p]) \<Longrightarrow>
    simtype = 1 \<longrightarrow> mj_PreviousInnerTupleSlot st = Some p \<Longrightarrow> mj_InnerTupleSlot st = None \<longrightarrow> mj_inner st = [] \<Longrightarrow>
    mj_Clauses st = [clause (Some a) r n] \<Longrightarrow> \<not> mj_MatchedOuter st \<Longrightarrow> fine (s # mj_outer st) (m # mj_mark st) \<Longrightarrow>
    near_state node st (loop node (s # mj_outer st) (m # mj_mark st))"
| end_inner: "mj_JoinState st = ENDINNER \<Longrightarrow> mj_FillOuter node \<Longrightarrow> mj_OuterTupleSlot st = Some s \<Longrightarrow>
    near_state node st (join_group node s (mj_MatchedOuter st) [] @ loop node (mj_outer st) [])"

text \<open>Windows of sorted lists.\<close>

lemma fine_mono [dest]:
  "fine (s # os) is \<Longrightarrow> fine os is" "fine os (t # is) \<Longrightarrow> fine os is" "fine os (xs @ ys) \<Longrightarrow> fine os ys"
  by (auto simp: fine_def elim!: computable_mono)

lemma no_match_above:
  assumes "fine (s # os) (t # is)" "lk s = Some a" "rk t = Some b" "\<not> \<bar>a - b\<bar> \<le> w" "a < b"
  shows "matches s (t # is) = []"
proof -
  have "\<not> near w (Some a) (rk x)" if "x \<in> set is" for x
    using assms that by (cases "rk x") (auto simp: fine_def)
  then show ?thesis using assms by (auto simp: filter_empty_conv)
qed

lemma no_match_below:
  assumes "fine (s # os) (t # is)" "lk s = Some a" "rk t = Some b" "\<not> \<bar>a - b\<bar> \<le> w" "\<not> a < b"
  shows "loop node (s # os) (t # is) = loop node (s # os) is"
proof (rule nested_loop_cong)
  fix s' assume "s' \<in> set (s # os)"
  then have "\<not> near w (lk s') (rk t)" using assms by (cases "lk s'") (auto simp: fine_def)
  then show "matches s' (t # is) = matches s' is" by simp
qed

lemma no_match_null:
  assumes "rk t = None"
  shows "loop node os (t # is) = loop node os is"
  by (rule nested_loop_cong) (simp add: assms)

lemma no_match_after:
  assumes "fine (s # os) (pre @ t # u # is)" "lk s = Some a" "near w (Some a) (rk t)" "\<not> near w (Some a) (rk u)"
  shows "matches s (u # is) = []"
proof -
  obtain b where b: "rk t = Some b" "\<bar>a - b\<bar> \<le> w" using assms(3) by (cases "rk t") auto
  have "\<not> near w (Some a) (rk x)" if "x \<in> set is" for x
    using assms(1,4) b that by (cases "rk x"; cases "rk u") (auto simp: fine_def)
  then show ?thesis using assms by (auto simp: filter_empty_conv)
qed

lemma past_group:
  assumes "fine (s # os) grp" "lk s = Some a" "\<forall>t\<in>set grp. near w (Some a) (rk t)"
  shows "past os grp"
  using assms unfolding past_def fine_def by (intro exI [of _ a]) auto

lemma group_left:
  assumes "past (s # os) grp" "lk s = Some a" "fine (s # os) (grp @ rem)" "p \<in> set grp" "\<not> near w (Some a) (rk p)"
    "w = 0 \<or> p = last grp"
  shows "loop node (s # os) (grp @ rem) = loop node (s # os) rem"
proof (rule nested_loop_cong)
  fix s' assume s': "s' \<in> set (s # os)"
  obtain c where c: "\<forall>x\<in>set (s # os). key_le (Some c) (lk x)" "\<forall>t\<in>set grp. near w (Some c) (rk t)"
    using assms(1) by (auto simp: past_def)
  have "\<not> near w (lk s') (rk x)" if "x \<in> set grp" for x
  proof -
    have "near w (Some c) (rk x)" "near w (Some c) (rk p)" using c(2) that assms(4) by auto
    then obtain b bp where b: "rk x = Some b" "\<bar>c - b\<bar> \<le> w" "rk p = Some bp" "\<bar>c - bp\<bar> \<le> w"
      by (auto simp: near_iff)
    have "b \<le> bp"
    proof (cases "w = 0")
      case False
      then obtain g where g: "grp = g @ [p]" using assms(4,6) by (metis append_butlast_last_id empty_iff list.set(1))
      have "sorted_by rk (g @ [p])" using assms(3) by (simp add: fine_def g)
      then show ?thesis using b that by (auto simp: g)
    qed (use b in auto)
    then show ?thesis using assms(2,3,5) s' b c(1) by (cases "lk s'") (auto simp: fine_def)
  qed
  then show "matches s' (grp @ rem) = matches s' rem" by (auto simp: filter_empty_conv)
qed

text \<open>Every step keeps the relation.\<close>

definition near_node :: "MergeJoinNode \<Rightarrow> bool" where
  "near_node node \<longleftrightarrow> mj_SimjoinType node = simtype \<and> epsilon node = eps \<and> \<not> mj_FillInner node \<and>
     total_qual (joinqual node) \<and> total_qual (otherqual node)"

lemma near_node_simps:
  assumes "near_node node"
  shows "mj_SimjoinType node = simtype" "epsilon node = eps" "\<not> mj_FillInner node"
    "ExecQual (joinqual node) x y = Inr (holds (joinqual node) x y)"
    "ExecQual (otherqual node) x y = Inr (holds (otherqual node) x y)" "simtype \<noteq> 2"
  using assms simtype by (auto simp: near_node_def holds_total)

lemma near_node_quals: "near_node node \<Longrightarrow> total_qual (joinqual node)" "near_node node \<Longrightarrow> total_qual (otherqual node)"
  by (simp_all add: near_node_def)

lemma fill_inner_none: "near_node node \<Longrightarrow> fill_inner node k st = k st"
  by (simp add: fill_inner_def near_node_simps)

lemma keeps_init_outer:
  assumes "near_node node" "mj_JoinState st = INITIALIZE_OUTER" "mj_Clauses st = [clause l r n]" "\<not> mj_MatchedOuter st"
    "fine (mj_outer st) (mj_inner st)"
  shows "keeps (near_state node) (loop node (mj_outer st) (mj_inner st)) (MJ_initialize_outer node st)"
proof (cases "mj_outer st")
  case Nil
  then show ?thesis using assms by (simp add: MJ_initialize_outer_def next_outer_def near_node_simps Let_def)
next
  case (Cons s ss)
  let ?st = "st\<lparr>mj_OuterTupleSlot := Some s, mj_outer := ss, mj_Clauses := [clause (lk s) r n]\<rparr>"
  have fine: "fine ss (mj_inner st)" using assms(5) Cons by auto
  show ?thesis
  proof (cases "lk s")
    case None
    have "near_state node ?st (loop node ss (mj_inner st))"
      using near_state.init_outer [of ?st "lk s" r n node] assms fine by simp
    moreover have "near_state node (?st\<lparr>mj_JoinState := INITIALIZE_OUTER\<rparr>) (loop node ss (mj_inner st))"
      using near_state.init_outer [of "?st\<lparr>mj_JoinState := INITIALIZE_OUTER\<rparr>" "lk s" r n node] assms fine by simp
    ultimately show ?thesis using assms None
      by (simp add: MJ_initialize_outer_def next_outer_def eval_outer or_return_def MJFillOuter_def near_node_simps Let_def Cons)
  next
    case (Some a)
    have "near_state node (?st\<lparr>mj_JoinState := INITIALIZE_INNER\<rparr>) (loop node (s # ss) (mj_inner st))"
      using near_state.init_inner [of "?st\<lparr>mj_JoinState := INITIALIZE_INNER\<rparr>" s a r n node] assms Cons Some by simp
    then show ?thesis using assms Some by (simp add: MJ_initialize_outer_def next_outer_def eval_outer Let_def Cons)
  qed
qed

lemma keeps_init_inner:
  assumes "near_node node" "mj_JoinState st = INITIALIZE_INNER" "mj_OuterTupleSlot st = Some s" "lk s = Some a"
    "mj_Clauses st = [clause (Some a) r n]" "\<not> mj_MatchedOuter st" "fine (s # mj_outer st) (mj_inner st)"
  shows "keeps (near_state node) (loop node (s # mj_outer st) (mj_inner st)) (MJ_initialize_inner node st)"
proof (cases "mj_inner st")
  case Nil
  have "near_state node (st\<lparr>mj_InnerTupleSlot := None, mj_MatchedOuter := False, mj_JoinState := ENDINNER\<rparr>)
      (loop node (s # mj_outer st) [])" if "mj_FillOuter node"
    using that near_state.end_inner [of "st\<lparr>mj_InnerTupleSlot := None, mj_MatchedOuter := False, mj_JoinState := ENDINNER\<rparr>" node s] assms
    by simp
  then show ?thesis using assms Nil
    by (simp add: MJ_initialize_inner_def next_inner_def nested_loop_empty Let_def del: nested_loop_simps)
next
  case (Cons t ts)
  let ?st = "st\<lparr>mj_InnerTupleSlot := Some t, mj_inner := ts, mj_Clauses := [clause (Some a) (rk t) n]\<rparr>"
  show ?thesis
  proof (cases "rk t")
    case None
    have "fine (s # mj_outer st) ts" using assms(7) Cons by auto
    then have "near_state node (?st\<lparr>mj_JoinState := INITIALIZE_INNER\<rparr>) (loop node (s # mj_outer st) ts)"
      using near_state.init_inner [of "?st\<lparr>mj_JoinState := INITIALIZE_INNER\<rparr>" s a "rk t" n node] assms by simp
    then show ?thesis using assms(1-6) Cons None
      by (simp add: MJ_initialize_inner_def next_inner_def eval_inner near_node_simps Let_def no_match_null del: nested_loop_simps)
  next
    case (Some b)
    have "near_state node (?st\<lparr>mj_JoinState := SKIP_TEST\<rparr>) (loop node (s # mj_outer st) (t # ts))"
      using near_state.skip_test [of "?st\<lparr>mj_JoinState := SKIP_TEST\<rparr>" s a t b n node] assms Cons Some by simp
    then show ?thesis using assms(1-6) Cons Some
      by (simp add: MJ_initialize_inner_def next_inner_def eval_inner near_node_simps Let_def del: nested_loop_simps)
  qed
qed

lemma keeps_skip_test:
  assumes "near_node node" "mj_JoinState st = SKIP_TEST" "mj_OuterTupleSlot st = Some s" "lk s = Some a"
    "mj_InnerTupleSlot st = Some t" "rk t = Some b" "mj_Clauses st = [clause (Some a) (Some b) n]" "\<not> mj_MatchedOuter st"
    and fine: "fine (s # mj_outer st) (t # mj_inner st)"
  shows "keeps (near_state node) (loop node (s # mj_outer st) (t # mj_inner st)) (MJ_skip_test node st)"
proof -
  have "fit a b" using fine assms(4,6) by (auto simp: fine_def computable_def)
  then have cmp: "MJCompare node st = Inr (if \<bar>a - b\<bar> \<le> w then 0 else if a < b then -1 else 1)"
    using assms by (simp add: compare_state near_node_simps)
  consider "\<bar>a - b\<bar> \<le> w" | "\<not> \<bar>a - b\<bar> \<le> w" "a < b" | "\<not> \<bar>a - b\<bar> \<le> w" "\<not> a < b" by blast
  then show ?thesis
  proof cases
    case 1
    let ?st = "st\<lparr>mj_mark := mj_inner st, mj_MarkedTupleSlot := Some t, mj_JoinState := JOINTUPLES\<rparr>"
    have "near_state node ?st (loop node (s # mj_outer st) (t # mj_inner st))"
      using near_state.join_tuples [of ?st s a t t "[]" "Some b" n node] assms 1 by simp
    then show ?thesis using assms cmp 1
      by (simp add: MJ_skip_test_def near_node_simps slot_tuple_def ExecMarkPos_def)
  next
    case 2
    let ?st = "st\<lparr>mj_JoinState := SKIPOUTER_ADVANCE\<rparr>"
    have "fine (mj_outer st) (t # mj_inner st)" using fine by auto
    moreover have "matches s (t # mj_inner st) = []" using no_match_above [OF fine] assms 2 by simp
    ultimately have "near_state node ?st (loop node (s # mj_outer st) (t # mj_inner st))"
      using near_state.skip_outer [of ?st s t b "Some a" n node] assms by simp
    then show ?thesis using assms cmp 2 by (simp add: MJ_skip_test_def near_node_simps)
  next
    case 3
    let ?st = "st\<lparr>mj_JoinState := SKIPINNER_ADVANCE\<rparr>"
    have "fine (s # mj_outer st) (mj_inner st)" using fine by auto
    then have "near_state node ?st (loop node (s # mj_outer st) (mj_inner st))"
      using near_state.skip_inner [of ?st s a "Some b" n node] assms by simp
    then show ?thesis using assms cmp 3 no_match_below [OF fine, of a b] 
      by (simp add: MJ_skip_test_def near_node_simps del: nested_loop_simps)
  qed
qed

lemma keeps_skip_outer:
  assumes "near_node node" "mj_JoinState st = SKIPOUTER_ADVANCE" "mj_OuterTupleSlot st = Some s" "mj_InnerTupleSlot st = Some t"
    "rk t = Some b" "mj_Clauses st = [clause l (Some b) n]" and fine: "fine (mj_outer st) (t # mj_inner st)"
  shows "keeps (near_state node) (join_group node s (mj_MatchedOuter st) [] @ loop node (mj_outer st) (t # mj_inner st))
    (MJ_skipouter_advance node st)"
  unfolding MJ_skipouter_advance_def
proof (rule keeps_fill_outer [OF near_node_quals(2) [OF assms(1)] assms(3)])
  show "near_state node (st\<lparr>mj_MatchedOuter := True\<rparr>) (loop node (mj_outer st) (t # mj_inner st))"
    using near_state.skip_outer [of "st\<lparr>mj_MatchedOuter := True\<rparr>" s t b l n node] assms by simp
  have "keeps (near_state node) (loop node (mj_outer st) (t # mj_inner st))
      (advance_outer node SKIP_TEST SKIPOUTER_ADVANCE (st\<lparr>mj_MatchedOuter := m\<rparr>))" for m
  proof (cases "mj_outer st")
    case Nil
    then show ?thesis using assms(1) by (simp add: advance_outer_def next_outer_def near_node_simps Let_def)
  next
    case (Cons u us)
    let ?st = "st\<lparr>mj_OuterTupleSlot := Some u, mj_outer := us, mj_MatchedOuter := False, mj_Clauses := [clause (lk u) (Some b) n]\<rparr>"
    show ?thesis
    proof (cases "lk u")
      case None
      have "fine us (t # mj_inner st)" using fine Cons by auto
      then have "near_state node (?st\<lparr>mj_JoinState := SKIPOUTER_ADVANCE\<rparr>) (loop node (u # us) (t # mj_inner st))"
        using near_state.skip_outer [of "?st\<lparr>mj_JoinState := SKIPOUTER_ADVANCE\<rparr>" u t b "lk u" n node] assms None by simp
      then show ?thesis using assms Cons None
        by (simp add: advance_outer_def next_outer_def eval_outer Let_def del: nested_loop_simps)
    next
      case (Some a)
      have "near_state node (?st\<lparr>mj_JoinState := SKIP_TEST\<rparr>) (loop node (u # us) (t # mj_inner st))"
        using near_state.skip_test [of "?st\<lparr>mj_JoinState := SKIP_TEST\<rparr>" u a t b n node] assms Cons Some by simp
      then show ?thesis using assms Cons Some
        by (simp add: advance_outer_def next_outer_def eval_outer Let_def del: nested_loop_simps)
    qed
  qed
  from this [of "mj_MatchedOuter st"] this [of True]
  show "keeps (near_state node) (loop node (mj_outer st) (t # mj_inner st)) (advance_outer node SKIP_TEST SKIPOUTER_ADVANCE st)"
    "keeps (near_state node) (loop node (mj_outer st) (t # mj_inner st))
      (advance_outer node SKIP_TEST SKIPOUTER_ADVANCE (st\<lparr>mj_MatchedOuter := True\<rparr>))"
    by simp_all
qed

lemma keeps_skip_inner:
  assumes "near_node node" "mj_JoinState st = SKIPINNER_ADVANCE" "mj_OuterTupleSlot st = Some s" "lk s = Some a"
    "mj_Clauses st = [clause (Some a) r n]" "\<not> mj_MatchedOuter st" and fine: "fine (s # mj_outer st) (mj_inner st)"
  shows "keeps (near_state node) (loop node (s # mj_outer st) (mj_inner st)) (MJ_skipinner_advance node st)"
proof (cases "mj_inner st")
  case Nil
  let ?st = "st\<lparr>mj_InnerTupleSlot := None, mj_MatchedInner := False, mj_JoinState := ENDINNER\<rparr>"
  have "near_state node ?st (loop node (s # mj_outer st) [])" if "mj_FillOuter node"
    using that near_state.end_inner [of ?st node s] assms by simp
  then show ?thesis using assms Nil
    by (simp add: MJ_skipinner_advance_def fill_inner_none skip_inner_def next_inner_def near_node_simps nested_loop_empty Let_def
        del: nested_loop_simps)
next
  case (Cons t ts)
  let ?st = "st\<lparr>mj_InnerTupleSlot := Some t, mj_inner := ts, mj_MatchedInner := False, mj_Clauses := [clause (Some a) (rk t) n]\<rparr>"
  show ?thesis
  proof (cases "rk t")
    case None
    have "fine (s # mj_outer st) ts" using fine Cons by auto
    then have "near_state node (?st\<lparr>mj_JoinState := SKIPINNER_ADVANCE\<rparr>) (loop node (s # mj_outer st) ts)"
      using near_state.skip_inner [of "?st\<lparr>mj_JoinState := SKIPINNER_ADVANCE\<rparr>" s a "rk t" n node] assms by simp
    then show ?thesis using assms(1-6) Cons None
      by (simp add: MJ_skipinner_advance_def fill_inner_none skip_inner_def next_inner_def eval_inner near_node_simps Let_def
          no_match_null del: nested_loop_simps)
  next
    case (Some b)
    have "near_state node (?st\<lparr>mj_JoinState := SKIP_TEST\<rparr>) (loop node (s # mj_outer st) (t # ts))"
      using near_state.skip_test [of "?st\<lparr>mj_JoinState := SKIP_TEST\<rparr>" s a t b n node] assms Cons Some by simp
    then show ?thesis using assms(1-6) Cons Some
      by (simp add: MJ_skipinner_advance_def fill_inner_none skip_inner_def next_inner_def eval_inner near_node_simps Let_def
          del: nested_loop_simps)
  qed
qed

lemma keeps_join_tuples:
  assumes "near_node node" "mj_JoinState st = JOINTUPLES" "mj_OuterTupleSlot st = Some s" "lk s = Some a"
    "mj_InnerTupleSlot st = Some t" "mj_MarkedTupleSlot st = Some m" "m # mj_mark st = pre @ t # mj_inner st"
    "\<forall>x\<in>set (pre @ [t]). near w (Some a) (rk x)" "mj_Clauses st = [clause (Some a) r n]" "fine (s # mj_outer st) (m # mj_mark st)"
  shows "keeps (near_state node)
    (join_group node s (mj_MatchedOuter st) (t # matches s (mj_inner st)) @ loop node (mj_outer st) (m # mj_mark st))
    (MJ_jointuples node st)"
proof (rule keeps_jointuples)
  show "near_state node (st\<lparr>mj_JoinState := NEXTINNER, mj_MatchedOuter := mo, mj_MatchedInner := mi\<rparr>)
      (join_group node s mo (matches s (mj_inner st)) @ loop node (mj_outer st) (m # mj_mark st))" for mo mi
    using near_state.next_inner [of "st\<lparr>mj_JoinState := NEXTINNER, mj_MatchedOuter := mo, mj_MatchedInner := mi\<rparr>" s a t m pre r n node]
      assms by simp
qed (use assms(1,3,5) near_node_quals [OF assms(1)] in \<open>simp_all add: near_node_simps\<close>)

lemma keeps_next_inner:
  assumes "near_node node" "mj_JoinState st = NEXTINNER" "mj_OuterTupleSlot st = Some s" "lk s = Some a"
    "mj_InnerTupleSlot st = Some t" "mj_MarkedTupleSlot st = Some m" "m # mj_mark st = pre @ t # mj_inner st"
    "\<forall>x\<in>set (pre @ [t]). near w (Some a) (rk x)" "mj_Clauses st = [clause (Some a) r n]"
    and fine: "fine (s # mj_outer st) (m # mj_mark st)"
  shows "keeps (near_state node) (join_group node s (mj_MatchedOuter st) (matches s (mj_inner st)) @ loop node (mj_outer st) (m # mj_mark st))
    (MJ_nextinner node st)"
proof -
  let ?prev = "if simtype = 1 then Some t else mj_PreviousInnerTupleSlot st"
  let ?rows = "join_group node s (mj_MatchedOuter st) (matches s (mj_inner st)) @ loop node (mj_outer st) (m # mj_mark st)"
  have shift: "shift_inner node st = Inr (st\<lparr>mj_PreviousInnerTupleSlot := ?prev\<rparr>)"
    using assms by (simp add: shift_inner_def near_node_simps slot_tuple_def)
  have past: "past (mj_outer st) (pre @ [t])"
  proof (rule past_group)
    show "fine (s # mj_outer st) (pre @ [t])" using fine assms(7) by (auto simp: fine_def elim!: computable_mono)
  qed (use assms in auto)
  have fine': "fine (mj_outer st) (m # mj_mark st)" using fine by auto
  have leave: "near_state node st' ?rows"
    if "mj_JoinState st' = NEXTOUTER" "mj_OuterTupleSlot st' = Some s" "mj_MarkedTupleSlot st' = Some m" "mj_mark st' = mj_mark st"
      "mj_outer st' = mj_outer st" "mj_MatchedOuter st' = mj_MatchedOuter st" "mj_PreviousInnerTupleSlot st' = ?prev"
      "slot_list (mj_InnerTupleSlot st') @ mj_inner st' = mj_inner st" "mj_InnerTupleSlot st' = None \<longrightarrow> mj_inner st' = []"
      "mj_Clauses st' = [clause l r' n]" "matches s (mj_inner st) = []" for st' l r'
    using near_state.next_outer [of st' s m pre t l r' n node] assms past fine' that by simp
  show ?thesis
  proof (cases "mj_inner st")
    case Nil
    let ?st = "st\<lparr>mj_PreviousInnerTupleSlot := ?prev, mj_InnerTupleSlot := None, mj_MatchedInner := False\<rparr>"
    have "MJ_nextinner node st = go NEXTOUTER ?st" using assms Nil
      by (simp add: MJ_nextinner_def fill_inner_none advance_inner_def shift near_node_simps next_inner_def Let_def)
    moreover have "near_state node (?st\<lparr>mj_JoinState := NEXTOUTER\<rparr>) ?rows"
      by (rule leave) (use assms Nil in \<open>simp_all add: slot_list_def\<close>)
    ultimately show ?thesis by simp
  next
    case (Cons u us)
    let ?st = "st\<lparr>mj_PreviousInnerTupleSlot := ?prev, mj_InnerTupleSlot := Some u, mj_inner := us, mj_MatchedInner := False,
          mj_Clauses := [clause (Some a) (rk u) n]\<rparr>"
    have step: "MJ_nextinner node st = (if rk u = None then go NEXTOUTER ?st
        else bindE (MJCompare node ?st) (\<lambda>r. go (if r = 0 then JOINTUPLES else NEXTOUTER) ?st))"
      using assms Cons by (simp add: MJ_nextinner_def fill_inner_none advance_inner_def shift near_node_simps next_inner_def eval_inner Let_def)
    show ?thesis
    proof (cases "near w (Some a) (rk u)")
      case True
      then obtain b where b: "rk u = Some b" "\<bar>a - b\<bar> \<le> w" by (auto simp: near_iff)
      have "fit a b" using fine assms(4,7) b Cons by (auto simp: fine_def computable_def)
      then have "MJCompare node ?st = Inr 0" using assms b by (simp add: compare_state near_node_simps)
      moreover have "near_state node (?st\<lparr>mj_JoinState := JOINTUPLES\<rparr>) ?rows"
        using near_state.join_tuples [of "?st\<lparr>mj_JoinState := JOINTUPLES\<rparr>" s a u m "pre @ [t]" "Some b" n node] assms b Cons by simp
      ultimately show ?thesis using b by (simp add: step)
    next
      case False
      have none: "matches s (u # us) = []"
        using no_match_after [of s "mj_outer st" pre t u us a] fine assms(4,7,8) Cons False by simp
      have R: "near_state node (?st\<lparr>mj_JoinState := NEXTOUTER\<rparr>) ?rows"
        by (rule leave) (use assms Cons none in \<open>simp_all add: slot_list_def\<close>)
      show ?thesis
      proof (cases "rk u")
        case (Some b)
        have "fit a b" using fine assms(4,7) Some Cons by (auto simp: fine_def computable_def)
        then have "\<exists>r. MJCompare node ?st = Inr r \<and> r \<noteq> 0" using assms Some False by (simp add: compare_state near_node_simps)
        then show ?thesis using R Some by (auto simp: step)
      qed (use R in \<open>simp add: step\<close>)
    qed
  qed
qed

lemma past_later: "past (s # os) grp \<Longrightarrow> past os grp"
  by (auto simp: past_def)

lemma keeps_next_outer:
  assumes "near_node node" "mj_JoinState st = NEXTOUTER" "mj_OuterTupleSlot st = Some s" "mj_MarkedTupleSlot st = Some m"
    "m # mj_mark st = pre @ [p] @ slot_list (mj_InnerTupleSlot st) @ mj_inner st" "past (mj_outer st) (pre @ [p])"
    "simtype = 1 \<longrightarrow> mj_PreviousInnerTupleSlot st = Some p" "mj_InnerTupleSlot st = None \<longrightarrow> mj_inner st = []"
    "mj_Clauses st = [clause l r n]" and fine: "fine (mj_outer st) (m # mj_mark st)"
  shows "keeps (near_state node) (join_group node s (mj_MatchedOuter st) [] @ loop node (mj_outer st) (m # mj_mark st))
    (MJ_nextouter node st)"
  unfolding MJ_nextouter_def
proof (rule keeps_fill_outer [OF near_node_quals(2) [OF assms(1)] assms(3)])
  show "near_state node (st\<lparr>mj_MatchedOuter := True\<rparr>) (loop node (mj_outer st) (m # mj_mark st))"
    using near_state.next_outer [of "st\<lparr>mj_MatchedOuter := True\<rparr>" s m pre p l r n node] assms by simp
  have "keeps (near_state node) (loop node (mj_outer st) (m # mj_mark st))
      (advance_outer node TESTOUTER NEXTOUTER (st\<lparr>mj_MatchedOuter := b\<rparr>))" for b
  proof (cases "mj_outer st")
    case Nil
    then show ?thesis using assms(1) by (simp add: advance_outer_def next_outer_def near_node_simps Let_def)
  next
    case (Cons u us)
    let ?st = "st\<lparr>mj_OuterTupleSlot := Some u, mj_outer := us, mj_MatchedOuter := False, mj_Clauses := [clause (lk u) r n]\<rparr>"
    have later: "fine us (m # mj_mark st)" "past us (pre @ [p])" using fine Cons assms(6) past_later by auto
    show ?thesis
    proof (cases "lk u")
      case None
      have "near_state node (?st\<lparr>mj_JoinState := NEXTOUTER\<rparr>) (loop node (u # us) (m # mj_mark st))"
        using near_state.next_outer [of "?st\<lparr>mj_JoinState := NEXTOUTER\<rparr>" u m pre p "lk u" r n node] assms later None by simp
      then show ?thesis using assms(1-9) Cons None
        by (simp add: advance_outer_def next_outer_def eval_outer Let_def del: nested_loop_simps)
    next
      case (Some a)
      have "near_state node (?st\<lparr>mj_JoinState := TESTOUTER\<rparr>) (loop node (u # us) (m # mj_mark st))"
        using near_state.test_outer [of "?st\<lparr>mj_JoinState := TESTOUTER\<rparr>" u a m pre p r n node] assms Cons Some by simp
      then show ?thesis using assms(1-9) Cons Some
        by (simp add: advance_outer_def next_outer_def eval_outer Let_def del: nested_loop_simps)
    qed
  qed
  from this [of "mj_MatchedOuter st"] this [of True]
  show "keeps (near_state node) (loop node (mj_outer st) (m # mj_mark st)) (advance_outer node TESTOUTER NEXTOUTER st)"
    "keeps (near_state node) (loop node (mj_outer st) (m # mj_mark st))
      (advance_outer node TESTOUTER NEXTOUTER (st\<lparr>mj_MatchedOuter := True\<rparr>))"
    by simp_all
qed

text \<open>After a group the machine compares with its last tuple, or with its first one when all are equal.\<close>

lemma test_outer_result:
  assumes "near_node node" "mj_Clauses st = [clause (Some a) r n]" "fit a b" "rk q = Some b"
    "simtype = 0 \<and> mj_MarkedTupleSlot st = Some q \<or> simtype = 1 \<and> mj_PreviousInnerTupleSlot st = Some q"
  shows "test_outer node st = Inr (if \<bar>a - b\<bar> \<le> w then 0 else if a < b then -1 else 1, st\<lparr>mj_Clauses := [clause (Some a) (Some b) n]\<rparr>)"
  using assms simtype by (auto simp: test_outer_def near_node_simps eval_inner compare_state)

lemma keeps_leave_marked:
  assumes "near_node node" "mj_JoinState st = TESTOUTER" "mj_OuterTupleSlot st = Some s" "lk s = Some a"
    "mj_InnerTupleSlot st = None \<longrightarrow> mj_inner st = []" "mj_Clauses st = [clause (Some a) r n]" "\<not> mj_MatchedOuter st"
    and fine: "fine (s # mj_outer st) (slot_list (mj_InnerTupleSlot st) @ mj_inner st)"
  shows "keeps (near_state node) (loop node (s # mj_outer st) (slot_list (mj_InnerTupleSlot st) @ mj_inner st)) (leave_marked node st)"
proof (cases "mj_InnerTupleSlot st")
  case None
  have "near_state node (st\<lparr>mj_JoinState := ENDINNER\<rparr>) (loop node (s # mj_outer st) [])" if "mj_FillOuter node"
    using that near_state.end_inner [of "st\<lparr>mj_JoinState := ENDINNER\<rparr>" node s] assms by simp
  then show ?thesis using assms(1-7) None
    by (simp add: leave_marked_def near_node_simps nested_loop_empty slot_list_def del: nested_loop_simps)
next
  case (Some t)
  let ?st = "st\<lparr>mj_Clauses := [clause (Some a) (rk t) n]\<rparr>"
  show ?thesis
  proof (cases "rk t")
    case None
    have "fine (s # mj_outer st) (mj_inner st)" using fine by auto
    then have "near_state node (?st\<lparr>mj_JoinState := SKIPINNER_ADVANCE\<rparr>) (loop node (s # mj_outer st) (mj_inner st))"
      using near_state.skip_inner [of "?st\<lparr>mj_JoinState := SKIPINNER_ADVANCE\<rparr>" s a "rk t" n node] assms by simp
    then show ?thesis using assms(1-7) Some None
      by (simp add: leave_marked_def near_node_simps eval_inner slot_list_def no_match_null del: nested_loop_simps)
  next
    fix b assume b: "rk t = Some b"
    have "near_state node (?st\<lparr>mj_JoinState := SKIP_TEST\<rparr>) (loop node (s # mj_outer st) (t # mj_inner st))"
      using near_state.skip_test [of "?st\<lparr>mj_JoinState := SKIP_TEST\<rparr>" s a t b n node] assms Some b by (simp add: slot_list_def)
    then show ?thesis using assms(1-7) Some b
      by (simp add: leave_marked_def near_node_simps eval_inner slot_list_def del: nested_loop_simps)
  qed
qed

lemma keeps_test_outer:
  assumes "near_node node" "mj_JoinState st = TESTOUTER" "mj_OuterTupleSlot st = Some s" "lk s = Some a" "mj_MarkedTupleSlot st = Some m"
    "m # mj_mark st = pre @ [p] @ slot_list (mj_InnerTupleSlot st) @ mj_inner st" "past (s # mj_outer st) (pre @ [p])"
    "simtype = 1 \<longrightarrow> mj_PreviousInnerTupleSlot st = Some p" "mj_InnerTupleSlot st = None \<longrightarrow> mj_inner st = []"
    "mj_Clauses st = [clause (Some a) r n]" "\<not> mj_MatchedOuter st" and fine: "fine (s # mj_outer st) (m # mj_mark st)"
  shows "keeps (near_state node) (loop node (s # mj_outer st) (m # mj_mark st)) (MJ_testouter node st)"
proof -
  define q where "q = (if simtype = 0 then m else p)"
  have m: "m \<in> set (pre @ [p])" using assms(6) by (cases pre) auto
  have q: "q \<in> set (pre @ [p])" "w = 0 \<or> q = last (pre @ [p])" using m simtype by (auto simp: q_def)
  then obtain b where b: "rk q = Some b" using assms(7) by (auto simp: past_def near_iff)
  have in_m: "q \<in> set (m # mj_mark st)" using q(1) assms(6) by auto
  then have fit: "fit a b" using fine assms(4) b by (auto simp: fine_def computable_def)
  let ?st = "st\<lparr>mj_Clauses := [clause (Some a) (Some b) n]\<rparr>"
  have test: "test_outer node st = Inr (if \<bar>a - b\<bar> \<le> w then 0 else if a < b then -1 else 1, ?st)"
    by (rule test_outer_result [OF assms(1,10) fit b]) (use assms simtype in \<open>auto simp: q_def\<close>)
  show ?thesis
  proof (cases "near w (Some a) (rk q)")
    case False
    let ?rem = "slot_list (mj_InnerTupleSlot st) @ mj_inner st"
    have fine': "fine (s # mj_outer st) ((pre @ [p]) @ ?rem)" using fine assms(6) by simp
    then have "keeps (near_state node) (loop node (s # mj_outer st) ?rem) (leave_marked node ?st)"
      using keeps_leave_marked [OF assms(1), of ?st s a "Some b" n] assms fine_mono(3) [OF fine'] by simp
    moreover have "loop node (s # mj_outer st) (m # mj_mark st) = loop node (s # mj_outer st) ?rem"
      using group_left [OF assms(7,4) fine' q(1) False q(2)] assms(6) by (simp del: nested_loop_simps)
    ultimately show ?thesis using test False b by (simp add: MJ_testouter_def del: nested_loop_simps)
  next
    case True
    obtain c where c: "rk m = Some c" using assms(7) m by (auto simp: past_def near_iff)
    show ?thesis
    proof (cases "simtype = 0")
      case T0: True
      let ?st' = "?st\<lparr>mj_inner := mj_mark st, mj_InnerTupleSlot := Some m, mj_JoinState := JOINTUPLES\<rparr>"
      have "near w (Some a) (rk m)" using True T0 by (simp add: q_def)
      then have "near_state node ?st' (loop node (s # mj_outer st) (m # mj_mark st))"
        using near_state.join_tuples [of ?st' s a m m "[]" "Some b" n node] assms(3-5,10,11) fine by simp
      then show ?thesis using test True b assms(1,5) T0
        by (simp add: MJ_testouter_def restore_outer_def near_node_simps ExecRestrPos_def del: nested_loop_simps)
    next
      case False
      then have T1: "simtype = 1" using simtype by blast
      let ?st' = "?st\<lparr>mj_Clauses := [clause (Some a) (Some c) n], mj_inner := mj_mark st, mj_InnerTupleSlot := Some m,
          mj_JoinState := SKIP_TEST\<rparr>"
      have "near_state node ?st' (loop node (s # mj_outer st) (m # mj_mark st))"
        using near_state.skip_test [of ?st' s a m c n node] assms(3-5,10,11) c fine by simp
      then show ?thesis using test True b c assms(1,5) T1
        by (simp add: MJ_testouter_def restore_outer_def near_node_simps ExecRestrPos_def eval_inner del: nested_loop_simps)
    qed
  qed
qed

lemma keeps_end_inner:
  assumes "near_node node" "mj_JoinState st = ENDINNER" "mj_FillOuter node" "mj_OuterTupleSlot st = Some s"
  shows "keeps (near_state node) (join_group node s (mj_MatchedOuter st) [] @ loop node (mj_outer st) []) (MJ_endinner node st)"
proof (rule keeps_endinner)
  show "near_state node (st\<lparr>mj_MatchedOuter := True\<rparr>) (loop node (mj_outer st) [])"
    using near_state.end_inner [of "st\<lparr>mj_MatchedOuter := True\<rparr>" node s] assms by simp
  show "keeps (near_state node) (loop node (mj_outer st) [])
      (let st = (next_outer (st\<lparr>mj_MatchedOuter := b\<rparr>))\<lparr>mj_MatchedOuter := False\<rparr> in
       if mj_OuterTupleSlot st = None then return_null st else go ENDINNER st)" for b
  proof (cases "mj_outer st")
    case (Cons u us)
    let ?st = "st\<lparr>mj_OuterTupleSlot := Some u, mj_outer := us, mj_MatchedOuter := False, mj_JoinState := ENDINNER\<rparr>"
    have "near_state node ?st (loop node (u # us) [])" using near_state.end_inner [of ?st node u] assms by simp
    then show ?thesis using Cons by (simp add: next_outer_def Let_def del: nested_loop_simps)
  qed (simp add: next_outer_def Let_def)
qed (use assms near_node_quals [OF assms(1)] in simp_all)

lemma near_step:
  assumes "near_node node" "near_state node st rows"
  shows "keeps (near_state node) rows (MJ_step node st)"
  using assms(2)
proof cases
  case init_outer
  show ?thesis unfolding MJ_step_state(1) [OF init_outer(2)] init_outer(1) by (rule keeps_init_outer [OF assms(1)]) (fact init_outer)+
next
  case init_inner
  show ?thesis unfolding MJ_step_state(2) [OF init_inner(2)] init_inner(1) by (rule keeps_init_inner [OF assms(1)]) (fact init_inner)+
next
  case skip_test
  show ?thesis unfolding MJ_step_state(7) [OF skip_test(2)] skip_test(1) by (rule keeps_skip_test [OF assms(1)]) (fact skip_test)+
next
  case skip_outer
  show ?thesis unfolding MJ_step_state(8) [OF skip_outer(2)] skip_outer(1) by (rule keeps_skip_outer [OF assms(1)]) (fact skip_outer)+
next
  case skip_inner
  show ?thesis unfolding MJ_step_state(9) [OF skip_inner(2)] skip_inner(1) by (rule keeps_skip_inner [OF assms(1)]) (fact skip_inner)+
next
  case join_tuples
  show ?thesis unfolding MJ_step_state(3) [OF join_tuples(2)] join_tuples(1) by (rule keeps_join_tuples [OF assms(1)]) (fact join_tuples)+
next
  case next_inner
  show ?thesis unfolding MJ_step_state(4) [OF next_inner(2)] next_inner(1) by (rule keeps_next_inner [OF assms(1)]) (fact next_inner)+
next
  case next_outer
  show ?thesis unfolding MJ_step_state(5) [OF next_outer(2)] next_outer(1) by (rule keeps_next_outer [OF assms(1)]) (fact next_outer)+
next
  case test_outer
  show ?thesis unfolding MJ_step_state(6) [OF test_outer(2)] test_outer(1) by (rule keeps_test_outer [OF assms(1)]) (fact test_outer)+
next
  case end_inner
  show ?thesis unfolding MJ_step_state(11) [OF end_inner(2)] end_inner(1) by (rule keeps_end_inner [OF assms(1)]) (fact end_inner)+
qed

text \<open>The join returns the rows of the nested loop, whatever a scan before has left in the node.\<close>

lemma rescan_rows:
  assumes "near_node node" "mj_Clauses st = [clause l r n]" "sorted_by lk outer" "sorted_by rk inner" "computable fit lk rk outer inner"
  shows "mj_rows node (ExecReScanMergeJoin outer inner st) = Inr (loop node outer inner)"
proof (rule mj_rows_simulation [OF near_step [OF assms(1)]])
  show "near_state node (ExecReScanMergeJoin outer inner st) (loop node outer inner)"
    using near_state.init_outer [of "ExecReScanMergeJoin outer inner st" l r n node] assms
    by (simp add: ExecReScanMergeJoin_def fine_def)
qed

end

section \<open>The joins of the program\<close>

text \<open>The subtractions of an epsilon join raise an error on overflow.\<close>

definition subtractable :: "int \<Rightarrow> int \<Rightarrow> bool" where
  "subtractable a b \<longleftrightarrow> int32 a \<and> int32 b \<and> int32 (a - b) \<and> int32 (b - a)"

lemma int4_clause_simps [simp]:
  "lexpr (int4_clause kind lk rk l r n) s = Inr (lk s)" "rexpr (int4_clause kind lk rk l r n) s = Inr (rk s)"
  "ldatum (int4_clause kind lk rk l r n) = l" "rdatum (int4_clause kind lk rk l r n) = r"
  "rnextdatum (int4_clause kind lk rk l r n) = n" "mergestrict (int4_clause kind lk rk l r n)"
  "cmpstrategy (int4_clause kind lk rk l r n) = kind"
  "(int4_clause kind lk rk l r n)\<lparr>ldatum := x\<rparr> = int4_clause kind lk rk x r n"
  "(int4_clause kind lk rk l r n)\<lparr>rdatum := x\<rparr> = int4_clause kind lk rk l x n"
  "(int4_clause kind lk rk l r n)\<lparr>rnextdatum := x\<rparr> = int4_clause kind lk rk l r x"
  "fn_strict (eqfinfo (int4_clause kind lk rk l r n))"
  by (simp_all add: int4_clause_def int4_fmgr_def)

lemma int4_calls [simp]:
  "call2 (eqfinfo (int4_clause kind lk rk l r n)) a b = Inr (Some (if a = b then 1 else 0))"
  "call2 (cmpfinfo (int4_clause MERGEFUNC_CMP lk rk l r n)) a b = Inr (Some (btint4cmp a b))"
  "call2 (cmpfinfo (int4_clause MERGEFUNC_LT lk rk l r n)) a b = Inr (Some (if a < b then 1 else 0))"
  "call2 (minusfinfo (int4_clause MERGEFUNC_LT lk rk l r n)) a b =
     (case int4mi a b of None \<Rightarrow> Inl Numeric_value_out_of_range | Some d \<Rightarrow> Inr (Some d))"
  by (simp_all add: int4_clause_def int4_fmgr_def call2_def bool_datum_def int4eq_def int4lt_def split: option.split)

lemma call2_strict_Inr: "call2 f a b = Inr (Some d) \<Longrightarrow> call2_strict f a b = Inr d"
  by (simp add: call2_strict_def)

lemma compare_epsilon_int4:
  "subtractable a b \<Longrightarrow> compare_epsilon eps (int4_clause MERGEFUNC_LT lk rk l r n) a b =
     Inr (if \<bar>a - b\<bar> \<le> eps then Similar else Differs (if a < b then -1 else 1))"
  by (auto simp: compare_epsilon_def call2_strict_def less_or_greater_def subtractable_def int4mi_exact DatumGetBool_def)

interpretation int4_expr: merge_clause "int4_clause kind lk rk" lk rk
  for kind :: MergeFunctionKind and lk rk :: "slot \<Rightarrow> int option"
  by unfold_locales simp_all

interpretation equality_join: near_clause "int4_clause MERGEFUNC_CMP lk rk" lk rk 0 eps 0 "\<lambda>_ _. True"
  for lk rk :: "slot \<Rightarrow> int option" and eps :: int
  by unfold_locales (auto simp: compare_values_def compare_btree_def btint4cmp_def)

interpretation epsilon_join: near_clause "int4_clause MERGEFUNC_LT lk rk" lk rk 1 eps eps subtractable
  for lk rk :: "slot \<Rightarrow> int option" and eps :: int
  by unfold_locales (simp_all add: compare_values_def compare_epsilon_int4)

text \<open>C8. An epsilon join of sorted inputs returns exactly the rows of a nested loop over the pairs whose values
  differ by at most \<open>epsilon\<close>, in the same order; this holds for inner, left and \<open>IN\<close> joins with further
  qualifications, for NULLs and duplicates on both sides, after any earlier scan, as long as no subtraction overflows.\<close>

theorem epsilon_join_rows:
  assumes "mj_SimjoinType node = 1" "\<not> mj_FillInner node" "total_qual (joinqual node)" "total_qual (otherqual node)"
    "mj_Clauses st = [int4_clause MERGEFUNC_LT lk rk l r n]" "sorted_by lk outer" "sorted_by rk inner"
    "computable subtractable lk rk outer inner"
  shows "\<exists>y. calls (call_join node) (ExecReScanMergeJoin outer inner st)
    (nested_loop node (\<lambda>s t. near (epsilon node) (lk s) (rk t)) outer inner) y"
proof (rule mj_rows_called, rule epsilon_join.rescan_rows)
  show "epsilon_join.near_node (epsilon node) node" using assms by (simp add: epsilon_join.near_node_def)
qed (use assms in auto)

text \<open>A merge join on equality returns exactly the rows of a nested loop over the pairs of equal values.\<close>

theorem equality_join_rows:
  assumes "mj_SimjoinType node = 0" "\<not> mj_FillInner node" "total_qual (joinqual node)" "total_qual (otherqual node)"
    "mj_Clauses st = [int4_clause MERGEFUNC_CMP lk rk l r n]" "sorted_by lk outer" "sorted_by rk inner"
  shows "\<exists>y. calls (call_join node) (ExecReScanMergeJoin outer inner st)
    (nested_loop node (\<lambda>s t. lk s \<noteq> None \<and> lk s = rk t) outer inner) y"
  unfolding near_zero [symmetric]
proof (rule mj_rows_called, rule equality_join.rescan_rows)
  show "equality_join.near_node (epsilon node) node" using assms by (simp add: equality_join.near_node_def)
qed (use assms in \<open>auto simp: computable_def\<close>)

section \<open>Examples\<close>

abbreviation inner_join :: "int \<Rightarrow> int \<Rightarrow> MergeJoinNode" where
  "inner_join simtype eps \<equiv> \<lparr>jointype = JOIN_INNER, mj_SimjoinType = simtype, epsilon = eps, mj_FillOuter = False,
     mj_FillInner = False, joinqual = None, otherqual = None, null_at_end = False\<rparr>"

definition first_column :: "slot \<Rightarrow> int option" where
  "first_column s = (case slot_getattr s 1 of (d, isnull) \<Rightarrow> if isnull then None else Some d)"

abbreviation demo_join :: MergeJoinState where
  "demo_join \<equiv> \<lparr>mj_Clauses = [int4_clause MERGEFUNC_LT first_column first_column None None None], mj_JoinState = INITIALIZE_OUTER,
     mj_MatchedOuter = False, mj_MatchedInner = False, mj_OuterTupleSlot = None, mj_InnerTupleSlot = None,
     mj_MarkedTupleSlot = None, mj_PreviousInnerTupleSlot = None, mj_InnerCopyTupleSlot = None, mj_FirstMarkedSlot = None,
     mj_outer = [], mj_inner = [], mj_mark = []\<rparr>"

lemma first_column_simps [simp]: "first_column (Some x # xs) = Some x" "first_column (None # xs) = None"
  by (simp_all add: first_column_def slot_getattr_def)

lemma total_NIL [simp]: "total_qual None"
  by (auto simp: total_qual_def ExecQual_def)

lemma epsilon_join_rows_witness:
  "\<exists>y. calls (call_join (inner_join 1 2)) (ExecReScanMergeJoin [[Some 1], [Some 4], [None]] [[Some 2], [Some 3], [Some 9], [None]] demo_join)
    [(Some [Some 1], Some [Some 2]), (Some [Some 1], Some [Some 3]), (Some [Some 4], Some [Some 2]), (Some [Some 4], Some [Some 3])] y"
  using epsilon_join_rows [of "inner_join 1 2" demo_join first_column first_column None None None
      "[[Some 1], [Some 4], [None]]" "[[Some 2], [Some 3], [Some 9], [None]]"]
  by (simp add: holds_def ExecQual_def computable_def subtractable_def int32_def del: calls_Cons)

abbreviation demo_equality :: MergeJoinState where
  "demo_equality \<equiv> demo_join\<lparr>mj_Clauses := [int4_clause MERGEFUNC_CMP first_column first_column None None None]\<rparr>"

lemma equality_join_rows_witness:
  "\<exists>y. calls (call_join (inner_join 0 0)) (ExecReScanMergeJoin [[Some 1], [Some 2], [None]] [[Some 2], [Some 2], [None]] demo_equality)
    [(Some [Some 2], Some [Some 2]), (Some [Some 2], Some [Some 2])] y"
  using equality_join_rows [of "inner_join 0 0" demo_equality first_column first_column None None None
      "[[Some 1], [Some 2], [None]]" "[[Some 2], [Some 2], [None]]"]
  by (simp add: holds_def ExecQual_def del: calls_Cons)

text \<open>Values whose difference is no \<open>int\<close> end the query, however far apart they may be from \<open>epsilon\<close>.\<close>

theorem epsilon_join_overflow:
  assumes "mj_SimjoinType node = 1" "mj_Clauses st = [int4_clause MERGEFUNC_LT lk rk l r n]" "lk s = Some a" "rk t = Some b"
    "int32 a" "int32 b" "\<not> int32 (a - b)"
  shows "mj_rows node (ExecReScanMergeJoin (s # outer) (t # inner) st) = Inl Numeric_value_out_of_range"
  using assms
  by (simp add: mj_rows.simps MJ_step_state MJ_initialize_outer_def MJ_initialize_inner_def MJ_skip_test_def ExecReScanMergeJoin_def
      next_outer_def next_inner_def int4_expr.eval_outer int4_expr.eval_inner go_def Let_def MJCompare_def compare_values_def
      compare_epsilon_def call2_strict_def int4mi_exact)

section \<open>Right joins\<close>

text \<open>Runs of the machine on given rows.\<close>

lemmas mj_run = mj_rows.simps MJ_step_state go_def return_null_def Let_def next_outer_def next_inner_def ExecReScanMergeJoin_def
  int4_expr.eval_outer int4_expr.eval_inner int4_expr.eval_next_inner slot_tuple_def ExecRestrPos_def ExecMarkPos_def ExecQual_def
  MJ_initialize_outer_def MJ_initialize_inner_def MJ_jointuples_def MJ_nextinner_def advance_inner_def shift_inner_def
  MJ_nextouter_def MJ_skipouter_advance_def advance_outer_def MJ_testouter_def test_outer_def restore_outer_def leave_marked_def
  MJ_skip_test_def MJ_skipinner_advance_def skip_inner_def MJ_endouter_def MJ_endinner_def fill_inner_def fill_outer_def
  or_return_def MJFillInner_def MJFillOuter_def MJCompare_def compare_values_def

text \<open>An epsilon join that fills inner tuples (\<open>RIGHT\<close>, \<open>FULL\<close>) can return a matched inner tuple once more, with
  NULLs: after the inner plan was set back, the flag of its tuples is forgotten.\<close>

theorem epsilon_right_join_fills_matched:
  assumes "mj_SimjoinType node = 1" "jointype node = JOIN_RIGHT" "mj_FillInner node" "\<not> mj_FillOuter node"
    "joinqual node = None" "otherqual node = None" "mj_Clauses st = [int4_clause MERGEFUNC_LT lk rk l r n]"
    "lk s1 = Some a1" "lk s2 = Some a2" "rk t1 = Some b1" "rk t2 = Some b2"
    "subtractable a1 b1" "subtractable a1 b2" "subtractable a2 b1" "subtractable a2 b2"
    "\<bar>a1 - b1\<bar> \<le> epsilon node" "\<bar>a1 - b2\<bar> \<le> epsilon node" "a2 - b1 > epsilon node" "\<bar>a2 - b2\<bar> \<le> epsilon node"
  shows "mj_rows node (ExecReScanMergeJoin [s1, s2] [t1, t2] st) =
    Inr [(Some s1, Some t1), (Some s1, Some t2), (None, Some t1), (Some s2, Some t2)]"
  using assms by (simp add: mj_run compare_epsilon_int4)

abbreviation right_join :: "int \<Rightarrow> int \<Rightarrow> MergeJoinNode" where
  "right_join simtype eps \<equiv> (inner_join simtype eps)\<lparr>jointype := JOIN_RIGHT, mj_FillInner := True\<rparr>"

lemma epsilon_right_join_fills_matched_witness:
  "mj_rows (right_join 1 1) (ExecReScanMergeJoin [[Some 1], [Some 3]] [[Some 1], [Some 2]] demo_join) =
    Inr [(Some [Some 1], Some [Some 1]), (Some [Some 1], Some [Some 2]), (None, Some [Some 1]), (Some [Some 3], Some [Some 2])]"
  by (rule epsilon_right_join_fills_matched [where ?a1.0 = 1 and ?a2.0 = 3 and ?b1.0 = 1 and ?b2.0 = 2 and lk = first_column and rk = first_column and l = None and r = None and n = None])
     (simp_all add: subtractable_def int32_def)

end
