(* ===== verification/JoinAround.thy ===== *)
theory JoinAround
  imports NearJoin
begin

text \<open>
  The \<open>AROUND\<close> join (type 2): every outer tuple is joined with the inner tuple closest to it. This holds for
  inner tuples with different values; the machine takes the wrong branch at the end of a run of equal inner
  tuples. The contract of a clause is the locale \<open>around_clause\<close>.
\<close>

section \<open>The closest tuple\<close>

text \<open>Of two tuples equally close the one with the larger value is taken.\<close>

definition closest :: "(slot \<Rightarrow> int option) \<Rightarrow> slot list \<Rightarrow> int option \<Rightarrow> slot \<Rightarrow> bool" where
  "closest rk inner l t \<longleftrightarrow>
     (case l of None \<Rightarrow> False | Some a \<Rightarrow>
      case rk t of None \<Rightarrow> False | Some b \<Rightarrow>
        (\<forall>u\<in>set inner. case rk u of None \<Rightarrow> True | Some c \<Rightarrow> \<bar>a - b\<bar> < \<bar>a - c\<bar> \<or> \<bar>a - b\<bar> = \<bar>a - c\<bar> \<and> c \<le> b))"

definition increasing :: "(slot \<Rightarrow> int option) \<Rightarrow> slot list \<Rightarrow> bool" where
  "increasing k ts \<longleftrightarrow> (\<forall>t\<in>set ts. k t \<noteq> None) \<and> sorted_wrt (\<lambda>s t. the (k s) < the (k t)) ts"

lemma increasing_simps [simp]:
  "increasing k []" "increasing k (s # ss) \<longleftrightarrow> k s \<noteq> None \<and> (\<forall>t\<in>set ss. the (k s) < the (k t)) \<and> increasing k ss"
  "increasing k (xs @ ys) \<longleftrightarrow> increasing k xs \<and> increasing k ys \<and> (\<forall>x\<in>set xs. \<forall>y\<in>set ys. the (k x) < the (k y))"
  by (auto simp: increasing_def sorted_wrt_append)

lemma closest_null [simp]: "closest rk inner None t = False"
  by (simp add: closest_def)

lemma closest_only:
  assumes "increasing rk (pre @ c # post)" "\<forall>p\<in>set pre. the (rk p) + the (rk c) \<le> 2 * a"
    "\<forall>d\<in>set post. 2 * a < the (rk c) + the (rk d)"
  shows "filter (closest rk (pre @ c # post) (Some a)) (pre @ c # post) = [c]"
proof -
  let ?I = "pre @ c # post"
  obtain b where b: "rk c = Some b" using assms(1) by auto
  have pre: "rk u = Some e \<Longrightarrow> e < b \<and> e + b \<le> 2 * a" if "u \<in> set pre" for u e
    using assms(1,2) that b by fastforce
  have post: "rk u = Some e \<Longrightarrow> b < e \<and> 2 * a < b + e" if "u \<in> set post" for u e
    using assms(1,3) that b by fastforce
  have "\<bar>a - b\<bar> < \<bar>a - e\<bar> \<or> \<bar>a - b\<bar> = \<bar>a - e\<bar> \<and> e \<le> b" if "u \<in> set ?I" "rk u = Some e" for u e
    using that pre [of u e] post [of u e] b by auto
  then have c: "closest rk ?I (Some a) c" by (auto simp: closest_def b split: option.split)
  have not: "\<not> closest rk ?I (Some a) u" if u: "u \<in> set pre \<union> set post" for u
  proof
    assume "closest rk ?I (Some a) u"
    then obtain e where e: "rk u = Some e" "\<bar>a - e\<bar> < \<bar>a - b\<bar> \<or> \<bar>a - e\<bar> = \<bar>a - b\<bar> \<and> b \<le> e"
      using b by (auto simp: closest_def split: option.splits)
    then show False using u pre [of u e] post [of u e] by auto
  qed
  show ?thesis using c not by (simp add: filter_empty_conv)
qed

text \<open>There is exactly one closest tuple.\<close>

lemma closest_split:
  "increasing rk ts \<Longrightarrow> ts \<noteq> [] \<Longrightarrow> \<exists>pre c post. ts = pre @ c # post \<and>
     (\<forall>p\<in>set pre. the (rk p) + the (rk c) \<le> 2 * a) \<and> (\<forall>d\<in>set post. 2 * a < the (rk c) + the (rk d))"
proof (induction ts rule: induct_list012)
  case (2 t)
  then show ?case by (intro exI [of _ "[]"] exI [of _ t] exI [of _ "[]"]) auto
next
  case (3 t u ts)
  show ?case
  proof (cases "2 * a < the (rk t) + the (rk u)")
    case True
    then show ?thesis using 3(3) by (intro exI [of _ "[]"] exI [of _ t] exI [of _ "u # ts"]) fastforce
  next
    case False
    from 3 obtain pre c post where *: "u # ts = pre @ c # post" "\<forall>p\<in>set pre. the (rk p) + the (rk c) \<le> 2 * a"
      "\<forall>d\<in>set post. 2 * a < the (rk c) + the (rk d)" by auto
    have "the (rk t) + the (rk c) \<le> 2 * a"
      using 3(3) False * by (cases pre) auto
    then show ?thesis using * by (intro exI [of _ "t # pre"] exI [of _ c] exI [of _ post]) auto
  qed
qed simp

lemma closest_single:
  assumes "increasing rk inner" "inner \<noteq> []"
  obtains t where "t \<in> set inner" "filter (closest rk inner (Some a)) inner = [t]"
proof -
  obtain pre c post where *: "inner = pre @ c # post" "\<forall>p\<in>set pre. the (rk p) + the (rk c) \<le> 2 * a"
      "\<forall>d\<in>set post. 2 * a < the (rk c) + the (rk d)" using closest_split [OF assms] by blast
  then show thesis using that [of c] closest_only [of rk pre c post a] assms(1) by simp
qed

section \<open>The contract\<close>

locale around_clause = merge_clause +
  fixes fit :: "int \<Rightarrow> int \<Rightarrow> bool"
  assumes compare: "mj_SimjoinType node = 2 \<Longrightarrow> fit a b \<Longrightarrow> fit a c \<Longrightarrow>
      compare_values node (clause l r (Some c)) a b = Inr (if a \<le> b \<or> a \<le> c \<and> a - b < c - a then Similar else Differs 1)"
    and same: "call2 (eqfinfo (clause l r n)) b c = Inr (Some (if b = c then 1 else 0))"
begin

lemma compare_state:
  assumes "mj_SimjoinType node = 2" "mj_Clauses st = [clause (Some a) (Some b) (Some c)]" "fit a b" "fit a c" "b < c"
  shows "MJCompare node st = Inr (if 2 * a < b + c then 0 else 1)"
  using assms by (simp add: MJCompare_def compare datum)

lemma same_state:
  assumes "mj_Clauses st = [clause l (Some b) (Some c)]" "b < c"
  shows "MJCompare_InnerAndNextInner st = Inr 1"
  using assms by (simp add: MJCompare_InnerAndNextInner_def datum same DatumGetBool_def)

definition hd_slot :: "slot list \<Rightarrow> slot option" where
  "hd_slot ts = (case ts of [] \<Rightarrow> None | t # _ \<Rightarrow> Some t)"

lemma hd_slot_simps [simp]: "hd_slot [] = None" "hd_slot (t # ts) = Some t" "hd_slot ts = None \<longleftrightarrow> ts = []"
  by (auto simp: hd_slot_def split: list.split)

lemma next_inner_hd: "next_inner st = st\<lparr>mj_InnerTupleSlot := hd_slot (mj_inner st), mj_inner := tl (mj_inner st)\<rparr>"
  by (cases "mj_inner st") (simp_all add: next_inner_def)

abbreviation loop :: "MergeJoinNode \<Rightarrow> slot list \<Rightarrow> slot list \<Rightarrow> joined list" where
  "loop node all os \<equiv> nested_loop node (\<lambda>s t. closest rk all (lk s) t) os all"

definition fine :: "slot list \<Rightarrow> slot list \<Rightarrow> bool" where
  "fine all os \<longleftrightarrow> sorted_by lk os \<and> computable fit lk rk os all"

text \<open>No outer tuple to come is closest to a tuple of \<open>pre\<close>.\<close>

definition left_of :: "slot list \<Rightarrow> slot list \<Rightarrow> slot \<Rightarrow> bool" where
  "left_of os pre c \<longleftrightarrow> (\<forall>s\<in>set os. \<forall>a. lk s = Some a \<longrightarrow> (\<forall>p\<in>set pre. the (rk p) + the (rk c) \<le> 2 * a))"

definition marked :: "MergeJoinState \<Rightarrow> slot \<Rightarrow> slot list \<Rightarrow> bool" where
  "marked st c post \<longleftrightarrow> mj_FirstMarkedSlot st = Some c \<and> mj_MarkedTupleSlot st = hd_slot post \<and> mj_mark st = tl post"

inductive around_state :: "MergeJoinNode \<Rightarrow> slot list \<Rightarrow> MergeJoinState \<Rightarrow> joined list \<Rightarrow> bool" for node all where
  init_outer: "mj_JoinState st = INITIALIZE_OUTER \<Longrightarrow> mj_Clauses st = [clause l r n] \<Longrightarrow> \<not> mj_MatchedOuter st \<Longrightarrow>
    mj_inner st = all \<Longrightarrow> fine all (mj_outer st) \<Longrightarrow> around_state node all st (loop node all (mj_outer st))"
| init_inner: "mj_JoinState st = INITIALIZE_INNER \<Longrightarrow> mj_OuterTupleSlot st = Some s \<Longrightarrow> lk s = Some a \<Longrightarrow>
    mj_Clauses st = [clause (Some a) r n] \<Longrightarrow> \<not> mj_MatchedOuter st \<Longrightarrow> mj_inner st = all \<Longrightarrow> fine all (s # mj_outer st) \<Longrightarrow>
    around_state node all st (loop node all (s # mj_outer st))"
| skip_test: "mj_JoinState st = SKIP_TEST \<Longrightarrow> mj_OuterTupleSlot st = Some s \<Longrightarrow> lk s = Some a \<Longrightarrow>
    mj_InnerCopyTupleSlot st = Some c \<Longrightarrow> all = pre @ c # post \<Longrightarrow> mj_InnerTupleSlot st = hd_slot post \<Longrightarrow> mj_inner st = tl post \<Longrightarrow>
    mj_Clauses st = [clause (Some a) (rk c) n] \<Longrightarrow> post \<noteq> [] \<longrightarrow> n = rk (hd post) \<Longrightarrow> \<not> mj_MatchedOuter st \<Longrightarrow>
    fine all (s # mj_outer st) \<Longrightarrow> left_of (s # mj_outer st) pre c \<Longrightarrow> around_state node all st (loop node all (s # mj_outer st))"
| skip_inner: "mj_JoinState st = SKIPINNER_ADVANCE \<Longrightarrow> mj_OuterTupleSlot st = Some s \<Longrightarrow> lk s = Some a \<Longrightarrow>
    all = pre @ c # d # post \<Longrightarrow> mj_InnerTupleSlot st = Some d \<Longrightarrow> mj_inner st = post \<Longrightarrow>
    mj_Clauses st = [clause (Some a) r n] \<Longrightarrow> \<not> mj_MatchedOuter st \<Longrightarrow>
    fine all (s # mj_outer st) \<Longrightarrow> left_of (s # mj_outer st) (pre @ [c]) d \<Longrightarrow> around_state node all st (loop node all (s # mj_outer st))"
| join_tuples: "mj_JoinState st = JOINTUPLES \<Longrightarrow> mj_OuterTupleSlot st = Some s \<Longrightarrow> mj_InnerCopyTupleSlot st = Some c \<Longrightarrow>
    all = pre @ c # post \<Longrightarrow> mj_InnerTupleSlot st = hd_slot post \<Longrightarrow> mj_inner st = tl post \<Longrightarrow> marked st c post \<Longrightarrow>
    mj_Clauses st = [clause l r n] \<Longrightarrow> fine all (mj_outer st) \<Longrightarrow> left_of (mj_outer st) pre c \<Longrightarrow>
    around_state node all st (join_group node s (mj_MatchedOuter st) [c] @ loop node all (mj_outer st))"
| next_inner: "mj_JoinState st = NEXTINNER \<Longrightarrow> mj_OuterTupleSlot st = Some s \<Longrightarrow> mj_InnerCopyTupleSlot st = Some c \<Longrightarrow>
    all = pre @ c # post \<Longrightarrow> mj_InnerTupleSlot st = hd_slot post \<Longrightarrow> mj_inner st = tl post \<Longrightarrow> marked st c post \<Longrightarrow>
    mj_Clauses st = [clause l r n] \<Longrightarrow> fine all (mj_outer st) \<Longrightarrow> left_of (mj_outer st) pre c \<Longrightarrow>
    around_state node all st (join_group node s (mj_MatchedOuter st) [] @ loop node all (mj_outer st))"
| next_outer: "mj_JoinState st = NEXTOUTER \<Longrightarrow> mj_OuterTupleSlot st = Some s \<Longrightarrow> mj_InnerCopyTupleSlot st = hd_slot post \<Longrightarrow>
    all = pre @ c # post \<Longrightarrow> mj_InnerTupleSlot st = hd_slot (tl post) \<Longrightarrow> mj_inner st = tl (tl post) \<Longrightarrow> marked st c post \<Longrightarrow>
    post \<noteq> [] \<longrightarrow> mj_PreviousInnerTupleSlot st = Some c \<Longrightarrow>
    mj_Clauses st = [clause l r n] \<Longrightarrow> fine all (mj_outer st) \<Longrightarrow> left_of (mj_outer st) pre c \<Longrightarrow>
    around_state node all st (join_group node s (mj_MatchedOuter st) [] @ loop node all (mj_outer st))"
| test_outer: "mj_JoinState st = TESTOUTER \<Longrightarrow> mj_OuterTupleSlot st = Some s \<Longrightarrow> lk s = Some a \<Longrightarrow>
    mj_InnerCopyTupleSlot st = hd_slot post \<Longrightarrow> all = pre @ c # post \<Longrightarrow> mj_InnerTupleSlot st = hd_slot (tl post) \<Longrightarrow>
    mj_inner st = tl (tl post) \<Longrightarrow> marked st c post \<Longrightarrow> post \<noteq> [] \<longrightarrow> mj_PreviousInnerTupleSlot st = Some c \<Longrightarrow>
    mj_Clauses st = [clause (Some a) r n] \<Longrightarrow> \<not> mj_MatchedOuter st \<Longrightarrow> fine all (s # mj_outer st) \<Longrightarrow>
    left_of (s # mj_outer st) pre c \<Longrightarrow> around_state node all st (loop node all (s # mj_outer st))"
| end_inner: "mj_JoinState st = ENDINNER \<Longrightarrow> mj_FillOuter node \<Longrightarrow> all = [] \<Longrightarrow> mj_OuterTupleSlot st = Some s \<Longrightarrow>
    around_state node all st (join_group node s (mj_MatchedOuter st) [] @ loop node all (mj_outer st))"

definition around_node :: "MergeJoinNode \<Rightarrow> bool" where
  "around_node node \<longleftrightarrow> mj_SimjoinType node = 2 \<and> \<not> mj_FillInner node \<and> \<not> null_at_end node \<and>
     total_qual (joinqual node) \<and> total_qual (otherqual node)"

lemma around_node_simps:
  assumes "around_node node"
  shows "mj_SimjoinType node = 2" "\<not> mj_FillInner node" "\<not> null_at_end node" "total_qual (joinqual node)" "total_qual (otherqual node)"
  using assms by (auto simp: around_node_def)

lemma fill_inner_none: "around_node node \<Longrightarrow> fill_inner node k st = k st"
  by (simp add: fill_inner_def around_node_simps)

lemma fine_mono: "fine all (s # os) \<Longrightarrow> fine all os"
  by (auto simp: fine_def elim!: computable_mono)

lemma left_of_mono: "left_of (s # os) pre c \<Longrightarrow> left_of os pre c"
  by (simp add: left_of_def)

lemma left_of_Nil [simp]: "left_of os [] c"
  by (simp add: left_of_def)

text \<open>Either \<open>c\<close> is the closest tuple, or no outer tuple to come is closest to it.\<close>

lemma group_closest:
  assumes "increasing rk (pre @ c # post)" "left_of (s # os) pre c" "lk s = Some a" "post \<noteq> [] \<longrightarrow> 2 * a < the (rk c) + the (rk (hd post))"
  shows "filter (closest rk (pre @ c # post) (Some a)) (pre @ c # post) = [c]"
proof (rule closest_only [OF assms(1)])
  show "\<forall>p\<in>set pre. the (rk p) + the (rk c) \<le> 2 * a" using assms(2,3) by (simp add: left_of_def)
  show "\<forall>d\<in>set post. 2 * a < the (rk c) + the (rk d)" using assms(1,4) by (cases post) fastforce+
qed

lemma left_of_advance:
  assumes "increasing rk (pre @ c # d # post)" "left_of (s # os) pre c" "lk s = Some a" "sorted_by lk (s # os)"
    "\<not> 2 * a < the (rk c) + the (rk d)"
  shows "left_of (s # os) (pre @ [c]) d"
  unfolding left_of_def
proof (intro ballI allI impI)
  fix s' a' p assume s': "s' \<in> set (s # os)" "lk s' = Some a'" and p: "p \<in> set (pre @ [c])"
  have "a \<le> a'" using assms(3,4) s' by auto
  moreover have "the (rk p) \<le> the (rk c)" using assms(1) p by force
  ultimately show "the (rk p) + the (rk d) \<le> 2 * a'" using assms(5) by linarith
qed

lemma keeps_init_outer:
  assumes "around_node node" "mj_JoinState st = INITIALIZE_OUTER" "mj_Clauses st = [clause l r n]" "\<not> mj_MatchedOuter st"
    "mj_inner st = all" "fine all (mj_outer st)"
  shows "keeps (around_state node all) (loop node all (mj_outer st)) (MJ_initialize_outer node st)"
proof (cases "mj_outer st")
  case Nil
  then show ?thesis using assms by (simp add: MJ_initialize_outer_def next_outer_def around_node_simps Let_def)
next
  case (Cons s ss)
  let ?st = "st\<lparr>mj_OuterTupleSlot := Some s, mj_outer := ss, mj_Clauses := [clause (lk s) r n]\<rparr>"
  have fine: "fine all ss" using assms(6) Cons fine_mono by auto
  show ?thesis
  proof (cases "lk s")
    case None
    have "around_state node all ?st (loop node all ss)" "around_state node all (?st\<lparr>mj_JoinState := INITIALIZE_OUTER\<rparr>) (loop node all ss)"
      using around_state.init_outer [of ?st "lk s" r n all node]
        around_state.init_outer [of "?st\<lparr>mj_JoinState := INITIALIZE_OUTER\<rparr>" "lk s" r n all node] assms fine by simp_all
    then show ?thesis using assms None
      by (simp add: MJ_initialize_outer_def next_outer_def eval_outer or_return_def MJFillOuter_def around_node_simps holds_total Let_def Cons)
  next
    case (Some a)
    have "around_state node all (?st\<lparr>mj_JoinState := INITIALIZE_INNER\<rparr>) (loop node all (s # ss))"
      using around_state.init_inner [of "?st\<lparr>mj_JoinState := INITIALIZE_INNER\<rparr>" s a r n all node] assms Cons Some by simp
    then show ?thesis using assms Some by (simp add: MJ_initialize_outer_def next_outer_def eval_outer Let_def Cons)
  qed
qed

lemma keeps_init_inner:
  assumes "around_node node" "mj_JoinState st = INITIALIZE_INNER" "mj_OuterTupleSlot st = Some s" "lk s = Some a"
    "mj_Clauses st = [clause (Some a) r n]" "\<not> mj_MatchedOuter st" "mj_inner st = all" "fine all (s # mj_outer st)" "increasing rk all"
  shows "keeps (around_state node all) (loop node all (s # mj_outer st)) (MJ_initialize_inner node st)"
proof (cases all)
  case Nil
  let ?st = "st\<lparr>mj_InnerTupleSlot := None, mj_MatchedOuter := False, mj_JoinState := ENDINNER\<rparr>"
  have "around_state node [] ?st (loop node [] (s # mj_outer st))" if "mj_FillOuter node"
    using that around_state.end_inner [of ?st node "[]" s] assms by simp
  then show ?thesis using assms Nil
    by (simp add: MJ_initialize_inner_def next_inner_def nested_loop_empty Let_def del: nested_loop_simps)
next
  case (Cons t ts)
  obtain b where b: "rk t = Some b" using assms(9) Cons by auto
  have inner: "mj_inner st = t # ts" using assms(7) Cons by simp
  have R: "around_state node all st' (loop node all (s # mj_outer st))"
    if "mj_JoinState st' = SKIP_TEST" "mj_OuterTupleSlot st' = Some s" "mj_outer st' = mj_outer st" "\<not> mj_MatchedOuter st'"
      "mj_InnerCopyTupleSlot st' = Some t" "mj_InnerTupleSlot st' = hd_slot ts" "mj_inner st' = tl ts"
      "mj_Clauses st' = [clause (Some a) (rk t) n]" "ts \<noteq> [] \<longrightarrow> n = rk (hd ts)" for st' n
    using around_state.skip_test [of st' s a t all "[]" ts n node] assms Cons that by simp
  show ?thesis using assms(1-6) b inner
    by (cases ts) (auto simp: MJ_initialize_inner_def next_inner_hd eval_inner eval_next_inner around_node_simps Let_def
        simp del: nested_loop_simps intro!: R)
qed

lemma skip_test_step:
  assumes "around_node node" "mj_Clauses st = [clause (Some a) (Some b) n]" "mj_InnerCopyTupleSlot st = Some c"
    "mj_InnerTupleSlot st = hd_slot post" "post \<noteq> [] \<longrightarrow> n = Some d \<and> fit a b \<and> fit a d \<and> b < d"
  shows "MJ_skip_test node st =
    (if post \<noteq> [] \<and> \<not> 2 * a < b + d then go SKIPINNER_ADVANCE st
     else go JOINTUPLES (st\<lparr>mj_FirstMarkedSlot := Some c, mj_mark := mj_inner st, mj_MarkedTupleSlot := hd_slot post\<rparr>))"
proof (cases "post = []")
  case False
  then have "MJCompare node st = Inr (if 2 * a < b + d then 0 else 1)" "MJCompare_InnerAndNextInner st = Inr 1"
    using assms by (simp_all add: compare_state same_state around_node_simps)
  then show ?thesis using assms False
    by (simp add: MJ_skip_test_def skip_test_around_def around_node_simps slot_tuple_def ExecMarkPos_def)
qed (use assms in \<open>simp add: MJ_skip_test_def skip_test_around_def around_node_simps slot_tuple_def ExecMarkPos_def\<close>)

lemma fit_tuples: "fine all (s # os) \<Longrightarrow> lk s = Some a \<Longrightarrow> t \<in> set all \<Longrightarrow> rk t = Some b \<Longrightarrow> fit a b"
  by (auto simp: fine_def computable_def)

lemma keeps_skip_test:
  assumes "around_node node" "mj_JoinState st = SKIP_TEST" "mj_OuterTupleSlot st = Some s" "lk s = Some a"
    "mj_InnerCopyTupleSlot st = Some c" "all = pre @ c # post" "mj_InnerTupleSlot st = hd_slot post" "mj_inner st = tl post"
    "mj_Clauses st = [clause (Some a) (rk c) n]" "post \<noteq> [] \<longrightarrow> n = rk (hd post)" "\<not> mj_MatchedOuter st"
    "fine all (s # mj_outer st)" "left_of (s # mj_outer st) pre c" and inc: "increasing rk all"
  shows "keeps (around_state node all) (loop node all (s # mj_outer st)) (MJ_skip_test node st)"
proof -
  obtain b where b: "rk c = Some b" using inc assms(6) by auto
  obtain d where d: "post \<noteq> [] \<longrightarrow> rk (hd post) = Some d \<and> b < d"
    using inc assms(6) b by (cases post) auto
  have "post \<noteq> [] \<longrightarrow> n = Some d \<and> fit a b \<and> fit a d \<and> b < d"
    using fit_tuples [OF assms(12,4)] d b assms(6,10) by (cases post) auto
  then have step: "MJ_skip_test node st = (if post \<noteq> [] \<and> \<not> 2 * a < b + d then go SKIPINNER_ADVANCE st
      else go JOINTUPLES (st\<lparr>mj_FirstMarkedSlot := Some c, mj_mark := mj_inner st, mj_MarkedTupleSlot := hd_slot post\<rparr>))"
    using skip_test_step [of node st a b n c post d] assms b by simp
  show ?thesis
  proof (cases "post \<noteq> [] \<and> \<not> 2 * a < b + d")
    case True
    then obtain e es where post: "post = e # es" by (cases post) auto
    have "left_of (s # mj_outer st) (pre @ [c]) e"
      by (rule left_of_advance [where post = es and a = a]) (use inc assms True b d post in \<open>auto simp: fine_def\<close>)
    then show ?thesis
      using around_state.skip_inner [of "st\<lparr>mj_JoinState := SKIPINNER_ADVANCE\<rparr>" s a all pre c e es "rk c" n node] assms step True post
      by (simp del: nested_loop_simps)
  next
    case False
    have only: "filter (closest rk all (Some a)) all = [c]"
      using group_closest [of pre c post s "mj_outer st" a] inc assms(4,6,13) False b d by auto
    let ?st = "st\<lparr>mj_FirstMarkedSlot := Some c, mj_mark := mj_inner st, mj_MarkedTupleSlot := hd_slot post, mj_JoinState := JOINTUPLES\<rparr>"
    have "around_state node all ?st (join_group node s False [c] @ loop node all (mj_outer st))"
      using around_state.join_tuples [of ?st s c all pre post "Some a" "rk c" n node] assms fine_mono left_of_mono
      by (simp add: marked_def del: join_group.simps)
    then show ?thesis using step False only assms(4) by (auto simp del: join_group.simps)
  qed
qed

lemma keeps_skip_inner:
  assumes "around_node node" "mj_JoinState st = SKIPINNER_ADVANCE" "mj_OuterTupleSlot st = Some s" "lk s = Some a"
    "all = pre @ c # d # post" "mj_InnerTupleSlot st = Some d" "mj_inner st = post" "mj_Clauses st = [clause (Some a) r n]"
    "\<not> mj_MatchedOuter st" "fine all (s # mj_outer st)" "left_of (s # mj_outer st) (pre @ [c]) d" and inc: "increasing rk all"
  shows "keeps (around_state node all) (loop node all (s # mj_outer st)) (MJ_skipinner_advance node st)"
proof -
  obtain b where b: "rk d = Some b" using inc assms(5) by auto
  have R: "around_state node all st' (loop node all (s # mj_outer st))"
    if "mj_JoinState st' = SKIP_TEST" "mj_OuterTupleSlot st' = Some s" "mj_outer st' = mj_outer st" "\<not> mj_MatchedOuter st'"
      "mj_InnerCopyTupleSlot st' = Some d" "mj_InnerTupleSlot st' = hd_slot post" "mj_inner st' = tl post"
      "mj_Clauses st' = [clause (Some a) (Some b) n']" "post \<noteq> [] \<longrightarrow> n' = rk (hd post)" for st' n'
    using around_state.skip_test [of st' s a d all "pre @ [c]" post n' node] assms b that by simp
  show ?thesis using assms(1-4,6-9) b
    by (cases post) (auto simp: MJ_skipinner_advance_def fill_inner_none skip_inner_def next_inner_hd slot_tuple_def eval_inner
        eval_next_inner around_node_simps Let_def simp del: nested_loop_simps intro!: R)
qed

lemma keeps_join_tuples:
  assumes "around_node node" "mj_JoinState st = JOINTUPLES" "mj_OuterTupleSlot st = Some s" "mj_InnerCopyTupleSlot st = Some c"
    "all = pre @ c # post" "mj_InnerTupleSlot st = hd_slot post" "mj_inner st = tl post" "marked st c post"
    "mj_Clauses st = [clause l r n]" "fine all (mj_outer st)" "left_of (mj_outer st) pre c"
  shows "keeps (around_state node all) (join_group node s (mj_MatchedOuter st) [c] @ loop node all (mj_outer st)) (MJ_jointuples node st)"
proof (rule keeps_jointuples)
  show "around_state node all (st\<lparr>mj_JoinState := NEXTINNER, mj_MatchedOuter := mo, mj_MatchedInner := mi\<rparr>)
      (join_group node s mo [] @ loop node all (mj_outer st))" for mo mi
    using around_state.next_inner [of "st\<lparr>mj_JoinState := NEXTINNER, mj_MatchedOuter := mo, mj_MatchedInner := mi\<rparr>"
        s c all pre post l r n node] assms by (simp add: marked_def)
qed (use assms around_node_simps [OF assms(1)] in simp_all)

lemma keeps_next_inner:
  assumes "around_node node" "mj_JoinState st = NEXTINNER" "mj_OuterTupleSlot st = Some s" "mj_InnerCopyTupleSlot st = Some c"
    "all = pre @ c # post" "mj_InnerTupleSlot st = hd_slot post" "mj_inner st = tl post" "marked st c post"
    "mj_Clauses st = [clause l r n]" "fine all (mj_outer st)" "left_of (mj_outer st) pre c" and inc: "increasing rk all"
  shows "keeps (around_state node all) (join_group node s (mj_MatchedOuter st) [] @ loop node all (mj_outer st)) (MJ_nextinner node st)"
proof -
  have R: "around_state node all st' (join_group node s (mj_MatchedOuter st) [] @ loop node all (mj_outer st))"
    if "mj_JoinState st' = NEXTOUTER" "mj_OuterTupleSlot st' = Some s" "mj_outer st' = mj_outer st" "mj_MatchedOuter st' = mj_MatchedOuter st"
      "mj_InnerCopyTupleSlot st' = hd_slot post" "mj_InnerTupleSlot st' = hd_slot (tl post)" "mj_inner st' = tl (tl post)"
      "marked st' c post" "post \<noteq> [] \<longrightarrow> mj_PreviousInnerTupleSlot st' = Some c" "mj_Clauses st' = [clause l r' n']" for st' r' n'
    using around_state.next_outer [of st' s post all pre c l r' n' node] assms that by simp
  show ?thesis
  proof (cases post)
    case Nil
    then show ?thesis using assms(1-4,6-9)
      by (auto simp: MJ_nextinner_def fill_inner_none advance_inner_def shift_inner_def around_node_simps marked_def
          simp del: join_group.simps intro!: R)
  next
    case (Cons d ds)
    obtain b e where b: "rk c = Some b" "rk d = Some e" "b < e" using inc assms(5) Cons by auto
    then show ?thesis using assms(1-4,6-9) Cons
      by (auto simp: MJ_nextinner_def fill_inner_none advance_inner_def shift_inner_def slot_tuple_def next_inner_hd eval_inner
          eval_next_inner same_state around_node_simps marked_def Let_def simp del: join_group.simps intro!: R)
  qed
qed

lemma keeps_next_outer:
  assumes "around_node node" "mj_JoinState st = NEXTOUTER" "mj_OuterTupleSlot st = Some s" "mj_InnerCopyTupleSlot st = hd_slot post"
    "all = pre @ c # post" "mj_InnerTupleSlot st = hd_slot (tl post)" "mj_inner st = tl (tl post)" "marked st c post"
    "post \<noteq> [] \<longrightarrow> mj_PreviousInnerTupleSlot st = Some c" "mj_Clauses st = [clause l r n]"
    "fine all (mj_outer st)" "left_of (mj_outer st) pre c"
  shows "keeps (around_state node all) (join_group node s (mj_MatchedOuter st) [] @ loop node all (mj_outer st)) (MJ_nextouter node st)"
  unfolding MJ_nextouter_def
proof (rule keeps_fill_outer [OF around_node_simps(5) [OF assms(1)] assms(3)])
  show "around_state node all (st\<lparr>mj_MatchedOuter := True\<rparr>) (loop node all (mj_outer st))"
    using around_state.next_outer [of "st\<lparr>mj_MatchedOuter := True\<rparr>" s post all pre c l r n node] assms by (simp add: marked_def)
  have "keeps (around_state node all) (loop node all (mj_outer st))
      (advance_outer node TESTOUTER NEXTOUTER (st\<lparr>mj_MatchedOuter := b\<rparr>))" for b
  proof (cases "mj_outer st")
    case Nil
    then show ?thesis using assms(1) by (simp add: advance_outer_def next_outer_def around_node_simps Let_def)
  next
    case (Cons u us)
    let ?st = "st\<lparr>mj_OuterTupleSlot := Some u, mj_outer := us, mj_MatchedOuter := False, mj_Clauses := [clause (lk u) r n]\<rparr>"
    have later: "fine all us" "left_of us pre c" using assms(11,12) Cons fine_mono left_of_mono by auto
    show ?thesis
    proof (cases "lk u")
      case None
      have "around_state node all (?st\<lparr>mj_JoinState := NEXTOUTER\<rparr>) (loop node all (u # us))"
        using around_state.next_outer [of "?st\<lparr>mj_JoinState := NEXTOUTER\<rparr>" u post all pre c "lk u" r n node] assms later None
        by (simp add: marked_def)
      then show ?thesis using assms(1-10) Cons None
        by (simp add: advance_outer_def next_outer_def eval_outer Let_def del: nested_loop_simps)
    next
      case (Some a)
      have "around_state node all (?st\<lparr>mj_JoinState := TESTOUTER\<rparr>) (loop node all (u # us))"
        using around_state.test_outer [of "?st\<lparr>mj_JoinState := TESTOUTER\<rparr>" u a post all pre c r n node] assms Cons Some
        by (simp add: marked_def)
      then show ?thesis using assms(1-10) Cons Some
        by (simp add: advance_outer_def next_outer_def eval_outer Let_def del: nested_loop_simps)
    qed
  qed
  from this [of "mj_MatchedOuter st"] this [of True]
  show "keeps (around_state node all) (loop node all (mj_outer st)) (advance_outer node TESTOUTER NEXTOUTER st)"
    "keeps (around_state node all) (loop node all (mj_outer st))
      (advance_outer node TESTOUTER NEXTOUTER (st\<lparr>mj_MatchedOuter := True\<rparr>))"
    by simp_all
qed

lemma keeps_test_outer:
  assumes "around_node node" "mj_JoinState st = TESTOUTER" "mj_OuterTupleSlot st = Some s" "lk s = Some a"
    "mj_InnerCopyTupleSlot st = hd_slot post" "all = pre @ c # post" "mj_InnerTupleSlot st = hd_slot (tl post)"
    "mj_inner st = tl (tl post)" "marked st c post" "post \<noteq> [] \<longrightarrow> mj_PreviousInnerTupleSlot st = Some c"
    "mj_Clauses st = [clause (Some a) r n]" "\<not> mj_MatchedOuter st" "fine all (s # mj_outer st)"
    "left_of (s # mj_outer st) pre c" and inc: "increasing rk all"
  shows "keeps (around_state node all) (loop node all (s # mj_outer st)) (MJ_testouter node st)"
proof -
  obtain b where b: "rk c = Some b" using inc assms(6) by auto
  have group: "around_state node all st' (loop node all (s # mj_outer st))"
    if "mj_JoinState st' = JOINTUPLES" "mj_OuterTupleSlot st' = Some s" "mj_outer st' = mj_outer st" "\<not> mj_MatchedOuter st'"
      "mj_InnerCopyTupleSlot st' = Some c" "mj_InnerTupleSlot st' = hd_slot post" "mj_inner st' = tl post" "marked st' c post"
      "mj_Clauses st' = [clause (Some a) r' n']" "post \<noteq> [] \<longrightarrow> 2 * a < b + the (rk (hd post))" for st' r' n'
  proof -
    have "filter (closest rk all (Some a)) all = [c]"
      using group_closest [of pre c post s "mj_outer st" a] inc assms(4,6,14) b that(10) by simp
    then show ?thesis
      using around_state.join_tuples [of st' s c all pre post "Some a" r' n' node] assms(4,6,13,14) that fine_mono left_of_mono
      by (simp del: join_group.simps)
  qed
  show ?thesis
  proof (cases post)
    case Nil
    then show ?thesis using assms(1-5,7-12) b
      by (auto simp: MJ_testouter_def test_outer_def restore_outer_def marked_def slot_tuple_def ExecRestrPos_def eval_inner
          around_node_simps simp del: nested_loop_simps intro!: group)
  next
    case (Cons d ds)
    obtain e where e: "rk d = Some e" "b < e" using inc assms(6) Cons b by auto
    have fit: "fit a b" "fit a e" using fit_tuples [OF assms(13,4)] b e assms(6) Cons by auto
    show ?thesis
    proof (cases "2 * a < b + e")
      case True
      then show ?thesis using assms(1-5,7-12) b e Cons fit
        by (auto simp: MJ_testouter_def test_outer_def restore_outer_def marked_def slot_tuple_def ExecRestrPos_def eval_inner
            eval_next_inner copy_to_inner_def compare_state around_node_simps simp del: nested_loop_simps intro!: group)
    next
      case False
      have left: "left_of (s # mj_outer st) (pre @ [c]) d"
        by (rule left_of_advance [where post = ds and a = a]) (use inc assms False b e Cons in \<open>auto simp: fine_def\<close>)
      have R: "around_state node all st' (loop node all (s # mj_outer st))"
        if "mj_JoinState st' = SKIP_TEST" "mj_OuterTupleSlot st' = Some s" "mj_outer st' = mj_outer st" "\<not> mj_MatchedOuter st'"
          "mj_InnerCopyTupleSlot st' = Some d" "mj_InnerTupleSlot st' = hd_slot ds" "mj_inner st' = tl ds"
          "mj_Clauses st' = [clause (Some a) (Some e) n']" "ds \<noteq> [] \<longrightarrow> n' = rk (hd ds)" for st' n'
        using around_state.skip_test [of st' s a d all "pre @ [c]" ds n' node] assms(4,6,13) left e Cons that by simp
      show ?thesis using assms(1-5,7-12) b e Cons fit False
        by (cases ds) (auto simp: MJ_testouter_def test_outer_def leave_marked_def eval_inner eval_next_inner compare_state
            around_node_simps simp del: nested_loop_simps intro!: R)
    qed
  qed
qed

lemma keeps_end_inner:
  assumes "around_node node" "mj_JoinState st = ENDINNER" "mj_FillOuter node" "all = []" "mj_OuterTupleSlot st = Some s"
  shows "keeps (around_state node all) (join_group node s (mj_MatchedOuter st) [] @ loop node all (mj_outer st)) (MJ_endinner node st)"
proof (rule keeps_endinner)
  show "around_state node all (st\<lparr>mj_MatchedOuter := True\<rparr>) (loop node all (mj_outer st))"
    using around_state.end_inner [of "st\<lparr>mj_MatchedOuter := True\<rparr>" node all s] assms by simp
  show "keeps (around_state node all) (loop node all (mj_outer st))
      (let st = (next_outer (st\<lparr>mj_MatchedOuter := b\<rparr>))\<lparr>mj_MatchedOuter := False\<rparr> in
       if mj_OuterTupleSlot st = None then return_null st else go ENDINNER st)" for b
  proof (cases "mj_outer st")
    case (Cons u us)
    let ?st = "st\<lparr>mj_OuterTupleSlot := Some u, mj_outer := us, mj_MatchedOuter := False, mj_JoinState := ENDINNER\<rparr>"
    have "around_state node all ?st (loop node all (u # us))" using around_state.end_inner [of ?st node all u] assms by simp
    then show ?thesis using Cons by (simp add: next_outer_def Let_def del: nested_loop_simps)
  qed (simp add: next_outer_def Let_def)
qed (use assms around_node_simps [OF assms(1)] in simp_all)

lemma join_around_step:
  assumes "around_node node" "increasing rk all" "around_state node all st rows"
  shows "keeps (around_state node all) rows (MJ_step node st)"
  using assms(3)
proof cases
  case init_outer
  show ?thesis unfolding MJ_step_state(1) [OF init_outer(2)] init_outer(1) by (rule keeps_init_outer [OF assms(1)]) (fact init_outer)+
next
  case init_inner
  show ?thesis unfolding MJ_step_state(2) [OF init_inner(2)] init_inner(1) by (rule keeps_init_inner [OF assms(1)]) (fact init_inner assms)+
next
  case skip_test
  show ?thesis unfolding MJ_step_state(7) [OF skip_test(2)] skip_test(1) by (rule keeps_skip_test [OF assms(1)]) (fact skip_test assms)+
next
  case skip_inner
  show ?thesis unfolding MJ_step_state(9) [OF skip_inner(2)] skip_inner(1) by (rule keeps_skip_inner [OF assms(1)]) (fact skip_inner assms)+
next
  case join_tuples
  show ?thesis unfolding MJ_step_state(3) [OF join_tuples(2)] join_tuples(1) by (rule keeps_join_tuples [OF assms(1)]) (fact join_tuples)+
next
  case next_inner
  show ?thesis unfolding MJ_step_state(4) [OF next_inner(2)] next_inner(1) by (rule keeps_next_inner [OF assms(1)]) (fact next_inner assms)+
next
  case next_outer
  show ?thesis unfolding MJ_step_state(5) [OF next_outer(2)] next_outer(1) by (rule keeps_next_outer [OF assms(1)]) (fact next_outer)+
next
  case test_outer
  show ?thesis unfolding MJ_step_state(6) [OF test_outer(2)] test_outer(1) by (rule keeps_test_outer [OF assms(1)]) (fact test_outer assms)+
next
  case end_inner
  show ?thesis unfolding MJ_step_state(11) [OF end_inner(2)] end_inner(1) by (rule keeps_end_inner [OF assms(1)]) (fact end_inner)+
qed

lemma rescan_rows:
  assumes "around_node node" "mj_Clauses st = [clause l r n]" "sorted_by lk outer" "increasing rk inner" "computable fit lk rk outer inner"
  shows "mj_rows node (ExecReScanMergeJoin outer inner st) = Inr (nested_loop node (\<lambda>s t. closest rk inner (lk s) t) outer inner)"
proof (rule mj_rows_simulation [OF join_around_step [OF assms(1,4)]])
  show "around_state node inner (ExecReScanMergeJoin outer inner st) (loop node inner outer)"
    using around_state.init_outer [of "ExecReScanMergeJoin outer inner st" l r n inner node] assms
    by (simp add: ExecReScanMergeJoin_def fine_def)
qed

end

section \<open>The joins of the program\<close>

interpretation around_join: around_clause "int4_clause MERGEFUNC_LT lk rk" lk rk subtractable
  for lk rk :: "slot \<Rightarrow> int option"
  by unfold_locales
     (auto simp: compare_values_def compare_around_def call2_strict_def subtractable_def int4mi_exact DatumGetBool_def Let_def)

lemma around_run:
  assumes "mj_SimjoinType node = 2" "\<not> mj_FillInner node" "\<not> null_at_end node" "total_qual (joinqual node)" "total_qual (otherqual node)"
    "mj_Clauses st = [int4_clause MERGEFUNC_LT lk rk l r n]" "sorted_by lk outer" "increasing rk inner"
    "computable subtractable lk rk outer inner"
  shows "mj_rows node (ExecReScanMergeJoin outer inner st) = Inr (nested_loop node (\<lambda>s t. closest rk inner (lk s) t) outer inner)"
proof (rule around_join.rescan_rows)
  show "around_join.around_node node" using assms by (simp add: around_join.around_node_def)
qed (use assms in auto)

text \<open>C9. An \<open>AROUND\<close> join returns for every outer tuple exactly the row with the closest inner tuple (of two equally
  close ones the larger), in the order of the outer tuples; an outer join fills tuples with a NULL. The inner
  values must be different and not NULL, no subtraction may overflow, and the inner plan must not return a NULL
  slot at its end (\<open>around_join_null_slot\<close>).\<close>

theorem around_join_rows:
  assumes "mj_SimjoinType node = 2" "\<not> mj_FillInner node" "\<not> null_at_end node" "total_qual (joinqual node)" "total_qual (otherqual node)"
    "mj_Clauses st = [int4_clause MERGEFUNC_LT lk rk l r n]" "sorted_by lk outer" "increasing rk inner"
    "computable subtractable lk rk outer inner"
  shows "\<exists>y. calls (call_join node) (ExecReScanMergeJoin outer inner st)
    (nested_loop node (\<lambda>s t. closest rk inner (lk s) t) outer inner) y"
  by (rule mj_rows_called, rule around_run) (use assms in auto)

lemma around_join_rows_witness:
  "\<exists>y. calls (call_join (inner_join 2 0)) (ExecReScanMergeJoin [[Some 1], [Some 5], [Some 6], [None]] [[Some 0], [Some 10], [Some 20]] demo_join)
    [(Some [Some 1], Some [Some 0]), (Some [Some 5], Some [Some 10]), (Some [Some 6], Some [Some 10])] y"
  using around_join_rows [of "inner_join 2 0" demo_join first_column first_column None None None
      "[[Some 1], [Some 5], [Some 6], [None]]" "[[Some 0], [Some 10], [Some 20]]"]
  by (simp add: holds_def ExecQual_def computable_def subtractable_def int32_def closest_def del: calls_Cons)

section \<open>Where it fails\<close>

lemmas around_run_defs = mj_run skip_test_around_def back_to_first_def copy_to_inner_def same_inner_clauses.simps
  MJCompare_InnerAndNextInner_def compare_around_def call2_strict_def int4mi_exact DatumGetBool_def

text \<open>C38. After a run of equal inner tuples the test whether they are the closest is negated: the outer tuple is
  joined with the run when the next inner tuple is closer, and with the next one when the run is.\<close>

theorem around_join_duplicates:
  assumes "mj_SimjoinType node = 2" "jointype node = JOIN_INNER" "\<not> mj_FillInner node" "\<not> mj_FillOuter node" "\<not> null_at_end node"
    "joinqual node = None" "otherqual node = None" "mj_Clauses st = [int4_clause MERGEFUNC_LT lk rk l r n]"
    "lk s = Some a" "rk t1 = Some b" "rk t2 = Some b" "rk u = Some c" "b < a" "a \<le> c" "subtractable a b" "subtractable a c"
  shows "mj_rows node (ExecReScanMergeJoin [s] [t1, t2, u] st) =
    Inr (if a - b < c - a then [(Some s, Some u)] else [(Some s, Some t1), (Some s, Some t2)])"
  using assms by (simp add: around_run_defs subtractable_def)

lemma around_join_duplicates_witness:
  "mj_rows (inner_join 2 0) (ExecReScanMergeJoin [[Some 1]] [[Some 0], [Some 0], [Some 10]] demo_join) =
    Inr (if (1::int) - 0 < 10 - 1 then [(Some [Some 1], Some [Some 10])] else [(Some [Some 1], Some [Some 0]), (Some [Some 1], Some [Some 0])])"
  by (rule around_join_duplicates [where lk = first_column and rk = first_column and l = None and r = None and n = None])
     (simp_all add: subtractable_def int32_def)

text \<open>A NULL after the last inner value counts as the value 0: a positive outer value is joined with the tuple of
  the NULL.\<close>

lemma around_join_null:
  assumes "mj_SimjoinType node = 2" "jointype node = JOIN_INNER" "\<not> mj_FillInner node" "\<not> mj_FillOuter node"
    "joinqual node = None" "otherqual node = None" "mj_Clauses st = [int4_clause MERGEFUNC_LT lk rk l r n]"
    "lk s = Some a" "rk t = Some b" "rk u = None" "b < a" "0 < a"
  shows "mj_rows node (ExecReScanMergeJoin [s] [t, u] st) = Inr [(Some s, Some u)]"
  using assms by (simp add: around_run_defs)

text \<open>When the inner plan returns NULL at its end (\<open>Material\<close>), two outer tuples with the same closest tuple,
  the last but one, crash the node: the marked tuple is copied through the NULL.\<close>

theorem around_join_null_slot:
  assumes "mj_SimjoinType node = 2" "jointype node = JOIN_INNER" "\<not> mj_FillInner node" "\<not> mj_FillOuter node" "null_at_end node"
    "joinqual node = None" "otherqual node = None" "mj_Clauses st = [int4_clause MERGEFUNC_LT lk rk l r n]"
    "lk s1 = Some a1" "lk s2 = Some a2" "rk t = Some b" "rk u = Some c" "b < c" "2 * a1 < b + c" "2 * a2 < b + c"
    "subtractable a1 b" "subtractable a1 c" "subtractable a2 b" "subtractable a2 c"
  shows "mj_rows node (ExecReScanMergeJoin [s1, s2] [t, u] st) = Inl Undefined_read"
  using assms by (simp add: around_run_defs subtractable_def)

lemma around_join_null_slot_witness:
  "mj_rows ((inner_join 2 0)\<lparr>null_at_end := True\<rparr>) (ExecReScanMergeJoin [[Some 1], [Some 2]] [[Some 0], [Some 10]] demo_join) =
    Inl Undefined_read"
  by (rule around_join_null_slot [where ?a1.0 = 1 and ?a2.0 = 2 and b = 0 and c = 10 and lk = first_column and rk = first_column
      and l = None and r = None and n = None]) (simp_all add: subtractable_def int32_def)

end
