(* ===== verification/MergeJoinInit.thy ===== *)
theory MergeJoinInit
  imports JoinAround
begin

text \<open>
  The set-up of a merge join, \<open>ExecInitMergeJoin\<close> (\<^verbatim>\<open>executor/nodeMergejoin.c\<close>): the clauses are built from the
  merge conditions with the operators that the catalogs give for them (\<open>MJExamineQuals\<close>,
  \<open>MJExamineQuals_AddsMinus\<close>, \<^verbatim>\<open>utils/cache/lsyscache.c\<close>). The catalogs are a parameter, and so are the
  expressions of a condition, as functions of the tuple.
\<close>

section \<open>Catalogs\<close>

record OpExpr =
  is_OpExpr :: bool
  opno :: nat
  opfuncid :: nat
  left_arg :: "slot \<Rightarrow> pg_error + int option"
  right_arg :: "slot \<Rightarrow> pg_error + int option"

record Form_pg_operator =
  oprleft :: nat
  oprright :: nat
  oprltcmpop :: nat
  oprgtcmpop :: nat
  oprcom :: nat

record Form_pg_amop =
  amopclaid :: nat
  amopsubtype :: nat
  amopstrategy :: nat

text \<open>What the catalogs answer: the row and the function of an operator (0 is an invalid oid), the operator of
  \<open>pg_catalog\<close> with a name and argument types, the operator classes an operator is in, their strategies and
  support functions, whether the user may call a function, and the function itself.\<close>

record operator_catalog =
  pg_operator :: "nat \<Rightarrow> Form_pg_operator option"
  get_opcode :: "nat \<Rightarrow> nat"
  operator_named :: "string \<Rightarrow> nat \<Rightarrow> nat \<Rightarrow> nat option"
  pg_amop :: "nat \<Rightarrow> Form_pg_amop list"
  opclass_is_btree :: "nat \<Rightarrow> bool"
  get_op_opclass_strategy :: "nat \<Rightarrow> nat \<Rightarrow> nat"
  get_opclass_proc :: "nat \<Rightarrow> nat \<Rightarrow> nat \<Rightarrow> nat"
  may_execute :: "nat \<Rightarrow> bool"
  function_info :: "nat \<Rightarrow> int FmgrInfo"

definition check_execute :: "operator_catalog \<Rightarrow> nat \<Rightarrow> pg_error + unit" where
  "check_execute cat f = (if may_execute cat f then Inr () else Inl Permission_denied)"

section \<open>Merge clauses\<close>

text \<open>The result: the operators \<open><\<close> and \<open>></\<close>, their functions, and the argument types.\<close>

definition op_mergejoin_crossops_SJ :: "operator_catalog \<Rightarrow> nat \<Rightarrow> pg_error + nat \<times> nat \<times> nat \<times> nat \<times> nat \<times> nat" where
  "op_mergejoin_crossops_SJ cat op =
     (case pg_operator cat op of
        None \<Rightarrow> Inl Cache_lookup_failed
      | Some t \<Rightarrow>
          if oprltcmpop t = 0 then Inl Internal_error
          else if oprgtcmpop t = 0 then Inl Internal_error
          else Inr (oprltcmpop t, oprgtcmpop t, get_opcode cat (oprltcmpop t), get_opcode cat (oprgtcmpop t),
                 oprleft t, oprright t))"

definition op_mergejoin_crossops :: "operator_catalog \<Rightarrow> nat \<Rightarrow> pg_error + nat \<times> nat \<times> nat \<times> nat" where
  "op_mergejoin_crossops cat op =
     (case pg_operator cat op of
        None \<Rightarrow> Inl Cache_lookup_failed
      | Some t \<Rightarrow>
          if oprltcmpop t = 0 then Inl Internal_error
          else if oprgtcmpop t = 0 then Inl Internal_error
          else Inr (oprltcmpop t, oprgtcmpop t, get_opcode cat (oprltcmpop t), get_opcode cat (oprgtcmpop t)))"

text \<open>The comparison function of the first b-tree class that has all three operators.\<close>

fun btree_compare_proc :: "operator_catalog \<Rightarrow> nat \<Rightarrow> nat \<Rightarrow> Form_pg_amop list \<Rightarrow> nat option" where
  "btree_compare_proc cat ltop gtop [] = None"
| "btree_compare_proc cat ltop gtop (a # as) =
     (if amopstrategy a \<noteq> 3 then btree_compare_proc cat ltop gtop as
      else if \<not> opclass_is_btree cat (amopclaid a) then btree_compare_proc cat ltop gtop as
      else if get_op_opclass_strategy cat ltop (amopclaid a) = 1 \<and> get_op_opclass_strategy cat gtop (amopclaid a) = 5
      then Some (get_opclass_proc cat (amopclaid a) (amopsubtype a) 1)
      else btree_compare_proc cat ltop gtop as)"

text \<open>\<open>palloc0\<close> zeroes a clause: its datums are 0 and not NULL, its functions have no address.\<close>

definition new_clause :: "OpExpr \<Rightarrow> MergeJoinClause" where
  "new_clause q = \<lparr>lexpr = left_arg q, rexpr = right_arg q, ldatum = Some 0, rdatum = Some 0, mergestrict = False,
     cmpstrategy = MERGEFUNC_LT, eqfinfo = null_finfo, cmpfinfo = null_finfo, minusfinfo = null_finfo, rnextdatum = Some 0\<rparr>"

definition examine_qual :: "operator_catalog \<Rightarrow> OpExpr \<Rightarrow> pg_error + MergeJoinClause" where
  "examine_qual cat q =
     (if \<not> is_OpExpr q then Inl Internal_error
      else bindE (check_execute cat (opfuncid q)) (\<lambda>_.
        let eq = function_info cat (opfuncid q) in
        bindE (op_mergejoin_crossops cat (opno q)) (\<lambda>(ltop, gtop, ltproc, gtproc).
        case (case btree_compare_proc cat ltop gtop (pg_amop cat (opno q)) of
                None \<Rightarrow> (MERGEFUNC_LT, ltproc) | Some p \<Rightarrow> (MERGEFUNC_CMP, p)) of (strategy, proc) \<Rightarrow>
        bindE (check_execute cat proc) (\<lambda>_.
        Inr ((new_clause q)\<lparr>eqfinfo := eq, mergestrict := fn_strict eq, cmpstrategy := strategy,
               cmpfinfo := function_info cat proc\<rparr>)))))"

definition MJExamineQuals :: "operator_catalog \<Rightarrow> OpExpr list \<Rightarrow> pg_error + MergeJoinClause list" where
  "MJExamineQuals cat = mapE (examine_qual cat)"

definition examine_qual_minus :: "operator_catalog \<Rightarrow> OpExpr \<Rightarrow> pg_error + MergeJoinClause" where
  "examine_qual_minus cat q =
     (if \<not> is_OpExpr q then Inl Internal_error
      else bindE (check_execute cat (opfuncid q)) (\<lambda>_.
        let eq = function_info cat (opfuncid q) in
        bindE (op_mergejoin_crossops_SJ cat (opno q)) (\<lambda>(ltop, gtop, ltproc, gtproc, loptype, roptype).
        case operator_named cat ''-'' loptype roptype of
          None \<Rightarrow> Inl Internal_error
        | Some minus_opr \<Rightarrow>
            let minusproc = get_opcode cat minus_opr in
            bindE (check_execute cat minusproc) (\<lambda>_.
            bindE (check_execute cat ltproc) (\<lambda>_.
            Inr ((new_clause q)\<lparr>eqfinfo := eq, mergestrict := fn_strict eq, cmpstrategy := MERGEFUNC_LT,
                   minusfinfo := function_info cat minusproc, cmpfinfo := function_info cat ltproc\<rparr>))))))"

definition MJExamineQuals_AddsMinus :: "operator_catalog \<Rightarrow> OpExpr list \<Rightarrow> pg_error + MergeJoinClause list" where
  "MJExamineQuals_AddsMinus cat = mapE (examine_qual_minus cat)"

section \<open>\<open>ExecInitMergeJoin\<close>\<close>

text \<open>The plan node. Its qualifications are already executable here; \<open>NIL\<close> is \<open>None\<close>.\<close>

record MergeJoinPlan =
  plan_jointype :: JoinType
  plan_joinqual :: join_qual
  plan_qual :: join_qual
  mergeclauses :: "OpExpr list"
  SJ_Type :: int
  plan_epsilon :: int
  max_diameter :: int

definition fill_flags :: "MergeJoinPlan \<Rightarrow> pg_error + bool \<times> bool" where
  "fill_flags plan =
     (case plan_jointype plan of
        JOIN_INNER \<Rightarrow> Inr (False, False)
      | JOIN_IN \<Rightarrow> Inr (False, False)
      | JOIN_LEFT \<Rightarrow> Inr (True, False)
      | JOIN_RIGHT \<Rightarrow> if plan_joinqual plan \<noteq> None then Inl Feature_not_supported else Inr (False, True)
      | JOIN_FULL \<Rightarrow> if plan_joinqual plan \<noteq> None then Inl Feature_not_supported else Inr (True, True)
      | _ \<Rightarrow> Inl Internal_error)"

text \<open>For another \<open>SJ_Type\<close> no clauses are built: the pointer to them stays NULL, and the first evaluation reads
  through it.\<close>

definition examine_clauses :: "operator_catalog \<Rightarrow> MergeJoinPlan \<Rightarrow> pg_error + MergeJoinClause list" where
  "examine_clauses cat plan =
     (if SJ_Type plan = 0 then MJExamineQuals cat (mergeclauses plan)
      else if SJ_Type plan = 1 \<or> SJ_Type plan = 2 then MJExamineQuals_AddsMinus cat (mergeclauses plan)
      else Inr (map (\<lambda>q. (new_clause q)\<lparr>lexpr := \<lambda>_. Inl Undefined_read, rexpr := \<lambda>_. Inl Undefined_read\<rparr>) (mergeclauses plan)))"

definition ExecInitMergeJoin :: "operator_catalog \<Rightarrow> bool \<Rightarrow> slot list \<Rightarrow> slot list \<Rightarrow> MergeJoinPlan \<Rightarrow>
    pg_error + MergeJoinNode \<times> MergeJoinState" where
  "ExecInitMergeJoin cat null_end outer inner plan =
     bindE (fill_flags plan) (\<lambda>(fillouter, fillinner).
     bindE (examine_clauses cat plan) (\<lambda>cs.
     Inr (\<lparr>jointype = plan_jointype plan, mj_SimjoinType = SJ_Type plan, epsilon = plan_epsilon plan,
            mj_FillOuter = fillouter, mj_FillInner = fillinner, joinqual = plan_joinqual plan, otherqual = plan_qual plan,
            null_at_end = null_end\<rparr>,
          \<lparr>mj_Clauses = cs, mj_JoinState = INITIALIZE_OUTER, mj_MatchedOuter = False, mj_MatchedInner = False,
            mj_OuterTupleSlot = None, mj_InnerTupleSlot = None, mj_MarkedTupleSlot = None, mj_PreviousInnerTupleSlot = None,
            mj_InnerCopyTupleSlot = None, mj_FirstMarkedSlot = None, mj_outer = outer, mj_inner = inner, mj_mark = []\<rparr>)))"

text \<open>The node starts like after a rescan.\<close>

lemma ExecInitMergeJoin_start:
  assumes "ExecInitMergeJoin cat null_end outer inner plan = Inr (node, st)"
  shows "ExecReScanMergeJoin outer inner st = st"
  using assms by (auto simp: ExecInitMergeJoin_def ExecReScanMergeJoin_def bindE_Inr_iff)

section \<open>\<open>int4\<close>\<close>

text \<open>What the initial catalogs (\<^verbatim>\<open>catalog/pg_operator.h\<close>, \<^verbatim>\<open>pg_proc.h\<close>, \<^verbatim>\<open>pg_amop.h\<close>, \<^verbatim>\<open>pg_amproc.h\<close>) say of the
  equality of \<open>int4\<close>, operator 96.\<close>

definition int4_catalog :: "operator_catalog \<Rightarrow> bool" where
  "int4_catalog cat \<longleftrightarrow>
     pg_operator cat 96 = Some \<lparr>oprleft = 23, oprright = 23, oprltcmpop = 97, oprgtcmpop = 521, oprcom = 96\<rparr> \<and>
     get_opcode cat 96 = 65 \<and> get_opcode cat 97 = 66 \<and> get_opcode cat 521 = 147 \<and> get_opcode cat 555 = 181 \<and> operator_named cat ''-'' 23 23 = Some 555 \<and>
     pg_amop cat 96 = [\<lparr>amopclaid = 1978, amopsubtype = 0, amopstrategy = 3\<rparr>] \<and> opclass_is_btree cat 1978 \<and>
     get_op_opclass_strategy cat 97 1978 = 1 \<and> get_op_opclass_strategy cat 521 1978 = 5 \<and> get_opclass_proc cat 1978 0 1 = 351 \<and>
     (\<forall>f\<in>{65, 66, 181, 351}. may_execute cat f) \<and>
     function_info cat 65 = int4_fmgr (\<lambda>a b. bool_datum (int4eq a b)) \<and>
     function_info cat 66 = int4_fmgr (\<lambda>a b. bool_datum (int4lt a b)) \<and>
     function_info cat 181 = int4_fmgr (\<lambda>a b. case int4mi a b of None \<Rightarrow> Inl Numeric_value_out_of_range | Some d \<Rightarrow> Inr d) \<and>
     function_info cat 351 = int4_fmgr (\<lambda>a b. Inr (btint4cmp a b))"

definition int4_equal :: "(slot \<Rightarrow> int option) \<Rightarrow> (slot \<Rightarrow> int option) \<Rightarrow> OpExpr" where
  "int4_equal lk rk = \<lparr>is_OpExpr = True, opno = 96, opfuncid = 65, left_arg = \<lambda>s. Inr (lk s), right_arg = \<lambda>s. Inr (rk s)\<rparr>"

lemma MJExamineQuals_int4:
  assumes "int4_catalog cat"
  shows "MJExamineQuals cat [int4_equal lk rk] = Inr [int4_clause MERGEFUNC_CMP lk rk (Some 0) (Some 0) (Some 0)]"
  using assms
  by (simp add: MJExamineQuals_def examine_qual_def int4_equal_def check_execute_def op_mergejoin_crossops_def new_clause_def
      int4_catalog_def int4_clause_def) (simp add: int4_fmgr_def)

lemma MJExamineQuals_AddsMinus_int4:
  assumes "int4_catalog cat"
  shows "MJExamineQuals_AddsMinus cat [int4_equal lk rk] = Inr [int4_clause MERGEFUNC_LT lk rk (Some 0) (Some 0) (Some 0)]"
  using assms
  by (simp add: MJExamineQuals_AddsMinus_def examine_qual_minus_def int4_equal_def check_execute_def op_mergejoin_crossops_SJ_def
      new_clause_def int4_catalog_def int4_clause_def) (simp add: int4_fmgr_def)

text \<open>The catalogs, as far as the join needs them.\<close>

definition initial_catalog :: operator_catalog where
  "initial_catalog = \<lparr>
     pg_operator = (\<lambda>op. if op = 96 then Some \<lparr>oprleft = 23, oprright = 23, oprltcmpop = 97, oprgtcmpop = 521, oprcom = 96\<rparr> else None),
     get_opcode = (\<lambda>op. if op = 96 then 65 else if op = 97 then 66 else if op = 521 then 147 else if op = 555 then 181 else 0),
     operator_named = (\<lambda>name l r. if name = ''-'' \<and> l = 23 \<and> r = 23 then Some 555 else None),
     pg_amop = (\<lambda>op. if op = 96 then [\<lparr>amopclaid = 1978, amopsubtype = 0, amopstrategy = 3\<rparr>] else []),
     opclass_is_btree = (\<lambda>c. c = 1978),
     get_op_opclass_strategy = (\<lambda>op c. if op = 97 then 1 else if op = 521 then 5 else 0),
     get_opclass_proc = (\<lambda>c t n. 351), may_execute = (\<lambda>_. True),
     function_info = (\<lambda>f. if f = 65 then int4_fmgr (\<lambda>a b. bool_datum (int4eq a b))
       else if f = 66 then int4_fmgr (\<lambda>a b. bool_datum (int4lt a b))
       else if f = 181 then int4_fmgr (\<lambda>a b. case int4mi a b of None \<Rightarrow> Inl Numeric_value_out_of_range | Some d \<Rightarrow> Inr d)
       else int4_fmgr (\<lambda>a b. Inr (btint4cmp a b)))\<rparr>"

lemma int4_initial_catalog: "int4_catalog initial_catalog"
  by (simp add: int4_catalog_def initial_catalog_def)

text \<open>A type without a subtraction has no similarity join.\<close>

lemma examine_qual_minus_missing:
  assumes "is_OpExpr q" "may_execute cat (opfuncid q)" "pg_operator cat (opno q) = Some t" "oprltcmpop t \<noteq> 0" "oprgtcmpop t \<noteq> 0"
    "operator_named cat ''-'' (oprleft t) (oprright t) = None"
  shows "examine_qual_minus cat q = Inl Internal_error"
  using assms by (simp add: examine_qual_minus_def check_execute_def op_mergejoin_crossops_SJ_def)

end
