(* ===== verification/NodeText.thy ===== *)
theory NodeText
  imports SGBPlanner
begin

text \<open>
  The text form of nodes, in which views and rules are stored: \<^verbatim>\<open>nodes/outfuncs.c\<close> writes it,
  \<^verbatim>\<open>nodes/read.c\<close> (\<open>pg_strtok\<close>, \<open>nodeRead\<close>) and \<^verbatim>\<open>nodes/readfuncs.c\<close> read it. A node is a structure
  with a label and the values of its fields, a list, or a value; the fields of the node types are
  tables. A C string is a \<open>string\<close> without the terminating zero.
\<close>

section \<open>Characters and numbers\<close>

definition is_blank :: "char \<Rightarrow> bool" where
  "is_blank c \<longleftrightarrow> c \<in> {CHR '' '', CHR 0x0A, CHR 0x09}"

definition is_special :: "char \<Rightarrow> bool" where
  "is_special c \<longleftrightarrow> c \<in> {CHR ''('', CHR '')'', CHR ''{'', CHR ''}''}"

abbreviation backslash :: char where "backslash \<equiv> CHR 0x5C"

definition is_digit :: "char \<Rightarrow> bool" where
  "is_digit c \<longleftrightarrow> of_char c \<in> {48..57::nat}"

definition digit_value :: "char \<Rightarrow> nat" where
  "digit_value c = of_char c - 48"

definition digit :: "nat \<Rightarrow> char" where
  "digit d = char_of (48 + d)"

text \<open>\<open>%u\<close> and \<open>%d\<close>.\<close>

fun show_nat :: "nat \<Rightarrow> string" where
  "show_nat n = (if n < 10 then [digit n] else show_nat (n div 10) @ [digit (n mod 10)])"

declare show_nat.simps [simp del]

definition show_int :: "int \<Rightarrow> string" where
  "show_int i = (if i < 0 then CHR ''-'' # show_nat (nat (- i)) else show_nat (nat i))"

text \<open>\<open>strtol\<close> and \<open>strtoul\<close> with base 10 on a token: the value, saturated to 64 bits, and what is
  left. Without a digit nothing is consumed.\<close>

definition is_space :: "char \<Rightarrow> bool" where
  "is_space c \<longleftrightarrow> of_char c \<in> {32, 9, 10, 11, 12, 13::nat}"

fun read_digits :: "nat \<Rightarrow> string \<Rightarrow> nat \<times> string" where
  "read_digits n [] = (n, [])"
| "read_digits n (c # cs) = (if is_digit c then read_digits (10 * n + digit_value c) cs else (n, c # cs))"

definition read_sign :: "string \<Rightarrow> bool \<times> string" where
  "read_sign s =
     (case s of [] \<Rightarrow> (False, [])
      | c # cs \<Rightarrow> if c = CHR ''-'' then (True, cs) else if c = CHR ''+'' then (False, cs) else (False, s))"

definition read_number :: "(bool \<Rightarrow> nat \<Rightarrow> int) \<Rightarrow> string \<Rightarrow> int \<times> string" where
  "read_number value tok =
     (case read_sign (dropWhile is_space tok) of
        (neg, []) \<Rightarrow> (0, tok)
      | (neg, d # ds) \<Rightarrow> if is_digit d then (case read_digits 0 (d # ds) of (n, r) \<Rightarrow> (value neg n, r)) else (0, tok))"

definition strtol :: "string \<Rightarrow> int \<times> string" where
  "strtol = read_number (\<lambda>neg n. max (-9223372036854775808) (min 9223372036854775807 (if neg then - int n else int n)))"

definition strtoul :: "string \<Rightarrow> int \<times> string" where
  "strtoul = read_number (\<lambda>neg n. if n > 18446744073709551615 then 18446744073709551615
                                 else (if neg then - int n else int n) mod 18446744073709551616)"

definition atoi :: "string \<Rightarrow> int" where
  "atoi tok = i32 (fst (strtol tok))"

text \<open>Also \<open>atooid\<close>.\<close>

definition atoui :: "string \<Rightarrow> nat" where
  "atoui tok = nat (fst (strtoul tok) mod 4294967296)"

section \<open>Tokens\<close>

fun normal_token :: "string \<Rightarrow> string \<times> string" where
  "normal_token [] = ([], [])"
| "normal_token (c # cs) =
     (if is_blank c \<or> is_special c then ([], c # cs)
      else if c = backslash then
        (case cs of [] \<Rightarrow> ([c], []) | d # ds \<Rightarrow> (case normal_token ds of (t, r) \<Rightarrow> (c # d # t, r)))
      else (case normal_token cs of (t, r) \<Rightarrow> (c # t, r)))"

text \<open>The token \<open><>\<close> has length 0.\<close>

definition pg_strtok :: "string \<Rightarrow> (string \<times> string) option" where
  "pg_strtok s =
     (case dropWhile is_blank s of
        [] \<Rightarrow> None
      | c # cs \<Rightarrow>
          if is_special c then Some ([c], cs)
          else (case normal_token (c # cs) of (t, r) \<Rightarrow> Some (if t = ''<>'' then [] else t, r)))"

fun debackslash :: "string \<Rightarrow> string" where
  "debackslash [] = []"
| "debackslash [c] = [c]"
| "debackslash (c # d # cs) = (if c = backslash then d # debackslash cs else c # debackslash (d # cs))"

definition protect :: "string \<Rightarrow> string" where
  "protect s = concat (map (\<lambda>c. if is_blank c \<or> is_special c \<or> c = backslash then [backslash, c] else [c]) s)"

definition quoted_start :: "string \<Rightarrow> bool" where
  "quoted_start s =
     (case s of [] \<Rightarrow> False
      | c # cs \<Rightarrow> c = CHR ''<'' \<or> c = CHR 0x22 \<or> is_digit c \<or>
          ((c = CHR ''+'' \<or> c = CHR ''-'') \<and> (case cs of [] \<Rightarrow> False | d # _ \<Rightarrow> is_digit d \<or> d = CHR ''.'')))"

definition outToken :: "string \<Rightarrow> string" where
  "outToken s = (if s = [] then ''<>'' else if quoted_start s then backslash # protect s else protect s)"

datatype token_type = T_Integer | T_Float | T_String | T_BitString | RIGHT_PAREN | LEFT_PAREN | LEFT_BRACE | OTHER_TOKEN

definition nodeTokenType :: "string \<Rightarrow> token_type" where
  "nodeTokenType tok =
     (let num = (case tok of c # cs \<Rightarrow> if c = CHR ''+'' \<or> c = CHR ''-'' then cs else tok | [] \<Rightarrow> []) in
      if (case num of [] \<Rightarrow> False | [c] \<Rightarrow> is_digit c | c # d # _ \<Rightarrow> is_digit c \<or> (c = CHR ''.'' \<and> is_digit d))
      then (case strtol tok of (v, r) \<Rightarrow> if r \<noteq> [] \<or> \<not> int32 v then T_Float else T_Integer)
      else case tok of
        [] \<Rightarrow> OTHER_TOKEN
      | c # cs \<Rightarrow>
          if c = CHR ''('' then LEFT_PAREN else if c = CHR '')'' then RIGHT_PAREN else if c = CHR ''{'' then LEFT_BRACE
          else if c = CHR 0x22 \<and> cs \<noteq> [] \<and> last tok = CHR 0x22 then T_String
          else if c = CHR ''b'' then T_BitString else OTHER_TOKEN)"

section \<open>Nodes\<close>

datatype node =
    NullNode
  | Integer int
  | Float string
  | String string
  | BitString string
  | NodeList "node list"
  | IntList "int list"
  | OidList "nat list"
  | Struct string "field list"
and field = IntF int | UintF nat | BoolF bool | StringF "string option" | NodeF node

datatype kind = IntK | UintK | BoolK | StringK | NodeK

text \<open>\<open>_outNode\<close>, \<open>_outList\<close>, \<open>_outValue\<close> and the \<open>WRITE_\<close> macros. \<open>names\<close> are the fields that the
  routine of a label writes, in its order.\<close>

fun outNode :: "(string \<Rightarrow> string list) \<Rightarrow> node \<Rightarrow> string"
  and outNodes :: "(string \<Rightarrow> string list) \<Rightarrow> node list \<Rightarrow> string"
  and outFields :: "(string \<Rightarrow> string list) \<Rightarrow> string list \<Rightarrow> field list \<Rightarrow> string"
  and outField :: "(string \<Rightarrow> string list) \<Rightarrow> field \<Rightarrow> string" where
  "outNode names NullNode = ''<>''"
| "outNode names (Integer i) = show_int i"
| "outNode names (Float s) = s"
| "outNode names (String s) = CHR 0x22 # outToken s @ [CHR 0x22]"
| "outNode names (BitString s) = s"
| "outNode names (NodeList ns) = ''('' @ outNodes names ns @ '')''"
| "outNode names (IntList is) = ''(i'' @ concat (map (\<lambda>i. '' '' @ show_int i) is) @ '')''"
| "outNode names (OidList os) = ''(o'' @ concat (map (\<lambda>i. '' '' @ show_nat i) os) @ '')''"
| "outNode names (Struct label vs) = ''{'' @ label @ outFields names (names label) vs @ ''}''"
| "outNodes names [] = []"
| "outNodes names (n # ns) = outNode names n @ (if ns = [] then [] else '' '' @ outNodes names ns)"
| "outFields names (f # fs) (v # vs) = '' :'' @ f @ '' '' @ outField names v @ outFields names fs vs"
| "outFields names _ _ = []"
| "outField names (IntF i) = show_int i"
| "outField names (UintF n) = show_nat n"
| "outField names (BoolF b) = (if b then ''true'' else ''false'')"
| "outField names (StringF s) = outToken (case s of None \<Rightarrow> [] | Some t \<Rightarrow> t)"
| "outField names (NodeF n) = outNode names n"

text \<open>\<open>nodeRead\<close> from its first token on, the loops of its lists, and the \<open>READ_\<close> macros.
  \<open>parseNodeString\<close> finds the routine of a label, of which \<open>kinds\<close> are the fields it reads. \<open>None\<close> is
  an error, or no fuel.\<close>

fun read_numbers :: "(string \<Rightarrow> int \<times> string) \<Rightarrow> nat \<Rightarrow> string \<Rightarrow> (int list \<times> string) option" where
  "read_numbers strto 0 s = None"
| "read_numbers strto (Suc n) s =
     do { (tok, r) \<leftarrow> pg_strtok s;
          if tok = '')'' then Some ([], r)
          else case strto tok of (v, e) \<Rightarrow>
            if e \<noteq> [] then None else map_option (\<lambda>(vs, r'). (v # vs, r')) (read_numbers strto n r) }"

text \<open>An empty list is \<open>NIL\<close>, the null pointer.\<close>

definition list_node :: "('a list \<Rightarrow> node) \<Rightarrow> 'a list \<Rightarrow> node" where
  "list_node C xs = (if xs = [] then NullNode else C xs)"

definition read_scalar :: "kind \<Rightarrow> string \<Rightarrow> field" where
  "read_scalar k tok =
     (case k of IntK \<Rightarrow> IntF (atoi tok) | UintK \<Rightarrow> UintF (atoui tok) | BoolK \<Rightarrow> BoolF (case tok of [] \<Rightarrow> False | c # _ \<Rightarrow> c = CHR ''t'')
      | _ \<Rightarrow> StringF (if tok = [] then None else Some (debackslash tok)))"

fun nodeRead :: "(string \<Rightarrow> kind list option) \<Rightarrow> nat \<Rightarrow> string \<Rightarrow> string \<Rightarrow> (node \<times> string) option"
  and read_elements :: "(string \<Rightarrow> kind list option) \<Rightarrow> nat \<Rightarrow> string \<Rightarrow> string \<Rightarrow> (node list \<times> string) option"
  and read_fields :: "(string \<Rightarrow> kind list option) \<Rightarrow> nat \<Rightarrow> kind list \<Rightarrow> string \<Rightarrow> (field list \<times> string) option" where
  "nodeRead kinds 0 tok r = None"
| "nodeRead kinds (Suc n) tok r =
     (case nodeTokenType tok of
        LEFT_BRACE \<Rightarrow>
          do { (label, r1) \<leftarrow> pg_strtok r;
               ks \<leftarrow> kinds label;
               (vs, r2) \<leftarrow> read_fields kinds n ks r1;
               (t, r3) \<leftarrow> pg_strtok r2;
               if t = ''}'' then Some (Struct label vs, r3) else None }
      | LEFT_PAREN \<Rightarrow>
          do { (t, r1) \<leftarrow> pg_strtok r;
               if t = ''i'' then map_option (\<lambda>(vs, r'). (list_node IntList (map i32 vs), r')) (read_numbers strtol n r1)
               else if t = ''o'' then map_option (\<lambda>(vs, r'). (list_node OidList (map (\<lambda>v. nat (v mod 4294967296)) vs), r'))
                                     (read_numbers strtoul n r1)
               else map_option (\<lambda>(ns, r'). (list_node NodeList ns, r')) (read_elements kinds n t r1) }
      | RIGHT_PAREN \<Rightarrow> None
      | OTHER_TOKEN \<Rightarrow> if tok = [] then Some (NullNode, r) else None
      | T_Integer \<Rightarrow> Some (Integer (fst (strtol tok)), r)
      | T_Float \<Rightarrow> Some (Float tok, r)
      | T_String \<Rightarrow> Some (String (debackslash (butlast (tl tok))), r)
      | T_BitString \<Rightarrow> Some (BitString (tl tok), r))"
| "read_elements kinds 0 tok r = None"
| "read_elements kinds (Suc n) tok r =
     (if tok = '')'' then Some ([], r)
      else do { (x, r1) \<leftarrow> nodeRead kinds n tok r;
                (t, r2) \<leftarrow> pg_strtok r1;
                (xs, r3) \<leftarrow> read_elements kinds n t r2;
                Some (x # xs, r3) })"
| "read_fields kinds 0 ks r = None"
| "read_fields kinds (Suc n) [] r = Some ([], r)"
| "read_fields kinds (Suc n) (k # ks) r =
     do { (name, r1) \<leftarrow> pg_strtok r;
          (v, r3) \<leftarrow> (if k = NodeK
             then (case pg_strtok r1 of
                     None \<Rightarrow> Some (NodeF NullNode, [])
                   | Some (t, r2) \<Rightarrow> map_option (\<lambda>(x, r3). (NodeF x, r3)) (nodeRead kinds n t r2))
             else map_option (\<lambda>(t, r2). (read_scalar k t, r2)) (pg_strtok r1));
          (vs, r4) \<leftarrow> read_fields kinds n ks r3;
          Some (v # vs, r4) }"

definition nodeToString :: "(string \<Rightarrow> string list) \<Rightarrow> node \<Rightarrow> string" where
  "nodeToString = outNode"

definition stringToNode :: "(string \<Rightarrow> kind list option) \<Rightarrow> string \<Rightarrow> node option" where
  "stringToNode kinds str =
     (case pg_strtok str of
        None \<Rightarrow> Some NullNode
      | Some (t, r) \<Rightarrow> map_option fst (nodeRead kinds (2 * length str + 2) t r))"

end
