(* ===== verification/NodeTrip.thy ===== *)
theory NodeTrip
  imports NodeText
begin

text \<open>
  What is written is read back: tokens, numbers, and whole nodes. The grouping clause of a stored
  query, and the comparison of two clauses (\<^verbatim>\<open>nodes/equalfuncs.c\<close>).
\<close>

section \<open>Tokens\<close>

definition plain :: "string \<Rightarrow> bool" where
  "plain s \<longleftrightarrow> (\<forall>c \<in> set s. \<not> is_blank c \<and> \<not> is_special c \<and> c \<noteq> backslash)"

text \<open>What follows a token.\<close>

definition ends :: "string \<Rightarrow> bool" where
  "ends r \<longleftrightarrow> (case r of [] \<Rightarrow> True | c # _ \<Rightarrow> is_blank c \<or> is_special c)"

lemma plain_simps [simp]:
  "plain []"
  "plain (c # s) \<longleftrightarrow> \<not> is_blank c \<and> \<not> is_special c \<and> c \<noteq> backslash \<and> plain s"
  "plain (s @ t) \<longleftrightarrow> plain s \<and> plain t"
  by (auto simp: plain_def)

lemma ends_simps [simp]:
  "ends []" "ends (CHR '' '' # r)" "ends (CHR '')'' # r)" "ends (CHR ''}'' # r)"
  by (simp_all add: ends_def is_blank_def is_special_def)

lemma normal_token_end [simp]: "ends r \<Longrightarrow> normal_token r = ([], r)"
  by (cases r) (simp_all add: ends_def)

lemma normal_token_plain:
  "plain s \<Longrightarrow> normal_token (s @ r) = (case normal_token r of (t, r') \<Rightarrow> (s @ t, r'))"
  by (induction s) (auto split: prod.splits)

lemma normal_token_protect:
  "normal_token (protect s @ r) = (case normal_token r of (t, r') \<Rightarrow> (protect s @ t, r'))"
  by (induction s) (auto simp: protect_def is_blank_def is_special_def split: prod.splits)

lemma quoted_char: "quoted_start (c # s) \<Longrightarrow> \<not> is_blank c \<and> \<not> is_special c \<and> c \<noteq> backslash"
  by (auto simp: quoted_start_def is_digit_def is_blank_def is_special_def)

lemma normal_token_outToken:
  "normal_token (outToken s @ r) = (case normal_token r of (t, r') \<Rightarrow> (outToken s @ t, r'))"
proof (cases s)
  case Nil
  then show ?thesis by (simp add: outToken_def is_blank_def is_special_def split: prod.splits)
next
  case (Cons c s')
  have q: "quoted_start (c # s') \<Longrightarrow> protect (c # s') = c # protect s'"
    using quoted_char [of c s'] by (simp add: protect_def)
  have e: "normal_token (backslash # c # x) = (case normal_token x of (t, r) \<Rightarrow> (backslash # c # t, r))" for x
    by (simp add: is_blank_def is_special_def)
  show ?thesis
    by (cases "quoted_start s")
       (simp_all add: outToken_def q e normal_token_protect Cons del: normal_token.simps split: prod.splits)
qed

lemma debackslash_Cons [simp]:
  "debackslash (backslash # c # s) = c # debackslash s"
  "c \<noteq> backslash \<Longrightarrow> debackslash (c # s) = c # debackslash s"
   apply simp
  apply (cases s; simp)
  done

lemma debackslash_protect: "debackslash (protect s) = s"
  by (induction s) (simp_all add: protect_def)

lemma debackslash_outToken: "s \<noteq> [] \<Longrightarrow> debackslash (outToken s) = s"
proof (cases s)
  case (Cons c s')
  have "quoted_start s \<Longrightarrow> protect s = c # protect s'"
    using quoted_char [of c s'] by (simp add: Cons protect_def)
  then show ?thesis
    using debackslash_protect [of s] by (auto simp: outToken_def Cons debackslash_protect)
qed simp

lemma pg_strtok_blank [simp]: "pg_strtok (CHR '' '' # s) = pg_strtok s"
  by (simp add: pg_strtok_def is_blank_def)

lemma pg_strtok_special [simp]: "is_special c \<Longrightarrow> pg_strtok (c # s) = Some ([c], s)"
  by (auto simp: pg_strtok_def is_blank_def is_special_def)

lemma is_special_chars [simp]:
  "is_special (CHR ''('')" "is_special (CHR '')'')" "is_special (CHR ''{'')" "is_special (CHR ''}'')"
  by (simp_all add: is_special_def)

lemma pg_strtok_normal:
  assumes "normal_token (s @ r) = (s, r)" "s \<noteq> []" "\<not> is_blank (hd s)" "\<not> is_special (hd s)"
  shows "pg_strtok (s @ r) = Some (if s = ''<>'' then [] else s, r)"
  using assms by (cases s) (simp_all add: pg_strtok_def del: normal_token.simps)

lemma pg_strtok_plain:
  "plain s \<Longrightarrow> s \<noteq> [] \<Longrightarrow> ends r \<Longrightarrow> pg_strtok (s @ r) = Some (if s = ''<>'' then [] else s, r)"
  by (rule pg_strtok_normal) (auto simp: normal_token_plain plain_def)

lemma outToken_start: "\<not> is_blank (hd (outToken s)) \<and> \<not> is_special (hd (outToken s)) \<and> outToken s \<noteq> []"
proof (cases s)
  case (Cons c s')
  then show ?thesis
    using quoted_char [of c s'] by (auto simp: outToken_def protect_def is_blank_def is_special_def)
qed (simp add: outToken_def is_blank_def is_special_def)

lemma outToken_not_empty: "s \<noteq> [] \<Longrightarrow> outToken s \<noteq> ''<>''"
  using debackslash_outToken [of s] by (auto simp: outToken_def quoted_start_def split: if_splits)

text \<open>A string that is written as a token is read back as one token, whatever characters it has
  and whatever follows; the null string is the token of length 0.\<close>

lemma outToken_roundtrip:
  assumes "ends r"
  shows "pg_strtok (outToken s @ r) = Some (if s = [] then [] else outToken s, r)"
proof -
  have n: "normal_token (outToken s @ r) = (outToken s, r)"
    using assms by (simp add: normal_token_outToken)
  have e: "s = [] \<Longrightarrow> outToken s = ''<>''" by (simp add: outToken_def)
  have "outToken s = ''<>'' \<longleftrightarrow> s = []"
    using outToken_not_empty e by blast
  then show "pg_strtok (outToken s @ r) = Some (if s = [] then [] else outToken s, r)"
    using pg_strtok_normal [OF n] outToken_start [of s] by simp
qed

section \<open>Numbers\<close>

lemma digit_simps:
  assumes "d < 10"
  shows "is_digit (digit d)" "digit_value (digit d) = d"
  using assms by (simp_all add: is_digit_def digit_value_def digit_def)

lemma digit_plain: "is_digit c \<Longrightarrow> \<not> is_blank c \<and> \<not> is_special c \<and> c \<noteq> backslash \<and> \<not> is_space c \<and> c \<notin> {CHR ''<'', CHR ''i'', CHR ''o'', CHR ''-'', CHR ''+''}"
  by (auto simp: is_digit_def is_blank_def is_special_def is_space_def)

lemma show_nat_digits: "show_nat n \<noteq> [] \<and> (\<forall>c \<in> set (show_nat n). is_digit c)"
proof (induction n rule: show_nat.induct)
  case (1 n)
  then show ?case
    by (subst (1 2) show_nat.simps) (auto simp: digit_simps)
qed

lemma read_digits_show_nat: "read_digits 0 (show_nat n @ r) = read_digits n r"
proof (induction n arbitrary: r rule: show_nat.induct)
  case (1 n)
  then show ?case
    by (subst show_nat.simps) (simp add: digit_simps)
qed

lemma show_nat_Cons: obtains d ds where "show_nat n = d # ds" "is_digit d" "\<And>c. c \<in> set ds \<Longrightarrow> is_digit c"
  using show_nat_digits [of n] by (cases "show_nat n") auto

lemma plain_show_nat [simp]: "plain (show_nat n)"
  using show_nat_digits [of n] digit_plain by (auto simp: plain_def)

lemma plain_show_int [simp]: "plain (show_int i)" "show_int i \<noteq> []" "show_int i \<noteq> ''<>''"
proof -
  have a: "\<not> is_blank (CHR ''-'') \<and> \<not> is_special (CHR ''-'')" by (simp add: is_blank_def is_special_def)
  show "plain (show_int i)" using a by (simp add: show_int_def)
  obtain d ds where "show_nat (nat i) = d # ds" "is_digit d" by (rule show_nat_Cons)
  then show "show_int i \<noteq> []" "show_int i \<noteq> ''<>''"
    using digit_plain [of d] by (auto simp: show_int_def)
qed

lemma read_sign_show_int:
  "read_sign (dropWhile is_space (show_int i)) = (i < 0, show_nat (nat \<bar>i\<bar>))"
proof -
  obtain d ds where s: "show_nat (nat \<bar>i\<bar>) = d # ds" "is_digit d" by (rule show_nat_Cons)
  have "\<not> is_space (CHR ''-'')" by (simp add: is_space_def)
  then show ?thesis
    using s digit_plain [of d] by (cases "i < 0") (auto simp: show_int_def read_sign_def)
qed

lemma read_number_show_int: "read_number value (show_int i) = (value (i < 0) (nat \<bar>i\<bar>), [])"
proof -
  obtain d ds where s: "show_nat (nat \<bar>i\<bar>) = d # ds" "is_digit d" by (rule show_nat_Cons)
  have "read_digits 0 (d # ds) = (nat \<bar>i\<bar>, [])"
    using read_digits_show_nat [of "nat \<bar>i\<bar>" "[]"] s by simp
  then show ?thesis
    using s by (simp add: read_number_def read_sign_show_int del: read_digits.simps)
qed

lemma strtol_show_int: "int32 i \<Longrightarrow> strtol (show_int i) = (i, [])"
  by (simp add: strtol_def read_number_show_int int32_def)

lemma show_nat_int: "show_nat n = show_int (int n)"
  by (simp add: show_int_def)

lemma show_nat_token [simp]: "show_nat n \<noteq> []" "show_nat n \<noteq> ''<>''"
  unfolding show_nat_int by simp_all

lemma strtoul_show_nat: "n < 4294967296 \<Longrightarrow> strtoul (show_nat n) = (int n, [])"
  unfolding show_nat_int by (simp add: strtoul_def read_number_show_int)

lemma atoi_show_int: "int32 i \<Longrightarrow> atoi (show_int i) = i"
  by (simp add: atoi_def strtol_show_int)

lemma atoui_show_nat: "n < 4294967296 \<Longrightarrow> atoui (show_nat n) = n"
  by (simp add: atoui_def strtoul_show_nat)

lemma pg_strtok_show_int: "ends r \<Longrightarrow> pg_strtok (show_int i @ r) = Some (show_int i, r)"
  by (simp add: pg_strtok_plain)

lemma pg_strtok_show_nat: "ends r \<Longrightarrow> pg_strtok (show_nat n @ r) = Some (show_nat n, r)"
  unfolding show_nat_int by (rule pg_strtok_show_int)

lemma nodeTokenType_show_int: "int32 i \<Longrightarrow> nodeTokenType (show_int i) = T_Integer"
proof -
  assume i: "int32 i"
  obtain d ds where s: "show_nat (nat \<bar>i\<bar>) = d # ds" "is_digit d" by (rule show_nat_Cons)
  have "(case show_int i of [] \<Rightarrow> [] | c # cs \<Rightarrow> if c = CHR ''+'' \<or> c = CHR ''-'' then cs else show_int i) = d # ds"
    using s digit_plain [of d] by (cases "i < 0") (auto simp: show_int_def)
  then show ?thesis
    using s i by (cases ds) (simp_all add: nodeTokenType_def strtol_show_int)
qed

section \<open>Nodes\<close>

text \<open>The nodes that the text form can hold: the numbers are in range, lists and strings are not
  empty, a \<open>Float\<close> looks like one, and the fields of a structure fit the routine of its label. A bit
  string is never read back.\<close>

fun node_ok :: "(string \<Rightarrow> string list) \<Rightarrow> (string \<Rightarrow> kind list option) \<Rightarrow> node \<Rightarrow> bool"
  and field_ok :: "(string \<Rightarrow> string list) \<Rightarrow> (string \<Rightarrow> kind list option) \<Rightarrow> kind \<Rightarrow> field \<Rightarrow> bool" where
  "node_ok names kinds NullNode = True"
| "node_ok names kinds (Integer i) = int32 i"
| "node_ok names kinds (Float s) = (plain s \<and> nodeTokenType s = T_Float)"
| "node_ok names kinds (String s) = (s \<noteq> [])"
| "node_ok names kinds (BitString s) = False"
| "node_ok names kinds (NodeList ns) = (ns \<noteq> [] \<and> (\<forall>n \<in> set ns. node_ok names kinds n))"
| "node_ok names kinds (IntList is) = (is \<noteq> [] \<and> (\<forall>i \<in> set is. int32 i))"
| "node_ok names kinds (OidList os) = (os \<noteq> [] \<and> (\<forall>i \<in> set os. i < 4294967296))"
| "node_ok names kinds (Struct label vs) =
     (plain label \<and> label \<noteq> [] \<and> label \<noteq> ''<>'' \<and> (\<forall>f \<in> set (names label). plain f) \<and>
      length (names label) = length vs \<and>
      (case kinds label of None \<Rightarrow> False | Some ks \<Rightarrow> list_all2 (field_ok names kinds) ks vs))"
| "field_ok names kinds k (IntF i) = (k = IntK \<and> int32 i)"
| "field_ok names kinds k (UintF n) = (k = UintK \<and> n < 4294967296)"
| "field_ok names kinds k (BoolF b) = (k = BoolK)"
| "field_ok names kinds k (StringF s) = (k = StringK \<and> s \<noteq> Some [])"
| "field_ok names kinds k (NodeF n) = (k = NodeK \<and> node_ok names kinds n)"

text \<open>Fuel that is enough to read a node.\<close>

fun cost :: "node \<Rightarrow> nat" and cost_field :: "field \<Rightarrow> nat" where
  "cost (NodeList ns) = 2 + sum_list (map (\<lambda>n. Suc (cost n)) ns)"
| "cost (IntList is) = 2 + length is"
| "cost (OidList os) = 2 + length os"
| "cost (Struct label vs) = 2 + sum_list (map (\<lambda>v. Suc (cost_field v)) vs)"
| "cost _ = 1"
| "cost_field (NodeF n) = cost n"
| "cost_field _ = 0"

lemma read_numbers_roundtrip:
  assumes "\<And>i. i \<in> set is \<Longrightarrow> strto (f i) = (g i, [])"
    and "\<And>i. i \<in> set is \<Longrightarrow> plain (f i) \<and> f i \<noteq> [] \<and> f i \<noteq> ''<>''"
    and "length is < fuel"
  shows "read_numbers strto fuel (concat (map (\<lambda>i. CHR '' '' # f i) is) @ CHR '')'' # r) = Some (map g is, r)"
  using assms
proof (induction "is" arbitrary: fuel)
  case Nil
  then show ?case by (cases fuel) simp_all
next
  case (Cons i "is")
  obtain k where k: "fuel = Suc k" "length is < k" using Cons.prems(3) by (cases fuel) auto
  let ?rest = "concat (map (\<lambda>i. CHR '' '' # f i) is) @ CHR '')'' # r"
  have e: "ends ?rest" by (cases "is") simp_all
  have p: "plain (f i)" "f i \<noteq> []" "f i \<noteq> ''<>''" using Cons.prems(2) by auto
  have "f i \<noteq> '')''" using p(1) by (auto simp: is_special_def)
  then show ?case
    using pg_strtok_plain [OF p(1,2) e] p(3) Cons.prems(1) Cons.IH [OF Cons.prems(1,2) k(2)]
    by (simp add: k(1) del: normal_token.simps)
qed

lemma nodeTokenType_special:
  "nodeTokenType ''('' = LEFT_PAREN" "nodeTokenType '')'' = RIGHT_PAREN" "nodeTokenType ''{'' = LEFT_BRACE"
  "nodeTokenType [] = OTHER_TOKEN" "nodeTokenType ''i'' = OTHER_TOKEN" "nodeTokenType ''o'' = OTHER_TOKEN"
  "nodeTokenType ''<>'' = OTHER_TOKEN"
  by (simp_all add: nodeTokenType_def is_digit_def)

lemma nodeTokenType_String: "nodeTokenType (CHR 0x22 # s @ [CHR 0x22]) = T_String"
  by (simp add: nodeTokenType_def is_digit_def split: list.splits)

lemma pg_strtok_String: "ends r \<Longrightarrow> pg_strtok (CHR 0x22 # outToken s @ CHR 0x22 # r) = Some (CHR 0x22 # outToken s @ [CHR 0x22], r)"
proof -
  assume "ends r"
  then have "normal_token (CHR 0x22 # outToken s @ CHR 0x22 # r) = (CHR 0x22 # outToken s @ [CHR 0x22], r)"
    by (simp add: normal_token_outToken is_blank_def is_special_def)
  then show ?thesis
    by (simp add: pg_strtok_def is_blank_def is_special_def del: normal_token.simps)
qed

text \<open>A value that is one token, and is not the start or the end of a list.\<close>

definition reads :: "(string \<Rightarrow> kind list option) \<Rightarrow> nat \<Rightarrow> string \<Rightarrow> node \<Rightarrow> string \<Rightarrow> bool" where
  "reads kinds fuel s n r \<longleftrightarrow>
     (\<exists>t r1. pg_strtok s = Some (t, r1) \<and> t \<notin> {'')'', ''i'', ''o''} \<and> nodeRead kinds fuel t r1 = Some (n, r))"

lemma reads_token:
  assumes "pg_strtok s = Some (t, r1)" "nodeTokenType t \<noteq> RIGHT_PAREN" "t \<notin> {''i'', ''o''}" "nodeRead kinds fuel t r1 = Some (n, r)"
  shows "reads kinds fuel s n r"
  using assms nodeTokenType_special(2) by (auto simp: reads_def)

lemma reads_scalar:
  assumes "node_ok names kinds n" "ends r" "n = NullNode \<or> n = Integer i \<or> n = Float s \<or> n = String s" "0 < fuel"
  shows "reads kinds fuel (outNode names n @ r) n r"
proof -
  obtain k where k: "fuel = Suc k" using assms(4) by (cases fuel) auto
  consider "n = NullNode" | "n = Integer i" "int32 i" | "n = Float s" "plain s" "nodeTokenType s = T_Float"
    | "n = String s" "s \<noteq> []" using assms(1,3) by auto
  then show ?thesis
  proof cases
    case 1
    have "pg_strtok (''<>'' @ r) = Some ([], r)"
      using pg_strtok_plain [of "''<>''" r] assms(2) by (simp add: is_blank_def is_special_def)
    then show ?thesis
      by (intro reads_token [where t = "[]"]) (simp_all add: 1 k nodeTokenType_special)
  next
    case 2
    then show ?thesis
      using pg_strtok_show_int [OF assms(2), of i] nodeTokenType_show_int [of i] nodeTokenType_special(5,6)
      by (intro reads_token [where t = "show_int i"]) (auto simp: k strtol_show_int)
  next
    case 3
    have "s \<noteq> [] \<and> s \<noteq> ''<>''" using 3(3) nodeTokenType_special(4,7) by auto
    then show ?thesis
      using 3 pg_strtok_plain [of s r] assms(2) nodeTokenType_special
      by (intro reads_token [where t = s]) (auto simp: k)
  next
    case 4
    then show ?thesis
      using pg_strtok_String [OF assms(2), of s] nodeTokenType_String [of "outToken s"]
      by (intro reads_token [where t = "CHR 0x22 # outToken s @ [CHR 0x22]"])
         (simp_all add: k butlast_append debackslash_outToken)
  qed
qed

definition reads_list :: "(string \<Rightarrow> kind list option) \<Rightarrow> nat \<Rightarrow> string \<Rightarrow> node list \<Rightarrow> string \<Rightarrow> bool" where
  "reads_list kinds fuel s ns r \<longleftrightarrow>
     (\<exists>t r1. pg_strtok s = Some (t, r1) \<and> t \<notin> {''i'', ''o''} \<and> read_elements kinds fuel t r1 = Some (ns, r))"

definition reads_field :: "(string \<Rightarrow> kind list option) \<Rightarrow> nat \<Rightarrow> kind \<Rightarrow> string \<Rightarrow> field \<Rightarrow> string \<Rightarrow> bool" where
  "reads_field kinds fuel k s v r \<longleftrightarrow>
     (if k = NodeK then (\<exists>n. v = NodeF n \<and> reads kinds fuel s n r)
      else (\<exists>t. pg_strtok s = Some (t, r) \<and> v = read_scalar k t))"

lemma reads_no_fields: "0 < fuel \<Longrightarrow> read_fields kinds fuel [] r = Some ([], r)"
  by (cases fuel) simp_all

lemma reads_list_Nil: "0 < fuel \<Longrightarrow> reads_list kinds fuel (CHR '')'' # r) [] r"
  by (cases fuel) (simp_all add: reads_list_def)

lemma reads_list_Cons:
  assumes "reads kinds fuel s n r1" "reads_list kinds fuel r1 ns r"
  shows "reads_list kinds (Suc fuel) s (n # ns) r"
  using assms by (fastforce simp: reads_def reads_list_def)

lemma reads_fields_Cons:
  assumes "reads_field kinds fuel k s v r1" "read_fields kinds fuel ks r1 = Some (vs, r)" "plain f" "ends (CHR '' '' # s)"
  shows "read_fields kinds (Suc fuel) (k # ks) ('' :'' @ f @ CHR '' '' # s) = Some (v # vs, r)"
proof -
  have "pg_strtok ((CHR '':'' # f) @ CHR '' '' # s) = Some (CHR '':'' # f, CHR '' '' # s)"
    using pg_strtok_plain [of "CHR '':'' # f" "CHR '' '' # s"] assms(3) by (simp add: is_blank_def is_special_def)
  then show ?thesis
    using assms(1,2) by (cases "k = NodeK") (auto simp: reads_field_def reads_def)
qed

lemma reads_field_scalar:
  assumes "field_ok names kinds k v" "k \<noteq> NodeK" "ends r"
  shows "reads_field kinds fuel k (outField names v @ r) v r"
proof (cases v)
  case (IntF i)
  then show ?thesis
    using assms by (auto simp: reads_field_def pg_strtok_show_int read_scalar_def atoi_show_int)
next
  case (UintF n)
  then show ?thesis
    using assms by (auto simp: reads_field_def pg_strtok_show_nat read_scalar_def atoui_show_nat)
next
  case (BoolF b)
  have "plain ''true'' \<and> plain ''false''" by (simp add: is_blank_def is_special_def)
  then show ?thesis
    using BoolF assms pg_strtok_plain [of "''true''" r] pg_strtok_plain [of "''false''" r]
    by (auto simp: reads_field_def read_scalar_def)
next
  case (StringF s)
  then show ?thesis
    using assms outToken_roundtrip [OF assms(3)] outToken_start
    by (cases s) (auto simp: reads_field_def read_scalar_def debackslash_outToken)
qed (use assms in auto)

lemma reads_brace:
  assumes "plain label" "label \<noteq> []" "label \<noteq> ''<>''" "kinds label = Some ks" "ends s"
    and "read_fields kinds fuel ks s = Some (vs, CHR ''}'' # r)"
  shows "reads kinds (Suc fuel) (CHR ''{'' # label @ s) (Struct label vs) r"
  by (rule reads_token [where t = "''{''" and ?r1.0 = "label @ s"])
     (use assms pg_strtok_plain [OF assms(1,2,5)] in \<open>simp_all add: nodeTokenType_special\<close>)

lemma reads_paren:
  assumes "reads_list kinds fuel s ns r" "ns \<noteq> []"
  shows "reads kinds (Suc fuel) (CHR ''('' # s) (NodeList ns) r"
  by (rule reads_token [where t = "''(''" and ?r1.0 = s])
     (use assms in \<open>auto simp add: nodeTokenType_special reads_list_def list_node_def\<close>)

lemma reads_IntList:
  assumes "is \<noteq> []" "\<forall>i \<in> set is. int32 i" "length is < fuel"
  shows "reads kinds (Suc fuel) (outNode names (IntList is) @ r) (IntList is) r"
proof -
  have "map i32 is = is" using assms(2) by (simp add: map_idI)
  moreover have "pg_strtok (''i'' @ concat (map (\<lambda>i. CHR '' '' # show_int i) is) @ CHR '')'' # r)
      = Some (''i'', concat (map (\<lambda>i. CHR '' '' # show_int i) is) @ CHR '')'' # r)"
    by (subst pg_strtok_plain) (use assms(1) in \<open>cases "is"; simp add: is_blank_def is_special_def\<close>)+
  ultimately show ?thesis
    using read_numbers_roundtrip [of "is" strtol show_int "\<lambda>i. i" fuel r] assms
    by (intro reads_token [where t = "''(''" and ?r1.0 = "''i'' @ concat (map (\<lambda>i. CHR '' '' # show_int i) is) @ CHR '')'' # r"])
       (simp_all add: nodeTokenType_special strtol_show_int list_node_def)
qed

lemma reads_OidList:
  assumes "os \<noteq> []" "\<forall>i \<in> set os. i < 4294967296" "length os < fuel"
  shows "reads kinds (Suc fuel) (outNode names (OidList os) @ r) (OidList os) r"
proof -
  have "map ((\<lambda>v. nat (v mod 4294967296)) \<circ> int) os = os" using assms(2) by (simp add: map_idI)
  moreover have "pg_strtok (''o'' @ concat (map (\<lambda>i. CHR '' '' # show_nat i) os) @ CHR '')'' # r)
      = Some (''o'', concat (map (\<lambda>i. CHR '' '' # show_nat i) os) @ CHR '')'' # r)"
    by (subst pg_strtok_plain) (use assms(1) in \<open>cases os; simp add: is_blank_def is_special_def\<close>)+
  ultimately show ?thesis
    using read_numbers_roundtrip [of os strtoul show_nat int fuel r] assms
    by (intro reads_token [where t = "''(''" and ?r1.0 = "''o'' @ concat (map (\<lambda>i. CHR '' '' # show_nat i) os) @ CHR '')'' # r"])
       (simp_all add: nodeTokenType_special strtoul_show_nat list_node_def)
qed

lemma outNode_reads:
  "node_ok names kinds n \<Longrightarrow> ends r \<Longrightarrow> cost n \<le> fuel \<Longrightarrow> reads kinds fuel (outNode names n @ r) n r"
  "\<forall>n \<in> set ns. node_ok names kinds n \<Longrightarrow> Suc (sum_list (map (\<lambda>n. Suc (cost n)) ns)) \<le> fuel \<Longrightarrow>
     reads_list kinds fuel (outNodes names ns @ CHR '')'' # r) ns r"
  "list_all2 (field_ok names kinds) ks vs \<Longrightarrow> length fs = length vs \<Longrightarrow> \<forall>f \<in> set fs. plain f \<Longrightarrow>
     Suc (sum_list (map (\<lambda>v. Suc (cost_field v)) vs)) \<le> fuel \<Longrightarrow>
     read_fields kinds fuel ks (outFields names fs vs @ CHR ''}'' # r) = Some (vs, CHR ''}'' # r)"
  "field_ok names kinds k v \<Longrightarrow> ends r \<Longrightarrow> cost_field v \<le> fuel \<Longrightarrow> reads_field kinds fuel k (outField names v @ r) v r"
proof (induction names n and names ns and names fs vs and names v
    arbitrary: r fuel and r fuel and ks r fuel and k r fuel rule: outNode_outNodes_outFields_outField.induct)
  case (6 names ns)
  then obtain f where f: "fuel = Suc f" by (cases fuel) auto
  have "reads_list kinds f (outNodes names ns @ CHR '')'' # r) ns r"
    using 6 f by auto
  then show ?case
    using reads_paren [of kinds f "outNodes names ns @ CHR '')'' # r" ns r] 6(2) by (simp add: f)
next
  case (7 names "is")
  then obtain f where "fuel = Suc f" by (cases fuel) auto
  then show ?case using 7 reads_IntList by auto
next
  case (8 names os)
  then obtain f where "fuel = Suc f" by (cases fuel) auto
  then show ?case using 8 reads_OidList by auto
next
  case (9 names label vs)
  then obtain f where f: "fuel = Suc f" by (cases fuel) auto
  obtain ks where ks: "kinds label = Some ks" "list_all2 (field_ok names kinds) ks vs"
    using 9(2) by (auto split: option.splits)
  have "ends (outFields names (names label) vs @ CHR ''}'' # r)"
    by (cases vs; cases "names label") simp_all
  moreover have "read_fields kinds f ks (outFields names (names label) vs @ CHR ''}'' # r) = Some (vs, CHR ''}'' # r)"
    using 9 ks(2) f by auto
  ultimately show ?case
    using reads_brace [of label kinds ks _ f vs r] 9(2) ks(1) by (simp add: f)
next
  case (10 names)
  then show ?case by (simp add: reads_list_Nil)
next
  case (11 names n ns)
  then obtain f where f: "fuel = Suc f" by (cases fuel) auto
  show ?case
  proof (cases ns)
    case Nil
    then show ?thesis
      using 11 f reads_list_Nil [of f kinds r] by (simp add: reads_list_Cons [where ?r1.0 = "CHR '')'' # r"])
  next
    case (Cons m ms)
    then have "reads_list kinds f (outNodes names ns @ CHR '')'' # r) ns r"
      using 11(2-) f by (intro 11(2)) auto
    then have "reads_list kinds f (CHR '' '' # outNodes names ns @ CHR '')'' # r) ns r"
      by (simp add: reads_list_def)
    moreover have "reads kinds f (outNode names n @ CHR '' '' # outNodes names ns @ CHR '')'' # r) n (CHR '' '' # outNodes names ns @ CHR '')'' # r)"
      using 11(3-) f by (intro 11(1)) auto
    ultimately show ?thesis
      using reads_list_Cons f Cons by simp
  qed
next
  case (12 names f fs v vs)
  then obtain k ks' where ks: "ks = k # ks'" "field_ok names kinds k v" "list_all2 (field_ok names kinds) ks' vs"
    by (auto simp: list_all2_Cons2)
  obtain m where m: "fuel = Suc m" using 12 by (cases fuel) auto
  let ?rest = "outFields names fs vs @ CHR ''}'' # r"
  have "ends ?rest" by (cases vs; cases fs) simp_all
  then have "reads_field kinds m k (outField names v @ ?rest) v ?rest"
    using 12 ks m by (intro 12(1)) auto
  moreover have "read_fields kinds m ks' ?rest = Some (vs, CHR ''}'' # r)"
    using 12 ks m by (intro 12(2)) auto
  ultimately show ?case
    using reads_fields_Cons [of kinds m k _ v ?rest ks' vs _ f] 12 by (simp add: ks(1) m)
next
  case (18 names n)
  then show ?case by (simp add: reads_field_def)
qed ((rule reads_scalar; force) | (rule reads_field_scalar; force) | (auto simp: reads_no_fields; fail))+

lemma cost_length:
  "node_ok names kinds n \<Longrightarrow> cost n \<le> 2 * length (outNode names n)"
  "\<forall>n \<in> set ns. node_ok names kinds n \<Longrightarrow> sum_list (map (\<lambda>n. Suc (cost n)) ns) \<le> 2 * length (outNodes names ns) + 2"
  "list_all2 (field_ok names kinds) ks vs \<Longrightarrow> length fs = length vs \<Longrightarrow>
     sum_list (map (\<lambda>v. Suc (cost_field v)) vs) \<le> 2 * length (outFields names fs vs)"
  "field_ok names kinds k v \<Longrightarrow> cost_field v \<le> 2 * length (outField names v)"
proof (induction names n and names ns and names fs vs and names v
    arbitrary: and and ks and k rule: outNode_outNodes_outFields_outField.induct)
  case (3 names s)
  then show ?case using nodeTokenType_special(4) by (cases s) auto
next
  case (7 names "is")
  have "length is \<le> length (concat (map (\<lambda>i. CHR '' '' # show_int i) is))"
    by (induction "is") auto
  then show ?case by simp
next
  case (8 names os)
  have "length os \<le> length (concat (map (\<lambda>i. CHR '' '' # show_nat i) os))"
    by (induction os) auto
  then show ?case by simp
next
  case (9 names label vs)
  then show ?case by (fastforce split: option.splits)
next
  case (11 names n ns)
  then show ?case by (cases ns) auto
next
  case (12 names f fs v vs)
  then obtain k ks' where ks: "ks = k # ks'" "field_ok names kinds k v" "list_all2 (field_ok names kinds) ks' vs"
    by (auto simp: list_all2_Cons2)
  show ?case
    using 12(1) [OF ks(2)] 12(2) [OF ks(3)] 12(4) by simp
qed (auto simp: Suc_le_eq)

lemma outNode_trip:
  assumes "node_ok names kinds n"
  shows "stringToNode kinds (nodeToString names n) = Some n"
proof -
  have "reads kinds (2 * length (outNode names n) + 2) (outNode names n @ []) n []"
    using outNode_reads(1) [OF assms, of "[]"] cost_length(1) [OF assms] by simp
  then show ?thesis
    by (auto simp: reads_def stringToNode_def nodeToString_def)
qed

text \<open>C18. The text of a node reads back as the node: for every node that the text form can hold, whatever
  strings it contains, \<open>stringToNode\<close> returns from \<open>nodeToString\<close> the same node, within its fuel.\<close>

theorem stringToNode_nodeToString:
  assumes "node_ok names kinds n"
  shows "stringToNode kinds (nodeToString names n) = Some n"
  using assms by (rule outNode_trip)

definition demo_names :: "string \<Rightarrow> string list" where
  "demo_names label = [''colname'', ''name'', ''args'', ''flag'']"

definition demo_kinds :: "string \<Rightarrow> kind list option" where
  "demo_kinds label = (if label = ''TARGET'' then Some [StringK, StringK, NodeK, BoolK] else None)"

lemma stringToNode_nodeToString_witness:
  "let n = Struct ''TARGET''
     [StringF (Some ''a (b) 12''), StringF None,
      NodeF (NodeList [NullNode, Integer (- 17), String ''1 or {2}'', OidList [5, 23], Float ''1.5'']), BoolF True]
   in stringToNode demo_kinds (nodeToString demo_names n) = Some n"
  unfolding Let_def
  by (rule stringToNode_nodeToString)
     (simp add: demo_names_def demo_kinds_def is_blank_def is_special_def int32_def nodeTokenType_def is_digit_def
        strtol_def read_number_def read_sign_def is_space_def)

text \<open>The nodes left out do change: the empty string becomes \<open><>\<close>, a bit string loses its \<open>b\<close> and is
  an integer after the next trip.\<close>

lemma stringToNode_empty_String: "stringToNode kinds (nodeToString names (String [])) = Some (String ''<>'')"
  by (simp add: stringToNode_def nodeToString_def outToken_def pg_strtok_def nodeTokenType_def is_digit_def is_blank_def
      is_special_def numeral_2_eq_2 split: list.splits)

lemma stringToNode_BitString:
  "stringToNode kinds (nodeToString names (BitString ''b101'')) = Some (BitString ''101'')"
  "stringToNode kinds (nodeToString names (BitString ''101'')) = Some (Integer 101)"
  by (simp_all add: stringToNode_def nodeToString_def pg_strtok_def nodeTokenType_def is_digit_def is_blank_def
      is_special_def numeral_2_eq_2 strtol_def read_number_def read_sign_def is_space_def digit_value_def int32_def)

end
