(* ===== verification/StoredQuery.thy ===== *)
theory StoredQuery
  imports NodeTrip
begin

text \<open>
  What a view or rule keeps of a similarity query: the routines for \<open>QUERY\<close>, \<open>GROUPCLAUSE\<close> and
  \<open>SORTCLAUSE\<close> in \<^verbatim>\<open>nodes/outfuncs.c\<close> and \<^verbatim>\<open>nodes/readfuncs.c\<close>, the comparison of two clauses
  (\<^verbatim>\<open>nodes/equalfuncs.c\<close>), and the run of a query that was read back.
\<close>

section \<open>Routines\<close>

text \<open>The fields in the order of the routines; those of other labels are a parameter.\<close>

definition query_names :: "string list" where
  "query_names =
     [''commandType'', ''querySource'', ''canSetTag'', ''utilityStmt'', ''resultRelation'', ''into'', ''intoOptions'',
      ''intoOnCommit'', ''intoTableSpaceName'', ''hasAggs'', ''hasSubLinks'', ''rtable'', ''jointree'', ''targetList'',
      ''returningList'', ''groupClause'', ''havingQual'', ''distinctClause'', ''sortClause'', ''limitOffset'',
      ''limitCount'', ''rowMarks'', ''setOperations'', ''resultRelations'', ''returningLists'', ''hasAroundSGB'',
      ''hasUnsupervisedSGB'', ''hasDistAll'', ''hasDistAny'']"

definition query_kinds :: "kind list" where
  "query_kinds =
     [IntK, IntK, BoolK, NodeK, IntK, NodeK, NodeK, IntK, StringK, BoolK, BoolK, NodeK, NodeK, NodeK, NodeK,
      NodeK,
      NodeK, NodeK, NodeK, NodeK, NodeK, NodeK, NodeK, NodeK, NodeK, BoolK, BoolK, BoolK, BoolK]"

definition clause_names :: "string list" where
  "clause_names = [''tleSortGroupRef'', ''sortop'', ''aroundRefPointsSubquery'', ''max_group_diam'', ''max_elem_sep'', ''distanceall'']"

definition clause_kinds :: "kind list" where
  "clause_kinds = [UintK, UintK, NodeK, IntK, IntK, IntK]"

definition sgb_names :: "(string \<Rightarrow> string list) \<Rightarrow> string \<Rightarrow> string list" where
  "sgb_names other label =
     (if label = ''QUERY'' then query_names
      else if label = ''GROUPCLAUSE'' \<or> label = ''SORTCLAUSE'' then clause_names
      else other label)"

definition sgb_kinds :: "(string \<Rightarrow> kind list option) \<Rightarrow> string \<Rightarrow> kind list option" where
  "sgb_kinds other label =
     (if label = ''QUERY'' then Some query_kinds
      else if label = ''SORTCLAUSE'' \<or> label = ''GROUPCLAUSE'' then Some clause_kinds
      else other label)"

section \<open>Grouping clauses\<close>

definition group_clause_node :: "(node, nat) GroupClause \<Rightarrow> node" where
  "group_clause_node g =
     Struct ''GROUPCLAUSE''
       [UintF (tleSortGroupRef g), UintF (sortop g),
        NodeF (case aroundRefPointsSubquery g of None \<Rightarrow> NullNode | Some q \<Rightarrow> q),
        IntF (gc_max_group_diam g), IntF (gc_max_elem_sep g), IntF (gc_distanceall g)]"

text \<open>\<open>_readGroupClause\<close> fills a node of zeros.\<close>

definition node_group_clause :: "node \<Rightarrow> (node, nat) GroupClause option" where
  "node_group_clause n =
     (case n of
        Struct label [UintF ref, UintF op, NodeF q, IntF diam, IntF sep, IntF distAll] \<Rightarrow>
          if label = ''GROUPCLAUSE''
          then Some \<lparr>tleSortGroupRef = ref, sortop = op, aroundRefPointsSubquery = (if q = NullNode then None else Some q),
                     gc_max_group_diam = diam, gc_max_elem_sep = sep, gc_distanceall = distAll,
                     overlapValue = 0, distanceanyValue = 0, metricValue = 0\<rparr>
          else None
      | _ \<Rightarrow> None)"

definition equalSortClause :: "('q, 'o) GroupClause \<Rightarrow> ('q, 'o) GroupClause \<Rightarrow> bool" where
  "equalSortClause a b \<longleftrightarrow>
     tleSortGroupRef a = tleSortGroupRef b \<and> sortop a = sortop b \<and>
     aroundRefPointsSubquery a = aroundRefPointsSubquery b \<and> gc_max_group_diam a = gc_max_group_diam b \<and>
     gc_max_elem_sep a = gc_max_elem_sep b \<and> gc_distanceall a = gc_distanceall b \<and>
     distanceanyValue a = distanceanyValue b"

definition clause_ok :: "(string \<Rightarrow> string list) \<Rightarrow> (string \<Rightarrow> kind list option) \<Rightarrow> (node, nat) GroupClause \<Rightarrow> bool" where
  "clause_ok names kinds g \<longleftrightarrow>
     tleSortGroupRef g < 4294967296 \<and> sortop g < 4294967296 \<and>
     (case aroundRefPointsSubquery g of None \<Rightarrow> True
      | Some q \<Rightarrow> q \<noteq> NullNode \<and> node_ok (sgb_names names) (sgb_kinds kinds) q) \<and>
     int32 (gc_max_group_diam g) \<and> int32 (gc_max_elem_sep g) \<and> int32 (gc_distanceall g)"

lemma plain_label: "plain ''GROUPCLAUSE''" "plain ''QUERY''"
  by (simp_all add: is_blank_def is_special_def)

lemma plain_names: "\<forall>f \<in> set clause_names. plain f" "\<forall>f \<in> set query_names. plain f"
  by (simp_all add: clause_names_def query_names_def is_blank_def is_special_def)

lemma sgb_tables [simp]:
  "sgb_names names ''GROUPCLAUSE'' = clause_names" "sgb_kinds kinds ''GROUPCLAUSE'' = Some clause_kinds"
  "sgb_names names ''QUERY'' = query_names" "sgb_kinds kinds ''QUERY'' = Some query_kinds"
  by (simp_all add: sgb_names_def sgb_kinds_def)

lemma group_clause_node_ok:
  "clause_ok names kinds g \<Longrightarrow> node_ok (sgb_names names) (sgb_kinds kinds) (group_clause_node g)"
  using plain_names(1) plain_label(1)
  by (auto simp: clause_ok_def group_clause_node_def clause_kinds_def split: option.splits)
     (simp_all add: clause_names_def)

lemma node_group_clause_node:
  "clause_ok names kinds g \<Longrightarrow> node_group_clause (group_clause_node g) = Some (copyGroupClause g)"
  by (cases g) (auto simp: node_group_clause_def group_clause_node_def copyGroupClause_def clause_ok_def
      split: option.splits)

text \<open>Clauses that differ in overlap or metric are equal.\<close>

lemma equalSortClause_iff: "equalSortClause a b \<longleftrightarrow>
    a\<lparr>overlapValue := 0, metricValue := 0\<rparr> = b\<lparr>overlapValue := 0, metricValue := 0\<rparr>"
  by (cases a; cases b) (auto simp: equalSortClause_def)

section \<open>Queries\<close>

text \<open>\<open>before\<close> and \<open>after\<close> are the fields around the grouping clauses.\<close>

definition query_node :: "field list \<Rightarrow> Query \<Rightarrow> (node, nat) GroupClause list \<Rightarrow> field list \<Rightarrow> node" where
  "query_node before qry gs after =
     Struct ''QUERY'' (before @ NodeF (list_node NodeList (map group_clause_node gs)) # after @
       [BoolF (hasAroundSGB qry), BoolF (hasUnsupervisedSGB qry), BoolF (hasDistAll qry), BoolF (hasDistAny qry)])"

definition write_query :: "(string \<Rightarrow> string list) \<Rightarrow> field list \<Rightarrow> Query \<Rightarrow> (node, nat) GroupClause list \<Rightarrow> field list \<Rightarrow> string" where
  "write_query names before qry gs after = nodeToString (sgb_names names) (query_node before qry gs after)"

definition node_clauses :: "node \<Rightarrow> (node, nat) GroupClause list option" where
  "node_clauses n =
     (case n of NullNode \<Rightarrow> Some [] | NodeList ns \<Rightarrow> those (map node_group_clause ns) | _ \<Rightarrow> None)"

definition node_query :: "node \<Rightarrow> (Query \<times> (node, nat) GroupClause list) option" where
  "node_query n =
     (case n of
        Struct label vs \<Rightarrow>
          if label = ''QUERY'' \<and> length vs = 29
          then (case (vs ! 15, drop 25 vs) of
                  (NodeF c, [BoolF around, BoolF unsupervised, BoolF distAll, BoolF distAny]) \<Rightarrow>
                    map_option (Pair \<lparr>hasAroundSGB = around, hasUnsupervisedSGB = unsupervised,
                                      hasDistAll = distAll, hasDistAny = distAny\<rparr>) (node_clauses c)
                | _ \<Rightarrow> None)
          else None
      | _ \<Rightarrow> None)"

definition read_query :: "(string \<Rightarrow> kind list option) \<Rightarrow> string \<Rightarrow> (Query \<times> (node, nat) GroupClause list) option" where
  "read_query kinds str = Option.bind (stringToNode (sgb_kinds kinds) str) node_query"

definition query_ok :: "(string \<Rightarrow> string list) \<Rightarrow> (string \<Rightarrow> kind list option) \<Rightarrow> field list \<Rightarrow> (node, nat) GroupClause list \<Rightarrow> field list \<Rightarrow> bool" where
  "query_ok names kinds before gs after \<longleftrightarrow>
     list_all2 (field_ok (sgb_names names) (sgb_kinds kinds)) (take 15 query_kinds) before \<and>
     list_all2 (field_ok (sgb_names names) (sgb_kinds kinds)) (take 9 (drop 16 query_kinds)) after \<and>
     (\<forall>g \<in> set gs. clause_ok names kinds g)"

lemma query_kinds_split:
  "query_kinds = take 15 query_kinds @ NodeK # take 9 (drop 16 query_kinds) @ [BoolK, BoolK, BoolK, BoolK]"
  by (simp add: query_kinds_def)

lemma query_ok_length:
  assumes "query_ok names kinds before gs after"
  shows "length before = 15" "length after = 9"
  using assms by (auto simp: query_ok_def query_kinds_def dest!: list_all2_lengthD)

lemma query_node_ok:
  assumes "query_ok names kinds before gs after"
  shows "node_ok (sgb_names names) (sgb_kinds kinds) (query_node before qry gs after)"
proof -
  let ?ok = "field_ok (sgb_names names) (sgb_kinds kinds)"
  have "node_ok (sgb_names names) (sgb_kinds kinds) (list_node NodeList (map group_clause_node gs))"
    using assms group_clause_node_ok by (auto simp: list_node_def query_ok_def)
  then have "list_all2 ?ok query_kinds (before @ NodeF (list_node NodeList (map group_clause_node gs)) # after @
      [BoolF (hasAroundSGB qry), BoolF (hasUnsupervisedSGB qry), BoolF (hasDistAll qry), BoolF (hasDistAny qry)])"
    using assms by (subst query_kinds_split) (auto simp: query_ok_def intro!: list_all2_appendI)
  moreover have "length query_names = 29" by (simp add: query_names_def)
  ultimately show ?thesis
    using plain_names(2) plain_label(2) query_ok_length [OF assms] by (simp add: query_node_def)
qed

lemma those_map_Some: "(\<And>x. x \<in> set xs \<Longrightarrow> f x = Some (g x)) \<Longrightarrow> those (map f xs) = Some (map g xs)"
  by (induction xs) auto

lemma node_query_query_node:
  assumes "query_ok names kinds before gs after"
  shows "node_query (query_node before qry gs after) = Some (qry, map copyGroupClause gs)"
proof -
  have "node_clauses (list_node NodeList (map group_clause_node gs)) = Some (map copyGroupClause gs)"
  proof -
    have "those (map (\<lambda>g. node_group_clause (group_clause_node g)) gs) = Some (map copyGroupClause gs)"
      using assms by (intro those_map_Some) (auto simp: query_ok_def intro: node_group_clause_node)
    then show ?thesis by (simp add: node_clauses_def list_node_def comp_def)
  qed
  then show ?thesis
    using query_ok_length [OF assms] by (simp add: node_query_def query_node_def nth_append)
qed

lemma read_write_query:
  assumes "query_ok names kinds before gs after"
  shows "read_query kinds (write_query names before qry gs after) = Some (qry, map copyGroupClause gs)"
  using outNode_trip [OF query_node_ok [OF assms]] node_query_query_node [OF assms]
  by (simp add: read_query_def write_query_def)

text \<open>A view keeps the flags of a similarity query, but of its grouping clauses only what a copied
  plan keeps: they read back with the subselect, the limits and \<open>DISTANCE-ALL\<close>, and with overlap,
  \<open>DISTANCE-ANY\<close> and metric zero.\<close>

theorem read_query_write_query:
  assumes "query_ok names kinds before gs after"
  shows "read_query kinds (write_query names before qry gs after) = Some (qry, map copyGroupClause gs)"
  using assms by (rule read_write_query)

definition demo_before :: "field list" where
  "demo_before = [IntF 1, IntF 0, BoolF True, NodeF NullNode, IntF 0, NodeF NullNode, NodeF NullNode, IntF 0, StringF None,
     BoolF True, BoolF False, NodeF NullNode, NodeF NullNode, NodeF NullNode, NodeF NullNode]"

definition demo_after :: "field list" where
  "demo_after = [NodeF NullNode, NodeF NullNode, NodeF NullNode, NodeF NullNode, NodeF NullNode, NodeF NullNode,
     NodeF NullNode, NodeF NullNode, NodeF NullNode]"

definition demo_clause :: "(node, nat) GroupClause" where
  "demo_clause = \<lparr>tleSortGroupRef = 1, sortop = 97, aroundRefPointsSubquery = None, gc_max_group_diam = -1, gc_max_elem_sep = -1,
     gc_distanceall = 10, overlapValue = 1, distanceanyValue = -1, metricValue = 1\<rparr>"

definition demo_query :: Query where
  "demo_query = \<lparr>hasAroundSGB = False, hasUnsupervisedSGB = False, hasDistAll = True, hasDistAny = False\<rparr>"

lemma demo_query_ok: "query_ok (\<lambda>_. []) (\<lambda>_. None) demo_before [demo_clause, demo_clause\<lparr>tleSortGroupRef := 2\<rparr>] demo_after"
  by (simp add: query_ok_def query_kinds_def demo_before_def demo_after_def demo_clause_def clause_ok_def int32_def)

lemma read_query_write_query_witness:
  "read_query (\<lambda>_. None) (write_query (\<lambda>_. []) demo_before demo_query [demo_clause, demo_clause\<lparr>tleSortGroupRef := 2\<rparr>] demo_after) =
     Some (demo_query, map copyGroupClause [demo_clause, demo_clause\<lparr>tleSortGroupRef := 2\<rparr>])"
  by (rule read_query_write_query [OF demo_query_ok])

text \<open>C33. A view of a \<open>DISTANCE-ALL\<close> query returns no rows: the query that is read back is planned as a node
  without an overlap clause, for which the operator drops every tuple.\<close>

theorem view_distance_all_empty:
  assumes "query_ok names kinds before gs after" "gs \<noteq> []" "gc_distanceall (hd gs) \<noteq> -1"
    and "hasDistAll qry" "\<not> hasAroundSGB qry" "\<not> hasUnsupervisedSGB qry" "hasAggs penv"
    and "all_start st" "scan_ok (env_scan env)"
  shows "\<exists>sort node. do { (qry', gs') \<leftarrow> read_query kinds (write_query names before qry gs after);
                          par \<leftarrow> sgb_parameters qry' gs';
                          Some (plan_grouping penv qry' gs' par) } = Some (sort, Agg_node node None) \<and>
      ExecAgg env node st None ss = Some []"
proof -
  obtain g gs' where g: "gs = g # gs'" using assms(2) by (cases gs) auto
  let ?node = "make_agg_SGB_DIST AGG_HASHED (length gs) (gc_distanceall g) 0 (-1) 0"
  have r: "read_query kinds (write_query names before qry (g # gs') after) = Some (qry, map copyGroupClause (g # gs'))"
    using read_write_query [OF assms(1)] by (simp add: g)
  have "\<exists>sort. do { (qry', gs') \<leftarrow> read_query kinds (write_query names before qry gs after);
                    par \<leftarrow> sgb_parameters qry' gs';
                    Some (plan_grouping penv qry' gs' par) } = Some (sort, Agg_node ?node None)"
    using assms(2,4-7) copyGroupClause_distance_all [OF assms(4-6), of g gs']
    by (simp add: r plan_grouping_def use_hashed_grouping_def g no_params_def)
  moreover have "ExecAgg env ?node st None ss = Some []"
    using assms(3,8,9) g by (intro ExecAgg_no_overlap) (simp_all add: make_agg_SGB_DIST_def)
  ultimately show ?thesis by blast
qed

lemma view_distance_all_empty_witness:
  "\<exists>sort node. do { (qry', gs') \<leftarrow> read_query (\<lambda>_. None)
                       (write_query (\<lambda>_. []) demo_before demo_query [demo_clause, demo_clause\<lparr>tleSortGroupRef := 2\<rparr>] demo_after);
                    par \<leftarrow> sgb_parameters qry' gs';
                    Some (plan_grouping demo_planner qry' gs' par) } = Some (sort, Agg_node node None) \<and>
      ExecAgg (demo_env [1, 2]) node demo_state None [slot_of [1, 2]] = Some []"
  by (rule view_distance_all_empty [OF demo_query_ok])
     (simp_all add: demo_clause_def demo_query_def demo_planner_def all_start_def demo_state_def demo_env_def sorted_scan_ok)

text \<open>A view of a \<open>DISTANCE-ANY\<close> query has the distance 0, for which \<open>ExecInitAgg\<close> allocates no
  disjoint sets: its first tuple is inserted through NULL (\<open>SGBAny.any_zero_distance\<close>).\<close>

lemma view_distance_any_parameters:
  assumes "query_ok names kinds before (g # gs) after" "hasDistAny qry" "\<not> hasDistAll qry" "\<not> hasAroundSGB qry" "\<not> hasUnsupervisedSGB qry"
  shows "Option.bind (read_query kinds (write_query names before qry (g # gs) after)) (\<lambda>(qry', gs'). sgb_parameters qry' gs') =
    Some (no_params\<lparr>par_distanceany := 0, par_metric := 0\<rparr>)"
  using assms(2-) by (simp add: read_write_query [OF assms(1)] sgb_parameters_def copyGroupClause_def)

end
