(* ===== verification/SimJoin.thy ===== *)
theory SimJoin
  imports MergeJoinInit StoredQuery
begin

text \<open>
  From the text of a similarity join to its plan: the grammar's actions for \<open>WITHIN\<close> and \<open>AROUND\<close>
  (\<^verbatim>\<open>parser/gram.y\<close>, \<^verbatim>\<open>nodes/makefuncs.c\<close>), the join tree (\<^verbatim>\<open>parser/analyze.c\<close>), its copies and its text
  (\<^verbatim>\<open>nodes/copyfuncs.c\<close>, \<^verbatim>\<open>outfuncs.c\<close>, \<^verbatim>\<open>readfuncs.c\<close>), the join orders that the planner considers
  (\<^verbatim>\<open>optimizer/path/joinrels.c\<close>) and the plan node (\<^verbatim>\<open>optimizer/plan/createplan.c\<close>). The last section runs the
  plan. Expressions, their analysis and their preparation for execution are parameters.
\<close>

section \<open>The \<open>WHERE\<close> clause\<close>

datatype A_Expr_Kind =
    AEXPR_OP | AEXPR_AND | AEXPR_OR | AEXPR_NOT | AEXPR_OP_ANY | AEXPR_OP_ALL | AEXPR_DISTINCT | AEXPR_NULLIF
  | AEXPR_OF | AEXPR_IN

record 'e A_Expr =
  aexpr_kind :: A_Expr_Kind
  aexpr_name :: "string list"
  aexpr_lexpr :: "'e option"
  aexpr_rexpr :: "'e option"
  location :: int
  sj_Type :: int
  sj_Epsilon :: int
  sj_MaxDiam :: int

text \<open>\<open>makeNode\<close> zeroes a node.\<close>

definition makeA_Expr :: "A_Expr_Kind \<Rightarrow> string list \<Rightarrow> 'e option \<Rightarrow> 'e option \<Rightarrow> int \<Rightarrow> 'e A_Expr" where
  "makeA_Expr kind name l r loc = \<lparr>aexpr_kind = kind, aexpr_name = name, aexpr_lexpr = l, aexpr_rexpr = r, location = loc,
     sj_Type = 0, sj_Epsilon = 0, sj_MaxDiam = 0\<rparr>"

definition makeSimpleA_Expr :: "A_Expr_Kind \<Rightarrow> string \<Rightarrow> 'e option \<Rightarrow> 'e option \<Rightarrow> int \<Rightarrow> 'e A_Expr" where
  "makeSimpleA_Expr kind name l r loc = \<lparr>aexpr_kind = kind, aexpr_name = [name], aexpr_lexpr = l, aexpr_rexpr = r,
     location = loc, sj_Type = 0, sj_Epsilon = 0, sj_MaxDiam = 0\<rparr>"

definition makeSJ_Expr :: "A_Expr_Kind \<Rightarrow> string \<Rightarrow> 'e option \<Rightarrow> 'e option \<Rightarrow> int \<Rightarrow> int \<Rightarrow> 'e A_Expr" where
  "makeSJ_Expr kind name l r eps max_diam = \<lparr>aexpr_kind = kind, aexpr_name = [name], aexpr_lexpr = l, aexpr_rexpr = r,
     location = -1, sj_Type = (if eps \<noteq> 0 then 1 else 2), sj_Epsilon = eps, sj_MaxDiam = max_diam\<rparr>"

datatype 'e sj_expr =
    WITHIN 'e int 'e
  | AROUND_MAXJOINDIAM 'e 'e int
  | AROUND 'e 'e

fun sj_expr_action :: "'e sj_expr \<Rightarrow> 'e A_Expr" where
  "sj_expr_action (WITHIN x eps y) = makeSJ_Expr AEXPR_OP ''='' (Some x) (Some y) eps 0"
| "sj_expr_action (AROUND_MAXJOINDIAM x y max_diam) = makeSJ_Expr AEXPR_OP ''='' (Some x) (Some y) 0 max_diam"
| "sj_expr_action (AROUND x y) = makeSJ_Expr AEXPR_OP ''='' (Some x) (Some y) 0 0"

definition copyAExpr :: "'e A_Expr \<Rightarrow> 'e A_Expr" where
  "copyAExpr from = \<lparr>aexpr_kind = aexpr_kind from, aexpr_name = aexpr_name from, aexpr_lexpr = aexpr_lexpr from,
     aexpr_rexpr = aexpr_rexpr from, location = location from, sj_Type = sj_Type from, sj_Epsilon = sj_Epsilon from,
     sj_MaxDiam = sj_MaxDiam from\<rparr>"

definition equalAExpr :: "'e A_Expr \<Rightarrow> 'e A_Expr \<Rightarrow> bool" where
  "equalAExpr a b \<longleftrightarrow> aexpr_kind a = aexpr_kind b \<and> aexpr_name a = aexpr_name b \<and> aexpr_lexpr a = aexpr_lexpr b \<and>
     aexpr_rexpr a = aexpr_rexpr b \<and> location a = location b"

text \<open>A copied expression keeps the similarity; \<open>equal\<close> ignores it, so that \<open>x WITHIN 3 OF y\<close>, \<open>x WITHIN 4 OF y\<close> and
  \<open>x AROUND y\<close> are the same expression, and \<open>WITHIN 0\<close> is \<open>AROUND\<close>.\<close>

lemma copyAExpr_id [simp]: "copyAExpr a = a"
  by (simp add: copyAExpr_def)

lemma equalAExpr_similarity: "equalAExpr (sj_expr_action (WITHIN x eps y)) (sj_expr_action (AROUND x y))"
  by (simp add: equalAExpr_def makeSJ_Expr_def)

lemma within_zero: "sj_expr_action (WITHIN x 0 y) = sj_expr_action (AROUND x y)"
  by simp

section \<open>The join tree\<close>

record 'n FromExpr =
  fromlist :: 'n
  quals :: 'n
  from_SJ_Type :: int
  from_epsilon :: int
  from_max_diameter :: int

definition makeFromExpr :: "'n \<Rightarrow> 'n \<Rightarrow> 'n FromExpr" where
  "makeFromExpr fs qs = \<lparr>fromlist = fs, quals = qs, from_SJ_Type = 0, from_epsilon = 0, from_max_diameter = 0\<rparr>"

text \<open>The \<open>WHERE\<close> clause may be any node, not only an \<open>A_Expr\<close>; \<open>foreign\<close> is what the memory of another one holds
  at the three fields.\<close>

datatype 'e where_node = AExprNode "'e A_Expr" | OtherNode 'e

definition similarity_of :: "('e \<Rightarrow> int \<times> int \<times> int) \<Rightarrow> 'e where_node \<Rightarrow> int \<times> int \<times> int" where
  "similarity_of foreign n =
     (case n of AExprNode a \<Rightarrow> (sj_Type a, sj_Epsilon a, sj_MaxDiam a) | OtherNode e \<Rightarrow> foreign e)"

definition transformSelectStmt_jointree :: "('e \<Rightarrow> int \<times> int \<times> int) \<Rightarrow> ('e where_node option \<Rightarrow> 'n) \<Rightarrow> 'n \<Rightarrow>
    'e where_node option \<Rightarrow> 'n FromExpr" where
  "transformSelectStmt_jointree foreign transformWhere joinlist whereClause =
     (let jointree = makeFromExpr joinlist (transformWhere whereClause) in
      case whereClause of
        None \<Rightarrow> jointree
      | Some n \<Rightarrow> (case similarity_of foreign n of (t, eps, diam) \<Rightarrow>
          jointree\<lparr>from_SJ_Type := t, from_epsilon := eps, from_max_diameter := diam\<rparr>))"

text \<open>An ordinary operator expression leaves the join an ordinary one; any other \<open>WHERE\<close> clause leaves it what the
  memory behind the node says.\<close>

lemma ordinary_where:
  "transformSelectStmt_jointree foreign transformWhere joinlist (Some (AExprNode (makeA_Expr kind name l r loc))) =
    makeFromExpr joinlist (transformWhere (Some (AExprNode (makeA_Expr kind name l r loc))))"
  by (simp add: transformSelectStmt_jointree_def similarity_of_def makeFromExpr_def makeA_Expr_def Let_def)

lemma other_where:
  "foreign e = (t, eps, diam) \<Longrightarrow> from_SJ_Type (transformSelectStmt_jointree foreign transformWhere joinlist (Some (OtherNode e))) = t"
  by (simp add: transformSelectStmt_jointree_def similarity_of_def makeFromExpr_def)

text \<open>Copies, comparison and text know nothing of the similarity.\<close>

definition copyFromExpr :: "'n FromExpr \<Rightarrow> 'n FromExpr" where
  "copyFromExpr from = \<lparr>fromlist = fromlist from, quals = quals from, from_SJ_Type = 0, from_epsilon = 0, from_max_diameter = 0\<rparr>"

definition equalFromExpr :: "'n FromExpr \<Rightarrow> 'n FromExpr \<Rightarrow> bool" where
  "equalFromExpr a b \<longleftrightarrow> fromlist a = fromlist b \<and> quals a = quals b"

definition FromExpr_node :: "node FromExpr \<Rightarrow> node" where
  "FromExpr_node f = Struct ''FROMEXPR'' [NodeF (fromlist f), NodeF (quals f)]"

definition node_FromExpr :: "node \<Rightarrow> node FromExpr option" where
  "node_FromExpr n =
     (case n of
        Struct label [NodeF fs, NodeF qs] \<Rightarrow>
          if label = ''FROMEXPR''
          then Some \<lparr>fromlist = fs, quals = qs, from_SJ_Type = 0, from_epsilon = 0, from_max_diameter = 0\<rparr>
          else None
      | _ \<Rightarrow> None)"

definition join_names :: "(string \<Rightarrow> string list) \<Rightarrow> string \<Rightarrow> string list" where
  "join_names other label = (if label = ''FROMEXPR'' then [''fromlist'', ''quals''] else sgb_names other label)"

definition join_kinds :: "(string \<Rightarrow> kind list option) \<Rightarrow> string \<Rightarrow> kind list option" where
  "join_kinds other label = (if label = ''FROMEXPR'' then Some [NodeK, NodeK] else sgb_kinds other label)"

definition write_FromExpr :: "(string \<Rightarrow> string list) \<Rightarrow> node FromExpr \<Rightarrow> string" where
  "write_FromExpr names f = nodeToString (join_names names) (FromExpr_node f)"

definition read_FromExpr :: "(string \<Rightarrow> kind list option) \<Rightarrow> string \<Rightarrow> node FromExpr option" where
  "read_FromExpr kinds str = Option.bind (stringToNode (join_kinds kinds) str) node_FromExpr"

lemma read_write_FromExpr:
  assumes "node_ok (join_names names) (join_kinds kinds) (fromlist f)" "node_ok (join_names names) (join_kinds kinds) (quals f)"
  shows "read_FromExpr kinds (write_FromExpr names f) = Some (copyFromExpr f)"
proof -
  have "node_ok (join_names names) (join_kinds kinds) (FromExpr_node f)"
    using assms by (simp add: FromExpr_node_def join_names_def join_kinds_def is_blank_def is_special_def)
  from outNode_trip [OF this] show ?thesis
    by (simp add: read_FromExpr_def write_FromExpr_def FromExpr_node_def node_FromExpr_def copyFromExpr_def)
qed

section \<open>The planner\<close>

text \<open>The calls of \<open>add_paths_to_joinrel\<close>: whether the first relation is the outer one, and the join type.\<close>

fun join_orders :: "'n FromExpr \<Rightarrow> JoinType \<Rightarrow> (bool \<times> JoinType) list" where
  "join_orders jointree JOIN_INNER = (True, JOIN_INNER) # (if from_SJ_Type jointree \<noteq> 1 then [(False, JOIN_INNER)] else [])"
| "join_orders jointree JOIN_LEFT = [(True, JOIN_LEFT), (False, JOIN_RIGHT)]"
| "join_orders jointree JOIN_FULL = [(True, JOIN_FULL), (False, JOIN_FULL)]"
| "join_orders jointree JOIN_RIGHT = [(True, JOIN_RIGHT), (False, JOIN_LEFT)]"
| "join_orders jointree JOIN_IN = [(True, JOIN_IN), (True, JOIN_UNIQUE_INNER), (False, JOIN_UNIQUE_OUTER)]"
| "join_orders jointree JOIN_REVERSE_IN = [(False, JOIN_IN), (True, JOIN_UNIQUE_OUTER), (False, JOIN_UNIQUE_INNER)]"
| "join_orders jointree JOIN_UNIQUE_OUTER = [(True, JOIN_UNIQUE_OUTER), (False, JOIN_UNIQUE_INNER)]"
| "join_orders jointree JOIN_UNIQUE_INNER = [(True, JOIN_UNIQUE_INNER), (False, JOIN_UNIQUE_OUTER)]"

record 'a op_clause =
  is_opclause :: bool
  clause_opno :: nat
  clause_opfuncid :: nat
  clause_args :: "'a list"

text \<open>\<open>equal\<close> on operator clauses: an operator whose function is not yet known equals any.\<close>

definition equalOpExpr :: "'a op_clause \<Rightarrow> 'a op_clause \<Rightarrow> bool" where
  "equalOpExpr a b \<longleftrightarrow> is_opclause a = is_opclause b \<and> clause_opno a = clause_opno b \<and>
     (clause_opfuncid a = clause_opfuncid b \<or> clause_opfuncid a = 0 \<or> clause_opfuncid b = 0) \<and> clause_args a = clause_args b"

record 'a RestrictInfo =
  clause :: "'a op_clause"
  is_pushed_down :: bool
  pseudoconstant :: bool
  right_relids :: "nat list"

record 'a MergePath =
  path_jointype :: JoinType
  joinrestrictinfo :: "'a RestrictInfo list"
  path_mergeclauses :: "'a RestrictInfo list"
  outer_relids :: "nat list"

definition get_commutator :: "operator_catalog \<Rightarrow> nat \<Rightarrow> nat" where
  "get_commutator cat op = (case pg_operator cat op of Some t \<Rightarrow> oprcom t | None \<Rightarrow> 0)"

definition CommuteOpExpr :: "operator_catalog \<Rightarrow> 'a op_clause \<Rightarrow> pg_error + 'a op_clause" where
  "CommuteOpExpr cat c =
     (if \<not> is_opclause c \<or> length (clause_args c) \<noteq> 2 then Inl Internal_error
      else let opoid = get_commutator cat (clause_opno c) in
        if opoid = 0 then Inl Internal_error
        else Inr (c\<lparr>clause_opno := opoid, clause_opfuncid := 0, clause_args := [clause_args c ! 1, clause_args c ! 0]\<rparr>))"

definition get_switched_clauses :: "operator_catalog \<Rightarrow> 'a RestrictInfo list \<Rightarrow> nat list \<Rightarrow> pg_error + 'a op_clause list" where
  "get_switched_clauses cat clauses outerrelids =
     mapE (\<lambda>ri. if set (right_relids ri) \<subseteq> set outerrelids then CommuteOpExpr cat ((clause ri)\<lparr>clause_opfuncid := 0\<rparr>)
       else Inr (clause ri)) clauses"

definition order_qual_clauses :: "bool \<Rightarrow> ('a op_clause \<Rightarrow> bool) \<Rightarrow> 'a op_clause list \<Rightarrow> 'a op_clause list" where
  "order_qual_clauses hasSubLinks contain_subplans clauses =
     (if \<not> hasSubLinks then clauses
      else filter (\<lambda>c. \<not> contain_subplans c) clauses @ filter contain_subplans clauses)"

definition extract_actual_clauses :: "'a RestrictInfo list \<Rightarrow> bool \<Rightarrow> 'a op_clause list" where
  "extract_actual_clauses rs b = map clause (filter (\<lambda>ri. pseudoconstant ri = b) rs)"

definition extract_actual_join_clauses :: "'a RestrictInfo list \<Rightarrow> 'a op_clause list \<times> 'a op_clause list" where
  "extract_actual_join_clauses rs =
     (map clause (filter (\<lambda>ri. \<not> is_pushed_down ri) rs),
      map clause (filter (\<lambda>ri. is_pushed_down ri \<and> \<not> pseudoconstant ri) rs))"

definition IS_OUTER_JOIN :: "JoinType \<Rightarrow> bool" where
  "IS_OUTER_JOIN t \<longleftrightarrow> t = JOIN_LEFT \<or> t = JOIN_FULL \<or> t = JOIN_RIGHT"

record 'a join_plan =
  jp_jointype :: JoinType
  jp_joinqual :: "'a op_clause list"
  jp_qual :: "'a op_clause list"
  jp_mergeclauses :: "'a op_clause list"
  jp_SJ_Type :: int
  jp_epsilon :: int
  jp_max_diameter :: int

definition make_mergejoin :: "'a op_clause list \<Rightarrow> 'a op_clause list \<Rightarrow> 'a op_clause list \<Rightarrow> JoinType \<Rightarrow> 'a join_plan" where
  "make_mergejoin joinclauses otherclauses mclauses jt = \<lparr>jp_jointype = jt, jp_joinqual = joinclauses, jp_qual = otherclauses,
     jp_mergeclauses = mclauses, jp_SJ_Type = 0, jp_epsilon = 0, jp_max_diameter = 0\<rparr>"

definition create_mergejoin_plan :: "operator_catalog \<Rightarrow> bool \<Rightarrow> ('a op_clause \<Rightarrow> bool) \<Rightarrow> 'n FromExpr \<Rightarrow> 'a MergePath \<Rightarrow>
    pg_error + 'a join_plan" where
  "create_mergejoin_plan cat hasSubLinks contain_subplans jointree best_path =
     (let (joinclauses, otherclauses) =
            (if IS_OUTER_JOIN (path_jointype best_path) then extract_actual_join_clauses (joinrestrictinfo best_path)
             else (extract_actual_clauses (joinrestrictinfo best_path) False, []));
          joinclauses' = filter (\<lambda>c. \<not> list_ex (equalOpExpr c \<circ> clause) (path_mergeclauses best_path)) joinclauses in
      bindE (get_switched_clauses cat (path_mergeclauses best_path) (outer_relids best_path)) (\<lambda>mclauses.
      let order = order_qual_clauses hasSubLinks contain_subplans in
      Inr ((make_mergejoin (order joinclauses') (order otherclauses) mclauses (path_jointype best_path))
        \<lparr>jp_SJ_Type := from_SJ_Type jointree, jp_epsilon := from_epsilon jointree, jp_max_diameter := from_max_diameter jointree\<rparr>)))"

definition copyMergeJoin :: "'a join_plan \<Rightarrow> 'a join_plan" where
  "copyMergeJoin from = \<lparr>jp_jointype = jp_jointype from, jp_joinqual = jp_joinqual from, jp_qual = jp_qual from,
     jp_mergeclauses = jp_mergeclauses from, jp_SJ_Type = 0, jp_epsilon = 0, jp_max_diameter = 0\<rparr>"

section \<open>The executable plan\<close>

text \<open>\<open>init_arg\<close> and \<open>init_qual\<close> prepare expressions for execution (\<open>ExecInitExpr\<close>).\<close>

definition set_opfuncid :: "operator_catalog \<Rightarrow> 'a op_clause \<Rightarrow> 'a op_clause" where
  "set_opfuncid cat c = (if clause_opfuncid c = 0 then c\<lparr>clause_opfuncid := get_opcode cat (clause_opno c)\<rparr> else c)"

definition init_clause :: "('a \<Rightarrow> slot \<Rightarrow> pg_error + int option) \<Rightarrow> 'a op_clause \<Rightarrow> OpExpr" where
  "init_clause init_arg c = \<lparr>is_OpExpr = is_opclause c, opno = clause_opno c, opfuncid = clause_opfuncid c,
     left_arg = init_arg (clause_args c ! 0), right_arg = init_arg (clause_args c ! 1)\<rparr>"

definition init_plan :: "operator_catalog \<Rightarrow> ('a \<Rightarrow> slot \<Rightarrow> pg_error + int option) \<Rightarrow> ('a op_clause list \<Rightarrow> join_qual) \<Rightarrow>
    'a join_plan \<Rightarrow> MergeJoinPlan" where
  "init_plan cat init_arg init_qual p = \<lparr>plan_jointype = jp_jointype p, plan_joinqual = init_qual (jp_joinqual p),
     plan_qual = init_qual (jp_qual p), mergeclauses = map (init_clause init_arg \<circ> set_opfuncid cat) (jp_mergeclauses p),
     SJ_Type = jp_SJ_Type p, plan_epsilon = jp_epsilon p, max_diameter = jp_max_diameter p\<rparr>"

definition start_join :: "operator_catalog \<Rightarrow> bool \<Rightarrow> ('a \<Rightarrow> slot \<Rightarrow> pg_error + int option) \<Rightarrow> ('a op_clause list \<Rightarrow> join_qual) \<Rightarrow>
    slot list \<Rightarrow> slot list \<Rightarrow> 'a join_plan \<Rightarrow> pg_error + MergeJoinNode \<times> MergeJoinState" where
  "start_join cat null_end init_arg init_qual outer inner p = ExecInitMergeJoin cat null_end outer inner (init_plan cat init_arg init_qual p)"

section \<open>The run of a similarity join\<close>

text \<open>The planner's work on a join on the equality of two \<open>int4\<close> expressions, up to the first call of the node.\<close>

definition int4_equality :: "'a \<Rightarrow> 'a \<Rightarrow> 'a op_clause" where
  "int4_equality x y = \<lparr>is_opclause = True, clause_opno = 96, clause_opfuncid = 65, clause_args = [x, y]\<rparr>"

definition single_path :: "'a RestrictInfo \<Rightarrow> nat list \<Rightarrow> 'a MergePath" where
  "single_path ri rels = \<lparr>path_jointype = JOIN_INNER, joinrestrictinfo = [ri], path_mergeclauses = [ri], outer_relids = rels\<rparr>"

definition pairs :: "(slot \<Rightarrow> slot \<Rightarrow> bool) \<Rightarrow> slot list \<Rightarrow> slot list \<Rightarrow> joined list" where
  "pairs match outer inner = concat (map (\<lambda>s. map (\<lambda>t. (Some s, Some t)) (filter (match s) inner)) outer)"

definition equality_of :: "('a \<Rightarrow> slot \<Rightarrow> pg_error + int option) \<Rightarrow> 'a RestrictInfo \<Rightarrow> nat list \<Rightarrow> (slot \<Rightarrow> int option) \<Rightarrow>
    (slot \<Rightarrow> int option) \<Rightarrow> bool" where
  "equality_of init_arg ri rels lk rk \<longleftrightarrow> \<not> pseudoconstant ri \<and>
     (\<exists>x y. clause ri = int4_equality x y \<and>
       (if set (right_relids ri) \<subseteq> set rels then init_arg y = (\<lambda>s. Inr (lk s)) \<and> init_arg x = (\<lambda>s. Inr (rk s))
        else init_arg x = (\<lambda>s. Inr (lk s)) \<and> init_arg y = (\<lambda>s. Inr (rk s))))"

lemma equalOpExpr_refl [simp]: "equalOpExpr c c"
  by (simp add: equalOpExpr_def)

lemma switched_single:
  assumes "int4_catalog cat" "equality_of init_arg ri rels lk rk"
  shows "\<exists>c. get_switched_clauses cat [ri] rels = Inr [c] \<and> init_clause init_arg (set_opfuncid cat c) = int4_equal lk rk"
proof -
  have cat: "get_commutator cat 96 = 96" "get_opcode cat 96 = 65"
    using assms(1) by (simp_all add: int4_catalog_def get_commutator_def)
  then show ?thesis
    using assms(2) by (cases "set (right_relids ri) \<subseteq> set rels")
      (auto simp: equality_of_def get_switched_clauses_def CommuteOpExpr_def int4_equality_def init_clause_def set_opfuncid_def
        int4_equal_def Let_def)
qed

abbreviation started_join :: "int \<Rightarrow> (slot \<Rightarrow> int option) \<Rightarrow> (slot \<Rightarrow> int option) \<Rightarrow> slot list \<Rightarrow> slot list \<Rightarrow> MergeJoinState" where
  "started_join t lk rk outer inner \<equiv>
     \<lparr>mj_Clauses = [int4_clause (if t = 0 then MERGEFUNC_CMP else MERGEFUNC_LT) lk rk (Some 0) (Some 0) (Some 0)],
      mj_JoinState = INITIALIZE_OUTER, mj_MatchedOuter = False, mj_MatchedInner = False, mj_OuterTupleSlot = None,
      mj_InnerTupleSlot = None, mj_MarkedTupleSlot = None, mj_PreviousInnerTupleSlot = None, mj_InnerCopyTupleSlot = None,
      mj_FirstMarkedSlot = None, mj_outer = outer, mj_inner = inner, mj_mark = []\<rparr>"

lemma start_single:
  assumes "int4_catalog cat" "equality_of init_arg ri rels lk rk" "init_qual [] = None" "from_SJ_Type tree \<in> {0, 1, 2}"
  shows "bindE (create_mergejoin_plan cat subl csp tree (single_path ri rels)) (start_join cat null_end init_arg init_qual outer inner) =
    Inr ((inner_join (from_SJ_Type tree) (from_epsilon tree))\<lparr>null_at_end := null_end\<rparr>,
      started_join (from_SJ_Type tree) lk rk outer inner)"
proof -
  from switched_single [OF assms(1,2)] obtain c where c: "get_switched_clauses cat [ri] rels = Inr [c]"
    "init_clause init_arg (set_opfuncid cat c) = int4_equal lk rk" by blast
  have "extract_actual_clauses [ri] False = [clause ri]"
    using assms(2) by (simp add: equality_of_def extract_actual_clauses_def)
  then show ?thesis
    using assms(3,4) c MJExamineQuals_int4 [OF assms(1), of lk rk] MJExamineQuals_AddsMinus_int4 [OF assms(1), of lk rk]
    by (auto simp: create_mergejoin_plan_def single_path_def IS_OUTER_JOIN_def order_qual_clauses_def make_mergejoin_def
        start_join_def init_plan_def ExecInitMergeJoin_def fill_flags_def examine_clauses_def Let_def)
qed

lemma join_group_plain:
  "jointype node = JOIN_INNER \<Longrightarrow> \<not> mj_FillOuter node \<Longrightarrow> joinqual node = None \<Longrightarrow> otherqual node = None \<Longrightarrow>
    join_group node s m is = map (\<lambda>t. (Some s, Some t)) is"
  by (induction "is" arbitrary: m) (auto simp: holds_def ExecQual_def)

lemma nested_loop_plain:
  "nested_loop ((inner_join t eps)\<lparr>null_at_end := b\<rparr>) match outer inner = pairs match outer inner"
  by (simp add: nested_loop_def pairs_def join_group_plain)

lemma started_rescan: "ExecReScanMergeJoin outer inner (started_join t lk rk outer inner) = started_join t lk rk outer inner"
  by (simp add: ExecReScanMergeJoin_def)

lemma copied_plan:
  "bindE (create_mergejoin_plan cat subl csp tree path) (\<lambda>p. Inr (copyMergeJoin p)) =
    create_mergejoin_plan cat subl csp (copyFromExpr tree) path"
  by (cases "get_switched_clauses cat (path_mergeclauses path) (outer_relids path)")
     (simp_all add: create_mergejoin_plan_def copyMergeJoin_def copyFromExpr_def make_mergejoin_def Let_def split: prod.split)

text \<open>C3. The query \<open>x WITHIN eps OF y\<close> with a merge join returns exactly the pairs of rows whose values differ by at
  most \<open>eps\<close>, each once, whichever relation the planner makes the outer one: from the grammar's action through
  the join tree, the plan with its switched clause and the set-up to the rows of the calls. Here \<open>eps\<close> is not 0
  (\<open>WITHIN 0\<close> runs as \<open>AROUND\<close>, see \<open>within_zero\<close>) and no subtraction of two values overflows (\<open>computable\<close>).\<close>

theorem within_query_rows:
  assumes "eps \<noteq> 0" "int4_catalog cat" "equality_of init_arg ri rels lk rk" "init_qual [] = None"
    "sorted_by lk outer" "sorted_by rk inner" "computable subtractable lk rk outer inner"
  and tree_def: "tree = transformSelectStmt_jointree foreign transformWhere joinlist (Some (AExprNode (sj_expr_action (WITHIN x eps y))))"
  shows "\<exists>node st z. bindE (create_mergejoin_plan cat subl csp tree (single_path ri rels))
      (start_join cat null_end init_arg init_qual outer inner) = Inr (node, st) \<and>
    calls (call_join node) st (pairs (\<lambda>s t. near eps (lk s) (rk t)) outer inner) z"
proof -
  let ?node = "(inner_join 1 eps)\<lparr>null_at_end := null_end\<rparr>" and ?st = "started_join 1 lk rk outer inner"
  have tree: "from_SJ_Type tree = 1" "from_epsilon tree = eps"
    using assms(1) by (simp_all add: tree_def transformSelectStmt_jointree_def similarity_of_def makeSJ_Expr_def makeFromExpr_def)
  have "mj_rows ?node (ExecReScanMergeJoin outer inner ?st) = Inr (nested_loop ?node (\<lambda>s t. near eps (lk s) (rk t)) outer inner)"
    by (rule epsilon_join.rescan_rows) (use assms in \<open>simp_all add: epsilon_join.near_node_def\<close>)
  from mj_rows_called [OF this] obtain z where
    "calls (call_join ?node) ?st (pairs (\<lambda>s t. near eps (lk s) (rk t)) outer inner) z"
    unfolding nested_loop_plain started_rescan by blast
  then show ?thesis
    using start_single [of cat init_arg ri rels lk rk init_qual tree subl csp null_end outer inner] assms(2-4) tree by auto
qed

text \<open>C34. A copy of a similarity join forgets the similarity: the query planned from a copied join tree (a prepared
  statement, a cursor, a function), from a tree read back from its text (a view), and a copied plan all
  return the pairs of equal values, whatever the query asked for.\<close>

theorem copied_query_rows:
  assumes "int4_catalog cat" "equality_of init_arg ri rels lk rk" "init_qual [] = None" "sorted_by lk outer" "sorted_by rk inner"
    "node_ok (join_names names) (join_kinds kinds) (fromlist tree)" "node_ok (join_names names) (join_kinds kinds) (quals tree)"
    "plan \<in> {create_mergejoin_plan cat subl csp (copyFromExpr tree) (single_path ri rels),
      create_mergejoin_plan cat subl csp (the (read_FromExpr kinds (write_FromExpr names tree))) (single_path ri rels),
      bindE (create_mergejoin_plan cat subl csp tree (single_path ri rels)) (\<lambda>p. Inr (copyMergeJoin p))}"
  shows "\<exists>node st z. bindE plan (start_join cat null_end init_arg init_qual outer inner) = Inr (node, st) \<and>
    calls (call_join node) st (pairs (\<lambda>s t. lk s \<noteq> None \<and> lk s = rk t) outer inner) z"
proof -
  let ?node = "\<lambda>eps. (inner_join 0 eps)\<lparr>null_at_end := null_end\<rparr>" and ?st = "started_join 0 lk rk outer inner"
  have copies: "plan = create_mergejoin_plan cat subl csp (copyFromExpr tree) (single_path ri rels)"
    using assms(8) read_write_FromExpr [OF assms(6,7)] copied_plan [of cat subl csp tree] by auto
  have "mj_rows (?node 0) (ExecReScanMergeJoin outer inner ?st) = Inr (nested_loop (?node 0) (\<lambda>s t. near 0 (lk s) (rk t)) outer inner)"
    by (rule equality_join.rescan_rows) (use assms in \<open>simp_all add: equality_join.near_node_def computable_def\<close>)
  from mj_rows_called [OF this] obtain z where
    "calls (call_join (?node 0)) ?st (pairs (\<lambda>s t. lk s \<noteq> None \<and> lk s = rk t) outer inner) z"
    unfolding nested_loop_plain started_rescan near_zero by blast
  then show ?thesis
    using start_single [of cat init_arg ri rels lk rk init_qual "copyFromExpr tree" subl csp null_end outer inner] assms(1-3) copies
    by (auto simp: copyFromExpr_def)
qed

text \<open>C35. The query \<open>x AROUND y\<close> answers for the relation that the planner makes the outer one, and both orders
  are planned: every outer row is paired with the closest inner row, whether the outer row is of \<open>x\<close> or
  of \<open>y\<close>.\<close>

theorem around_query_rows:
  assumes "int4_catalog cat" "equality_of init_arg ri rels lk rk" "init_qual [] = None"
    "sorted_by lk outer" "increasing rk inner" "computable subtractable lk rk outer inner"
  and tree_def: "tree = transformSelectStmt_jointree foreign transformWhere joinlist (Some (AExprNode (sj_expr_action (AROUND x y))))"
  shows "join_orders tree JOIN_INNER = [(True, JOIN_INNER), (False, JOIN_INNER)] \<and>
    (\<exists>node st z. bindE (create_mergejoin_plan cat subl csp tree (single_path ri rels))
      (start_join cat False init_arg init_qual outer inner) = Inr (node, st) \<and>
    calls (call_join node) st (pairs (\<lambda>s t. JoinAround.closest rk inner (lk s) t) outer inner) z)"
proof -
  let ?node = "(inner_join 2 0)\<lparr>null_at_end := False\<rparr>" and ?st = "started_join 2 lk rk outer inner"
  have tree: "from_SJ_Type tree = 2" "from_epsilon tree = 0"
    by (simp_all add: tree_def transformSelectStmt_jointree_def similarity_of_def makeSJ_Expr_def makeFromExpr_def)
  have "mj_rows ?node (ExecReScanMergeJoin outer inner ?st) = Inr (nested_loop ?node (\<lambda>s t. JoinAround.closest rk inner (lk s) t) outer inner)"
    by (rule around_run) (use assms in simp_all)
  from mj_rows_called [OF this] obtain z where
    "calls (call_join ?node) ?st (pairs (\<lambda>s t. JoinAround.closest rk inner (lk s) t) outer inner) z"
    unfolding nested_loop_plain started_rescan by blast
  then show ?thesis
    using start_single [of cat init_arg ri rels lk rk init_qual tree subl csp False outer inner] assms(1-3) tree by auto
qed

section \<open>Examples\<close>

text \<open>The clause \<open>1 = 2\<close> between column 1 of relation 1 and column 2 of relation 2.\<close>

definition demo_info :: "nat RestrictInfo" where
  "demo_info = \<lparr>clause = int4_equality 1 2, is_pushed_down = True, pseudoconstant = False, right_relids = [2]\<rparr>"

abbreviation demo_tree :: "string sj_expr \<Rightarrow> node FromExpr" where
  "demo_tree e \<equiv> transformSelectStmt_jointree (\<lambda>_. (0, 0, 0)) (\<lambda>_. NullNode) NullNode (Some (AExprNode (sj_expr_action e)))"

abbreviation demo_plan :: "node FromExpr \<Rightarrow> nat list \<Rightarrow> pg_error + nat join_plan" where
  "demo_plan tree rels \<equiv> create_mergejoin_plan initial_catalog False (\<lambda>_. False) tree (single_path demo_info rels)"

abbreviation demo_start :: "slot list \<Rightarrow> slot list \<Rightarrow> nat join_plan \<Rightarrow> pg_error + MergeJoinNode \<times> MergeJoinState" where
  "demo_start outer inner \<equiv> start_join initial_catalog False (\<lambda>_ s. Inr (first_column s)) (\<lambda>_. None) outer inner"

lemma demo_equality_of [simp]: "equality_of (\<lambda>_ s. Inr (first_column s)) demo_info rels first_column first_column"
  by (auto simp: equality_of_def demo_info_def)

lemma demo_tree_fields: "fromlist (demo_tree e) = NullNode" "quals (demo_tree e) = NullNode"
  by (simp_all add: transformSelectStmt_jointree_def makeFromExpr_def similarity_of_def)

lemma within_query_rows_witness:
  "\<exists>node st z. bindE (demo_plan (demo_tree (WITHIN ''x'' 2 ''y'')) [2])
      (demo_start [[Some 1], [Some 4], [None]] [[Some 2], [Some 3], [Some 9], [None]]) = Inr (node, st) \<and>
    calls (call_join node) st
      [(Some [Some 1], Some [Some 2]), (Some [Some 1], Some [Some 3]), (Some [Some 4], Some [Some 2]), (Some [Some 4], Some [Some 3])] z"
  using within_query_rows [of 2 initial_catalog "\<lambda>_ s. Inr (first_column s)" demo_info "[2]" first_column first_column "\<lambda>_. None"
      "[[Some 1], [Some 4], [None]]" "[[Some 2], [Some 3], [Some 9], [None]]" "demo_tree (WITHIN ''x'' 2 ''y'')"
      "\<lambda>_. (0, 0, 0)" "\<lambda>_. NullNode" NullNode "''x''" "''y''" False "\<lambda>_. False" False]
  by (simp add: int4_initial_catalog pairs_def near_def computable_def subtractable_def int32_def
      del: calls_Cons sj_expr_action.simps)

lemma copied_query_rows_witness:
  "\<exists>node st z. bindE (demo_plan (copyFromExpr (demo_tree (WITHIN ''x'' 2 ''y''))) [2])
      (demo_start [[Some 1], [Some 4], [None]] [[Some 3], [Some 4], [None]]) = Inr (node, st) \<and>
    calls (call_join node) st [(Some [Some 4], Some [Some 4])] z"
  using copied_query_rows [of initial_catalog "\<lambda>_ s. Inr (first_column s)" demo_info "[2]" first_column first_column "\<lambda>_. None"
      "[[Some 1], [Some 4], [None]]" "[[Some 3], [Some 4], [None]]" "\<lambda>_. []" "\<lambda>_. None" "demo_tree (WITHIN ''x'' 2 ''y'')"
      "demo_plan (copyFromExpr (demo_tree (WITHIN ''x'' 2 ''y''))) [2]" False "\<lambda>_. False" False]
  by (simp add: int4_initial_catalog pairs_def demo_tree_fields del: calls_Cons sj_expr_action.simps)

text \<open>The two orders answer different questions: \<open>x\<close> holds 1, \<open>y\<close> holds 2 and 3.\<close>

lemma around_query_rows_witness:
  "(\<exists>node st z. bindE (demo_plan (demo_tree (AROUND ''x'' ''y'')) [1]) (demo_start [[Some 1]] [[Some 2], [Some 3]]) = Inr (node, st) \<and>
     calls (call_join node) st [(Some [Some 1], Some [Some 2])] z) \<and>
   (\<exists>node st z. bindE (demo_plan (demo_tree (AROUND ''x'' ''y'')) [2]) (demo_start [[Some 2], [Some 3]] [[Some 1]]) = Inr (node, st) \<and>
     calls (call_join node) st [(Some [Some 2], Some [Some 1]), (Some [Some 3], Some [Some 1])] z)"
  using around_query_rows [of initial_catalog "\<lambda>_ s. Inr (first_column s)" demo_info "[1]" first_column first_column "\<lambda>_. None"
      "[[Some 1]]" "[[Some 2], [Some 3]]" "demo_tree (AROUND ''x'' ''y'')"
      "\<lambda>_. (0, 0, 0)" "\<lambda>_. NullNode" NullNode "''x''" "''y''" False "\<lambda>_. False"]
    around_query_rows [of initial_catalog "\<lambda>_ s. Inr (first_column s)" demo_info "[2]" first_column first_column "\<lambda>_. None"
      "[[Some 2], [Some 3]]" "[[Some 1]]" "demo_tree (AROUND ''x'' ''y'')"
      "\<lambda>_. (0, 0, 0)" "\<lambda>_. NullNode" NullNode "''x''" "''y''" False "\<lambda>_. False"]
  by (simp add: int4_initial_catalog pairs_def JoinAround.closest_def computable_def subtractable_def int32_def
      del: calls_Cons sj_expr_action.simps)

end
