(* ===== verification/Spec2Isabelle.thy ===== *)
theory Spec2Isabelle
  imports AggQuery AggStream RowNodes SimJoin
begin

text \<open>
  The similarity group-by and join operators that this repository adds to PostgreSQL 8.2.4, as executable HOL
  functions with the theorems that make them correct. All paths are below
  \<^verbatim>\<open>src/postgresql-8.2.4/src/backend/\<close> (headers below \<^verbatim>\<open>src/postgresql-8.2.4/src/include/\<close>).

  \<^bold>\<open>The program.\<close> A query carries similarity clauses after \<open>GROUP BY\<close>: \<open>AROUND\<close> a subselect of
  centres, a maximal group diameter, a maximal element separation, \<open>DISTANCE-ALL WITHIN\<close> with an
  overlap clause, \<open>DISTANCE-ANY WITHIN\<close>, and a metric. The analysis
  (\<^verbatim>\<open>parser/parse_clause.c\<close>) turns them into flags and grouping clauses, the planner
  (\<^verbatim>\<open>optimizer/plan/planner.c\<close>) into an \<open>Agg\<close> node over a possibly sorted input, and \<open>ExecAgg\<close>
  (\<^verbatim>\<open>executor/nodeAgg.c\<close>) chooses an operator by the fields of the node. An operator fills a hash
  table of groups in one pass over the outer plan and then returns a row for every group. The two
  operators on two columns find candidate groups or neighbours in an R-tree
  (\<^verbatim>\<open>executor/rtreeM.c\<close>): SGB-All keeps a bounding box, and with metric 2 a convex hull
  (\<^verbatim>\<open>executor/convexhullM.c\<close>), for each group, SGB-Any joins neighbours in disjoint sets
  (\<^verbatim>\<open>executor/disjointSetM.c\<close>). The operators on one column need sorted input. The similarity joins \<open>x WITHIN e OF y\<close> and \<open>x AROUND y\<close> of the
  \<open>WHERE\<close> clause mark the join tree, and the merge join (\<^verbatim>\<open>executor/nodeMergejoin.c\<close>) compares with the mark.

  \<^bold>\<open>Theories.\<close>

  \<^item> \<open>SGB_Prelude\<close>: the C \<open>int\<close> (unbounded integers with the wrap-around written out), slots and
    \<open>slot_getattr\<close>, shared lemmas. \<open>C_Double\<close>: binary64 arithmetic of the C \<open>double\<close>.
  \<^item> \<open>LinkListM\<close>: \<^verbatim>\<open>executor/linkListM.c\<close>, tuple lists, hash buckets and candidate groups
    (\<open>tmpGroup\<close>). The buckets refine a set of members; joining a group keeps all members.
  \<^item> \<open>DisjointSetM\<close>: \<^verbatim>\<open>executor/disjointSetM.c\<close>. The element array is a map from indices; \<open>FindSet\<close>
    ends, compression and union act on the partition as they should. The contract is the locale
    \<open>union_find\<close>, which the operator's proofs use.
  \<^item> \<open>RTreeMBR\<close>, \<open>RTreeSplit\<close>, \<open>RTreeInsert\<close>, \<open>RTreeSearch\<close>, \<open>RTreeDelete\<close>: \<^verbatim>\<open>executor/rtreeM.c\<close>, with
    nodes as trees instead of pointers. Well-formedness (balance, minimal fill, covering
    rectangles) is kept, an insertion adds and a deletion removes exactly its record, a search
    reports exactly the records that pass its test. The contract is the locale \<open>spatial_index\<close>.
  \<^item> \<open>ConvexHullM\<close>: \<^verbatim>\<open>executor/convexhullM.c\<close>. \<open>SGBHelper\<close>, \<open>SGBIntersect\<close>:
    \<^verbatim>\<open>executor/nodeAggHelperSGBAll.c\<close> and \<^verbatim>\<open>executor/nodeAgghelperSGBAny.c\<close>, boxes, distances, slots
    and the scans that cut overlaps out of groups. The box test is exact for the L-infinity
    distance; \<open>InsideBound\<close> is the Euclidean one below \<open>2 ^ 15\<close> and wraps around above.
  \<^item> \<open>AggState\<close>: the plan node, the aggregation state of \<^verbatim>\<open>nodes/execnodes.h\<close>, what \<open>ExecInitAgg\<close>
    allocates in it, the lookups in the hash table, and \<open>agg_retrieve_hash_table\<close>.
  \<^item> \<open>SGBAll\<close>, \<open>SGBAllL2\<close>, \<open>SGBNewGroup\<close>, \<open>SGBNewGroupInv\<close>, \<open>SGBToAll\<close>, \<open>SGBNewGroupRun\<close>: the SGB-All
    operator. The handlers of a tuple, one for each metric and overlap clause, refine step
    relations on lists of groups (\<open>all_any\<close>, \<open>all_elim\<close>, \<open>l2_any\<close>, \<open>l2_elim\<close>, and the invariant
    \<open>ng_inv\<close> of NEW-GROUP); the locale \<open>refined_reader\<close> lifts a step to the input loop. The groups
    are cliques of the distance, a partition of the input under ANY, disjoint otherwise, and the
    rows are their finalised aggregates.
  \<^item> \<open>SGBAny\<close>, \<open>SGBAnyRows\<close>: the SGB-Any operator. The sets are connected components up to 13 points
    and never join unconnected ones; the traversal ends, but can miss tuples.
  \<^item> \<open>AroundMatch\<close>: the tests of \<^verbatim>\<open>executor/execGrouping.c\<close> over the \<open>int4\<close> operators of
    \<^verbatim>\<open>utils/adt/int.c\<close>, which raise an error on overflow (\<open>None\<close>). \<open>SGBAround\<close>: the operators on one
    column, and standard grouping. \<open>AroundRun\<close>: the contract of a table of groups (locale
    \<open>group_table\<close>, kept by the hash table) and \<open>AROUND\<close>; \<open>AroundLimits\<close>: the limits and unsupervised
    grouping; \<open>AroundSorted\<close>: the operators on sorted input, whose rows are those of the runs of
    the input.
  \<^item> \<open>NodeAggExec\<close>: \<open>ExecAgg\<close> over all operators. \<open>SGBPlanner\<close>: the way from the statement to the
    operator, and the copies of plan nodes. \<open>QueryRun\<close>: a whole query, from the statement to its rows.
  \<^item> \<open>AggStream\<close>: the hashed node as a state machine, one call for one row, and \<open>ExecReScanAgg\<close> between
    the calls. The calls end and return the rows of \<open>NodeAggExec\<close>; a rescan repeats them. \<open>RowCalls\<close>: the
    contract of a node that returns a row for each call. \<open>RowNodes\<close>: the same for sorted aggregation, sorted
    \<open>AROUND\<close> and the \<open>Group\<close> node (\<^verbatim>\<open>executor/nodeGroup.c\<close>), all instances
    of the locale \<open>row_node\<close>, the first and the last of \<open>rescanned_node\<close>.
  \<^item> \<open>AggEval\<close>, \<open>AggBuiltin\<close>, \<open>AggDistinct\<close>, \<open>AggInit\<close>: the aggregates. \<open>AggEval\<close> is the evaluation in
    \<^verbatim>\<open>executor/nodeAgg.c\<close> (strict functions, NULLs, DISTINCT), \<open>AggBuiltin\<close> has count, max, min, sum and
    avg of \<open>int4\<close> (\<^verbatim>\<open>utils/adt/int8.c\<close>, \<^verbatim>\<open>int.c\<close>, \<^verbatim>\<open>numeric.c\<close>), whose contract is the locale \<open>aggregate\<close>: on
    inputs it accepts the run is the result, whatever the order of the tuples. \<open>AggInit\<close> is the loop
    of \<open>ExecInitAgg\<close> over the aggregate references. \<open>AggQuery\<close>: a whole query with these aggregates.
  \<^item> \<open>NodeText\<close>, \<open>NodeTrip\<close>: the text of nodes (\<^verbatim>\<open>nodes/outfuncs.c\<close>, \<^verbatim>\<open>nodes/read.c\<close>,
    \<^verbatim>\<open>nodes/readfuncs.c\<close>), which reads back as the node. \<open>StoredQuery\<close>: what a view keeps of a
    similarity query, and how it then runs.
  \<^item> \<open>MergeJoin\<close>: the merge join of \<^verbatim>\<open>executor/nodeMergejoin.c\<close> with its similarity predicates, as a state
    machine; every call returns and the calls end. \<open>NearJoin\<close>: the contract of a merge clause (locales
    \<open>merge_clause\<close>, \<open>near_clause\<close>, instances for equality and for epsilon), a simulation, and with it: the join
    is a nested loop over the near pairs. \<open>JoinAround\<close>: the join \<open>AROUND\<close> (locale \<open>around_clause\<close>) and where it
    fails. \<open>MergeJoinInit\<close>: the set-up from the catalogs. \<open>SimJoin\<close>: from the grammar to the plan, and the run of
    a whole join; copies are equality joins.

  \<^bold>\<open>Conventions.\<close> The outer and inner plan are the lists of the slots they return; a run of an
  operator is a function from the state to the state, or to \<open>None\<close> when an assertion fails, an
  error is raised, a NULL pointer is followed, or memory outside of an array is read or written. The state
  that a run starts from is the one \<open>ExecInitAgg\<close> leaves (\<open>ExecInitAgg_state\<close>, or \<open>all_start\<close>, \<open>any_start\<close>,
  \<open>empty_table\<close>, which say what of it is used). A pointer to an entry of the hash table is
  its key. The transition state of the aggregates is of any type for the operators: \<open>init\<close>,
  \<open>advance\<close> and the final functions are their parameters, which \<open>AggQuery\<close> instantiates with the
  evaluation of \<open>AggEval\<close>; there an error is a value of the sum type \<open>pg_error + 'a\<close>, and the catalogs
  are a record of functions. Parameters are \<open>HAVING\<close>, the order of scans of the hash table
  (\<open>scan_ok\<close>: every entry once), \<open>acos\<close>, the results of \<open>rand\<close>, and the contents of fresh memory.
  The grouping columns are the first ones, of type \<open>int4\<close>.

  \<^bold>\<open>Bounds.\<close> Points have coordinates up to \<open>2 ^ 23\<close> (\<open>pt_ok\<close>) and distances are up to \<open>2 ^ 23\<close>
  and above 0 (\<open>eps_ok\<close>, \<open>any_plan\<close>: for the distance 0 \<open>ExecInitAgg\<close> allocates neither \<open>hasharray\<close> nor the
  disjoint sets), so that boxes are exact in \<open>int\<close> and in \<open>double\<close>; values for \<open>AROUND\<close> are up to \<open>2 ^ 29\<close>
  (\<open>av_ok\<close>), so that no subtraction overflows; \<open>hasharray\<close> and the result arrays of
  a search have 2,000,000 cells (\<open>sizeofgroup\<close>), so the theorems about the rows of SGB-All and SGB-Any are for
  inputs that fit; the disjoint sets hold up to 3,000,000 points. The ids of records in a search are an \<open>int\<close>. In
  the joins every difference of two values is an \<open>int\<close> (\<open>subtractable\<close>). The traversal of \<open>n\<close> elements has
  fuel, and enough of it for every input, since it visits no tuple twice (\<open>DFS_stays_in_set\<close>). The reader of nodes has two units of fuel for each character, enough for every text that was written
  (\<open>cost_length\<close>). The other loops are structural, have a measure, or are partial functions whose termination
  is proved.

  \<^bold>\<open>Defects shown.\<close> Evaluations and theorems show where the code departs from its intent: copies of
  plan nodes lose the overlap clause, the metric and \<open>DISTANCE-ANY\<close>; a distance without aggregates is
  ignored; SGB-Any can miss tuples; NEW-GROUP on one or two tuples returns untouched aggregates;
  the metric \<open>LONE\<close> is L-infinity; \<open>AROUND\<close> needs ascending input without NULLs, its sorted form
  ignores limits and trusts the first tuple, and its separation keeps and loses wrong chains; the
  squared distance wraps around; searches for enclosed records stop early; a rescan of SGB-All with
  changed parameters reads freed entries, one of sorted \<open>AROUND\<close> has one group; views lose the overlap clause, the metric and
  \<open>DISTANCE-ANY\<close>, so that a view of \<open>DISTANCE-ALL\<close> is empty; the empty string and bit strings do not
  read back. A copied similarity join is an equality join; \<open>AROUND\<close> depends on the join order, takes the wrong side
  of equal inner values, reads a NULL as 0 and can crash at the end of the inner plan; an epsilon join ends on
  overflow, and as a \<open>RIGHT\<close> join fills rows that were joined; \<open>WITHIN 0\<close> is \<open>AROUND\<close>. The distance 0 of the
  group-by is written through NULL, and groups past 2,000,000 are written past the end of \<open>hasharray\<close>.

  \<^bold>\<open>Not modelled.\<close> Projections and expressions, the expression contexts, slots and memory contexts
  of \<open>ExecInitAgg\<close>, \<open>ExecEndAgg\<close> (calls of the executor); other
  aggregate functions; printing and freeing of memory; the text of node types other than queries,
  grouping clauses and join trees (tables of their fields are parameters); the generated parser; paths, costs and
  target lists of the planner (its decisions from them are parameters);
  \<open>sgb_newgroup_iteration_l1\<close>, \<open>sgb_newgroup_iteration_l2\<close> and \<open>agg_retrieve_direct_DIST\<close>, which are
  never called; the subplans of a merge join (they are the rows they return), nested loops and hash joins and all standard
  PostgreSQL code. For NEW-GROUP with metric 2 the handlers are defined, but no theorem about a whole
  input is proved.
\<close>

end
